(* ===== verification/Prelude.thy ===== *)
theory Prelude
  imports Main "HOL-Library.Word"
begin

unbundle bit_operations_syntax

text \<open>
  Shared vocabulary of the JOS development.

  \<^item> machine integers: \<open>byte\<close>, \<open>u16\<close>, \<open>u32\<close>, \<open>u64\<close>;
  \<^item> results: an operation of the kernel either returns a value or stops with a
    \<open>fault\<close> (a null dereference, an access outside an object, a failed
    \<^verbatim>\<open>assert\<close> or a \<^verbatim>\<open>panic\<close>); ordinary error codes are returned values;
  \<^item> byte arrays: \<open>blit\<close> overwrites a window of an array, and the checked
    accesses \<open>mem_read\<close> and \<open>mem_write\<close> stop with \<open>OutOfBounds\<close>;
  \<^item> the console: the text that \<^verbatim>\<open>cprintf\<close> has printed.
\<close>

type_synonym byte = "8 word"
type_synonym u16 = "16 word"
type_synonym u32 = "32 word"
type_synonym u64 = "64 word"

named_theorems layout_simps \<open>sizes and offsets of packed structures\<close>
named_theorems wf_simps \<open>well-formedness of machine states\<close>
named_theorems frame_simps \<open>parts of the state an operation leaves alone\<close>

section \<open>Results and faults\<close>

datatype fault = NullDeref | OutOfBounds | AssertFail | KernPanic

type_synonym 'a res = "fault + 'a"

definition bind_res :: "'a res \<Rightarrow> ('a \<Rightarrow> 'b res) \<Rightarrow> 'b res" where
  "bind_res m f = (case m of Inl e \<Rightarrow> Inl e | Inr x \<Rightarrow> f x)"

lemma bind_res_simps [simp]:
  "bind_res (Inl e) f = Inl e"
  "bind_res (Inr x) f = f x"
  by (simp_all add: bind_res_def)

lemma bind_res_Inr_iff: "bind_res m f = Inr y \<longleftrightarrow> (\<exists>x. m = Inr x \<and> f x = Inr y)"
  by (cases m) auto

lemma bind_res_Inl_iff: "bind_res m f = Inl e \<longleftrightarrow> m = Inl e \<or> (\<exists>x. m = Inr x \<and> f x = Inl e)"
  by (cases m) auto

lemma bind_res_cong [fundef_cong]:
  "m = m' \<Longrightarrow> (\<And>x. m' = Inr x \<Longrightarrow> f x = g x) \<Longrightarrow> bind_res m f = bind_res m' g"
  by (cases m') auto

lemma bind_res_assoc: "bind_res (bind_res m f) g = bind_res m (\<lambda>x. bind_res (f x) g)"
  by (cases m) auto

text \<open>\<^verbatim>\<open>assert(c)\<close>: the kernel panics when the condition fails.\<close>

definition assert_res :: "bool \<Rightarrow> unit res" where
  "assert_res c = (if c then Inr () else Inl AssertFail)"

lemma assert_res_simps [simp]:
  "assert_res True = Inr ()"
  "assert_res False = Inl AssertFail"
  "assert_res c = Inr u \<longleftrightarrow> c"
  by (simp_all add: assert_res_def)

section \<open>Arrays\<close>

definition blit :: "'a list \<Rightarrow> nat \<Rightarrow> 'a list \<Rightarrow> 'a list" where
  "blit dst off src = take off dst @ src @ drop (off + length src) dst"

lemma length_blit [simp]:
  "off + length src \<le> length dst \<Longrightarrow> length (blit dst off src) = length dst"
  by (simp add: blit_def)

lemma nth_blit:
  assumes "off + length src \<le> length dst" and "i < length dst"
  shows "blit dst off src ! i =
    (if off \<le> i \<and> i < off + length src then src ! (i - off) else dst ! i)"
  using assms by (auto simp: blit_def nth_append min_def)

lemma blit_Nil [simp]: "blit dst off [] = dst"
  by (simp add: blit_def)

lemma take_blit_0 [simp]: "take (length src) (blit dst 0 src) = src"
  by (simp add: blit_def)

lemma take_blit_0_le: "n = length src \<Longrightarrow> take n (blit dst 0 src) = src"
  by (simp add: blit_def)

lemma take_blit_before: "n \<le> off \<Longrightarrow> off \<le> length dst \<Longrightarrow> take n (blit dst off src) = take n dst"
  by (simp add: blit_def min_def)

lemma read_blit:
  "off + length src \<le> length dst \<Longrightarrow> take (length src) (drop off (blit dst off src)) = src"
  by (simp add: blit_def)

lemma blit_append:
  assumes "off + length a + length b \<le> length dst"
  shows "blit (blit dst off a) (off + length a) b = blit dst off (a @ b)"
  using assms by (intro nth_equalityI) (auto simp: nth_blit nth_append)

lemma blit_update:
  "off < length dst \<Longrightarrow> blit dst off [x] = dst[off := x]"
  by (simp add: blit_def upd_conv_take_nth_drop)

lemma blit_prepend:
  assumes "off + length a + length b \<le> length dst"
  shows "blit (blit dst (off + length a) b) off a = blit dst off (a @ b)"
  using assms by (intro nth_equalityI) (auto simp: nth_blit nth_append)

lemma read_blit_apart:
  assumes "off + length x \<le> length m" and "off + length x \<le> a \<or> a + k \<le> off"
  shows "take k (drop a (blit m off x)) = take k (drop a m)"
  using assms by (intro nth_equalityI) (auto simp: nth_blit)

definition mem_read :: "'a list \<Rightarrow> nat \<Rightarrow> nat \<Rightarrow> 'a list res" where
  "mem_read src off n =
     (if off + n \<le> length src then Inr (take n (drop off src)) else Inl OutOfBounds)"

definition mem_write :: "'a list \<Rightarrow> nat \<Rightarrow> 'a list \<Rightarrow> 'a list res" where
  "mem_write dst off src =
     (if off + length src \<le> length dst then Inr (blit dst off src) else Inl OutOfBounds)"

text \<open>A length of C type \<^verbatim>\<open>int\<close> that is negative becomes an enormous \<^verbatim>\<open>size_t\<close>.\<close>

definition mem_read_int :: "'a list \<Rightarrow> nat \<Rightarrow> int \<Rightarrow> 'a list res" where
  "mem_read_int src off n = (if n < 0 then Inl OutOfBounds else mem_read src off (nat n))"

lemma mem_read_Inr [simp]:
  "mem_read src off n = Inr bs \<longleftrightarrow> off + n \<le> length src \<and> bs = take n (drop off src)"
  by (auto simp: mem_read_def)

lemma mem_write_Inr [simp]:
  "mem_write dst off src = Inr d \<longleftrightarrow> off + length src \<le> length dst \<and> d = blit dst off src"
  by (auto simp: mem_write_def)

lemma mem_read_ok [simp]: "off + n \<le> length src \<Longrightarrow> mem_read src off n = Inr (take n (drop off src))"
  by simp

lemma mem_write_ok [simp]: "off + length src \<le> length dst \<Longrightarrow> mem_write dst off src = Inr (blit dst off src)"
  by simp

text \<open>
  Uninitialised locals: a C object that is read before it is written has
  indeterminate contents, given by a parameter \<open>junk\<close> of the operation.
\<close>

definition uninit :: "(nat \<Rightarrow> 'a) \<Rightarrow> nat \<Rightarrow> 'a list" where
  "uninit junk n = map junk [0..<n]"

lemma length_uninit [simp]: "length (uninit junk n) = n"
  by (simp add: uninit_def)

lemma list_update_blit_id: "i < length xs \<Longrightarrow> xs[i := xs ! i] = xs"
  by simp

lemma take_drop_append_exact:
  "length a = n \<Longrightarrow> take n (a @ b) = a" "length a = n \<Longrightarrow> drop n (a @ b) = b"
  by simp_all

section \<open>Words\<close>

lemma unat_byte_less [simp]: "unat (b :: byte) < 256"
  using unsigned_less [of b] by simp

lemma unat_u16_less [simp]: "unat (x :: u16) < 65536"
  using unsigned_less [of x] by simp

lemma unat_u32_less: "unat (x :: u32) < 4294967296"
  using unsigned_less [of x] by simp

lemma unat_byte_le: "unat (b :: byte) \<le> 255"
  using unat_byte_less [of b] by linarith

lemma unat_u16_le: "unat (x :: u16) \<le> 65535"
  using unat_u16_less [of x] by linarith

lemma unat_of_nat_u16: "n < 65536 \<Longrightarrow> unat (of_nat n :: u16) = n"
  by (simp add: unat_of_nat)

lemma unat_of_nat_u32: "n < 4294967296 \<Longrightarrow> unat (of_nat n :: u32) = n"
  by (simp add: unat_of_nat)

lemma nat_add_mod_cancel:
  assumes "k < n" "j < n"
  shows "(h + k) mod n = (h + j) mod n \<longleftrightarrow> k = (j :: nat)"
proof
  assume eq: "(h + k) mod n = (h + j) mod n"
  show "k = j"
  proof (cases "k \<le> j")
    case True
    then have "n dvd (h + j) - (h + k)" using eq [symmetric] by (subst (asm) mod_eq_dvd_iff_nat) simp_all
    then have "n dvd j - k" by simp
    with True assms show ?thesis by (auto dest: dvd_imp_le)
  next
    case False
    then have "n dvd (h + k) - (h + j)" using eq by (subst (asm) mod_eq_dvd_iff_nat) simp_all
    then have "n dvd k - j" by simp
    with False assms show ?thesis by (auto dest: dvd_imp_le)
  qed
qed simp

lemma mod_once: "m < 2 * n \<Longrightarrow> m mod n = (if m < n then m else m - n)" for m n :: nat
  by (simp add: le_mod_geq)

lemma unat_add_u16: "unat (a + b :: u16) =
   (if unat a + unat b < 65536 then unat a + unat b else unat a + unat b - 65536)"
  using mod_once [of "unat a + unat b" 65536] unat_u16_less [of a] unat_u16_less [of b]
  by (simp add: unat_word_ariths)

lemma unat_add_u32: "unat (a + b :: u32) =
   (if unat a + unat b < 4294967296 then unat a + unat b else unat a + unat b - 4294967296)"
  using mod_once [of "unat a + unat b" 4294967296] unat_u32_less [of a] unat_u32_less [of b]
  by (simp add: unat_word_ariths)

section \<open>Text\<close>

text \<open>Characters and bytes: a \<^verbatim>\<open>char\<close> of the C code is a byte.\<close>

definition byte_of_char :: "char \<Rightarrow> byte" where
  "byte_of_char c = of_nat (of_char c)"

definition bytes_of :: "string \<Rightarrow> byte list" where
  "bytes_of s = map byte_of_char s"

lemma length_bytes_of [simp]: "length (bytes_of s) = length s"
  by (simp add: bytes_of_def)

lemma byte_of_char_inj: "byte_of_char a = byte_of_char b \<longleftrightarrow> a = b"
proof
  assume "byte_of_char a = byte_of_char b"
  then have "of_char a mod 256 = (of_char b :: nat) mod 256"
    by (simp add: byte_of_char_def word_of_nat_eq_iff take_bit_eq_mod)
  then show "a = b" by simp
qed simp

record kcons =
  console :: "byte list"

definition cprintf :: "byte list \<Rightarrow> 'a kcons_scheme \<Rightarrow> 'a kcons_scheme" where
  "cprintf msg s = s\<lparr>console := console s @ msg\<rparr>"

lemma console_cprintf [simp]: "console (cprintf msg s) = console s @ msg"
  by (simp add: cprintf_def)

end
