(* ===== verification/Inet.thy ===== *)
theory Inet
  imports Prelude
begin

text \<open>
  Byte order (\<^verbatim>\<open>kern/inet.h\<close>) and the in-memory layout of 16 and 32 bit fields.

  The conversion macros are translated with the shifts and masks of the header.
  \<^verbatim>\<open>BYTE_ORDER\<close> and \<^verbatim>\<open>BIG_ENDIAN\<close> are not defined anywhere in the tree, so the
  preprocessor compares 0 with 0 and \<^verbatim>\<open>htons\<close>, \<^verbatim>\<open>htonl\<close> expand to their
  argument, whereas the \<^verbatim>\<open>J\<close> variants always swap.

  A field of a packed structure occupies consecutive bytes, least significant byte
  first (x86-64): \<open>put16\<close>, \<open>put32\<close> give the bytes of a field and \<open>get16\<close>,
  \<open>get32\<close> load one.
\<close>

section \<open>Conversion macros\<close>

definition JHTONS :: "u16 \<Rightarrow> u16" where
  "JHTONS n = push_bit 8 (n AND 0xFF) OR drop_bit 8 (n AND 0xFF00)"

definition JNTOHS :: "u16 \<Rightarrow> u16" where
  "JNTOHS n = push_bit 8 (n AND 0xFF) OR drop_bit 8 (n AND 0xFF00)"

definition JHTONL :: "u32 \<Rightarrow> u32" where
  "JHTONL n = push_bit 24 (n AND 0xFF) OR push_bit 8 (n AND 0xFF00) OR
     drop_bit 8 (n AND 0xFF0000) OR drop_bit 24 (n AND 0xFF000000)"

definition JNTOHL :: "u32 \<Rightarrow> u32" where
  "JNTOHL n = push_bit 24 (n AND 0xFF) OR push_bit 8 (n AND 0xFF00) OR
     drop_bit 8 (n AND 0xFF0000) OR drop_bit 24 (n AND 0xFF000000)"

definition htons :: "u16 \<Rightarrow> u16" where
  "htons n = n"

section \<open>Fields in memory\<close>

definition put16 :: "u16 \<Rightarrow> byte list" where
  "put16 n = [ucast n, ucast (drop_bit 8 n)]"

definition put32 :: "u32 \<Rightarrow> byte list" where
  "put32 n = [ucast n, ucast (drop_bit 8 n), ucast (drop_bit 16 n), ucast (drop_bit 24 n)]"

definition pair16 :: "byte \<Rightarrow> byte \<Rightarrow> u16" where
  "pair16 a b = ucast a OR push_bit 8 (ucast b)"

definition get16 :: "byte list \<Rightarrow> nat \<Rightarrow> u16" where
  "get16 bs i = pair16 (bs ! i) (bs ! (i + 1))"

definition quad32 :: "byte \<Rightarrow> byte \<Rightarrow> byte \<Rightarrow> byte \<Rightarrow> u32" where
  "quad32 a b c d = ucast a OR push_bit 8 (ucast b) OR push_bit 16 (ucast c) OR push_bit 24 (ucast d)"

definition get32 :: "byte list \<Rightarrow> nat \<Rightarrow> u32" where
  "get32 bs i = quad32 (bs ! i) (bs ! (i + 1)) (bs ! (i + 2)) (bs ! (i + 3))"

section \<open>Masks as shifted bit ranges\<close>

lemma mask_bytes_u16:
  "(0xFF :: u16) = mask 8" "(0xFF00 :: u16) = push_bit 8 (mask 8)"
  by (simp_all add: mask_eq_exp_minus_1)

lemma mask_bytes_u32:
  "(0xFF :: u32) = mask 8" "(0xFF00 :: u32) = push_bit 8 (mask 8)"
  "(0xFF0000 :: u32) = push_bit 16 (mask 8)" "(0xFF000000 :: u32) = push_bit 24 (mask 8)"
  by (simp_all add: mask_eq_exp_minus_1)

lemmas swap16_defs = JHTONS_def JNTOHS_def mask_bytes_u16

lemma JNTOHS_eq [simp]: "JNTOHS = JHTONS"
  by (simp add: fun_eq_iff JHTONS_def JNTOHS_def)

lemma JNTOHL_eq [simp]: "JNTOHL = JHTONL"
  by (simp add: fun_eq_iff JHTONL_def JNTOHL_def)

lemma JHTONS_JHTONS [simp]: "JHTONS (JHTONS n) = n"
  unfolding swap16_defs by (rule bit_word_eqI) (auto simp: bit_simps)

lemma JHTONS_inj [simp]: "JHTONS a = JHTONS b \<longleftrightarrow> a = b"
  by (metis JHTONS_JHTONS)

section \<open>Loads and stores\<close>

lemma length_put16 [simp]: "length (put16 n) = 2"
  by (simp add: put16_def)

lemma length_put32 [simp]: "length (put32 n) = 4"
  by (simp add: put32_def)

lemma pair16_ucast [simp]: "pair16 (ucast n) (ucast (drop_bit 8 n)) = n"
  unfolding pair16_def by (rule bit_word_eqI) (auto simp: bit_simps)

lemma bit_byte_ge: "8 \<le> n \<Longrightarrow> \<not> bit (b::byte) n"
  using bit_imp_le_length [of b n] by auto

lemma nat_byte_cases:
  obtains "n < 8" | j where "n = 8 + j" "j < 8" | j where "n = 16 + j" "j < 8"
    | j where "n = 24 + j" "j < 8" | "32 \<le> (n::nat)"
proof -
  consider "n < 8" | "8 \<le> n" "n - 8 < 8" | "16 \<le> n" "n - 16 < 8"
    | "24 \<le> n" "n - 24 < 8" | "32 \<le> n" by linarith
  then show thesis
    by cases (use that le_add_diff_inverse in metis)+
qed

lemma bit_quad32: "bit (quad32 a b c d) n \<longleftrightarrow>
   (if n < 8 then bit a n else if n < 16 then bit b (n - 8)
    else if n < 24 then bit c (n - 16) else if n < 32 then bit d (n - 24) else False)"
  by (rule nat_byte_cases [of n]) (simp_all add: quad32_def bit_simps bit_byte_ge)

lemma bit_JHTONL: "bit (JHTONL w) n \<longleftrightarrow>
   (if n < 8 then bit w (n + 24) else if n < 16 then bit w (n + 8)
    else if n < 24 then bit w (n - 8) else if n < 32 then bit w (n - 24) else False)"
  unfolding JHTONL_def mask_bytes_u32
  by (rule nat_byte_cases [of n]) (simp_all add: bit_simps ac_simps)

lemma quad32_ucast [simp]:
  "quad32 (ucast n) (ucast (drop_bit 8 n)) (ucast (drop_bit 16 n)) (ucast (drop_bit 24 n)) = n"
  by (rule bit_word_eqI) (auto simp: bit_quad32 bit_simps)

lemma put32_quad32 [simp]: "put32 (quad32 a b c d) = [a, b, c, d]"
  unfolding put32_def by (intro list.inject [THEN iffD2] conjI refl bit_word_eqI)
    (auto simp: bit_quad32 bit_simps dest: bit_imp_le_length)

lemma JHTONL_quad32: "JHTONL (quad32 a b c d) = quad32 d c b a"
  by (rule bit_word_eqI) (simp add: bit_JHTONL bit_quad32, linarith?)

lemma JHTONL_JHTONL [simp]: "JHTONL (JHTONL n) = n"
  by (metis JHTONL_quad32 quad32_ucast)

lemma JHTONL_inj [simp]: "JHTONL a = JHTONL b \<longleftrightarrow> a = b"
  by (metis JHTONL_JHTONL)

lemma ucast_pair16 [simp]: "ucast (pair16 a b) = a" "ucast (drop_bit 8 (pair16 a b)) = b"
  unfolding pair16_def
  by (rule bit_word_eqI; auto simp: bit_simps dest: bit_imp_le_length)+

lemma put16_pair16 [simp]: "put16 (pair16 a b) = [a, b]"
  by (simp add: put16_def)

lemma JHTONS_pair16: "JHTONS (pair16 a b) = pair16 b a"
  unfolding swap16_defs pair16_def
  by (rule bit_word_eqI) (auto simp: bit_simps dest: bit_imp_le_length)

lemma get16_put16: "get16 (xs @ put16 n @ ys) (length xs) = n"
  by (simp add: get16_def put16_def nth_append)

lemma get32_put32: "get32 (xs @ put32 n @ ys) (length xs) = n"
  by (simp add: get32_def put32_def nth_append)

lemma get16_append:
  "i + 1 < length xs \<Longrightarrow> get16 (xs @ ys) i = get16 xs i"
  "length xs \<le> i \<Longrightarrow> get16 (xs @ ys) i = get16 ys (i - length xs)"
  by (auto simp: get16_def nth_append Suc_diff_le)

lemma get32_append:
  "i + 3 < length xs \<Longrightarrow> get32 (xs @ ys) i = get32 xs i"
  "length xs \<le> i \<Longrightarrow> get32 (xs @ ys) i = get32 ys (i - length xs)"
  by (auto simp: get32_def nth_append numeral_eq_Suc Suc_diff_le)

lemma get16_put16_0 [simp]: "get16 (put16 n @ ys) 0 = n" "get16 (put16 n) 0 = n"
  using get16_put16 [of "[]" n ys] get16_put16 [of "[]" n "[]"] by simp_all

lemma get32_put32_0 [simp]: "get32 (put32 n @ ys) 0 = n" "get32 (put32 n) 0 = n"
  using get32_put32 [of "[]" n ys] get32_put32 [of "[]" n "[]"] by simp_all

lemma get16_take: "i + 1 < n \<Longrightarrow> get16 (take n bs) i = get16 bs i"
  by (simp add: get16_def)

lemma get32_take: "i + 3 < n \<Longrightarrow> get32 (take n bs) i = get32 bs i"
  by (simp add: get32_def)

lemma unat_pair16: "unat (pair16 a b) = unat a + 256 * unat b"
proof -
  have "pair16 a b = ucast a + push_bit 8 (ucast b)"
    unfolding pair16_def
    by (rule disjunctive_add [symmetric]) (auto simp: bit_simps dest: bit_imp_le_length)
  also have "\<dots> = of_nat (unat a + 256 * unat b)"
    by (simp add: push_bit_eq_mult)
  also have "unat \<dots> = unat a + 256 * unat b"
    using unat_byte_le [of a] unat_byte_le [of b] by (subst unat_of_nat_u16) simp_all
  finally show ?thesis .
qed

text \<open>
  A 16 bit field in network byte order: its first byte in memory is the most
  significant one.
\<close>

lemma unat_JNTOHS_get16:
  "unat (JHTONS (get16 bs i)) = 256 * unat (bs ! i) + unat (bs ! (i + 1))"
  by (simp add: get16_def JHTONS_pair16 unat_pair16)

lemma put16_JHTONS: "put16 (JHTONS n) = [ucast (drop_bit 8 n), ucast n]"
proof -
  have "n = pair16 (ucast n) (ucast (drop_bit 8 n))" by simp
  then show ?thesis by (metis JHTONS_pair16 put16_pair16)
qed

text \<open>A 16 bit value stored through a 32 bit register.\<close>

lemma put32_ucast: "put32 (ucast w) = put16 w @ [0, 0]"
proof -
  have k: "ucast (drop_bit k (ucast (w :: u16) :: u32)) = (ucast (drop_bit k w) :: byte)" for k
    by (rule bit_word_eqI) (auto simp: bit_simps dest: bit_imp_le_length)
  note k
  moreover have "drop_bit k w = 0" if "16 \<le> k" for k
    using that by (intro bit_word_eqI) (auto simp: bit_simps dest: bit_imp_le_length)
  ultimately show ?thesis using k [of 0] by (simp add: put32_def put16_def)
qed

end
