(* ===== verification/E1000.thy ===== *)
theory E1000
  imports Inet
begin

text \<open>
  The network card driver (\<^verbatim>\<open>kern/e1000.h\<close>, \<^verbatim>\<open>kern/e1000.c\<close>): the two descriptor
  rings, their buffers and the memory mapped registers the driver uses.

  \<^item> \<open>e1000_transmit_init\<close>, \<open>e1000_receive_init\<close>: the register and descriptor set-up;
  \<^item> \<open>e1000_transmit\<close>, \<open>e1000_receive\<close>: one frame out, one frame in;
  \<^item> \<open>e1000_listen\<close>, \<open>e1000_timeout_listen\<close>: the polling loops, over the sequence of
    states that the card leaves in memory;
  \<^item> \<open>tx_ring\<close>, \<open>rx_ring\<close>: the rings as queues of frames, which transmit and receive
    refine.
\<close>

section \<open>Registers and descriptors\<close>

abbreviation (input) E1000_NU_DESC :: nat where "E1000_NU_DESC \<equiv> 64"
abbreviation (input) E1000_BUFFER_SIZE :: nat where "E1000_BUFFER_SIZE \<equiv> 1518"

abbreviation (input) E1000_RCTL :: nat where "E1000_RCTL \<equiv> 0x00100"
abbreviation (input) E1000_TCTL :: nat where "E1000_TCTL \<equiv> 0x00400"
abbreviation (input) E1000_TIPG :: nat where "E1000_TIPG \<equiv> 0x00410"
abbreviation (input) E1000_TDBAL :: nat where "E1000_TDBAL \<equiv> 0x03800"
abbreviation (input) E1000_TDBAH :: nat where "E1000_TDBAH \<equiv> 0x03804"
abbreviation (input) E1000_TDLEN :: nat where "E1000_TDLEN \<equiv> 0x03808"
abbreviation (input) E1000_TDH :: nat where "E1000_TDH \<equiv> 0x03810"
abbreviation (input) E1000_TDT :: nat where "E1000_TDT \<equiv> 0x03818"
abbreviation (input) E1000_RDBAL :: nat where "E1000_RDBAL \<equiv> 0x02800"
abbreviation (input) E1000_RDBAH :: nat where "E1000_RDBAH \<equiv> 0x02804"
abbreviation (input) E1000_RDLEN :: nat where "E1000_RDLEN \<equiv> 0x02808"
abbreviation (input) E1000_RDH :: nat where "E1000_RDH \<equiv> 0x02810"
abbreviation (input) E1000_RDT :: nat where "E1000_RDT \<equiv> 0x02818"

abbreviation (input) E1000_TCTL_EN :: u32 where "E1000_TCTL_EN \<equiv> 0x00000002"
abbreviation (input) E1000_TCTL_PSP :: u32 where "E1000_TCTL_PSP \<equiv> 0x00000008"
abbreviation (input) E1000_TCTL_CT :: u32 where "E1000_TCTL_CT \<equiv> 0x00000ff0"
abbreviation (input) E1000_TCTL_COLD :: u32 where "E1000_TCTL_COLD \<equiv> 0x003ff000"
abbreviation (input) E1000_TXD_STAT_DD :: byte where "E1000_TXD_STAT_DD \<equiv> 0x01"
abbreviation (input) E1000_TXD_CMD_RS :: byte where "E1000_TXD_CMD_RS \<equiv> 0x08"
abbreviation (input) E1000_TXD_CMD_EOP :: byte where "E1000_TXD_CMD_EOP \<equiv> 0x01"
abbreviation (input) E1000_RCTL_EN :: u32 where "E1000_RCTL_EN \<equiv> 0x00000002"
abbreviation (input) E1000_RCTL_BAM :: u32 where "E1000_RCTL_BAM \<equiv> 0x00008000"
abbreviation (input) E1000_RCTL_CRC :: u32 where "E1000_RCTL_CRC \<equiv> 0x04000000"
abbreviation (input) E1000_RXD_STAT_DD :: byte where "E1000_RXD_STAT_DD \<equiv> 0x01"
abbreviation (input) E1000_RXD_STAT_EOP :: byte where "E1000_RXD_STAT_EOP \<equiv> 0x02"

record tx_desc =
  tx_buf_addr :: u64
  tx_length :: u16
  tx_cso :: byte
  tx_cmd :: byte
  tx_status :: byte
  tx_css :: byte
  tx_special :: u16

record rx_desc =
  rx_buf_addr :: u64
  rx_length :: u16
  rx_checksum :: u16
  rx_status :: byte
  rx_errors :: byte
  rx_special :: u16

record e1000 = kcons +
  phy_mmio :: "nat \<Rightarrow> u32"
  tx_desc_table :: "tx_desc list"
  rx_desc_table :: "rx_desc list"
  tx_buf :: "byte list list"
  rx_buf :: "byte list list"

text \<open>\<^verbatim>\<open>E1000_REG(offset)\<close>: registers are words, offsets are in bytes.\<close>

definition E1000_REG :: "'a e1000_scheme \<Rightarrow> nat \<Rightarrow> u32" where
  "E1000_REG s off = phy_mmio s (off div 4)"

definition E1000_REG_set :: "nat \<Rightarrow> u32 \<Rightarrow> 'a e1000_scheme \<Rightarrow> 'a e1000_scheme" where
  "E1000_REG_set off v s = s\<lparr>phy_mmio := (phy_mmio s)(off div 4 := v)\<rparr>"

section \<open>Initialisation\<close>

text \<open>
  The physical addresses of the tables and buffers (\<^verbatim>\<open>PADDR\<close>) are chosen by the
  linker and the memory manager; they are parameters here.
\<close>

definition tx_desc_init :: "(nat \<Rightarrow> u64) \<Rightarrow> nat \<Rightarrow> 'a e1000_scheme \<Rightarrow> 'a e1000_scheme" where
  "tx_desc_init pa i s =
     (let d = tx_desc_table s ! i in
      s\<lparr>tx_desc_table := (tx_desc_table s)
          [i := d\<lparr>tx_status := tx_status d OR E1000_TXD_STAT_DD,
                  tx_buf_addr := pa i,
                  tx_cmd := E1000_TXD_CMD_RS OR E1000_TXD_CMD_EOP\<rparr>]\<rparr>)"

definition e1000_transmit_init :: "u64 \<Rightarrow> (nat \<Rightarrow> u64) \<Rightarrow> 'a e1000_scheme \<Rightarrow> 'a e1000_scheme" where
  "e1000_transmit_init pa_table pa_buf s =
     fold (tx_desc_init pa_buf) [0..<E1000_NU_DESC]
      (E1000_REG_set E1000_TIPG 0x60200a
      (E1000_REG_set E1000_TCTL
         (E1000_TCTL_EN OR E1000_TCTL_PSP OR (E1000_TCTL_CT AND push_bit 4 0x10)
            OR (E1000_TCTL_COLD AND push_bit 12 0x40))
      (E1000_REG_set E1000_TDT 0
      (E1000_REG_set E1000_TDH 0
      (E1000_REG_set E1000_TDLEN (of_nat (E1000_NU_DESC * 16))
      (E1000_REG_set E1000_TDBAH 0
      (E1000_REG_set E1000_TDBAL (ucast pa_table) s)))))))"

definition rx_desc_init :: "(nat \<Rightarrow> u64) \<Rightarrow> nat \<Rightarrow> 'a e1000_scheme \<Rightarrow> 'a e1000_scheme" where
  "rx_desc_init pa i s =
     (let d = rx_desc_table s ! i in
      s\<lparr>rx_desc_table := (rx_desc_table s)
          [i := d\<lparr>rx_status := rx_status d AND NOT E1000_RXD_STAT_DD,
                  rx_buf_addr := pa i\<rparr>]\<rparr>)"

definition e1000_receive_init :: "u64 \<Rightarrow> (nat \<Rightarrow> u64) \<Rightarrow> 'a e1000_scheme \<Rightarrow> 'a e1000_scheme" where
  "e1000_receive_init pa_table pa_buf s =
     fold (rx_desc_init pa_buf) [0..<E1000_NU_DESC]
      (E1000_REG_set E1000_RCTL (E1000_RCTL_EN OR E1000_RCTL_BAM OR E1000_RCTL_CRC)
      (E1000_REG_set E1000_RDT (of_nat (E1000_NU_DESC - 1))
      (E1000_REG_set E1000_RDH 0
      (E1000_REG_set E1000_RDLEN (of_nat (E1000_NU_DESC * 16))
      (E1000_REG_set E1000_RDBAH 0
      (E1000_REG_set E1000_RDBAL (ucast pa_table) s))))))"

section \<open>Transmit and receive\<close>

definition e1000_transmit :: "byte list \<Rightarrow> u16 \<Rightarrow> 'a e1000_scheme \<Rightarrow> (int \<times> 'a e1000_scheme) res" where
  "e1000_transmit buf len0 s =
     (let len = (if len0 > of_nat E1000_BUFFER_SIZE then of_nat E1000_BUFFER_SIZE else len0);
          tail_tx = E1000_REG s E1000_TDT;
          t = unat tail_tx
      in if \<not> t < length (tx_desc_table s) then Inl OutOfBounds
         else if tx_status (tx_desc_table s ! t) AND E1000_TXD_STAT_DD = 0
         then Inr (-1, cprintf (bytes_of ''\<newline>E1000 transmit queue is full\<newline>'') s)
         else bind_res (mem_read buf 0 (unat len)) (\<lambda>data.
              bind_res (mem_write (tx_buf s ! t) 0 data) (\<lambda>row.
              let d = tx_desc_table s ! t;
                  s' = s\<lparr>tx_buf := (tx_buf s)[t := row],
                         tx_desc_table := (tx_desc_table s)
                           [t := d\<lparr>tx_length := len,
                                   tx_status := tx_status d AND NOT E1000_TXD_STAT_DD\<rparr>]\<rparr>
              in Inr (0, E1000_REG_set E1000_TDT ((tail_tx + 1) mod of_nat E1000_NU_DESC) s'))))"

definition rx_next :: "'a e1000_scheme \<Rightarrow> u32" where
  "rx_next s = (E1000_REG s E1000_RDT + 1) mod of_nat E1000_NU_DESC"

definition e1000_receive :: "byte list \<Rightarrow> 'a e1000_scheme \<Rightarrow> (int \<times> byte list \<times> 'a e1000_scheme) res" where
  "e1000_receive buffer s =
     (let tail_rx = rx_next s; t = unat tail_rx
      in if \<not> t < length (rx_desc_table s) then Inl OutOfBounds
         else if rx_status (rx_desc_table s ! t) AND E1000_RXD_STAT_DD = 0
         then Inr (0, buffer, cprintf (bytes_of ''\<newline>E1000 receive queue is empty\<newline>'') s)
         else if rx_status (rx_desc_table s ! t) AND E1000_RXD_STAT_EOP = 0
         then Inr (0, buffer, cprintf (bytes_of ''\<newline>E1000 receive status is not EOP\<newline>'') s)
         else let d = rx_desc_table s ! t;
                  s' = s\<lparr>rx_desc_table := (rx_desc_table s)
                           [t := d\<lparr>rx_status := rx_status d AND NOT E1000_RXD_STAT_DD\<rparr>]\<rparr>;
                  len = unat (rx_length d)
              in bind_res (mem_read (rx_buf s ! t) 0 len) (\<lambda>data.
                 bind_res (mem_write buffer 0 data) (\<lambda>buffer'.
                   Inr (int len, buffer', E1000_REG_set E1000_RDT tail_rx s'))))"

section \<open>Polling\<close>

text \<open>
  The card writes descriptors while the processor polls them, so the loops run over
  the sequence of states they observe. \<open>None\<close>: still polling after \<open>fuel\<close> rounds.
\<close>

definition rx_ready :: "'a e1000_scheme \<Rightarrow> bool" where
  "rx_ready s = (rx_status (rx_desc_table s ! unat (rx_next s)) AND E1000_RXD_STAT_DD \<noteq> 0)"

fun e1000_listen :: "nat \<Rightarrow> (nat \<Rightarrow> 'a e1000_scheme) \<Rightarrow> nat \<Rightarrow> (int \<times> nat) option" where
  "e1000_listen 0 obs n = None"
| "e1000_listen (Suc fuel) obs n =
     (if rx_ready (obs n) then Some (0, n) else e1000_listen fuel obs (Suc n))"

text \<open>
  \<open>within d\<close> is the floating point comparison \<^verbatim>\<open>d < timeout * cpu_freq\<close> on the
  elapsed ticks, and \<open>tsc n\<close> the counter read in round \<open>n\<close>.
\<close>

fun e1000_timeout_listen ::
  "(u64 \<Rightarrow> bool) \<Rightarrow> u64 \<Rightarrow> (nat \<Rightarrow> u64) \<Rightarrow> nat \<Rightarrow> (nat \<Rightarrow> 'a e1000_scheme) \<Rightarrow> nat \<Rightarrow> (int \<times> nat) option"
where
  "e1000_timeout_listen within tsc0 tsc 0 obs n = None"
| "e1000_timeout_listen within tsc0 tsc (Suc fuel) obs n =
     (if rx_ready (obs n) then Some (0, n)
      else if within (tsc n - tsc0) then e1000_timeout_listen within tsc0 tsc fuel obs (Suc n)
      else Some (-1, n))"

section \<open>Register and descriptor lemmas\<close>

lemma REG_set_same [simp]: "E1000_REG (E1000_REG_set off v s) off = v"
  by (simp add: E1000_REG_def E1000_REG_set_def)

lemma REG_set_other [simp]: "off div 4 \<noteq> off' div 4 \<Longrightarrow> E1000_REG (E1000_REG_set off v s) off' = E1000_REG s off'"
  by (simp add: E1000_REG_def E1000_REG_set_def)

lemma REG_set_frame [simp]:
  "tx_desc_table (E1000_REG_set off v s) = tx_desc_table s"
  "rx_desc_table (E1000_REG_set off v s) = rx_desc_table s"
  "tx_buf (E1000_REG_set off v s) = tx_buf s"
  "rx_buf (E1000_REG_set off v s) = rx_buf s"
  "console (E1000_REG_set off v s) = console s"
  by (simp_all add: E1000_REG_set_def)

lemma REG_frame [simp]:
  "E1000_REG (s\<lparr>tx_buf := a\<rparr>) off = E1000_REG s off"
  "E1000_REG (s\<lparr>rx_buf := a\<rparr>) off = E1000_REG s off"
  "E1000_REG (s\<lparr>tx_desc_table := b\<rparr>) off = E1000_REG s off"
  "E1000_REG (s\<lparr>rx_desc_table := c\<rparr>) off = E1000_REG s off"
  by (simp_all add: E1000_REG_def)

lemma cprintf_frame [simp]:
  "tx_desc_table (cprintf m s) = tx_desc_table s"
  "rx_desc_table (cprintf m s) = rx_desc_table s"
  "tx_buf (cprintf m s) = tx_buf s"
  "rx_buf (cprintf m s) = rx_buf s"
  "E1000_REG (cprintf m s) off = E1000_REG s off"
  by (simp_all add: cprintf_def E1000_REG_def)

lemma status_dd_clear [simp]: "(x AND - 2) AND 1 = (0 :: byte)"
  by (simp add: and.assoc)

lemma status_dd_set [simp]: "(x OR 1) AND 1 \<noteq> (0 :: byte)"
  by (simp add: bit_eq_iff bit_simps) (auto intro: exI [of _ 0])

definition tx_done :: "'a e1000_scheme \<Rightarrow> nat \<Rightarrow> bool" where
  "tx_done s i = (tx_status (tx_desc_table s ! i) AND E1000_TXD_STAT_DD \<noteq> 0)"

definition tx_frame :: "'a e1000_scheme \<Rightarrow> nat \<Rightarrow> byte list" where
  "tx_frame s i = take (unat (tx_length (tx_desc_table s ! i))) (tx_buf s ! i)"

definition rx_done :: "'a e1000_scheme \<Rightarrow> nat \<Rightarrow> bool" where
  "rx_done s i = (rx_status (rx_desc_table s ! i) AND E1000_RXD_STAT_DD \<noteq> 0)"

definition rx_eop :: "'a e1000_scheme \<Rightarrow> nat \<Rightarrow> bool" where
  "rx_eop s i = (rx_status (rx_desc_table s ! i) AND E1000_RXD_STAT_EOP \<noteq> 0)"

definition rx_frame :: "'a e1000_scheme \<Rightarrow> nat \<Rightarrow> byte list" where
  "rx_frame s i = take (unat (rx_length (rx_desc_table s ! i))) (rx_buf s ! i)"

text \<open>Well-formed driver memory: table and buffer sizes, tail indices in range.\<close>

definition e1000_wf :: "'a e1000_scheme \<Rightarrow> bool" where
  "e1000_wf s \<longleftrightarrow> length (tx_desc_table s) = E1000_NU_DESC \<and> length (rx_desc_table s) = E1000_NU_DESC
     \<and> length (tx_buf s) = E1000_NU_DESC \<and> length (rx_buf s) = E1000_NU_DESC
     \<and> (\<forall>i<E1000_NU_DESC. length (tx_buf s ! i) = E1000_BUFFER_SIZE)
     \<and> (\<forall>i<E1000_NU_DESC. length (rx_buf s ! i) = E1000_BUFFER_SIZE)
     \<and> unat (E1000_REG s E1000_TDT) < E1000_NU_DESC \<and> unat (E1000_REG s E1000_RDT) < E1000_NU_DESC"

lemma e1000_wfD:
  assumes "e1000_wf s"
  shows "length (tx_desc_table s) = 64" "length (rx_desc_table s) = 64"
    "length (tx_buf s) = 64" "length (rx_buf s) = 64"
    "i < 64 \<Longrightarrow> length (tx_buf s ! i) = 1518" "i < 64 \<Longrightarrow> length (rx_buf s ! i) = 1518"
    "unat (E1000_REG s E1000_TDT) < 64" "unat (E1000_REG s E1000_RDT) < 64"
  using assms by (auto simp: e1000_wf_def)

lemma e1000_wf_cprintf [simp, wf_simps]: "e1000_wf (cprintf m s) = e1000_wf s"
  by (simp add: e1000_wf_def)

lemma next_index:
  assumes "unat (i :: u32) < 64"
  shows "unat ((i + 1) mod 64) = (unat i + 1) mod 64"
proof -
  have "unat (i + 1) = unat i + 1"
    using assms by (simp add: unat_word_ariths)
  then show ?thesis by (simp add: unat_mod_distrib)
qed

lemma rx_next_eq: "e1000_wf s \<Longrightarrow> unat (rx_next s) = (unat (E1000_REG s E1000_RDT) + 1) mod 64"
  by (simp add: rx_next_def next_index e1000_wfD)

section \<open>Functional behaviour\<close>

definition tx_put :: "byte list \<Rightarrow> 'a e1000_scheme \<Rightarrow> 'a e1000_scheme" where
  "tx_put frame s =
     (let t = unat (E1000_REG s E1000_TDT); d = tx_desc_table s ! t in
      E1000_REG_set E1000_TDT ((E1000_REG s E1000_TDT + 1) mod 64)
        (s\<lparr>tx_buf := (tx_buf s)[t := blit (tx_buf s ! t) 0 frame],
           tx_desc_table := (tx_desc_table s)
             [t := d\<lparr>tx_length := of_nat (length frame), tx_status := tx_status d AND NOT 1\<rparr>]\<rparr>))"

abbreviation tx_free :: "'a e1000_scheme \<Rightarrow> bool" where
  "tx_free s \<equiv> tx_done s (unat (E1000_REG s E1000_TDT))"

lemma e1000_transmit_ok:
  assumes wf: "e1000_wf s" and free: "tx_free s" and len: "min (unat len) 1518 \<le> length buf"
  shows "e1000_transmit buf len s = Inr (0, tx_put (take (min (unat len) 1518) buf) s)"
proof (cases "1518 < unat len")
  case True
  then have "(1518 :: u16) < len" by (simp add: word_less_nat_alt)
  with True free len show ?thesis
    unfolding e1000_transmit_def tx_put_def tx_done_def Let_def
    by (simp add: e1000_wfD [OF wf] min_absorb2)
next
  case False
  then have "\<not> (1518 :: u16) < len" by (simp add: word_less_nat_alt)
  with False free len show ?thesis
    unfolding e1000_transmit_def tx_put_def tx_done_def Let_def
    by (simp add: e1000_wfD [OF wf] min_absorb1 min_absorb2)
qed

lemma e1000_transmit_full:
  assumes "e1000_wf s" and "\<not> tx_free s"
  shows "e1000_transmit buf len s = Inr (-1, cprintf (bytes_of ''\<newline>E1000 transmit queue is full\<newline>'') s)"
  using assms by (simp add: e1000_transmit_def tx_done_def Let_def e1000_wfD)

lemma e1000_transmit_Inr [consumes 2]:
  assumes "e1000_wf s" and "e1000_transmit buf len s = Inr (r, s')"
  obtains (full) "\<not> tx_free s" "r = -1" "\<exists>m. s' = cprintf m s"
  | (sent) "tx_free s" "r = 0" "min (unat len) 1518 \<le> length buf"
      "s' = tx_put (take (min (unat len) 1518) buf) s"
proof (cases "tx_free s")
  case False
  with assms e1000_transmit_full [OF assms(1), of buf len] show thesis
    by (intro full) auto
next
  case True
  have "min (unat len) 1518 \<le> length buf"
    using assms(2) True e1000_wfD [OF assms(1)]
    by (auto simp: e1000_transmit_def Let_def tx_done_def bind_res_Inr_iff word_less_nat_alt
        split: if_splits)
  with True assms e1000_transmit_ok [OF assms(1) True this] show thesis
    by (intro sent) auto
qed

lemma e1000_wf_tx_put [wf_simps]:
  assumes "e1000_wf s" and "length frame \<le> 1518"
  shows "e1000_wf (tx_put frame s)"
  using assms unfolding e1000_wf_def tx_put_def Let_def
  by (simp add: nth_list_update next_index)

definition rx_take :: "'a e1000_scheme \<Rightarrow> 'a e1000_scheme" where
  "rx_take s =
     (let t = unat (rx_next s); d = rx_desc_table s ! t in
      E1000_REG_set E1000_RDT (rx_next s)
        (s\<lparr>rx_desc_table := (rx_desc_table s)[t := d\<lparr>rx_status := rx_status d AND NOT 1\<rparr>]\<rparr>))"

lemma rx_next_less: "e1000_wf s \<Longrightarrow> unat (rx_next s) < 64"
  by (simp add: rx_next_eq)

lemma e1000_receive_ok:
  assumes wf: "e1000_wf s" and dd: "rx_done s (unat (rx_next s))" "rx_eop s (unat (rx_next s))"
    and len: "unat (rx_length (rx_desc_table s ! unat (rx_next s))) \<le> 1518"
      "unat (rx_length (rx_desc_table s ! unat (rx_next s))) \<le> length buffer"
  shows "e1000_receive buffer s =
    Inr (int (length (rx_frame s (unat (rx_next s)))), blit buffer 0 (rx_frame s (unat (rx_next s))), rx_take s)"
  using dd len unfolding e1000_receive_def rx_take_def rx_done_def rx_eop_def rx_frame_def Let_def
  by (simp add: e1000_wfD [OF wf] rx_next_less [OF wf] min_absorb2)

lemma e1000_receive_empty:
  assumes "e1000_wf s" and "\<not> rx_done s (unat (rx_next s))"
  shows "e1000_receive buffer s =
    Inr (0, buffer, cprintf (bytes_of ''\<newline>E1000 receive queue is empty\<newline>'') s)"
  using assms by (simp add: e1000_receive_def rx_done_def Let_def e1000_wfD rx_next_less)

lemma e1000_receive_not_eop:
  assumes "e1000_wf s" and "rx_done s (unat (rx_next s))" and "\<not> rx_eop s (unat (rx_next s))"
  shows "e1000_receive buffer s =
    Inr (0, buffer, cprintf (bytes_of ''\<newline>E1000 receive status is not EOP\<newline>'') s)"
  using assms by (simp add: e1000_receive_def rx_done_def rx_eop_def Let_def e1000_wfD rx_next_less)

lemma e1000_receive_Inr [consumes 2]:
  assumes "e1000_wf s" and "e1000_receive buffer s = Inr (r, buffer', s')"
  obtains (none) "r = 0" "buffer' = buffer" "\<exists>m. s' = cprintf m s"
  | (frame) "rx_done s (unat (rx_next s))" "rx_eop s (unat (rx_next s))" "s' = rx_take s"
      "r = int (unat (rx_length (rx_desc_table s ! unat (rx_next s))))"
      "buffer' = blit buffer 0 (rx_frame s (unat (rx_next s)))"
      "unat (rx_length (rx_desc_table s ! unat (rx_next s))) \<le> min 1518 (length buffer)"
proof (cases "rx_done s (unat (rx_next s)) \<and> rx_eop s (unat (rx_next s))")
  case False
  with assms e1000_receive_empty [OF assms(1), of buffer] e1000_receive_not_eop [OF assms(1), of buffer]
  show thesis by (cases "rx_done s (unat (rx_next s))") (auto intro: none)
next
  case True
  have "unat (rx_length (rx_desc_table s ! unat (rx_next s))) \<le> min 1518 (length buffer)"
    using assms(2) True e1000_wfD [OF assms(1)] rx_next_less [OF assms(1)]
    by (auto simp: e1000_receive_def Let_def rx_done_def rx_eop_def bind_res_Inr_iff split: if_splits)
  with True assms e1000_receive_ok [OF assms(1), of buffer] show thesis
    by (intro frame) (auto simp: rx_frame_def e1000_wfD rx_next_less)
qed

lemma e1000_wf_rx_take [wf_simps]:
  assumes "e1000_wf s"
  shows "e1000_wf (rx_take s)"
  using assms rx_next_less [OF assms] unfolding e1000_wf_def rx_take_def Let_def
  by (simp add: nth_list_update)

section \<open>The rings as queues\<close>

section \<open>The rings as queues\<close>

definition tx_ring :: "'a e1000_scheme \<Rightarrow> byte list list \<Rightarrow> bool" where
  "tx_ring s q \<longleftrightarrow> (let h = unat (E1000_REG s E1000_TDH) in
     e1000_wf s \<and> length q \<le> 64 \<and> unat (E1000_REG s E1000_TDT) = (h + length q) mod 64
     \<and> (\<forall>k<64. tx_done s ((h + k) mod 64) \<longleftrightarrow> length q \<le> k)
     \<and> (\<forall>k<length q. tx_frame s ((h + k) mod 64) = q ! k))"

definition rx_ring :: "'a e1000_scheme \<Rightarrow> byte list list \<Rightarrow> bool" where
  "rx_ring s q \<longleftrightarrow> (let t = unat (E1000_REG s E1000_RDT) in
     e1000_wf s \<and> length q \<le> 63
     \<and> (\<forall>k<64. rx_done s ((t + 1 + k) mod 64) \<longleftrightarrow> k < length q)
     \<and> (\<forall>k<length q. rx_eop s ((t + 1 + k) mod 64) \<and> rx_frame s ((t + 1 + k) mod 64) = q ! k
          \<and> unat (rx_length (rx_desc_table s ! ((t + 1 + k) mod 64))) \<le> E1000_BUFFER_SIZE))"

lemma tx_ringD:
  assumes "tx_ring s q"
  shows "e1000_wf s" "length q \<le> 64"
    "unat (E1000_REG s E1000_TDT) = (unat (E1000_REG s E1000_TDH) + length q) mod 64"
    "k < 64 \<Longrightarrow> tx_done s ((unat (E1000_REG s E1000_TDH) + k) mod 64) \<longleftrightarrow> length q \<le> k"
    "k < length q \<Longrightarrow> tx_frame s ((unat (E1000_REG s E1000_TDH) + k) mod 64) = q ! k"
  using assms by (auto simp: tx_ring_def Let_def)

lemma tx_ring_cprintf [simp]: "tx_ring (cprintf m s) q = tx_ring s q"
  by (simp add: tx_ring_def tx_done_def tx_frame_def)

lemma tx_free_iff: "tx_ring s q \<Longrightarrow> tx_free s \<longleftrightarrow> length q < 64"
proof -
  assume r: "tx_ring s q"
  let ?h = "unat (E1000_REG s E1000_TDH)"
  show ?thesis
  proof (cases "length q = 64")
    case True
    then have "unat (E1000_REG s E1000_TDT) = (?h + 0) mod 64"
      using tx_ringD(3) [OF r] by simp
    then show ?thesis using True tx_ringD(4) [OF r, of 0] by simp
  next
    case False
    then have "length q < 64" using tx_ringD(2) [OF r] by simp
    then show ?thesis using tx_ringD(3) [OF r] tx_ringD(4) [OF r, of "length q"] by simp
  qed
qed

lemma tx_put_slots:
  assumes "e1000_wf s" and "length frame \<le> 1518" and "i < 64"
  shows "tx_done (tx_put frame s) i \<longleftrightarrow> tx_done s i \<and> i \<noteq> unat (E1000_REG s E1000_TDT)"
    and "tx_frame (tx_put frame s) i =
      (if i = unat (E1000_REG s E1000_TDT) then frame else tx_frame s i)"
  using assms
  by (auto simp: tx_done_def tx_frame_def tx_put_def Let_def nth_list_update e1000_wfD
      unat_of_nat_u16 take_blit_0_le)

lemma tx_put_regs [simp]:
  "E1000_REG (tx_put frame s) E1000_TDT = (E1000_REG s E1000_TDT + 1) mod 64"
  "E1000_REG (tx_put frame s) E1000_TDH = E1000_REG s E1000_TDH"
  by (simp_all add: tx_put_def Let_def)

lemma tx_ring_put:
  assumes r: "tx_ring s q" and room: "length q < 64" and len: "length frame \<le> 1518"
  shows "tx_ring (tx_put frame s) (q @ [frame])"
proof -
  let ?h = "unat (E1000_REG s E1000_TDH)"
  note wf = tx_ringD(1) [OF r]
  have t: "unat (E1000_REG s E1000_TDT) = (?h + length q) mod 64" by (rule tx_ringD(3) [OF r])
  have idx: "(?h + k) mod 64 = unat (E1000_REG s E1000_TDT) \<longleftrightarrow> k = length q" if "k < 64" for k
    unfolding t using that room by (rule nat_add_mod_cancel)
  have "unat ((E1000_REG s E1000_TDT + 1) mod 64) = (?h + length (q @ [frame])) mod 64"
    using next_index [OF e1000_wfD(7) [OF wf]] t by (simp add: mod_Suc_eq)
  moreover have "tx_done (tx_put frame s) ((?h + k) mod 64) \<longleftrightarrow> length (q @ [frame]) \<le> k"
    if "k < 64" for k
    using tx_put_slots(1) [OF wf len] tx_ringD(4) [OF r] idx that by auto
  moreover have "tx_frame (tx_put frame s) ((?h + k) mod 64) = (q @ [frame]) ! k"
    if "k < length (q @ [frame])" for k
  proof -
    from that room have "k < 64" by simp
    with tx_put_slots(2) [OF wf len, of "(?h + k) mod 64"] idx [of k] tx_ringD(5) [OF r, of k] that
    show ?thesis by (auto simp: nth_append)
  qed
  ultimately show ?thesis
    using e1000_wf_tx_put [OF wf len] room by (simp add: tx_ring_def Let_def)
qed

text \<open>
  The interface a link offers to the layers above: a bounded queue of frames, cut to
  the size of a buffer.
\<close>

locale tx_queue =
  fixes transmit :: "byte list \<Rightarrow> u16 \<Rightarrow> 's \<Rightarrow> (int \<times> 's) res"
    and holds :: "'s \<Rightarrow> byte list list \<Rightarrow> bool"
    and cap :: nat
    and mtu :: nat
  assumes transmit_room: "holds s q \<Longrightarrow> length q < cap \<Longrightarrow> unat len \<le> length buf \<Longrightarrow>
      \<exists>s'. transmit buf len s = Inr (0, s') \<and> holds s' (q @ [take (min (unat len) mtu) buf])"
    and transmit_full: "holds s q \<Longrightarrow> length q = cap \<Longrightarrow>
      \<exists>s'. transmit buf len s = Inr (-1, s') \<and> holds s' q"
    and holds_cap: "holds s q \<Longrightarrow> length q \<le> cap"

text \<open>Sending a list of frames one after the other, collecting the return codes.\<close>

fun burst :: "(byte list \<Rightarrow> u16 \<Rightarrow> 's \<Rightarrow> (int \<times> 's) res) \<Rightarrow> byte list list \<Rightarrow> 's \<Rightarrow> (int list \<times> 's) res" where
  "burst tr [] s = Inr ([], s)"
| "burst tr (f # fs) s =
     bind_res (tr f (of_nat (length f)) s) (\<lambda>(r, s').
     bind_res (burst tr fs s') (\<lambda>(rs, s''). Inr (r # rs, s'')))"

context tx_queue
begin

lemma burst_full:
  assumes "holds s q" and "length q = cap"
  shows "\<exists>s'. burst transmit fs s = Inr (replicate (length fs) (-1), s') \<and> holds s' q"
  using assms
proof (induction fs arbitrary: s)
  case (Cons f fs)
  from transmit_full [OF Cons.prems] obtain s1
    where "transmit f (of_nat (length f)) s = Inr (-1, s1)" "holds s1 q" by blast
  with Cons.IH [of s1] Cons.prems(2) show ?case by fastforce
qed simp

lemma burst_prefix:
  assumes "holds s q" and "\<forall>f\<in>set fs. length f \<le> mtu" and "mtu < 65536"
  shows "\<exists>s'. burst transmit fs s =
      Inr (map (\<lambda>i. if length q + i < cap then 0 else -1) [0..<length fs], s')
    \<and> holds s' (q @ take (cap - length q) fs)"
  using assms(1,2)
proof (induction fs arbitrary: s q)
  case (Cons f fs)
  show ?case
  proof (cases "length q < cap")
    case True
    have lf: "unat (of_nat (length f) :: u16) = length f"
      using Cons.prems(2) assms(3) by (auto intro: unat_of_nat_u16)
    then obtain s1 where t: "transmit f (of_nat (length f)) s = Inr (0, s1)"
      and h: "holds s1 (q @ [f])"
      using transmit_room [OF Cons.prems(1) True, of "of_nat (length f)" f] Cons.prems(2)
      by (auto simp: min_def)
    from Cons.IH [OF h] Cons.prems(2) obtain s2 where
      b: "burst transmit fs s1 = Inr (map (\<lambda>i. if length q + 1 + i < cap then 0 else -1) [0..<length fs], s2)"
      and h2: "holds s2 ((q @ [f]) @ take (cap - length (q @ [f])) fs)" by auto
    have "map (\<lambda>i. if length q + i < cap then 0 else -1) [0..<length (f # fs)]
        = (0::int) # map (\<lambda>i. if length q + 1 + i < cap then 0 else -1) [0..<length fs]"
      using True by (simp add: upt_conv_Cons map_Suc_upt [symmetric] del: upt_Suc)
    moreover have "q @ take (cap - length q) (f # fs) = (q @ [f]) @ take (cap - length (q @ [f])) fs"
      using True by (simp add: take_Cons' )
    ultimately show ?thesis using t b h2 by simp
  next
    case False
    with holds_cap [OF Cons.prems(1)] have "length q = cap" by simp
    with burst_full [OF Cons.prems(1) this, of "f # fs"] show ?thesis
      by (auto simp: map_replicate_const simp del: burst.simps replicate.simps upt.simps)
  qed
qed simp

end

interpretation e1000_tx: tx_queue e1000_transmit tx_ring 64 1518
proof
  fix s :: "'a e1000_scheme" and q buf and len :: u16
  show "length q \<le> 64" if "tx_ring s q" using that by (rule tx_ringD(2))
  show "\<exists>s'. e1000_transmit buf len s = Inr (-1, s') \<and> tx_ring s' q"
    if "tx_ring s q" "length q = 64"
    using that e1000_transmit_full [OF tx_ringD(1)] tx_free_iff by fastforce
  show "\<exists>s'. e1000_transmit buf len s = Inr (0, s') \<and> tx_ring s' (q @ [take (min (unat len) 1518) buf])"
    if "tx_ring s q" "length q < 64" "unat len \<le> length buf"
    using that e1000_transmit_ok [OF tx_ringD(1), of s q len buf] tx_free_iff tx_ring_put by fastforce
qed

section \<open>The receive ring\<close>

lemma rx_ringD:
  assumes "rx_ring s q"
  shows "e1000_wf s" "length q \<le> 63"
    "k < 64 \<Longrightarrow> rx_done s ((unat (E1000_REG s E1000_RDT) + 1 + k) mod 64) \<longleftrightarrow> k < length q"
    "k < length q \<Longrightarrow> rx_eop s ((unat (E1000_REG s E1000_RDT) + 1 + k) mod 64)"
    "k < length q \<Longrightarrow> rx_frame s ((unat (E1000_REG s E1000_RDT) + 1 + k) mod 64) = q ! k"
    "k < length q \<Longrightarrow>
      unat (rx_length (rx_desc_table s ! ((unat (E1000_REG s E1000_RDT) + 1 + k) mod 64))) \<le> 1518"
  using assms unfolding rx_ring_def Let_def by blast+

text \<open>The rings depend on the card's registers and memory only.\<close>

lemmas ring_defs = tx_ring_def rx_ring_def e1000_wf_def tx_done_def tx_frame_def rx_done_def rx_eop_def
  rx_frame_def E1000_REG_def

lemma rx_ring_cprintf [simp]: "rx_ring (cprintf m s) q = rx_ring s q"
  by (simp add: rx_ring_def rx_done_def rx_eop_def rx_frame_def)

lemma rx_take_regs [simp]:
  "E1000_REG (rx_take s) E1000_RDT = rx_next s"
  "rx_buf (rx_take s) = rx_buf s"
  by (simp_all add: rx_take_def Let_def)

lemma rx_take_slots:
  assumes "e1000_wf s" and "i < 64"
  shows "rx_done (rx_take s) i \<longleftrightarrow> rx_done s i \<and> i \<noteq> unat (rx_next s)"
    and "i \<noteq> unat (rx_next s) \<Longrightarrow> rx_desc_table (rx_take s) ! i = rx_desc_table s ! i"
  using assms rx_next_less [OF assms(1)]
  by (cases "i = unat (rx_next s)"; simp add: rx_done_def rx_take_def Let_def e1000_wfD)+

lemma rx_ring_take:
  assumes r: "rx_ring s (f # q)"
  shows "rx_ring (rx_take s) q"
proof -
  note wf = rx_ringD(1) [OF r]
  let ?t = "unat (E1000_REG s E1000_RDT)"
  have n: "unat (rx_next s) = (?t + 1 + 0) mod 64" using rx_next_eq [OF wf] by simp
  have shift: "(unat (rx_next s) + 1 + k) mod 64 = (?t + 1 + Suc k) mod 64" for k
    unfolding n using mod_add_left_eq [of "?t + 1" 64 "Suc k"] by simp
  have ne: "(?t + 1 + Suc k) mod 64 \<noteq> unat (rx_next s)" if "Suc k < 64" for k
    unfolding n using nat_add_mod_cancel [of "Suc k" 64 0 "?t + 1"] that by simp
  have "rx_done (rx_take s) ((?t + 1 + Suc k) mod 64) \<longleftrightarrow> k < length q" if "k < 64" for k
  proof (cases "k = 63")
    case True
    have "(?t + 1 + 64) mod 64 = unat (rx_next s)"
      unfolding n by (simp only: add_0_right mod_add_self2)
    with True show ?thesis
      using rx_take_slots(1) [OF wf] rx_ringD(2) [OF r] by simp
  next
    case False
    with that have "Suc k < 64" by simp
    with ne rx_take_slots(1) [OF wf] rx_ringD(3) [OF r, of "Suc k"] show ?thesis by simp
  qed
  moreover have "rx_desc_table (rx_take s) ! ((?t + 1 + Suc k) mod 64)
      = rx_desc_table s ! ((?t + 1 + Suc k) mod 64)" if "k < length q" for k
    using rx_take_slots(2) [OF wf _ ne] rx_ringD(2) [OF r] that by simp
  moreover have "rx_eop s ((?t + 1 + Suc k) mod 64)" "rx_frame s ((?t + 1 + Suc k) mod 64) = q ! k"
    "unat (rx_length (rx_desc_table s ! ((?t + 1 + Suc k) mod 64))) \<le> 1518" if "k < length q" for k
    using rx_ringD(4-6) [OF r, of "Suc k"] that by (simp_all del: add_Suc_right)
  ultimately show ?thesis
    unfolding rx_ring_def Let_def rx_take_regs shift
    using e1000_wf_rx_take [OF wf] rx_ringD(2) [OF r]
    by (simp add: rx_eop_def rx_frame_def)
qed

locale rx_queue =
  fixes receive :: "byte list \<Rightarrow> 's \<Rightarrow> (int \<times> byte list \<times> 's) res"
    and holds :: "'s \<Rightarrow> byte list list \<Rightarrow> bool"
  assumes receive_frame: "holds s (f # q) \<Longrightarrow> length f \<le> length buf \<Longrightarrow>
      \<exists>s'. receive buf s = Inr (int (length f), blit buf 0 f, s') \<and> holds s' q"
    and receive_none: "holds s [] \<Longrightarrow> \<exists>s'. receive buf s = Inr (0, buf, s') \<and> holds s' []"

text \<open>Receiving \<open>n\<close> times into one buffer, collecting the received bytes.\<close>

fun drain :: "(byte list \<Rightarrow> 's \<Rightarrow> (int \<times> byte list \<times> 's) res) \<Rightarrow> nat \<Rightarrow> byte list \<Rightarrow> 's \<Rightarrow> (byte list list \<times> 's) res" where
  "drain rc 0 buf s = Inr ([], s)"
| "drain rc (Suc n) buf s =
     bind_res (rc buf s) (\<lambda>(r, buf', s').
     bind_res (drain rc n buf' s') (\<lambda>(fs, s''). Inr (take (nat r) buf' # fs, s'')))"

context rx_queue
begin

lemma drain_all:
  assumes "holds s q" and "\<forall>f\<in>set q. length f \<le> length buf"
  shows "\<exists>s'. drain receive (length q) buf s = Inr (q, s') \<and> holds s' []"
  using assms
proof (induction q arbitrary: s buf)
  case (Cons f q)
  then have lf: "length f \<le> length buf" by simp
  then obtain s1 where s1: "receive buf s = Inr (int (length f), blit buf 0 f, s1)" "holds s1 q"
    using receive_frame [OF Cons.prems(1)] by blast
  with Cons.IH [OF s1(2), of "blit buf 0 f"] Cons.prems(2) lf show ?case by auto
qed simp

end

lemma length_rx_frame:
  assumes "e1000_wf s" "i < 64" "unat (rx_length (rx_desc_table s ! i)) \<le> 1518"
  shows "length (rx_frame s i) = unat (rx_length (rx_desc_table s ! i))"
  using assms by (simp add: rx_frame_def e1000_wfD)

lemma e1000_receive_cons:
  assumes r: "rx_ring s (f # q)" and len: "length f \<le> length buf"
  shows "e1000_receive buf s = Inr (int (length f), blit buf 0 f, rx_take s)"
proof -
  note wf = rx_ringD(1) [OF r]
  have n: "unat (rx_next s) = (unat (E1000_REG s E1000_RDT) + 1 + 0) mod 64"
    using rx_next_eq [OF wf] by simp
  note d = rx_ringD(3-6) [OF r, where k = 0, folded n]
  have f: "rx_frame s (unat (rx_next s)) = f" using d(3) by simp
  have "length f = unat (rx_length (rx_desc_table s ! unat (rx_next s)))"
    using length_rx_frame [OF wf rx_next_less [OF wf]] d(4) f by simp
  with e1000_receive_ok [OF wf, of buf] d f len show ?thesis by simp
qed

lemma e1000_receive_long:
  assumes r: "rx_ring s (f # q)" and len: "length buf < length f"
  shows "e1000_receive buf s = Inl OutOfBounds"
proof -
  note wf = rx_ringD(1) [OF r]
  have n: "unat (rx_next s) = (unat (E1000_REG s E1000_RDT) + 1 + 0) mod 64"
    using rx_next_eq [OF wf] by simp
  note d = rx_ringD(3-6) [OF r, where k = 0, folded n]
  have f: "rx_frame s (unat (rx_next s)) = f" using d(3) by simp
  have "length f = unat (rx_length (rx_desc_table s ! unat (rx_next s)))"
    using length_rx_frame [OF wf rx_next_less [OF wf]] d(4) f by simp
  with d len show ?thesis
    unfolding e1000_receive_def rx_done_def rx_eop_def Let_def
    by (simp add: e1000_wfD [OF wf] rx_next_less [OF wf] mem_write_def)
qed

interpretation e1000_rx: rx_queue e1000_receive rx_ring
proof
  fix s :: "'a e1000_scheme" and f q and buf :: "byte list"
  show "\<exists>s'. e1000_receive buf s = Inr (int (length f), blit buf 0 f, s') \<and> rx_ring s' q"
    if "rx_ring s (f # q)" "length f \<le> length buf"
    using e1000_receive_cons [OF that] rx_ring_take [OF that(1)] by blast
  show "\<exists>s'. e1000_receive buf s = Inr (0, buf, s') \<and> rx_ring s' []" if r: "rx_ring s []"
  proof -
    have "\<not> rx_done s (unat (rx_next s))"
      using rx_ringD(3) [OF r, of 0] rx_next_eq [OF rx_ringD(1) [OF r]] by simp
    with e1000_receive_empty [OF rx_ringD(1) [OF r] this] r show ?thesis by auto
  qed
qed

section \<open>Initialisation establishes the rings\<close>

lemma fold_tx_desc_init:
  assumes "n \<le> length (tx_desc_table s)"
  shows "let s' = fold (tx_desc_init pa) [0..<n] s in
     length (tx_desc_table s') = length (tx_desc_table s) \<and>
     (\<forall>i<n. tx_done s' i) \<and> E1000_REG s' = E1000_REG s \<and>
     rx_desc_table s' = rx_desc_table s \<and> tx_buf s' = tx_buf s \<and> rx_buf s' = rx_buf s"
  using assms
proof (induction n)
  case (Suc n)
  then show ?case
    by (auto simp: Let_def tx_desc_init_def tx_done_def nth_list_update fun_eq_iff less_Suc_eq)
qed simp

lemma fold_rx_desc_init:
  assumes "n \<le> length (rx_desc_table s)"
  shows "let s' = fold (rx_desc_init pa) [0..<n] s in
     length (rx_desc_table s') = length (rx_desc_table s) \<and>
     (\<forall>i<n. \<not> rx_done s' i) \<and> E1000_REG s' = E1000_REG s \<and>
     tx_desc_table s' = tx_desc_table s \<and> tx_buf s' = tx_buf s \<and> rx_buf s' = rx_buf s"
  using assms
proof (induction n)
  case (Suc n)
  then show ?case
    by (auto simp: Let_def rx_desc_init_def rx_done_def nth_list_update fun_eq_iff less_Suc_eq)
qed simp

text \<open>The driver's tables and buffers have their declared sizes.\<close>

definition e1000_mem :: "'a e1000_scheme \<Rightarrow> bool" where
  "e1000_mem s \<longleftrightarrow> length (tx_desc_table s) = E1000_NU_DESC \<and> length (rx_desc_table s) = E1000_NU_DESC
     \<and> length (tx_buf s) = E1000_NU_DESC \<and> length (rx_buf s) = E1000_NU_DESC
     \<and> (\<forall>i<E1000_NU_DESC. length (tx_buf s ! i) = E1000_BUFFER_SIZE)
     \<and> (\<forall>i<E1000_NU_DESC. length (rx_buf s ! i) = E1000_BUFFER_SIZE)"

definition e1000_init :: "u64 \<Rightarrow> u64 \<Rightarrow> (nat \<Rightarrow> u64) \<Rightarrow> (nat \<Rightarrow> u64) \<Rightarrow> 'a e1000_scheme \<Rightarrow> 'a e1000_scheme" where
  "e1000_init pa_tx pa_rx pa_txb pa_rxb s =
     e1000_receive_init pa_rx pa_rxb (e1000_transmit_init pa_tx pa_txb s)"

lemma e1000_init_rings:
  assumes m: "e1000_mem s"
  shows "tx_ring (e1000_init pt pr bt br s) []" "rx_ring (e1000_init pt pr bt br s) []"
proof -
  let ?s1 = "e1000_transmit_init pt bt s"
  let ?s2 = "e1000_receive_init pr br ?s1"
  have 1: "length (tx_desc_table ?s1) = 64" "\<forall>i<64. tx_done ?s1 i"
    "E1000_REG ?s1 E1000_TDH = 0" "E1000_REG ?s1 E1000_TDT = 0"
    "rx_desc_table ?s1 = rx_desc_table s" "tx_buf ?s1 = tx_buf s" "rx_buf ?s1 = rx_buf s"
    using m unfolding e1000_transmit_init_def e1000_mem_def
    by (simp_all add: fold_tx_desc_init [unfolded Let_def])
  then have 2: "length (rx_desc_table ?s2) = 64" "\<forall>i<64. \<not> rx_done ?s2 i"
    "E1000_REG ?s2 E1000_TDH = 0" "E1000_REG ?s2 E1000_TDT = 0" "E1000_REG ?s2 E1000_RDT = 63"
    "tx_desc_table ?s2 = tx_desc_table ?s1" "tx_buf ?s2 = tx_buf s" "rx_buf ?s2 = rx_buf s"
    using m unfolding e1000_receive_init_def e1000_mem_def
    by (simp_all add: fold_rx_desc_init [unfolded Let_def])
  from 1 2 m have "e1000_wf ?s2" "\<forall>i<64. tx_done ?s2 i"
    by (simp_all add: e1000_wf_def e1000_mem_def tx_done_def)
  with 2 show "tx_ring (e1000_init pt pr bt br s) []" "rx_ring (e1000_init pt pr bt br s) []"
    by (simp_all add: e1000_init_def tx_ring_def rx_ring_def)
qed

section \<open>Driver and card together\<close>

text \<open>
  The card runs beside the driver. As the interface documents it, the card only
  reports the oldest pending transmit descriptor as done (advancing its head), or
  fills the receive descriptor that follows the unread ones, with a whole frame that
  fits a buffer. These two actions are assumptions on the hardware, not code.
\<close>

definition card_sent :: "'a e1000_scheme \<Rightarrow> 'a e1000_scheme" where
  "card_sent s =
     (let h = unat (E1000_REG s E1000_TDH); d = tx_desc_table s ! h in
      E1000_REG_set E1000_TDH ((E1000_REG s E1000_TDH + 1) mod 64)
        (s\<lparr>tx_desc_table := (tx_desc_table s)[h := d\<lparr>tx_status := tx_status d OR 1\<rparr>]\<rparr>))"

definition card_received :: "nat \<Rightarrow> byte list \<Rightarrow> 'a e1000_scheme \<Rightarrow> 'a e1000_scheme" where
  "card_received i f s =
     (let d = rx_desc_table s ! i in
      s\<lparr>rx_desc_table := (rx_desc_table s)[i := d\<lparr>rx_status := 3, rx_length := of_nat (length f)\<rparr>],
        rx_buf := (rx_buf s)[i := blit (rx_buf s ! i) 0 f]\<rparr>)"

inductive nic_step :: "'a e1000_scheme \<Rightarrow> 'a e1000_scheme \<Rightarrow> bool" where
  nic_transmit: "e1000_transmit buf len s = Inr (r, s') \<Longrightarrow> nic_step s s'"
| nic_receive: "e1000_receive buf s = Inr (r, buf', s') \<Longrightarrow> nic_step s s'"
| nic_sent: "\<not> tx_done s (unat (E1000_REG s E1000_TDH)) \<Longrightarrow> unat (E1000_REG s E1000_TDH) < 64 \<Longrightarrow>
    nic_step s (card_sent s)"
| nic_received: "rx_ring s q \<Longrightarrow> length q < 63 \<Longrightarrow> length f \<le> 1518 \<Longrightarrow>
    i = (unat (E1000_REG s E1000_RDT) + 1 + length q) mod 64 \<Longrightarrow> nic_step s (card_received i f s)"

inductive nic_reachable :: "'a e1000_scheme \<Rightarrow> bool" where
  nic_start: "e1000_mem s \<Longrightarrow> nic_reachable (e1000_init pt pr bt br s)"
| nic_next: "nic_reachable s \<Longrightarrow> nic_step s t \<Longrightarrow> nic_reachable t"

lemma rx_ring_tx_put [simp]:
  "e1000_wf s \<Longrightarrow> length f \<le> 1518 \<Longrightarrow> rx_ring (tx_put f s) q = rx_ring s q"
  using e1000_wf_tx_put [of s f]
  by (simp add: rx_ring_def rx_done_def rx_eop_def rx_frame_def tx_put_def Let_def)

lemma tx_ring_rx_take [simp]: "e1000_wf s \<Longrightarrow> tx_ring (rx_take s) q = tx_ring s q"
  using e1000_wf_rx_take [of s]
  by (simp add: tx_ring_def tx_done_def tx_frame_def rx_take_def Let_def)

lemma tx_ring_card_sent:
  assumes r: "tx_ring s q" and p: "\<not> tx_done s (unat (E1000_REG s E1000_TDH))"
    and h64: "unat (E1000_REG s E1000_TDH) < 64"
  shows "\<exists>f q'. q = f # q' \<and> tx_ring (card_sent s) q'"
proof -
  let ?h = "unat (E1000_REG s E1000_TDH)"
  note wf = tx_ringD(1) [OF r]
  have "q \<noteq> []" using tx_ringD(4) [OF r, of 0] p h64 by auto
  then obtain f q' where q: "q = f # q'" by (cases q) auto
  have h': "unat ((E1000_REG s E1000_TDH + 1) mod 64) = (?h + 1) mod 64" by (rule next_index [OF h64])
  have idx: "((?h + 1) mod 64 + k) mod 64 = (?h + Suc k) mod 64" for k
    using mod_add_left_eq [of "?h + 1" 64 k] by simp
  have eq: "(?h + Suc k) mod 64 = ?h \<longleftrightarrow> Suc k = 64" if "k < 64" for k
  proof (cases "Suc k = 64")
    case True then show ?thesis using h64 by (simp only: mod_add_self2) simp
  next
    case False
    with that nat_add_mod_cancel [of "Suc k" 64 0 ?h] h64 show ?thesis by simp
  qed
  have dn: "tx_done (card_sent s) i \<longleftrightarrow> tx_done s i \<or> i = ?h" if "i < 64" for i
    using that h64 by (auto simp: tx_done_def card_sent_def Let_def nth_list_update e1000_wfD [OF wf])
  have frame: "tx_frame (card_sent s) i = tx_frame s i" if "i < 64" for i
    using that h64 by (simp add: tx_frame_def card_sent_def Let_def nth_list_update e1000_wfD [OF wf])
  have "unat (E1000_REG s E1000_TDT) = ((?h + 1) mod 64 + length q') mod 64"
    unfolding idx using tx_ringD(3) [OF r] q by simp
  moreover have "tx_done (card_sent s) (((?h + 1) mod 64 + k) mod 64) \<longleftrightarrow> length q' \<le> k"
    if "k < 64" for k
  proof (cases "Suc k = 64")
    case True
    then show ?thesis
      unfolding idx using dn [of ?h] eq [OF that] h64 tx_ringD(2) [OF r] q by simp
  next
    case False
    then show ?thesis
      unfolding idx using dn eq [OF that] tx_ringD(4) [OF r, of "Suc k"] q that by simp
  qed
  moreover have "tx_frame (card_sent s) (((?h + 1) mod 64 + k) mod 64) = q' ! k"
    if "k < length q'" for k
    unfolding idx using frame tx_ringD(5) [OF r, of "Suc k"] q that by simp
  moreover have "e1000_wf (card_sent s)"
    using wf by (simp add: e1000_wf_def card_sent_def Let_def)
  ultimately have "tx_ring (card_sent s) q'"
    using tx_ringD(2) [OF r] h' q by (simp add: tx_ring_def card_sent_def Let_def)
  with q show ?thesis by blast
qed

lemma rx_ring_card_sent [simp]: "e1000_wf s \<Longrightarrow> rx_ring (card_sent s) q = rx_ring s q"
  by (simp add: rx_ring_def rx_done_def rx_eop_def rx_frame_def card_sent_def Let_def e1000_wf_def)

lemma card_received_wf:
  assumes "e1000_wf s" "length f \<le> 1518" "i < 64"
  shows "e1000_wf (card_received i f s)"
  using assms by (simp add: e1000_wf_def card_received_def Let_def nth_list_update)

lemma tx_ring_card_received [simp]:
  "e1000_wf s \<Longrightarrow> length f \<le> 1518 \<Longrightarrow> i < 64 \<Longrightarrow> tx_ring (card_received i f s) q = tx_ring s q"
  using card_received_wf [of s f i]
  by (simp add: tx_ring_def tx_done_def tx_frame_def card_received_def Let_def)

lemma rx_ring_card_received:
  assumes r: "rx_ring s q" and room: "length q < 63" and lf: "length f \<le> 1518"
    and i: "i = (unat (E1000_REG s E1000_RDT) + 1 + length q) mod 64"
  shows "rx_ring (card_received i f s) (q @ [f])"
proof -
  let ?t = "unat (E1000_REG s E1000_RDT)"
  note wf = rx_ringD(1) [OF r]
  let ?s = "card_received i f s"
  have i64: "i < 64" using i by simp
  have reg: "E1000_REG ?s E1000_RDT = E1000_REG s E1000_RDT"
    by (simp add: card_received_def Let_def)
  have idx: "(?t + 1 + k) mod 64 = i \<longleftrightarrow> k = length q" if "k < 64" for k
    unfolding i using that room by (intro nat_add_mod_cancel) auto
  have new: "rx_done ?s i" "rx_eop ?s i" "rx_frame ?s i = f" "unat (rx_length (rx_desc_table ?s ! i)) \<le> 1518"
    using i64 lf e1000_wfD [OF wf]
    by (simp_all add: rx_done_def rx_eop_def rx_frame_def card_received_def Let_def
        unat_of_nat_u16 take_blit_0_le)
  have old: "rx_desc_table ?s ! j = rx_desc_table s ! j" "rx_buf ?s ! j = rx_buf s ! j" if "j \<noteq> i" for j
    using that by (simp_all add: card_received_def Let_def)
  have "rx_done ?s ((?t + 1 + k) mod 64) \<longleftrightarrow> k < length (q @ [f])" if "k < 64" for k
    using rx_ringD(3) [OF r that] idx [OF that] new(1) old
    by (cases "k = length q") (auto simp: rx_done_def)
  moreover have "rx_eop ?s ((?t + 1 + k) mod 64) \<and> rx_frame ?s ((?t + 1 + k) mod 64) = (q @ [f]) ! k
      \<and> unat (rx_length (rx_desc_table ?s ! ((?t + 1 + k) mod 64))) \<le> 1518"
    if "k < length (q @ [f])" for k
  proof (cases "k = length q")
    case True
    with new idx [of k] room show ?thesis by simp
  next
    case False
    with that room idx [of k] have "k < length q" "(?t + 1 + k) mod 64 \<noteq> i" by auto
    with rx_ringD(4-6) [OF r, of k] old show ?thesis
      by (simp add: rx_eop_def rx_frame_def nth_append)
  qed
  ultimately show ?thesis
    using card_received_wf [OF wf lf i64] room unfolding rx_ring_def Let_def reg by simp
qed

lemma nic_step_rings:
  assumes step: "nic_step s t" and tx: "tx_ring s q" and rx: "rx_ring s r"
  shows "\<exists>q' r'. tx_ring t q' \<and> rx_ring t r'"
  using step
proof cases
  note wf = tx_ringD(1) [OF tx]
  {
    case (nic_transmit buf len rc)
    from wf nic_transmit show ?thesis
    proof (cases rule: e1000_transmit_Inr)
      case full
      with tx rx show ?thesis by auto
    next
      case sent
      then have "tx_ring t (q @ [take (min (unat len) 1518) buf])"
        using tx_ring_put [OF tx] tx_free_iff [OF tx] by simp
      with sent rx wf show ?thesis by auto
    qed
  next
    case (nic_receive buf rc buf')
    from wf nic_receive show ?thesis
    proof (cases rule: e1000_receive_Inr)
      case none
      with tx rx show ?thesis by auto
    next
      case frame
      then have "r \<noteq> []"
        using rx_ringD(3) [OF rx, of 0] rx_next_eq [OF wf] by auto
      then obtain f r' where "r = f # r'" by (cases r) auto
      with frame(3) tx wf rx rx_ring_take [of s f r'] show ?thesis by auto
    qed
  next
    case nic_sent
    with tx_ring_card_sent [OF tx] rx wf show ?thesis by auto
  next
    case (nic_received q0 f i)
    have "i < 64" using nic_received by simp
    with nic_received tx wf rx_ring_card_received [of s q0 f i] show ?thesis by auto
  }
qed

text \<open>The zero-initialised memory the driver starts from (its \<^verbatim>\<open>.bss\<close>).\<close>

definition tx_desc_bss :: tx_desc where
  "tx_desc_bss = \<lparr>tx_buf_addr = 0, tx_length = 0, tx_cso = 0, tx_cmd = 0, tx_status = 0,
     tx_css = 0, tx_special = 0\<rparr>"

definition rx_desc_bss :: rx_desc where
  "rx_desc_bss = \<lparr>rx_buf_addr = 0, rx_length = 0, rx_checksum = 0, rx_status = 0,
     rx_errors = 0, rx_special = 0\<rparr>"

definition e1000_bss :: "'a \<Rightarrow> 'a e1000_scheme" where
  "e1000_bss m = \<lparr>console = [], phy_mmio = (\<lambda>_. 0),
     tx_desc_table = replicate 64 tx_desc_bss, rx_desc_table = replicate 64 rx_desc_bss,
     tx_buf = replicate 64 (replicate 1518 0), rx_buf = replicate 64 (replicate 1518 0), \<dots> = m\<rparr>"

definition e1000_boot_with :: "'a \<Rightarrow> 'a e1000_scheme" where
  "e1000_boot_with m = e1000_init 0 0 (\<lambda>_. 0) (\<lambda>_. 0) (e1000_bss m)"

abbreviation e1000_boot :: e1000 where
  "e1000_boot \<equiv> e1000_boot_with ()"

lemma e1000_mem_bss: "e1000_mem (e1000_bss m)"
  by (simp add: e1000_mem_def e1000_bss_def)

lemma e1000_boot_rings: "tx_ring (e1000_boot_with m) []" "rx_ring (e1000_boot_with m) []"
  unfolding e1000_boot_with_def by (rule e1000_init_rings [OF e1000_mem_bss])+

lemma e1000_more_boot: "e1000.more (e1000_boot_with m) = m"
proof -
  have tx: "e1000.more (fold (tx_desc_init pa) xs s) = e1000.more s" for pa xs and s :: "'b e1000_scheme"
    by (induction xs arbitrary: s) (simp_all add: tx_desc_init_def Let_def)
  have rx: "e1000.more (fold (rx_desc_init pa) xs s) = e1000.more s" for pa xs and s :: "'b e1000_scheme"
    by (induction xs arbitrary: s) (simp_all add: rx_desc_init_def Let_def)
  show ?thesis
    by (simp add: e1000_boot_with_def e1000_init_def e1000_receive_init_def e1000_transmit_init_def
        tx rx E1000_REG_set_def e1000_bss_def)
qed

text \<open>A state whose next receive descriptor holds the first part of a long frame.\<close>

definition e1000_split_frame :: e1000 where
  "e1000_split_frame = e1000_boot\<lparr>rx_desc_table :=
     (rx_desc_table e1000_boot)[0 := rx_desc_bss\<lparr>rx_status := 1, rx_length := 1518\<rparr>]\<rparr>"

lemma e1000_split_frame_facts:
  "e1000_wf e1000_split_frame" "rx_done e1000_split_frame (unat (rx_next e1000_split_frame))"
  "\<not> rx_eop e1000_split_frame (unat (rx_next e1000_split_frame))"
proof -
  have wf: "e1000_wf e1000_boot" by (rule tx_ringD(1) [OF e1000_boot_rings(1)])
  have "E1000_REG e1000_boot E1000_RDT = 63"
    using e1000_mem_bss [of "()"]
    by (simp add: e1000_boot_with_def e1000_init_def e1000_receive_init_def e1000_transmit_init_def e1000_mem_def
        fold_rx_desc_init [unfolded Let_def] fold_tx_desc_init [unfolded Let_def])
  then have "rx_next e1000_split_frame = 0"
    by (simp add: rx_next_def e1000_split_frame_def)
  with wf show "e1000_wf e1000_split_frame" "rx_done e1000_split_frame (unat (rx_next e1000_split_frame))"
    "\<not> rx_eop e1000_split_frame (unat (rx_next e1000_split_frame))"
    by (simp_all add: e1000_wf_def e1000_split_frame_def rx_done_def rx_eop_def)
qed

section \<open>Properties\<close>

text \<open>
  Whatever the driver and the card do after the initialisation, in any order, the
  two rings stay well-formed queues: the descriptors between head and tail are exactly
  the pending ones, and the driver's indices stay inside the tables.
\<close>

theorem nic_reachable_rings:
  assumes "nic_reachable s"
  shows "\<exists>q r. tx_ring s q \<and> rx_ring s r"
  using assms
proof (induction rule: nic_reachable.induct)
  case (nic_start s pt pr bt br)
  with e1000_init_rings show ?case by blast
next
  case (nic_next s t)
  with nic_step_rings show ?case by blast
qed

theorem nic_reachable_rings_witness:
  "\<exists>q r. tx_ring e1000_boot q \<and> rx_ring e1000_boot r"
  unfolding e1000_boot_with_def
  by (rule nic_reachable_rings [OF nic_start [OF e1000_mem_bss]])

text \<open>
  Transmit refines a bounded FIFO queue. A burst of frames handed to
  \<^verbatim>\<open>e1000_transmit\<close> one after the other, while \<open>q\<close> is pending, is accepted in order
  until 64 frames are pending; every frame after that is refused with -1 and leaves
  the queue as it is.
\<close>

theorem e1000_transmit_queue:
  assumes "tx_ring s q" and "\<forall>f\<in>set fs. length f \<le> 1518"
  shows "\<exists>s'. burst e1000_transmit fs s =
      Inr (map (\<lambda>i. if length q + i < 64 then 0 else -1) [0..<length fs], s')
    \<and> tx_ring s' (q @ take (64 - length q) fs)"
  using e1000_tx.burst_prefix [OF assms] by simp

theorem e1000_transmit_queue_witness:
  "\<exists>s'. burst e1000_transmit (replicate 70 [1, 2, 3]) e1000_boot =
      Inr (map (\<lambda>i. if i < 64 then 0 else -1) [0..<70], s') \<and> tx_ring s' (replicate 64 [1, 2, 3])"
  using e1000_transmit_queue [OF e1000_boot_rings(1), of "replicate 70 [1, 2, 3]"]
  by simp

text \<open>
  Receive refines the other end of a FIFO queue: as many calls as there are
  unread frames return exactly these frames, in the order of arrival, and leave the
  ring empty.
\<close>

theorem e1000_receive_queue:
  assumes "rx_ring s q" and "\<forall>f\<in>set q. length f \<le> length buf"
  shows "\<exists>s'. drain e1000_receive (length q) buf s = Inr (q, s') \<and> rx_ring s' []"
  using assms by (rule e1000_rx.drain_all)

theorem e1000_receive_queue_witness:
  "\<exists>(s' :: e1000) s''. rx_ring s' [[7, 8]] \<and> drain e1000_receive 1 [0, 0, 0] s' = Inr ([[7, 8]], s'') \<and> rx_ring s'' []"
proof -
  let ?s = "card_received ((unat (E1000_REG e1000_boot E1000_RDT) + 1) mod 64) [7, 8] e1000_boot"
  have r: "rx_ring ?s [[7, 8]]"
    using rx_ring_card_received [OF e1000_boot_rings(2) [of "()"], of "[7, 8]"] by simp
  from e1000_receive_queue [OF r, of "[0, 0, 0]"]
  have "\<exists>s''. drain e1000_receive 1 [0, 0, 0] ?s = Inr ([[7, 8]], s'') \<and> rx_ring s'' []" by simp
  with r show ?thesis by blast
qed

text \<open>
  C25: A frame that the card spreads over more than one descriptor wedges the driver:
  when the next descriptor is done but not the end of a packet, \<^verbatim>\<open>e1000_receive\<close>
  returns 0, leaves the descriptor and the tail register alone, and so does every
  later call, whatever the number of calls.
\<close>

theorem e1000_receive_wedged:
  assumes "e1000_wf s" and "rx_done s (unat (rx_next s))" and "\<not> rx_eop s (unat (rx_next s))"
  shows "\<exists>m. drain e1000_receive n buf s = Inr (replicate n [], cprintf m s)"
  using assms
proof (induction n arbitrary: s)
  case 0
  have "cprintf [] s = s" by (simp add: cprintf_def)
  then show ?case by (auto intro: exI [of _ "[]"])
next
  case (Suc n)
  let ?m = "bytes_of ''\<newline>E1000 receive status is not EOP\<newline>''"
  have n: "rx_next (cprintf m s) = rx_next s" for m by (simp add: rx_next_def)
  from Suc.prems have "e1000_wf (cprintf ?m s)" "rx_done (cprintf ?m s) (unat (rx_next (cprintf ?m s)))"
    "\<not> rx_eop (cprintf ?m s) (unat (rx_next (cprintf ?m s)))"
    by (simp_all add: n rx_done_def rx_eop_def)
  then obtain m where "drain e1000_receive n buf (cprintf ?m s) = Inr (replicate n [], cprintf m (cprintf ?m s))"
    using Suc.IH by blast
  moreover have "cprintf m (cprintf ?m s) = cprintf (?m @ m) s" by (simp add: cprintf_def)
  ultimately show ?case
    using e1000_receive_not_eop [OF Suc.prems, of buf] by auto
qed

theorem e1000_receive_wedged_witness:
  "\<exists>m. drain e1000_receive 5 [] e1000_split_frame = Inr (replicate 5 [], cprintf m e1000_split_frame)"
  by (rule e1000_receive_wedged [OF e1000_split_frame_facts])

text \<open>
  The polling loop \<^verbatim>\<open>e1000_listen\<close> returns exactly at the first observed state in
  which the next receive descriptor is done; given a number of rounds up to that
  state it does return.
\<close>

theorem e1000_listen_first:
  "e1000_listen fuel obs n = Some (r, m) \<longleftrightarrow>
     r = 0 \<and> n \<le> m \<and> m < n + fuel \<and> rx_ready (obs m) \<and> (\<forall>i\<in>{n..<m}. \<not> rx_ready (obs i))"
proof (induction fuel arbitrary: n)
  case (Suc fuel)
  have "{n..<m} = insert n {Suc n..<m}" if "n < m" using that by auto
  then show ?case
    using Suc.IH [of "Suc n"] by (cases "n = m") (auto simp: less_Suc_eq le_less)
qed auto

theorem e1000_listen_first_witness:
  "e1000_listen 3 (\<lambda>n. if n = 2 then e1000_split_frame else e1000_boot) 0 = Some (0, 2)"
proof -
  have "\<not> rx_ready e1000_boot"
    using rx_ringD(3) [OF e1000_boot_rings(2) [of "()"], of 0] rx_next_eq [OF rx_ringD(1) [OF e1000_boot_rings(2) [of "()"]]]
    by (simp add: rx_ready_def rx_done_def)
  moreover have "rx_ready e1000_split_frame"
    using e1000_split_frame_facts(2) by (simp add: rx_ready_def rx_done_def)
  ultimately show ?thesis
    by (subst e1000_listen_first) auto
qed

end
