(* ===== verification/ArpTable.thy ===== *)
theory ArpTable
  imports E1000
begin

text \<open>
  The ARP cache (\<^verbatim>\<open>kern/arp.h\<close> and the first half of \<^verbatim>\<open>kern/arp.c\<close>): a table of 32
  entries that is searched linearly.

  \<^item> \<open>get_mac_by_ip\<close>, \<open>initialize_arp_table\<close>, \<open>update_arp_table\<close>: the three operations;
    a lookup that fails returns \<^verbatim>\<open>NULL\<close>, here \<open>None\<close>;
  \<^item> \<open>arp_inv\<close>: the used entries form a prefix with distinct addresses;
  \<^item> the table as a finite map: what a lookup returns after an update.
\<close>

section \<open>State and operations\<close>

abbreviation (input) ARP_TABLE_MAX_SIZE :: nat where "ARP_TABLE_MAX_SIZE \<equiv> 32"

abbreviation (input) FREE_STATE :: u32 where "FREE_STATE \<equiv> 0"
abbreviation (input) STATIC_STATE :: u32 where "STATIC_STATE \<equiv> 1"
abbreviation (input) DYNAMIC_STATE :: u32 where "DYNAMIC_STATE \<equiv> 2"

record arp_cache_table =
  ent_ip :: u32
  ent_mac :: "byte list"
  ent_state :: u32

record arp_state = e1000 +
  arp_table :: "arp_cache_table list"

text \<open>\<^verbatim>\<open>IP(a, b, c, d)\<close> of \<^verbatim>\<open>kern/ip.h\<close> and the two fixed addresses.\<close>

definition IP :: "u32 \<Rightarrow> u32 \<Rightarrow> u32 \<Rightarrow> u32 \<Rightarrow> u32" where
  "IP a b c d = push_bit 24 a + push_bit 16 b + push_bit 8 c + d"

definition MY_IP :: u32 where
  "MY_IP = IP 192 168 123 2"

definition HOST_IP :: u32 where
  "HOST_IP = IP 192 168 123 1"

fun arp_find :: "u32 \<Rightarrow> arp_cache_table list \<Rightarrow> byte list option" where
  "arp_find ip [] = None"
| "arp_find ip (e # es) = (if ent_ip e = ip then Some (ent_mac e) else arp_find ip es)"

definition get_mac_by_ip :: "u32 \<Rightarrow> 'a arp_state_scheme \<Rightarrow> byte list option" where
  "get_mac_by_ip ip s = arp_find ip (arp_table s)"

definition default_mac :: "byte list" where
  "default_mac = [0xca, 0xfe, 0x33, 0x53, 0x82, 0x87]"

definition arp_init_entries :: "arp_cache_table list \<Rightarrow> arp_cache_table list" where
  "arp_init_entries t =
     (let t1 = t[31 := (t ! 31)\<lparr>ent_ip := JHTONL HOST_IP, ent_mac := default_mac, ent_state := STATIC_STATE\<rparr>]
      in fold (\<lambda>i t. t[i := (t ! i)\<lparr>ent_state := FREE_STATE\<rparr>]) [1..<ARP_TABLE_MAX_SIZE] t1)"

definition initialize_arp_table :: "'a arp_state_scheme \<Rightarrow> 'a arp_state_scheme" where
  "initialize_arp_table s = s\<lparr>arp_table := arp_init_entries (arp_table s)\<rparr>"

fun arp_update_entries :: "u32 \<Rightarrow> byte list \<Rightarrow> arp_cache_table list \<Rightarrow> int \<times> arp_cache_table list" where
  "arp_update_entries ip mac [] = (-1, [])"
| "arp_update_entries ip mac (e # es) =
     (if ent_state e = FREE_STATE
      then (0, e\<lparr>ent_ip := ip, ent_mac := mac, ent_state := DYNAMIC_STATE\<rparr> # es)
      else if ent_ip e = ip
      then (0, (if ent_state e = DYNAMIC_STATE then e\<lparr>ent_mac := mac\<rparr> else e) # es)
      else let (r, es') = arp_update_entries ip mac es in (r, e # es'))"

definition update_arp_table :: "u32 \<Rightarrow> byte list \<Rightarrow> 'a arp_state_scheme \<Rightarrow> int \<times> 'a arp_state_scheme" where
  "update_arp_table ip mac s =
     (let (r, t) = arp_update_entries ip mac (arp_table s) in (r, s\<lparr>arp_table := t\<rparr>))"

section \<open>Lookup\<close>

lemma arp_find_append:
  "arp_find ip (xs @ ys) = (case arp_find ip xs of None \<Rightarrow> arp_find ip ys | Some m \<Rightarrow> Some m)"
  by (induction xs) auto

lemma arp_find_None: "arp_find ip es = None \<longleftrightarrow> (\<forall>e\<in>set es. ent_ip e \<noteq> ip)"
  by (induction es) auto

lemma arp_find_distinct:
  "distinct (map ent_ip es) \<Longrightarrow> e \<in> set es \<Longrightarrow> arp_find (ent_ip e) es = Some (ent_mac e)"
  by (induction es) force+

lemma arp_find_mem: "arp_find ip es = Some m \<Longrightarrow> \<exists>e\<in>set es. ent_ip e = ip \<and> ent_mac e = m"
  by (induction es) (auto split: if_splits)

text \<open>
  A table in which \<open>used\<close> entries have been learnt: they come first, are dynamic and
  have distinct addresses; the rest is free. The last entry, when free, still carries
  the address that \<^verbatim>\<open>initialize_arp_table\<close> put there.
\<close>

definition arp_used :: "arp_cache_table list \<Rightarrow> bool" where
  "arp_used us \<longleftrightarrow> distinct (map ent_ip us)
     \<and> (\<forall>e\<in>set us. ent_state e = DYNAMIC_STATE \<and> length (ent_mac e) = 6)"

definition arp_blank :: "arp_cache_table \<Rightarrow> bool" where
  "arp_blank e \<longleftrightarrow> ent_ip e = 0 \<and> ent_state e = FREE_STATE \<and> length (ent_mac e) = 6"

definition arp_default :: "arp_cache_table \<Rightarrow> bool" where
  "arp_default e \<longleftrightarrow> ent_ip e = JHTONL HOST_IP \<and> ent_mac e = default_mac \<and> ent_state e = FREE_STATE"

definition arp_shape :: "arp_cache_table list \<Rightarrow> arp_cache_table list \<Rightarrow> bool" where
  "arp_shape us t \<longleftrightarrow> length t = 32 \<and> arp_used us \<and>
     (t = us \<or> (\<exists>bs d. t = us @ bs @ [d] \<and> (\<forall>b\<in>set bs. arp_blank b) \<and> arp_default d))"

definition arp_inv :: "arp_cache_table list \<Rightarrow> bool" where
  "arp_inv t \<longleftrightarrow> (\<exists>us. arp_shape us t)"

lemma arp_shape_cases [consumes 1, case_names full room last]:
  assumes "arp_shape us t"
  obtains "t = us" "length us = 32" "arp_used us"
  | b bs d where "t = us @ b # bs @ [d]" "arp_blank b" "\<forall>b\<in>set bs. arp_blank b" "arp_default d"
      "arp_used us" "length us + length bs = 30"
  | d where "t = us @ [d]" "arp_default d" "arp_used us" "length us = 31"
proof -
  from assms consider "t = us" "length us = 32" "arp_used us"
    | bs d where "t = us @ bs @ [d]" "\<forall>b\<in>set bs. arp_blank b" "arp_default d" "arp_used us" "length t = 32"
    by (auto simp: arp_shape_def)
  then show thesis
  proof cases
    case 1 with that(1) show thesis by blast
  next
    case (2 bs d) with that(2,3) show thesis by (cases bs) auto
  qed
qed

section \<open>Update\<close>

text \<open>The search passes over learnt entries with other addresses.\<close>

lemma arp_update_skip:
  assumes "\<forall>e\<in>set us. ent_state e \<noteq> FREE_STATE \<and> ent_ip e \<noteq> ip"
  shows "arp_update_entries ip mac (us @ es) =
    (let (r, es') = arp_update_entries ip mac es in (r, us @ es'))"
  using assms by (induction us) (auto split: prod.splits)

lemma arp_update_known:
  assumes "arp_used us" and "e \<in> set us" and "ent_ip e = ip"
  shows "\<exists>us1 us2. us = us1 @ e # us2 \<and> ip \<notin> ent_ip ` set us1 \<and> ip \<notin> ent_ip ` set us2
    \<and> arp_update_entries ip mac (us @ es) = (0, us1 @ e\<lparr>ent_mac := mac\<rparr> # us2 @ es)"
proof -
  from assms(2) obtain us1 us2 where us: "us = us1 @ e # us2" by (meson split_list)
  with assms have n: "ip \<notin> ent_ip ` set us1" "ip \<notin> ent_ip ` set us2"
    by (auto simp: arp_used_def)
  have sk: "\<forall>e\<in>set us1. ent_state e \<noteq> FREE_STATE \<and> ent_ip e \<noteq> ip"
    using n(1) assms(1) us by (auto simp: arp_used_def image_iff)
  have "ent_state e = DYNAMIC_STATE" using assms(1,2) by (auto simp: arp_used_def)
  then have "arp_update_entries ip mac (us1 @ (e # us2 @ es)) = (0, us1 @ e\<lparr>ent_mac := mac\<rparr> # us2 @ es)"
    using assms(3) unfolding arp_update_skip [OF sk] by simp
  with us n show ?thesis by auto
qed

lemma arp_update_new:
  assumes "arp_used us" and "ip \<notin> ent_ip ` set us" and "ent_state e = FREE_STATE"
  shows "arp_update_entries ip mac (us @ e # es) =
    (0, us @ e\<lparr>ent_ip := ip, ent_mac := mac, ent_state := DYNAMIC_STATE\<rparr> # es)"
proof -
  have "\<forall>e\<in>set us. ent_state e \<noteq> FREE_STATE \<and> ent_ip e \<noteq> ip"
    using assms(1,2) by (auto simp: arp_used_def image_iff)
  then show ?thesis using assms(3) by (simp add: arp_update_skip)
qed

lemma arp_update_full:
  assumes "arp_used us" and "ip \<notin> ent_ip ` set us"
  shows "arp_update_entries ip mac us = (-1, us)"
proof -
  have "\<forall>e\<in>set us. ent_state e \<noteq> FREE_STATE \<and> ent_ip e \<noteq> ip"
    using assms by (auto simp: arp_used_def image_iff)
  then show ?thesis using arp_update_skip [of us ip mac "[]"] by simp
qed

lemma arp_used_snoc:
  "arp_used us \<Longrightarrow> ip \<notin> ent_ip ` set us \<Longrightarrow> length mac = 6 \<Longrightarrow>
   arp_used (us @ [e\<lparr>ent_ip := ip, ent_mac := mac, ent_state := DYNAMIC_STATE\<rparr>])"
  by (auto simp: arp_used_def)

lemma arp_used_mac:
  "arp_used (us1 @ e # us2) \<Longrightarrow> length mac = 6 \<Longrightarrow> arp_used (us1 @ e\<lparr>ent_mac := mac\<rparr> # us2)"
  by (auto simp: arp_used_def)

text \<open>The addresses the cache has learnt.\<close>

definition arp_known :: "arp_cache_table list \<Rightarrow> u32 set" where
  "arp_known t = ent_ip ` {e \<in> set t. ent_state e \<noteq> FREE_STATE}"

lemma arp_known_shape: "arp_shape us t \<Longrightarrow> arp_known t = ent_ip ` set us"
proof (cases rule: arp_shape_cases)
qed (auto simp: arp_known_def arp_used_def arp_blank_def arp_default_def)

lemma arp_find_known:
  assumes "arp_shape us t" and "ip \<in> ent_ip ` set us"
  shows "arp_find ip t = arp_find ip us"
proof -
  from assms(2) have "arp_find ip us \<noteq> None" by (auto simp: arp_find_None)
  with assms(1) show ?thesis by (auto simp: arp_shape_def arp_find_append split: option.splits)
qed

lemma arp_update_shape_known:
  assumes sh: "arp_shape us t" and k: "ip \<in> ent_ip ` set us" and m: "length mac = 6"
  shows "\<exists>us' t'. arp_update_entries ip mac t = (0, t') \<and> arp_shape us' t' \<and> ent_ip ` set us' = ent_ip ` set us
    \<and> (\<forall>q. arp_find q t' = (if q = ip then Some mac else arp_find q t))"
proof -
  from sh obtain es where t: "t = us @ es" "arp_used us" by (auto simp: arp_shape_def)
  from k obtain e where e: "e \<in> set us" "ent_ip e = ip" by auto
  from arp_update_known [OF t(2) e, of mac es] obtain us1 us2 where
    us: "us = us1 @ e # us2" "ip \<notin> ent_ip ` set us1" "ip \<notin> ent_ip ` set us2"
    and up: "arp_update_entries ip mac t = (0, (us1 @ e\<lparr>ent_mac := mac\<rparr> # us2) @ es)"
    using t(1) by auto
  let ?us = "us1 @ e\<lparr>ent_mac := mac\<rparr> # us2"
  have "arp_used ?us" using arp_used_mac t(2) us(1) m by blast
  then have "arp_shape ?us (?us @ es)"
    using sh t(1) us(1) by (auto simp: arp_shape_def)
  moreover have "arp_find q (?us @ es) = (if q = ip then Some mac else arp_find q t)" for q
  proof -
    have "arp_find ip us1 = None" using us(2) by (auto simp: arp_find_None image_iff)
    then show ?thesis using t(1) us(1) e(2) by (auto simp: arp_find_append split: option.splits)
  qed
  ultimately show ?thesis using up us(1) by (intro exI [of _ ?us] exI [of _ "?us @ es"]) auto
qed

lemma arp_update_shape_room:
  assumes sh: "arp_shape us t" and n: "ip \<notin> ent_ip ` set us" and m: "length mac = 6"
    and room: "length us < 31"
  shows "\<exists>us' t'. arp_update_entries ip mac t = (0, t') \<and> arp_shape us' t'
    \<and> ent_ip ` set us' = insert ip (ent_ip ` set us)
    \<and> (\<forall>q. q \<noteq> 0 \<longrightarrow> arp_find q t' = (if q = ip then Some mac else arp_find q t))"
  using sh
proof (cases rule: arp_shape_cases)
  case (room b bs d)
  let ?b = "b\<lparr>ent_ip := ip, ent_mac := mac, ent_state := DYNAMIC_STATE\<rparr>"
  have up: "arp_update_entries ip mac t = (0, us @ ?b # bs @ [d])"
    using arp_update_new [OF room(5) n, of b mac "bs @ [d]"] room(1,2) by (simp add: arp_blank_def)
  have "arp_shape (us @ [?b]) (us @ ?b # bs @ [d])"
    using arp_used_snoc [OF room(5) n m] room by (auto simp: arp_shape_def)
  moreover have "arp_find q (us @ ?b # bs @ [d]) = (if q = ip then Some mac else arp_find q t)" if "q \<noteq> 0" for q
  proof -
    have "arp_find ip us = None" using n by (auto simp: arp_find_None image_iff)
    then show ?thesis using that room(1,2)
      by (auto simp: arp_find_append arp_blank_def split: option.splits)
  qed
  ultimately show ?thesis using up
    by (intro exI [of _ "us @ [?b]"] exI [of _ "us @ ?b # bs @ [d]"]) auto
qed (use room in auto)

lemma arp_update_shape_last:
  assumes sh: "arp_shape us t" and n: "ip \<notin> ent_ip ` set us" and m: "length mac = 6"
    and last: "length us = 31"
  shows "\<exists>us' t'. arp_update_entries ip mac t = (0, t') \<and> arp_shape us' t'
    \<and> ent_ip ` set us' = insert ip (ent_ip ` set us)
    \<and> (\<forall>q. arp_find q t' = (if q = ip then Some mac else arp_find q us))"
  using sh
proof (cases rule: arp_shape_cases)
  case (last d)
  let ?d = "d\<lparr>ent_ip := ip, ent_mac := mac, ent_state := DYNAMIC_STATE\<rparr>"
  have up: "arp_update_entries ip mac t = (0, us @ [?d])"
    using arp_update_new [OF last(3) n, of d mac "[]"] last(1,2) by (simp add: arp_default_def)
  have "arp_shape (us @ [?d]) (us @ [?d])"
    using arp_used_snoc [OF last(3) n m] last by (auto simp: arp_shape_def)
  moreover have "arp_find q (us @ [?d]) = (if q = ip then Some mac else arp_find q us)" for q
  proof -
    have "arp_find ip us = None" using n by (auto simp: arp_find_None image_iff)
    then show ?thesis by (auto simp: arp_find_append split: option.splits)
  qed
  ultimately show ?thesis using up
    by (intro exI [of _ "us @ [?d]"] exI [of _ "us @ [?d]"]) auto
qed (use last in auto)

lemma arp_known_card: "arp_shape us t \<Longrightarrow> card (arp_known t) = length us"
  unfolding arp_known_shape
  by (metis arp_shape_def arp_used_def distinct_card length_map set_map)

lemma arp_inv_update:
  assumes "arp_inv t" and "length mac = 6"
  shows "arp_inv (snd (arp_update_entries ip mac t))"
proof -
  from assms(1) obtain us where sh: "arp_shape us t" by (auto simp: arp_inv_def)
  show ?thesis
  proof (cases "ip \<in> ent_ip ` set us")
    case True
    with arp_update_shape_known [OF sh True assms(2)] show ?thesis by (auto simp: arp_inv_def)
  next
    case new: False
    consider "length us < 31" | "length us = 31" | "length us = 32"
      using sh by (cases rule: arp_shape_cases) auto
    then show ?thesis
    proof cases
      case 3
      then have "t = us" using sh by (auto simp: arp_shape_def)
      with arp_update_full [of us ip mac] new sh show ?thesis by (auto simp: arp_inv_def arp_shape_def)
    qed (use arp_update_shape_room [OF sh new assms(2)] arp_update_shape_last [OF sh new assms(2)]
        in \<open>auto simp: arp_inv_def\<close>)
  qed
qed

section \<open>The cache as a map\<close>

text \<open>The contract of a neighbour cache with room for \<open>cap\<close> learnt addresses.\<close>

locale mac_cache =
  fixes lookup :: "u32 \<Rightarrow> 't \<Rightarrow> byte list option"
    and learn :: "u32 \<Rightarrow> byte list \<Rightarrow> 't \<Rightarrow> int \<times> 't"
    and known :: "'t \<Rightarrow> u32 set"
    and invar :: "'t \<Rightarrow> bool"
    and cap :: nat
  assumes learn_ok: "invar t \<Longrightarrow> length mac = 6 \<Longrightarrow> ip \<in> known t \<or> card (known t) < cap \<Longrightarrow>
      \<exists>t'. learn ip mac t = (0, t') \<and> invar t' \<and> known t' = insert ip (known t)
        \<and> (\<forall>q. q \<noteq> 0 \<longrightarrow> lookup q t' = (if q = ip then Some mac else lookup q t))"
    and finite_known: "finite (known t)"

definition learn_list :: "(u32 \<Rightarrow> byte list \<Rightarrow> 't \<Rightarrow> int \<times> 't) \<Rightarrow> (u32 \<times> byte list) list \<Rightarrow> 't \<Rightarrow> 't" where
  "learn_list learn ps t = fold (\<lambda>(ip, mac) t. snd (learn ip mac t)) ps t"

context mac_cache
begin

lemma learn_list_lookup:
  assumes "invar t" and "\<forall>(ip, mac)\<in>set ps. length mac = 6"
    and "card (known t \<union> fst ` set ps) \<le> cap"
  shows "invar (learn_list learn ps t)"
    and "known (learn_list learn ps t) = known t \<union> fst ` set ps"
    and "q \<noteq> 0 \<Longrightarrow> lookup q (learn_list learn ps t) =
      (case map_of (rev ps) q of Some m \<Rightarrow> Some m | None \<Rightarrow> lookup q t)"
proof -
  have "invar (learn_list learn ps t) \<and> known (learn_list learn ps t) = known t \<union> fst ` set ps
    \<and> (q \<noteq> 0 \<longrightarrow> lookup q (learn_list learn ps t) =
        (case map_of (rev ps) q of Some m \<Rightarrow> Some m | None \<Rightarrow> lookup q t))"
    using assms
  proof (induction ps arbitrary: t)
    case (Cons p ps)
    obtain ip mac where p: "p = (ip, mac)" by (cases p)
    have fin: "finite (known t \<union> fst ` set (p # ps))" using finite_known by simp
    have "ip \<in> known t \<or> card (known t) < cap"
    proof (cases "ip \<in> known t")
      case False
      have "insert ip (known t) \<subseteq> known t \<union> fst ` set (p # ps)" using p by auto
      then have "card (insert ip (known t)) \<le> card (known t \<union> fst ` set (p # ps))"
        by (rule card_mono [OF fin])
      with False finite_known Cons.prems(3) show ?thesis by simp
    qed simp
    moreover have "length mac = 6" using Cons.prems(2) p by simp
    ultimately obtain t1 where t1: "learn ip mac t = (0, t1)" "invar t1" "known t1 = insert ip (known t)"
      "\<And>q. q \<noteq> 0 \<Longrightarrow> lookup q t1 = (if q = ip then Some mac else lookup q t)"
      using learn_ok [OF Cons.prems(1), of mac ip] by blast
    have "known t1 \<union> fst ` set ps = known t \<union> fst ` set (p # ps)" using t1(3) p by auto
    with Cons.IH [OF t1(2)] Cons.prems(2,3)
    have ih: "invar (learn_list learn ps t1)" "known (learn_list learn ps t1) = known t \<union> fst ` set (p # ps)"
      "q \<noteq> 0 \<Longrightarrow> lookup q (learn_list learn ps t1) =
        (case map_of (rev ps) q of Some m \<Rightarrow> Some m | None \<Rightarrow> lookup q t1)"
      by simp_all
    have "learn_list learn (p # ps) t = learn_list learn ps t1"
      by (simp add: learn_list_def p t1(1))
    then show ?case
      using ih t1(4) [of q] p by (simp add: map_add_def split: option.splits)
  qed (auto simp: learn_list_def)
  then show "invar (learn_list learn ps t)" "known (learn_list learn ps t) = known t \<union> fst ` set ps"
    "q \<noteq> 0 \<Longrightarrow> lookup q (learn_list learn ps t) =
      (case map_of (rev ps) q of Some m \<Rightarrow> Some m | None \<Rightarrow> lookup q t)"
    by blast+
qed

end

interpretation arp_cache: mac_cache arp_find arp_update_entries arp_known arp_inv 31
proof
  fix t :: "arp_cache_table list" and mac :: "byte list" and ip :: u32
  show "finite (arp_known t)" by (simp add: arp_known_def)
  assume inv: "arp_inv t" and m: "length mac = 6" and room: "ip \<in> arp_known t \<or> card (arp_known t) < 31"
  from inv obtain us where sh: "arp_shape us t" by (auto simp: arp_inv_def)
  note kn = arp_known_shape
  show "\<exists>t'. arp_update_entries ip mac t = (0, t') \<and> arp_inv t' \<and> arp_known t' = insert ip (arp_known t)
      \<and> (\<forall>q. q \<noteq> 0 \<longrightarrow> arp_find q t' = (if q = ip then Some mac else arp_find q t))"
  proof (cases "ip \<in> ent_ip ` set us")
    case True
    from arp_update_shape_known [OF sh True m] kn [OF sh] kn True show ?thesis
      by (fastforce simp: arp_inv_def)
  next
    case False
    with room kn [OF sh] arp_known_card [OF sh] have "length us < 31" by simp
    from arp_update_shape_room [OF sh False m this] kn [OF sh] kn show ?thesis
      by (fastforce simp: arp_inv_def)
  qed
qed

section \<open>Initialisation\<close>

definition arp_bss :: "arp_cache_table list" where
  "arp_bss = replicate 32 \<lparr>ent_ip = 0, ent_mac = replicate 6 0, ent_state = 0\<rparr>"

lemma arp_init_bss:
  "arp_init_entries arp_bss =
     replicate 31 \<lparr>ent_ip = 0, ent_mac = replicate 6 0, ent_state = FREE_STATE\<rparr> @
     [\<lparr>ent_ip = JHTONL HOST_IP, ent_mac = default_mac, ent_state = FREE_STATE\<rparr>]"
  by (simp add: arp_init_entries_def arp_bss_def numeral_eq_Suc upt_conv_Cons del: upt_Suc)

lemma arp_shape_init: "arp_shape [] (arp_init_entries arp_bss)"
  by (auto simp: arp_init_bss arp_shape_def arp_used_def arp_blank_def arp_default_def)

lemma HOST_IP_net: "JHTONL HOST_IP \<noteq> 0"
  by (simp add: HOST_IP_def IP_def JHTONL_def)

section \<open>Properties\<close>

text \<open>
  After the initialisation every update keeps the table well formed: learnt
  entries form a prefix, are dynamic, have six byte addresses and pairwise distinct
  IP addresses. This holds for any sequence of updates.
\<close>

theorem arp_inv_reachable:
  assumes "\<forall>(ip, mac)\<in>set ps. length mac = 6"
  shows "arp_inv (learn_list arp_update_entries ps (arp_init_entries arp_bss))"
proof -
  have "arp_inv (learn_list arp_update_entries ps t)"
    if "arp_inv t" "\<forall>(ip, mac)\<in>set ps. length mac = 6" for t
    using that
  proof (induction ps arbitrary: t)
    case (Cons p ps)
    obtain ip mac where "p = (ip, mac)" by (cases p)
    with Cons arp_inv_update [of t mac ip] show ?case by (simp add: learn_list_def)
  qed (simp add: learn_list_def)
  with assms arp_shape_init show ?thesis by (auto simp: arp_inv_def)
qed

theorem arp_inv_reachable_witness:
  "arp_inv (learn_list arp_update_entries [(1, replicate 6 7), (1, replicate 6 8)] (arp_init_entries arp_bss))"
  by (rule arp_inv_reachable) simp

text \<open>
  C32: The cache is a map. After any sequence of updates that mentions at most 31
  different addresses, a lookup of an address other than 0.0.0.0 returns the hardware
  address given last for it, and the built-in one for the host if it was never
  mentioned.
\<close>

theorem arp_lookup_after_updates:
  assumes "\<forall>(ip, mac)\<in>set ps. length mac = 6" and "card (fst ` set ps) \<le> 31" and "q \<noteq> 0"
  shows "arp_find q (learn_list arp_update_entries ps (arp_init_entries arp_bss)) =
    (case map_of (rev ps) q of Some m \<Rightarrow> Some m
     | None \<Rightarrow> if q = JHTONL HOST_IP then Some default_mac else None)"
proof -
  let ?t = "arp_init_entries arp_bss"
  have inv: "arp_inv ?t" and kn: "arp_known ?t = {}"
    using arp_shape_init arp_known_shape [OF arp_shape_init] by (auto simp: arp_inv_def)
  have "arp_find q ?t = (if q = JHTONL HOST_IP then Some default_mac else None)"
    using assms(3) by (auto simp: arp_init_bss arp_find_append arp_find_None split: option.splits dest: arp_find_mem)
  with arp_cache.learn_list_lookup(3) [OF inv assms(1) _ assms(3)] assms(2) kn show ?thesis
    by (auto split: option.splits)
qed

theorem arp_lookup_after_updates_witness:
  "arp_find 5 (learn_list arp_update_entries [(5, replicate 6 1), (9, replicate 6 2), (5, replicate 6 3)]
     (arp_init_entries arp_bss)) = Some (replicate 6 3)"
  by (subst arp_lookup_after_updates) (simp_all add: card_insert_if)

text \<open>
  The entry for the host is not protected. The initialisation marks it static and
  then marks it free again, so learning a 32nd address overwrites it: from then on the
  host's address has no entry unless the host itself was learnt.
\<close>

theorem arp_default_evicted:
  assumes "arp_inv t" and "card (arp_known t) = 31" and "ip \<notin> arp_known t"
    and "JHTONL HOST_IP \<notin> insert ip (arp_known t)" and "length mac = 6"
  shows "arp_find (JHTONL HOST_IP) t = Some default_mac
    \<and> fst (arp_update_entries ip mac t) = 0
    \<and> arp_find (JHTONL HOST_IP) (snd (arp_update_entries ip mac t)) = None"
proof (intro conjI)
  from assms(1) obtain us where sh: "arp_shape us t" by (auto simp: arp_inv_def)
  then have us: "length us = 31" "ip \<notin> ent_ip ` set us" "JHTONL HOST_IP \<notin> ent_ip ` set us"
    using assms arp_known_card [OF sh] arp_known_shape [OF sh] by auto
  then have none: "arp_find (JHTONL HOST_IP) us = None" by (auto simp: arp_find_None image_iff)
  from arp_update_shape_last [OF sh us(2) assms(5) us(1)] none assms(4)
  show "fst (arp_update_entries ip mac t) = 0"
    "arp_find (JHTONL HOST_IP) (snd (arp_update_entries ip mac t)) = None" by auto
  from sh show "arp_find (JHTONL HOST_IP) t = Some default_mac"
    by (cases rule: arp_shape_cases) (use us none in \<open>auto simp: arp_find_append arp_default_def\<close>)
qed

theorem arp_default_evicted_witness:
  "\<exists>t. arp_find (JHTONL HOST_IP) t = Some default_mac
    \<and> arp_find (JHTONL HOST_IP) (snd (arp_update_entries 99 (replicate 6 9) t)) = None"
proof -
  let ?ps = "map (\<lambda>n. (of_nat n :: u32, replicate 6 (7 :: byte))) [1..<32]"
  let ?i = "arp_init_entries arp_bss"
  let ?t = "learn_list arp_update_entries ?ps ?i"
  have inv: "arp_inv ?i" and kn: "arp_known ?i = {}"
    using arp_shape_init arp_known_shape [OF arp_shape_init] by (auto simp: arp_inv_def)
  have fst: "fst ` set ?ps = of_nat ` {1..<32}" by (auto simp: image_image)
  have inj: "inj_on (of_nat :: nat \<Rightarrow> u32) {1..<32}"
    by (auto simp: inj_on_def word_of_nat_eq_iff take_bit_eq_mod)
  have card: "card (fst ` set ?ps) = 31" unfolding fst card_image [OF inj] by simp
  have six: "\<forall>(ip, mac)\<in>set ?ps. length mac = 6" by auto
  have t: "arp_inv ?t" "arp_known ?t = of_nat ` {1..<32}"
    using arp_cache.learn_list_lookup(1,2) [OF inv six] kn fst card by simp_all
  have "unat (of_nat n :: u32) < 32" if "n < 32" for n
    using that by (simp add: unat_of_nat_u32)
  then have out: "x \<notin> of_nat ` {1..<32}" if "32 \<le> unat x" for x :: u32 using that by fastforce
  have "JHTONL HOST_IP = 0x017BA8C0" by (simp add: HOST_IP_def IP_def JHTONL_def)
  with t card fst out [of 99] out [of "JHTONL HOST_IP"] show ?thesis
    using arp_default_evicted [of ?t 99 "replicate 6 9"] by (intro exI [of _ ?t]) simp
qed

end
