(* ===== verification/Ethernet.thy ===== *)
theory Ethernet
  imports ArpTable
begin

text \<open>
  The sending half of the Ethernet layer (\<^verbatim>\<open>kern/ethernet.h\<close>, \<^verbatim>\<open>kern/ethernet.c\<close>): the
  frame header, its layout in memory and \<open>eth_send\<close>. The receiving half calls the layers
  above and is in the theory \<open>NetRecv\<close>.
\<close>

abbreviation (input) ETH_MAX_PACKET_SIZE :: nat where "ETH_MAX_PACKET_SIZE \<equiv> 1500"
abbreviation (input) ETH_HEADER_LEN :: nat where "ETH_HEADER_LEN \<equiv> 14"
abbreviation (input) ETH_TYPE_IP :: u16 where "ETH_TYPE_IP \<equiv> 0x0800"
abbreviation (input) ETH_TYPE_ARP :: u16 where "ETH_TYPE_ARP \<equiv> 0x0806"

record eth_hdr =
  eth_destination_mac :: "byte list"
  eth_source_mac :: "byte list"
  eth_type :: u16

definition eth_hdr_bytes :: "eth_hdr \<Rightarrow> byte list" where
  "eth_hdr_bytes h = eth_destination_mac h @ eth_source_mac h @ put16 (eth_type h)"

definition eth_hdr_of :: "byte list \<Rightarrow> eth_hdr" where
  "eth_hdr_of bs = \<lparr>eth_destination_mac = take 6 bs, eth_source_mac = take 6 (drop 6 bs),
     eth_type = get16 bs 12\<rparr>"

definition get_my_mac :: "byte list" where
  "get_my_mac = [0x52, 0x54, 0x0, 0x12, 0x34, 0x56]"

definition eth_send :: "eth_hdr \<Rightarrow> byte list \<Rightarrow> nat \<Rightarrow> 'a arp_state_scheme \<Rightarrow> (int \<times> 'a arp_state_scheme) res" where
  "eth_send hdr data len s =
     bind_res (assert_res (len \<le> ETH_MAX_PACKET_SIZE - ETH_HEADER_LEN)) (\<lambda>_.
     let hdr1 = hdr\<lparr>eth_source_mac := get_my_mac\<rparr> in
     bind_res
       (if eth_type hdr1 = JHTONS ETH_TYPE_IP
        then bind_res (mem_read data 16 4) (\<lambda>a.
             case get_mac_by_ip (get32 a 0) s of
               None \<Rightarrow> Inl NullDeref
             | Some mac \<Rightarrow> Inr (hdr1\<lparr>eth_destination_mac := mac\<rparr>))
        else Inr hdr1) (\<lambda>hdr2.
     let hdr3 = hdr2\<lparr>eth_type := htons (eth_type hdr2)\<rparr> in
     bind_res (mem_read data 0 len) (\<lambda>payload.
     e1000_transmit (eth_hdr_bytes hdr3 @ payload) (of_nat (len + ETH_HEADER_LEN)) s)))"

section \<open>Layout\<close>

lemma length_eth_hdr_bytes [simp]:
  "length (eth_destination_mac h) = 6 \<Longrightarrow> length (eth_source_mac h) = 6 \<Longrightarrow> length (eth_hdr_bytes h) = 14"
  by (simp add: eth_hdr_bytes_def)

lemma eth_hdr_roundtrip:
  "length (eth_destination_mac h) = 6 \<Longrightarrow> length (eth_source_mac h) = 6 \<Longrightarrow>
   eth_hdr_of (eth_hdr_bytes h @ rest) = h"
  by (simp add: eth_hdr_of_def eth_hdr_bytes_def get16_append)

lemma length_get_my_mac [simp]: "length get_my_mac = 6"
  by (simp add: get_my_mac_def)

section \<open>Sending\<close>

lemma get_mac_tx_put [simp]: "get_mac_by_ip ip (tx_put f s) = get_mac_by_ip ip s"
  by (simp add: get_mac_by_ip_def tx_put_def E1000_REG_set_def Let_def)

lemma get_mac_cprintf [simp]: "get_mac_by_ip ip (cprintf m s) = get_mac_by_ip ip s"
  by (simp add: get_mac_by_ip_def cprintf_def)

lemma arp_table_frame [simp]:
  "arp_table (tx_put f s) = arp_table s" "arp_table (cprintf m s) = arp_table s"
  "arp_table (rx_take s) = arp_table s"
  by (simp_all add: tx_put_def cprintf_def rx_take_def E1000_REG_set_def Let_def)

text \<open>What a frame looks like on the wire.\<close>

definition eth_frame :: "byte list \<Rightarrow> u16 \<Rightarrow> byte list \<Rightarrow> byte list" where
  "eth_frame dst type payload = dst @ get_my_mac @ put16 (JHTONS type) @ payload"

lemma length_eth_frame [simp]: "length dst = 6 \<Longrightarrow> length (eth_frame dst t p) = 14 + length p"
  by (simp add: eth_frame_def)

lemma eth_transmit:
  assumes wf: "e1000_wf s" and dst: "length (eth_destination_mac h) = 6" "eth_source_mac h = get_my_mac"
    and len: "len \<le> 1486" "len \<le> length data"
  shows "e1000_transmit (eth_hdr_bytes h @ take len data) (of_nat (len + 14)) s =
    (if tx_free s then Inr (0, tx_put (eth_hdr_bytes h @ take len data) s)
     else Inr (-1, cprintf (bytes_of ''\<newline>E1000 transmit queue is full\<newline>'') s))"
proof -
  have u: "unat (of_nat (len + 14) :: u16) = len + 14"
    using len by (intro unat_of_nat_u16) simp
  then show ?thesis
    using e1000_transmit_ok [OF wf, of "of_nat (len + 14)" "eth_hdr_bytes h @ take len data"]
      e1000_transmit_full [OF wf, of "eth_hdr_bytes h @ take len data" "of_nat (len + 14)"] dst len
    by (simp add: min_def)
qed

lemma eth_send_other:
  assumes "e1000_wf s" and "eth_type h = JHTONS t" and "t \<noteq> ETH_TYPE_IP"
    and "length (eth_destination_mac h) = 6" and "len \<le> 1486" "len \<le> length data"
  shows "eth_send h data len s =
    (if tx_free s then Inr (0, tx_put (eth_frame (eth_destination_mac h) t (take len data)) s)
     else Inr (-1, cprintf (bytes_of ''\<newline>E1000 transmit queue is full\<newline>'') s))"
  using eth_transmit [OF assms(1), of "h\<lparr>eth_source_mac := get_my_mac\<rparr>" len data] assms
  by (simp add: eth_send_def htons_def Let_def eth_frame_def eth_hdr_bytes_def)

lemma eth_send_ip:
  assumes "e1000_wf s" and "eth_type h = JHTONS ETH_TYPE_IP"
    and "get_mac_by_ip (get32 data 16) s = Some mac" "length mac = 6"
    and "20 \<le> len" "len \<le> 1486" "len \<le> length data"
  shows "eth_send h data len s =
    (if tx_free s then Inr (0, tx_put (eth_frame mac ETH_TYPE_IP (take len data)) s)
     else Inr (-1, cprintf (bytes_of ''\<newline>E1000 transmit queue is full\<newline>'') s))"
proof -
  have "get32 (take 4 (drop 16 data)) 0 = get32 data 16"
    using assms(5,7) by (simp add: get32_def)
  then show ?thesis
    using eth_transmit [OF assms(1), of "h\<lparr>eth_source_mac := get_my_mac, eth_destination_mac := mac\<rparr>" len data] assms
    by (simp add: eth_send_def htons_def Let_def eth_frame_def eth_hdr_bytes_def)
qed

lemma eth_send_unresolved:
  assumes "eth_type h = JHTONS ETH_TYPE_IP" and "get_mac_by_ip (get32 data 16) s = None"
    and "20 \<le> length data" and "len \<le> 1486"
  shows "eth_send h data len s = Inl NullDeref"
proof -
  have "get32 (take 4 (drop 16 data)) 0 = get32 data 16"
    using assms(3) by (simp add: get32_def)
  then show ?thesis using assms by (simp add: eth_send_def Let_def)
qed

end
