(* ===== verification/Arp.thy ===== *)
theory Arp
  imports Ethernet
begin

text \<open>
  Answering ARP requests (the second half of \<^verbatim>\<open>kern/arp.c\<close>): the packet layout,
  \<open>arp_reply\<close> and \<open>arp_resolve\<close>. The code rewrites the received packet in place and sends
  it back; the buffer belongs to the receive loop, which overwrites it with the next
  frame, so the definitions return only the code and the state.
\<close>

abbreviation (input) ARP_ETHERNET :: u16 where "ARP_ETHERNET \<equiv> 0x0001"
abbreviation (input) ARP_IPV4 :: u16 where "ARP_IPV4 \<equiv> 0x0800"
abbreviation (input) ARP_REQUEST :: u16 where "ARP_REQUEST \<equiv> 0x0001"
abbreviation (input) ARP_REPLY :: u16 where "ARP_REPLY \<equiv> 0x0002"

record arp_hdr =
  hardware_type :: u16
  protocol_type :: u16
  hardware_address_length :: byte
  protocol_address_length :: byte
  arp_opcode :: u16
  arp_source_mac :: "byte list"
  arp_source_ip :: u32
  arp_target_mac :: "byte list"
  arp_target_ip :: u32

definition arp_hdr_bytes :: "arp_hdr \<Rightarrow> byte list" where
  "arp_hdr_bytes a = put16 (hardware_type a) @ put16 (protocol_type a) @
     [hardware_address_length a, protocol_address_length a] @ put16 (arp_opcode a) @
     arp_source_mac a @ put32 (arp_source_ip a) @ arp_target_mac a @ put32 (arp_target_ip a)"

definition arp_hdr_of :: "byte list \<Rightarrow> arp_hdr" where
  "arp_hdr_of bs = \<lparr>hardware_type = get16 bs 0, protocol_type = get16 bs 2,
     hardware_address_length = bs ! 4, protocol_address_length = bs ! 5, arp_opcode = get16 bs 6,
     arp_source_mac = take 6 (drop 8 bs), arp_source_ip = get32 bs 14,
     arp_target_mac = take 6 (drop 18 bs), arp_target_ip = get32 bs 24\<rparr>"

definition arp_reply_hdr :: "arp_hdr \<Rightarrow> arp_hdr" where
  "arp_reply_hdr a =
     (let a1 = a\<lparr>arp_opcode := ARP_REPLY\<rparr>;
          a2 = a1\<lparr>arp_target_mac := arp_source_mac a1\<rparr>;
          a3 = a2\<lparr>arp_target_ip := arp_source_ip a2\<rparr>;
          a4 = a3\<lparr>arp_source_mac := get_my_mac\<rparr>;
          a5 = a4\<lparr>arp_source_ip := JHTONL MY_IP\<rparr>;
          a6 = a5\<lparr>arp_opcode := JHTONS (arp_opcode a5)\<rparr>;
          a7 = a6\<lparr>hardware_type := JHTONS (hardware_type a6)\<rparr>
      in a7\<lparr>protocol_type := JHTONS (protocol_type a7)\<rparr>)"

definition arp_reply :: "arp_hdr \<Rightarrow> 'a arp_state_scheme \<Rightarrow> (int \<times> 'a arp_state_scheme) res" where
  "arp_reply a s =
     (let a' = arp_reply_hdr a in
      case get_mac_by_ip (arp_target_ip a') s of
        None \<Rightarrow> Inl NullDeref
      | Some mac \<Rightarrow>
          bind_res (eth_send \<lparr>eth_destination_mac = mac, eth_source_mac = [], eth_type = JHTONS ETH_TYPE_ARP\<rparr>
                      (arp_hdr_bytes a') 28 s) (\<lambda>(status, s').
          if status < 0 then Inr (-1, cprintf (bytes_of ''Error attempting arp response.'') s')
          else Inr (0, s')))"

definition arp_resolve :: "byte list \<Rightarrow> 'a arp_state_scheme \<Rightarrow> (int \<times> 'a arp_state_scheme) res" where
  "arp_resolve data s =
     bind_res (mem_read data 0 28) (\<lambda>bs.
     let a0 = arp_hdr_of bs;
         a = a0\<lparr>hardware_type := JNTOHS (hardware_type a0), protocol_type := JNTOHS (protocol_type a0),
                arp_opcode := JNTOHS (arp_opcode a0), arp_target_ip := JNTOHL (arp_target_ip a0)\<rparr>
     in if hardware_type a \<noteq> ARP_ETHERNET
        then Inr (-1, cprintf (bytes_of ''Error! Only ethernet is supporting.'') s)
        else if protocol_type a \<noteq> ARP_IPV4
        then Inr (-1, cprintf (bytes_of ''Error! Only IPv4 is supported.'') s)
        else let (status, s1) = update_arp_table (arp_source_ip a) (arp_source_mac a) s;
                 s2 = (if status < 0 then cprintf (bytes_of ''ARP table is filled in'') s1 else s1)
             in if arp_target_ip a \<noteq> MY_IP
                then Inr (-1, cprintf (bytes_of ''This is not for me!'') s2)
                else if arp_opcode a \<noteq> ARP_REQUEST
                then Inr (-1, cprintf (bytes_of ''Error! Only arp requests are supported'') s2)
                else arp_reply a s2)"

section \<open>Layout\<close>

definition arp_macs_ok :: "arp_hdr \<Rightarrow> bool" where
  "arp_macs_ok a \<longleftrightarrow> length (arp_source_mac a) = 6 \<and> length (arp_target_mac a) = 6"

lemma length_arp_hdr_bytes [simp]: "arp_macs_ok a \<Longrightarrow> length (arp_hdr_bytes a) = 28"
  by (simp add: arp_hdr_bytes_def arp_macs_ok_def)

lemma arp_hdr_roundtrip: "arp_macs_ok a \<Longrightarrow> arp_hdr_of (arp_hdr_bytes a @ rest) = a"
  by (simp add: arp_hdr_of_def arp_hdr_bytes_def arp_macs_ok_def get16_def get32_def nth_append
      put16_def put32_def)

section \<open>Replies\<close>

lemma arp_macs_reply [simp]: "arp_macs_ok a \<Longrightarrow> arp_macs_ok (arp_reply_hdr a)"
  by (simp add: arp_macs_ok_def arp_reply_hdr_def Let_def)

lemma arp_reply_sent:
  assumes "e1000_wf s" and "arp_macs_ok a" and "get_mac_by_ip (arp_source_ip a) s = Some mac"
    and "length mac = 6" and "tx_free s"
  shows "arp_reply a s = Inr (0, tx_put (eth_frame mac ETH_TYPE_ARP (arp_hdr_bytes (arp_reply_hdr a))) s)"
proof -
  have "arp_target_ip (arp_reply_hdr a) = arp_source_ip a"
    by (simp add: arp_reply_hdr_def Let_def)
  with assms show ?thesis
    by (simp add: arp_reply_def Let_def eth_send_other [where t = ETH_TYPE_ARP])
qed

text \<open>A request for this machine as it arrives, in network byte order.\<close>

definition arp_request :: "byte list \<Rightarrow> u32 \<Rightarrow> byte list \<Rightarrow> byte \<Rightarrow> byte \<Rightarrow> arp_hdr" where
  "arp_request mac ip tmac hl pl =
     \<lparr>hardware_type = JHTONS ARP_ETHERNET, protocol_type = JHTONS ARP_IPV4,
      hardware_address_length = hl, protocol_address_length = pl, arp_opcode = JHTONS ARP_REQUEST,
      arp_source_mac = mac, arp_source_ip = ip, arp_target_mac = tmac, arp_target_ip = JHTONL MY_IP\<rparr>"

text \<open>The answer to it.\<close>

definition arp_answer :: "byte list \<Rightarrow> u32 \<Rightarrow> byte \<Rightarrow> byte \<Rightarrow> arp_hdr" where
  "arp_answer mac ip hl pl =
     \<lparr>hardware_type = JHTONS ARP_ETHERNET, protocol_type = JHTONS ARP_IPV4,
      hardware_address_length = hl, protocol_address_length = pl, arp_opcode = JHTONS ARP_REPLY,
      arp_source_mac = get_my_mac, arp_source_ip = JHTONL MY_IP, arp_target_mac = mac, arp_target_ip = ip\<rparr>"

lemma update_arp_table_frame:
  "e1000_wf (snd (update_arp_table ip mac s)) = e1000_wf s"
  "tx_free (snd (update_arp_table ip mac s)) = tx_free s"
  by (simp_all add: update_arp_table_def e1000_wf_def tx_done_def E1000_REG_def split: prod.splits)

lemma arp_resolve_answers:
  assumes wf: "e1000_wf s" and free: "tx_free s" and inv: "arp_inv (arp_table s)"
    and room: "ip \<in> arp_known (arp_table s) \<or> card (arp_known (arp_table s)) < 31"
    and ip: "ip \<noteq> 0" and macs: "length mac = 6" "length tmac = 6"
  shows "arp_resolve (arp_hdr_bytes (arp_request mac ip tmac hl pl) @ rest) s =
    Inr (0, tx_put (eth_frame mac ETH_TYPE_ARP (arp_hdr_bytes (arp_answer mac ip hl pl)))
              (s\<lparr>arp_table := snd (arp_update_entries ip mac (arp_table s))\<rparr>))"
proof -
  let ?req = "arp_request mac ip tmac hl pl"
  let ?a = "?req\<lparr>hardware_type := ARP_ETHERNET, protocol_type := ARP_IPV4, arp_opcode := ARP_REQUEST,
              arp_target_ip := MY_IP\<rparr>"
  have ok: "arp_macs_ok ?req" "arp_macs_ok ?a" using macs by (simp_all add: arp_macs_ok_def arp_request_def)
  obtain t where t: "arp_update_entries ip mac (arp_table s) = (0, t)" "arp_find ip t = Some mac"
    using arp_cache.learn_ok [OF inv macs(1) room] ip by auto
  let ?s = "s\<lparr>arp_table := t\<rparr>"
  have s: "e1000_wf ?s" "tx_free ?s" "get_mac_by_ip (arp_source_ip ?a) ?s = Some mac"
    using wf free t by (simp_all add: e1000_wf_def tx_done_def E1000_REG_def get_mac_by_ip_def arp_request_def)
  have rep: "arp_reply_hdr ?a = arp_answer mac ip hl pl"
    by (simp add: arp_reply_hdr_def arp_request_def arp_answer_def Let_def)
  have rd: "mem_read (arp_hdr_bytes ?req @ rest) 0 28 = Inr (arp_hdr_bytes ?req)"
    using ok(1) by simp
  have dec: "arp_hdr_of (arp_hdr_bytes ?req) = ?req"
    using arp_hdr_roundtrip [OF ok(1), of "[]"] by simp
  have conv: "?req\<lparr>hardware_type := JNTOHS (hardware_type ?req), protocol_type := JNTOHS (protocol_type ?req),
      arp_opcode := JNTOHS (arp_opcode ?req), arp_target_ip := JNTOHL (arp_target_ip ?req)\<rparr> = ?a"
    by (simp add: arp_request_def)
  have fields: "arp_source_ip ?a = ip" "arp_source_mac ?a = mac"
    by (simp_all add: arp_request_def)
  show ?thesis
    unfolding arp_resolve_def rd bind_res_simps Let_def dec conv fields update_arp_table_def t(1)
    using arp_reply_sent [OF s(1) ok(2) s(3) macs(1) s(2)] unfolding rep by simp
qed

lemma arp_resolve_ring:
  assumes "tx_ring s q" and "length q < 64" and "arp_inv (arp_table s)"
    and "ip \<in> arp_known (arp_table s) \<or> card (arp_known (arp_table s)) < 31"
    and "ip \<noteq> 0" and "length mac = 6" and "length tmac = 6"
  shows "\<exists>s'. arp_resolve (arp_hdr_bytes (arp_request mac ip tmac hl pl) @ rest) s = Inr (0, s')
    \<and> tx_ring s' (q @ [eth_frame mac ETH_TYPE_ARP (arp_hdr_bytes (arp_answer mac ip hl pl))])
    \<and> get_mac_by_ip ip s' = Some mac \<and> arp_inv (arp_table s')"
proof -
  let ?t = "snd (arp_update_entries ip mac (arp_table s))"
  let ?f = "eth_frame mac ETH_TYPE_ARP (arp_hdr_bytes (arp_answer mac ip hl pl))"
  have wf: "e1000_wf s" "tx_free s" using tx_ringD(1) [OF assms(1)] tx_free_iff [OF assms(1)] assms(2) by simp_all
  have "tx_ring (s\<lparr>arp_table := ?t\<rparr>) q"
    using assms(1) by (simp add: tx_ring_def e1000_wf_def tx_done_def tx_frame_def E1000_REG_def)
  moreover have "length ?f \<le> 1518"
    using assms(6) by (simp add: arp_answer_def arp_macs_ok_def)
  ultimately have "tx_ring (tx_put ?f (s\<lparr>arp_table := ?t\<rparr>)) (q @ [?f])"
    using tx_ring_put assms(2) by blast
  moreover have "arp_find ip ?t = Some mac"
    using arp_cache.learn_ok [OF assms(3,6,4)] assms(5) by auto
  moreover note arp_inv_update [OF assms(3,6), of ip]
  ultimately show ?thesis
    using arp_resolve_answers [OF wf(1,2) assms(3-7)] by (auto simp: get_mac_by_ip_def)
qed

section \<open>Properties\<close>

definition arp_boot :: arp_state where
  "arp_boot = e1000_boot_with (arp_state.fields (arp_init_entries arp_bss))"

lemma arp_boot_facts:
  "e1000_wf arp_boot" "tx_free arp_boot" "arp_table arp_boot = arp_init_entries arp_bss"
  "arp_inv (arp_table arp_boot)" "arp_known (arp_table arp_boot) = {}"
proof -
  let ?m = "arp_state.fields (arp_init_entries arp_bss)"
  have r: "tx_ring arp_boot []" unfolding arp_boot_def by (rule e1000_boot_rings)
  show "e1000_wf arp_boot" "tx_free arp_boot" using tx_ringD(1) [OF r] tx_free_iff [OF r] by simp_all
  show t: "arp_table arp_boot = arp_init_entries arp_bss"
    using e1000_more_boot [of ?m] 
    by (cases arp_boot) (simp add: arp_boot_def arp_state.defs)
  show "arp_inv (arp_table arp_boot)" "arp_known (arp_table arp_boot) = {}"
    unfolding t using arp_shape_init arp_known_shape [OF arp_shape_init] by (auto simp: arp_inv_def)
qed

text \<open>
  A request for this machine's address is answered. While the transmit ring and the
  cache have room, \<^verbatim>\<open>arp_resolve\<close> returns 0, learns the sender and queues exactly one
  frame: addressed to the sender, with the request's addresses swapped and this
  machine's hardware address filled in.
\<close>

theorem arp_request_answered:
  assumes "tx_ring s q" and "length q < 64" and "arp_inv (arp_table s)"
    and "ip \<in> arp_known (arp_table s) \<or> card (arp_known (arp_table s)) < 31"
    and "ip \<noteq> 0" and "length mac = 6" and "length tmac = 6"
  shows "\<exists>s'. arp_resolve (arp_hdr_bytes (arp_request mac ip tmac hl pl) @ rest) s = Inr (0, s')
    \<and> tx_ring s' (q @ [eth_frame mac ETH_TYPE_ARP (arp_hdr_bytes (arp_answer mac ip hl pl))])
    \<and> get_mac_by_ip ip s' = Some mac \<and> arp_inv (arp_table s')"
  using assms by (rule arp_resolve_ring)

theorem arp_request_answered_witness:
  "\<exists>s'. arp_resolve (arp_hdr_bytes (arp_request default_mac 77 (replicate 6 0) 6 4)) arp_boot = Inr (0, s')
    \<and> tx_ring s' [eth_frame default_mac ETH_TYPE_ARP (arp_hdr_bytes (arp_answer default_mac 77 6 4))]
    \<and> get_mac_by_ip 77 s' = Some default_mac \<and> arp_inv (arp_table s')"
proof -
  have "tx_ring arp_boot []" unfolding arp_boot_def by (rule e1000_boot_rings)
  from arp_request_answered [OF this, of 77 default_mac "replicate 6 0" 6 4 "[]"] arp_boot_facts
  show ?thesis by (simp add: default_mac_def)
qed

text \<open>
  With a full cache the kernel crashes on a request from a new neighbour: the
  table has no entry for the sender, the lookup before the reply returns
  \<^verbatim>\<open>NULL\<close>, and the copy of the hardware address dereferences it.
\<close>

theorem arp_full_null_deref:
  assumes "arp_inv (arp_table s)" and "card (arp_known (arp_table s)) = 32"
    and "ip \<notin> arp_known (arp_table s)" and "length mac = 6" and "length tmac = 6"
  shows "arp_resolve (arp_hdr_bytes (arp_request mac ip tmac hl pl) @ rest) s = Inl NullDeref"
proof -
  let ?req = "arp_request mac ip tmac hl pl"
  from assms(1) obtain us where sh: "arp_shape us (arp_table s)" by (auto simp: arp_inv_def)
  then have us: "arp_table s = us" "arp_used us" "ip \<notin> ent_ip ` set us"
    using assms(2,3) arp_known_card [OF sh] arp_known_shape [OF sh] by (auto simp: arp_shape_def)
  then have none: "arp_find ip us = None" by (auto simp: arp_find_None image_iff)
  have ok: "arp_macs_ok ?req" using assms by (simp add: arp_macs_ok_def arp_request_def)
  have "arp_hdr_of (arp_hdr_bytes ?req) = ?req"
    using arp_hdr_roundtrip [OF ok, of "[]"] by simp
  then show ?thesis
    using ok us none arp_update_full [OF us(2,3), of mac]
    by (simp add: arp_resolve_def Let_def update_arp_table_def)
      (simp add: arp_request_def arp_reply_def arp_reply_hdr_def get_mac_by_ip_def Let_def)
qed

theorem arp_full_null_deref_witness:
  "\<exists>s :: arp_state. arp_resolve (arp_hdr_bytes (arp_request (replicate 6 9) 99 (replicate 6 0) 6 4)) s = Inl NullDeref"
proof -
  define us where "us = map (\<lambda>n. \<lparr>ent_ip = of_nat n :: u32, ent_mac = replicate 6 7, ent_state = 2\<rparr>) [1..<33]"
  have inj: "inj_on (of_nat :: nat \<Rightarrow> u32) {1..<33}"
    by (auto simp: inj_on_def word_of_nat_eq_iff take_bit_eq_mod)
  then have "arp_used us" by (auto simp: arp_used_def us_def distinct_map comp_def inj_on_def)
  then have sh: "arp_shape us us" by (simp add: arp_shape_def us_def)
  have "of_nat n \<noteq> (99 :: u32)" if "n < 33" for n :: nat
  proof
    assume "of_nat n = (99 :: u32)"
    then have "unat (of_nat n :: u32) = 99" by simp
    with that show False by (simp add: unat_of_nat_u32)
  qed
  then have "99 \<notin> arp_known us" unfolding arp_known_shape [OF sh] by (auto simp: us_def)
  with sh show ?thesis
    using arp_full_null_deref [of "arp_boot\<lparr>arp_table := us\<rparr>" 99 "replicate 6 9" "replicate 6 0" 6 4 "[]"]
      arp_known_card [OF sh]
    by (intro exI [of _ "arp_boot\<lparr>arp_table := us\<rparr>"]) (auto simp: arp_inv_def us_def)
qed

end
