(* ===== verification/PrintFmt.thy ===== *)
theory PrintFmt
  imports Prelude
begin

text \<open>
  Formatted output (\<^verbatim>\<open>lib/printfmt.c\<close>): \<open>print_num\<close>, the interpreter of format strings
  \<open>vprintfmt\<close> and \<open>vsnprintf\<close>. The character sink \<^verbatim>\<open>putch\<close> is called in order and
  cannot influence the interpreter, so the model returns the bytes passed to it.
\<close>

section \<open>Numbers\<close>

definition digit_char :: "bool \<Rightarrow> nat \<Rightarrow> byte" where
  "digit_char capital d = bytes_of (if capital then ''0123456789ABCDEF'' else ''0123456789abcdef'') ! d"

function print_num :: "nat \<Rightarrow> nat \<Rightarrow> int \<Rightarrow> byte \<Rightarrow> bool \<Rightarrow> byte list" where
  "print_num num base width padc capital =
     (if 2 \<le> base \<and> base \<le> num
      then print_num (num div base) base (width - 1) padc capital
      else replicate (nat (width - 1)) padc) @ [digit_char capital (num mod base)]"
  by pat_completeness auto
termination
  by (relation "measure (\<lambda>(num, base, width, padc, capital). num)") auto

declare print_num.simps [simp del]

text \<open>\<^verbatim>\<open>%d\<close> without flags.\<close>

definition dec :: "int \<Rightarrow> byte list" where
  "dec n = (if n < 0 then [45] else []) @ print_num (nat (abs n)) 10 (-1) 32 False"

text \<open>Reading digits back.\<close>

definition digit_val :: "byte \<Rightarrow> nat" where
  "digit_val c = (let n = unat c in if n < 58 then n - 48 else if n < 91 then n - 55 else n - 87)"

definition num_val :: "nat \<Rightarrow> byte list \<Rightarrow> nat" where
  "num_val base ds = foldl (\<lambda>a c. a * base + digit_val c) 0 ds"

lemma digit_val_char [simp]: "d < 16 \<Longrightarrow> digit_val (digit_char capital d) = d"
proof -
  have "\<forall>d\<in>set [0..<16]. digit_val (digit_char c d) = d" for c
    by (cases c) (simp_all add: upt_rec digit_val_def digit_char_def bytes_of_def byte_of_char_def Let_def)
  then show "d < 16 \<Longrightarrow> ?thesis" by simp
qed

lemma num_val_snoc [simp]: "num_val base (ds @ [c]) = num_val base ds * base + digit_val c"
  by (simp add: num_val_def)

lemma num_val_pad: "num_val base (replicate k 48 @ ds) = num_val base ds"
proof -
  have "foldl (\<lambda>a c. a * base + digit_val c) 0 (replicate k 48) = 0"
    by (induction k) (simp_all add: digit_val_def Let_def)
  then show ?thesis by (simp add: num_val_def)
qed

lemma print_num_roundtrip:
  "2 \<le> base \<Longrightarrow> base \<le> 16 \<Longrightarrow> padc = 48 \<or> w < 2 \<Longrightarrow> num_val base (print_num n base w padc cap) = n"
proof (induction n base w padc cap rule: print_num.induct)
  case (1 n base w padc cap)
  then have d: "digit_val (digit_char cap (n mod base)) = n mod base"
    using mod_less_divisor [of base n] by (intro digit_val_char) linarith
  show ?case
  proof (cases "base \<le> n")
    case True
    with 1 d show ?thesis by (subst print_num.simps) auto
  next
    case False
    then have "num_val base (replicate (nat (w - 1)) padc) = 0"
      using "1.prems"(3) num_val_pad [of base "nat (w - 1)" "[]"] by (auto simp: num_val_def)
    with False d "1.prems" show ?thesis by (subst print_num.simps) simp
  qed
qed

lemma print_num_nonempty: "print_num n base w padc cap \<noteq> []"
  by (subst print_num.simps) simp

text \<open>The number of digits, and the field width.\<close>

function ndigits :: "nat \<Rightarrow> nat \<Rightarrow> nat" where
  "ndigits base n = (if 2 \<le> base \<and> base \<le> n then Suc (ndigits base (n div base)) else 1)"
  by pat_completeness auto
termination
  by (relation "measure snd") auto

declare ndigits.simps [simp del]

lemma length_print_num:
  "int (length (print_num n base w padc cap)) = max w (int (ndigits base n))"
proof (induction n base w padc cap rule: print_num.induct)
  case (1 n base w padc cap)
  then show ?case
    by (subst print_num.simps, subst ndigits.simps) auto
qed

text \<open>Without a field width there is no padding.\<close>

lemma print_num_narrow:
  "w \<le> 1 \<Longrightarrow> v \<le> 1 \<Longrightarrow> print_num n base w padc cap = print_num n base v padc' cap"
proof (induction n base w padc cap arbitrary: v padc' rule: print_num.induct)
  case (1 n base w padc cap)
  show ?case
  proof (cases "2 \<le> base \<and> base \<le> n")
    case True
    with "1.IH" [OF True, of "v - 1" padc'] "1.prems" show ?thesis
      by (subst (1 2) print_num.simps) simp
  next
    case False
    with "1.prems" show ?thesis by (subst (1 2) print_num.simps) auto
  qed
qed

end
