(* ===== verification/Ip.thy ===== *)
theory Ip
  imports Arp PrintFmt
begin

text \<open>
  The IP layer without its receive dispatch (\<^verbatim>\<open>kern/ip.h\<close>, \<^verbatim>\<open>kern/ip.c\<close>): the header
  and its layout, \<open>ip_checksum\<close>, \<open>num2ip\<close> and \<open>ip_send\<close>. \<open>ip_recv\<close> calls the protocols above and is
  in the theory \<open>NetRecv\<close>.

  The checksum loop is related to the one's complement sum of the 16 bit words in
  network byte order (\<open>net_sum\<close>, \<open>oc\<close>).
\<close>

abbreviation (input) IP_HEADER_LEN :: nat where "IP_HEADER_LEN \<equiv> 20"
abbreviation (input) IP_DATA_LEN :: nat where "IP_DATA_LEN \<equiv> 1466"
abbreviation (input) IP_VER_LEN :: byte where "IP_VER_LEN \<equiv> 0x45"
abbreviation (input) IP_TTL :: byte where "IP_TTL \<equiv> 64"
abbreviation (input) IP_PROTO_ICMP :: byte where "IP_PROTO_ICMP \<equiv> 1"
abbreviation (input) IP_PROTO_UDP :: byte where "IP_PROTO_UDP \<equiv> 17"
abbreviation (input) IP_PROTO_TCP :: byte where "IP_PROTO_TCP \<equiv> 6"

record ip_hdr =
  ip_verlen :: byte
  ip_tos :: byte
  ip_total_length :: u16
  ip_id :: u16
  ip_flags_offset :: u16
  ip_ttl :: byte
  ip_protocol :: byte
  ip_header_checksum :: u16
  ip_source_address :: u32
  ip_destination_address :: u32

record ip_state = arp_state +
  packet_id :: u16

definition ip_hdr_bytes :: "ip_hdr \<Rightarrow> byte list" where
  "ip_hdr_bytes h = [ip_verlen h, ip_tos h] @ put16 (ip_total_length h) @ put16 (ip_id h) @
     put16 (ip_flags_offset h) @ [ip_ttl h, ip_protocol h] @ put16 (ip_header_checksum h) @
     put32 (ip_source_address h) @ put32 (ip_destination_address h)"

definition ip_hdr_of :: "byte list \<Rightarrow> ip_hdr" where
  "ip_hdr_of bs = \<lparr>ip_verlen = bs ! 0, ip_tos = bs ! 1, ip_total_length = get16 bs 2,
     ip_id = get16 bs 4, ip_flags_offset = get16 bs 6, ip_ttl = bs ! 8, ip_protocol = bs ! 9,
     ip_header_checksum = get16 bs 10, ip_source_address = get32 bs 12,
     ip_destination_address = get32 bs 16\<rparr>"

text \<open>
  \<open>num2ip\<close> prints a dotted quad. The argument is a signed 32 bit integer, but the mask
  drops what an arithmetic shift would bring in.
\<close>

definition num2ip_text :: "u32 \<Rightarrow> byte list" where
  "num2ip_text num = bytes_of '' '' @ dec (uint (drop_bit 24 num AND 0xFF)) @ bytes_of ''.'' @
     dec (uint (drop_bit 16 num AND 0xFF)) @ bytes_of ''.'' @ dec (uint (drop_bit 8 num AND 0xFF)) @
     bytes_of ''.'' @ dec (uint (num AND 0xFF)) @ bytes_of '' ''"

definition num2ip :: "u32 \<Rightarrow> 'a kcons_scheme \<Rightarrow> 'a kcons_scheme" where
  "num2ip num s = cprintf (num2ip_text num) s"

section \<open>Checksum\<close>

definition ck_add :: "u32 \<Rightarrow> u16 \<Rightarrow> u32" where
  "ck_add acc word =
     (let acc' = acc + ucast word in if acc' > 0xffff then acc' - 0xffff else acc')"

function ck_loop :: "byte list \<Rightarrow> nat \<Rightarrow> nat \<Rightarrow> u32 \<Rightarrow> u32" where
  "ck_loop data len i acc =
     (if i + 1 < len then ck_loop data len (i + 2) (ck_add acc (JNTOHS (get16 data i))) else acc)"
  by pat_completeness auto
termination
  by (relation "measure (\<lambda>(data, len, i, acc). len - i)") auto

definition ip_checksum :: "byte list \<Rightarrow> nat \<Rightarrow> u16" where
  "ip_checksum data len =
     (let acc = ck_loop data len 0 0xffff;
          acc' = (if odd len then ck_add acc (JNTOHS (pair16 (data ! (len - 1)) 0)) else acc)
      in JHTONS (ucast (NOT acc')))"

section \<open>Sending\<close>

definition ip_fill_hdr :: "ip_hdr \<Rightarrow> u16 \<Rightarrow> u16 \<Rightarrow> ip_hdr" where
  "ip_fill_hdr hdr len pid =
     (let h = hdr\<lparr>ip_verlen := IP_VER_LEN, ip_tos := 0, ip_total_length := JHTONS (len + of_nat IP_HEADER_LEN),
                  ip_id := JHTONS pid, ip_flags_offset := 0, ip_ttl := IP_TTL, ip_header_checksum := 0\<rparr>
      in h\<lparr>ip_header_checksum := ip_checksum (ip_hdr_bytes h) IP_HEADER_LEN\<rparr>)"

text \<open>
  The header of a packet a protocol builds on its stack: only the protocol and the
  addresses are set before \<open>ip_send\<close> fills in the rest.
\<close>

definition ip_result_hdr :: "(nat \<Rightarrow> byte) \<Rightarrow> byte \<Rightarrow> u32 \<Rightarrow> ip_hdr" where
  "ip_result_hdr junk proto dst = (ip_hdr_of (uninit junk 20))\<lparr>ip_protocol := proto,
     ip_source_address := JHTONL MY_IP, ip_destination_address := dst\<rparr>"

definition ip_send :: "ip_hdr \<Rightarrow> byte list \<Rightarrow> u16 \<Rightarrow> 'a ip_state_scheme \<Rightarrow> (int \<times> 'a ip_state_scheme) res" where
  "ip_send hdr data len s =
     (let h = ip_fill_hdr hdr len (packet_id s);
          s' = s\<lparr>packet_id := packet_id s + 1\<rparr>
      in eth_send \<lparr>eth_destination_mac = [], eth_source_mac = [], eth_type = JHTONS ETH_TYPE_IP\<rparr>
           (ip_hdr_bytes h @ data) (IP_HEADER_LEN + unat len) s')"

section \<open>Layout\<close>

lemma length_ip_hdr_bytes [simp]: "length (ip_hdr_bytes h) = 20"
  by (simp add: ip_hdr_bytes_def)

lemma ip_hdr_roundtrip: "ip_hdr_of (ip_hdr_bytes h @ rest) = h"
  by (simp add: ip_hdr_of_def ip_hdr_bytes_def get16_def get32_def nth_append put16_def put32_def)

lemma ip_hdr_roundtrip0 [simp]: "ip_hdr_of (ip_hdr_bytes h) = h"
  using ip_hdr_roundtrip [of h "[]"] by simp

lemma ip_hdr_roundtrip_bytes: "length bs = 20 \<Longrightarrow> ip_hdr_bytes (ip_hdr_of bs) = bs"
  by (auto simp: numeral_eq_Suc length_Suc_conv ip_hdr_bytes_def ip_hdr_of_def get16_def get32_def)

lemma ip_hdr_bytes_dst: "get32 (ip_hdr_bytes h @ rest) 16 = ip_destination_address h"
  using arg_cong [OF ip_hdr_roundtrip [of h rest], of ip_destination_address] by (simp add: ip_hdr_of_def)

section \<open>One's complement sums\<close>

text \<open>The sum of the big endian 16 bit words; an odd last byte is padded with zero.\<close>

fun net_sum :: "byte list \<Rightarrow> nat" where
  "net_sum [] = 0"
| "net_sum [a] = 256 * unat a"
| "net_sum (a # b # r) = 256 * unat a + unat b + net_sum r"

text \<open>One's complement value of a positive sum: its representative in 1..65535.\<close>

definition oc :: "nat \<Rightarrow> nat" where
  "oc x = (x - 1) mod 65535 + 1"

lemma oc_range: "1 \<le> oc x" "oc x \<le> 65535"
proof -
  have "(x - 1) mod 65535 < 65535" by (rule mod_less_divisor) simp
  then show "1 \<le> oc x" "oc x \<le> 65535" by (simp_all add: oc_def)
qed

lemma oc_compl_inj: "65535 - oc x = 65535 - oc y \<longleftrightarrow> oc x = oc y"
  using oc_range(2) [of x] oc_range(2) [of y] by arith

lemma oc_small: "1 \<le> x \<Longrightarrow> x \<le> 65535 \<Longrightarrow> oc x = x"
  by (simp add: oc_def)

lemma oc_wrap: "65535 < x \<Longrightarrow> x \<le> 131070 \<Longrightarrow> oc x = x - 65535"
proof -
  assume "65535 < x" "x \<le> 131070"
  then have "x - 1 = (x - 65536) + 65535" "x - 65536 < 65535" by simp_all
  then have "(x - 1) mod 65535 = x - 65536" by (metis mod_add_self2 mod_less)
  with \<open>65535 < x\<close> show ?thesis by (simp add: oc_def)
qed

lemma oc_add: "1 \<le> x \<Longrightarrow> oc (oc x + y) = oc (x + y)"
proof -
  assume "1 \<le> x"
  then have "((x - 1) mod 65535 + y) mod 65535 = (x - 1 + y) mod 65535" by (simp add: mod_add_left_eq)
  with \<open>1 \<le> x\<close> show ?thesis by (simp add: oc_def)
qed

lemma oc_mod: "1 \<le> x \<Longrightarrow> oc x mod 65535 = x mod 65535"
proof -
  assume "1 \<le> x"
  have "((x - 1) mod 65535 + 1) mod 65535 = (x - 1 + 1) mod 65535" by (rule mod_add_left_eq)
  with \<open>1 \<le> x\<close> show ?thesis by (simp add: oc_def)
qed

lemma unat_ck_add:
  assumes "1 \<le> unat acc" "unat acc \<le> 65535"
  shows "unat (ck_add acc w) = oc (unat acc + unat w)"
proof -
  have w: "unat w \<le> 65535" by (rule unat_u16_le)
  have u: "unat (ucast w :: u32) = unat w"
    using w by (simp add: unsigned_ucast_eq take_bit_eq_mod)
  have s: "unat (acc + ucast w) = unat acc + unat w"
    using assms w u by (subst unat_word_ariths) simp
  show ?thesis
  proof (cases "unat acc + unat w > 65535")
    case True
    then have g: "acc + ucast w > 0xffff" using s by (simp add: word_less_nat_alt)
    then have "unat (acc + ucast w - 0xffff) = unat acc + unat w - 65535"
      using s by (subst unat_sub) (auto simp: word_le_nat_alt word_less_nat_alt)
    with g True assms w show ?thesis by (simp add: ck_add_def Let_def oc_wrap)
  next
    case False
    then have "\<not> acc + ucast w > 0xffff" using s by (simp add: word_less_nat_alt)
    with s False assms show ?thesis by (simp add: ck_add_def Let_def oc_small)
  qed
qed

declare ck_loop.simps [simp del]

lemma take_drop_pair:
  "i + 1 < n \<Longrightarrow> n \<le> length xs \<Longrightarrow> drop i (take n xs) = xs ! i # xs ! (i + 1) # drop (i + 2) (take n xs)"
  using Cons_nth_drop_Suc [of i "take n xs"] Cons_nth_drop_Suc [of "Suc i" "take n xs"] by simp

text \<open>The even part of a range: the words that the loop visits.\<close>

lemma ck_loop_sum:
  assumes "n \<le> length data" and "1 \<le> unat acc" "unat acc \<le> 65535" and "i \<le> n"
  shows "unat (ck_loop data n i acc) = oc (unat acc + net_sum (take (2 * ((n - i) div 2)) (drop i (take n data))))"
  using assms
proof (induction data n i acc rule: ck_loop.induct)
  case (1 data n i acc)
  show ?case
  proof (cases "i + 1 < n")
    case True
    let ?w = "JHTONS (get16 data i)"
    have a: "unat (ck_add acc ?w) = oc (unat acc + unat ?w)" using "1.prems" by (intro unat_ck_add)
    have half: "2 * ((n - i) div 2) = Suc (Suc (2 * ((n - (i + 2)) div 2)))"
    proof -
      have "n - i = Suc (Suc (n - (i + 2)))" using True by arith
      then show ?thesis by (simp only: div2_Suc_Suc) simp
    qed
    have "unat (ck_loop data n i acc) =
      oc (oc (unat acc + unat ?w) + net_sum (take (2 * ((n - (i + 2)) div 2)) (drop (i + 2) (take n data))))"
      using "1.IH" [OF True] True "1.prems" a oc_range by (simp add: ck_loop.simps [of data n i])
    also have "\<dots> = oc (unat acc + unat ?w + net_sum (take (2 * ((n - (i + 2)) div 2)) (drop (i + 2) (take n data))))"
      using "1.prems" by (intro oc_add) simp
    also have "\<dots> = oc (unat acc + net_sum (take (2 * ((n - i) div 2)) (drop i (take n data))))"
      using take_drop_pair [OF True "1.prems"(1)] half
      by (simp add: unat_JNTOHS_get16 [simplified] ac_simps)
    finally show ?thesis .
  next
    case False
    with "1.prems" have "(n - i) div 2 = 0" by simp
    with False "1.prems" show ?thesis by (simp add: ck_loop.simps [of data n i] oc_small)
  qed
qed

lemma net_sum_append: "even (length xs) \<Longrightarrow> net_sum (xs @ ys) = net_sum xs + net_sum ys"
  by (induction xs rule: net_sum.induct) auto

lemma unat_not_acc:
  assumes "unat (acc :: u32) \<le> 65535"
  shows "unat (ucast (NOT acc) :: u16) = 65535 - unat acc"
proof -
  define n where "n = unat acc"
  let ?x = "int n"
  have x: "uint acc = ?x" "n \<le> 65535" unfolding n_def by (rule uint_nat, rule assms)
  have "uint (ucast (NOT acc) :: u16) = (- 1 - ?x) mod 65536"
  proof -
    have "uint (ucast (NOT acc) :: u16) = take_bit 16 (uint (NOT acc))"
      by (simp only: unsigned_ucast_eq) simp
    also have "uint (NOT acc) = take_bit 32 (NOT (uint acc))"
      by (simp only: unsigned_not_eq) simp
    finally show ?thesis unfolding x(1) by (simp add: not_eq_complement take_bit_eq_mod mod_mod_cancel minus_diff_commute)
  qed
  also have "\<dots> = (65535 - ?x + (- 1) * 65536) mod 65536" by simp
  also have "\<dots> = 65535 - ?x" using x by (simp only: mod_mult_self1) simp
  finally have "int (unat (ucast (NOT acc) :: u16)) = int (65535 - n)"
    using x(2) unfolding uint_nat by (simp add: of_nat_diff)
  then show ?thesis unfolding n_def by (simp only: of_nat_eq_iff)
qed

lemma net_sum_update:
  "i < length xs \<Longrightarrow> \<exists>k\<in>{1, 256}. \<exists>c. \<forall>b. net_sum (xs[i := b]) = c + k * unat b"
proof (induction xs arbitrary: i rule: net_sum.induct)
  case (2 a)
  then show ?case by (auto intro: exI [of _ 0])
next
  case (3 a b r)
  consider "i = 0" | "i = 1" | j where "i = Suc (Suc j)" "j < length r"
    using 3(2) by (cases i; cases "i - 1") auto
  then show ?case
  proof cases
    case 1
    then show ?thesis by (intro bexI [of _ 256] exI [of _ "unat b + net_sum r"]) auto
  next
    case 2
    then show ?thesis by (intro bexI [of _ 1] exI [of _ "256 * unat a + net_sum r"]) auto
  next
    case (3 j)
    with "3.IH" obtain k c where "k \<in> {1, 256}" "\<forall>b. net_sum (r[j := b]) = c + k * unat b" by blast
    with 3 show ?thesis
      by (intro bexI [of _ k] exI [of _ "256 * unat a + unat b + c"]) auto
  qed
qed simp

text \<open>The checksum over a range is the complement of the one's complement sum.\<close>

lemma ip_checksum_sum:
  assumes "n \<le> length data"
  shows "unat (JNTOHS (ip_checksum data n)) = 65535 - oc (65535 + net_sum (take n data))"
proof -
  define m where "m = 2 * (n div 2)"
  define acc where "acc = ck_loop data n 0 0xffff"
  define acc' where "acc' = (if odd n then ck_add acc (JNTOHS (pair16 (data ! (n - 1)) 0)) else acc)"
  have acc: "unat acc = oc (65535 + net_sum (take m data))"
    using ck_loop_sum [of n data "0xffff" 0] assms by (simp add: acc_def m_def min_def)
  have "unat acc' = oc (65535 + net_sum (take n data))"
  proof (cases "odd n")
    case True
    then have n: "n = Suc m" "even m" by (simp_all add: m_def)
    then have "take n data = take m data @ [data ! m]" using assms by (simp add: take_Suc_conv_app_nth)
    then have "net_sum (take n data) = net_sum (take m data) + 256 * unat (data ! m)"
      using n assms by (simp add: net_sum_append)
    moreover have "unat (JNTOHS (pair16 (data ! m) 0)) = 256 * unat (data ! m)"
      by (simp add: JHTONS_pair16 unat_pair16)
    ultimately show ?thesis
      using True n acc unat_ck_add [of acc "JNTOHS (pair16 (data ! m) 0)"] oc_range
      by (simp add: acc'_def oc_add add.assoc)
  next
    case False
    then show ?thesis using acc by (simp add: acc'_def m_def)
  qed
  moreover have "JNTOHS (ip_checksum data n) = ucast (NOT acc')"
    by (simp add: ip_checksum_def acc_def acc'_def Let_def)
  ultimately show ?thesis using unat_not_acc [of acc'] oc_range(2) by simp
qed

lemma JNTOHS_unat_inj: "unat (JNTOHS a) = unat (JNTOHS b) \<longleftrightarrow> a = b"
  by (metis JHTONS_inj JNTOHS_eq word_unat_eq_iff)

lemma oc_eq_mod: "1 \<le> x \<Longrightarrow> 1 \<le> y \<Longrightarrow> oc x = oc y \<longleftrightarrow> x mod 65535 = y mod 65535"
proof
  assume xy: "1 \<le> x" "1 \<le> y" "x mod 65535 = y mod 65535"
  have "(z - 1) mod 65535 = (z mod 65535 + 65534) mod 65535" if "1 \<le> z" for z :: nat
  proof -
    have "(z mod 65535 + 65534) mod 65535 = (z + 65534) mod 65535" by (rule mod_add_left_eq)
    also have "z + 65534 = z - 1 + 65535" using that by simp
    finally show ?thesis by (simp only: mod_add_self2)
  qed
  then show "oc x = oc y" using xy by (simp add: oc_def)
qed (metis oc_mod)

lemma net_sum_put16: "net_sum (put16 c @ post) = unat (JNTOHS c) + net_sum post"
proof -
  obtain a b where "c = pair16 a b" by (metis pair16_ucast)
  then show ?thesis by (simp add: JHTONS_pair16 unat_pair16)
qed

lemma oc_complement: "65535 dvd S + (65535 - oc (65535 + S))"
proof -
  let ?o = "oc (65535 + S)"
  have "?o mod 65535 = (S + 65535) mod 65535" using oc_mod [of "65535 + S"] by (simp add: add.commute)
  then have "S mod 65535 = ?o mod 65535" by (simp only: mod_add_self2)
  then have "(S + (65535 - ?o)) mod 65535 = (?o + (65535 - ?o)) mod 65535" by (metis mod_add_left_eq)
  then show ?thesis using oc_range(2) [of "65535 + S"] by (simp add: dvd_eq_mod_eq_0)
qed

text \<open>A range that contains its own checksum at an even offset sums to zero.\<close>

lemma net_sum_checksum:
  assumes "even (length pre)" and "xs = pre @ put16 0 @ post"
  shows "65535 dvd net_sum (pre @ put16 (ip_checksum xs (length xs)) @ post)"
proof -
  define c where "c = ip_checksum xs (length xs)"
  let ?S = "net_sum xs"
  have S: "?S = net_sum pre + net_sum post"
    using assms by (simp add: net_sum_append put16_def)
  have "net_sum (put16 c @ post) = unat (JNTOHS c) + net_sum post"
    by (rule net_sum_put16)
  then have "net_sum (pre @ put16 c @ post) = ?S + unat (JNTOHS c)"
    using assms(1) S by (simp add: net_sum_append)
  also have "unat (JNTOHS c) = 65535 - oc (65535 + ?S)"
    using ip_checksum_sum [of "length xs" xs] by (simp add: c_def)
  finally show ?thesis using oc_complement [of ?S] by (simp add: c_def)
qed

lemma ip_fill_hdr_sum: "65535 dvd net_sum (ip_hdr_bytes (ip_fill_hdr h len pid))"
proof -
  let ?h = "h\<lparr>ip_verlen := IP_VER_LEN, ip_tos := 0, ip_total_length := JHTONS (len + 20),
                  ip_id := JHTONS pid, ip_flags_offset := 0, ip_ttl := IP_TTL, ip_header_checksum := 0\<rparr>"
  let ?pre = "[ip_verlen ?h, ip_tos ?h] @ put16 (ip_total_length ?h) @ put16 (ip_id ?h) @
     put16 (ip_flags_offset ?h) @ [ip_ttl ?h, ip_protocol ?h]"
  let ?post = "put32 (ip_source_address ?h) @ put32 (ip_destination_address ?h)"
  have b: "ip_hdr_bytes (?h\<lparr>ip_header_checksum := c\<rparr>) = ?pre @ put16 c @ ?post" for c
    by (simp add: ip_hdr_bytes_def)
  have "ip_hdr_bytes ?h = ?pre @ put16 0 @ ?post" using b [of 0] by simp
  from net_sum_checksum [OF _ this] show ?thesis
    by (simp add: ip_fill_hdr_def Let_def b [simplified])
qed

lemma ip_checksum_update:
  assumes "n \<le> length data" and "i < n" and "b \<noteq> data ! i"
  shows "ip_checksum (data[i := b]) n \<noteq> ip_checksum data n"
proof
  assume eq: "ip_checksum (data[i := b]) n = ip_checksum data n"
  let ?xs = "take n data"
  have "oc (65535 + net_sum (?xs[i := b])) = oc (65535 + net_sum ?xs)"
    using arg_cong [OF eq, of "\<lambda>c. unat (JNTOHS c)"] assms ip_checksum_sum [of n data]
      ip_checksum_sum [of n "data[i := b]"] by (simp add: take_update_swap oc_compl_inj)
  moreover have "?xs[i := data ! i] = ?xs" using assms by (metis list_update_id nth_take)
  ultimately have m: "net_sum (?xs[i := b]) mod 65535 = net_sum (?xs[i := data ! i]) mod 65535"
    using assms by (simp add: oc_eq_mod)
  obtain k c where k: "k \<in> {1, 256}" "\<And>b. net_sum (?xs[i := b]) = c + k * unat b"
    using net_sum_update [of i ?xs] assms(1,2) by (metis length_take min.absorb2)
  have "k * unat b' < 65535" for b' :: byte
    using k(1) unat_byte_le [of b'] by auto
  then have "k * unat b = k * unat (data ! i)"
    using m nat_add_mod_cancel [of "k * unat b" 65535 "k * unat (data ! i)" c] unfolding k(2) by blast
  with k(1) assms(3) show False by (auto dest: word_unat_eq_iff [THEN iffD2])
qed

section \<open>Sending a packet\<close>

lemma ip_state_frame [simp]:
  "tx_put f (s\<lparr>packet_id := p\<rparr>) = (tx_put f s)\<lparr>packet_id := p\<rparr>"
  "cprintf m (s\<lparr>packet_id := p\<rparr>) = (cprintf m s)\<lparr>packet_id := p\<rparr>"
  "packet_id (tx_put f s) = packet_id s" "packet_id (cprintf m s) = packet_id s"
  "e1000_wf (s\<lparr>packet_id := p\<rparr>) = e1000_wf s"
  "get_mac_by_ip ip (s\<lparr>packet_id := p\<rparr>) = get_mac_by_ip ip s"
  by (simp_all add: tx_put_def cprintf_def E1000_REG_set_def E1000_REG_def Let_def e1000_wf_def get_mac_by_ip_def)

lemma ring_frame [simp]:
  "tx_ring (s\<lparr>packet_id := p\<rparr>) q = tx_ring s q" "rx_ring (s\<lparr>packet_id := p\<rparr>) q = rx_ring s q"
  "tx_ring (a\<lparr>arp_table := t\<rparr>) q = tx_ring a q" "rx_ring (a\<lparr>arp_table := t\<rparr>) q = rx_ring a q"
  by (simp_all add: ring_defs)

lemma tx_free_packet_id [simp]: "tx_free (s\<lparr>packet_id := p\<rparr>) = tx_free s"
  by (simp add: tx_done_def E1000_REG_def)

text \<open>The stack's old contents never reach the wire through the header.\<close>

lemma ip_fill_result_hdr:
  "ip_fill_hdr (ip_result_hdr junk proto dst) len pid = ip_fill_hdr (ip_result_hdr (\<lambda>_. 0) proto dst) len pid"
  by (simp add: ip_fill_hdr_def ip_result_hdr_def ip_hdr_of_def Let_def)

lemma ip_send_eq:
  assumes "e1000_wf s" and "get_mac_by_ip (ip_destination_address h) s = Some mac" "length mac = 6"
    and "unat len \<le> IP_DATA_LEN" "unat len \<le> length data"
  shows "ip_send h data len s =
    (if tx_free s
     then Inr (0, (tx_put (eth_frame mac ETH_TYPE_IP
             (ip_hdr_bytes (ip_fill_hdr h len (packet_id s)) @ take (unat len) data)) s)\<lparr>packet_id := packet_id s + 1\<rparr>)
     else Inr (-1, (cprintf (bytes_of ''\<newline>E1000 transmit queue is full\<newline>'') s)\<lparr>packet_id := packet_id s + 1\<rparr>))"
proof -
  have "ip_destination_address (ip_fill_hdr h len (packet_id s)) = ip_destination_address h"
    by (simp add: ip_fill_hdr_def Let_def)
  then show ?thesis
    using assms by (simp add: ip_send_def Let_def eth_send_ip [where mac = mac] ip_hdr_bytes_dst)
qed

text \<open>The state after a packet went out to a known neighbour.\<close>

definition ip_sent :: "byte list \<Rightarrow> ip_hdr \<Rightarrow> byte list \<Rightarrow> 'a ip_state_scheme \<Rightarrow> 'a ip_state_scheme" where
  "ip_sent mac h payload s = (tx_put (eth_frame mac ETH_TYPE_IP
      (ip_hdr_bytes (ip_fill_hdr h (of_nat (length payload)) (packet_id s)) @ payload)) s)
     \<lparr>packet_id := packet_id s + 1\<rparr>"

definition ip_hdr_valid :: "ip_hdr \<Rightarrow> byte \<Rightarrow> u32 \<Rightarrow> u32 \<Rightarrow> nat \<Rightarrow> bool" where
  "ip_hdr_valid h proto src dst n \<longleftrightarrow> ip_verlen h = IP_VER_LEN \<and> ip_protocol h = proto
     \<and> ip_source_address h = src \<and> ip_destination_address h = dst
     \<and> unat (JNTOHS (ip_total_length h)) = 20 + n \<and> 65535 dvd net_sum (ip_hdr_bytes h)"

lemma ip_hdr_valid_fill:
  assumes "n \<le> 1466"
  shows "ip_hdr_valid (ip_fill_hdr h (of_nat n) pid) (ip_protocol h) (ip_source_address h)
     (ip_destination_address h) n"
proof -
  have "unat (of_nat n + 20 :: u16) = 20 + n"
    using assms by (simp add: unat_add_u16 unat_of_nat_u16)
  then show ?thesis
    using ip_fill_hdr_sum [of h "of_nat n" pid]
    by (simp add: ip_hdr_valid_def) (simp add: ip_fill_hdr_def Let_def)
qed

lemma ip_send_ring:
  assumes "tx_ring s q" and "length q < 64"
    and "get_mac_by_ip (ip_destination_address h) s = Some mac" "length mac = 6"
    and "n \<le> 1466" "n \<le> length data"
  shows "ip_send h data (of_nat n) s = Inr (0, ip_sent mac h (take n data) s)"
    and "\<exists>ih. tx_ring (ip_sent mac h (take n data) s) (q @ [eth_frame mac ETH_TYPE_IP (ip_hdr_bytes ih @ take n data)])
      \<and> ip_hdr_valid ih (ip_protocol h) (ip_source_address h) (ip_destination_address h) n
      \<and> JNTOHS (ip_id ih) = packet_id s"
proof -
  define ih where "ih = ip_fill_hdr h (of_nat n) (packet_id s)"
  define f where "f = eth_frame mac ETH_TYPE_IP (ip_hdr_bytes ih @ take n data)"
  have u: "unat (of_nat n :: u16) = n" using assms by (intro unat_of_nat_u16) simp
  have l: "length (take n data) = n" using assms by simp
  show "ip_send h data (of_nat n) s = Inr (0, ip_sent mac h (take n data) s)"
    using ip_send_eq [OF tx_ringD(1) [OF assms(1)] assms(3,4), of "of_nat n" data] u l
      tx_free_iff [OF assms(1)] assms(2,5,6) by (simp add: ip_sent_def)
  have "tx_ring (tx_put f s) (q @ [f])"
    using assms by (intro tx_ring_put) (simp_all add: f_def)
  then have "tx_ring (ip_sent mac h (take n data) s) (q @ [f])"
    using l by (simp add: ip_sent_def f_def ih_def)
  moreover have "JNTOHS (ip_id ih) = packet_id s" by (simp add: ih_def ip_fill_hdr_def Let_def)
  ultimately show "\<exists>ih. tx_ring (ip_sent mac h (take n data) s) (q @ [eth_frame mac ETH_TYPE_IP (ip_hdr_bytes ih @ take n data)])
      \<and> ip_hdr_valid ih (ip_protocol h) (ip_source_address h) (ip_destination_address h) n
      \<and> JNTOHS (ip_id ih) = packet_id s"
    using ip_hdr_valid_fill [OF assms(5), of h "packet_id s"] unfolding f_def ih_def [symmetric] by blast
qed

lemma ip_sent_frame [simp]:
  "packet_id (ip_sent mac h p s) = packet_id s + 1" "arp_table (ip_sent mac h p s) = arp_table s"
  "console (ip_sent mac h p s) = console s" "ip_state.more (ip_sent mac h p s) = ip_state.more s"
  by (simp_all add: ip_sent_def tx_put_def E1000_REG_set_def Let_def)

section \<open>What sending may change\<close>

text \<open>
  A sending operation appends frames to the transmit queue and prints; it leaves the
  receive queue, the ARP cache and everything above the IP layer alone.
\<close>

definition sends :: "'a ip_state_scheme \<Rightarrow> 'a ip_state_scheme \<Rightarrow> bool" where
  "sends s s' \<longleftrightarrow> e1000_wf s' \<and> arp_table s' = arp_table s \<and> ip_state.more s' = ip_state.more s
     \<and> (\<exists>fs. \<forall>q. tx_ring s q \<longrightarrow> tx_ring s' (q @ fs)) \<and> (\<forall>r. rx_ring s r \<longrightarrow> rx_ring s' r)"

lemma sends_refl: "e1000_wf s \<Longrightarrow> sends s s"
  by (auto simp: sends_def intro: exI [of _ "[]"])

lemma sends_trans: "sends s t \<Longrightarrow> sends t u \<Longrightarrow> sends s u"
proof -
  assume "sends s t" "sends t u"
  then obtain fs gs where "\<forall>q. tx_ring s q \<longrightarrow> tx_ring t (q @ fs)" "\<forall>q. tx_ring t q \<longrightarrow> tx_ring u (q @ gs)"
    by (auto simp: sends_def)
  then have "\<forall>q. tx_ring s q \<longrightarrow> tx_ring u (q @ fs @ gs)" by (metis append_assoc)
  with \<open>sends s t\<close> \<open>sends t u\<close> show ?thesis unfolding sends_def by auto
qed

lemma sends_cprintf [simp]: "sends s (cprintf m t) = sends s t"
  by (simp add: sends_def) (simp add: cprintf_def)

lemma sends_packet_id [simp]: "sends s (t\<lparr>packet_id := p\<rparr>) = sends s t"
  by (simp add: sends_def)

lemma sends_from_packet_id [simp]: "sends (s\<lparr>packet_id := p\<rparr>) t = sends s t"
  by (simp add: sends_def)

lemma sends_tx_put:
  assumes "e1000_wf s" and "tx_free s" and "length f \<le> 1518"
  shows "sends s (tx_put f s)"
proof -
  have "tx_ring (tx_put f s) (q @ [f])" if "tx_ring s q" for q
    using tx_ring_put [OF that, of f] tx_free_iff [OF that] assms by simp
  moreover have "ip_state.more (tx_put f s) = ip_state.more s"
    by (simp add: tx_put_def E1000_REG_set_def Let_def)
  ultimately show ?thesis using assms e1000_wf_tx_put [of s f] by (auto simp: sends_def)
qed

lemma eth_send_sends:
  assumes "e1000_wf s" and "eth_send h data len s = Inr (r, s')"
  shows "sends s s'"
proof -
  obtain buf n where "e1000_transmit buf n s = Inr (r, s')"
    using assms(2) by (auto simp: eth_send_def Let_def bind_res_Inr_iff split: if_splits option.splits)
  with assms(1) show ?thesis
  proof (cases rule: e1000_transmit_Inr)
    case full
    then show ?thesis using assms(1) sends_refl by auto
  next
    case sent
    then show ?thesis using assms(1) by (auto intro: sends_tx_put)
  qed
qed

lemma ip_send_sends:
  assumes "e1000_wf s" and "ip_send h data len s = Inr (r, s')"
  shows "sends s s'"
  using eth_send_sends [of "s\<lparr>packet_id := packet_id s + 1\<rparr>"] assms by (simp add: ip_send_def Let_def)

definition arp_boot_with :: "'a \<Rightarrow> 'a arp_state_scheme" where
  "arp_boot_with m = arp_state.extend arp_boot m"

lemma arp_boot_with_facts:
  "tx_ring (arp_boot_with m) []" "rx_ring (arp_boot_with m) []"
  "arp_table (arp_boot_with m) = arp_init_entries arp_bss"
  "arp_state.more (arp_boot_with m) = m"
proof -
  have r: "tx_ring arp_boot []" "rx_ring arp_boot []" unfolding arp_boot_def by (rule e1000_boot_rings)+
  then show "tx_ring (arp_boot_with m) []" "rx_ring (arp_boot_with m) []"
    by (simp_all add: arp_boot_with_def arp_state.defs ring_defs)
  show "arp_table (arp_boot_with m) = arp_init_entries arp_bss" "arp_state.more (arp_boot_with m) = m"
    using arp_boot_facts(3) by (simp_all add: arp_boot_with_def arp_state.defs)
qed

text \<open>A freshly booted machine.\<close>

definition ip_boot_with :: "'a \<Rightarrow> 'a ip_state_scheme" where
  "ip_boot_with m = ip_state.extend (arp_boot_with (ip_state.fields 0)) m"

lemma ip_boot_with_facts:
  "tx_ring (ip_boot_with m) []" "rx_ring (ip_boot_with m) []"
  "arp_table (ip_boot_with m) = arp_init_entries arp_bss"
  "packet_id (ip_boot_with m) = 0" "ip_state.more (ip_boot_with m) = m"
  using arp_boot_with_facts [of "ip_state.fields 0"]
  by (simp_all add: ip_boot_with_def ip_state.defs ring_defs)
    (cases "arp_boot_with (ip_state.fields 0)", simp add: ip_state.defs)

section \<open>Properties\<close>

text \<open>
  C31: Equivalence of the checksum loop with its reference: \<^verbatim>\<open>ip_checksum\<close>, read in
  network byte order, is the complement of the one's complement sum of the big
  endian 16 bit words of the range, an odd last byte being padded with zero. The loop's
  conditional subtraction is the end-around carry, for every length and every content.
\<close>

theorem ip_checksum_reference:
  assumes "n \<le> length data"
  shows "unat (JNTOHS (ip_checksum data n)) = 65535 - oc (65535 + net_sum (take n data))"
  using assms by (rule ip_checksum_sum)

theorem ip_checksum_reference_witness:
  "unat (JNTOHS (ip_checksum [0x45, 0x00, 0xff, 0xff, 0x12] 5)) = 43263"
  using ip_checksum_reference [of 5 "[0x45, 0x00, 0xff, 0xff, 0x12]"] by (simp add: oc_def)

text \<open>
  Error detection: changing one byte anywhere in the range always changes the
  checksum.
\<close>

theorem ip_checksum_detects:
  assumes "n \<le> length data" and "i < n" and "b \<noteq> data ! i"
  shows "ip_checksum (data[i := b]) n \<noteq> ip_checksum data n"
  using assms by (rule ip_checksum_update)

theorem ip_checksum_detects_witness:
  "ip_checksum [0x45, 0x01, 0xff] 3 \<noteq> ip_checksum [0x45, 0x00, 0xff] 3"
  using ip_checksum_detects [of 3 "[0x45, 0x00, 0xff]" 1 1] by simp

text \<open>
  \<^verbatim>\<open>ip_send\<close> to a known neighbour, with room in the transmit ring, returns 0 and
  queues exactly one frame behind those already queued: the neighbour's hardware
  address, type IP, a header with the given addresses and protocol, the total length in
  network byte order and the old packet id, and the payload. The header passes the
  receiver's test (its words sum to zero modulo 65535), and the packet id
  advances by one, modulo 2 to the 16.
\<close>

theorem ip_send_queues:
  assumes "tx_ring s q" and "length q < 64"
    and "get_mac_by_ip (ip_destination_address h) s = Some mac" "length mac = 6"
    and "n \<le> 1466" "n \<le> length data"
  shows "\<exists>s' ih. ip_send h data (of_nat n) s = Inr (0, s')
    \<and> tx_ring s' (q @ [eth_frame mac ETH_TYPE_IP (ip_hdr_bytes ih @ take n data)])
    \<and> packet_id s' = packet_id s + 1 \<and> JNTOHS (ip_id ih) = packet_id s
    \<and> ip_hdr_valid ih (ip_protocol h) (ip_source_address h) (ip_destination_address h) n"
  using ip_send_ring [OF assms] by (metis ip_sent_frame(1))

definition boot_knowing :: "u32 \<Rightarrow> byte list \<Rightarrow> 'a \<Rightarrow> 'a ip_state_scheme" where
  "boot_knowing ip mac m =
     (ip_boot_with m)\<lparr>arp_table := [\<lparr>ent_ip = ip, ent_mac = mac, ent_state = 2\<rparr>]\<rparr>"

lemma boot_knowing_facts [simp]:
  "tx_ring (boot_knowing ip mac m) []" "get_mac_by_ip ip (boot_knowing ip mac m) = Some mac"
  "packet_id (boot_knowing ip mac m) = 0" "rx_ring (boot_knowing ip mac m) []"
  by (simp_all add: boot_knowing_def ip_boot_with_facts get_mac_by_ip_def)

theorem ip_send_queues_witness:
  "\<exists>s' ih. ip_send (ip_result_hdr (\<lambda>_. 0xcc) IP_PROTO_UDP 77) [1, 2, 3] 3 (boot_knowing 77 default_mac ()) = Inr (0, s')
    \<and> tx_ring s' [eth_frame default_mac ETH_TYPE_IP (ip_hdr_bytes ih @ [1, 2, 3])] \<and> packet_id s' = 1
    \<and> ip_hdr_valid ih IP_PROTO_UDP (JHTONL MY_IP) 77 3"
proof -
  have "length default_mac = 6" by (simp add: default_mac_def)
  then show ?thesis
    using ip_send_queues [OF boot_knowing_facts(1) [of 77 default_mac "()"],
      of "ip_result_hdr (\<lambda>_. 0xcc) IP_PROTO_UDP 77" default_mac 3 "[1, 2, 3]"]
    by (force simp: ip_result_hdr_def)
qed

end
