(* ===== verification/Icmp.thy ===== *)
theory Icmp
  imports Ip
begin

text \<open>
  ICMP echo (\<^verbatim>\<open>kern/icmp.h\<close>, \<^verbatim>\<open>kern/icmp.c\<close>). The received IP packet is the receive loop's
  buffer \<open>pkt\<close>; the local \<^verbatim>\<open>icmp_packet\<close> and the outgoing packet start with
  indeterminate contents (\<open>junk\<close>).
\<close>

abbreviation (input) ECHO_REQUEST :: byte where "ECHO_REQUEST \<equiv> 8"
abbreviation (input) ECHO_REPLY :: byte where "ECHO_REPLY \<equiv> 0"
abbreviation (input) E_UNS_ICMP_TYPE :: int where "E_UNS_ICMP_TYPE \<equiv> 23"
abbreviation (input) E_INV_ICMP_CODE :: int where "E_INV_ICMP_CODE \<equiv> 24"

record icmp_hdr =
  msg_type :: byte
  msg_code :: byte
  icmp_checksum :: u16
  icmp_id :: u16
  sequence_number :: u16

definition icmp_hdr_bytes :: "icmp_hdr \<Rightarrow> byte list" where
  "icmp_hdr_bytes h = [msg_type h, msg_code h] @ put16 (icmp_checksum h) @ put16 (icmp_id h) @
     put16 (sequence_number h)"

definition icmp_hdr_of :: "byte list \<Rightarrow> icmp_hdr" where
  "icmp_hdr_of bs = \<lparr>msg_type = bs ! 0, msg_code = bs ! 1, icmp_checksum = get16 bs 2,
     icmp_id = get16 bs 4, sequence_number = get16 bs 6\<rparr>"

definition icmp_reply_hdr :: "icmp_hdr \<Rightarrow> icmp_hdr" where
  "icmp_reply_hdr h =
     (let h1 = h\<lparr>msg_type := ECHO_REPLY\<rparr>;
          h2 = h1\<lparr>icmp_checksum := JNTOHS (icmp_checksum h1) + 0x0800\<rparr>
      in h2\<lparr>icmp_checksum := JHTONS (icmp_checksum h2)\<rparr>)"

text \<open>The payload of an IP packet: \<^verbatim>\<open>memcpy\<close> from \<^verbatim>\<open>pkt->data\<close> into a local of \<^verbatim>\<open>IP_DATA_LEN\<close> bytes.\<close>

definition ip_copy_data :: "(nat \<Rightarrow> byte) \<Rightarrow> byte list \<Rightarrow> int \<Rightarrow> byte list res" where
  "ip_copy_data junk pkt sz =
     bind_res (mem_read_int pkt IP_HEADER_LEN sz) (\<lambda>d. mem_write (uninit junk IP_DATA_LEN) 0 d)"

definition icmp_echo_reply :: "(nat \<Rightarrow> byte) \<Rightarrow> byte list \<Rightarrow> 'a ip_state_scheme \<Rightarrow> (int \<times> 'a ip_state_scheme) res" where
  "icmp_echo_reply junk pkt s =
     bind_res (mem_read pkt 0 IP_HEADER_LEN) (\<lambda>hb.
     let sz = uint (JNTOHS (ip_total_length (ip_hdr_of hb))) - int IP_HEADER_LEN in
     bind_res (ip_copy_data junk pkt sz) (\<lambda>icmp_packet.
     let hdr = icmp_hdr_of icmp_packet in
     if msg_type hdr \<noteq> ECHO_REQUEST then Inr (- E_UNS_ICMP_TYPE, s)
     else if msg_code hdr \<noteq> 0 then Inr (- E_INV_ICMP_CODE, s)
     else let icmp_packet' = blit icmp_packet 0 (icmp_hdr_bytes (icmp_reply_hdr hdr)) in
     bind_res (mem_read_int icmp_packet' 0 sz) (\<lambda>out.
     bind_res (mem_write (uninit (\<lambda>i. junk (IP_DATA_LEN + IP_HEADER_LEN + i)) IP_DATA_LEN) 0 out) (\<lambda>data.
     ip_send (ip_result_hdr (\<lambda>i. junk (IP_DATA_LEN + i)) IP_PROTO_ICMP (JHTONL HOST_IP)) data (of_int sz) s))))"

section \<open>Layout\<close>

lemma length_icmp_hdr_bytes [simp]: "length (icmp_hdr_bytes h) = 8"
  by (simp add: icmp_hdr_bytes_def)

lemma icmp_hdr_roundtrip [simp]: "icmp_hdr_of (icmp_hdr_bytes h @ rest) = h"
  by (simp add: icmp_hdr_of_def icmp_hdr_bytes_def get16_def nth_append put16_def)

lemma net_sum_icmp: "net_sum (icmp_hdr_bytes h @ d) =
    256 * unat (msg_type h) + unat (msg_code h) + unat (JNTOHS (icmp_checksum h)) +
    unat (JNTOHS (icmp_id h)) + unat (JNTOHS (sequence_number h)) + net_sum d"
  using net_sum_put16 by (simp add: icmp_hdr_bytes_def)

text \<open>
  The reply keeps the sum of the message unless adding 0x0800 to the checksum wraps; the
  carry is then lost.
\<close>

lemma net_sum_icmp_reply:
  assumes "msg_type h = ECHO_REQUEST"
  shows "net_sum (icmp_hdr_bytes (icmp_reply_hdr h) @ d) +
      (if unat (JNTOHS (icmp_checksum h)) < 0xF800 then 0 else 65536) = net_sum (icmp_hdr_bytes h @ d)"
proof -
  let ?c = "JHTONS (icmp_checksum h)"
  have "unat (?c + 0x0800) + (if unat ?c < 0xF800 then 0 else 65536) = unat ?c + 2048"
    using unat_u16_less [of ?c] by (simp add: unat_add_u16)
  then show ?thesis using assms by (simp add: net_sum_icmp icmp_reply_hdr_def Let_def)
qed

section \<open>Received packets\<close>

text \<open>A buffer that starts with an IP packet carrying \<open>payload\<close>.\<close>

definition ip_packet_in :: "byte list \<Rightarrow> ip_hdr \<Rightarrow> byte list \<Rightarrow> bool" where
  "ip_packet_in pkt h payload \<longleftrightarrow> (\<exists>rest. pkt = ip_hdr_bytes h @ payload @ rest)
     \<and> unat (JNTOHS (ip_total_length h)) = 20 + length payload \<and> length payload \<le> 1466"

lemma ip_packet_in_hdr: "ip_packet_in pkt h payload \<Longrightarrow> mem_read pkt 0 20 = Inr (ip_hdr_bytes h)"
  by (auto simp: ip_packet_in_def)

lemma ip_packet_in_size: "ip_packet_in pkt h payload \<Longrightarrow> uint (JNTOHS (ip_total_length h)) - 20 = int (length payload)"
  unfolding ip_packet_in_def by (metis diff_add_cancel add_diff_cancel_left' of_nat_add of_nat_numeral uint_nat)

lemma ip_packet_in_data:
  "ip_packet_in pkt h payload \<Longrightarrow>
   ip_copy_data junk pkt (int (length payload)) = Inr (payload @ drop (length payload) (uninit junk 1466))"
  by (auto simp: ip_packet_in_def ip_copy_data_def mem_read_int_def blit_def)

lemma blit_prefix: "length a' = length a \<Longrightarrow> blit (a @ b) 0 a' = a' @ b"
  by (simp add: blit_def)

lemma icmp_echo_reply_eq:
  assumes pkt: "ip_packet_in pkt h (icmp_hdr_bytes m @ d)"
    and m: "msg_type m = ECHO_REQUEST" "msg_code m = 0"
  shows "\<exists>data junk'. icmp_echo_reply junk pkt s = ip_send (ip_result_hdr junk' IP_PROTO_ICMP (JHTONL HOST_IP)) data
      (of_nat (8 + length d)) s
    \<and> length data = 1466 \<and> take (8 + length d) data = icmp_hdr_bytes (icmp_reply_hdr m) @ d"
proof -
  let ?p = "icmp_hdr_bytes m @ d" and ?r = "icmp_hdr_bytes (icmp_reply_hdr m) @ d"
  let ?data = "blit (uninit (\<lambda>i. junk (1486 + i)) 1466) 0 ?r"
  have len: "length d \<le> 1458" using pkt by (simp add: ip_packet_in_def)
  note c = ip_packet_in_data [OF pkt, of junk] and sz = ip_packet_in_size [OF pkt]
  have "icmp_echo_reply junk pkt s =
      ip_send (ip_result_hdr (\<lambda>i. junk (1466 + i)) IP_PROTO_ICMP (JHTONL HOST_IP)) ?data (of_nat (8 + length d)) s"
    unfolding icmp_echo_reply_def ip_packet_in_hdr [OF pkt] bind_res_simps ip_hdr_roundtrip0 Let_def
      of_nat_numeral sz c
    using m len by (simp add: mem_read_int_def blit_prefix)
  moreover have "length ?data = 1466" using len by simp
  moreover have "take (8 + length d) ?data = ?r" by (rule take_blit_0_le) simp
  ultimately show ?thesis by blast
qed

lemma icmp_echo_ring:
  assumes "tx_ring s q" and "length q < 64"
    and "get_mac_by_ip (JHTONL HOST_IP) s = Some mac" "length mac = 6"
    and "ip_packet_in pkt h (icmp_hdr_bytes m @ d)" and "msg_type m = ECHO_REQUEST" "msg_code m = 0"
  shows "\<exists>s' ih. icmp_echo_reply junk pkt s = Inr (0, s')
    \<and> tx_ring s' (q @ [eth_frame mac ETH_TYPE_IP (ip_hdr_bytes ih @ icmp_hdr_bytes
        (m\<lparr>msg_type := ECHO_REPLY, icmp_checksum := JHTONS (JNTOHS (icmp_checksum m) + 0x0800)\<rparr>) @ d)])
    \<and> ip_hdr_valid ih IP_PROTO_ICMP (JHTONL MY_IP) (JHTONL HOST_IP) (8 + length d)
    \<and> packet_id s' = packet_id s + 1"
proof -
  let ?n = "8 + length d"
  have m': "m\<lparr>msg_type := ECHO_REPLY, icmp_checksum := JHTONS (JNTOHS (icmp_checksum m) + 0x0800)\<rparr> = icmp_reply_hdr m"
    by (simp add: icmp_reply_hdr_def Let_def)
  obtain data junk' where e: "icmp_echo_reply junk pkt s =
      ip_send (ip_result_hdr junk' IP_PROTO_ICMP (JHTONL HOST_IP)) data (of_nat ?n) s"
    and data: "length data = 1466" "take ?n data = icmp_hdr_bytes (icmp_reply_hdr m) @ d"
    using icmp_echo_reply_eq [OF assms(5-7)] by blast
  let ?h = "ip_result_hdr junk' IP_PROTO_ICMP (JHTONL HOST_IP)"
  have n: "?n \<le> 1466" using assms(5) by (simp add: ip_packet_in_def)
  have dst: "get_mac_by_ip (ip_destination_address ?h) s = Some mac"
    using assms(3) by (simp add: ip_result_hdr_def)
  note r = ip_send_ring [OF assms(1,2) dst assms(4) n n [folded data(1)]]
  show ?thesis
    using r unfolding m' e data(2) by (fastforce simp: ip_result_hdr_def)
qed

section \<open>Properties\<close>

text \<open>
  An echo request is answered: \<^verbatim>\<open>icmp_echo_reply\<close> returns 0 and queues one frame for the
  host, a valid IP packet that carries the request with its type changed to a reply,
  the same identifier, sequence number and data. None of the stack's old contents is
  sent.
\<close>

theorem icmp_echo_answered:
  assumes "tx_ring s q" and "length q < 64"
    and "get_mac_by_ip (JHTONL HOST_IP) s = Some mac" "length mac = 6"
    and "ip_packet_in pkt h (icmp_hdr_bytes m @ d)" and "msg_type m = ECHO_REQUEST" "msg_code m = 0"
  shows "\<exists>s' ih. icmp_echo_reply junk pkt s = Inr (0, s')
    \<and> tx_ring s' (q @ [eth_frame mac ETH_TYPE_IP (ip_hdr_bytes ih @ icmp_hdr_bytes
        (m\<lparr>msg_type := ECHO_REPLY, icmp_checksum := JHTONS (JNTOHS (icmp_checksum m) + 0x0800)\<rparr>) @ d)])
    \<and> ip_hdr_valid ih IP_PROTO_ICMP (JHTONL MY_IP) (JHTONL HOST_IP) (8 + length d)
    \<and> packet_id s' = packet_id s + 1"
  using assms by (rule icmp_echo_ring)

theorem icmp_echo_answered_witness:
  "\<exists>s' ih. icmp_echo_reply (\<lambda>_. 0xcc)
      (ip_hdr_bytes (ip_result_hdr (\<lambda>_. 0) 1 7\<lparr>ip_total_length := JHTONS 30\<rparr>) @ [8, 0, 0x10, 0x20, 1, 2, 3, 4, 65, 66, 0xff])
      (boot_knowing (JHTONL HOST_IP) default_mac ()) = Inr (0, s')
    \<and> tx_ring s' [eth_frame default_mac ETH_TYPE_IP (ip_hdr_bytes ih @ [0, 0, 0x18, 0x20, 1, 2, 3, 4, 65, 66])]"
proof -
  let ?m = "\<lparr>msg_type = 8, msg_code = 0, icmp_checksum = pair16 0x10 0x20, icmp_id = pair16 1 2, sequence_number = pair16 3 4\<rparr>"
  let ?h = "ip_result_hdr (\<lambda>_. 0) 1 7\<lparr>ip_total_length := JHTONS 30\<rparr>"
  have b: "icmp_hdr_bytes ?m = [8, 0, 0x10, 0x20, 1, 2, 3, 4]" by (simp add: icmp_hdr_bytes_def)
  have c: "put16 (JHTONS (JHTONS (pair16 0x10 0x20) + 0x0800)) = [0x18, 0x20]"
    by (simp add: JHTONS_pair16) (simp add: pair16_def put16_JHTONS)
  have p: "ip_packet_in (ip_hdr_bytes ?h @ [8, 0, 0x10, 0x20, 1, 2, 3, 4, 65, 66, 0xff]) ?h (icmp_hdr_bytes ?m @ [65, 66])"
    by (simp add: ip_packet_in_def b)
  have mac: "length default_mac = 6" by (simp add: default_mac_def)
  show ?thesis
    using icmp_echo_answered [OF boot_knowing_facts(1) [of _ _ "()"] _ boot_knowing_facts(2) mac p, where junk = "\<lambda>_. 0xcc"]
    by (auto simp: icmp_hdr_bytes_def c)
qed

text \<open>
  The reply's checksum: for a request whose checksum is correct, the incremental update
  gives a correct checksum exactly when the old checksum is below 0xF800. Above it the
  16 bit addition wraps and the end-around carry is lost, so the reply is sent with a
  wrong checksum.
\<close>

theorem icmp_reply_checksum:
  assumes "msg_type m = ECHO_REQUEST" and "65535 dvd net_sum (icmp_hdr_bytes m @ d)"
  shows "65535 dvd net_sum (icmp_hdr_bytes (icmp_reply_hdr m) @ d) \<longleftrightarrow> unat (JNTOHS (icmp_checksum m)) < 0xF800"
proof -
  let ?r = "net_sum (icmp_hdr_bytes (icmp_reply_hdr m) @ d)"
  note e = net_sum_icmp_reply [OF assms(1), of d]
  have "\<not> 65535 dvd ?r" if "65535 dvd ?r + 65536"
  proof
    assume "65535 dvd ?r"
    then have "65535 dvd (65536 :: nat)" using that by (metis dvd_add_right_iff)
    then show False by simp
  qed
  then show ?thesis using e assms(2) by (cases "unat (JNTOHS (icmp_checksum m)) < 0xF800") simp_all
qed

theorem icmp_reply_checksum_witness:
  "\<not> 65535 dvd net_sum (icmp_hdr_bytes (icmp_reply_hdr
      \<lparr>msg_type = 8, msg_code = 0, icmp_checksum = pair16 0xf8 0, icmp_id = pair16 0xff 0xfe, sequence_number = 0\<rparr>) @ [])"
proof -
  let ?m = "\<lparr>msg_type = 8, msg_code = 0, icmp_checksum = pair16 0xf8 0, icmp_id = pair16 0xff 0xfe, sequence_number = 0\<rparr>"
  have "65535 dvd net_sum (icmp_hdr_bytes ?m @ [])" by (simp add: icmp_hdr_bytes_def put16_def)
  moreover have "unat (JNTOHS (icmp_checksum ?m)) = 0xF800" by (simp add: JHTONS_pair16 unat_pair16)
  ultimately show ?thesis using icmp_reply_checksum [of ?m "[]"] by simp
qed

end
