(* ===== verification/Udp.thy ===== *)
theory Udp
  imports Icmp
begin

text \<open>
  UDP (\<^verbatim>\<open>kern/udp.h\<close>, \<^verbatim>\<open>kern/udp.c\<close>): \<open>udp_send\<close> and the echo service \<open>udp_recv\<close>. The
  locals \<^verbatim>\<open>upkt\<close>, \<^verbatim>\<open>pkt\<close> and \<^verbatim>\<open>result\<close> start with indeterminate contents; the bytes
  of the length field of a received header are trusted by the code.
\<close>

abbreviation (input) UDP_HEADER_LEN :: nat where "UDP_HEADER_LEN \<equiv> 8"
abbreviation (input) UDP_DATA_LENGTH :: nat where "UDP_DATA_LENGTH \<equiv> 1458"

record udp_hdr =
  udp_source_port :: u16
  udp_destination_port :: u16
  udp_length :: u16
  udp_checksum :: u16

definition udp_hdr_bytes :: "udp_hdr \<Rightarrow> byte list" where
  "udp_hdr_bytes h = put16 (udp_source_port h) @ put16 (udp_destination_port h) @ put16 (udp_length h) @
     put16 (udp_checksum h)"

definition udp_hdr_of :: "byte list \<Rightarrow> udp_hdr" where
  "udp_hdr_of bs = \<lparr>udp_source_port = get16 bs 0, udp_destination_port = get16 bs 2,
     udp_length = get16 bs 4, udp_checksum = get16 bs 6\<rparr>"

text \<open>The length has C type \<^verbatim>\<open>int\<close>: a negative one makes \<^verbatim>\<open>memcpy\<close> leave its objects.\<close>

definition udp_send :: "(nat \<Rightarrow> byte) \<Rightarrow> byte list \<Rightarrow> int \<Rightarrow> 'a ip_state_scheme \<Rightarrow> (int \<times> 'a ip_state_scheme) res" where
  "udp_send junk data len s =
     (let hdr = \<lparr>udp_source_port = JHTONS 8081, udp_destination_port = JHTONS 1234,
                 udp_length = JHTONS (of_int (len + int UDP_HEADER_LEN)), udp_checksum = 0\<rparr> in
      bind_res (mem_read_int data 0 len) (\<lambda>d.
      bind_res (mem_write (uninit junk UDP_DATA_LENGTH) 0 d) (\<lambda>pkt_data.
      bind_res (mem_read_int (udp_hdr_bytes hdr @ pkt_data) 0 (len + int UDP_HEADER_LEN)) (\<lambda>pkt.
      bind_res (mem_write (uninit (\<lambda>i. junk (UDP_DATA_LENGTH + IP_HEADER_LEN + i)) IP_DATA_LEN) 0 pkt) (\<lambda>result.
      ip_send (ip_result_hdr (\<lambda>i. junk (UDP_DATA_LENGTH + i)) IP_PROTO_UDP (JHTONL HOST_IP)) result
        (of_int (len + int UDP_HEADER_LEN)) s)))))"

text \<open>
  \<open>udp_recv\<close> prints the text of the datagram and sends it back. The loop bound
  \<^verbatim>\<open>JNTOHS(hdr->length) - UDP_HEADER_LEN\<close> is unsigned: for a length below 8 it is close to 2 to
  the 64 and the loop leaves \<^verbatim>\<open>upkt\<close>, as it does for a length beyond the buffer.
\<close>

definition udp_recv :: "(nat \<Rightarrow> byte) \<Rightarrow> (nat \<Rightarrow> byte) \<Rightarrow> byte list \<Rightarrow> 'a ip_state_scheme \<Rightarrow> (int \<times> 'a ip_state_scheme) res" where
  "udp_recv junk junk_send pkt s =
     bind_res (mem_read pkt 0 IP_HEADER_LEN) (\<lambda>hb.
     let sz = uint (JNTOHS (ip_total_length (ip_hdr_of hb))) - int IP_HEADER_LEN in
     bind_res (ip_copy_data junk pkt sz) (\<lambda>upkt.
     let hdr = udp_hdr_of upkt;
         data = drop UDP_HEADER_LEN upkt;
         n = uint (JNTOHS (udp_length hdr)) - int UDP_HEADER_LEN;
         s1 = cprintf (bytes_of ''port: '' @ dec (uint (JNTOHS (udp_destination_port hdr))) @ bytes_of ''\<newline>'') s
     in bind_res (mem_read_int data 0 n) (\<lambda>text.
        let s2 = cprintf (text @ bytes_of ''\<newline>'') s1 in
        bind_res (udp_send junk_send data n s2) (\<lambda>(_, s3).
        Inr (0, s3)))))"

section \<open>Layout\<close>

lemma length_udp_hdr_bytes [simp]: "length (udp_hdr_bytes h) = 8"
  by (simp add: udp_hdr_bytes_def)

lemma udp_hdr_roundtrip [simp]: "udp_hdr_of (udp_hdr_bytes h @ rest) = h"
  by (simp add: udp_hdr_of_def udp_hdr_bytes_def get16_def nth_append put16_def)

definition udp_out_hdr :: "nat \<Rightarrow> udp_hdr" where
  "udp_out_hdr n = \<lparr>udp_source_port = JHTONS 8081, udp_destination_port = JHTONS 1234,
     udp_length = JHTONS (of_nat (8 + n)), udp_checksum = 0\<rparr>"

section \<open>Sending\<close>

lemma udp_send_eq:
  assumes "n \<le> 1458" and "n \<le> length data"
  shows "\<exists>out junk'. udp_send junk data (int n) s =
      ip_send (ip_result_hdr junk' IP_PROTO_UDP (JHTONL HOST_IP)) out (of_nat (8 + n)) s
    \<and> length out = 1466 \<and> take (8 + n) out = udp_hdr_bytes (udp_out_hdr n) @ take n data"
proof -
  let ?r = "udp_hdr_bytes (udp_out_hdr n) @ take n data"
  let ?out = "blit (uninit (\<lambda>i. junk (1478 + i)) 1466) 0 ?r"
  have len: "length ?r = 8 + n" using assms by simp
  have h: "\<lparr>udp_source_port = JHTONS 8081, udp_destination_port = JHTONS 1234,
     udp_length = JHTONS (of_nat (8 + n)), udp_checksum = 0\<rparr> = udp_out_hdr n"
    by (simp add: udp_out_hdr_def)
  have t: "take n (blit (uninit junk 1458) 0 (take n data)) = take n data"
    using assms by (intro take_blit_0_le) simp
  have nat: "nat (int n + 8) = 8 + n" "of_int (int n + int 8) = (of_nat (8 + n) :: u16)"
    by (simp_all add: nat_add_distrib add.commute)
  have "udp_send junk data (int n) s =
      ip_send (ip_result_hdr (\<lambda>i. junk (1458 + i)) IP_PROTO_UDP (JHTONL HOST_IP)) ?out (of_nat (8 + n)) s"
    unfolding udp_send_def Let_def nat(2) h
    using assms by (simp add: mem_read_int_def nat(1) t del: of_nat_add)
  moreover have "length ?out = 1466" using assms len by simp
  moreover have "take (8 + n) ?out = ?r" by (rule take_blit_0_le) (rule len [symmetric])
  ultimately show ?thesis by blast
qed

section \<open>Properties\<close>

text \<open>The part of the state a UDP datagram from the host touches.\<close>

lemma udp_send_ring:
  assumes "tx_ring s q" and "length q < 64"
    and "get_mac_by_ip (JHTONL HOST_IP) s = Some mac" "length mac = 6"
    and "n \<le> 1458" and "n \<le> length data"
  shows "\<exists>s' ih. udp_send junk data (int n) s = Inr (0, s')
    \<and> tx_ring s' (q @ [eth_frame mac ETH_TYPE_IP (ip_hdr_bytes ih @ udp_hdr_bytes (udp_out_hdr n) @ take n data)])
    \<and> ip_hdr_valid ih IP_PROTO_UDP (JHTONL MY_IP) (JHTONL HOST_IP) (8 + n) \<and> console s' = console s"
proof -
  obtain out junk' where e: "udp_send junk data (int n) s =
      ip_send (ip_result_hdr junk' IP_PROTO_UDP (JHTONL HOST_IP)) out (of_nat (8 + n)) s"
    and out: "length out = 1466" "take (8 + n) out = udp_hdr_bytes (udp_out_hdr n) @ take n data"
    using udp_send_eq [OF assms(5,6)] by blast
  let ?h = "ip_result_hdr junk' IP_PROTO_UDP (JHTONL HOST_IP)"
  have n: "8 + n \<le> 1466" using assms(5) by simp
  have dst: "get_mac_by_ip (ip_destination_address ?h) s = Some mac"
    using assms(3) by (simp add: ip_result_hdr_def)
  from ip_send_ring [OF assms(1,2) dst assms(4) n n [folded out(1)]] show ?thesis
    unfolding e out(2) by (fastforce simp: ip_result_hdr_def)
qed

text \<open>What \<^verbatim>\<open>udp_recv\<close> finds in its local: the datagram, then the stack's old contents.\<close>

definition udp_text :: "(nat \<Rightarrow> byte) \<Rightarrow> byte list \<Rightarrow> byte list" where
  "udp_text junk d = d @ map junk [8 + length d..<1466]"

lemma udp_recv_prefix:
  assumes pkt: "ip_packet_in pkt h (udp_hdr_bytes u @ d)"
  shows "udp_recv junk junk_send pkt s =
    (let n = uint (JNTOHS (udp_length u)) - 8;
         s1 = cprintf (bytes_of ''port: '' @ dec (uint (JNTOHS (udp_destination_port u))) @ bytes_of ''\<newline>'') s
     in bind_res (mem_read_int (udp_text junk d) 0 n) (\<lambda>text.
        bind_res (udp_send junk_send (udp_text junk d) n (cprintf (text @ bytes_of ''\<newline>'') s1)) (\<lambda>(_, s3).
        Inr (0, s3))))"
proof -
  define upkt where "upkt = udp_hdr_bytes u @ udp_text junk d"
  have "drop (8 + length d) (uninit junk 1466) = map junk [8 + length d..<1466]"
    by (simp add: uninit_def drop_map)
  then have c: "ip_copy_data junk pkt (int (length (udp_hdr_bytes u @ d))) = Inr upkt"
    using ip_packet_in_data [OF pkt, of junk] by (simp add: upkt_def udp_text_def)
  have "udp_hdr_of upkt = u" "drop 8 upkt = udp_text junk d" by (simp_all add: upkt_def)
  then show ?thesis
    unfolding udp_recv_def ip_packet_in_hdr [OF pkt] bind_res_simps ip_hdr_roundtrip0 Let_def
      of_nat_numeral ip_packet_in_size [OF pkt] c by simp
qed

lemma udp_recv_len:
  assumes "tx_ring s q" and "length q < 64"
    and "get_mac_by_ip (JHTONL HOST_IP) s = Some mac" "length mac = 6"
    and "ip_packet_in pkt h (udp_hdr_bytes u @ d)" and "unat (JNTOHS (udp_length u)) = 8 + n" and "n \<le> 1458"
  shows "\<exists>s' ih. udp_recv junk junk_send pkt s = Inr (0, s')
    \<and> tx_ring s' (q @ [eth_frame mac ETH_TYPE_IP (ip_hdr_bytes ih @ udp_hdr_bytes (udp_out_hdr n) @ take n (udp_text junk d))])
    \<and> ip_hdr_valid ih IP_PROTO_UDP (JHTONL MY_IP) (JHTONL HOST_IP) (8 + n)
    \<and> console s' = console s @ bytes_of ''port: '' @ dec (uint (JNTOHS (udp_destination_port u))) @
        bytes_of ''\<newline>'' @ take n (udp_text junk d) @ bytes_of ''\<newline>''"
proof -
  let ?data = "udp_text junk d"
  let ?s = "cprintf (take n ?data @ bytes_of ''\<newline>'')
    (cprintf (bytes_of ''port: '' @ dec (uint (JNTOHS (udp_destination_port u))) @ bytes_of ''\<newline>'') s)"
  have len: "length ?data = 1458" using assms(5) by (simp add: ip_packet_in_def udp_text_def)
  have n: "uint (JNTOHS (udp_length u)) - 8 = int n"
    using assms(6) by (metis add_diff_cancel_left' of_nat_add of_nat_numeral uint_nat)
  have rd: "mem_read_int ?data 0 (int n) = Inr (take n ?data)"
    using assms(7) len by (simp add: mem_read_int_def)
  obtain s' ih where send: "udp_send junk_send ?data (int n) ?s = Inr (0, s')"
    "tx_ring s' (q @ [eth_frame mac ETH_TYPE_IP (ip_hdr_bytes ih @ udp_hdr_bytes (udp_out_hdr n) @ take n ?data)])"
    "ip_hdr_valid ih IP_PROTO_UDP (JHTONL MY_IP) (JHTONL HOST_IP) (8 + n)" "console s' = console ?s"
    using udp_send_ring [of ?s q mac n ?data junk_send] assms(1-4,7) len by auto
  have "udp_recv junk junk_send pkt s = Inr (0, s')"
    unfolding udp_recv_prefix [OF assms(5)] Let_def n rd using send(1) by simp
  then show ?thesis using send(2-4) by fastforce
qed

text \<open>
  The UDP echo service: a datagram whose length field agrees with the IP length is
  printed and sent back to the host from port 8081 to port 1234, in one valid IP
  packet with the same text.
\<close>

theorem udp_recv_echoes:
  assumes "tx_ring s q" and "length q < 64"
    and "get_mac_by_ip (JHTONL HOST_IP) s = Some mac" "length mac = 6"
    and "ip_packet_in pkt h (udp_hdr_bytes u @ d)" and "unat (JNTOHS (udp_length u)) = 8 + length d"
  shows "\<exists>s' ih. udp_recv junk junk_send pkt s = Inr (0, s')
    \<and> tx_ring s' (q @ [eth_frame mac ETH_TYPE_IP (ip_hdr_bytes ih @ udp_hdr_bytes (udp_out_hdr (length d)) @ d)])
    \<and> ip_hdr_valid ih IP_PROTO_UDP (JHTONL MY_IP) (JHTONL HOST_IP) (8 + length d)
    \<and> console s' = console s @ bytes_of ''port: '' @ dec (uint (JNTOHS (udp_destination_port u))) @
        bytes_of ''\<newline>'' @ d @ bytes_of ''\<newline>''"
proof -
  have "length d \<le> 1458" using assms(5) by (simp add: ip_packet_in_def)
  from udp_recv_len [OF assms this, of junk junk_send] show ?thesis by (simp add: udp_text_def)
qed

theorem udp_recv_echoes_witness:
  "\<exists>s' ih. udp_recv (\<lambda>_. 0xcc) (\<lambda>_. 0xcc)
      (ip_hdr_bytes (ip_result_hdr (\<lambda>_. 0) 17 7\<lparr>ip_total_length := JHTONS 30\<rparr>) @
       udp_hdr_bytes \<lparr>udp_source_port = 1, udp_destination_port = JHTONS 7, udp_length = JHTONS 10, udp_checksum = 0\<rparr> @ [72, 105] @ [0, 0])
      (boot_knowing (JHTONL HOST_IP) default_mac ()) = Inr (0, s')
    \<and> tx_ring s' [eth_frame default_mac ETH_TYPE_IP (ip_hdr_bytes ih @ udp_hdr_bytes (udp_out_hdr (Suc (Suc 0))) @ [72, 105])]"
proof -
  let ?u = "\<lparr>udp_source_port = 1, udp_destination_port = JHTONS 7, udp_length = JHTONS 10, udp_checksum = 0\<rparr>"
  let ?h = "ip_result_hdr (\<lambda>_. 0) 17 7\<lparr>ip_total_length := JHTONS 30\<rparr>"
  have p: "ip_packet_in (ip_hdr_bytes ?h @ udp_hdr_bytes ?u @ [72, 105] @ [0, 0]) ?h (udp_hdr_bytes ?u @ [72, 105])"
    by (simp add: ip_packet_in_def)
  have mac: "length default_mac = 6" by (simp add: default_mac_def)
  show ?thesis
    using udp_recv_echoes [OF boot_knowing_facts(1) [of _ _ "()"] _ boot_knowing_facts(2) mac p,
        where junk = "\<lambda>_. 0xcc" and junk_send = "\<lambda>_. 0xcc"]
    by auto
qed

text \<open>
  The length field of a received datagram is trusted. If it is larger than the datagram,
  and within the buffer, the reply carries the indeterminate contents of the stack after
  the received bytes; if it is below 8 or beyond the buffer, the loop that prints the
  text reads outside \<^verbatim>\<open>upkt\<close>.
\<close>

theorem udp_recv_trusts_length:
  assumes "tx_ring s q" and "length q < 64"
    and "get_mac_by_ip (JHTONL HOST_IP) s = Some mac" "length mac = 6"
    and "ip_packet_in pkt h (udp_hdr_bytes u @ d)"
  shows "if unat (JNTOHS (udp_length u)) < 8 \<or> 1466 < unat (JNTOHS (udp_length u))
    then udp_recv junk junk_send pkt s = Inl OutOfBounds
    else \<exists>s' ih. udp_recv junk junk_send pkt s = Inr (0, s')
       \<and> tx_ring s' (q @ [eth_frame mac ETH_TYPE_IP (ip_hdr_bytes ih @
            udp_hdr_bytes (udp_out_hdr (unat (JNTOHS (udp_length u)) - 8)) @
            take (unat (JNTOHS (udp_length u)) - 8) (d @ map junk [8 + length d..<1466]))])"
proof (cases "unat (JNTOHS (udp_length u)) < 8 \<or> 1466 < unat (JNTOHS (udp_length u))")
  case True
  have len: "length (udp_text junk d) = 1458" using assms(5) by (simp add: ip_packet_in_def udp_text_def)
  define n where "n = uint (JNTOHS (udp_length u)) - 8"
  have "n < 0 \<or> 1458 < n" using True unfolding n_def uint_nat by linarith
  then have "mem_read_int (udp_text junk d) 0 n = Inl OutOfBounds"
    using len by (auto simp: mem_read_int_def mem_read_def)
  then have "udp_recv junk junk_send pkt s = Inl OutOfBounds"
    unfolding udp_recv_prefix [OF assms(5)] Let_def n_def by simp
  with True show ?thesis by simp
next
  case False
  define n where "n = unat (JNTOHS (udp_length u)) - 8"
  have "unat (JNTOHS (udp_length u)) = 8 + n" "n \<le> 1458" using False unfolding n_def by arith+
  from udp_recv_len [OF assms this, of junk junk_send] False show ?thesis
    unfolding n_def [symmetric] udp_text_def by auto
qed

theorem udp_recv_trusts_length_witness:
  "\<exists>s' ih. udp_recv (\<lambda>_. 0xcc) (\<lambda>_. 0xcc)
      (ip_hdr_bytes (ip_result_hdr (\<lambda>_. 0) 17 7\<lparr>ip_total_length := JHTONS 28\<rparr>) @
       udp_hdr_bytes \<lparr>udp_source_port = 1, udp_destination_port = JHTONS 7, udp_length = JHTONS 11, udp_checksum = 0\<rparr>)
      (boot_knowing (JHTONL HOST_IP) default_mac ()) = Inr (0, s')
    \<and> tx_ring s' [eth_frame default_mac ETH_TYPE_IP (ip_hdr_bytes ih @ udp_hdr_bytes (udp_out_hdr 3) @ [0xcc, 0xcc, 0xcc])]"
proof -
  let ?u = "\<lparr>udp_source_port = 1, udp_destination_port = JHTONS 7, udp_length = JHTONS 11, udp_checksum = 0\<rparr>"
  let ?h = "ip_result_hdr (\<lambda>_. 0) 17 7\<lparr>ip_total_length := JHTONS 28\<rparr>"
  have p: "ip_packet_in (ip_hdr_bytes ?h @ udp_hdr_bytes ?u) ?h (udp_hdr_bytes ?u @ [])"
    by (simp add: ip_packet_in_def)
  have mac: "length default_mac = 6" by (simp add: default_mac_def)
  have "take 3 (map (\<lambda>_. 0xcc) [8..<1466]) = [0xcc, 0xcc, 0xcc :: byte]"
    by (simp add: upt_rec [of 8] upt_rec [of 9] upt_rec [of 10] numeral_3_eq_3)
  then show ?thesis
    using udp_recv_trusts_length [OF boot_knowing_facts(1) [of _ _ "()"] _ boot_knowing_facts(2) mac p,
        where junk = "\<lambda>_. 0xcc" and junk_send = "\<lambda>_. 0xcc"]
    by simp
qed

end
