(* ===== verification/CString.thy ===== *)
theory CString
  imports PrintFmt
begin

text \<open>
  The C string and memory routines (\<^verbatim>\<open>lib/string.c\<close>). A string argument is the list of bytes
  from the pointer to the end of its object; running past the end is the fault
  \<open>OutOfBounds\<close>. \<open>memset\<close> and \<open>memmove\<close> work on one memory, a list indexed by
  address, because they depend on alignment and overlap.
\<close>

section \<open>Strings\<close>

fun strlen :: "byte list \<Rightarrow> nat res" where
  "strlen [] = Inl OutOfBounds"
| "strlen (c # s) = (if c = 0 then Inr 0 else bind_res (strlen s) (\<lambda>n. Inr (Suc n)))"

fun strnlen :: "byte list \<Rightarrow> nat \<Rightarrow> nat res" where
  "strnlen s 0 = Inr 0"
| "strnlen [] (Suc n) = Inl OutOfBounds"
| "strnlen (c # s) (Suc n) = (if c = 0 then Inr 0 else bind_res (strnlen s n) (\<lambda>k. Inr (Suc k)))"

fun strcpy :: "byte list \<Rightarrow> byte list \<Rightarrow> byte list res" where
  "strcpy (d # dst) (c # src) =
     (if c = 0 then Inr (0 # dst) else bind_res (strcpy dst src) (\<lambda>r. Inr (c # r)))"
| "strcpy dst src = Inl OutOfBounds"

definition strcat :: "byte list \<Rightarrow> byte list \<Rightarrow> byte list res" where
  "strcat dst src = bind_res (strlen dst) (\<lambda>len.
     bind_res (strcpy (drop len dst) src) (\<lambda>r. Inr (take len dst @ r)))"

fun strncpy :: "byte list \<Rightarrow> byte list \<Rightarrow> nat \<Rightarrow> byte list res" where
  "strncpy dst src 0 = Inr dst"
| "strncpy (d # dst) (c # src) (Suc n) =
     bind_res (strncpy dst (if c = 0 then c # src else src) n) (\<lambda>r. Inr (c # r))"
| "strncpy dst src (Suc n) = Inl OutOfBounds"

text \<open>The loop of \<open>strlcpy\<close>, entered with the size already decremented.\<close>

fun strlcpy_loop :: "byte list \<Rightarrow> byte list \<Rightarrow> nat \<Rightarrow> (nat \<times> byte list) res" where
  "strlcpy_loop (d # dst) src 0 = Inr (0, 0 # dst)"
| "strlcpy_loop (d # dst) (c # src) (Suc n) =
     (if c = 0 then Inr (0, 0 # dst)
      else bind_res (strlcpy_loop dst src n) (\<lambda>(k, r). Inr (Suc k, c # r)))"
| "strlcpy_loop dst src n = Inl OutOfBounds"

definition strlcpy :: "byte list \<Rightarrow> byte list \<Rightarrow> nat \<Rightarrow> (nat \<times> byte list) res" where
  "strlcpy dst src n = (if n = 0 then Inr (0, dst) else strlcpy_loop dst src (n - 1))"

definition strlcat :: "byte list \<Rightarrow> byte list \<Rightarrow> nat \<Rightarrow> (nat \<times> byte list) res" where
  "strlcat dst src maxlen =
     bind_res (strlen src) (\<lambda>srclen.
     bind_res (strnlen dst maxlen) (\<lambda>dstlen.
     if dstlen = maxlen then Inr (maxlen + srclen, dst)
     else if srclen < maxlen - dstlen
     then bind_res (mem_read src 0 (srclen + 1)) (\<lambda>c. bind_res (mem_write dst dstlen c) (\<lambda>r. Inr (dstlen + srclen, r)))
     else bind_res (mem_read src 0 (maxlen - 1)) (\<lambda>c. bind_res (mem_write dst dstlen c) (\<lambda>r.
          bind_res (mem_write r (dstlen + maxlen - 1) [0]) (\<lambda>r'. Inr (dstlen + srclen, r'))))))"

fun strcmp :: "byte list \<Rightarrow> byte list \<Rightarrow> int res" where
  "strcmp (a # p) (b # q) = (if a \<noteq> 0 \<and> a = b then strcmp p q else Inr (uint a - uint b))"
| "strcmp p q = Inl OutOfBounds"

fun strncmp :: "byte list \<Rightarrow> byte list \<Rightarrow> nat \<Rightarrow> int res" where
  "strncmp p q 0 = Inr 0"
| "strncmp (a # p) (b # q) (Suc n) = (if a \<noteq> 0 \<and> a = b then strncmp p q n else Inr (uint a - uint b))"
| "strncmp p q (Suc n) = Inl OutOfBounds"

text \<open>\<open>strchr\<close> and \<open>strfind\<close> return offsets; \<open>None\<close> is the null pointer.\<close>

fun strchr :: "byte list \<Rightarrow> byte \<Rightarrow> nat option res" where
  "strchr [] c = Inl OutOfBounds"
| "strchr (a # s) c = (if a = 0 then Inr None else if a = c then Inr (Some 0)
     else bind_res (strchr s c) (\<lambda>r. Inr (map_option Suc r)))"

fun strfind :: "byte list \<Rightarrow> byte \<Rightarrow> nat res" where
  "strfind [] c = Inl OutOfBounds"
| "strfind (a # s) c = (if a \<noteq> 0 \<and> a \<noteq> c then bind_res (strfind s c) (\<lambda>n. Inr (Suc n)) else Inr 0)"

fun memcmp :: "byte list \<Rightarrow> byte list \<Rightarrow> nat \<Rightarrow> int res" where
  "memcmp p q 0 = Inr 0"
| "memcmp (a # p) (b # q) (Suc n) = (if a \<noteq> b then Inr (uint a - uint b) else memcmp p q n)"
| "memcmp p q (Suc n) = Inl OutOfBounds"

fun memfind :: "byte list \<Rightarrow> byte \<Rightarrow> nat \<Rightarrow> nat res" where
  "memfind s c 0 = Inr 0"
| "memfind [] c (Suc n) = Inl OutOfBounds"
| "memfind (a # s) c (Suc n) = (if a = c then Inr 0 else bind_res (memfind s c n) (\<lambda>k. Inr (Suc k)))"

section \<open>Memory\<close>

text \<open>A store of the low \<open>w\<close> bytes of a 64 bit register, least significant byte first.\<close>

definition reg_bytes :: "u64 \<Rightarrow> byte list" where
  "reg_bytes k = map (\<lambda>i. ucast (drop_bit (8 * i) k)) [0..<8]"

definition store_reg :: "nat \<Rightarrow> u64 \<Rightarrow> byte list \<Rightarrow> nat \<Rightarrow> byte list res" where
  "store_reg w k mem ptr = mem_write mem ptr (take w (reg_bytes k))"

text \<open>\<^verbatim>\<open>if (c) *(uintN_t *)ptr = k, ptr += N\<close>\<close>

definition store_if :: "bool \<Rightarrow> nat \<Rightarrow> u64 \<Rightarrow> byte list \<times> nat \<Rightarrow> (byte list \<times> nat) res" where
  "store_if c w k mp = (if c then bind_res (store_reg w k (fst mp) (snd mp)) (\<lambda>m. Inr (m, snd mp + w)) else Inr mp)"

fun stosq :: "nat \<Rightarrow> u64 \<Rightarrow> byte list \<times> nat \<Rightarrow> (byte list \<times> nat) res" where
  "stosq 0 k mp = Inr mp"
| "stosq (Suc n) k mp = bind_res (store_if True 8 k mp) (stosq n k)"

fun memset_bytes :: "nat \<Rightarrow> byte \<Rightarrow> byte list \<times> nat \<Rightarrow> (byte list \<times> nat) res" where
  "memset_bytes 0 c mp = Inr mp"
| "memset_bytes (Suc n) c mp = bind_res (mem_write (fst mp) (snd mp) [c]) (\<lambda>m. memset_bytes n c (m, snd mp + 1))"

definition memset :: "byte list \<Rightarrow> nat \<Rightarrow> int \<Rightarrow> nat \<Rightarrow> byte list res" where
  "memset mem v c n =
     (let ni = int n - int ((8 - v mod 8) mod 8) in
      if ni < 0 then bind_res (memset_bytes n (of_int c) (mem, v)) (\<lambda>(m, _). Inr m)
      else let k = 0x101010101010101 * (of_int c AND 0xFF) :: u64; cnt = nat ni in
      bind_res (store_if (odd v) 1 k (mem, v)) (\<lambda>mp1.
      bind_res (store_if (odd (snd mp1 div 2)) 2 k mp1) (\<lambda>mp2.
      bind_res (store_if (odd (snd mp2 div 4)) 4 k mp2) (\<lambda>mp3.
      bind_res (stosq (cnt div 8) k mp3) (\<lambda>mp4.
      let r = (if cnt div 8 \<noteq> 0 then cnt mod 8 else cnt) in
      bind_res (store_if (odd (r div 4)) 4 k mp4) (\<lambda>mp5.
      bind_res (store_if (odd (r div 2)) 2 k mp5) (\<lambda>mp6.
      bind_res (store_if (odd r) 1 k mp6) (\<lambda>(m, _). Inr m))))))))"

text \<open>
  \<^verbatim>\<open>rep movsb\<close>, \<^verbatim>\<open>rep movsq\<close>: \<open>w\<close> bytes per step, upwards from \<open>s\<close>, \<open>d\<close> or, with the
  direction flag set, downwards from the last unit.
\<close>

fun movs_up :: "nat \<Rightarrow> nat \<Rightarrow> nat \<Rightarrow> nat \<Rightarrow> byte list \<Rightarrow> byte list res" where
  "movs_up w d s 0 mem = Inr mem"
| "movs_up w d s (Suc n) mem =
     bind_res (mem_read mem s w) (\<lambda>x. bind_res (mem_write mem d x) (movs_up w (d + w) (s + w) n))"

fun movs_down :: "nat \<Rightarrow> nat \<Rightarrow> nat \<Rightarrow> nat \<Rightarrow> byte list \<Rightarrow> byte list res" where
  "movs_down w d s 0 mem = Inr mem"
| "movs_down w d s (Suc n) mem =
     bind_res (mem_read mem (s - w) w) (\<lambda>x. bind_res (mem_write mem (d - w) x) (movs_down w (d - w) (s - w) n))"

definition memmove :: "byte list \<Rightarrow> nat \<Rightarrow> nat \<Rightarrow> nat \<Rightarrow> byte list res" where
  "memmove mem dst src n =
     (if src < dst \<and> src + n > dst
      then let s = src + n; d = dst + n in
           if s mod 8 = 0 \<and> d mod 8 = 0 \<and> n mod 8 = 0 then movs_down 8 d s (n div 8) mem
           else movs_down 1 d s n mem
      else if src mod 8 = 0 \<and> dst mod 8 = 0 \<and> n mod 8 = 0 then movs_up 8 dst src (n div 8) mem
      else movs_up 1 dst src n mem)"

section \<open>Numbers\<close>

text \<open>
  \<open>strtol\<close>: the digit classification compares signed differences, so a character below the
  class's first one also falls into it; the subtraction then wraps in 8 bits.
\<close>

definition strtol_dig :: "byte \<Rightarrow> byte option" where
  "strtol_dig c = (if uint c - 48 < 10 then Some (c - 48)
     else if uint c - 97 < 27 then Some (c - 87)
     else if uint c - 65 < 27 then Some (c - 55)
     else None)"

fun strtol_digits :: "byte list \<Rightarrow> nat \<Rightarrow> int \<Rightarrow> u64 \<Rightarrow> (u64 \<times> nat) res" where
  "strtol_digits [] pos base v = Inl OutOfBounds"
| "strtol_digits (c # s) pos base v =
     (case strtol_dig c of
        None \<Rightarrow> Inr (v, Suc pos)
      | Some dig \<Rightarrow> if uint dig \<ge> base then Inr (v, Suc pos)
                    else strtol_digits s (Suc pos) base (v * of_int base + ucast dig))"

fun skip_blanks :: "byte list \<Rightarrow> nat \<Rightarrow> (byte list \<times> nat) res" where
  "skip_blanks [] pos = Inl OutOfBounds"
| "skip_blanks (c # s) pos = (if c = 32 \<or> c = 9 then skip_blanks s (Suc pos) else Inr (c # s, pos))"

definition strtol :: "byte list \<Rightarrow> int \<Rightarrow> (u64 \<times> nat) res" where
  "strtol str base =
     bind_res (skip_blanks str 0) (\<lambda>(s, pos).
     let neg = (hd s = 45);
         (s1, pos1) = (if hd s = 43 \<or> hd s = 45 then (tl s, Suc pos) else (s, pos))
     in bind_res
          (if base = 0 \<or> base = 16
           then bind_res (mem_read s1 0 1) (\<lambda>c0.
                bind_res (if c0 = [48] then mem_read s1 1 1 else Inr []) (\<lambda>c1.
                if c0 = [48] \<and> c1 = [120] then Inr (16, drop 2 s1, pos1 + 2)
                else if base = 0 \<and> c0 = [48] then Inr (8, tl s1, Suc pos1)
                else if base = 0 then Inr (10, s1, pos1)
                else Inr (base, s1, pos1)))
           else Inr (base, s1, pos1)) (\<lambda>(base', s2, pos2).
        bind_res (strtol_digits s2 pos2 base' 0) (\<lambda>(v, endp).
        Inr (if neg then - v else v, endp))))"

section \<open>Moving memory\<close>

lemma movs_up_correct:
  "s + w * n \<le> length mem \<Longrightarrow> d + w * n \<le> length mem \<Longrightarrow> d \<le> s \<or> s + w * n \<le> d \<Longrightarrow>
   movs_up w d s n mem = Inr (blit mem d (take (w * n) (drop s mem)))"
proof (induction n arbitrary: d s mem)
  case (Suc n)
  let ?x = "take w (drop s mem)"
  let ?m = "blit mem d ?x" and ?y = "take (w * n) (drop (s + w) mem)"
  have b: "s + w + w * n \<le> length mem" "d + w + w * n \<le> length mem" using Suc.prems by simp_all
  have x: "length ?x = w" "length ?y = w * n" using b by simp_all
  have "take (w * n) (drop (s + w) ?m) = ?y"
    using Suc.prems b x by (intro read_blit_apart) auto
  moreover have "movs_up w (d + w) (s + w) n ?m = Inr (blit ?m (d + w) (take (w * n) (drop (s + w) ?m)))"
    using Suc.prems b x by (intro Suc.IH) auto
  ultimately have "movs_up w d s (Suc n) mem = Inr (blit ?m (d + w) ?y)" using b by simp
  also have "blit ?m (d + w) ?y = blit mem d (?x @ ?y)"
    using blit_append [of d ?x ?y mem] b x by simp
  also have "?x @ ?y = take (w * Suc n) (drop s mem)" by (simp add: take_add add.commute)
  finally show ?case .
qed simp

lemma movs_down_correct:
  "w * n \<le> s \<Longrightarrow> s \<le> d \<Longrightarrow> d \<le> length mem \<Longrightarrow>
   movs_down w d s n mem = Inr (blit mem (d - w * n) (take (w * n) (drop (s - w * n) mem)))"
proof (induction n arbitrary: d s mem)
  case (Suc n)
  let ?x = "take w (drop (s - w) mem)"
  let ?m = "blit mem (d - w) ?x" and ?y = "take (w * n) (drop (s - w - w * n) mem)"
  have b: "w + w * n \<le> s" using Suc.prems by simp
  have x: "length ?x = w" "length ?y = w * n" using b Suc.prems by simp_all
  have "take (w * n) (drop (s - w - w * n) ?m) = ?y"
    using Suc.prems b x by (intro read_blit_apart) auto
  moreover have "movs_down w (d - w) (s - w) n ?m =
      Inr (blit ?m (d - w - w * n) (take (w * n) (drop (s - w - w * n) ?m)))"
    using Suc.prems b x by (intro Suc.IH) auto
  ultimately have "movs_down w d s (Suc n) mem = Inr (blit ?m (d - w - w * n) ?y)" using b Suc.prems by simp
  also have "blit ?m (d - w - w * n) ?y = blit mem (d - w - w * n) (?y @ ?x)"
    using blit_prepend [of "d - w - w * n" ?y ?x mem] b x Suc.prems by simp
  also have "?y @ ?x = take (w * Suc n) (drop (s - w * Suc n) mem)"
    using take_add [of "w * n" w "drop (s - w - w * n) mem"] b by (simp add: add.commute)
  finally show ?case using b by (simp add: add.commute)
qed simp

lemma memmove_eq:
  assumes "src + n \<le> length mem" and "dst + n \<le> length mem"
  shows "memmove mem dst src n = Inr (blit mem dst (take n (drop src mem)))"
proof -
  have q: "8 * (n div 8) = n" if "n mod 8 = 0" using that by auto
  show ?thesis
    using assms movs_up_correct [of src 8 "n div 8" mem dst] movs_up_correct [of src 1 n mem dst]
      movs_down_correct [of 8 "n div 8" "src + n" "dst + n" mem] movs_down_correct [of 1 n "src + n" "dst + n" mem] q
    by (auto simp: memmove_def Let_def not_less)
qed

section \<open>Filling memory\<close>

lemma byte_of_splat: "x < p \<Longrightarrow> b < 256 \<Longrightarrow> (x + p * (b + 256 * h)) div p mod 256 = b" for x :: nat
  by simp

lemma splat_byte:
  fixes b i :: nat
  assumes "b < 256" "i < 8"
  shows "72340172838076673 * b div 2 ^ (8 * i) mod 256 = b"
proof -
  have "0 = i \<or> 1 = i \<or> 2 = i \<or> 3 = i \<or> 4 = i \<or> 5 = i \<or> 6 = i \<or> 7 = i" using assms(2) by arith
  moreover have "0 = i \<Longrightarrow> ?thesis" using byte_of_splat [of "0 * b" "1" b "282578800148737 * b"] assms by (auto simp: algebra_simps)
  moreover have "1 = i \<Longrightarrow> ?thesis" using byte_of_splat [of "1 * b" "256" b "1103823438081 * b"] assms by (auto simp: algebra_simps)
  moreover have "2 = i \<Longrightarrow> ?thesis" using byte_of_splat [of "257 * b" "65536" b "4311810305 * b"] assms by (auto simp: algebra_simps)
  moreover have "3 = i \<Longrightarrow> ?thesis" using byte_of_splat [of "65793 * b" "16777216" b "16843009 * b"] assms by (auto simp: algebra_simps)
  moreover have "4 = i \<Longrightarrow> ?thesis" using byte_of_splat [of "16843009 * b" "4294967296" b "65793 * b"] assms by (auto simp: algebra_simps)
  moreover have "5 = i \<Longrightarrow> ?thesis" using byte_of_splat [of "4311810305 * b" "1099511627776" b "257 * b"] assms by (auto simp: algebra_simps)
  moreover have "6 = i \<Longrightarrow> ?thesis" using byte_of_splat [of "1103823438081 * b" "281474976710656" b "1 * b"] assms by (auto simp: algebra_simps)
  moreover have "7 = i \<Longrightarrow> ?thesis" using byte_of_splat [of "282578800148737 * b" "72057594037927936" b "0 * b"] assms by (auto simp: algebra_simps)
  ultimately show ?thesis by blast
qed

definition splat :: "byte \<Rightarrow> u64" where
  "splat b = 0x101010101010101 * ucast b"

lemma unat_splat: "unat (splat b) = 72340172838076673 * unat b"
proof -
  have "72340172838076673 * unat b < 2 ^ 64" using unat_byte_le [of b] by simp
  then have "unat (of_nat (72340172838076673 * unat b) :: u64) = 72340172838076673 * unat b"
    by (simp only: unat_of_nat) simp
  moreover have "splat b = of_nat (72340172838076673 * unat b)" by (simp add: splat_def)
  ultimately show ?thesis by simp
qed

lemma reg_bytes_splat: "reg_bytes (splat b) = replicate 8 b"
proof -
  have "ucast (drop_bit (8 * i) (splat b)) = b" if "i < 8" for i
  proof -
    have "unat (ucast (drop_bit (8 * i) (splat b)) :: byte) = unat (splat b) div 2 ^ (8 * i) mod 256"
      using unsigned_less [of "splat b", where 'a = nat]
      by (simp only: unsigned_ucast_eq unsigned_drop_bit_eq) (simp add: drop_bit_eq_div [of _ "_ :: nat"] take_bit_eq_mod)
    then have "unat (ucast (drop_bit (8 * i) (splat b)) :: byte) = unat b"
      using splat_byte [of "unat b" i] that by (simp add: unat_splat)
    then show ?thesis by (rule word_unat_eq_iff [THEN iffD2])
  qed
  then show ?thesis by (simp add: reg_bytes_def map_replicate_trivial list_eq_iff_nth_eq del: upt_Suc)
qed

lemma mask_byte_int: "(of_int c AND 0xFF :: u64) = ucast (of_int c :: byte)"
proof -
  have "(0xFF :: u64) = mask 8" by (simp add: mask_eq_exp_minus_1)
  then have "(of_int c AND 0xFF :: u64) = take_bit 8 (of_int c)" by (simp add: take_bit_eq_mask)
  also have "\<dots> = ucast (of_int c :: byte)" by (rule bit_word_eqI) (auto simp: bit_simps)
  finally show ?thesis .
qed

text \<open>Progress of the fill: \<open>j\<close> bytes written.\<close>

definition filled :: "byte list \<Rightarrow> nat \<Rightarrow> byte \<Rightarrow> nat \<Rightarrow> byte list \<times> nat" where
  "filled mem v b j = (blit mem v (replicate j b), v + j)"

lemma filled_step:
  "v + j + w \<le> length mem \<Longrightarrow> blit (blit mem v (replicate j b)) (v + j) (replicate w b) = blit mem v (replicate (j + w) b)"
  using blit_append [of v "replicate j b" "replicate w b" mem] by (simp add: replicate_add)

lemma store_if_filled:
  "w \<le> 8 \<Longrightarrow> j' = (if c then j + w else j) \<Longrightarrow> v + j' \<le> length mem \<Longrightarrow>
   store_if c w (splat b) (filled mem v b j) = Inr (filled mem v b j')"
  by (auto simp: store_if_def store_reg_def filled_def reg_bytes_splat filled_step min_def simp del: replicate.simps)

lemma stosq_filled:
  "v + j + 8 * n \<le> length mem \<Longrightarrow> stosq n (splat b) (filled mem v b j) = Inr (filled mem v b (j + 8 * n))"
  by (induction n arbitrary: j) (simp_all add: store_if_filled [where j' = "_ + 8"] ac_simps)

lemma memset_bytes_filled:
  "v + j + n \<le> length mem \<Longrightarrow> memset_bytes n b (filled mem v b j) = Inr (filled mem v b (j + n))"
proof (induction n arbitrary: j)
  case (Suc n)
  have "blit (blit mem v (replicate j b)) (v + j) [b] = blit mem v (replicate (Suc j) b)"
    using filled_step [of v j 1 mem b] Suc.prems by simp
  with Suc.IH [of "Suc j"] Suc.prems show ?case by (simp add: filled_def)
qed simp

lemma filled_0: "(mem, v) = filled mem v b 0"
  by (simp add: filled_def)

text \<open>The three alignment stores advance the pointer to the next multiple of 8.\<close>

lemma align8:
  fixes v :: nat
  defines "a \<equiv> (if odd v then 1 else 0 :: nat)"
  defines "b \<equiv> (if odd ((v + a) div 2) then a + 2 else a)"
  shows "(if odd ((v + b) div 4) then b + 4 else b) = (8 - v mod 8) mod 8"
proof -
  define q where "q = v div 8"
  define r where "r = v mod 8"
  have v: "v = 8 * q + r" "r < 8" by (simp_all add: q_def r_def)
  then have "r = 0 \<or> r = 1 \<or> r = 2 \<or> r = 3 \<or> r = 4 \<or> r = 5 \<or> r = 6 \<or> r = 7" by arith
  then show ?thesis unfolding r_def [symmetric] a_def b_def unfolding v(1) by (elim disjE) simp_all
qed

lemma tail8: "r < 8 \<Longrightarrow> (if odd (r div 4) then 4 else 0) + (if odd (r div 2) then 2 else 0) + (if odd r then 1 else 0) = (r :: nat)"
proof -
  assume "r < 8"
  then have "r = 0 \<or> r = 1 \<or> r = 2 \<or> r = 3 \<or> r = 4 \<or> r = 5 \<or> r = 6 \<or> r = 7" by arith
  then show ?thesis by (elim disjE) simp_all
qed

lemma memset_eq:
  assumes "v + n \<le> length mem"
  shows "memset mem v c n = Inr (blit mem v (replicate n (of_int c)))"
proof -
  define b :: byte where "b = of_int c"
  define al where "al = (8 - v mod 8) mod 8"
  define r where "r = (n - al) mod 8"
  note f0 = filled_0 [of mem v b]
  show ?thesis
  proof (cases "n < al")
    case True
    then have "memset mem v c n = bind_res (memset_bytes n b (filled mem v b 0)) (\<lambda>(m, _). Inr m)"
      by (simp add: memset_def Let_def al_def b_def f0)
    then show ?thesis using memset_bytes_filled [of v 0 n mem b] assms by (simp add: filled_def b_def)
  next
    case False
    define a where "a = (if odd v then 1 else 0 :: nat)"
    define a2 where "a2 = (if odd ((v + a) div 2) then a + 2 else a)"
    have al: "(if odd ((v + a2) div 4) then a2 + 4 else a2) = al"
      unfolding a_def a2_def al_def by (rule align8)
    define t4 where "t4 = (if odd (r div 4) then 4 else 0 :: nat)"
    define t2 where "t2 = (if odd (r div 2) then 2 else 0 :: nat)"
    define t1 where "t1 = (if odd r then 1 else 0 :: nat)"
    have r8: "r < 8" by (simp add: r_def)
    have t: "t4 + t2 + t1 = r" unfolding t4_def t2_def t1_def using r8 by (rule tail8)
    have nal: "nat (int n - int al) = n - al" "\<not> int n - int al < 0" using False by auto
    have rr: "(if (n - al) div 8 \<noteq> 0 then (n - al) mod 8 else n - al) = r"
      by (simp add: r_def)
    have k: "0x101010101010101 * (of_int c AND 0xFF :: u64) = splat b"
      by (simp only: mask_byte_int splat_def b_def)
    have len: "al + 8 * ((n - al) div 8) + r = n" using False by (simp add: r_def)
    have le: "a \<le> a2" "a2 \<le> al" "al \<le> n" using al False by (auto simp: a2_def split: if_splits)
    have s1: "store_if (odd v) 1 (splat b) (mem, v) = Inr (filled mem v b a)"
      unfolding f0 using assms le by (intro store_if_filled) (auto simp: a_def)
    have s2: "store_if (odd ((v + a) div 2)) 2 (splat b) (filled mem v b a) = Inr (filled mem v b a2)"
      using assms le by (intro store_if_filled) (auto simp: a2_def)
    have s3: "store_if (odd ((v + a2) div 4)) 4 (splat b) (filled mem v b a2) = Inr (filled mem v b al)"
      using assms le by (intro store_if_filled al [symmetric]) auto
    have s4: "stosq ((n - al) div 8) (splat b) (filled mem v b al) = Inr (filled mem v b (n - r))"
    proof -
      have "al + 8 * ((n - al) div 8) = n - r" using len by linarith
      then show ?thesis using stosq_filled [of v al "(n - al) div 8" mem b] assms len by simp
    qed
    have s5: "store_if (odd (r div 4)) 4 (splat b) (filled mem v b (n - r)) = Inr (filled mem v b (n - r + t4))"
      using assms t len by (intro store_if_filled) (auto simp: t4_def)
    have s6: "store_if (odd (r div 2)) 2 (splat b) (filled mem v b (n - r + t4)) = Inr (filled mem v b (n - r + t4 + t2))"
      using assms t len by (intro store_if_filled) (auto simp: t2_def)
    have s7: "store_if (odd r) 1 (splat b) (filled mem v b (n - r + t4 + t2)) = Inr (filled mem v b n)"
      using assms t len by (intro store_if_filled) (auto simp: t1_def)
    have snd: "snd (filled mem v b j) = v + j" for j by (simp add: filled_def)
    show ?thesis
      unfolding memset_def Let_def al_def [symmetric] nal(1) rr k
      using nal(2) by (simp add: s1 s2 s3 s4 s5 s6 s7 snd del: One_nat_def) (simp add: filled_def b_def)
  qed
qed

section \<open>Terminated strings\<close>

text \<open>\<open>t\<close> is the text of a string object: no zero byte inside it.\<close>

definition ctext :: "byte list \<Rightarrow> bool" where
  "ctext t \<longleftrightarrow> 0 \<notin> set t"

lemma ctext_simps [simp]: "ctext []" "ctext (c # t) \<longleftrightarrow> c \<noteq> 0 \<and> ctext t" "ctext (t @ u) \<longleftrightarrow> ctext t \<and> ctext u"
  by (auto simp: ctext_def)

lemma strlen_text: "ctext t \<Longrightarrow> strlen (t @ 0 # r) = Inr (length t)"
  by (induction t) auto

lemma strnlen_text: "ctext t \<Longrightarrow> strnlen (t @ 0 # r) n = Inr (min n (length t))"
  by (induction "t @ 0 # r" n arbitrary: t rule: strnlen.induct) (auto split: list.splits simp: Cons_eq_append_conv)

lemma strcpy_text: "ctext t \<Longrightarrow> length t < length dst \<Longrightarrow> strcpy dst (t @ 0 # r) = Inr (t @ 0 # drop (Suc (length t)) dst)"
proof (induction t arbitrary: dst)
  case Nil
  then show ?case by (cases dst) auto
next
  case (Cons c t)
  then show ?case by (cases dst) auto
qed

lemma strcpy_short: "ctext t \<Longrightarrow> length dst \<le> length t \<Longrightarrow> strcpy dst (t @ 0 # r) = Inl OutOfBounds"
proof (induction t arbitrary: dst)
  case (Cons c t)
  then show ?case by (cases dst) auto
qed simp

lemma strncmp_prefix:
  "ctext lit \<Longrightarrow> strncmp p (lit @ r) (length lit) = Inr 0 \<longleftrightarrow> (\<exists>q. p = lit @ q)"
proof (induction lit arbitrary: p)
  case (Cons c lit)
  have "uint a = uint b \<longleftrightarrow> a = b" for a b :: byte by (simp add: word_uint_eq_iff)
  with Cons show ?case by (cases p) auto
qed simp

lemma strncmp_total: "length lit \<le> length p \<Longrightarrow> \<exists>v. strncmp p (lit @ r) (length lit) = Inr v"
proof (induction lit arbitrary: p)
  case (Cons c lit)
  then show ?case by (cases p) auto
qed simp

lemma strlcpy_loop_text:
  "ctext t \<Longrightarrow> n < length dst \<Longrightarrow>
   strlcpy_loop dst (t @ 0 # r) n = Inr (min n (length t), take n t @ 0 # drop (Suc (min n (length t))) dst)"
proof (induction n arbitrary: t dst)
  case 0
  then show ?case by (cases dst) auto
next
  case (Suc n)
  then obtain d ds where "dst = d # ds" by (cases dst) auto
  with Suc show ?case by (cases t) auto
qed

lemma strlcpy_text:
  assumes "ctext t" and "0 < n" and "n \<le> length dst"
  shows "strlcpy dst (t @ 0 # r) n =
    Inr (min (n - 1) (length t), take (n - 1) t @ 0 # drop (Suc (min (n - 1) (length t))) dst)"
  using assms strlcpy_loop_text [of t "n - 1" dst r] by (simp add: strlcpy_def)

section \<open>Reading numbers back\<close>

lemma strtol_dig_digit: "d < 16 \<Longrightarrow> strtol_dig (digit_char False d) = Some (of_nat d)"
proof -
  have "\<forall>d\<in>set [0..<16]. strtol_dig (digit_char False d) = Some (of_nat d)"
    by (simp add: upt_rec strtol_dig_def digit_char_def bytes_of_def byte_of_char_def)
  then show "d < 16 \<Longrightarrow> ?thesis" by simp
qed

lemma strtol_digits_map:
  assumes "2 \<le> base" "base \<le> 16" "\<forall>x\<in>set xs. x < base"
  shows "strtol_digits (map (digit_char False) xs @ 0 # r) pos (int base) v =
    Inr (foldl (\<lambda>a d. a * of_nat base + of_nat d) v xs, pos + length xs + 1)"
  using assms(3)
proof (induction xs arbitrary: pos v)
  case Nil
  then show ?case using assms by (simp add: strtol_dig_def)
next
  case (Cons x xs)
  then have x: "x < 16" "x < base" using assms(2) by auto
  then have "uint (of_nat x :: byte) = int x"
    by (simp add: unsigned_of_nat take_bit_eq_mod)
  moreover have "ucast (of_nat x :: byte) = (of_nat x :: u64)"
    using x by (simp add: unsigned_of_nat take_bit_eq_mod)
  ultimately show ?case using Cons x by (simp add: strtol_dig_digit)
qed

lemma print_num_digits:
  "2 \<le> base \<Longrightarrow> base \<le> 16 \<Longrightarrow> \<exists>xs. print_num n base w 48 cap = map (digit_char cap) xs \<and> (\<forall>x\<in>set xs. x < base)
     \<and> foldl (\<lambda>a d. a * base + d) 0 xs = n"
proof (induction n base w "48 :: byte" cap rule: print_num.induct)
  case (1 n base w cap)
  have z: "(48 :: byte) = digit_char cap 0"
    by (simp add: digit_char_def bytes_of_def byte_of_char_def)
  show ?case
  proof (cases "base \<le> n")
    case True
    with 1 obtain xs where "print_num (n div base) base (w - 1) 48 cap = map (digit_char cap) xs"
      "\<forall>x\<in>set xs. x < base" "foldl (\<lambda>a d. a * base + d) 0 xs = n div base" by auto
    with True 1(2) show ?thesis
      by (subst print_num.simps) (auto intro!: exI [of _ "xs @ [n mod base]"])
  next
    case False
    have "foldl (\<lambda>a d. a * base + d) 0 (replicate k 0) = 0" for k by (induction k) auto
    with False 1(2) show ?thesis
      by (subst print_num.simps)
        (auto intro!: exI [of _ "replicate (nat (w - 1)) 0 @ [n mod base]"] simp: z map_replicate_const)
  qed
qed

lemma foldl_of_nat: "foldl (\<lambda>a d. a * of_nat b + of_nat d) (of_nat v) xs = of_nat (foldl (\<lambda>a d. a * b + d) v xs)"
proof (induction xs arbitrary: v)
  case (Cons x xs)
  show ?case using Cons.IH [of "v * b + x"] by simp
qed simp

lemma strtol_digits_print_num:
  assumes "2 \<le> base" "base \<le> 16"
  shows "strtol_digits (print_num n base w 48 False @ 0 # r) pos (int base) 0 =
    Inr (of_nat n, pos + length (print_num n base w 48 False) + 1)"
proof -
  obtain xs where xs: "print_num n base w 48 False = map (digit_char False) xs" "\<forall>x\<in>set xs. x < base"
    "foldl (\<lambda>a d. a * base + d) 0 xs = n" using print_num_digits [OF assms] by blast
  then show ?thesis
    using strtol_digits_map [OF assms xs(2), of r pos 0] foldl_of_nat [of base 0 xs] by simp
qed

lemma digit_char_not_blank: "x < 16 \<Longrightarrow> digit_char False x \<notin> {9, 32, 43, 45}"
proof -
  have "\<forall>d\<in>set [0..<16]. digit_char False d \<notin> {9, 32, 43, 45}"
    by (simp add: upt_rec digit_char_def bytes_of_def byte_of_char_def)
  then show "x < 16 \<Longrightarrow> ?thesis" by simp
qed

lemma print_num_head:
  assumes "2 \<le> base" "base \<le> 16"
  obtains c cs where "print_num n base w 48 False = c # cs" "c \<notin> {9, 32, 43, 45}"
proof -
  obtain xs where xs: "print_num n base w 48 False = map (digit_char False) xs" "\<forall>x\<in>set xs. x < base"
    using print_num_digits [OF assms, of n w False] by blast
  moreover from this(1) obtain y ys where "xs = y # ys"
    using print_num_nonempty [of n base w 48 False] by (cases xs) auto
  ultimately show thesis using that digit_char_not_blank [of y] assms(2) by auto
qed

section \<open>Properties\<close>

text \<open>
  C27: \<^verbatim>\<open>memmove\<close> copies as if through a temporary: for every pair of ranges inside the memory,
  overlapping or not, aligned or not, the destination receives the old contents of
  the source and nothing else changes. Both directions and both unit sizes of the
  string instructions are covered.
\<close>

theorem memmove_correct:
  assumes "src + n \<le> length mem" and "dst + n \<le> length mem"
  shows "memmove mem dst src n = Inr (blit mem dst (take n (drop src mem)))"
  using assms by (rule memmove_eq)

theorem memmove_correct_witness:
  "memmove [1, 2, 3, 4, 5, 6] 1 0 4 = Inr (blit [1, 2, 3, 4, 5, 6] 1 [1, 2, 3, 4 :: byte])"
  using memmove_correct [of 0 4 "[1, 2, 3, 4, 5, 6]" 1] by (simp add: numeral_eq_Suc)

text \<open>
  \<^verbatim>\<open>memset\<close> equals the byte loop: whatever the alignment of the pointer and the
  length, exactly the \<open>n\<close> bytes from \<open>v\<close> are set to the low byte of \<open>c\<close>.
\<close>

theorem memset_correct:
  assumes "v + n \<le> length mem"
  shows "memset mem v c n = Inr (blit mem v (replicate n (of_int c)))"
  using assms by (rule memset_eq)

theorem memset_correct_witness:
  "memset (replicate 40 7) 3 0x55 30 = Inr (blit (replicate 40 7) 3 (replicate 30 0x55))"
  using memset_correct [of 3 30 "replicate 40 7" "0x55"] by simp

text \<open>
  C33: Round trip of numbers: \<^verbatim>\<open>strtol\<close> reads back what \<^verbatim>\<open>print_num\<close> prints, in every base from 2
  to 15, with or without a minus sign and whatever the zero padding, modulo 2 to
  the 64. The end pointer is left one byte after the character that ended the number.
\<close>

theorem strtol_print_num:
  assumes "2 \<le> base" "base < 16"
  shows "strtol ((if neg then [45] else []) @ print_num n base w 48 False @ 0 # r) (int base) =
    Inr (if neg then - of_nat n else of_nat n,
         (if neg then 1 else 0) + length (print_num n base w 48 False) + 1)"
proof -
  obtain c cs where c: "print_num n base w 48 False = c # cs" "c \<notin> {9, 32, 43, 45}"
    using assms by (elim print_num_head [of base n w]) simp_all
  have d: "strtol_digits ((c # cs) @ 0 # r) pos (int base) 0 = Inr (of_nat n, pos + length (c # cs) + 1)" for pos
    using strtol_digits_print_num [of base n w r pos] assms unfolding c by simp
  show ?thesis unfolding c(1) using c(2) assms d [simplified]
    by (simp add: strtol_def Let_def)
qed

theorem strtol_print_num_witness:
  "strtol ([45] @ print_num 1750 10 6 48 False @ 0 # []) (int 10) =
    Inr (- of_nat 1750, 1 + length (print_num 1750 10 6 48 False) + 1)"
  using strtol_print_num [of 10 True 1750 6 "[]"] by simp

text \<open>
  \<^verbatim>\<open>strlcat\<close> writes outside its buffer: when the appended text does not fit and the buffer
  already holds some text, the copy and the final zero byte are placed as if the
  buffer began at the end of that text, beyond the given size.
\<close>

theorem strlcat_overflow:
  assumes "ctext t" "ctext u" and "dst = t @ 0 # junk" and "t \<noteq> []"
    and "length dst - length t \<le> length u"
  shows "strlcat dst (u @ 0 # r) (length dst) = Inl OutOfBounds"
proof -
  have "bind_res (mem_write dst (length t) c) (\<lambda>x. bind_res (mem_write x (length t + length dst - 1) [0]) h) = Inl OutOfBounds"
    for c and h :: "byte list \<Rightarrow> (nat \<times> byte list) res"
    using assms(3,4) by (cases t) (simp_all add: mem_write_def)
  then have "bind_res (mem_read (u @ 0 # r) 0 (length dst - 1)) (\<lambda>c. bind_res (mem_write dst (length t) c)
     (\<lambda>x. bind_res (mem_write x (length t + length dst - 1) [0]) h)) = Inl OutOfBounds"
    for h :: "byte list \<Rightarrow> (nat \<times> byte list) res" by (simp only: mem_read_def) simp
  then show ?thesis
    using assms by (simp add: strlcat_def strlen_text strnlen_text)
qed

theorem strlcat_overflow_witness:
  "strlcat [65, 0, 0, 0] ([66, 67, 68, 69] @ 0 # []) (length [65, 0, 0, 0 :: byte]) = Inl OutOfBounds"
  using strlcat_overflow [of "[65]" "[66, 67, 68, 69]" "[65, 0, 0, 0]" "[0, 0]" "[]"] by simp

text \<open>
  \<^verbatim>\<open>strtol\<close> misreads upper case letters: the signed comparison with \<^verbatim>\<open>'a'\<close> is true for
  every character below it, so the branch for \<^verbatim>\<open>'A'\<close> is never taken. The letters A to V
  end the number, and W to Z and the five characters that follow them count as the
  digits 0 to 9.
\<close>

theorem strtol_upper_case:
  assumes "58 \<le> unat c" "unat c \<le> 96" and "base \<le> 36"
  shows "strtol_digits (c # s) pos base v =
    (if 87 \<le> unat c \<and> int (unat c) - 87 < base
     then strtol_digits s (Suc pos) base (v * of_int base + of_nat (unat c - 87)) else Inr (v, Suc pos))"
proof -
  have "58 \<le> uint c" "uint c \<le> 96" using assms(1,2) uint_nat [of c] by linarith+
  then have dig: "strtol_dig c = Some (c - 87)" by (simp add: strtol_dig_def)
  show ?thesis
  proof (cases "87 \<le> unat c")
    case True
    then have u: "unat (c - 87) = unat c - 87" by (subst unat_sub) (simp_all add: word_le_nat_alt)
    have "(of_nat (unat (c - 87)) :: u64) = ucast (c - 87)" by (rule of_nat_unat)
    moreover have "uint (c - 87) = int (unat c) - 87"
      using True u by (metis uint_nat of_nat_diff of_nat_numeral)
    ultimately show ?thesis using True dig u by simp
  next
    case False
    have "\<forall>k\<in>set [58..<87]. 36 \<le> uint (of_nat k - 87 :: byte)" by (simp add: upt_rec unsigned_minus_1_eq_mask mask_eq_exp_minus_1)
    moreover have "unat c \<in> set [58..<87]" using False assms(1) unfolding set_upt atLeastLessThan_iff by linarith
    ultimately have "36 \<le> uint (of_nat (unat c) - 87 :: byte)" by blast
    then have "36 \<le> uint (c - 87)" by simp
    then show ?thesis using False dig assms(3) by simp
  qed
qed

theorem strtol_upper_case_witness:
  "strtol_digits [70, 70, 0] 0 16 5 = Inr (5, 1) \<and> strtol_digits [88, 0] 0 16 1 = Inr (17, 2)"
  using strtol_upper_case [of 70 16 "[70, 0]" 0 5] strtol_upper_case [of 88 16 "[0]" 0 1]
  by (simp add: strtol_dig_def)

end
