(* ===== verification/Http.thy ===== *)
theory Http
  imports CString
begin

text \<open>
  The HTTP server (\<^verbatim>\<open>kern/http.h\<close>, \<^verbatim>\<open>kern/http.c\<close>): \<open>http_parse\<close> scans the request in the
  channel's buffer and \<open>http_reply\<close> writes the answer into the outgoing packet. Pointers into
  the buffer are offsets; the unset pointers of \<^verbatim>\<open>struct HTTP_hdr\<close> are \<open>None\<close>.
\<close>

abbreviation (input) HTTP_METHOD :: "byte list" where "HTTP_METHOD \<equiv> bytes_of ''GET''"
abbreviation (input) HTTP_VER :: "byte list" where "HTTP_VER \<equiv> bytes_of ''HTTP/1.1''"
abbreviation (input) HTTP_VER_COMPATIBLE :: "byte list" where "HTTP_VER_COMPATIBLE \<equiv> bytes_of ''HTTP/1.0''"

record str_part =
  part_start :: nat
  part_length :: nat

record HTTP_hdr =
  http_method :: "str_part option"
  http_URI :: "str_part option"
  http_version :: "str_part option"

definition OK_page :: "byte list" where
  "OK_page = bytes_of ''<!DOCTYPE html>\<newline><html><body><h1>Hello from JOS!</h1></body></html>''"

section \<open>Replies\<close>

definition messages :: "int \<Rightarrow> byte list option" where
  "messages code = (if code = 200 then Some (bytes_of ''200 OK'')
     else if code = 400 then Some (bytes_of ''400 Bad Request'')
     else if code = 404 then Some (bytes_of ''404 Not Found'')
     else if code = 505 then Some (bytes_of ''505 HTTP Version Not Supported'')
     else if code = 520 then Some (bytes_of ''520 Unknown Error'') else None)"

text \<open>
  The decimal text of the page length, filled from the last of ten places; \<open>k\<close> is the
  number of places still free, the value of \<^verbatim>\<open>page_len_text_start + 1\<close>.
\<close>

fun page_len_loop :: "nat \<Rightarrow> nat \<Rightarrow> byte list \<Rightarrow> nat \<times> byte list" where
  "page_len_loop 0 n text = (0, text)"
| "page_len_loop (Suc k) n text =
     (if n > 0 then page_len_loop k (n div 10) (text[k := of_nat (n mod 10) + 48]) else (Suc k, text))"

text \<open>A \<^verbatim>\<open>memcpy\<close> to \<^verbatim>\<open>cur_pos\<close> that advances it.\<close>

definition emit :: "byte list \<Rightarrow> byte list \<times> nat \<Rightarrow> (byte list \<times> nat) res" where
  "emit text bp = bind_res (mem_write (fst bp) (snd bp) text) (\<lambda>b. Inr (b, snd bp + length text))"

definition http_reply :: "int \<Rightarrow> byte list option \<Rightarrow> byte list \<Rightarrow> (int \<times> byte list \<times> nat) res" where
  "http_reply code page reply =
     (let code' = (if code < 100 \<or> code \<ge> 600 \<or> messages code = None then 520 else code);
          message = (case messages code' of Some m \<Rightarrow> m | None \<Rightarrow> []) in
      bind_res (emit HTTP_VER (reply, 0)) (\<lambda>p1.
      bind_res (emit (bytes_of '' '') p1) (\<lambda>p2.
      bind_res (emit message p2) (\<lambda>p3.
      bind_res (emit (bytes_of ''\<newline>Content-Type: text/html\<newline>'') p3) (\<lambda>p4.
      bind_res
        (case page of
           Some pg \<Rightarrow>
             bind_res (emit (bytes_of ''Content-Length: '') p4) (\<lambda>p5.
             let (start, text) = page_len_loop 10 (length pg) (replicate 10 0) in
             bind_res (emit (drop start text) p5) (\<lambda>p6.
             bind_res (emit (bytes_of ''\<newline>'') p6) (\<lambda>p7.
             bind_res (emit (bytes_of ''\<newline>'') p7) (\<lambda>p8.
             emit pg p8))))
         | None \<Rightarrow> emit (bytes_of ''\<newline>Content-Length: 0'') p4) (\<lambda>p9.
      bind_res (mem_write (fst p9) (snd p9) [0]) (\<lambda>b.
      Inr (0, b, snd p9))))))))"

section \<open>Parsing\<close>

datatype http_step = HReject int "byte list" | HBreak HTTP_hdr | HNext HTTP_hdr

definition http_word :: "byte list \<Rightarrow> nat \<Rightarrow> nat \<Rightarrow> HTTP_hdr \<Rightarrow> http_step res" where
  "http_word data word_start word_len hdr =
     (let part = \<lparr>part_start = word_start, part_length = word_len\<rparr>; w = drop word_start data in
      if http_method hdr = None
      then bind_res (strncmp w (HTTP_METHOD @ [0]) (length HTTP_METHOD)) (\<lambda>r.
           if r \<noteq> 0 then Inr (HReject 400 (bytes_of ''Only GET requests are supported!\<newline>''))
           else Inr (HNext (hdr\<lparr>http_method := Some part\<rparr>)))
      else if http_URI hdr = None then Inr (HNext (hdr\<lparr>http_URI := Some part\<rparr>))
      else if http_version hdr = None
      then bind_res (strncmp w (HTTP_VER @ [0]) (length HTTP_VER)) (\<lambda>r1.
           bind_res (if r1 \<noteq> 0 then strncmp w (HTTP_VER_COMPATIBLE @ [0]) (length HTTP_VER_COMPATIBLE) else Inr 0) (\<lambda>r2.
           if r1 \<noteq> 0 \<and> r2 \<noteq> 0
           then Inr (HReject 505 (bytes_of ''Only HTTP/1.1 and HTTP/1.0 are supported!\<newline>''))
           else Inr (HBreak (hdr\<lparr>http_version := Some part\<rparr>))))
      else Inr (HNext hdr))"

function http_loop :: "byte list \<Rightarrow> nat \<Rightarrow> nat \<Rightarrow> nat \<Rightarrow> HTTP_hdr \<Rightarrow> (int \<times> byte list + HTTP_hdr) res" where
  "http_loop data len i word_start hdr =
     (if i \<le> len
      then bind_res (mem_read data i 1) (\<lambda>c.
           if c = bytes_of '' '' \<or> c = bytes_of ''\<newline>'' \<or> i = len
           then let word_len = i - word_start in
                bind_res (http_word data word_start word_len hdr) (\<lambda>st.
                case st of
                  HReject code msg \<Rightarrow> Inr (Inl (code, msg))
                | HBreak hdr' \<Rightarrow> Inr (Inr hdr')
                | HNext hdr' \<Rightarrow> http_loop data len (i + 1) (word_start + word_len + 1) hdr')
           else http_loop data len (i + 1) word_start hdr)
      else Inr (Inr hdr))"
  by pat_completeness auto
termination
  by (relation "measure (\<lambda>(data, len, i, word_start, hdr). Suc len - i)") auto

declare http_loop.simps [simp del]

definition http_parse :: "byte list \<Rightarrow> nat \<Rightarrow> byte list \<Rightarrow> 'a kcons_scheme \<Rightarrow> (int \<times> byte list \<times> nat \<times> 'a kcons_scheme) res" where
  "http_parse data len reply s =
     bind_res (http_loop data len 0 0 \<lparr>http_method = None, http_URI = None, http_version = None\<rparr>) (\<lambda>res.
     let (code, page, s') = (case res of
           Inl (code, msg) \<Rightarrow> (code, None, cprintf msg s)
         | Inr hdr \<Rightarrow> if http_version hdr = None
                      then (400, None, cprintf (bytes_of ''HTTP header incomplete!\<newline>'') s)
                      else (200, Some OK_page, s))
     in bind_res (http_reply code page reply) (\<lambda>(r, reply', reply_len). Inr (r, reply', reply_len, s')))"

section \<open>The text of a reply\<close>

definition decimal :: "nat \<Rightarrow> byte list" where
  "decimal n = (if n = 0 then [] else print_num n 10 0 48 False)"

lemma decimal_step: "0 < n \<Longrightarrow> decimal n = decimal (n div 10) @ [of_nat (n mod 10) + 48]"
proof -
  have "\<forall>d\<in>set [0..<10]. digit_char False d = of_nat d + 48"
    by (simp add: upt_rec digit_char_def bytes_of_def byte_of_char_def)
  then have d: "digit_char False (n mod 10) = of_nat (n mod 10) + 48" by (metis atLeastLessThan_iff le0 mod_less_divisor set_upt zero_less_numeral)
  have "print_num (n div 10) 10 (-1) 48 False = print_num (n div 10) 10 0 48 False"
    by (rule print_num_narrow) simp_all
  then show "0 < n \<Longrightarrow> ?thesis"
    unfolding decimal_def by (subst print_num.simps) (auto simp: d)
qed

lemma page_len_loop_decimal:
  "n < 10 ^ k \<Longrightarrow> k \<le> length tx \<Longrightarrow>
   (case page_len_loop k n tx of (start, t) \<Rightarrow> drop start t) = decimal n @ drop k tx"
proof (induction k n tx rule: page_len_loop.induct)
  case (1 n tx)
  then show ?case by (simp add: decimal_def)
next
  case (2 k n tx)
  show ?case
  proof (cases "n > 0")
    case True
    have "n div 10 < 10 ^ k" using "2.prems"(1) by (simp add: less_mult_imp_div_less mult.commute)
    moreover have "drop k (tx[k := of_nat (n mod 10) + 48]) = (of_nat (n mod 10) + 48) # drop (Suc k) tx"
      using "2.prems"(2) Cons_nth_drop_Suc [of k "tx[k := of_nat (n mod 10) + 48]"] by simp
    ultimately show ?thesis
      using "2.IH" [OF True] "2.prems"(2) True decimal_step [OF True] by simp
  qed (simp add: decimal_def)
qed

definition http_message :: "int \<Rightarrow> byte list" where
  "http_message code = (case messages code of Some m \<Rightarrow> m | None \<Rightarrow> bytes_of ''520 Unknown Error'')"

definition http_text :: "int \<Rightarrow> byte list option \<Rightarrow> byte list" where
  "http_text code page = HTTP_VER @ bytes_of '' '' @ http_message code @
     bytes_of ''\<newline>Content-Type: text/html\<newline>'' @
     (case page of Some pg \<Rightarrow> bytes_of ''Content-Length: '' @ decimal (length pg) @ bytes_of ''\<newline>\<newline>'' @ pg
      | None \<Rightarrow> bytes_of ''\<newline>Content-Length: 0'')"

text \<open>The buffer and the position after \<open>t\<close> has been written from its start.\<close>

definition wrote :: "byte list \<Rightarrow> byte list \<Rightarrow> byte list \<times> nat" where
  "wrote b t = (blit b 0 t, length t)"

lemma wrote_Nil: "wrote b [] = (b, 0)"
  by (simp add: wrote_def)

lemma emit_wrote: "length t + length u \<le> length b \<Longrightarrow> emit u (wrote b t) = Inr (wrote b (t @ u))"
  using blit_append [of 0 t u b] by (simp add: emit_def wrote_def)

lemma http_reply_message:
  "(case messages (if code < 100 \<or> code \<ge> 600 \<or> messages code = None then 520 else code) of
      Some m \<Rightarrow> m | None \<Rightarrow> []) = http_message code"
  by (auto simp: http_message_def messages_def)

lemma emit_page:
  assumes "length t + length pg + length (decimal (length pg)) + 18 \<le> length b" and "length pg < 10 ^ 10"
  shows "bind_res (emit (bytes_of ''Content-Length: '') (wrote b t)) (\<lambda>p5.
             case page_len_loop 10 (length pg) (replicate 10 0) of (start, tx) \<Rightarrow>
             bind_res (emit (drop start tx) p5) (\<lambda>p6.
             bind_res (emit (bytes_of ''\<newline>'') p6) (\<lambda>p7.
             bind_res (emit (bytes_of ''\<newline>'') p7) (\<lambda>p8.
             emit pg p8)))) =
    Inr (wrote b (t @ bytes_of ''Content-Length: '' @ decimal (length pg) @ bytes_of ''\<newline>\<newline>'' @ pg))"
proof -
  have nl: "bytes_of ''\<newline>\<newline>'' = bytes_of ''\<newline>'' @ bytes_of ''\<newline>''" by (simp add: bytes_of_def)
  obtain start tx where l: "page_len_loop 10 (length pg) (replicate 10 0) = (start, tx)" by fastforce
  with page_len_loop_decimal [OF assms(2), of "replicate 10 0"] have "drop start tx = decimal (length pg)" by simp
  with assms(1) l show ?thesis by (simp add: emit_wrote nl)
qed

lemma http_reply_eq:
  assumes "length (http_text code page) < length reply"
    and "\<And>pg. page = Some pg \<Longrightarrow> length pg < 10 ^ 10"
  shows "http_reply code page reply = Inr (0, blit reply 0 (http_text code page @ [0]), length (http_text code page))"
proof -
  define h where "h = HTTP_VER @ bytes_of '' '' @ http_message code @ bytes_of ''\<newline>Content-Type: text/html\<newline>''"
  define tail where "tail = (case page of Some pg \<Rightarrow> bytes_of ''Content-Length: '' @ decimal (length pg) @ bytes_of ''\<newline>\<newline>'' @ pg
      | None \<Rightarrow> bytes_of ''\<newline>Content-Length: 0'')"
  have tx: "http_text code page = h @ tail" by (simp add: http_text_def h_def tail_def)
  have len: "length h + length tail < length reply" using assms(1) by (simp add: tx)
  have step: "bind_res (emit HTTP_VER (reply, 0)) (\<lambda>p1. bind_res (emit (bytes_of '' '') p1) (\<lambda>p2.
      bind_res (emit (http_message code) p2) (\<lambda>p3. bind_res (emit (bytes_of ''\<newline>Content-Type: text/html\<newline>'') p3) f)))
    = f (wrote reply h)" for f :: "byte list \<times> nat \<Rightarrow> (int \<times> byte list \<times> nat) res"
    unfolding wrote_Nil [of reply, symmetric] using len by (simp add: emit_wrote h_def)
  have fin: "mem_write (blit reply 0 (h @ tail)) (length (h @ tail)) [0] = Inr (blit reply 0 (h @ tail @ [0]))"
    using len blit_append [of 0 "h @ tail" "[0]" reply] by simp
  have tl: "(case page of
           Some pg \<Rightarrow>
             bind_res (emit (bytes_of ''Content-Length: '') (wrote reply h)) (\<lambda>p5.
             case page_len_loop 10 (length pg) (replicate 10 0) of (start, tx) \<Rightarrow>
             bind_res (emit (drop start tx) p5) (\<lambda>p6.
             bind_res (emit (bytes_of ''\<newline>'') p6) (\<lambda>p7.
             bind_res (emit (bytes_of ''\<newline>'') p7) (\<lambda>p8.
             emit pg p8))))
         | None \<Rightarrow> emit (bytes_of ''\<newline>Content-Length: 0'') (wrote reply h)) = Inr (wrote reply (h @ tail))"
    using len assms(2) emit_page [where t = h and b = reply] by (cases page) (simp_all add: tail_def emit_wrote)
  show ?thesis
    by (simp only: http_reply_def Let_def http_reply_message step tl tx bind_res_simps)
      (simp add: wrote_def fin [simplified])
qed

section \<open>What the parser decides\<close>

definition is_delim :: "byte list \<Rightarrow> nat \<Rightarrow> bool" where
  "is_delim data i \<longleftrightarrow> data ! i = 32 \<or> data ! i = 10"

text \<open>
  The reference: the request must start with the method; it is complete when it has two
  delimiters, and the version follows the second one.
\<close>

definition http_status :: "byte list \<Rightarrow> nat \<Rightarrow> int" where
  "http_status data len =
     (if take 3 data \<noteq> HTTP_METHOD then 400
      else case filter (is_delim data) [0..<len] of
             p1 # p2 # _ \<Rightarrow> if take 8 (drop (p2 + 1) data) \<in> {HTTP_VER, HTTP_VER_COMPATIBLE} then 200 else 505
           | _ \<Rightarrow> 400)"

lemma filter_upt_Cons:
  "filter P [i..<n] = p # ps \<Longrightarrow>
   i \<le> p \<and> p < n \<and> P p \<and> (\<forall>k. i \<le> k \<and> k < p \<longrightarrow> \<not> P k) \<and> filter P [Suc p..<n] = ps"
proof (induction "n - i" arbitrary: i)
  case (Suc d)
  then have i: "[i..<n] = i # [Suc i..<n]" by (simp add: upt_conv_Cons)
  show ?case
  proof (cases "P i")
    case False
    with Suc.prems i have "filter P [Suc i..<n] = p # ps" by simp
    with Suc.hyps(1) [of "Suc i"] Suc.hyps(2) False show ?thesis by (metis Suc_leD Suc_leI diff_Suc_1 diff_Suc_eq_diff_pred le_neq_implies_less Suc_diff_Suc diff_Suc_Suc zero_less_Suc zero_less_diff)
  qed (use Suc.prems Suc.hyps(2) i in auto)
qed simp

lemma filter_upt_Nil: "filter P [i..<n] = [] \<Longrightarrow> i \<le> k \<Longrightarrow> k < n \<Longrightarrow> \<not> P k"
  by (auto simp: filter_empty_conv)

definition http_at :: "byte list \<Rightarrow> nat \<Rightarrow> nat \<Rightarrow> nat \<Rightarrow> HTTP_hdr \<Rightarrow> (int \<times> byte list + HTTP_hdr) res" where
  "http_at data len j ws hdr = bind_res (http_word data ws (j - ws) hdr) (\<lambda>st.
     case st of HReject code msg \<Rightarrow> Inr (Inl (code, msg)) | HBreak hdr' \<Rightarrow> Inr (Inr hdr')
     | HNext hdr' \<Rightarrow> http_loop data len (j + 1) (ws + (j - ws) + 1) hdr')"

lemma delim_read: "i < length data \<Longrightarrow>
   mem_read data i 1 = Inr [data ! i] \<and> ([data ! i] = bytes_of '' '' \<or> [data ! i] = bytes_of ''\<newline>'' \<longleftrightarrow> is_delim data i)"
  by (auto simp: take_Suc_conv_app_nth bytes_of_def byte_of_char_def is_delim_def hd_drop_conv_nth take_Suc drop_eq_Nil)

lemma http_loop_scan:
  assumes "i \<le> j" "j \<le> len" "len < length data" "\<forall>k. i \<le> k \<and> k < j \<longrightarrow> \<not> is_delim data k"
    and "j = len \<or> is_delim data j"
  shows "http_loop data len i ws hdr = http_at data len j ws hdr"
  using assms
proof (induction "j - i" arbitrary: i)
  case 0
  then have "i = j" by simp
  with 0 delim_read [of j data] show ?case
    by (subst http_loop.simps) (auto simp: http_at_def Let_def)
next
  case (Suc d)
  then have "\<not> is_delim data i" "i < len" by auto
  with Suc.prems delim_read [of i data] have "http_loop data len i ws hdr = http_loop data len (i + 1) ws hdr"
    by (subst http_loop.simps) auto
  also have "\<dots> = http_at data len j ws hdr" using Suc by (intro Suc.hyps(1)) auto
  finally show ?case .
qed

lemma http_loop_end: "len < i \<Longrightarrow> http_loop data len i ws hdr = Inr (Inr hdr)"
  by (subst http_loop.simps) simp

lemma strncmp_literal:
  assumes "ctext lit" and "length lit \<le> length w"
  shows "\<exists>v. strncmp w (lit @ [0]) (length lit) = Inr v \<and> (v = 0 \<longleftrightarrow> take (length lit) w = lit)"
proof -
  from strncmp_total [OF assms(2), of "[0]"] obtain v where v: "strncmp w (lit @ [0]) (length lit) = Inr v" by blast
  have "(\<exists>q. w = lit @ q) \<longleftrightarrow> take (length lit) w = lit" by (metis append_eq_conv_conj append_take_drop_id)
  with v strncmp_prefix [OF assms(1), of w "[0]"] show ?thesis by auto
qed

lemma http_lits: "ctext HTTP_METHOD" "ctext HTTP_VER" "ctext HTTP_VER_COMPATIBLE"
  "length HTTP_METHOD = 3" "length HTTP_VER = 8" "length HTTP_VER_COMPATIBLE = 8"
  by (simp_all add: bytes_of_def byte_of_char_def)

lemma http_word_method:
  assumes "http_method hdr = None" and "3 \<le> length (drop ws data)"
  shows "http_word data ws wl hdr = Inr (if take 3 (drop ws data) = HTTP_METHOD
    then HNext (hdr\<lparr>http_method := Some \<lparr>part_start = ws, part_length = wl\<rparr>\<rparr>)
    else HReject 400 (bytes_of ''Only GET requests are supported!\<newline>''))"
proof -
  obtain v where "strncmp (drop ws data) (HTTP_METHOD @ [0]) 3 = Inr v" "v = 0 \<longleftrightarrow> take 3 (drop ws data) = HTTP_METHOD"
    using strncmp_literal [OF http_lits(1), of "drop ws data"] assms(2) unfolding http_lits by blast
  then show ?thesis unfolding http_word_def http_lits Let_def using assms(1) by simp
qed

lemma http_word_version:
  assumes "http_method hdr \<noteq> None" "http_URI hdr \<noteq> None" "http_version hdr = None" and "8 \<le> length (drop ws data)"
  shows "http_word data ws wl hdr = Inr (if take 8 (drop ws data) \<in> {HTTP_VER, HTTP_VER_COMPATIBLE}
    then HBreak (hdr\<lparr>http_version := Some \<lparr>part_start = ws, part_length = wl\<rparr>\<rparr>)
    else HReject 505 (bytes_of ''Only HTTP/1.1 and HTTP/1.0 are supported!\<newline>''))"
proof -
  let ?w = "drop ws data"
  obtain a where a: "strncmp ?w (HTTP_VER @ [0]) 8 = Inr a" "a = 0 \<longleftrightarrow> take 8 ?w = HTTP_VER"
    using strncmp_literal [OF http_lits(2), of ?w] assms(4) unfolding http_lits by blast
  obtain b where b: "strncmp ?w (HTTP_VER_COMPATIBLE @ [0]) 8 = Inr b" "b = 0 \<longleftrightarrow> take 8 ?w = HTTP_VER_COMPATIBLE"
    using strncmp_literal [OF http_lits(3), of ?w] assms(4) unfolding http_lits by blast
  show ?thesis unfolding http_word_def http_lits Let_def a b using assms(1-3) a(2) b(2) by auto
qed

definition http_hdr0 :: HTTP_hdr where
  "http_hdr0 = \<lparr>http_method = None, http_URI = None, http_version = None\<rparr>"

text \<open>Reaching the next delimiter, or the end of the request.\<close>

lemma http_loop_next:
  assumes "len < length data" and "i \<le> len"
  shows "http_loop data len i ws hdr =
    http_at data len (case filter (is_delim data) [i..<len] of [] \<Rightarrow> len | p # _ \<Rightarrow> p) ws hdr"
proof (cases "filter (is_delim data) [i..<len]")
  case Nil
  with assms show ?thesis using filter_upt_Nil [OF Nil] by (auto intro!: http_loop_scan)
next
  case (Cons p ps)
  with assms filter_upt_Cons [OF Cons] show ?thesis by (auto intro!: http_loop_scan)
qed

lemma http_loop_after_method:
  assumes "len < length data" and "p < len" and "http_method hdr \<noteq> None" "http_URI hdr = None" "http_version hdr = None"
    and "len + 8 < length data"
  shows "\<exists>hdr'. http_loop data len (p + 1) (p + 1) hdr =
    (case filter (is_delim data) [p + 1..<len] of
       [] \<Rightarrow> Inr (Inr hdr')
     | p2 # _ \<Rightarrow> if take 8 (drop (p2 + 1) data) \<in> {HTTP_VER, HTTP_VER_COMPATIBLE} then Inr (Inr hdr')
         else Inr (Inl (505, bytes_of ''Only HTTP/1.1 and HTTP/1.0 are supported!\<newline>'')))
    \<and> (http_version hdr' = None \<longleftrightarrow> filter (is_delim data) [p + 1..<len] = [])"
proof -
  let ?d = "filter (is_delim data) [p + 1..<len]"
  define j where "j = (case ?d of [] \<Rightarrow> len | p2 # _ \<Rightarrow> p2)"
  define h where "h = hdr\<lparr>http_URI := Some \<lparr>part_start = p + 1, part_length = j - (p + 1)\<rparr>\<rparr>"
  have h: "http_method h \<noteq> None" "http_URI h \<noteq> None" "http_version h = None" using assms by (simp_all add: h_def)
  have j: "p + 1 \<le> j"
  proof (cases ?d)
    case (Cons q qs)
    then show ?thesis using filter_upt_Cons [OF Cons] by (simp add: j_def)
  qed (use assms(2) in \<open>simp add: j_def\<close>)
  have e: "http_loop data len (p + 1) (p + 1) hdr = http_loop data len (j + 1) (j + 1) h"
    using http_loop_next [of len data "p + 1" "p + 1" hdr, folded j_def] assms(1-4) j
    by (simp add: http_at_def http_word_def h_def)
  show ?thesis
  proof (cases ?d)
    case Nil
    then have "http_loop data len (j + 1) (j + 1) h = Inr (Inr h)" by (simp add: j_def http_loop_end)
    with e h Nil show ?thesis by (intro exI [of _ h]) simp
  next
    case (Cons p2 ps)
    then have p2: "j = p2" "p2 < len" using filter_upt_Cons [OF Cons] by (simp_all add: j_def)
    define k where "k = (case filter (is_delim data) [p2 + 1..<len] of [] \<Rightarrow> len | q # _ \<Rightarrow> q)"
    define h' where "h' = h\<lparr>http_version := Some \<lparr>part_start = p2 + 1, part_length = k - (p2 + 1)\<rparr>\<rparr>"
    have "http_loop data len (p2 + 1) (p2 + 1) h = http_at data len k (p2 + 1) h"
      using http_loop_next [of len data "p2 + 1" "p2 + 1" h] assms(1) p2 by (simp add: k_def)
    also have "\<dots> = (if take 8 (drop (p2 + 1) data) \<in> {HTTP_VER, HTTP_VER_COMPATIBLE} then Inr (Inr h')
        else Inr (Inl (505, bytes_of ''Only HTTP/1.1 and HTTP/1.0 are supported!\<newline>'')))"
      unfolding http_at_def h'_def using http_word_version [OF h, of "p2 + 1" data "k - (p2 + 1)"] assms(6) p2(2) by simp
    finally show ?thesis using e p2 Cons by (intro exI [of _ h']) (simp add: h'_def)
  qed
qed

lemma http_loop_status:
  assumes "len + 8 < length data"
  shows "\<exists>r. http_loop data len 0 0 http_hdr0 = Inr r \<and>
    (case r of Inl (code, msg) \<Rightarrow> http_status data len = code \<and> code \<noteq> 200
     | Inr hdr \<Rightarrow> http_status data len = (if http_version hdr = None then 400 else 200))"
proof -
  let ?d = "filter (is_delim data) [0..<len]"
  define j where "j = (case ?d of [] \<Rightarrow> len | p # _ \<Rightarrow> p)"
  define h where "h = http_hdr0\<lparr>http_method := Some \<lparr>part_start = 0, part_length = j\<rparr>\<rparr>"
  have h: "http_method h \<noteq> None" "http_URI h = None" "http_version h = None" by (simp_all add: h_def http_hdr0_def)
  have w: "http_word data 0 j http_hdr0 = Inr (if take 3 data = HTTP_METHOD then HNext h
      else HReject 400 (bytes_of ''Only GET requests are supported!\<newline>''))"
    using http_word_method [of http_hdr0 0 data j] assms by (simp add: h_def http_hdr0_def)
  have e: "http_loop data len 0 0 http_hdr0 = (if take 3 data = HTTP_METHOD then http_loop data len (j + 1) (j + 1) h
      else Inr (Inl (400, bytes_of ''Only GET requests are supported!\<newline>'')))"
    using http_loop_next [of len data 0 0 http_hdr0] assms w by (simp add: http_at_def j_def [symmetric])
  show ?thesis
  proof (cases "take 3 data = HTTP_METHOD")
    case True
    show ?thesis
    proof (cases ?d)
      case Nil
      with True e h show ?thesis by (intro exI [of _ "Inr h"]) (simp add: j_def http_loop_end http_status_def)
    next
      case (Cons p ps)
      note p = filter_upt_Cons [OF Cons]
      then have ps: "filter (is_delim data) [p + 1..<len] = ps" "p < len" "j = p" using Cons by (simp_all add: j_def)
      obtain hdr' where "http_loop data len (p + 1) (p + 1) h =
        (case ps of [] \<Rightarrow> Inr (Inr hdr')
         | p2 # _ \<Rightarrow> if take 8 (drop (p2 + 1) data) \<in> {HTTP_VER, HTTP_VER_COMPATIBLE} then Inr (Inr hdr')
             else Inr (Inl (505, bytes_of ''Only HTTP/1.1 and HTTP/1.0 are supported!\<newline>'')))"
        "http_version hdr' = None \<longleftrightarrow> ps = []"
        using http_loop_after_method [of len data p h] h assms ps by auto
      with True e ps(3) Cons show ?thesis by (cases ps) (auto simp: http_status_def)
    qed
  next
    case False
    with e show ?thesis by (auto simp: http_status_def)
  qed
qed

section \<open>Properties\<close>

definition http_page :: "int \<Rightarrow> byte list option" where
  "http_page code = (if code = 200 then Some OK_page else None)"

lemma length_http_text: "code \<in> {200, 400, 505} \<Longrightarrow> length (http_text code (http_page code)) < 200"
  by (auto simp: http_text_def http_page_def http_message_def messages_def OK_page_def decimal_def print_num.simps)

lemma http_status_range: "http_status data len \<in> {200, 400, 505}"
  by (simp add: http_status_def split: list.splits)

lemma http_parse_eq:
  assumes "len + 8 < length data" and "200 \<le> length reply"
  shows "\<exists>msg. http_parse data len reply s =
    (let t = http_text (http_status data len) (http_page (http_status data len))
     in Inr (0, blit reply 0 (t @ [0]), length t, cprintf msg s))"
proof -
  let ?c = "http_status data len"
  let ?t = "http_text ?c (http_page ?c)"
  have rep: "http_reply ?c (http_page ?c) reply = Inr (0, blit reply 0 (?t @ [0]), length ?t)"
    using assms(2) length_http_text [OF http_status_range, of data len]
    by (intro http_reply_eq) (auto simp: http_page_def OK_page_def split: if_splits)
  obtain r where r: "http_loop data len 0 0 http_hdr0 = Inr r"
    and st: "case r of Inl (code, msg) \<Rightarrow> ?c = code \<and> code \<noteq> 200
       | Inr hdr \<Rightarrow> ?c = (if http_version hdr = None then 400 else 200)"
    using http_loop_status [OF assms(1)] by blast
  have id: "cprintf [] s = s" by (simp add: cprintf_def)
  show ?thesis
  proof (cases r)
    case (Inl cm)
    with st rep show ?thesis unfolding http_parse_def http_hdr0_def [symmetric] r
      by (cases cm) (auto simp: http_page_def Let_def)
  next
    case (Inr hdr)
    with st rep id [symmetric] show ?thesis unfolding http_parse_def http_hdr0_def [symmetric] r
      by (cases "http_version hdr = None") (auto simp: http_page_def Let_def)
  qed
qed

text \<open>
  C14: The parser decides as the reference does. For every request in the buffer (with the
  few bytes after it that the comparisons may touch), \<^verbatim>\<open>http_parse\<close> returns 0 and writes one
  of three answers: 400 when the request does not start with GET or has fewer than
  two delimiters, 505 when the text after the second delimiter is neither HTTP/1.1 nor
  HTTP/1.0, and otherwise 200 with the page. The answer ends with a zero byte and its
  length is returned.
\<close>

theorem http_parse_decides:
  assumes "len + 8 < length data" and "200 \<le> length reply"
  shows "\<exists>msg. http_parse data len reply s =
    (let code = http_status data len; t = http_text code (http_page code)
     in Inr (0, blit reply 0 (t @ [0]), length t, cprintf msg s))"
  using http_parse_eq [OF assms, of s] by (simp add: Let_def)

theorem http_parse_decides_witness:
  "\<exists>msg. http_parse (bytes_of ''GET /x HTTP/1.0'' @ replicate 20 0) 15 (replicate 1446 0) \<lparr>console = []\<rparr> =
    (let t = http_text 200 (Some OK_page)
     in Inr (0, blit (replicate 1446 0) 0 (t @ [0]), length t, cprintf msg \<lparr>console = []\<rparr>))"
proof -
  let ?data = "bytes_of ''GET /x HTTP/1.0'' @ replicate 20 0"
  have "filter (is_delim ?data) [0..<15] = [3, 6]"
    by (simp add: upt_rec is_delim_def bytes_of_def byte_of_char_def)
  then have "http_status ?data 15 = 200"
    by (simp add: http_status_def bytes_of_def byte_of_char_def)
  then show ?thesis
    using http_parse_decides [of 15 ?data "replicate 1446 0" "\<lparr>console = []\<rparr>"]
    by (simp add: http_page_def Let_def)
qed

text \<open>
  \<^verbatim>\<open>http_reply\<close> writes the status line for the code (520 for a code without a message), the
  content type and, for a page, its length in decimal, a blank line and the page: the
  digits read back to the length of the page. It stays inside the buffer whenever
  the text and its zero byte fit.
\<close>

theorem http_reply_page:
  assumes "length (http_text code (Some pg)) < length reply" and "length pg < 10 ^ 10"
  shows "\<exists>ds. http_reply code (Some pg) reply = Inr (0, blit reply 0 (http_text code (Some pg) @ [0]), length (http_text code (Some pg)))
    \<and> http_text code (Some pg) = bytes_of ''HTTP/1.1 '' @ http_message code @
        bytes_of ''\<newline>Content-Type: text/html\<newline>Content-Length: '' @ ds @ bytes_of ''\<newline>\<newline>'' @ pg
    \<and> num_val 10 ds = length pg"
proof (intro exI [of _ "decimal (length pg)"] conjI)
  show "http_reply code (Some pg) reply =
      Inr (0, blit reply 0 (http_text code (Some pg) @ [0]), length (http_text code (Some pg)))"
    using assms by (intro http_reply_eq) simp_all
  show "num_val 10 (decimal (length pg)) = length pg"
    using print_num_roundtrip [of 10 48 0 "length pg" False] by (simp add: decimal_def num_val_def)
qed (simp add: http_text_def bytes_of_def)

theorem http_reply_page_witness:
  "\<exists>ds. http_reply 200 (Some [72, 105]) (replicate 100 0) =
      Inr (0, blit (replicate 100 0) 0 (http_text 200 (Some [72, 105]) @ [0]), length (http_text 200 (Some [72, 105])))
    \<and> num_val 10 ds = length [72, 105 :: byte]"
proof -
  have "length (http_text 200 (Some [72, 105])) < 100"
    by (simp add: http_text_def http_message_def messages_def decimal_def print_num.simps)
  then show ?thesis using http_reply_page [of 200 "[72, 105]" "replicate 100 0"] by fastforce
qed

text \<open>
  An answer without a page ends its header before the length field: the blank line comes
  first, so the field is the body.
\<close>

lemma http_error_body:
  "http_text code None = bytes_of ''HTTP/1.1 '' @ http_message code @
     bytes_of ''\<newline>Content-Type: text/html'' @ bytes_of ''\<newline>\<newline>'' @ bytes_of ''Content-Length: 0''"
  by (simp add: http_text_def bytes_of_def)

end
