(* ===== verification/Tcp.thy ===== *)
theory Tcp
  imports Udp Http
begin

text \<open>
  The TCP layer (\<^verbatim>\<open>kern/tcp.h\<close>, \<^verbatim>\<open>kern/tcp.c\<close>): 64 virtual channels, one per local port, and the
  state machine of the passive side that hands a pushed request to the HTTP server
  and closes. The channels are the component \<open>tcp_vc\<close> of the machine state; a
  pointer to a channel is its index.
\<close>

abbreviation (input) TCP_HEADER_LEN :: nat where "TCP_HEADER_LEN \<equiv> 20"
abbreviation (input) TCP_DATA_LEN :: nat where "TCP_DATA_LEN \<equiv> 1446"
abbreviation (input) TCP_WINDOW_SIZE :: nat where "TCP_WINDOW_SIZE \<equiv> 14460"
abbreviation (input) TCP_VC_NUM :: nat where "TCP_VC_NUM \<equiv> 64"
abbreviation (input) TH_FIN :: byte where "TH_FIN \<equiv> 0x01"
abbreviation (input) TH_SYN :: byte where "TH_SYN \<equiv> 0x02"
abbreviation (input) TH_PSH :: byte where "TH_PSH \<equiv> 0x08"
abbreviation (input) TH_ACK :: byte where "TH_ACK \<equiv> 0x10"

record tcp_hdr =
  tcp_src_port :: u16
  tcp_dst_port :: u16
  tcp_seq_num :: u32
  tcp_ack_num :: u32
  tcp_offset_ns :: byte
  tcp_flags :: byte
  tcp_win_size :: u16
  tcp_checksum :: u16
  tcp_urgent :: u16

datatype tcp_state = CLOSED | LISTEN | SYN_SENT | SYN_RECEIVED | ESTABLISHED | FIN_WAIT_1 | CLOSING
  | FIN_WAIT_2 | TIME_WAIT | CLOSE_WAIT | LAST_ACK

definition tcp_state_num :: "tcp_state \<Rightarrow> int" where
  "tcp_state_num st = (case st of CLOSED \<Rightarrow> 0 | LISTEN \<Rightarrow> 1 | SYN_SENT \<Rightarrow> 2 | SYN_RECEIVED \<Rightarrow> 3
     | ESTABLISHED \<Rightarrow> 4 | FIN_WAIT_1 \<Rightarrow> 5 | CLOSING \<Rightarrow> 6 | FIN_WAIT_2 \<Rightarrow> 7 | TIME_WAIT \<Rightarrow> 8
     | CLOSE_WAIT \<Rightarrow> 9 | LAST_ACK \<Rightarrow> 10)"

record tcp_endpoint =
  ep_ip :: u32
  ep_port :: u16

record tcp_ack_seq =
  seq_num :: u32
  ack_num :: u32

record tcp_virtual_channel =
  vc_state :: tcp_state
  host_side :: tcp_endpoint
  guest_side :: tcp_endpoint
  ack_seq :: tcp_ack_seq
  vc_buffer :: "byte list"
  vc_data_len :: u32

record net_state = ip_state +
  tcp_vc :: "tcp_virtual_channel list"

definition tcp_hdr_bytes :: "tcp_hdr \<Rightarrow> byte list" where
  "tcp_hdr_bytes h = put16 (tcp_src_port h) @ put16 (tcp_dst_port h) @ put32 (tcp_seq_num h) @
     put32 (tcp_ack_num h) @ [tcp_offset_ns h, tcp_flags h] @ put16 (tcp_win_size h) @
     put16 (tcp_checksum h) @ put16 (tcp_urgent h)"

definition tcp_hdr_of :: "byte list \<Rightarrow> tcp_hdr" where
  "tcp_hdr_of bs = \<lparr>tcp_src_port = get16 bs 0, tcp_dst_port = get16 bs 2, tcp_seq_num = get32 bs 4,
     tcp_ack_num = get32 bs 8, tcp_offset_ns = bs ! 12, tcp_flags = bs ! 13, tcp_win_size = get16 bs 14,
     tcp_checksum = get16 bs 16, tcp_urgent = get16 bs 18\<rparr>"

text \<open>
  A header initialised with zeros whose 4 bit data offset is \<^verbatim>\<open>(TCP_HEADER_LEN >> 2) & 0xF\<close>,
  the high half of its byte.
\<close>

definition tcp_new_hdr :: "byte \<Rightarrow> tcp_hdr" where
  "tcp_new_hdr flags = \<lparr>tcp_src_port = 0, tcp_dst_port = 0, tcp_seq_num = 0, tcp_ack_num = 0,
     tcp_offset_ns = push_bit 4 (of_nat (TCP_HEADER_LEN div 4) AND 0xF), tcp_flags = flags, tcp_win_size = 0,
     tcp_checksum = 0, tcp_urgent = 0\<rparr>"

section \<open>Channels\<close>

definition vc_at :: "'a net_state_scheme \<Rightarrow> nat \<Rightarrow> tcp_virtual_channel" where
  "vc_at s i = tcp_vc s ! i"

definition vc_set :: "nat \<Rightarrow> tcp_virtual_channel \<Rightarrow> 'a net_state_scheme \<Rightarrow> 'a net_state_scheme" where
  "vc_set i vc s = s\<lparr>tcp_vc := (tcp_vc s)[i := vc]\<rparr>"

definition vc_listen :: "u16 \<Rightarrow> tcp_virtual_channel \<Rightarrow> tcp_virtual_channel" where
  "vc_listen port vc = vc\<lparr>vc_state := LISTEN, host_side := \<lparr>ep_ip = MY_IP, ep_port = port\<rparr>,
     guest_side := \<lparr>ep_ip = HOST_IP, ep_port = 8080\<rparr>\<rparr>"

fun tcp_init_loop :: "nat \<Rightarrow> nat \<Rightarrow> tcp_virtual_channel list \<Rightarrow> tcp_virtual_channel list" where
  "tcp_init_loop i 0 vcs = vcs"
| "tcp_init_loop i (Suc n) vcs = tcp_init_loop (i + 1) n (vcs[i := vc_listen (of_nat i) (vcs ! i)])"

definition tcp_init_vc :: "'a net_state_scheme \<Rightarrow> 'a net_state_scheme" where
  "tcp_init_vc s =
     (let vcs = (tcp_vc s)[0 := vc_listen 80 (tcp_vc s ! 0)]
      in s\<lparr>tcp_vc := tcp_init_loop 1 (TCP_VC_NUM - 1) vcs\<rparr>)"

fun match_vc :: "u16 \<Rightarrow> tcp_virtual_channel list \<Rightarrow> nat \<Rightarrow> nat option" where
  "match_vc port [] i = None"
| "match_vc port (vc # vcs) i = (if ep_port (host_side vc) = port then Some i else match_vc port vcs (i + 1))"

definition match_tcp_vc :: "tcp_hdr \<Rightarrow> 'a net_state_scheme \<Rightarrow> nat option" where
  "match_tcp_vc h s = match_vc (JNTOHS (tcp_dst_port h)) (tcp_vc s) 0"

definition match_listen_ip :: "tcp_virtual_channel \<Rightarrow> u32 \<Rightarrow> bool" where
  "match_listen_ip vc src_ip = True"

definition check_ack_seq :: "tcp_virtual_channel \<Rightarrow> tcp_hdr \<Rightarrow> bool" where
  "check_ack_seq vc h \<longleftrightarrow> JNTOHL (tcp_seq_num h) = ack_num (ack_seq vc) \<and> JNTOHL (tcp_ack_num h) = seq_num (ack_seq vc)"

section \<open>Sending\<close>

text \<open>The pseudo header and the segment as \<^verbatim>\<open>tcp_send\<close> lays them out in \<^verbatim>\<open>buf\<close> before summing.\<close>

definition tcp_sum_buf :: "ip_hdr \<Rightarrow> byte list \<Rightarrow> byte list res" where
  "tcp_sum_buf hdr seg =
     bind_res (mem_write (replicate (IP_DATA_LEN + 12) 0) 12 seg) (\<lambda>b1.
     bind_res (mem_write b1 0 (put32 (ip_source_address hdr))) (\<lambda>b2.
     bind_res (mem_write b2 4 (put32 (ip_destination_address hdr))) (\<lambda>b3.
     bind_res (mem_write b3 8 [0, ip_protocol hdr]) (\<lambda>b4.
     mem_write b4 10 (put32 (ucast (JHTONS (of_nat (length seg)))))))))"

definition tcp_send :: "tcp_virtual_channel \<Rightarrow> tcp_hdr \<Rightarrow> byte list \<Rightarrow> nat \<Rightarrow> 'a net_state_scheme \<Rightarrow> (int \<times> 'a net_state_scheme) res" where
  "tcp_send channel pkt_hdr pkt_data len s =
     (let h = pkt_hdr\<lparr>tcp_seq_num := JHTONL (seq_num (ack_seq channel)), tcp_ack_num := JHTONL (ack_num (ack_seq channel)),
            tcp_src_port := JHTONS (ep_port (host_side channel)), tcp_dst_port := JHTONS (ep_port (guest_side channel)),
            tcp_win_size := JHTONS (of_nat TCP_WINDOW_SIZE), tcp_checksum := 0\<rparr>;
          hdr = (ip_hdr_of (replicate IP_HEADER_LEN 0))\<lparr>ip_protocol := IP_PROTO_TCP,
            ip_source_address := JHTONL (ep_ip (host_side channel)),
            ip_destination_address := JHTONL (ep_ip (guest_side channel))\<rparr>;
          data_length = TCP_HEADER_LEN + len
      in bind_res (mem_read (tcp_hdr_bytes h @ pkt_data) 0 data_length) (\<lambda>seg.
         bind_res (tcp_sum_buf hdr seg) (\<lambda>buf.
         let h' = h\<lparr>tcp_checksum := JHTONS (JNTOHS (ip_checksum buf (data_length + 12)) - ep_port (host_side channel))\<rparr> in
         bind_res (mem_read (tcp_hdr_bytes h' @ pkt_data) 0 data_length) (\<lambda>seg'.
         bind_res (mem_write (replicate IP_DATA_LEN 0) 0 seg') (\<lambda>result.
         ip_send hdr result (of_nat data_length) s)))))"

definition tcp_send_ack :: "tcp_virtual_channel \<Rightarrow> byte \<Rightarrow> 'a net_state_scheme \<Rightarrow> (int \<times> 'a net_state_scheme) res" where
  "tcp_send_ack vc flags s =
     bind_res (tcp_send vc (tcp_new_hdr (flags OR TH_ACK)) (replicate TCP_DATA_LEN 0) 0 s) (\<lambda>(r, s').
     Inr (r, if r = -1 then cprintf (bytes_of ''tcp send error\<newline>'') s' else s'))"

section \<open>Receiving\<close>

text \<open>The common exit of the error paths.\<close>

definition tcp_error :: "nat \<Rightarrow> byte list \<Rightarrow> 'a net_state_scheme \<Rightarrow> (int \<times> 'a net_state_scheme) res" where
  "tcp_error i msg s = Inr (-1, cprintf (msg @ bytes_of ''Error on state '' @
     dec (tcp_state_num (vc_state (vc_at s i))) @ bytes_of ''\<newline>'') s)"

definition wrong_ip_text :: "u32 \<Rightarrow> tcp_virtual_channel \<Rightarrow> byte list" where
  "wrong_ip_text src_ip vc = bytes_of ''Wrong IP -'' @ num2ip_text src_ip @ bytes_of '' is not'' @
     num2ip_text (ep_ip (guest_side vc)) @ bytes_of ''\<newline>''"

definition tcp_listen :: "nat \<Rightarrow> tcp_hdr \<Rightarrow> u32 \<Rightarrow> 'a net_state_scheme \<Rightarrow> (int \<times> 'a net_state_scheme) res" where
  "tcp_listen i h src_ip s =
     (let vc = vc_at s i in
      if tcp_flags h AND TH_SYN = 0 then tcp_error i (bytes_of ''SYN flag is not provided\<newline>'') s
      else if \<not> match_listen_ip vc src_ip
      then tcp_error i (bytes_of ''Source IP'' @ num2ip_text src_ip @ bytes_of ''didn'' @ [39] @ bytes_of ''t match listen IP'' @
             num2ip_text (ep_ip (guest_side vc)) @ bytes_of ''\<newline>'') s
      else let vc1 = vc\<lparr>guest_side := \<lparr>ep_ip = src_ip, ep_port = JNTOHS (tcp_src_port h)\<rparr>,
                        ack_seq := \<lparr>seq_num = JNTOHL (tcp_seq_num h), ack_num = JNTOHL (tcp_seq_num h) + 1\<rparr>\<rparr> in
           bind_res (tcp_send_ack vc1 TH_SYN (vc_set i vc1 s)) (\<lambda>(_, s1).
           Inr (0, vc_set i (vc1\<lparr>ack_seq := (ack_seq vc1)\<lparr>seq_num := seq_num (ack_seq vc1) + 1\<rparr>,
                                 vc_state := SYN_RECEIVED\<rparr>) s1)))"

definition tcp_syn_received :: "nat \<Rightarrow> tcp_hdr \<Rightarrow> u32 \<Rightarrow> 'a net_state_scheme \<Rightarrow> (int \<times> 'a net_state_scheme) res" where
  "tcp_syn_received i h src_ip s =
     (let vc = vc_at s i in
      if tcp_flags h AND TH_ACK = 0 then tcp_error i (bytes_of ''ACK flag is not provided\<newline>'') s
      else if src_ip \<noteq> ep_ip (guest_side vc) then tcp_error i (wrong_ip_text src_ip vc) s
      else if \<not> check_ack_seq vc h then tcp_error i (bytes_of ''Wrond ack seq\<newline>'') s
      else Inr (0, vc_set i (vc\<lparr>vc_state := ESTABLISHED\<rparr>) s))"

definition tcp_push :: "nat \<Rightarrow> tcp_virtual_channel \<Rightarrow> 'a net_state_scheme \<Rightarrow> (int \<times> 'a net_state_scheme) res" where
  "tcp_push i vc s =
     bind_res (http_parse (vc_buffer vc) (unat (vc_data_len vc)) (replicate TCP_DATA_LEN 0) s) (\<lambda>(_, reply, reply_len, s1).
     bind_res (tcp_send vc (tcp_new_hdr (TH_ACK OR TH_PSH OR TH_FIN)) reply reply_len s1) (\<lambda>(r, s2).
     if r = -1 then tcp_error i (bytes_of ''tcp send error\<newline>'') s2
     else Inr (0, vc_set i (vc\<lparr>ack_seq := (ack_seq vc)\<lparr>seq_num := seq_num (ack_seq vc) + of_nat (reply_len + 1)\<rparr>,
                              vc_data_len := 0, vc_state := CLOSE_WAIT\<rparr>) s2)))"

definition vc_store :: "tcp_virtual_channel \<Rightarrow> byte list \<Rightarrow> u16 \<Rightarrow> tcp_virtual_channel" where
  "vc_store vc buffer tcp_data_len =
     vc\<lparr>vc_buffer := buffer, vc_data_len := vc_data_len vc + ucast tcp_data_len,
        ack_seq := (ack_seq vc)\<lparr>ack_num := ack_num (ack_seq vc) + ucast tcp_data_len\<rparr>\<rparr>"

definition tcp_established :: "nat \<Rightarrow> tcp_hdr \<Rightarrow> byte list \<Rightarrow> u32 \<Rightarrow> u16 \<Rightarrow> 'a net_state_scheme \<Rightarrow> (int \<times> 'a net_state_scheme) res" where
  "tcp_established i h data src_ip tcp_data_len s =
     (let vc = vc_at s i in
      if tcp_flags h AND TH_ACK = 0 then tcp_error i (bytes_of ''ACK flag is not provided\<newline>'') s
      else if src_ip \<noteq> ep_ip (guest_side vc) then tcp_error i (wrong_ip_text src_ip vc) s
      else if \<not> check_ack_seq vc h then tcp_error i (bytes_of ''Wrond ack seq\<newline>'') s
      else if unat (vc_data_len vc + ucast tcp_data_len) \<ge> TCP_WINDOW_SIZE
      then tcp_error i (bytes_of ''Buffer overflow\<newline>'') s
      else bind_res (mem_read data 0 (unat tcp_data_len)) (\<lambda>d.
           bind_res (mem_write (vc_buffer vc) (unat (vc_data_len vc)) d) (\<lambda>buffer.
           let vc1 = vc_store vc buffer tcp_data_len;
               s1 = vc_set i vc1 s
           in if tcp_flags h AND TH_PSH \<noteq> 0 then tcp_push i vc1 s1
              else if tcp_data_len \<noteq> 0 then bind_res (tcp_send_ack vc1 0 s1) (\<lambda>(_, s2). Inr (0, s2))
              else Inr (0, s1))))"

definition tcp_close_wait :: "nat \<Rightarrow> tcp_hdr \<Rightarrow> u32 \<Rightarrow> 'a net_state_scheme \<Rightarrow> (int \<times> 'a net_state_scheme) res" where
  "tcp_close_wait i h src_ip s =
     (let vc = vc_at s i in
      if tcp_flags h AND TH_ACK = 0 then tcp_error i (bytes_of ''ACK flag is not provided\<newline>'') s
      else if tcp_flags h AND TH_FIN = 0 then Inr (0, s)
      else if src_ip \<noteq> ep_ip (guest_side vc) then tcp_error i (wrong_ip_text src_ip vc) s
      else if \<not> check_ack_seq vc h then tcp_error i (bytes_of ''Wrond ack seq\<newline>'') s
      else let vc1 = vc\<lparr>ack_seq := (ack_seq vc)\<lparr>ack_num := ack_num (ack_seq vc) + 1\<rparr>\<rparr> in
           bind_res (tcp_send_ack vc1 0 (vc_set i vc1 s)) (\<lambda>(_, s1).
           Inr (0, vc_set i (vc1\<lparr>vc_state := LISTEN\<rparr>) s1)))"

definition tcp_process :: "tcp_hdr \<Rightarrow> byte list \<Rightarrow> u32 \<Rightarrow> u16 \<Rightarrow> 'a net_state_scheme \<Rightarrow> (int \<times> 'a net_state_scheme) res" where
  "tcp_process h data src_ip tcp_data_len s =
     (case match_tcp_vc h s of
        None \<Rightarrow> Inl NullDeref
      | Some i \<Rightarrow>
          (case vc_state (vc_at s i) of
             LISTEN \<Rightarrow> tcp_listen i h src_ip s
           | SYN_RECEIVED \<Rightarrow> tcp_syn_received i h src_ip s
           | ESTABLISHED \<Rightarrow> tcp_established i h data src_ip tcp_data_len s
           | CLOSE_WAIT \<Rightarrow> tcp_close_wait i h src_ip s
           | st \<Rightarrow> Inr (0, cprintf (bytes_of ''Unimplemented state - '' @ dec (tcp_state_num st) @ bytes_of ''\<newline>'') s)))"

definition tcp_recv :: "(nat \<Rightarrow> byte) \<Rightarrow> byte list \<Rightarrow> 'a net_state_scheme \<Rightarrow> (int \<times> 'a net_state_scheme) res" where
  "tcp_recv junk pkt s =
     bind_res (mem_read pkt 0 IP_HEADER_LEN) (\<lambda>hb.
     let hdr = ip_hdr_of hb;
         sz = uint (JNTOHS (ip_total_length hdr)) - int IP_HEADER_LEN
     in if 0 \<le> sz \<and> sz < int TCP_HEADER_LEN
        then Inr (-1, cprintf (bytes_of ''IP packet too short for TCP header\<newline>'') s)
        else bind_res (ip_copy_data junk pkt sz) (\<lambda>tcp_pkt.
             tcp_process (tcp_hdr_of tcp_pkt) (drop TCP_HEADER_LEN tcp_pkt) (JNTOHL (ip_source_address hdr))
               (of_int (sz - int TCP_HEADER_LEN)) s))"

section \<open>Layout\<close>

lemma length_tcp_hdr_bytes [simp]: "length (tcp_hdr_bytes h) = 20"
  by (simp add: tcp_hdr_bytes_def)

lemma tcp_hdr_roundtrip [simp]: "tcp_hdr_of (tcp_hdr_bytes h @ rest) = h"
  by (simp add: tcp_hdr_of_def tcp_hdr_bytes_def get16_def get32_def nth_append put16_def put32_def)

section \<open>What the operations leave alone\<close>

lemma vc_set_frame [simp]:
  "e1000_wf (vc_set i vc s) = e1000_wf s" "arp_table (vc_set i vc s) = arp_table s"
  "tx_ring (vc_set i vc s) q = tx_ring s q" "rx_ring (vc_set i vc s) q = rx_ring s q"
  "packet_id (vc_set i vc s) = packet_id s" "tcp_vc (vc_set i vc s) = (tcp_vc s)[i := vc]"
  "get_mac_by_ip ip (vc_set i vc s) = get_mac_by_ip ip s" "console (vc_set i vc s) = console s"
  by (simp_all add: vc_set_def ring_defs get_mac_by_ip_def)

lemma sends_vcs: "sends s s' \<Longrightarrow> tcp_vc s' = tcp_vc s"
proof -
  have e: "ip_state.more s = ip_state.more s' \<Longrightarrow> tcp_vc s = tcp_vc s'" for s s' :: "'a net_state_scheme"
    by (cases s, cases s') simp
  show "sends s s' \<Longrightarrow> tcp_vc s' = tcp_vc s" using e by (metis sends_def)
qed

lemma tcp_vc_cprintf [simp]: "tcp_vc (cprintf m s) = tcp_vc s"
  by (simp add: cprintf_def)

lemma tcp_send_sends:
  assumes "e1000_wf s" and "tcp_send vc h d len s = Inr (r, s')"
  shows "sends s s'"
  using assms(2) by (auto simp: tcp_send_def Let_def bind_res_Inr_iff intro: ip_send_sends [OF assms(1)])

lemma tcp_send_ack_sends:
  assumes "e1000_wf s" and "tcp_send_ack vc flags s = Inr (r, s')"
  shows "sends s s'"
  using assms(2) tcp_send_sends [OF assms(1)]
  by (auto simp: tcp_send_ack_def bind_res_Inr_iff split: if_splits)

section \<open>Invariant of the channels\<close>

definition vc_port :: "nat \<Rightarrow> u16" where
  "vc_port i = (if i = 0 then 80 else of_nat i)"

definition vc_ok :: "nat \<Rightarrow> tcp_virtual_channel \<Rightarrow> bool" where
  "vc_ok i vc \<longleftrightarrow> host_side vc = \<lparr>ep_ip = MY_IP, ep_port = vc_port i\<rparr>
     \<and> length (vc_buffer vc) = TCP_WINDOW_SIZE \<and> unat (vc_data_len vc) < TCP_WINDOW_SIZE
     \<and> vc_state vc \<in> {LISTEN, SYN_RECEIVED, ESTABLISHED, CLOSE_WAIT}
     \<and> (vc_state vc \<noteq> ESTABLISHED \<longrightarrow> vc_data_len vc = 0)"

definition tcp_inv :: "tcp_virtual_channel list \<Rightarrow> bool" where
  "tcp_inv vcs \<longleftrightarrow> length vcs = TCP_VC_NUM \<and> (\<forall>i<TCP_VC_NUM. vc_ok i (vcs ! i))"

lemma tcp_inv_set: "tcp_inv vcs \<Longrightarrow> vc_ok i vc \<Longrightarrow> tcp_inv (vcs[i := vc])"
  by (cases "i < length vcs") (auto simp: tcp_inv_def nth_list_update)

lemma vc_port_inj: "i < 64 \<Longrightarrow> j < 64 \<Longrightarrow> vc_port i = vc_port j \<longleftrightarrow> i = j"
proof -
  have u: "unat (vc_port i) = (if i = 0 then 80 else i)" if "i < 64" for i
    using that by (simp add: vc_port_def unat_of_nat_u16)
  assume "i < 64" "j < 64"
  then have "unat (vc_port i) = unat (vc_port j) \<longleftrightarrow> i = j" using u [of i] u [of j] by auto
  then show ?thesis by (simp only: word_unat_eq_iff [symmetric])
qed

lemma match_vc_Some:
  "match_vc port vcs k = Some i \<Longrightarrow> k \<le> i \<and> i < k + length vcs \<and> ep_port (host_side (vcs ! (i - k))) = port"
proof (induction vcs arbitrary: k)
  case (Cons vc vcs)
  show ?case
  proof (cases "ep_port (host_side vc) = port")
    case False
    with Cons.prems have "match_vc port vcs (k + 1) = Some i" by simp
    from Cons.IH [OF this] show ?thesis by (auto simp: nth_Cons' Suc_diff_Suc)
  qed (use Cons.prems in auto)
qed simp

lemma match_vc_index:
  assumes "i < length vcs" "ep_port (host_side (vcs ! i)) = port"
    and "\<forall>j<i. ep_port (host_side (vcs ! j)) \<noteq> port"
  shows "match_vc port vcs k = Some (k + i)"
  using assms
proof (induction vcs arbitrary: i k)
  case (Cons vc vcs)
  show ?case
  proof (cases i)
    case (Suc j)
    with Cons.prems have "match_vc port vcs (k + 1) = Some (k + 1 + j)"
      by (intro Cons.IH) auto
    moreover have "ep_port (host_side vc) \<noteq> port" using Cons.prems(3) Suc by fastforce
    ultimately show ?thesis using Suc by simp
  qed (use Cons.prems in simp)
qed simp

text \<open>A segment for a port of the table reaches the channel with that port.\<close>

lemma match_tcp_vc_port:
  assumes "tcp_inv (tcp_vc s)" and "i < 64" and "JNTOHS (tcp_dst_port h) = vc_port i"
  shows "match_tcp_vc h s = Some i"
proof -
  have p: "ep_port (host_side (tcp_vc s ! j)) = vc_port j" if "j < 64" for j
    using assms(1) that by (simp add: tcp_inv_def vc_ok_def)
  have "\<forall>j<i. vc_port j \<noteq> vc_port i" using assms(2) vc_port_inj by (metis less_irrefl order_less_trans)
  then show ?thesis
    unfolding match_tcp_vc_def using match_vc_index [of i "tcp_vc s" "vc_port i" 0] assms p
    by (simp add: tcp_inv_def)
qed

section \<open>Every segment keeps the invariant\<close>

text \<open>
  What handling a segment may do: append to the transmit queue, print, and move channels
  within the invariant.
\<close>

definition serves :: "'a net_state_scheme \<Rightarrow> 'a net_state_scheme \<Rightarrow> bool" where
  "serves s s' \<longleftrightarrow> e1000_wf s' \<and> arp_table s' = arp_table s \<and> tcp_inv (tcp_vc s')
     \<and> (\<exists>fs. \<forall>q. tx_ring s q \<longrightarrow> tx_ring s' (q @ fs)) \<and> (\<forall>r. rx_ring s r \<longrightarrow> rx_ring s' r)"

lemma serves_cprintf [simp]: "serves s (cprintf m t) = serves s t"
  by (simp add: serves_def)

lemma serves_sends: "sends s t \<Longrightarrow> tcp_inv (tcp_vc s) \<Longrightarrow> serves s t"
  using sends_vcs [of s t] by (simp add: serves_def sends_def)

lemma serves_refl: "e1000_wf s \<Longrightarrow> tcp_inv (tcp_vc s) \<Longrightarrow> serves s s"
  by (simp add: serves_sends sends_refl)

lemma serves_set:
  assumes "sends (vc_set i a s) t" and "tcp_inv (tcp_vc s)" and "vc_ok i b"
  shows "serves s (vc_set i b t)"
  using assms sends_vcs [OF assms(1)] by (simp add: serves_def sends_def tcp_inv_set)

lemma serves_set': "e1000_wf s \<Longrightarrow> tcp_inv (tcp_vc s) \<Longrightarrow> vc_ok i b \<Longrightarrow> serves s (vc_set i b s)"
  by (simp add: serves_def tcp_inv_set) (metis append_Nil2)

lemma serves_trans: "serves s t \<Longrightarrow> serves t u \<Longrightarrow> serves s u"
proof -
  assume "serves s t" "serves t u"
  then obtain fs gs where "\<forall>q. tx_ring s q \<longrightarrow> tx_ring t (q @ fs)" "\<forall>q. tx_ring t q \<longrightarrow> tx_ring u (q @ gs)"
    by (auto simp: serves_def)
  then have "\<forall>q. tx_ring s q \<longrightarrow> tx_ring u (q @ fs @ gs)" by (metis append_assoc)
  with \<open>serves s t\<close> \<open>serves t u\<close> show ?thesis unfolding serves_def by auto
qed

lemma http_parse_frame: "http_parse data len reply s = Inr (r, b, n, s') \<Longrightarrow> \<exists>m. s' = cprintf m s"
proof -
  have id: "\<exists>m. s = cprintf m s" by (intro exI [of _ "[]"]) (simp add: cprintf_def)
  assume p: "http_parse data len reply s = Inr (r, b, n, s')"
  then obtain x where "http_loop data len 0 0 \<lparr>http_method = None, http_URI = None, http_version = None\<rparr> = Inr x"
    unfolding http_parse_def bind_res_Inr_iff by blast
  with p id show ?thesis
    by (cases x) (auto simp: http_parse_def bind_res_Inr_iff Let_def split: if_splits)
qed

lemma tcp_error_serves:
  "e1000_wf s \<Longrightarrow> tcp_inv (tcp_vc s) \<Longrightarrow> tcp_error i m s = Inr (r, s') \<Longrightarrow> serves s s'"
  by (auto simp: tcp_error_def serves_refl)

lemma vc_okD:
  assumes "tcp_inv (tcp_vc s)" "i < 64"
  shows "vc_ok i (vc_at s i)"
  using assms by (simp add: tcp_inv_def vc_at_def)

lemma tcp_listen_serves:
  assumes "e1000_wf s" "tcp_inv (tcp_vc s)" "i < 64" "vc_state (vc_at s i) = LISTEN"
    and "tcp_listen i h src_ip s = Inr (r, s')"
  shows "serves s s'"
proof -
  note ok = vc_okD [OF assms(2,3)] and err = tcp_error_serves [OF assms(1,2)]
  show ?thesis
    using assms(5) err ok assms(1,2,4) unfolding tcp_listen_def Let_def bind_res_Inr_iff
    by (auto split: if_splits simp: bind_res_Inr_iff vc_ok_def intro!: serves_set dest!: tcp_send_ack_sends [rotated])
qed

lemma tcp_syn_received_serves:
  assumes "e1000_wf s" "tcp_inv (tcp_vc s)" "i < 64" "vc_state (vc_at s i) = SYN_RECEIVED"
    and "tcp_syn_received i h src_ip s = Inr (r, s')"
  shows "serves s s'"
  using assms(5) tcp_error_serves [OF assms(1,2)] vc_okD [OF assms(2,3)] assms(1,2,4)
  unfolding tcp_syn_received_def Let_def
  by (auto split: if_splits simp: vc_ok_def intro!: serves_set')

lemma tcp_close_wait_serves:
  assumes "e1000_wf s" "tcp_inv (tcp_vc s)" "i < 64" "vc_state (vc_at s i) = CLOSE_WAIT"
    and "tcp_close_wait i h src_ip s = Inr (r, s')"
  shows "serves s s'"
  using assms(5) tcp_error_serves [OF assms(1,2)] vc_okD [OF assms(2,3)] assms(1,2,4) serves_refl [OF assms(1,2)]
  unfolding tcp_close_wait_def Let_def
  by (auto split: if_splits simp: bind_res_Inr_iff vc_ok_def intro!: serves_set dest!: tcp_send_ack_sends [rotated])

lemma tcp_push_serves:
  assumes "e1000_wf s" "tcp_inv (tcp_vc s)" "i < 64" "vc_at s i = vc" "vc_state vc = ESTABLISHED"
    and "tcp_push i vc s = Inr (r, s')"
  shows "serves s s'"
proof -
  have ok: "vc_ok i vc" using vc_okD [OF assms(2,3)] assms(4) by simp
  have self: "vc_set i vc s = s" using assms(4) [symmetric] by (simp add: vc_set_def vc_at_def)
  from assms(6) obtain q reply n m t r' where t: "tcp_send vc (tcp_new_hdr (TH_ACK OR TH_PSH OR TH_FIN)) reply n (cprintf m s) = Inr (r', t)"
    and fin: "(if r' = -1 then tcp_error i (bytes_of ''tcp send error\<newline>'') t
       else Inr (0, vc_set i (vc\<lparr>ack_seq := (ack_seq vc)\<lparr>seq_num := seq_num (ack_seq vc) + of_nat (n + 1)\<rparr>,
                              vc_data_len := 0, vc_state := CLOSE_WAIT\<rparr>) t)) = Inr (r, s')"
    unfolding tcp_push_def bind_res_Inr_iff by (fastforce simp: bind_res_Inr_iff dest!: http_parse_frame split del: if_split)
  have "sends (cprintf m s) t" using tcp_send_sends [OF _ t] assms(1) by simp
  then have st: "sends s t" using sends_refl [OF assms(1)] by (meson sends_cprintf sends_trans)
  then have "serves s t" using assms(2) by (rule serves_sends)
  then show ?thesis
    using fin st ok self serves_set [of i vc s t] assms(2) by (auto simp: tcp_error_def vc_ok_def split: if_splits)
qed

lemma tcp_established_serves:
  assumes "e1000_wf s" "tcp_inv (tcp_vc s)" "i < 64" "vc_state (vc_at s i) = ESTABLISHED"
    and "tcp_established i h data src_ip l s = Inr (r, s')"
  shows "serves s s'"
proof -
  note ok = vc_okD [OF assms(2,3)] and err = tcp_error_serves [OF assms(1,2)]
  define stored where "stored d = vc_store (vc_at s i) (blit (vc_buffer (vc_at s i)) (unat (vc_data_len (vc_at s i))) d) l" for d
  consider m where "tcp_error i m s = Inr (r, s')"
    | d where "unat (vc_data_len (vc_at s i) + ucast l) < TCP_WINDOW_SIZE"
        "unat (vc_data_len (vc_at s i)) + length d \<le> length (vc_buffer (vc_at s i))"
        "(if tcp_flags h AND TH_PSH \<noteq> 0 then tcp_push i (stored d) (vc_set i (stored d) s)
          else if l \<noteq> 0 then bind_res (tcp_send_ack (stored d) 0 (vc_set i (stored d) s)) (\<lambda>(_, s2). Inr (0, s2))
          else Inr (0, vc_set i (stored d) s)) = Inr (r, s')"
    using assms(5) unfolding tcp_established_def Let_def
    by (smt (verit) stored_def bind_res_Inr_iff mem_read_Inr mem_write_Inr not_le)
  then show ?thesis
  proof cases
    case 1
    then show ?thesis by (rule err)
  next
    case (2 d)
    let ?s = "vc_set i (stored d) s"
    have okd: "vc_ok i (stored d)" "vc_state (stored d) = ESTABLISHED"
      using ok 2(1,2) assms(4) by (simp_all add: vc_ok_def stored_def vc_store_def)
    have s1: "serves s ?s" using assms(1,2) okd(1) by (rule serves_set')
    have w: "e1000_wf ?s" "tcp_inv (tcp_vc ?s)" using s1 by (simp_all add: serves_def)
    have at: "vc_at ?s i = stored d" using assms(2,3) by (simp add: vc_at_def tcp_inv_def)
    have "serves ?s s'"
      using 2(3) tcp_push_serves [OF w assms(3) at okd(2)] serves_refl [OF w] serves_sends [OF _ w(2)]
        tcp_send_ack_sends [OF w(1)]
      by (auto simp: bind_res_Inr_iff split: if_splits)
    with s1 show ?thesis by (rule serves_trans)
  qed
qed

lemma tcp_process_serves:
  assumes "e1000_wf s" "tcp_inv (tcp_vc s)" and "tcp_process h data src_ip l s = Inr (r, s')"
  shows "serves s s'"
proof -
  obtain i where m: "match_tcp_vc h s = Some i" using assms(3) by (auto simp: tcp_process_def split: option.splits)
  then have i: "i < 64" using match_vc_Some [of _ "tcp_vc s" 0 i] assms(2) by (simp add: match_tcp_vc_def tcp_inv_def)
  have "vc_state (vc_at s i) \<in> {LISTEN, SYN_RECEIVED, ESTABLISHED, CLOSE_WAIT}"
    using vc_okD [OF assms(2) i] by (simp add: vc_ok_def)
  then show ?thesis
    using assms(3) m tcp_listen_serves [OF assms(1,2) i] tcp_syn_received_serves [OF assms(1,2) i]
      tcp_established_serves [OF assms(1,2) i] tcp_close_wait_serves [OF assms(1,2) i]
    by (auto simp: tcp_process_def)
qed

lemma tcp_recv_serves:
  assumes "e1000_wf s" "tcp_inv (tcp_vc s)" and "tcp_recv junk pkt s = Inr (r, s')"
  shows "serves s s'"
  using assms(3) tcp_process_serves [OF assms(1,2)] serves_refl [OF assms(1,2)]
  by (auto simp: tcp_recv_def Let_def bind_res_Inr_iff split: if_splits)

section \<open>The segments that are sent\<close>

definition tcp_pseudo :: "u32 \<Rightarrow> u32 \<Rightarrow> nat \<Rightarrow> byte list" where
  "tcp_pseudo src dst n = put32 src @ put32 dst @ [0, IP_PROTO_TCP] @ put16 (JHTONS (of_nat n))"

lemma length_tcp_pseudo [simp]: "length (tcp_pseudo src dst n) = 12"
  by (simp add: tcp_pseudo_def)

text \<open>The 4 byte store of the length clears the first field of the segment.\<close>

lemma tcp_sum_buf_eq:
  assumes "2 \<le> length seg" "length seg \<le> 1466" "ip_protocol hdr = IP_PROTO_TCP"
  shows "tcp_sum_buf hdr seg = Inr (tcp_pseudo (ip_source_address hdr) (ip_destination_address hdr) (length seg) @
     [0, 0] @ drop 2 seg @ replicate (1466 - length seg) 0)"
proof -
  let ?X = "seg @ replicate (1466 - length seg) 0"
  let ?a = "put32 (ip_source_address hdr)" and ?b = "put32 (ip_destination_address hdr)"
  let ?l = "put32 (ucast (JHTONS (of_nat (length seg)) :: u16))"
  have 1: "mem_write (replicate 1478 0) 12 seg = Inr (replicate 12 0 @ ?X)"
    using assms by (simp add: blit_def)
  have 2: "mem_write (replicate 12 0 @ ?X) 0 ?a = Inr (?a @ replicate 8 0 @ ?X)"
    using assms by (simp add: blit_def)
  have 3: "mem_write (?a @ replicate 8 0 @ ?X) 4 ?b = Inr (?a @ ?b @ replicate 4 0 @ ?X)"
    using assms by (simp add: blit_def)
  have 4: "mem_write (?a @ ?b @ replicate 4 0 @ ?X) 8 [0, 6] = Inr (?a @ ?b @ [0, 6] @ replicate 2 0 @ ?X)"
    using assms by (simp add: blit_def)
  have 5: "mem_write (?a @ ?b @ [0, 6] @ replicate 2 0 @ ?X) 10 ?l = Inr (?a @ ?b @ [0, 6] @ ?l @ drop 2 ?X)"
    using assms by (simp add: blit_def)
  show ?thesis
    unfolding tcp_sum_buf_def assms(3) using 1 2 3 4 5 assms(1)
    by (simp add: tcp_pseudo_def put32_ucast)
qed

lemma net_sum_put32: "net_sum (put32 w @ r) = net_sum (put32 w) + net_sum r"
  by (simp add: net_sum_append)

lemma net_sum_tcp: "net_sum (tcp_hdr_bytes h @ d) =
    unat (JNTOHS (tcp_src_port h)) + net_sum (drop 2 (tcp_hdr_bytes (h\<lparr>tcp_checksum := 0\<rparr>)) @ d) +
    unat (JNTOHS (tcp_checksum h))"
proof -
  have 2: "drop 2 (put16 a @ r) = r" for a r by (simp add: put16_def)
  show ?thesis
    unfolding tcp_hdr_bytes_def
    by (simp add: 2 net_sum_put16 [simplified] net_sum_put32) (simp add: JHTONS_def)
qed

definition tcp_fill_hdr :: "tcp_virtual_channel \<Rightarrow> tcp_hdr \<Rightarrow> tcp_hdr" where
  "tcp_fill_hdr vc h = h\<lparr>tcp_seq_num := JHTONL (seq_num (ack_seq vc)), tcp_ack_num := JHTONL (ack_num (ack_seq vc)),
     tcp_src_port := JHTONS (ep_port (host_side vc)), tcp_dst_port := JHTONS (ep_port (guest_side vc)),
     tcp_win_size := JHTONS (of_nat TCP_WINDOW_SIZE), tcp_checksum := 0\<rparr>"

definition tcp_ck :: "tcp_virtual_channel \<Rightarrow> tcp_hdr \<Rightarrow> byte list \<Rightarrow> u16" where
  "tcp_ck vc h d = JHTONS (JNTOHS (ip_checksum
       (tcp_pseudo (JHTONL (ep_ip (host_side vc))) (JHTONL (ep_ip (guest_side vc))) (20 + length d) @
        [0, 0] @ drop 2 (tcp_hdr_bytes (tcp_fill_hdr vc h)) @ d) (32 + length d)) - ep_port (host_side vc))"

text \<open>
  The checksum computed without the source port and then decreased by it is right unless
  the subtraction borrows.
\<close>

lemma tcp_ck_valid:
  assumes h': "h' = (tcp_fill_hdr vc h)\<lparr>tcp_checksum := tcp_ck vc h d\<rparr>"
  shows "65535 dvd net_sum (tcp_pseudo (JHTONL (ep_ip (host_side vc))) (JHTONL (ep_ip (guest_side vc))) (20 + length d) @
      tcp_hdr_bytes h' @ d)
    \<longleftrightarrow> unat (JNTOHS (tcp_ck vc h d)) + unat (ep_port (host_side vc)) < 65536"
proof -
  let ?P = "tcp_pseudo (JHTONL (ep_ip (host_side vc))) (JHTONL (ep_ip (guest_side vc))) (20 + length d)"
  let ?port = "ep_port (host_side vc)"
  let ?rest = "drop 2 (tcp_hdr_bytes (tcp_fill_hdr vc h)) @ d"
  define S where "S = net_sum (?P @ [0, 0] @ ?rest)"
  define ck where "ck = JHTONS (ip_checksum (?P @ [0, 0] @ ?rest) (32 + length d))"
  have len: "length (?P @ [0, 0] @ ?rest) = 32 + length d" by simp
  have ck: "unat ck = 65535 - oc (65535 + S)"
    using ip_checksum_sum [of "32 + length d" "?P @ [0, 0] @ ?rest"] len unfolding ck_def S_def by simp
  have c: "JNTOHS (tcp_ck vc h d) = ck - ?port" by (simp add: tcp_ck_def ck_def)
  have S: "S = net_sum ?P + net_sum ?rest" by (simp add: S_def net_sum_append)
  have f0: "(tcp_fill_hdr vc h)\<lparr>tcp_checksum := 0\<rparr> = tcp_fill_hdr vc h" by (simp add: tcp_fill_hdr_def)
  have "net_sum (?P @ tcp_hdr_bytes h' @ d) = net_sum ?P + (unat ?port + net_sum ?rest + unat (ck - ?port))"
    using c f0 by (simp add: net_sum_append net_sum_tcp h') (simp add: tcp_fill_hdr_def)
  then have sum: "net_sum (?P @ tcp_hdr_bytes h' @ d) = S + (unat ?port + unat (ck - ?port))" by (simp add: S)
  have dv: "65535 dvd S + unat ck" unfolding ck by (rule oc_complement)
  show ?thesis
  proof (cases "unat ?port \<le> unat ck")
    case True
    then have "unat (ck - ?port) = unat ck - unat ?port" by (subst unat_sub) (simp_all add: word_le_nat_alt)
    with True have e: "unat ?port + unat (ck - ?port) = unat ck" by simp
    with unat_u16_less [of ck] have "unat (ck - ?port) + unat ?port < 65536" by linarith
    with dv e show ?thesis unfolding sum c by simp
  next
    case False
    have "unat ck = (unat (ck - ?port) + unat ?port) - (if unat (ck - ?port) + unat ?port < 65536 then 0 else 65536)"
      using unat_add_u16 [of "ck - ?port" ?port] by simp
    with False have e: "unat ?port + unat (ck - ?port) = unat ck + 65536" "\<not> unat (ck - ?port) + unat ?port < 65536"
      by (auto split: if_splits)
    have "\<not> 65535 dvd S + unat ck + 65536"
    proof
      assume "65535 dvd S + unat ck + 65536"
      then have "65535 dvd (65536 :: nat)" using dv by (metis dvd_add_right_iff)
      then show False by simp
    qed
    with e show ?thesis unfolding sum c by (simp add: add.assoc)
  qed
qed

definition tcp_ip_hdr :: "tcp_virtual_channel \<Rightarrow> ip_hdr" where
  "tcp_ip_hdr vc = (ip_hdr_of (replicate IP_HEADER_LEN 0))\<lparr>ip_protocol := IP_PROTO_TCP,
     ip_source_address := JHTONL (ep_ip (host_side vc)), ip_destination_address := JHTONL (ep_ip (guest_side vc))\<rparr>"

lemma tcp_send_eq:
  assumes "len \<le> 1446" "len \<le> length data"
  shows "tcp_send vc h data len s = ip_send (tcp_ip_hdr vc)
    (blit (replicate 1466 0) 0 (tcp_hdr_bytes ((tcp_fill_hdr vc h)\<lparr>tcp_checksum := tcp_ck vc h (take len data)\<rparr>) @ take len data))
    (of_nat (20 + len)) s"
proof -
  let ?h = "tcp_fill_hdr vc h" and ?d = "take len data"
  have rd: "mem_read (tcp_hdr_bytes k @ data) 0 (20 + len) = Inr (tcp_hdr_bytes k @ ?d)" for k
    using assms by simp
  have ip: "ip_protocol (tcp_ip_hdr vc) = 6" "ip_source_address (tcp_ip_hdr vc) = JHTONL (ep_ip (host_side vc))"
    "ip_destination_address (tcp_ip_hdr vc) = JHTONL (ep_ip (guest_side vc))" by (simp_all add: tcp_ip_hdr_def)
  let ?P = "tcp_pseudo (JHTONL (ep_ip (host_side vc))) (JHTONL (ep_ip (guest_side vc))) (20 + len)"
  let ?B = "?P @ [0, 0] @ drop 2 (tcp_hdr_bytes ?h) @ ?d"
  have l: "length (tcp_hdr_bytes ?h @ ?d) = 20 + len" using assms by simp
  have sb: "tcp_sum_buf (tcp_ip_hdr vc) (tcp_hdr_bytes ?h @ ?d) = Inr (?B @ replicate (1446 - len) 0)"
    using tcp_sum_buf_eq [of "tcp_hdr_bytes ?h @ ?d" "tcp_ip_hdr vc"] assms(1) ip l by simp
  have pre: "ip_checksum (?B @ r) (32 + len) = ip_checksum ?B (32 + len)" for r
  proof -
    have lb: "length ?B = 32 + len" using assms by simp
    have "unat (JNTOHS (ip_checksum (B @ r) n)) = unat (JNTOHS (ip_checksum B n))" if "length B = n" for B n
      using ip_checksum_sum [of n "B @ r"] ip_checksum_sum [of n B] that by simp
    from this [OF lb] show ?thesis by (simp only: JNTOHS_unat_inj)
  qed
  have ck: "JHTONS (JNTOHS (ip_checksum (?B @ replicate (1446 - len) 0) (20 + len + 12)) - ep_port (host_side vc)) = tcp_ck vc h ?d"
    unfolding tcp_ck_def using pre assms by (simp add: add.commute)
  have w: "mem_write (replicate 1466 0) 0 (tcp_hdr_bytes k @ ?d) = Inr (blit (replicate 1466 0) 0 (tcp_hdr_bytes k @ ?d))" for k
    using assms by simp
  show ?thesis
    unfolding tcp_send_def Let_def tcp_fill_hdr_def [symmetric] tcp_ip_hdr_def [symmetric] rd bind_res_simps sb ck w ..
qed

lemma tcp_send_ring:
  assumes "tx_ring s q" and "length q < 64"
    and "get_mac_by_ip (JHTONL (ep_ip (guest_side vc))) s = Some mac" "length mac = 6"
    and "len \<le> 1446" "len \<le> length data"
  shows "\<exists>s' ih h'. tcp_send vc h data len s = Inr (0, s')
    \<and> tx_ring s' (q @ [eth_frame mac ETH_TYPE_IP (ip_hdr_bytes ih @ tcp_hdr_bytes h' @ take len data)])
    \<and> ip_hdr_valid ih IP_PROTO_TCP (JHTONL (ep_ip (host_side vc))) (JHTONL (ep_ip (guest_side vc))) (20 + len)
    \<and> h' = (tcp_fill_hdr vc h)\<lparr>tcp_checksum := tcp_ck vc h (take len data)\<rparr>"
proof -
  let ?h = "(tcp_fill_hdr vc h)\<lparr>tcp_checksum := tcp_ck vc h (take len data)\<rparr>"
  let ?seg = "tcp_hdr_bytes ?h @ take len data"
  let ?out = "blit (replicate 1466 0) 0 ?seg"
  have l: "length ?seg = 20 + len" using assms(6) by simp
  have t: "take (20 + len) ?out = ?seg" by (rule take_blit_0_le) (rule l [symmetric])
  have n: "20 + len \<le> 1466" "20 + len \<le> length ?out" using assms(5) l by simp_all
  have dst: "get_mac_by_ip (ip_destination_address (tcp_ip_hdr vc)) s = Some mac"
    using assms(3) by (simp add: tcp_ip_hdr_def)
  note r = ip_send_ring [OF assms(1,2) dst assms(4) n]
  show ?thesis
    unfolding tcp_send_eq [OF assms(5,6)]
    using r unfolding t by (fastforce simp: tcp_ip_hdr_def)
qed

section \<open>One step of a connection\<close>

text \<open>A frame that carries a segment of channel \<open>i\<close> to its peer.\<close>

definition tcp_frame :: "byte list \<Rightarrow> nat \<Rightarrow> tcp_endpoint \<Rightarrow> u32 \<Rightarrow> u32 \<Rightarrow> byte \<Rightarrow> byte list \<Rightarrow> byte list \<Rightarrow> bool" where
  "tcp_frame mac i peer sq ak flags payload f \<longleftrightarrow> (\<exists>ih h.
     f = eth_frame mac ETH_TYPE_IP (ip_hdr_bytes ih @ tcp_hdr_bytes h @ payload)
     \<and> ip_hdr_valid ih IP_PROTO_TCP (JHTONL MY_IP) (JHTONL (ep_ip peer)) (20 + length payload)
     \<and> JNTOHS (tcp_src_port h) = vc_port i \<and> JNTOHS (tcp_dst_port h) = ep_port peer
     \<and> JNTOHL (tcp_seq_num h) = sq \<and> JNTOHL (tcp_ack_num h) = ak \<and> tcp_flags h = flags
     \<and> tcp_offset_ns h = 0x50)"

text \<open>A segment from the peer.\<close>

definition peer_seg :: "nat \<Rightarrow> tcp_endpoint \<Rightarrow> u32 \<Rightarrow> u32 \<Rightarrow> byte \<Rightarrow> tcp_hdr" where
  "peer_seg i peer sq ak flags = (tcp_new_hdr flags)\<lparr>tcp_src_port := JHTONS (ep_port peer),
     tcp_dst_port := JHTONS (vc_port i), tcp_seq_num := JHTONL sq, tcp_ack_num := JHTONL ak\<rparr>"

lemma peer_seg_simps [simp]:
  "tcp_flags (peer_seg i peer sq ak flags) = flags"
  "tcp_dst_port (peer_seg i peer sq ak flags) = JHTONS (vc_port i)"
  "tcp_src_port (peer_seg i peer sq ak flags) = JHTONS (ep_port peer)"
  "tcp_seq_num (peer_seg i peer sq ak flags) = JHTONL sq"
  "tcp_ack_num (peer_seg i peer sq ak flags) = JHTONL ak"
  by (simp_all add: peer_seg_def tcp_new_hdr_def)

text \<open>The link to the peer: a known hardware address and room for \<open>n\<close> more frames.\<close>

definition link_ok :: "byte list \<Rightarrow> tcp_endpoint \<Rightarrow> byte list list \<Rightarrow> nat \<Rightarrow> 'a net_state_scheme \<Rightarrow> bool" where
  "link_ok mac peer q n s \<longleftrightarrow> tx_ring s q \<and> length q + n \<le> 64 \<and> length mac = 6
     \<and> get_mac_by_ip (JHTONL (ep_ip peer)) s = Some mac \<and> tcp_inv (tcp_vc s)"

lemma link_ok_wf: "link_ok mac peer q n s \<Longrightarrow> e1000_wf s"
  unfolding link_ok_def by (metis tx_ringD(1))

lemma link_ok_set: "link_ok mac peer q n s \<Longrightarrow> vc_ok i vc \<Longrightarrow> link_ok mac peer q n (vc_set i vc s)"
  by (simp add: link_ok_def tcp_inv_set)

lemma link_ok_cprintf: "link_ok mac peer q n s \<Longrightarrow> link_ok mac peer q n (cprintf m s)"
  by (simp add: link_ok_def)

lemma link_ok_sends: "link_ok mac peer q n s \<Longrightarrow> sends s t \<Longrightarrow> tx_ring t q' \<Longrightarrow> length q' + m \<le> 64 \<Longrightarrow> link_ok mac peer q' m t"
  using sends_vcs [of s t] by (simp add: link_ok_def sends_def get_mac_by_ip_def)

lemma tcp_send_frame:
  assumes "link_ok mac peer q (Suc n) s" and "host_side vc = \<lparr>ep_ip = MY_IP, ep_port = vc_port i\<rparr>" "guest_side vc = peer"
    and "len \<le> 1446" "len \<le> length data"
  shows "\<exists>s' f. tcp_send vc (tcp_new_hdr flags) data len s = Inr (0, s') \<and> link_ok mac peer (q @ [f]) n s'
    \<and> tcp_vc s' = tcp_vc s
    \<and> tcp_frame mac i peer (seq_num (ack_seq vc)) (ack_num (ack_seq vc)) flags (take len data) f"
proof -
  have l: "tx_ring s q" "length q < 64" "length mac = 6" "get_mac_by_ip (JHTONL (ep_ip (guest_side vc))) s = Some mac"
    using assms(1,3) by (simp_all add: link_ok_def)
  from tcp_send_ring [OF l(1,2,4,3) assms(4,5), of "tcp_new_hdr flags"] obtain s' ih h' where
    r: "tcp_send vc (tcp_new_hdr flags) data len s = Inr (0, s')"
    "tx_ring s' (q @ [eth_frame mac ETH_TYPE_IP (ip_hdr_bytes ih @ tcp_hdr_bytes h' @ take len data)])"
    "ip_hdr_valid ih IP_PROTO_TCP (JHTONL (ep_ip (host_side vc))) (JHTONL (ep_ip (guest_side vc))) (20 + len)"
    "h' = (tcp_fill_hdr vc (tcp_new_hdr flags))\<lparr>tcp_checksum := tcp_ck vc (tcp_new_hdr flags) (take len data)\<rparr>"
    by blast
  let ?f = "eth_frame mac ETH_TYPE_IP (ip_hdr_bytes ih @ tcp_hdr_bytes h' @ take len data)"
  have s: "sends s s'" using tcp_send_sends [OF link_ok_wf [OF assms(1)] r(1)] .
  have "link_ok mac peer (q @ [?f]) n s'"
    using link_ok_sends [OF assms(1) s r(2), of n] assms(1) by (simp add: link_ok_def)
  moreover have "tcp_frame mac i peer (seq_num (ack_seq vc)) (ack_num (ack_seq vc)) flags (take len data) ?f"
    unfolding tcp_frame_def using r(3) assms(2-5)
    by (intro exI [of _ ih] exI [of _ h']) (simp add: r(4) tcp_fill_hdr_def tcp_new_hdr_def)
  ultimately show ?thesis using r(1) sends_vcs [OF s] by blast
qed

lemma tcp_send_ack_frame:
  assumes "link_ok mac peer q (Suc n) s" and "host_side vc = \<lparr>ep_ip = MY_IP, ep_port = vc_port i\<rparr>" "guest_side vc = peer"
  shows "\<exists>s' f. tcp_send_ack vc flags s = Inr (0, s') \<and> link_ok mac peer (q @ [f]) n s' \<and> tcp_vc s' = tcp_vc s
    \<and> tcp_frame mac i peer (seq_num (ack_seq vc)) (ack_num (ack_seq vc)) (flags OR TH_ACK) [] f"
  using tcp_send_frame [OF assms, of 0 "replicate 1446 0" "flags OR TH_ACK"] by (auto simp: tcp_send_ack_def)

text \<open>What a channel remembers between segments.\<close>

definition vc_conn :: "'a net_state_scheme \<Rightarrow> nat \<Rightarrow> tcp_state \<Rightarrow> tcp_endpoint \<Rightarrow> u32 \<Rightarrow> u32 \<Rightarrow> bool" where
  "vc_conn s i st peer sq ak \<longleftrightarrow> vc_state (vc_at s i) = st \<and> guest_side (vc_at s i) = peer
     \<and> ack_seq (vc_at s i) = \<lparr>seq_num = sq, ack_num = ak\<rparr>"

lemma tcp_process_match:
  assumes "link_ok mac peer q n s" "i < 64" "JNTOHS (tcp_dst_port h) = vc_port i"
  shows "match_tcp_vc h s = Some i" "vc_ok i (vc_at s i)" "length (tcp_vc s) = 64"
  using assms match_tcp_vc_port [of s i h] vc_okD [of s i] by (simp_all add: link_ok_def tcp_inv_def)

lemma vc_at_set [simp]: "i < length (tcp_vc s) \<Longrightarrow> vc_at (vc_set i vc s) i = vc"
  by (simp add: vc_at_def)

lemma tcp_syn_step:
  assumes "link_ok mac peer q (Suc n) s" "i < 64" "vc_state (vc_at s i) = LISTEN"
    and "flags AND TH_SYN \<noteq> 0"
  shows "\<exists>s' f. tcp_process (peer_seg i peer x y flags) data (ep_ip peer) l s = Inr (0, s')
    \<and> link_ok mac peer (q @ [f]) n s' \<and> tcp_frame mac i peer x (x + 1) (TH_SYN OR TH_ACK) [] f
    \<and> vc_conn s' i SYN_RECEIVED peer (x + 1) (x + 1) \<and> vc_buffer (vc_at s' i) = vc_buffer (vc_at s i)"
proof -
  let ?h = "peer_seg i peer x y flags"
  note m = tcp_process_match [OF assms(1,2), of ?h, simplified]
  define vc1 where "vc1 = (vc_at s i)\<lparr>guest_side := peer, ack_seq := \<lparr>seq_num = x, ack_num = x + 1\<rparr>\<rparr>"
  define vc2 where "vc2 = vc1\<lparr>ack_seq := \<lparr>seq_num = x + 1, ack_num = x + 1\<rparr>, vc_state := SYN_RECEIVED\<rparr>"
  have ok: "vc_ok i vc1" "vc_ok i vc2" using m(2) assms(3) by (simp_all add: vc_ok_def vc1_def vc2_def)
  then have side: "host_side vc1 = \<lparr>ep_ip = MY_IP, ep_port = vc_port i\<rparr>" "guest_side vc1 = peer"
    by (simp_all add: vc_ok_def vc1_def)
  obtain s1 f where s1: "tcp_send_ack vc1 TH_SYN (vc_set i vc1 s) = Inr (0, s1)" "link_ok mac peer (q @ [f]) n s1"
    "tcp_vc s1 = tcp_vc (vc_set i vc1 s)" "tcp_frame mac i peer x (x + 1) (TH_SYN OR TH_ACK) [] f"
    using tcp_send_ack_frame [OF link_ok_set [OF assms(1) ok(1)] side, of TH_SYN] by (auto simp: vc1_def)
  have p: "\<lparr>ep_ip = ep_ip peer, ep_port = ep_port peer\<rparr> = peer" by (cases peer) simp
  have "tcp_process ?h data (ep_ip peer) l s = Inr (0, vc_set i vc2 s1)"
    using m(1) assms(3,4) s1(1) unfolding tcp_process_def tcp_listen_def Let_def
    by (simp add: match_listen_ip_def vc1_def vc2_def p)
  moreover have "vc_at (vc_set i vc2 s1) i = vc2" using s1(3) m(3) assms(2) by simp
  ultimately show ?thesis
    using link_ok_set [OF s1(2) ok(2)] s1(4) by (auto simp: vc_conn_def vc2_def vc1_def)
qed

lemma tcp_ack_step:
  assumes "link_ok mac peer q n s" "i < 64" "vc_conn s i SYN_RECEIVED peer sq ak" and "flags AND TH_ACK \<noteq> 0"
  shows "\<exists>s'. tcp_process (peer_seg i peer ak sq flags) data (ep_ip peer) l s = Inr (0, s')
    \<and> link_ok mac peer q n s' \<and> vc_conn s' i ESTABLISHED peer sq ak \<and> vc_data_len (vc_at s' i) = 0
    \<and> vc_buffer (vc_at s' i) = vc_buffer (vc_at s i)"
proof -
  let ?h = "peer_seg i peer ak sq flags" and ?vc = "(vc_at s i)\<lparr>vc_state := ESTABLISHED\<rparr>"
  note m = tcp_process_match [OF assms(1,2), of ?h, simplified]
  have ok: "vc_ok i ?vc" "vc_data_len (vc_at s i) = 0" using m(2) assms(3) by (simp_all add: vc_ok_def vc_conn_def)
  have "tcp_process ?h data (ep_ip peer) l s = Inr (0, vc_set i ?vc s)"
    using m(1) assms(3,4) unfolding tcp_process_def tcp_syn_received_def Let_def
    by (simp add: vc_conn_def check_ack_seq_def)
  moreover have "vc_at (vc_set i ?vc s) i = ?vc" using m(3) assms(2) by simp
  ultimately show ?thesis using link_ok_set [OF assms(1) ok(1)] ok(2) assms(3) by (auto simp: vc_conn_def)
qed

lemma tcp_fin_step:
  assumes "link_ok mac peer q (Suc n) s" "i < 64" "vc_conn s i CLOSE_WAIT peer sq ak"
    and "flags AND TH_ACK \<noteq> 0" "flags AND TH_FIN \<noteq> 0"
  shows "\<exists>s' f. tcp_process (peer_seg i peer ak sq flags) data (ep_ip peer) l s = Inr (0, s')
    \<and> link_ok mac peer (q @ [f]) n s' \<and> tcp_frame mac i peer sq (ak + 1) TH_ACK [] f
    \<and> vc_conn s' i LISTEN peer sq (ak + 1)"
proof -
  let ?h = "peer_seg i peer ak sq flags"
  note m = tcp_process_match [OF assms(1,2), of ?h, simplified]
  define vc1 where "vc1 = (vc_at s i)\<lparr>ack_seq := \<lparr>seq_num = sq, ack_num = ak + 1\<rparr>\<rparr>"
  define vc2 where "vc2 = vc1\<lparr>vc_state := LISTEN\<rparr>"
  have ok: "vc_ok i vc1" "vc_ok i vc2" using m(2) assms(3) by (auto simp: vc_ok_def vc1_def vc2_def vc_conn_def)
  then have side: "host_side vc1 = \<lparr>ep_ip = MY_IP, ep_port = vc_port i\<rparr>" "guest_side vc1 = peer"
    using assms(3) by (simp_all add: vc_ok_def vc1_def vc_conn_def)
  obtain s1 f where s1: "tcp_send_ack vc1 0 (vc_set i vc1 s) = Inr (0, s1)" "link_ok mac peer (q @ [f]) n s1"
    "tcp_vc s1 = tcp_vc (vc_set i vc1 s)" "tcp_frame mac i peer sq (ak + 1) TH_ACK [] f"
    using tcp_send_ack_frame [OF link_ok_set [OF assms(1) ok(1)] side, of 0] by (auto simp: vc1_def)
  have "tcp_process ?h data (ep_ip peer) l s = Inr (0, vc_set i vc2 s1)"
    using m(1) assms(3-5) s1(1) unfolding tcp_process_def tcp_close_wait_def Let_def
    by (simp add: vc_conn_def check_ack_seq_def vc1_def vc2_def)
  moreover have "vc_at (vc_set i vc2 s1) i = vc2" using s1(3) m(3) assms(2) by simp
  ultimately show ?thesis
    using link_ok_set [OF s1(2) ok(2)] s1(4) assms(3) by (auto simp: vc_conn_def vc2_def vc1_def)
qed

text \<open>The HTTP answer to the first \<open>n\<close> bytes of a buffer.\<close>

definition http_answer :: "byte list \<Rightarrow> nat \<Rightarrow> byte list" where
  "http_answer buf n = http_text (http_status buf n) (http_page (http_status buf n))"

lemma length_http_answer: "length (http_answer buf n) < 200"
  unfolding http_answer_def by (rule length_http_text [OF http_status_range])

lemma tcp_push_step:
  assumes "link_ok mac peer q (Suc n) s" "i < 64" "vc_conn s i ESTABLISHED peer sq ak"
    and "flags AND TH_ACK \<noteq> 0" "flags AND TH_PSH \<noteq> 0"
    and "length d \<le> 1446" "take (length d) data = d"
    and "unat (vc_data_len (vc_at s i)) + length d + 8 < TCP_WINDOW_SIZE"
  defines "buf \<equiv> blit (vc_buffer (vc_at s i)) (unat (vc_data_len (vc_at s i))) d"
  defines "ans \<equiv> http_answer buf (unat (vc_data_len (vc_at s i)) + length d)"
  shows "\<exists>s' f. tcp_process (peer_seg i peer ak sq flags) data (ep_ip peer) (of_nat (length d)) s = Inr (0, s')
    \<and> link_ok mac peer (q @ [f]) n s'
    \<and> tcp_frame mac i peer sq (ak + of_nat (length d)) (TH_ACK OR TH_PSH OR TH_FIN) ans f
    \<and> vc_conn s' i CLOSE_WAIT peer (sq + of_nat (length ans + 1)) (ak + of_nat (length d))"
proof -
  let ?h = "peer_seg i peer ak sq flags" and ?vc = "vc_at s i"
  let ?l = "of_nat (length d) :: u16"
  note m = tcp_process_match [OF assms(1,2), of ?h, simplified]
  have l: "unat ?l = length d" "ucast ?l = (of_nat (length d) :: u32)"
    using assms(6) by (simp_all add: unat_of_nat_u16 unsigned_of_nat take_bit_eq_mod)
  have dl: "unat (vc_data_len ?vc + ucast ?l) = unat (vc_data_len ?vc) + length d"
    using assms(6,8) l(2) by (simp add: unat_add_u32 unat_of_nat_u32)
  have "length d \<le> length data" using arg_cong [OF assms(7), of length] by simp
  then have rd: "mem_read data 0 (length d) = Inr d" using assms(7) by simp
  define vc1 where "vc1 = vc_store ?vc buf ?l"
  have ok: "vc_ok i vc1" "vc_state vc1 = ESTABLISHED" "vc_buffer vc1 = buf" "unat (vc_data_len vc1) = unat (vc_data_len ?vc) + length d"
    using m(2) assms(3,8) dl by (simp_all add: vc_ok_def vc1_def vc_store_def buf_def vc_conn_def)
  have side: "host_side vc1 = \<lparr>ep_ip = MY_IP, ep_port = vc_port i\<rparr>" "guest_side vc1 = peer"
    "ack_seq vc1 = \<lparr>seq_num = sq, ack_num = ak + of_nat (length d)\<rparr>"
    using ok(1) assms(3) l(2) by (simp_all add: vc_ok_def vc1_def vc_conn_def vc_store_def)
  let ?s1 = "vc_set i vc1 s"
  have lb: "length buf = 14460" using ok by (simp add: vc_ok_def)
  obtain msg where hp: "http_parse buf (unat (vc_data_len vc1)) (replicate 1446 0) ?s1 =
      Inr (0, blit (replicate 1446 0) 0 (ans @ [0]), length ans, cprintf msg ?s1)"
    using http_parse_eq [of "unat (vc_data_len vc1)" buf "replicate 1446 0" ?s1] lb assms(8) ok(4)
    by (auto simp: ans_def http_answer_def Let_def)
  have la: "length ans < 200" unfolding ans_def by (rule length_http_answer)
  have tk: "take (length ans) (blit (replicate 1446 0) 0 (ans @ [0])) = ans" by (simp add: blit_def)
  obtain s2 f where s2: "tcp_send vc1 (tcp_new_hdr (TH_ACK OR TH_PSH OR TH_FIN)) (blit (replicate 1446 0) 0 (ans @ [0])) (length ans)
       (cprintf msg ?s1) = Inr (0, s2)" "link_ok mac peer (q @ [f]) n s2" "tcp_vc s2 = tcp_vc ?s1"
    "tcp_frame mac i peer sq (ak + of_nat (length d)) (TH_ACK OR TH_PSH OR TH_FIN) ans f"
    using tcp_send_frame [OF link_ok_cprintf [OF link_ok_set [OF assms(1) ok(1)], of msg] side(1,2), of "length ans" "blit (replicate 1446 0) 0 (ans @ [0])"
        "TH_ACK OR TH_PSH OR TH_FIN"] la side(3)
    unfolding tk by auto
  define vc2 where "vc2 = vc1\<lparr>ack_seq := \<lparr>seq_num = sq + of_nat (length ans + 1), ack_num = ak + of_nat (length d)\<rparr>,
      vc_data_len := 0, vc_state := CLOSE_WAIT\<rparr>"
  have push: "tcp_push i vc1 ?s1 = Inr (0, vc_set i vc2 s2)"
    unfolding tcp_push_def ok(3) hp using s2(1) side(3) by (simp add: vc2_def)
  have "tcp_process ?h data (ep_ip peer) ?l s = tcp_established i ?h data (ep_ip peer) ?l s"
    using m(1) assms(3) by (simp add: tcp_process_def vc_conn_def)
  also have "\<dots> = tcp_push i vc1 ?s1"
    using assms(3-6,8) rd dl l(1) m(2) unfolding tcp_established_def Let_def vc1_def buf_def
    by (simp add: vc_conn_def check_ack_seq_def vc_ok_def)
  finally have "tcp_process ?h data (ep_ip peer) ?l s = Inr (0, vc_set i vc2 s2)" using push by simp
  moreover have "vc_at (vc_set i vc2 s2) i = vc2" using s2(3) m(3) assms(2) by simp
  moreover have "vc_ok i vc2" using ok(1) by (simp add: vc_ok_def vc2_def)
  ultimately show ?thesis
    using link_ok_set [OF s2(2), of i vc2] s2(4) side(2) by (auto simp: vc_conn_def vc2_def)
qed

section \<open>Initial channels\<close>

text \<open>The channels before initialisation: static storage, all zero.\<close>

definition vc_bss :: tcp_virtual_channel where
  "vc_bss = \<lparr>vc_state = CLOSED, host_side = \<lparr>ep_ip = 0, ep_port = 0\<rparr>, guest_side = \<lparr>ep_ip = 0, ep_port = 0\<rparr>,
     ack_seq = \<lparr>seq_num = 0, ack_num = 0\<rparr>, vc_buffer = replicate TCP_WINDOW_SIZE 0, vc_data_len = 0\<rparr>"

definition net_bss :: "'a net_state_scheme \<Rightarrow> bool" where
  "net_bss s \<longleftrightarrow> tcp_vc s = replicate TCP_VC_NUM vc_bss"

lemma tcp_init_loop_nth:
  "i + n \<le> length vcs \<Longrightarrow> length (tcp_init_loop i n vcs) = length vcs \<and>
   (\<forall>j<length vcs. tcp_init_loop i n vcs ! j = (if i \<le> j \<and> j < i + n then vc_listen (of_nat j) (vcs ! j) else vcs ! j))"
proof (induction n arbitrary: i vcs)
  case (Suc n)
  from Suc.IH [of "i + 1" "vcs[i := vc_listen (of_nat i) (vcs ! i)]"] Suc.prems show ?case
    by (auto simp: nth_list_update)
qed auto

lemma tcp_init_vc_nth:
  assumes "net_bss s"
  shows "length (tcp_vc (tcp_init_vc s)) = 64" "j < 64 \<Longrightarrow> tcp_vc (tcp_init_vc s) ! j = vc_listen (vc_port j) vc_bss"
proof -
  let ?v = "(tcp_vc s)[0 := vc_listen 80 (tcp_vc s ! 0)]"
  have v: "length ?v = 64" "\<And>j. j < 64 \<Longrightarrow> ?v ! j = (if j = 0 then vc_listen 80 vc_bss else vc_bss)"
    using assms by (auto simp: net_bss_def nth_list_update)
  note l = tcp_init_loop_nth [of 1 63 ?v]
  show "length (tcp_vc (tcp_init_vc s)) = 64" using l v(1) by (simp add: tcp_init_vc_def Let_def)
  show "j < 64 \<Longrightarrow> tcp_vc (tcp_init_vc s) ! j = vc_listen (vc_port j) vc_bss"
    using l v(1) v(2) [of j] by (cases "j = 0") (simp_all add: tcp_init_vc_def Let_def vc_port_def)
qed

lemma tcp_init_vc_inv: "net_bss s \<Longrightarrow> tcp_inv (tcp_vc (tcp_init_vc s))"
  using tcp_init_vc_nth [of s] by (simp add: tcp_inv_def vc_ok_def vc_listen_def vc_bss_def)

lemma tcp_init_vc_frame [simp]:
  "tx_ring (tcp_init_vc s) q = tx_ring s q" "rx_ring (tcp_init_vc s) q = rx_ring s q"
  "arp_table (tcp_init_vc s) = arp_table s" "get_mac_by_ip ip (tcp_init_vc s) = get_mac_by_ip ip s"
  by (simp_all add: tcp_init_vc_def Let_def ring_defs get_mac_by_ip_def)

lemma tcp_init_vc_listen:
  assumes "net_bss s" "i < 64"
  shows "vc_state (vc_at (tcp_init_vc s) i) = LISTEN" "vc_buffer (vc_at (tcp_init_vc s) i) = replicate TCP_WINDOW_SIZE 0"
  using tcp_init_vc_nth(2) [OF assms] by (simp_all add: vc_at_def vc_listen_def vc_bss_def)

definition net_boot :: "u32 \<Rightarrow> byte list \<Rightarrow> net_state" where
  "net_boot ip mac = tcp_init_vc (boot_knowing ip mac (net_state.fields (replicate TCP_VC_NUM vc_bss)))"

lemma net_boot_facts:
  "tx_ring (net_boot ip mac) []" "rx_ring (net_boot ip mac) []" "get_mac_by_ip ip (net_boot ip mac) = Some mac"
  "tcp_inv (tcp_vc (net_boot ip mac))" "i < 64 \<Longrightarrow> vc_state (vc_at (net_boot ip mac) i) = LISTEN"
  "i < 64 \<Longrightarrow> vc_buffer (vc_at (net_boot ip mac) i) = replicate TCP_WINDOW_SIZE 0"
proof -
  let ?s = "boot_knowing ip mac (net_state.fields (replicate TCP_VC_NUM vc_bss)) :: net_state"
  have "ip_state.more ?s = net_state.fields (replicate TCP_VC_NUM vc_bss)"
    by (simp add: boot_knowing_def ip_boot_with_facts)
  then have b: "net_bss ?s" unfolding net_bss_def by (cases ?s) (simp add: net_state.defs)
  show "tx_ring (net_boot ip mac) []" "rx_ring (net_boot ip mac) []" "get_mac_by_ip ip (net_boot ip mac) = Some mac"
    by (simp_all add: net_boot_def)
  show "tcp_inv (tcp_vc (net_boot ip mac))" unfolding net_boot_def using b by (rule tcp_init_vc_inv)
  show "i < 64 \<Longrightarrow> vc_state (vc_at (net_boot ip mac) i) = LISTEN"
    "i < 64 \<Longrightarrow> vc_buffer (vc_at (net_boot ip mac) i) = replicate TCP_WINDOW_SIZE 0"
    unfolding net_boot_def using tcp_init_vc_listen [OF b] by simp_all
qed

section \<open>Properties\<close>

text \<open>
  C5: A whole connection. For a listening channel, a peer whose hardware address is known
  and room for three frames, the four segments of an exchange are all accepted: the SYN is
  answered by a SYN with the acknowledgement, the ACK establishes the connection, the
  pushed request is answered by one segment that carries the HTTP answer and the FIN,
  and the peer's FIN is acknowledged. Exactly these three frames are queued, the sequence
  and acknowledgement numbers advance by the lengths (with one for SYN and for FIN), and
  the channel listens again.
\<close>

theorem tcp_session:
  assumes "link_ok mac peer q 3 s" "i < 64" "vc_state (vc_at s i) = LISTEN"
    and "length d \<le> 1446" "take (length d) data = d"
  defines "ans \<equiv> http_answer (blit (vc_buffer (vc_at s i)) 0 d) (length d)"
  shows "\<exists>s1 s2 s3 s4 f1 f2 f3.
      tcp_process (peer_seg i peer x y TH_SYN) data (ep_ip peer) l s = Inr (0, s1)
    \<and> tcp_process (peer_seg i peer (x + 1) (x + 1) TH_ACK) data (ep_ip peer) l s1 = Inr (0, s2)
    \<and> tcp_process (peer_seg i peer (x + 1) (x + 1) (TH_ACK OR TH_PSH)) data (ep_ip peer) (of_nat (length d)) s2 = Inr (0, s3)
    \<and> tcp_process (peer_seg i peer (x + 1 + of_nat (length d)) (x + 1 + of_nat (length ans + 1)) (TH_ACK OR TH_FIN))
        data (ep_ip peer) l s3 = Inr (0, s4)
    \<and> tx_ring s4 (q @ [f1, f2, f3])
    \<and> tcp_frame mac i peer x (x + 1) (TH_SYN OR TH_ACK) [] f1
    \<and> tcp_frame mac i peer (x + 1) (x + 1 + of_nat (length d)) (TH_ACK OR TH_PSH OR TH_FIN) ans f2
    \<and> tcp_frame mac i peer (x + 1 + of_nat (length ans + 1)) (x + 1 + of_nat (length d) + 1) TH_ACK [] f3
    \<and> vc_state (vc_at s4 i) = LISTEN \<and> tcp_inv (tcp_vc s4)"
proof -
  obtain s1 f1 where 1: "tcp_process (peer_seg i peer x y TH_SYN) data (ep_ip peer) l s = Inr (0, s1)"
    "link_ok mac peer (q @ [f1]) 2 s1" "tcp_frame mac i peer x (x + 1) (TH_SYN OR TH_ACK) [] f1"
    "vc_conn s1 i SYN_RECEIVED peer (x + 1) (x + 1)" "vc_buffer (vc_at s1 i) = vc_buffer (vc_at s i)"
    using tcp_syn_step [of mac peer q 2 s i TH_SYN x y data l] assms(1-3) by auto
  obtain s2 where 2: "tcp_process (peer_seg i peer (x + 1) (x + 1) TH_ACK) data (ep_ip peer) l s1 = Inr (0, s2)"
    "link_ok mac peer (q @ [f1]) 2 s2" "vc_conn s2 i ESTABLISHED peer (x + 1) (x + 1)" "vc_data_len (vc_at s2 i) = 0"
    "vc_buffer (vc_at s2 i) = vc_buffer (vc_at s i)"
    using tcp_ack_step [OF 1(2) assms(2) 1(4), of TH_ACK data l] 1(5) by auto
  have l2: "link_ok mac peer (q @ [f1]) (Suc 1) s2" using 2(2) by (simp add: numeral_2_eq_2)
  obtain s3 f2 where 3: "tcp_process (peer_seg i peer (x + 1) (x + 1) (TH_ACK OR TH_PSH)) data (ep_ip peer) (of_nat (length d)) s2 = Inr (0, s3)"
    "link_ok mac peer (q @ [f1] @ [f2]) 1 s3"
    "tcp_frame mac i peer (x + 1) (x + 1 + of_nat (length d)) (TH_ACK OR TH_PSH OR TH_FIN) ans f2"
    "vc_conn s3 i CLOSE_WAIT peer (x + 1 + of_nat (length ans + 1)) (x + 1 + of_nat (length d))"
    using tcp_push_step [OF l2 assms(2) 2(3), of "TH_ACK OR TH_PSH" d data] assms(4,5) 2(4,5)
    unfolding ans_def by auto
  have l3: "link_ok mac peer (q @ [f1] @ [f2]) (Suc 0) s3" using 3(2) by simp
  obtain s4 f3 where 4: "tcp_process (peer_seg i peer (x + 1 + of_nat (length d)) (x + 1 + of_nat (length ans + 1)) (TH_ACK OR TH_FIN))
      data (ep_ip peer) l s3 = Inr (0, s4)" "link_ok mac peer (q @ [f1, f2, f3]) 0 s4"
    "tcp_frame mac i peer (x + 1 + of_nat (length ans + 1)) (x + 1 + of_nat (length d) + 1) TH_ACK [] f3"
    "vc_conn s4 i LISTEN peer (x + 1 + of_nat (length ans + 1)) (x + 1 + of_nat (length d) + 1)"
    using tcp_fin_step [OF l3 assms(2) 3(4), of "TH_ACK OR TH_FIN" data l] by auto
  show ?thesis
    using 1(1,3) 2(1) 3(1,3) 4 unfolding link_ok_def vc_conn_def by blast
qed

lemma net_boot_link:
  "length mac = 6 \<Longrightarrow> link_ok mac \<lparr>ep_ip = ip, ep_port = p\<rparr> [] 3 (net_boot (JHTONL ip) mac)"
  by (simp add: link_ok_def net_boot_facts)

theorem tcp_session_witness:
  "\<exists>s1 s2 s3 s4 f1 f2 f3 ans.
      tcp_process (peer_seg 0 \<lparr>ep_ip = HOST_IP, ep_port = 40000\<rparr> 1000 0 TH_SYN) (bytes_of ''GET / HTTP/1.1'') HOST_IP 0
        (net_boot (JHTONL HOST_IP) default_mac) = Inr (0, s1)
    \<and> tcp_process (peer_seg 0 \<lparr>ep_ip = HOST_IP, ep_port = 40000\<rparr> (1000 + 1) (1000 + 1) TH_ACK) (bytes_of ''GET / HTTP/1.1'') HOST_IP 0 s1 = Inr (0, s2)
    \<and> tcp_process (peer_seg 0 \<lparr>ep_ip = HOST_IP, ep_port = 40000\<rparr> (1000 + 1) (1000 + 1) (TH_ACK OR TH_PSH)) (bytes_of ''GET / HTTP/1.1'') HOST_IP (of_nat 14) s2 = Inr (0, s3)
    \<and> tcp_process (peer_seg 0 \<lparr>ep_ip = HOST_IP, ep_port = 40000\<rparr> (1000 + 1 + of_nat 14) (1000 + 1 + of_nat (length ans + 1)) (TH_ACK OR TH_FIN))
        (bytes_of ''GET / HTTP/1.1'') HOST_IP 0 s3 = Inr (0, s4)
    \<and> tx_ring s4 [f1, f2, f3]
    \<and> tcp_frame default_mac 0 \<lparr>ep_ip = HOST_IP, ep_port = 40000\<rparr> (1000 + 1) (1000 + 1 + of_nat 14) (TH_ACK OR TH_PSH OR TH_FIN) ans f2
    \<and> vc_state (vc_at s4 0) = LISTEN"
proof -
  let ?d = "bytes_of ''GET / HTTP/1.1''" and ?peer = "\<lparr>ep_ip = HOST_IP, ep_port = 40000\<rparr>"
  let ?s = "net_boot (JHTONL HOST_IP) default_mac"
  have mac: "length default_mac = 6" by (simp add: default_mac_def)
  have l: "length ?d = 14" by simp
  have e: "ep_ip ?peer = HOST_IP" "[] @ xs = xs" for xs :: "byte list list" by simp_all
  have "length ?d \<le> 1446" "take (length ?d) ?d = ?d" "(0 :: nat) < 64" by simp_all
  note t = tcp_session [OF net_boot_link [OF mac, of HOST_IP 40000] this(3) net_boot_facts(5) [OF this(3)] this(1,2),
      of 1000 0 0, unfolded l e]
  then show ?thesis by (elim exE conjE) (intro exI conjI, assumption+)
qed

text \<open>
  The checksum of an outgoing segment. \<^verbatim>\<open>tcp_send\<close> stores the 16 bit length through a 32 bit
  integer, which clears the source port in the summed buffer, and subtracts the port from
  the checksum afterwards. The segment with its pseudo header then sums to zero, as
  a receiver requires, exactly when that subtraction does not borrow; otherwise the
  segment is sent with a wrong checksum.
\<close>

theorem tcp_checksum_borrow:
  assumes "tx_ring s q" and "length q < 64"
    and "get_mac_by_ip (JHTONL (ep_ip (guest_side vc))) s = Some mac" "length mac = 6"
    and "len \<le> 1446" "len \<le> length data"
  shows "\<exists>s' ih h'. tcp_send vc h data len s = Inr (0, s')
    \<and> tx_ring s' (q @ [eth_frame mac ETH_TYPE_IP (ip_hdr_bytes ih @ tcp_hdr_bytes h' @ take len data)])
    \<and> (65535 dvd net_sum (tcp_pseudo (JHTONL (ep_ip (host_side vc))) (JHTONL (ep_ip (guest_side vc))) (20 + len) @
          tcp_hdr_bytes h' @ take len data)
        \<longleftrightarrow> unat (JNTOHS (tcp_checksum h')) + unat (ep_port (host_side vc)) < 65536)"
proof -
  have l: "length (take len data) = len" using assms(6) by simp
  from tcp_send_ring [OF assms, of h] obtain s' ih h' where
    "tcp_send vc h data len s = Inr (0, s')"
    "tx_ring s' (q @ [eth_frame mac ETH_TYPE_IP (ip_hdr_bytes ih @ tcp_hdr_bytes h' @ take len data)])"
    and h': "h' = (tcp_fill_hdr vc h)\<lparr>tcp_checksum := tcp_ck vc h (take len data)\<rparr>" by blast
  moreover from h' have "tcp_checksum h' = tcp_ck vc h (take len data)" by simp
  ultimately show ?thesis using tcp_ck_valid [OF h'] unfolding l by metis
qed

theorem tcp_checksum_borrow_witness:
  "\<exists>s' ih h'. tcp_send vc_bss (tcp_new_hdr TH_ACK) [1, 2, 3] 2 (net_boot 0 default_mac) = Inr (0, s')
    \<and> tx_ring s' [eth_frame default_mac ETH_TYPE_IP (ip_hdr_bytes ih @ tcp_hdr_bytes h' @ [1, 2])]
    \<and> 65535 dvd net_sum (tcp_pseudo 0 0 22 @ tcp_hdr_bytes h' @ [1, 2])"
proof -
  have mac: "length default_mac = 6" by (simp add: default_mac_def)
  have z: "JHTONL 0 = 0" by (simp add: JHTONL_def)
  from tcp_checksum_borrow [OF net_boot_facts(1) [of 0 default_mac], of vc_bss default_mac 2 "[1, 2, 3]" "tcp_new_hdr TH_ACK"]
    net_boot_facts(3) [of 0 default_mac] mac
  show ?thesis by (auto simp: vc_bss_def z)
qed

text \<open>The segments a channel acts on, state by state.\<close>

definition tcp_accepts :: "tcp_virtual_channel \<Rightarrow> tcp_hdr \<Rightarrow> u32 \<Rightarrow> u16 \<Rightarrow> bool" where
  "tcp_accepts vc h src_ip l =
     (let in_sequence = (tcp_flags h AND TH_ACK \<noteq> 0 \<and> src_ip = ep_ip (guest_side vc) \<and> check_ack_seq vc h) in
      case vc_state vc of
        LISTEN \<Rightarrow> tcp_flags h AND TH_SYN \<noteq> 0 \<and> match_listen_ip vc src_ip
      | SYN_RECEIVED \<Rightarrow> in_sequence
      | ESTABLISHED \<Rightarrow> in_sequence \<and> unat (vc_data_len vc + ucast l) < TCP_WINDOW_SIZE
      | CLOSE_WAIT \<Rightarrow> in_sequence \<and> tcp_flags h AND TH_FIN \<noteq> 0
      | _ \<Rightarrow> False)"

text \<open>Of the others, those it passes over without an error: in the states without code, and what is not the end of the connection while that is awaited.\<close>

definition tcp_ignores :: "tcp_virtual_channel \<Rightarrow> tcp_hdr \<Rightarrow> bool" where
  "tcp_ignores vc h = (case vc_state vc of
        LISTEN \<Rightarrow> False | SYN_RECEIVED \<Rightarrow> False | ESTABLISHED \<Rightarrow> False
      | CLOSE_WAIT \<Rightarrow> tcp_flags h AND TH_ACK \<noteq> 0 \<and> tcp_flags h AND TH_FIN = 0
      | _ \<Rightarrow> True)"

lemma cprintf_none: "cprintf [] s = s"
  by (simp add: cprintf_def)

text \<open>
  C30: a segment that its channel does not act on changes nothing but the console, in any state of the channel: no frame is queued and no channel moves. A
  listening channel acts on a SYN from an admitted address; the later states on a segment with ACK, from the address of the peer and with the
  sequence and acknowledgement numbers expected, which must also fit the buffer when established and carry FIN while the end is awaited. The others get -1,
  except that a segment with ACK and without FIN is passed over with 0 while the end is awaited, and every segment is in the states that have no code.
  The port of the sender is not among what is compared (\<open>tcp_source_port_ignored\<close>).
\<close>

theorem tcp_rejects:
  assumes "match_tcp_vc h s = Some i" "\<not> tcp_accepts (vc_at s i) h src_ip l"
  shows "\<exists>m. tcp_process h data src_ip l s = Inr (if tcp_ignores (vc_at s i) h then 0 else -1, cprintf m s)"
proof (cases "vc_state (vc_at s i)")
  case LISTEN
  then show ?thesis using assms by (auto simp: tcp_process_def tcp_listen_def tcp_accepts_def tcp_ignores_def tcp_error_def Let_def)
next
  case SYN_RECEIVED
  then show ?thesis using assms by (auto simp: tcp_process_def tcp_syn_received_def tcp_accepts_def tcp_ignores_def tcp_error_def Let_def)
next
  case ESTABLISHED
  then show ?thesis using assms by (auto simp: tcp_process_def tcp_established_def tcp_accepts_def tcp_ignores_def tcp_error_def Let_def)
next
  case CLOSE_WAIT
  have "\<exists>m. tcp_close_wait i h src_ip s = Inr (if tcp_ignores (vc_at s i) h then 0 else -1, cprintf m s)"
    using assms CLOSE_WAIT exI [of _ "[]", where P = "\<lambda>m. s = cprintf m s"]
    by (auto simp: tcp_close_wait_def tcp_accepts_def tcp_ignores_def tcp_error_def Let_def cprintf_none)
  then show ?thesis using assms(1) CLOSE_WAIT by (simp add: tcp_process_def)
qed (use assms(1) in \<open>auto simp: tcp_process_def tcp_ignores_def\<close>)

text \<open>
  A connection is told apart by the address of the peer alone: once a channel has left the state LISTEN, the source port of a segment makes no difference to what is
  done with it.
\<close>

lemma tcp_source_port_ignored:
  assumes "match_tcp_vc h s = Some i" "vc_state (vc_at s i) \<noteq> LISTEN"
  shows "tcp_process (h\<lparr>tcp_src_port := p\<rparr>) data src_ip l s = tcp_process h data src_ip l s"
proof -
  have m: "match_tcp_vc (h\<lparr>tcp_src_port := p\<rparr>) s = Some i" using assms(1) by (simp add: match_tcp_vc_def)
  have c: "check_ack_seq vc (h\<lparr>tcp_src_port := p\<rparr>) = check_ack_seq vc h" for vc by (simp add: check_ack_seq_def)
  show ?thesis using assms(2)
    by (cases "vc_state (vc_at s i)") (simp_all add: tcp_process_def assms(1) m c tcp_syn_received_def tcp_established_def tcp_close_wait_def Let_def)
qed

theorem tcp_rejects_witness:
  "\<exists>m. tcp_process (peer_seg 5 \<lparr>ep_ip = HOST_IP, ep_port = 9\<rparr> 7 7 TH_SYN) [] HOST_IP 0
     (vc_set 5 (vc_at (net_boot 1 default_mac) 5\<lparr>vc_state := ESTABLISHED\<rparr>) (net_boot 1 default_mac)) =
     Inr (-1, cprintf m (vc_set 5 (vc_at (net_boot 1 default_mac) 5\<lparr>vc_state := ESTABLISHED\<rparr>) (net_boot 1 default_mac)))"
proof -
  let ?b = "net_boot 1 default_mac"
  let ?v = "vc_at ?b 5\<lparr>vc_state := ESTABLISHED\<rparr>"
  have inv: "tcp_inv (tcp_vc ?b)" by (rule net_boot_facts)
  then have "vc_ok 5 ?v" using vc_okD [OF inv, of 5] net_boot_facts(5) [of 5 1 default_mac] by (simp add: vc_ok_def)
  then have "tcp_inv (tcp_vc (vc_set 5 ?v ?b))" using inv by (simp add: tcp_inv_set)
  then have "match_tcp_vc (peer_seg 5 \<lparr>ep_ip = HOST_IP, ep_port = 9\<rparr> 7 7 TH_SYN) (vc_set 5 ?v ?b) = Some 5"
    by (rule match_tcp_vc_port) simp_all
  moreover have "vc_at (vc_set 5 ?v ?b) 5 = ?v" using inv by (intro vc_at_set) (simp add: tcp_inv_def)
  ultimately show ?thesis
    using tcp_rejects [of "peer_seg 5 \<lparr>ep_ip = HOST_IP, ep_port = 9\<rparr> 7 7 TH_SYN" "vc_set 5 ?v ?b" 5 HOST_IP 0 "[]"]
    by (simp add: tcp_accepts_def tcp_ignores_def)
qed

text \<open>
  A segment for a port outside the table stops the kernel: no channel matches, and the
  error path prints the state of the channel through a null pointer.
\<close>

theorem tcp_unknown_port:
  assumes "tcp_inv (tcp_vc s)" and "\<forall>i<64. JNTOHS (tcp_dst_port h) \<noteq> vc_port i"
  shows "tcp_process h data src_ip l s = Inl NullDeref"
proof (cases "match_tcp_vc h s")
  case (Some i)
  then have "i < 64" "ep_port (host_side (tcp_vc s ! i)) = JNTOHS (tcp_dst_port h)"
    using match_vc_Some [of _ "tcp_vc s" 0 i] assms(1) by (simp_all add: match_tcp_vc_def tcp_inv_def)
  moreover from \<open>i < 64\<close> have "ep_port (host_side (tcp_vc s ! i)) = vc_port i"
    using assms(1) by (simp add: tcp_inv_def vc_ok_def)
  ultimately show ?thesis using assms(2) by metis
qed (simp add: tcp_process_def)

theorem tcp_unknown_port_witness:
  "tcp_process ((tcp_new_hdr TH_SYN)\<lparr>tcp_dst_port := JHTONS 8080\<rparr>) [] 1 0 (net_boot 1 default_mac) = Inl NullDeref"
proof -
  have "(8080 :: u16) \<noteq> vc_port i" if "i < 64" for i
  proof
    assume "8080 = vc_port i"
    then have "unat (vc_port i) = 8080" by simp
    with that show False by (simp add: vc_port_def unat_of_nat_u16 split: if_splits)
  qed
  then show ?thesis
    using tcp_unknown_port [OF net_boot_facts(4), of "(tcp_new_hdr TH_SYN)\<lparr>tcp_dst_port := JHTONS 8080\<rparr>"] by simp
qed

end
