(* ===== verification/NetRecv.thy ===== *)
theory NetRecv
  imports Tcp
begin

text \<open>
  The receiving side of the stack (\<^verbatim>\<open>ip_recv\<close> in \<^verbatim>\<open>kern/ip.c\<close>, \<^verbatim>\<open>eth_recv\<close> in
  \<^verbatim>\<open>kern/ethernet.c\<close>, the loop \<^verbatim>\<open>mon_eth_recv\<close> in \<^verbatim>\<open>kern/monitor.c\<close>) and the machine it runs on:
  a step relation in which the card delivers and sends frames and the loop handles
  them one by one.

  The locals of the handlers start with indeterminate contents: \<open>junk k\<close> is the contents of
  the k-th of them.
\<close>

abbreviation (input) E_BAD_ETH_TYPE :: int where "E_BAD_ETH_TYPE \<equiv> 20"
abbreviation (input) E_UNS_VER :: int where "E_UNS_VER \<equiv> 21"
abbreviation (input) E_INV_CHS :: int where "E_INV_CHS \<equiv> 22"

section \<open>Dispatch\<close>

definition ip_recv :: "(nat \<Rightarrow> nat \<Rightarrow> byte) \<Rightarrow> byte list \<Rightarrow> 'a net_state_scheme \<Rightarrow> (int \<times> 'a net_state_scheme) res" where
  "ip_recv junk pkt s =
     bind_res (mem_read pkt 0 IP_HEADER_LEN) (\<lambda>hb.
     let hdr = ip_hdr_of hb in
     if ip_verlen hdr \<noteq> IP_VER_LEN then Inr (- E_UNS_VER, s)
     else let checksum = ip_header_checksum hdr;
              hdr0 = hdr\<lparr>ip_header_checksum := 0\<rparr>;
              pkt0 = blit pkt 0 (ip_hdr_bytes hdr0)
     in if checksum \<noteq> ip_checksum pkt0 IP_HEADER_LEN then Inr (- E_INV_CHS, s)
        else if ip_protocol hdr0 = IP_PROTO_TCP then tcp_recv (junk 0) pkt0 s
        else if ip_protocol hdr0 = IP_PROTO_UDP then udp_recv (junk 1) (junk 2) pkt0 s
        else if ip_protocol hdr0 = IP_PROTO_ICMP then icmp_echo_reply (junk 3) pkt0 s
        else Inr (0, s))"

definition eth_recv :: "(nat \<Rightarrow> nat \<Rightarrow> byte) \<Rightarrow> byte list \<Rightarrow> 'a net_state_scheme \<Rightarrow> (int \<times> 'a net_state_scheme) res" where
  "eth_recv junk data s =
     bind_res (e1000_receive (uninit (junk 4) (ETH_MAX_PACKET_SIZE + 1)) s) (\<lambda>(sz, buf, s1).
     if sz \<le> 0 then Inr (sz, s1)
     else let hdr0 = eth_hdr_of (take ETH_HEADER_LEN buf);
              hdr = hdr0\<lparr>eth_type := JNTOHS (eth_type hdr0)\<rparr> in
     bind_res (mem_read_int buf ETH_HEADER_LEN sz) (\<lambda>payload.
     bind_res (mem_write data 0 payload) (\<lambda>data'.
     if eth_type hdr = ETH_TYPE_IP
     then bind_res (ip_recv junk data' s1) (\<lambda>(r, s2). if r < 0 then Inr (-1, s2) else Inr (sz, s2))
     else if eth_type hdr = ETH_TYPE_ARP
     then bind_res (arp_resolve data' s1) (\<lambda>(r, s2). if r < 0 then Inr (-1, s2) else Inr (sz, s2))
     else Inr (- E_BAD_ETH_TYPE, s1))))"

text \<open>
  One round of the loop after \<^verbatim>\<open>e1000_listen\<close> has returned: the buffer of 1000 bytes is a
  local of the loop.
\<close>

definition mon_eth_recv :: "(nat \<Rightarrow> nat \<Rightarrow> byte) \<Rightarrow> 'a net_state_scheme \<Rightarrow> 'a net_state_scheme res" where
  "mon_eth_recv junk s =
     bind_res (eth_recv junk (uninit (junk 5) 1000) s) (\<lambda>(len, s').
     Inr (cprintf (bytes_of ''received status: '' @ bytes_of (if len \<ge> 0 then ''OK'' else ''ERROR'') @
            bytes_of (if len = 0 then '' EMPTY'' else '' '') @ bytes_of ''\<newline>'' @ bytes_of ''\<newline>'') s'))"

section \<open>The machine\<close>

inductive net_step :: "'a net_state_scheme \<Rightarrow> 'a net_state_scheme \<Rightarrow> bool" where
  net_sent: "\<not> tx_done s (unat (E1000_REG s E1000_TDH)) \<Longrightarrow> unat (E1000_REG s E1000_TDH) < 64 \<Longrightarrow>
    net_step s (card_sent s)"
| net_received: "rx_ring s q \<Longrightarrow> length q < 63 \<Longrightarrow> length f \<le> 1518 \<Longrightarrow>
    i = (unat (E1000_REG s E1000_RDT) + 1 + length q) mod 64 \<Longrightarrow> net_step s (card_received i f s)"
| net_loop: "rx_ready s \<Longrightarrow> mon_eth_recv junk s = Inr s' \<Longrightarrow> net_step s s'"

inductive net_reachable :: "'a net_state_scheme \<Rightarrow> bool" where
  net_start: "tx_ring s [] \<Longrightarrow> rx_ring s [] \<Longrightarrow> arp_table s = arp_bss \<Longrightarrow> net_bss s \<Longrightarrow>
    net_reachable (tcp_init_vc (initialize_arp_table s))"
| net_next: "net_reachable s \<Longrightarrow> net_step s t \<Longrightarrow> net_reachable t"

section \<open>Every frame keeps the invariants\<close>

definition handles :: "'a net_state_scheme \<Rightarrow> 'a net_state_scheme \<Rightarrow> bool" where
  "handles s s' \<longleftrightarrow> e1000_wf s' \<and> arp_inv (arp_table s') \<and> tcp_inv (tcp_vc s')
     \<and> (\<exists>fs. \<forall>q. tx_ring s q \<longrightarrow> tx_ring s' (q @ fs)) \<and> (\<forall>r. rx_ring s r \<longrightarrow> rx_ring s' r)"

definition net_ok :: "'a net_state_scheme \<Rightarrow> bool" where
  "net_ok s \<longleftrightarrow> (\<exists>q. tx_ring s q) \<and> (\<exists>r. rx_ring s r) \<and> arp_inv (arp_table s) \<and> tcp_inv (tcp_vc s)"

lemma net_okD: "net_ok s \<Longrightarrow> e1000_wf s" "net_ok s \<Longrightarrow> arp_inv (arp_table s)" "net_ok s \<Longrightarrow> tcp_inv (tcp_vc s)"
  by (auto simp: net_ok_def dest: tx_ringD(1))

lemma handles_cprintf [simp]: "handles s (cprintf m t) = handles s t"
  by (simp add: handles_def)

lemma handles_serves: "net_ok s \<Longrightarrow> serves s t \<Longrightarrow> handles s t"
  by (simp add: handles_def serves_def net_ok_def)

lemma handles_sends: "net_ok s \<Longrightarrow> sends s t \<Longrightarrow> handles s t"
  by (simp add: handles_serves serves_sends net_ok_def)

lemma handles_refl: "net_ok s \<Longrightarrow> handles s s"
  by (simp add: handles_sends sends_refl net_okD)

lemma handles_ok: "net_ok s \<Longrightarrow> handles s t \<Longrightarrow> net_ok t"
  unfolding net_ok_def handles_def by blast

lemma net_state_arp_frame [simp]:
  "e1000_wf (s\<lparr>arp_table := t\<rparr>) = e1000_wf s" "tcp_vc (s\<lparr>arp_table := t\<rparr>) = tcp_vc s"
  by (simp_all add: ring_defs)

lemma arp_reply_sends:
  fixes s :: "'a ip_state_scheme"
  assumes "e1000_wf s" and "arp_reply a s = Inr (r, s')"
  shows "sends s s'"
  using assms(2) eth_send_sends [OF assms(1)]
  by (auto simp: arp_reply_def Let_def bind_res_Inr_iff split: option.splits if_splits)

lemma sends_via_cprintf: "e1000_wf s \<Longrightarrow> sends (cprintf m s) t \<Longrightarrow> sends s t"
  using sends_trans [of s "cprintf m s" t] sends_refl [of s] by simp

lemma arp_resolve_handles:
  fixes s :: "'a net_state_scheme"
  assumes "net_ok s" and "arp_resolve data s = Inr (r, s')"
  shows "handles s s'"
proof -
  let ?bs = "take 28 data"
  let ?a = "arp_hdr_of ?bs"
  let ?s = "s\<lparr>arp_table := snd (arp_update_entries (arp_source_ip ?a) (arp_source_mac ?a) (arp_table s))\<rparr>"
  have len: "28 \<le> length data" using assms(2) by (simp add: arp_resolve_def bind_res_Inr_iff)
  then have "length (arp_source_mac ?a) = 6" by (simp add: arp_hdr_of_def)
  then have t: "arp_inv (arp_table ?s)" using arp_inv_update [OF net_okD(2) [OF assms(1)]] by simp
  have w: "e1000_wf ?s" using net_okD(1) [OF assms(1)] by simp
  have upd: "handles s u" if "sends ?s u" for u
    using that t net_okD(3) [OF assms(1)] sends_vcs [OF that] by (simp add: handles_def sends_def)
  have rep: "handles s u" if "arp_reply a ?s = Inr (k, u)" for a k u
    using upd arp_reply_sends [OF w that] .
  have rep': "handles s u" if "arp_reply a (cprintf m ?s) = Inr (k, u)" for a k u m
    using upd sends_via_cprintf [OF w] arp_reply_sends [OF _ that] w by simp
  have self: "handles s ?s" using upd sends_refl [OF w] .
  obtain k where k: "update_arp_table (arp_source_ip ?a) (arp_source_mac ?a) s = (k, ?s)"
    by (cases "arp_update_entries (arp_source_ip ?a) (arp_source_mac ?a) (arp_table s)") (simp add: update_arp_table_def)
  show ?thesis
    using assms(2) self handles_refl [OF assms(1)] len k
    unfolding arp_resolve_def
    by (auto simp: Let_def intro: rep rep' split: if_splits)
qed

lemma icmp_sends:
  assumes "e1000_wf s" and "icmp_echo_reply junk pkt s = Inr (r, s')"
  shows "sends s s'"
  using assms(2) ip_send_sends [OF assms(1)] sends_refl [OF assms(1)]
  by (auto simp: icmp_echo_reply_def Let_def bind_res_Inr_iff split: if_splits)

lemma udp_send_sends:
  assumes "e1000_wf s" and "udp_send junk data n s = Inr (r, s')"
  shows "sends s s'"
  using assms(2) ip_send_sends [OF assms(1)] by (auto simp: udp_send_def Let_def bind_res_Inr_iff)

lemma udp_recv_sends:
  assumes "e1000_wf s" and "udp_recv junk junk' pkt s = Inr (r, s')"
  shows "sends s s'"
proof -
  obtain m m' d n k where "udp_send junk' d n (cprintf m (cprintf m' s)) = Inr (k, s')"
    using assms(2) by (auto simp: udp_recv_def Let_def bind_res_Inr_iff)
  then have "sends (cprintf m (cprintf m' s)) s'" using assms(1) by (intro udp_send_sends) simp_all
  then show ?thesis using assms(1) by (metis e1000_wf_cprintf sends_via_cprintf)
qed

lemma ip_recv_handles:
  assumes "net_ok s" and "ip_recv junk pkt s = Inr (r, s')"
  shows "handles s s'"
proof -
  note ok = net_okD [OF assms(1)]
  show ?thesis
    using assms(2) handles_refl [OF assms(1)] handles_serves [OF assms(1) tcp_recv_serves [OF ok(1,3)]]
      handles_sends [OF assms(1) udp_recv_sends [OF ok(1)]] handles_sends [OF assms(1) icmp_sends [OF ok(1)]]
    by (auto simp: ip_recv_def Let_def bind_res_Inr_iff split: if_splits)
qed

lemma tcp_vc_frame [simp]:
  "tcp_vc (rx_take s) = tcp_vc s" "tcp_vc (card_sent s) = tcp_vc s" "tcp_vc (card_received i f s) = tcp_vc s"
  "arp_table (card_sent s) = arp_table s" "arp_table (card_received i f s) = arp_table s"
  by (simp_all add: rx_take_def card_sent_def card_received_def E1000_REG_set_def Let_def)

lemma receive_ok:
  assumes "net_ok s" and "e1000_receive buf s = Inr (r, buf', s')"
  shows "net_ok s'"
  using net_okD(1) [OF assms(1)] assms(2)
proof (cases rule: e1000_receive_Inr)
  case none
  then show ?thesis using assms(1) by (auto simp: net_ok_def)
next
  case frame
  from assms(1) obtain q r where r: "tx_ring s q" "rx_ring s r" by (auto simp: net_ok_def)
  with frame(1) have "r \<noteq> []"
    using rx_ringD(3) [OF r(2), of 0] rx_next_eq [OF rx_ringD(1) [OF r(2)]] by auto
  then obtain f r' where "r = f # r'" by (cases r) auto
  then show ?thesis
    using frame(3) r rx_ring_take [of s f r'] assms(1) net_okD(1) [OF assms(1)] by (auto simp: net_ok_def)
qed

lemma eth_recv_ok:
  assumes "net_ok s" and "eth_recv junk data s = Inr (r, s')"
  shows "net_ok s'"
proof -
  obtain n buf s1 where s1: "e1000_receive (uninit (junk 4) 1501) s = Inr (n, buf, s1)"
    using assms(2) by (auto simp: eth_recv_def bind_res_Inr_iff)
  then have ok: "net_ok s1" using assms(1) receive_ok by blast
  have "handles s1 s'"
    using assms(2) s1 handles_refl [OF ok] ip_recv_handles [OF ok] arp_resolve_handles [OF ok]
    by (auto simp: eth_recv_def Let_def bind_res_Inr_iff split: if_splits)
  then show ?thesis by (rule handles_ok [OF ok])
qed

lemma net_step_ok:
  assumes "net_step s t" and "net_ok s"
  shows "net_ok t"
  using assms
proof cases
  case net_sent
  then show ?thesis using assms(2) tx_ring_card_sent [of s] net_okD(1) [OF assms(2)] by (fastforce simp: net_ok_def)
next
  case (net_received q f i)
  then have "i < 64" by simp
  with net_received assms(2) rx_ring_card_received [of s q f i] net_okD(1) [OF assms(2)]
  show ?thesis by (fastforce simp: net_ok_def)
next
  case (net_loop junk)
  then obtain r m u where "eth_recv junk (uninit (junk 5) 1000) s = Inr (r, u)" "t = cprintf m u"
    by (auto simp: mon_eth_recv_def bind_res_Inr_iff)
  with eth_recv_ok [OF assms(2)] show ?thesis by (auto simp: net_ok_def)
qed

section \<open>Delivery of a frame\<close>

lemma eth_recv_deliver:
  assumes "rx_ring s (f # r)" "14 \<le> length f" "length f \<le> 1000" and "length data = 1000"
  shows "\<exists>rest. length (drop 14 f @ rest) = 1000 \<and> eth_recv junk data s =
    (if JNTOHS (get16 f 12) = ETH_TYPE_IP
     then bind_res (ip_recv junk (drop 14 f @ rest) (rx_take s)) (\<lambda>(r, s2). if r < 0 then Inr (-1, s2) else Inr (int (length f), s2))
     else if JNTOHS (get16 f 12) = ETH_TYPE_ARP
     then bind_res (arp_resolve (drop 14 f @ rest) (rx_take s)) (\<lambda>(r, s2). if r < 0 then Inr (-1, s2) else Inr (int (length f), s2))
     else Inr (- E_BAD_ETH_TYPE, rx_take s))"
proof -
  let ?u = "uninit (junk 4) 1501"
  let ?buf = "blit ?u 0 f"
  have rcv: "e1000_receive ?u s = Inr (int (length f), ?buf, rx_take s)"
    using assms(3) by (intro e1000_receive_cons [OF assms(1)]) simp
  have buf: "?buf = f @ drop (length f) ?u" by (simp add: blit_def)
  define pl where "pl = take (length f) (drop 14 ?buf)"
  have lp: "length pl = length f" using assms(3) by (simp add: pl_def)
  define rest where "rest = drop (length f - 14) pl @ drop (length f) data"
  have pl: "pl = drop 14 f @ drop (length f - 14) pl"
    unfolding pl_def buf using assms(2) by simp
  have rd: "mem_read_int ?buf 14 (int (length f)) = Inr pl"
    using assms(3) by (simp add: mem_read_int_def pl_def)
  have wr: "mem_write data 0 pl = Inr (drop 14 f @ rest)"
    using assms(3,4) lp pl by (simp add: blit_def rest_def)
  have ty: "eth_type (eth_hdr_of (take 14 ?buf)) = get16 f 12"
    unfolding buf using assms(2) by (simp add: eth_hdr_of_def get16_def nth_append)
  have "drop 14 f @ rest = blit data 0 pl" using wr by simp
  then have "length (drop 14 f @ rest) = 1000" using length_blit [of 0 pl data] assms(3,4) lp by simp
  moreover have "0 < length f" using assms(2) by linarith
  ultimately show ?thesis
    by (intro exI [of _ rest]) (simp add: eth_recv_def rcv rd wr ty [simplified] Let_def)
qed

lemma ring_take_facts:
  assumes "rx_ring s (f # r)" "tx_ring s q"
  shows "rx_ring (rx_take s) r" "tx_ring (rx_take s) q" "e1000_wf (rx_take s)"
  using rx_ring_take [OF assms(1)] tx_ring_rx_take [OF tx_ringD(1) [OF assms(2)]] assms(2) by (auto dest: tx_ringD(1))

lemma mon_eth_recv_status:
  assumes "eth_recv junk (uninit (junk 5) 1000) s = Inr (len, s')"
  shows "\<exists>m. mon_eth_recv junk s = Inr (cprintf m s')"
  using assms by (simp add: mon_eth_recv_def) blast

text \<open>A valid IP packet reaches the handler of its protocol with its payload.\<close>

definition ip_wire :: "ip_hdr \<Rightarrow> byte list \<Rightarrow> bool" where
  "ip_wire h payload \<longleftrightarrow> ip_verlen h = IP_VER_LEN \<and> unat (JNTOHS (ip_total_length h)) = 20 + length payload
     \<and> ip_header_checksum h = ip_checksum (ip_hdr_bytes (h\<lparr>ip_header_checksum := 0\<rparr>)) 20"

lemma ip_checksum_prefix: "n \<le> length a \<Longrightarrow> ip_checksum (a @ b) n = ip_checksum a n"
  using ip_checksum_sum [of n "a @ b"] ip_checksum_sum [of n a] JNTOHS_unat_inj by force

lemma ip_recv_dispatch:
  assumes "ip_wire h payload" "length payload \<le> 1466"
  shows "\<exists>pkt. ip_packet_in pkt (h\<lparr>ip_header_checksum := 0\<rparr>) payload \<and> ip_recv junk (ip_hdr_bytes h @ payload @ rest) s =
    (if ip_protocol h = IP_PROTO_TCP then tcp_recv (junk 0) pkt s
     else if ip_protocol h = IP_PROTO_UDP then udp_recv (junk 1) (junk 2) pkt s
     else if ip_protocol h = IP_PROTO_ICMP then icmp_echo_reply (junk 3) pkt s else Inr (0, s))"
proof -
  let ?h0 = "h\<lparr>ip_header_checksum := 0\<rparr>"
  let ?pkt = "ip_hdr_bytes ?h0 @ payload @ rest"
  have rd: "mem_read (ip_hdr_bytes h @ payload @ rest) 0 20 = Inr (ip_hdr_bytes h)" by simp
  have bl: "blit (ip_hdr_bytes h @ payload @ rest) 0 (ip_hdr_bytes ?h0) = ?pkt" by (simp add: blit_prefix)
  have ck: "ip_checksum ?pkt 20 = ip_header_checksum h"
    using assms(1) ip_checksum_prefix [of 20 "ip_hdr_bytes ?h0" "payload @ rest"] by (simp add: ip_wire_def)
  have "ip_packet_in ?pkt ?h0 payload" using assms by (auto simp: ip_packet_in_def ip_wire_def)
  moreover have "ip_recv junk (ip_hdr_bytes h @ payload @ rest) s =
    (if ip_protocol h = IP_PROTO_TCP then tcp_recv (junk 0) ?pkt s
     else if ip_protocol h = IP_PROTO_UDP then udp_recv (junk 1) (junk 2) ?pkt s
     else if ip_protocol h = IP_PROTO_ICMP then icmp_echo_reply (junk 3) ?pkt s else Inr (0, s))"
    unfolding ip_recv_def rd bind_res_simps ip_hdr_roundtrip0 Let_def bl ck
    using assms(1) by (simp add: ip_wire_def)
  ultimately show ?thesis by blast
qed

section \<open>Corrupted headers\<close>

lemma ip_hdr_zero_checksum:
  assumes "length bs = 20"
  shows "ip_hdr_bytes ((ip_hdr_of bs)\<lparr>ip_header_checksum := 0\<rparr>) = bs[10 := 0, 11 := 0]"
proof -
  have "put16 0 = [0, 0]" by (simp add: put16_def)
  then show ?thesis
    using assms by (auto simp: numeral_eq_Suc length_Suc_conv ip_hdr_bytes_def ip_hdr_of_def get16_def get32_def)
qed

lemma get16_update_neq:
  assumes "length bs = 20" "i \<in> {10, 11}" "b \<noteq> bs ! i"
  shows "get16 (bs[i := b]) 10 \<noteq> get16 bs 10"
proof -
  have "put16 (get16 bs 10) = [bs ! 10, bs ! 11]" "put16 (get16 (bs[i := b]) 10) = [bs[i := b] ! 10, bs[i := b] ! 11]"
    by (simp_all add: get16_def)
  moreover have "[bs[i := b] ! 10, bs[i := b] ! 11] \<noteq> [bs ! 10, bs ! 11]" using assms by auto
  ultimately show ?thesis by metis
qed

lemma ip_recv_header:
  assumes "length bs = 20"
  shows "ip_recv junk (bs @ rest) s =
    (if bs ! 0 \<noteq> IP_VER_LEN then Inr (-21, s)
     else if get16 bs 10 \<noteq> ip_checksum (bs[10 := 0, 11 := 0]) 20 then Inr (-22, s)
     else ip_recv junk (bs @ rest) s)"
proof -
  let ?z = "bs[10 := 0, 11 := 0]"
  have rd: "mem_read (bs @ rest) 0 20 = Inr bs" using assms by simp
  have bl: "blit (bs @ rest) 0 ?z = ?z @ rest" using assms by (intro blit_prefix) simp
  have ck: "ip_checksum (?z @ rest) 20 = ip_checksum ?z 20" using assms by (intro ip_checksum_prefix) simp
  have f: "ip_verlen (ip_hdr_of bs) = bs ! 0" "ip_header_checksum (ip_hdr_of bs) = get16 bs 10"
    by (simp_all add: ip_hdr_of_def)
  show ?thesis
    unfolding ip_recv_def rd bind_res_simps Let_def ip_hdr_zero_checksum [OF assms] bl ck f by simp
qed

section \<open>Properties\<close>

text \<open>
  C8: The stack as a whole keeps its invariants. In every state that the machine reaches
  from an initialised kernel, whatever frames arrive, whatever the stack's old contents
  and however the card and the loop interleave, both rings are queues of frames, the
  ARP cache has its shape and every TCP channel is in one of the four implemented
  states, with its own port and less data than its buffer holds.
\<close>

theorem net_reachable_ok:
  assumes "net_reachable s"
  shows "(\<exists>q. tx_ring s q) \<and> (\<exists>r. rx_ring s r) \<and> arp_inv (arp_table s) \<and> tcp_inv (tcp_vc s)"
  unfolding net_ok_def [symmetric] using assms
proof (induction rule: net_reachable.induct)
  case (net_start s)
  have "net_bss (initialize_arp_table s)" using net_start(4) by (simp add: net_bss_def initialize_arp_table_def)
  then have "tcp_inv (tcp_vc (tcp_init_vc (initialize_arp_table s)))" by (rule tcp_init_vc_inv)
  moreover have "arp_inv (arp_init_entries arp_bss)" using arp_shape_init by (auto simp: arp_inv_def)
  moreover have "tx_ring (initialize_arp_table s) []" "rx_ring (initialize_arp_table s) []"
    using net_start(1,2) by (simp_all add: initialize_arp_table_def)
  ultimately show ?case
    using net_start(3) by (auto simp: net_ok_def initialize_arp_table_def intro: exI [of _ "[]"])
next
  case (net_next s t)
  then show ?case using net_step_ok by blast
qed

text \<open>A machine at the start: static storage zero, the card's rings set up.\<close>

definition net_raw :: net_state where
  "net_raw = (boot_knowing 0 [] (net_state.fields (replicate TCP_VC_NUM vc_bss)))\<lparr>arp_table := arp_bss\<rparr>"

lemma net_raw_facts: "tx_ring net_raw []" "rx_ring net_raw []" "arp_table net_raw = arp_bss" "net_bss net_raw"
proof -
  let ?s = "boot_knowing 0 [] (net_state.fields (replicate TCP_VC_NUM vc_bss)) :: net_state"
  show "tx_ring net_raw []" "rx_ring net_raw []" "arp_table net_raw = arp_bss" by (simp_all add: net_raw_def)
  have "ip_state.more ?s = net_state.fields (replicate TCP_VC_NUM vc_bss)"
    by (simp add: boot_knowing_def ip_boot_with_facts)
  then have "tcp_vc ?s = replicate TCP_VC_NUM vc_bss" by (cases ?s) (simp add: net_state.defs)
  then show "net_bss net_raw" by (simp add: net_bss_def net_raw_def)
qed

lemma net_raw_started: "net_reachable (tcp_init_vc (initialize_arp_table net_raw))"
  using net_raw_facts by (intro net_start)

theorem net_reachable_ok_witness:
  "(\<exists>q. tx_ring (tcp_init_vc (initialize_arp_table net_raw)) q)
    \<and> tcp_inv (tcp_vc (tcp_init_vc (initialize_arp_table net_raw)))"
  using net_reachable_ok [OF net_raw_started] by blast

text \<open>
  C20: Ping, from wire to wire. When the oldest unread frame is an echo request in a valid IP
  packet and the host's hardware address is known, one round of the receive loop takes
  exactly that frame, and queues exactly one frame: the reply to the host with the
  identifier, sequence number and data of the request. This holds whatever the
  uninitialised locals contain.
\<close>

theorem ping_roundtrip:
  assumes "rx_ring s (f # r)" "tx_ring s q" "length q < 64"
    and "get_mac_by_ip (JHTONL HOST_IP) s = Some mac" "length mac = 6"
    and "f = eth_hdr_bytes e @ ip_hdr_bytes h @ icmp_hdr_bytes m @ d" "length f \<le> 1000"
    and "length (eth_destination_mac e) = 6" "length (eth_source_mac e) = 6" "eth_type e = JHTONS ETH_TYPE_IP"
    and "ip_wire h (icmp_hdr_bytes m @ d)" "ip_protocol h = IP_PROTO_ICMP"
    and "msg_type m = ECHO_REQUEST" "msg_code m = 0"
  shows "\<exists>s' ih. mon_eth_recv junk s = Inr s' \<and> rx_ring s' r
    \<and> tx_ring s' (q @ [eth_frame mac ETH_TYPE_IP (ip_hdr_bytes ih @ icmp_hdr_bytes
        (m\<lparr>msg_type := ECHO_REPLY, icmp_checksum := JHTONS (JNTOHS (icmp_checksum m) + 0x0800)\<rparr>) @ d)])
    \<and> ip_hdr_valid ih IP_PROTO_ICMP (JHTONL MY_IP) (JHTONL HOST_IP) (8 + length d)"
proof -
  let ?pl = "icmp_hdr_bytes m @ d"
  note t = ring_take_facts [OF assms(1,2)]
  have f: "14 \<le> length f" "get16 f 12 = JHTONS ETH_TYPE_IP" "drop 14 f = ip_hdr_bytes h @ ?pl"
    using assms(6,8-10) by (simp_all add: eth_hdr_bytes_def get16_append)
  obtain rest where e: "eth_recv junk (uninit (junk 5) 1000) s =
      bind_res (ip_recv junk (ip_hdr_bytes h @ ?pl @ rest) (rx_take s)) (\<lambda>(r, s2). if r < 0 then Inr (-1, s2) else Inr (int (length f), s2))"
    using eth_recv_deliver [OF assms(1) f(1) assms(7), of "uninit (junk 5) 1000" junk] f(2,3) by auto
  have "length ?pl \<le> 1466" using assms(6,7) by simp
  then obtain pkt where pkt: "ip_packet_in pkt (h\<lparr>ip_header_checksum := 0\<rparr>) ?pl"
    "ip_recv junk (ip_hdr_bytes h @ ?pl @ rest) (rx_take s) = icmp_echo_reply (junk 3) pkt (rx_take s)"
    using ip_recv_dispatch [OF assms(11), of junk rest "rx_take s"] assms(12) by auto
  have "get_mac_by_ip (JHTONL HOST_IP) (rx_take s) = Some mac" using assms(4) by (simp add: get_mac_by_ip_def)
  from icmp_echo_ring [OF t(2) assms(3) this assms(5) pkt(1) assms(13,14)] obtain s' ih where
    s': "icmp_echo_reply (junk 3) pkt (rx_take s) = Inr (0, s')"
      "tx_ring s' (q @ [eth_frame mac ETH_TYPE_IP (ip_hdr_bytes ih @ icmp_hdr_bytes
        (m\<lparr>msg_type := ECHO_REPLY, icmp_checksum := JHTONS (JNTOHS (icmp_checksum m) + 0x0800)\<rparr>) @ d)])"
      "ip_hdr_valid ih IP_PROTO_ICMP (JHTONL MY_IP) (JHTONL HOST_IP) (8 + length d)" by blast
  have "rx_ring s' r" using icmp_sends [OF t(3) s'(1)] t(1) by (simp add: sends_def)
  moreover obtain k where "mon_eth_recv junk s = Inr (cprintf k s')"
    using mon_eth_recv_status [of junk s "int (length f)" s'] e pkt(2) s'(1) by auto
  ultimately show ?thesis using s'(2,3) by (metis rx_ring_cprintf tx_ring_cprintf)
qed

lemma ip_wire_fill: "length payload \<le> 1466 \<Longrightarrow> ip_wire (ip_fill_hdr h (of_nat (length payload)) pid) payload"
  using ip_hdr_valid_fill [of "length payload" h pid] unfolding ip_wire_def ip_hdr_valid_def
  by (simp add: ip_fill_hdr_def Let_def)

text \<open>A booted machine that knows the host, with one unread frame.\<close>

definition net_with_frame :: "byte list \<Rightarrow> net_state" where
  "net_with_frame f = (let s = net_boot (JHTONL HOST_IP) default_mac in
     card_received ((unat (E1000_REG s E1000_RDT) + 1) mod 64) f s)"

lemma net_with_frame_facts:
  assumes "length f \<le> 1518"
  shows "rx_ring (net_with_frame f) [f]" "tx_ring (net_with_frame f) []"
    "get_mac_by_ip (JHTONL HOST_IP) (net_with_frame f) = Some default_mac" "tcp_inv (tcp_vc (net_with_frame f))"
proof -
  let ?s = "net_boot (JHTONL HOST_IP) default_mac"
  note b = net_boot_facts(1-4) [of "JHTONL HOST_IP" default_mac]
  show "rx_ring (net_with_frame f) [f]"
    using rx_ring_card_received [OF b(2), of f "(unat (E1000_REG ?s E1000_RDT) + 1) mod 64"] assms
    by (simp add: net_with_frame_def Let_def)
  show "tx_ring (net_with_frame f) []" using b(1) tx_ringD(1) [OF b(1)] assms
    by (simp add: net_with_frame_def Let_def)
  show "get_mac_by_ip (JHTONL HOST_IP) (net_with_frame f) = Some default_mac" "tcp_inv (tcp_vc (net_with_frame f))"
    using b(3,4) by (simp_all add: net_with_frame_def Let_def get_mac_by_ip_def)
qed

theorem ping_roundtrip_witness:
  "\<exists>f s' ih. rx_ring (net_with_frame f) [f] \<and> mon_eth_recv (\<lambda>_ _. 0xcc) (net_with_frame f) = Inr s' \<and> rx_ring s' []
    \<and> tx_ring s' [eth_frame default_mac ETH_TYPE_IP (ip_hdr_bytes ih @ [0, 0, 0x18, 0x20, 1, 2, 3, 4, 65, 66])]"
proof -
  let ?m = "\<lparr>msg_type = 8, msg_code = 0, icmp_checksum = pair16 0x10 0x20, icmp_id = pair16 1 2, sequence_number = pair16 3 4\<rparr>"
  let ?h = "ip_fill_hdr (ip_result_hdr (\<lambda>_. 0) IP_PROTO_ICMP 7) (of_nat (length (icmp_hdr_bytes ?m @ [65, 66]))) 0"
  let ?e = "\<lparr>eth_destination_mac = get_my_mac, eth_source_mac = default_mac, eth_type = JHTONS ETH_TYPE_IP\<rparr>"
  let ?f = "eth_hdr_bytes ?e @ ip_hdr_bytes ?h @ icmp_hdr_bytes ?m @ [65, 66]"
  have mac: "length default_mac = 6" by (simp add: default_mac_def)
  have c: "put16 (JHTONS (JHTONS (pair16 0x10 0x20) + 0x0800)) = [0x18, 0x20]"
    by (simp add: JHTONS_pair16) (simp add: pair16_def put16_JHTONS)
  have l: "length ?f \<le> 1000" using mac by simp
  then have "length ?f \<le> 1518" by linarith
  note n = net_with_frame_facts [OF this]
  have w: "ip_wire ?h (icmp_hdr_bytes ?m @ [65, 66])" by (rule ip_wire_fill) simp
  have p: "ip_protocol ?h = IP_PROTO_ICMP" by (simp add: ip_fill_hdr_def ip_result_hdr_def Let_def)
  from ping_roundtrip [OF n(1,2) _ n(3) mac refl l _ _ _ w p, where junk = "\<lambda>_ _. 0xcc"] n(1) mac
  show ?thesis by (intro exI [of _ ?f]) (auto simp: icmp_hdr_bytes_def c)
qed

text \<open>
  C19: A corrupted header is dropped. Whatever single byte of a valid IP header is
  changed, \<^verbatim>\<open>ip_recv\<close> returns the version or the checksum error, hands nothing to the
  protocols and changes nothing.
\<close>

theorem ip_recv_corrupted:
  assumes "ip_wire h payload" and "i < 20" and "b \<noteq> ip_hdr_bytes h ! i"
  shows "ip_recv junk ((ip_hdr_bytes h)[i := b] @ rest) s \<in> {Inr (-21, s), Inr (-22, s)}"
proof -
  let ?bs = "ip_hdr_bytes h"
  let ?bs' = "?bs[i := b]"
  let ?z = "?bs[10 := 0, 11 := 0]" and ?z' = "?bs'[10 := 0, 11 := 0]"
  have ok: "get16 ?bs 10 = ip_checksum ?z 20"
  proof -
    have "get16 ?bs 10 = ip_header_checksum h"
      using arg_cong [OF ip_hdr_roundtrip0 [of h], of ip_header_checksum] by (simp add: ip_hdr_of_def)
    then show ?thesis using assms(1) ip_hdr_zero_checksum [of ?bs, unfolded ip_hdr_roundtrip0] by (simp add: ip_wire_def)
  qed
  have "get16 ?bs' 10 \<noteq> ip_checksum ?z' 20"
  proof (cases "i \<in> {10, 11}")
    case True
    then have "?z' = ?z" by (auto simp: list_update_swap)
    moreover have "get16 ?bs' 10 \<noteq> get16 ?bs 10" using True assms(3) by (intro get16_update_neq) simp_all
    ultimately show ?thesis using ok by simp
  next
    case False
    then have z: "?z' = ?z[i := b]" "?z ! i = ?bs ! i" by (auto simp: list_update_swap nth_list_update)
    have "ip_checksum (?z[i := b]) 20 \<noteq> ip_checksum ?z 20"
      using assms(2,3) z(2) by (intro ip_checksum_update) simp_all
    moreover have "get16 ?bs' 10 = get16 ?bs 10" using False by (auto simp: get16_def nth_list_update)
    ultimately show ?thesis using ok z(1) by simp
  qed
  then show ?thesis using ip_recv_header [of ?bs' junk rest s]
    by (cases "?bs' ! 0 \<noteq> IP_VER_LEN") simp_all
qed

theorem ip_recv_corrupted_witness:
  "ip_recv (\<lambda>_ _. 0) ((ip_hdr_bytes (ip_fill_hdr (ip_result_hdr (\<lambda>_. 0) 6 7) (of_nat (length [1 :: byte, 2])) 0))[8 := 63] @ [1, 2]) net_raw
     \<in> {Inr (-21, net_raw), Inr (-22, net_raw)}"
proof (rule ip_recv_corrupted)
  show "ip_wire (ip_fill_hdr (ip_result_hdr (\<lambda>_. 0) 6 7) (of_nat (length [1 :: byte, 2])) 0) [1, 2]"
    by (rule ip_wire_fill) simp
qed (simp_all add: ip_fill_hdr_def Let_def ip_hdr_bytes_def put16_def)

text \<open>
  Frames longer than 1000 bytes overflow the receive loop's buffer. The card and the
  driver accept frames up to 1518 bytes, but \<^verbatim>\<open>eth_recv\<close> copies as many bytes as the frame has
  into the 1000 byte local of \<^verbatim>\<open>mon_eth_recv\<close>, before looking at them.
\<close>

theorem oversized_frame_overflow:
  assumes "rx_ring s (f # r)" and "1000 < length f"
  shows "mon_eth_recv junk s = Inl OutOfBounds"
proof -
  let ?u = "uninit (junk 4) 1501"
  have "eth_recv junk (uninit (junk 5) 1000) s = Inl OutOfBounds"
  proof (cases "length f \<le> 1501")
    case True
    then have "e1000_receive ?u s = Inr (int (length f), blit ?u 0 f, rx_take s)"
      by (intro e1000_receive_cons [OF assms(1)]) simp
    moreover have "0 < length f" using assms(2) by linarith
    ultimately show ?thesis
      using assms(2) by (simp add: eth_recv_def Let_def mem_read_int_def mem_read_def mem_write_def)
  next
    case False
    then have "e1000_receive ?u s = Inl OutOfBounds" using e1000_receive_long [OF assms(1), of ?u] by simp
    then show ?thesis by (simp add: eth_recv_def)
  qed
  then show ?thesis by (simp add: mon_eth_recv_def)
qed

theorem oversized_frame_overflow_witness:
  "mon_eth_recv (\<lambda>_ _. 0) (net_with_frame (replicate 1200 7)) = Inl OutOfBounds"
  using oversized_frame_overflow [OF net_with_frame_facts(1), of "replicate 1200 7"] by simp

end
