(* ===== verification/Bcache.thy ===== *)
theory Bcache
  imports CString Inet "HOL-Library.Signed_Division"
begin

text \<open>
  The file server's block cache (\<^verbatim>\<open>fs/bc.c\<close>) over the disk driver (\<^verbatim>\<open>fs/ide.c\<close>).

  Disk block \<open>n\<close> appears in the server's memory at \<^verbatim>\<open>DISKMAP + n * BLKSIZE\<close>. A page of that
  region is absent until it is first accessed; the page fault handler \<open>bc_pgfault\<close> then
  allocates it and reads the block. \<open>flush_block\<close> writes a present and dirty page back.

  The state keeps the bytes of mapped pages (\<open>ram\<close>), which pages are mapped and dirty, the bytes
  of the drive, and whether the pointer \<^verbatim>\<open>super\<close> has been set. \<open>peek\<close> is what the program reads at
  an address: the page if it is mapped, else the block \<open>bc_pgfault\<close> would bring in. That a read
  maps a page and leaves it dirty is not recorded: \<open>bc_pgfault_peek\<close> shows it changes no byte the
  program or the drive can see, and \<open>bc_pgfault_flush\<close> that writing such a page back changes none either.
  \<open>poke\<close> is a store of consecutive bytes; it maps and dirties the pages it touches. The drive is
  taken never to raise its error bits, so \<open>ide_read\<close> and \<open>ide_write\<close> return 0.
\<close>

section \<open>The server's memory and the drive\<close>

definition BLKSIZE :: nat where "BLKSIZE = 4096"
definition SECTSIZE :: nat where "SECTSIZE = 512"
definition BLKSECTS :: nat where "BLKSECTS = 8"
definition DISKMAP :: nat where "DISKMAP = 0x10000000"
definition DISKSIZE :: nat where "DISKSIZE = 0xC0000000"

record bcache = kcons +
  ram :: "nat \<Rightarrow> byte"
  mapped :: "nat \<Rightarrow> bool"
  dirty :: "nat \<Rightarrow> bool"
  disk :: "nat \<Rightarrow> byte"
  super_set :: bool

definition in_diskmap :: "nat \<Rightarrow> bool" where
  "in_diskmap a \<longleftrightarrow> DISKMAP \<le> a \<and> a < DISKMAP + DISKSIZE"

definition peek :: "'a bcache_scheme \<Rightarrow> nat \<Rightarrow> byte" where
  "peek s a = (if mapped s (a div BLKSIZE) \<or> \<not> in_diskmap a then ram s a else disk s (a - DISKMAP))"

definition peeks :: "'a bcache_scheme \<Rightarrow> nat \<Rightarrow> nat \<Rightarrow> byte list" where
  "peeks s a n = map (peek s) [a..<a + n]"

definition load32 :: "'a bcache_scheme \<Rightarrow> nat \<Rightarrow> u32" where
  "load32 s a = quad32 (peek s a) (peek s (a + 1)) (peek s (a + 2)) (peek s (a + 3))"

text \<open>\<^verbatim>\<open>super->s_nblocks\<close>\<close>

definition s_nblocks :: "'a bcache_scheme \<Rightarrow> nat" where
  "s_nblocks s = unat (load32 s (DISKMAP + BLKSIZE + 4))"

section \<open>The disk driver\<close>

text \<open>
  Sectors are 512 bytes; the drive receives the low 28 bits of the sector number and
  transfers \<open>nsecs\<close> sectors from or to memory.
\<close>

definition ide_byte :: "nat \<Rightarrow> nat \<Rightarrow> nat" where
  "ide_byte secno i = (secno mod 2 ^ 28) * SECTSIZE + i"

definition ide_read :: "'a bcache_scheme \<Rightarrow> nat \<Rightarrow> nat \<Rightarrow> nat \<Rightarrow> 'a bcache_scheme res" where
  "ide_read s secno dst nsecs = bind_res (assert_res (nsecs \<le> 256)) (\<lambda>_.
     Inr (s\<lparr>ram := \<lambda>a. if dst \<le> a \<and> a < dst + nsecs * SECTSIZE
                       then disk s (ide_byte secno (a - dst)) else ram s a\<rparr>))"

definition ide_write :: "'a bcache_scheme \<Rightarrow> nat \<Rightarrow> nat \<Rightarrow> nat \<Rightarrow> 'a bcache_scheme res" where
  "ide_write s secno src nsecs = bind_res (assert_res (nsecs \<le> 256)) (\<lambda>_.
     Inr (s\<lparr>disk := \<lambda>b. if ide_byte secno 0 \<le> b \<and> b < ide_byte secno (nsecs * SECTSIZE)
                       then ram s (src + (b - ide_byte secno 0)) else disk s b\<rparr>))"

section \<open>The block cache\<close>

definition diskaddr :: "'a bcache_scheme \<Rightarrow> nat \<Rightarrow> nat res" where
  "diskaddr s blockno =
     (if blockno = 0 \<or> (super_set s \<and> s_nblocks s \<le> blockno) then Inl KernPanic
      else Inr (DISKMAP + blockno * BLKSIZE))"

text \<open>
  \<open>None\<close>: the handler declines, the fault was outside the block cache. The page is dirty afterwards: the words read from the
  drive are stored into it, and the handler does not clear the bit.
\<close>

definition bc_pgfault :: "'a bcache_scheme \<Rightarrow> nat \<Rightarrow> 'a bcache_scheme option res" where
  "bc_pgfault s addr =
     (let blockno = (addr - DISKMAP) div BLKSIZE in
      if addr < DISKMAP \<or> DISKMAP + DISKSIZE \<le> addr then Inr None
      else if super_set s \<and> s_nblocks s \<le> blockno then Inl KernPanic
      else let addr = addr - addr mod BLKSIZE; p = addr div BLKSIZE;
               s = s\<lparr>mapped := (mapped s)(p := True), dirty := (dirty s)(p := True)\<rparr>
           in bind_res (ide_read s (blockno * BLKSECTS) addr BLKSECTS) (\<lambda>s. Inr (Some s)))"

text \<open>
  \<open>accessible s a n\<close>: every page of the window is mapped, or is one \<open>bc_pgfault\<close> can bring in.
\<close>

definition page_ok :: "'a bcache_scheme \<Rightarrow> nat \<Rightarrow> bool" where
  "page_ok s p \<longleftrightarrow> mapped s p \<or>
     (in_diskmap (p * BLKSIZE) \<and> (super_set s \<longrightarrow> p - DISKMAP div BLKSIZE < s_nblocks s))"

definition pages :: "nat \<Rightarrow> nat \<Rightarrow> nat list" where
  "pages a n = (if n = 0 then [] else [a div BLKSIZE..<Suc ((a + n - 1) div BLKSIZE)])"

definition accessible :: "'a bcache_scheme \<Rightarrow> nat \<Rightarrow> nat \<Rightarrow> bool" where
  "accessible s a n = list_all (page_ok s) (pages a n)"

definition stored :: "'a bcache_scheme \<Rightarrow> nat \<Rightarrow> byte list \<Rightarrow> 'a bcache_scheme" where
  "stored s a bs =
     (let ps = pages a (length bs) in
      s\<lparr>ram := \<lambda>b. if a \<le> b \<and> b < a + length bs then bs ! (b - a)
                   else if b div BLKSIZE \<in> set ps then peek s b else ram s b,
        mapped := \<lambda>p. mapped s p \<or> p \<in> set ps,
        dirty := \<lambda>p. dirty s p \<or> p \<in> set ps\<rparr>)"

definition poke :: "'a bcache_scheme \<Rightarrow> nat \<Rightarrow> byte list \<Rightarrow> 'a bcache_scheme res" where
  "poke s a bs = (if accessible s a (length bs) then Inr (stored s a bs) else Inl KernPanic)"

definition store32 :: "'a bcache_scheme \<Rightarrow> nat \<Rightarrow> u32 \<Rightarrow> 'a bcache_scheme res" where
  "store32 s a w = poke s a (put32 w)"

text \<open>Writing the page back also clears its dirty bit (\<^verbatim>\<open>sys_map_region\<close>).\<close>

definition flush_block :: "'a bcache_scheme \<Rightarrow> nat \<Rightarrow> 'a bcache_scheme res" where
  "flush_block s addr =
     (let blockno = (addr - DISKMAP) div BLKSIZE in
      if addr < DISKMAP \<or> DISKMAP + DISKSIZE \<le> addr then Inl KernPanic
      else if blockno \<noteq> 0 \<and> super_set s \<and> s_nblocks s \<le> blockno then Inl KernPanic
      else let addr = addr - addr mod BLKSIZE; p = addr div BLKSIZE in
           if \<not> mapped s p \<or> \<not> dirty s p then Inr s
           else bind_res (ide_write s (blockno * BLKSECTS) addr BLKSECTS) (\<lambda>s.
                let s = s\<lparr>dirty := (dirty s)(p := False)\<rparr> in
                bind_res (assert_res (\<not> dirty s p)) (\<lambda>_. Inr s)))"

definition bc_unmap :: "'a bcache_scheme \<Rightarrow> nat \<Rightarrow> 'a bcache_scheme" where
  "bc_unmap s addr = s\<lparr>mapped := (mapped s)(addr div BLKSIZE := False),
                         dirty := (dirty s)(addr div BLKSIZE := False)\<rparr>"

text \<open>\<^verbatim>\<open>sizeof(struct Super)\<close> is 264: two words and the root directory's \<^verbatim>\<open>struct File\<close>.\<close>

definition check_bc :: "'a bcache_scheme \<Rightarrow> 'a bcache_scheme res" where
  "check_bc s =
     bind_res (diskaddr s 1) (\<lambda>b1.
     let backup = peeks s b1 264 in
     bind_res (poke s b1 (bytes_of ''OOPS!'' @ [10, 0])) (\<lambda>s.
     bind_res (flush_block s b1) (\<lambda>s.
     bind_res (assert_res (mapped s (b1 div BLKSIZE))) (\<lambda>_.
     bind_res (assert_res (\<not> dirty s (b1 div BLKSIZE))) (\<lambda>_.
     let s = bc_unmap s b1 in
     bind_res (assert_res (\<not> mapped s (b1 div BLKSIZE))) (\<lambda>_.
     bind_res (strcmp (peeks s b1 BLKSIZE) (bytes_of ''OOPS!'' @ [10, 0])) (\<lambda>c.
     bind_res (assert_res (c = 0)) (\<lambda>_.
     bind_res (poke s b1 backup) (\<lambda>s.
     bind_res (flush_block s b1) (\<lambda>s.
     Inr (cprintf (bytes_of ''block cache is good'' @ [10]) s)))))))))))"

text \<open>
  \<open>bc_init\<close> registers the handler, runs the test and reads the super block once (\<open>bc_touch\<close>: an
  access that faults the page in).
\<close>

definition bc_touch :: "'a bcache_scheme \<Rightarrow> nat \<Rightarrow> 'a bcache_scheme res" where
  "bc_touch s a = (if mapped s (a div BLKSIZE) then Inr s
     else bind_res (bc_pgfault s a) (\<lambda>r. case r of None \<Rightarrow> Inl KernPanic | Some s \<Rightarrow> Inr s))"

definition bc_init :: "'a bcache_scheme \<Rightarrow> 'a bcache_scheme res" where
  "bc_init s = bind_res (check_bc s) (\<lambda>s. bind_res (diskaddr s 1) (\<lambda>b1. bc_touch s b1))"


section \<open>What an access sees\<close>

lemmas bc_consts = BLKSIZE_def SECTSIZE_def BLKSECTS_def DISKMAP_def DISKSIZE_def

lemma blksects [simp]: "BLKSECTS \<le> 256" "BLKSECTS * SECTSIZE = BLKSIZE"
  by (simp_all add: bc_consts)

lemma page_start [simp]: "(a - a mod BLKSIZE) div BLKSIZE = a div BLKSIZE"
  by (simp add: minus_mod_eq_div_mult BLKSIZE_def)

lemma pages_mem: "a \<le> b \<Longrightarrow> b < a + n \<Longrightarrow> b div BLKSIZE \<in> set (pages a n)"
  using div_le_mono [of b "a + n - 1" BLKSIZE] div_le_mono [of a b BLKSIZE] by (simp add: pages_def) linarith

lemma pages_within: "0 < n \<Longrightarrow> a mod BLKSIZE + n \<le> BLKSIZE \<Longrightarrow> pages a n = [a div BLKSIZE]"
proof -
  assume n: "0 < n" "a mod BLKSIZE + n \<le> BLKSIZE"
  have "(a + n - 1) div BLKSIZE = a div BLKSIZE"
  proof (rule div_nat_eqI)
    show "BLKSIZE * (a div BLKSIZE) \<le> a + n - 1" using n times_div_less_eq_dividend [of BLKSIZE a] by linarith
    have "a + n - 1 < BLKSIZE * (a div BLKSIZE) + BLKSIZE" using n mult_div_mod_eq [of BLKSIZE a] by linarith
    then show "a + n - 1 < BLKSIZE * Suc (a div BLKSIZE)" by simp
  qed
  then show ?thesis using n by (simp add: pages_def)
qed

lemma peek_stored: "peek (stored s a bs) b = (if a \<le> b \<and> b < a + length bs then bs ! (b - a) else peek s b)"
  using pages_mem [of a b "length bs"] by (auto simp: peek_def stored_def Let_def)

lemma peek_stored_other: "(\<And>i. i < length bs \<Longrightarrow> b \<noteq> a + i) \<Longrightarrow> peek (stored s a bs) b = peek s b"
  by (simp add: peek_stored) (metis add_less_cancel_left le_add_diff_inverse)

lemma peeks_stored: "peeks (stored s a bs) a (length bs) = bs"
  by (rule nth_equalityI) (simp_all add: peeks_def peek_stored)

lemma peeks_stored_apart: "b + n \<le> a \<or> a + length bs \<le> b \<Longrightarrow> peeks (stored s a bs) b n = peeks s b n"
  by (auto simp: peeks_def peek_stored)

lemma length_peeks [simp]: "length (peeks s a n) = n"
  by (simp add: peeks_def)

lemma nth_peeks [simp]: "i < n \<Longrightarrow> peeks s a n ! i = peek s (a + i)"
  by (simp add: peeks_def)

lemma load32_stored: "load32 (stored s a (put32 w)) a = w"
  by (simp add: load32_def peek_stored put32_def nth_Cons')

lemma load32_stored_apart: "b + 4 \<le> a \<or> a + length bs \<le> b \<Longrightarrow> load32 (stored s a bs) b = load32 s b"
  by (auto simp: load32_def peek_stored)

lemma load32_peek_eq:
  assumes "\<And>i. i < 4 \<Longrightarrow> peek s (a + i) = peek t (a + i)"
  shows "load32 s a = load32 t a"
  using assms [of 0] assms [of 1] assms [of 2] assms [of 3] by (simp add: load32_def)

lemma super_set_stored [simp]: "super_set (stored s a bs) = super_set s"
  by (simp add: stored_def Let_def)

lemma mapped_stored: "mapped s p \<Longrightarrow> mapped (stored s a bs) p"
  by (simp add: stored_def Let_def)

lemma disk_stored [simp]: "disk (stored s a bs) = disk s"
  by (simp add: stored_def Let_def)


lemma page_block [simp]:
  "(DISKMAP + n * BLKSIZE + k) div BLKSIZE = DISKMAP div BLKSIZE + n + k div BLKSIZE"
  "(DISKMAP + n * BLKSIZE) div BLKSIZE = DISKMAP div BLKSIZE + n"
  by (simp_all add: bc_consts)

lemma block_offset: "k < BLKSIZE \<Longrightarrow> (DISKMAP + n * BLKSIZE + k) mod BLKSIZE = k"
  by (simp add: bc_consts mod_add_eq [symmetric])

lemma diskmap_cases:
  assumes "in_diskmap a"
  obtains n k where "a = DISKMAP + n * BLKSIZE + k" "k < BLKSIZE" "n < 786432"
proof (rule that)
  show "a = DISKMAP + (a - DISKMAP) div BLKSIZE * BLKSIZE + (a - DISKMAP) mod BLKSIZE"
    using assms by (simp add: in_diskmap_def)
  show "(a - DISKMAP) div BLKSIZE < 786432"
    using assms by (auto simp: in_diskmap_def bc_consts div_less_iff_less_mult)
qed (simp add: BLKSIZE_def)

lemma same_page:
  assumes "b div BLKSIZE = (DISKMAP + n * BLKSIZE + k) div BLKSIZE" and "k < BLKSIZE"
  shows "\<exists>k'<BLKSIZE. b = DISKMAP + n * BLKSIZE + k'"
proof (intro exI conjI)
  show "b mod BLKSIZE < BLKSIZE" by (simp add: BLKSIZE_def)
  have "DISKMAP + n * BLKSIZE = (DISKMAP div BLKSIZE + n) * BLKSIZE" by (simp add: bc_consts)
  then show "b = DISKMAP + n * BLKSIZE + b mod BLKSIZE"
    using assms div_mult_mod_eq [of b BLKSIZE] by simp
qed

text \<open>A page that is mapped and clean holds what the drive holds.\<close>

definition bc_ok :: "'a bcache_scheme \<Rightarrow> bool" where
  "bc_ok s \<longleftrightarrow> (\<forall>a. in_diskmap a \<and> mapped s (a div BLKSIZE) \<and> \<not> dirty s (a div BLKSIZE)
      \<longrightarrow> ram s a = disk s (a - DISKMAP)) \<and> (\<forall>p. dirty s p \<longrightarrow> mapped s p)"

lemma bc_ok_stored: "bc_ok s \<Longrightarrow> bc_ok (stored s a bs)"
  using pages_mem [of a _ "length bs"] by (fastforce simp: bc_ok_def stored_def Let_def peek_def)

lemma bc_pgfault_peek:
  assumes "bc_pgfault s a = Inr (Some t)" and "\<not> mapped s (a div BLKSIZE)"
  shows "peek t = peek s" and "disk t = disk s" and "mapped t (a div BLKSIZE)"
proof -
  have a: "in_diskmap a" and t: "mapped t = (mapped s)(a div BLKSIZE := True)" "disk t = disk s"
    "ram t = (\<lambda>b. if a - a mod BLKSIZE \<le> b \<and> b < a - a mod BLKSIZE + BLKSIZE
        then disk s (ide_byte ((a - DISKMAP) div BLKSIZE * BLKSECTS) (b - (a - a mod BLKSIZE))) else ram s b)"
    using assms by (auto simp: bc_pgfault_def ide_read_def in_diskmap_def Let_def split: if_splits)
  show "disk t = disk s" "mapped t (a div BLKSIZE)" using t by simp_all
  obtain n k where nk: "a = DISKMAP + n * BLKSIZE + k" "k < BLKSIZE" "n < 786432"
    using a by (rule diskmap_cases)
  have 1: "ram t b = disk s (b - DISKMAP)" and 2: "in_diskmap b" if same: "b div BLKSIZE = a div BLKSIZE" for b
  proof -
    obtain k' where b: "b = DISKMAP + n * BLKSIZE + k'" "k' < BLKSIZE"
      using same_page [of b n k] same nk by blast
    have m: "a mod BLKSIZE = k" "(a - DISKMAP) div BLKSIZE = n"
      using nk block_offset [of k n] by (simp_all add: div_nat_eqI algebra_simps)
    show "ram t b = disk s (b - DISKMAP)"
      unfolding t m using nk b by (simp add: ide_byte_def bc_consts mult.commute)
    show "in_diskmap b" using nk b by (simp add: in_diskmap_def bc_consts)
  qed
  have 3: "ram t b = ram s b" if "b div BLKSIZE \<noteq> a div BLKSIZE" for b
  proof -
    have "\<not> (a - a mod BLKSIZE \<le> b \<and> b < a - a mod BLKSIZE + BLKSIZE)"
      using that div_nat_eqI [of BLKSIZE "a div BLKSIZE" b] by (auto simp: minus_mod_eq_mult_div)
    then show ?thesis unfolding t by auto
  qed
  show "peek t = peek s"
  proof
    fix b show "peek t b = peek s b"
      using 1 [of b] 2 [of b] 3 [of b] assms(2) by (cases "b div BLKSIZE = a div BLKSIZE") (auto simp: peek_def t)
  qed
qed


lemma bc_pgfault_ok:
  assumes "bc_ok s" and "bc_pgfault s a = Inr (Some t)" and "\<not> mapped s (a div BLKSIZE)"
  shows "bc_ok t"
proof -
  note p = bc_pgfault_peek [OF assms(2,3)]
  have t: "mapped t = (mapped s)(a div BLKSIZE := True)" "dirty t = (dirty s)(a div BLKSIZE := True)"
    using assms by (auto simp: bc_pgfault_def ide_read_def Let_def split: if_splits)
  have "ram t b = disk t (b - DISKMAP)" if "in_diskmap b" "mapped t (b div BLKSIZE)" "\<not> dirty t (b div BLKSIZE)" for b
  proof -
    have "peek t b = disk s (b - DISKMAP)"
      using that assms(1,3) by (auto simp: p t bc_ok_def peek_def split: if_splits)
    then show ?thesis using that by (simp add: peek_def [of t] p(2))
  qed
  then show ?thesis using assms(1) by (auto simp: bc_ok_def t)
qed

section \<open>Writing back\<close>

lemma ide_block: "n < 786432 \<Longrightarrow> ide_byte (n * BLKSECTS) i = n * BLKSIZE + i"
  by (simp add: ide_byte_def bc_consts)

lemma flush_block_effect:
  assumes "flush_block s a = Inr t"
  shows "ram t = ram s" "mapped t = mapped s" "super_set t = super_set s" "console t = console s"
    and "\<And>p. dirty t p \<longleftrightarrow> dirty s p \<and> (p = a div BLKSIZE \<longrightarrow> \<not> mapped s p)"
    and "\<And>b. in_diskmap b \<Longrightarrow> disk t (b - DISKMAP) =
       (if b div BLKSIZE = a div BLKSIZE \<and> mapped s (b div BLKSIZE) \<and> dirty s (b div BLKSIZE)
        then ram s b else disk s (b - DISKMAP))"
proof -
  have a: "in_diskmap a" using assms by (auto simp: flush_block_def in_diskmap_def Let_def split: if_splits)
  obtain n k where nk: "a = DISKMAP + n * BLKSIZE + k" "k < BLKSIZE" "n < 786432"
    using a by (rule diskmap_cases)
  have m: "a mod BLKSIZE = k" "(a - DISKMAP) div BLKSIZE = n"
    using nk block_offset [of k n] by (simp_all add: div_nat_eqI algebra_simps)
  have am: "a - a mod BLKSIZE = DISKMAP + n * BLKSIZE" using nk m by simp
  have ap: "DISKMAP div BLKSIZE + n = a div BLKSIZE" using nk by simp
  have t: "t = (if \<not> mapped s (a div BLKSIZE) \<or> \<not> dirty s (a div BLKSIZE) then s
     else s\<lparr>disk := \<lambda>b. if n * BLKSIZE \<le> b \<and> b < n * BLKSIZE + BLKSIZE
                       then ram s (DISKMAP + b) else disk s b,
            dirty := (dirty s)(a div BLKSIZE := False)\<rparr>)"
    using assms a nk(3) unfolding flush_block_def Let_def am
    by (auto simp: ide_write_def ide_block [OF nk(3)] m in_diskmap_def ap split: if_splits cong: if_cong)
  show "ram t = ram s" "mapped t = mapped s" "super_set t = super_set s" "console t = console s"
    "\<And>p. dirty t p \<longleftrightarrow> dirty s p \<and> (p = a div BLKSIZE \<longrightarrow> \<not> mapped s p)"
    by (auto simp: t)
  fix b assume b: "in_diskmap b"
  have "b div BLKSIZE = a div BLKSIZE \<longleftrightarrow> n * BLKSIZE \<le> b - DISKMAP \<and> b - DISKMAP < n * BLKSIZE + BLKSIZE"
  proof -
    obtain n' k' where b': "b = DISKMAP + n' * BLKSIZE + k'" "k' < BLKSIZE" using b by (rule diskmap_cases)
    have "n' = n \<longleftrightarrow> n * BLKSIZE \<le> n' * BLKSIZE + k' \<and> n' * BLKSIZE + k' < n * BLKSIZE + BLKSIZE"
      using b'(2) by (cases n' n rule: linorder_cases) (auto simp: BLKSIZE_def)
    then show ?thesis using b' nk by simp
  qed
  moreover have "DISKMAP + (b - DISKMAP) = b" using b by (simp add: in_diskmap_def)
  ultimately show "disk t (b - DISKMAP) =
       (if b div BLKSIZE = a div BLKSIZE \<and> mapped s (b div BLKSIZE) \<and> dirty s (b div BLKSIZE)
        then ram s b else disk s (b - DISKMAP))"
    by (auto simp: t)
qed

lemma flush_block_peek: "flush_block s a = Inr t \<Longrightarrow> peek t = peek s"
  by (rule ext) (auto simp: peek_def flush_block_effect)

lemma flush_block_ok: "flush_block s a = Inr t \<Longrightarrow> bc_ok s \<Longrightarrow> bc_ok t"
  by (auto simp: bc_ok_def flush_block_effect)

lemma flush_block_disk:
  assumes "flush_block s a = Inr t" "bc_ok s" "in_diskmap b"
  shows "disk t (b - DISKMAP) = (if b div BLKSIZE = a div BLKSIZE then peek s b else disk s (b - DISKMAP))"
  using assms by (auto simp: flush_block_effect peek_def bc_ok_def)

text \<open>A block that was only read is written back by the next flush, with the bytes it had.\<close>

lemma bc_pgfault_flush:
  assumes "bc_ok s" "bc_pgfault s a = Inr (Some t)" "\<not> mapped s (a div BLKSIZE)" "flush_block t a = Inr u" "in_diskmap b"
  shows "dirty t (a div BLKSIZE)" "disk u (b - DISKMAP) = disk s (b - DISKMAP)"
proof -
  note p = bc_pgfault_peek [OF assms(2,3)]
  show "dirty t (a div BLKSIZE)"
    using assms(2) by (auto simp: bc_pgfault_def ide_read_def Let_def split: if_splits)
  have "disk u (b - DISKMAP) = (if b div BLKSIZE = a div BLKSIZE then peek s b else disk s (b - DISKMAP))"
    using flush_block_disk [OF assms(4) bc_pgfault_ok [OF assms(1-3)] assms(5)] p by simp
  then show "disk u (b - DISKMAP) = disk s (b - DISKMAP)" using assms(3,5) by (auto simp: peek_def)
qed

lemma s_nblocks_peek: "peek s = peek t \<Longrightarrow> s_nblocks s = s_nblocks t"
  by (simp add: s_nblocks_def load32_def)

lemma flush_block_total:
  assumes "in_diskmap a" and "\<not> super_set s \<or> (a - DISKMAP) div BLKSIZE < s_nblocks s \<or> (a - DISKMAP) div BLKSIZE = 0"
  shows "\<exists>t. flush_block s a = Inr t"
  using assms by (auto simp: flush_block_def in_diskmap_def ide_write_def Let_def)


section \<open>A store backed by a drive\<close>

fun each :: "('x \<Rightarrow> 's \<Rightarrow> 's res) \<Rightarrow> 'x list \<Rightarrow> 's \<Rightarrow> 's res" where
  "each f [] s = Inr s"
| "each f (x # xs) s = bind_res (f x s) (each f xs)"

lemma each_append: "each f (xs @ ys) s = bind_res (each f xs s) (each f ys)"
  by (induction xs arbitrary: s) (auto simp: bind_res_def split: sum.splits)

locale backed_store =
  fixes view :: "'s \<Rightarrow> nat \<Rightarrow> byte"
    and medium :: "'s \<Rightarrow> nat \<Rightarrow> byte"
    and coherent :: "'s \<Rightarrow> bool"
    and unit_of :: "nat \<Rightarrow> nat"
    and put :: "'s \<Rightarrow> nat \<Rightarrow> byte list \<Rightarrow> 's res"
    and flush :: "'s \<Rightarrow> nat \<Rightarrow> 's res"
    and backed :: "nat \<Rightarrow> bool"
  assumes put_view: "put s a bs = Inr t \<Longrightarrow>
      view t b = (if a \<le> b \<and> b < a + length bs then bs ! (b - a) else view s b)"
    and put_coherent: "put s a bs = Inr t \<Longrightarrow> coherent s \<Longrightarrow> coherent t"
    and flush_view: "flush s a = Inr t \<Longrightarrow> view t = view s"
    and flush_coherent: "flush s a = Inr t \<Longrightarrow> coherent s \<Longrightarrow> coherent t"
    and flush_medium: "flush s a = Inr t \<Longrightarrow> coherent s \<Longrightarrow> backed b \<Longrightarrow>
      medium t b = (if unit_of b = unit_of a then view s b else medium s b)"
begin

lemma flushes_view: "each (\<lambda>a s. flush s a) as s = Inr t \<Longrightarrow> view t = view s"
  by (induction as arbitrary: s) (auto simp: bind_res_Inr_iff dest: flush_view)

lemma flushes_coherent: "each (\<lambda>a s. flush s a) as s = Inr t \<Longrightarrow> coherent s \<Longrightarrow> coherent t"
  by (induction as arbitrary: s) (auto simp: bind_res_Inr_iff dest: flush_coherent)

lemma flushes_durable:
  assumes "each (\<lambda>a s. flush s a) as s = Inr t" and "coherent s" and "backed b"
  shows "medium t b = (if unit_of b \<in> unit_of ` set as then view s b else medium s b)"
  using assms(1,2)
proof (induction as arbitrary: s)
  case (Cons a as)
  then obtain u where u: "flush s a = Inr u" "each (\<lambda>a s. flush s a) as u = Inr t"
    by (auto simp: bind_res_Inr_iff)
  show ?case
    using Cons.IH [OF u(2)] Cons.prems flush_coherent [OF u(1)] flush_view [OF u(1)]
      flush_medium [OF u(1) _ assms(3)] by auto
qed simp

end

lemma poke_Inr: "poke s a bs = Inr t \<longleftrightarrow> accessible s a (length bs) \<and> t = stored s a bs"
  by (auto simp: poke_def)

interpretation cached_disk: backed_store peek "\<lambda>s b. disk s (b - DISKMAP)" bc_ok "\<lambda>a. a div BLKSIZE"
    poke flush_block in_diskmap
proof unfold_locales
  fix s t :: "'a bcache_scheme" and a b bs
  show "poke s a bs = Inr t \<Longrightarrow> peek t b = (if a \<le> b \<and> b < a + length bs then bs ! (b - a) else peek s b)"
    by (simp add: poke_Inr peek_stored)
  show "poke s a bs = Inr t \<Longrightarrow> bc_ok s \<Longrightarrow> bc_ok t" by (simp add: poke_Inr bc_ok_stored)
  show "flush_block s a = Inr t \<Longrightarrow> peek t = peek s" by (rule flush_block_peek)
  show "flush_block s a = Inr t \<Longrightarrow> bc_ok s \<Longrightarrow> bc_ok t" by (rule flush_block_ok)
  show "flush_block s a = Inr t \<Longrightarrow> bc_ok s \<Longrightarrow> in_diskmap b \<Longrightarrow>
      disk t (b - DISKMAP) = (if b div BLKSIZE = a div BLKSIZE then peek s b else disk s (b - DISKMAP))"
    by (rule flush_block_disk)
qed

section \<open>Start-up\<close>

lemma accessible_within:
  "0 < n \<Longrightarrow> a mod BLKSIZE + n \<le> BLKSIZE \<Longrightarrow> page_ok s (a div BLKSIZE) \<Longrightarrow> accessible s a n"
  by (simp add: accessible_def pages_within)

lemma mapped_stored_within:
  "0 < length bs \<Longrightarrow> a mod BLKSIZE + length bs \<le> BLKSIZE \<Longrightarrow>
   mapped (stored s a bs) p \<longleftrightarrow> mapped s p \<or> p = a div BLKSIZE"
  by (simp add: stored_def Let_def pages_within)

lemma unmap_clean:
  assumes "bc_ok s" and "\<not> dirty s (a div BLKSIZE)"
  shows "in_diskmap a \<Longrightarrow> peek (bc_unmap s a) = peek s" and "bc_ok (bc_unmap s a)"
proof -
  show "bc_ok (bc_unmap s a)" using assms by (auto simp: bc_ok_def bc_unmap_def)
  show "peek (bc_unmap s a) = peek s" if a: "in_diskmap a"
  proof
    fix b
    have "b div BLKSIZE = a div BLKSIZE \<Longrightarrow> in_diskmap b"
      using a same_page by (elim diskmap_cases) (fastforce simp: in_diskmap_def bc_consts)
    then show "peek (bc_unmap s a) b = peek s b"
      using assms by (auto simp: peek_def bc_unmap_def bc_ok_def)
  qed
qed

lemma strcmp_same: "0 \<in> set q \<Longrightarrow> strcmp (q @ r) q = Inr 0"
  by (induction q) auto

lemma peeks_split: "k \<le> n \<Longrightarrow> peeks s a n = peeks s a k @ peeks s (a + k) (n - k)"
  by (rule nth_equalityI) (auto simp: nth_append)

lemma cprintf_bc [simp]:
  "peek (cprintf m s) = peek s" "bc_ok (cprintf m s) = bc_ok s" "super_set (cprintf m s) = super_set s"
  "mapped (cprintf m s) = mapped s" "dirty (cprintf m s) = dirty s" "disk (cprintf m s) = disk s"
  by (simp_all add: fun_eq_iff cprintf_def peek_def bc_ok_def)

lemma peeks_cong: "peek s = peek t \<Longrightarrow> peeks s a n = peeks t a n"
  by (simp add: peeks_def)

lemma block_1: "in_diskmap (DISKMAP + BLKSIZE)" "(DISKMAP + BLKSIZE) mod BLKSIZE = 0"
  by (simp_all add: in_diskmap_def bc_consts)

lemma check_bc_ok:
  assumes ok: "bc_ok s" and super: "\<not> super_set s"
  shows "\<exists>t. check_bc s = Inr t \<and> peek t = peek s \<and> bc_ok t \<and> \<not> super_set t \<and>
     mapped t (DISKMAP div BLKSIZE + 1) \<and> console t = console s @ bytes_of ''block cache is good'' @ [10]"
proof -
  let ?b = "DISKMAP + BLKSIZE" and ?oopsw = "bytes_of ''OOPS!'' @ [10, 0] :: byte list"
  let ?s1 = "stored s ?b ?oopsw"
  have pg: "?b div BLKSIZE = DISKMAP div BLKSIZE + 1" by (simp add: bc_consts)
  have acc: "accessible u ?b n" if "\<not> super_set u" "0 < n" "n \<le> BLKSIZE" for u :: "'a bcache_scheme" and n
    using that block_1 by (intro accessible_within) (simp_all add: page_ok_def in_diskmap_def bc_consts)
  obtain s2 where s2: "flush_block ?s1 ?b = Inr s2"
    using flush_block_total [OF block_1(1), of ?s1] super by auto
  have ok2: "bc_ok s2" using flush_block_ok [OF s2] bc_ok_stored ok by blast
  have m2: "mapped s2 (?b div BLKSIZE)" "\<not> dirty s2 (?b div BLKSIZE)"
    using block_1 by (simp_all add: flush_block_effect [OF s2] mapped_stored_within bc_consts)
  let ?s3 = "bc_unmap s2 ?b"
  have p3: "peek ?s3 = peek ?s1" and ok3: "bc_ok ?s3"
    using unmap_clean [OF ok2 m2(2)] block_1 flush_block_peek [OF s2] by simp_all
  have "strcmp (peeks ?s3 ?b BLKSIZE) ?oopsw = Inr 0"
  proof -
    have l: "length ?oopsw = 7" by simp
    have "peeks ?s3 ?b 7 = ?oopsw" using peeks_stored [of s ?b ?oopsw] unfolding l peeks_cong [OF p3] .
    then show ?thesis using strcmp_same [of ?oopsw] peeks_split [of 7 BLKSIZE ?s3 ?b] by (simp add: BLKSIZE_def)
  qed
  moreover let ?s4 = "stored ?s3 ?b (peeks s ?b 264)"
  have u3: "\<not> super_set ?s3" using super by (simp add: bc_unmap_def flush_block_effect [OF s2])
  obtain s5 where s5: "flush_block ?s4 ?b = Inr s5"
    using flush_block_total [OF block_1(1), of ?s4] u3 by auto
  have "peek s5 = peek s"
    unfolding flush_block_peek [OF s5] by (auto simp: fun_eq_iff peek_stored p3)
  moreover have "bc_ok s5" using flush_block_ok [OF s5] bc_ok_stored ok3 by blast
  moreover have "mapped s5 (?b div BLKSIZE)" "\<not> super_set s5" "console s5 = console s"
    using block_1 u3 by (simp_all add: flush_block_effect [OF s5] mapped_stored_within bc_consts)
      (simp add: stored_def bc_unmap_def Let_def flush_block_effect [OF s2])
  moreover have p14: "poke s ?b ?oopsw = Inr ?s1" "poke ?s3 ?b (peeks s ?b 264) = Inr ?s4"
    using acc [of s "length ?oopsw"] acc [of ?s3 264] super u3 by (simp_all add: poke_def BLKSIZE_def)
  moreover have n3: "\<not> mapped ?s3 (?b div BLKSIZE)" by (simp add: bc_unmap_def)
  ultimately show ?thesis
    using p14 n3 super m2 s2 s5 pg by (simp add: check_bc_def diskaddr_def Let_def)
qed


text \<open>
  Starting the block cache (\<open>bc_init\<close>: the self-test \<open>check_bc\<close> smashes the super block, writes it
  out, evicts it, reads it back and restores it) trips none of its assertions on a coherent
  cache, leaves every byte of the disk as the program sees it unchanged and the super block cached,
  and the cache stays coherent.
\<close>

theorem bc_init_transparent:
  assumes "bc_ok s" and "\<not> super_set s"
  shows "\<exists>t. bc_init s = Inr t \<and> peek t = peek s \<and> bc_ok t \<and> \<not> super_set t \<and>
     mapped t (DISKMAP div BLKSIZE + 1) \<and> console t = console s @ bytes_of ''block cache is good'' @ [10]"
proof -
  have "(DISKMAP + BLKSIZE) div BLKSIZE = DISKMAP div BLKSIZE + 1" by (simp add: bc_consts)
  then show ?thesis
    using check_bc_ok [OF assms] by (auto simp: bc_init_def diskaddr_def bc_touch_def)
qed

definition blank_cache :: "(nat \<Rightarrow> byte) \<Rightarrow> bcache" where
  "blank_cache d = \<lparr>console = [], ram = (\<lambda>_. 0), mapped = (\<lambda>_. False), dirty = (\<lambda>_. False),
     disk = d, super_set = False\<rparr>"

lemma blank_cache_ok: "bc_ok (blank_cache d)" "\<not> super_set (blank_cache d)"
  by (simp_all add: bc_ok_def blank_cache_def)

theorem bc_init_transparent_witness:
  "\<exists>t. bc_init (blank_cache (\<lambda>_. 7)) = Inr t \<and> peek t = peek (blank_cache (\<lambda>_. 7))"
  using bc_init_transparent [OF blank_cache_ok] by blast

end
