(* ===== verification/VPrintf.thy ===== *)
theory VPrintf
  imports CString
begin

text \<open>
  The format interpreter of \<^verbatim>\<open>lib/printfmt.c\<close>. The format is a byte array that is scanned by
  position, because an unknown escape moves the scan back; reading past its end is the fault
  \<open>OutOfBounds\<close>. A variadic argument is a 64 bit slot (an
  integer, or a pointer that is printed as a number) or a pointer to a string. \<^verbatim>\<open>putch\<close> is called in
  order and cannot influence the interpreter, so the model returns the bytes passed to it.
\<close>

section \<open>Arguments\<close>

datatype varg = VInt u64 | VStr "byte list" | VNull

definition va_int :: "varg list \<Rightarrow> (u64 \<times> varg list) res" where
  "va_int ap = (case ap of VInt w # ap \<Rightarrow> Inr (w, ap) | VNull # ap \<Rightarrow> Inr (0, ap) | _ \<Rightarrow> Inl OutOfBounds)"

definition va_str :: "varg list \<Rightarrow> (byte list option \<times> varg list) res" where
  "va_str ap = (case ap of VStr p # ap \<Rightarrow> Inr (Some p, ap) | VNull # ap \<Rightarrow> Inr (None, ap) | _ \<Rightarrow> Inl OutOfBounds)"

definition get_unsigned :: "varg list \<Rightarrow> nat \<Rightarrow> bool \<Rightarrow> (nat \<times> varg list) res" where
  "get_unsigned ap lflag zflag = bind_res (va_int ap) (\<lambda>(w, ap).
     Inr (if \<not> zflag \<and> lflag = 0 then unat (ucast w :: u32) else unat w, ap))"

definition get_int :: "varg list \<Rightarrow> nat \<Rightarrow> bool \<Rightarrow> (int \<times> varg list) res" where
  "get_int ap lflag zflag = bind_res (va_int ap) (\<lambda>(w, ap).
     Inr (if \<not> zflag \<and> lflag = 0 then sint (ucast w :: u32) else sint w, ap))"

definition error_string :: "string list" where
  "error_string = [[], ''unspecified error'', ''bad environment'', ''invalid parameter'', ''out of memory'',
     ''out of environments'', ''corrupted debug info'', ''segmentation fault'', ''invalid ELF image'',
     ''no such system call'', ''entry not found'', ''env is not recving'', ''unexpected end of file'',
     ''no free space on disk'', ''too many files are open'', ''file or block not found'', ''invalid path'',
     ''file already exists'', ''file is not a valid executable'', ''operation not supported'']"

text \<open>
  The table has \<^verbatim>\<open>MAXERROR = 25\<close> entries; entry 0 and the entries from 20 on are null. The nested
  calls \<^verbatim>\<open>printfmt("error %d", err)\<close> and \<^verbatim>\<open>printfmt("%s", strerr)\<close> are written out.
\<close>

definition error_text :: "nat \<Rightarrow> byte list" where
  "error_text err = (if 25 \<le> err \<or> length error_string \<le> err \<or> err = 0 then bytes_of ''error '' @ dec (int err)
     else bytes_of (error_string ! err))"

text \<open>
  \<^verbatim>\<open>-err\<close> of the smallest \<^verbatim>\<open>int\<close> is itself: it stays negative, passes the test against \<^verbatim>\<open>MAXERROR\<close>, and the table is read before its start.
\<close>

definition print_error :: "u32 \<Rightarrow> byte list res" where
  "print_error err = (let err = (if sint err < 0 then - err else err) in
     if sint err < 0 then Inl OutOfBounds else Inr (error_text (unat err)))"

lemma print_error_text:
  assumes "w \<noteq> 0x80000000"
  shows "print_error w = Inr (error_text (nat \<bar>sint w\<bar>))"
proof -
  have "sint w \<noteq> - (2 ^ 31)"
  proof
    assume "sint w = - (2 ^ 31)"
    moreover have "w = word_of_int (sint w)" by simp
    ultimately have "w = word_of_int (- (2 ^ 31))" by (simp only:)
    then show False using assms by simp
  qed
  moreover have "- (2 ^ 31) \<le> sint w" "sint w < 2 ^ 31" using sint_range_size [of w] by (simp_all add: word_size)
  ultimately have neg: "sint (- w) = - sint w" if "sint w < 0"
    unfolding sint_word_ariths using that by (simp add: signed_take_bit_int_eq_self)
  have u: "unat x = nat (sint x)" if "0 \<le> sint x" for x :: u32
  proof -
    have "\<not> signed_take_bit 31 (uint x) < 0" using that by (simp add: sint_uint)
    then have "even (uint x div 2147483648)" by (simp add: signed_take_bit_negative_iff bit_iff_odd)
    then obtain k where k: "uint x div 2147483648 = 2 * k" by blast
    have "uint x < 4294967296" using uint_range_size [of x] by (simp add: word_size)
    moreover define r where "r = uint x mod 2147483648"
    moreover have "uint x = 2 * k * 2147483648 + r" using div_mult_mod_eq [of "uint x" 2147483648] unfolding k r_def by simp
    moreover have "0 \<le> r" "r < 2147483648" unfolding r_def by simp_all
    ultimately have "k < 1" "uint x = 2 * k * 2147483648 + r" "r < 2147483648" by linarith+
    then have "uint x < 2147483648" by linarith
    then have "sint x = uint x" by (simp add: sint_uint signed_take_bit_int_eq_self order.trans [OF _ uint_ge_0])
    then show ?thesis by (simp only: nat_uint_eq)
  qed
  show ?thesis using neg u [of w] u [of "- w"] by (auto simp: print_error_def)
qed

lemma print_error_int_min: "print_error 0x80000000 = Inl OutOfBounds"
  by (simp add: print_error_def)

section \<open>The interpreter\<close>

record esc =
  padc :: byte
  width :: int
  precision :: int
  lflag :: nat
  altflag :: bool
  zflag :: bool

definition esc_init :: esc where
  "esc_init = \<lparr>padc = 32, width = -1, precision = -1, lflag = 0, altflag = False, zflag = False\<rparr>"

text \<open>The width field: the scan stops at the first character with \<^verbatim>\<open>ch - '0' > 9\<close> and does not consume it.\<close>

function width_loop :: "byte list \<Rightarrow> nat \<Rightarrow> byte \<Rightarrow> int \<Rightarrow> (int \<times> nat) res" where
  "width_loop fmt i ch prec =
     (let prec = prec * 10 + uint ch - 48 in
      if i < length fmt
      then if uint (fmt ! i) - 48 > 9 then Inr (prec, i) else width_loop fmt (Suc i) (fmt ! i) prec
      else Inl OutOfBounds)"
  by pat_completeness auto
termination by (relation "measure (\<lambda>(fmt, i, _). length fmt - i)") auto

lemma width_loop_pos: "width_loop fmt i ch prec = Inr (w, j) \<Longrightarrow> i \<le> j"
proof (induction fmt i ch prec rule: width_loop.induct)
  case (1 fmt i ch prec)
  then show ?case by (subst (asm) width_loop.simps) (fastforce simp: Let_def split: if_splits)
qed

definition process_precision :: "int \<Rightarrow> esc \<Rightarrow> esc" where
  "process_precision p e =
     (if width e < 0 then e\<lparr>width := p, precision := -1\<rparr> else e\<lparr>precision := p\<rparr>)"

text \<open>
  The flags after a percent sign, up to the conversion character: its position is one before the
  returned position.
\<close>

declare width_loop.simps [simp del]

function escape :: "byte list \<Rightarrow> nat \<Rightarrow> esc \<Rightarrow> varg list \<Rightarrow> (byte \<times> nat \<times> esc \<times> varg list) res" where
  "escape fmt i e ap =
     (if i < length fmt
      then let ch = fmt ! i; i = Suc i in
        if ch = 48 \<or> ch = 45 then escape fmt i (e\<lparr>padc := ch\<rparr>) ap
        else if ch = 42 then bind_res (va_int ap) (\<lambda>(w, ap).
               escape fmt i (process_precision (sint (ucast w :: u32)) e) ap)
        else if 49 \<le> ch \<and> ch \<le> 57 then bind_res (width_loop fmt i ch 0) (\<lambda>(p, i).
               escape fmt i (process_precision p e) ap)
        else if ch = 46 then escape fmt i (e\<lparr>width := max 0 (width e)\<rparr>) ap
        else if ch = 35 then escape fmt i (e\<lparr>altflag := True\<rparr>) ap
        else if ch = 108 then escape fmt i (e\<lparr>lflag := Suc (lflag e)\<rparr>) ap
        else if ch = 122 then escape fmt i (e\<lparr>zflag := True\<rparr>) ap
        else Inr (ch, i, e, ap)
      else Inl OutOfBounds)"
  by pat_completeness auto
termination
  by (relation "measure (\<lambda>(fmt, i, _). length fmt - i)") (auto dest!: width_loop_pos)

declare escape.simps [simp del]

text \<open>\<^verbatim>\<open>%s\<close>: the characters of the string, cut at the precision.\<close>

fun str_chars :: "byte list \<Rightarrow> int \<Rightarrow> bool \<Rightarrow> byte list res" where
  "str_chars [] p alt = Inl OutOfBounds"
| "str_chars (ch # s) p alt =
     (if ch \<noteq> 0 \<and> (p < 0 \<or> 0 \<le> p - 1)
      then bind_res (str_chars s (if p < 0 then p else p - 1) alt) (\<lambda>r.
           Inr ((if alt \<and> (ch < 32 \<or> 126 < ch) then 63 else ch) # r))
      else Inr [])"

definition print_str :: "byte list \<Rightarrow> esc \<Rightarrow> byte list res" where
  "print_str ptr e =
     bind_res (if 0 < width e \<and> padc e \<noteq> 45
               then bind_res (if precision e < 0 then strlen ptr else strnlen ptr (nat (precision e))) (\<lambda>n.
                    let w = width e - int n in
                    Inr (replicate (nat w) (padc e), if 0 < w then -1 else w - 1))
               else Inr ([], width e)) (\<lambda>(pad, w).
     bind_res (str_chars ptr (precision e) (altflag e)) (\<lambda>cs.
     Inr (pad @ cs @ replicate (nat (w - int (length cs))) 32)))"

text \<open>
  One conversion: the characters printed and the remaining arguments; \<open>None\<close> is the default
  case, an unknown conversion. \<^verbatim>\<open>-i\<close> of the smallest \<^verbatim>\<open>intmax_t\<close> is itself, whose
  value as \<^verbatim>\<open>uintmax_t\<close> is its magnitude.
\<close>

definition convert :: "byte \<Rightarrow> esc \<Rightarrow> varg list \<Rightarrow> (byte list \<times> varg list) option res" where
  "convert ch e ap =
     (let number = (\<lambda>pre base (num, ap).
            Inr (Some (pre @ print_num num base (width e) (padc e) (ch = 88), ap))) in
      if ch = 99 then bind_res (va_int ap) (\<lambda>(w, ap). Inr (Some ([ucast w], ap)))
      else if ch = 105 then bind_res (va_int ap) (\<lambda>(w, ap). bind_res (print_error (ucast w)) (\<lambda>out. Inr (Some (out, ap))))
      else if ch = 115 then bind_res (va_str ap) (\<lambda>(p, ap).
             bind_res (print_str (case p of None \<Rightarrow> bytes_of ''(null)'' @ [0] | Some p \<Rightarrow> p) e) (\<lambda>out. Inr (Some (out, ap))))
      else if ch = 100 then bind_res (get_int ap (lflag e) (zflag e)) (\<lambda>(i, ap).
             number (if i < 0 then [45] else []) 10 (nat \<bar>i\<bar>, ap))
      else if ch = 117 then bind_res (get_unsigned ap (lflag e) (zflag e)) (number [] 10)
      else if ch = 111 then bind_res (get_unsigned ap (lflag e) (zflag e)) (number [] 8)
      else if ch = 112 then bind_res (va_int ap) (\<lambda>(w, ap). number [48, 120] 16 (unat w, ap))
      else if ch = 88 \<or> ch = 120 then bind_res (get_unsigned ap (lflag e) (zflag e)) (number [] 16)
      else if ch = 37 then Inr (Some ([37], ap))
      else Inr None)"

text \<open>\<^verbatim>\<open>while ((--ufmt)[-1] != '%');\<close>: back to just after the closest percent sign.\<close>

fun rewind :: "byte list \<Rightarrow> nat \<Rightarrow> nat" where
  "rewind fmt 0 = 0"
| "rewind fmt (Suc i) = (if i = 0 \<or> fmt ! (i - 1) = 37 then i else rewind fmt i)"


lemma escape_step:
  assumes "escape fmt i e ap = Inr r"
  shows "i < length fmt \<and> (fst (snd r) = Suc i \<or> (\<exists>k>i. \<exists>e' ap'. escape fmt k e' ap' = Inr r))"
proof -
  have i: "i < length fmt" using assms by (subst (asm) escape.simps) (simp split: if_splits)
  have "fst (snd r) = Suc i \<or> (\<exists>e' ap'. escape fmt (Suc i) e' ap' = Inr r) \<or>
      (\<exists>p k e'. width_loop fmt (Suc i) (fmt ! i) 0 = Inr (p, k) \<and> escape fmt k e' ap = Inr r)"
    using assms i unfolding escape.simps [of fmt i e ap] Let_def if_P [OF i] bind_res_def
    by (auto simp: split: if_splits sum.splits prod.splits)
  then show ?thesis using i width_loop_pos [of fmt "Suc i" "fmt ! i" 0] by (meson Suc_le_lessD lessI)
qed

lemma escape_pos: "escape fmt i e ap = Inr (ch, j, e', ap') \<Longrightarrow> i < j"
proof (induction "length fmt - i" arbitrary: i e ap rule: less_induct)
  case less
  from escape_step [OF less.prems] less.hyps show ?case
    by (auto intro: less_trans diff_less_mono2)
qed

lemma rewind_ge: "fmt ! i = 37 \<Longrightarrow> Suc i < j \<Longrightarrow> Suc i \<le> rewind fmt j"
proof (induction j)
  case (Suc k)
  then show ?case by (cases "k = Suc i") auto
qed simp

function vprintfmt :: "byte list \<Rightarrow> nat \<Rightarrow> varg list \<Rightarrow> byte list res" where
  "vprintfmt fmt i ap =
     (if i < length fmt
      then if fmt ! i = 0 then Inr []
        else if fmt ! i \<noteq> 37 then bind_res (vprintfmt fmt (Suc i) ap) (\<lambda>r. Inr (fmt ! i # r))
        else bind_res (escape fmt (Suc i) esc_init ap) (\<lambda>(ch, j, e, ap).
             bind_res (convert ch e ap) (\<lambda>c. case c of
               Some (out, ap) \<Rightarrow> bind_res (vprintfmt fmt j ap) (\<lambda>r. Inr (out @ r))
             | None \<Rightarrow> bind_res (vprintfmt fmt (rewind fmt j) ap) (\<lambda>r. Inr (37 # r))))
      else Inl OutOfBounds)"
  by pat_completeness auto
termination
proof (relation "measure (\<lambda>(fmt, i, ap). length fmt - i)", goal_cases)
  case (3 fmt i ap x ch y j z e ap' c)
  then have "Suc i \<le> rewind fmt j" by (intro rewind_ge) (auto dest: escape_pos)
  moreover have "i < length fmt" using 3 by simp
  ultimately show ?case by simp
qed (auto dest!: escape_pos)

declare vprintfmt.simps [simp del]

definition printfmt :: "byte list \<Rightarrow> varg list \<Rightarrow> byte list res" where
  "printfmt fmt ap = vprintfmt fmt 0 ap"

section \<open>Printing into a buffer\<close>

text \<open>
  \<open>vsnprintf\<close> into the object \<open>buf\<close>: \<open>start\<close> advances while it is below \<^verbatim>\<open>buf + n - 1\<close>. The return
  value is the number of characters the format produces, or \<^verbatim>\<open>-E_INVAL\<close>.
\<close>

record sprintbuf =
  sb_buf :: "byte list"
  sb_start :: nat
  sb_end :: nat
  sb_count :: nat

definition sprintputch :: "byte \<Rightarrow> sprintbuf \<Rightarrow> sprintbuf res" where
  "sprintputch ch st =
     (let st = st\<lparr>sb_count := Suc (sb_count st)\<rparr> in
      if sb_start st < sb_end st
      then bind_res (mem_write (sb_buf st) (sb_start st) [ch]) (\<lambda>b.
           Inr (st\<lparr>sb_buf := b, sb_start := Suc (sb_start st)\<rparr>))
      else Inr st)"

fun putch_all :: "byte list \<Rightarrow> sprintbuf \<Rightarrow> sprintbuf res" where
  "putch_all [] st = Inr st"
| "putch_all (c # cs) st = bind_res (sprintputch c st) (putch_all cs)"

definition vsnprintf :: "byte list option \<Rightarrow> nat \<Rightarrow> byte list \<Rightarrow> varg list \<Rightarrow> (int \<times> byte list) res" where
  "vsnprintf buf n fmt ap = (case buf of None \<Rightarrow> Inr (-3, []) | Some b \<Rightarrow>
     if n < 1 then Inr (-3, b)
     else bind_res (vprintfmt fmt 0 ap) (\<lambda>out.
          bind_res (putch_all out \<lparr>sb_buf = b, sb_start = 0, sb_end = n - 1, sb_count = 0\<rparr>) (\<lambda>st.
          bind_res (mem_write (sb_buf st) (sb_start st) [0]) (\<lambda>b. Inr (int (sb_count st), b)))))"

section \<open>Correctness\<close>

lemma putch_all_effect:
  assumes "sb_end st \<le> length (sb_buf st)" and "sb_start st \<le> sb_end st"
  shows "putch_all cs st = Inr (st\<lparr>sb_buf := blit (sb_buf st) (sb_start st) (take (sb_end st - sb_start st) cs),
      sb_start := sb_start st + min (length cs) (sb_end st - sb_start st),
      sb_count := sb_count st + length cs\<rparr>)"
  using assms
proof (induction cs arbitrary: st)
  case (Cons c cs)
  show ?case
  proof (cases "sb_start st < sb_end st")
    case True
    let ?st = "st\<lparr>sb_count := Suc (sb_count st), sb_buf := blit (sb_buf st) (sb_start st) [c], sb_start := Suc (sb_start st)\<rparr>"
    have 1: "sprintputch c st = Inr ?st" using True Cons.prems by (simp add: sprintputch_def)
    have k: "sb_end st - sb_start st = Suc (sb_end st - Suc (sb_start st))" using True by simp
    have "blit (blit (sb_buf st) (sb_start st) [c]) (Suc (sb_start st)) (take (sb_end st - Suc (sb_start st)) cs)
        = blit (sb_buf st) (sb_start st) (c # take (sb_end st - Suc (sb_start st)) cs)"
    proof -
      have "sb_start st + length [c] + length (take (sb_end st - Suc (sb_start st)) cs) \<le> length (sb_buf st)"
        using True Cons.prems by (auto simp: min_def)
      from blit_append [OF this] show ?thesis by simp
    qed
    then show ?thesis
      using 1 Cons.IH [of ?st] Cons.prems True by (simp add: k)
  next
    case False
    have "sprintputch c st = Inr (st\<lparr>sb_count := Suc (sb_count st)\<rparr>)" using False by (simp add: sprintputch_def)
    then show ?thesis using Cons.IH [of "st\<lparr>sb_count := Suc (sb_count st)\<rparr>"] Cons.prems False by simp
  qed
qed simp


lemma vsnprintf_text:
  assumes "vprintfmt fmt 0 ap = Inr out" and "1 \<le> n" and "n \<le> length b"
  shows "vsnprintf (Some b) n fmt ap = Inr (int (length out), blit b 0 (take (n - 1) out @ [0]))"
proof -
  have l: "length (take (n - 1) out) = min (length out) (n - 1)" by (simp add: min.commute)
  have "0 + length (take (n - 1) out) + length [0 :: byte] \<le> length b" using assms by auto
  from blit_append [OF this] assms show ?thesis
    by (simp add: vsnprintf_def putch_all_effect min.commute)
qed

text \<open>What a format made of plain pieces means.\<close>

datatype piece = Lit byte | Signed u64 | Unsigned u64 | Octal u64 | Hex u64 | Pointer u64
  | Chr u64 | Str "byte list" | Error u64 | Percent

fun piece_ok :: "piece \<Rightarrow> bool" where
  "piece_ok (Lit c) \<longleftrightarrow> c \<noteq> 0 \<and> c \<noteq> 37"
| "piece_ok (Str s) \<longleftrightarrow> 0 \<notin> set s"
| "piece_ok (Error w) \<longleftrightarrow> (ucast w :: u32) \<noteq> 0x80000000"
| "piece_ok _ \<longleftrightarrow> True"

fun piece_fmt :: "piece \<Rightarrow> byte list" where
  "piece_fmt (Lit c) = [c]"
| "piece_fmt (Signed w) = [37, 100]"
| "piece_fmt (Unsigned w) = [37, 117]"
| "piece_fmt (Octal w) = [37, 111]"
| "piece_fmt (Hex w) = [37, 120]"
| "piece_fmt (Pointer w) = [37, 112]"
| "piece_fmt (Chr w) = [37, 99]"
| "piece_fmt (Str s) = [37, 115]"
| "piece_fmt (Error w) = [37, 105]"
| "piece_fmt Percent = [37, 37]"

fun piece_args :: "piece \<Rightarrow> varg list" where
  "piece_args (Signed w) = [VInt w]"
| "piece_args (Unsigned w) = [VInt w]"
| "piece_args (Octal w) = [VInt w]"
| "piece_args (Hex w) = [VInt w]"
| "piece_args (Pointer w) = [VInt w]"
| "piece_args (Chr w) = [VInt w]"
| "piece_args (Str s) = [VStr (s @ [0])]"
| "piece_args (Error w) = [VInt w]"
| "piece_args _ = []"

fun piece_text :: "piece \<Rightarrow> byte list" where
  "piece_text (Lit c) = [c]"
| "piece_text (Signed w) = dec (sint (ucast w :: u32))"
| "piece_text (Unsigned w) = print_num (unat (ucast w :: u32)) 10 (-1) 32 False"
| "piece_text (Octal w) = print_num (unat (ucast w :: u32)) 8 (-1) 32 False"
| "piece_text (Hex w) = print_num (unat (ucast w :: u32)) 16 (-1) 32 False"
| "piece_text (Pointer w) = [48, 120] @ print_num (unat w) 16 (-1) 32 False"
| "piece_text (Chr w) = [ucast w]"
| "piece_text (Str s) = s"
| "piece_text (Error w) = error_text (nat \<bar>sint (ucast w :: u32)\<bar>)"
| "piece_text Percent = [37]"

lemma str_chars_plain: "0 \<notin> set s \<Longrightarrow> str_chars (s @ 0 # r) (-1) False = Inr s"
  by (induction s) auto

lemma escape_plain:
  assumes "ch \<notin> {48, 45, 42, 46, 35, 108, 122}" and "\<not> (49 \<le> ch \<and> ch \<le> 57)" and "length pre = i"
  shows "escape (pre @ ch # r) i e ap = Inr (ch, Suc i, e, ap)"
  using assms by (subst escape.simps) (auto simp: Let_def)

lemma vprintfmt_conv:
  assumes "ch \<notin> {48, 45, 42, 46, 35, 108, 122}" and "\<not> (49 \<le> ch \<and> ch \<le> 57)"
    and "convert ch esc_init ap = Inr (Some (out, ap'))"
  shows "vprintfmt (pre @ 37 # ch # r) (length pre) ap =
     bind_res (vprintfmt (pre @ 37 # ch # r) (Suc (Suc (length pre))) ap') (\<lambda>t. Inr (out @ t))"
  using assms escape_plain [OF assms(1,2), of "pre @ [37]" "Suc (length pre)" r esc_init ap]
  by (subst vprintfmt.simps) simp

lemma convert_piece:
  assumes "piece_ok p" and "\<nexists>c. p = Lit c"
  shows "\<exists>ch. piece_fmt p = [37, ch] \<and> ch \<notin> {48, 45, 42, 46, 35, 108, 122} \<and> \<not> (49 \<le> ch \<and> ch \<le> 57) \<and>
     convert ch esc_init (piece_args p @ ap) = Inr (Some (piece_text p, ap))"
  using assms
  by (cases p) (auto simp: convert_def esc_init_def va_int_def va_str_def get_int_def get_unsigned_def
      print_str_def str_chars_plain dec_def print_error_text)

lemma vprintfmt_pieces:
  assumes "list_all piece_ok ps"
  shows "vprintfmt (pre @ concat (map piece_fmt ps) @ 0 # r) (length pre) (concat (map piece_args ps)) =
     Inr (concat (map piece_text ps))"
  using assms
proof (induction ps arbitrary: pre)
  case Nil
  show ?case by (subst vprintfmt.simps) simp
next
  case (Cons p ps)
  let ?fs = "concat (map piece_fmt ps) @ 0 # r" and ?as = "concat (map piece_args ps)"
  have ih: "vprintfmt ((pre @ piece_fmt p) @ ?fs) (length (pre @ piece_fmt p)) ?as = Inr (concat (map piece_text ps))"
    using Cons.IH [of "pre @ piece_fmt p"] Cons.prems by simp
  show ?case
  proof (cases "\<exists>c. p = Lit c")
    case True
    then obtain c where c: "p = Lit c" ..
    have "vprintfmt (pre @ c # ?fs) (length pre) ?as =
        bind_res (vprintfmt (pre @ c # ?fs) (Suc (length pre)) ?as) (\<lambda>t. Inr (c # t))"
      using Cons.prems c by (subst vprintfmt.simps) simp
    then show ?thesis using ih c by simp
  next
    case False
    then obtain ch where ch: "piece_fmt p = [37, ch]" "ch \<notin> {48, 45, 42, 46, 35, 108, 122}"
        "\<not> (49 \<le> ch \<and> ch \<le> 57)" "convert ch esc_init (piece_args p @ ?as) = Inr (Some (piece_text p, ?as))"
      using convert_piece [of p ?as] Cons.prems by auto
    show ?thesis using vprintfmt_conv [OF ch(2-4), of pre ?fs] ih ch(1) by simp
  qed
qed


text \<open>
  C28: The format interpreter prints, for every format made of literal characters and plain
  conversions (\<^verbatim>\<open>%d %u %o %x %p %c %s %i %%\<close>), exactly the concatenation of the texts of its
  pieces, consuming the arguments in order: numbers as their digits, \<^verbatim>\<open>%d\<close> with the sign of the low
  32 bits, strings up to their terminator, error codes as their names. The error code must not be the smallest
  32 bit integer, for which \<^verbatim>\<open>%i\<close> reads outside its table (\<open>print_error_int_min\<close>).
\<close>

theorem vprintfmt_renders:
  assumes "list_all piece_ok ps"
  shows "printfmt (concat (map piece_fmt ps) @ [0]) (concat (map piece_args ps)) = Inr (concat (map piece_text ps))"
  using vprintfmt_pieces [OF assms, of "[]" "[]"] by (simp add: printfmt_def)

theorem vprintfmt_renders_witness:
  "printfmt (bytes_of ''n=%d %s%%%i'' @ [0]) [VInt (- 5), VStr (bytes_of ''ok'' @ [0]), VInt (- 4)] = Inr (bytes_of ''n=-5 ok%out of memory'')"
  using vprintfmt_renders [of "[Lit 110, Lit 61, Signed (- 5), Lit 32, Str [111, 107], Percent, Error (- 4)]"]
  by (simp add: bytes_of_def byte_of_char_def dec_def print_num.simps digit_char_def error_text_def error_string_def)

text \<open>
  C35: \<open>vsnprintf\<close> never writes past \<open>n\<close> bytes: the buffer receives the first \<^verbatim>\<open>n - 1\<close> characters of the
  output and a terminator, the rest of the object is unchanged, and the returned count is the
  length of the untruncated output.
\<close>

theorem vsnprintf_bounded:
  assumes "vprintfmt fmt 0 ap = Inr out" and "1 \<le> n" and "n \<le> length b"
  shows "vsnprintf (Some b) n fmt ap = Inr (int (length out), take (n - 1) out @ 0 # drop (Suc (min (length out) (n - 1))) b)"
  using vsnprintf_text [OF assms] assms(2,3) by (simp add: blit_def min.commute)

theorem vsnprintf_bounded_witness:
  "vsnprintf (Some [9, 9, 9, 9, 9]) 4 (bytes_of ''%d'' @ [0]) [VInt 12345] = Inr (5, [49, 50, 51, 0, 9])"
proof -
  have "vprintfmt (bytes_of ''%d'' @ [0]) 0 [VInt 12345] = Inr [49, 50, 51, 52, 53]"
    using vprintfmt_pieces [of "[Signed 12345]" "[]" "[]"]
    by (simp add: bytes_of_def byte_of_char_def dec_def print_num.simps digit_char_def)
  from vsnprintf_bounded [OF this, of 4 "[9, 9, 9, 9, 9]"] show ?thesis by simp
qed

text \<open>
  The width scan \<^verbatim>\<open>(ch = *ufmt) - '0' > 9\<close> takes every character below \<^verbatim>\<open>'9'\<close> for a digit, the dot
  of a precision included: \<^verbatim>\<open>%5.3d\<close> is read as the width \<^verbatim>\<open>(5 * 10 - 2) * 10 + 3 = 483\<close>, and the number
  is padded to 483 columns.
\<close>

theorem printf_dot_is_width:
  "vprintfmt (bytes_of ''%5.3d'' @ [0]) 0 [VInt 7] = Inr (replicate 482 32 @ [55])"
  by code_simp

end
