(* ===== verification/Fs.thy ===== *)
theory Fs
  imports Bcache VPrintf
begin

text \<open>
  The file system (\<^verbatim>\<open>fs/fs.c\<close>) on the block cache. A \<^verbatim>\<open>struct File *\<close> or a block slot is an
  address of the server's memory; the structures are read and written through \<open>load32\<close>,
  \<open>peeks\<close> and \<open>poke\<close>, so aliasing is the one of the code. An operation returns \<open>Inl r\<close> for an error
  code \<open>r < 0\<close> and \<open>Inr\<close> a result, with the new state; \<open>panic\<close> and failed assertions are faults.
\<close>

section \<open>Layout and results\<close>

definition NDIRECT :: nat where "NDIRECT = 10"
definition NINDIRECT :: nat where "NINDIRECT = 1024"
definition MAXNAMELEN :: nat where "MAXNAMELEN = 128"
definition BLKFILES :: nat where "BLKFILES = 16"
definition BLKBITSIZE :: nat where "BLKBITSIZE = 32768"
definition FS_MAGIC :: u32 where "FS_MAGIC = 0x4A0530AE"
definition FTYPE_REG :: u32 where "FTYPE_REG = 0"
definition FTYPE_DIR :: u32 where "FTYPE_DIR = 1"

definition E_INVAL :: int where "E_INVAL = 3"
definition E_NO_DISK :: int where "E_NO_DISK = 13"
definition E_NOT_FOUND :: int where "E_NOT_FOUND = 15"
definition E_BAD_PATH :: int where "E_BAD_PATH = 16"
definition E_FILE_EXISTS :: int where "E_FILE_EXISTS = 17"

text \<open>Field addresses of a \<^verbatim>\<open>struct File\<close> at \<open>f\<close>; \<^verbatim>\<open>&super->s_root\<close>; \<^verbatim>\<open>bitmap\<close>.\<close>

definition f_size :: "nat \<Rightarrow> nat" where "f_size f = f + MAXNAMELEN"
definition f_type :: "nat \<Rightarrow> nat" where "f_type f = f + MAXNAMELEN + 4"
definition f_direct :: "nat \<Rightarrow> nat \<Rightarrow> nat" where "f_direct f i = f + MAXNAMELEN + 8 + 4 * i"
definition f_indirect :: "nat \<Rightarrow> nat" where "f_indirect f = f + MAXNAMELEN + 8 + 4 * NDIRECT"
definition s_root :: nat where "s_root = DISKMAP + BLKSIZE + 8"
definition bitmap :: nat where "bitmap = DISKMAP + 2 * BLKSIZE"

type_synonym ('s, 'a) fsop = "'s \<Rightarrow> ((int + 'a) \<times> 's) res"

definition ret :: "'a \<Rightarrow> ('s, 'a) fsop" where "ret x s = Inr (Inr x, s)"

definition err :: "int \<Rightarrow> ('s, 'a) fsop" where "err e s = Inr (Inl (- e), s)"

definition act :: "('s \<Rightarrow> 's res) \<Rightarrow> ('s, unit) fsop" where
  "act f s = bind_res (f s) (\<lambda>s. Inr (Inr (), s))"

text \<open>\<^verbatim>\<open>if ((res = m) < 0) return res;\<close> and the rest of the function.\<close>

definition fbind :: "('s, 'a) fsop \<Rightarrow> ('a \<Rightarrow> ('s, 'b) fsop) \<Rightarrow> ('s, 'b) fsop" where
  "fbind m k s = bind_res (m s) (\<lambda>(r, s). case r of Inl e \<Rightarrow> Inr (Inl e, s) | Inr x \<Rightarrow> k x s)"

lemma fbind_cong [fundef_cong]:
  "m s = m' s' \<Longrightarrow> s = s' \<Longrightarrow> (\<And>x t. m' s' = Inr (Inr x, t) \<Longrightarrow> k x t = k' x t) \<Longrightarrow> fbind m k s = fbind m' k' s'"
  by (auto simp: fbind_def bind_res_def split: sum.splits)

section \<open>Super block and free bitmap\<close>

definition check_super :: "'a bcache_scheme \<Rightarrow> 'a bcache_scheme res" where
  "check_super s =
     (if load32 s (DISKMAP + BLKSIZE) \<noteq> FS_MAGIC then Inl KernPanic
      else if DISKSIZE div BLKSIZE < s_nblocks s then Inl KernPanic
      else Inr (cprintf (bytes_of ''superblock is good'' @ [10]) s))"

definition bitword :: "nat \<Rightarrow> nat" where "bitword n = bitmap + 4 * (n div 32)"

definition TSTBIT :: "'a bcache_scheme \<Rightarrow> nat \<Rightarrow> bool" where
  "TSTBIT s n \<longleftrightarrow> load32 s (bitword n) AND push_bit (n mod 32) 1 \<noteq> 0"

definition SETBIT :: "nat \<Rightarrow> 'a bcache_scheme \<Rightarrow> 'a bcache_scheme res" where
  "SETBIT n s = store32 s (bitword n) (load32 s (bitword n) OR push_bit (n mod 32) 1)"

definition CLRBIT :: "nat \<Rightarrow> 'a bcache_scheme \<Rightarrow> 'a bcache_scheme res" where
  "CLRBIT n s = store32 s (bitword n) (load32 s (bitword n) AND NOT (push_bit (n mod 32) 1))"

definition block_is_free :: "'a bcache_scheme \<Rightarrow> nat \<Rightarrow> bool" where
  "block_is_free s blockno =
     (if \<not> super_set s \<or> s_nblocks s \<le> blockno then False else TSTBIT s blockno)"

definition free_block :: "nat \<Rightarrow> 'a bcache_scheme \<Rightarrow> 'a bcache_scheme res" where
  "free_block blockno s = (if blockno = 0 then Inl KernPanic else SETBIT blockno s)"

function alloc_loop :: "nat \<Rightarrow> 'a bcache_scheme \<Rightarrow> (nat \<times> 'a bcache_scheme) res" where
  "alloc_loop blockno s =
     (if blockno < s_nblocks s
      then if block_is_free s blockno
           then bind_res (CLRBIT blockno s) (\<lambda>s.
                bind_res (flush_block s (bitword blockno)) (\<lambda>s. Inr (blockno, s)))
           else alloc_loop (Suc blockno) s
      else Inr (0, s))"
  by pat_completeness auto
termination by (relation "measure (\<lambda>(b, s). s_nblocks s - b)") auto

definition alloc_block :: "'a bcache_scheme \<Rightarrow> (nat \<times> 'a bcache_scheme) res" where
  "alloc_block s = alloc_loop 0 s"

definition check_bitmap :: "'a bcache_scheme \<Rightarrow> 'a bcache_scheme res" where
  "check_bitmap s =
     bind_res (assert_res (list_all (\<lambda>i. \<not> block_is_free s (2 + i))
        [0..<(s_nblocks s + BLKBITSIZE - 1) div BLKBITSIZE])) (\<lambda>_.
     bind_res (assert_res (\<not> block_is_free s 1)) (\<lambda>_.
     bind_res (assert_res (\<not> block_is_free s 0)) (\<lambda>_.
     Inr (cprintf (bytes_of ''bitmap is good'' @ [10]) s))))"

text \<open>
  \<open>fs_init\<close> after the drive has been selected. \<^verbatim>\<open>diskaddr(1)\<close> is called while \<^verbatim>\<open>super\<close> is still null.
\<close>

definition fs_init :: "'a bcache_scheme \<Rightarrow> 'a bcache_scheme res" where
  "fs_init s =
     bind_res (bc_init s) (\<lambda>s.
     bind_res (diskaddr s 1) (\<lambda>_.
     bind_res (check_super (s\<lparr>super_set := True\<rparr>)) (\<lambda>s.
     bind_res (diskaddr s 2) (\<lambda>_. check_bitmap s))))"

section \<open>Blocks of a file\<close>

definition file_block_walk :: "nat \<Rightarrow> nat \<Rightarrow> bool \<Rightarrow> ('a bcache_scheme, nat) fsop" where
  "file_block_walk f filebno alloc s =
     (if NDIRECT + NINDIRECT \<le> filebno then err E_INVAL s
      else if filebno < NDIRECT then ret (f_direct f filebno) s
      else fbind (\<lambda>s.
             if load32 s (f_indirect f) = 0
             then if \<not> alloc then err E_NOT_FOUND s
                  else bind_res (alloc_block s) (\<lambda>(block, s).
                    if block = 0 then err E_NO_DISK s
                    else bind_res (store32 s (f_indirect f) (of_nat block)) (\<lambda>s.
                         bind_res (diskaddr s (unat (load32 s (f_indirect f)))) (\<lambda>a.
                         act (\<lambda>s. poke s a (replicate BLKSIZE 0)) s)))
             else ret () s)
           (\<lambda>_ s. bind_res (diskaddr s (unat (load32 s (f_indirect f)))) (\<lambda>indirect.
              ret (indirect + 4 * (filebno - NDIRECT)) s)) s)"

definition file_get_block :: "nat \<Rightarrow> nat \<Rightarrow> ('a bcache_scheme, nat) fsop" where
  "file_get_block f filebno =
     fbind (file_block_walk f filebno True) (\<lambda>pdiskbno.
     fbind (\<lambda>s. if load32 s pdiskbno = 0
                then bind_res (alloc_block s) (\<lambda>(block, s).
                  if block = 0 then err E_NO_DISK s
                  else act (\<lambda>s. store32 s pdiskbno (of_nat block)) s)
                else ret () s)
     (\<lambda>_ s. bind_res (diskaddr s (unat (load32 s pdiskbno))) (\<lambda>blk. ret blk s)))"


section \<open>Directories\<close>

text \<open>
  \<open>dir_nblock\<close>: \<^verbatim>\<open>dir->f_size / BLKSIZE\<close> as a \<^verbatim>\<open>blockno_t\<close>. \<^verbatim>\<open>strcmp(f[j].f_name, name)\<close> reads at most the
  128 bytes of \<^verbatim>\<open>f_name\<close>, because \<open>name\<close> ends within 128 bytes.
\<close>

definition dir_nblock :: "'a bcache_scheme \<Rightarrow> nat \<Rightarrow> nat" where
  "dir_nblock s dir = nat (sint (load32 s (f_size dir)) sdiv int BLKSIZE mod 2 ^ 32)"

definition dir_size_ok :: "'a bcache_scheme \<Rightarrow> nat \<Rightarrow> bool" where
  "dir_size_ok s dir \<longleftrightarrow> sint (load32 s (f_size dir)) smod int BLKSIZE = 0"

fun find_name :: "'a bcache_scheme \<Rightarrow> nat \<Rightarrow> byte list \<Rightarrow> nat \<Rightarrow> nat option res" where
  "find_name s f name 0 = Inr None"
| "find_name s f name (Suc n) =
     bind_res (strcmp (peeks s f MAXNAMELEN) name) (\<lambda>c.
       if c = 0 then Inr (Some f) else find_name s (f + 256) name n)"

fun dir_lookup_loop :: "nat \<Rightarrow> byte list \<Rightarrow> nat \<Rightarrow> nat \<Rightarrow> ('a bcache_scheme, nat) fsop" where
  "dir_lookup_loop dir name i 0 s = err E_NOT_FOUND s"
| "dir_lookup_loop dir name i (Suc n) s =
     fbind (file_get_block dir i) (\<lambda>blk s.
       bind_res (find_name s blk name BLKFILES) (\<lambda>r. case r of
         Some f \<Rightarrow> ret f s
       | None \<Rightarrow> dir_lookup_loop dir name (Suc i) n s)) s"

definition dir_lookup :: "nat \<Rightarrow> byte list \<Rightarrow> ('a bcache_scheme, nat) fsop" where
  "dir_lookup dir name s =
     bind_res (assert_res (dir_size_ok s dir)) (\<lambda>_. dir_lookup_loop dir name 0 (dir_nblock s dir) s)"

definition find_unused :: "'a bcache_scheme \<Rightarrow> nat \<Rightarrow> nat option" where
  "find_unused s blk = map_option (\<lambda>j. blk + 256 * j)
     (find (\<lambda>j. peek s (blk + 256 * j) = 0) [0..<BLKFILES])"

fun dir_alloc_loop :: "nat \<Rightarrow> nat \<Rightarrow> nat \<Rightarrow> ('a bcache_scheme, nat option) fsop" where
  "dir_alloc_loop dir i 0 s = ret None s"
| "dir_alloc_loop dir i (Suc n) s =
     fbind (file_get_block dir i) (\<lambda>blk s. case find_unused s blk of
         Some f \<Rightarrow> ret (Some f) s
       | None \<Rightarrow> dir_alloc_loop dir (Suc i) n s) s"

definition dir_alloc_file :: "nat \<Rightarrow> ('a bcache_scheme, nat) fsop" where
  "dir_alloc_file dir s =
     bind_res (assert_res (dir_size_ok s dir)) (\<lambda>_.
       let nblock = dir_nblock s dir in
       fbind (dir_alloc_loop dir 0 nblock) (\<lambda>r. case r of
         Some f \<Rightarrow> ret f
       | None \<Rightarrow> fbind (act (\<lambda>s. store32 s (f_size dir) (load32 s (f_size dir) + of_nat BLKSIZE)))
                   (\<lambda>_. file_get_block dir nblock)) s)"

section \<open>Paths\<close>

text \<open>\<^verbatim>\<open>'/'\<close> is 47. A path that is not terminated within its object is a fault.\<close>

fun skip_slash :: "byte list \<Rightarrow> byte list res" where
  "skip_slash [] = Inl OutOfBounds"
| "skip_slash (c # p) = (if c = 47 then skip_slash p else Inr (c # p))"

fun path_elem :: "byte list \<Rightarrow> (byte list \<times> byte list) res" where
  "path_elem [] = Inl OutOfBounds"
| "path_elem (c # p) = (if c \<noteq> 47 \<and> c \<noteq> 0
     then bind_res (path_elem p) (\<lambda>(e, r). Inr (c # e, r)) else Inr ([], c # p))"

lemma skip_slash_length: "skip_slash p = Inr q \<Longrightarrow> length q \<le> length p"
  by (induction p) (auto split: if_splits)

lemma path_elem_split: "path_elem p = Inr (e, r) \<Longrightarrow> p = e @ r"
  by (induction p arbitrary: e) (auto simp: bind_res_Inr_iff split: if_splits)

lemma path_elem_progress: "path_elem (c # p) = Inr (e, r) \<Longrightarrow> c \<noteq> 47 \<Longrightarrow> c \<noteq> 0 \<Longrightarrow> length r \<le> length p"
  by (auto simp: bind_res_Inr_iff dest!: path_elem_split)

text \<open>
  What \<open>walk_path\<close> leaves in its result parameters: the return value, \<^verbatim>\<open>*pdir\<close>, \<^verbatim>\<open>*pf\<close> (0 is the
  null pointer) and \<^verbatim>\<open>lastelem\<close> with its terminator, where it was written. The caller's pointers may
  be null (\<open>file_open\<close>); then the value is not used.
\<close>

record walk =
  w_ret :: int
  w_dir :: nat
  w_file :: nat
  w_last :: "byte list option"

definition walk_fail :: "int \<Rightarrow> walk" where
  "walk_fail r = \<lparr>w_ret = r, w_dir = 0, w_file = 0, w_last = None\<rparr>"

function walk_loop :: "byte list \<Rightarrow> nat \<Rightarrow> nat \<Rightarrow> 'a bcache_scheme \<Rightarrow> (walk \<times> 'a bcache_scheme) res" where
  "walk_loop path dir f s = (case path of [] \<Rightarrow> Inl OutOfBounds | c # _ \<Rightarrow>
     if c = 0 then Inr (\<lparr>w_ret = 0, w_dir = dir, w_file = f, w_last = None\<rparr>, s)
     else let dir = f in
       bind_res (path_elem path) (\<lambda>(name, path').
       if MAXNAMELEN \<le> length name then Inr (walk_fail (- E_BAD_PATH), s)
       else bind_res (skip_slash path') (\<lambda>path''.
         if load32 s (f_type dir) \<noteq> FTYPE_DIR then Inr (walk_fail (- E_NOT_FOUND), s)
         else bind_res (dir_lookup dir (name @ [0]) s) (\<lambda>(r, s). case r of
             Inl e \<Rightarrow> Inr (if e = - E_NOT_FOUND \<and> hd path'' = 0
                           then \<lparr>w_ret = e, w_dir = dir, w_file = 0, w_last = Some (name @ [0])\<rparr>
                           else walk_fail e, s)
           | Inr f \<Rightarrow> walk_loop path'' dir f s))))"
  by pat_completeness auto
termination
proof (relation "measure (\<lambda>(path, _). length path)", goal_cases)
  case (2 path dir f s c p dir' x name path' path'' y r s' f')
  have "path_elem (c # p) = Inr (name, path')" "skip_slash path' = Inr path''" "c \<noteq> 0"
    using 2 by simp_all
  then have "length path'' \<le> length p"
    using skip_slash_length [of p path''] skip_slash_length [of path' path''] path_elem_progress [of c p name path']
    by (cases "c = 47") auto
  with 2 show ?case by simp
qed simp

definition walk_path :: "byte list \<Rightarrow> 'a bcache_scheme \<Rightarrow> (walk \<times> 'a bcache_scheme) res" where
  "walk_path path s = bind_res (skip_slash path) (\<lambda>path. walk_loop path 0 s_root s)"


section \<open>File operations\<close>

text \<open>\<^verbatim>\<open>CEILDIV(size, BLKSIZE)\<close> of an \<^verbatim>\<open>off_t\<close>, computed in 64 bits and converted to \<^verbatim>\<open>blockno_t\<close>.\<close>

definition size_blocks :: "u32 \<Rightarrow> nat" where
  "size_blocks sz = nat ((sint sz + 4095) mod 2 ^ 64 div int BLKSIZE mod 2 ^ 32)"

definition file_free_block :: "nat \<Rightarrow> nat \<Rightarrow> ('a bcache_scheme, unit) fsop" where
  "file_free_block f filebno = fbind (file_block_walk f filebno False) (\<lambda>ptr s.
     if load32 s ptr \<noteq> 0
     then act (\<lambda>s. bind_res (free_block (unat (load32 s ptr)) s) (\<lambda>s. store32 s ptr 0)) s
     else ret () s)"

fun truncate_loop :: "nat \<Rightarrow> nat \<Rightarrow> nat \<Rightarrow> 'a bcache_scheme \<Rightarrow> 'a bcache_scheme res" where
  "truncate_loop f bno 0 s = Inr s"
| "truncate_loop f bno (Suc n) s =
     bind_res (file_free_block f bno s) (\<lambda>(r, s).
       bind_res (case r of Inr _ \<Rightarrow> Inr s
         | Inl res \<Rightarrow> bind_res (print_error (word_of_int res)) (\<lambda>txt. Inr (cprintf (bytes_of ''warning: file_free_block: '' @ txt) s)))
       (truncate_loop f (Suc bno) n))"

definition file_truncate_blocks :: "nat \<Rightarrow> u32 \<Rightarrow> 'a bcache_scheme \<Rightarrow> 'a bcache_scheme res" where
  "file_truncate_blocks f newsize s =
     (let old_nblocks = size_blocks (load32 s (f_size f)); new_nblocks = size_blocks newsize in
      bind_res (truncate_loop f new_nblocks (old_nblocks - new_nblocks) s) (\<lambda>s.
      if new_nblocks \<le> NDIRECT \<and> load32 s (f_indirect f) \<noteq> 0
      then bind_res (free_block (unat (load32 s (f_indirect f))) s) (\<lambda>s. store32 s (f_indirect f) 0)
      else Inr s))"

definition file_set_size :: "nat \<Rightarrow> u32 \<Rightarrow> 'a bcache_scheme \<Rightarrow> 'a bcache_scheme res" where
  "file_set_size f newsize s =
     bind_res (if sint newsize < sint (load32 s (f_size f)) then file_truncate_blocks f newsize s else Inr s) (\<lambda>s.
     bind_res (store32 s (f_size f) newsize) (\<lambda>s. flush_block s f))"

fun flush_loop :: "nat \<Rightarrow> nat \<Rightarrow> nat \<Rightarrow> 'a bcache_scheme \<Rightarrow> 'a bcache_scheme res" where
  "flush_loop f i 0 s = Inr s"
| "flush_loop f i (Suc n) s =
     bind_res (file_block_walk f i False s) (\<lambda>(r, s).
     bind_res (case r of Inl _ \<Rightarrow> Inr s
       | Inr p \<Rightarrow> if load32 s p = 0 then Inr s
                  else bind_res (diskaddr s (unat (load32 s p))) (flush_block s)) (\<lambda>s.
     flush_loop f (Suc i) n s))"

definition file_flush :: "nat \<Rightarrow> 'a bcache_scheme \<Rightarrow> 'a bcache_scheme res" where
  "file_flush f s =
     bind_res (flush_loop f 0 (size_blocks (load32 s (f_size f))) s) (\<lambda>s.
     bind_res (if load32 s (f_indirect f) \<noteq> 0
               then bind_res (diskaddr s (unat (load32 s (f_indirect f)))) (flush_block s)
               else Inr s) (\<lambda>s. flush_block s f))"

definition fs_sync :: "'a bcache_scheme \<Rightarrow> 'a bcache_scheme res" where
  "fs_sync s = each (\<lambda>i s. bind_res (diskaddr s i) (flush_block s)) [1..<s_nblocks s] s"

definition file_create :: "byte list \<Rightarrow> ('a bcache_scheme, nat) fsop" where
  "file_create path s =
     bind_res (walk_path path s) (\<lambda>(w, s).
       if w_ret w = 0 then err E_FILE_EXISTS s
       else if w_ret w \<noteq> - E_NOT_FOUND \<or> w_dir w = 0 then Inr (Inl (w_ret w), s)
       else fbind (dir_alloc_file (w_dir w)) (\<lambda>filp.
            fbind (act (\<lambda>s. poke s filp (case w_last w of Some name \<Rightarrow> name | None \<Rightarrow> []))) (\<lambda>_.
            fbind (act (file_flush (w_dir w))) (\<lambda>_. ret filp))) s)"

definition file_open :: "byte list \<Rightarrow> ('a bcache_scheme, nat) fsop" where
  "file_open path s = bind_res (walk_path path s) (\<lambda>(w, s).
     if w_ret w = 0 then ret (w_file w) s else Inr (Inl (w_ret w), s))"

text \<open>
  \<open>file_read\<close> and \<open>file_write\<close>. \<^verbatim>\<open>pos\<close> and \<^verbatim>\<open>offset\<close> are signed 32 bit, \<^verbatim>\<open>count\<close> and the end of the
  transfer \<^verbatim>\<open>offset + count\<close> are unsigned 64 bit, and \<^verbatim>\<open>pos / BLKSIZE\<close> is a signed division. \<^verbatim>\<open>pos\<close> stays
  in range: a block number from \<^verbatim>\<open>NDIRECT + NINDIRECT\<close> on ends the loop with \<^verbatim>\<open>-E_INVAL\<close>.
\<close>

definition u64_of :: "int \<Rightarrow> int" where "u64_of x = x mod 2 ^ 64"

definition chunk :: "int \<Rightarrow> int \<Rightarrow> int" where
  "chunk pos endp = (let a = int BLKSIZE - pos smod int BLKSIZE; b = u64_of (endp - pos)
     in if a \<le> b then a else b)"

definition filebno_of :: "int \<Rightarrow> nat" where
  "filebno_of pos = nat (pos sdiv int BLKSIZE mod 2 ^ 32)"

definition blk_addr :: "nat \<Rightarrow> int \<Rightarrow> nat" where
  "blk_addr blk pos = nat (int blk + pos smod int BLKSIZE)"

lemma chunk_pos: "u64_of pos < endp \<Longrightarrow> endp < 2 ^ 64 \<Longrightarrow> 0 < chunk pos endp"
proof -
  assume a: "u64_of pos < endp" "endp < 2 ^ 64"
  have "pos smod int BLKSIZE < int BLKSIZE"
    using smod_int_range [of "int BLKSIZE" pos] by (simp add: BLKSIZE_def split: if_splits)
  moreover have "0 < u64_of (endp - pos)"
  proof -
    have "(endp - pos) mod 2 ^ 64 = (endp - u64_of pos) mod 2 ^ 64" by (simp add: u64_of_def mod_diff_right_eq)
    also have "\<dots> = endp - u64_of pos" using a by (intro mod_pos_pos_trivial) (auto simp: u64_of_def)
    finally show ?thesis using a by (simp add: u64_of_def)
  qed
  ultimately show ?thesis by (simp add: chunk_def Let_def)
qed


lemma u64_of_add: "u64_of pos < endp \<Longrightarrow> endp < 2 ^ 64 \<Longrightarrow> 0 \<le> n \<Longrightarrow> n \<le> u64_of (endp - pos) \<Longrightarrow>
   u64_of (pos + n) = u64_of pos + n"
proof -
  assume a: "u64_of pos < endp" "endp < 2 ^ 64" "0 \<le> n" "n \<le> u64_of (endp - pos)"
  have "(endp - pos) mod 2 ^ 64 = (endp - u64_of pos) mod 2 ^ 64" by (simp add: u64_of_def mod_diff_right_eq)
  also have "\<dots> = endp - u64_of pos" using a by (intro mod_pos_pos_trivial) (auto simp: u64_of_def)
  finally have "u64_of pos + n \<le> endp" using a by (simp add: u64_of_def)
  moreover have "0 \<le> u64_of pos" by (simp add: u64_of_def)
  ultimately have "(u64_of pos + n) mod 2 ^ 64 = u64_of pos + n" using a by (intro mod_pos_pos_trivial) simp_all
  then show ?thesis by (simp add: u64_of_def mod_add_left_eq)
qed

lemma chunk_le: "chunk pos endp \<le> u64_of (endp - pos)"
  by (simp add: chunk_def Let_def)

function read_loop :: "nat \<Rightarrow> nat \<Rightarrow> int \<Rightarrow> int \<Rightarrow> ('a bcache_scheme, unit) fsop" where
  "read_loop f buf pos endp s =
     (if u64_of pos < endp \<and> endp < 2 ^ 64
      then fbind (file_get_block f (filebno_of pos)) (\<lambda>blk s.
             let bn = nat (chunk pos endp) in
             bind_res (poke s buf (peeks s (blk_addr blk pos) bn)) (\<lambda>s.
             read_loop f (buf + bn) (pos + int bn) endp s)) s
      else ret () s)"
  by pat_completeness auto
termination
  by (relation "measure (\<lambda>(f, buf, pos, endp, s). nat (endp - u64_of pos))")
    (use chunk_pos chunk_le in \<open>auto simp: u64_of_add less_imp_le\<close>)

function write_loop :: "nat \<Rightarrow> nat \<Rightarrow> int \<Rightarrow> int \<Rightarrow> ('a bcache_scheme, unit) fsop" where
  "write_loop f buf pos endp s =
     (if u64_of pos < endp \<and> endp < 2 ^ 64
      then fbind (file_get_block f (filebno_of pos)) (\<lambda>blk s.
             let bn = nat (chunk pos endp) in
             bind_res (poke s (blk_addr blk pos) (peeks s buf bn)) (\<lambda>s.
             write_loop f (buf + bn) (pos + int bn) endp s)) s
      else ret () s)"
  by pat_completeness auto
termination
  by (relation "measure (\<lambda>(f, buf, pos, endp, s). nat (endp - u64_of pos))")
    (use chunk_pos chunk_le in \<open>auto simp: u64_of_add less_imp_le\<close>)

declare read_loop.simps [simp del] write_loop.simps [simp del]

definition file_read :: "nat \<Rightarrow> nat \<Rightarrow> nat \<Rightarrow> u32 \<Rightarrow> ('a bcache_scheme, nat) fsop" where
  "file_read f buf count offset s =
     (let sz = load32 s (f_size f) in
      if sint sz \<le> sint offset then ret 0 s
      else let rest = u64_of (sint (sz - offset));
               count = (if int count \<le> rest then int count else rest)
           in fbind (read_loop f buf (sint offset) (u64_of (sint offset + count))) (\<lambda>_. ret (nat count)) s)"

definition file_write :: "nat \<Rightarrow> nat \<Rightarrow> nat \<Rightarrow> u32 \<Rightarrow> ('a bcache_scheme, nat) fsop" where
  "file_write f buf count offset =
     fbind (\<lambda>s. if u64_of (sint (load32 s (f_size f))) < u64_of (sint offset + int count)
                then act (file_set_size f (word_of_int (sint offset + int count))) s
                else ret () s) (\<lambda>_.
     fbind (write_loop f buf (sint offset) (u64_of (sint offset + int count))) (\<lambda>_. ret count))"


section \<open>The free bitmap\<close>

definition in_block :: "nat \<Rightarrow> nat \<Rightarrow> bool" where
  "in_block b a \<longleftrightarrow> DISKMAP + b * BLKSIZE \<le> a \<and> a < DISKMAP + b * BLKSIZE + BLKSIZE"

lemma in_block_unique: "in_block b a \<Longrightarrow> in_block c a \<Longrightarrow> b = c"
  by (cases b c rule: linorder_cases) (auto simp: in_block_def BLKSIZE_def)

lemma in_block_offset: "k < BLKSIZE \<Longrightarrow> in_block b (DISKMAP + b * BLKSIZE + k)"
  by (simp add: in_block_def)

lemma in_blockE: "in_block b a \<Longrightarrow> (\<And>k. a = DISKMAP + b * BLKSIZE + k \<Longrightarrow> k < BLKSIZE \<Longrightarrow> P) \<Longrightarrow> P"
  unfolding in_block_def by (metis add_less_cancel_left le_add_diff_inverse)

definition free_set :: "'a bcache_scheme \<Rightarrow> nat set" where
  "free_set s = {b. block_is_free s b}"

definition nbitblocks :: "'a bcache_scheme \<Rightarrow> nat" where
  "nbitblocks s = (s_nblocks s + BLKBITSIZE - 1) div BLKBITSIZE"

text \<open>
  The file system invariant: a coherent cache, a valid super block, room for the bitmap, and
  the reserved blocks (0, the super block and the bitmap) marked in use.
\<close>

definition fs_ok :: "'a bcache_scheme \<Rightarrow> bool" where
  "fs_ok s \<longleftrightarrow> bc_ok s \<and> super_set s \<and> s_nblocks s \<le> DISKSIZE div BLKSIZE \<and>
     2 + nbitblocks s \<le> s_nblocks s \<and> (\<forall>b < 2 + nbitblocks s. \<not> block_is_free s b)"

lemma accessible_block:
  assumes "super_set s \<Longrightarrow> b < s_nblocks s" and "b < 786432" and "0 < n" and "k + n \<le> BLKSIZE"
  shows "accessible s (DISKMAP + b * BLKSIZE + k) n"
proof (rule accessible_within)
  have k: "k < BLKSIZE" using assms by simp
  show "(DISKMAP + b * BLKSIZE + k) mod BLKSIZE + n \<le> BLKSIZE" using assms block_offset [OF k] by simp
  have "(DISKMAP + b * BLKSIZE + k) div BLKSIZE = DISKMAP div BLKSIZE + b" using k by simp
  then show "page_ok s ((DISKMAP + b * BLKSIZE + k) div BLKSIZE)"
    using assms by (simp add: page_ok_def in_diskmap_def bc_consts)
qed (rule assms)

lemma fs_ok_block: "fs_ok s \<Longrightarrow> b < s_nblocks s \<Longrightarrow> b < 786432"
  by (simp add: fs_ok_def bc_consts)

lemma fs_ok_accessible: "fs_ok s \<Longrightarrow> b < s_nblocks s \<Longrightarrow> 0 < n \<Longrightarrow> k + n \<le> BLKSIZE \<Longrightarrow>
   accessible s (DISKMAP + b * BLKSIZE + k) n"
  using fs_ok_block by (intro accessible_block) auto

lemma bitword_split: "bitword n = DISKMAP + (2 + n div BLKBITSIZE) * BLKSIZE + 4 * (n div 32 mod 1024)"
proof -
  have "n div 32 = 1024 * (n div BLKBITSIZE) + n div 32 mod 1024"
    using mult_div_mod_eq [of 1024 "n div 32"] by (simp add: BLKBITSIZE_def div_mult2_eq [symmetric])
  moreover have "D + 2 * 4096 + 4 * x = D + (2 + y) * 4096 + 4 * z" if "x = 1024 * y + z" for D x y z :: nat
    using that by simp
  ultimately show ?thesis unfolding bitword_def bitmap_def BLKSIZE_def by blast
qed

lemma bitmap_block: "n < s_nblocks s \<Longrightarrow> n div BLKBITSIZE < nbitblocks s"
  unfolding nbitblocks_def by (rule less_le_trans [OF lessI]) (use div_le_mono [of "n + BLKBITSIZE" "s_nblocks s + BLKBITSIZE - 1" BLKBITSIZE] in \<open>simp add: BLKBITSIZE_def\<close>)

lemma bitword_accessible: "fs_ok s \<Longrightarrow> n < s_nblocks s \<Longrightarrow> accessible s (bitword n) 4"
  unfolding bitword_split using bitmap_block [of n s]
  by (intro fs_ok_accessible) (auto simp: fs_ok_def BLKSIZE_def)

lemma bitword_in_block: "i < 4 \<Longrightarrow> in_block (2 + n div BLKBITSIZE) (bitword n + i)"
  unfolding bitword_split add.assoc by (intro in_block_offset [unfolded add.assoc]) (simp add: BLKSIZE_def)

lemma TSTBIT_bit: "TSTBIT s n \<longleftrightarrow> bit (load32 s (bitword n)) (n mod 32)"
  by (simp add: TSTBIT_def bit_iff_and_push_bit_not_eq_0)

text \<open>Storing a bitmap word in which only bit \<open>n\<close> may differ.\<close>

lemma TSTBIT_stored:
  assumes "\<And>k. k < 32 \<Longrightarrow> k \<noteq> n mod 32 \<Longrightarrow> bit w k = bit (load32 s (bitword n)) k"
  shows "TSTBIT (stored s (bitword n) (put32 w)) m \<longleftrightarrow> (if m = n then bit w (n mod 32) else TSTBIT s m)"
proof (cases "m div 32 = n div 32")
  case True
  then have "bitword m = bitword n" by (simp add: bitword_def)
  moreover have "m = n \<longleftrightarrow> m mod 32 = n mod 32" using True by (metis div_mult_mod_eq)
  ultimately show ?thesis using assms [of "m mod 32"] by (auto simp: TSTBIT_bit load32_stored)
next
  case False
  then have "bitword m + 4 \<le> bitword n \<or> bitword n + 4 \<le> bitword m" by (auto simp: bitword_def)
  then show ?thesis using False by (auto simp: TSTBIT_bit load32_stored_apart)
qed


lemma fs_okI:
  assumes "fs_ok s" and "bc_ok t" and "super_set t" and "s_nblocks t = s_nblocks s"
    and "\<And>b. b \<in> free_set t \<Longrightarrow> b \<in> free_set s \<or> 2 + nbitblocks s \<le> b"
  shows "fs_ok t"
  using assms by (fastforce simp: fs_ok_def nbitblocks_def free_set_def)

lemma s_nblocks_stored:
  "DISKMAP + BLKSIZE + 8 \<le> a \<or> a + length bs \<le> DISKMAP + BLKSIZE + 4 \<Longrightarrow> s_nblocks (stored s a bs) = s_nblocks s"
  unfolding s_nblocks_def by (subst load32_stored_apart) auto

lemma bitword_ge: "DISKMAP + BLKSIZE + 8 \<le> bitword n"
  by (simp add: bitword_def bitmap_def BLKSIZE_def)

lemma free_set_stored_bit:
  assumes "\<And>k. k < 32 \<Longrightarrow> k \<noteq> n mod 32 \<Longrightarrow> bit w k = bit (load32 s (bitword n)) k" and "n < s_nblocks s" and "super_set s"
  shows "free_set (stored s (bitword n) (put32 w)) = (if bit w (n mod 32) then insert n (free_set s) else free_set s - {n})"
  using assms(2,3) TSTBIT_stored [OF assms(1), simplified] bitword_ge [of n]
  by (auto simp: free_set_def block_is_free_def s_nblocks_stored split: if_splits)

lemma peek_bitword:
  assumes "\<not> in_block (2 + n div BLKBITSIZE) a"
  shows "peek (stored s (bitword n) (put32 w)) a = peek s a"
proof -
  have "\<not> (bitword n \<le> a \<and> a < bitword n + 4)"
  proof
    assume "bitword n \<le> a \<and> a < bitword n + 4"
    then have "a = bitword n + (a - bitword n)" "a - bitword n < 4" by auto
    with bitword_in_block [of "a - bitword n" n] assms show False by simp
  qed
  then show ?thesis by (auto simp: peek_stored)
qed

lemma bit_store:
  assumes "fs_ok s" and "n < s_nblocks s"
    and "\<And>k. k < 32 \<Longrightarrow> k \<noteq> n mod 32 \<Longrightarrow> bit w k = bit (load32 s (bitword n)) k"
    and "bit w (n mod 32) \<Longrightarrow> 2 + nbitblocks s \<le> n"
  obtains t where "store32 s (bitword n) w = Inr t" "fs_ok t"
    "free_set t = (if bit w (n mod 32) then insert n (free_set s) else free_set s - {n})"
    "s_nblocks t = s_nblocks s" "\<And>a. \<not> in_block (2 + n div BLKBITSIZE) a \<Longrightarrow> peek t a = peek s a"
    "\<And>p. mapped s p \<Longrightarrow> mapped t p"
proof
  let ?t = "stored s (bitword n) (put32 w)"
  show "store32 s (bitword n) w = Inr ?t" using assms by (simp add: store32_def poke_def bitword_accessible)
  show f: "free_set ?t = (if bit w (n mod 32) then insert n (free_set s) else free_set s - {n})"
    using assms by (intro free_set_stored_bit) (auto simp: fs_ok_def)
  show nb: "s_nblocks ?t = s_nblocks s" using bitword_ge by (simp add: s_nblocks_stored)
  show "fs_ok ?t" using assms(1) by (rule fs_okI) (use assms f nb in \<open>auto simp: fs_ok_def bc_ok_stored split: if_splits\<close>)
  show "peek ?t a = peek s a" if "\<not> in_block (2 + n div BLKBITSIZE) a" for a
    using that by (rule peek_bitword)
  show "mapped s p \<Longrightarrow> mapped ?t p" for p by (simp add: stored_def Let_def)
qed

lemma CLRBIT_ok:
  assumes "fs_ok s" and "n < s_nblocks s"
  obtains t where "CLRBIT n s = Inr t" "fs_ok t" "free_set t = free_set s - {n}" "s_nblocks t = s_nblocks s"
    "\<And>a. \<not> in_block (2 + n div BLKBITSIZE) a \<Longrightarrow> peek t a = peek s a" "\<And>p. mapped s p \<Longrightarrow> mapped t p"
  using bit_store [OF assms, of "load32 s (bitword n) AND NOT (push_bit (n mod 32) 1)"]
  unfolding CLRBIT_def by (auto simp: bit_simps)

lemma SETBIT_ok:
  assumes "fs_ok s" and "n < s_nblocks s" and "2 + nbitblocks s \<le> n"
  obtains t where "SETBIT n s = Inr t" "fs_ok t" "free_set t = insert n (free_set s)" "s_nblocks t = s_nblocks s"
    "\<And>a. \<not> in_block (2 + n div BLKBITSIZE) a \<Longrightarrow> peek t a = peek s a" "\<And>p. mapped s p \<Longrightarrow> mapped t p"
  using bit_store [OF assms(1,2), of "load32 s (bitword n) OR push_bit (n mod 32) 1"] assms(3)
  unfolding SETBIT_def by (auto simp: bit_simps)

lemma peek_eq_loads:
  assumes "peek t = peek s"
  shows "load32 t = load32 s" "peeks t = peeks s" "s_nblocks t = s_nblocks s"
proof -
  show l: "load32 t = load32 s" by (rule ext) (simp only: load32_def assms)
  show "peeks t = peeks s" by (intro ext) (simp only: peeks_def assms)
  show "s_nblocks t = s_nblocks s" by (simp only: s_nblocks_def l)
qed

lemma free_set_peek:
  assumes "peek t = peek s" and "super_set t = super_set s"
  shows "free_set t = free_set s"
  by (simp add: free_set_def block_is_free_def TSTBIT_def peek_eq_loads [OF assms(1)] assms(2))

lemma flush_block_fs:
  assumes "flush_block s a = Inr t" and "fs_ok s"
  shows "fs_ok t" "free_set t = free_set s" "s_nblocks t = s_nblocks s" "peek t = peek s" "mapped t = mapped s"
proof -
  show p: "peek t = peek s" by (rule flush_block_peek [OF assms(1)])
  show f: "free_set t = free_set s" using p flush_block_effect(3) [OF assms(1)] by (rule free_set_peek)
  show n: "s_nblocks t = s_nblocks s" using p by (rule peek_eq_loads)
  show "fs_ok t" using assms(2) by (rule fs_okI)
      (use assms f n flush_block_ok [OF assms(1)] flush_block_effect(3) [OF assms(1)] in \<open>auto simp: fs_ok_def\<close>)
  show "mapped t = mapped s" by (rule flush_block_effect(2) [OF assms(1)])
qed


section \<open>Allocation\<close>

declare alloc_loop.simps [simp del]

text \<open>
  The effect of taking block \<open>b\<close>: only bitmap bytes change, the bitmap block is on the drive.
\<close>

definition taken :: "'a bcache_scheme \<Rightarrow> nat \<Rightarrow> 'a bcache_scheme \<Rightarrow> bool" where
  "taken s b t \<longleftrightarrow> fs_ok t \<and> s_nblocks t = s_nblocks s \<and> free_set t = free_set s - {b} \<and>
     (\<forall>a. \<not> in_block (2 + b div BLKBITSIZE) a \<longrightarrow> peek t a = peek s a) \<and>
     (\<forall>a. in_block (2 + b div BLKBITSIZE) a \<longrightarrow> disk t (a - DISKMAP) = peek t a) \<and>
     (\<forall>p. mapped s p \<longrightarrow> mapped t p)"

lemma free_set_bounds: "fs_ok s \<Longrightarrow> b \<in> free_set s \<Longrightarrow> b < s_nblocks s \<and> 2 + nbitblocks s \<le> b"
  by (rule ccontr) (auto simp: fs_ok_def free_set_def block_is_free_def not_le split: if_splits)

lemma in_diskmap_block: "in_block b a \<Longrightarrow> b < 786432 \<Longrightarrow> in_diskmap a"
  by (auto simp: in_block_def in_diskmap_def bc_consts)

lemma in_block_page: "in_block b a \<Longrightarrow> a div BLKSIZE = DISKMAP div BLKSIZE + b"
  by (erule in_blockE) simp

lemma take_block:
  assumes "fs_ok s" and "b \<in> free_set s"
  obtains t where "bind_res (CLRBIT b s) (\<lambda>s. bind_res (flush_block s (bitword b)) (\<lambda>s. Inr (b, s))) = Inr (b, t)"
    "taken s b t"
proof -
  have b: "b < s_nblocks s" using free_set_bounds [OF assms] by blast
  obtain u where u: "CLRBIT b s = Inr u" "fs_ok u" "free_set u = free_set s - {b}" "s_nblocks u = s_nblocks s"
      "\<And>a. \<not> in_block (2 + b div BLKBITSIZE) a \<Longrightarrow> peek u a = peek s a" "\<And>p. mapped s p \<Longrightarrow> mapped u p"
    using CLRBIT_ok [OF assms(1) b] by blast
  have blk: "2 + b div BLKBITSIZE < s_nblocks u" "in_block (2 + b div BLKBITSIZE) (bitword b)"
    using bitmap_block [OF b] assms(1) u(4) bitword_in_block [of 0 b] by (simp_all add: fs_ok_def)
  note big = fs_ok_block [OF u(2) blk(1)]
  have "(bitword b - DISKMAP) div BLKSIZE = 2 + b div BLKBITSIZE"
    using blk(2) by (elim in_blockE) (simp add: div_nat_eqI algebra_simps)
  then obtain t where t: "flush_block u (bitword b) = Inr t"
    using flush_block_total [of "bitword b" u] blk(1) in_diskmap_block [OF blk(2) big] by auto
  have d: "disk t (a - DISKMAP) = peek t a" if "in_block (2 + b div BLKBITSIZE) a" for a
    using flush_block_disk [OF t, of a] u(2) in_diskmap_block [OF that big] in_block_page [OF that]
      in_block_page [OF blk(2)] flush_block_fs(4) [OF t u(2)] by (simp add: fs_ok_def)
  have "taken s b t"
    unfolding taken_def using flush_block_fs [OF t u(2)] u(3-) d by auto
  with that u(1) t show ?thesis by simp
qed

lemma alloc_loop_spec:
  assumes "fs_ok s"
  shows "(\<exists>b t. alloc_loop n s = Inr (b, t) \<and> b \<in> free_set s \<and> n \<le> b \<and> (\<forall>c\<in>free_set s. n \<le> c \<longrightarrow> b \<le> c) \<and> taken s b t) \<or>
     alloc_loop n s = Inr (0, s) \<and> (\<forall>c\<in>free_set s. c < n)"
proof (induction "s_nblocks s - n" arbitrary: n)
  case 0
  then have "alloc_loop n s = Inr (0, s)" by (subst alloc_loop.simps) simp
  then show ?case using 0 free_set_bounds [OF assms] by fastforce
next
  case (Suc k)
  then have n: "n < s_nblocks s" "k = s_nblocks s - Suc n" by simp_all
  show ?case
  proof (cases "n \<in> free_set s")
    case True
    obtain t where t: "bind_res (CLRBIT n s) (\<lambda>s. bind_res (flush_block s (bitword n)) (\<lambda>s. Inr (n, s))) = Inr (n, t)"
        "taken s n t"
      by (rule take_block [OF assms True])
    then have "alloc_loop n s = Inr (n, t)"
      using n(1) True by (simp add: alloc_loop.simps [of n s] free_set_def)
    note this t(2)
    then show ?thesis using True by blast
  next
    case False
    then have "alloc_loop n s = alloc_loop (Suc n) s"
      using n(1) by (subst alloc_loop.simps) (simp add: free_set_def)
    then show ?thesis using Suc.hyps(1) [OF n(2)] False
      by (metis Suc_leD Suc_leI le_neq_implies_less less_Suc_eq_le less_SucE)
  qed
qed


lemma alloc_block_cases:
  assumes "fs_ok s"
  obtains (full) "alloc_block s = Inr (0, s)" "free_set s = {}"
  | (block) b t where "alloc_block s = Inr (b, t)" "b \<in> free_set s" "\<forall>c\<in>free_set s. b \<le> c" "taken s b t"
  using alloc_loop_spec [OF assms, of 0] unfolding alloc_block_def by auto

text \<open>
  C29: On a consistent file system \<open>alloc_block\<close> always returns: the lowest-numbered free block, which is
  then marked in use with its bitmap block already on the drive, nothing else having changed and
  the file system still consistent; or 0 with no change when no block is free.
\<close>

theorem alloc_block_first_fit:
  assumes "fs_ok s"
  shows "\<exists>b t. alloc_block s = Inr (b, t) \<and>
     (if free_set s = {} then b = 0 \<and> t = s else b \<in> free_set s \<and> (\<forall>c. c < b \<longrightarrow> \<not> block_is_free s c) \<and> taken s b t)"
  using assms
proof (cases rule: alloc_block_cases)
  case (block b t)
  then have "\<forall>c. c < b \<longrightarrow> \<not> block_is_free s c" by (auto simp: free_set_def dest: leD)
  with block show ?thesis by auto
qed simp

text \<open>
  A drive of four blocks: super block, one bitmap block, and block 3 free; the root directory is
  empty. The page that receives client requests is mapped.
\<close>

definition mini_disk :: "nat \<Rightarrow> byte" where
  "mini_disk a = (if a = 4096 then 0xAE else if a = 4097 then 0x30 else if a = 4098 then 0x05 else if a = 4099 then 0x4A
     else if a = 4100 then 4 else if a = 8192 then 8 else 0)"

definition mini_fs :: bcache where
  "mini_fs = (blank_cache mini_disk)\<lparr>super_set := True, mapped := (\<lambda>p. p = 0xFFFF), ram := of_nat\<rparr>"

lemma mini_page: "DISKMAP \<le> a \<Longrightarrow> a div BLKSIZE \<noteq> 65535"
  using div_le_mono [of DISKMAP a BLKSIZE] by (auto simp: bc_consts)

lemma peek_mini: "DISKMAP \<le> a \<Longrightarrow> a < DISKMAP + DISKSIZE \<Longrightarrow> peek mini_fs a = mini_disk (a - DISKMAP)"
  by (auto simp: mini_fs_def blank_cache_def peek_def in_diskmap_def mini_page)

lemma mini_nblocks: "s_nblocks mini_fs = 4"
  by (simp add: s_nblocks_def load32_def peek_mini bc_consts mini_disk_def quad32_def)

lemma free_mini: "free_set mini_fs = {3}"
proof -
  have w: "load32 mini_fs bitmap = 8"
    by (simp add: load32_def peek_mini bc_consts mini_disk_def bitmap_def quad32_def)
  have "TSTBIT mini_fs b \<longleftrightarrow> b = 3" if "b < 4" for b
  proof -
    have "b = 0 \<or> b = 1 \<or> b = 2 \<or> b = 3" using that by auto
    then show ?thesis using w by (elim disjE) (simp_all add: TSTBIT_bit bitword_def bit_numeral_rec(1))
  qed
  moreover have "super_set mini_fs" by (simp add: mini_fs_def)
  ultimately show ?thesis by (auto simp: free_set_def block_is_free_def mini_nblocks not_le split: if_splits)
qed

lemma mini_ok: "fs_ok mini_fs"
proof -
  have "bc_ok mini_fs" by (auto simp: mini_fs_def bc_ok_def blank_cache_def in_diskmap_def mini_page)
  moreover have "\<not> block_is_free mini_fs b" if "b < 3" for b
  proof
    assume "block_is_free mini_fs b"
    then have "b \<in> free_set mini_fs" by (simp add: free_set_def)
    with that free_mini show False by simp
  qed
  ultimately show ?thesis
    by (simp add: fs_ok_def mini_nblocks nbitblocks_def BLKBITSIZE_def bc_consts) (simp add: mini_fs_def)
qed

theorem alloc_block_first_fit_witness:
  "\<exists>t. alloc_block mini_fs = Inr (3, t) \<and> \<not> block_is_free t 3"
proof -
  obtain b t where t: "alloc_block mini_fs = Inr (b, t)" "b \<in> free_set mini_fs" "taken mini_fs b t"
    using alloc_block_first_fit [OF mini_ok] unfolding free_mini by auto
  then have "b = 3" "3 \<notin> free_set t" by (simp_all add: free_mini taken_def)
  with t(1) show ?thesis by (simp add: free_set_def)
qed


section \<open>Synchronising\<close>

lemma sync_loop:
  assumes "fs_ok s" and "\<And>i. i \<in> set is \<Longrightarrow> 0 < i \<and> i < s_nblocks s"
  shows "\<exists>t. each (\<lambda>i s. bind_res (diskaddr s i) (flush_block s)) is s = Inr t \<and>
     each (\<lambda>a s. flush_block s a) (map (\<lambda>i. DISKMAP + i * BLKSIZE) is) s = Inr t"
  using assms
proof (induction "is" arbitrary: s)
  case (Cons i "is")
  let ?a = "DISKMAP + i * BLKSIZE"
  have i: "0 < i" "i < s_nblocks s" using Cons.prems by auto
  then have d: "diskaddr s i = Inr ?a" by (simp add: diskaddr_def)
  have "in_diskmap ?a" "(?a - DISKMAP) div BLKSIZE = i"
    using fs_ok_block [OF Cons.prems(1) i(2)] by (simp_all add: in_diskmap_def bc_consts)
  then obtain u where u: "flush_block s ?a = Inr u" using flush_block_total [of ?a s] i by auto
  note fl = flush_block_fs [OF u Cons.prems(1)]
  have "\<And>i. i \<in> set is \<Longrightarrow> 0 < i \<and> i < s_nblocks u" using Cons.prems(2) fl(3) by auto
  from Cons.IH [OF fl(1) this] show ?case using d u by auto
qed simp

text \<open>
  C34: \<open>fs_sync\<close> on a consistent file system always returns, changes no byte the server sees, and afterwards
  every block from the super block on is on the drive exactly as the server sees it: a crash
  then loses nothing.
\<close>

theorem fs_sync_durable:
  assumes "fs_ok s"
  shows "\<exists>t. fs_sync s = Inr t \<and> peek t = peek s \<and>
     (\<forall>b a. 0 < b \<and> b < s_nblocks s \<and> in_block b a \<longrightarrow> disk t (a - DISKMAP) = peek s a)"
proof -
  let ?as = "map (\<lambda>i. DISKMAP + i * BLKSIZE) [1..<s_nblocks s]"
  obtain t where t: "fs_sync s = Inr t" "each (\<lambda>a s. flush_block s a) ?as s = Inr t"
    using sync_loop [OF assms, of "[1..<s_nblocks s]"] unfolding fs_sync_def by auto
  have ok: "bc_ok s" using assms by (simp add: fs_ok_def)
  have "disk t (a - DISKMAP) = peek s a" if b: "0 < b" "b < s_nblocks s" "in_block b a" for a b
  proof -
    have "a div BLKSIZE = (DISKMAP + b * BLKSIZE) div BLKSIZE" using in_block_page [OF b(3)] by simp
    then have "a div BLKSIZE \<in> (\<lambda>a. a div BLKSIZE) ` set ?as"
      using b(1,2) by (intro image_eqI [of _ _ "DISKMAP + b * BLKSIZE"]) auto
    then show ?thesis
      using cached_disk.flushes_durable [OF t(2) ok, of a] in_diskmap_block [OF b(3) fs_ok_block [OF assms b(2)]] by simp
  qed
  then show ?thesis using t(1) cached_disk.flushes_view [OF t(2)] by blast
qed

theorem fs_sync_durable_witness: "\<exists>t. fs_sync mini_fs = Inr t \<and> peek t = peek mini_fs"
  using fs_sync_durable [OF mini_ok] by blast

end
