(* ===== verification/FsFile.thy ===== *)
theory FsFile
  imports Fs
begin

text \<open>
  Files on the file system: which disk block holds which block of a file, the consistency of
  one file's block pointers, and what \<open>file_get_block\<close>, \<open>file_read\<close> and \<open>file_write\<close> do to the bytes of the
  file and of everything else.
\<close>

section \<open>The block map of a file\<close>

definition NFILEBLKS :: nat where "NFILEBLKS = NDIRECT + NINDIRECT"

definition fblk :: "nat \<Rightarrow> nat" where "fblk f = (f - DISKMAP) div BLKSIZE"

definition ind :: "'a bcache_scheme \<Rightarrow> nat \<Rightarrow> nat" where "ind s f = unat (load32 s (f_indirect f))"

definition slot :: "'a bcache_scheme \<Rightarrow> nat \<Rightarrow> nat \<Rightarrow> nat" where
  "slot s f i = (if i < NDIRECT then f_direct f i else DISKMAP + ind s f * BLKSIZE + 4 * (i - NDIRECT))"

definition blkno :: "'a bcache_scheme \<Rightarrow> nat \<Rightarrow> nat \<Rightarrow> nat" where
  "blkno s f i = (if i < NDIRECT \<or> ind s f \<noteq> 0 then unat (load32 s (slot s f i)) else 0)"

definition used :: "'a bcache_scheme \<Rightarrow> nat \<Rightarrow> nat set" where
  "used s f = {b. b \<noteq> 0 \<and> (b = ind s f \<or> (\<exists>i < NFILEBLKS. b = blkno s f i))}"

definition data_block :: "'a bcache_scheme \<Rightarrow> nat \<Rightarrow> nat \<Rightarrow> bool" where
  "data_block s f b \<longleftrightarrow> 2 + nbitblocks s \<le> b \<and> b < s_nblocks s \<and> b \<notin> free_set s \<and> b \<noteq> fblk f"

text \<open>The \<^verbatim>\<open>struct File\<close> lies inside one block in use: a directory block, or the super block after its header.\<close>

definition inode_ok :: "'a bcache_scheme \<Rightarrow> nat \<Rightarrow> bool" where
  "inode_ok s f \<longleftrightarrow> in_block (fblk f) f \<and> in_block (fblk f) (f + 255) \<and> fblk f < s_nblocks s \<and>
     fblk f \<notin> free_set s \<and> (fblk f = 1 \<and> DISKMAP + BLKSIZE + 8 \<le> f \<or> 2 + nbitblocks s \<le> fblk f)"

definition file_ok :: "'a bcache_scheme \<Rightarrow> nat \<Rightarrow> bool" where
  "file_ok s f \<longleftrightarrow> inode_ok s f \<and> (ind s f \<noteq> 0 \<longrightarrow> data_block s f (ind s f)) \<and>
     (\<forall>i < NFILEBLKS. blkno s f i \<noteq> 0 \<longrightarrow> data_block s f (blkno s f i) \<and> blkno s f i \<noteq> ind s f \<and>
        (\<forall>j < NFILEBLKS. blkno s f j = blkno s f i \<longrightarrow> j = i))"

section \<open>Stores outside the system area\<close>

definition sys_area :: "'a bcache_scheme \<Rightarrow> nat \<Rightarrow> bool" where
  "sys_area s a \<longleftrightarrow> (DISKMAP + BLKSIZE \<le> a \<and> a < DISKMAP + BLKSIZE + 8) \<or>
     (\<exists>c. 2 \<le> c \<and> c < 2 + nbitblocks s \<and> in_block c a)"

lemma sys_area_same:
  assumes "\<And>a. sys_area s a \<Longrightarrow> peek t a = peek s a" and "super_set t = super_set s"
  shows "s_nblocks t = s_nblocks s" and "free_set t = free_set s"
proof -
  show n: "s_nblocks t = s_nblocks s"
    unfolding s_nblocks_def by (rule arg_cong [where f = unat], rule load32_peek_eq, rule assms) (simp add: sys_area_def)
  have "load32 t (bitword b) = load32 s (bitword b)" if "b < s_nblocks s" for b
    using bitmap_block [OF that] bitword_in_block [of _ b]
    by (intro load32_peek_eq assms(1)) (auto simp: sys_area_def intro!: exI [of _ "2 + b div BLKBITSIZE"])
  then show "free_set t = free_set s"
    using n assms(2) by (auto simp: free_set_def block_is_free_def TSTBIT_def)
qed

lemma fs_ok_stored:
  assumes "fs_ok s" and "\<And>i. i < length bs \<Longrightarrow> \<not> sys_area s (a + i)"
  shows "fs_ok (stored s a bs)" "s_nblocks (stored s a bs) = s_nblocks s" "free_set (stored s a bs) = free_set s"
    "nbitblocks (stored s a bs) = nbitblocks s"
proof -
  have p: "peek (stored s a bs) x = peek s x" if "sys_area s x" for x
    using assms(2) that by (intro peek_stored_other) auto
  show n: "s_nblocks (stored s a bs) = s_nblocks s" and f: "free_set (stored s a bs) = free_set s"
    by (rule sys_area_same; simp add: p)+
  show "nbitblocks (stored s a bs) = nbitblocks s" by (simp add: nbitblocks_def n)
  show "fs_ok (stored s a bs)" using assms(1)
    by (rule fs_okI) (use assms(1) n f in \<open>simp_all add: fs_ok_def bc_ok_stored\<close>)
qed

lemma not_sys_area_data: "in_block b a \<Longrightarrow> 2 + nbitblocks s \<le> b \<Longrightarrow> \<not> sys_area s a"
proof
  assume a: "in_block b a" "2 + nbitblocks s \<le> b" "sys_area s a"
  have "in_block 1 a \<or> (\<exists>c. 2 \<le> c \<and> c < 2 + nbitblocks s \<and> in_block c a)"
    using a(3) by (auto simp: sys_area_def in_block_def BLKSIZE_def)
  with a show False using in_block_unique by fastforce
qed

lemma not_sys_area_inode: "inode_ok s f \<Longrightarrow> f \<le> a \<Longrightarrow> a < f + 256 \<Longrightarrow> \<not> sys_area s a"
proof -
  assume f: "inode_ok s f" "f \<le> a" "a < f + 256"
  have b: "in_block (fblk f) a" using f by (auto simp: inode_ok_def in_block_def)
  show ?thesis
  proof (cases "fblk f = 1")
    case True
    have "\<not> in_block c a" if "2 \<le> c" for c using in_block_unique [OF b, of c] that True by auto
    moreover have "DISKMAP + BLKSIZE + 8 \<le> f" using f True by (auto simp: inode_ok_def)
    ultimately show ?thesis using f(2) by (auto simp: sys_area_def)
  next
    case False
    then show ?thesis using f(1) not_sys_area_data [OF b] by (auto simp: inode_ok_def)
  qed
qed

section \<open>Where the pointers live\<close>

lemma inode_window: "i < NDIRECT \<Longrightarrow> f + 136 \<le> f_direct f i \<and> f_direct f i + 4 \<le> f + 176"
  "f_indirect f = f + 176" "f_size f = f + 128" "f_type f = f + 132"
  by (auto simp: f_direct_def f_indirect_def f_size_def f_type_def NDIRECT_def MAXNAMELEN_def)

lemma slot_window:
  assumes "i < NFILEBLKS" and "k < 4"
  shows "if i < NDIRECT then f + 136 \<le> slot s f i + k \<and> slot s f i + k < f + 176 else in_block (ind s f) (slot s f i + k)"
proof (cases "i < NDIRECT")
  case True
  then show ?thesis using assms inode_window(1) [of i f] by (simp add: slot_def)
next
  case False
  then have "4 * (i - NDIRECT) + k < BLKSIZE"
    using assms by (simp add: NFILEBLKS_def NINDIRECT_def NDIRECT_def BLKSIZE_def)
  then show ?thesis using False by (simp add: slot_def in_block_def)
qed

lemma blkno_same:
  assumes inode: "\<And>a. f + 136 \<le> a \<Longrightarrow> a < f + 180 \<Longrightarrow> peek t a = peek s a"
    and indirect: "\<And>a. ind s f \<noteq> 0 \<Longrightarrow> in_block (ind s f) a \<Longrightarrow> peek t a = peek s a"
  shows "ind t f = ind s f" and "i < NFILEBLKS \<Longrightarrow> blkno t f i = blkno s f i"
proof -
  show ind: "ind t f = ind s f"
    unfolding ind_def inode_window by (intro arg_cong [where f = unat] load32_peek_eq inode) auto
  assume i: "i < NFILEBLKS"
  have "load32 t (slot t f i) = load32 s (slot s f i)" if "i < NDIRECT \<or> ind s f \<noteq> 0"
  proof -
    have sl: "slot t f i = slot s f i" by (simp add: slot_def ind)
    show ?thesis unfolding sl
    proof (rule load32_peek_eq)
      fix k :: nat assume "k < 4"
      with slot_window [OF i this, of f s] that show "peek t (slot s f i + k) = peek s (slot s f i + k)"
        by (auto intro: inode indirect split: if_splits)
    qed
  qed
  then show "blkno t f i = blkno s f i" by (simp add: blkno_def ind)
qed


lemma blocks_apart: "in_block b x \<Longrightarrow> in_block c y \<Longrightarrow> in_block b (x + 3) \<Longrightarrow> in_block c (y + 3) \<Longrightarrow> b \<noteq> c \<Longrightarrow>
   x + 4 \<le> y \<or> y + 4 \<le> x"
  by (cases b c rule: linorder_cases) (auto simp: in_block_def BLKSIZE_def)

lemma inode_block: "inode_ok s f \<Longrightarrow> f \<le> a \<Longrightarrow> a < f + 256 \<Longrightarrow> in_block (fblk f) a"
  by (auto simp: inode_ok_def in_block_def)

lemma slot_block:
  assumes "inode_ok s f" and "i < NFILEBLKS" and "k < 4"
  shows "in_block (if i < NDIRECT then fblk f else ind s f) (slot s f i + k)"
  using slot_window [OF assms(2,3), of f s] inode_block [OF assms(1)] by (auto split: if_splits)

lemma slots_apart:
  assumes "inode_ok s f" and "ind s f \<noteq> fblk f" and "i < NFILEBLKS" and "j < NFILEBLKS" and "i \<noteq> j"
  shows "slot s f j + 4 \<le> slot s f i \<or> slot s f i + 4 \<le> slot s f j"
proof (cases "(i < NDIRECT) = (j < NDIRECT)")
  case True
  then show ?thesis using assms(5) by (auto simp: slot_def f_direct_def)
next
  case False
  then show ?thesis
    using blocks_apart [OF slot_block [OF assms(1,4), of 0, simplified] slot_block [OF assms(1,3), of 0, simplified]
        slot_block [OF assms(1,4), of 3] slot_block [OF assms(1,3), of 3]] assms(2) by (auto split: if_splits)
qed

lemma accessible_in_block:
  assumes "fs_ok s" and "b < s_nblocks s" and "in_block b a" and "0 < n" and "in_block b (a + (n - 1))"
  shows "accessible s a n"
proof -
  obtain k where k: "a = DISKMAP + b * BLKSIZE + k" using assms(3) by (rule in_blockE)
  then have "k + n \<le> BLKSIZE" using assms(4,5) unfolding in_block_def by linarith
  then show ?thesis unfolding k using assms by (intro fs_ok_accessible)
qed

lemma file_ok_same:
  assumes "file_ok s f" and "s_nblocks t = s_nblocks s" and "free_set t \<subseteq> free_set s"
    and "ind t f = ind s f" and "\<And>i. i < NFILEBLKS \<Longrightarrow> blkno t f i = blkno s f i"
  shows "file_ok t f"
  using assms by (auto simp: file_ok_def inode_ok_def data_block_def nbitblocks_def)

section \<open>Growing a file\<close>

definition grows :: "nat \<Rightarrow> 'a bcache_scheme \<Rightarrow> 'a bcache_scheme \<Rightarrow> bool" where
  "grows f s t \<longleftrightarrow> fs_ok t \<and> file_ok t f \<and> s_nblocks t = s_nblocks s \<and>
     free_set t \<subseteq> free_set s \<and> used s f \<subseteq> used t f \<and> used t f \<union> free_set t = used s f \<union> free_set s \<and>
     (\<forall>p. mapped s p \<longrightarrow> mapped t p) \<and> (ind t f = ind s f \<or> ind s f = 0 \<and> ind t f \<in> free_set s) \<and>
     (\<forall>i < NFILEBLKS. blkno s f i \<noteq> 0 \<longrightarrow> blkno t f i = blkno s f i) \<and>
     (\<forall>a. peek t a = peek s a \<or> f + 136 \<le> a \<and> a < f + 180 \<or>
        (\<exists>b. in_block b a \<and> (2 \<le> b \<and> b < 2 + nbitblocks s \<or> b \<in> free_set s \<or> b = ind s f \<and> b \<noteq> 0)))"

lemma grows_refl: "fs_ok s \<Longrightarrow> file_ok s f \<Longrightarrow> grows f s s"
  by (simp add: grows_def)

lemma grows_trans:
  assumes "grows f s t" and "grows f t u"
  shows "grows f s u"
proof -
  have n: "nbitblocks t = nbitblocks s" using assms by (simp add: grows_def nbitblocks_def)
  have "peek u a = peek s a \<or> f + 136 \<le> a \<and> a < f + 180 \<or>
        (\<exists>b. in_block b a \<and> (2 \<le> b \<and> b < 2 + nbitblocks s \<or> b \<in> free_set s \<or> b = ind s f \<and> b \<noteq> 0))" for a
  proof (cases "peek u a = peek t a")
    case True
    then show ?thesis using assms(1) by (auto simp: grows_def)
  next
    case False
    then have "f + 136 \<le> a \<and> a < f + 180 \<or>
        (\<exists>b. in_block b a \<and> (2 \<le> b \<and> b < 2 + nbitblocks s \<or> b \<in> free_set t \<or> b = ind t f \<and> b \<noteq> 0))"
      using assms(2) n unfolding grows_def by metis
    moreover have "free_set t \<subseteq> free_set s" "ind t f = ind s f \<or> ind t f \<in> free_set s"
      using assms(1) by (auto simp: grows_def)
    ultimately show ?thesis by auto
  qed
  moreover have "ind u f = ind s f \<or> ind s f = 0 \<and> ind u f \<in> free_set s"
    using assms unfolding grows_def by (metis in_mono)
  moreover have "blkno u f i = blkno s f i" if "i < NFILEBLKS" "blkno s f i \<noteq> 0" for i
    using assms that unfolding grows_def by metis
  ultimately show ?thesis using assms unfolding grows_def by (auto simp del: Un_iff)
qed

lemma taken_file:
  assumes "fs_ok s" and "file_ok s f" and "b \<in> free_set s" and "taken s b t"
  shows "file_ok t f" "ind t f = ind s f" "\<And>i. i < NFILEBLKS \<Longrightarrow> blkno t f i = blkno s f i"
    "\<And>i. slot t f i = slot s f i" "data_block t f b" "b \<notin> used s f" "nbitblocks t = nbitblocks s"
    "\<And>a. \<not> sys_area s a \<Longrightarrow> peek t a = peek s a"
proof -
  have bb: "b < s_nblocks s" "2 + nbitblocks s \<le> b" using free_set_bounds [OF assms(1,3)] by auto
  have bm: "2 + b div BLKBITSIZE < 2 + nbitblocks s" using bitmap_block [OF bb(1)] by simp
  show same: "peek t a = peek s a" if "\<not> sys_area s a" for a
    using that bm assms(4) by (auto simp: taken_def sys_area_def)
  have i: "inode_ok s f" using assms(2) by (simp add: file_ok_def)
  have d: "ind s f \<noteq> 0 \<Longrightarrow> 2 + nbitblocks s \<le> ind s f" using assms(2) by (simp add: file_ok_def data_block_def)
  show ind: "ind t f = ind s f" and blk: "\<And>i. i < NFILEBLKS \<Longrightarrow> blkno t f i = blkno s f i"
    by (rule blkno_same; use same not_sys_area_inode [OF i] not_sys_area_data [OF _ d] in auto)+
  show "slot t f j = slot s f j" for j by (simp add: slot_def ind)
  have nb: "s_nblocks t = s_nblocks s" "free_set t = free_set s - {b}" using assms(4) by (simp_all add: taken_def)
  show "nbitblocks t = nbitblocks s" by (simp add: nbitblocks_def nb)
  show "file_ok t f" using assms(2) nb ind blk by (auto intro: file_ok_same)
  show "data_block t f b" using bb nb i assms(3) by (auto simp: data_block_def nbitblocks_def inode_ok_def)
  show "b \<notin> used s f" using assms(2,3) by (auto simp: used_def file_ok_def data_block_def)
qed


text \<open>Entering a fresh block \<open>b\<close> in the empty slot \<open>i\<close>.\<close>

lemma unat_blkno: "fs_ok s \<Longrightarrow> b < s_nblocks s \<Longrightarrow> unat (of_nat b :: u32) = b"
  using fs_ok_block [of s b] by (intro unat_of_nat_u32) simp

lemma slot_free_area:
  assumes "file_ok s f" and "i < NFILEBLKS" and "i < NDIRECT \<or> ind s f \<noteq> 0" and "k < 4"
  shows "\<not> sys_area s (slot s f i + k)"
proof (cases "i < NDIRECT")
  case True
  then show ?thesis
    using slot_window [OF assms(2,4), of f s] not_sys_area_inode [of s f "slot s f i + k"] assms(1)
    by (simp add: file_ok_def)
next
  case False
  then show ?thesis
    using slot_window [OF assms(2,4), of f s] not_sys_area_data assms(1,3) by (auto simp: file_ok_def data_block_def)
qed

lemma slot_accessible:
  assumes "fs_ok s" and "file_ok s f" and "i < NFILEBLKS" and "i < NDIRECT \<or> ind s f \<noteq> 0"
  shows "accessible s (slot s f i) 4"
proof (rule accessible_in_block [OF assms(1)])
  have i: "inode_ok s f" using assms by (simp add: file_ok_def)
  let ?b = "if i < NDIRECT then fblk f else ind s f"
  show "?b < s_nblocks s" using assms by (auto simp: file_ok_def inode_ok_def data_block_def)
  show "in_block ?b (slot s f i)" using slot_block [OF i assms(3), of 0] by simp
  show "in_block ?b (slot s f i + (4 - 1))" using slot_block [OF i assms(3), of 3] by simp
qed simp

lemma ind_slot_store:
  assumes "file_ok s f" and "i < NFILEBLKS" and "i < NDIRECT \<or> ind s f \<noteq> 0"
  shows "ind (stored s (slot s f i) (put32 w)) f = ind s f"
proof -
  have i: "inode_ok s f" "ind s f \<noteq> 0 \<Longrightarrow> ind s f \<noteq> fblk f" using assms by (auto simp: file_ok_def data_block_def)
  have "f_indirect f + 4 \<le> slot s f i \<or> slot s f i + 4 \<le> f_indirect f"
  proof (cases "i < NDIRECT")
    case True
    then show ?thesis using inode_window(1) [of i f] inode_window(2) [of f] by (simp add: slot_def)
  next
    case False
    with assms(3) i(2) show ?thesis
      using blocks_apart [of "fblk f" "f_indirect f" "ind s f" "slot s f i"] inode_block [OF i(1)]
        slot_block [OF i(1) assms(2), of 0] slot_block [OF i(1) assms(2), of 3] by (simp add: inode_window)
  qed
  then show ?thesis by (simp add: ind_def load32_stored_apart)
qed

lemma blkno_slot_store:
  assumes "file_ok s f" and "i < NFILEBLKS" and "i < NDIRECT \<or> ind s f \<noteq> 0" and "j < NFILEBLKS"
  shows "blkno (stored s (slot s f i) (put32 w)) f j = (if j = i then unat w else blkno s f j)"
proof -
  let ?u = "stored s (slot s f i) (put32 w)"
  have ind: "ind ?u f = ind s f" by (rule ind_slot_store [OF assms(1-3)])
  have sl: "slot ?u f j = slot s f j" unfolding slot_def [of ?u] slot_def [of s f j] ind by (rule refl)
  show ?thesis
  proof (cases "j = i")
    case True
    then show ?thesis using assms(3) sl by (simp add: blkno_def ind load32_stored)
  next
    case False
    have "inode_ok s f" "ind s f \<noteq> 0 \<Longrightarrow> ind s f \<noteq> fblk f" using assms by (auto simp: file_ok_def data_block_def)
    then have "slot s f j + 4 \<le> slot s f i \<or> slot s f i + 4 \<le> slot s f j" if "j < NDIRECT \<or> ind s f \<noteq> 0"
    proof (cases "ind s f = fblk f")
      case True
      then show ?thesis using that assms(3) False \<open>ind s f \<noteq> 0 \<Longrightarrow> ind s f \<noteq> fblk f\<close> 
        by (auto simp: slot_def f_direct_def)
    qed (use slots_apart [of s f i j] False assms in auto)
    then show ?thesis using False by (simp add: blkno_def ind sl load32_stored_apart)
  qed
qed

lemma link_slot:
  assumes s: "fs_ok s" "file_ok s f" and i: "i < NFILEBLKS" "i < NDIRECT \<or> ind s f \<noteq> 0"
    and z: "blkno s f i = 0" and b: "b \<in> free_set s" "taken s b t"
  shows "\<exists>u. store32 t (slot s f i) (of_nat b) = Inr u \<and> grows f s u \<and> blkno u f i = b \<and> ind u f = ind s f"
proof -
  note tf = taken_file [OF s b]
  let ?u = "stored t (slot t f i) (put32 (of_nat b))"
  have t: "fs_ok t" "s_nblocks t = s_nblocks s" "free_set t = free_set s - {b}" "\<And>p. mapped s p \<Longrightarrow> mapped t p"
    using b(2) by (simp_all add: taken_def)
  have bb: "b < s_nblocks s" "2 + nbitblocks s \<le> b" using free_set_bounds [OF s(1) b(1)] by auto
  have it: "i < NDIRECT \<or> ind t f \<noteq> 0" using i tf(2) by simp
  have st: "store32 t (slot s f i) (of_nat b) = Inr ?u"
    using slot_accessible [OF t(1) tf(1) i(1) it] by (simp add: store32_def poke_def tf(4))
  note u = fs_ok_stored [OF t(1), of "put32 (of_nat b)" "slot t f i", simplified, OF slot_free_area [OF tf(1) i(1) it]]
  have ind: "ind ?u f = ind s f" using ind_slot_store [OF tf(1) i(1) it] tf(2) by simp
  have blk: "blkno ?u f j = (if j = i then b else blkno s f j)" if "j < NFILEBLKS" for j
    using blkno_slot_store [OF tf(1) i(1) it that] tf(3) [OF that] unat_blkno [OF s(1) bb(1)] by simp
  have used: "used ?u f = insert b (used s f)"
  proof (rule set_eqI)
    fix x
    have "(\<exists>j<NFILEBLKS. x = blkno ?u f j) \<longleftrightarrow> x = b \<or> (\<exists>j<NFILEBLKS. x = blkno s f j \<and> j \<noteq> i)"
      using blk i(1) by metis
    then show "x \<in> used ?u f \<longleftrightarrow> x \<in> insert b (used s f)"
      using z bb by (auto simp: used_def ind)
  qed
  have fresh: "b \<noteq> ind s f" "\<And>j. j < NFILEBLKS \<Longrightarrow> blkno s f j \<noteq> b" "b \<noteq> 0" "b \<noteq> fblk f"
    using tf(5,6) bb by (auto simp: used_def data_block_def)
  have ok: "file_ok ?u f"
    using tf(1,5) fresh unfolding file_ok_def ind
    by (auto simp: blk ind tf(2,3) data_block_def inode_ok_def u t)
  have "peek ?u a = peek s a \<or> f + 136 \<le> a \<and> a < f + 180 \<or>
        (\<exists>b. in_block b a \<and> (2 \<le> b \<and> b < 2 + nbitblocks s \<or> b \<in> free_set s \<or> b = ind s f \<and> b \<noteq> 0))" for a
  proof (cases "\<exists>k<4. a = slot s f i + k")
    case True
    then obtain k where k: "k < 4" "a = slot s f i + k" by blast
    then show ?thesis using slot_window [OF i(1) k(1), of f s] i(2) by (auto split: if_splits)
  next
    case False
    then have "peek ?u a = peek t a" by (intro peek_stored_other) (auto simp: tf(4))
    moreover have "peek t a = peek s a \<or> in_block (2 + b div BLKBITSIZE) a"
      using b(2) by (auto simp: taken_def)
    ultimately show ?thesis using bitmap_block [OF bb(1)] by (auto intro!: exI [of _ "2 + b div BLKBITSIZE"])
  qed
  then have "grows f s ?u"
    using u ok ind blk used z t b(1) unfolding grows_def by (auto simp: stored_def Let_def)
  then show ?thesis using st ind blk [OF i(1)] by auto
qed


text \<open>Giving the file a fresh, cleared indirect block.\<close>

lemma link_indirect:
  assumes s: "fs_ok s" "file_ok s f" and z: "ind s f = 0" and b: "b \<in> free_set s" "taken s b t"
  shows "\<exists>u v. store32 t (f_indirect f) (of_nat b) = Inr u \<and> load32 u (f_indirect f) = of_nat b \<and>
     diskaddr u b = Inr (DISKMAP + b * BLKSIZE) \<and>
     poke u (DISKMAP + b * BLKSIZE) (replicate BLKSIZE 0) = Inr v \<and> grows f s v \<and> ind v f = b"
proof -
  note tf = taken_file [OF s b]
  let ?u = "stored t (f_indirect f) (put32 (of_nat b))" and ?a = "DISKMAP + b * BLKSIZE"
  let ?v = "stored ?u ?a (replicate BLKSIZE 0)"
  have t: "fs_ok t" "s_nblocks t = s_nblocks s" "free_set t = free_set s - {b}" "\<And>p. mapped s p \<Longrightarrow> mapped t p"
    using b(2) by (simp_all add: taken_def)
  have bb: "b < s_nblocks s" "2 + nbitblocks s \<le> b" "b \<noteq> 0" using free_set_bounds [OF s(1) b(1)] by auto
  have i: "inode_ok t f" "inode_ok s f" using tf(1) s(2) by (simp_all add: file_ok_def)
  have win: "f \<le> f_indirect f" "f_indirect f + 4 \<le> f + 256" by (simp_all add: inode_window)
  have st: "store32 t (f_indirect f) (of_nat b) = Inr ?u"
    using accessible_in_block [OF t(1), of "fblk f" "f_indirect f" 4] i win inode_block [OF i(1)]
    by (simp add: store32_def poke_def inode_ok_def)
  have u: "fs_ok ?u" "s_nblocks ?u = s_nblocks s" "free_set ?u = free_set s - {b}" "nbitblocks ?u = nbitblocks s"
    using fs_ok_stored [OF t(1), of "put32 (of_nat b)" "f_indirect f"] not_sys_area_inode [OF i(1)] win t tf(7) by simp_all
  have l: "load32 ?u (f_indirect f) = of_nat b" by (rule load32_stored)
  have d: "diskaddr ?u b = Inr ?a" using bb u by (simp add: diskaddr_def)
  have pk: "poke ?u ?a (replicate BLKSIZE 0) = Inr ?v"
    using fs_ok_accessible [OF u(1), of b BLKSIZE 0] bb u(2) by (simp add: poke_def BLKSIZE_def)
  have nsa: "\<not> sys_area ?u (?a + j)" if "j < BLKSIZE" for j
    using not_sys_area_data [OF in_block_offset [OF that, of b], of ?u] bb(2) u(4) by simp
  have v: "fs_ok ?v" "s_nblocks ?v = s_nblocks s" "free_set ?v = free_set s - {b}" "nbitblocks ?v = nbitblocks s"
    using fs_ok_stored [OF u(1), of "replicate BLKSIZE 0" ?a] nsa u by simp_all
  have fb: "b \<noteq> fblk f" using tf(5) by (simp add: data_block_def)
  have zero: "peek ?v a = 0" if "in_block b a" for a
    using that by (auto simp: peek_stored in_block_def)
  have off: "peek ?v a = peek ?u a" if "\<not> in_block b a" for a
    using that by (intro peek_stored_other) (auto simp: in_block_def)
  have inode: "peek ?v a = peek t a" if "f \<le> a" "a < f + 176" for a
  proof -
    have "\<not> in_block b a" using inode_block [OF i(1) that(1)] that(2) fb in_block_unique by fastforce
    then show ?thesis using that off by (simp add: peek_stored inode_window)
  qed
  have ind: "ind ?v f = b"
  proof -
    have "\<not> in_block b (f_indirect f + k)" if "k < 4" for k
      using inode_block [OF i(1), of "f_indirect f + k"] that win fb in_block_unique by fastforce
    then have "load32 ?v (f_indirect f) = load32 ?u (f_indirect f)" by (intro load32_peek_eq off)
    then show ?thesis using l unat_blkno [OF s(1) bb(1)] by (simp add: ind_def)
  qed
  have blk: "blkno ?v f j = blkno s f j" if j: "j < NFILEBLKS" for j
  proof (cases "j < NDIRECT")
    case True
    have "load32 ?v (f_direct f j) = load32 t (f_direct f j)"
      using inode_window(1) [OF True, of f] by (intro load32_peek_eq inode) auto
    then show ?thesis using tf(3) [OF j] True by (simp add: blkno_def slot_def)
  next
    case False
    have "load32 ?v (slot ?v f j) = 0"
    proof -
      have "peek ?v (slot ?v f j + k) = 0" if "k < 4" for k
        using slot_window [OF j that, of f ?v] False ind zero by simp
      from this [of 0] this [of 1] this [of 2] this [of 3] show ?thesis by (simp add: load32_def quad32_def)
    qed
    then show ?thesis using False z by (simp add: blkno_def)
  qed
  have used: "used ?v f = insert b (used s f)" using bb(3) z by (auto simp: used_def ind blk)
  have fresh: "\<And>j. j < NFILEBLKS \<Longrightarrow> blkno s f j \<noteq> b"
    using tf(6) bb(3) by (auto simp: used_def)
  have ok: "file_ok ?v f"
    using s(2) tf(5) fresh unfolding file_ok_def ind
    by (auto simp: blk z data_block_def inode_ok_def v t tf(7))
  have frame: "peek ?v a = peek s a \<or> f + 136 \<le> a \<and> a < f + 180 \<or>
        (\<exists>b. in_block b a \<and> (2 \<le> b \<and> b < 2 + nbitblocks s \<or> b \<in> free_set s \<or> b = ind s f \<and> b \<noteq> 0))" for a
  proof (cases "in_block b a \<or> (f + 176 \<le> a \<and> a < f + 180) \<or> in_block (2 + b div BLKBITSIZE) a")
    case True
    consider "in_block b a" | "f + 176 \<le> a \<and> a < f + 180" | "in_block (2 + b div BLKBITSIZE) a" using True by blast
    then show ?thesis
    proof cases
      case 1
      then show ?thesis using b(1) by blast
    next
      case 2
      then show ?thesis by simp
    next
      case 3
      with bitmap_block [OF bb(1)] show ?thesis by (intro disjI2 exI [of _ "2 + b div BLKBITSIZE"]) simp
    qed
  next
    case False
    then have "peek ?v a = peek ?u a" "peek ?u a = peek t a" "peek t a = peek s a"
      using off b(2) by (auto simp: peek_stored inode_window taken_def)
    then show ?thesis by simp
  qed
  have "grows f s ?v"
    using v ok ind blk used z t b(1) frame unfolding grows_def by (auto simp: stored_def Let_def)
  with st l d pk ind show ?thesis by blast
qed


lemma walk_spec:
  assumes "fs_ok s" and "file_ok s f" and "i < NFILEBLKS"
  shows "file_block_walk f i True s = Inr (Inl (- E_NO_DISK), s) \<and> free_set s = {} \<or>
    (\<exists>t. file_block_walk f i True s = Inr (Inr (slot t f i), t) \<and> grows f s t \<and> (i < NDIRECT \<or> ind t f \<noteq> 0))"
proof -
  have i: "\<not> NDIRECT + NINDIRECT \<le> i" using assms(3) by (simp add: NFILEBLKS_def)
  consider "i < NDIRECT" | "\<not> i < NDIRECT" "ind s f \<noteq> 0" | "\<not> i < NDIRECT" "ind s f = 0" by blast
  then show ?thesis
  proof cases
    case 1
    then show ?thesis using i grows_refl [OF assms(1,2)] by (auto simp: file_block_walk_def ret_def slot_def)
  next
    case 2
    then have "load32 s (f_indirect f) \<noteq> 0" by (auto simp: ind_def)
    moreover have "diskaddr s (ind s f) = Inr (DISKMAP + ind s f * BLKSIZE)"
      using 2 assms(2) by (simp add: diskaddr_def file_ok_def data_block_def)
    ultimately show ?thesis
      using 2 i grows_refl [OF assms(1,2)]
      by (auto simp: file_block_walk_def fbind_def ret_def slot_def ind_def)
  next
    case 3
    then have z: "load32 s (f_indirect f) = 0" by (simp add: ind_def unat_eq_0)
    show ?thesis using assms(1)
    proof (cases rule: alloc_block_cases)
      case full
      then show ?thesis using i 3 z by (auto simp: file_block_walk_def fbind_def err_def)
    next
      case (block b t)
      obtain u v where uv: "store32 t (f_indirect f) (of_nat b) = Inr u" "load32 u (f_indirect f) = of_nat b"
        "diskaddr u b = Inr (DISKMAP + b * BLKSIZE)" "poke u (DISKMAP + b * BLKSIZE) (replicate BLKSIZE 0) = Inr v"
        "grows f s v" "ind v f = b"
        using link_indirect [OF assms(1,2) 3(2) block(2,4)] by blast
      have b: "b < s_nblocks s" "b \<noteq> 0" using free_set_bounds [OF assms(1) block(2)] by auto
      have "diskaddr v (ind v f) = Inr (DISKMAP + b * BLKSIZE)"
        using uv(5,6) b by (simp add: diskaddr_def grows_def)
      then show ?thesis
        using i 3 z block uv b unat_blkno [OF assms(1) b(1)]
        by (auto simp: file_block_walk_def fbind_def act_def ret_def slot_def ind_def)
    qed
  qed
qed

text \<open>
  \<open>file_get_block\<close> returns the block that holds block \<open>i\<close> of the file, allocating what is missing, or
  reports a full disk.
\<close>

lemma get_block_spec:
  assumes "fs_ok s" and "file_ok s f" and "i < NFILEBLKS"
  shows "(\<exists>t. file_get_block f i s = Inr (Inl (- E_NO_DISK), t) \<and> grows f s t \<and> free_set t = {}) \<or>
    (\<exists>t. file_get_block f i s = Inr (Inr (DISKMAP + blkno t f i * BLKSIZE), t) \<and> grows f s t \<and> blkno t f i \<noteq> 0)"
proof -
  consider (full) "file_block_walk f i True s = Inr (Inl (- E_NO_DISK), s)" "free_set s = {}"
    | (slot) t where "file_block_walk f i True s = Inr (Inr (slot t f i), t)" "grows f s t" "i < NDIRECT \<or> ind t f \<noteq> 0"
    using walk_spec [OF assms] by blast
  then show ?thesis
  proof cases
  case full
  then show ?thesis using grows_refl [OF assms(1,2)] by (simp add: file_get_block_def fbind_def)
next
  case w: (slot t)
  have t: "fs_ok t" "file_ok t f" using w(2) by (simp_all add: grows_def)
  have bn: "unat (load32 t (slot t f i)) = blkno t f i" using w(3) by (simp add: blkno_def)
  show ?thesis
  proof (cases "blkno t f i = 0")
    case False
    then have "load32 t (slot t f i) \<noteq> 0" using bn by auto
    moreover have "diskaddr t (blkno t f i) = Inr (DISKMAP + blkno t f i * BLKSIZE)"
      using False t(2) assms(3) by (auto simp: diskaddr_def file_ok_def data_block_def)
    ultimately show ?thesis using w False bn by (auto simp: file_get_block_def fbind_def ret_def)
  next
    case True
    then have z: "load32 t (slot t f i) = 0" using bn by (simp add: unat_eq_0)
    show ?thesis using t(1)
    proof (cases rule: alloc_block_cases)
      case full
      then show ?thesis using w z by (auto simp: file_get_block_def fbind_def err_def)
    next
      case (block b u)
      obtain v where v: "store32 u (slot t f i) (of_nat b) = Inr v" "grows f t v" "blkno v f i = b" "ind v f = ind t f"
        using link_slot [OF t assms(3) w(3) True block(2,4)] by blast
      have b: "b < s_nblocks t" "b \<noteq> 0" using free_set_bounds [OF t(1) block(2)] by auto
      have "slot v f i = slot t f i" using v(4) by (simp add: slot_def)
      then have "unat (load32 v (slot t f i)) = b" using v(3,4) w(3) by (simp add: blkno_def)
      moreover have "diskaddr v b = Inr (DISKMAP + b * BLKSIZE)" using v(2) b by (simp add: diskaddr_def grows_def)
      ultimately have "file_get_block f i s = Inr (Inr (DISKMAP + blkno v f i * BLKSIZE), v)"
        using w z block v b by (simp add: file_get_block_def fbind_def act_def ret_def)
      then show ?thesis using grows_trans [OF w(2) v(2)] v(3) b(2) by blast
    qed
  qed
  qed
qed


lemma get_block_present:
  assumes "fs_ok s" and "file_ok s f" and "i < NFILEBLKS" and "blkno s f i \<noteq> 0"
  shows "file_get_block f i s = Inr (Inr (DISKMAP + blkno s f i * BLKSIZE), s)"
proof -
  have c: "i < NDIRECT \<or> ind s f \<noteq> 0" using assms(4) by (auto simp: blkno_def split: if_splits)
  have "file_block_walk f i True s = Inr (Inr (slot s f i), s)"
  proof (cases "i < NDIRECT")
    case False
    have "diskaddr s (ind s f) = Inr (DISKMAP + ind s f * BLKSIZE)"
      using False c assms(2) by (simp add: diskaddr_def file_ok_def data_block_def)
    then show ?thesis using False c assms(3)
      by (auto simp: file_block_walk_def fbind_def ret_def slot_def ind_def NFILEBLKS_def)
  qed (use assms(3) in \<open>auto simp: file_block_walk_def ret_def slot_def NFILEBLKS_def\<close>)
  moreover have "unat (load32 s (slot s f i)) = blkno s f i" using c by (simp add: blkno_def)
  moreover have "diskaddr s (blkno s f i) = Inr (DISKMAP + blkno s f i * BLKSIZE)"
    using assms by (auto simp: diskaddr_def file_ok_def data_block_def)
  ultimately show ?thesis using assms(4) by (auto simp: file_get_block_def fbind_def ret_def)
qed

section \<open>The bytes of a file\<close>

definition MAXFILESIZE :: nat where "MAXFILESIZE = (NDIRECT + NINDIRECT) * BLKSIZE"

text \<open>Positions that are not negative: the conversions of \<open>file_read\<close> and \<open>file_write\<close> do nothing.\<close>

lemma sdiv_nat: "int p sdiv int BLKSIZE = int (p div BLKSIZE)" "int p smod int BLKSIZE = int (p mod BLKSIZE)"
  by (cases "p = 0"; simp add: signed_divide_int_def signed_modulo_int_def zdiv_int zmod_int BLKSIZE_def)+

lemma MAXFILESIZE_eq: "MAXFILESIZE = 4235264" "MAXFILESIZE = NFILEBLKS * BLKSIZE"
  by (simp_all add: MAXFILESIZE_def NFILEBLKS_def NDIRECT_def NINDIRECT_def BLKSIZE_def)

lemma u64_of_nat: "p \<le> MAXFILESIZE \<Longrightarrow> u64_of (int p) = int p"
  by (simp add: u64_of_def MAXFILESIZE_eq)

lemma filebno_of_nat: "p < MAXFILESIZE \<Longrightarrow> filebno_of (int p) = p div BLKSIZE"
proof -
  assume "p < MAXFILESIZE"
  then have "p div BLKSIZE < NFILEBLKS" unfolding MAXFILESIZE_eq(2) by (simp add: div_less_iff_less_mult BLKSIZE_def)
  then have "int (p div BLKSIZE) mod 2 ^ 32 = int (p div BLKSIZE)"
    by (intro mod_pos_pos_trivial) (simp_all add: NFILEBLKS_def NDIRECT_def NINDIRECT_def)
  then show ?thesis by (simp add: filebno_of_def sdiv_nat)
qed

definition step_len :: "nat \<Rightarrow> nat \<Rightarrow> nat" where
  "step_len p e = min (BLKSIZE - p mod BLKSIZE) (e - p)"

lemma chunk_nat: "p < e \<Longrightarrow> e \<le> MAXFILESIZE \<Longrightarrow> chunk (int p) (int e) = int (step_len p e)"
proof -
  assume a: "p < e" "e \<le> MAXFILESIZE"
  have u: "u64_of (int e - int p) = int (e - p)" using a u64_of_nat [of "e - p"] by (simp add: of_nat_diff)
  have "p mod BLKSIZE \<le> BLKSIZE" by (simp add: BLKSIZE_def)
  then have b: "int BLKSIZE - int (p mod BLKSIZE) = int (BLKSIZE - p mod BLKSIZE)" by (rule of_nat_diff [symmetric])
  show ?thesis
    unfolding chunk_def sdiv_nat Let_def u b step_len_def min_def of_nat_le_iff by (rule if_distrib [symmetric])
qed

lemma step_len_props:
  assumes "p < e"
  shows "0 < step_len p e" "p + step_len p e \<le> e" "p mod BLKSIZE + step_len p e \<le> BLKSIZE"
    "\<And>k. k < step_len p e \<Longrightarrow> (p + k) div BLKSIZE = p div BLKSIZE \<and> (p + k) mod BLKSIZE = p mod BLKSIZE + k"
proof -
  have b: "p mod BLKSIZE < BLKSIZE" by (simp add: BLKSIZE_def)
  show "0 < step_len p e" "p + step_len p e \<le> e" using assms b by (auto simp: step_len_def)
  show w: "p mod BLKSIZE + step_len p e \<le> BLKSIZE" using b by (auto simp: step_len_def min_def)
  fix k assume "k < step_len p e"
  then have lt: "p mod BLKSIZE + k < BLKSIZE" using w by linarith
  have pk: "p + k = BLKSIZE * (p div BLKSIZE) + (p mod BLKSIZE + k)" by simp
  have B: "BLKSIZE \<noteq> 0" by (simp add: BLKSIZE_def)
  have "(p + k) div BLKSIZE = p div BLKSIZE + (p mod BLKSIZE + k) div BLKSIZE"
    unfolding pk using B by (rule div_mult_self4)
  moreover have "(p + k) mod BLKSIZE = (p mod BLKSIZE + k) mod BLKSIZE"
    unfolding pk by (rule mod_mult_self4)
  ultimately show "(p + k) div BLKSIZE = p div BLKSIZE \<and> (p + k) mod BLKSIZE = p mod BLKSIZE + k"
    using lt by simp
qed

lemma write_loop_nat:
  assumes "e \<le> MAXFILESIZE" and "p \<le> e"
  shows "write_loop f buf (int p) (int e) s =
    (if p < e then fbind (file_get_block f (p div BLKSIZE)) (\<lambda>blk s.
        bind_res (poke s (blk + p mod BLKSIZE) (peeks s buf (step_len p e))) (\<lambda>s.
        write_loop f (buf + step_len p e) (int (p + step_len p e)) (int e) s)) s
     else ret () s)"
proof (cases "p < e")
  case True
  then have "u64_of (int p) < int e \<and> int e < 2 ^ 64" using assms u64_of_nat [of p] by (simp add: MAXFILESIZE_eq)
  then show ?thesis
    using True assms filebno_of_nat [of p] chunk_nat [of p e]
    by (subst write_loop.simps) (simp add: blk_addr_def sdiv_nat Let_def nat_add_distrib)
next
  case False
  then have "\<not> (u64_of (int p) < int e)" using assms u64_of_nat [of p] by simp
  then show ?thesis using False by (subst write_loop.simps) simp
qed

lemma read_loop_nat:
  assumes "e \<le> MAXFILESIZE" and "p \<le> e"
  shows "read_loop f buf (int p) (int e) s =
    (if p < e then fbind (file_get_block f (p div BLKSIZE)) (\<lambda>blk s.
        bind_res (poke s buf (peeks s (blk + p mod BLKSIZE) (step_len p e))) (\<lambda>s.
        read_loop f (buf + step_len p e) (int (p + step_len p e)) (int e) s)) s
     else ret () s)"
proof (cases "p < e")
  case True
  then have "u64_of (int p) < int e \<and> int e < 2 ^ 64" using assms u64_of_nat [of p] by (simp add: MAXFILESIZE_eq)
  then show ?thesis
    using True assms filebno_of_nat [of p] chunk_nat [of p e]
    by (subst read_loop.simps) (simp add: blk_addr_def sdiv_nat Let_def nat_add_distrib)
next
  case False
  then have "\<not> (u64_of (int p) < int e)" using assms u64_of_nat [of p] by simp
  then show ?thesis using False by (subst read_loop.simps) simp
qed


section \<open>What reading and writing may change\<close>

definition changes :: "nat \<Rightarrow> 'a bcache_scheme \<Rightarrow> 'a bcache_scheme \<Rightarrow> bool" where
  "changes f s t \<longleftrightarrow> fs_ok t \<and> file_ok t f \<and> s_nblocks t = s_nblocks s \<and>
     used t f \<union> free_set t = used s f \<union> free_set s \<and> (\<forall>p. mapped s p \<longrightarrow> mapped t p) \<and>
     (\<forall>i < NFILEBLKS. blkno s f i \<noteq> 0 \<longrightarrow> blkno t f i = blkno s f i) \<and>
     (\<forall>a \<ge> DISKMAP. peek t a = peek s a \<or> f + 136 \<le> a \<and> a < f + 180 \<or>
        (\<exists>b. in_block b a \<and> (2 \<le> b \<and> b < 2 + nbitblocks s \<or> b \<in> used s f \<union> free_set s)))"

lemma grows_changes: "grows f s t \<Longrightarrow> changes f s t"
proof -
  assume g: "grows f s t"
  have "b = ind s f \<and> b \<noteq> 0 \<Longrightarrow> b \<in> used s f" for b by (simp add: used_def)
  then have "peek t a = peek s a \<or> f + 136 \<le> a \<and> a < f + 180 \<or>
        (\<exists>b. in_block b a \<and> (2 \<le> b \<and> b < 2 + nbitblocks s \<or> b \<in> used s f \<union> free_set s))" for a
    using g unfolding grows_def Un_iff by metis
  with g show ?thesis by (simp add: grows_def changes_def)
qed

lemma changes_refl: "fs_ok s \<Longrightarrow> file_ok s f \<Longrightarrow> changes f s s"
  by (simp add: changes_def)

lemma changes_trans:
  assumes "changes f s t" and "changes f t u"
  shows "changes f s u"
proof -
  have n: "nbitblocks t = nbitblocks s" using assms by (simp add: changes_def nbitblocks_def)
  have "peek u a = peek s a \<or> f + 136 \<le> a \<and> a < f + 180 \<or>
        (\<exists>b. in_block b a \<and> (2 \<le> b \<and> b < 2 + nbitblocks s \<or> b \<in> used s f \<union> free_set s))" if "DISKMAP \<le> a" for a
  proof (cases "peek u a = peek t a")
    case True
    then show ?thesis using assms(1) that by (auto simp: changes_def)
  next
    case False
    have "used t f \<union> free_set t = used s f \<union> free_set s" using assms(1) by (simp add: changes_def)
    moreover from False have "f + 136 \<le> a \<and> a < f + 180 \<or>
        (\<exists>b. in_block b a \<and> (2 \<le> b \<and> b < 2 + nbitblocks t \<or> b \<in> used t f \<union> free_set t))"
      using assms(2) that unfolding changes_def by blast
    ultimately show ?thesis using n by simp
  qed
  moreover have "blkno u f i = blkno s f i" if "i < NFILEBLKS" "blkno s f i \<noteq> 0" for i
    using assms that unfolding changes_def by metis
  ultimately show ?thesis using assms unfolding changes_def by (auto simp del: Un_iff)
qed

lemma file_ok_diskmap: "file_ok s f \<Longrightarrow> DISKMAP \<le> f"
  by (auto simp: file_ok_def inode_ok_def in_block_def)

lemma grows_low: "grows f s t \<Longrightarrow> a < DISKMAP \<Longrightarrow> peek t a = peek s a"
  using file_ok_diskmap [of t f] by (auto simp: grows_def in_block_def dest!: spec [of _ a])

lemma grows_data:
  assumes "grows f s t" and "file_ok s f" and "i < NFILEBLKS" and "blkno s f i \<noteq> 0" and "in_block (blkno s f i) a"
  shows "peek t a = peek s a"
proof -
  have d: "data_block s f (blkno s f i)" "blkno s f i \<noteq> ind s f" using assms(2-4) by (auto simp: file_ok_def)
  have u: "b = blkno s f i" if "in_block b a" for b using that assms(5) by (rule in_block_unique)
  have "\<not> (f + 136 \<le> a \<and> a < f + 180)"
    using assms(2) d(1) inode_block [of s f a] u [of "fblk f"] by (auto simp: file_ok_def data_block_def)
  moreover have "\<not> (\<exists>b. in_block b a \<and> (2 \<le> b \<and> b < 2 + nbitblocks s \<or> b \<in> free_set s \<or> b = ind s f \<and> b \<noteq> 0))"
    using d u by (auto simp: data_block_def)
  ultimately show ?thesis using assms(1) unfolding grows_def by blast
qed

definition fbyte :: "'a bcache_scheme \<Rightarrow> nat \<Rightarrow> nat \<Rightarrow> byte" where
  "fbyte s f q = peek s (DISKMAP + blkno s f (q div BLKSIZE) * BLKSIZE + q mod BLKSIZE)"

lemma fbyte_in_block: "in_block (blkno s f (q div BLKSIZE)) (DISKMAP + blkno s f (q div BLKSIZE) * BLKSIZE + q mod BLKSIZE)"
  by (rule in_block_offset) (simp add: BLKSIZE_def)

lemma filepos: "q < MAXFILESIZE \<Longrightarrow> q div BLKSIZE < NFILEBLKS"
  unfolding MAXFILESIZE_eq(2) by (simp add: div_less_iff_less_mult BLKSIZE_def)

lemma grows_fbyte:
  assumes "grows f s t" and "file_ok s f" and "q < MAXFILESIZE" and "blkno s f (q div BLKSIZE) \<noteq> 0"
  shows "fbyte t f q = fbyte s f q"
proof -
  note i = filepos [OF assms(3)]
  have "blkno t f (q div BLKSIZE) = blkno s f (q div BLKSIZE)" using assms i by (simp add: grows_def)
  then show ?thesis using grows_data [OF assms(1,2) i assms(4) fbyte_in_block] by (simp add: fbyte_def)
qed

text \<open>A store into a data block of the file.\<close>

lemma data_store:
  assumes s: "fs_ok s" "file_ok s f" and i: "i < NFILEBLKS" "blkno s f i \<noteq> 0"
    and bs: "bs \<noteq> []" "k + length bs \<le> BLKSIZE"
  defines "a \<equiv> DISKMAP + blkno s f i * BLKSIZE + k"
  shows "poke s a bs = Inr (stored s a bs)" "changes f s (stored s a bs)"
    "\<And>j. j < NFILEBLKS \<Longrightarrow> blkno (stored s a bs) f j = blkno s f j"
    "\<And>x. x < DISKMAP \<Longrightarrow> peek (stored s a bs) x = peek s x"
proof -
  have d: "data_block s f (blkno s f i)" "blkno s f i \<noteq> ind s f" using s(2) i by (auto simp: file_ok_def)
  have blk: "in_block (blkno s f i) (a + j)" if "j < length bs" for j
    using that bs by (simp add: in_block_def a_def)
  have off: "peek (stored s a bs) x = peek s x" if "\<not> in_block (blkno s f i) x" for x
    using that blk by (intro peek_stored_other) auto
  show "poke s a bs = Inr (stored s a bs)"
    using fs_ok_accessible [OF s(1), of "blkno s f i" "length bs" k] bs d(1) by (simp add: poke_def a_def data_block_def)
  show "peek (stored s a bs) x = peek s x" if "x < DISKMAP" for x
    using that by (intro off) (simp add: in_block_def)
  have inode: "peek (stored s a bs) x = peek s x" if "f \<le> x" "x < f + 256" for x
    using inode_block [of s f x] that s(2) d(1) in_block_unique [of "blkno s f i" x "fblk f"]
    by (intro off) (auto simp: file_ok_def data_block_def)
  have indir: "peek (stored s a bs) x = peek s x" if "in_block (ind s f) x" for x
    using that d(2) in_block_unique by (intro off) blast
  have same: "ind (stored s a bs) f = ind s f" "j < NFILEBLKS \<Longrightarrow> blkno (stored s a bs) f j = blkno s f j" for j
    by (rule blkno_same; use inode indir in auto)+
  then show "j < NFILEBLKS \<Longrightarrow> blkno (stored s a bs) f j = blkno s f j" for j by blast
  have "\<not> sys_area s (a + j)" if "j < length bs" for j
    using blk [OF that] d(1) not_sys_area_data by (auto simp: data_block_def)
  note fs = fs_ok_stored [OF s(1), of bs a, OF this]
  have "file_ok (stored s a bs) f" by (rule file_ok_same [OF s(2)]) (simp_all add: fs same)
  moreover have "used (stored s a bs) f = used s f" by (simp add: used_def same cong: conj_cong)
  moreover have "peek (stored s a bs) x = peek s x \<or> f + 136 \<le> x \<and> x < f + 180 \<or>
      (\<exists>b. in_block b x \<and> (2 \<le> b \<and> b < 2 + nbitblocks s \<or> b \<in> used s f \<union> free_set s))" for x
  proof -
    have "blkno s f i \<in> used s f \<union> free_set s" using i by (auto simp: used_def)
    then show ?thesis using off by blast
  qed
  ultimately show "changes f s (stored s a bs)"
    using fs same unfolding changes_def by (simp add: mapped_stored)
qed


lemma fbyte_stored:
  assumes s: "file_ok s f" and p: "p < e" "e \<le> MAXFILESIZE" "blkno s f (p div BLKSIZE) \<noteq> 0"
    and q: "q < MAXFILESIZE" "blkno s f (q div BLKSIZE) \<noteq> 0"
    and bs: "length bs = step_len p e"
    and same: "\<And>j. j < NFILEBLKS \<Longrightarrow> blkno u f j = blkno s f j"
    and u: "u = stored s (DISKMAP + blkno s f (p div BLKSIZE) * BLKSIZE + p mod BLKSIZE) bs"
  shows "fbyte u f q = (if p \<le> q \<and> q < p + step_len p e then bs ! (q - p) else fbyte s f q)"
proof (cases "q div BLKSIZE = p div BLKSIZE")
  case True
  have "q = p div BLKSIZE * BLKSIZE + q mod BLKSIZE" "p = p div BLKSIZE * BLKSIZE + p mod BLKSIZE"
    using True div_mult_mod_eq [of q BLKSIZE] div_mult_mod_eq [of p BLKSIZE] by simp_all
  then have "p \<le> q \<longleftrightarrow> p mod BLKSIZE \<le> q mod BLKSIZE" "q - p = q mod BLKSIZE - p mod BLKSIZE"
     "q < p + step_len p e \<longleftrightarrow> q mod BLKSIZE < p mod BLKSIZE + step_len p e"
    by linarith+
  then show ?thesis using True same [OF filepos [OF q(1)]] bs by (auto simp: fbyte_def u peek_stored)
next
  case False
  have win: "\<not> (p \<le> q \<and> q < p + step_len p e)"
  proof
    assume w: "p \<le> q \<and> q < p + step_len p e"
    then have "q - p < step_len p e" by linarith
    then show False using step_len_props(4) [OF p(1), of "q - p"] False w by auto
  qed
  have "blkno s f (q div BLKSIZE) \<noteq> blkno s f (p div BLKSIZE)"
    using s False filepos [OF q(1)] filepos [of p] p q(2) unfolding file_ok_def by (metis order_less_le_trans)
  moreover have "in_block (blkno s f (p div BLKSIZE)) (DISKMAP + blkno s f (p div BLKSIZE) * BLKSIZE + p mod BLKSIZE + i)"
    if "i < length bs" for i
    using that bs step_len_props(3) [OF p(1)] by (simp add: in_block_def)
  ultimately have "DISKMAP + blkno s f (q div BLKSIZE) * BLKSIZE + q mod BLKSIZE \<noteq>
      DISKMAP + blkno s f (p div BLKSIZE) * BLKSIZE + p mod BLKSIZE + i" if "i < length bs" for i
    using that fbyte_in_block [of s f q] in_block_unique by metis
  then show ?thesis using win same [OF filepos [OF q(1)]]
    by (simp only: if_False fbyte_def) (simp add: u peek_stored_other)
qed

section \<open>Writing\<close>

lemma write_loop_spec:
  assumes "fs_ok s" and "file_ok s f" and "p \<le> e" and "e \<le> MAXFILESIZE" and "buf + (e - p) \<le> DISKMAP"
  shows "\<exists>r t. write_loop f buf (int p) (int e) s = Inr (r, t) \<and> changes f s t \<and> (\<forall>x < DISKMAP. peek t x = peek s x) \<and>
     (\<forall>q < MAXFILESIZE. (q < p \<or> e \<le> q) \<and> blkno s f (q div BLKSIZE) \<noteq> 0 \<longrightarrow> fbyte t f q = fbyte s f q) \<and>
     (r = Inl (- E_NO_DISK) \<and> free_set t = {} \<or> r = Inr () \<and>
       (\<forall>q. p \<le> q \<and> q < e \<longrightarrow> blkno t f (q div BLKSIZE) \<noteq> 0 \<and> fbyte t f q = peek s (buf + (q - p))))"
  using assms
proof (induction "e - p" arbitrary: p buf s rule: less_induct)
  case less
  show ?case
  proof (cases "p < e")
    case False
    then show ?thesis
      using less.prems changes_refl [of s f] by (simp add: write_loop_nat ret_def)
  next
    case True
    let ?n = "step_len p e" and ?i = "p div BLKSIZE"
    have i: "?i < NFILEBLKS" using True less.prems by (intro filepos) simp
    note n = step_len_props [OF True]
    consider (full) t where "file_get_block f ?i s = Inr (Inl (- E_NO_DISK), t)" "grows f s t" "free_set t = {}"
      | (blk) t where "file_get_block f ?i s = Inr (Inr (DISKMAP + blkno t f ?i * BLKSIZE), t)" "grows f s t" "blkno t f ?i \<noteq> 0"
      using get_block_spec [OF less.prems(1,2) i] by blast
    then show ?thesis
    proof cases
      case full
      then have "write_loop f buf (int p) (int e) s = Inr (Inl (- E_NO_DISK), t)"
        using True less.prems by (simp add: write_loop_nat fbind_def)
      then show ?thesis
        using full grows_changes grows_low grows_fbyte [OF full(2) less.prems(2)] by blast
    next
      case blk
      have t: "fs_ok t" "file_ok t f" using blk(2) by (simp_all add: grows_def)
      let ?bs = "peeks t buf ?n" and ?a = "DISKMAP + blkno t f ?i * BLKSIZE + p mod BLKSIZE"
      let ?u = "stored t ?a ?bs"
      have bs: "?bs \<noteq> []" "p mod BLKSIZE + length ?bs \<le> BLKSIZE" using n by (auto simp flip: length_greater_0_conv)
      note ds = data_store [OF t i blk(3) bs]
      have u: "fs_ok ?u" "file_ok ?u f" using ds(2) by (simp_all add: changes_def)
      have lt: "e - (p + ?n) < e - p" "p + ?n \<le> e" "buf + ?n + (e - (p + ?n)) \<le> DISKMAP"
        using True n less.prems by auto
      obtain r v where v: "write_loop f (buf + ?n) (int (p + ?n)) (int e) ?u = Inr (r, v)" "changes f ?u v"
          "\<forall>x < DISKMAP. peek v x = peek ?u x"
          "\<forall>q < MAXFILESIZE. (q < p + ?n \<or> e \<le> q) \<and> blkno ?u f (q div BLKSIZE) \<noteq> 0 \<longrightarrow> fbyte v f q = fbyte ?u f q"
          "r = Inl (- E_NO_DISK) \<and> free_set v = {} \<or> r = Inr () \<and> (\<forall>q. p + ?n \<le> q \<and> q < e \<longrightarrow>
             blkno v f (q div BLKSIZE) \<noteq> 0 \<and> fbyte v f q = peek ?u (buf + ?n + (q - (p + ?n))))"
        using less.hyps [OF lt(1) u lt(2) less.prems(4) lt(3)] by blast
      have low: "peek ?u x = peek s x" if "x < DISKMAP" for x
        using ds(4) [OF that] grows_low [OF blk(2) that] by simp
      have fu: "fbyte ?u f q = (if p \<le> q \<and> q < p + ?n then ?bs ! (q - p) else fbyte t f q)"
        if "q < MAXFILESIZE" "blkno t f (q div BLKSIZE) \<noteq> 0" for q
        using fbyte_stored [OF t(2) True less.prems(4) blk(3) that, of ?bs ?u] ds(3) by simp
      have "changes f s v"
        using grows_changes [OF blk(2)] ds(2) v(2) changes_trans by blast
      moreover have "\<forall>x < DISKMAP. peek v x = peek s x" using v(3) low by simp
      moreover have "fbyte v f q = fbyte s f q"
        if q: "q < MAXFILESIZE" "q < p \<or> e \<le> q" "blkno s f (q div BLKSIZE) \<noteq> 0" for q
      proof -
        have b: "blkno t f (q div BLKSIZE) \<noteq> 0" using blk(2) q(3) filepos [OF q(1)] by (simp add: grows_def)
        have "fbyte v f q = fbyte ?u f q" using v(4) q(1,2) b ds(3) [OF filepos [OF q(1)]] lt(2) by auto
        also have "\<dots> = fbyte t f q" using fu [OF q(1) b] q(2) lt(2) by auto
        also have "\<dots> = fbyte s f q" using grows_fbyte [OF blk(2) less.prems(2) q(1,3)] .
        finally show ?thesis .
      qed
      moreover have "blkno v f (q div BLKSIZE) \<noteq> 0 \<and> fbyte v f q = peek s (buf + (q - p))"
        if r: "r = Inr ()" and q: "p \<le> q" "q < e" for q
      proof (cases "q < p + ?n")
        case True
        have qm: "q < MAXFILESIZE" using q less.prems by simp
        have qd: "q div BLKSIZE = ?i" using n(4) [of "q - p"] True q by simp
        have bu: "blkno ?u f (q div BLKSIZE) \<noteq> 0" using ds(3) [OF i] blk(3) qd by simp
        have "blkno v f (q div BLKSIZE) \<noteq> 0" using v(2) bu i qd by (simp add: changes_def)
        moreover have "fbyte v f q = ?bs ! (q - p)"
          using v(4) qm True bu fu [OF qm] blk(3) qd q by simp
        moreover have "?bs ! (q - p) = peek s (buf + (q - p))"
          using True q less.prems grows_low [OF blk(2), of "buf + (q - p)"] by simp
        ultimately show ?thesis by simp
      next
        case False
        then have "buf + ?n + (q - (p + ?n)) = buf + (q - p)" "buf + (q - p) < DISKMAP" using less.prems q by auto
        then show ?thesis using v(5) r False q low by auto
      qed
      moreover have "write_loop f buf (int p) (int e) s = Inr (r, v)"
        using True less.prems blk(1) ds(1) v(1) by (simp add: write_loop_nat fbind_def)
      ultimately show ?thesis using v(5) by blast
    qed
  qed
qed


section \<open>Reading\<close>

text \<open>A buffer of the server outside the disk map, all of it mapped.\<close>

definition client_buf :: "'a bcache_scheme \<Rightarrow> nat \<Rightarrow> nat \<Rightarrow> bool" where
  "client_buf s buf n \<longleftrightarrow> buf + n \<le> DISKMAP \<and> list_all (mapped s) (pages buf n)"

lemma pages_sub: "k + m \<le> n \<Longrightarrow> set (pages (a + k) m) \<subseteq> set (pages a n)"
proof
  fix x assume km: "k + m \<le> n" and x: "x \<in> set (pages (a + k) m)"
  then have m: "m \<noteq> 0" "(a + k) div BLKSIZE \<le> x" "x \<le> (a + k + m - 1) div BLKSIZE"
    by (auto simp: pages_def split: if_splits)
  have "a div BLKSIZE \<le> (a + k) div BLKSIZE" "(a + k + m - 1) div BLKSIZE \<le> (a + n - 1) div BLKSIZE"
    using km by (auto intro!: div_le_mono)
  then have "a div BLKSIZE \<le> x" "x \<le> (a + n - 1) div BLKSIZE" using m by linarith+
  then show "x \<in> set (pages a n)" using km m(1) unfolding pages_def by (simp add: less_Suc_eq_le del: One_nat_def upt_Suc)
qed

lemma client_buf_sub: "client_buf s buf n \<Longrightarrow> k + m \<le> n \<Longrightarrow> client_buf s (buf + k) m"
  using pages_sub [of k m n buf] by (auto simp: client_buf_def list_all_iff)

lemma client_buf_mono: "client_buf s buf n \<Longrightarrow> (\<And>p. mapped s p \<Longrightarrow> mapped t p) \<Longrightarrow> client_buf t buf n"
  by (auto simp: client_buf_def list_all_iff)

lemma client_store:
  assumes "fs_ok s" and "file_ok s f" and "client_buf s buf (length bs)"
  shows "poke s buf bs = Inr (stored s buf bs)" "changes f s (stored s buf bs)"
    "\<And>a. DISKMAP \<le> a \<Longrightarrow> peek (stored s buf bs) a = peek s a"
    "\<And>j. j < NFILEBLKS \<Longrightarrow> blkno (stored s buf bs) f j = blkno s f j"
proof -
  let ?t = "stored s buf bs"
  show "poke s buf bs = Inr ?t"
    using assms(3) by (auto simp: poke_def accessible_def client_buf_def page_ok_def list_all_iff)
  show high: "peek ?t a = peek s a" if "DISKMAP \<le> a" for a
    using that assms(3) by (simp add: peek_stored client_buf_def)
  have "\<not> sys_area s (buf + i)" if "i < length bs" for i
    using that assms(3) by (auto simp: sys_area_def client_buf_def in_block_def)
  note fs = fs_ok_stored [OF assms(1), of bs buf, OF this]
  have same: "ind ?t f = ind s f" "j < NFILEBLKS \<Longrightarrow> blkno ?t f j = blkno s f j" for j
    by (rule blkno_same; use high file_ok_diskmap [OF assms(2)] in \<open>auto simp: in_block_def\<close>)+
  then show "j < NFILEBLKS \<Longrightarrow> blkno ?t f j = blkno s f j" for j by blast
  have "file_ok ?t f" by (rule file_ok_same [OF assms(2)]) (simp_all add: fs same)
  moreover have "used ?t f = used s f" by (simp add: used_def same cong: conj_cong)
  ultimately show "changes f s ?t" using fs same high unfolding changes_def by (simp add: mapped_stored)
qed

lemma read_loop_spec:
  assumes "fs_ok s" and "file_ok s f" and "p \<le> e" and "e \<le> MAXFILESIZE" and "client_buf s buf (e - p)"
  shows "\<exists>r t. read_loop f buf (int p) (int e) s = Inr (r, t) \<and> changes f s t \<and>
     (\<forall>x < DISKMAP. x < buf \<or> buf + (e - p) \<le> x \<longrightarrow> peek t x = peek s x) \<and>
     (\<forall>q < MAXFILESIZE. blkno s f (q div BLKSIZE) \<noteq> 0 \<longrightarrow> fbyte t f q = fbyte s f q) \<and>
     (r = Inl (- E_NO_DISK) \<or> r = Inr () \<and>
       (\<forall>q. p \<le> q \<and> q < e \<longrightarrow> blkno t f (q div BLKSIZE) \<noteq> 0 \<and> peek t (buf + (q - p)) = fbyte t f q)) \<and>
     ((\<forall>q. p \<le> q \<and> q < e \<longrightarrow> blkno s f (q div BLKSIZE) \<noteq> 0) \<longrightarrow> r = Inr ())"
  using assms
proof (induction "e - p" arbitrary: p buf s rule: less_induct)
  case less
  show ?case
  proof (cases "p < e")
    case False
    then show ?thesis using less.prems changes_refl [of s f] by (simp add: read_loop_nat ret_def)
  next
    case True
    let ?n = "step_len p e" and ?i = "p div BLKSIZE"
    have i: "?i < NFILEBLKS" using True less.prems by (intro filepos) simp
    note n = step_len_props [OF True]
    consider (full) t where "file_get_block f ?i s = Inr (Inl (- E_NO_DISK), t)" "grows f s t" "free_set t = {}"
      | (blk) t where "file_get_block f ?i s = Inr (Inr (DISKMAP + blkno t f ?i * BLKSIZE), t)" "grows f s t" "blkno t f ?i \<noteq> 0"
      using get_block_spec [OF less.prems(1,2) i] by blast
    then show ?thesis
    proof cases
      case full
      have "blkno s f ?i = 0"
        using full(1) get_block_present [OF less.prems(1,2) i] by auto
      moreover have "read_loop f buf (int p) (int e) s = Inr (Inl (- E_NO_DISK), t)"
        using full True less.prems by (simp add: read_loop_nat fbind_def)
      ultimately show ?thesis
        using full(2) True grows_changes grows_low grows_fbyte [OF full(2) less.prems(2)] by blast
    next
      case blk
      have t: "fs_ok t" "file_ok t f" "\<And>p. mapped s p \<Longrightarrow> mapped t p" using blk(2) by (simp_all add: grows_def)
      let ?bs = "peeks t (DISKMAP + blkno t f ?i * BLKSIZE + p mod BLKSIZE) ?n"
      let ?u = "stored t buf ?bs"
      have cb: "client_buf t buf (length ?bs)"
        using client_buf_mono [OF client_buf_sub [OF less.prems(5), of 0 ?n] t(3)] n by simp
      note cs = client_store [OF t(1,2) cb]
      have u: "fs_ok ?u" "file_ok ?u f" "\<And>p. mapped t p \<Longrightarrow> mapped ?u p" using cs(2) by (simp_all add: changes_def)
      have lt: "e - (p + ?n) < e - p" "p + ?n \<le> e" using True n by auto
      have cb2: "client_buf ?u (buf + ?n) (e - (p + ?n))"
        using client_buf_mono [OF client_buf_mono [OF client_buf_sub [OF less.prems(5), of ?n "e - (p + ?n)"] t(3)] u(3)] lt by simp
      obtain r v where v: "read_loop f (buf + ?n) (int (p + ?n)) (int e) ?u = Inr (r, v)" "changes f ?u v"
          "\<forall>x < DISKMAP. x < buf + ?n \<or> buf + ?n + (e - (p + ?n)) \<le> x \<longrightarrow> peek v x = peek ?u x"
          "\<forall>q < MAXFILESIZE. blkno ?u f (q div BLKSIZE) \<noteq> 0 \<longrightarrow> fbyte v f q = fbyte ?u f q"
          "r = Inl (- E_NO_DISK) \<or> r = Inr () \<and> (\<forall>q. p + ?n \<le> q \<and> q < e \<longrightarrow>
             blkno v f (q div BLKSIZE) \<noteq> 0 \<and> peek v (buf + ?n + (q - (p + ?n))) = fbyte v f q)"
          "(\<forall>q. p + ?n \<le> q \<and> q < e \<longrightarrow> blkno ?u f (q div BLKSIZE) \<noteq> 0) \<longrightarrow> r = Inr ()"
        using less.hyps [OF lt(1) u(1,2) lt(2) less.prems(4) cb2] by blast
      have fu: "fbyte ?u f q = fbyte t f q" if "q < MAXFILESIZE" for q
        using cs(3,4) filepos [OF that] by (simp add: fbyte_def)
      have bm: "blkno ?u f (q div BLKSIZE) \<noteq> 0" if "q < MAXFILESIZE" "blkno s f (q div BLKSIZE) \<noteq> 0" for q
        using that filepos [OF that(1)] cs(4) blk(2) by (simp add: grows_def)
      have "changes f s v" using grows_changes [OF blk(2)] cs(2) v(2) changes_trans by blast
      moreover have "peek v x = peek s x" if "x < DISKMAP" "x < buf \<or> buf + (e - p) \<le> x" for x
        using v(3) that lt(2) n(1) grows_low [OF blk(2) that(1)] by (auto simp: peek_stored)
      moreover have "fbyte v f q = fbyte s f q" if q: "q < MAXFILESIZE" "blkno s f (q div BLKSIZE) \<noteq> 0" for q
        using v(4) bm [OF q] fu [OF q(1)] q(1) grows_fbyte [OF blk(2) less.prems(2) q] by simp
      moreover have "blkno v f (q div BLKSIZE) \<noteq> 0 \<and> peek v (buf + (q - p)) = fbyte v f q"
        if r: "r = Inr ()" and q: "p \<le> q" "q < e" for q
      proof (cases "q < p + ?n")
        case True
        have qm: "q < MAXFILESIZE" using q less.prems by simp
        have k: "q - p < ?n" using True q by linarith
        have qd: "q div BLKSIZE = ?i" "q mod BLKSIZE = p mod BLKSIZE + (q - p)" using n(4) [OF k] q by auto
        have bu: "blkno ?u f (q div BLKSIZE) \<noteq> 0" using cs(4) [OF i] blk(3) qd by simp
        have "buf + (q - p) < DISKMAP" "buf + (q - p) < buf + ?n" using k q less.prems(5) by (auto simp: client_buf_def)
        then have "peek v (buf + (q - p)) = peek ?u (buf + (q - p))" using v(3) by blast
        also have "\<dots> = fbyte t f q" using k by (simp add: peek_stored fbyte_def qd add.assoc)
        also have "\<dots> = fbyte v f q" using v(4) qm bu fu [OF qm] by simp
        finally show ?thesis using v(2) bu i qd by (simp add: changes_def)
      next
        case False
        then have "buf + ?n + (q - (p + ?n)) = buf + (q - p)" using q by auto
        then show ?thesis using v(5) r False q by auto
      qed
      moreover have "r = Inr ()" if "\<forall>q. p \<le> q \<and> q < e \<longrightarrow> blkno s f (q div BLKSIZE) \<noteq> 0"
        using that v(6) bm less.prems(4) by (meson add_leD1 order_less_le_trans)
      moreover have "read_loop f buf (int p) (int e) s = Inr (r, v)"
        using True less.prems blk(1) cs(1) v(1) by (simp add: read_loop_nat fbind_def)
      ultimately show ?thesis using v(5) by blast
    qed
  qed
qed


section \<open>Whole operations\<close>

definition fsize :: "'a bcache_scheme \<Rightarrow> nat \<Rightarrow> int" where "fsize s f = sint (load32 s (f_size f))"

lemma sint_offset: "off \<le> MAXFILESIZE \<Longrightarrow> sint (of_nat off :: u32) = int off"
  by (simp add: MAXFILESIZE_eq signed_of_nat signed_take_bit_int_eq_self)

text \<open>Enlarging the size field changes only that field.\<close>

lemma set_size_grow:
  assumes s: "fs_ok s" "file_ok s f" and le: "fsize s f \<le> sint w"
  shows "\<exists>t. file_set_size f w s = Inr t \<and> fs_ok t \<and> file_ok t f \<and> s_nblocks t = s_nblocks s \<and> free_set t = free_set s \<and>
    load32 t (f_size f) = w \<and> (\<forall>i < NFILEBLKS. blkno t f i = blkno s f i) \<and> used t f = used s f \<and>
    (\<forall>p. mapped s p \<longrightarrow> mapped t p) \<and> (\<forall>a. a < f + 128 \<or> f + 132 \<le> a \<longrightarrow> peek t a = peek s a)"
proof -
  let ?u = "stored s (f_size f) (put32 w)"
  have i: "inode_ok s f" using s(2) by (simp add: file_ok_def)
  have acc: "accessible s (f_size f) 4"
    using accessible_in_block [OF s(1), of "fblk f" "f_size f" 4] i inode_block [OF i]
    by (simp add: inode_window inode_ok_def)
  have nsa: "\<not> sys_area s (f_size f + k)" if "k < length (put32 w)" for k
    using that not_sys_area_inode [OF i] by (simp add: inode_window)
  note fs = fs_ok_stored [OF s(1), of "put32 w" "f_size f", OF nsa]
  have off: "peek ?u a = peek s a" if "a < f + 128 \<or> f + 132 \<le> a" for a
    using that by (auto simp: peek_stored inode_window)
  have idb: "ind s f \<noteq> 0 \<Longrightarrow> ind s f \<noteq> fblk f" using s(2) by (auto simp: file_ok_def data_block_def)
  have same: "ind ?u f = ind s f" "j < NFILEBLKS \<Longrightarrow> blkno ?u f j = blkno s f j" for j
  proof -
    have "peek ?u a = peek s a" if "ind s f \<noteq> 0" "in_block (ind s f) a" for a
      using inode_block [OF i, of a] idb that in_block_unique [of "ind s f" a "fblk f"] by (intro off) force
    then show "ind ?u f = ind s f" "j < NFILEBLKS \<Longrightarrow> blkno ?u f j = blkno s f j"
      by (rule blkno_same [rotated]; use off in auto)+
  qed
  have dm: "in_diskmap f" "(f - DISKMAP) div BLKSIZE < s_nblocks ?u"
    using in_diskmap_block [of "fblk f" f] fs_ok_block [OF s(1)] i fs(2) by (auto simp: inode_ok_def fblk_def)
  then obtain t where t: "flush_block ?u f = Inr t" using flush_block_total by blast
  note fl = flush_block_fs [OF t fs(1)]
  note ld = peek_eq_loads [OF fl(4)]
  have b2: "ind t f = ind s f" "\<And>j. j < NFILEBLKS \<Longrightarrow> blkno t f j = blkno s f j"
  proof -
    show it: "ind t f = ind s f" using same(1) ld(1) by (metis ind_def)
    show "blkno t f j = blkno s f j" if "j < NFILEBLKS" for j
      using same(2) [OF that] same(1) it ld(1) by (metis blkno_def slot_def)
  qed
  have "file_set_size f w s = Inr t"
    using le acc t by (simp add: file_set_size_def fsize_def store32_def poke_def)
  moreover have "file_ok t f" by (rule file_ok_same [OF s(2)]) (use fl(2,3) fs(2,3) b2 in auto)
  moreover have "load32 t (f_size f) = w" using ld(1) load32_stored by metis
  moreover have "used t f = used s f" using b2 by (simp add: used_def cong: conj_cong)
  ultimately show ?thesis using fl fs b2 off by (auto simp: mapped_stored)
qed

definition write_frame :: "nat \<Rightarrow> 'a bcache_scheme \<Rightarrow> 'a bcache_scheme \<Rightarrow> bool" where
  "write_frame f s t \<longleftrightarrow> fs_ok t \<and> file_ok t f \<and> s_nblocks t = s_nblocks s \<and>
     used t f \<union> free_set t = used s f \<union> free_set s \<and>
     (\<forall>a \<ge> DISKMAP. peek t a = peek s a \<or> f \<le> a \<and> a < f + 256 \<or>
        (\<exists>b. in_block b a \<and> (2 \<le> b \<and> b < 2 + nbitblocks s \<or> b \<in> used s f \<union> free_set s)))"

lemma changes_size:
  assumes "changes f s t" and "file_ok s f"
  shows "load32 t (f_size f) = load32 s (f_size f)"
proof (rule load32_peek_eq)
  fix k :: nat assume k: "k < 4"
  let ?a = "f_size f + k"
  have i: "inode_ok s f" using assms(2) by (simp add: file_ok_def)
  have b: "in_block (fblk f) ?a" using inode_block [OF i, of ?a] k by (simp add: inode_window)
  have "b = fblk f" if "in_block b ?a" for b using that b by (rule in_block_unique)
  moreover have "\<not> (2 \<le> fblk f \<and> fblk f < 2 + nbitblocks s)" "fblk f \<notin> free_set s" "fblk f \<notin> used s f"
    using i assms(2) by (auto simp: inode_ok_def used_def file_ok_def data_block_def)
  moreover have "DISKMAP \<le> ?a" "\<not> f + 136 \<le> ?a" using file_ok_diskmap [OF assms(2)] k by (simp_all add: inode_window)
  ultimately show "peek t ?a = peek s ?a" using assms(1) unfolding changes_def by blast
qed

lemma file_write_spec:
  assumes s: "fs_ok s" "file_ok s f" "0 \<le> fsize s f" "fsize s f \<le> int MAXFILESIZE"
    and n: "off + n \<le> MAXFILESIZE" "buf + n \<le> DISKMAP"
  shows "\<exists>r t. file_write f buf n (of_nat off) s = Inr (r, t) \<and> write_frame f s t \<and> fsize t f = max (fsize s f) (int (off + n)) \<and>
    (\<forall>p. mapped s p \<longrightarrow> mapped t p) \<and> (\<forall>x < DISKMAP. peek t x = peek s x) \<and>
    (\<forall>q < MAXFILESIZE. (q < off \<or> off + n \<le> q) \<and> blkno s f (q div BLKSIZE) \<noteq> 0 \<longrightarrow> fbyte t f q = fbyte s f q) \<and>
    (r = Inl (- E_NO_DISK) \<and> free_set t = {} \<or> r = Inr n \<and>
      (\<forall>q. off \<le> q \<and> q < off + n \<longrightarrow> blkno t f (q div BLKSIZE) \<noteq> 0 \<and> fbyte t f q = peek s (buf + (q - off))))"
proof -
  let ?e = "off + n"
  have so: "sint (of_nat off :: u32) = int off" "sint (of_nat ?e :: u32) = int ?e"
    using n(1) sint_offset [of off] sint_offset [of ?e] by simp_all
  have wi: "(word_of_int (int off + int n) :: u32) = of_nat ?e" by (metis of_int_of_nat_eq of_nat_add)
  have ue: "u64_of (int off + int n) = int ?e" using u64_of_nat [OF n(1)] by simp
  have us: "u64_of (fsize s f) = fsize s f" using s(3,4) by (simp add: u64_of_def MAXFILESIZE_eq)
  obtain t where t: "(if u64_of (fsize s f) < int ?e then act (file_set_size f (of_nat ?e)) s else ret () s) = Inr (Inr (), t)"
      "fs_ok t" "file_ok t f" "s_nblocks t = s_nblocks s" "free_set t = free_set s"
      "fsize t f = max (fsize s f) (int ?e)" "\<forall>i < NFILEBLKS. blkno t f i = blkno s f i" "used t f = used s f"
      "\<forall>p. mapped s p \<longrightarrow> mapped t p" "\<forall>a. a < f + 128 \<or> f + 132 \<le> a \<longrightarrow> peek t a = peek s a"
  proof (cases "fsize s f < int ?e")
    case True
    then show ?thesis
      using that set_size_grow [OF s(1,2), of "of_nat ?e"] so us by (auto simp: act_def fsize_def max_def)
  next
    case False
    then show ?thesis using that [of s] s us by (simp add: ret_def)
  qed
  have low: "peek t x = peek s x" if "x < DISKMAP" for x using t(10) that file_ok_diskmap [OF s(2)] by simp
  have fb: "fbyte t f q = fbyte s f q" if q: "q < MAXFILESIZE" "blkno s f (q div BLKSIZE) \<noteq> 0" for q
  proof -
    let ?a = "DISKMAP + blkno s f (q div BLKSIZE) * BLKSIZE + q mod BLKSIZE"
    have i: "inode_ok s f" "blkno s f (q div BLKSIZE) \<noteq> fblk f"
      using s(2) filepos [OF q(1)] q(2) by (auto simp: file_ok_def data_block_def)
    have "\<not> (f \<le> ?a \<and> ?a < f + 256)"
      using inode_block [OF i(1), of ?a] in_block_unique [OF fbyte_in_block [of s f q]] i(2) by blast
    then have "peek t ?a = peek s ?a" using t(10) by auto
    then show ?thesis using t(7) filepos [OF q(1)] by (simp add: fbyte_def)
  qed
  obtain r v where v: "write_loop f buf (int off) (int ?e) t = Inr (r, v)" "changes f t v"
      "\<forall>x < DISKMAP. peek v x = peek t x"
      "\<forall>q < MAXFILESIZE. (q < off \<or> ?e \<le> q) \<and> blkno t f (q div BLKSIZE) \<noteq> 0 \<longrightarrow> fbyte v f q = fbyte t f q"
      "r = Inl (- E_NO_DISK) \<and> free_set v = {} \<or> r = Inr () \<and> (\<forall>q. off \<le> q \<and> q < ?e \<longrightarrow>
         blkno v f (q div BLKSIZE) \<noteq> 0 \<and> fbyte v f q = peek t (buf + (q - off)))"
    using write_loop_spec [OF t(2,3) _ n(1), of off buf] n(2) by auto
  have "file_write f buf n (of_nat off) s = Inr (case r of Inl x \<Rightarrow> Inl x | Inr _ \<Rightarrow> Inr n, v)"
    using t(1) v(1) unfolding file_write_def fbind_def so(1) ue wi
    by (auto simp: fsize_def ret_def split: sum.splits if_splits)
  moreover have "write_frame f s v"
  proof -
    have nb: "nbitblocks t = nbitblocks s" by (simp add: nbitblocks_def t(4))
    have "peek v a = peek s a \<or> f \<le> a \<and> a < f + 256 \<or>
        (\<exists>b. in_block b a \<and> (2 \<le> b \<and> b < 2 + nbitblocks s \<or> b \<in> used s f \<union> free_set s))" if a: "DISKMAP \<le> a" for a
    proof (cases "f \<le> a \<and> a < f + 256")
      case False
      then have "peek t a = peek s a" using t(10) by auto
      moreover have "peek v a = peek t a \<or> f + 136 \<le> a \<and> a < f + 180 \<or>
          (\<exists>b. in_block b a \<and> (2 \<le> b \<and> b < 2 + nbitblocks t \<or> b \<in> used t f \<union> free_set t))"
        using v(2) a unfolding changes_def by blast
      ultimately show ?thesis using nb t(5,8) False by auto
    qed simp
    then show ?thesis using v(2) t(4,5,8) by (simp add: write_frame_def changes_def)
  qed
  moreover have "fsize v f = max (fsize s f) (int ?e)"
    using changes_size [OF v(2) t(3)] t(6) by (simp add: fsize_def)
  moreover have "\<forall>p. mapped s p \<longrightarrow> mapped v p" using t(9) v(2) by (simp add: changes_def)
  moreover have "\<forall>q < MAXFILESIZE. (q < off \<or> ?e \<le> q) \<and> blkno s f (q div BLKSIZE) \<noteq> 0 \<longrightarrow> fbyte v f q = fbyte s f q"
    using v(4) t(7) fb filepos by simp
  moreover have "peek t (buf + (q - off)) = peek s (buf + (q - off))" if "off \<le> q" "q < ?e" for q
    using that n(2) low by simp
  ultimately show ?thesis using v(3,5) low by (cases r) auto
qed


lemma sint_diff_offset:
  assumes "int off \<le> sint w" and "off \<le> MAXFILESIZE"
  shows "sint (w - of_nat off :: u32) = sint w - int off"
proof -
  have "sint w < 2 ^ 31" using sint_less [of w] by simp
  then have "signed_take_bit 31 (sint w - int off) = sint w - int off"
    using assms by (intro signed_take_bit_int_eq_self) auto
  then show ?thesis using sint_offset [OF assms(2)] by (simp add: sint_word_ariths)
qed

lemma file_read_present:
  assumes s: "fs_ok s" "file_ok s f" "int (off + n) \<le> fsize s f" "0 < n"
    and n: "off + n \<le> MAXFILESIZE" "client_buf s dst n"
    and present: "\<And>q. off \<le> q \<Longrightarrow> q < off + n \<Longrightarrow> blkno s f (q div BLKSIZE) \<noteq> 0"
  shows "\<exists>u. file_read f dst n (of_nat off) s = Inr (Inr n, u) \<and> changes f s u \<and> peeks u dst n = map (fbyte s f) [off..<off + n]"
proof -
  let ?e = "off + n"
  have so: "sint (of_nat off :: u32) = int off" using n(1) sint_offset [of off] by simp
  have ue: "u64_of (int off + int n) = int ?e" using u64_of_nat [OF n(1)] by simp
  have rest: "int n \<le> u64_of (sint (load32 s (f_size f) - of_nat off))"
  proof -
    have d: "sint (load32 s (f_size f) - of_nat off) = fsize s f - int off"
      using s(3) n(1) sint_diff_offset [of off "load32 s (f_size f)"] by (simp add: fsize_def)
    have "fsize s f < 2 ^ 31" using sint_less [of "load32 s (f_size f)"] by (simp add: fsize_def)
    then have "u64_of (fsize s f - int off) = fsize s f - int off"
      using s(3) unfolding u64_of_def by (intro mod_pos_pos_trivial) auto
    then show ?thesis using d s(3) by simp
  qed
  obtain r t where t: "read_loop f dst (int off) (int ?e) s = Inr (r, t)" "changes f s t"
      "\<forall>q < MAXFILESIZE. blkno s f (q div BLKSIZE) \<noteq> 0 \<longrightarrow> fbyte t f q = fbyte s f q"
      "r = Inr ()" "\<forall>q. off \<le> q \<and> q < ?e \<longrightarrow> peek t (dst + (q - off)) = fbyte t f q"
    using read_loop_spec [OF s(1,2) _ n(1), of off dst] n(2) present by auto
  have "file_read f dst n (of_nat off) s = Inr (Inr n, t)"
    using t(1,4) rest s(3,4) unfolding file_read_def Let_def so
    by (simp add: fbind_def ret_def fsize_def ue)
  moreover have "peeks t dst n = map (fbyte s f) [off..<?e]"
  proof (rule nth_equalityI)
    fix i assume "i < length (peeks t dst n)"
    then have i: "i < n" "off + i < MAXFILESIZE" using n(1) by simp_all
    then have "peek t (dst + (off + i - off)) = fbyte t f (off + i)" using t(5) [rule_format, of "off + i"] by simp
    then show "peeks t dst n ! i = map (fbyte s f) [off..<?e] ! i"
      using i t(3) present [of "off + i"] by simp
  qed simp
  ultimately show ?thesis using t(2) by blast
qed

text \<open>
  C6: Reading back what was written: on a consistent file system, for a file whose block pointers are
  consistent and any window below the maximal file size, \<open>file_write\<close> returns either the full count or
  \<^verbatim>\<open>-E_NO_DISK\<close> (and then no block is free) and never panics; after a full write, \<open>file_read\<close> of the
  same window succeeds and delivers exactly the bytes that were written.
\<close>

theorem file_write_read:
  assumes "fs_ok s" and "file_ok s f" and "0 \<le> fsize s f" and "fsize s f \<le> int MAXFILESIZE"
    and "off + n \<le> MAXFILESIZE" and "0 < n" and "buf + n \<le> DISKMAP" and "client_buf s dst n"
  shows "\<exists>r t. file_write f buf n (of_nat off) s = Inr (r, t) \<and>
    (r = Inl (- E_NO_DISK) \<and> free_set t = {} \<or>
     r = Inr n \<and> (\<exists>u. file_read f dst n (of_nat off) t = Inr (Inr n, u) \<and> peeks u dst n = peeks s buf n))"
proof -
  obtain r t where t: "file_write f buf n (of_nat off) s = Inr (r, t)" "write_frame f s t"
      "fsize t f = max (fsize s f) (int (off + n))" "\<forall>p. mapped s p \<longrightarrow> mapped t p"
      "r = Inl (- E_NO_DISK) \<and> free_set t = {} \<or> r = Inr n \<and> (\<forall>q. off \<le> q \<and> q < off + n \<longrightarrow>
         blkno t f (q div BLKSIZE) \<noteq> 0 \<and> fbyte t f q = peek s (buf + (q - off)))"
    using file_write_spec [OF assms(1-5,7)] by blast
  show ?thesis
  proof (cases "r = Inr n")
    case True
    have ok: "fs_ok t" "file_ok t f" using t(2) by (simp_all add: write_frame_def)
    have cb: "client_buf t dst n" using client_buf_mono [OF assms(8)] t(4) by blast
    have w: "blkno t f (q div BLKSIZE) \<noteq> 0" "fbyte t f q = peek s (buf + (q - off))" if "off \<le> q" "q < off + n" for q
      using t(5) True that by auto
    obtain u where "file_read f dst n (of_nat off) t = Inr (Inr n, u)" "peeks u dst n = map (fbyte t f) [off..<off + n]"
      using file_read_present [OF ok _ assms(6,5) cb w(1)] t(3) by auto
    moreover have "map (fbyte t f) [off..<off + n] = peeks s buf n"
      by (rule nth_equalityI) (simp_all add: w(2))
    ultimately show ?thesis using t(1) True by auto
  qed (use t in auto)
qed

text \<open>
  C25: Writing one file leaves every other file alone: if the block pointers of files \<open>f\<close> and \<open>g\<close> are
  consistent and their blocks and inodes do not overlap, then after \<open>file_write\<close> on \<open>f\<close>, whatever it
  returned, \<open>g\<close> is still consistent and has the same size and the same bytes.
\<close>

theorem file_write_isolated:
  assumes "fs_ok s" and "file_ok s f" and "0 \<le> fsize s f" and "fsize s f \<le> int MAXFILESIZE"
    and "off + n \<le> MAXFILESIZE" and "buf + n \<le> DISKMAP"
    and g: "file_ok s g" "used s g \<inter> used s f = {}" "fblk g \<notin> used s f" "fblk f \<notin> used s g"
      "g + 256 \<le> f \<or> f + 256 \<le> g"
  shows "\<exists>r t. file_write f buf n (of_nat off) s = Inr (r, t) \<and> fs_ok t \<and> file_ok t f \<and> file_ok t g \<and> fsize t g = fsize s g \<and>
    (\<forall>q < MAXFILESIZE. blkno t g (q div BLKSIZE) = blkno s g (q div BLKSIZE) \<and>
       (blkno s g (q div BLKSIZE) \<noteq> 0 \<longrightarrow> fbyte t g q = fbyte s g q))"
proof -
  obtain r t where t: "file_write f buf n (of_nat off) s = Inr (r, t)" "write_frame f s t"
    using file_write_spec [OF assms(1-6)] by blast
  have fr: "peek t a = peek s a" if "in_block b a" "\<not> (f \<le> a \<and> a < f + 256)" "\<not> (2 \<le> b \<and> b < 2 + nbitblocks s)" "b \<notin> used s f \<union> free_set s" for a b
  proof -
    have "DISKMAP \<le> a" using that(1) by (simp add: in_block_def)
    then show ?thesis using t(2) that in_block_unique unfolding write_frame_def by metis
  qed
  have ig: "inode_ok s g" "inode_ok s f" using g(1) assms(2) by (simp_all add: file_ok_def)
  have inode: "peek t a = peek s a" if a: "g \<le> a" "a < g + 256" for a
  proof (rule fr [of "fblk g"])
    show "in_block (fblk g) a" by (rule inode_block [OF ig(1) a])
    show "\<not> (f \<le> a \<and> a < f + 256)" using g(5) a by auto
  qed (use ig g(3) in \<open>auto simp: inode_ok_def\<close>)
  have data: "peek t a = peek s a" if b: "b \<in> used s g" "in_block b a" for a b
  proof (rule fr [OF b(2)])
    have d: "data_block s g b" using b(1) g(1) by (auto simp: used_def file_ok_def)
    show "\<not> (f \<le> a \<and> a < f + 256)" using inode_block [OF ig(2), of a] in_block_unique [OF b(2)] b(1) g(4) by blast
    show "\<not> (2 \<le> b \<and> b < 2 + nbitblocks s)" "b \<notin> used s f \<union> free_set s" using d b(1) g(2) by (auto simp: data_block_def)
  qed
  have same: "ind t g = ind s g" "j < NFILEBLKS \<Longrightarrow> blkno t g j = blkno s g j" for j
    by (rule blkno_same; use inode data in \<open>auto simp: used_def\<close>)+
  have fs: "fs_ok t" "file_ok t f" "s_nblocks t = s_nblocks s" "free_set t \<subseteq> used s f \<union> free_set s"
    using t(2) by (auto simp: write_frame_def)
  have og: "file_ok t g"
  proof -
    have "b \<notin> free_set t" if "b \<in> used s g \<union> {fblk g}" for b
    proof -
      have "b \<notin> free_set s" using that g(1) ig(1) by (auto simp: used_def file_ok_def data_block_def inode_ok_def)
      then show ?thesis using that g(2,3) fs(4) by auto
    qed
    then show ?thesis using g(1) fs(3) same unfolding file_ok_def
      by (auto simp: inode_ok_def data_block_def nbitblocks_def used_def)
  qed
  have "fsize t g = fsize s g"
    unfolding fsize_def by (rule arg_cong [where f = sint], rule load32_peek_eq, rule inode) (simp_all add: inode_window)
  moreover have "fbyte t g q = fbyte s g q" if q: "q < MAXFILESIZE" "blkno s g (q div BLKSIZE) \<noteq> 0" for q
  proof -
    have "blkno s g (q div BLKSIZE) \<in> used s g" using q filepos [OF q(1)] by (auto simp: used_def)
    then show ?thesis using data [OF _ fbyte_in_block] same(2) [OF filepos [OF q(1)]] by (simp add: fbyte_def)
  qed
  ultimately show ?thesis using t(1) fs og same(2) filepos by blast
qed


section \<open>A concrete file\<close>

lemma mini_zero: "DISKMAP + 4104 \<le> a \<Longrightarrow> a < DISKMAP + 8192 \<Longrightarrow> peek mini_fs a = 0"
  by (subst peek_mini) (auto simp: bc_consts mini_disk_def)

lemma mini_file:
  assumes "DISKMAP + 4104 \<le> f" and "f + 256 \<le> DISKMAP + 8192"
  shows "file_ok mini_fs f" "fsize mini_fs f = 0" "used mini_fs f = {}" "fblk f = 1"
proof -
  have z: "load32 mini_fs a = 0" if "f \<le> a" "a + 4 \<le> f + 256" for a
    using that assms by (simp add: load32_def mini_zero quad32_def)
  have ind: "ind mini_fs f = 0" using z [of "f_indirect f"] by (simp add: ind_def inode_window)
  have blk: "blkno mini_fs f i = 0" for i
    using ind z [of "f_direct f i"] inode_window(1) [of i f] by (auto simp: blkno_def slot_def)
  show b: "fblk f = 1" using assms unfolding fblk_def by (intro div_nat_eqI) (simp_all add: BLKSIZE_def)
  have "inode_ok mini_fs f"
    using assms b by (simp add: inode_ok_def in_block_def mini_nblocks free_mini bc_consts)
  then show "file_ok mini_fs f" using ind blk by (simp add: file_ok_def)
  show "used mini_fs f = {}" by (auto simp: used_def ind blk)
  show "fsize mini_fs f = 0" using z [of "f_size f"] by (simp add: fsize_def inode_window)
qed

lemma mini_root: "DISKMAP + 4104 \<le> s_root" "s_root + 512 \<le> DISKMAP + 8192"
  by (simp_all add: s_root_def bc_consts)

lemma mini_client: "client_buf mini_fs 0xFFFF800 5"
  by (simp add: client_buf_def mini_fs_def blank_cache_def pages_def bc_consts)

theorem file_write_read_witness:
  "\<exists>r t. file_write s_root 0xFFFF000 5 (of_nat 10) mini_fs = Inr (r, t) \<and>
    (r = Inl (- E_NO_DISK) \<and> free_set t = {} \<or>
     r = Inr 5 \<and> (\<exists>u. file_read s_root 0xFFFF800 5 (of_nat 10) t = Inr (Inr 5, u) \<and> peeks u 0xFFFF800 5 = peeks mini_fs 0xFFFF000 5))"
  by (rule file_write_read) (use mini_ok mini_file [of s_root] mini_root mini_client in \<open>simp_all add: MAXFILESIZE_eq DISKMAP_def\<close>)

theorem file_write_isolated_witness:
  "\<exists>r t. file_write s_root 0xFFFF000 5 (of_nat 10) mini_fs = Inr (r, t) \<and> fs_ok t \<and> file_ok t s_root \<and>
     file_ok t (s_root + 256) \<and> fsize t (s_root + 256) = 0"
proof -
  note f = mini_file [of s_root] and g = mini_file [of "s_root + 256"]
  show ?thesis
    using file_write_isolated [of mini_fs s_root 10 5 "0xFFFF000" "s_root + 256"] mini_ok f g mini_root
    by (auto simp: MAXFILESIZE_eq DISKMAP_def)
qed

end
