(* ===== verification/Serv.thy ===== *)
theory Serv
  imports FsFile
begin

text \<open>
  The file server (\<^verbatim>\<open>fs/serv.c\<close>): the table of open files, the request handlers and one turn of the
  main loop.

  The server's memory is that of \<open>Bcache\<close>: the request page at \<open>FSREQ\<close> lies directly below the disk map and
  the descriptor pages from \<open>FILE_BASE\<close> on lie above it, so the requests are read and answered byte by byte. \<open>refs\<close> is what
  \<^verbatim>\<open>sys_region_refs\<close> reports of a page: how many environments have it mapped; clients change it. \<open>ka\<close> is the
  result of \<^verbatim>\<open>sys_alloc_region\<close> for a page.
\<close>

section \<open>Data\<close>

definition MAXOPEN :: nat where "MAXOPEN = 512"
definition FILE_BASE :: nat where "FILE_BASE = 0x200000000"
definition FSREQ :: nat where "FSREQ = 0x0FFFF000"
definition MAXPATHLEN :: nat where "MAXPATHLEN = 1024"
definition E_MAX_OPEN :: int where "E_MAX_OPEN = 14"
definition O_ACCMODE :: u32 where "O_ACCMODE = 0x3"
definition O_CREAT :: u32 where "O_CREAT = 0x100"
definition O_TRUNC :: u32 where "O_TRUNC = 0x200"
definition O_EXCL :: u32 where "O_EXCL = 0x400"

record OpenFile =
  o_fileid :: u32
  o_file :: nat
  o_mode :: u32
  o_fd :: nat

record serv =
  fsst :: bcache
  opentab :: "OpenFile list"
  refs :: "nat \<Rightarrow> int"

text \<open>Field addresses of a \<^verbatim>\<open>struct Fd\<close>.\<close>

definition fd_dev_id :: "nat \<Rightarrow> nat" where "fd_dev_id fd = fd"
definition fd_offset :: "nat \<Rightarrow> nat" where "fd_offset fd = fd + 4"
definition fd_omode :: "nat \<Rightarrow> nat" where "fd_omode fd = fd + 8"
definition fd_file_id :: "nat \<Rightarrow> nat" where "fd_file_id fd = fd + 12"

definition load64 :: "'a bcache_scheme \<Rightarrow> nat \<Rightarrow> nat" where
  "load64 s a = unat (load32 s a) + 2 ^ 32 * unat (load32 s (a + 4))"

definition lift_fs :: "(bcache, 'a) fsop \<Rightarrow> (serv, 'a) fsop" where
  "lift_fs m s = bind_res (m (fsst s)) (\<lambda>(r, t). Inr (r, s\<lparr>fsst := t\<rparr>))"

definition put_field :: "nat \<Rightarrow> u32 \<Rightarrow> (serv, unit) fsop" where
  "put_field a w = lift_fs (act (\<lambda>t. store32 t a w))"

section \<open>Open files\<close>

definition serve_init :: "serv \<Rightarrow> serv" where
  "serve_init s = s\<lparr>opentab := map (\<lambda>i. (opentab s ! i)\<lparr>o_fileid := of_nat i, o_fd := FILE_BASE + i * BLKSIZE\<rparr>) [0..<MAXOPEN]\<rparr>"

definition fd_refs :: "serv \<Rightarrow> nat \<Rightarrow> int" where
  "fd_refs s i = refs s (o_fd (opentab s ! i) div BLKSIZE)"

definition alloc_fd_page :: "nat \<Rightarrow> serv \<Rightarrow> serv" where
  "alloc_fd_page i s = (let p = o_fd (opentab s ! i) div BLKSIZE in
     s\<lparr>fsst := (fsst s)\<lparr>mapped := (mapped (fsst s))(p := True)\<rparr>, refs := (refs s)(p := 1)\<rparr>)"

definition claim :: "nat \<Rightarrow> (serv, nat) fsop" where
  "claim i s =
     (let s = s\<lparr>opentab := (opentab s)[i := (opentab s ! i)\<lparr>o_fileid := o_fileid (opentab s ! i) + of_nat MAXOPEN\<rparr>]\<rparr>
      in fbind (lift_fs (act (\<lambda>t. poke t (o_fd (opentab s ! i)) (replicate BLKSIZE 0)))) (\<lambda>_. ret i) s)"

fun openfile_alloc_loop :: "(nat \<Rightarrow> int) \<Rightarrow> nat list \<Rightarrow> (serv, nat) fsop" where
  "openfile_alloc_loop ka [] s = err E_MAX_OPEN s"
| "openfile_alloc_loop ka (i # is) s =
     (if fd_refs s i = 0
      then let r = ka (o_fd (opentab s ! i)) in
           if r < 0 then Inr (Inl r, s) else claim i (alloc_fd_page i s)
      else if fd_refs s i = 1 then claim i s
      else openfile_alloc_loop ka is s)"

definition openfile_alloc :: "(nat \<Rightarrow> int) \<Rightarrow> (serv, nat) fsop" where
  "openfile_alloc ka = openfile_alloc_loop ka [0..<MAXOPEN]"

definition openfile_lookup :: "u32 \<Rightarrow> (serv, nat) fsop" where
  "openfile_lookup fileid s =
     (let i = unat fileid mod MAXOPEN in
      if fd_refs s i \<le> 1 \<or> o_fileid (opentab s ! i) \<noteq> fileid then err E_INVAL s else ret i s)"

section \<open>Handlers\<close>

text \<open>\<open>serve_open\<close> returns the address of the descriptor page that is shared with the client.\<close>

definition open_path :: "byte list \<Rightarrow> u32 \<Rightarrow> (serv, nat) fsop" where
  "open_path path omode =
     (if omode AND O_CREAT \<noteq> 0
      then (\<lambda>s. bind_res (lift_fs (file_create path) s) (\<lambda>(r, s). case r of
              Inl e \<Rightarrow> if omode AND O_EXCL = 0 \<and> e = - E_FILE_EXISTS then lift_fs (file_open path) s else Inr (Inl e, s)
            | Inr f \<Rightarrow> ret f s))
      else lift_fs (file_open path))"

definition serve_open :: "(nat \<Rightarrow> int) \<Rightarrow> (serv, nat) fsop" where
  "serve_open ka s =
     (let path = take (MAXPATHLEN - 1) (peeks (fsst s) FSREQ MAXPATHLEN) @ [0];
          omode = load32 (fsst s) (FSREQ + MAXPATHLEN) in
      fbind (openfile_alloc ka) (\<lambda>i.
      fbind (\<lambda>s. let id = sint (o_fileid (opentab s ! i)) in if id < 0 then Inr (Inl id, s) else ret () s) (\<lambda>_.
      fbind (open_path path omode) (\<lambda>f.
      fbind (if omode AND O_TRUNC \<noteq> 0 then lift_fs (act (file_set_size f 0)) else ret ()) (\<lambda>_.
      fbind (lift_fs (file_open path)) (\<lambda>f s.
        let fd = o_fd (opentab s ! i); id = o_fileid (opentab s ! i);
            s = s\<lparr>opentab := (opentab s)[i := (opentab s ! i)\<lparr>o_file := f, o_mode := omode\<rparr>]\<rparr> in
        fbind (put_field (fd_file_id fd) id) (\<lambda>_.
        fbind (put_field (fd_omode fd) (omode AND O_ACCMODE)) (\<lambda>_.
        fbind (put_field (fd_dev_id fd) 102) (\<lambda>_. ret fd))) s))))) s)"

definition int_ret :: "nat \<Rightarrow> int" where "int_ret n = sint (of_nat n :: u32)"

definition serve_set_size :: "(serv, int) fsop" where
  "serve_set_size s =
     fbind (openfile_lookup (load32 (fsst s) FSREQ)) (\<lambda>i s.
     fbind (lift_fs (act (file_set_size (o_file (opentab s ! i)) (load32 (fsst s) (FSREQ + 4))))) (\<lambda>_. ret 0) s) s"

definition advance :: "nat \<Rightarrow> nat \<Rightarrow> (serv, int) fsop" where
  "advance i n s = (let a = fd_offset (o_fd (opentab s ! i)) in
     fbind (put_field a (load32 (fsst s) a + of_nat n)) (\<lambda>_. ret (int_ret n)) s)"

definition serve_read :: "(serv, int) fsop" where
  "serve_read s =
     fbind (openfile_lookup (load32 (fsst s) FSREQ)) (\<lambda>i s.
     fbind (lift_fs (file_read (o_file (opentab s ! i)) FSREQ (load64 (fsst s) (FSREQ + 8))
              (load32 (fsst s) (fd_offset (o_fd (opentab s ! i)))))) (\<lambda>n. advance i n) s) s"

definition serve_write :: "(serv, int) fsop" where
  "serve_write s =
     fbind (openfile_lookup (load32 (fsst s) FSREQ)) (\<lambda>i s.
     fbind (lift_fs (file_write (o_file (opentab s ! i)) (FSREQ + 16) (load64 (fsst s) (FSREQ + 8))
              (load32 (fsst s) (fd_offset (o_fd (opentab s ! i)))))) (\<lambda>n. advance i n) s) s"

text \<open>The name is copied by \<^verbatim>\<open>strcpy\<close>, up to its terminator inside \<^verbatim>\<open>f_name\<close>.\<close>

definition serve_stat :: "(serv, int) fsop" where
  "serve_stat s =
     fbind (openfile_lookup (load32 (fsst s) FSREQ)) (\<lambda>i s.
     let f = o_file (opentab s ! i); name = peeks (fsst s) f MAXNAMELEN in
     bind_res (strlen name) (\<lambda>n.
     fbind (lift_fs (act (\<lambda>t. poke t FSREQ (take (Suc n) name)))) (\<lambda>_ s.
     fbind (put_field (FSREQ + MAXNAMELEN) (load32 (fsst s) (f_size f))) (\<lambda>_ s.
     fbind (put_field (FSREQ + MAXNAMELEN + 4) (if load32 (fsst s) (f_type f) = FTYPE_DIR then 1 else 0)) (\<lambda>_. ret 0) s) s) s)) s"

definition serve_flush :: "(serv, int) fsop" where
  "serve_flush s =
     fbind (openfile_lookup (load32 (fsst s) FSREQ)) (\<lambda>i s.
     fbind (lift_fs (act (file_flush (o_file (opentab s ! i))))) (\<lambda>_. ret 0) s) s"

definition serve_sync :: "(serv, int) fsop" where
  "serve_sync = fbind (lift_fs (act fs_sync)) (\<lambda>_. ret 0)"

definition handlers :: "u32 \<Rightarrow> (serv, int) fsop option" where
  "handlers req =
     (if req = 3 then Some serve_read
      else if req = 5 then Some serve_stat
      else if req = 6 then Some serve_flush
      else if req = 4 then Some serve_write
      else if req = 2 then Some serve_set_size
      else if req = 8 then Some serve_sync
      else None)"

section \<open>The main loop\<close>

definition serv_print :: "string \<Rightarrow> varg list \<Rightarrow> serv \<Rightarrow> serv res" where
  "serv_print fmt ap s = bind_res (printfmt (bytes_of fmt @ [0]) ap) (\<lambda>out. Inr (s\<lparr>fsst := cprintf out (fsst s)\<rparr>))"

definition reply_code :: "((int + int) \<times> serv) res \<Rightarrow> (int \<times> serv) res" where
  "reply_code m = bind_res m (\<lambda>(r, s). Inr (case r of Inl e \<Rightarrow> e | Inr x \<Rightarrow> x, s))"

definition unmap_request :: "serv \<Rightarrow> serv" where
  "unmap_request s = s\<lparr>fsst := bc_unmap (fsst s) FSREQ\<rparr>"

text \<open>
  One turn of \<open>serve\<close> after a request \<open>req\<close> from \<open>whom\<close> has arrived with permission \<open>perm\<close>: the reply that is sent back (value,
  page, permission), or \<open>None\<close> when there is no argument page and the client is left waiting.
\<close>

definition serve_turn :: "(nat \<Rightarrow> int) \<Rightarrow> u32 \<Rightarrow> u32 \<Rightarrow> u32 \<Rightarrow> serv \<Rightarrow> ((int \<times> nat option \<times> u32) option \<times> serv) res" where
  "serve_turn ka req whom perm s =
     (if perm AND 4 = 0
      then bind_res (serv_print ''Invalid request from %08x: no argument page\<newline>'' [VInt (ucast whom)] s) (\<lambda>s. Inr (None, s))
      else if req = 1
      then bind_res (serve_open ka s) (\<lambda>(r, s). Inr (Some (case r of Inl e \<Rightarrow> (e, None, perm) | Inr fd \<Rightarrow> (0, Some fd, 0x46)),
             unmap_request s))
      else bind_res (case handlers req of
             Some h \<Rightarrow> reply_code (h s)
           | None \<Rightarrow> bind_res (serv_print ''Invalid request code %d from %08x\<newline>'' [VInt (ucast req), VInt (ucast whom)] s)
                       (\<lambda>s. Inr (- E_INVAL, s))) (\<lambda>(r, s). Inr (Some (r, None, perm), unmap_request s)))"

text \<open>\<^verbatim>\<open>ipc_recv\<close> maps the client's page at \<open>FSREQ\<close>; the client sees what the server leaves there.\<close>

definition recv_page :: "byte list \<Rightarrow> serv \<Rightarrow> serv" where
  "recv_page page s = s\<lparr>fsst := stored ((fsst s)\<lparr>mapped := (mapped (fsst s))(FSREQ div BLKSIZE := True)\<rparr>) FSREQ page\<rparr>"

section \<open>Memory outside the disk map\<close>

text \<open>The file system depends only on the bytes of the disk map.\<close>

definition same_disk :: "'a bcache_scheme \<Rightarrow> 'a bcache_scheme \<Rightarrow> bool" where
  "same_disk s t \<longleftrightarrow> (\<forall>a. in_diskmap a \<longrightarrow> peek t a = peek s a) \<and> super_set t = super_set s \<and> bc_ok t"

lemma same_disk_trans: "same_disk s t \<Longrightarrow> same_disk t u \<Longrightarrow> same_disk s u"
  by (simp add: same_disk_def)

lemma block_in_diskmap: "fs_ok s \<Longrightarrow> b < s_nblocks s \<Longrightarrow> in_block b a \<Longrightarrow> in_diskmap a"
proof -
  assume a: "fs_ok s" "b < s_nblocks s" "in_block b a"
  have "s_nblocks s \<le> DISKSIZE div BLKSIZE" using a(1) by (simp add: fs_ok_def)
  then have "Suc b * BLKSIZE \<le> DISKSIZE" using a(2) by (simp add: bc_consts)
  then show ?thesis using a(3) by (auto simp: in_block_def in_diskmap_def)
qed

lemma same_disk_fs:
  assumes "fs_ok s" "same_disk s t"
  shows "fs_ok t" "s_nblocks t = s_nblocks s" "free_set t = free_set s"
proof -
  have k: "2 + nbitblocks s \<le> s_nblocks s" using assms(1) by (simp add: fs_ok_def)
  have "in_diskmap a" if "sys_area s a" for a
    using that k block_in_diskmap [OF assms(1), of 1 a] block_in_diskmap [OF assms(1), of _ a]
    by (auto simp: sys_area_def in_block_def BLKSIZE_def)
  then have p: "peek t a = peek s a" if "sys_area s a" for a using that assms(2) by (simp add: same_disk_def)
  show n: "s_nblocks t = s_nblocks s" and f: "free_set t = free_set s"
    using assms(2) by (intro sys_area_same p; simp add: same_disk_def)+
  show "fs_ok t" using assms(1)
    by (rule fs_okI) (use assms n f in \<open>simp_all add: fs_ok_def same_disk_def\<close>)
qed

lemma same_disk_file:
  assumes "fs_ok s" "file_ok s f" "same_disk s t"
  shows "file_ok t f" "fsize t f = fsize s f" "i < NFILEBLKS \<Longrightarrow> blkno t f i = blkno s f i"
    "q < MAXFILESIZE \<Longrightarrow> blkno s f (q div BLKSIZE) \<noteq> 0 \<Longrightarrow> fbyte t f q = fbyte s f q"
proof -
  note fs = same_disk_fs [OF assms(1,3)]
  have inode: "peek t a = peek s a" if "f \<le> a" "a < f + 256" for a
  proof -
    have io: "inode_ok s f" using assms(2) by (simp add: file_ok_def)
    then have "in_diskmap a"
      by (intro block_in_diskmap [OF assms(1) _ inode_block [OF io that]]) (simp add: inode_ok_def)
    then show ?thesis using assms(3) by (simp add: same_disk_def)
  qed
  have blk: "peek t a = peek s a" if "b < s_nblocks s" "in_block b a" for a b
    using block_in_diskmap [OF assms(1) that] assms(3) by (simp add: same_disk_def)
  have same: "ind t f = ind s f" "i < NFILEBLKS \<Longrightarrow> blkno t f i = blkno s f i" for i
    by (rule blkno_same; use inode blk assms(2) in \<open>auto simp: file_ok_def data_block_def\<close>)+
  show "i < NFILEBLKS \<Longrightarrow> blkno t f i = blkno s f i" by (rule same)
  show "file_ok t f" by (rule file_ok_same [OF assms(2)]) (simp_all add: fs same)
  show "fsize t f = fsize s f" unfolding fsize_def
    by (intro arg_cong [where f = sint] load32_peek_eq inode) (simp_all add: inode_window)
  assume q: "q < MAXFILESIZE" "blkno s f (q div BLKSIZE) \<noteq> 0"
  then have "data_block s f (blkno s f (q div BLKSIZE))" using assms(2) filepos [OF q(1)] by (simp add: file_ok_def)
  then show "fbyte t f q = fbyte s f q"
    unfolding fbyte_def same(2) [OF filepos [OF q(1)]] by (intro blk [OF _ fbyte_in_block]) (simp add: data_block_def)
qed

lemma same_disk_stored:
  assumes "bc_ok s" "\<And>i. i < length bs \<Longrightarrow> \<not> in_diskmap (a + i)"
  shows "same_disk s (stored s a bs)"
  using assms by (auto simp: same_disk_def bc_ok_stored intro!: peek_stored_other)

lemma same_disk_map:
  assumes "bc_ok s" "\<And>a. in_diskmap a \<Longrightarrow> a div BLKSIZE \<noteq> p"
  shows "same_disk s (s\<lparr>mapped := (mapped s)(p := True)\<rparr>)" "same_disk s (s\<lparr>mapped := (mapped s)(p := False), dirty := (dirty s)(p := False)\<rparr>)"
  using assms by (auto simp: same_disk_def peek_def bc_ok_def)

lemma page_apart: "in_diskmap a \<Longrightarrow> a div BLKSIZE \<noteq> FSREQ div BLKSIZE"
  "in_diskmap a \<Longrightarrow> a div BLKSIZE \<noteq> (FILE_BASE + i * BLKSIZE) div BLKSIZE"
proof -
  assume a: "in_diskmap a"
  have "65536 \<le> a div 4096" "a div 4096 < 851968" using a by (auto simp: in_diskmap_def bc_consts less_eq_div_iff_mult_less_eq div_less_iff_less_mult)
  moreover have "(FILE_BASE + i * BLKSIZE) div BLKSIZE = 2097152 + i" by (simp add: FILE_BASE_def BLKSIZE_def)
  ultimately show "a div BLKSIZE \<noteq> FSREQ div BLKSIZE" "a div BLKSIZE \<noteq> (FILE_BASE + i * BLKSIZE) div BLKSIZE"
    by (simp_all add: FSREQ_def BLKSIZE_def)
qed

lemma same_disk_unmap: "bc_ok s \<Longrightarrow> same_disk s (bc_unmap s FSREQ)"
  unfolding bc_unmap_def by (rule same_disk_map(2)) (simp_all add: page_apart)

text \<open>A request page, as the client fills it.\<close>

lemma same_disk_recv:
  assumes "bc_ok (fsst s)" "length page = BLKSIZE"
  shows "same_disk (fsst s) (fsst (recv_page page s))"
proof -
  have m: "same_disk (fsst s) ((fsst s)\<lparr>mapped := (mapped (fsst s))(FSREQ div BLKSIZE := True)\<rparr>)"
    by (rule same_disk_map(1) [OF assms(1)]) (simp add: page_apart)
  then show ?thesis unfolding recv_page_def
    by (simp, elim same_disk_trans, intro same_disk_stored)
      (use assms(2) in \<open>auto simp: same_disk_def in_diskmap_def FSREQ_def bc_consts\<close>)
qed

lemma recv_page_simps:
  assumes "length page = BLKSIZE"
  shows "opentab (recv_page page s) = opentab s" "refs (recv_page page s) = refs s"
    "k < BLKSIZE \<Longrightarrow> peek (fsst (recv_page page s)) (FSREQ + k) = page ! k"
    "DISKMAP \<le> a \<Longrightarrow> \<not> in_diskmap a \<Longrightarrow> peek (fsst (recv_page page s)) a = peek (fsst s) a"
    "mapped (fsst (recv_page page s)) (FSREQ div BLKSIZE)"
    "mapped (fsst s) p \<Longrightarrow> mapped (fsst (recv_page page s)) p"
  using assms by (auto simp: recv_page_def peek_stored mapped_stored FSREQ_def DISKMAP_def BLKSIZE_def)
    (auto simp: peek_def)

section \<open>Reading and writing through the server\<close>

text \<open>Slot \<open>i\<close> is open for the file at \<open>f\<close>: its descriptor page is shared with a client.\<close>

definition open_slot :: "serv \<Rightarrow> nat \<Rightarrow> nat \<Rightarrow> bool" where
  "open_slot s i f \<longleftrightarrow> i < MAXOPEN \<and> o_fd (opentab s ! i) = FILE_BASE + i * BLKSIZE \<and> o_file (opentab s ! i) = f \<and>
     unat (o_fileid (opentab s ! i)) mod MAXOPEN = i \<and> 1 < fd_refs s i \<and>
     mapped (fsst s) (o_fd (opentab s ! i) div BLKSIZE)"

definition serv_ok :: "serv \<Rightarrow> nat \<Rightarrow> bool" where
  "serv_ok s f \<longleftrightarrow> fs_ok (fsst s) \<and> file_ok (fsst s) f \<and> 0 \<le> fsize (fsst s) f \<and> fsize (fsst s) f \<le> int MAXFILESIZE"

definition seek_pos :: "serv \<Rightarrow> nat \<Rightarrow> u32" where
  "seek_pos s i = load32 (fsst s) (fd_offset (o_fd (opentab s ! i)))"

lemma lookup_open_slot:
  assumes "open_slot s i f"
  shows "openfile_lookup (o_fileid (opentab s ! i)) s = ret i s"
  using assms by (simp add: openfile_lookup_def open_slot_def Let_def)

lemma open_slot_fsst:
  "open_slot s i f \<Longrightarrow> (\<And>p. mapped (fsst s) p \<Longrightarrow> mapped t p) \<Longrightarrow> open_slot (s\<lparr>fsst := t\<rparr>) i f"
  by (auto simp: open_slot_def fd_refs_def)

lemma fd_high:
  assumes "open_slot s i f" "k < BLKSIZE"
  shows "\<not> in_diskmap (o_fd (opentab s ! i) + k)" "DISKMAP \<le> o_fd (opentab s ! i) + k"
    "o_fd (opentab s ! i) div BLKSIZE = (o_fd (opentab s ! i) + k) div BLKSIZE"
  using assms by (auto simp: open_slot_def in_diskmap_def FILE_BASE_def bc_consts)

lemma put_fd_offset:
  assumes "open_slot s i f" "bc_ok (fsst s)"
  shows "put_field (fd_offset (o_fd (opentab s ! i))) w s =
      Inr (Inr (), s\<lparr>fsst := stored (fsst s) (fd_offset (o_fd (opentab s ! i))) (put32 w)\<rparr>)"
    "same_disk (fsst s) (stored (fsst s) (fd_offset (o_fd (opentab s ! i))) (put32 w))"
proof -
  let ?a = "fd_offset (o_fd (opentab s ! i))"
  have l: "length (put32 w) = 4" by (simp add: put32_def)
  have "?a mod BLKSIZE = 4" using assms(1) by (simp add: open_slot_def fd_offset_def FILE_BASE_def BLKSIZE_def)
  moreover have "mapped (fsst s) (o_fd (opentab s ! i) div BLKSIZE)" using assms(1) unfolding open_slot_def by blast
  then have "page_ok (fsst s) (?a div BLKSIZE)"
    using fd_high(3) [OF assms(1), of 4] by (simp add: page_ok_def fd_offset_def BLKSIZE_def)
  ultimately have "accessible (fsst s) ?a 4" by (intro accessible_within) (simp_all add: BLKSIZE_def)
  then show "put_field ?a w s = Inr (Inr (), s\<lparr>fsst := stored (fsst s) ?a (put32 w)\<rparr>)"
    by (simp add: put_field_def lift_fs_def act_def store32_def poke_def l)
  show "same_disk (fsst s) (stored (fsst s) ?a (put32 w))"
    using fd_high(1) [OF assms(1)] by (intro same_disk_stored [OF assms(2)]) (simp add: l fd_offset_def add.assoc BLKSIZE_def)
qed

lemma advance_ok:
  assumes "open_slot s i f" "bc_ok (fsst s)" "n < 2 ^ 31"
  shows "advance i n s = Inr (Inr (int n), s\<lparr>fsst := stored (fsst s) (fd_offset (o_fd (opentab s ! i)))
     (put32 (seek_pos s i + of_nat n))\<rparr>)"
proof -
  have "sint (of_nat n :: u32) = int n" using assms(3) by (simp add: signed_of_nat signed_take_bit_int_eq_self)
  then show ?thesis using put_fd_offset(1) [OF assms(1,2)]
    by (simp add: advance_def fbind_def ret_def seek_pos_def int_ret_def Let_def)
qed

lemma write_frame_high:
  assumes "write_frame f s t" "fs_ok s" "file_ok s f" "DISKMAP \<le> a" "\<not> in_diskmap a"
  shows "peek t a = peek s a"
proof -
  have k: "2 + nbitblocks s \<le> s_nblocks s" using assms(2) by (simp add: fs_ok_def)
  have io: "inode_ok s f" using assms(3) by (simp add: file_ok_def)
  have "\<not> (f \<le> a \<and> a < f + 256)"
    using inode_block [OF io] block_in_diskmap [OF assms(2), of "fblk f" a] io assms(5) by (auto simp: inode_ok_def)
  moreover have "\<not> in_block b a" if "2 \<le> b \<and> b < 2 + nbitblocks s \<or> b \<in> used s f \<union> free_set s" for b
  proof -
    have "b < s_nblocks s" using that k assms(3)
      by (auto simp: used_def file_ok_def data_block_def free_set_def block_is_free_def split: if_splits)
    then show ?thesis using block_in_diskmap [OF assms(2)] assms(5) by blast
  qed
  ultimately show ?thesis using assms(1,4) unfolding write_frame_def by blast
qed

lemma changes_frame:
  assumes "changes f s t"
  shows "write_frame f s t"
proof -
  have "peek t a = peek s a \<or> f \<le> a \<and> a < f + 256 \<or>
      (\<exists>b. in_block b a \<and> (2 \<le> b \<and> b < 2 + nbitblocks s \<or> b \<in> used s f \<union> free_set s))" if "DISKMAP \<le> a" for a
  proof -
    have "peek t a = peek s a \<or> f + 136 \<le> a \<and> a < f + 180 \<or>
        (\<exists>b. in_block b a \<and> (2 \<le> b \<and> b < 2 + nbitblocks s \<or> b \<in> used s f \<union> free_set s))"
      using assms that unfolding changes_def by blast
    then show ?thesis by (elim disjE) simp_all
  qed
  then show ?thesis using assms unfolding changes_def write_frame_def by blast
qed

lemma serv_write_ok:
  assumes "serv_ok s f" "open_slot s i f" "load32 (fsst s) FSREQ = o_fileid (opentab s ! i)" "load64 (fsst s) (FSREQ + 8) = n"
    and "seek_pos s i = of_nat off" "n \<le> 4080" "off + n \<le> MAXFILESIZE"
  obtains (full) s' where "serve_write s = Inr (Inl (- E_NO_DISK), s')" "free_set (fsst s') = {}" "fs_ok (fsst s')"
  | (all) s' where "serve_write s = Inr (Inr (int n), s')" "serv_ok s' f" "open_slot s' i f" "opentab s' = opentab s"
      "\<And>q. off \<le> q \<Longrightarrow> q < off + n \<Longrightarrow> blkno (fsst s') f (q div BLKSIZE) \<noteq> 0 \<and>
         fbyte (fsst s') f q = peek (fsst s) (FSREQ + 16 + (q - off))"
      "int (off + n) \<le> fsize (fsst s') f" "seek_pos s' i = of_nat (off + n)"
      "\<And>a. DISKMAP \<le> a \<Longrightarrow> \<not> in_diskmap a \<Longrightarrow> \<not> (fd_offset (o_fd (opentab s ! i)) \<le> a \<and> a < fd_offset (o_fd (opentab s ! i)) + 4) \<Longrightarrow>
         peek (fsst s') a = peek (fsst s) a"
proof -
  have fs: "fs_ok (fsst s)" "file_ok (fsst s) f" "0 \<le> fsize (fsst s) f" "fsize (fsst s) f \<le> int MAXFILESIZE"
    using assms(1) by (simp_all add: serv_ok_def)
  have b: "FSREQ + 16 + n \<le> DISKMAP" using assms(6) by (simp add: FSREQ_def DISKMAP_def)
  obtain r t where t: "file_write f (FSREQ + 16) n (of_nat off) (fsst s) = Inr (r, t)" "write_frame f (fsst s) t"
      "fsize t f = max (fsize (fsst s) f) (int (off + n))" "\<forall>p. mapped (fsst s) p \<longrightarrow> mapped t p"
      "r = Inl (- E_NO_DISK) \<and> free_set t = {} \<or> r = Inr n \<and> (\<forall>q. off \<le> q \<and> q < off + n \<longrightarrow>
         blkno t f (q div BLKSIZE) \<noteq> 0 \<and> fbyte t f q = peek (fsst s) (FSREQ + 16 + (q - off)))"
    using file_write_spec [OF fs assms(7) b] by blast
  have tok: "fs_ok t" "file_ok t f" using t(2) by (simp_all add: write_frame_def)
  let ?s = "s\<lparr>fsst := t\<rparr>"
  have o: "open_slot ?s i f" using open_slot_fsst [OF assms(2)] t(4) by blast
  have off: "seek_pos ?s i = of_nat off"
  proof -
    have "load32 t (fd_offset (o_fd (opentab s ! i))) = load32 (fsst s) (fd_offset (o_fd (opentab s ! i)))"
      using fd_high(1,2) [OF assms(2)]
      by (intro load32_peek_eq write_frame_high [OF t(2) fs(1,2)]) (simp_all add: fd_offset_def add.assoc BLKSIZE_def)
    then show ?thesis using assms(5) by (simp add: seek_pos_def)
  qed
  have lift: "serve_write s = (case r of Inl e \<Rightarrow> Inr (Inl e, ?s) | Inr m \<Rightarrow> advance i m ?s)"
    using lookup_open_slot [OF assms(2)] assms(3,4,5) t(1) assms(2)
    by (simp add: serve_write_def fbind_def ret_def lift_fs_def open_slot_def seek_pos_def split: sum.split)
  show ?thesis
  proof (cases "r = Inr n")
    case False
    then show ?thesis using t(5) lift full [of ?s] tok(1) by auto
  next
    case True
    let ?u = "stored t (fd_offset (o_fd (opentab s ! i))) (put32 (of_nat off + of_nat n))"
    have bc: "bc_ok t" using tok(1) by (simp add: fs_ok_def)
    have n31: "n < 2 ^ 31" using assms(6) by simp
    have adv: "serve_write s = Inr (Inr (int n), s\<lparr>fsst := ?u\<rparr>)"
      using advance_ok [OF o _ n31] bc lift True off by simp
    have sd: "same_disk t ?u" using put_fd_offset(2) [OF o] bc by simp
    note same = same_disk_fs [OF tok(1) sd] and fl = same_disk_file [OF tok sd]
    have len: "int (off + n) \<le> int MAXFILESIZE" using assms(7) by simp
    have s1: "serv_ok (s\<lparr>fsst := ?u\<rparr>) f" using same(1) fl(1,2) t(3) fs(3,4) len by (simp add: serv_ok_def)
    have s2: "open_slot (s\<lparr>fsst := ?u\<rparr>) i f" using open_slot_fsst [OF o, of ?u] by (simp add: mapped_stored)
    have s3: "blkno ?u f (q div BLKSIZE) \<noteq> 0 \<and> fbyte ?u f q = peek (fsst s) (FSREQ + 16 + (q - off))" if "off \<le> q" "q < off + n" for q
    proof -
      have q: "q < MAXFILESIZE" using that(2) assms(7) by simp
      have "blkno t f (q div BLKSIZE) \<noteq> 0" "fbyte t f q = peek (fsst s) (FSREQ + 16 + (q - off))"
        using t(5) True that by auto
      then show ?thesis using fl(3) [OF filepos [OF q]] fl(4) [OF q] by simp
    qed
    have s4: "peek ?u a = peek (fsst s) a"
      if "DISKMAP \<le> a" "\<not> in_diskmap a" "\<not> (fd_offset (o_fd (opentab s ! i)) \<le> a \<and> a < fd_offset (o_fd (opentab s ! i)) + 4)" for a
      using that write_frame_high [OF t(2) fs(1,2) that(1,2)] by (auto simp: peek_stored put32_def)
    show ?thesis
      by (rule all [OF adv s1 s2 _ _ _ _]) (use s3 s4 fl(2) t(3) in \<open>simp_all add: seek_pos_def load32_stored\<close>)
  qed
qed

lemma serv_read_ok:
  assumes "serv_ok s f" "open_slot s i f" "load32 (fsst s) FSREQ = o_fileid (opentab s ! i)" "load64 (fsst s) (FSREQ + 8) = n"
    and "seek_pos s i = of_nat off" "0 < n" "n \<le> BLKSIZE" "off + n \<le> MAXFILESIZE" "int (off + n) \<le> fsize (fsst s) f"
    and "mapped (fsst s) (FSREQ div BLKSIZE)" "\<And>q. off \<le> q \<Longrightarrow> q < off + n \<Longrightarrow> blkno (fsst s) f (q div BLKSIZE) \<noteq> 0"
  shows "\<exists>s'. serve_read s = Inr (Inr (int n), s') \<and> peeks (fsst s') FSREQ n = map (fbyte (fsst s) f) [off..<off + n]"
proof -
  have fs: "fs_ok (fsst s)" "file_ok (fsst s) f" using assms(1) by (simp_all add: serv_ok_def)
  have "pages FSREQ n = [FSREQ div BLKSIZE]" using assms(6,7) by (intro pages_within) (simp_all add: FSREQ_def BLKSIZE_def)
  then have cb: "client_buf (fsst s) FSREQ n"
    using assms(7,10) by (simp add: client_buf_def FSREQ_def DISKMAP_def BLKSIZE_def)
  obtain u where u: "file_read f FSREQ n (of_nat off) (fsst s) = Inr (Inr n, u)" "changes f (fsst s) u"
      "peeks u FSREQ n = map (fbyte (fsst s) f) [off..<off + n]"
    using file_read_present [OF fs assms(9,6,8) cb assms(11)] by blast
  let ?s = "s\<lparr>fsst := u\<rparr>"
  have mapped: "mapped u p" if "mapped (fsst s) p" for p using u(2) that by (simp add: changes_def)
  have o: "open_slot ?s i f" using open_slot_fsst [OF assms(2) mapped] .
  have bc: "bc_ok u" using u(2) by (simp add: changes_def fs_ok_def)
  have n31: "n < 2 ^ 31" using assms(7) by (simp add: BLKSIZE_def)
  have "serve_read s = advance i n ?s"
    using lookup_open_slot [OF assms(2)] assms(2-5) u(1)
    by (simp add: serve_read_def fbind_def ret_def lift_fs_def open_slot_def seek_pos_def)
  moreover have "peeks (stored u (fd_offset (o_fd (opentab s ! i))) (put32 w)) FSREQ n = peeks u FSREQ n" for w
    using assms(2,7) by (intro peeks_stored_apart) (simp add: open_slot_def fd_offset_def FILE_BASE_def FSREQ_def BLKSIZE_def)
  ultimately show ?thesis using advance_ok [OF o _ n31] bc u(3) by auto
qed

text \<open>The pages a client sends for a write and a read (\<^verbatim>\<open>lib/file.c\<close>), and its \<^verbatim>\<open>seek\<close> on the shared descriptor page (\<^verbatim>\<open>lib/fd.c\<close>).\<close>

definition write_req :: "u32 \<Rightarrow> byte list \<Rightarrow> byte list" where
  "write_req fid data = put32 fid @ replicate 4 0 @ put32 (of_nat (length data)) @ put32 0 @ data @ replicate (4080 - length data) 0"

definition read_req :: "u32 \<Rightarrow> nat \<Rightarrow> byte list" where
  "read_req fid n = put32 fid @ replicate 4 0 @ put32 (of_nat n) @ put32 0 @ replicate 4080 0"

definition client_seek :: "nat \<Rightarrow> u32 \<Rightarrow> serv \<Rightarrow> serv" where
  "client_seek i pos s = s\<lparr>fsst := stored (fsst s) (fd_offset (o_fd (opentab s ! i))) (put32 pos)\<rparr>"

lemma load32_page:
  assumes "length (pre @ put32 w @ post) = BLKSIZE"
  shows "load32 (fsst (recv_page (pre @ put32 w @ post) s)) (FSREQ + length pre) = w"
proof -
  let ?page = "pre @ put32 w @ post"
  have len: "length (put32 w) = 4" by (simp add: put32_def)
  have l: "length pre + 4 \<le> BLKSIZE" using assms len by simp
  have p: "peek (fsst (recv_page ?page s)) (FSREQ + length pre + k) = put32 w ! k" if "k < 4" for k
    using recv_page_simps(3) [OF assms, of "length pre + k" s] l that len by (simp add: nth_append add.assoc)
  have "load32 (fsst (recv_page ?page s)) (FSREQ + length pre) = quad32 (put32 w ! 0) (put32 w ! 1) (put32 w ! 2) (put32 w ! 3)"
    unfolding load32_def using p [of 0] p [of 1] p [of 2] p [of 3] by simp
  then show ?thesis by (simp add: put32_def)
qed

lemma req_fields:
  assumes "n < 2 ^ 32" "length body = 4080" and page_def: "page = put32 fid @ replicate 4 0 @ put32 (of_nat n) @ put32 0 @ body"
  shows "length page = BLKSIZE" "load32 (fsst (recv_page page s)) FSREQ = fid" "load64 (fsst (recv_page page s)) (FSREQ + 8) = n"
    "k < 4080 \<Longrightarrow> peek (fsst (recv_page page s)) (FSREQ + 16 + k) = body ! k"
proof -
  show len: "length page = BLKSIZE" using assms(2) by (simp add: page_def put32_def BLKSIZE_def)
  show "load32 (fsst (recv_page page s)) FSREQ = fid"
    using load32_page [of "[]" fid "replicate 4 0 @ put32 (of_nat n) @ put32 0 @ body" s] len by (simp add: page_def)
  have lo: "load32 (fsst (recv_page page s)) (FSREQ + 8) = of_nat n"
    using load32_page [of "put32 fid @ replicate 4 0" "of_nat n" "put32 0 @ body" s] len by (simp add: page_def put32_def)
  have hi: "load32 (fsst (recv_page page s)) (FSREQ + 12) = 0"
    using load32_page [of "put32 fid @ replicate 4 0 @ put32 (of_nat n)" 0 body s] len by (simp add: page_def put32_def)
  show "load64 (fsst (recv_page page s)) (FSREQ + 8) = n"
    using lo hi assms(1) by (simp add: load64_def unat_of_nat add.commute [of _ FSREQ])
  show "peek (fsst (recv_page page s)) (FSREQ + 16 + k) = body ! k" if "k < 4080"
    using recv_page_simps(3) [OF len, of "16 + k" s] that by (simp add: page_def put32_def nth_append BLKSIZE_def add.assoc)
qed

lemma recv_keeps:
  assumes "serv_ok s f" "open_slot s i f" "length page = BLKSIZE"
  shows "serv_ok (recv_page page s) f" "open_slot (recv_page page s) i f" "seek_pos (recv_page page s) i = seek_pos s i"
    "same_disk (fsst s) (fsst (recv_page page s))"
proof -
  have fs: "fs_ok (fsst s)" "file_ok (fsst s) f" using assms(1) by (simp_all add: serv_ok_def)
  show d: "same_disk (fsst s) (fsst (recv_page page s))" using fs by (intro same_disk_recv assms(3)) (simp add: fs_ok_def)
  show "serv_ok (recv_page page s) f"
    using assms(1) same_disk_fs [OF fs(1) d] same_disk_file [OF fs d] by (simp add: serv_ok_def)
  have "open_slot (s\<lparr>fsst := fsst (recv_page page s)\<rparr>) i f"
    using open_slot_fsst [OF assms(2)] recv_page_simps(6) [OF assms(3)] by blast
  then show "open_slot (recv_page page s) i f" by (simp add: recv_page_def)
  have "load32 (fsst (recv_page page s)) (fd_offset (o_fd (opentab s ! i))) = load32 (fsst s) (fd_offset (o_fd (opentab s ! i)))"
    using fd_high(1,2) [OF assms(2)]
    by (intro load32_peek_eq recv_page_simps(4) [OF assms(3)]) (simp_all add: fd_offset_def add.assoc BLKSIZE_def)
  then show "seek_pos (recv_page page s) i = seek_pos s i" by (simp add: seek_pos_def recv_page_simps(1) [OF assms(3)])
qed

lemma turn_write:
  "perm AND 4 \<noteq> 0 \<Longrightarrow> serve_turn ka 4 whom perm s =
     bind_res (serve_write s) (\<lambda>(r, s). Inr (Some (case r of Inl e \<Rightarrow> e | Inr x \<Rightarrow> x, None, perm), unmap_request s))"
  by (simp add: serve_turn_def handlers_def reply_code_def bind_res_assoc case_prod_beta cong: bind_res_cong)

lemma turn_read:
  "perm AND 4 \<noteq> 0 \<Longrightarrow> serve_turn ka 3 whom perm s =
     bind_res (serve_read s) (\<lambda>(r, s). Inr (Some (case r of Inl e \<Rightarrow> e | Inr x \<Rightarrow> x, None, perm), unmap_request s))"
  by (simp add: serve_turn_def handlers_def reply_code_def bind_res_assoc case_prod_beta cong: bind_res_cong)

lemma unmap_keeps:
  assumes "serv_ok s f" "open_slot s i f"
  shows "serv_ok (unmap_request s) f" "open_slot (unmap_request s) i f" "opentab (unmap_request s) = opentab s"
    "same_disk (fsst s) (fsst (unmap_request s))"
proof -
  have fs: "fs_ok (fsst s)" "file_ok (fsst s) f" using assms(1) by (simp_all add: serv_ok_def)
  have d: "same_disk (fsst s) (bc_unmap (fsst s) FSREQ)" using fs by (intro same_disk_unmap) (simp add: fs_ok_def)
  then show "same_disk (fsst s) (fsst (unmap_request s))" by (simp add: unmap_request_def)
  show "serv_ok (unmap_request s) f"
    using assms(1) same_disk_fs [OF fs(1) d] same_disk_file [OF fs d] by (simp add: serv_ok_def unmap_request_def)
  show "opentab (unmap_request s) = opentab s" by (simp add: unmap_request_def)
  have "o_fd (opentab s ! i) div BLKSIZE \<noteq> FSREQ div BLKSIZE"
    using assms(2) by (auto simp: open_slot_def FILE_BASE_def FSREQ_def BLKSIZE_def)
  then show "open_slot (unmap_request s) i f"
    using assms(2) by (auto simp: open_slot_def unmap_request_def bc_unmap_def fd_refs_def)
qed

lemma peeks_unmap_request: "n \<le> 4080 \<Longrightarrow> peeks (fsst (unmap_request s)) FSREQ n = peeks (fsst s) FSREQ n"
  by (simp add: unmap_request_def peeks_def peek_def bc_unmap_def in_diskmap_def FSREQ_def bc_consts)

lemma client_seek_keeps:
  assumes "serv_ok s f" "open_slot s i f"
  shows "serv_ok (client_seek i pos s) f" "open_slot (client_seek i pos s) i f" "seek_pos (client_seek i pos s) i = pos"
    "opentab (client_seek i pos s) = opentab s" "same_disk (fsst s) (fsst (client_seek i pos s))"
proof -
  have fs: "fs_ok (fsst s)" "file_ok (fsst s) f" using assms(1) by (simp_all add: serv_ok_def)
  have d: "same_disk (fsst s) (stored (fsst s) (fd_offset (o_fd (opentab s ! i))) (put32 pos))"
    using fs put_fd_offset(2) [OF assms(2)] by (simp add: fs_ok_def)
  then show "same_disk (fsst s) (fsst (client_seek i pos s))" by (simp add: client_seek_def)
  show "serv_ok (client_seek i pos s) f"
    using assms(1) same_disk_fs [OF fs(1) d] same_disk_file [OF fs d] by (simp add: serv_ok_def client_seek_def)
  show "open_slot (client_seek i pos s) i f" unfolding client_seek_def by (rule open_slot_fsst [OF assms(2)]) (rule mapped_stored)
  show "seek_pos (client_seek i pos s) i = pos" "opentab (client_seek i pos s) = opentab s"
    by (simp_all add: client_seek_def seek_pos_def load32_stored)
qed

text \<open>The bytes of a file from \<open>off\<close> on.\<close>

definition file_holds :: "serv \<Rightarrow> nat \<Rightarrow> nat \<Rightarrow> byte list \<Rightarrow> bool" where
  "file_holds s f off data \<longleftrightarrow> int (off + length data) \<le> fsize (fsst s) f \<and>
     (\<forall>q. off \<le> q \<and> q < off + length data \<longrightarrow> blkno (fsst s) f (q div BLKSIZE) \<noteq> 0 \<and> fbyte (fsst s) f q = data ! (q - off))"

lemma file_holds_same:
  assumes "serv_ok s f" "same_disk (fsst s) (fsst t)" "off + length data \<le> MAXFILESIZE" "file_holds s f off data"
  shows "file_holds t f off data"
proof -
  have fs: "fs_ok (fsst s)" "file_ok (fsst s) f" using assms(1) by (simp_all add: serv_ok_def)
  note d = same_disk_file [OF fs assms(2)]
  have "blkno (fsst t) f (q div BLKSIZE) \<noteq> 0 \<and> fbyte (fsst t) f q = data ! (q - off)" if q: "off \<le> q" "q < off + length data" for q
  proof -
    have m: "q < MAXFILESIZE" using q(2) assms(3) by simp
    have "blkno (fsst s) f (q div BLKSIZE) \<noteq> 0" "fbyte (fsst s) f q = data ! (q - off)" using assms(4) q by (simp_all add: file_holds_def)
    then show ?thesis using d(3) [OF filepos [OF m]] d(4) [OF m] by simp
  qed
  then show ?thesis using assms(4) d(2) by (simp add: file_holds_def)
qed

text \<open>What the server leaves alone outside of the disk map: all but the position of one descriptor.\<close>

definition fd_frame :: "nat \<Rightarrow> serv \<Rightarrow> serv \<Rightarrow> bool" where
  "fd_frame fd s t \<longleftrightarrow> (\<forall>a. DISKMAP \<le> a \<and> \<not> in_diskmap a \<and> \<not> (fd_offset fd \<le> a \<and> a < fd_offset fd + 4) \<longrightarrow> peek (fsst t) a = peek (fsst s) a)"

lemma fd_frame_trans: "fd_frame fd s t \<Longrightarrow> fd_frame fd t u \<Longrightarrow> fd_frame fd s u"
  by (simp add: fd_frame_def)

lemma fd_frame_recv: "length page = BLKSIZE \<Longrightarrow> fd_frame fd s (recv_page page s)"
  by (simp add: fd_frame_def recv_page_simps(4))

lemma fd_frame_unmap: "fd_frame fd s (unmap_request s)"
  by (auto simp: fd_frame_def unmap_request_def peek_def bc_unmap_def)

text \<open>One turn of the server on a request page for a write, and for a read.\<close>

lemma turn_write_ok:
  assumes "serv_ok s f" "open_slot s i f" "seek_pos s i = of_nat off" "length page = BLKSIZE"
    and "load32 (fsst (recv_page page s)) FSREQ = o_fileid (opentab s ! i)" "load64 (fsst (recv_page page s)) (FSREQ + 8) = length data"
    and "\<And>k. k < length data \<Longrightarrow> page ! (16 + k) = data ! k" "length data \<le> 4080" "off + length data \<le> MAXFILESIZE" "perm AND 4 \<noteq> 0"
  obtains (full) s1 where "serve_turn ka 4 whom perm (recv_page page s) = Inr (Some (- E_NO_DISK, None, perm), s1)" "free_set (fsst s1) = {}"
  | (all) s1 where "serve_turn ka 4 whom perm (recv_page page s) = Inr (Some (int (length data), None, perm), s1)" "serv_ok s1 f"
      "open_slot s1 i f" "opentab s1 = opentab s" "file_holds s1 f off data" "seek_pos s1 i = of_nat (off + length data)"
      "fd_frame (o_fd (opentab s ! i)) s s1"
proof -
  let ?s = "recv_page page s" and ?n = "length data"
  note k = recv_keeps [OF assms(1,2,4)]
  have tab: "opentab ?s = opentab s" using recv_page_simps(1) [OF assms(4)] .
  have pos: "seek_pos ?s i = of_nat off" using k(3) assms(3) by simp
  have id: "load32 (fsst ?s) FSREQ = o_fileid (opentab ?s ! i)" using assms(5) tab by simp
  show ?thesis
  proof (rule serv_write_ok [OF k(1,2) id assms(6) pos assms(8,9)])
    fix s' assume w: "serve_write ?s = Inr (Inl (- E_NO_DISK), s')" "free_set (fsst s') = {}" and fs: "fs_ok (fsst s')"
    have "free_set (fsst (unmap_request s')) = free_set (fsst s')"
      using same_disk_fs(3) [OF fs same_disk_unmap] fs by (simp add: unmap_request_def fs_ok_def)
    then show ?thesis using w assms(10) by (intro full) (simp_all add: turn_write)
  next
    fix s' assume w: "serve_write ?s = Inr (Inr (int ?n), s')" "serv_ok s' f" "open_slot s' i f" "opentab s' = opentab ?s"
      and data: "\<And>q. off \<le> q \<Longrightarrow> q < off + ?n \<Longrightarrow> blkno (fsst s') f (q div BLKSIZE) \<noteq> 0 \<and>
         fbyte (fsst s') f q = peek (fsst ?s) (FSREQ + 16 + (q - off))"
      and size: "int (off + ?n) \<le> fsize (fsst s') f" and sk: "seek_pos s' i = of_nat (off + ?n)"
      and high: "\<And>a. DISKMAP \<le> a \<Longrightarrow> \<not> in_diskmap a \<Longrightarrow> \<not> (fd_offset (o_fd (opentab ?s ! i)) \<le> a \<and> a < fd_offset (o_fd (opentab ?s ! i)) + 4) \<Longrightarrow>
         peek (fsst s') a = peek (fsst ?s) a"
    note u = unmap_keeps [OF w(2,3)]
    have "peek (fsst ?s) (FSREQ + 16 + (q - off)) = data ! (q - off)" if "off \<le> q" "q < off + ?n" for q
    proof -
      have lt: "q - off < ?n" "16 + (q - off) < BLKSIZE" using that assms(8) by (simp_all add: BLKSIZE_def)
      show ?thesis using recv_page_simps(3) [OF assms(4) lt(2), of s] assms(7) [OF lt(1)] by (simp add: add.assoc)
    qed
    then have holds: "file_holds s' f off data" using data size by (simp add: file_holds_def)
    have pos': "seek_pos (unmap_request s') i = seek_pos s' i"
    proof -
      have "load32 (fsst (unmap_request s')) (fd_offset (o_fd (opentab s' ! i))) = load32 (fsst s') (fd_offset (o_fd (opentab s' ! i)))"
        using fd_high(1) [OF w(3)] by (intro load32_peek_eq)
          (auto simp: fd_offset_def add.assoc BLKSIZE_def unmap_request_def peek_def bc_unmap_def)
      then show ?thesis using u(3) by (simp add: seek_pos_def)
    qed
    have fr: "fd_frame (o_fd (opentab s ! i)) s s'"
      using fd_frame_trans [OF fd_frame_recv [OF assms(4)], of "o_fd (opentab s ! i)" s s'] high tab by (simp add: fd_frame_def)
    show ?thesis
    proof (rule all [OF _ u(1,2)])
      show "serve_turn ka 4 whom perm ?s = Inr (Some (int ?n, None, perm), unmap_request s')" using w(1) assms(10) by (simp add: turn_write)
      show "opentab (unmap_request s') = opentab s" using u(3) w(4) tab by simp
      show "file_holds (unmap_request s') f off data" by (rule file_holds_same [OF w(2) u(4) assms(9) holds])
      show "seek_pos (unmap_request s') i = of_nat (off + ?n)" using pos' sk by simp
      show "fd_frame (o_fd (opentab s ! i)) s (unmap_request s')" by (rule fd_frame_trans [OF fr fd_frame_unmap])
    qed
  qed
qed

lemma turn_read_ok:
  assumes "serv_ok s f" "open_slot s i f" "seek_pos s i = of_nat off" "length page = BLKSIZE"
    and "load32 (fsst (recv_page page s)) FSREQ = o_fileid (opentab s ! i)" "load64 (fsst (recv_page page s)) (FSREQ + 8) = length data"
    and "file_holds s f off data" "0 < length data" "length data \<le> 4080" "off + length data \<le> MAXFILESIZE" "perm AND 4 \<noteq> 0"
  shows "\<exists>s2. serve_turn ka 3 whom perm (recv_page page s) = Inr (Some (int (length data), None, perm), s2) \<and>
    peeks (fsst s2) FSREQ (length data) = data"
proof -
  let ?s = "recv_page page s" and ?n = "length data"
  note v = recv_keeps [OF assms(1,2,4)]
  have h: "file_holds ?s f off data" by (rule file_holds_same [OF assms(1) v(4) assms(10,7)])
  have id: "load32 (fsst ?s) FSREQ = o_fileid (opentab ?s ! i)" using assms(5) recv_page_simps(1) [OF assms(4)] by simp
  have "\<exists>s'. serve_read ?s = Inr (Inr (int ?n), s') \<and> peeks (fsst s') FSREQ ?n = map (fbyte (fsst ?s) f) [off..<off + ?n]"
    using v(3) assms(3,8-10) h recv_page_simps(5) [OF assms(4), of s]
    by (intro serv_read_ok [OF v(1,2) id assms(6)]) (simp_all add: BLKSIZE_def file_holds_def)
  moreover have "map (fbyte (fsst ?s) f) [off..<off + ?n] = data"
    by (rule nth_equalityI) (use h in \<open>simp_all add: file_holds_def\<close>)
  ultimately show ?thesis using assms(9,11) by (auto simp: turn_read peeks_unmap_request)
qed

text \<open>
  the file server stores and returns data. For an open file of a consistent file system and any data of at most
  4080 bytes, a write request is answered by the full count, or by \<^verbatim>\<open>-E_NO_DISK\<close> with no block left;
  after the full count the seek position has advanced, and when the client seeks back, a read request is answered with
  the same bytes on its page.
\<close>

theorem serve_write_then_read:
  assumes "serv_ok s f" "open_slot s i f" "seek_pos s i = of_nat off" "0 < length data" "length data \<le> 4080"
    and "off + length data \<le> MAXFILESIZE" "perm AND 4 \<noteq> 0"
  shows "\<exists>r s1. serve_turn ka 4 whom perm (recv_page (write_req (o_fileid (opentab s ! i)) data) s) = Inr (Some (r, None, perm), s1) \<and>
    (r = - E_NO_DISK \<and> free_set (fsst s1) = {} \<or>
     r = int (length data) \<and> (\<exists>s2. serve_turn ka 3 whom perm
         (recv_page (read_req (o_fileid (opentab s ! i)) (length data)) (client_seek i (of_nat off) s1)) =
           Inr (Some (int (length data), None, perm), s2) \<and>
         peeks (fsst s2) FSREQ (length data) = data))"
proof -
  let ?id = "o_fileid (opentab s ! i)" and ?n = "length data"
  let ?w = "write_req ?id data" and ?r = "read_req ?id ?n"
  have n32: "?n < 2 ^ 32" using assms(5) by simp
  have lb: "length (data @ replicate (4080 - ?n) 0) = 4080" using assms(5) by simp
  note wf = req_fields [OF n32 lb, of ?w ?id, unfolded write_req_def, OF refl, folded write_req_def]
  note rf = req_fields [OF n32 length_replicate, of ?r ?id, unfolded read_req_def, OF refl, folded read_req_def]
  have body: "?w ! (16 + k) = data ! k" if "k < ?n" for k
    using that by (simp add: write_req_def put32_def nth_append)
  show ?thesis
  proof (rule turn_write_ok [OF assms(1,2,3) wf(1-3) body assms(5,6,7), where ka = ka and whom = whom])
    fix s1 assume "serve_turn ka 4 whom perm (recv_page ?w s) = Inr (Some (- E_NO_DISK, None, perm), s1)" "free_set (fsst s1) = {}"
    then show ?thesis by auto
  next
    fix s1 assume t: "serve_turn ka 4 whom perm (recv_page ?w s) = Inr (Some (int ?n, None, perm), s1)"
      and k: "serv_ok s1 f" "open_slot s1 i f" "opentab s1 = opentab s" and h: "file_holds s1 f off data"
    note c = client_seek_keeps [OF k(1,2), of "of_nat off"]
    have "load32 (fsst (recv_page ?r (client_seek i (of_nat off) s1))) FSREQ = o_fileid (opentab (client_seek i (of_nat off) s1) ! i)"
      using rf(2) c(4) k(3) by simp
    then show ?thesis
      using t turn_read_ok [OF c(1-3) rf(1) _ rf(3) file_holds_same [OF k(1) c(5) assms(6) h] assms(4-7)] by auto
  qed
qed

section \<open>Open file numbers\<close>

definition tab_ok :: "serv \<Rightarrow> bool" where
  "tab_ok s \<longleftrightarrow> length (opentab s) = MAXOPEN \<and> (\<forall>i<MAXOPEN. o_fd (opentab s ! i) = FILE_BASE + i * BLKSIZE \<and>
     unat (o_fileid (opentab s ! i)) mod MAXOPEN = i)"

lemma serve_init_ok: "tab_ok (serve_init s)"
  by (simp add: tab_ok_def serve_init_def MAXOPEN_def unat_of_nat)

definition client_maps :: "nat \<Rightarrow> serv \<Rightarrow> serv" where
  "client_maps i s = s\<lparr>refs := (refs s)(o_fd (opentab s ! i) div BLKSIZE := 2)\<rparr>"

lemma next_id: "unat (w + of_nat MAXOPEN :: u32) mod MAXOPEN = unat w mod MAXOPEN" "w + of_nat MAXOPEN \<noteq> (w :: u32)"
proof -
  have "unat (w + of_nat MAXOPEN) = (unat w + 512) mod 2 ^ 32" by (simp add: unat_word_ariths MAXOPEN_def)
  moreover have "(512::nat) dvd 2 ^ 32" by simp
  ultimately show "unat (w + of_nat MAXOPEN) mod MAXOPEN = unat w mod MAXOPEN"
    by (simp add: mod_mod_cancel MAXOPEN_def)
qed (simp add: MAXOPEN_def)

lemma claim_tab:
  assumes "claim i s = Inr (Inr j, s')"
  shows "j = i \<and> refs s' = refs s \<and>
    opentab s' = (opentab s)[i := (opentab s ! i)\<lparr>o_fileid := o_fileid (opentab s ! i) + of_nat MAXOPEN\<rparr>]"
  using assms by (auto simp: claim_def Let_def fbind_def lift_fs_def act_def ret_def bind_res_def split: sum.splits)

lemma alloc_loop_tab:
  assumes "openfile_alloc_loop ka is s = Inr (Inr i, s')"
  shows "i \<in> set is" "fd_refs s i \<le> 1" "\<And>p. p \<noteq> o_fd (opentab s ! i) div BLKSIZE \<Longrightarrow> refs s' p = refs s p"
    "refs s' (o_fd (opentab s ! i) div BLKSIZE) = 1"
    "opentab s' = (opentab s)[i := (opentab s ! i)\<lparr>o_fileid := o_fileid (opentab s ! i) + of_nat MAXOPEN\<rparr>]"
proof -
  have "i \<in> set is \<and> fd_refs s i \<le> 1 \<and> (\<forall>p. p \<noteq> o_fd (opentab s ! i) div BLKSIZE \<longrightarrow> refs s' p = refs s p) \<and>
    refs s' (o_fd (opentab s ! i) div BLKSIZE) = 1 \<and>
    opentab s' = (opentab s)[i := (opentab s ! i)\<lparr>o_fileid := o_fileid (opentab s ! i) + of_nat MAXOPEN\<rparr>]"
    using assms
  proof (induction "is")
    case (Cons j js)
    then show ?case
      by (auto simp: Let_def fd_refs_def alloc_fd_page_def err_def dest!: claim_tab split: if_splits)
  qed (simp add: err_def)
  then show "i \<in> set is" "fd_refs s i \<le> 1" "\<And>p. p \<noteq> o_fd (opentab s ! i) div BLKSIZE \<Longrightarrow> refs s' p = refs s p"
    "refs s' (o_fd (opentab s ! i) div BLKSIZE) = 1"
    "opentab s' = (opentab s)[i := (opentab s ! i)\<lparr>o_fileid := o_fileid (opentab s ! i) + of_nat MAXOPEN\<rparr>]" by blast+
qed

text \<open>
  file numbers do not alias. Opening takes a slot whose descriptor page no client has mapped; the table stays well
  formed; every file number that was valid stays valid for the same slot; the number under which the slot was open before
  is refused from then on; and the new one is accepted once the client has the page.
\<close>

theorem open_ids_fresh:
  assumes "tab_ok s" "openfile_alloc ka s = Inr (Inr i, s')"
  shows "tab_ok s' \<and> fd_refs s i \<le> 1 \<and>
    (\<forall>n j. openfile_lookup n s = ret j s \<longrightarrow> openfile_lookup n s' = ret j s') \<and>
    openfile_lookup (o_fileid (opentab s ! i)) (client_maps i s') = err E_INVAL (client_maps i s') \<and>
    openfile_lookup (o_fileid (opentab s' ! i)) (client_maps i s') = ret i (client_maps i s')"
proof -
  note a = alloc_loop_tab [OF assms(2) [unfolded openfile_alloc_def]]
  have i: "i < MAXOPEN" "i < length (opentab s)" using a(1) assms(1) by (simp_all add: tab_ok_def)
  have new: "opentab s' ! i = (opentab s ! i)\<lparr>o_fileid := o_fileid (opentab s ! i) + of_nat MAXOPEN\<rparr>" using a(5) i by simp
  have other: "j \<noteq> i \<Longrightarrow> opentab s' ! j = opentab s ! j" for j using a(5) by simp
  have ids: "unat (o_fileid (opentab s ! j)) mod MAXOPEN = j" "o_fd (opentab s ! j) = FILE_BASE + j * BLKSIZE" if "j < MAXOPEN" for j
    using that assms(1) by (simp_all add: tab_ok_def)
  have tab: "tab_ok s'" using assms(1) a(5) i ids new other next_id(1) unfolding tab_ok_def by (auto simp: nth_list_update)
  have keep: "openfile_lookup n s' = ret j s'" if "openfile_lookup n s = ret j s" for n j
  proof -
    have m: "unat n mod MAXOPEN < MAXOPEN" by (simp add: MAXOPEN_def)
    have j: "j = unat n mod MAXOPEN" "1 < fd_refs s j" "o_fileid (opentab s ! j) = n"
      using that by (auto simp: openfile_lookup_def Let_def ret_def err_def split: if_splits)
    then have ne: "j \<noteq> i" using a(2) by auto
    have "o_fd (opentab s ! j) div BLKSIZE \<noteq> o_fd (opentab s ! i) div BLKSIZE"
      using ids(2) m j(1) i ne by (simp add: FILE_BASE_def BLKSIZE_def)
    then have "fd_refs s' j = fd_refs s j" using a(3) other [OF ne] by (simp add: fd_refs_def)
    then show ?thesis using j other [OF ne] by (simp add: openfile_lookup_def)
  qed
  have "openfile_lookup (o_fileid (opentab s ! i)) (client_maps i s') = err E_INVAL (client_maps i s')"
    using ids(1) [OF i(1)] new next_id(2) by (simp add: openfile_lookup_def client_maps_def)
  moreover have "openfile_lookup (o_fileid (opentab s' ! i)) (client_maps i s') = ret i (client_maps i s')"
    using ids(1) [OF i(1)] new next_id(1) by (simp add: openfile_lookup_def client_maps_def fd_refs_def)
  ultimately show ?thesis using tab a(2) keep by blast
qed

section \<open>A concrete server\<close>

definition mini_serv :: serv where
  "mini_serv = serve_init \<lparr>fsst = mini_fs\<lparr>mapped := (mapped mini_fs)(FILE_BASE div BLKSIZE := True)\<rparr>,
     opentab = replicate MAXOPEN \<lparr>o_fileid = 0, o_file = s_root, o_mode = 0, o_fd = 0\<rparr>, refs = (\<lambda>p. 2)\<rparr>"

lemma MAXOPEN_pos: "0 < MAXOPEN"
  by (simp add: MAXOPEN_def)

lemma mini_slot: "opentab mini_serv ! 0 = \<lparr>o_fileid = 0, o_file = s_root, o_mode = 0, o_fd = FILE_BASE\<rparr>"
  using MAXOPEN_pos by (simp add: mini_serv_def serve_init_def)

lemma mini_serv_ok: "serv_ok mini_serv s_root" "open_slot mini_serv 0 s_root"
proof -
  have bc: "bc_ok mini_fs" using mini_ok by (simp add: fs_ok_def)
  have d: "same_disk mini_fs (fsst mini_serv)"
    using same_disk_map(1) [OF bc, of "FILE_BASE div BLKSIZE"] page_apart(2) [of _ 0] by (auto simp: mini_serv_def serve_init_def)
  note f = mini_file [of s_root]
  show "serv_ok mini_serv s_root"
    using same_disk_fs [OF mini_ok d] same_disk_file [OF mini_ok _ d] f mini_root by (auto simp: serv_ok_def)
  show "open_slot mini_serv 0 s_root"
    using MAXOPEN_pos by (simp add: open_slot_def mini_slot fd_refs_def) (simp add: mini_serv_def serve_init_def)
qed

lemma mini_seek:
  "serv_ok (client_seek 0 0 mini_serv) s_root" "open_slot (client_seek 0 0 mini_serv) 0 s_root"
  "seek_pos (client_seek 0 0 mini_serv) 0 = 0" "o_fileid (opentab (client_seek 0 0 mini_serv) ! 0) = 0"
  using client_seek_keeps [OF mini_serv_ok, of 0] mini_slot by simp_all

theorem serve_write_then_read_witness:
  "\<exists>r s1. serve_turn (\<lambda>_. 0) 4 7 7 (recv_page (write_req 0 [104, 105]) (client_seek 0 0 mini_serv)) = Inr (Some (r, None, 7), s1) \<and>
    (r = - E_NO_DISK \<and> free_set (fsst s1) = {} \<or>
     r = 2 \<and> (\<exists>s2. serve_turn (\<lambda>_. 0) 3 7 7 (recv_page (read_req 0 2) (client_seek 0 0 s1)) = Inr (Some (2, None, 7), s2) \<and>
         peeks (fsst s2) FSREQ 2 = [104, 105]))"
  using serve_write_then_read [OF mini_seek(1,2), of 0 "[104, 105]" 7 "\<lambda>_. 0" 7] mini_seek(3,4)
  by (simp add: MAXFILESIZE_eq flip: numeral_2_eq_2)

theorem open_ids_fresh_witness:
  "\<exists>i s'. openfile_alloc (\<lambda>_. 0) (mini_serv\<lparr>refs := (\<lambda>p. 0)\<rparr>) = Inr (Inr i, s') \<and> tab_ok s' \<and>
     openfile_lookup (o_fileid (opentab s' ! i)) (client_maps i s') = ret i (client_maps i s')"
proof -
  let ?s = "mini_serv\<lparr>refs := (\<lambda>p. 0)\<rparr>"
  have "tab_ok ?s" using serve_init_ok by (simp add: tab_ok_def mini_serv_def serve_init_def)
  moreover have "\<exists>s'. openfile_alloc (\<lambda>_. 0) ?s = Inr (Inr 0, s')"
  proof -
    have "[0..<MAXOPEN] = 0 # [Suc 0..<MAXOPEN]" using MAXOPEN_pos by (rule upt_conv_Cons)
    moreover have "(length (opentab mini_serv) = MAXOPEN)" using serve_init_ok by (simp add: tab_ok_def mini_serv_def)
    ultimately show ?thesis
      by (simp add: openfile_alloc_def fd_refs_def claim_def alloc_fd_page_def mini_slot Let_def fbind_def lift_fs_def act_def ret_def
        poke_def accessible_def page_ok_def pages_def FILE_BASE_def bc_consts MAXOPEN_def)
  qed
  ultimately show ?thesis using open_ids_fresh [of ?s "\<lambda>_. 0"] by blast
qed

end
