(* ===== verification/FileLib.thy ===== *)
theory FileLib
  imports Serv
begin

text \<open>
  File descriptors and files of user programs (\<^verbatim>\<open>lib/fd.c\<close>, \<^verbatim>\<open>lib/file.c\<close>): the client side of the file server.

  \<open>fds\<close> gives for each descriptor number the page that is mapped at \<^verbatim>\<open>INDEX2FD\<close>. A descriptor page of a file is the page of
  the server's table itself, shared by both, so its fields are read and written in the memory of \<open>Serv\<close>;
  \<open>refs\<close> counts its mappings. \<open>fsipc\<close> is the exchange of a request page for a reply: the server makes one turn
  on it, and the client sees what the server has left on the page. The rendezvous itself is that of \<^verbatim>\<open>sys_ipc_try_send\<close> and
  \<^verbatim>\<open>sys_ipc_recv\<close>. The operations of the other two devices, pipe and console, are the argument \<open>od\<close>.
\<close>

section \<open>Data\<close>

definition MAXFD :: nat where "MAXFD = 32"
definition E_NOT_SUPP :: int where "E_NOT_SUPP = 19"
definition O_RDONLY :: u32 where "O_RDONLY = 0"
definition O_WRONLY :: u32 where "O_WRONLY = 1"
definition PROT_RW :: u32 where "PROT_RW = 6"
definition REQ_BUF :: nat where "REQ_BUF = 4080"

record client =
  srv :: serv
  fds :: "nat \<Rightarrow> nat option"
  fdata :: "nat \<Rightarrow> nat option"
  fsipcbuf :: "byte list"
  me :: u32

datatype Dev = devfile | devpipe | devcons

record Stat =
  st_name :: "byte list"
  st_size :: u32
  st_isdir :: u32
  st_dev :: Dev

record odev =
  od_read :: "Dev \<Rightarrow> nat \<Rightarrow> nat \<Rightarrow> client \<Rightarrow> (int \<times> byte list \<times> client) res"
  od_write :: "Dev \<Rightarrow> nat \<Rightarrow> byte list \<Rightarrow> client \<Rightarrow> (int \<times> client) res"
  od_close :: "Dev \<Rightarrow> nat \<Rightarrow> client \<Rightarrow> (int \<times> client) res"
  od_stat :: "Dev \<Rightarrow> nat \<Rightarrow> Stat \<Rightarrow> client \<Rightarrow> (int \<times> Stat \<times> client) res"

definition fd_word :: "client \<Rightarrow> nat \<Rightarrow> u32" where "fd_word c a = load32 (fsst (srv c)) a"

definition cl_print :: "string \<Rightarrow> varg list \<Rightarrow> client \<Rightarrow> client res" where
  "cl_print fmt ap c = bind_res (serv_print fmt ap (srv c)) (\<lambda>s. Inr (c\<lparr>srv := s\<rparr>))"

text \<open>Mapping and unmapping a page of the client.\<close>

definition ref_page :: "nat \<Rightarrow> int \<Rightarrow> client \<Rightarrow> client" where
  "ref_page a d c = c\<lparr>srv := (srv c)\<lparr>refs := (refs (srv c))(a div BLKSIZE := refs (srv c) (a div BLKSIZE) + d)\<rparr>\<rparr>"

definition unmap_fd :: "nat \<Rightarrow> client \<Rightarrow> client" where
  "unmap_fd i c = (case fds c i of None \<Rightarrow> c | Some a \<Rightarrow> (ref_page a (- 1) c)\<lparr>fds := (fds c)(i := None)\<rparr>)"

definition unmap_data :: "nat \<Rightarrow> client \<Rightarrow> client" where
  "unmap_data i c = (case fdata c i of None \<Rightarrow> c | Some a \<Rightarrow> (ref_page a (- 1) c)\<lparr>fdata := (fdata c)(i := None)\<rparr>)"

definition map_fd :: "nat \<Rightarrow> nat \<Rightarrow> client \<Rightarrow> client" where
  "map_fd i a c = (let c = unmap_fd i c in (ref_page a 1 c)\<lparr>fds := (fds c)(i := Some a)\<rparr>)"

definition map_data :: "nat \<Rightarrow> nat \<Rightarrow> client \<Rightarrow> client" where
  "map_data i a c = (let c = unmap_data i c in (ref_page a 1 c)\<lparr>fdata := (fdata c)(i := Some a)\<rparr>)"

section \<open>Requests\<close>

definition put64 :: "nat \<Rightarrow> byte list" where
  "put64 n = put32 (of_nat n) @ put32 (of_nat (n div 2 ^ 32))"

definition put_req :: "nat \<Rightarrow> byte list \<Rightarrow> client \<Rightarrow> client" where
  "put_req off bs c = c\<lparr>fsipcbuf := blit (fsipcbuf c) off bs\<rparr>"

text \<open>\<open>dst\<close> is the descriptor at which a reply page is mapped. A request without reply blocks the client for ever; the
  page is always sent, so this does not happen.\<close>

definition fsipc :: "(nat \<Rightarrow> int) \<Rightarrow> u32 \<Rightarrow> nat option \<Rightarrow> client \<Rightarrow> (int \<times> client) res" where
  "fsipc ka type dst c =
     bind_res (serve_turn ka type (me c) PROT_RW (recv_page (fsipcbuf c) (srv c))) (\<lambda>(r, s).
     case r of None \<Rightarrow> Inl AssertFail
     | Some (v, pg, perm) \<Rightarrow>
         let c = c\<lparr>srv := s, fsipcbuf := peeks (fsst s) FSREQ BLKSIZE\<rparr> in
         Inr (v, case (dst, pg) of (Some i, Some a) \<Rightarrow> map_fd i a c | _ \<Rightarrow> c))"

definition devfile_flush :: "(nat \<Rightarrow> int) \<Rightarrow> nat \<Rightarrow> client \<Rightarrow> (int \<times> client) res" where
  "devfile_flush ka fd c = fsipc ka 6 None (put_req 0 (put32 (fd_word c (fd_file_id fd))) c)"

definition devfile_read :: "(nat \<Rightarrow> int) \<Rightarrow> nat \<Rightarrow> nat \<Rightarrow> client \<Rightarrow> (int \<times> byte list \<times> client) res" where
  "devfile_read ka fd n c =
     bind_res (fsipc ka 3 None (put_req 8 (put64 n) (put_req 0 (put32 (fd_word c (fd_file_id fd))) c))) (\<lambda>(r, c).
     if r < 0 then Inr (r, [], c)
     else bind_res (mem_read (fsipcbuf c) 0 (nat r)) (\<lambda>bs. Inr (r, bs, c)))"

definition devfile_write :: "(nat \<Rightarrow> int) \<Rightarrow> nat \<Rightarrow> byte list \<Rightarrow> client \<Rightarrow> (int \<times> client) res" where
  "devfile_write ka fd buf c =
     fsipc ka 4 None (put_req 16 (take REQ_BUF buf) (put_req 8 (put64 (length buf)) (put_req 0 (put32 (fd_word c (fd_file_id fd))) c)))"

definition devfile_stat :: "(nat \<Rightarrow> int) \<Rightarrow> nat \<Rightarrow> Stat \<Rightarrow> client \<Rightarrow> (int \<times> Stat \<times> client) res" where
  "devfile_stat ka fd st c =
     bind_res (fsipc ka 5 None (put_req 0 (put32 (fd_word c (fd_file_id fd))) c)) (\<lambda>(r, c).
     if r < 0 then Inr (r, st, c)
     else bind_res (strlen (fsipcbuf c)) (\<lambda>n.
          let w = (\<lambda>k. quad32 (fsipcbuf c ! k) (fsipcbuf c ! (k + 1)) (fsipcbuf c ! (k + 2)) (fsipcbuf c ! (k + 3))) in
          Inr (0, st\<lparr>st_name := take n (fsipcbuf c), st_size := w MAXNAMELEN, st_isdir := w (MAXNAMELEN + 4)\<rparr>, c)))"

definition devfile_trunc :: "(nat \<Rightarrow> int) \<Rightarrow> nat \<Rightarrow> u32 \<Rightarrow> client \<Rightarrow> (int \<times> client) res" where
  "devfile_trunc ka fd newsize c =
     fsipc ka 2 None (put_req 4 (put32 newsize) (put_req 0 (put32 (fd_word c (fd_file_id fd))) c))"

definition sync :: "(nat \<Rightarrow> int) \<Rightarrow> client \<Rightarrow> (int \<times> client) res" where
  "sync ka c = fsipc ka 8 None c"

section \<open>Descriptors\<close>

definition fd_alloc :: "client \<Rightarrow> int + nat" where
  "fd_alloc c = (case List.find (\<lambda>i. fds c i = None) [0..<MAXFD] of Some i \<Rightarrow> Inr i | None \<Rightarrow> Inl (- E_MAX_OPEN))"

definition fd_lookup :: "int \<Rightarrow> client \<Rightarrow> int + nat \<times> nat" where
  "fd_lookup fdnum c =
     (if fdnum < 0 \<or> int MAXFD \<le> fdnum then Inl (- E_INVAL)
      else case fds c (nat fdnum) of None \<Rightarrow> Inl (- E_INVAL) | Some fd \<Rightarrow> Inr (nat fdnum, fd))"

definition dev_lookup :: "u32 \<Rightarrow> client \<Rightarrow> ((int + Dev) \<times> client) res" where
  "dev_lookup dev_id c =
     (if dev_id = 102 then Inr (Inr devfile, c)
      else if dev_id = 112 then Inr (Inr devpipe, c)
      else if dev_id = 99 then Inr (Inr devcons, c)
      else bind_res (cl_print ''[%08x] unknown device type %d\<newline>'' [VInt (ucast (me c)), VInt (ucast dev_id)] c) (\<lambda>c.
           Inr (Inl (- E_INVAL), c)))"

definition fd_close :: "odev \<Rightarrow> (nat \<Rightarrow> int) \<Rightarrow> nat \<Rightarrow> bool \<Rightarrow> client \<Rightarrow> (int \<times> client) res" where
  "fd_close od ka i must_exist c = (case fd_lookup (int i) c of Inl e \<Rightarrow> Inr (if must_exist then e else 0, c)
   | Inr (_, fd) \<Rightarrow>
       bind_res (dev_lookup (fd_word c (fd_dev_id fd)) c) (\<lambda>(d, c).
       bind_res (case d of Inl e \<Rightarrow> Inr (e, c)
                 | Inr devfile \<Rightarrow> devfile_flush ka fd c
                 | Inr d \<Rightarrow> od_close od d fd c) (\<lambda>(r, c).
       Inr (r, unmap_fd i c))))"

definition close :: "odev \<Rightarrow> (nat \<Rightarrow> int) \<Rightarrow> int \<Rightarrow> client \<Rightarrow> (int \<times> client) res" where
  "close od ka fdnum c = (case fd_lookup fdnum c of Inl e \<Rightarrow> Inr (e, c) | Inr (i, _) \<Rightarrow> fd_close od ka i True c)"

fun close_all :: "odev \<Rightarrow> (nat \<Rightarrow> int) \<Rightarrow> nat \<Rightarrow> client \<Rightarrow> client res" where
  "close_all od ka 0 c = Inr c"
| "close_all od ka (Suc k) c = bind_res (close od ka (int (MAXFD - Suc k)) c) (\<lambda>(_, c). close_all od ka k c)"

text \<open>\<open>km\<close> is the result of \<^verbatim>\<open>sys_map_region\<close> for a page.\<close>

definition dup_fail :: "int \<Rightarrow> nat \<Rightarrow> client \<Rightarrow> (int \<times> client) res" where
  "dup_fail r j c = Inr (r, unmap_data j (unmap_fd j c))"

definition dup :: "odev \<Rightarrow> (nat \<Rightarrow> int) \<Rightarrow> (nat \<Rightarrow> int) \<Rightarrow> int \<Rightarrow> nat \<Rightarrow> client \<Rightarrow> (int \<times> client) res" where
  "dup od ka km oldfdnum j c = (case fd_lookup oldfdnum c of Inl e \<Rightarrow> Inr (e, c)
   | Inr (i, _) \<Rightarrow>
       bind_res (close od ka (int j) c) (\<lambda>(_, c).
       let (r, c) = (case fdata c i of Some a \<Rightarrow> if km a < 0 then (km a, c) else (0, map_data j a c) | None \<Rightarrow> (0, c)) in
       if r < 0 then dup_fail r j c
       else case fds c i of None \<Rightarrow> dup_fail (- E_INVAL) j c
            | Some fd \<Rightarrow> if km fd < 0 then dup_fail (km fd) j c else Inr (int j, map_fd j fd c)))"

section \<open>File operations\<close>

definition read :: "odev \<Rightarrow> (nat \<Rightarrow> int) \<Rightarrow> int \<Rightarrow> nat \<Rightarrow> client \<Rightarrow> (int \<times> byte list \<times> client) res" where
  "read od ka fdnum n c = (case fd_lookup fdnum c of Inl e \<Rightarrow> Inr (e, [], c)
   | Inr (_, fd) \<Rightarrow>
       bind_res (dev_lookup (fd_word c (fd_dev_id fd)) c) (\<lambda>(d, c). case d of Inl e \<Rightarrow> Inr (e, [], c)
       | Inr dev \<Rightarrow>
           if fd_word c (fd_omode fd) AND O_ACCMODE = O_WRONLY
           then bind_res (cl_print ''[%08x] read %d -- bad mode\<newline>'' [VInt (ucast (me c)), VInt (of_int fdnum)] c) (\<lambda>c. Inr (- E_INVAL, [], c))
           else case dev of devfile \<Rightarrow> devfile_read ka fd n c | _ \<Rightarrow> od_read od dev fd n c))"

definition fd_write :: "odev \<Rightarrow> (nat \<Rightarrow> int) \<Rightarrow> int \<Rightarrow> byte list \<Rightarrow> client \<Rightarrow> (int \<times> client) res" where
  "fd_write od ka fdnum buf c = (case fd_lookup fdnum c of Inl e \<Rightarrow> Inr (e, c)
   | Inr (_, fd) \<Rightarrow>
       bind_res (dev_lookup (fd_word c (fd_dev_id fd)) c) (\<lambda>(d, c). case d of Inl e \<Rightarrow> Inr (e, c)
       | Inr dev \<Rightarrow>
           if fd_word c (fd_omode fd) AND O_ACCMODE = O_RDONLY
           then bind_res (cl_print ''[%08x] write %d -- bad mode\<newline>'' [VInt (ucast (me c)), VInt (of_int fdnum)] c) (\<lambda>c. Inr (- E_INVAL, c))
           else case dev of devfile \<Rightarrow> devfile_write ka fd buf c | _ \<Rightarrow> od_write od dev fd buf c))"

definition seek :: "int \<Rightarrow> u32 \<Rightarrow> client \<Rightarrow> (int \<times> client) res" where
  "seek fdnum offset c = (case fd_lookup fdnum c of Inl e \<Rightarrow> Inr (e, c)
   | Inr (_, fd) \<Rightarrow> Inr (0, c\<lparr>srv := (srv c)\<lparr>fsst := stored (fsst (srv c)) (fd_offset fd) (put32 offset)\<rparr>\<rparr>))"

definition ftruncate :: "(nat \<Rightarrow> int) \<Rightarrow> int \<Rightarrow> u32 \<Rightarrow> client \<Rightarrow> (int \<times> client) res" where
  "ftruncate ka fdnum newsize c = (case fd_lookup fdnum c of Inl e \<Rightarrow> Inr (e, c)
   | Inr (_, fd) \<Rightarrow>
       bind_res (dev_lookup (fd_word c (fd_dev_id fd)) c) (\<lambda>(d, c). case d of Inl e \<Rightarrow> Inr (e, c)
       | Inr dev \<Rightarrow>
           if fd_word c (fd_omode fd) AND O_ACCMODE = O_RDONLY
           then bind_res (cl_print ''[%08x] ftruncate %d -- bad mode\<newline>'' [VInt (ucast (me c)), VInt (of_int fdnum)] c) (\<lambda>c. Inr (- E_INVAL, c))
           else case dev of devfile \<Rightarrow> devfile_trunc ka fd newsize c | _ \<Rightarrow> Inr (- E_NOT_SUPP, c)))"

definition fstat :: "odev \<Rightarrow> (nat \<Rightarrow> int) \<Rightarrow> int \<Rightarrow> Stat \<Rightarrow> client \<Rightarrow> (int \<times> Stat \<times> client) res" where
  "fstat od ka fdnum st c = (case fd_lookup fdnum c of Inl e \<Rightarrow> Inr (e, st, c)
   | Inr (_, fd) \<Rightarrow>
       bind_res (dev_lookup (fd_word c (fd_dev_id fd)) c) (\<lambda>(d, c). case d of Inl e \<Rightarrow> Inr (e, st, c)
       | Inr dev \<Rightarrow>
           let st = \<lparr>st_name = [], st_size = 0, st_isdir = 0, st_dev = dev\<rparr> in
           case dev of devfile \<Rightarrow> devfile_stat ka fd st c | _ \<Rightarrow> od_stat od dev fd st c))"

definition fd_open :: "odev \<Rightarrow> (nat \<Rightarrow> int) \<Rightarrow> byte list \<Rightarrow> u32 \<Rightarrow> client \<Rightarrow> (int \<times> client) res" where
  "fd_open od ka path mode c =
     bind_res (strlen path) (\<lambda>l.
     if MAXPATHLEN \<le> l then Inr (- E_BAD_PATH, c)
     else case fd_alloc c of Inl e \<Rightarrow> Inr (e, c)
     | Inr i \<Rightarrow>
         bind_res (fsipc ka 1 (Some i) (put_req MAXPATHLEN (put32 mode) (put_req 0 (take (Suc l) path) c))) (\<lambda>(r, c).
         if r < 0 then bind_res (fd_close od ka i False c) (\<lambda>(_, c). Inr (r, c)) else Inr (int i, c)))"

definition stat :: "odev \<Rightarrow> (nat \<Rightarrow> int) \<Rightarrow> byte list \<Rightarrow> Stat \<Rightarrow> client \<Rightarrow> (int \<times> Stat \<times> client) res" where
  "stat od ka path st c =
     bind_res (fd_open od ka path O_RDONLY c) (\<lambda>(fd, c).
     if fd < 0 then Inr (fd, st, c)
     else bind_res (fstat od ka fd st c) (\<lambda>(r, st, c).
          bind_res (close od ka fd c) (\<lambda>(_, c). Inr (r, st, c))))"

text \<open>\<open>pos\<close> is \<^verbatim>\<open>res\<close>, \<open>acc\<close> the part of the buffer that is filled.\<close>

function readn :: "odev \<Rightarrow> (nat \<Rightarrow> int) \<Rightarrow> int \<Rightarrow> nat \<Rightarrow> nat \<Rightarrow> byte list \<Rightarrow> client \<Rightarrow> (int \<times> byte list \<times> client) res" where
  "readn od ka fdnum n pos acc c =
     (if pos < n
      then bind_res (read od ka fdnum (n - pos) c) (\<lambda>(inc, bs, c).
           if inc < 0 then Inr (inc, acc, c)
           else if inc = 0 then Inr (int pos, acc, c)
           else readn od ka fdnum n (pos + nat inc) (acc @ bs) c)
      else Inr (int pos, acc, c))"
  by pat_completeness auto
termination by (relation "measure (\<lambda>(od, ka, fdnum, n, pos, acc, c). n - pos)") auto

declare readn.simps [simp del]

section \<open>Request pages\<close>

lemma length_put [simp]: "length (put32 w) = 4" "length (put64 n) = 8"
  by (simp_all add: put32_def put64_def)

lemma load_req:
  assumes "length page = BLKSIZE" "k + 4 \<le> BLKSIZE" "\<And>j. j < 4 \<Longrightarrow> page ! (k + j) = put32 w ! j"
  shows "load32 (fsst (recv_page page s)) (FSREQ + k) = w"
proof -
  have p: "peek (fsst (recv_page page s)) (FSREQ + k + j) = put32 w ! j" if "j < 4" for j
    using recv_page_simps(3) [OF assms(1), of "k + j" s] assms(2,3) that by (simp add: add.assoc)
  have "load32 (fsst (recv_page page s)) (FSREQ + k) = quad32 (put32 w ! 0) (put32 w ! 1) (put32 w ! 2) (put32 w ! 3)"
    unfolding load32_def using p [of 0] p [of 1] p [of 2] p [of 3] by simp
  then show ?thesis by (simp add: put32_def)
qed

text \<open>A page with the file number at 0 and a length at 8, whatever else is on it.\<close>

definition req_page :: "u32 \<Rightarrow> nat \<Rightarrow> byte list \<Rightarrow> bool" where
  "req_page fid n page \<longleftrightarrow> length page = BLKSIZE \<and> (\<forall>j<4. page ! j = put32 fid ! j) \<and> (\<forall>j<8. page ! (8 + j) = put64 n ! j)"

lemma req_page_fields:
  assumes "req_page fid n page" "n < 2 ^ 32"
  shows "length page = BLKSIZE" "load32 (fsst (recv_page page s)) FSREQ = fid" "load64 (fsst (recv_page page s)) (FSREQ + 8) = n"
proof -
  show len: "length page = BLKSIZE" using assms(1) by (simp add: req_page_def)
  show "load32 (fsst (recv_page page s)) FSREQ = fid"
    using load_req [OF len, of 0 fid s] assms(1) by (simp add: req_page_def BLKSIZE_def)
  have lo: "load32 (fsst (recv_page page s)) (FSREQ + 8) = of_nat n"
  proof (rule load_req [OF len])
    show "page ! (8 + j) = put32 (of_nat n) ! j" if "j < 4" for j
      using assms(1) that by (simp add: req_page_def put64_def nth_append)
  qed (simp add: BLKSIZE_def)
  have hi: "load32 (fsst (recv_page page s)) (FSREQ + 12) = 0"
  proof (rule load_req [OF len])
    show "page ! (12 + j) = put32 0 ! j" if "j < 4" for j
    proof -
      have all: "\<forall>j<8. page ! (8 + j) = put64 n ! j" using assms(1) by (simp add: req_page_def)
      show ?thesis using spec [OF all, of "4 + j"] that assms(2) by (simp add: put64_def nth_append)
    qed
  qed (simp add: BLKSIZE_def)
  show "load64 (fsst (recv_page page s)) (FSREQ + 8) = n"
    using lo hi assms(2) by (simp add: load64_def unat_of_nat add.commute [of _ FSREQ])
qed

lemma req_page_made:
  assumes "length (fsipcbuf c) = BLKSIZE" and page_def: "page = fsipcbuf (put_req 8 (put64 n) (put_req 0 (put32 fid) c))"
  shows "req_page fid n page" "length bs \<le> REQ_BUF \<Longrightarrow> req_page fid n (blit page 16 bs)"
    "length bs \<le> REQ_BUF \<Longrightarrow> k < length bs \<Longrightarrow> blit page 16 bs ! (16 + k) = bs ! k"
  using assms(1) by (auto simp: req_page_def page_def put_req_def nth_blit BLKSIZE_def REQ_BUF_def)

lemma fsipc_reply:
  assumes "serve_turn ka type (me c) PROT_RW (recv_page (fsipcbuf c) (srv c)) = Inr (Some (v, None, pm), s)"
  shows "fsipc ka type None c = Inr (v, c\<lparr>srv := s, fsipcbuf := peeks (fsst s) FSREQ BLKSIZE\<rparr>)"
  using assms by (simp add: fsipc_def Let_def)

section \<open>Writing and reading a file\<close>

text \<open>Descriptor \<open>k\<close> of the client is open for reading and writing on slot \<open>i\<close> of the server, the file at \<open>f\<close>.\<close>

definition client_file :: "client \<Rightarrow> nat \<Rightarrow> nat \<Rightarrow> nat \<Rightarrow> bool" where
  "client_file c k i f \<longleftrightarrow> k < MAXFD \<and> fds c k = Some (o_fd (opentab (srv c) ! i)) \<and> serv_ok (srv c) f \<and> open_slot (srv c) i f \<and>
     length (fsipcbuf c) = BLKSIZE \<and> fd_word c (fd_dev_id (o_fd (opentab (srv c) ! i))) = 102 \<and>
     fd_word c (fd_omode (o_fd (opentab (srv c) ! i))) AND O_ACCMODE = 2 \<and>
     fd_word c (fd_file_id (o_fd (opentab (srv c) ! i))) = o_fileid (opentab (srv c) ! i)"

lemma client_fileD:
  assumes "client_file c k i f"
  shows "fd_lookup (int k) c = Inr (k, o_fd (opentab (srv c) ! i))" "serv_ok (srv c) f" "open_slot (srv c) i f" "length (fsipcbuf c) = BLKSIZE"
    "fd_word c (fd_dev_id (o_fd (opentab (srv c) ! i))) = 102" "fd_word c (fd_omode (o_fd (opentab (srv c) ! i))) AND O_ACCMODE = 2"
    "fd_word c (fd_file_id (o_fd (opentab (srv c) ! i))) = o_fileid (opentab (srv c) ! i)"
  using assms by (simp_all add: client_file_def fd_lookup_def)

lemma fd_frame_words:
  assumes "open_slot s i f" "fd_frame (o_fd (opentab s ! i)) s t"
  shows "load32 (fsst t) (fd_dev_id (o_fd (opentab s ! i))) = load32 (fsst s) (fd_dev_id (o_fd (opentab s ! i)))"
    "load32 (fsst t) (fd_omode (o_fd (opentab s ! i))) = load32 (fsst s) (fd_omode (o_fd (opentab s ! i)))"
    "load32 (fsst t) (fd_file_id (o_fd (opentab s ! i))) = load32 (fsst s) (fd_file_id (o_fd (opentab s ! i)))"
proof -
  have p: "peek (fsst t) (o_fd (opentab s ! i) + k) = peek (fsst s) (o_fd (opentab s ! i) + k)" if "k < 4 \<or> 8 \<le> k" "k < 16" for k
    using assms(2) fd_high(1,2) [OF assms(1), of k] that by (auto simp: fd_frame_def fd_offset_def BLKSIZE_def)
  show "load32 (fsst t) (fd_dev_id (o_fd (opentab s ! i))) = load32 (fsst s) (fd_dev_id (o_fd (opentab s ! i)))"
    "load32 (fsst t) (fd_omode (o_fd (opentab s ! i))) = load32 (fsst s) (fd_omode (o_fd (opentab s ! i)))"
    "load32 (fsst t) (fd_file_id (o_fd (opentab s ! i))) = load32 (fsst s) (fd_file_id (o_fd (opentab s ! i)))"
    unfolding fd_dev_id_def fd_omode_def fd_file_id_def
    by (rule load32_peek_eq, use p in \<open>simp add: add.assoc\<close>)+
qed

lemma client_file_step:
  assumes "client_file c k i f" "serv_ok s f" "open_slot s i f" "opentab s = opentab (srv c)" "fd_frame (o_fd (opentab (srv c) ! i)) (srv c) s"
    and "srv c' = s" "fds c' = fds c" "length (fsipcbuf c') = BLKSIZE"
  shows "client_file c' k i f"
  using assms(1-4,6-8) fd_frame_words [OF client_fileD(3) [OF assms(1)] assms(5)] by (simp add: client_file_def fd_word_def)

lemma fd_write_file:
  assumes "client_file c k i f"
  shows "fd_write od ka (int k) data c = devfile_write ka (o_fd (opentab (srv c) ! i)) data c"
  using client_fileD [OF assms] by (simp add: fd_write_def dev_lookup_def O_RDONLY_def)

lemma read_file:
  assumes "client_file c k i f"
  shows "read od ka (int k) n c = devfile_read ka (o_fd (opentab (srv c) ! i)) n c"
  using client_fileD [OF assms] by (simp add: read_def dev_lookup_def O_WRONLY_def)

lemma write_file_ok:
  assumes "client_file c k i f" "seek_pos (srv c) i = of_nat off" "length data \<le> REQ_BUF" "off + length data \<le> MAXFILESIZE"
  obtains (full) c1 where "fd_write od ka (int k) data c = Inr (- E_NO_DISK, c1)" "free_set (fsst (srv c1)) = {}"
  | (all) c1 where "fd_write od ka (int k) data c = Inr (int (length data), c1)" "client_file c1 k i f" "file_holds (srv c1) f off data"
      "seek_pos (srv c1) i = of_nat (off + length data)"
proof -
  note d = client_fileD [OF assms(1)]
  let ?fid = "o_fileid (opentab (srv c) ! i)"
  define page where "page = fsipcbuf (put_req 8 (put64 (length data)) (put_req 0 (put32 ?fid) c))"
  note pg = req_page_made [OF d(4) page_def]
  have n: "length data < 2 ^ 32" "length data \<le> 4080" using assms(3) by (simp_all add: REQ_BUF_def)
  note rf = req_page_fields [OF pg(2) [OF assms(3)] n(1)]
  let ?c = "\<lambda>s. c\<lparr>srv := s, fsipcbuf := peeks (fsst s) FSREQ BLKSIZE\<rparr>"
  have run: "fd_write od ka (int k) data c = Inr (v, ?c s)"
    if "serve_turn ka 4 (me c) PROT_RW (recv_page (blit page 16 data) (srv c)) = Inr (Some (v, None, PROT_RW), s)" for v s
  proof -
    let ?b = "put_req 16 data (put_req 8 (put64 (length data)) (put_req 0 (put32 ?fid) c))"
    have b: "fsipcbuf ?b = blit page 16 data" "me ?b = me c" "srv ?b = srv c" by (simp_all add: page_def put_req_def)
    have "fsipc ka 4 None ?b = Inr (v, ?b\<lparr>srv := s, fsipcbuf := peeks (fsst s) FSREQ BLKSIZE\<rparr>)"
      by (rule fsipc_reply) (use that in \<open>simp only: b\<close>)
    then show ?thesis unfolding fd_write_file [OF assms(1)] devfile_write_def using assms(3) d(7) by (simp add: put_req_def)
  qed
  have perm: "PROT_RW AND 4 \<noteq> 0" by (simp add: PROT_RW_def)
  show ?thesis
  proof (rule turn_write_ok [OF d(2,3) assms(2) rf(1-3) pg(3) [OF assms(3)] n(2) assms(4) perm, where ka = ka and whom = "me c"])
    fix s1 assume "serve_turn ka 4 (me c) PROT_RW (recv_page (blit page 16 data) (srv c)) = Inr (Some (- E_NO_DISK, None, PROT_RW), s1)"
      "free_set (fsst s1) = {}"
    then show ?thesis using run by (intro full [of "?c s1"]) simp_all
  next
    fix s1 assume t: "serve_turn ka 4 (me c) PROT_RW (recv_page (blit page 16 data) (srv c)) = Inr (Some (int (length data), None, PROT_RW), s1)"
      and k: "serv_ok s1 f" "open_slot s1 i f" "opentab s1 = opentab (srv c)" and h: "file_holds s1 f off data"
        "seek_pos s1 i = of_nat (off + length data)" "fd_frame (o_fd (opentab (srv c) ! i)) (srv c) s1"
    have "client_file (?c s1) k i f" by (rule client_file_step [OF assms(1) k h(3)]) simp_all
    then show ?thesis using run [OF t] h by (intro all [of "?c s1"]) simp_all
  qed
qed

lemma read_file_ok:
  assumes "client_file c k i f" "seek_pos (srv c) i = of_nat off" "file_holds (srv c) f off data" "0 < length data" "length data \<le> REQ_BUF"
    and "off + length data \<le> MAXFILESIZE"
  shows "\<exists>c'. read od ka (int k) (length data) c = Inr (int (length data), data, c')"
proof -
  note d = client_fileD [OF assms(1)]
  let ?fid = "o_fileid (opentab (srv c) ! i)"
  define page where "page = fsipcbuf (put_req 8 (put64 (length data)) (put_req 0 (put32 ?fid) c))"
  note pg = req_page_made [OF d(4) page_def]
  have n: "length data < 2 ^ 32" "length data \<le> 4080" using assms(5) by (simp_all add: REQ_BUF_def)
  note rf = req_page_fields [OF pg(1) n(1)]
  have perm: "PROT_RW AND 4 \<noteq> 0" by (simp add: PROT_RW_def)
  obtain s2 where s2: "serve_turn ka 3 (me c) PROT_RW (recv_page page (srv c)) = Inr (Some (int (length data), None, PROT_RW), s2)"
      "peeks (fsst s2) FSREQ (length data) = data"
    using turn_read_ok [OF d(2,3) assms(2) rf(1-3) assms(3,4) n(2) assms(6) perm, where ka = ka and whom = "me c"] by blast
  have "take (length data) (peeks (fsst s2) FSREQ BLKSIZE) = data"
    using peeks_split [of "length data" BLKSIZE "fsst s2" FSREQ] n(2) s2(2) by (simp add: BLKSIZE_def)
  then have "mem_read (peeks (fsst s2) FSREQ BLKSIZE) 0 (length data) = Inr data" using n(2) by (simp add: mem_read_def BLKSIZE_def)
  moreover have "fsipc ka 3 None (put_req 8 (put64 (length data)) (put_req 0 (put32 ?fid) c)) =
      Inr (int (length data), c\<lparr>srv := s2, fsipcbuf := peeks (fsst s2) FSREQ BLKSIZE\<rparr>)"
    using s2(1) by (simp add: fsipc_def page_def put_req_def Let_def)
  ultimately show ?thesis unfolding read_file [OF assms(1)] devfile_read_def using d(7) by simp
qed

text \<open>
  C17: A program gets back what it wrote. For a descriptor that is open for reading and writing on a file of a consistent file system, a
  \<^verbatim>\<open>write\<close> of at most 4080 bytes returns the full count or \<^verbatim>\<open>-E_NO_DISK\<close> with no block left on the drive; after the full count, \<^verbatim>\<open>seek\<close> to the old position
  and \<^verbatim>\<open>read\<close> return the same bytes. The whole path is covered: descriptor table, request page, server turn, file system and block cache.
\<close>

theorem file_roundtrip:
  assumes "client_file c k i f" "seek_pos (srv c) i = of_nat off" "0 < length data" "length data \<le> REQ_BUF" "off + length data \<le> MAXFILESIZE"
  shows "\<exists>r c1. fd_write od ka (int k) data c = Inr (r, c1) \<and>
    (r = - E_NO_DISK \<and> free_set (fsst (srv c1)) = {} \<or>
     r = int (length data) \<and> (\<exists>c2 c3. seek (int k) (of_nat off) c1 = Inr (0, c2) \<and> read od ka (int k) (length data) c2 = Inr (r, data, c3)))"
proof (rule write_file_ok [OF assms(1,2,4,5), where od = od and ka = ka])
  fix c1 assume w: "fd_write od ka (int k) data c = Inr (int (length data), c1)" and o: "client_file c1 k i f" and h: "file_holds (srv c1) f off data"
  note d = client_fileD [OF o]
  let ?c2 = "c1\<lparr>srv := client_seek i (of_nat off) (srv c1)\<rparr>"
  note s = client_seek_keeps [OF d(2,3), of "of_nat off"]
  have sk: "seek (int k) (of_nat off) c1 = Inr (0, ?c2)" using d(1) by (simp add: seek_def client_seek_def)
  have "fd_frame (o_fd (opentab (srv c1) ! i)) (srv c1) (client_seek i (of_nat off) (srv c1))"
    by (auto simp: fd_frame_def client_seek_def peek_stored)
  then have "client_file ?c2 k i f" by (intro client_file_step [OF o s(1,2,4)]) (simp_all add: d(4))
  moreover have "file_holds (srv ?c2) f off data" using file_holds_same [OF d(2) s(5) assms(5) h] by simp
  ultimately show ?thesis using w sk read_file_ok [of ?c2 k i f off data od ka] s(3) assms(3-5) by auto
qed auto

lemma ref_page_keeps:
  assumes "open_slot s i f" "0 \<le> d"
  shows "open_slot (s\<lparr>refs := (refs s)(p := refs s p + d)\<rparr>) i f"
  using assms by (auto simp: open_slot_def fd_refs_def)

text \<open>
  \<^verbatim>\<open>dup\<close> onto a free descriptor makes both numbers descriptors of the same open file: they share one page, so a seek through the new one moves the
  position of the old one too.
\<close>

theorem dup_shares_position:
  assumes "client_file c k i f" "j < MAXFD" "fds c j = None" "fdata c k = None" "0 \<le> km (o_fd (opentab (srv c) ! i))"
  shows "\<exists>c1 c2. dup od ka km (int k) j c = Inr (int j, c1) \<and> client_file c1 k i f \<and> client_file c1 j i f \<and>
    seek (int j) pos c1 = Inr (0, c2) \<and> client_file c2 k i f \<and> seek_pos (srv c2) i = pos"
proof -
  note d = client_fileD [OF assms(1)]
  let ?fd = "o_fd (opentab (srv c) ! i)"
  let ?c1 = "map_fd j ?fd c"
  have fk: "k < MAXFD" "fds c k = Some ?fd" using assms(1) by (simp_all add: client_file_def)
  have "fd_lookup (int j) c = Inl (- E_INVAL)" using assms(2,3) by (simp add: fd_lookup_def)
  then have cl: "close od ka (int j) c = Inr (- E_INVAL, c)" by (simp add: close_def)
  have dup: "dup od ka km (int k) j c = Inr (int j, ?c1)"
    using d(1) cl assms(4,5) fk(2) by (simp add: dup_def Let_def)
  have c1: "srv ?c1 = (srv c)\<lparr>refs := (refs (srv c))(?fd div BLKSIZE := refs (srv c) (?fd div BLKSIZE) + 1)\<rparr>"
      "fds ?c1 = (fds c)(j := Some ?fd)" "fsipcbuf ?c1 = fsipcbuf c"
    using assms(3) by (simp_all add: map_fd_def unmap_fd_def ref_page_def Let_def)
  have both: "client_file ?c1 m i f" if "m = k \<or> m = j" for m
    using that assms(1,2) fk ref_page_keeps [OF d(3), of 1] by (auto simp: client_file_def c1 serv_ok_def fd_word_def)
  note d1 = client_fileD [OF both [of j, simplified]]
  let ?c2 = "?c1\<lparr>srv := client_seek i pos (srv ?c1)\<rparr>"
  note s = client_seek_keeps [OF d1(2,3), of pos]
  have sk: "seek (int j) pos ?c1 = Inr (0, ?c2)" using d1(1) by (simp add: seek_def client_seek_def)
  have "fd_frame (o_fd (opentab (srv ?c1) ! i)) (srv ?c1) (client_seek i pos (srv ?c1))"
    by (auto simp: fd_frame_def client_seek_def peek_stored)
  then have "client_file ?c2 k i f" by (intro client_file_step [OF both s(1,2,4)]) (simp_all add: d1(4))
  then show ?thesis using dup both sk s(3) by (intro exI [of _ ?c1] exI [of _ ?c2]) simp
qed

section \<open>A concrete client\<close>

definition mini_client :: client where
  "mini_client = \<lparr>srv = mini_serv\<lparr>fsst := stored (fsst mini_serv) FILE_BASE (put32 102 @ put32 0 @ put32 2 @ put32 0)\<rparr>,
     fds = [0 \<mapsto> FILE_BASE], fdata = (\<lambda>i. None), fsipcbuf = replicate BLKSIZE 0, me = 4097\<rparr>"

definition no_dev :: odev where
  "no_dev = \<lparr>od_read = (\<lambda>d fd n c. Inr (- E_NOT_SUPP, [], c)), od_write = (\<lambda>d fd b c. Inr (- E_NOT_SUPP, c)),
     od_close = (\<lambda>d fd c. Inr (0, c)), od_stat = (\<lambda>d fd st c. Inr (0, st, c))\<rparr>"

lemma mini_client_file: "client_file mini_client 0 0 s_root" "seek_pos (srv mini_client) 0 = of_nat 0"
proof -
  let ?bs = "put32 102 @ put32 0 @ put32 2 @ put32 0 :: byte list"
  let ?t = "stored (fsst mini_serv) FILE_BASE ?bs"
  have fs: "fs_ok (fsst mini_serv)" "file_ok (fsst mini_serv) s_root" using mini_serv_ok(1) by (simp_all add: serv_ok_def)
  have w: "load32 ?t (FILE_BASE + 4 * k) = [102, 0, 2, 0] ! k" if "k < 4" for k
  proof -
    have p: "peek ?t (FILE_BASE + 4 * k + j) = ?bs ! (4 * k + j)" if "j < 4" for j
      using \<open>k < 4\<close> that by (simp add: peek_stored)
    have "k = 0 \<or> k = 1 \<or> k = 2 \<or> k = 3" using that by linarith
    then show ?thesis using p [of 0] p [of 1] p [of 2] p [of 3] by (auto simp: load32_def put32_def nth_append quad32_def)
  qed
  have sd: "same_disk (fsst mini_serv) ?t"
    using fs by (intro same_disk_stored) (auto simp: fs_ok_def in_diskmap_def FILE_BASE_def bc_consts)
  have so: "serv_ok (mini_serv\<lparr>fsst := ?t\<rparr>) s_root"
    using mini_serv_ok(1) same_disk_fs [OF fs(1) sd] same_disk_file [OF fs sd] by (simp add: serv_ok_def)
  have os: "open_slot (mini_serv\<lparr>fsst := ?t\<rparr>) 0 s_root" by (rule open_slot_fsst [OF mini_serv_ok(2) mapped_stored])
  show "client_file mini_client 0 0 s_root"
    using so os w [of 0] w [of 2] w [of 3]
    by (simp add: client_file_def mini_client_def MAXFD_def mini_slot fd_word_def fd_dev_id_def fd_omode_def fd_file_id_def O_ACCMODE_def)
  show "seek_pos (srv mini_client) 0 = of_nat 0"
    using w [of 1] by (simp add: seek_pos_def mini_client_def mini_slot fd_offset_def)
qed

theorem file_roundtrip_witness:
  "\<exists>r c1. fd_write no_dev (\<lambda>_. 0) (int 0) [104, 105] mini_client = Inr (r, c1) \<and>
    (r = - E_NO_DISK \<and> free_set (fsst (srv c1)) = {} \<or>
     r = 2 \<and> (\<exists>c2 c3. seek (int 0) 0 c1 = Inr (0, c2) \<and> read no_dev (\<lambda>_. 0) (int 0) 2 c2 = Inr (r, [104, 105], c3)))"
  using file_roundtrip [OF mini_client_file, of "[104, 105]" no_dev "\<lambda>_. 0"]
  by (simp add: REQ_BUF_def MAXFILESIZE_eq flip: numeral_2_eq_2)

theorem dup_shares_position_witness:
  "\<exists>c1 c2. dup no_dev (\<lambda>_. 0) (\<lambda>_. 0) (int 0) 5 mini_client = Inr (int 5, c1) \<and> client_file c1 5 0 s_root \<and>
    seek (int 5) 7 c1 = Inr (0, c2) \<and> seek_pos (srv c2) 0 = 7"
  using dup_shares_position [OF mini_client_file(1), of 5 "\<lambda>_. 0" no_dev "\<lambda>_. 0" 7]
  by (auto simp: mini_client_def MAXFD_def)

end
