(* ===== verification/Pipe.thy ===== *)
theory Pipe
  imports Prelude
begin

text \<open>
  Pipes (\<^verbatim>\<open>lib/pipe.c\<close>): the ring buffer on the shared page and the loops of \<^verbatim>\<open>devpipe_read\<close> and
  \<^verbatim>\<open>devpipe_write\<close>.

  Reader and writer are different environments, and the timer may switch between them at any instruction, so
  the two loops are written as machines that make one access to the shared page per step: the test of the positions, the copy of
  the byte, the increment. \<open>pipe_step\<close> interleaves them in any order. The positions are the
  \<^verbatim>\<open>off_t\<close> of the code, 32 bit with the wrap-around of two's complement; \<^verbatim>\<open>PIPEBUFSIZ\<close> is an unsigned 64 bit
  constant, so a position is sign extended before it is compared or reduced.
\<close>

section \<open>Data\<close>

definition PIPEBUFSIZ :: nat where "PIPEBUFSIZ = 4088"

record Pipe =
  p_rpos :: u32
  p_wpos :: u32
  p_buf :: "byte list"

definition pos64 :: "u32 \<Rightarrow> u64" where "pos64 p = signed p"

definition pipe_index :: "u32 \<Rightarrow> nat" where "pipe_index p = unat (pos64 p) mod PIPEBUFSIZ"

definition pipe_empty :: "Pipe \<Rightarrow> bool" where "pipe_empty p \<longleftrightarrow> p_rpos p = p_wpos p"

definition pipe_full :: "Pipe \<Rightarrow> bool" where
  "pipe_full p \<longleftrightarrow> pos64 (p_rpos p) + of_nat PIPEBUFSIZ \<le> pos64 (p_wpos p)"

text \<open>\<open>refs2\<close> is what \<^verbatim>\<open>sys_region_refs2\<close> returns for the descriptor page and the pipe page.\<close>

definition pipeisclosed :: "int \<Rightarrow> bool" where "pipeisclosed refs2 \<longleftrightarrow> refs2 = 0"

datatype rpc = RTest nat | RTake nat | RInc nat | RRet int

datatype wpc = WTest nat | WPut nat | WInc nat | WRet int

record reader =
  r_n :: nat
  r_pc :: rpc
  r_buf :: "byte list"

record writer =
  w_src :: "byte list"
  w_pc :: wpc

section \<open>The loops\<close>

definition devpipe_read :: "int \<Rightarrow> reader \<times> Pipe \<Rightarrow> reader \<times> Pipe" where
  "devpipe_read refs2 = (\<lambda>(r, p). case r_pc r of
     RTest i \<Rightarrow>
       if i < r_n r
       then if pipe_empty p
            then if i > 0 then (r\<lparr>r_pc := RRet (int i)\<rparr>, p)
                 else if pipeisclosed refs2 then (r\<lparr>r_pc := RRet 0\<rparr>, p)
                 else (r, p)
            else (r\<lparr>r_pc := RTake i\<rparr>, p)
       else (r\<lparr>r_pc := RRet (int (r_n r))\<rparr>, p)
   | RTake i \<Rightarrow> (r\<lparr>r_buf := r_buf r @ [p_buf p ! pipe_index (p_rpos p)], r_pc := RInc i\<rparr>, p)
   | RInc i \<Rightarrow> (r\<lparr>r_pc := RTest (i + 1)\<rparr>, p\<lparr>p_rpos := p_rpos p + 1\<rparr>)
   | RRet x \<Rightarrow> (r, p))"

definition devpipe_write :: "int \<Rightarrow> writer \<times> Pipe \<Rightarrow> writer \<times> Pipe" where
  "devpipe_write refs2 = (\<lambda>(w, p). case w_pc w of
     WTest i \<Rightarrow>
       if i < length (w_src w)
       then if pipe_full p
            then if pipeisclosed refs2 then (w\<lparr>w_pc := WRet 0\<rparr>, p) else (w, p)
            else (w\<lparr>w_pc := WPut i\<rparr>, p)
       else (w\<lparr>w_pc := WRet (int (length (w_src w)))\<rparr>, p)
   | WPut i \<Rightarrow> (w\<lparr>w_pc := WInc i\<rparr>, p\<lparr>p_buf := (p_buf p)[pipe_index (p_wpos p) := w_src w ! i]\<rparr>)
   | WInc i \<Rightarrow> (w\<lparr>w_pc := WTest (i + 1)\<rparr>, p\<lparr>p_wpos := p_wpos p + 1\<rparr>)
   | WRet x \<Rightarrow> (w, p))"

definition devpipe_size :: "Pipe \<Rightarrow> int" where
  "devpipe_size p = sint (p_wpos p - p_rpos p)"

section \<open>Interleaving\<close>

text \<open>
  One reader and one writer with the calls they make. \<open>rlog\<close> holds the bytes of the reads that have returned, \<open>wlog\<close> the bytes
  whose store has been completed by the increment.
\<close>

record psys =
  page :: Pipe
  rdr :: reader
  wtr :: writer
  rlog :: "byte list"
  wlog :: "byte list"

definition delivered :: "psys \<Rightarrow> byte list" where "delivered s = rlog s @ r_buf (rdr s)"

definition stored_now :: "writer \<Rightarrow> byte list" where
  "stored_now w = (case w_pc w of WInc i \<Rightarrow> [w_src w ! i] | _ \<Rightarrow> [])"

definition reader_turn :: "int \<Rightarrow> psys \<Rightarrow> psys" where
  "reader_turn refs2 s = (let (r, p) = devpipe_read refs2 (rdr s, page s) in s\<lparr>rdr := r, page := p\<rparr>)"

definition writer_turn :: "int \<Rightarrow> psys \<Rightarrow> psys" where
  "writer_turn refs2 s = (let (w, p) = devpipe_write refs2 (wtr s, page s)
     in s\<lparr>wtr := w, page := p, wlog := wlog s @ stored_now (wtr s)\<rparr>)"

definition next_read :: "nat \<Rightarrow> psys \<Rightarrow> psys" where
  "next_read n s = s\<lparr>rlog := delivered s, rdr := \<lparr>r_n = n, r_pc = RTest 0, r_buf = []\<rparr>\<rparr>"

definition next_write :: "byte list \<Rightarrow> psys \<Rightarrow> psys" where
  "next_write src s = s\<lparr>wtr := \<lparr>w_src = src, w_pc = WTest 0\<rparr>\<rparr>"

inductive pipe_step :: "psys \<Rightarrow> psys \<Rightarrow> bool" where
  read_step: "pipe_step s (reader_turn refs2 s)"
| write_step: "pipe_step s (writer_turn refs2 s)"
| read_call: "r_pc (rdr s) = RRet x \<Longrightarrow> pipe_step s (next_read n s)"
| write_call: "w_pc (wtr s) = WRet x \<Longrightarrow> pipe_step s (next_write src s)"

text \<open>The page is allocated filled with zeros.\<close>

definition pipe_new :: psys where
  "pipe_new = \<lparr>page = \<lparr>p_rpos = 0, p_wpos = 0, p_buf = replicate PIPEBUFSIZ 0\<rparr>,
     rdr = \<lparr>r_n = 0, r_pc = RRet 0, r_buf = []\<rparr>, wtr = \<lparr>w_src = [], w_pc = WRet 0\<rparr>, rlog = [], wlog = []\<rparr>"

inductive pipe_reach :: "psys \<Rightarrow> bool" where
  pipe_start: "pipe_reach pipe_new"
| pipe_go: "pipe_reach s \<Longrightarrow> pipe_step s s' \<Longrightarrow> pipe_reach s'"

inductive_cases pipe_stepE: "pipe_step s s'"

section \<open>Positions\<close>

lemma pos64_of_nat: "n < 2 ^ 31 \<Longrightarrow> unat (pos64 (of_nat n)) = n"
proof -
  assume n: "n < 2 ^ 31"
  then have "sint (of_nat n :: u32) = int n"
    by (simp add: signed_of_nat signed_take_bit_int_eq_self)
  then have "pos64 (of_nat n) = of_nat n"
    by (simp add: pos64_def scast_eq)
  then show ?thesis using n by (simp add: unat_of_nat take_bit_nat_eq_self)
qed

lemma pipe_index_of_nat: "n < 2 ^ 31 \<Longrightarrow> pipe_index (of_nat n) = n mod PIPEBUFSIZ"
  by (simp add: pipe_index_def pos64_of_nat)

lemma pipe_full_of_nat:
  assumes "p_rpos p = of_nat m" "p_wpos p = of_nat n" "m \<le> n" "n < 2 ^ 31"
  shows "pipe_full p \<longleftrightarrow> m + PIPEBUFSIZ \<le> n"
proof -
  have "unat (pos64 (of_nat m) + of_nat PIPEBUFSIZ) = m + PIPEBUFSIZ"
    using assms(3,4) pos64_of_nat [of m] by (simp add: unat_word_ariths PIPEBUFSIZ_def)
  then show ?thesis using assms pos64_of_nat [of n] by (simp add: pipe_full_def word_le_nat_alt)
qed

lemma pipe_empty_of_nat:
  assumes "p_rpos p = of_nat m" "p_wpos p = of_nat n" "m \<le> n" "n < 2 ^ 31"
  shows "pipe_empty p \<longleftrightarrow> m = n"
proof -
  have "unat (of_nat m :: u32) = m" "unat (of_nat n :: u32) = n"
    using assms(3,4) by (simp_all add: unat_of_nat take_bit_nat_eq_self)
  then show ?thesis using assms(1,2) unfolding pipe_empty_def by metis
qed

lemma ring_apart:
  assumes "m \<le> k" "k < n" "n < m + PIPEBUFSIZ"
  shows "k mod PIPEBUFSIZ \<noteq> n mod PIPEBUFSIZ"
proof
  assume "k mod PIPEBUFSIZ = n mod PIPEBUFSIZ"
  then have "PIPEBUFSIZ dvd n - k" using assms(2) by (metis less_imp_le mod_eq_dvd_iff_nat)
  then show False using assms by (auto dest: dvd_imp_le)
qed

section \<open>First in, first out\<close>

text \<open>The number of bytes the reader has finished, \<open>p_rpos\<close> of the code.\<close>

definition taken :: "psys \<Rightarrow> nat" where
  "taken s = (case r_pc (rdr s) of RInc i \<Rightarrow> length (delivered s) - 1 | _ \<Rightarrow> length (delivered s))"

lemma delivered_upd [simp]:
  "delivered (s\<lparr>wtr := w\<rparr>) = delivered s" "delivered (s\<lparr>page := p\<rparr>) = delivered s" "delivered (s\<lparr>wlog := l\<rparr>) = delivered s"
  by (simp_all add: delivered_def)

lemma taken_upd [simp]:
  "taken (s\<lparr>wtr := w\<rparr>) = taken s" "taken (s\<lparr>page := p\<rparr>) = taken s" "taken (s\<lparr>wlog := l\<rparr>) = taken s"
  by (simp_all add: taken_def split: rpc.split)

definition reader_ok :: "psys \<Rightarrow> bool" where
  "reader_ok s = (case r_pc (rdr s) of
     RTest i \<Rightarrow> length (r_buf (rdr s)) = i
   | RTake i \<Rightarrow> length (r_buf (rdr s)) = i \<and> i < r_n (rdr s) \<and> taken s < length (wlog s)
   | RInc i \<Rightarrow> length (r_buf (rdr s)) = i + 1 \<and> i < r_n (rdr s) \<and> taken s < length (wlog s)
   | RRet x \<Rightarrow> x = int (length (r_buf (rdr s))))"

definition writer_ok :: "psys \<Rightarrow> bool" where
  "writer_ok s = (case w_pc (wtr s) of
     WTest i \<Rightarrow> i \<le> length (w_src (wtr s))
   | WPut i \<Rightarrow> i < length (w_src (wtr s)) \<and> length (wlog s) < taken s + PIPEBUFSIZ
   | WInc i \<Rightarrow> i < length (w_src (wtr s)) \<and> length (wlog s) < taken s + PIPEBUFSIZ \<and>
       p_buf (page s) ! (length (wlog s) mod PIPEBUFSIZ) = w_src (wtr s) ! i
   | WRet x \<Rightarrow> x = 0 \<or> x = int (length (w_src (wtr s))))"

definition ring_ok :: "psys \<Rightarrow> bool" where
  "ring_ok s \<longleftrightarrow> length (p_buf (page s)) = PIPEBUFSIZ \<and> p_rpos (page s) = of_nat (taken s) \<and> p_wpos (page s) = of_nat (length (wlog s)) \<and>
     taken s \<le> length (wlog s) \<and> length (wlog s) \<le> taken s + PIPEBUFSIZ \<and> length (r_buf (rdr s)) \<le> r_n (rdr s) \<and>
     (\<forall>k. taken s \<le> k \<and> k < length (wlog s) \<longrightarrow> p_buf (page s) ! (k mod PIPEBUFSIZ) = wlog s ! k) \<and>
     delivered s = take (length (delivered s)) (wlog s)"

definition pipe_ok :: "psys \<Rightarrow> bool" where
  "pipe_ok s \<longleftrightarrow> ring_ok s \<and> reader_ok s \<and> writer_ok s"

lemma pipe_ok_new: "pipe_ok pipe_new"
  by (simp add: pipe_ok_def ring_ok_def reader_ok_def writer_ok_def pipe_new_def taken_def delivered_def)

lemma ring_ok_cong:
  assumes "ring_ok s" "page s' = page s" "taken s' = taken s" "wlog s' = wlog s" "delivered s' = delivered s"
    and "length (r_buf (rdr s')) \<le> r_n (rdr s')"
  shows "ring_ok s'"
  using assms unfolding ring_ok_def by simp

lemma writer_ok_mono:
  assumes "writer_ok s" "wtr s' = wtr s" "wlog s' = wlog s" "taken s \<le> taken s'" "p_buf (page s') = p_buf (page s)"
  shows "writer_ok s'"
  using assms unfolding writer_ok_def by (auto split: wpc.splits)

lemma reader_turn_simps [simp]:
  "wtr (reader_turn refs2 s) = wtr s" "wlog (reader_turn refs2 s) = wlog s" "rlog (reader_turn refs2 s) = rlog s"
  "r_n (rdr (reader_turn refs2 s)) = r_n (rdr s)" "p_buf (page (reader_turn refs2 s)) = p_buf (page s)"
  by (simp_all add: reader_turn_def devpipe_read_def split: prod.splits rpc.splits)

lemma reader_turn_ok:
  assumes "pipe_ok s" "length (wlog s) < 2 ^ 31"
  shows "pipe_ok (reader_turn refs2 s)"
proof -
  let ?s = "reader_turn refs2 s"
  have ok: "ring_ok s" "reader_ok s" "writer_ok s" using assms(1) by (simp_all add: pipe_ok_def)
  note turn = reader_turn_def devpipe_read_def
  show ?thesis
  proof (cases "r_pc (rdr s)")
    case (RTest i)
    have e: "pipe_empty (page s) \<longleftrightarrow> taken s = length (wlog s)"
      using ok(1) assms(2) by (intro pipe_empty_of_nat) (simp_all add: ring_ok_def)
    have same: "page ?s = page s" "delivered ?s = delivered s" "taken ?s = taken s" "r_buf (rdr ?s) = r_buf (rdr s)"
      using RTest by (auto simp: turn taken_def delivered_def)
    have "reader_ok ?s" using RTest ok e same unfolding reader_ok_def
      by (auto simp: turn ring_ok_def)
    then show ?thesis using ok same ring_ok_cong [of s ?s] writer_ok_mono [of s ?s]
      by (simp add: pipe_ok_def ring_ok_def)
  next
    case (RTake i)
    have t: "taken s = length (delivered s)" using RTake by (simp add: taken_def)
    have lt: "taken s < length (wlog s)" "i < r_n (rdr s)" "length (r_buf (rdr s)) = i"
      using ok(2) RTake by (simp_all add: reader_ok_def)
    have b: "p_buf (page s) ! pipe_index (p_rpos (page s)) = wlog s ! taken s"
      using ok(1) lt(1) assms(2) pipe_index_of_nat [of "taken s"] by (simp add: ring_ok_def)
    have d: "delivered ?s = delivered s @ [wlog s ! taken s]" "taken ?s = taken s" "page ?s = page s" "length (r_buf (rdr ?s)) = Suc i"
      using RTake b lt(3) by (simp_all add: turn delivered_def taken_def)
    have "delivered s @ [wlog s ! taken s] = take (Suc (taken s)) (wlog s)"
      using ok(1) lt(1) t by (metis ring_ok_def take_Suc_conv_app_nth)
    then have "ring_ok ?s" using ok(1) d t lt(1,2) unfolding ring_ok_def by (simp add: min_absorb2)
    moreover have "reader_ok ?s" using RTake lt d(2,4) unfolding reader_ok_def by (simp add: turn)
    ultimately show ?thesis using ok(3) d writer_ok_mono [of s ?s] by (simp add: pipe_ok_def)
  next
    case (RInc i)
    have lt: "taken s < length (wlog s)" "i < r_n (rdr s)" "length (r_buf (rdr s)) = Suc i"
      using ok(2) RInc by (simp_all add: reader_ok_def)
    have t: "length (delivered s) = Suc (taken s)" using RInc lt(3) by (simp add: taken_def delivered_def)
    have d: "delivered ?s = delivered s" "taken ?s = Suc (taken s)" "p_rpos (page ?s) = p_rpos (page s) + 1"
        "p_wpos (page ?s) = p_wpos (page s)" "r_buf (rdr ?s) = r_buf (rdr s)"
      using RInc t by (simp_all add: turn delivered_def taken_def)
    have "ring_ok ?s" using ok(1) d lt unfolding ring_ok_def by (auto simp: add.commute)
    moreover have "reader_ok ?s" using RInc lt d unfolding reader_ok_def by (simp add: turn)
    ultimately show ?thesis using ok(3) d writer_ok_mono [of s ?s] by (simp add: pipe_ok_def)
  next
    case (RRet x)
    then have "?s = s" by (simp add: turn)
    then show ?thesis using assms(1) by simp
  qed
qed

lemma reader_ok_mono:
  assumes "reader_ok s" "rdr s' = rdr s" "taken s' = taken s" "length (wlog s) \<le> length (wlog s')"
  shows "reader_ok s'"
  using assms unfolding reader_ok_def by (auto split: rpc.splits)

lemma writer_turn_simps [simp]:
  "rdr (writer_turn refs2 s) = rdr s" "rlog (writer_turn refs2 s) = rlog s" "delivered (writer_turn refs2 s) = delivered s"
  "taken (writer_turn refs2 s) = taken s" "wlog (writer_turn refs2 s) = wlog s @ stored_now (wtr s)"
  "p_rpos (page (writer_turn refs2 s)) = p_rpos (page s)" "w_src (wtr (writer_turn refs2 s)) = w_src (wtr s)"
  by (auto simp: writer_turn_def devpipe_write_def split: prod.splits wpc.splits if_splits)

lemma writer_turn_ok:
  assumes "pipe_ok s" "length (wlog (writer_turn refs2 s)) < 2 ^ 31"
  shows "pipe_ok (writer_turn refs2 s)"
proof -
  let ?s = "writer_turn refs2 s"
  have ok: "ring_ok s" "reader_ok s" "writer_ok s" using assms(1) by (simp_all add: pipe_ok_def)
  have bound: "length (wlog s) < 2 ^ 31" using assms(2) by simp
  have r: "reader_ok ?s" using ok(2) reader_ok_mono [of s ?s] by simp
  note turn = writer_turn_def devpipe_write_def
  show ?thesis
  proof (cases "w_pc (wtr s)")
    case (WTest i)
    have f: "pipe_full (page s) \<longleftrightarrow> taken s + PIPEBUFSIZ \<le> length (wlog s)"
      using ok(1) bound by (intro pipe_full_of_nat) (simp_all add: ring_ok_def)
    have same: "page ?s = page s" "wlog ?s = wlog s" using WTest by (auto simp: turn stored_now_def)
    have "ring_ok ?s" using ok(1) same by (intro ring_ok_cong [of s ?s]) (simp_all add: ring_ok_def)
    moreover have "writer_ok ?s" using WTest ok(1,3) f unfolding writer_ok_def
      by (auto simp: turn stored_now_def ring_ok_def)
    ultimately show ?thesis using r by (simp add: pipe_ok_def)
  next
    case (WPut i)
    have lt: "i < length (w_src (wtr s))" "length (wlog s) < taken s + PIPEBUFSIZ"
      using ok(3) WPut by (simp_all add: writer_ok_def)
    have ix: "pipe_index (p_wpos (page s)) = length (wlog s) mod PIPEBUFSIZ"
      using ok(1) bound by (simp add: ring_ok_def pipe_index_of_nat)
    have d: "page ?s = (page s)\<lparr>p_buf := (p_buf (page s))[length (wlog s) mod PIPEBUFSIZ := w_src (wtr s) ! i]\<rparr>"
        "wlog ?s = wlog s" "w_pc (wtr ?s) = WInc i"
      using WPut ix by (simp_all add: turn stored_now_def)
    have m: "length (wlog s) mod PIPEBUFSIZ < PIPEBUFSIZ" by (simp add: PIPEBUFSIZ_def)
    have "p_buf (page ?s) ! (k mod PIPEBUFSIZ) = wlog s ! k" if k: "taken s \<le> k" "k < length (wlog s)" for k
      using ok(1) d(1) ring_apart [OF k lt(2)] k by (simp add: ring_ok_def)
    then have "ring_ok ?s" using ok(1) d unfolding ring_ok_def by simp
    moreover have "writer_ok ?s" using d lt m ok(1) unfolding writer_ok_def by (simp add: ring_ok_def)
    ultimately show ?thesis using r by (simp add: pipe_ok_def)
  next
    case (WInc i)
    have lt: "i < length (w_src (wtr s))" "length (wlog s) < taken s + PIPEBUFSIZ"
        "p_buf (page s) ! (length (wlog s) mod PIPEBUFSIZ) = w_src (wtr s) ! i"
      using ok(3) WInc by (simp_all add: writer_ok_def)
    have d: "page ?s = (page s)\<lparr>p_wpos := p_wpos (page s) + 1\<rparr>" "wlog ?s = wlog s @ [w_src (wtr s) ! i]" "w_pc (wtr ?s) = WTest (Suc i)"
      using WInc by (simp_all add: turn stored_now_def)
    have len: "length (delivered s) \<le> length (wlog s)" using ok(1) unfolding ring_ok_def by (metis length_take min.cobounded1)
    have "ring_ok ?s" using ok(1) d lt len unfolding ring_ok_def
      by (auto simp: nth_append less_Suc_eq add.commute)
    moreover have "writer_ok ?s" using d lt unfolding writer_ok_def by simp
    ultimately show ?thesis using r by (simp add: pipe_ok_def)
  next
    case (WRet x)
    then have "?s = s" by (simp add: turn stored_now_def)
    then show ?thesis using assms(1) by simp
  qed
qed

lemma pipe_step_ok:
  assumes "pipe_step s s'" "pipe_ok s" "length (wlog s') < 2 ^ 31"
  shows "pipe_ok s'"
  using assms(1)
proof (cases rule: pipe_step.cases)
  case (read_step refs2)
  then show ?thesis using assms reader_turn_ok by simp
next
  case (write_step refs2)
  then show ?thesis using assms writer_turn_ok by simp
next
  case (read_call x n)
  have "taken s' = taken s" "delivered s' = delivered s" "page s' = page s" "wlog s' = wlog s" "wtr s' = wtr s"
    using read_call by (simp_all add: next_read_def taken_def delivered_def)
  moreover have "reader_ok s'" "length (r_buf (rdr s')) \<le> r_n (rdr s')" using read_call by (simp_all add: next_read_def reader_ok_def)
  ultimately show ?thesis using assms(2) ring_ok_cong [of s s'] writer_ok_mono [of s s'] by (simp add: pipe_ok_def)
next
  case (write_call x src)
  have "taken s' = taken s" "delivered s' = delivered s" "page s' = page s" "wlog s' = wlog s" "rdr s' = rdr s"
    using write_call by (simp_all add: next_write_def)
  moreover have "writer_ok s'" using write_call by (simp add: next_write_def writer_ok_def)
  moreover have "length (r_buf (rdr s)) \<le> r_n (rdr s)" using assms(2) by (simp add: pipe_ok_def ring_ok_def)
  ultimately show ?thesis using assms(2) ring_ok_cong [of s s'] reader_ok_mono [of s s'] by (simp add: pipe_ok_def)
qed

lemma wlog_grows: "pipe_step s s' \<Longrightarrow> length (wlog s) \<le> length (wlog s')"
  by (auto elim!: pipe_stepE simp: next_read_def next_write_def)

lemma pipe_reach_ok: "pipe_reach s \<Longrightarrow> length (wlog s) < 2 ^ 31 \<Longrightarrow> pipe_ok s"
proof (induction rule: pipe_reach.induct)
  case pipe_start
  show ?case by (rule pipe_ok_new)
next
  case (pipe_go s s')
  then show ?case using pipe_step_ok wlog_grows by (meson le_less_trans)
qed

text \<open>
  C9: a pipe is a queue of bytes. However the instructions of one reader and one writer are interleaved, and whatever
  calls they make, the bytes copied to the reader are the first bytes the writer has stored, in order; at most the
  capacity of the ring is outstanding; a read that has returned reports the number of bytes it copied; and reader and
  writer never wait for each other. This holds until 2 GiB have gone through the pipe.
\<close>

theorem pipe_fifo:
  assumes "pipe_reach s" "length (wlog s) < 2 ^ 31"
  shows "(\<exists>rest. wlog s = delivered s @ rest \<and> length rest \<le> PIPEBUFSIZ) \<and>
    (\<forall>x. r_pc (rdr s) = RRet x \<longrightarrow> x = int (length (r_buf (rdr s)))) \<and>
    \<not> (pipe_empty (page s) \<and> pipe_full (page s))"
proof -
  have ok: "ring_ok s" "reader_ok s" using pipe_reach_ok [OF assms] by (simp_all add: pipe_ok_def)
  have t: "taken s \<le> length (delivered s)" by (simp add: taken_def split: rpc.split)
  have "wlog s = delivered s @ drop (length (delivered s)) (wlog s)" using ok(1) unfolding ring_ok_def by (metis append_take_drop_id)
  moreover have "length (drop (length (delivered s)) (wlog s)) \<le> PIPEBUFSIZ" using ok(1) t by (auto simp: ring_ok_def)
  moreover have "\<not> (pipe_empty (page s) \<and> pipe_full (page s))"
    using ok(1) assms(2) pipe_empty_of_nat [of "page s" "taken s" "length (wlog s)"] pipe_full_of_nat [of "page s" "taken s" "length (wlog s)"]
    by (auto simp: ring_ok_def PIPEBUFSIZ_def)
  moreover have "r_pc (rdr s) = RRet x \<Longrightarrow> x = int (length (r_buf (rdr s)))" for x using ok(2) by (simp add: reader_ok_def)
  ultimately show ?thesis by blast
qed

definition pipe_demo :: psys where
  "pipe_demo = reader_turn 1 (reader_turn 1 (reader_turn 1 (next_read 4
     (writer_turn 1 (writer_turn 1 (writer_turn 1 (next_write [7] pipe_new)))))))"

lemma pipe_demo_reach: "pipe_reach pipe_demo"
proof -
  let ?w = "writer_turn 1 (writer_turn 1 (writer_turn 1 (next_write [7] pipe_new)))"
  have "pipe_reach (next_write [7] pipe_new)"
    by (rule pipe_go [OF pipe_start], rule write_call) (simp add: pipe_new_def)
  then have "pipe_reach ?w" by (intro pipe_go [OF _ write_step])
  then have "pipe_reach (next_read 4 ?w)"
    by (rule pipe_go, intro read_call) (simp add: pipe_new_def next_write_def)
  then show ?thesis unfolding pipe_demo_def by (intro pipe_go [OF _ read_step])
qed

lemma pipe_demo_state: "wlog pipe_demo = [7]" "delivered pipe_demo = [7]"
proof -
  have w: "pipe_index 0 = 0" "\<not> pipe_full \<lparr>p_rpos = 0, p_wpos = 0, p_buf = b\<rparr>" for b
    by (simp_all add: pipe_index_def pipe_full_def pos64_def PIPEBUFSIZ_def)
  have "0 < PIPEBUFSIZ" by (simp add: PIPEBUFSIZ_def)
  then show "wlog pipe_demo = [7]" "delivered pipe_demo = [7]"
    by (simp_all add: pipe_demo_def writer_turn_def reader_turn_def next_write_def next_read_def pipe_new_def devpipe_write_def
      devpipe_read_def stored_now_def delivered_def pipe_empty_def w)
qed

theorem pipe_fifo_witness:
  "wlog pipe_demo = [7] \<and> (\<exists>rest. wlog pipe_demo = delivered pipe_demo @ rest \<and> length rest \<le> PIPEBUFSIZ) \<and>
    \<not> (pipe_empty (page pipe_demo) \<and> pipe_full (page pipe_demo))"
  using pipe_fifo [OF pipe_demo_reach] by (simp add: pipe_demo_state)

section \<open>A read that finds data\<close>

lemma read_round:
  assumes "r_pc r = RTest i" "i < r_n r" "\<not> pipe_empty p"
  shows "(devpipe_read refs2 ^^ 3) (r, p) =
    (r\<lparr>r_pc := RTest (Suc i), r_buf := r_buf r @ [p_buf p ! pipe_index (p_rpos p)]\<rparr>, p\<lparr>p_rpos := p_rpos p + 1\<rparr>)"
  using assms by (simp add: devpipe_read_def numeral_3_eq_3)

lemma read_rounds:
  assumes "r_pc r = RTest i" "p_rpos p = of_nat m" "p_wpos p = of_nat (m + a)" "m + a < 2 ^ 31" "i + c \<le> r_n r" "c \<le> a"
  shows "(devpipe_read refs2 ^^ (3 * c)) (r, p) =
    (r\<lparr>r_pc := RTest (i + c), r_buf := r_buf r @ map (\<lambda>j. p_buf p ! ((m + j) mod PIPEBUFSIZ)) [0..<c]\<rparr>, p\<lparr>p_rpos := of_nat (m + c)\<rparr>)"
  using assms(5,6)
proof (induction c)
  case 0
  then show ?case using assms(1,2) by simp
next
  case (Suc c)
  let ?r = "r\<lparr>r_pc := RTest (i + c), r_buf := r_buf r @ map (\<lambda>j. p_buf p ! ((m + j) mod PIPEBUFSIZ)) [0..<c]\<rparr>"
  let ?p = "p\<lparr>p_rpos := of_nat (m + c)\<rparr>"
  have e: "\<not> pipe_empty ?p"
    using pipe_empty_of_nat [of ?p "m + c" "m + a"] assms(3,4) Suc.prems by simp
  have x: "pipe_index (p_rpos ?p) = (m + c) mod PIPEBUFSIZ"
    using pipe_index_of_nat [of "m + c"] assms(4) Suc.prems by simp
  have "(devpipe_read refs2 ^^ (3 * Suc c)) (r, p) = (devpipe_read refs2 ^^ 3) (?r, ?p)"
    using Suc by (simp add: funpow_add)
  also have "\<dots> = (r\<lparr>r_pc := RTest (i + Suc c), r_buf := r_buf r @ map (\<lambda>j. p_buf p ! ((m + j) mod PIPEBUFSIZ)) [0..<Suc c]\<rparr>,
      p\<lparr>p_rpos := of_nat (m + Suc c)\<rparr>)"
    using read_round [of ?r "i + c" ?p refs2] e x Suc.prems by (simp add: ac_simps)
  finally show ?case .
qed

text \<open>
  C38: \<^verbatim>\<open>devpipe_read\<close> ends when there is data or all writers are gone. Left alone it returns after at most three
  steps per byte and one more, with as many bytes as were asked for or are in the pipe, in order, and it advances the read
  position by that number; with an empty pipe and no writer it returns 0.
\<close>

theorem pipe_read_returns:
  assumes "p_rpos p = of_nat m" "p_wpos p = of_nat (m + a)" "m + a < 2 ^ 31" "0 < a \<or> pipeisclosed refs2"
  shows "\<exists>k r'. k \<le> 3 * n + 1 \<and>
    (devpipe_read refs2 ^^ k) (\<lparr>r_n = n, r_pc = RTest 0, r_buf = []\<rparr>, p) = (r', p\<lparr>p_rpos := of_nat (m + min n a)\<rparr>) \<and>
    r_pc r' = RRet (int (min n a)) \<and> r_buf r' = map (\<lambda>j. p_buf p ! ((m + j) mod PIPEBUFSIZ)) [0..<min n a]"
proof -
  let ?c = "min n a"
  let ?r = "\<lparr>r_n = n, r_pc = RTest ?c, r_buf = map (\<lambda>j. p_buf p ! ((m + j) mod PIPEBUFSIZ)) [0..<?c]\<rparr>"
  let ?p = "p\<lparr>p_rpos := of_nat (m + ?c)\<rparr>"
  have e: "pipe_empty ?p \<longleftrightarrow> ?c = a"
    using pipe_empty_of_nat [of ?p "m + ?c" "m + a"] assms(2,3) by simp
  have "(devpipe_read refs2 ^^ (3 * ?c)) (\<lparr>r_n = n, r_pc = RTest 0, r_buf = []\<rparr>, p) = (?r, ?p)"
    using read_rounds [of "\<lparr>r_n = n, r_pc = RTest 0, r_buf = []\<rparr>" 0 p m a ?c refs2] assms by simp
  moreover have "devpipe_read refs2 (?r, ?p) = (?r\<lparr>r_pc := RRet (int ?c)\<rparr>, ?p)"
    using e assms(4) by (auto simp: devpipe_read_def min_def)
  ultimately have "(devpipe_read refs2 ^^ Suc (3 * ?c)) (\<lparr>r_n = n, r_pc = RTest 0, r_buf = []\<rparr>, p) = (?r\<lparr>r_pc := RRet (int ?c)\<rparr>, ?p)"
    by simp
  then show ?thesis by (intro exI [of _ "Suc (3 * ?c)"] exI [of _ "?r\<lparr>r_pc := RRet (int ?c)\<rparr>"]) simp
qed

theorem pipe_read_returns_witness:
  "\<exists>k r'. k \<le> 13 \<and> (devpipe_read 1 ^^ k) (\<lparr>r_n = 4, r_pc = RTest 0, r_buf = []\<rparr>, \<lparr>p_rpos = 5, p_wpos = 7, p_buf = [9, 9, 9, 9, 9, 1, 2]\<rparr>) =
      (r', \<lparr>p_rpos = 7, p_wpos = 7, p_buf = [9, 9, 9, 9, 9, 1, 2]\<rparr>) \<and> r_pc r' = RRet 2 \<and> r_buf r' = [1, 2]"
  using pipe_read_returns [of "\<lparr>p_rpos = 5, p_wpos = 7, p_buf = [9, 9, 9, 9, 9, 1, 2]\<rparr>" 5 2 1 4]
  by (simp add: PIPEBUFSIZ_def upt_rec)

text \<open>
  After 4 GiB the positions pass from \<^verbatim>\<open>-1\<close> to \<open>0\<close>. The size of the ring does not divide \<open>2 ^ 64\<close>, so the ring index jumps by 1024 there:
  with 1024 bytes outstanding the writer finds room and overwrites the byte that is to be read next.
\<close>

theorem pipe_wrap_overwrites:
  assumes "length b = PIPEBUFSIZ"
  shows "let p = \<lparr>p_rpos = - 1023, p_wpos = 1, p_buf = b\<rparr>; (w, q) = devpipe_write refs2 (devpipe_write refs2 (\<lparr>w_src = [x], w_pc = WTest 0\<rparr>, p)) in
    devpipe_size p = 1024 \<and> p_buf q ! pipe_index (p_rpos p) = x"
proof -
  have "pipe_index 1 = 1" "pipe_index (- 1023) = 1" by (simp_all add: pipe_index_def pos64_def PIPEBUFSIZ_def)
  moreover have "\<not> pipe_full \<lparr>p_rpos = - 1023, p_wpos = 1, p_buf = b\<rparr>"
    by (simp add: pipe_full_def pos64_def PIPEBUFSIZ_def word_le_nat_alt)
  moreover have "1 < length b" using assms by (simp add: PIPEBUFSIZ_def)
  ultimately show ?thesis by (simp add: devpipe_write_def devpipe_size_def)
qed

section \<open>End of file\<close>

text \<open>
  A descriptor of a pipe in one environment: which end it is, whether its descriptor page and its data page are mapped. The
  operations map and unmap the two pages by separate system calls, between which others run.

  There are three shared pages: the descriptor page of each end and the pipe itself. The kernel keeps a count of references for each; a mapping
  adds one, an unmapping takes one away. \<^verbatim>\<open>region_maxref\<close> on a region of one page is the count of the page
  mapped there, and 0 when none is (lemma \<open>region_maxref_page\<close> of \<open>VmRegion\<close>), and \<^verbatim>\<open>sys_region_refs\<close> is the difference of two of them.
\<close>

datatype side = Rd | Wr

record pend =
  e_env :: nat
  e_side :: side
  e_fd :: bool
  e_data :: bool

record pshare =
  ends :: "pend list"
  fd_refs :: "side \<Rightarrow> nat"
  data_refs :: nat

definition page_maxref :: "bool \<Rightarrow> nat \<Rightarrow> nat" where
  "page_maxref is_mapped refs = (if is_mapped then refs else 0)"

text \<open>Called with the descriptor \<open>i\<close>.\<close>

definition region_refs2 :: "nat \<Rightarrow> pshare \<Rightarrow> int" where
  "region_refs2 i s = (let e = ends s ! i;
       maxref = int (page_maxref (e_fd e) (fd_refs s (e_side e)));
       maxref2 = int (page_maxref (e_data e) (data_refs s))
     in maxref - maxref2)"

text \<open>The mappings of a new descriptor, and a descriptor whose mappings change.\<close>

definition page_refs :: "bool \<Rightarrow> nat \<Rightarrow> nat" where "page_refs is_mapped n = (if is_mapped then n + 1 else n)"

definition page_unrefs :: "bool \<Rightarrow> nat \<Rightarrow> nat" where "page_unrefs is_mapped n = (if is_mapped then n - 1 else n)"

definition ref_end :: "pend \<Rightarrow> pshare \<Rightarrow> pshare" where
  "ref_end e s = s\<lparr>fd_refs := (fd_refs s)(e_side e := page_refs (e_fd e) (fd_refs s (e_side e))), data_refs := page_refs (e_data e) (data_refs s)\<rparr>"

definition unref_end :: "pend \<Rightarrow> pshare \<Rightarrow> pshare" where
  "unref_end e s = s\<lparr>fd_refs := (fd_refs s)(e_side e := page_unrefs (e_fd e) (fd_refs s (e_side e))), data_refs := page_unrefs (e_data e) (data_refs s)\<rparr>"

definition add_end :: "pend \<Rightarrow> pshare \<Rightarrow> pshare" where
  "add_end e s = (ref_end e s)\<lparr>ends := ends s @ [e]\<rparr>"

definition remap_end :: "nat \<Rightarrow> pend \<Rightarrow> pshare \<Rightarrow> pshare" where
  "remap_end i e s = (ref_end e (unref_end (ends s ! i) s))\<lparr>ends := (ends s)[i := e]\<rparr>"

definition pipe_ends :: pshare where
  "pipe_ends = fold (\<lambda>sd. add_end \<lparr>e_env = 0, e_side = sd, e_fd = True, e_data = True\<rparr>) [Rd, Wr] \<lparr>ends = [], fd_refs = (\<lambda>sd. 0), data_refs = 0\<rparr>"

text \<open>The two calls of \<^verbatim>\<open>devpipe_close\<close> and the two of \<^verbatim>\<open>dup\<close>, in the order of the code.\<close>

definition devpipe_close :: "pend \<Rightarrow> pend" where
  "devpipe_close e = (if e_fd e then e\<lparr>e_fd := False\<rparr> else e\<lparr>e_data := False\<rparr>)"

definition dup_data :: "pend \<Rightarrow> pend" where "dup_data e = e\<lparr>e_fd := False\<rparr>"

definition dup_fd :: "pend \<Rightarrow> pend" where "dup_fd e = e\<lparr>e_fd := True\<rparr>"

text \<open>\<^verbatim>\<open>fork\<close> copies the whole address space in one system call; \<^verbatim>\<open>spawn\<close> copies the shared pages one by one from the
  lowest address on, descriptors first.\<close>

definition forked :: "nat \<Rightarrow> nat \<Rightarrow> pend list \<Rightarrow> pend list" where
  "forked p c es = map (\<lambda>e. e\<lparr>e_env := c\<rparr>) (filter (\<lambda>e. e_env e = p) es)"

definition end_env :: "nat \<Rightarrow> pshare \<Rightarrow> pshare" where
  "end_env p s = (fold unref_end (filter (\<lambda>e. e_env e = p) (ends s)) s)\<lparr>ends := filter (\<lambda>e. e_env e \<noteq> p) (ends s)\<rparr>"

inductive ends_step :: "pshare \<Rightarrow> pshare \<Rightarrow> bool" where
  close_step: "i < length (ends s) \<Longrightarrow> ends_step s (remap_end i (devpipe_close (ends s ! i)) s)"
| dup_first: "i < length (ends s) \<Longrightarrow> e_data (ends s ! i) \<Longrightarrow> ends_step s (add_end (dup_data (ends s ! i)) s)"
| dup_second: "i < length (ends s) \<Longrightarrow> e_data (ends s ! i) \<Longrightarrow> ends_step s (remap_end i (dup_fd (ends s ! i)) s)"
| fork_step: "ends_step s (fold add_end (forked p c (ends s)) s)"
| exit_step: "ends_step s (end_env p s)"

definition spawn_fds :: "nat \<Rightarrow> nat \<Rightarrow> pshare \<Rightarrow> pshare" where
  "spawn_fds p c s = fold add_end (map (\<lambda>e. e\<lparr>e_data := False\<rparr>) (forked p c (ends s))) s"

subsection \<open>The counts are those of the mappings\<close>

definition fd_mapped :: "side \<Rightarrow> pend list \<Rightarrow> nat" where
  "fd_mapped sd es = length (filter (\<lambda>e. e_side e = sd \<and> e_fd e) es)"

definition data_mapped :: "pend list \<Rightarrow> nat" where
  "data_mapped es = length (filter e_data es)"

definition counts_ok :: "pshare \<Rightarrow> bool" where
  "counts_ok s \<longleftrightarrow> (\<forall>sd. fd_refs s sd = fd_mapped sd (ends s)) \<and> data_refs s = data_mapped (ends s)"

definition ends_ok :: "pshare \<Rightarrow> bool" where
  "ends_ok s \<longleftrightarrow> (\<forall>e\<in>set (ends s). e_fd e \<longrightarrow> e_data e) \<and> counts_ok s"

lemmas pshare_defs = add_end_def remap_end_def ref_end_def unref_end_def page_refs_def page_unrefs_def

lemma ends_simps [simp]:
  "ends (add_end e s) = ends s @ [e]" "ends (remap_end i e s) = (ends s)[i := e]" "ends (end_env p s) = filter (\<lambda>e. e_env e \<noteq> p) (ends s)"
  by (simp_all add: pshare_defs end_env_def)

lemma counts_add: "counts_ok s \<Longrightarrow> counts_ok (add_end e s)"
  by (simp add: counts_ok_def pshare_defs fd_mapped_def data_mapped_def)

lemma ends_add_all: "ends (fold add_end es s) = ends s @ es"
  by (induction es arbitrary: s) (simp_all add: pshare_defs)

lemma counts_add_all: "counts_ok s \<Longrightarrow> counts_ok (fold add_end es s)"
  by (induction es arbitrary: s) (simp_all add: counts_add)

lemma filter_length_update:
  "i < length xs \<Longrightarrow> length (filter P (xs[i := y])) = length (filter P xs) - (if P (xs ! i) then 1 else 0) + (if P y then 1 else 0)"
proof (induction xs arbitrary: i)
  case (Cons x xs)
  show ?case
  proof (cases i)
    case (Suc j)
    then have "P (xs ! j) \<Longrightarrow> filter P xs \<noteq> []" using Cons.prems by (auto simp: filter_empty_conv)
    then show ?thesis using Cons Suc by (cases "filter P xs") auto
  qed simp
qed simp

lemma counts_remap:
  assumes "counts_ok s" "i < length (ends s)" "e_side e = e_side (ends s ! i)"
  shows "counts_ok (remap_end i e s)"
  using assms by (auto simp: counts_ok_def pshare_defs fd_mapped_def data_mapped_def filter_length_update)

lemma unref_all:
  "fd_refs (fold unref_end es s) sd = fd_refs s sd - fd_mapped sd es" "data_refs (fold unref_end es s) = data_refs s - data_mapped es"
  by (induction es arbitrary: s) (auto simp: unref_end_def page_unrefs_def fd_mapped_def data_mapped_def)

lemma counts_end_env: "counts_ok s \<Longrightarrow> counts_ok (end_env p s)"
proof -
  have "fd_mapped sd es = fd_mapped sd (filter (\<lambda>e. e_env e = p) es) + fd_mapped sd (filter (\<lambda>e. e_env e \<noteq> p) es)" for sd es
    by (induction es) (auto simp: fd_mapped_def)
  moreover have "data_mapped es = data_mapped (filter (\<lambda>e. e_env e = p) es) + data_mapped (filter (\<lambda>e. e_env e \<noteq> p) es)" for es
    by (induction es) (auto simp: data_mapped_def)
  ultimately have "fd_mapped sd es - fd_mapped sd (filter (\<lambda>e. e_env e = p) es) = fd_mapped sd (filter (\<lambda>e. e_env e \<noteq> p) es)"
    "data_mapped es - data_mapped (filter (\<lambda>e. e_env e = p) es) = data_mapped (filter (\<lambda>e. e_env e \<noteq> p) es)" for sd es
    by (metis add_diff_cancel_left')+
  then show "counts_ok s \<Longrightarrow> counts_ok (end_env p s)" by (simp add: counts_ok_def end_env_def unref_all)
qed

lemma ends_ok_remap:
  assumes "ends_ok s" "i < length (ends s)" "e_side e = e_side (ends s ! i)" "e_fd e \<longrightarrow> e_data e"
  shows "ends_ok (remap_end i e s)"
  using assms set_update_subset_insert [of "ends s" i e] counts_remap [of s i e] by (auto simp: ends_ok_def)

lemma ends_step_ok: "ends_step s t \<Longrightarrow> ends_ok s \<Longrightarrow> ends_ok t"
proof (induction rule: ends_step.induct)
  case (close_step i s)
  then have "e_fd (ends s ! i) \<longrightarrow> e_data (ends s ! i)" by (simp add: ends_ok_def)
  then show ?case using close_step by (intro ends_ok_remap) (auto simp: devpipe_close_def)
next
  case (dup_first i s)
  then show ?case by (auto simp: ends_ok_def dup_data_def counts_add)
next
  case (dup_second i s)
  then show ?case by (intro ends_ok_remap) (auto simp: dup_fd_def)
next
  case (fork_step s p c)
  then show ?case by (auto simp: ends_ok_def ends_add_all counts_add_all forked_def)
next
  case (exit_step s p)
  then show ?case using counts_end_env [of s p] by (auto simp: ends_ok_def)
qed

lemma ends_reach_ok: "ends_step\<^sup>*\<^sup>* pipe_ends s \<Longrightarrow> ends_ok s"
proof (induction rule: rtranclp_induct)
  case base
  show ?case by (simp add: ends_ok_def pipe_ends_def counts_add) (auto simp: pshare_defs counts_ok_def fd_mapped_def data_mapped_def)
qed (rule ends_step_ok)

lemma filter_same_length:
  assumes "\<And>x. x \<in> set xs \<Longrightarrow> P x \<Longrightarrow> Q x"
  shows "length (filter P xs) = length (filter Q xs) \<longleftrightarrow> (\<forall>x\<in>set xs. Q x \<longrightarrow> P x)"
proof
  assume l: "length (filter P xs) = length (filter Q xs)"
  have "filter P xs = filter P (filter Q xs)" using assms by (auto intro!: filter_cong)
  then have "length (filter P (filter Q xs)) = length (filter Q xs)" using l by simp
  then show "\<forall>x\<in>set xs. Q x \<longrightarrow> P x" using length_filter_less [of _ "filter Q xs" P] by fastforce
next
  assume "\<forall>x\<in>set xs. Q x \<longrightarrow> P x"
  then have "filter P xs = filter Q xs" using assms by (auto intro!: filter_cong)
  then show "length (filter P xs) = length (filter Q xs)" by simp
qed

text \<open>
  C21: when a pipe is reported closed. However the system calls of \<^verbatim>\<open>dup\<close>, \<^verbatim>\<open>close\<close>, \<^verbatim>\<open>fork\<close> and exit of any
  environments are interleaved, \<^verbatim>\<open>pipeisclosed\<close> on an open descriptor holds if and only if every descriptor that still has the pipe's page mapped is
  of the same end and has its descriptor page mapped too. So it never holds while a descriptor of the other end is open anywhere, and it does hold once the
  other end is gone and no \<^verbatim>\<open>dup\<close> or \<^verbatim>\<open>close\<close> is half done.
\<close>

theorem pipe_eof_exact:
  assumes "ends_step\<^sup>*\<^sup>* pipe_ends s" "i < length (ends s)" "e_fd (ends s ! i)" "e_data (ends s ! i)"
  shows "pipeisclosed (region_refs2 i s) \<longleftrightarrow> (\<forall>e\<in>set (ends s). e_data e \<longrightarrow> e_side e = e_side (ends s ! i) \<and> e_fd e)"
proof -
  let ?sd = "e_side (ends s ! i)"
  have ok: "ends_ok s" by (rule ends_reach_ok [OF assms(1)])
  have "pipeisclosed (region_refs2 i s) \<longleftrightarrow> length (filter (\<lambda>e. e_side e = ?sd \<and> e_fd e) (ends s)) = length (filter e_data (ends s))"
    using ok assms(3,4) by (simp add: pipeisclosed_def region_refs2_def page_maxref_def ends_ok_def counts_ok_def fd_mapped_def data_mapped_def)
  also have "\<dots> \<longleftrightarrow> (\<forall>e\<in>set (ends s). e_data e \<longrightarrow> e_side e = ?sd \<and> e_fd e)"
    by (rule filter_same_length) (use ok in \<open>simp add: ends_ok_def\<close>)
  finally show ?thesis .
qed

lemma pipe_ends_eq:
  "pipe_ends = \<lparr>ends = [\<lparr>e_env = 0, e_side = Rd, e_fd = True, e_data = True\<rparr>, \<lparr>e_env = 0, e_side = Wr, e_fd = True, e_data = True\<rparr>],
     fd_refs = (\<lambda>sd. 1), data_refs = 2\<rparr>"
  by (auto simp: pipe_ends_def pshare_defs fun_eq_iff) (metis side.exhaust)

theorem pipe_eof_exact_witness:
  "\<exists>s t. ends_step pipe_ends s \<and> ends_step s t \<and> \<not> pipeisclosed (region_refs2 0 s) \<and> pipeisclosed (region_refs2 0 t)"
proof -
  define s where "s = remap_end 1 (devpipe_close (ends pipe_ends ! 1)) pipe_ends"
  define t where "t = remap_end 1 (devpipe_close (ends s ! 1)) s"
  have es: "ends s = [\<lparr>e_env = 0, e_side = Rd, e_fd = True, e_data = True\<rparr>, \<lparr>e_env = 0, e_side = Wr, e_fd = False, e_data = True\<rparr>]"
    by (simp add: s_def pipe_ends_eq devpipe_close_def)
  have et: "ends t = [\<lparr>e_env = 0, e_side = Rd, e_fd = True, e_data = True\<rparr>, \<lparr>e_env = 0, e_side = Wr, e_fd = False, e_data = False\<rparr>]"
    by (simp add: t_def es devpipe_close_def)
  have l: "1 < length (ends pipe_ends)" "1 < length (ends s)" by (simp_all add: pipe_ends_eq es)
  have st: "ends_step pipe_ends s" "ends_step s t"
    using close_step [OF l(1)] close_step [OF l(2)] by (simp_all only: s_def [symmetric] t_def [symmetric])
  then have "ends_step\<^sup>*\<^sup>* pipe_ends s" "ends_step\<^sup>*\<^sup>* pipe_ends t" by (meson converse_rtranclp_into_rtranclp r_into_rtranclp)+
  then have "\<not> pipeisclosed (region_refs2 0 s)" "pipeisclosed (region_refs2 0 t)"
    using pipe_eof_exact [of s 0] pipe_eof_exact [of t 0] by (simp_all add: es et)
  then show ?thesis using st by blast
qed

text \<open>
  \<^verbatim>\<open>spawn\<close> breaks this: when an environment that holds both ends of the pipe starts a program, the child's descriptor pages are
  mapped before its data pages, and a reader in another environment sees end of file although both ends are open for writing.
\<close>

theorem pipe_spawn_false_eof:
  "\<exists>s. ends_step\<^sup>*\<^sup>* pipe_ends s \<and> \<not> pipeisclosed (region_refs2 2 s) \<and>
     pipeisclosed (region_refs2 2 (spawn_fds 0 2 s)) \<and> (\<exists>e\<in>set (ends (spawn_fds 0 2 s)). e_side e = Wr \<and> e_fd e \<and> e_data e)"
proof -
  define a where "a = fold add_end (forked 0 1 (ends pipe_ends)) pipe_ends"
  define b where "b = remap_end 3 (devpipe_close (ends a ! 3)) a"
  define c where "c = remap_end 3 (devpipe_close (ends b ! 3)) b"
  have a: "a = \<lparr>ends = [\<lparr>e_env = 0, e_side = Rd, e_fd = True, e_data = True\<rparr>, \<lparr>e_env = 0, e_side = Wr, e_fd = True, e_data = True\<rparr>,
      \<lparr>e_env = 1, e_side = Rd, e_fd = True, e_data = True\<rparr>, \<lparr>e_env = 1, e_side = Wr, e_fd = True, e_data = True\<rparr>], fd_refs = (\<lambda>sd. 2), data_refs = 4\<rparr>"
    by (auto simp: a_def pipe_ends_eq forked_def pshare_defs fun_eq_iff) (metis side.exhaust)
  have l: "3 < length (ends a)" "3 < length (ends b)" by (simp_all add: a b_def)
  have "ends_step pipe_ends a" unfolding a_def by (rule fork_step)
  moreover have "ends_step a b" "ends_step b c"
    using close_step [OF l(1)] close_step [OF l(2)] by (simp_all only: b_def [symmetric] c_def [symmetric])
  ultimately have "ends_step\<^sup>*\<^sup>* pipe_ends c" by (meson converse_rtranclp_into_rtranclp r_into_rtranclp)
  moreover have "c = \<lparr>ends = [\<lparr>e_env = 0, e_side = Rd, e_fd = True, e_data = True\<rparr>, \<lparr>e_env = 0, e_side = Wr, e_fd = True, e_data = True\<rparr>,
      \<lparr>e_env = 1, e_side = Rd, e_fd = True, e_data = True\<rparr>, \<lparr>e_env = 1, e_side = Wr, e_fd = False, e_data = False\<rparr>],
      fd_refs = (\<lambda>sd. 2)(Wr := 1), data_refs = 3\<rparr>"
    by (simp add: c_def b_def a devpipe_close_def pshare_defs numeral_3_eq_3)
  ultimately show ?thesis
    by (intro exI [of _ c]) (simp add: forked_def spawn_fds_def pipeisclosed_def region_refs2_def page_maxref_def pshare_defs)
qed

end
