(* ===== verification/Env.thy ===== *)
theory Env
  imports VPrintf
begin

text \<open>
  Environments and the scheduler (\<^verbatim>\<open>kern/env.c\<close>, \<^verbatim>\<open>kern/sched.c\<close>, \<^verbatim>\<open>inc/env.h\<close>).

  The environment table is a list of 1024 records; a \<^verbatim>\<open>struct Env *\<close> is an index, \<open>None\<close> the null
  pointer. The free list is threaded through \<open>env_link\<close>. The memory manager of
  \<^verbatim>\<open>kern/pmap.c\<close> is a parameter here (\<open>KernVm\<close> gives it its model): the functions the code calls are arguments, collected in
  the record \<open>vm\<close>, which act on an abstract memory state \<open>mm\<close> and name an address space by the index
  of its environment. Trace output is off.

  \<^verbatim>\<open>sched_yield\<close>, \<^verbatim>\<open>env_run\<close> and \<^verbatim>\<open>sched_halt\<close> never return to their caller: an \<open>outcome\<close> says how they end.
\<close>

section \<open>Data\<close>

definition NENV :: nat where "NENV = 1024"

definition ENVX :: "u32 \<Rightarrow> nat" where "ENVX envid = unat (envid AND 1023)"

datatype env_status_t = ENV_FREE | ENV_DYING | ENV_RUNNABLE | ENV_RUNNING | ENV_NOT_RUNNABLE


datatype EnvType = ENV_TYPE_IDLE | ENV_TYPE_KERNEL | ENV_TYPE_USER | ENV_TYPE_FS

record PushRegs =
  reg_r15 :: u64
  reg_r14 :: u64
  reg_r13 :: u64
  reg_r12 :: u64
  reg_r11 :: u64
  reg_r10 :: u64
  reg_r9 :: u64
  reg_r8 :: u64
  reg_rsi :: u64
  reg_rdi :: u64
  reg_rbp :: u64
  reg_rdx :: u64
  reg_rcx :: u64
  reg_rbx :: u64
  reg_rax :: u64

record Trapframe =
  tf_regs :: PushRegs
  tf_es :: u16
  tf_ds :: u16
  tf_trapno :: u64
  tf_err :: u64
  tf_rip :: u64
  tf_cs :: u16
  tf_rflags :: u64
  tf_rsp :: u64
  tf_ss :: u16

record UTrapframe =
  utf_fault_va :: u64
  utf_err :: u64
  utf_regs :: PushRegs
  utf_rip :: u64
  utf_rflags :: u64
  utf_rsp :: u64

definition zero_regs :: PushRegs where
  "zero_regs = \<lparr>reg_r15 = 0, reg_r14 = 0, reg_r13 = 0, reg_r12 = 0, reg_r11 = 0, reg_r10 = 0, reg_r9 = 0,
     reg_r8 = 0, reg_rsi = 0, reg_rdi = 0, reg_rbp = 0, reg_rdx = 0, reg_rcx = 0, reg_rbx = 0, reg_rax = 0\<rparr>"

definition zero_tf :: Trapframe where
  "zero_tf = \<lparr>tf_regs = zero_regs, tf_es = 0, tf_ds = 0, tf_trapno = 0, tf_err = 0, tf_rip = 0, tf_cs = 0,
     tf_rflags = 0, tf_rsp = 0, tf_ss = 0\<rparr>"

record Env =
  env_tf :: Trapframe
  env_link :: "nat option"
  env_id :: u32
  env_parent_id :: u32
  env_type :: EnvType
  env_status :: env_status_t
  env_runs :: u32
  env_pgfault_upcall :: u64
  env_ipc_recving :: bool
  env_ipc_dstva :: u64
  env_ipc_maxsz :: u64
  env_ipc_value :: u32
  env_ipc_from :: u32
  env_ipc_perm :: u32

definition zero_env :: Env where
  "zero_env = \<lparr>env_tf = zero_tf, env_link = None, env_id = 0, env_parent_id = 0, env_type = ENV_TYPE_IDLE,
     env_status = ENV_FREE, env_runs = 0, env_pgfault_upcall = 0, env_ipc_recving = False, env_ipc_dstva = 0,
     env_ipc_maxsz = 0, env_ipc_value = 0, env_ipc_from = 0, env_ipc_perm = 0\<rparr>"

record 'm kern = kcons +
  envs :: "Env list"
  curenv :: "nat option"
  env_free_list :: "nat option"
  in_page_fault :: bool
  mm :: 'm

text \<open>
  The memory manager and the devices the kernel calls, in one record of functions.

  \<^item> \<open>vm_init\<close>, \<open>vm_release\<close>: \<^verbatim>\<open>init_address_space\<close>, \<^verbatim>\<open>release_address_space\<close>;
  \<^item> \<open>vm_current\<close>, \<open>vm_switch\<close>: the space \<^verbatim>\<open>current_space\<close> points to (\<open>None\<close>: null, before the kernel's space is
    loaded; \<open>Some None\<close>: the kernel's; \<open>Some (Some i)\<close>: that of environment \<open>i\<close>) and \<^verbatim>\<open>switch_address_space\<close>;
  \<^item> \<open>vm_map m dst va src srcva size perm\<close>: \<^verbatim>\<open>map_region\<close> (\<open>src = None\<close> for a fresh allocation);
    \<open>vm_unmap\<close>: \<^verbatim>\<open>unmap_region\<close>; \<open>vm_maxref\<close>: \<^verbatim>\<open>region_maxref\<close>;
  \<^item> \<open>vm_page\<close>: \<^verbatim>\<open>page_lookup_virtual\<close>, the \<^verbatim>\<open>state\<close> of the page at an address, \<open>None\<close> when it has no
    physical page;
  \<^item> \<open>vm_force\<close>: the lazy allocation and copying of \<^verbatim>\<open>force_alloc_page\<close>, with its result code;
  \<^item> \<open>vm_bytes\<close>, \<open>vm_trapframe\<close>, \<open>vm_put_utf\<close>: what the processor reads and writes at a user address (\<open>None\<close>: it faults);
  \<^item> \<open>k_getc\<close>, \<open>k_gettime\<close>, \<open>k_intr\<close>, \<open>k_monitor\<close>: \<^verbatim>\<open>cons_getc\<close>, \<^verbatim>\<open>gettime\<close>, the device part of an interrupt
    handler, a session in the kernel monitor; \<open>k_tf_addr\<close> is the address of \<^verbatim>\<open>envs[i].env_tf\<close>.
\<close>

record 'm vm =
  vm_init :: "'m \<Rightarrow> nat \<Rightarrow> int \<times> 'm"
  vm_release :: "'m \<Rightarrow> nat \<Rightarrow> 'm"
  vm_current :: "'m \<Rightarrow> nat option option"
  vm_switch :: "'m \<Rightarrow> nat option \<Rightarrow> 'm"
  vm_map :: "'m \<Rightarrow> nat \<Rightarrow> u64 \<Rightarrow> nat option \<Rightarrow> u64 \<Rightarrow> u64 \<Rightarrow> u32 \<Rightarrow> int \<times> 'm"
  vm_unmap :: "'m \<Rightarrow> nat \<Rightarrow> u64 \<Rightarrow> u64 \<Rightarrow> 'm"
  vm_maxref :: "'m \<Rightarrow> nat \<Rightarrow> u64 \<Rightarrow> u64 \<Rightarrow> int"
  vm_page :: "'m \<Rightarrow> nat \<Rightarrow> u64 \<Rightarrow> u32 option"
  vm_force :: "'m \<Rightarrow> nat option \<Rightarrow> u64 \<Rightarrow> int \<times> 'm"
  vm_bytes :: "'m \<Rightarrow> nat \<Rightarrow> u64 \<Rightarrow> byte list"
  vm_trapframe :: "'m \<Rightarrow> nat \<Rightarrow> u64 \<Rightarrow> Trapframe option"
  vm_put_utf :: "'m \<Rightarrow> nat \<Rightarrow> u64 \<Rightarrow> UTrapframe \<Rightarrow> 'm"
  k_getc :: "'m \<Rightarrow> u32 \<times> 'm"
  k_gettime :: "'m \<Rightarrow> u32"
  k_intr :: "u64 \<Rightarrow> 'm \<Rightarrow> 'm"
  k_monitor :: "'m \<Rightarrow> 'm"
  k_tf_addr :: "nat \<Rightarrow> u64"

text \<open>
  How an operation ends: it returns a value to its caller, or it does not return: an environment
  is entered (\<open>Run\<close>), the interrupted code continues (\<open>Resume\<close>), the kernel monitor loops, the
  processor sleeps, or a check of user memory loops.
\<close>

datatype outcome = Return int | Run | Resume | Monitor | Halt | Spin

definition env_upd :: "nat \<Rightarrow> (Env \<Rightarrow> Env) \<Rightarrow> ('m, 'z) kern_scheme \<Rightarrow> ('m, 'z) kern_scheme" where
  "env_upd i f s = s\<lparr>envs := (envs s)[i := f (envs s ! i)]\<rparr>"

section \<open>Operations\<close>

text \<open>\<open>Inl\<close> is \<^verbatim>\<open>-E_BAD_ENV\<close>; on success the pointer stored, null when there is no current environment.\<close>

definition envid2env :: "('m, 'z) kern_scheme \<Rightarrow> u32 \<Rightarrow> bool \<Rightarrow> (int + nat option) res" where
  "envid2env s envid need_check_perm =
     (if envid = 0 then Inr (Inr (curenv s))
      else let i = ENVX envid; env = envs s ! i in
        if env_status env = ENV_FREE \<or> env_id env \<noteq> envid then Inr (Inl (-2))
        else if need_check_perm \<and> Some i \<noteq> curenv s
        then (case curenv s of None \<Rightarrow> Inl NullDeref
              | Some c \<Rightarrow> if env_parent_id env \<noteq> env_id (envs s ! c) then Inr (Inl (-2)) else Inr (Inr (Some i)))
        else Inr (Inr (Some i)))"

fun link_envs :: "nat \<Rightarrow> Env list \<Rightarrow> Env list" where
  "link_envs i [] = []"
| "link_envs i [e] = [e\<lparr>env_status := ENV_FREE, env_link := None, env_id := 0\<rparr>]"
| "link_envs i (e # e' # es) =
     e\<lparr>env_status := ENV_FREE, env_link := Some (Suc i), env_id := 0\<rparr> # link_envs (Suc i) (e' # es)"

text \<open>
  \<open>env_init\<close>: the table is allocated and cleared (\<^verbatim>\<open>kzalloc_region\<close>, \<^verbatim>\<open>memset\<close>) and linked; \<open>map_kernel\<close> stands for
  mapping the table and the virtual system call page into user space.
\<close>

definition env_init :: "('m \<Rightarrow> 'm) \<Rightarrow> ('m, 'z) kern_scheme \<Rightarrow> ('m, 'z) kern_scheme" where
  "env_init map_kernel s =
     s\<lparr>envs := link_envs 0 (replicate NENV zero_env), env_free_list := Some 0, mm := map_kernel (mm s)\<rparr>"

definition USER_STACK_TOP :: u64 where "USER_STACK_TOP = 0x7FFFFF7000"
definition GD_UT :: u16 where "GD_UT = 0x28"
definition GD_UD :: u16 where "GD_UD = 0x30"
definition FL_IF :: u64 where "FL_IF = 0x200"
definition FL_IOPL_3 :: u64 where "FL_IOPL_3 = 0x3000"

definition new_envid :: "u32 \<Rightarrow> nat \<Rightarrow> u32" where
  "new_envid old i =
     (let generation = (old + 4096) AND NOT 1023;
          generation = (if sint generation \<le> 0 then 4096 else generation)
      in generation OR of_nat i)"

definition user_tf :: "EnvType \<Rightarrow> Trapframe" where
  "user_tf type = zero_tf\<lparr>tf_ds := GD_UD OR 3, tf_es := GD_UD OR 3, tf_ss := GD_UD OR 3, tf_cs := GD_UT OR 3,
     tf_rsp := USER_STACK_TOP, tf_rflags := FL_IF OR (if type = ENV_TYPE_FS then FL_IOPL_3 else 0)\<rparr>"

definition env_alloc :: "'m vm \<Rightarrow> u32 \<Rightarrow> EnvType \<Rightarrow> ('m, 'z) kern_scheme \<Rightarrow> (int + nat) \<times> ('m, 'z) kern_scheme" where
  "env_alloc v parent_id type s = (case env_free_list s of None \<Rightarrow> (Inl (-5), s) | Some i \<Rightarrow>
     let (res, m) = vm_init v (mm s) i; s = s\<lparr>mm := m\<rparr> in
     if res < 0 then (Inl res, s)
     else let s = env_upd i (\<lambda>e. e\<lparr>env_id := new_envid (env_id e) i, env_parent_id := parent_id, env_type := type,
                      env_status := ENV_RUNNABLE, env_runs := 0, env_tf := user_tf type,
                      env_pgfault_upcall := 0, env_ipc_recving := False\<rparr>) s
          in (Inr i, s\<lparr>env_free_list := env_link (envs s ! i)\<rparr>))"

definition env_free :: "'m vm \<Rightarrow> nat \<Rightarrow> ('m, 'z) kern_scheme \<Rightarrow> ('m, 'z) kern_scheme" where
  "env_free v i s =
     (let m = (if vm_current v (mm s) = Some (Some i) then vm_switch v (mm s) None else mm s);
          s = s\<lparr>mm := vm_release v m i\<rparr>;
          s = env_upd i (\<lambda>e. e\<lparr>env_status := ENV_FREE, env_link := env_free_list s\<rparr>) s
      in s\<lparr>env_free_list := Some i\<rparr>)"

definition env_enter :: "'m vm \<Rightarrow> nat \<Rightarrow> ('m, 'z) kern_scheme \<Rightarrow> outcome \<times> ('m, 'z) kern_scheme" where
  "env_enter v i s = (Run, (env_upd i (\<lambda>e. e\<lparr>env_status := ENV_RUNNING, env_runs := env_runs e + 1\<rparr>) s)
     \<lparr>curenv := Some i, mm := vm_switch v (mm s) (Some i)\<rparr>)"

definition runnable :: "('m, 'z) kern_scheme \<Rightarrow> nat \<Rightarrow> bool" where
  "runnable s i \<longleftrightarrow> env_status (envs s ! i) = ENV_RUNNABLE"

definition sched_halt :: "('m, 'z) kern_scheme \<Rightarrow> outcome \<times> ('m, 'z) kern_scheme" where
  "sched_halt s =
     (if list_ex (\<lambda>i. runnable s i \<or> env_status (envs s ! i) = ENV_RUNNING) [0..<NENV]
      then (Halt, s\<lparr>curenv := None\<rparr>)
      else (Monitor, cprintf (bytes_of ''No runnable environments in the system!'' @ [10]) s))"

text \<open>The search of \<open>sched_yield\<close>: from the current index to the end, then from 0 up to it.\<close>

definition sched_start :: "('m, 'z) kern_scheme \<Rightarrow> nat" where
  "sched_start s = (case curenv s of None \<Rightarrow> 0 | Some c \<Rightarrow> ENVX (env_id (envs s ! c)))"

definition sched_pick :: "('m, 'z) kern_scheme \<Rightarrow> nat option" where
  "sched_pick s = (let start = sched_start s in
     case find (runnable s) [start..<NENV] of Some i \<Rightarrow> Some i
     | None \<Rightarrow> case find (runnable s) [0..<start] of Some i \<Rightarrow> Some i
     | None \<Rightarrow> if env_status (envs s ! start) = ENV_RUNNING then Some start else None)"

text \<open>
  \<open>env_run\<close>. When the current environment is dying it is freed first, and if it is the one to run
  \<open>sched_yield\<close> is called; its status is free by then, so that call enters the environment it picks
  directly.
\<close>

definition env_run :: "'m vm \<Rightarrow> nat \<Rightarrow> ('m, 'z) kern_scheme \<Rightarrow> outcome \<times> ('m, 'z) kern_scheme" where
  "env_run v i s = (case curenv s of None \<Rightarrow> env_enter v i s | Some c \<Rightarrow>
     if env_status (envs s ! c) = ENV_RUNNING
     then env_enter v i (env_upd c (\<lambda>e. e\<lparr>env_status := ENV_RUNNABLE\<rparr>) s)
     else if env_status (envs s ! c) = ENV_DYING
     then let s = env_free v c s in
          if c = i then (case sched_pick s of Some j \<Rightarrow> env_enter v j s
                         | None \<Rightarrow> sched_halt (cprintf (bytes_of ''Halt'' @ [10]) s))
          else env_enter v i s
     else env_enter v i s)"

definition sched_yield :: "'m vm \<Rightarrow> ('m, 'z) kern_scheme \<Rightarrow> outcome \<times> ('m, 'z) kern_scheme" where
  "sched_yield v s = (case sched_pick s of Some i \<Rightarrow> env_run v i s
     | None \<Rightarrow> sched_halt (cprintf (bytes_of ''Halt'' @ [10]) s))"

text \<open>\<open>env_destroy\<close> returns to its caller unless the current environment was destroyed.\<close>

definition env_destroy :: "'m vm \<Rightarrow> nat \<Rightarrow> ('m, 'z) kern_scheme \<Rightarrow> outcome \<times> ('m, 'z) kern_scheme" where
  "env_destroy v i s =
     (let s = env_free v i (env_upd i (\<lambda>e. e\<lparr>env_status := ENV_DYING\<rparr>) s) in
      if curenv s = Some i then sched_yield v s
      else (Return 0, s\<lparr>in_page_fault := False\<rparr>))"

section \<open>Environment ids\<close>

lemma sint_pos_iff: "0 < sint (w :: u32) \<longleftrightarrow> \<not> bit w 31 \<and> w \<noteq> 0"
proof -
  have "sint w = 0 \<longleftrightarrow> w = 0" by (metis signed_0 signed_eq_0_iff)
  moreover have "sint w < 0 \<longleftrightarrow> bit w 31"
    using sint_range_size [of w] by (simp add: sint_uint signed_take_bit_negative_iff bit_uint_iff)
  ultimately show ?thesis by linarith
qed

lemma ENVX_mod: "ENVX w = unat w mod 1024"
proof -
  have "w AND 1023 = take_bit 10 w" by (simp add: take_bit_eq_mask mask_eq_exp_minus_1)
  then show ?thesis by (simp add: ENVX_def take_bit_eq_mod unat_mod)
qed

lemma ENVX_less: "ENVX w < 1024"
  by (simp add: ENVX_mod)

lemma bit_low: "i < 1024 \<Longrightarrow> bit (of_nat i :: u32) n \<Longrightarrow> n < 10"
proof (rule ccontr)
  assume "i < 1024" "bit (of_nat i :: u32) n" "\<not> n < 10"
  then have "bit i n" by (simp add: bit_simps)
  moreover have "i < 2 ^ n" using \<open>i < 1024\<close> \<open>\<not> n < 10\<close> power_increasing [of 10 n "2 :: nat"] by simp
  ultimately show False by (simp add: bit_iff_odd)
qed

lemma bit_hmask: "bit (g AND NOT (1023 :: u32)) n \<longleftrightarrow> bit g n \<and> 10 \<le> n"
proof -
  have "(1023 :: u32) = mask 10" by (simp add: mask_eq_exp_minus_1)
  then show ?thesis by (auto simp only: bit_and_iff bit_not_iff bit_mask_iff) (auto dest: bit_imp_le_length)
qed

lemma high_low:
  assumes "i < 1024"
  shows "ENVX (g AND NOT 1023 OR of_nat i) = i"
proof -
  have "(1023 :: u32) = mask 10" by (simp add: mask_eq_exp_minus_1)
  then have "(g AND NOT 1023 OR of_nat i) AND 1023 = of_nat i AND (1023 :: u32)"
    using bit_hmask [of g] by (intro bit_word_eqI) (auto simp only: bit_and_iff bit_or_iff bit_mask_iff)
  then have "ENVX (g AND NOT 1023 OR of_nat i) = ENVX (of_nat i)" by (simp only: ENVX_def)
  then show ?thesis using assms by (simp add: ENVX_mod unat_of_nat)
qed

lemma unat_or_low:
  assumes i: "i < 1024" shows "unat (g AND NOT 1023 OR of_nat i :: u32) div 1024 = unat g div 1024"
proof -
  have "drop_bit 10 (g AND NOT 1023 OR of_nat i :: u32) = drop_bit 10 g"
    using bit_low [OF i] bit_hmask [of g]
    by (intro bit_word_eqI) (fastforce simp only: bit_drop_bit_eq bit_or_iff o_def)
  then have "unat (drop_bit 10 (g AND NOT 1023 OR of_nat i :: u32)) = unat (drop_bit 10 g)" by (simp only:)
  then show ?thesis by (simp add: drop_bit_eq_div unat_div)
qed

lemma new_envid_split: 
  obtains g where "new_envid old i = g AND NOT 1023 OR of_nat i" "0 < sint (g AND NOT 1023)"
    "g = 4096 \<and> sint ((old + 4096) AND NOT 1023) \<le> 0 \<or> g = old + 4096 \<and> 0 < sint ((old + 4096) AND NOT 1023)"
  by (cases "sint ((old + 4096) AND NOT 1023) \<le> 0") (force simp: new_envid_def Let_def)+

lemma new_envid_ok:
  assumes i: "i < 1024"
  shows "ENVX (new_envid old i) = i" and "0 < sint (new_envid old i)"
proof -
  obtain g where n: "new_envid old i = g AND NOT 1023 OR of_nat i" and p: "0 < sint (g AND NOT 1023)"
    by (rule new_envid_split)
  show "ENVX (new_envid old i) = i" by (simp only: n high_low [OF i])
  have "\<not> bit (of_nat i :: u32) 31" using bit_low [OF i, of 31] by auto
  then show "0 < sint (new_envid old i)"
    using p unfolding n sint_pos_iff by (auto simp only: bit_or_iff or_eq_0_iff)
qed

lemma sint_pos_unat: "0 < sint (w :: u32) \<longleftrightarrow> 0 < unat w \<and> unat w < 2147483648"
proof -
  have "bit w 31 \<longleftrightarrow> bit (unat w) 31" by (simp add: bit_unsigned_iff)
  then have "bit w 31 \<longleftrightarrow> odd (unat w div 2147483648)" by (simp add: bit_iff_odd)
  moreover have "unat w < 4294967296" using unsigned_less [of w, where ?'a = nat] by simp
  then have "unat w div 2147483648 = (if 2147483648 \<le> unat w then 1 else 0)" by (auto intro: div_nat_eqI)
  then have "odd (unat w div 2147483648) \<longleftrightarrow> 2147483648 \<le> unat w" by simp
  ultimately show ?thesis by (auto simp: sint_pos_iff unat_gt_0)
qed

lemma new_envid_fresh:
  assumes i: "i < 1024"
  shows "new_envid old i \<noteq> old"
proof
  assume e: "new_envid old i = old"
  have "unat old < 2147483648" using new_envid_ok(2) [OF i, of old] unfolding e sint_pos_unat by simp
  then have sum: "unat (old + 4096) = unat old + 4096" by (simp add: unat_plus_if')
  obtain g where n: "old = g AND NOT 1023 OR of_nat i" and
      g: "g = 4096 \<and> sint ((old + 4096) AND NOT 1023) \<le> 0 \<or> g = old + 4096"
    using new_envid_split [of old i] e by metis
  have q: "unat old div 1024 = unat g div 1024" using unat_or_low [OF i, of g] n by metis
  with g sum have g4: "g = 4096" "sint ((old + 4096) AND NOT 1023) \<le> 0" by auto
  with q have u: "unat old div 1024 = 4" by simp
  have "unat (old + 4096) div 1024 = 8" using u sum by simp
  then have "unat ((old + 4096) AND NOT 1023 :: u32) div 1024 = 8"
    using unat_or_low [of 0 "old + 4096"] by simp
  then have "0 < sint ((old + 4096) AND NOT 1023)"
    unfolding sint_pos_unat by linarith
  then show False using g4 by simp
qed
section \<open>The invariant of the table\<close>

fun flist :: "Env list \<Rightarrow> nat option \<Rightarrow> nat list \<Rightarrow> bool" where
  "flist es p [] \<longleftrightarrow> p = None"
| "flist es p (i # is) \<longleftrightarrow> p = Some i \<and> i < length es \<and> flist es (env_link (es ! i)) is"

abbreviation status_of :: "('m, 'z) kern_scheme \<Rightarrow> nat \<Rightarrow> env_status_t" where
  "status_of s i \<equiv> env_status (envs s ! i)"

text \<open>
  The free list runs through exactly the free entries, once each; a live entry has a positive id that
  carries its index; only the current environment is running; nothing is left dying.
\<close>

definition free_ok :: "('m, 'z) kern_scheme \<Rightarrow> bool" where
  "free_ok s \<longleftrightarrow> (\<exists>fl. flist (envs s) (env_free_list s) fl \<and> distinct fl \<and>
     set fl = {i. i < NENV \<and> status_of s i = ENV_FREE})"

definition kern_ok :: "('m, 'z) kern_scheme \<Rightarrow> bool" where
  "kern_ok s \<longleftrightarrow> length (envs s) = NENV \<and> free_ok s \<and>
     (\<forall>i<NENV. status_of s i \<noteq> ENV_FREE \<longrightarrow> ENVX (env_id (envs s ! i)) = i \<and> 0 < sint (env_id (envs s ! i))) \<and>
     (\<forall>i<NENV. status_of s i = ENV_RUNNING \<longrightarrow> curenv s = Some i) \<and>
     (\<forall>i<NENV. status_of s i \<noteq> ENV_DYING) \<and>
     (\<forall>c. curenv s = Some c \<longrightarrow> c < NENV \<and> ENVX (env_id (envs s ! c)) = c)"

text \<open>A user environment is executing.\<close>

definition user_runs :: "('m, 'z) kern_scheme \<Rightarrow> bool" where
  "user_runs s \<longleftrightarrow> kern_ok s \<and> (\<exists>c. curenv s = Some c \<and> status_of s c = ENV_RUNNING)"

lemma env_upd_simps [simp]:
  "envs (env_upd i f s) = (envs s)[i := f (envs s ! i)]" "curenv (env_upd i f s) = curenv s"
  "env_free_list (env_upd i f s) = env_free_list s" "mm (env_upd i f s) = mm s"
  "in_page_fault (env_upd i f s) = in_page_fault s"
  by (simp_all add: env_upd_def)

lemma cprintf_kern [simp]:
  "envs (cprintf m (s :: ('m, 'z) kern_scheme)) = envs s" "curenv (cprintf m s) = curenv s"
  "env_free_list (cprintf m s) = env_free_list s" "mm (cprintf m s) = mm s"
  "in_page_fault (cprintf m s) = in_page_fault s"
  by (simp_all add: cprintf_def)

lemma kern_ok_cong:
  "envs s' = envs s \<Longrightarrow> curenv s' = curenv s \<Longrightarrow> env_free_list s' = env_free_list s \<Longrightarrow> kern_ok s' = kern_ok s"
  by (simp add: kern_ok_def free_ok_def)

lemma kern_ok_frame [simp]:
  "kern_ok (s\<lparr>mm := m\<rparr>) = kern_ok s" "kern_ok (s\<lparr>in_page_fault := b\<rparr>) = kern_ok s"
  "kern_ok (cprintf txt s) = kern_ok (s :: ('m, 'z) kern_scheme)"
  by (rule kern_ok_cong; simp)+

lemma flist_update: "i \<notin> set fl \<Longrightarrow> flist (es[i := e]) p fl = flist es p fl"
  by (induction fl arbitrary: p) auto

lemma kern_okD:
  assumes "kern_ok s"
  shows "length (envs s) = NENV" "free_ok s"
    "i < NENV \<Longrightarrow> status_of s i \<noteq> ENV_FREE \<Longrightarrow> ENVX (env_id (envs s ! i)) = i"
    "i < NENV \<Longrightarrow> status_of s i \<noteq> ENV_FREE \<Longrightarrow> 0 < sint (env_id (envs s ! i))"
    "i < NENV \<Longrightarrow> status_of s i = ENV_RUNNING \<Longrightarrow> curenv s = Some i"
    "i < NENV \<Longrightarrow> status_of s i \<noteq> ENV_DYING"
    "curenv s = Some c \<Longrightarrow> c < NENV" "curenv s = Some c \<Longrightarrow> ENVX (env_id (envs s ! c)) = c"
  using assms unfolding kern_ok_def by blast+

lemma kern_ok_step:
  assumes "kern_ok s" and cur: "curenv s' = curenv s" and len: "length (envs s') = NENV" and free: "free_ok s'"
    and st: "\<And>j. j < NENV \<Longrightarrow> status_of s' j \<noteq> ENV_DYING \<and> (status_of s' j = ENV_RUNNING \<longrightarrow> curenv s = Some j)"
    and ids: "\<And>j. j < NENV \<Longrightarrow> ENVX (env_id (envs s' ! j)) = j \<and> 0 < sint (env_id (envs s' ! j)) \<or>
        env_id (envs s' ! j) = env_id (envs s ! j) \<and> (status_of s j = ENV_FREE \<longrightarrow> status_of s' j = ENV_FREE)"
  shows "kern_ok s'"
proof -
  have "ENVX (env_id (envs s' ! j)) = j \<and> 0 < sint (env_id (envs s' ! j))" if "j < NENV" "status_of s' j \<noteq> ENV_FREE" for j
    using that ids [of j] kern_okD(3,4) [OF assms(1), of j] by auto
  moreover have "c < NENV \<and> ENVX (env_id (envs s' ! c)) = c" if "curenv s = Some c" for c
    using ids [of c] kern_okD(7,8) [OF assms(1) that] by auto
  ultimately show ?thesis using st len free unfolding kern_ok_def cur by blast
qed

text \<open>Updating a live entry.\<close>

lemma free_ok_upd:
  assumes "free_ok s" "length (envs s) = NENV" "i < NENV" "status_of s i \<noteq> ENV_FREE" "env_status (f (envs s ! i)) \<noteq> ENV_FREE"
  shows "free_ok (env_upd i f s)"
proof -
  obtain fl where fl: "flist (envs s) (env_free_list s) fl" "distinct fl" "set fl = {i. i < NENV \<and> status_of s i = ENV_FREE}"
    using assms(1) by (auto simp: free_ok_def)
  then have "flist (envs (env_upd i f s)) (env_free_list s) fl" using assms by (simp add: flist_update)
  moreover have "set fl = {j. j < NENV \<and> status_of (env_upd i f s) j = ENV_FREE}"
    using fl(3) assms by (auto simp: nth_list_update)
  ultimately show ?thesis using fl(2) by (auto simp: free_ok_def)
qed

lemma kern_ok_upd:
  assumes "kern_ok s" "i < NENV" "status_of s i \<noteq> ENV_FREE"
    and "env_id (f (envs s ! i)) = env_id (envs s ! i)"
    and "env_status (f (envs s ! i)) \<notin> {ENV_FREE, ENV_DYING}"
    and "env_status (f (envs s ! i)) = ENV_RUNNING \<Longrightarrow> curenv s = Some i"
  shows "kern_ok (env_upd i f s)"
proof -
  have l: "length (envs s) = NENV" using assms(1) by (rule kern_okD)
  have free: "free_ok (env_upd i f s)" using assms l by (intro free_ok_upd) (auto dest: kern_okD)
  show ?thesis
  proof (rule kern_ok_step [OF assms(1) _ _ free], goal_cases)
    case (3 j)
    then show ?case using assms kern_okD(5,6) [OF assms(1) 3] l by (cases "j = i") simp_all
  next
    case (4 j)
    then show ?case using assms l by (cases "j = i") simp_all
  qed (simp_all add: l)
qed

lemma flist_upt:
  assumes "\<And>i. i < length es \<Longrightarrow> env_link (es ! i) = (if Suc i < length es then Some (Suc i) else None)"
  shows "flist es (if k < length es then Some k else None) [k..<length es]"
proof (induction "length es - k" arbitrary: k)
  case (Suc d)
  then have k: "k < length es" "d = length es - Suc k" by simp_all
  then show ?case using Suc.hyps(1) [OF k(2)] assms [OF k(1)] by (subst upt_conv_Cons) auto
qed simp

lemma length_link_envs [simp]: "length (link_envs i es) = length es"
  by (induction i es rule: link_envs.induct) simp_all

lemma nth_link_envs:
  "k < length es \<Longrightarrow> link_envs i es ! k =
     (es ! k)\<lparr>env_status := ENV_FREE, env_link := (if Suc k < length es then Some (i + Suc k) else None), env_id := 0\<rparr>"
  by (induction i es arbitrary: k rule: link_envs.induct) (auto simp: nth_Cons split: nat.splits)

lemma kern_ok_init: "curenv s = None \<Longrightarrow> kern_ok (env_init f s)"
proof -
  assume c: "curenv s = None"
  have "free_ok (env_init f s)"
    unfolding free_ok_def using flist_upt [of "link_envs 0 (replicate NENV zero_env)" 0]
    by (intro exI [of _ "[0..<NENV]"]) (auto simp: env_init_def nth_link_envs NENV_def)
  then show "kern_ok (env_init f s)" using c
    by (simp add: kern_ok_def env_init_def nth_link_envs)
qed

lemma kern_ok_free:
  assumes "kern_ok s" "i < NENV" "status_of s i \<noteq> ENV_FREE"
  shows "kern_ok (env_free v i (env_upd i (\<lambda>e. e\<lparr>env_status := ENV_DYING\<rparr>) s))" (is "kern_ok ?s")
proof -
  have l: "length (envs s) = NENV" using assms(1) by (rule kern_okD)
  obtain fl where fl: "flist (envs s) (env_free_list s) fl" "distinct fl" "set fl = {i. i < NENV \<and> status_of s i = ENV_FREE}"
    using kern_okD(2) [OF assms(1)] by (auto simp: free_ok_def)
  have es: "envs ?s = (envs s)[i := (envs s ! i)\<lparr>env_status := ENV_FREE, env_link := env_free_list s\<rparr>]"
    using assms l by (simp add: env_free_def Let_def)
  have p: "env_free_list ?s = Some i" "curenv ?s = curenv s" by (simp_all add: env_free_def Let_def)
  have i: "i \<notin> set fl" using fl(3) assms by auto
  have "flist (envs ?s) (env_free_list ?s) (i # fl)"
    using fl(1) i assms l by (simp add: es p flist_update)
  moreover have "set (i # fl) = {j. j < NENV \<and> status_of ?s j = ENV_FREE}"
    using fl(3) assms l by (auto simp: es nth_list_update)
  ultimately have free: "free_ok ?s" unfolding free_ok_def using fl(2) i by (intro exI [of _ "i # fl"]) simp
  show ?thesis
  proof (rule kern_ok_step [OF assms(1) p(2) _ free], goal_cases)
    case (2 j)
    then show ?case using kern_okD(5,6) [OF assms(1) 2] l by (cases "j = i") (simp_all add: es)
  next
    case (3 j)
    then show ?case using assms l by (cases "j = i") (simp_all add: es)
  qed (simp add: es l)
qed

lemma env_alloc_cases:
  assumes "kern_ok s" "env_alloc v p ty s = (r, s')"
  obtains (full) "r = Inl (-5)" "env_free_list s = None" "s' = s"
  | (nomem) e where "r = Inl e" "e < 0" "envs s' = envs s" "curenv s' = curenv s" "env_free_list s' = env_free_list s"
  | (ok) i where "r = Inr i" "env_free_list s = Some i" "i < NENV" "status_of s i = ENV_FREE"
      "envs s' = (envs s)[i := (envs s ! i)\<lparr>env_id := new_envid (env_id (envs s ! i)) i, env_parent_id := p,
         env_type := ty, env_status := ENV_RUNNABLE, env_runs := 0, env_tf := user_tf ty,
         env_pgfault_upcall := 0, env_ipc_recving := False\<rparr>]"
      "curenv s' = curenv s" "env_free_list s' = env_link (envs s ! i)" "in_page_fault s' = in_page_fault s"
proof (cases "env_free_list s")
  case None
  then show ?thesis using assms(2) by (intro full) (simp_all add: env_alloc_def)
next
  case (Some i)
  obtain res m where vm: "vm_init v (mm s) i = (res, m)" by fastforce
  obtain fl where fl: "flist (envs s) (env_free_list s) fl" "set fl = {i. i < NENV \<and> status_of s i = ENV_FREE}"
    using kern_okD(2) [OF assms(1)] by (auto simp: free_ok_def)
  with Some have "i \<in> set fl" by (cases fl) auto
  then have i: "i < NENV" "status_of s i = ENV_FREE" using fl(2) by auto
  show ?thesis
  proof (cases "res < 0")
    case True
    then show ?thesis using assms(2) Some vm by (intro nomem [of res]) (auto simp: env_alloc_def Let_def)
  next
    case False
    then show ?thesis using assms(2) Some vm i kern_okD(1) [OF assms(1)]
      by (intro ok [of i]) (auto simp: env_alloc_def Let_def)
  qed
qed

lemma kern_ok_alloc:
  assumes "kern_ok s" "env_alloc v p ty s = (r, s')"
  shows "kern_ok s'"
  using assms
proof (cases rule: env_alloc_cases)
  case nomem
  then show ?thesis using assms(1) kern_ok_cong [of s' s] by simp
next
  case (ok i)
  have l: "length (envs s) = NENV" using assms(1) by (rule kern_okD)
  obtain fl where fl: "flist (envs s) (env_free_list s) fl" "distinct fl" "set fl = {i. i < NENV \<and> status_of s i = ENV_FREE}"
    using kern_okD(2) [OF assms(1)] by (auto simp: free_ok_def)
  obtain fl' where f: "fl = i # fl'" using fl(1) ok(2) by (cases fl) auto
  have "flist (envs s') (env_free_list s') fl'" using fl(1,2) unfolding f ok(5,7) by (simp add: flist_update)
  moreover have st: "status_of s' j = (if j = i then ENV_RUNNABLE else status_of s j)" if "j < NENV" for j
    using that l by (simp add: ok(5) nth_list_update)
  have m: "set fl' = set fl - {i}" using fl(2) by (simp add: f)
  have "x \<in> set fl' \<longleftrightarrow> x < NENV \<and> status_of s' x = ENV_FREE" for x
    unfolding m fl(3) by (cases "x < NENV") (simp_all add: st)
  then have "set fl' = {j. j < NENV \<and> status_of s' j = ENV_FREE}" by blast
  ultimately have free: "free_ok s'" unfolding free_ok_def using fl(2) f by auto
  show ?thesis
  proof (rule kern_ok_step [OF assms(1) ok(6) _ free], goal_cases)
    case (2 j)
    then show ?case using kern_okD(5,6) [OF assms(1) 2] l by (cases "j = i") (simp_all add: ok(5))
  next
    case (3 j)
    then show ?case using l new_envid_ok [of i "env_id (envs s ! i)"] by (cases "j = i") (simp_all add: ok(5) NENV_def)
  qed (simp add: ok(5) l)
qed (simp add: assms)

section \<open>Scheduling\<close>

text \<open>The running environment goes back to runnable.\<close>

definition preempted :: "('m, 'z) kern_scheme \<Rightarrow> ('m, 'z) kern_scheme" where
  "preempted s = (case curenv s of Some c \<Rightarrow>
     if status_of s c = ENV_RUNNING then env_upd c (\<lambda>e. e\<lparr>env_status := ENV_RUNNABLE\<rparr>) s else s | None \<Rightarrow> s)"

lemma preempted_simps [simp]:
  "curenv (preempted s) = curenv s" "env_free_list (preempted s) = env_free_list s" "mm (preempted s) = mm s"
  "in_page_fault (preempted s) = in_page_fault s" "length (envs (preempted s)) = length (envs s)"
  by (simp_all add: preempted_def split: option.splits)

lemma preempted_nth:
  assumes "kern_ok s" "i < NENV"
  shows "envs (preempted s) ! i =
    (if status_of s i = ENV_RUNNING then (envs s ! i)\<lparr>env_status := ENV_RUNNABLE\<rparr> else envs s ! i)"
proof (cases "status_of s i = ENV_RUNNING")
  case True
  then have "curenv s = Some i" using assms by (simp add: kern_okD(5))
  then show ?thesis using True assms kern_okD(1) [OF assms(1)] by (simp add: preempted_def)
next
  case False
  then show ?thesis using kern_okD(1) [OF assms(1)] assms(2)
    by (cases "curenv s = Some i") (auto simp: preempted_def split: option.split)
qed

lemma kern_ok_preempted: "kern_ok s \<Longrightarrow> kern_ok (preempted s)"
  unfolding preempted_def
  by (simp split: option.split) (intro allI impI kern_ok_upd, auto dest: kern_okD(7))

lemma env_run_enter: "kern_ok s \<Longrightarrow> env_run v i s = env_enter v i (preempted s)"
  using kern_okD(6,7) [of s] by (cases "curenv s") (auto simp: env_run_def preempted_def)

lemma user_runs_enter:
  assumes "kern_ok s" "i < NENV" "status_of s i \<noteq> ENV_FREE" "env_enter v i (preempted s) = (r, s')"
  shows "r = Run" "curenv s' = Some i" "user_runs s'"
    "j < NENV \<Longrightarrow> status_of s' j = (if j = i then ENV_RUNNING else status_of (preempted s) j)"
    "in_page_fault s' = in_page_fault s" "length (envs s') = NENV"
proof -
  let ?t = "preempted s"
  let ?u = "env_upd i (\<lambda>e. e\<lparr>env_status := ENV_RUNNABLE, env_runs := env_runs e + 1\<rparr>) ?t"
  have t: "kern_ok ?t" using assms(1) by (rule kern_ok_preempted)
  have l: "length (envs ?t) = NENV" using t by (rule kern_okD)
  have nr: "status_of ?t j \<noteq> ENV_RUNNING" if "j < NENV" for j
    using that assms(1) by (simp add: preempted_nth)
  have live: "status_of ?t i \<noteq> ENV_FREE" using assms by (simp add: preempted_nth)
  have s': "s' = (env_upd i (\<lambda>e. e\<lparr>env_status := ENV_RUNNING, env_runs := env_runs e + 1\<rparr>) ?t)
      \<lparr>curenv := Some i, mm := vm_switch v (mm ?t) (Some i)\<rparr>"
    and r: "r = Run" using assms(4) by (simp_all add: env_enter_def)
  show "r = Run" by (rule r)
  show cur: "curenv s' = Some i" by (simp add: s')
  show st: "status_of s' j = (if j = i then ENV_RUNNING else status_of ?t j)" if "j < NENV" for j
    using that l assms(2) by (simp add: s' nth_list_update)
  show "in_page_fault s' = in_page_fault s" "length (envs s') = NENV" using l by (simp_all add: s')
  have id: "env_id (envs s' ! j) = env_id (envs ?t ! j)" if "j < NENV" for j
    using that l assms(2) by (simp add: s' nth_list_update)
  have "free_ok (env_upd i (\<lambda>e. e\<lparr>env_status := ENV_RUNNING, env_runs := env_runs e + 1\<rparr>) ?t)"
    using kern_okD(2) [OF t] l assms(2) live by (rule free_ok_upd) simp
  then have "free_ok s'" by (simp add: s' free_ok_def)
  moreover have "ENVX (env_id (envs s' ! j)) = j \<and> 0 < sint (env_id (envs s' ! j))"
    if "j < NENV" "status_of s' j \<noteq> ENV_FREE" for j
    using that st [of j] id [of j] kern_okD(3,4) [OF t, of j] live by (auto split: if_splits)
  moreover have "status_of s' j \<noteq> ENV_DYING \<and> (status_of s' j = ENV_RUNNING \<longrightarrow> j = i)" if "j < NENV" for j
    using that st [of j] nr [of j] kern_okD(6) [OF t, of j] by auto
  ultimately have "kern_ok s'"
    using assms(2) l id [of i] kern_okD(3) [OF t assms(2) live] unfolding kern_ok_def cur
    by (metis \<open>length (envs s') = NENV\<close> option.inject)
  then show "user_runs s'" unfolding user_runs_def using cur st [of i] assms(2) by simp
qed

lemma enter_nth: "env_enter v i t = (r, s') \<Longrightarrow> j \<noteq> i \<Longrightarrow> envs s' ! j = envs t ! j" "env_enter v i t = (r, s') \<Longrightarrow> mm s' = vm_switch v (mm t) (Some i)"
  by (auto simp: env_enter_def)

lemma find_upt_Some:
  "find P [a..<b] = Some i \<longleftrightarrow> a \<le> i \<and> i < b \<and> P i \<and> (\<forall>j. a \<le> j \<and> j < i \<longrightarrow> \<not> P j)"
proof
  assume "find P [a..<b] = Some i"
  then obtain k where "k < b - a" "P (a + k)" "i = a + k" "\<forall>j<k. \<not> P (a + j)"
    by (auto simp: find_Some_iff)
  then show "a \<le> i \<and> i < b \<and> P i \<and> (\<forall>j. a \<le> j \<and> j < i \<longrightarrow> \<not> P j)"
    by (metis add.commute le_add1 le_add_diff_inverse less_diff_conv nat_add_left_cancel_less)
next
  assume a: "a \<le> i \<and> i < b \<and> P i \<and> (\<forall>j. a \<le> j \<and> j < i \<longrightarrow> \<not> P j)"
  then show "find P [a..<b] = Some i"
    by (auto simp: find_Some_iff intro!: exI [of _ "i - a"])
qed

lemma find_upt_None: "find P [a..<b] = None \<longleftrightarrow> (\<forall>i. a \<le> i \<and> i < b \<longrightarrow> \<not> P i)"
  by (auto simp: find_None_iff)

definition cdist :: "nat \<Rightarrow> nat \<Rightarrow> nat" where
  "cdist c j = (if c \<le> j then j - c else j + NENV - c)"

lemma sched_start_less: "kern_ok s \<Longrightarrow> sched_start s < NENV"
  by (cases "curenv s") (simp_all add: sched_start_def kern_okD(7,8), simp add: NENV_def)

lemma sched_start_cur: "kern_ok s \<Longrightarrow> curenv s = Some c \<Longrightarrow> sched_start s = c"
  by (simp add: sched_start_def kern_okD(8))

text \<open>The pick is the first runnable environment in circular order.\<close>

lemma sched_pick_first:
  assumes "kern_ok s" "j < NENV" "runnable s j"
  obtains i where "sched_pick s = Some i" "i < NENV" "runnable s i" "cdist (sched_start s) i \<le> cdist (sched_start s) j"
proof -
  let ?c = "sched_start s"
  have c: "?c < NENV" using assms(1) by (rule sched_start_less)
  show ?thesis
  proof (cases "find (runnable s) [?c..<NENV]")
    case (Some i)
    then have i: "?c \<le> i" "i < NENV" "runnable s i" "\<And>j. ?c \<le> j \<Longrightarrow> j < i \<Longrightarrow> \<not> runnable s j"
      by (auto simp: find_upt_Some)
    have "\<not> (?c \<le> j \<and> j < i)" using i(4) [of j] assms(3) by blast
    then have "cdist ?c i \<le> cdist ?c j" using i(1,2) unfolding cdist_def by (cases "?c \<le> j") simp_all
    then show ?thesis using Some i that by (simp add: sched_pick_def Let_def)
  next
    case None
    then have j: "j < ?c" using assms(2,3) by (auto simp: find_upt_None not_le [symmetric])
    then obtain i where f: "find (runnable s) [0..<?c] = Some i"
      using assms(3) by (cases "find (runnable s) [0..<?c]") (auto simp: find_upt_None)
    then have i: "i < ?c" "runnable s i" "\<And>j. j < i \<Longrightarrow> \<not> runnable s j" by (auto simp: find_upt_Some)
    have "i \<le> j" using i(3) [of j] assms(3) by (meson not_le)
    then have "cdist ?c i \<le> cdist ?c j" using i(1) j by (simp add: cdist_def)
    then show ?thesis using None f i c that by (simp add: sched_pick_def Let_def)
  qed
qed

lemma sched_pick_cases:
  assumes "kern_ok s"
  obtains (run) i where "sched_pick s = Some i" "i < NENV" "runnable s i"
  | (same) c where "sched_pick s = Some c" "c < NENV" "curenv s = Some c" "status_of s c = ENV_RUNNING"
      "\<And>j. j < NENV \<Longrightarrow> \<not> runnable s j"
  | (idle) "sched_pick s = None" "\<And>j. j < NENV \<Longrightarrow> \<not> runnable s j \<and> status_of s j \<noteq> ENV_RUNNING"
proof (cases "\<exists>j<NENV. runnable s j")
  case True
  then show ?thesis using sched_pick_first [OF assms] run by metis
next
  case False
  let ?c = "sched_start s"
  have c: "?c < NENV" using assms by (rule sched_start_less)
  have p: "sched_pick s = (if status_of s ?c = ENV_RUNNING then Some ?c else None)"
    using False c by (simp add: sched_pick_def Let_def find_upt_None [THEN iffD2])
  show ?thesis
  proof (cases "status_of s ?c = ENV_RUNNING")
    case True
    then show ?thesis using p c False same kern_okD(5) [OF assms c] by auto
  next
    case n: False
    have "status_of s j \<noteq> ENV_RUNNING" if "j < NENV" for j
      using that n kern_okD(5) [OF assms that] sched_start_cur [OF assms] by auto
    then show ?thesis using p n False idle by auto
  qed
qed

lemma sched_yield_cases:
  assumes "kern_ok s" "sched_yield v s = (r, s')"
  obtains (run) i where "sched_pick s = Some i" "i < NENV" "status_of s i \<in> {ENV_RUNNABLE, ENV_RUNNING}"
      "env_enter v i (preempted s) = (r, s')" "r = Run" "curenv s' = Some i" "user_runs s'"
  | (idle) "r = Monitor" "\<And>j. j < NENV \<Longrightarrow> status_of s j \<noteq> ENV_RUNNABLE \<and> status_of s j \<noteq> ENV_RUNNING"
  using assms(1)
proof (cases rule: sched_pick_cases)
  case (run i)
  then have "env_enter v i (preempted s) = (r, s')" "status_of s i = ENV_RUNNABLE"
    using assms by (simp_all add: sched_yield_def env_run_enter runnable_def)
  then show ?thesis using run user_runs_enter [OF assms(1)] that(1) [of i] by auto
next
  case (same c)
  then have "env_enter v c (preempted s) = (r, s')"
    using assms by (simp add: sched_yield_def env_run_enter)
  then show ?thesis using same user_runs_enter [OF assms(1)] that(1) [of c] by auto
next
  case idle
  let ?t = "cprintf (bytes_of ''Halt'' @ [10]) s"
  have "\<not> list_ex (\<lambda>i. runnable ?t i \<or> status_of ?t i = ENV_RUNNING) [0..<NENV]"
    using idle(2) by (auto simp: list_ex_iff runnable_def)
  then have "r = Monitor" using assms(2) idle(1) by (simp add: sched_yield_def sched_halt_def)
  then show ?thesis using idle(2) that(2) by (simp add: runnable_def)
qed

lemma sched_yield_no_return: "kern_ok s \<Longrightarrow> sched_yield v s \<noteq> (Return r, s')"
  by (cases "sched_yield v s") (auto elim: sched_yield_cases)

lemma cdist_pos: "c < NENV \<Longrightarrow> j < NENV \<Longrightarrow> c \<noteq> j \<Longrightarrow> 0 < cdist c j"
  by (simp add: cdist_def)

lemma cdist_between:
  assumes "c < NENV" "i < NENV" "j < NENV" "cdist c i \<le> cdist c j"
  shows "cdist i j + cdist c i = cdist c j"
  using assms unfolding cdist_def by (cases "c \<le> i"; cases "c \<le> j"; cases "i \<le> j") simp_all

lemma sched_yield_pick:
  assumes u: "user_runs s" and c: "curenv s = Some c" and j: "j < NENV" "runnable s j"
  obtains i where "sched_yield v s = (Run, snd (sched_yield v s))" "user_runs (snd (sched_yield v s))"
    "curenv (snd (sched_yield v s)) = Some i" "i < NENV" "i \<noteq> c" "cdist c i \<le> cdist c j"
    "i = j \<or> runnable (snd (sched_yield v s)) j"
proof -
  have k: "kern_ok s" and rc: "status_of s c = ENV_RUNNING" using u c by (auto simp: user_runs_def)
  obtain i where i: "sched_pick s = Some i" "i < NENV" "runnable s i" "cdist c i \<le> cdist c j"
    using sched_pick_first [OF k j] sched_start_cur [OF k c] by metis
  obtain r s' where y: "sched_yield v s = (r, s')" by fastforce
  then have e: "env_enter v i (preempted s) = (r, s')" using i(1) k by (simp add: sched_yield_def env_run_enter)
  have live: "status_of s i \<noteq> ENV_FREE" using i(3) by (simp add: runnable_def)
  note n = user_runs_enter [OF k i(2) live e]
  have "i = j \<or> runnable s' j" using n(4) [OF j(1)] j k by (auto simp: runnable_def preempted_nth)
  moreover have "i \<noteq> c" using i(3) rc by (auto simp: runnable_def)
  ultimately show ?thesis using n(1-3) y i that by simp
qed

text \<open>A timer interrupt gives up the processor; \<open>k\<close> of them in a row.\<close>

fun yields :: "'m vm \<Rightarrow> nat \<Rightarrow> ('m, 'z) kern_scheme \<Rightarrow> ('m, 'z) kern_scheme" where
  "yields v 0 s = s"
| "yields v (Suc k) s = yields v k (snd (sched_yield v s))"

text \<open>
  C15: bounded waiting under round-robin scheduling. While user code runs, an environment that is runnable
  is entered after at most as many calls of \<^verbatim>\<open>sched_yield\<close> as its circular distance from the current one.
\<close>

theorem sched_bounded_wait:
  assumes "user_runs s" "curenv s = Some c" "j < NENV" "runnable s j"
  shows "\<exists>k\<le>cdist c j. user_runs (yields v k s) \<and> curenv (yields v k s) = Some j"
  using assms
proof (induction "cdist c j" arbitrary: s c rule: less_induct)
  case less
  obtain i where i: "user_runs (snd (sched_yield v s))" "curenv (snd (sched_yield v s)) = Some i"
      "i < NENV" "i \<noteq> c" "cdist c i \<le> cdist c j" "i = j \<or> runnable (snd (sched_yield v s)) j"
    using sched_yield_pick [OF less.prems] by metis
  have c: "c < NENV" using less.prems by (auto simp: user_runs_def intro: kern_okD(7))
  have d: "0 < cdist c i" "cdist i j + cdist c i = cdist c j"
    using cdist_pos cdist_between c i less.prems(3) by auto
  show ?case
  proof (cases "i = j")
    case True
    then show ?thesis using i d by (intro exI [of _ 1]) simp
  next
    case False
    then obtain k where "k \<le> cdist i j" "user_runs (yields v k (snd (sched_yield v s)))"
        "curenv (yields v k (snd (sched_yield v s))) = Some j"
      using less.hyps [of i "snd (sched_yield v s)"] i d less.prems(3) by auto
    then show ?thesis using d by (intro exI [of _ "Suc k"]) simp
  qed
qed

lemma kern_ok_destroy:
  assumes "kern_ok s" "i < NENV" "status_of s i \<noteq> ENV_FREE" "env_destroy v i s = (r, s')"
  obtains (other) "curenv s \<noteq> Some i" "r = Return 0" "kern_ok s'" "curenv s' = curenv s"
      "envs s' = (envs s)[i := (envs s ! i)\<lparr>env_status := ENV_FREE, env_link := env_free_list s\<rparr>]"
  | (self) "curenv s = Some i" "r = Run" "user_runs s'"
  | (last) "curenv s = Some i" "r = Monitor" "\<And>j. j < NENV \<Longrightarrow> j \<noteq> i \<Longrightarrow> status_of s j \<noteq> ENV_RUNNABLE"
proof -
  let ?t = "env_free v i (env_upd i (\<lambda>e. e\<lparr>env_status := ENV_DYING\<rparr>) s)"
  have k: "kern_ok ?t" using assms(1-3) by (rule kern_ok_free)
  have c: "curenv ?t = curenv s" by (simp add: env_free_def Let_def)
  show ?thesis
  proof (cases "curenv s = Some i")
    case True
    then have y: "sched_yield v ?t = (r, s')" using assms(4) c by (simp add: env_destroy_def)
    show ?thesis using k y
    proof (cases rule: sched_yield_cases)
      case run
      then show ?thesis using True self by simp
    next
      case idle
      have "status_of ?t j = status_of s j" if "j \<noteq> i" for j using that by (simp add: env_free_def Let_def)
      then show ?thesis using True last idle by metis
    qed
  next
    case False
    then have e: "r = Return 0" "s' = ?t\<lparr>in_page_fault := False\<rparr>"
      using assms(4) c by (simp_all add: env_destroy_def)
    have "envs s' = (envs s)[i := (envs s ! i)\<lparr>env_status := ENV_FREE, env_link := env_free_list s\<rparr>]"
      using assms kern_okD(1) [OF assms(1)] by (simp add: e env_free_def Let_def)
    then show ?thesis using other False e k c by simp
  qed
qed

text \<open>
  the choice of \<^verbatim>\<open>sched_yield\<close>. It enters the first runnable environment in circular order, counted from
  the current one inclusively; with none it continues the current one if that is still running; otherwise
  the kernel drops into the monitor. It never puts the processor to sleep.
\<close>

theorem sched_round_robin:
  assumes k: "kern_ok s" and c: "curenv s = Some c"
  shows "(\<exists>i s'. sched_yield v s = (Run, s') \<and> user_runs s' \<and> curenv s' = Some i \<and>
      (runnable s i \<and> (\<forall>j<NENV. runnable s j \<longrightarrow> cdist c i \<le> cdist c j) \<or>
       i = c \<and> status_of s c = ENV_RUNNING \<and> (\<forall>j<NENV. \<not> runnable s j))) \<or>
    fst (sched_yield v s) = Monitor \<and> (\<forall>j<NENV. status_of s j \<notin> {ENV_RUNNABLE, ENV_RUNNING})"
proof -
  obtain r s' where y: "sched_yield v s = (r, s')" by fastforce
  show ?thesis using k y
  proof (cases rule: sched_yield_cases)
    case (run i)
    have "runnable s i \<and> (\<forall>j<NENV. runnable s j \<longrightarrow> cdist c i \<le> cdist c j) \<or>
        i = c \<and> status_of s c = ENV_RUNNING \<and> (\<forall>j<NENV. \<not> runnable s j)"
    proof (cases "\<exists>j<NENV. runnable s j")
      case True
      then show ?thesis using sched_pick_first [OF k] run(1) sched_start_cur [OF k c] by (metis option.inject)
    next
      case False
      then have "status_of s i = ENV_RUNNING" using run(2,3) by (auto simp: runnable_def)
      then show ?thesis using False kern_okD(5) [OF k run(2)] c by auto
    qed
    then show ?thesis using run y by auto
  next
    case idle
    then show ?thesis using y by auto
  qed
qed

text \<open>
  C36: a destroyed environment id stays invalid: it is rejected once the environment is gone, and also
  after its table entry has been given to a new environment, because the new id differs.
\<close>

theorem stale_envid_rejected:
  assumes "kern_ok s" "i < NENV" "status_of s i \<noteq> ENV_FREE" "curenv s \<noteq> Some i"
    and "env_destroy v i s = (Return r, s1)" "env_alloc v p ty s1 = (Inr k, s2)"
  shows "k = i \<and> envid2env s1 (env_id (envs s ! i)) b = Inr (Inl (-2)) \<and>
    envid2env s2 (env_id (envs s ! i)) b = Inr (Inl (-2))"
proof -
  have l: "length (envs s) = NENV" using assms(1) by (rule kern_okD)
  have id: "ENVX (env_id (envs s ! i)) = i" "0 < sint (env_id (envs s ! i))"
    using assms(1-3) by (auto intro: kern_okD(3,4))
  then have nz: "env_id (envs s ! i) \<noteq> 0" by auto
  have "kern_ok s1 \<and> envs s1 = (envs s)[i := (envs s ! i)\<lparr>env_status := ENV_FREE, env_link := env_free_list s\<rparr>]"
    by (rule kern_ok_destroy [OF assms(1-3,5)]) (use assms(4) in simp_all)
  then have k1: "kern_ok s1" and e1: "envs s1 = (envs s)[i := (envs s ! i)\<lparr>env_status := ENV_FREE, env_link := env_free_list s\<rparr>]"
    by simp_all
  have f1: "env_free_list s1 = Some i"
    using assms(4,5) by (simp add: env_destroy_def env_free_def Let_def split: if_splits) auto
  show ?thesis using k1 assms(6)
  proof (cases rule: env_alloc_cases)
    case (ok j)
    then have j: "j = i" "k = i" using f1 by simp_all
    have "new_envid (env_id (envs s ! i)) i \<noteq> env_id (envs s ! i)"
      using new_envid_fresh assms(2) by (simp add: NENV_def)
    then show ?thesis using ok(5) j l assms(2) nz by (simp add: envid2env_def id e1 Let_def)
  qed simp_all
qed

section \<open>A small system\<close>

text \<open>
  A memory manager without memory, and the table after booting with two environments, the first of them
  entered: concrete states for the witnesses.
\<close>

definition null_vm :: "unit vm" where
  "null_vm = \<lparr>vm_init = \<lambda>_ _. (0, ()), vm_release = \<lambda>_ _. (), vm_current = \<lambda>_. Some None, vm_switch = \<lambda>_ _. (), vm_map = \<lambda>_ _ _ _ _ _ _. (0, ()), vm_unmap = \<lambda>_ _ _ _. (),
     vm_maxref = \<lambda>_ _ _ _. 1, vm_page = \<lambda>_ _ _. Some 0xFFF, vm_force = \<lambda>_ _ _. (-7, ()), vm_bytes = \<lambda>_ _ _. [72, 105, 0],
     vm_trapframe = \<lambda>_ _ _. Some zero_tf, vm_put_utf = \<lambda>_ _ _ _. (), k_getc = \<lambda>_. (0, ()), k_gettime = \<lambda>_. 0,
     k_intr = \<lambda>_ _. (), k_monitor = \<lambda>_. (), k_tf_addr = \<lambda>_. 0x8000000000\<rparr>"

definition boot0 :: "unit kern" where
  "boot0 = env_init (\<lambda>_. ()) \<lparr>console = [], envs = [], curenv = None, env_free_list = None, in_page_fault = False, mm = ()\<rparr>"

definition boot2 :: "unit kern" where
  "boot2 = snd (env_run null_vm 0 (snd (env_alloc null_vm 0 ENV_TYPE_USER (snd (env_alloc null_vm 0 ENV_TYPE_FS boot0)))))"

definition boot_env :: "nat \<Rightarrow> EnvType \<Rightarrow> Env" where
  "boot_env i ty = zero_env\<lparr>env_link := Some (Suc i), env_id := 4096 + of_nat i, env_type := ty,
     env_status := ENV_RUNNABLE, env_tf := user_tf ty\<rparr>"

lemma boot2_eq:
  "boot2 = boot0\<lparr>envs := (envs boot0)[1 := boot_env 1 ENV_TYPE_USER,
      0 := (boot_env 0 ENV_TYPE_FS)\<lparr>env_status := ENV_RUNNING, env_runs := 1\<rparr>], curenv := Some 0, env_free_list := Some 2\<rparr>"
  by (simp add: boot2_def boot0_def env_init_def env_alloc_def null_vm_def nth_link_envs NENV_def env_run_def
      env_enter_def env_upd_def new_envid_def zero_env_def boot_env_def list_update_swap [of "Suc 0" 0])

lemma kern_ok_boot0: "kern_ok boot0"
  unfolding boot0_def by (rule kern_ok_init) simp

lemma boot2_runs: "user_runs boot2"
proof -
  obtain r1 s1 where a1: "env_alloc null_vm 0 ENV_TYPE_FS boot0 = (r1, s1)" by fastforce
  obtain r2 s2 where a2: "env_alloc null_vm 0 ENV_TYPE_USER s1 = (r2, s2)" by fastforce
  have k: "kern_ok s2" using kern_ok_alloc [OF kern_ok_alloc [OF kern_ok_boot0 a1] a2] .
  have b: "boot2 = snd (env_run null_vm 0 s2)" by (simp add: boot2_def a1 a2)
  then have "boot2 = snd (env_enter null_vm 0 (preempted s2))" using k by (simp add: env_run_enter)
  moreover have "status_of s2 0 \<noteq> ENV_FREE"
  proof -
    have "envs s2 = (envs boot0)[0 := boot_env 0 ENV_TYPE_FS, 1 := boot_env 1 ENV_TYPE_USER]"
      using a1 a2 by (auto simp: boot0_def env_init_def env_alloc_def null_vm_def nth_link_envs NENV_def
          new_envid_def zero_env_def boot_env_def)
    then show ?thesis by (simp add: boot0_def env_init_def NENV_def boot_env_def)
  qed
  ultimately show ?thesis using user_runs_enter(3) [OF k, of 0] by (metis kern_okD(1) [OF k] NENV_def prod.collapse zero_less_numeral)
qed

theorem sched_bounded_wait_witness:
  "\<exists>k\<le>1. user_runs (yields null_vm k boot2) \<and> curenv (yields null_vm k boot2) = Some 1"
proof -
  have "curenv boot2 = Some 0" "(1 :: nat) < NENV" "runnable boot2 1"
    by (simp_all add: boot2_eq boot0_def env_init_def NENV_def runnable_def boot_env_def)
  from sched_bounded_wait [OF boot2_runs this, of null_vm] show ?thesis by (simp add: cdist_def)
qed

theorem sched_round_robin_witness:
  "\<exists>s'. sched_yield null_vm boot2 = (Run, s') \<and> user_runs s' \<and> curenv s' = Some 1"
proof -
  have c: "curenv boot2 = Some 0" by (simp add: boot2_eq)
  have st: "status_of boot2 j = (if j = 0 then ENV_RUNNING else if j = 1 then ENV_RUNNABLE else ENV_FREE)" if "j < NENV" for j
    using that by (simp add: boot2_eq boot0_def env_init_def nth_list_update nth_link_envs boot_env_def)
  have n: "(0 :: nat) < NENV" "(1 :: nat) < NENV" by (simp_all add: NENV_def)
  have k: "kern_ok boot2" using boot2_runs by (simp add: user_runs_def)
  obtain i s' where r: "sched_yield null_vm boot2 = (Run, s')" "user_runs s'" "curenv s' = Some i" "runnable boot2 i"
    using sched_round_robin [OF k c, of null_vm] st [OF n(1)] st [OF n(2)] n by (auto simp: runnable_def)
  then have "i < NENV" by (auto simp: user_runs_def intro: kern_okD(7))
  then have "i = 1" using r(4) st by (auto simp: runnable_def split: if_splits)
  then show ?thesis using r by simp
qed

theorem stale_envid_rejected_witness:
  "\<exists>s1 s2. env_destroy null_vm 1 boot2 = (Return 0, s1) \<and> env_alloc null_vm 0 ENV_TYPE_USER s1 = (Inr 1, s2) \<and>
     envid2env s2 4097 False = Inr (Inl (-2))"
proof -
  let ?s1 = "snd (env_destroy null_vm 1 boot2)"
  let ?s2 = "snd (env_alloc null_vm 0 ENV_TYPE_USER ?s1)"
  have d: "env_destroy null_vm 1 boot2 = (Return 0, ?s1)"
    by (simp add: env_destroy_def env_free_def Let_def boot2_eq)
  have a: "env_alloc null_vm 0 ENV_TYPE_USER ?s1 = (Inr 1, ?s2)"
    by (simp add: env_destroy_def env_free_def Let_def boot2_eq env_alloc_def null_vm_def)
  have b: "(1 :: nat) < NENV" "status_of boot2 1 \<noteq> ENV_FREE" "curenv boot2 \<noteq> Some 1" "env_id (envs boot2 ! 1) = 4097"
    by (simp_all add: boot2_eq boot0_def env_init_def NENV_def boot_env_def)
  have "kern_ok boot2" using boot2_runs by (simp add: user_runs_def)
  from stale_envid_rejected [OF this b(1-3) d a, of False] show ?thesis using d a unfolding b(4) by blast
qed

end
