(* ===== verification/MemFlags.thy ===== *)
theory MemFlags
  imports Prelude
begin

unbundle bit_operations_syntax

text \<open>The flags of a mapping and of an allocation (\<^verbatim>\<open>kern/pmap.h\<close>), which the system calls and the memory manager share.\<close>

definition PROT_X :: u32 where "PROT_X = 0x1"
definition PROT_W :: u32 where "PROT_W = 0x2"
definition PROT_R :: u32 where "PROT_R = 0x4"
definition PROT_CD :: u32 where "PROT_CD = 0x18"
definition PROT_USER :: u32 where "PROT_USER = 0x20"
definition PROT_SHARE :: u32 where "PROT_SHARE = 0x40"
definition PROT_LAZY :: u32 where "PROT_LAZY = 0x80"
definition PROT_COMBINE :: u32 where "PROT_COMBINE = 0x100"
definition PROT_ALL :: u32 where "PROT_ALL = 0xFFF"
definition ALLOC_ZERO :: u32 where "ALLOC_ZERO = 0x100000"
definition ALLOC_ONE :: u32 where "ALLOC_ONE = 0x200000"
definition PAGE_PROT :: "u32 \<Rightarrow> u32" where "PAGE_PROT p = p AND NOT 0xF00000"

end
