(* ===== verification/Syscall.thy ===== *)
theory Syscall
  imports Env MemFlags
begin

text \<open>
  System calls (\<^verbatim>\<open>kern/syscall.c\<close>) and the check of user memory they rely on (\<^verbatim>\<open>user_mem_check\<close>,
  \<^verbatim>\<open>user_mem_assert\<close> of \<^verbatim>\<open>kern/pmap.c\<close>).

  A call ends with a \<open>fault\<close> of the kernel, or with an outcome and the new state. \<open>Return r\<close> is the value that
  goes back to user code. A user pointer is an address in the space of the calling environment.
\<close>

type_synonym 's kres = "(outcome \<times> 's) res"

section \<open>Access to user memory\<close>

definition PAGE_SIZE :: u64 where "PAGE_SIZE = 4096"
definition PAGE_OFFSET :: "u64 \<Rightarrow> u64" where "PAGE_OFFSET a = a AND 0xFFF"
definition MAX_USER_ADDRESS :: u64 where "MAX_USER_ADDRESS = 0x8000000000"
definition MAX_USER_READABLE :: u64 where "MAX_USER_READABLE = 0x801FE00000"

text \<open>
  The loop over the pages. The address arithmetic wraps around, so the loop is a partial function: \<open>None\<close> when
  it does not end. \<open>Inl\<close> is the first address that fails, \<open>Inr\<close> the address where the loop stopped.
\<close>

partial_function (option) user_mem_walk ::
  "(u64 \<Rightarrow> u32 option) \<Rightarrow> u32 \<Rightarrow> u64 \<Rightarrow> u64 \<Rightarrow> u64 \<Rightarrow> (u64 + u64) option" where
  "user_mem_walk page perm va current fin =
     (if current < fin
      then case page current of None \<Rightarrow> Some (Inl (max va current))
           | Some state \<Rightarrow>
             if state AND PAGE_PROT perm \<noteq> PAGE_PROT perm then Some (Inl (max va current))
             else user_mem_walk page perm va (current + PAGE_SIZE) fin
      else Some (Inr current))"

definition user_mem_check :: "(u64 \<Rightarrow> u32 option) \<Rightarrow> u64 \<Rightarrow> u64 \<Rightarrow> u32 \<Rightarrow> (int \<times> u64) option" where
  "user_mem_check page va len perm =
     (case user_mem_walk page perm va (va - PAGE_OFFSET va) (va + len) of
        None \<Rightarrow> None
      | Some (Inl a) \<Rightarrow> Some (-7, a)
      | Some (Inr current) \<Rightarrow>
          if MAX_USER_READABLE < va + len then Some (-7, max MAX_USER_READABLE current) else Some (0, 0))"

definition kprintf :: "string \<Rightarrow> varg list \<Rightarrow> ('m, 'z) kern_scheme \<Rightarrow> ('m, 'z) kern_scheme res" where
  "kprintf fmt ap s = bind_res (printfmt (bytes_of fmt @ [0]) ap) (\<lambda>out. Inr (cprintf out s))"

text \<open>Sequencing after a call that may not return.\<close>

definition after :: "'s kres \<Rightarrow> ('s \<Rightarrow> 's kres) \<Rightarrow> 's kres" where
  "after m f = bind_res m (\<lambda>(r, s). case r of Return _ \<Rightarrow> f s | _ \<Rightarrow> Inr (r, s))"

definition user_mem_assert ::
  "'m vm \<Rightarrow> nat \<Rightarrow> u64 \<Rightarrow> u64 \<Rightarrow> u32 \<Rightarrow> ('m, 'z) kern_scheme \<Rightarrow> ('m, 'z) kern_scheme kres" where
  "user_mem_assert v i va len perm s =
     (case user_mem_check (vm_page v (mm s) i) va len (perm OR PROT_USER) of
        None \<Rightarrow> Inr (Spin, s)
      | Some (r, a) \<Rightarrow>
          if r < 0
          then bind_res (kprintf ''[%08x] user_mem_check assertion failure for va=%016zx ip=%016zx\<newline>''
                 [VInt (ucast (env_id (envs s ! i))), VInt a, VInt (tf_rip (env_tf (envs s ! i)))] s) (\<lambda>s.
               Inr (env_destroy v i s))
          else Inr (Return 0, s))"

section \<open>The calls\<close>

definition with_cur :: "('m, 'z) kern_scheme \<Rightarrow> (nat \<Rightarrow> 'r res) \<Rightarrow> 'r res" where
  "with_cur s f = (case curenv s of None \<Rightarrow> Inl NullDeref | Some c \<Rightarrow> f c)"

text \<open>\<open>envid2env\<close> with the value returned on an error.\<close>

definition with_env ::
  "('m, 'z) kern_scheme \<Rightarrow> u32 \<Rightarrow> bool \<Rightarrow> int \<Rightarrow> (nat \<Rightarrow> ('m, 'z) kern_scheme kres) \<Rightarrow> ('m, 'z) kern_scheme kres" where
  "with_env s envid need err f = bind_res (envid2env s envid need) (\<lambda>r. case r of
     Inl _ \<Rightarrow> Inr (Return err, s) | Inr None \<Rightarrow> Inl NullDeref | Inr (Some i) \<Rightarrow> f i)"

definition sys_cputs :: "'m vm \<Rightarrow> u64 \<Rightarrow> u64 \<Rightarrow> ('m, 'z) kern_scheme \<Rightarrow> ('m, 'z) kern_scheme kres" where
  "sys_cputs v p len s = with_cur s (\<lambda>c.
     after (user_mem_assert v c p len (PROT_R OR PROT_USER) s) (\<lambda>s.
     bind_res (kprintf ''%.*s'' [VInt len, VStr (vm_bytes v (mm s) c p)] s) (\<lambda>s. Inr (Return 0, s))))"

definition sys_cgetc :: "'m vm \<Rightarrow> ('m, 'z) kern_scheme \<Rightarrow> ('m, 'z) kern_scheme kres" where
  "sys_cgetc v s = (let (ch, m) = k_getc v (mm s) in Inr (Return (sint ch), s\<lparr>mm := m\<rparr>))"

definition sys_getenvid :: "('m, 'z) kern_scheme \<Rightarrow> ('m, 'z) kern_scheme kres" where
  "sys_getenvid s = with_cur s (\<lambda>c. Inr (Return (sint (env_id (envs s ! c))), s))"

definition sys_env_destroy :: "'m vm \<Rightarrow> u32 \<Rightarrow> ('m, 'z) kern_scheme \<Rightarrow> ('m, 'z) kern_scheme kres" where
  "sys_env_destroy v envid s = with_env s envid True (-2) (\<lambda>i.
     after (Inr (env_destroy v i s)) (\<lambda>s. Inr (Return 0, s)))"

definition sys_yield :: "'m vm \<Rightarrow> ('m, 'z) kern_scheme \<Rightarrow> ('m, 'z) kern_scheme kres" where
  "sys_yield v s = Inr (sched_yield v s)"

text \<open>
  The result of \<^verbatim>\<open>env_alloc\<close> is ignored; when it fails the pointer is uninitialised and its use is undefined,
  written as the fault \<open>OutOfBounds\<close>.
\<close>

definition sys_exofork :: "'m vm \<Rightarrow> ('m, 'z) kern_scheme \<Rightarrow> ('m, 'z) kern_scheme kres" where
  "sys_exofork v s = with_cur s (\<lambda>c.
     case env_alloc v (env_id (envs s ! c)) ENV_TYPE_USER s of
       (Inl e, s) \<Rightarrow> Inl OutOfBounds
     | (Inr i, s) \<Rightarrow>
         let tf = env_tf (envs s ! c);
             s = env_upd i (\<lambda>e. e\<lparr>env_status := ENV_NOT_RUNNABLE, env_tf := tf\<lparr>tf_regs := (tf_regs tf)\<lparr>reg_rax := 0\<rparr>\<rparr>\<rparr>) s
         in Inr (Return (sint (env_id (envs s ! i))), s))"

definition sys_env_set_status :: "u32 \<Rightarrow> u32 \<Rightarrow> ('m, 'z) kern_scheme \<Rightarrow> ('m, 'z) kern_scheme kres" where
  "sys_env_set_status envid status s = with_env s envid True (-1) (\<lambda>i.
     if status = 4 then Inr (Return 0, env_upd i (\<lambda>e. e\<lparr>env_status := ENV_NOT_RUNNABLE\<rparr>) s)
     else if status = 2 then Inr (Return 0, env_upd i (\<lambda>e. e\<lparr>env_status := ENV_RUNNABLE\<rparr>) s)
     else Inr (Return (-3), s))"

definition sys_env_set_pgfault_upcall :: "u32 \<Rightarrow> u64 \<Rightarrow> ('m, 'z) kern_scheme \<Rightarrow> ('m, 'z) kern_scheme kres" where
  "sys_env_set_pgfault_upcall envid func s = with_env s envid True (-1) (\<lambda>i.
     Inr (Return 0, env_upd i (\<lambda>e. e\<lparr>env_pgfault_upcall := func\<rparr>) s))"

definition alloc_perm :: "u32 \<Rightarrow> u32" where
  "alloc_perm perm =
     (let perm = (if perm AND ALLOC_ONE \<noteq> 0 then perm AND NOT ALLOC_ZERO else (perm OR ALLOC_ZERO) AND NOT ALLOC_ONE)
      in perm OR PROT_USER OR PROT_LAZY)"

definition sys_alloc_region :: "'m vm \<Rightarrow> u32 \<Rightarrow> u64 \<Rightarrow> u64 \<Rightarrow> u32 \<Rightarrow> ('m, 'z) kern_scheme \<Rightarrow> ('m, 'z) kern_scheme kres" where
  "sys_alloc_region v envid addr len perm s = with_env s envid True (-1) (\<lambda>i.
     if PAGE_OFFSET addr \<noteq> 0 then Inr (Return (-3), s)
     else if MAX_USER_ADDRESS < addr then Inr (Return (-3), s)
     else if perm AND NOT PROT_ALL \<noteq> 0 then Inr (Return (-3), s)
     else let (r, m) = vm_map v (mm s) i addr None 0 len (alloc_perm perm)
          in Inr (Return (if r < 0 then -1 else 0), s\<lparr>mm := m\<rparr>))"

definition sys_map_region ::
  "'m vm \<Rightarrow> u32 \<Rightarrow> u64 \<Rightarrow> u32 \<Rightarrow> u64 \<Rightarrow> u64 \<Rightarrow> u32 \<Rightarrow> ('m, 'z) kern_scheme \<Rightarrow> ('m, 'z) kern_scheme kres" where
  "sys_map_region v srcenvid srcva dstenvid dstva len perm s =
     with_env s srcenvid True (-1) (\<lambda>i. with_env s dstenvid True (-1) (\<lambda>j.
     if PAGE_OFFSET srcva \<noteq> 0 \<or> PAGE_OFFSET dstva \<noteq> 0 then Inr (Return (-3), s)
     else if MAX_USER_ADDRESS \<le> srcva then Inr (Return (-3), s)
     else if MAX_USER_ADDRESS \<le> dstva then Inr (Return (-3), s)
     else let perm = perm OR PROT_USER in
       if perm AND NOT PROT_ALL \<noteq> 0 \<or> perm AND ALLOC_ZERO \<noteq> 0 \<or> perm AND ALLOC_ONE \<noteq> 0 then Inr (Return (-3), s)
       else let (r, m) = vm_map v (mm s) j dstva (Some i) srcva len perm
            in Inr (Return (if r < 0 then -1 else 0), s\<lparr>mm := m\<rparr>)))"

definition sys_unmap_region :: "'m vm \<Rightarrow> u32 \<Rightarrow> u64 \<Rightarrow> u64 \<Rightarrow> ('m, 'z) kern_scheme \<Rightarrow> ('m, 'z) kern_scheme kres" where
  "sys_unmap_region v envid va len s = with_env s envid True (-1) (\<lambda>i.
     if PAGE_OFFSET va \<noteq> 0 then Inr (Return (-3), s)
     else if MAX_USER_ADDRESS \<le> va then Inr (Return (-3), s)
     else Inr (Return 0, s\<lparr>mm := vm_unmap v (mm s) i va len\<rparr>))"

text \<open>The last part of \<open>sys_ipc_try_send\<close>, after the page has been mapped or not.\<close>

definition ipc_deliver :: "nat \<Rightarrow> nat \<Rightarrow> u32 \<Rightarrow> u32 \<Rightarrow> ('m, 'z) kern_scheme \<Rightarrow> ('m, 'z) kern_scheme" where
  "ipc_deliver c i val perm s = env_upd i (\<lambda>e. e\<lparr>env_ipc_perm := perm, env_ipc_recving := False,
     env_ipc_from := env_id (envs s ! c), env_ipc_value := val, env_status := ENV_RUNNABLE\<rparr>) s"

definition sys_ipc_try_send ::
  "'m vm \<Rightarrow> u32 \<Rightarrow> u32 \<Rightarrow> u64 \<Rightarrow> u64 \<Rightarrow> u32 \<Rightarrow> ('m, 'z) kern_scheme \<Rightarrow> ('m, 'z) kern_scheme kres" where
  "sys_ipc_try_send v envid val srcva len perm s = with_env s envid False (-1) (\<lambda>i.
     if \<not> env_ipc_recving (envs s ! i) then Inr (Return (-11), s)
     else let dstva = env_ipc_dstva (envs s ! i) in
       with_cur s (\<lambda>c.
       if srcva < MAX_USER_ADDRESS \<and> dstva < MAX_USER_ADDRESS
       then if PAGE_OFFSET srcva \<noteq> 0 \<or> PAGE_OFFSET dstva \<noteq> 0 then Inr (Return (-3), s)
         else let (r, m) = vm_map v (mm s) i dstva (Some c) srcva PAGE_SIZE (perm OR PROT_USER);
                  s = s\<lparr>mm := m\<rparr> in
           if r < 0 then Inr (Return (-1), s)
           else Inr (Return 0, ipc_deliver c i val perm
                  (env_upd i (\<lambda>e. e\<lparr>env_ipc_maxsz := min len (env_ipc_maxsz e)\<rparr>) s))
       else Inr (Return 0, ipc_deliver c i val 0 s)))"

definition sys_ipc_recv :: "'m vm \<Rightarrow> u64 \<Rightarrow> u64 \<Rightarrow> ('m, 'z) kern_scheme \<Rightarrow> ('m, 'z) kern_scheme kres" where
  "sys_ipc_recv v dstva maxsize s =
     (if dstva < MAX_USER_ADDRESS \<and> PAGE_OFFSET dstva \<noteq> 0 then Inr (Return (-3), s)
      else if dstva < MAX_USER_ADDRESS \<and> maxsize = 0 then Inr (Return (-3), s)
      else if PAGE_OFFSET maxsize \<noteq> 0 then Inr (Return (-3), s)
      else with_cur s (\<lambda>c.
        let s = env_upd c (\<lambda>e. e\<lparr>env_ipc_recving := True, env_status := ENV_NOT_RUNNABLE\<rparr>) s;
            s = (if dstva < MAX_USER_ADDRESS
                 then env_upd c (\<lambda>e. e\<lparr>env_ipc_dstva := dstva, env_ipc_maxsz := maxsize\<rparr>) s else s);
            s = env_upd c (\<lambda>e. e\<lparr>env_tf := (env_tf e)\<lparr>tf_regs := (tf_regs (env_tf e))\<lparr>reg_rax := 0\<rparr>\<rparr>\<rparr>) s
        in Inr (sched_yield v s)))"

text \<open>\<open>sizeof(struct Trapframe)\<close> is 192. The registers are read from the calling environment's memory.\<close>

definition sys_env_set_trapframe :: "'m vm \<Rightarrow> u32 \<Rightarrow> u64 \<Rightarrow> ('m, 'z) kern_scheme \<Rightarrow> ('m, 'z) kern_scheme kres" where
  "sys_env_set_trapframe v envid tf s = with_env s envid False (-2) (\<lambda>i. with_cur s (\<lambda>c.
     after (user_mem_assert v i tf 192 (PROT_USER OR PROT_R) s) (\<lambda>s.
     case vm_trapframe v (mm s) c tf of None \<Rightarrow> Inl KernPanic
     | Some t \<Rightarrow> Inr (Return 0, env_upd i (\<lambda>e. e\<lparr>env_tf := t\<lparr>tf_cs := GD_UT OR 3, tf_ds := GD_UD OR 3,
         tf_es := GD_UD OR 3, tf_ss := GD_UD OR 3, tf_rflags := (tf_rflags t AND 0xFFF) OR FL_IF\<rparr>\<rparr>) s))))"

definition sys_gettime :: "'m vm \<Rightarrow> ('m, 'z) kern_scheme \<Rightarrow> ('m, 'z) kern_scheme kres" where
  "sys_gettime v s = Inr (Return (sint (k_gettime v (mm s))), s)"

text \<open>\<^verbatim>\<open>current_space\<close> is the space of the calling environment.\<close>

definition sys_region_refs :: "'m vm \<Rightarrow> u64 \<Rightarrow> u64 \<Rightarrow> u64 \<Rightarrow> u64 \<Rightarrow> ('m, 'z) kern_scheme \<Rightarrow> ('m, 'z) kern_scheme kres" where
  "sys_region_refs v addr len addr2 len2 s = with_cur s (\<lambda>c.
     let maxref = vm_maxref v (mm s) c addr len in
     if MAX_USER_ADDRESS \<le> addr2 then Inr (Return maxref, s)
     else Inr (Return (maxref - vm_maxref v (mm s) c addr2 len2), s))"

text \<open>The dispatcher; an \<^verbatim>\<open>int\<close> argument is the low half of the register.\<close>

definition syscall ::
  "'m vm \<Rightarrow> u64 \<Rightarrow> u64 \<Rightarrow> u64 \<Rightarrow> u64 \<Rightarrow> u64 \<Rightarrow> u64 \<Rightarrow> u64 \<Rightarrow> ('m, 'z) kern_scheme \<Rightarrow> ('m, 'z) kern_scheme kres" where
  "syscall v num a1 a2 a3 a4 a5 a6 s =
     (if num = 0 then sys_cputs v a1 a2 s
      else if num = 1 then sys_cgetc v s
      else if num = 2 then sys_getenvid s
      else if num = 3 then sys_env_destroy v (ucast a1) s
      else if num = 4 then sys_alloc_region v (ucast a1) a2 a3 (ucast a4) s
      else if num = 5 then sys_map_region v (ucast a1) a2 (ucast a3) a4 a5 (ucast a6) s
      else if num = 6 then sys_unmap_region v (ucast a1) a2 a3 s
      else if num = 7 then sys_region_refs v a1 a2 a3 a4 s
      else if num = 8 then sys_exofork v s
      else if num = 9 then sys_env_set_status (ucast a1) (ucast a2) s
      else if num = 11 then sys_env_set_pgfault_upcall (ucast a1) a2 s
      else if num = 12 then after (sys_yield v s) (\<lambda>s. Inr (Return 0, s))
      else if num = 13 then sys_ipc_try_send v (ucast a1) (ucast a2) a3 a4 (ucast a5) s
      else if num = 14 then sys_ipc_recv v a1 a2 s
      else if num = 10 then sys_env_set_trapframe v (ucast a1) a2 s
      else if num = 15 then sys_gettime v s
      else Inr (Return (-9), s))"

section \<open>The check of user memory\<close>

declare user_mem_walk.simps [code]

text \<open>A page that is mapped with the permissions asked for.\<close>

definition page_grants :: "(u64 \<Rightarrow> u32 option) \<Rightarrow> u32 \<Rightarrow> u64 \<Rightarrow> bool" where
  "page_grants page perm a \<longleftrightarrow>
     (case page a of None \<Rightarrow> False | Some state \<Rightarrow> state AND PAGE_PROT perm = PAGE_PROT perm)"

lemma user_mem_walk_step:
  "user_mem_walk page perm va cur fin =
     (if cur < fin
      then if page_grants page perm cur then user_mem_walk page perm va (cur + PAGE_SIZE) fin
           else Some (Inl (max va cur))
      else Some (Inr cur))"
  by (subst user_mem_walk.simps) (simp add: page_grants_def split: option.split)

lemma unat_page_step:
  assumes "cur < fin" "unat fin \<le> 2 ^ 64 - 4096"
  shows "unat (cur + PAGE_SIZE) = unat cur + 4096"
proof -
  have "unat cur < unat fin" using assms(1) by (simp add: word_less_nat_alt)
  then have "unat cur + 4096 < 2 ^ 64" using assms(2) by simp
  then show ?thesis by (simp add: PAGE_SIZE_def unat_plus_if')
qed

lemma user_mem_walk_spec:
  assumes "unat fin \<le> 2 ^ 64 - 4096"
  shows "user_mem_walk page perm va cur fin =
    (case find (\<lambda>k. \<not> page_grants page perm (cur + of_nat k * PAGE_SIZE)) [0..<(unat fin - unat cur + 4095) div 4096] of
       Some k \<Rightarrow> Some (Inl (max va (cur + of_nat k * PAGE_SIZE)))
     | None \<Rightarrow> Some (Inr (cur + of_nat ((unat fin - unat cur + 4095) div 4096) * PAGE_SIZE)))"
proof (induction "(unat fin - unat cur + 4095) div 4096" arbitrary: cur)
  case 0
  then have "\<not> cur < fin" by (simp add: word_less_nat_alt)
  then show ?case using 0 by (subst user_mem_walk_step) simp
next
  case (Suc n)
  then have lt: "cur < fin" by (cases "unat cur < unat fin") (auto simp: word_less_nat_alt)
  have nxt: "unat (cur + PAGE_SIZE) = unat cur + 4096" using lt assms by (rule unat_page_step)
  have n: "n = (unat fin - unat (cur + PAGE_SIZE) + 4095) div 4096" 
    using Suc.hyps(2) unfolding nxt by linarith
  have shift: "cur + PAGE_SIZE + of_nat k * PAGE_SIZE = cur + of_nat (Suc k) * PAGE_SIZE" for k
    by (simp add: algebra_simps)
  have upt: "[0..<Suc n] = 0 # map Suc [0..<n]" by (simp add: map_Suc_upt upt_conv_Cons)
  have fmap: "find P (map Suc xs) = map_option Suc (find (P \<circ> Suc) xs)" for P xs
    by (induction xs) simp_all
  show ?case
    unfolding Suc.hyps(2) [symmetric] upt
    by (subst user_mem_walk_step)
      (simp add: lt Suc.hyps(1) [OF n] n [symmetric] shift fmap o_def split: option.split del: of_nat_Suc)
qed

lemma unat_PAGE_OFFSET: "unat (PAGE_OFFSET a) = unat a mod 4096"
proof -
  have "a AND 4095 = take_bit 12 a" by (simp add: take_bit_eq_mask mask_eq_exp_minus_1)
  then show ?thesis by (simp add: PAGE_OFFSET_def take_bit_eq_mod unat_mod)
qed

lemma unat_page_base: "unat (a - PAGE_OFFSET a) = unat a div 4096 * 4096"
proof -
  have le: "PAGE_OFFSET a \<le> a" by (simp add: word_le_nat_alt unat_PAGE_OFFSET)
  then have "unat (a - PAGE_OFFSET a) = unat a - unat a mod 4096" by (simp add: unat_sub unat_PAGE_OFFSET)
  then show ?thesis by (simp add: minus_mod_eq_div_mult)
qed

lemma page_base_eqI: "unat a = q * 4096 \<Longrightarrow> unat b div 4096 = q \<Longrightarrow> b - PAGE_OFFSET b = a"
  by (metis unat_page_base word_unat_eq_iff)

lemma pages_bytes:
  assumes fin: "unat fin \<le> 2 ^ 64 - 4096" and base: "unat base mod 4096 = 0"
  shows "(\<forall>k < (unat fin - unat base + 4095) div 4096. P (base + of_nat k * PAGE_SIZE)) \<longleftrightarrow>
    (\<forall>b. base \<le> b \<and> b < fin \<longrightarrow> P (b - PAGE_OFFSET b))"
proof -
  obtain q where q: "unat base = q * 4096" using base by (metis mod_0_imp_dvd dvd_def mult.commute)
  have page: "unat (base + of_nat k * PAGE_SIZE) = (q + k) * 4096" if "(q + k) * 4096 < unat fin" for k
  proof -
    have e: "base + of_nat k * PAGE_SIZE = of_nat ((q + k) * 4096)"
    proof -
      have "base = of_nat (q * 4096)" unfolding q [symmetric] by simp
      then show ?thesis by (simp add: PAGE_SIZE_def algebra_simps)
    qed
    have "(q + k) * 4096 < 2 ^ LENGTH(64)" using that fin by simp
    then show ?thesis unfolding e unat_of_nat by (rule mod_less)
  qed
  have count: "k < (unat fin - unat base + 4095) div 4096 \<longleftrightarrow> (q + k) * 4096 < unat fin" for k
    unfolding q by (auto simp: less_eq_div_iff_mult_less_eq Suc_le_eq [symmetric])
  show ?thesis
  proof (intro iffI allI impI)
    fix b assume h: "\<forall>k<(unat fin - unat base + 4095) div 4096. P (base + of_nat k * PAGE_SIZE)" and b: "base \<le> b \<and> b < fin"
    then have bn: "q * 4096 \<le> unat b" "unat b < unat fin" by (simp_all add: word_le_nat_alt word_less_nat_alt q)
    define k where "k = unat b div 4096 - q"
    have qk: "q + k = unat b div 4096" using bn(1) by (simp add: k_def less_eq_div_iff_mult_less_eq)
    have le: "(q + k) * 4096 < unat fin" using bn(2) unfolding qk by (meson div_times_less_eq_dividend le_less_trans)
    then have "b - PAGE_OFFSET b = base + of_nat k * PAGE_SIZE" using page [OF le] qk by (intro page_base_eqI) simp_all
    then show "P (b - PAGE_OFFSET b)" using h le by (simp add: count)
  next
    fix k assume h: "\<forall>b. base \<le> b \<and> b < fin \<longrightarrow> P (b - PAGE_OFFSET b)" and "k < (unat fin - unat base + 4095) div 4096"
    then have le: "(q + k) * 4096 < unat fin" by (simp add: count)
    let ?b = "base + of_nat k * PAGE_SIZE"
    have "?b - PAGE_OFFSET ?b = ?b" using page [OF le] by (intro page_base_eqI) simp_all
    moreover have "base \<le> ?b \<and> ?b < fin" using page [OF le] le by (simp add: word_le_nat_alt word_less_nat_alt q)
    ultimately show "P ?b" using h by metis
  qed
qed

text \<open>
  C24: the check of user memory is exact when the range does not wrap around: it returns, with 0 or
  \<^verbatim>\<open>-E_FAULT\<close>, and with 0 exactly if the range ends below \<^verbatim>\<open>MAX_USER_READABLE\<close> and every byte from
  the start of its first page on lies in a page that grants the permissions.
\<close>

theorem user_mem_check_exact:
  assumes nowrap: "unat va + unat len \<le> 2 ^ 64 - 4096"
  shows "\<exists>r a. user_mem_check page va len perm = Some (r, a) \<and> (r = 0 \<or> r = -7) \<and>
    (r = 0 \<longleftrightarrow> va + len \<le> MAX_USER_READABLE \<and>
      (\<forall>b. va - PAGE_OFFSET va \<le> b \<and> b < va + len \<longrightarrow> page_grants page perm (b - PAGE_OFFSET b)))"
proof -
  let ?base = "va - PAGE_OFFSET va"
  let ?n = "(unat (va + len) - unat ?base + 4095) div 4096"
  have fin: "unat (va + len) \<le> 2 ^ 64 - 4096" using nowrap by (simp add: unat_plus_if')
  have "unat ?base mod 4096 = 0" by (simp add: unat_page_base)
  note pages = pages_bytes [OF fin this, of "page_grants page perm"]
  show ?thesis
  proof (cases "find (\<lambda>k. \<not> page_grants page perm (?base + of_nat k * PAGE_SIZE)) [0..<?n]")
    case None
    then have "\<forall>k<?n. page_grants page perm (?base + of_nat k * PAGE_SIZE)" by (simp add: find_upt_None)
    then show ?thesis unfolding pages using None
      by (auto simp: user_mem_check_def user_mem_walk_spec [OF fin] not_less not_le)
  next
    case (Some k)
    then have "\<not> (\<forall>k<?n. page_grants page perm (?base + of_nat k * PAGE_SIZE))" by (auto simp: find_upt_Some)
    then show ?thesis unfolding pages using Some
      by (auto simp: user_mem_check_def user_mem_walk_spec [OF fin])
  qed
qed

theorem user_mem_check_exact_witness:
  "\<exists>r a. user_mem_check (\<lambda>p. if p = 0x400000 then Some 0xFFF else None) 0x400FF0 0x20 0x24 = Some (r, a) \<and> r = -7"
proof -
  let ?page = "\<lambda>p. if p = (0x400000 :: u64) then Some (0xFFF :: u32) else None"
  have "\<not> page_grants ?page 0x24 (0x401000 - PAGE_OFFSET 0x401000)" by (simp add: page_grants_def PAGE_OFFSET_def)
  moreover have "0x400FF0 - PAGE_OFFSET 0x400FF0 \<le> (0x401000 :: u64)" by (simp add: PAGE_OFFSET_def)
  ultimately show ?thesis using user_mem_check_exact [of "0x400FF0" "0x20" ?page "0x24"] by fastforce
qed

text \<open>
  A length that makes the end of the range wrap around defeats the check: any address passes with
  the length that brings the end to 0, without a single page being looked at.
\<close>

lemma user_mem_check_wraps: "user_mem_check page va (- va) perm = Some (0, 0)"
proof -
  have "user_mem_walk page perm va (va - PAGE_OFFSET va) 0 = Some (Inr (va - PAGE_OFFSET va))"
    by (subst user_mem_walk_step) simp
  then show ?thesis by (simp add: user_mem_check_def)
qed

section \<open>Console output\<close>

lemma str_chars_prefix:
  "0 \<le> p \<Longrightarrow> nat p < length cs \<Longrightarrow> str_chars cs p False = Inr (takeWhile (\<lambda>c. c \<noteq> 0) (take (nat p) cs))"
proof (induction cs arbitrary: p)
  case (Cons c cs)
  then show ?case by (cases "p = 0") (simp_all add: take_Cons' nat_diff_distrib')
qed simp

lemma sint_small: "unat (w :: u32) < 2 ^ 31 \<Longrightarrow> sint w = int (unat w)"
proof -
  assume "unat w < 2 ^ 31"
  then have "int (unat w) < int (2 ^ 31)" by (simp only: of_nat_less_iff)
  then have "uint w < 2 ^ 31" by simp
  moreover have "- (2 ^ 31) \<le> uint w" by (rule order_trans [OF _ uint_ge_0]) simp
  ultimately show ?thesis by (simp add: sint_uint signed_take_bit_int_eq_self)
qed

lemma str_chars_string: "p < 0 \<Longrightarrow> 0 \<notin> set msg \<Longrightarrow> str_chars (msg @ 0 # rest) p False = Inr msg"
  by (induction msg) auto

lemma printfmt_counted:
  "printfmt (bytes_of ''%.*s'' @ [0]) [VInt n, VStr cs] = str_chars cs (sint (ucast n :: u32)) False"
proof -
  have "bytes_of ''%.*s'' @ [0] = [37, 46, 42, 115, 0]" by code_simp
  then show ?thesis
    by (simp add: printfmt_def vprintfmt.simps escape.simps va_int_def va_str_def convert_def process_precision_def
        esc_init_def print_str_def bind_res_assoc)
      (simp add: bind_res_def split: sum.split)
qed

text \<open>
  \<^verbatim>\<open>sys_cputs\<close> prints the caller's text: with a range that passes the check and readable memory behind it,
  exactly the \<open>n\<close> bytes of the range go to the console, up to the first null character.
\<close>

theorem sys_cputs_prints:
  assumes "curenv s = Some c" "user_mem_check (vm_page v (mm s) c) p len (PROT_R OR PROT_USER OR PROT_USER) = Some (0, a)"
    and "unat len < 2 ^ 31" "unat len < length (vm_bytes v (mm s) c p)"
  shows "sys_cputs v p len s =
    Inr (Return 0, cprintf (takeWhile (\<lambda>ch. ch \<noteq> 0) (take (unat len) (vm_bytes v (mm s) c p))) s)"
proof -
  have u: "unat (ucast len :: u32) = unat len" using assms(3) by (simp add: unsigned_ucast_eq take_bit_nat_eq_self)
  then have "sint (ucast len :: u32) = int (unat len)"
    using sint_small [of "ucast len"] assms(3) by simp
  then show ?thesis
    using assms str_chars_prefix [of "int (unat len)" "vm_bytes v (mm s) c p"]
    by (simp add: sys_cputs_def with_cur_def user_mem_assert_def after_def kprintf_def printfmt_counted or.assoc)
qed

text \<open>
  the wrapped range discloses memory: for an address \<open>va\<close> whose negation has bit 31 set,
  \<^verbatim>\<open>sys_cputs(va, -va)\<close> prints the string at \<open>va\<close>, whether or not any page there is mapped for the user.
\<close>

theorem sys_cputs_leaks:
  assumes "curenv s = Some c" "vm_bytes v (mm s) c va = secret @ 0 # rest" "0 \<notin> set secret" "sint (ucast (- va) :: u32) < 0"
  shows "sys_cputs v va (- va) s = Inr (Return 0, cprintf secret s)"
  using assms str_chars_string [OF assms(4,3), of rest]
  by (simp add: sys_cputs_def with_cur_def user_mem_assert_def user_mem_check_wraps after_def kprintf_def printfmt_counted)

theorem sys_cputs_prints_witness: "sys_cputs null_vm 0x400000 2 boot2 = Inr (Return 0, cprintf [72, 105] boot2)"
proof -
  have c: "curenv boot2 = Some 0" by (simp add: boot2_eq)
  have m: "user_mem_check (vm_page null_vm (mm boot2) 0) 0x400000 2 (PROT_R OR PROT_USER OR PROT_USER) = Some (0, 0)"
    by (simp add: null_vm_def user_mem_check_def user_mem_walk_step page_grants_def PAGE_PROT_def PAGE_OFFSET_def
        PROT_R_def PROT_USER_def PAGE_SIZE_def MAX_USER_READABLE_def)
  show ?thesis using sys_cputs_prints [OF c m] by (simp add: null_vm_def)
qed

theorem sys_cputs_leaks_witness:
  "sys_cputs (null_vm\<lparr>vm_page := \<lambda>_ _ _. None\<rparr>) 0x8041600000 (- 0x8041600000) boot2 = Inr (Return 0, cprintf [72, 105] boot2)"
proof -
  have c: "curenv boot2 = Some 0" by (simp add: boot2_eq)
  show ?thesis by (rule sys_cputs_leaks [OF c, where rest = "[]"]) (simp_all add: null_vm_def)
qed

section \<open>The invariant of the table\<close>

text \<open>What a call by the running environment \<open>c\<close> leaves behind.\<close>

definition ends_ok :: "nat \<Rightarrow> outcome \<times> ('m, 'z) kern_scheme \<Rightarrow> bool" where
  "ends_ok c p = (case p of (r, s) \<Rightarrow> case r of
     Return _ \<Rightarrow> kern_ok s \<and> curenv s = Some c \<and> status_of s c \<noteq> ENV_FREE
   | Run \<Rightarrow> user_runs s
   | Resume \<Rightarrow> user_runs s
   | Monitor \<Rightarrow> True
   | Halt \<Rightarrow> False
   | Spin \<Rightarrow> True)"

lemma ends_ok_simps [simp]:
  "ends_ok c (Return r, s) \<longleftrightarrow> kern_ok s \<and> curenv s = Some c \<and> status_of s c \<noteq> ENV_FREE"
  "ends_ok c (Run, s) \<longleftrightarrow> user_runs s" "ends_ok c (Resume, s) \<longleftrightarrow> user_runs s"
  "ends_ok c (Monitor, s)" "ends_ok c (Spin, s)" "\<not> ends_ok c (Halt, s)"
  by (simp_all add: ends_ok_def)

definition res_ok :: "nat \<Rightarrow> ('m, 'z) kern_scheme kres \<Rightarrow> bool" where
  "res_ok c m \<longleftrightarrow> (\<forall>p. m = Inr p \<longrightarrow> ends_ok c p)"

lemma res_ok_simps [simp]: "res_ok c (Inl e)" "res_ok c (Inr p) = ends_ok c p"
  by (simp_all add: res_ok_def)

lemma res_ok_after:
  assumes "res_ok c m" "\<And>s. kern_ok s \<Longrightarrow> curenv s = Some c \<Longrightarrow> status_of s c \<noteq> ENV_FREE \<Longrightarrow> res_ok c (f s)"
  shows "res_ok c (after m f)"
proof (cases m)
  case (Inr p)
  obtain r s where p: "p = (r, s)" by fastforce
  show ?thesis using assms(1) assms(2) [of s] by (cases r) (simp_all add: after_def Inr p)
qed (simp add: after_def)

lemma link_update_same: "env_link e = env_link (es ! i) \<Longrightarrow> env_link (es[i := e] ! j) = env_link (es ! j)"
  by (cases "i = j"; cases "i < length es") (simp_all add: list_update_beyond)

lemma flist_update_same: "env_link e = env_link (es ! i) \<Longrightarrow> flist (es[i := e]) p fl = flist es p fl"
  by (induction fl arbitrary: p) (simp_all add: link_update_same)

lemma kern_ok_upd_same:
  assumes "kern_ok s" "env_link (f (envs s ! i)) = env_link (envs s ! i)" "env_id (f (envs s ! i)) = env_id (envs s ! i)"
    "env_status (f (envs s ! i)) = env_status (envs s ! i)"
  shows "kern_ok (env_upd i f s)"
proof -
  have st: "status_of (env_upd i f s) j = status_of s j \<and> env_id (envs (env_upd i f s) ! j) = env_id (envs s ! j)" for j
    using assms by (cases "i < length (envs s)") (auto simp: nth_list_update list_update_beyond)
  have "free_ok (env_upd i f s)"
    using kern_okD(2) [OF assms(1)] unfolding free_ok_def st [THEN conjunct1] by (simp add: flist_update_same assms(2))
  then show ?thesis
  proof (rule kern_ok_step [OF assms(1), rotated 2], goal_cases)
    case (1 j)
    then show ?case unfolding st [THEN conjunct1] using kern_okD(5,6) [OF assms(1)] by simp
  next
    case (2 j)
    then show ?case unfolding st [THEN conjunct1] st [THEN conjunct2] by simp
  qed (simp_all add: kern_okD(1) [OF assms(1)])
qed

lemma envid2env_live:
  assumes "kern_ok s" "curenv s = Some c" "status_of s c \<noteq> ENV_FREE" "envid2env s envid b = Inr (Inr (Some i))"
  shows "i < NENV" "status_of s i \<noteq> ENV_FREE"
  using assms kern_okD(7) [OF assms(1,2)] ENVX_less [of envid]
  by (auto simp: envid2env_def Let_def NENV_def split: if_splits)

lemma res_ok_with_env:
  assumes "kern_ok s" "curenv s = Some c" "status_of s c \<noteq> ENV_FREE"
    and "\<And>i. envid2env s envid b = Inr (Inr (Some i)) \<Longrightarrow> i < NENV \<Longrightarrow> status_of s i \<noteq> ENV_FREE \<Longrightarrow> res_ok c (f i)"
  shows "res_ok c (with_env s envid b err f)"
proof (cases "envid2env s envid b")
  case (Inr r)
  show ?thesis
  proof (cases r)
    case (Inr p)
    then show ?thesis using assms(4) envid2env_live [OF assms(1-3)] \<open>envid2env s envid b = Inr r\<close>
      by (cases p) (simp_all add: with_env_def)
  qed (use assms Inr in \<open>simp add: with_env_def\<close>)
qed (simp add: with_env_def)

lemma ends_ok_destroy:
  assumes "kern_ok s" "curenv s = Some c" "status_of s c \<noteq> ENV_FREE" "i < NENV" "status_of s i \<noteq> ENV_FREE"
  shows "ends_ok c (env_destroy v i s)"
proof -
  obtain r s' where e: "env_destroy v i s = (r, s')" by fastforce
  show ?thesis using assms(1,4,5) e
  proof (cases rule: kern_ok_destroy)
    case other
    then show ?thesis using assms e by (simp add: nth_list_update)
  qed (simp_all add: e)
qed

lemma ends_ok_yield: "kern_ok s \<Longrightarrow> ends_ok c (sched_yield v s)"
  by (cases "sched_yield v s") (auto elim: sched_yield_cases)

lemma res_ok_mem_assert:
  assumes "kern_ok s" "curenv s = Some c" "status_of s c \<noteq> ENV_FREE" "i < NENV" "status_of s i \<noteq> ENV_FREE"
  shows "res_ok c (user_mem_assert v i va len perm s)"
  using assms unfolding user_mem_assert_def
  by (auto simp: kprintf_def bind_res_def split: option.split sum.split intro!: ends_ok_destroy)

lemmas sys_ok_intros = res_ok_after res_ok_mem_assert res_ok_with_env ends_ok_destroy ends_ok_yield

lemma sys_ok_cputs:
  assumes "kern_ok s" "curenv s = Some c" "status_of s c \<noteq> ENV_FREE"
  shows "res_ok c (sys_cputs v p len s)"
  using assms kern_okD(7) [OF assms(1,2)] unfolding sys_cputs_def with_cur_def
  by (auto simp: kprintf_def bind_res_def split: sum.split intro!: res_ok_after res_ok_mem_assert)

lemma sys_ok_env_destroy:
  assumes "kern_ok s" "curenv s = Some c" "status_of s c \<noteq> ENV_FREE"
  shows "res_ok c (sys_env_destroy v envid s)"
  using assms unfolding sys_env_destroy_def by (auto intro!: sys_ok_intros)

lemma sys_ok_exofork:
  assumes "kern_ok s" "curenv s = Some c" "status_of s c \<noteq> ENV_FREE"
  shows "res_ok c (sys_exofork v s)"
proof -
  obtain r s' where a: "env_alloc v (env_id (envs s ! c)) ENV_TYPE_USER s = (r, s')" by fastforce
  have k': "kern_ok s'" using assms(1) a by (rule kern_ok_alloc)
  show ?thesis using assms(1) a
  proof (cases rule: env_alloc_cases)
    case (ok i)
    have l: "length (envs s) = NENV" using assms(1) by (rule kern_okD)
    have cN: "c < NENV" using assms(1,2) by (rule kern_okD(7))
    have "i \<noteq> c" using ok(4) assms(3) by auto
    moreover have "kern_ok (env_upd i (\<lambda>e. e\<lparr>env_status := ENV_NOT_RUNNABLE, env_tf := t\<rparr>) s')" for t
      using k' ok(3) l by (intro kern_ok_upd) (simp_all add: ok(5))
    ultimately show ?thesis using assms a ok(1,5,6) l cN
      by (simp add: sys_exofork_def with_cur_def Let_def)
  qed (use assms a in \<open>simp_all add: sys_exofork_def with_cur_def\<close>)
qed

lemma ends_ok_upd:
  assumes "kern_ok s" "curenv s = Some c" "status_of s c \<noteq> ENV_FREE" "i < NENV" "status_of s i \<noteq> ENV_FREE"
    and "env_id (f (envs s ! i)) = env_id (envs s ! i)"
    and "env_status (f (envs s ! i)) \<in> {ENV_RUNNABLE, ENV_NOT_RUNNABLE, status_of s i}"
  shows "ends_ok c (Return r, env_upd i f s)"
proof -
  have st: "env_status (f (envs s ! i)) \<notin> {ENV_FREE, ENV_DYING}"
    "env_status (f (envs s ! i)) = ENV_RUNNING \<Longrightarrow> curenv s = Some i"
    using assms(5,7) kern_okD(5,6) [OF assms(1,4)] by auto
  have "kern_ok (env_upd i f s)" using assms(1,4,5,6) st by (rule kern_ok_upd)
  moreover have "status_of (env_upd i f s) c \<noteq> ENV_FREE"
    using st(1) assms(3) by (cases "c = i"; cases "i < length (envs s)") (simp_all add: list_update_beyond)
  ultimately show ?thesis using assms(2) by simp
qed

lemma ends_ok_ret: "kern_ok s \<Longrightarrow> curenv s = Some c \<Longrightarrow> status_of s c \<noteq> ENV_FREE \<Longrightarrow> ends_ok c (Return r, s)"
  by simp

lemma sys_ok_set_status:
  assumes "kern_ok s" "curenv s = Some c" "status_of s c \<noteq> ENV_FREE"
  shows "res_ok c (sys_env_set_status envid status s)"
  unfolding sys_env_set_status_def
proof (rule res_ok_with_env [OF assms], goal_cases)
  case (1 i)
  have "ends_ok c (Return 0, env_upd i (\<lambda>e. e\<lparr>env_status := st\<rparr>) s)" if "st = ENV_RUNNABLE \<or> st = ENV_NOT_RUNNABLE" for st
    using assms 1 that by (intro ends_ok_upd) auto
  then show ?case using ends_ok_ret [OF assms] by (simp del: ends_ok_simps(1))
qed

lemma sys_ok_set_upcall:
  assumes "kern_ok s" "curenv s = Some c" "status_of s c \<noteq> ENV_FREE"
  shows "res_ok c (sys_env_set_pgfault_upcall envid func s)"
  unfolding sys_env_set_pgfault_upcall_def
  by (rule res_ok_with_env [OF assms], unfold res_ok_simps, rule ends_ok_upd [OF assms]) simp_all

lemma sys_ok_regions:
  assumes "kern_ok s" "curenv s = Some c" "status_of s c \<noteq> ENV_FREE"
  shows "res_ok c (sys_alloc_region v envid addr len perm s)" "res_ok c (sys_unmap_region v envid addr len s)"
    "res_ok c (sys_map_region v envid addr envid2 addr2 len perm s)" "res_ok c (sys_region_refs v addr len addr2 len2 s)"
  unfolding sys_alloc_region_def sys_unmap_region_def sys_map_region_def sys_region_refs_def with_cur_def
  using assms by (auto simp: Let_def intro!: res_ok_with_env split: prod.split)

lemma sys_ok_ipc_try_send:
  assumes "kern_ok s" "curenv s = Some c" "status_of s c \<noteq> ENV_FREE"
  shows "res_ok c (sys_ipc_try_send v envid val srcva len perm s)"
proof -
  have d: "ends_ok c (Return 0, ipc_deliver c i val p (env_upd i f (s\<lparr>mm := m\<rparr>)))"
    if "i < NENV" "status_of s i \<noteq> ENV_FREE" "\<And>e. env_id (f e) = env_id e" "\<And>e. env_status (f e) = env_status e" for i p f m
  proof -
    let ?s = "env_upd i f (s\<lparr>mm := m\<rparr>)"
    have "ends_ok c (Return 0, ?s)" using assms that by (intro ends_ok_upd) simp_all
    moreover have "status_of ?s i \<noteq> ENV_FREE" using that kern_okD(1) [OF assms(1)] by simp
    ultimately show ?thesis unfolding ipc_deliver_def using that by (intro ends_ok_upd) simp_all
  qed
  have d0: "ends_ok c (Return 0, ipc_deliver c i val p s)" if "i < NENV" "status_of s i \<noteq> ENV_FREE" for i p
    unfolding ipc_deliver_def using assms that by (intro ends_ok_upd) simp_all
  show ?thesis unfolding sys_ipc_try_send_def with_cur_def
    using d d0 ends_ok_ret [OF assms] assms
    by (intro res_ok_with_env) (auto simp: Let_def simp del: ends_ok_simps(1) split: prod.split intro!: ends_ok_ret)
qed

lemma sys_ok_ipc_recv:
  assumes "kern_ok s" "curenv s = Some c" "status_of s c \<noteq> ENV_FREE"
  shows "res_ok c (sys_ipc_recv v dstva maxsize s)"
proof -
  have c: "c < NENV" "length (envs s) = NENV" using assms by (auto intro: kern_okD(1,7))
  have u: "ends_ok c (sched_yield v (env_upd c f s))"
    if "\<And>e. env_id (f e) = env_id e" "\<And>e. env_status (f e) = ENV_NOT_RUNNABLE" for f
    using assms c that by (intro ends_ok_yield kern_ok_upd) simp_all
  have uu: "env_upd c g (env_upd c f t) = env_upd c (g \<circ> f) t" if "length (envs t) = NENV" for f g and t :: "('a, 'b) kern_scheme"
    using c(1) that by (simp add: env_upd_def)
  show ?thesis unfolding sys_ipc_recv_def with_cur_def Let_def
    using assms c by (auto simp: uu o_def simp del: ends_ok_simps(1) intro!: ends_ok_ret u)
qed

lemma sys_ok_set_trapframe:
  assumes "kern_ok s" "curenv s = Some c" "status_of s c \<noteq> ENV_FREE"
  shows "res_ok c (sys_env_set_trapframe v envid tf s)"
proof -
  have u: "ends_ok c (Return 0, env_upd i (\<lambda>e. e\<lparr>env_tf := t\<rparr>) s')"
    if "kern_ok s'" "curenv s' = Some c" "status_of s' c \<noteq> ENV_FREE" for i t and s' :: "('a, 'b) kern_scheme"
    using that kern_ok_upd_same [of s' "\<lambda>e. e\<lparr>env_tf := t\<rparr>" i]
    by (cases "c = i"; cases "i < length (envs s')") (simp_all add: list_update_beyond)
  show ?thesis unfolding sys_env_set_trapframe_def with_cur_def using assms
    by (auto simp del: ends_ok_simps(1) split: option.split intro!: res_ok_with_env res_ok_after res_ok_mem_assert u)
qed

text \<open>Every system call keeps the invariant.\<close>

lemma syscall_ok:
  assumes "kern_ok s" "curenv s = Some c" "status_of s c \<noteq> ENV_FREE"
  shows "res_ok c (syscall v num a1 a2 a3 a4 a5 a6 s)"
proof -
  have "res_ok c (sys_cgetc v s)" using assms by (simp add: sys_cgetc_def split: prod.split)
  moreover have "res_ok c (sys_getenvid s)" using assms by (simp add: sys_getenvid_def with_cur_def)
  moreover have "res_ok c (sys_gettime v s)" using assms by (simp add: sys_gettime_def)
  moreover have "res_ok c (after (sys_yield v s) (\<lambda>s. Inr (Return 0, s)))"
    using assms by (intro res_ok_after) (simp_all add: sys_yield_def ends_ok_yield)
  moreover have "res_ok c (Inr (Return (-9), s))" using assms by simp
  ultimately show ?thesis unfolding syscall_def
    using sys_ok_cputs [OF assms] sys_ok_env_destroy [OF assms] sys_ok_exofork [OF assms] sys_ok_set_status [OF assms]
      sys_ok_set_upcall [OF assms] sys_ok_regions [OF assms] sys_ok_ipc_try_send [OF assms] sys_ok_ipc_recv [OF assms]
      sys_ok_set_trapframe [OF assms]
    by (simp del: res_ok_simps)
qed

section \<open>Message passing\<close>

text \<open>A receiver that has given up the processor: its entry keeps what \<open>sys_ipc_recv\<close> wrote.\<close>

lemma ipc_recv_state:
  assumes u: "user_runs s" and c: "curenv s = Some c" and r: "sys_ipc_recv v dstva maxsize s = Inr (Run, s1)"
  shows "envs s1 ! c = (let e = envs s ! c; e = e\<lparr>env_ipc_recving := True, env_status := ENV_NOT_RUNNABLE\<rparr>;
      e = (if dstva < MAX_USER_ADDRESS then e\<lparr>env_ipc_dstva := dstva, env_ipc_maxsz := maxsize\<rparr> else e)
      in e\<lparr>env_tf := (env_tf e)\<lparr>tf_regs := (tf_regs (env_tf e))\<lparr>reg_rax := 0\<rparr>\<rparr>\<rparr>)"
    and "user_runs s1" "dstva < MAX_USER_ADDRESS \<Longrightarrow> PAGE_OFFSET dstva = 0"
proof -
  have k: "kern_ok s" and st: "status_of s c = ENV_RUNNING" using u c by (auto simp: user_runs_def)
  have cN: "c < NENV" "length (envs s) = NENV" using k c by (auto intro: kern_okD(1,7))
  define f where "f = (\<lambda>e :: Env. let e = e\<lparr>env_ipc_recving := True, env_status := ENV_NOT_RUNNABLE\<rparr>;
      e = (if dstva < MAX_USER_ADDRESS then e\<lparr>env_ipc_dstva := dstva, env_ipc_maxsz := maxsize\<rparr> else e)
      in e\<lparr>env_tf := (env_tf e)\<lparr>tf_regs := (tf_regs (env_tf e))\<lparr>reg_rax := 0\<rparr>\<rparr>\<rparr>)"
  have y: "sched_yield v (env_upd c f s) = (Run, s1)" and "dstva < MAX_USER_ADDRESS \<Longrightarrow> PAGE_OFFSET dstva = 0"
    using r c cN by (auto simp: sys_ipc_recv_def with_cur_def Let_def env_upd_def f_def split: if_splits)
  then show "dstva < MAX_USER_ADDRESS \<Longrightarrow> PAGE_OFFSET dstva = 0" by simp
  let ?s = "env_upd c f s"
  have fs: "env_status (f e) = ENV_NOT_RUNNABLE" "env_id (f e) = env_id e" for e by (simp_all add: f_def Let_def)
  have k': "kern_ok ?s" using k cN st by (intro kern_ok_upd) (simp_all add: fs)
  show "envs s1 ! c = (let e = envs s ! c; e = e\<lparr>env_ipc_recving := True, env_status := ENV_NOT_RUNNABLE\<rparr>;
      e = (if dstva < MAX_USER_ADDRESS then e\<lparr>env_ipc_dstva := dstva, env_ipc_maxsz := maxsize\<rparr> else e)
      in e\<lparr>env_tf := (env_tf e)\<lparr>tf_regs := (tf_regs (env_tf e))\<lparr>reg_rax := 0\<rparr>\<rparr>\<rparr>)"
    using k' y
  proof (cases rule: sched_yield_cases)
    case (run i)
    then have "i \<noteq> c" using cN by (auto simp: fs)
    then have "envs s1 ! c = envs (preempted ?s) ! c" using enter_nth(1) [OF run(4)] by simp
    also have "\<dots> = f (envs s ! c)" using cN by (simp add: preempted_nth [OF k'] fs)
    finally show ?thesis by (simp add: f_def Let_def)
  qed simp
  show "user_runs s1" using k' y by (cases rule: sched_yield_cases) simp_all
qed

lemma envid2env_found:
  assumes "kern_ok s" "i < NENV" "status_of s i \<noteq> ENV_FREE"
  shows "envid2env s (env_id (envs s ! i)) False = Inr (Inr (Some i))"
  using kern_okD(3,4) [OF assms] assms(3) by (auto simp: envid2env_def Let_def)

lemma ipc_delivery:
  assumes "user_runs s" "curenv s = Some c" "sys_ipc_recv v dstva maxsize s = Inr (Run, s1)" "curenv s1 = Some d"
    and "dstva < MAX_USER_ADDRESS \<or> MAX_USER_ADDRESS \<le> srcva" "PAGE_OFFSET srcva = 0"
    and "0 \<le> fst (vm_map v (mm s1) c dstva (Some d) srcva PAGE_SIZE (perm OR PROT_USER))"
  shows "\<exists>s2. sys_ipc_try_send v (env_id (envs s ! c)) val srcva len perm s1 = Inr (Return 0, s2) \<and>
    env_ipc_value (envs s2 ! c) = val \<and> env_ipc_from (envs s2 ! c) = env_id (envs s1 ! d) \<and>
    env_ipc_perm (envs s2 ! c) = (if srcva < MAX_USER_ADDRESS then perm else 0) \<and>
    reg_rax (tf_regs (env_tf (envs s2 ! c))) = 0 \<and> status_of s2 c = ENV_RUNNABLE \<and>
    (\<forall>j. j \<noteq> c \<longrightarrow> envs s2 ! j = envs s1 ! j) \<and>
    mm s2 = (if srcva < MAX_USER_ADDRESS then snd (vm_map v (mm s1) c dstva (Some d) srcva PAGE_SIZE (perm OR PROT_USER)) else mm s1) \<and>
    sys_ipc_try_send v (env_id (envs s ! c)) val2 srcva2 len2 perm2 s2 = Inr (Return (-11), s2)"
proof -
  note st = ipc_recv_state [OF assms(1-3)]
  have k1: "kern_ok s1" using st(2) by (simp add: user_runs_def)
  have cN: "c < NENV" using assms(1,2) by (auto simp: user_runs_def intro: kern_okD(7))
  have e: "env_id (envs s1 ! c) = env_id (envs s ! c)" "status_of s1 c = ENV_NOT_RUNNABLE" "env_ipc_recving (envs s1 ! c)"
      "reg_rax (tf_regs (env_tf (envs s1 ! c))) = 0"
    by (simp_all add: st(1) Let_def)
  have dst: "env_ipc_dstva (envs s1 ! c) = dstva" if "srcva < MAX_USER_ADDRESS"
    using assms(5) that by (auto simp: st(1) Let_def)
  have look: "envid2env s1 (env_id (envs s ! c)) False = Inr (Inr (Some c))"
    using envid2env_found [OF k1 cN] e by simp
  have cd: "c \<noteq> d" using st(2) assms(4) e(2) by (auto simp: user_runs_def)
  have l: "length (envs s1) = NENV" using k1 by (rule kern_okD)
  have again: "envid2env s2 (env_id (envs s ! c)) False = Inr (Inr (Some c))"
    if "env_id (envs s2 ! c) = env_id (envs s ! c)" "status_of s2 c \<noteq> ENV_FREE" for s2 :: "('a, 'b) kern_scheme"
    using look that e assms(4) cd by (auto simp: envid2env_def Let_def split: if_splits)
  obtain r m where vm: "vm_map v (mm s1) c dstva (Some d) srcva PAGE_SIZE (perm OR PROT_USER) = (r, m)" by fastforce
  define t where "t = (if srcva < MAX_USER_ADDRESS
    then env_upd c (\<lambda>e. e\<lparr>env_ipc_maxsz := min len (env_ipc_maxsz e)\<rparr>) (s1\<lparr>mm := m\<rparr>) else s1)"
  define s2 where "s2 = ipc_deliver d c val (if srcva < MAX_USER_ADDRESS then perm else 0) t"
  have t: "envs t = (envs s1)[c := envs t ! c]" "env_id (envs t ! c) = env_id (envs s ! c)"
      "reg_rax (tf_regs (env_tf (envs t ! c))) = 0"
    using l cN e by (simp_all add: t_def)
  have "sys_ipc_try_send v (env_id (envs s ! c)) val srcva len perm s1 = Inr (Return 0, s2)"
    using assms(4-7) st(3) vm dst e(3)
    by (auto simp: sys_ipc_try_send_def with_env_def look with_cur_def Let_def s2_def t_def)
  moreover have d: "envs s2 ! c = (envs t ! c)\<lparr>env_ipc_perm := (if srcva < MAX_USER_ADDRESS then perm else 0),
      env_ipc_recving := False, env_ipc_from := env_id (envs t ! d), env_ipc_value := val, env_status := ENV_RUNNABLE\<rparr>"
    using l cN by (simp add: s2_def ipc_deliver_def t_def)
  moreover have "envs t ! d = envs s1 ! d" using t(1) cd by (metis nth_list_update_neq)
  moreover have "envs s2 ! j = envs s1 ! j" if "j \<noteq> c" for j
    using that t(1) by (simp add: s2_def ipc_deliver_def) (metis nth_list_update_neq)
  moreover have "sys_ipc_try_send v (env_id (envs s ! c)) val2 srcva2 len2 perm2 s2 = Inr (Return (-11), s2)"
    using again [of s2] t(2) by (simp add: d sys_ipc_try_send_def with_env_def)
  moreover have "mm s2 = (if srcva < MAX_USER_ADDRESS then m else mm s1)" by (simp add: s2_def ipc_deliver_def t_def env_upd_def)
  ultimately show ?thesis using t(3) vm by (intro exI [of _ s2]) simp
qed

text \<open>
  C16: message passing. After \<^verbatim>\<open>sys_ipc_recv\<close> has blocked the receiver \<open>c\<close>, a send by \<open>d\<close>, the environment
  that runs next, succeeds: the receiver holds the value, the sender's id and, if a page was sent, its permission;
  the memory is what mapping one page of the sender at \<open>srcva\<close> to the receiver's \<open>dstva\<close> makes of it, or unchanged if no page
  was sent; the receiver is runnable and will see 0 returned; no other entry changes. The next send finds nobody receiving.
\<close>

theorem ipc_rendezvous:
  assumes "user_runs s" "curenv s = Some c" "sys_ipc_recv v dstva maxsize s = Inr (Run, s1)" "curenv s1 = Some d"
    and "dstva < MAX_USER_ADDRESS \<or> MAX_USER_ADDRESS \<le> srcva" "PAGE_OFFSET srcva = 0"
    and "0 \<le> fst (vm_map v (mm s1) c dstva (Some d) srcva PAGE_SIZE (perm OR PROT_USER))"
  shows "\<exists>s2. sys_ipc_try_send v (env_id (envs s ! c)) val srcva len perm s1 = Inr (Return 0, s2) \<and>
    env_ipc_value (envs s2 ! c) = val \<and> env_ipc_from (envs s2 ! c) = env_id (envs s1 ! d) \<and>
    env_ipc_perm (envs s2 ! c) = (if srcva < MAX_USER_ADDRESS then perm else 0) \<and>
    reg_rax (tf_regs (env_tf (envs s2 ! c))) = 0 \<and> status_of s2 c = ENV_RUNNABLE \<and>
    (\<forall>j. j \<noteq> c \<longrightarrow> envs s2 ! j = envs s1 ! j) \<and>
    mm s2 = (if srcva < MAX_USER_ADDRESS then snd (vm_map v (mm s1) c dstva (Some d) srcva PAGE_SIZE (perm OR PROT_USER)) else mm s1) \<and>
    sys_ipc_try_send v (env_id (envs s ! c)) val2 srcva2 len2 perm2 s2 = Inr (Return (-11), s2)"
  using ipc_delivery [OF assms] by blast

lemma boot_recv:
  assumes "envs s = envs boot2" "curenv s = Some 0" "PAGE_OFFSET dstva = 0" "PAGE_OFFSET maxsize = 0" "dstva < MAX_USER_ADDRESS \<Longrightarrow> maxsize \<noteq> 0"
  shows "\<exists>s1. sys_ipc_recv v dstva maxsize s = Inr (Run, s1) \<and> curenv s1 = Some 1 \<and> mm s1 = vm_switch v (mm s) (Some 1)"
proof -
  have e1: "envs boot2 ! 1 = boot_env 1 ENV_TYPE_USER" and e0: "envs boot2 ! 0 = (boot_env 0 ENV_TYPE_FS)\<lparr>env_status := ENV_RUNNING, env_runs := 1\<rparr>"
    and l: "length (envs boot2) = NENV" "(0 :: nat) < NENV" "(1 :: nat) < NENV"
    by (simp_all add: boot2_eq boot0_def env_init_def NENV_def)
  define t where "t = (let s = env_upd 0 (\<lambda>e. e\<lparr>env_ipc_recving := True, env_status := ENV_NOT_RUNNABLE\<rparr>) s;
      s = (if dstva < MAX_USER_ADDRESS then env_upd 0 (\<lambda>e. e\<lparr>env_ipc_dstva := dstva, env_ipc_maxsz := maxsize\<rparr>) s else s)
      in env_upd 0 (\<lambda>e. e\<lparr>env_tf := (env_tf e)\<lparr>tf_regs := (tf_regs (env_tf e))\<lparr>reg_rax := 0\<rparr>\<rparr>\<rparr>) s)"
  have run: "sys_ipc_recv v dstva maxsize s = Inr (sched_yield v t)"
    using assms by (cases "dstva < MAX_USER_ADDRESS") (simp_all add: sys_ipc_recv_def with_cur_def Let_def t_def)
  have t: "curenv t = Some 0" "mm t = mm s" "length (envs t) = NENV" "env_status (envs t ! 0) = ENV_NOT_RUNNABLE" "env_id (envs t ! 0) = 4096" "envs t ! 1 = envs boot2 ! 1"
    using assms(1,2) l by (simp_all add: t_def Let_def e0 boot_env_def)
  have "find (runnable t) [0..<NENV] = Some 1"
    using l t e1 by (auto simp: find_upt_Some runnable_def boot_env_def less_Suc_eq)
  then have p: "sched_pick t = Some 1"
    using l t by (simp add: sched_pick_def sched_start_def ENVX_def)
  have "sched_yield v t = (Run, snd (sched_yield v t))" "curenv (snd (sched_yield v t)) = Some 1" "mm (snd (sched_yield v t)) = vm_switch v (mm t) (Some 1)"
    using l t by (simp_all add: sched_yield_def p env_run_def env_enter_def)
  then show ?thesis using run t(2) by metis
qed

text \<open>A memory manager that keeps the list of the mappings made, and the two environments over it.\<close>

definition log_vm :: "(nat \<times> u64 \<times> nat option \<times> u64 \<times> u64 \<times> u32) list vm" where
  "log_vm = \<lparr>vm_init = \<lambda>m _. (0, m), vm_release = \<lambda>m _. m, vm_current = \<lambda>_. Some None, vm_switch = \<lambda>m _. m,
     vm_map = \<lambda>m i va src srcva len perm. (0, (i, va, src, srcva, len, perm) # m), vm_unmap = \<lambda>m _ _ _. m,
     vm_maxref = \<lambda>_ _ _ _. 1, vm_page = \<lambda>_ _ _. Some 0xFFF, vm_force = \<lambda>m _ _. (-7, m), vm_bytes = \<lambda>_ _ _. [72, 105, 0],
     vm_trapframe = \<lambda>_ _ _. Some zero_tf, vm_put_utf = \<lambda>m _ _ _. m, k_getc = \<lambda>m. (0, m), k_gettime = \<lambda>_. 0,
     k_intr = \<lambda>_ m. m, k_monitor = \<lambda>m. m, k_tf_addr = \<lambda>_. 0x8000000000\<rparr>"

definition boot_log :: "(nat \<times> u64 \<times> nat option \<times> u64 \<times> u64 \<times> u32) list kern" where
  "boot_log = \<lparr>console = [], envs = envs boot2, curenv = Some 0, env_free_list = Some 2, in_page_fault = False, mm = []\<rparr>"

lemma boot_log_runs: "user_runs boot_log"
proof -
  have "curenv boot2 = Some 0" "env_free_list boot2 = Some 2" by (simp_all add: boot2_eq)
  then show ?thesis using boot2_runs by (simp add: user_runs_def kern_ok_def free_ok_def boot_log_def)
qed

theorem ipc_rendezvous_witness:
  "\<exists>s1 s2. sys_ipc_recv log_vm 0x400000 4096 boot_log = Inr (Run, s1) \<and>
     sys_ipc_try_send log_vm 4096 7 0x800000 4096 6 s1 = Inr (Return 0, s2) \<and> env_ipc_value (envs s2 ! 0) = 7 \<and>
     mm s2 = [(0, 0x400000, Some 1, 0x800000, 4096, 0x26)]"
proof -
  obtain s1 where s1: "sys_ipc_recv log_vm 0x400000 4096 boot_log = Inr (Run, s1)" "curenv s1 = Some 1" "mm s1 = []"
    using boot_recv [of boot_log "0x400000" 4096 log_vm] by (auto simp: boot_log_def log_vm_def PAGE_OFFSET_def)
  have b: "curenv boot_log = Some 0" "env_id (envs boot_log ! 0) = 4096"
    by (simp_all add: boot_log_def boot2_eq boot0_def env_init_def NENV_def boot_env_def)
  have a: "PAGE_OFFSET 0x800000 = 0" "(0x400000 :: u64) < MAX_USER_ADDRESS \<or> MAX_USER_ADDRESS \<le> (0x800000 :: u64)" "(0x800000 :: u64) < MAX_USER_ADDRESS"
    by (simp_all add: PAGE_OFFSET_def MAX_USER_ADDRESS_def)
  have m: "vm_map log_vm (mm s1) 0 0x400000 (Some 1) 0x800000 PAGE_SIZE (6 OR PROT_USER) = (0, [(0, 0x400000, Some 1, 0x800000, 4096, 0x26)])"
    by (simp add: log_vm_def s1(3) PAGE_SIZE_def PROT_USER_def)
  then have "0 \<le> fst (vm_map log_vm (mm s1) 0 0x400000 (Some 1) 0x800000 PAGE_SIZE (6 OR PROT_USER))" by simp
  from ipc_rendezvous [OF boot_log_runs b(1) s1(1,2) a(2,1) this, of 7 4096 0 0 0 0] show ?thesis using s1(1) a(3) m unfolding b(2) by auto
qed

text \<open>
  a receiver that asks for no page still gets one. \<^verbatim>\<open>sys_ipc_recv\<close> leaves \<^verbatim>\<open>env_ipc_dstva\<close> alone when its argument is
  above the user space, so a page sent to it is mapped at the address of its last request (0 if there was none), and reported.
\<close>

theorem ipc_stale_dstva:
  assumes "user_runs s" "curenv s = Some c" "MAX_USER_ADDRESS \<le> dstva" "sys_ipc_recv v dstva maxsize s = Inr (Run, s1)"
    and "curenv s1 = Some d" "env_ipc_dstva (envs s ! c) = old" "old < MAX_USER_ADDRESS" "PAGE_OFFSET old = 0"
    and "srcva < MAX_USER_ADDRESS" "PAGE_OFFSET srcva = 0" "vm_map v (mm s1) c old (Some d) srcva PAGE_SIZE (perm OR PROT_USER) = (r, m)" "0 \<le> r"
  shows "\<exists>s2. sys_ipc_try_send v (env_id (envs s ! c)) val srcva len perm s1 = Inr (Return 0, s2) \<and>
    mm s2 = m \<and> env_ipc_perm (envs s2 ! c) = perm"
proof -
  note st = ipc_recv_state [OF assms(1,2,4)]
  have k1: "kern_ok s1" using st(2) by (simp add: user_runs_def)
  have cN: "c < NENV" using assms(1,2) by (auto simp: user_runs_def intro: kern_okD(7))
  have l: "length (envs s1) = NENV" using k1 by (rule kern_okD)
  have e: "env_id (envs s1 ! c) = env_id (envs s ! c)" "status_of s1 c = ENV_NOT_RUNNABLE" "env_ipc_recving (envs s1 ! c)"
      "env_ipc_dstva (envs s1 ! c) = old"
    using assms(3,6) by (auto simp: st(1) Let_def)
  have look: "envid2env s1 (env_id (envs s ! c)) False = Inr (Inr (Some c))"
    using envid2env_found [OF k1 cN] e by simp
  show ?thesis using assms(5-) e l cN
    by (simp add: sys_ipc_try_send_def with_env_def look with_cur_def ipc_deliver_def)
qed

theorem ipc_stale_dstva_witness:
  "\<exists>s1 s2. sys_ipc_recv null_vm MAX_USER_ADDRESS 0 boot2 = Inr (Run, s1) \<and>
     sys_ipc_try_send null_vm 4096 7 0x400000 4096 4 s1 = Inr (Return 0, s2) \<and> env_ipc_perm (envs s2 ! 0) = 4"
proof -
  obtain s1 where s1: "sys_ipc_recv null_vm MAX_USER_ADDRESS 0 boot2 = Inr (Run, s1)" "curenv s1 = Some 1"
    using boot_recv [of boot2 MAX_USER_ADDRESS 0 null_vm] by (auto simp: boot2_eq PAGE_OFFSET_def MAX_USER_ADDRESS_def)
  have b: "curenv boot2 = Some 0" "env_id (envs boot2 ! 0) = 4096" "env_ipc_dstva (envs boot2 ! 0) = 0"
    by (simp_all add: boot2_eq boot0_def env_init_def NENV_def boot_env_def zero_env_def)
  have a: "(0 :: u64) < MAX_USER_ADDRESS" "PAGE_OFFSET 0 = 0" "(0x400000 :: u64) < MAX_USER_ADDRESS" "PAGE_OFFSET 0x400000 = 0"
    by (simp_all add: PAGE_OFFSET_def MAX_USER_ADDRESS_def)
  have m: "vm_map null_vm (mm s1) 0 0 (Some 1) 0x400000 PAGE_SIZE (4 OR PROT_USER) = (0, ())" by (simp add: null_vm_def)
  from ipc_stale_dstva [OF boot2_runs b(1) order_refl s1 b(3) a m order_refl, of 7 4096]
  show ?thesis using s1(1) unfolding b(2) by blast
qed

section \<open>Isolation\<close>

text \<open>An environment the caller may not touch: a live one that is neither the caller nor a child of it.\<close>

definition foreign :: "('m, 'z) kern_scheme \<Rightarrow> nat \<Rightarrow> nat \<Rightarrow> bool" where
  "foreign s c j \<longleftrightarrow> j < NENV \<and> j \<noteq> c \<and> status_of s j \<noteq> ENV_FREE \<and> env_parent_id (envs s ! j) \<noteq> env_id (envs s ! c)"

text \<open>The entry of \<open>j\<close> is as before, but that the scheduler may have entered the environment.\<close>

definition spared :: "('m, 'z) kern_scheme \<Rightarrow> nat \<Rightarrow> outcome \<Rightarrow> ('m, 'z) kern_scheme \<Rightarrow> bool" where
  "spared s j r s' \<longleftrightarrow> envs s' ! j = envs s ! j \<or>
     r = Run \<and> curenv s' = Some j \<and> runnable s j \<and> envs s' ! j = (envs s ! j)\<lparr>env_status := ENV_RUNNING, env_runs := env_runs (envs s ! j) + 1\<rparr>"

definition res_spared :: "('m, 'z) kern_scheme \<Rightarrow> nat \<Rightarrow> ('m, 'z) kern_scheme kres \<Rightarrow> bool" where
  "res_spared s j m \<longleftrightarrow> (\<forall>r s'. m = Inr (r, s') \<longrightarrow> spared s j r s')"

lemma res_sparedI: "(\<And>r s'. m = Inr (r, s') \<Longrightarrow> spared s j r s') \<Longrightarrow> res_spared s j m"
  by (simp add: res_spared_def)

lemma spared_same [simp]: "envs s' ! j = envs s ! j \<Longrightarrow> spared s j r s'"
  by (simp add: spared_def)

lemma spared_cong: "envs t ! j = envs s ! j \<Longrightarrow> spared t j r s' = spared s j r s'"
  by (simp add: spared_def runnable_def)

lemma spared_Return: "spared s j (Return q) s' \<Longrightarrow> envs s' ! j = envs s ! j"
  by (simp add: spared_def)

lemma res_spared_after:
  assumes "res_spared s j m" "\<And>q t. m = Inr (Return q, t) \<Longrightarrow> envs t ! j = envs s ! j \<Longrightarrow> res_spared s j (f t)"
  shows "res_spared s j (after m f)"
proof (rule res_sparedI)
  fix r s' assume a: "after m f = Inr (r, s')"
  then obtain q t where m: "m = Inr (q, t)" by (auto simp: after_def bind_res_def split: sum.splits)
  show "spared s j r s'"
  proof (cases "\<exists>x. q = Return x")
    case True
    then obtain x where q: "q = Return x" by blast
    have "envs t ! j = envs s ! j" using assms(1) m q spared_Return by (auto simp: res_spared_def)
    then show ?thesis using assms(2) [of x t] a m q by (simp add: after_def res_spared_def)
  next
    case False
    then have "r = q" "s' = t" using a m by (cases q; simp add: after_def)+
    then show ?thesis using assms(1) m by (simp add: res_spared_def)
  qed
qed

lemma after_Return:
  assumes "after m f = Inr (Return r, s')"
  obtains q t where "m = Inr (Return q, t)" "f t = Inr (Return r, s')"
  using assms by (auto simp: after_def bind_res_def split: sum.splits outcome.splits)

lemma res_spared_with_env:
  assumes "\<And>i. envid2env s envid need = Inr (Inr (Some i)) \<Longrightarrow> res_spared s j (f i)"
  shows "res_spared s j (with_env s envid need err f)"
  using assms by (auto simp: res_spared_def with_env_def bind_res_def split: sum.splits option.splits)

lemma envid2env_other:
  assumes "curenv s = Some c" "foreign s c j" "envid2env s envid need = Inr (Inr (Some i))" "need \<or> env_id (envs s ! j) \<noteq> envid"
  shows "i \<noteq> j"
  using assms by (auto simp: envid2env_def foreign_def Let_def split: if_splits)

subsection \<open>Giving up the processor\<close>

lemma sched_halt_envs: "sched_halt s = (r, s') \<Longrightarrow> envs s' = envs s"
  by (auto simp: sched_halt_def split: if_splits)

lemma spared_yield:
  assumes k: "kern_ok s" and c: "curenv s = Some c" and j: "j < NENV" "j \<noteq> c" and y: "sched_yield v s = (r, s')"
  shows "spared s j r s'"
proof -
  have p: "envs (preempted s) ! j = envs s ! j"
    using preempted_nth [OF k j(1)] kern_okD(5) [OF k j(1)] c j(2) by auto
  show ?thesis using k
  proof (cases rule: sched_pick_cases)
    case (run i)
    then have e: "env_enter v i (preempted s) = (r, s')" using y k by (simp add: sched_yield_def env_run_enter)
    show ?thesis
    proof (cases "i = j")
      case True
      then show ?thesis using e run(3) p j(1) kern_okD(1) [OF k] by (auto simp: spared_def env_enter_def)
    next
      case False
      then show ?thesis using enter_nth(1) [OF e] p by simp
    qed
  next
    case (same i)
    then have "env_enter v i (preempted s) = (r, s')" "i \<noteq> j" using y k c j(2) by (auto simp: sched_yield_def env_run_enter)
    then show ?thesis using enter_nth(1) [of v i "preempted s" r s' j] p by simp
  next
    case idle
    then have "envs s' = envs s" using y sched_halt_envs by (fastforce simp: sched_yield_def)
    then show ?thesis by simp
  qed
qed

lemma spared_destroy:
  assumes k: "kern_ok s" and c: "curenv s = Some c" and j: "j < NENV" "j \<noteq> c"
    and i: "i < NENV" "status_of s i \<noteq> ENV_FREE" "i \<noteq> j" and d: "env_destroy v i s = (r, s')"
  shows "spared s j r s'"
proof -
  let ?t = "env_free v i (env_upd i (\<lambda>e. e\<lparr>env_status := ENV_DYING\<rparr>) s)"
  have t: "envs ?t ! j = envs s ! j" "curenv ?t = Some c" using c i(3) by (simp_all add: env_free_def Let_def)
  have kt: "kern_ok ?t" using k i(1,2) by (rule kern_ok_free)
  show ?thesis
  proof (cases "i = c")
    case True
    then have "sched_yield v ?t = (r, s')" using d t(2) by (simp add: env_destroy_def)
    then show ?thesis using spared_yield [OF kt t(2) j] spared_cong [OF t(1)] by blast
  next
    case False
    then show ?thesis using d t by (auto simp: env_destroy_def Let_def)
  qed
qed

lemma spared_mem_assert:
  assumes "kern_ok s" "curenv s = Some c" "j < NENV" "j \<noteq> c" "i < NENV" "status_of s i \<noteq> ENV_FREE" "i \<noteq> j"
  shows "res_spared s j (user_mem_assert v i va len perm s)"
proof (rule res_sparedI)
  fix r s' assume a: "user_mem_assert v i va len perm s = Inr (r, s')"
  show "spared s j r s'"
  proof (cases "s' = s")
    case False
    then obtain m where "env_destroy v i (cprintf m s) = (r, s')"
      using a by (auto simp: user_mem_assert_def kprintf_def bind_res_def split: option.splits sum.splits if_splits)
    then have "spared (cprintf m s) j r s'" using assms by (intro spared_destroy [of "cprintf m s" c]) simp_all
    then show ?thesis by (simp add: spared_cong [of "cprintf m s" j s])
  qed simp
qed

subsection \<open>The calls, one by one\<close>

lemma spared_exofork:
  assumes "kern_ok s" "curenv s = Some c" "foreign s c j"
  shows "res_spared s j (sys_exofork v s)"
proof -
  obtain q t where a: "env_alloc v (env_id (envs s ! c)) ENV_TYPE_USER s = (q, t)" by fastforce
  show ?thesis using assms(1) a
  proof (cases rule: env_alloc_cases)
    case (ok i)
    then have "i \<noteq> j" using assms(3) by (auto simp: foreign_def)
    then show ?thesis using assms(2) a ok(1,5) by (auto simp: res_spared_def sys_exofork_def with_cur_def Let_def)
  qed (use assms a in \<open>simp_all add: res_spared_def sys_exofork_def with_cur_def\<close>)
qed

lemma spared_set:
  assumes "curenv s = Some c" "foreign s c j"
  shows "res_spared s j (sys_env_set_status envid st s)" "res_spared s j (sys_env_set_pgfault_upcall envid func s)"
    "res_spared s j (sys_alloc_region v envid addr len perm s)" "res_spared s j (sys_unmap_region v envid addr len s)"
proof -
  have other: "i \<noteq> j" if "envid2env s envid True = Inr (Inr (Some i))" for i using envid2env_other [OF assms that] by simp
  show "res_spared s j (sys_env_set_status envid st s)" "res_spared s j (sys_env_set_pgfault_upcall envid func s)"
    "res_spared s j (sys_alloc_region v envid addr len perm s)" "res_spared s j (sys_unmap_region v envid addr len s)"
    unfolding sys_env_set_status_def sys_env_set_pgfault_upcall_def sys_alloc_region_def sys_unmap_region_def
    by (intro res_spared_with_env; drule other; auto simp: res_spared_def Let_def split: if_splits prod.splits)+
qed

lemma spared_map_region: "res_spared s j (sys_map_region v envid addr envid2 addr2 len perm s)"
  unfolding sys_map_region_def
  by (intro res_spared_with_env) (auto simp: res_spared_def Let_def split: if_splits prod.splits)

lemma spared_recv:
  assumes "user_runs s" "curenv s = Some c" "foreign s c j"
  shows "res_spared s j (sys_ipc_recv v dstva maxsize s)"
proof (rule res_sparedI)
  fix r s' assume a: "sys_ipc_recv v dstva maxsize s = Inr (r, s')"
  have k: "kern_ok s" and st: "status_of s c = ENV_RUNNING" and cN: "c < NENV" "length (envs s) = NENV"
    using assms(1,2) by (auto simp: user_runs_def intro: kern_okD(1,7))
  show "spared s j r s'"
  proof (cases "s' = s")
    case False
    define f where "f = (\<lambda>e :: Env. let e = e\<lparr>env_ipc_recving := True, env_status := ENV_NOT_RUNNABLE\<rparr>;
      e = (if dstva < MAX_USER_ADDRESS then e\<lparr>env_ipc_dstva := dstva, env_ipc_maxsz := maxsize\<rparr> else e)
      in e\<lparr>env_tf := (env_tf e)\<lparr>tf_regs := (tf_regs (env_tf e))\<lparr>reg_rax := 0\<rparr>\<rparr>\<rparr>)"
    have y: "sched_yield v (env_upd c f s) = (r, s')"
      using a assms(2) False cN by (auto simp: sys_ipc_recv_def with_cur_def Let_def env_upd_def f_def split: if_splits)
    have "env_status (f e) = ENV_NOT_RUNNABLE" "env_id (f e) = env_id e" for e by (simp_all add: f_def Let_def)
    then have "kern_ok (env_upd c f s)" using k cN st by (intro kern_ok_upd) simp_all
    then have "spared (env_upd c f s) j r s'" by (rule spared_yield [where c = c, OF _ _ _ _ y]) (use assms(2,3) in \<open>auto simp: foreign_def\<close>)
    moreover have "envs (env_upd c f s) ! j = envs s ! j" using assms(3) by (auto simp: foreign_def)
    ultimately show ?thesis using spared_cong by blast
  qed simp
qed

lemma spared_cputs:
  assumes "kern_ok s" "curenv s = Some c" "status_of s c \<noteq> ENV_FREE" "foreign s c j"
  shows "res_spared s j (sys_cputs v p len s)"
proof -
  have j: "j < NENV" "j \<noteq> c" "c \<noteq> j" "c < NENV" using assms by (auto simp: foreign_def intro: kern_okD(7))
  have "res_spared s j (user_mem_assert v c p len (PROT_R OR PROT_USER) s)"
    using assms(1-3) j by (intro spared_mem_assert)
  then show ?thesis unfolding sys_cputs_def with_cur_def assms(2) option.case
    by (rule res_spared_after) (auto simp: res_spared_def kprintf_def bind_res_Inr_iff)
qed

lemma spared_env_destroy:
  assumes "kern_ok s" "curenv s = Some c" "status_of s c \<noteq> ENV_FREE" "foreign s c j"
  shows "res_spared s j (sys_env_destroy v envid s)"
  unfolding sys_env_destroy_def
proof (rule res_spared_with_env)
  fix i assume i: "envid2env s envid True = Inr (Inr (Some i))"
  have "i \<noteq> j" using envid2env_other [OF assms(2,4) i] by simp
  then have "res_spared s j (Inr (env_destroy v i s))"
    using spared_destroy [OF assms(1,2)] envid2env_live [OF assms(1-3) i] assms(4) by (simp add: res_spared_def foreign_def)
  then show "res_spared s j (after (Inr (env_destroy v i s)) (\<lambda>s. Inr (Return 0, s)))"
    by (rule res_spared_after) (simp add: res_spared_def)
qed

lemma spared_set_trapframe:
  assumes "kern_ok s" "curenv s = Some c" "status_of s c \<noteq> ENV_FREE" "foreign s c j" "env_id (envs s ! j) \<noteq> envid"
  shows "res_spared s j (sys_env_set_trapframe v envid tf s)"
  unfolding sys_env_set_trapframe_def
proof (rule res_spared_with_env)
  fix i assume i: "envid2env s envid False = Inr (Inr (Some i))"
  have ij: "i \<noteq> j" using envid2env_other [OF assms(2,4) i] assms(5) by simp
  have "j < NENV" "j \<noteq> c" using assms(4) by (simp_all add: foreign_def)
  then have "res_spared s j (user_mem_assert v i tf 192 (PROT_USER OR PROT_R) s)"
    using assms(1,2) envid2env_live [OF assms(1-3) i] ij by (intro spared_mem_assert)
  then show "res_spared s j (with_cur s (\<lambda>c. after (user_mem_assert v i tf 192 (PROT_USER OR PROT_R) s) (\<lambda>s.
     case vm_trapframe v (mm s) c tf of None \<Rightarrow> Inl KernPanic
     | Some t \<Rightarrow> Inr (Return 0, env_upd i (\<lambda>e. e\<lparr>env_tf := t\<lparr>tf_cs := GD_UT OR 3, tf_ds := GD_UD OR 3,
         tf_es := GD_UD OR 3, tf_ss := GD_UD OR 3, tf_rflags := (tf_rflags t AND 0xFFF) OR FL_IF\<rparr>\<rparr>) s))))"
    unfolding with_cur_def assms(2) option.case
    by (rule res_spared_after) (use ij in \<open>auto simp: res_spared_def split: option.splits\<close>)
qed

text \<open>What a message that arrives changes in the entry of its receiver.\<close>

definition received :: "u32 \<Rightarrow> u32 \<Rightarrow> Env \<Rightarrow> Env \<Rightarrow> bool" where
  "received from val e e' \<longleftrightarrow> env_ipc_recving e \<and>
     e' = e\<lparr>env_ipc_maxsz := env_ipc_maxsz e', env_ipc_perm := env_ipc_perm e', env_ipc_recving := False, env_ipc_from := from,
       env_ipc_value := val, env_status := ENV_RUNNABLE\<rparr>"

lemma spared_send:
  assumes c: "curenv s = Some c" and j: "foreign s c j" "length (envs s) = NENV"
    and s: "sys_ipc_try_send v envid val srcva len perm s = Inr (r, s')"
  shows "spared s j r s' \<or> r = Return 0 \<and> env_id (envs s ! j) = envid \<and> received (env_id (envs s ! c)) val (envs s ! j) (envs s' ! j)"
proof (cases "env_id (envs s ! j) = envid \<and> envid2env s envid False = Inr (Inr (Some j))")
  case False
  then have other: "i \<noteq> j" if "envid2env s envid False = Inr (Inr (Some i))" for i
    using envid2env_other [OF c j(1) that] that by auto
  have "res_spared s j (sys_ipc_try_send v envid val srcva len perm s)"
    unfolding sys_ipc_try_send_def
    by (rule res_spared_with_env, drule other)
      (auto simp: res_spared_def with_cur_def c Let_def ipc_deliver_def split: if_splits prod.splits)
  then show ?thesis using s by (simp add: res_spared_def)
next
  case True
  have jc: "j < NENV" "j \<noteq> c" using j(1) by (simp_all add: foreign_def)
  from True s have s2: "(if \<not> env_ipc_recving (envs s ! j) then Inr (Return (-11), s)
     else let dstva = env_ipc_dstva (envs s ! j) in with_cur s (\<lambda>c.
       if srcva < MAX_USER_ADDRESS \<and> dstva < MAX_USER_ADDRESS
       then if PAGE_OFFSET srcva \<noteq> 0 \<or> PAGE_OFFSET dstva \<noteq> 0 then Inr (Return (-3), s)
         else let (r, m) = vm_map v (mm s) j dstva (Some c) srcva PAGE_SIZE (perm OR PROT_USER); s = s\<lparr>mm := m\<rparr> in
           if r < 0 then Inr (Return (-1), s)
           else Inr (Return 0, ipc_deliver c j val perm (env_upd j (\<lambda>e. e\<lparr>env_ipc_maxsz := min len (env_ipc_maxsz e)\<rparr>) s))
       else Inr (Return 0, ipc_deliver c j val 0 s))) = Inr (r, s')"
    by (simp add: sys_ipc_try_send_def with_env_def)
  show ?thesis
  proof (cases "spared s j r s'")
    case False
    then have "r = Return 0" "env_ipc_recving (envs s ! j)" "s' = ipc_deliver c j val 0 s \<or>
        (\<exists>m. s' = ipc_deliver c j val perm (env_upd j (\<lambda>e. e\<lparr>env_ipc_maxsz := min len (env_ipc_maxsz e)\<rparr>) (s\<lparr>mm := m\<rparr>)))"
      using s2 c by (auto simp: with_cur_def Let_def split: if_splits prod.splits)
    then show ?thesis using True jc j(2) by (auto simp: received_def ipc_deliver_def)
  qed simp
qed

text \<open>
  C18: isolation. Whatever system call the caller \<open>c\<close> makes, and however it ends, the table entry of a live environment \<open>j\<close> that is
  neither the caller nor a child of it is as before, with three exceptions: the scheduler may enter it when the caller gives up the
  processor; if it waits for a message and the call is \<^verbatim>\<open>SYS_ipc_try_send\<close> (13) with its id, it receives that message, which changes the
  message fields and makes it runnable and nothing else; and \<^verbatim>\<open>SYS_env_set_trapframe\<close> (10) with its id may do anything to it, since that
  call checks no permission.
\<close>

theorem syscall_confined:
  assumes "user_runs s" "curenv s = Some c" "foreign s c j" "syscall v num a1 a2 a3 a4 a5 a6 s = Inr (r, s')"
  shows "envs s' ! j = envs s ! j \<or>
    r = Run \<and> curenv s' = Some j \<and> runnable s j \<and> envs s' ! j = (envs s ! j)\<lparr>env_status := ENV_RUNNING, env_runs := env_runs (envs s ! j) + 1\<rparr> \<or>
    num = 13 \<and> r = Return 0 \<and> env_id (envs s ! j) = ucast a1 \<and> received (env_id (envs s ! c)) (ucast a2) (envs s ! j) (envs s' ! j) \<or>
    num = 10 \<and> env_id (envs s ! j) = ucast a1"
proof -
  have k: "kern_ok s" and live: "status_of s c \<noteq> ENV_FREE" using assms(1,2) by (auto simp: user_runs_def)
  have l: "length (envs s) = NENV" using k by (rule kern_okD)
  consider (send) "num = 13" | (tf) "num = 10" "env_id (envs s ! j) = ucast a1" | (other) "num \<noteq> 13" "num = 10 \<longrightarrow> env_id (envs s ! j) \<noteq> ucast a1"
    by blast
  then show ?thesis
  proof cases
    case send
    then have "sys_ipc_try_send v (ucast a1) (ucast a2) a3 a4 (ucast a5) s = Inr (r, s')" using assms(4) by (simp add: syscall_def)
    from spared_send [OF assms(2,3) l this] send show ?thesis by (auto simp: spared_def)
  next
    case other
    note calls = spared_cputs [OF k assms(2) live assms(3), of v a1 a2] spared_env_destroy [OF k assms(2) live assms(3), of v "ucast a1"]
      spared_exofork [OF k assms(2,3), of v] spared_set(1) [OF assms(2,3), of "ucast a1" "ucast a2"] spared_set(2) [OF assms(2,3), of "ucast a1" a2]
      spared_set(3) [OF assms(2,3), of v "ucast a1" a2 a3 "ucast a4"] spared_set(4) [OF assms(2,3), of v "ucast a1" a2 a3]
      spared_map_region [of s j v "ucast a1" a2 "ucast a3" a4 a5 "ucast a6"] spared_recv [OF assms(1-3), of v a1 a2]
    have "res_spared s j (after (sys_yield v s) (\<lambda>s. Inr (Return 0, s)))"
      using spared_yield [OF k assms(2)] assms(3)
      by (intro res_spared_after) (auto simp: res_spared_def sys_yield_def foreign_def)
    moreover have "num = 10 \<Longrightarrow> res_spared s j (sys_env_set_trapframe v (ucast a1) a2 s)"
      using other(2) spared_set_trapframe [OF k assms(2) live assms(3)] by simp
    moreover have "res_spared s j (sys_cgetc v s)" "res_spared s j (sys_getenvid s)" "res_spared s j (sys_gettime v s)"
        "res_spared s j (sys_region_refs v a1 a2 a3 a4 s)" "res_spared s j (Inr (Return (-9), s))"
      using assms(2) by (auto simp: res_spared_def sys_cgetc_def sys_getenvid_def sys_gettime_def sys_region_refs_def with_cur_def Let_def
          split: prod.splits if_splits)
    ultimately have "res_spared s j (syscall v num a1 a2 a3 a4 a5 a6 s)" using other(1) calls unfolding syscall_def by simp
    then have "spared s j r s'" using assms(4) by (simp add: res_spared_def)
    then show ?thesis unfolding spared_def by blast
  qed simp
qed

theorem syscall_confined_witness:
  "\<exists>s1 s'. sys_ipc_recv null_vm MAX_USER_ADDRESS 0 boot2 = Inr (Run, s1) \<and> env_ipc_recving (envs s1 ! 0) \<and>
     syscall null_vm 9 4096 2 0 0 0 0 s1 = Inr (Return (-1), s') \<and> envs s' ! 0 = envs s1 ! 0"
proof -
  obtain s1 where s1: "sys_ipc_recv null_vm MAX_USER_ADDRESS 0 boot2 = Inr (Run, s1)" "curenv s1 = Some 1"
    using boot_recv [of boot2 MAX_USER_ADDRESS 0 null_vm] by (auto simp: boot2_eq PAGE_OFFSET_def MAX_USER_ADDRESS_def)
  have b: "curenv boot2 = Some 0" "env_id (envs boot2 ! 0) = 4096" "env_parent_id (envs boot2 ! 0) = 0"
    by (simp_all add: boot2_eq boot0_def env_init_def NENV_def boot_env_def zero_env_def)
  note st = ipc_recv_state [OF boot2_runs b(1) s1(1)]
  have e: "env_id (envs s1 ! 0) = 4096" "env_parent_id (envs s1 ! 0) = 0" "status_of s1 0 = ENV_NOT_RUNNABLE" "env_ipc_recving (envs s1 ! 0)"
    using b by (simp_all add: st(1) Let_def)
  have "kern_ok s1" "status_of s1 1 = ENV_RUNNING" "(1 :: nat) < NENV" using st(2) s1(2) by (auto simp: user_runs_def NENV_def)
  then have id1: "env_id (envs s1 ! 1) \<noteq> 0" using kern_okD(4) [of s1 1] by auto
  then have f: "foreign s1 1 0" using e by (simp add: foreign_def NENV_def)
  have "envid2env s1 4096 True = Inr (Inl (-2))" using e id1 s1(2) by (simp add: envid2env_def ENVX_def)
  then obtain s' where c: "syscall null_vm 9 4096 2 0 0 0 0 s1 = Inr (Return (-1), s')"
    by (simp add: syscall_def sys_env_set_status_def with_env_def)
  from syscall_confined [OF st(2) s1(2) f c] have "envs s' ! 0 = envs s1 ! 0" by simp
  then show ?thesis using s1(1) e(4) c by blast
qed

text \<open>
  The exception: \<^verbatim>\<open>sys_env_set_trapframe\<close> asks \<^verbatim>\<open>envid2env\<close> for no permission check, so any environment sets the
  registers of any other.
\<close>

lemma set_trapframe_any_env:
  assumes "user_runs s" "curenv s = Some c" "i < NENV" "status_of s i \<noteq> ENV_FREE"
    and "user_mem_check (vm_page v (mm s) i) p 192 (PROT_USER OR PROT_R OR PROT_USER) = Some (0, a)" "vm_trapframe v (mm s) c p = Some t"
  shows "\<exists>s'. sys_env_set_trapframe v (env_id (envs s ! i)) p s = Inr (Return 0, s') \<and> tf_rip (env_tf (envs s' ! i)) = tf_rip t"
proof -
  have k: "kern_ok s" using assms(1) by (simp add: user_runs_def)
  have "length (envs s) = NENV" using k by (rule kern_okD)
  then show ?thesis using assms envid2env_found [OF k assms(3,4)]
    by (simp add: sys_env_set_trapframe_def with_env_def with_cur_def user_mem_assert_def after_def or.assoc)
qed

end
