(* ===== verification/Trap.thy ===== *)
theory Trap
  imports Syscall
begin

text \<open>
  Traps (\<^verbatim>\<open>kern/trap.c\<close>): the dispatcher, page faults with their user-level upcall, and the entry point
  \<^verbatim>\<open>trap\<close>, together with \<^verbatim>\<open>force_alloc_page\<close> of \<^verbatim>\<open>kern/pmap.c\<close> as far as it concerns environments.

  The processor supplies the trap frame and the faulting address \<open>cr2\<close>. Setting up the descriptor tables is not
  modelled, and neither is a panic of another processor. From the boot state and any sequence of traps the
  invariant of the environment table is kept.
\<close>

section \<open>Printing\<close>

definition excnames :: "string list" where
  "excnames = [''Divide error'', ''Debug'', ''Non-Maskable Interrupt'', ''Breakpoint'', ''Overflow'',
     ''BOUND Range Exceeded'', ''Invalid Opcode'', ''Device Not Available'', ''Double Fault'',
     ''Coprocessor Segment Overrun'', ''Invalid TSS'', ''Segment Not Present'', ''Stack Fault'',
     ''General Protection'', ''Page Fault'', ''(unknown trap)'', ''x87 FPU Floating-Point Error'',
     ''Alignment Check'', ''Machine-Check'', ''SIMD Floating-Point Exception'']"

text \<open>The first comparison is unsigned.\<close>

definition trapname :: "u32 \<Rightarrow> string" where
  "trapname trapno =
     (if unat trapno < length excnames then excnames ! unat trapno
      else if trapno = 48 then ''System call''
      else if 32 \<le> sint trapno \<and> sint trapno < 48 then ''Hardware Interrupt''
      else ''(unknown trap)'')"

fun kprints :: "(string \<times> varg list) list \<Rightarrow> ('m, 'z) kern_scheme \<Rightarrow> ('m, 'z) kern_scheme res" where
  "kprints [] s = Inr s"
| "kprints ((fmt, ap) # ps) s = bind_res (kprintf fmt ap s) (kprints ps)"

definition cstr :: "string \<Rightarrow> varg" where "cstr x = VStr (bytes_of x @ [0])"

definition print_regs :: "PushRegs \<Rightarrow> (string \<times> varg list) list" where
  "print_regs regs =
     [(''  r15  0x%08lx\<newline>'', [VInt (reg_r15 regs)]), (''  r14  0x%08lx\<newline>'', [VInt (reg_r14 regs)]),
      (''  r13  0x%08lx\<newline>'', [VInt (reg_r13 regs)]), (''  r12  0x%08lx\<newline>'', [VInt (reg_r12 regs)]),
      (''  r11  0x%08lx\<newline>'', [VInt (reg_r11 regs)]), (''  r10  0x%08lx\<newline>'', [VInt (reg_r10 regs)]),
      (''  r9   0x%08lx\<newline>'', [VInt (reg_r9 regs)]), (''  r8   0x%08lx\<newline>'', [VInt (reg_r8 regs)]),
      (''  rdi  0x%08lx\<newline>'', [VInt (reg_rdi regs)]), (''  rsi  0x%08lx\<newline>'', [VInt (reg_rsi regs)]),
      (''  rbp  0x%08lx\<newline>'', [VInt (reg_rbp regs)]), (''  rbx  0x%08lx\<newline>'', [VInt (reg_rbx regs)]),
      (''  rdx  0x%08lx\<newline>'', [VInt (reg_rdx regs)]), (''  rcx  0x%08lx\<newline>'', [VInt (reg_rcx regs)]),
      (''  rax  0x%08lx\<newline>'', [VInt (reg_rax regs)])]"

text \<open>The frame is the last trap frame whenever the kernel prints it from \<^verbatim>\<open>trap\<close>.\<close>

definition print_trapframe :: "u64 \<Rightarrow> u64 \<Rightarrow> Trapframe \<Rightarrow> ('m, 'z) kern_scheme \<Rightarrow> ('m, 'z) kern_scheme res" where
  "print_trapframe addr cr2 tf = kprints (
     [(''TRAP frame at %p\<newline>'', [VInt addr])] @ print_regs (tf_regs tf) @
     [(''  es   0x----%04x\<newline>'', [VInt (ucast (tf_es tf))]),
      (''  ds   0x----%04x\<newline>'', [VInt (ucast (tf_ds tf))]),
      (''  trap 0x%08lx %s\<newline>'', [VInt (tf_trapno tf), cstr (trapname (ucast (tf_trapno tf)))])] @
     (if tf_trapno tf = 14 then [(''  cr2  0x%08lx\<newline>'', [VInt cr2])] else []) @
     [(''  err  0x%08lx'', [VInt (tf_err tf)])] @
     (if tf_trapno tf = 14
      then [('' [%s, %s, %s]\<newline>'',
             [cstr (if tf_err tf AND 4 \<noteq> 0 then ''user'' else ''kernel''),
              cstr (if tf_err tf AND 2 \<noteq> 0 then ''write'' else if tf_err tf AND 16 \<noteq> 0 then ''execute'' else ''read''),
              cstr (if tf_err tf AND 1 \<noteq> 0 then ''protection'' else ''not-present'')])]
      else [(''\<newline>'', [])]) @
     [(''  rip  0x%08lx\<newline>'', [VInt (tf_rip tf)]),
      (''  cs   0x----%04x\<newline>'', [VInt (ucast (tf_cs tf))]),
      (''  flag 0x%08lx\<newline>'', [VInt (tf_rflags tf)]),
      (''  rsp  0x%08lx\<newline>'', [VInt (tf_rsp tf)]),
      (''  ss   0x----%04x\<newline>'', [VInt (ucast (tf_ss tf))])])"

section \<open>Page faults\<close>

text \<open>
  \<open>force_alloc_env\<close> with the environment whose space it works on, \<open>None\<close> for the kernel's: addresses above the user
  space belong to the kernel. An environment that runs out of memory is destroyed.
\<close>

definition force_alloc_env :: "'m vm \<Rightarrow> nat option \<Rightarrow> u64 \<Rightarrow> ('m, 'z) kern_scheme \<Rightarrow> ('m, 'z) kern_scheme kres" where
  "force_alloc_env v spc va s =
     (let spc = (if MAX_USER_ADDRESS < va then None else spc);
          (r, m) = vm_force v (mm s) spc va; s = s\<lparr>mm := m\<rparr> in
      if r = -4
      then case spc of None \<Rightarrow> Inl KernPanic
           | Some i \<Rightarrow> after (Inr (env_destroy v i s)) (\<lambda>s. Inr (Return r, s))
      else bind_res (assert_res (r = 0 \<or> r = -7)) (\<lambda>_. Inr (Return r, s)))"

definition USER_EXCEPTION_STACK_TOP :: u64 where "USER_EXCEPTION_STACK_TOP = 0x8000000000"

definition env_tf_upd :: "nat \<Rightarrow> (Trapframe \<Rightarrow> Trapframe) \<Rightarrow> ('m, 'z) kern_scheme \<Rightarrow> ('m, 'z) kern_scheme" where
  "env_tf_upd i f = env_upd i (\<lambda>e. e\<lparr>env_tf := f (env_tf e)\<rparr>)"

definition upcall_rsp :: "u64 \<Rightarrow> u64" where
  "upcall_rsp rsp =
     (if rsp < USER_EXCEPTION_STACK_TOP \<and> USER_EXCEPTION_STACK_TOP - PAGE_SIZE < rsp then rsp - 8
      else USER_EXCEPTION_STACK_TOP) - 160"

definition page_fault_handler :: "'m vm \<Rightarrow> u64 \<Rightarrow> nat \<Rightarrow> ('m, 'z) kern_scheme \<Rightarrow> ('m, 'z) kern_scheme kres" where
  "page_fault_handler v cr2 c s =
     (let tf = env_tf (envs s ! c); upcall = env_pgfault_upcall (envs s ! c); id = VInt (ucast (env_id (envs s ! c))) in
      if tf_err tf AND 4 = 0 then bind_res (print_trapframe (k_tf_addr v c) cr2 tf s) (\<lambda>s. Inl KernPanic)
      else bind_res (kprintf ''[%09x] ENTER %p \<newline>'' [id, VInt upcall] s) (\<lambda>s.
        if upcall = 0
        then bind_res (kprintf ''[%09x] user fault va: %08lx ip %08lx\<newline>'' [id, VInt cr2, VInt (tf_rip tf)] s) (\<lambda>s.
             after (user_mem_assert v c (tf_rsp tf) 160 (PROT_W OR PROT_USER) s) (\<lambda>s.
             bind_res (print_trapframe (k_tf_addr v c) cr2 tf s) (\<lambda>s.
             after (Inr (env_destroy v c s)) (\<lambda>s. Inl KernPanic))))
        else after (force_alloc_env v (Some c) (USER_EXCEPTION_STACK_TOP - PAGE_SIZE) s) (\<lambda>s.
             let user_rsp = upcall_rsp (tf_rsp tf) in
             after (user_mem_assert v c user_rsp 160 PROT_W s) (\<lambda>s.
             let utf = \<lparr>utf_fault_va = cr2, utf_err = tf_err tf, utf_regs = tf_regs tf, utf_rip = tf_rip tf,
                        utf_rflags = tf_rflags tf, utf_rsp = tf_rsp tf\<rparr>;
                 s = env_tf_upd c (\<lambda>tf. tf\<lparr>tf_rsp := user_rsp, tf_rip := upcall\<rparr>) s;
                 s = s\<lparr>mm := vm_put_utf v (mm s) c user_rsp utf\<rparr>;
                 s = (if tf_trapno (env_tf (envs s ! 0)) = 14 then s\<lparr>in_page_fault := False\<rparr> else s)
             in Inr (env_run v c s)))))"

section \<open>Dispatch\<close>

text \<open>
  \<open>trap_dispatch\<close> on the trap frame stored in the current environment \<open>c\<close>. The value of a system call that returns goes
  to the register \<^verbatim>\<open>rax\<close> of that frame.
\<close>

definition trap_dispatch :: "'m vm \<Rightarrow> u64 \<Rightarrow> nat \<Rightarrow> ('m, 'z) kern_scheme \<Rightarrow> ('m, 'z) kern_scheme kres" where
  "trap_dispatch v cr2 c s =
     (let tf = env_tf (envs s ! c); regs = tf_regs tf; n = tf_trapno tf in
      if n = 48
      then bind_res (syscall v (reg_rax regs) (reg_rdx regs) (reg_rcx regs) (reg_rbx regs) (reg_rdi regs) (reg_rsi regs) (reg_r8 regs) s)
             (\<lambda>(r, s). case r of
                Return x \<Rightarrow> Inr (Return 0, env_tf_upd c (\<lambda>tf. tf\<lparr>tf_regs := (tf_regs tf)\<lparr>reg_rax := word_of_int x\<rparr>\<rparr>) s)
              | _ \<Rightarrow> Inr (r, s))
      else if n = 14 then page_fault_handler v cr2 c s
      else if n = 3 then Inr (Return 0, s\<lparr>mm := k_monitor v (mm s)\<rparr>)
      else if n = 32 + 7 then Inr (Return 0, s)
      else if n = 32 + 0 \<or> n = 32 + 8 then Inr (sched_yield v (s\<lparr>mm := k_intr v n (mm s)\<rparr>))
      else if n = 32 + 1 then Inr (sched_yield v (s\<lparr>mm := k_intr v n (mm s)\<rparr>))
      else if n = 32 + 4 then Inr (sched_yield v (s\<lparr>mm := k_intr v n (mm s)\<rparr>))
      else bind_res (print_trapframe (k_tf_addr v c) cr2 tf s) (\<lambda>s.
           if tf_cs tf AND 3 = 0 then Inl KernPanic else Inr (env_destroy v c s)))"

text \<open>
  \<open>trap\<close>. A page fault that the lazy allocator resolves resumes the interrupted code with the registers of \<open>tf\<close>; the
  stored frame is not touched then. The space the allocator works on, \<^verbatim>\<open>current_space\<close>, is
  that of the current environment, which \<^verbatim>\<open>env_run\<close> switched to.
\<close>

definition trap_tail :: "'m vm \<Rightarrow> u64 \<Rightarrow> Trapframe \<Rightarrow> ('m, 'z) kern_scheme \<Rightarrow> ('m, 'z) kern_scheme kres" where
  "trap_tail v cr2 tf s = (case curenv s of None \<Rightarrow> Inl AssertFail | Some c \<Rightarrow>
     after (trap_dispatch v cr2 c (env_tf_upd c (\<lambda>_. tf) s)) (\<lambda>s.
     case curenv s of
       Some c \<Rightarrow> Inr (if env_status (envs s ! c) = ENV_RUNNING then env_run v c s else sched_yield v s)
     | None \<Rightarrow> Inr (sched_yield v s)))"

definition trap :: "'m vm \<Rightarrow> u64 \<Rightarrow> Trapframe \<Rightarrow> ('m, 'z) kern_scheme \<Rightarrow> ('m, 'z) kern_scheme kres" where
  "trap v cr2 tf s =
     (if tf_trapno tf = 14
      then bind_res (assert_res (vm_current v (mm s) \<noteq> None)) (\<lambda>_.
           bind_res (assert_res (\<not> in_page_fault s)) (\<lambda>_.
           bind_res (force_alloc_env v (curenv s) cr2 (s\<lparr>in_page_fault := True\<rparr>)) (\<lambda>(r, s).
           case r of
             Return x \<Rightarrow> if x = 0 then Inr (Resume, s\<lparr>in_page_fault := False\<rparr>) else trap_tail v cr2 tf s
           | _ \<Rightarrow> Inr (r, s))))
      else trap_tail v cr2 tf s)"

text \<open>
  \<open>env_create\<close>, called while booting: \<open>load\<close> stands for \<^verbatim>\<open>load_icode\<close> on the binary, its result code, the entry
  point and the filled address space.
\<close>

definition env_create ::
  "'m vm \<Rightarrow> ('m \<Rightarrow> nat \<Rightarrow> int \<times> u64 \<times> 'm) \<Rightarrow> EnvType \<Rightarrow> ('m, 'z) kern_scheme \<Rightarrow> ('m, 'z) kern_scheme res" where
  "env_create v load ty s = (case env_alloc v 0 ty s of (Inl e, s) \<Rightarrow> Inl KernPanic
   | (Inr i, s) \<Rightarrow>
       let s = (if ty = ENV_TYPE_FS then env_tf_upd i (\<lambda>tf. tf\<lparr>tf_rflags := tf_rflags tf OR FL_IOPL_3\<rparr>) s else s);
           (r, entry, m) = load (mm s) i; s = s\<lparr>mm := m\<rparr> in
       if r \<noteq> 0 then Inl KernPanic else Inr (env_tf_upd i (\<lambda>tf. tf\<lparr>tf_rip := entry\<rparr>) s))"

section \<open>The invariant\<close>

lemma kprintf_envs:
  assumes "kprintf fmt ap s = Inr s'"
  shows "envs s' = envs s" "curenv s' = curenv s" "env_free_list s' = env_free_list s" "mm s' = mm s" "in_page_fault s' = in_page_fault s"
  using assms by (auto simp: kprintf_def bind_res_Inr_iff)

lemma kprints_envs:
  "kprints ps s = Inr s' \<Longrightarrow> envs s' = envs s \<and> curenv s' = curenv s \<and> env_free_list s' = env_free_list s \<and> mm s' = mm s \<and>
     in_page_fault s' = in_page_fault s"
proof (induction ps arbitrary: s)
  case (Cons p ps)
  obtain fmt ap where p: "p = (fmt, ap)" by fastforce
  then obtain t where t: "kprintf fmt ap s = Inr t" "kprints ps t = Inr s'"
    using Cons.prems by (auto simp: bind_res_Inr_iff)
  then show ?case using Cons.IH [OF t(2)] kprintf_envs [OF t(1)] by simp
qed simp

lemma print_trapframe_envs:
  "print_trapframe addr cr2 tf s = Inr s' \<Longrightarrow> envs s' = envs s \<and> curenv s' = curenv s \<and> env_free_list s' = env_free_list s \<and>
     mm s' = mm s \<and> in_page_fault s' = in_page_fault s"
  unfolding print_trapframe_def by (rule kprints_envs)

text \<open>A state in which the current environment \<open>c\<close> is alive.\<close>

definition on_behalf :: "nat \<Rightarrow> ('m, 'z) kern_scheme \<Rightarrow> bool" where
  "on_behalf c s \<longleftrightarrow> kern_ok s \<and> curenv s = Some c \<and> status_of s c \<noteq> ENV_FREE"

lemma on_behalf_frame [simp]:
  "on_behalf c (s\<lparr>mm := m\<rparr>) = on_behalf c s" "on_behalf c (s\<lparr>in_page_fault := b\<rparr>) = on_behalf c s"
  by (simp_all add: on_behalf_def)

lemma on_behalf_tf: "on_behalf c s \<Longrightarrow> on_behalf c (env_tf_upd i f s)"
  using kern_ok_upd_same [of s "\<lambda>e. e\<lparr>env_tf := f (env_tf e)\<rparr>" i]
  by (cases "c = i"; cases "i < length (envs s)") (auto simp: on_behalf_def env_tf_upd_def list_update_beyond)

lemma on_behalf_less: "on_behalf c s \<Longrightarrow> c < NENV"
  by (auto simp: on_behalf_def intro: kern_okD(7))

lemma res_ok_print:
  assumes "on_behalf c s" "\<And>s'. on_behalf c s' \<Longrightarrow> res_ok c (g s')"
  shows "res_ok c (bind_res (kprintf fmt ap s) g)" "res_ok c (bind_res (print_trapframe addr cr2 tf s) g)"
proof -
  have same: "on_behalf c s'" if "envs s' = envs s" "curenv s' = curenv s" "env_free_list s' = env_free_list s" for s' :: "('a, 'b) kern_scheme"
    using assms(1) that kern_ok_cong [OF that] by (simp add: on_behalf_def)
  show "res_ok c (bind_res (kprintf fmt ap s) g)"
    using assms(2) same by (cases "kprintf fmt ap s") (auto dest: kprintf_envs)
  show "res_ok c (bind_res (print_trapframe addr cr2 tf s) g)"
    using assms(2) same by (cases "print_trapframe addr cr2 tf s") (auto dest: print_trapframe_envs)
qed

lemma res_ok_after_on:
  "res_ok c m \<Longrightarrow> (\<And>s. on_behalf c s \<Longrightarrow> res_ok c (f s)) \<Longrightarrow> res_ok c (after m f)"
  by (rule res_ok_after) (simp_all add: on_behalf_def)

lemma ends_ok_destroy_on: "on_behalf c s \<Longrightarrow> ends_ok c (env_destroy v c s)"
  using on_behalf_less [of c s] by (auto simp: on_behalf_def intro: ends_ok_destroy)

lemma res_ok_assert_on: "on_behalf c s \<Longrightarrow> res_ok c (user_mem_assert v c va len perm s)"
  using on_behalf_less [of c s] by (auto simp: on_behalf_def intro: res_ok_mem_assert)

lemma res_ok_force: "on_behalf c s \<Longrightarrow> res_ok c (force_alloc_env v (Some c) va s)"
  unfolding force_alloc_env_def Let_def
  by (auto simp: assert_res_def on_behalf_def split: prod.split intro!: res_ok_after ends_ok_destroy_on)

lemma ends_ok_run_on: "on_behalf c s \<Longrightarrow> ends_ok c (env_run v c s)"
proof -
  assume o: "on_behalf c s"
  then have k: "kern_ok s" "status_of s c \<noteq> ENV_FREE" by (simp_all add: on_behalf_def)
  obtain r s' where e: "env_enter v c (preempted s) = (r, s')" by fastforce
  show ?thesis using user_runs_enter(1,3) [OF k(1) on_behalf_less [OF o] k(2) e] by (simp add: env_run_enter k(1) e)
qed

lemma res_ok_page_fault:
  assumes "on_behalf c s"
  shows "res_ok c (page_fault_handler v cr2 c s)"
  unfolding page_fault_handler_def Let_def
  using assms
  by (auto intro!: res_ok_print res_ok_after_on res_ok_assert_on res_ok_force ends_ok_destroy_on ends_ok_run_on on_behalf_tf
      simp: on_behalf_tf)

lemma res_ok_dispatch:
  assumes "on_behalf c s"
  shows "res_ok c (trap_dispatch v cr2 c s)"
proof -
  have k: "kern_ok s" "curenv s = Some c" "status_of s c \<noteq> ENV_FREE" using assms by (simp_all add: on_behalf_def)
  have sys: "res_ok c (bind_res (syscall v n a1 a2 a3 a4 a5 a6 s) (\<lambda>(r, s). case r of
      Return x \<Rightarrow> Inr (Return 0, env_tf_upd c (f x) s) | _ \<Rightarrow> Inr (r, s)))" for n a1 a2 a3 a4 a5 a6 f
  proof (cases "syscall v n a1 a2 a3 a4 a5 a6 s")
    case (Inr p)
    obtain r t where p: "p = (r, t)" by fastforce
    have "ends_ok c (r, t)" using syscall_ok [OF k] Inr p by (metis res_ok_simps(2))
    then show ?thesis using on_behalf_tf [of c t c "f x" for x] by (cases r) (auto simp: Inr p on_behalf_def)
  qed simp
  have y: "ends_ok c (sched_yield v (s\<lparr>mm := m\<rparr>))" for m using k by (intro ends_ok_yield) simp
  show ?thesis unfolding trap_dispatch_def Let_def
    using assms k y sys res_ok_page_fault [OF assms]
    by (auto intro!: res_ok_print ends_ok_destroy_on)
qed

lemma res_ok_tail:
  assumes "on_behalf c s"
  shows "res_ok c (trap_tail v cr2 tf s)"
proof -
  have c: "curenv s = Some c" using assms by (simp add: on_behalf_def)
  have d: "res_ok c (trap_dispatch v cr2 c (env_tf_upd c (\<lambda>_. tf) s))"
    using assms by (intro res_ok_dispatch on_behalf_tf)
  show ?thesis unfolding trap_tail_def c using d
    by (auto intro!: res_ok_after_on ends_ok_run_on ends_ok_yield simp: on_behalf_def)
qed

lemma trap_tail_no_return:
  assumes "on_behalf c s"
  shows "trap_tail v cr2 tf s \<noteq> Inr (Return r, s')"
proof
  assume e: "trap_tail v cr2 tf s = Inr (Return r, s')"
  have c: "curenv s = Some c" using assms by (simp add: on_behalf_def)
  obtain q t where t: "trap_dispatch v cr2 c (env_tf_upd c (\<lambda>_. tf) s) = Inr (Return q, t)"
      and f: "(case curenv t of Some c \<Rightarrow> Inr (if status_of t c = ENV_RUNNING then env_run v c t else sched_yield v t)
         | None \<Rightarrow> Inr (sched_yield v t)) = (Inr (Return r, s') :: ('a, 'b) kern_scheme kres)"
    using e unfolding trap_tail_def c by (auto elim: after_Return)
  have "on_behalf c t" using res_ok_dispatch [OF on_behalf_tf [OF assms], of v cr2 c "\<lambda>_. tf"] t by (simp add: on_behalf_def)
  then have "kern_ok t" "curenv t = Some c" by (simp_all add: on_behalf_def)
  then show False using f sched_yield_no_return [of t v r s'] by (auto simp: env_run_enter env_enter_def split: if_splits)
qed

lemma force_alloc_resolved:
  "force_alloc_env v spc va s = Inr (Return 0, s') \<Longrightarrow> \<exists>m. s' = s\<lparr>mm := m\<rparr>"
  by (auto simp: force_alloc_env_def Let_def assert_res_def bind_res_def split: prod.splits if_splits option.splits elim!: after_Return)

lemma trap_tail_ok:
  assumes "on_behalf c s" "trap_tail v cr2 tf s = Inr (r, s')"
  shows "(r = Run \<or> r = Resume) \<and> user_runs s' \<or> r = Monitor \<or> r = Spin"
proof -
  have "ends_ok c (r, s')" using res_ok_tail [OF assms(1), of v cr2 tf] assms(2) by simp
  then show ?thesis using trap_tail_no_return [OF assms(1), of v cr2 tf] assms(2) by (cases r) auto
qed

lemma trap_ok:
  assumes "user_runs s" "trap v cr2 tf s = Inr (r, s')"
  shows "(r = Run \<or> r = Resume) \<and> user_runs s' \<or> r = Monitor \<or> r = Spin"
proof -
  obtain c where c: "on_behalf c s" using assms(1) by (auto simp: user_runs_def on_behalf_def)
  show ?thesis
  proof (cases "tf_trapno tf = 14")
    case False
    then show ?thesis using trap_tail_ok [OF c] assms(2) by (simp add: trap_def)
  next
    case True
    let ?s = "s\<lparr>in_page_fault := True\<rparr>"
    have cur: "curenv s = Some c" using c by (simp add: on_behalf_def)
    obtain q t where f: "force_alloc_env v (Some c) cr2 ?s = Inr (q, t)"
      and g: "(case q of Return x \<Rightarrow> if x = 0 then Inr (Resume, t\<lparr>in_page_fault := False\<rparr>) else trap_tail v cr2 tf t
           | _ \<Rightarrow> Inr (q, t)) = Inr (r, s')"
      using assms(2) True by (auto simp: trap_def cur bind_res_Inr_iff)
    have q: "ends_ok c (q, t)" using res_ok_force [of c ?s v cr2] c f by simp
    show ?thesis
    proof (cases q)
      case (Return x)
      show ?thesis
      proof (cases "x = 0")
        case True
        then obtain m where "t = ?s\<lparr>mm := m\<rparr>" using force_alloc_resolved f Return by blast
        then show ?thesis using g Return True assms(1) by (auto simp: user_runs_def)
      next
        case False
        then show ?thesis using g Return q trap_tail_ok [of c t] by (simp add: on_behalf_def)
      qed
    qed (use g q in simp_all)
  qed
qed

text \<open>
  The states a machine goes through: the table is initialised, environments are created, the scheduler enters the
  first one; then any traps, in any order.
\<close>

inductive booting :: "'m vm \<Rightarrow> ('m, 'z) kern_scheme \<Rightarrow> bool" for v where
  init: "curenv s = None \<Longrightarrow> booting v (env_init map_kernel s)"
| create: "booting v s \<Longrightarrow> env_create v load ty s = Inr s' \<Longrightarrow> booting v s'"

inductive kern_reach :: "'m vm \<Rightarrow> ('m, 'z) kern_scheme \<Rightarrow> bool" for v where
  start: "booting v s \<Longrightarrow> sched_yield v s = (Run, s') \<Longrightarrow> kern_reach v s'"
| trap: "kern_reach v s \<Longrightarrow> trap v cr2 tf s = Inr (r, s') \<Longrightarrow> r = Run \<or> r = Resume \<Longrightarrow> kern_reach v s'"

lemma kern_ok_tf: "kern_ok s \<Longrightarrow> kern_ok (env_tf_upd i f s)"
  unfolding env_tf_upd_def by (rule kern_ok_upd_same) simp_all

lemma booting_ok: "booting v s \<Longrightarrow> kern_ok s"
proof (induction rule: booting.induct)
  case (init s map_kernel)
  then show ?case by (rule kern_ok_init)
next
  case (create s load ty s')
  obtain r t where a: "env_alloc v 0 ty s = (r, t)" by fastforce
  have "kern_ok t" using create.IH a by (rule kern_ok_alloc)
  then show ?case using create.hyps(2) a
    by (auto simp: kern_ok_tf env_create_def Let_def split: sum.splits prod.splits if_splits)
qed

text \<open>
  C1: in every state the kernel reaches from booting by traps, with any memory manager and any user behaviour, the free
  list holds exactly the free entries, live ids are positive and carry their index, exactly the current environment is
  running, and no entry is left dying.
\<close>

theorem kernel_invariant: "kern_reach v s \<Longrightarrow> user_runs s"
proof (induction rule: kern_reach.induct)
  case (start s s')
  show ?case using booting_ok [OF start.hyps(1)] start.hyps(2) by (cases rule: sched_yield_cases) simp_all
next
  case (trap s cr2 tf r s')
  then show ?case using trap_ok by fastforce
qed

theorem kernel_invariant_witness: "\<exists>s :: unit kern. kern_reach null_vm s \<and> user_runs s"
proof -
  let ?load = "\<lambda>_ _. (0, 0x800000, ())"
  obtain s1 where s1: "env_create null_vm ?load ENV_TYPE_USER boot0 = Inr s1" "status_of s1 0 = ENV_RUNNABLE"
    by (simp add: env_create_def env_alloc_def boot0_def env_init_def null_vm_def env_tf_upd_def NENV_def)
  have "booting null_vm boot0" unfolding boot0_def by (rule booting.init) simp
  then have b: "booting null_vm s1" using s1(1) by (rule booting.create)
  obtain r s2 where y: "sched_yield null_vm s1 = (r, s2)" by fastforce
  have "r = Run" using booting_ok [OF b] y
  proof (cases rule: sched_yield_cases)
    case idle
    then show ?thesis using s1(2) by (metis NENV_def zero_less_numeral)
  qed simp
  then have "kern_reach null_vm s2" using kern_reach.start [OF b] y by simp
  from this kernel_invariant [OF this] show ?thesis by blast
qed

section \<open>The page fault flag\<close>

lemma sched_yield_flag:
  assumes "kern_ok s" "sched_yield v s = (Run, s')"
  shows "in_page_fault s' = in_page_fault s"
  using assms
proof (cases rule: sched_yield_cases)
  case (run i)
  then show ?thesis by (auto simp: env_enter_def)
qed simp

lemma destroy_flag:
  assumes "on_behalf c s" "env_destroy v c s = (r, s')"
  shows "(\<nexists>x. r = Return x) \<and> (r = Run \<longrightarrow> in_page_fault s' = in_page_fault s)"
proof -
  let ?t = "env_free v c (env_upd c (\<lambda>e. e\<lparr>env_status := ENV_DYING\<rparr>) s)"
  have k: "kern_ok ?t" using assms(1) on_behalf_less [OF assms(1)] by (intro kern_ok_free) (simp_all add: on_behalf_def)
  have f: "curenv ?t = Some c" "in_page_fault ?t = in_page_fault s" using assms(1) by (simp_all add: env_free_def Let_def on_behalf_def)
  then have y: "sched_yield v ?t = (r, s')" using assms(2) by (simp add: env_destroy_def)
  then show ?thesis using sched_yield_no_return [OF k] sched_yield_flag [OF k] f by blast
qed

lemma after_Run:
  assumes "after m f = Inr (r, s')"
  obtains "m = Inr (r, s')" "\<nexists>x. r = Return x" | q t where "m = Inr (Return q, t)" "f t = Inr (r, s')"
  using assms by (auto simp: after_def bind_res_def split: sum.splits outcome.splits)

lemma assert_flag:
  assumes "on_behalf c s" "user_mem_assert v c va len perm s = Inr (r, s')"
  shows "(\<exists>x. r = Return x) \<and> s' = s \<or> (\<nexists>x. r = Return x) \<and> (r = Run \<longrightarrow> in_page_fault s' = in_page_fault s)"
proof -
  have d: "(\<nexists>x. r = Return x) \<and> (r = Run \<longrightarrow> in_page_fault s' = in_page_fault s)" if "env_destroy v c (cprintf msg s) = (r, s')" for msg
    using destroy_flag [OF _ that] assms(1) by (simp add: on_behalf_def)
  have "r = Return 0 \<and> s' = s \<or> r = Spin \<or> (\<exists>msg. env_destroy v c (cprintf msg s) = (r, s'))" using assms(2)
    by (auto simp: user_mem_assert_def kprintf_def bind_res_Inr_iff split: option.splits if_splits)
  then show ?thesis using d by blast
qed

lemma page_fault_kill_flag:
  assumes "on_behalf c s" "env_pgfault_upcall (envs s ! c) = 0" "tf_err (env_tf (envs s ! c)) AND 4 \<noteq> 0"
    and "page_fault_handler v cr2 c s = Inr (r, s')"
  shows "(\<nexists>x. r = Return x) \<and> (r = Run \<longrightarrow> in_page_fault s' = in_page_fault s)"
proof -
  let ?tf = "env_tf (envs s ! c)"
  obtain s1 s2 where p: "kprintf ''[%09x] ENTER %p \<newline>'' [VInt (ucast (env_id (envs s ! c))), VInt 0] s = Inr s1"
      "kprintf ''[%09x] user fault va: %08lx ip %08lx\<newline>'' [VInt (ucast (env_id (envs s ! c))), VInt cr2, VInt (tf_rip ?tf)] s1 = Inr s2"
    and a: "after (user_mem_assert v c (tf_rsp ?tf) 160 (PROT_W OR PROT_USER) s2) (\<lambda>s.
             bind_res (print_trapframe (k_tf_addr v c) cr2 ?tf s) (\<lambda>s.
             after (Inr (env_destroy v c s)) (\<lambda>s. Inl KernPanic))) = Inr (r, s')"
    using assms(2-4) by (auto simp: page_fault_handler_def Let_def bind_res_Inr_iff)
  have same: "on_behalf c t" if "envs t = envs s" "curenv t = curenv s" "env_free_list t = env_free_list s" for t :: "('a, 'b) kern_scheme"
    using assms(1) that kern_ok_cong [OF that] by (simp add: on_behalf_def)
  have s2: "on_behalf c s2" "in_page_fault s2 = in_page_fault s" "envs s2 = envs s" "curenv s2 = curenv s" "env_free_list s2 = env_free_list s"
    using kprintf_envs [OF p(1)] kprintf_envs [OF p(2)] by (simp_all add: same)
  from a show ?thesis
  proof (cases rule: after_Run)
    case 1
    then show ?thesis using assert_flag [OF s2(1) 1(1)] s2(2) by auto
  next
    case (2 q t)
    then have "t = s2" using assert_flag [OF s2(1) 2(1)] by simp
    then obtain s3 where s3: "print_trapframe (k_tf_addr v c) cr2 ?tf s2 = Inr s3"
        "after (Inr (env_destroy v c s3)) (\<lambda>s. Inl KernPanic) = Inr (r, s')"
      using 2(2) by (auto simp: bind_res_Inr_iff)
    then have "env_destroy v c s3 = (r, s')" by (auto elim: after_Run)
    moreover have "on_behalf c s3" "in_page_fault s3 = in_page_fault s" using print_trapframe_envs [OF s3(1)] s2 same by auto
    ultimately show ?thesis using destroy_flag [of c s3] by simp
  qed
qed

text \<open>
  C37: a page fault that kills an environment leaves the flag \<^verbatim>\<open>in_page_fault\<close> set, because \<^verbatim>\<open>env_destroy\<close> of the current
  environment does not return to the assignment that clears it: after such a fault (no upcall installed, the lazy allocator
  does not resolve it) another environment runs, and whatever its next page fault is, the kernel stops with a failed assertion.
\<close>

theorem page_fault_kill_panics:
  assumes "user_runs s" "curenv s = Some c" "\<not> in_page_fault s" "tf_trapno tf = 14" "tf_err tf AND 4 \<noteq> 0"
    and "env_pgfault_upcall (envs s ! c) = 0" "vm_force v (mm s) (if MAX_USER_ADDRESS < cr2 then None else Some c) cr2 = (-7, m)"
    and "trap v cr2 tf s = Inr (Run, s')" "tf_trapno tf' = 14"
  shows "trap v cr2' tf' s' = Inl AssertFail"
proof -
  have on: "on_behalf c s" using assms(1,2) by (auto simp: user_runs_def on_behalf_def)
  let ?s = "s\<lparr>in_page_fault := True, mm := m\<rparr>"
  let ?t = "env_tf_upd c (\<lambda>_. tf) ?s"
  have cN: "c < NENV" "length (envs s) = NENV" using on assms(1) by (auto simp: user_runs_def intro: kern_okD(1) on_behalf_less)
  have "force_alloc_env v (Some c) cr2 (s\<lparr>in_page_fault := True\<rparr>) = Inr (Return (-7), ?s)"
    using assms(7) by (simp add: force_alloc_env_def Let_def)
  then have tail: "trap_tail v cr2 tf ?s = Inr (Run, s')"
    using assms(2,3,4,8) by (simp add: trap_def bind_res_Inr_iff)
  have t: "env_tf (envs ?t ! c) = tf" "env_pgfault_upcall (envs ?t ! c) = 0" "on_behalf c ?t" "in_page_fault ?t"
    using cN assms(6) on_behalf_tf [of c ?s c "\<lambda>_. tf"] on by (simp_all add: env_tf_upd_def)
  have disp: "trap_dispatch v cr2 c ?t = page_fault_handler v cr2 c ?t" using t(1) assms(4) by (simp add: trap_dispatch_def)
  have kill: "(\<nexists>x. r = Return x) \<and> (r = Run \<longrightarrow> in_page_fault u)" if "page_fault_handler v cr2 c ?t = Inr (r, u)" for r u
    using page_fault_kill_flag [OF t(3,2) _ that] t(1,4) assms(5) by simp
  have cur: "curenv ?s = Some c" using assms(2) by simp
  have "in_page_fault s'"
    using tail unfolding trap_tail_def cur option.case disp by (rule after_Run) (use kill in blast)+
  then show ?thesis using assms(9) by (cases "vm_current v (mm s')") (simp_all add: trap_def)
qed

lemmas fmt_eval = bytes_of_def byte_of_char_def printfmt_def vprintfmt.simps escape.simps width_loop.simps esc_init_def
  process_precision_def convert_def va_int_def get_unsigned_def

theorem page_fault_kill_panics_witness:
  "\<exists>s'. trap (null_vm\<lparr>vm_page := \<lambda>_ _ _. None\<rparr>) 0x1000 (zero_tf\<lparr>tf_trapno := 14, tf_err := 4\<rparr>) boot2 = Inr (Run, s') \<and>
     trap (null_vm\<lparr>vm_page := \<lambda>_ _ _. None\<rparr>) 0x2000 (zero_tf\<lparr>tf_trapno := 14, tf_err := 6\<rparr>) s' = Inl AssertFail"
proof -
  let ?v = "null_vm\<lparr>vm_page := \<lambda>_ _ _. None\<rparr>" and ?tf = "zero_tf\<lparr>tf_trapno := 14, tf_err := 4\<rparr>"
  let ?s = "boot2\<lparr>in_page_fault := True\<rparr>" and ?t = "env_tf_upd 0 (\<lambda>_. zero_tf\<lparr>tf_trapno := 14, tf_err := 4\<rparr>) (boot2\<lparr>in_page_fault := True\<rparr>)"
  have b: "curenv boot2 = Some 0" "\<not> in_page_fault boot2" "env_pgfault_upcall (envs boot2 ! 0) = 0" "env_id (envs boot2 ! 0) = 4096"
      "status_of boot2 1 = ENV_RUNNABLE" "length (envs boot2) = NENV" "(0 :: nat) < NENV" "(1 :: nat) < NENV"
    by (simp_all add: boot2_eq boot0_def env_init_def NENV_def boot_env_def zero_env_def)
  have "on_behalf 0 boot2" using boot2_runs b(1) by (auto simp: user_runs_def on_behalf_def)
  then have on: "on_behalf 0 ?t" by (intro on_behalf_tf) simp
  have pr: "\<exists>m. kprintf fmt ap s = Inr (cprintf m s)" if "\<not> isl (printfmt (bytes_of fmt @ [0]) ap)" for fmt ap and s :: "unit kern"
    using that by (cases "printfmt (bytes_of fmt @ [0]) ap") (auto simp: kprintf_def)
  have "\<not> isl (printfmt (bytes_of ''[%09x] ENTER %p \<newline>'' @ [0]) [VInt 4096, VInt 0])" by (simp add: fmt_eval)
  from pr [OF this] obtain m1 where m1: "kprintf ''[%09x] ENTER %p \<newline>'' [VInt 4096, VInt 0] ?t = Inr (cprintf m1 ?t)" by metis
  have "\<not> isl (printfmt (bytes_of ''[%09x] user fault va: %08lx ip %08lx\<newline>'' @ [0]) [VInt 4096, VInt 0x1000, VInt 0])" by (simp add: fmt_eval)
  from pr [OF this] obtain m2 where m2: "kprintf ''[%09x] user fault va: %08lx ip %08lx\<newline>'' [VInt 4096, VInt 0x1000, VInt 0]
      (cprintf m1 ?t) = Inr (cprintf m2 (cprintf m1 ?t))" by metis
  have "\<not> isl (printfmt (bytes_of ''[%08x] user_mem_check assertion failure for va=%016zx ip=%016zx\<newline>'' @ [0])
      [VInt 4096, VInt 0, VInt 0])" by (simp add: fmt_eval)
  from pr [OF this] obtain m3 where m3: "kprintf ''[%08x] user_mem_check assertion failure for va=%016zx ip=%016zx\<newline>''
      [VInt 4096, VInt 0, VInt 0] (cprintf m2 (cprintf m1 ?t)) = Inr (cprintf m3 (cprintf m2 (cprintf m1 ?t)))" by metis
  let ?u = "cprintf m3 (cprintf m2 (cprintf m1 ?t))"
  have u: "on_behalf 0 ?u" "status_of ?u 1 = ENV_RUNNABLE" using on b by (simp_all add: on_behalf_def env_tf_upd_def)
  obtain r s' where d: "env_destroy ?v 0 ?u = (r, s')" by fastforce
  have "kern_ok ?u" "status_of ?u 0 \<noteq> ENV_FREE" using u(1) by (simp_all add: on_behalf_def)
  moreover have "curenv ?u = Some 0" using on by (simp add: on_behalf_def)
  ultimately have r: "r = Run" by - (rule kern_ok_destroy [OF _ b(7) _ d], use u(2) b(8) in auto)
  have tt: "env_tf (envs ?t ! 0) = ?tf" "env_pgfault_upcall (envs ?t ! 0) = 0" "env_id (envs ?t ! 0) = 4096"
    using b by (simp_all add: env_tf_upd_def)
  have z: "tf_rsp ?tf = 0" "tf_rip ?tf = 0" "tf_err ?tf AND 4 \<noteq> 0" by (simp_all add: zero_tf_def)
  have chk: "user_mem_check (vm_page ?v x 0) 0 160 (PROT_W OR PROT_USER OR PROT_USER) = Some (-7, 0)" for x
    by (simp add: user_mem_check_def user_mem_walk_step page_grants_def PAGE_OFFSET_def)
  have "user_mem_assert ?v 0 0 160 (PROT_W OR PROT_USER) (cprintf m2 (cprintf m1 ?t)) = Inr (Run, s')"
    unfolding user_mem_assert_def or.assoc chk using m3 d r by (simp add: tt z)
  then have pf: "page_fault_handler ?v 0x1000 0 ?t = Inr (Run, s')"
    unfolding page_fault_handler_def Let_def tt z using m1 m2 z(3) by (simp add: after_def)
  have "trap_dispatch ?v 0x1000 0 ?t = Inr (Run, s')" using pf by (simp add: trap_dispatch_def tt)
  moreover have "force_alloc_env ?v (Some 0) 0x1000 ?s = Inr (Return (-7), ?s)"
    by (simp add: force_alloc_env_def null_vm_def)
  ultimately have tr: "trap ?v 0x1000 ?tf boot2 = Inr (Run, s')"
    using b(1,2) by (simp add: trap_def trap_tail_def after_def null_vm_def)
  have f: "vm_force ?v (mm boot2) (if MAX_USER_ADDRESS < 0x1000 then None else Some 0) 0x1000 = (-7, ())" by (simp add: null_vm_def)
  have "trap ?v 0x2000 (zero_tf\<lparr>tf_trapno := 14, tf_err := 6\<rparr>) s' = Inl AssertFail"
    by (rule page_fault_kill_panics [OF boot2_runs b(1,2) _ z(3) b(3) f tr]) simp_all
  then show ?thesis using tr by blast
qed

end
