(* ===== verification/PhysMem.thy ===== *)
theory PhysMem
  imports Prelude "HOL-Library.Sublist"
begin

text \<open>
  The physical memory allocator (\<^verbatim>\<open>kern/pmap.c\<close>): the binary tree of pages, the free lists by size class, reference
  counts, splitting and merging.

  A \<^verbatim>\<open>struct Page\<close> is named by its position in the tree, the list of turns from the page up to the root (\<open>True\<close> is
  right): the parent of \<open>b # p\<close> is \<open>p\<close>, and a child pointer is non-null when the page of that name exists. Class and address follow from the
  position, and so do the assertions of the code that a page lies where its position says. Addresses are counted in frames of 4 KiB, the unit of the field \<^verbatim>\<open>addr\<close>. A page is on at most one list: a free one on
  the list of its class, a mapped one heads the list of its mappings, of which \<open>vlist\<close> keeps the length. Reference counts are natural
  numbers: each counted reference has a descriptor of 64 bytes, so the 32 bits of the code do not overflow on a real machine.
\<close>

section \<open>Data\<close>

datatype PageState = PARTIAL_NODE | ALLOCATABLE_NODE | RESERVED_NODE

type_synonym path = "bool list"

record pnode =
  pstate :: PageState
  refc :: nat

definition MAX_CLASS :: nat where "MAX_CLASS = 48"
definition POOL_CLASS :: nat where "POOL_CLASS = 1"
definition POOL_ENTRIES :: nat where "POOL_ENTRIES = 127"
definition INIT_DESCR :: nat where "INIT_DESCR = 256"
definition BOOT_MEM_FRAMES :: nat where "BOOT_MEM_FRAMES = 262144"
definition IOPHYSMEM_FRAME :: nat where "IOPHYSMEM_FRAME = 160"

definition page_class :: "path \<Rightarrow> nat" where "page_class p = MAX_CLASS - length p"

fun page_addr :: "path \<Rightarrow> nat" where
  "page_addr [] = 0"
| "page_addr (b # p) = page_addr p + (if b then 2 ^ page_class (b # p) else 0)"

text \<open>\<open>in_kspace\<close> is \<^verbatim>\<open>current_space != NULL\<close>; \<open>kern_end\<close> is the first frame behind the kernel image.\<close>

record phys =
  nodes :: "path \<Rightarrow> pnode option"
  free_classes :: "nat \<Rightarrow> path list"
  vlist :: "path \<Rightarrow> nat"
  free_desc_count :: nat
  pools :: "path list"
  in_kspace :: bool
  kern_end :: nat

definition PAGE_IS_FREE :: "phys \<Rightarrow> path \<Rightarrow> bool" where
  "PAGE_IS_FREE s p = (case nodes s p of None \<Rightarrow> False
     | Some n \<Rightarrow> refc n = 0 \<and> nodes s (False # p) = None \<and> nodes s (True # p) = None)"

definition list_del :: "path \<Rightarrow> phys \<Rightarrow> phys" where
  "list_del p s = s\<lparr>free_classes := (free_classes s)(page_class p := removeAll p (free_classes s (page_class p)))\<rparr>"

definition list_append :: "nat \<Rightarrow> path \<Rightarrow> phys \<Rightarrow> phys" where
  "list_append c p s = s\<lparr>free_classes := (free_classes s)(c := p # free_classes s c)\<rparr>"

definition set_node :: "path \<Rightarrow> pnode option \<Rightarrow> phys \<Rightarrow> phys" where
  "set_node p n s = s\<lparr>nodes := (nodes s)(p := n)\<rparr>"

section \<open>Descriptors\<close>

text \<open>
  \<open>ens\<close> stands for \<^verbatim>\<open>ensure_free_desc\<close>, which allocates a page of descriptors when there are too few. That allocation cannot
  nest: a second one stops at \<^verbatim>\<open>assert(!allocating_pool)\<close>, so while a pool is allocated \<open>ens\<close> is \<open>ensure_nested\<close>.
\<close>

definition ensure_nested :: "nat \<Rightarrow> phys \<Rightarrow> phys res" where
  "ensure_nested count s = (if free_desc_count s < count then Inl AssertFail else Inr s)"

definition alloc_descriptor :: "(nat \<Rightarrow> phys \<Rightarrow> phys res) \<Rightarrow> phys \<Rightarrow> phys res" where
  "alloc_descriptor ens s = bind_res (ens 1 s) (\<lambda>s. Inr (s\<lparr>free_desc_count := free_desc_count s - 1\<rparr>))"

definition free_descriptor :: "path \<Rightarrow> phys \<Rightarrow> phys" where
  "free_descriptor p s = (let s = set_node p None (list_del p s) in s\<lparr>free_desc_count := free_desc_count s + 1\<rparr>)"

text \<open>Recursion into the tree is bounded by the number of levels below the page.\<close>

fun free_desc_rec :: "nat \<Rightarrow> path \<Rightarrow> phys \<Rightarrow> phys res" where
  "free_desc_rec 0 p s = Inr s"
| "free_desc_rec (Suc k) p s = (case nodes s p of None \<Rightarrow> Inr s
   | Some n \<Rightarrow> bind_res (assert_res (refc n = 0)) (\<lambda>_.
       bind_res (free_desc_rec k (True # p) s) (\<lambda>s.
       free_desc_rec k (False # p) (free_descriptor p s))))"

definition alloc_child :: "(nat \<Rightarrow> phys \<Rightarrow> phys res) \<Rightarrow> path \<Rightarrow> bool \<Rightarrow> phys \<Rightarrow> phys res" where
  "alloc_child ens p right s =
     (if page_class p = 0 then Inr s
      else bind_res (alloc_descriptor ens s) (\<lambda>s. case nodes s p of None \<Rightarrow> Inl NullDeref
        | Some n \<Rightarrow> Inr (set_node (right # p) (Some \<lparr>pstate = pstate n, refc = (if refc n \<noteq> 0 then 1 else 0)\<rparr>) s)))"

section \<open>Lookup\<close>

definition alloc_missing :: "(nat \<Rightarrow> phys \<Rightarrow> phys res) \<Rightarrow> path \<Rightarrow> bool \<Rightarrow> phys \<Rightarrow> phys res" where
  "alloc_missing ens p right s = (if nodes s (right # p) = None then alloc_child ens p right s else Inr s)"

definition mark_partial :: "PageState \<Rightarrow> path \<Rightarrow> phys \<Rightarrow> phys" where
  "mark_partial type p s = (case nodes s p of None \<Rightarrow> s
     | Some n \<Rightarrow> if type \<noteq> PARTIAL_NODE \<and> pstate n \<noteq> type then set_node p (Some (n\<lparr>pstate := PARTIAL_NODE\<rparr>)) s else s)"

text \<open>One turn of the loop of \<open>page_lookup\<close> with \<^verbatim>\<open>alloc\<close>, at the page \<open>p\<close>, \<open>k\<close> levels above the class wanted.\<close>

definition descend :: "(nat \<Rightarrow> phys \<Rightarrow> phys res) \<Rightarrow> PageState \<Rightarrow> nat \<Rightarrow> bool \<Rightarrow> path \<Rightarrow> phys \<Rightarrow> phys res" where
  "descend ens type k right p s =
     bind_res (ens ((k + 1) * 2) s) (\<lambda>s.
     case nodes s p of None \<Rightarrow> Inl NullDeref | Some n \<Rightarrow>
     let was_free = (pstate n = ALLOCATABLE_NODE \<and> PAGE_IS_FREE s p) in
     bind_res (alloc_missing ens p False s) (\<lambda>s.
     bind_res (alloc_missing ens p True s) (\<lambda>s.
     let s = (if was_free then list_append (page_class p - 1) ((\<not> right) # p) (list_del p s) else s);
         s = mark_partial type p s
     in bind_res (assert_res (nodes s (False # p) \<noteq> None \<and> nodes s (True # p) \<noteq> None)) (\<lambda>_. Inr s))))"

fun lookup_alloc :: "(nat \<Rightarrow> phys \<Rightarrow> phys res) \<Rightarrow> PageState \<Rightarrow> nat \<Rightarrow> nat \<Rightarrow> path \<Rightarrow> phys \<Rightarrow> (path \<times> phys) res" where
  "lookup_alloc ens type addr 0 p s = Inr (p, s)"
| "lookup_alloc ens type addr (Suc k) p s =
     (let right = bit addr (page_class p - 1) in
      bind_res (descend ens type (Suc k) right p s) (lookup_alloc ens type addr k (right # p)))"

fun lookup_walk :: "nat \<Rightarrow> nat \<Rightarrow> path \<Rightarrow> phys \<Rightarrow> path option" where
  "lookup_walk addr 0 p s = Some p"
| "lookup_walk addr (Suc k) p s =
     (let c = bit addr (page_class p - 1) # p in if nodes s c = None then None else lookup_walk addr k c s)"

definition attach_page :: "PageState \<Rightarrow> path \<Rightarrow> phys \<Rightarrow> phys res" where
  "attach_page type p s = (case nodes s p of None \<Rightarrow> Inl AssertFail | Some n \<Rightarrow>
     bind_res (assert_res (refc n = 0)) (\<lambda>_.
     bind_res (free_desc_rec (page_class p) (False # p) s) (\<lambda>s.
     bind_res (free_desc_rec (page_class p) (True # p) s) (\<lambda>s.
     let s = list_del p s;
         st = (if pstate n \<noteq> RESERVED_NODE then type else pstate n);
         s = set_node p (Some (n\<lparr>pstate := st\<rparr>)) s
     in Inr (if st = ALLOCATABLE_NODE then list_append (page_class p) p s else s)))))"

definition page_lookup_alloc :: "(nat \<Rightarrow> phys \<Rightarrow> phys res) \<Rightarrow> path \<Rightarrow> nat \<Rightarrow> nat \<Rightarrow> PageState \<Rightarrow> phys \<Rightarrow> (path \<times> phys) res" where
  "page_lookup_alloc ens hint addr class type s =
     bind_res (assert_res (addr mod 2 ^ class = 0)) (\<lambda>_.
     bind_res (lookup_alloc ens type addr (page_class hint - class) hint s) (\<lambda>(p, s).
     if type \<noteq> PARTIAL_NODE then bind_res (attach_page type p s) (\<lambda>s. Inr (p, s)) else Inr (p, s)))"

section \<open>References\<close>

fun page_ref_at :: "nat \<Rightarrow> path \<Rightarrow> phys \<Rightarrow> phys" where
  "page_ref_at 0 p s = s"
| "page_ref_at (Suc k) p s = (case nodes s p of None \<Rightarrow> s
   | Some n \<Rightarrow> let s = set_node p (Some (n\<lparr>refc := refc n + 1\<rparr>)) s in
       if refc n = 0 then page_ref_at k (True # p) (page_ref_at k (False # p) (list_del p s)) else s)"

definition page_ref :: "path \<Rightarrow> phys \<Rightarrow> phys" where "page_ref p = page_ref_at (Suc (page_class p)) p"

text \<open>The upward loop of \<open>page_unref\<close>: merge with the buddy as long as both are free and the parent is of the same kind.\<close>

fun merge_up :: "path \<Rightarrow> phys \<Rightarrow> (path \<times> phys) res" where
  "merge_up [] s = Inr ([], s)"
| "merge_up (b # p) s = (case (nodes s p, nodes s (b # p)) of
     (Some par, Some page) \<Rightarrow>
       if pstate par = pstate page \<and> PAGE_IS_FREE s (False # p) \<and> PAGE_IS_FREE s (True # p)
       then let s = free_descriptor (True # p) (free_descriptor (False # p) s) in
            bind_res (if pstate par = ALLOCATABLE_NODE
              then bind_res (assert_res (vlist s p = 0 \<and> p \<notin> set (free_classes s (page_class p)))) (\<lambda>_.
                   Inr (list_append (page_class p) p s))
              else Inr s) (merge_up p)
       else Inr (b # p, s)
   | _ \<Rightarrow> Inl NullDeref)"

definition release_page :: "path \<Rightarrow> phys \<Rightarrow> phys res" where
  "release_page p s =
     bind_res (merge_up p s) (\<lambda>(q, s). case nodes s q of None \<Rightarrow> Inl NullDeref | Some n \<Rightarrow>
     let s = list_del q s in Inr (if pstate n = ALLOCATABLE_NODE then list_append (page_class q) q s else s))"

fun page_unref_at :: "nat \<Rightarrow> path \<Rightarrow> phys \<Rightarrow> phys res" where
  "page_unref_at 0 p s = Inr s"
| "page_unref_at (Suc k) p s = (case nodes s p of None \<Rightarrow> Inr s
   | Some n \<Rightarrow> bind_res (assert_res (refc n \<noteq> 0)) (\<lambda>_.
       bind_res (if refc n = 1 then bind_res (page_unref_at k (False # p) s) (page_unref_at k (True # p)) else Inr s) (\<lambda>s.
       let s = set_node p (Some (n\<lparr>refc := refc n - 1\<rparr>)) s in
       if PAGE_IS_FREE s p then release_page p s else Inr s)))"

definition page_unref :: "path \<Rightarrow> phys \<Rightarrow> phys res" where "page_unref p = page_unref_at (Suc (page_class p)) p"

section \<open>Allocation\<close>

text \<open>The first page on the lists of class \<open>class\<close> and above that is acceptable.\<close>

definition find_page :: "nat \<Rightarrow> bool \<Rightarrow> phys \<Rightarrow> path option" where
  "find_page class bootmem s =
     List.find (\<lambda>p. \<not> bootmem \<or> page_addr p + 2 ^ class < BOOT_MEM_FRAMES) (concat (map (free_classes s) [class..<MAX_CLASS]))"

definition usable :: "phys \<Rightarrow> path \<Rightarrow> bool" where
  "usable s p \<longleftrightarrow> kern_end s \<le> page_addr p \<or> page_addr p + 2 ^ page_class p \<le> IOPHYSMEM_FRAME"

definition bootmem_flag :: "bool \<Rightarrow> phys \<Rightarrow> bool" where
  "bootmem_flag flag s \<longleftrightarrow> flag \<and> \<not> in_kspace s"

definition alloc_pool :: "phys \<Rightarrow> phys res" where
  "alloc_pool s = (case find_page POOL_CLASS (bootmem_flag True s) s of None \<Rightarrow> Inl KernPanic
   | Some peer \<Rightarrow>
       let s = list_del peer s; s = s\<lparr>free_desc_count := free_desc_count s + POOL_ENTRIES\<rparr> in
       bind_res (page_lookup_alloc ensure_nested peer (page_addr peer) POOL_CLASS PARTIAL_NODE s) (\<lambda>(new, s).
       bind_res (assert_res (case nodes s new of None \<Rightarrow> False | Some n \<Rightarrow> refc n = 0)) (\<lambda>_.
       let s = page_ref new s; s = s\<lparr>pools := new # pools s\<rparr> in
       bind_res (assert_res (usable s new)) (\<lambda>_. Inr s))))"

definition ensure_free_desc :: "nat \<Rightarrow> phys \<Rightarrow> phys res" where
  "ensure_free_desc count s =
     bind_res (if free_desc_count s < count then alloc_pool s else Inr s) (\<lambda>s.
     bind_res (assert_res (count \<le> free_desc_count s)) (\<lambda>_. Inr s))"

definition page_lookup :: "path \<Rightarrow> nat \<Rightarrow> nat \<Rightarrow> PageState \<Rightarrow> phys \<Rightarrow> (path \<times> phys) res" where
  "page_lookup = page_lookup_alloc ensure_free_desc"

text \<open>\<open>bootmem\<close> is the flag \<^verbatim>\<open>ALLOC_BOOTMEM\<close>; the pool allocation is \<open>alloc_pool\<close>.\<close>

definition alloc_page :: "nat \<Rightarrow> bool \<Rightarrow> phys \<Rightarrow> (path option \<times> phys) res" where
  "alloc_page class bootmem s = (case find_page class (bootmem_flag bootmem s) s of None \<Rightarrow> Inr (None, s)
   | Some peer \<Rightarrow>
       bind_res (page_lookup peer (page_addr peer) class PARTIAL_NODE (list_del peer s)) (\<lambda>(new, s).
       bind_res (assert_res (case nodes s new of None \<Rightarrow> False | Some n \<Rightarrow> refc n = 0)) (\<lambda>_.
       bind_res (assert_res (usable s new)) (\<lambda>_. Inr (Some new, s)))))"

section \<open>Boot\<close>

definition init_allocator :: "nat \<Rightarrow> phys" where
  "init_allocator kend = \<lparr>nodes = [[] \<mapsto> \<lparr>pstate = PARTIAL_NODE, refc = 0\<rparr>], free_classes = (\<lambda>c. []), vlist = (\<lambda>p. 0),
     free_desc_count = INIT_DESCR, pools = [], in_kspace = False, kern_end = kend\<rparr>"

text \<open>
  \<open>attach_region\<close> from frame \<open>iter\<close> to \<open>fin\<close>: \<open>c\<close> is \<^verbatim>\<open>tmp_class + 1\<close>, and \<open>grow_class\<close> the inner loop that raises it while the
  address is aligned and the rest of the region is large enough. \<^verbatim>\<open>page_lookup\<close> with allocation never returns null, so
  the search for a smaller class stops at once.
\<close>

function grow_class :: "nat \<Rightarrow> nat \<Rightarrow> nat \<Rightarrow> nat" where
  "grow_class iter room c = (if iter mod 2 ^ c = 0 \<and> 2 ^ c \<le> room then grow_class iter room (Suc c) else c)"
  by pat_completeness auto
termination
  by (relation "measure (\<lambda>(iter, room, c). room - c)")
    (auto, meson diff_less_mono2 le_less_trans less_exp lessI less_le_trans)

declare grow_class.simps [simp del]

lemma grow_class_ge: "c \<le> grow_class iter room c"
  by (induction iter room c rule: grow_class.induct) (subst grow_class.simps, auto)

function attach_region :: "PageState \<Rightarrow> nat \<Rightarrow> nat \<Rightarrow> nat \<Rightarrow> phys \<Rightarrow> phys res" where
  "attach_region type fin c iter s =
     (if iter < fin
      then let class = grow_class iter (fin - iter) c in
           if class = 0 then Inr s
           else bind_res (page_lookup [] iter (class - 1) type s) (\<lambda>(_, s). attach_region type fin 1 (iter + 2 ^ (class - 1)) s)
      else Inr s)"
  by pat_completeness auto
termination
  by (relation "measure (\<lambda>(type, fin, c, iter, s). fin - iter)") (auto intro!: diff_less_mono2)

declare attach_region.simps [simp del]

section \<open>Positions and frames\<close>

definition frames :: "path \<Rightarrow> nat set" where
  "frames p = {page_addr p ..< page_addr p + 2 ^ page_class p}"

lemma class_child: "length p < MAX_CLASS \<Longrightarrow> page_class p = Suc (page_class (b # p))"
  by (simp add: page_class_def)

lemma frames_child:
  assumes "length p < MAX_CLASS"
  shows "frames (b # p) \<subseteq> frames p" "frames (False # p) \<inter> frames (True # p) = {}" "frames p = frames (False # p) \<union> frames (True # p)"
proof -
  have c: "(2::nat) ^ page_class p = 2 * 2 ^ page_class (d # p)" for d using class_child [OF assms, of d] by simp
  have e: "page_class (True # p) = page_class (False # p)" by (simp add: page_class_def)
  show "frames (b # p) \<subseteq> frames p" using c [of b] by (cases b) (auto simp: frames_def)
  show "frames (False # p) \<inter> frames (True # p) = {}" using e by (auto simp: frames_def)
  show "frames p = frames (False # p) \<union> frames (True # p)" using e c [of True] by (auto simp: frames_def)
qed

lemma frames_suffix: "suffix p q \<Longrightarrow> length q \<le> MAX_CLASS \<Longrightarrow> frames q \<subseteq> frames p"
proof (induction q)
  case (Cons b q)
  then show ?case using frames_child(1) [of q b] by (cases "p = b # q") (auto simp: suffix_Cons)
qed simp

lemma frames_same_length:
  assumes "length p = length q" "length p \<le> MAX_CLASS" "p \<noteq> q"
  shows "frames p \<inter> frames q = {}"
  using assms
proof (induction p q rule: list_induct2)
  case (Cons a p b q)
  have "length p < MAX_CLASS" "length q < MAX_CLASS" using Cons by simp_all
  note sub = frames_child(1) [OF this(1), of a] frames_child(1) [OF this(2), of b] and sib = frames_child(2) [OF this(1)]
  show ?case
  proof (cases "p = q")
    case True
    then show ?thesis using Cons.prems sib by (cases a; cases b) auto
  next
    case False
    then show ?thesis using Cons sub by auto
  qed
qed simp

lemma frames_overlap:
  assumes "frames p \<inter> frames q \<noteq> {}" "length p \<le> MAX_CLASS" "length q \<le> MAX_CLASS"
  shows "suffix p q \<or> suffix q p"
proof -
  have aux: "suffix p q" if "frames p \<inter> frames q \<noteq> {}" "length p \<le> length q" "length q \<le> MAX_CLASS" for p q
  proof -
    define q' where "q' = drop (length q - length p) q"
    have s: "suffix q' q" by (simp add: q'_def suffix_drop)
    have l: "length q' = length p" using that(2) by (simp add: q'_def)
    have "frames p \<inter> frames q' \<noteq> {}" using that(1) frames_suffix [OF s that(3)] by auto
    then have "p = q'" using frames_same_length [of p q'] l that(2,3) by fastforce
    then show ?thesis using s by simp
  qed
  show ?thesis using aux [of p q] aux [of q p] assms by (cases "length p \<le> length q") (auto simp: Int_commute)
qed

section \<open>The invariant\<close>

text \<open>A page that can be given out: allocatable, not referenced and not split.\<close>

definition free_leaf :: "phys \<Rightarrow> path \<Rightarrow> bool" where
  "free_leaf s p \<longleftrightarrow> nodes s p = Some \<lparr>pstate = ALLOCATABLE_NODE, refc = 0\<rparr> \<and> nodes s (False # p) = None \<and> nodes s (True # p) = None"

definition listed :: "phys \<Rightarrow> path set" where
  "listed s = {p. p \<in> set (free_classes s (page_class p))}"

text \<open>
  The tree is closed under parents and siblings, a referenced page has referenced children and a page of one kind has
  children of that kind; \<open>X\<close> are pages whose references are being updated.
\<close>

definition tree_ok :: "path set \<Rightarrow> phys \<Rightarrow> bool" where
  "tree_ok X s \<longleftrightarrow> (\<forall>p. nodes s p \<noteq> None \<longrightarrow> length p \<le> MAX_CLASS) \<and>
     (\<exists>r. nodes s [] = Some r \<and> pstate r \<noteq> ALLOCATABLE_NODE) \<and>
     (\<forall>b p. nodes s (b # p) \<noteq> None \<longrightarrow> nodes s p \<noteq> None \<and> nodes s ((\<not> b) # p) \<noteq> None) \<and>
     (\<forall>b p n m. nodes s p = Some n \<and> nodes s (b # p) = Some m \<longrightarrow>
        (p \<notin> X \<and> refc n \<noteq> 0 \<longrightarrow> refc m \<noteq> 0) \<and> (pstate n \<noteq> PARTIAL_NODE \<longrightarrow> pstate m = pstate n))"

text \<open>The free lists hold free pages, except for \<open>Z\<close>, and all of them, except for \<open>Y\<close>.\<close>

definition lists_ok :: "path set \<Rightarrow> path set \<Rightarrow> phys \<Rightarrow> bool" where
  "lists_ok Z Y s \<longleftrightarrow> (\<forall>c. distinct (free_classes s c)) \<and> (\<forall>c p. p \<in> set (free_classes s c) \<longrightarrow> page_class p = c) \<and>
     (\<forall>p. p \<in> listed s \<and> p \<notin> Z \<longrightarrow> free_leaf s p) \<and> (\<forall>p. free_leaf s p \<and> p \<notin> Y \<longrightarrow> p \<in> listed s)"

definition phys_ok :: "phys \<Rightarrow> bool" where
  "phys_ok s \<longleftrightarrow> tree_ok {} s \<and> lists_ok {} {} s"

lemma upd_simps [simp]:
  "nodes (set_node p n s) = (nodes s)(p := n)" "free_classes (set_node p n s) = free_classes s" "listed (set_node p n s) = listed s"
  "nodes (list_del p s) = nodes s" "listed (list_del p s) = listed s - {p}"
  "nodes (list_append c p s) = nodes s" "listed (list_append (page_class p) p s) = insert p (listed s)"
  "nodes (free_descriptor p s) = (nodes s)(p := None)" "listed (free_descriptor p s) = listed s - {p}"
  "free_desc_count (set_node p n s) = free_desc_count s" "free_desc_count (list_del p s) = free_desc_count s"
  "free_desc_count (list_append c p s) = free_desc_count s"
  "vlist (set_node p n s) = vlist s" "vlist (list_del p s) = vlist s" "vlist (list_append c p s) = vlist s" "vlist (free_descriptor p s) = vlist s"
  "in_kspace (set_node p n s) = in_kspace s" "in_kspace (list_del p s) = in_kspace s" "in_kspace (list_append c p s) = in_kspace s"
  "in_kspace (free_descriptor p s) = in_kspace s"
  "kern_end (set_node p n s) = kern_end s" "kern_end (list_del p s) = kern_end s" "kern_end (list_append c p s) = kern_end s"
  "kern_end (free_descriptor p s) = kern_end s"
  by (auto simp: set_node_def list_del_def list_append_def free_descriptor_def listed_def Let_def)

lemma count_irrelevant [simp]:
  "listed (s\<lparr>free_desc_count := k\<rparr>) = listed s" "free_leaf (s\<lparr>free_desc_count := k\<rparr>) p = free_leaf s p"
  "tree_ok X (s\<lparr>free_desc_count := k\<rparr>) = tree_ok X s" "lists_ok Z Y (s\<lparr>free_desc_count := k\<rparr>) = lists_ok Z Y s"
  "listed (s\<lparr>pools := ps\<rparr>) = listed s" "free_leaf (s\<lparr>pools := ps\<rparr>) p = free_leaf s p"
  "tree_ok X (s\<lparr>pools := ps\<rparr>) = tree_ok X s" "lists_ok Z Y (s\<lparr>pools := ps\<rparr>) = lists_ok Z Y s"
  "listed (s\<lparr>in_kspace := b\<rparr>) = listed s" "free_leaf (s\<lparr>in_kspace := b\<rparr>) p = free_leaf s p"
  "tree_ok X (s\<lparr>in_kspace := b\<rparr>) = tree_ok X s" "lists_ok Z Y (s\<lparr>in_kspace := b\<rparr>) = lists_ok Z Y s"
  by (simp_all add: listed_def free_leaf_def tree_ok_def lists_ok_def)

lemma tree_ok_lists [simp]: "tree_ok X (list_del p s) = tree_ok X s" "tree_ok X (list_append c p s) = tree_ok X s"
  unfolding tree_ok_def by simp_all

lemma free_leaf_lists [simp]: "free_leaf (list_del p s) q = free_leaf s q" "free_leaf (list_append c p s) q = free_leaf s q"
  unfolding free_leaf_def by simp_all

lemma lists_ok_shape:
  assumes "lists_ok Z Y s"
  shows "distinct (free_classes s c)" "p \<in> set (free_classes s c) \<Longrightarrow> page_class p = c"
  using assms by (simp_all add: lists_ok_def)

text \<open>Two states with the same lists up to one page.\<close>

lemma shape_list_del:
  assumes "lists_ok Z Y s"
  shows "distinct (free_classes (list_del p s) c)" "q \<in> set (free_classes (list_del p s) c) \<Longrightarrow> page_class q = c"
  using assms by (auto simp: lists_ok_def list_del_def distinct_removeAll split: if_splits)

lemma lists_okI:
  assumes "\<And>c. distinct (free_classes s c)" "\<And>c p. p \<in> set (free_classes s c) \<Longrightarrow> page_class p = c"
    and "\<And>p. p \<in> listed s \<Longrightarrow> p \<notin> Z \<Longrightarrow> free_leaf s p" "\<And>p. free_leaf s p \<Longrightarrow> p \<notin> Y \<Longrightarrow> p \<in> listed s"
  shows "lists_ok Z Y s"
  using assms by (simp add: lists_ok_def)

lemma lists_okD:
  assumes "lists_ok Z Y s"
  shows "p \<in> listed s \<Longrightarrow> p \<notin> Z \<Longrightarrow> free_leaf s p" "free_leaf s p \<Longrightarrow> p \<notin> Y \<Longrightarrow> p \<in> listed s"
  using assms by (simp_all add: lists_ok_def)

lemma tree_okD:
  assumes "tree_ok X s"
  shows "nodes s p \<noteq> None \<Longrightarrow> length p \<le> MAX_CLASS" "\<exists>r. nodes s [] = Some r \<and> pstate r \<noteq> ALLOCATABLE_NODE"
    "nodes s (b # p) \<noteq> None \<Longrightarrow> nodes s p \<noteq> None" "nodes s (b # p) \<noteq> None \<Longrightarrow> nodes s (d # p) \<noteq> None"
    "nodes s p = Some n \<Longrightarrow> nodes s (b # p) = Some m \<Longrightarrow> p \<notin> X \<Longrightarrow> refc n \<noteq> 0 \<Longrightarrow> refc m \<noteq> 0"
    "nodes s p = Some n \<Longrightarrow> nodes s (b # p) = Some m \<Longrightarrow> pstate n \<noteq> PARTIAL_NODE \<Longrightarrow> pstate m = pstate n"
proof -
  have pair: "nodes s (b # p) \<noteq> None \<Longrightarrow> nodes s p \<noteq> None \<and> nodes s ((\<not> b) # p) \<noteq> None" for b p
    using assms unfolding tree_ok_def by blast
  show "nodes s (b # p) \<noteq> None \<Longrightarrow> nodes s p \<noteq> None" using pair by blast
  show "nodes s (b # p) \<noteq> None \<Longrightarrow> nodes s (d # p) \<noteq> None" using pair [of b p] by (cases "d = b") auto
qed (use assms in \<open>auto simp: tree_ok_def\<close>)

section \<open>Extension\<close>

text \<open>
  What an allocation of descriptors may do to the tree: pages keep their kind; only pages of \<open>P\<close> change their references or get
  children; no old page enters a free list.
\<close>

definition extends :: "path set \<Rightarrow> phys \<Rightarrow> phys \<Rightarrow> bool" where
  "extends P s t \<longleftrightarrow> (\<forall>p n. nodes s p = Some n \<longrightarrow> (\<exists>m. nodes t p = Some m \<and> pstate m = pstate n \<and> (p \<notin> P \<longrightarrow> m = n))) \<and>
     (\<forall>b p. nodes s p \<noteq> None \<and> nodes s (b # p) = None \<and> p \<notin> P \<longrightarrow> nodes t (b # p) = None) \<and>
     (\<forall>p. nodes s p \<noteq> None \<and> p \<in> listed t \<longrightarrow> p \<in> listed s) \<and>
     vlist t = vlist s \<and> in_kspace t = in_kspace s \<and> kern_end t = kern_end s"

lemma extendsD:
  assumes "extends P s t"
  shows "nodes s p = Some n \<Longrightarrow> p \<notin> P \<Longrightarrow> nodes t p = Some n" "nodes s p \<noteq> None \<Longrightarrow> nodes t p \<noteq> None"
    "nodes s p = Some n \<Longrightarrow> nodes t p = Some m \<Longrightarrow> pstate m = pstate n"
    "nodes s p \<noteq> None \<Longrightarrow> nodes s (b # p) = None \<Longrightarrow> p \<notin> P \<Longrightarrow> nodes t (b # p) = None"
    "nodes s p \<noteq> None \<Longrightarrow> p \<in> listed t \<Longrightarrow> p \<in> listed s"
    "vlist t = vlist s" "in_kspace t = in_kspace s" "kern_end t = kern_end s"
proof -
  have x: "nodes s p = Some n \<Longrightarrow> \<exists>m. nodes t p = Some m \<and> pstate m = pstate n \<and> (p \<notin> P \<longrightarrow> m = n)" for p n
    using assms by (simp add: extends_def)
  show "nodes s p = Some n \<Longrightarrow> p \<notin> P \<Longrightarrow> nodes t p = Some n" using x by blast
  show "nodes s p \<noteq> None \<Longrightarrow> nodes t p \<noteq> None" using x [of p] by auto
  show "nodes s p = Some n \<Longrightarrow> nodes t p = Some m \<Longrightarrow> pstate m = pstate n" using x [of p n] by auto
qed (use assms in \<open>simp_all add: extends_def\<close>)

lemma extendsI:
  assumes "\<And>p n. nodes s p = Some n \<Longrightarrow> \<exists>m. nodes t p = Some m \<and> pstate m = pstate n \<and> (p \<notin> P \<longrightarrow> m = n)"
    and "\<And>b p. nodes s p \<noteq> None \<Longrightarrow> nodes s (b # p) = None \<Longrightarrow> p \<notin> P \<Longrightarrow> nodes t (b # p) = None"
    and "\<And>p. nodes s p \<noteq> None \<Longrightarrow> p \<in> listed t \<Longrightarrow> p \<in> listed s"
    and "vlist t = vlist s" "in_kspace t = in_kspace s" "kern_end t = kern_end s"
  shows "extends P s t"
  using assms by (simp add: extends_def)

lemma extends_refl: "extends P s s"
  by (simp add: extends_def)

lemma extends_mono: "extends P s t \<Longrightarrow> (\<And>p. p \<in> P \<Longrightarrow> nodes s p \<noteq> None \<Longrightarrow> p \<in> Q) \<Longrightarrow> extends Q s t"
proof (rule extendsI)
  assume e: "extends P s t" and sub: "\<And>p. p \<in> P \<Longrightarrow> nodes s p \<noteq> None \<Longrightarrow> p \<in> Q"
  note x = extendsD [OF e]
  show "\<exists>m. nodes t p = Some m \<and> pstate m = pstate n \<and> (p \<notin> Q \<longrightarrow> m = n)" if n: "nodes s p = Some n" for p n
  proof -
    obtain m where m: "nodes t p = Some m" using x(2) [of p] n by auto
    have "m = n" if "p \<notin> Q" using x(1) [OF n] sub [of p] n m that by (metis option.discI option.inject)
    then show ?thesis using m x(3) [OF n m] by blast
  qed
  show "nodes t (b # p) = None" if "nodes s p \<noteq> None" "nodes s (b # p) = None" "p \<notin> Q" for b p
    using x(4) [OF that(1,2)] sub that by blast
qed (simp_all add: extendsD)

lemma extends_trans:
  assumes "extends P s t" "extends Q t u"
  shows "extends (P \<union> Q) s u"
proof -
  note a = extendsD [OF assms(1)] and b = extendsD [OF assms(2)]
  have "\<exists>m. nodes u p = Some m \<and> pstate m = pstate n \<and> (p \<notin> P \<union> Q \<longrightarrow> m = n)" if n: "nodes s p = Some n" for p n
  proof -
    obtain m where m: "nodes t p = Some m" using a(2) [of p] n by auto
    obtain k where k: "nodes u p = Some k" using b(2) [of p] m by auto
    have "k = n" if "p \<notin> P \<union> Q" using a(1) [OF n] b(1) [OF m] m k that by auto
    then show ?thesis using k a(3) [OF n m] b(3) [OF m k] by auto
  qed
  moreover have "nodes u (c # p) = None" if "nodes s p \<noteq> None" "nodes s (c # p) = None" "p \<notin> P \<union> Q" for c p
    using a(2,4) [of p] b(4) [of p c] that by auto
  moreover have "p \<in> listed s" if "nodes s p \<noteq> None" "p \<in> listed u" for p using a(2,5) b(5) that by blast
  ultimately show ?thesis by (intro extendsI) (use a(6-8) b(6-8) in simp_all)
qed

lemma extends_listed:
  assumes "extends P s t" "extends (Q \<union> listed t) t u" "listed s \<subseteq> P"
  shows "extends (P \<union> Q) s u"
  by (rule extends_mono [OF extends_trans [OF assms(1,2)]]) (use assms(3) extendsD(5) [OF assms(1)] in blast)

section \<open>Splitting\<close>

definition split_page :: "bool \<Rightarrow> path \<Rightarrow> pnode \<Rightarrow> phys \<Rightarrow> phys" where
  "split_page right p n s =
     (let c = Some \<lparr>pstate = pstate n, refc = (if refc n \<noteq> 0 then 1 else 0)\<rparr>;
          t = (set_node (True # p) c (set_node (False # p) c s))\<lparr>free_desc_count := free_desc_count s - 2\<rparr> in
      if free_leaf s p then list_append (page_class p - 1) ((\<not> right) # p) (list_del p t) else t)"

lemma free_leaf_iff: "nodes s p = Some n \<Longrightarrow> free_leaf s p \<longleftrightarrow> pstate n = ALLOCATABLE_NODE \<and> PAGE_IS_FREE s p"
  by (cases n) (auto simp: free_leaf_def PAGE_IS_FREE_def)

lemma split_page_nodes:
  "nodes (split_page right p n s) = (nodes s)(False # p := Some \<lparr>pstate = pstate n, refc = (if refc n \<noteq> 0 then 1 else 0)\<rparr>,
     True # p := Some \<lparr>pstate = pstate n, refc = (if refc n \<noteq> 0 then 1 else 0)\<rparr>)"
  by (simp add: split_page_def Let_def)

lemma split_page_fields [simp]:
  "vlist (split_page right p n s) = vlist s" "in_kspace (split_page right p n s) = in_kspace s"
  "kern_end (split_page right p n s) = kern_end s" "pools (split_page right p n s) = pools s"
  by (simp_all add: split_page_def Let_def list_append_def list_del_def set_node_def)

lemma split_page_listed:
  assumes "length p < MAX_CLASS"
  shows "listed (split_page right p n s) = (if free_leaf s p then insert ((\<not> right) # p) (listed s - {p}) else listed s)"
proof -
  have "page_class p - 1 = page_class ((\<not> right) # p)" by (simp add: page_class_def)
  then show ?thesis by (simp add: split_page_def Let_def)
qed

lemma split_page_tree:
  assumes "tree_ok {} s" "nodes s p = Some n" "nodes s (False # p) = None" "nodes s (True # p) = None" "length p < MAX_CLASS"
  shows "tree_ok {} (split_page right p n s)"
proof -
  note t = tree_okD [OF assms(1)]
  have none: "nodes s (b # p) = None" for b using assms(3,4) by (cases b) simp_all
  have leaf: "nodes s (c # b # p) = None" for b c using t(3) [of c "b # p"] none [of b] by blast
  show ?thesis unfolding tree_ok_def split_page_nodes
  proof (intro conjI allI impI, goal_cases)
    case (1 q)
    then show ?case using t(1) [of q] assms(5) by (auto split: if_splits)
  next
    case 2
    then show ?case using t(2) by simp
  next
    case (3 b q)
    then show ?case using t(3) [of b q] assms(2) by (auto split: if_splits)
  next
    case (4 b q)
    then show ?case using t(4) [of b q "\<not> b"] by (auto split: if_splits)
  next
    case (5 b q m k)
    then show ?case using t(5) [of q m b k] assms(2) none leaf by (auto split: if_splits)
  next
    case (6 b q m k)
    then show ?case using t(6) [of q m b k] assms(2) none leaf by (auto split: if_splits)
  qed
qed

lemma shape_split_page:
  assumes "lists_ok Z Y s" "length p < MAX_CLASS" "nodes s ((\<not> right) # p) = None" "Z = {}"
  shows "distinct (free_classes (split_page right p n s) c)" "q \<in> set (free_classes (split_page right p n s) c) \<Longrightarrow> page_class q = c"
proof -
  have cl: "page_class p - 1 = page_class ((\<not> right) # p)" "page_class p \<noteq> page_class ((\<not> right) # p)"
    using class_child [OF assms(2), of "\<not> right"] by (simp_all add: page_class_def)
  have "(\<not> right) # p \<notin> listed s"
    using lists_okD(1) [OF assms(1), of "(\<not> right) # p"] assms(3,4) by (auto simp: free_leaf_def)
  then have new: "(\<not> right) # p \<notin> set (free_classes s (page_class ((\<not> right) # p)))" by (simp add: listed_def)
  show "distinct (free_classes (split_page right p n s) c)"
    using lists_ok_shape [OF assms(1)] new cl by (simp add: split_page_def Let_def list_append_def list_del_def set_node_def distinct_removeAll)
  show "q \<in> set (free_classes (split_page right p n s) c) \<Longrightarrow> page_class q = c"
    using lists_ok_shape(2) [OF assms(1)] cl
    by (auto simp: split_page_def Let_def list_append_def list_del_def set_node_def split: if_splits)
qed

lemma split_page_lists:
  assumes "lists_ok {} Y s" "tree_ok {} s" "nodes s p = Some n" "nodes s (False # p) = None" "nodes s (True # p) = None" "length p < MAX_CLASS"
  shows "lists_ok {} (insert (right # p) (Y - {p})) (split_page right p n s)"
proof (rule lists_okI)
  let ?s = "split_page right p n s"
  have none: "nodes s (b # p) = None" for b using assms(4,5) by (cases b) simp_all
  have leaf: "nodes s (c # b # p) = None" for b c using tree_okD(3) [OF assms(2), of c "b # p"] none [of b] by blast
  have kid: "free_leaf ?s (b # p) \<longleftrightarrow> free_leaf s p" for b
    using leaf none assms(3) by (cases n, cases b) (auto simp: free_leaf_def split_page_nodes)
  have self: "\<not> free_leaf ?s p" by (simp add: free_leaf_def split_page_nodes)
  have other: "free_leaf ?s q \<longleftrightarrow> free_leaf s q" if "q \<noteq> p" "\<And>b. q \<noteq> b # p" for q
  proof -
    have "nodes ?s q = nodes s q" "nodes ?s (b # q) = nodes s (b # q)" for b using that by (auto simp: split_page_nodes)
    then show ?thesis by (simp add: free_leaf_def)
  qed
  note shape_split_page [OF assms(1,6) none refl]
  then show "\<And>c. distinct (free_classes ?s c)" "\<And>c q. q \<in> set (free_classes ?s c) \<Longrightarrow> page_class q = c" by blast+
  fix q
  show "free_leaf ?s q" if "q \<in> listed ?s"
  proof (cases "\<exists>b. q = b # p")
    case True
    then obtain b where q: "q = b # p" by blast
    have "q \<notin> listed s" using lists_okD(1) [OF assms(1), of q] none by (auto simp: free_leaf_def q)
    then have "free_leaf s p" using that by (auto simp: split_page_listed [OF assms(6)] split: if_splits)
    then show ?thesis using kid q by simp
  next
    case False
    then have "q \<in> listed s" "q \<noteq> p \<or> \<not> free_leaf s p" using that by (auto simp: split_page_listed [OF assms(6)] split: if_splits)
    moreover have "q \<noteq> p" using calculation lists_okD(1) [OF assms(1), of q] by auto
    ultimately show ?thesis using other [of q] False lists_okD(1) [OF assms(1), of q] by auto
  qed
  show "q \<in> listed ?s" if "free_leaf ?s q" "q \<notin> insert (right # p) (Y - {p})"
  proof (cases "\<exists>b. q = b # p")
    case True
    then obtain b where q: "q = b # p" by blast
    then have "b = (\<not> right)" using that(2) by auto
    then show ?thesis using kid that(1) q by (simp add: split_page_listed [OF assms(6)])
  next
    case False
    then have "q \<noteq> p" "free_leaf s q" using self that(1) other [of q] by auto
    then show ?thesis using that(2) lists_okD(2) [OF assms(1), of q] by (auto simp: split_page_listed [OF assms(6)])
  qed
qed

lemma split_page_extends:
  assumes "nodes s p = Some n" "nodes s (False # p) = None" "nodes s (True # p) = None" "length p < MAX_CLASS"
  shows "extends {p} s (split_page right p n s)"
proof (rule extendsI)
  have none: "nodes s (b # p) = None" for b using assms(2,3) by (cases b) simp_all
  show "q \<in> listed s" if "nodes s q \<noteq> None" "q \<in> listed (split_page right p n s)" for q
    using that none by (auto simp: split_page_listed [OF assms(4)] split: if_splits)
qed (use assms in \<open>auto simp: split_page_nodes\<close>)

text \<open>
  What the lookup relies on in \<^verbatim>\<open>ensure_free_desc\<close>: it keeps the invariant, touches only pages on the free lists, provides the number
  asked for and does nothing when it is there already.
\<close>

locale descriptor_source =
  fixes ens :: "nat \<Rightarrow> phys \<Rightarrow> phys res"
  assumes ens_enough: "n \<le> free_desc_count s \<Longrightarrow> ens n s = Inr s"
    and ens_count: "ens n s = Inr t \<Longrightarrow> n \<le> free_desc_count t"
    and ens_ok: "ens n s = Inr t \<Longrightarrow> tree_ok {} s \<Longrightarrow> lists_ok {} Y s \<Longrightarrow> tree_ok {} t \<and> lists_ok {} Y t"
    and ens_extends: "ens n s = Inr t \<Longrightarrow> tree_ok {} s \<Longrightarrow> lists_ok {} Y s \<Longrightarrow> extends (listed s) s t"
begin

lemma alloc_child_enough:
  assumes "1 \<le> free_desc_count s" "nodes s p = Some n" "length p < MAX_CLASS"
  shows "alloc_child ens p right s = Inr (set_node (right # p) (Some \<lparr>pstate = pstate n, refc = (if refc n \<noteq> 0 then 1 else 0)\<rparr>)
    (s\<lparr>free_desc_count := free_desc_count s - 1\<rparr>))"
  using assms by (simp add: alloc_child_def alloc_descriptor_def ens_enough page_class_def)

lemma descend_split:
  assumes "nodes s p = Some n" "nodes s (False # p) = None" "nodes s (True # p) = None" "length p < MAX_CLASS"
    and "(k + 1) * 2 \<le> free_desc_count s"
  shows "descend ens type k right p s = Inr (mark_partial type p (split_page right p n s))"
proof -
  define c where "c = Some \<lparr>pstate = pstate n, refc = (if refc n \<noteq> 0 then 1 else 0)\<rparr>"
  define s1 where "s1 = set_node (False # p) c (s\<lparr>free_desc_count := free_desc_count s - 1\<rparr>)"
  define s2 where "s2 = (set_node (True # p) c (set_node (False # p) c s))\<lparr>free_desc_count := free_desc_count s - 2\<rparr>"
  have a: "alloc_missing ens p False s = Inr s1"
    using alloc_child_enough [OF _ assms(1,4), of False] assms(2,5) by (simp add: alloc_missing_def s1_def c_def)
  have b: "alloc_missing ens p True s1 = Inr s2"
    using alloc_child_enough [of s1 p n True] assms by (simp add: alloc_missing_def s1_def s2_def c_def set_node_def)
  have w: "(pstate n = ALLOCATABLE_NODE \<and> PAGE_IS_FREE s p) = free_leaf s p" using free_leaf_iff [OF assms(1)] by simp
  have sp: "(if free_leaf s p then list_append (page_class p - 1) ((\<not> right) # p) (list_del p s2) else s2) = split_page right p n s"
    by (simp add: split_page_def s2_def c_def Let_def)
  have "nodes (mark_partial type p (split_page right p n s)) (b # p) \<noteq> None" for b
    by (cases b) (auto simp: mark_partial_def split_page_nodes split: option.split)
  then show ?thesis
    unfolding descend_def ens_enough [OF assms(5)] by (simp add: assms(1) a b w sp Let_def)
qed

lemma descend_through:
  assumes "nodes s p = Some n" "nodes s (False # p) \<noteq> None" "nodes s (True # p) \<noteq> None" "(k + 1) * 2 \<le> free_desc_count s"
  shows "descend ens type k right p s = Inr (mark_partial type p s)"
proof -
  have "\<not> PAGE_IS_FREE s p" using assms(1,2) by (simp add: PAGE_IS_FREE_def)
  moreover have "nodes (mark_partial type p s) (b # p) \<noteq> None" for b
    using assms(2,3) by (cases b) (auto simp: mark_partial_def split: option.split)
  moreover have "alloc_missing ens p b s = Inr s" for b using assms(2,3) by (cases b) (auto simp: alloc_missing_def)
  ultimately show ?thesis
    unfolding descend_def ens_enough [OF assms(4)] using assms(1) by (simp add: Let_def)
qed

lemma descend_ens: "descend ens type k right p s = bind_res (ens ((k + 1) * 2) s) (descend ens type k right p)"
proof (cases "ens ((k + 1) * 2) s")
  case (Inr t)
  then show ?thesis using ens_enough [OF ens_count [OF Inr]] by (simp add: descend_def)
qed (simp add: descend_def)

lemma descend_ok:
  assumes "tree_ok {} s" "lists_ok {} Y s" "nodes s p \<noteq> None" "length p < MAX_CLASS" "descend ens PARTIAL_NODE k right p s = Inr s'"
  shows "tree_ok {} s'" "lists_ok {} (insert (right # p) (Y - {p})) s'" "extends (insert p (listed s)) s s'" "nodes s' (right # p) \<noteq> None"
    "free_leaf s p \<Longrightarrow> p \<notin> listed s \<Longrightarrow> free_leaf s' (right # p) \<and> right # p \<notin> listed s'"
proof -
  obtain s1 where s1: "ens ((k + 1) * 2) s = Inr s1" "descend ens PARTIAL_NODE k right p s1 = Inr s'"
    using assms(5) unfolding descend_ens [of PARTIAL_NODE k right p s] by (auto simp: bind_res_Inr_iff)
  have ok: "tree_ok {} s1" "lists_ok {} Y s1" and ex: "extends (listed s) s s1"
    using ens_ok [OF s1(1) assms(1,2)] ens_extends [OF s1(1) assms(1,2)] by auto
  note cnt = ens_count [OF s1(1)]
  have id: "mark_partial PARTIAL_NODE q t = t" for q t by (simp add: mark_partial_def split: option.split)
  obtain n where n: "nodes s1 p = Some n" using extendsD(2) [OF ex assms(3)] by auto
  have "tree_ok {} s' \<and> lists_ok {} (insert (right # p) (Y - {p})) s' \<and> extends (insert p (listed s)) s s' \<and> nodes s' (right # p) \<noteq> None \<and>
    (free_leaf s p \<and> p \<notin> listed s \<longrightarrow> free_leaf s' (right # p) \<and> right # p \<notin> listed s')"
  proof (cases "nodes s1 (False # p) = None")
    case False
    then have kids: "nodes s1 (b # p) \<noteq> None" for b using tree_okD(4) [OF ok(1)] by blast
    then have s': "s' = s1" using descend_through [OF n kids kids cnt] s1(2) id by simp
    have "\<not> free_leaf s1 p" using False by (simp add: free_leaf_def)
    then have "lists_ok {} (insert (right # p) (Y - {p})) s1" using ok(2) by (auto simp: lists_ok_def)
    moreover have "extends (insert p (listed s)) s s1" by (rule extends_mono [OF ex]) simp
    moreover have "\<not> (free_leaf s p \<and> p \<notin> listed s)" using extendsD(4) [OF ex assms(3), of False] False by (auto simp: free_leaf_def)
    ultimately show ?thesis using ok(1) kids s' by blast
  next
    case True
    then have none: "nodes s1 (b # p) = None" for b using tree_okD(4) [OF ok(1), of b p False] True by blast
    have s': "s' = split_page right p n s1" using descend_split [OF n none none assms(4) cnt] s1(2) id by simp
    have "free_leaf s' (right # p) \<and> right # p \<notin> listed s'" if "free_leaf s p" "p \<notin> listed s"
    proof -
      have "nodes s1 p = Some \<lparr>pstate = ALLOCATABLE_NODE, refc = 0\<rparr>" using that extendsD(1) [OF ex] by (simp add: free_leaf_def)
      then have f: "free_leaf s1 p" using none by (simp add: free_leaf_def)
      have leaf: "nodes s1 (c # right # p) = None" for c using tree_okD(3) [OF ok(1), of c "right # p"] none [of right] by blast
      have "right # p \<notin> listed s1" using lists_okD(1) [OF ok(2), of "right # p"] none by (auto simp: free_leaf_def)
      then show ?thesis using f n leaf none
        by (cases right) (auto simp: s' split_page_listed [OF assms(4)] free_leaf_def split_page_nodes)
    qed
    moreover have "extends (insert p (listed s)) s s'"
      unfolding s' by (rule extends_mono [OF extends_trans [OF ex split_page_extends [OF n none none assms(4)]]]) auto
    moreover have "nodes s' (right # p) \<noteq> None" by (cases right) (simp_all add: s' split_page_nodes)
    ultimately show ?thesis
      using split_page_tree [OF ok(1) n none none assms(4)] split_page_lists [OF ok(2,1) n none none assms(4)] unfolding s' by blast
  qed
  then show "tree_ok {} s'" "lists_ok {} (insert (right # p) (Y - {p})) s'" "extends (insert p (listed s)) s s'" "nodes s' (right # p) \<noteq> None"
    "free_leaf s p \<Longrightarrow> p \<notin> listed s \<Longrightarrow> free_leaf s' (right # p) \<and> right # p \<notin> listed s'" by blast+
qed

text \<open>The lookup of a page for allocation: the page found may be missing from the free lists, everything else is in order.\<close>

lemma lookup_ok:
  assumes "tree_ok {} s" "lists_ok {} Y s" "nodes s p \<noteq> None" "k \<le> page_class p" "lookup_alloc ens PARTIAL_NODE addr k p s = Inr (q, s')"
  shows "tree_ok {} s' \<and> lists_ok {} (insert q (Y - {p})) s' \<and> extends (listed s \<union> {r. suffix p r}) s s' \<and> nodes s' q \<noteq> None \<and>
    suffix p q \<and> length q = length p + k \<and> (free_leaf s p \<and> p \<notin> listed s \<longrightarrow> free_leaf s' q \<and> q \<notin> listed s')"
  using assms
proof (induction k arbitrary: p s Y)
  case 0
  then show ?case by (auto simp: lists_ok_def intro: extends_refl)
next
  case (Suc k)
  let ?r = "bit addr (page_class p - 1)"
  obtain s1 where s1: "descend ens PARTIAL_NODE (Suc k) ?r p s = Inr s1" "lookup_alloc ens PARTIAL_NODE addr k (?r # p) s1 = Inr (q, s')"
    using Suc.prems(5) by (auto simp: Let_def bind_res_Inr_iff)
  have len: "length p < MAX_CLASS" using Suc.prems(4) by (simp add: page_class_def)
  note d = descend_ok [OF Suc.prems(1-3) len s1(1)]
  have k: "k \<le> page_class (?r # p)" using Suc.prems(4) class_child [OF len, of ?r] by simp
  note ih = Suc.IH [OF d(1,2,4) k s1(2)]
  have "lists_ok {} (insert q (insert (?r # p) (Y - {p}) - {?r # p})) s'" using ih by blast
  then have "lists_ok {} (insert q (Y - {p})) s'" by (auto simp: lists_ok_def)
  moreover have "extends (listed s \<union> {r. suffix p r}) s s'"
  proof -
    have a: "extends (listed s \<union> {r. suffix p r}) s s1" by (rule extends_mono [OF d(3)]) auto
    have "extends ({r. suffix (?r # p) r} \<union> listed s1) s1 s'" using ih by (simp add: Un_commute)
    from extends_listed [OF a this Un_upper1] show ?thesis by (rule extends_mono) (auto dest: suffix_ConsD)
  qed
  ultimately show ?case using ih d(5) by (auto dest: suffix_ConsD)
qed

end

interpretation nested: descriptor_source ensure_nested
  by unfold_locales (auto simp: ensure_nested_def extends_refl split: if_splits)

section \<open>References\<close>

text \<open>Adding a reference changes reference counts in the subtree only, and takes the pages off the free lists.\<close>

definition referenced :: "path \<Rightarrow> phys \<Rightarrow> phys \<Rightarrow> bool" where
  "referenced p s t \<longleftrightarrow> (\<forall>q. \<not> suffix p q \<longrightarrow> nodes t q = nodes s q) \<and>
     (\<forall>q n. nodes s q = Some n \<longrightarrow> (\<exists>m. nodes t q = Some m \<and> pstate m = pstate n \<and> refc n \<le> refc m)) \<and>
     (\<forall>q. nodes s q = None \<longrightarrow> nodes t q = None) \<and> listed t \<subseteq> listed s \<and>
     vlist t = vlist s \<and> in_kspace t = in_kspace s \<and> kern_end t = kern_end s \<and> free_desc_count t = free_desc_count s"

lemma referencedD:
  assumes "referenced p s t"
  shows "\<not> suffix p q \<Longrightarrow> nodes t q = nodes s q" "nodes s q = None \<Longrightarrow> nodes t q = None"
    "nodes s q = Some n \<Longrightarrow> \<exists>m. nodes t q = Some m \<and> pstate m = pstate n \<and> refc n \<le> refc m" "listed t \<subseteq> listed s"
  using assms by (simp_all add: referenced_def)

lemma referenced_refl: "referenced p s s"
  by (simp add: referenced_def)

lemma referenced_trans:
  assumes "referenced p s t" "referenced q t u" "suffix p q"
  shows "referenced p s u"
proof -
  note a = referencedD [OF assms(1)] and b = referencedD [OF assms(2)]
  have "\<exists>m. nodes u r = Some m \<and> pstate m = pstate n \<and> refc n \<le> refc m" if "nodes s r = Some n" for r n
    using a(3) [OF that] b(3) [of r] by fastforce
  moreover have "nodes u r = nodes s r" if "\<not> suffix p r" for r
    using a(1) [OF that] b(1) [of r] that assms(3) suffix_order.trans by metis
  ultimately show ?thesis using assms(1,2) unfolding referenced_def by auto
qed

lemma free_leaf_other: "q \<noteq> p \<Longrightarrow> nodes s p \<noteq> None \<Longrightarrow> free_leaf (set_node p (Some m) s) q = free_leaf s q"
  by (auto simp: free_leaf_def)

lemma suffix_sibling [simp]: "\<not> suffix (b # p) ((\<not> b) # p)" "\<not> suffix (b # p) p"
  by (auto simp: suffix_def)

lemma tree_okI:
  assumes "\<And>p. nodes s p \<noteq> None \<Longrightarrow> length p \<le> MAX_CLASS" "nodes s [] = Some r" "pstate r \<noteq> ALLOCATABLE_NODE"
    and "\<And>b p. nodes s (b # p) \<noteq> None \<Longrightarrow> nodes s p \<noteq> None" "\<And>b p. nodes s (b # p) \<noteq> None \<Longrightarrow> nodes s ((\<not> b) # p) \<noteq> None"
    and "\<And>b p n m. nodes s p = Some n \<Longrightarrow> nodes s (b # p) = Some m \<Longrightarrow> p \<notin> X \<Longrightarrow> refc n \<noteq> 0 \<Longrightarrow> refc m \<noteq> 0"
    and "\<And>b p n m. nodes s p = Some n \<Longrightarrow> nodes s (b # p) = Some m \<Longrightarrow> pstate n \<noteq> PARTIAL_NODE \<Longrightarrow> pstate m = pstate n"
  shows "tree_ok X s"
  unfolding tree_ok_def using assms(2,3) by (intro conjI allI impI) (simp_all add: assms(1,4,5), (use assms(6,7) in blast)+)

text \<open>A change of reference counts.\<close>

lemma tree_ok_counts:
  assumes "tree_ok Z s" "\<And>q. nodes t q = None \<longleftrightarrow> nodes s q = None"
    and "\<And>q n m. nodes s q = Some n \<Longrightarrow> nodes t q = Some m \<Longrightarrow> pstate m = pstate n"
    and "\<And>b q n m. nodes t q = Some n \<Longrightarrow> nodes t (b # q) = Some m \<Longrightarrow> q \<notin> X \<Longrightarrow> refc n \<noteq> 0 \<Longrightarrow> refc m \<noteq> 0"
  shows "tree_ok X t"
proof -
  note t = tree_okD [OF assms(1)]
  obtain r where r: "nodes s [] = Some r" "pstate r \<noteq> ALLOCATABLE_NODE" using t(2) by blast
  obtain r' where r': "nodes t [] = Some r'" using r(1) assms(2) [of "[]"] by auto
  show ?thesis
  proof (rule tree_okI)
    show "nodes t [] = Some r'" by (rule r')
    show "pstate r' \<noteq> ALLOCATABLE_NODE" using r(2) assms(3) [OF r(1) r'] by simp
    show "nodes t q \<noteq> None \<Longrightarrow> length q \<le> MAX_CLASS" for q by (metis assms(2) t(1))
    show "nodes t (b # q) \<noteq> None \<Longrightarrow> nodes t q \<noteq> None" for b q by (metis assms(2) t(3))
    show "nodes t (b # q) \<noteq> None \<Longrightarrow> nodes t ((\<not> b) # q) \<noteq> None" for b q by (metis assms(2) t(4))
    show "refc m \<noteq> 0" if "nodes t q = Some n" "nodes t (b # q) = Some m" "q \<notin> X" "refc n \<noteq> 0" for b q n m by (rule assms(4) [OF that])
    show "pstate m = pstate n" if n: "nodes t q = Some n" "nodes t (b # q) = Some m" "pstate n \<noteq> PARTIAL_NODE" for b q n m
    proof -
      obtain n' m' where o: "nodes s q = Some n'" "nodes s (b # q) = Some m'"
        using assms(2) [of q] assms(2) [of "b # q"] n(1,2) by fastforce
      then show ?thesis using assms(3) [OF o(1) n(1)] assms(3) [OF o(2) n(2)] t(6) [OF o] n(3) by simp
    qed
  qed
qed

lemma tree_ok_refc:
  assumes "tree_ok X s" "nodes s p = Some n" "r \<noteq> 0"
  shows "tree_ok (insert p X) (set_node p (Some (n\<lparr>refc := r\<rparr>)) s)"
  by (rule tree_ok_counts [OF assms(1)]) (use assms tree_okD(5) [OF assms(1)] in \<open>auto split: if_splits\<close>)

lemma tree_ok_child_refs:
  assumes "tree_ok (insert p X) s" "\<And>b n m. nodes s p = Some n \<Longrightarrow> nodes s (b # p) = Some m \<Longrightarrow> refc n \<noteq> 0 \<Longrightarrow> refc m \<noteq> 0"
  shows "tree_ok X s"
  by (rule tree_ok_counts [OF assms(1)]) (use assms(2) tree_okD(5) [OF assms(1)] in \<open>auto, blast\<close>)

lemma lists_ok_hold:
  assumes "lists_ok {} Y s" "nodes s p = Some n" "r \<noteq> 0"
  shows "lists_ok {} Y (list_del p (set_node p (Some (n\<lparr>refc := r\<rparr>)) s))"
proof (rule lists_okI)
  let ?s = "set_node p (Some (n\<lparr>refc := r\<rparr>)) s"
  have f: "free_leaf (list_del p ?s) q \<longleftrightarrow> free_leaf s q \<and> q \<noteq> p" for q
    using free_leaf_other [of q p s] assms(2,3) by (cases n, cases "q = p") (auto simp: free_leaf_def)
  have fc: "free_classes (list_del p ?s) = free_classes (list_del p s)" by (simp add: list_del_def)
  show "free_leaf (list_del p ?s) q" if "q \<in> listed (list_del p ?s)" for q using that f lists_okD(1) [OF assms(1)] by auto
  show "q \<in> listed (list_del p ?s)" if "free_leaf (list_del p ?s) q" "q \<notin> Y" for q using that f lists_okD(2) [OF assms(1)] by auto
  show "distinct (free_classes (list_del p ?s) c)" "q \<in> set (free_classes (list_del p ?s) c) \<Longrightarrow> page_class q = c" for c q
    unfolding fc by (rule shape_list_del [OF assms(1)])+
qed

lemma lists_ok_more:
  assumes "lists_ok {} Y s" "nodes s p = Some n" "refc n \<noteq> 0" "r \<noteq> 0"
  shows "lists_ok {} Y (set_node p (Some (n\<lparr>refc := r\<rparr>)) s)"
proof -
  have "p \<notin> listed s" using lists_okD(1) [OF assms(1), of p] assms(2,3) by (auto simp: free_leaf_def)
  then have "list_del p (set_node p (Some (n\<lparr>refc := r\<rparr>)) s) = set_node p (Some (n\<lparr>refc := r\<rparr>)) s"
    by (simp add: list_del_def set_node_def listed_def fun_upd_idem)
  then show ?thesis using lists_ok_hold [OF assms(1,2,4)] by simp
qed

lemma page_ref_at_ok:
  assumes "tree_ok X s" "lists_ok {} Y s" "page_class p < k \<or> nodes s p = None" "\<And>x. x \<in> X \<Longrightarrow> length x < length p"
  shows "referenced p s (page_ref_at k p s) \<and> tree_ok X (page_ref_at k p s) \<and> lists_ok {} Y (page_ref_at k p s) \<and>
    (\<forall>n. nodes s p = Some n \<longrightarrow> nodes (page_ref_at k p s) p = Some (n\<lparr>refc := Suc (refc n)\<rparr>))"
  using assms
proof (induction k arbitrary: p s X)
  case 0
  then show ?case by (simp add: referenced_refl)
next
  case (Suc k)
  show ?case
  proof (cases "nodes s p")
    case None
    then show ?thesis using Suc.prems by (simp add: referenced_refl)
  next
    case (Some n)
    let ?s = "set_node p (Some (n\<lparr>refc := Suc (refc n)\<rparr>)) s"
    have ref: "referenced p s ?s" "referenced p s (list_del p ?s)"
      using Some by (auto simp: referenced_def list_del_def set_node_def listed_def)
    note tree = tree_ok_refc [OF Suc.prems(1) Some, of "Suc (refc n)"]
    show ?thesis
    proof (cases "refc n = 0")
      case False
      have "p \<notin> X" using Suc.prems(4) by blast
      then have "tree_ok X ?s"
        by (intro tree_ok_counts [OF Suc.prems(1)]) (use Some False tree_okD(5) [OF Suc.prems(1)] in \<open>auto split: if_splits\<close>)
      then show ?thesis using Some False ref(1) lists_ok_more [OF Suc.prems(2) Some False] by simp
    next
      case True
      define s1 where "s1 = list_del p ?s"
      define s2 where "s2 = page_ref_at k (False # p) s1"
      define s3 where "s3 = page_ref_at k (True # p) s2"
      have s3: "page_ref_at (Suc k) p s = s3" using Some True by (simp add: s3_def s2_def s1_def)
      have t1: "tree_ok (insert p X) s1" using tree by (simp add: s1_def)
      have l1: "lists_ok {} Y s1" using lists_ok_hold [OF Suc.prems(2) Some] by (simp add: s1_def)
      have cl: "page_class (b # p) < k \<or> nodes t (b # p) = None" if "tree_ok Z t" for b t Z
        using tree_okD(1) [OF that, of "b # p"] Suc.prems(3) Some class_child [of p b] by (cases "nodes t (b # p) = None") simp_all
      have ne: "x \<in> insert p X \<Longrightarrow> length x < length (b # p)" for b x using Suc.prems(4) by fastforce
      note a = Suc.IH [OF t1 l1 cl [OF t1, of False] ne, folded s2_def]
      then have t2: "tree_ok (insert p X) s2" and l2: "lists_ok {} Y s2" and r2: "referenced (False # p) s1 s2" by blast+
      note b = Suc.IH [OF t2 l2 cl [OF t2, of True] ne, folded s3_def]
      then have t3: "tree_ok (insert p X) s3" and l3: "lists_ok {} Y s3" and r3: "referenced (True # p) s2 s3" by blast+
      have p3: "nodes s3 p = Some (n\<lparr>refc := Suc (refc n)\<rparr>)"
        using referencedD(1) [OF r2, of p] referencedD(1) [OF r3, of p] by (simp add: s1_def)
      have kids: "refc m \<noteq> 0" if m: "nodes s3 (d # p) = Some m" for d m
      proof (cases d)
        case True
        obtain m' where "nodes s2 (True # p) = Some m'" using m True referencedD(2) [OF r3, of "True # p"] by fastforce
        then show ?thesis using b m True by auto
      next
        case False
        have "nodes s2 (False # p) = Some m" using m False referencedD(1) [OF r3, of "False # p"] suffix_sibling(1) [of True p] by simp
        moreover then obtain m' where "nodes s1 (False # p) = Some m'" using referencedD(2) [OF r2, of "False # p"] by fastforce
        ultimately show ?thesis using a by auto
      qed
      have "referenced p s s3"
        using referenced_trans [OF referenced_trans [OF ref(2) r2 [unfolded s1_def]] r3] by (simp add: suffix_ConsI)
      moreover have "tree_ok X s3" by (rule tree_ok_child_refs [OF t3]) (rule kids)
      ultimately show ?thesis using l3 p3 Some unfolding s3 by simp
    qed
  qed
qed

section \<open>Allocation\<close>

lemma leaf_subtree:
  assumes "tree_ok X s" "nodes s (False # p) = None" "suffix p q" "nodes s q \<noteq> None"
  shows "q = p"
proof -
  have none: "nodes s (b # p) = None" for b using tree_okD(4) [OF assms(1), of b p False] assms(2) by blast
  have "nodes s (zs @ p) \<noteq> None \<Longrightarrow> zs = []" for zs
  proof (induction zs)
    case (Cons z zs)
    then show ?case using tree_okD(3) [OF assms(1), of z "zs @ p"] none [of z] by auto
  qed simp
  then show ?thesis using assms(3,4) by (auto simp: suffix_def)
qed

lemma lists_ok_take: "lists_ok {} Y s \<Longrightarrow> lists_ok {} (insert p Y) (list_del p s)"
  by (rule lists_okI) (simp_all add: shape_list_del lists_okD)

lemma extends_take: "extends {} s (list_del p s)"
  by (rule extendsI) simp_all

lemma referenced_extends: "referenced p s t \<Longrightarrow> extends {q. suffix p q} s t"
proof (rule extendsI)
  assume r: "referenced p s t"
  note d = referencedD [OF r]
  show "\<exists>m. nodes t q = Some m \<and> pstate m = pstate n \<and> (q \<notin> {q. suffix p q} \<longrightarrow> m = n)" if "nodes s q = Some n" for q n
    using d(1) [of q] d(3) [OF that] that by auto
  show "nodes t (b # q) = None" if "nodes s (b # q) = None" for b q using d(2) that by blast
  show "q \<in> listed t \<Longrightarrow> q \<in> listed s" for q using d(4) by blast
qed (simp_all add: referenced_def)

lemma find_page_listed:
  assumes "lists_ok Z Y s" "find_page class bm s = Some p"
  shows "p \<in> listed s" "class \<le> page_class p" "page_class p < MAX_CLASS"
proof -
  have "p \<in> set (concat (map (free_classes s) [class..<MAX_CLASS]))"
    using assms(2) unfolding find_page_def find_Some_iff by (metis nth_mem)
  then obtain c where c: "class \<le> c" "c < MAX_CLASS" "p \<in> set (free_classes s c)" by auto
  then have "page_class p = c" using lists_ok_shape(2) [OF assms(1)] by blast
  then show "p \<in> listed s" "class \<le> page_class p" "page_class p < MAX_CLASS" using c by (simp_all add: listed_def)
qed

lemma lists_ok_held:
  assumes "lists_ok {} (insert p Y) s" "\<not> free_leaf s p"
  shows "lists_ok {} Y s"
  using assms by (auto simp: lists_ok_def)

context descriptor_source
begin

text \<open>Taking a page off a free list and looking up a page of the class wanted in it.\<close>

lemma take_lookup:
  assumes "tree_ok {} s" "lists_ok {} Y s" "peer \<in> listed s" "class \<le> page_class peer"
    and "page_lookup_alloc ens peer (page_addr peer) class PARTIAL_NODE (list_del peer s) = Inr (new, t)"
  shows "tree_ok {} t" "lists_ok {} (insert new Y) t" "extends (listed s) s t" "free_leaf t new" "new \<notin> listed t" "suffix peer new"
    "length new = length peer + (page_class peer - class)" "nodes s new \<noteq> None \<Longrightarrow> new = peer"
proof -
  let ?s = "list_del peer s"
  have f: "free_leaf s peer" using lists_okD(1) [OF assms(2,3)] by simp
  have l: "lookup_alloc ens PARTIAL_NODE (page_addr peer) (page_class peer - class) peer ?s = Inr (new, t)"
    using assms(5) by (auto simp: page_lookup_alloc_def bind_res_Inr_iff)
  have pre: "tree_ok {} ?s" "nodes ?s peer \<noteq> None" "page_class peer - class \<le> page_class peer"
    using assms(1) f by (simp_all add: free_leaf_def)
  note r = lookup_ok [OF pre(1) lists_ok_take [OF assms(2), of peer] pre(2,3) l]
  show "tree_ok {} t" "suffix peer new" "length new = length peer + (page_class peer - class)" using r by blast+
  show "free_leaf t new" "new \<notin> listed t" using r f by auto
  show "lists_ok {} (insert new Y) t" using r by (auto simp: lists_ok_def)
  have old: "q = peer" if "suffix peer q" "nodes s q \<noteq> None" for q
    using leaf_subtree [OF assms(1) _ that] f by (simp add: free_leaf_def)
  show "nodes s new \<noteq> None \<Longrightarrow> new = peer" using old r by blast
  have "extends ({} \<union> (listed ?s \<union> {q. suffix peer q})) s t" using extends_trans [OF extends_take] r by blast
  then show "extends (listed s) s t" by (rule extends_mono) (use old assms(3) in auto)
qed

end

lemma list_del_count:
  "(list_del p s)\<lparr>free_desc_count := free_desc_count s + k\<rparr> = list_del p (s\<lparr>free_desc_count := free_desc_count s + k\<rparr>)"
  by (simp add: list_del_def)

lemma alloc_pool_ok:
  assumes "alloc_pool s = Inr t" "tree_ok {} s" "lists_ok {} Y s"
  shows "tree_ok {} t \<and> lists_ok {} Y t \<and> extends (listed s) s t"
proof -
  let ?s = "s\<lparr>free_desc_count := free_desc_count s + POOL_ENTRIES\<rparr>"
  obtain peer new t1 where p: "find_page POOL_CLASS (bootmem_flag True s) s = Some peer"
      "page_lookup_alloc ensure_nested peer (page_addr peer) POOL_CLASS PARTIAL_NODE (list_del peer ?s) = Inr (new, t1)"
      "t = (page_ref new t1)\<lparr>pools := new # pools (page_ref new t1)\<rparr>"
    using assms(1) by (auto simp: alloc_pool_def bind_res_Inr_iff Let_def list_del_count split: option.splits)
  note f = find_page_listed [OF assms(3) p(1)]
  have s: "tree_ok {} ?s" "lists_ok {} Y ?s" "peer \<in> listed ?s" "extends {} s ?s"
    using assms(2,3) f(1) by (simp_all add: extends_def)
  note l = nested.take_lookup [OF s(1-3) f(2) p(2)]
  have ref: "referenced new t1 (page_ref new t1) \<and> tree_ok {} (page_ref new t1) \<and> lists_ok {} (insert new Y) (page_ref new t1) \<and>
      (\<forall>n. nodes t1 new = Some n \<longrightarrow> nodes (page_ref new t1) new = Some (n\<lparr>refc := Suc (refc n)\<rparr>))"
    unfolding page_ref_def by (rule page_ref_at_ok [OF l(1,2)]) simp_all
  have "\<not> free_leaf (page_ref new t1) new" using ref l(4) by (auto simp: free_leaf_def)
  then have "lists_ok {} Y (page_ref new t1)" using ref lists_ok_held by blast
  moreover have "extends (listed s) s (page_ref new t1)"
  proof -
    have "extends ({} \<union> listed ?s) s t1" by (rule extends_trans [OF s(4) l(3)])
    then have a: "extends (listed s) s t1" by simp
    have b: "extends {q. suffix new q} t1 (page_ref new t1)" using ref referenced_extends by blast
    show ?thesis
    proof (rule extends_mono [OF extends_trans [OF a b]])
      fix q assume q: "q \<in> listed s \<union> {q. suffix new q}" "nodes s q \<noteq> None"
      show "q \<in> listed s"
      proof (cases "q \<in> listed s")
        case False
        then have "suffix new q" using q by simp
        then have "q = new" using leaf_subtree [OF l(1), of new q] l(4) extendsD(2) [OF a q(2)] by (simp add: free_leaf_def)
        then show ?thesis using l(8) q(2) f(1) by simp
      qed
    qed
  qed
  ultimately show ?thesis using ref p(3) by (simp add: extends_def)
qed

interpretation pool: descriptor_source ensure_free_desc
proof
  show "n \<le> free_desc_count s \<Longrightarrow> ensure_free_desc n s = Inr s" for n s by (simp add: ensure_free_desc_def)
  show "ensure_free_desc n s = Inr t \<Longrightarrow> n \<le> free_desc_count t" for n s t
    by (auto simp: ensure_free_desc_def bind_res_Inr_iff assert_res_def split: if_splits)
  show "tree_ok {} t \<and> lists_ok {} Y t" "extends (listed s) s t" if "ensure_free_desc n s = Inr t" "tree_ok {} s" "lists_ok {} Y s" for n s t Y
    using that alloc_pool_ok [of s t Y]
    by (auto simp: ensure_free_desc_def bind_res_Inr_iff assert_res_def extends_refl split: if_splits)
qed

section \<open>Releasing\<close>

text \<open>One merge: both children of \<open>p\<close> disappear.\<close>

definition unsplit :: "path \<Rightarrow> phys \<Rightarrow> phys" where
  "unsplit p s = free_descriptor (True # p) (free_descriptor (False # p) s)"

lemma unsplit_simps [simp]:
  "nodes (unsplit p s) = (nodes s)(False # p := None, True # p := None)" "listed (unsplit p s) = listed s - {False # p, True # p}"
  "vlist (unsplit p s) = vlist s"
  by (auto simp: unsplit_def)

lemma tree_ok_unsplit:
  assumes "tree_ok X s" "\<And>b c. nodes s (c # b # p) = None"
  shows "tree_ok X (unsplit p s)"
proof -
  note t = tree_okD [OF assms(1)]
  obtain r where r: "nodes s [] = Some r" "pstate r \<noteq> ALLOCATABLE_NODE" using t(2) by blast
  have kids: "nodes (unsplit p s) q = nodes s q" if "tl q \<noteq> p \<or> q = []" for q using that by auto
  have gone: "nodes (unsplit p s) (b # p) = None" for b by (cases b) simp_all
  have leaf: "nodes s (c # q) = None" if "nodes (unsplit p s) q = None" "nodes s q \<noteq> None" for c q
    using that assms(2) by (auto split: if_splits)
  have some: "nodes s q = Some n" if "nodes (unsplit p s) q = Some n" for q n using that by (auto split: if_splits)
  show ?thesis
  proof (rule tree_okI)
    show "nodes (unsplit p s) [] = Some r" "pstate r \<noteq> ALLOCATABLE_NODE" using r by simp_all
    show "nodes (unsplit p s) q \<noteq> None \<Longrightarrow> length q \<le> MAX_CLASS" for q using some t(1) [of q] by fastforce
    show "nodes (unsplit p s) q \<noteq> None" if "nodes (unsplit p s) (b # q) \<noteq> None" for b q
    proof -
      have "nodes s (b # q) \<noteq> None" using that some by fastforce
      then show ?thesis using leaf [of q b] t(3) [of b q] by metis
    qed
    show "nodes (unsplit p s) ((\<not> b) # q) \<noteq> None" if "nodes (unsplit p s) (b # q) \<noteq> None" for b q
    proof -
      have "q \<noteq> p" using that gone by auto
      then have "nodes (unsplit p s) (d # q) = nodes s (d # q)" for d by (intro kids) simp
      then show ?thesis using that t(4) [of b q "\<not> b"] by simp
    qed
    show "refc m \<noteq> 0" if "nodes (unsplit p s) q = Some n" "nodes (unsplit p s) (b # q) = Some m" "q \<notin> X" "refc n \<noteq> 0" for b q n m
      using t(5) [OF some [OF that(1)] some [OF that(2)] that(3,4)] .
    show "pstate m = pstate n" if "nodes (unsplit p s) q = Some n" "nodes (unsplit p s) (b # q) = Some m" "pstate n \<noteq> PARTIAL_NODE" for b q n m
      using t(6) [OF some [OF that(1)] some [OF that(2)] that(3)] .
  qed
qed

definition lists_shape :: "phys \<Rightarrow> bool" where
  "lists_shape s \<longleftrightarrow> (\<forall>c. distinct (free_classes s c)) \<and> (\<forall>c p. p \<in> set (free_classes s c) \<longrightarrow> page_class p = c)"

lemma lists_ok_iff:
  "lists_ok Z Y s \<longleftrightarrow> lists_shape s \<and> (\<forall>p. p \<in> listed s \<and> p \<notin> Z \<longrightarrow> free_leaf s p) \<and> (\<forall>p. free_leaf s p \<and> p \<notin> Y \<longrightarrow> p \<in> listed s)"
  by (auto simp: lists_ok_def lists_shape_def)

lemma shape_ops:
  assumes "lists_shape s"
  shows "lists_shape (list_del p s)" "lists_shape (free_descriptor p s)" "lists_shape (set_node p n s)"
    "p \<notin> listed s \<Longrightarrow> lists_shape (list_append (page_class p) p s)"
  using assms by (auto simp: lists_shape_def list_del_def free_descriptor_def list_append_def set_node_def Let_def listed_def
    distinct_removeAll split: if_splits)

lemma lists_ok_unsplit:
  assumes "lists_ok (insert (b # p) Z) (insert (b # p) Z) s"
  shows "lists_ok (insert p Z) (insert p Z) (unsplit p s)"
  unfolding lists_ok_iff
proof (intro conjI allI impI; (elim conjE)?)
  show "lists_shape (unsplit p s)" unfolding unsplit_def using assms by (intro shape_ops) (simp add: lists_ok_iff)
  have f: "free_leaf (unsplit p s) q \<longleftrightarrow> free_leaf s q" if "q \<noteq> p" "\<And>b. q \<noteq> b # p" for q
    using that by (auto simp: free_leaf_def)
  have kid: "b' # p \<notin> listed (unsplit p s) \<and> \<not> free_leaf (unsplit p s) (b' # p)" for b'
    by (cases b') (auto simp: free_leaf_def)
  show "free_leaf (unsplit p s) q" if "q \<in> listed (unsplit p s)" "q \<notin> insert p Z" for q
    using that kid f [of q] lists_okD(1) [OF assms, of q] by auto
  show "q \<in> listed (unsplit p s)" if "free_leaf (unsplit p s) q" "q \<notin> insert p Z" for q
  proof -
    have n: "q \<noteq> b' # p" for b' using kid that(1) by auto
    then have "free_leaf s q" using f [of q] that by auto
    then show ?thesis using that(2) n lists_okD(2) [OF assms, of q] by auto
  qed
qed

lemma lists_ok_append:
  assumes "lists_ok (insert p Z) (insert p Z) s" "p \<notin> listed s"
  shows "lists_ok (insert p Z) (insert p Z) (list_append (page_class p) p s)"
  using assms shape_ops(4) [of s p] by (auto simp: lists_ok_iff)

text \<open>The result of merging upwards from \<open>p\<close>: the page \<open>q\<close>, above which nothing has changed.\<close>

definition merged :: "path \<Rightarrow> path \<Rightarrow> phys \<Rightarrow> phys \<Rightarrow> bool" where
  "merged p q s t \<longleftrightarrow> suffix q p \<and> nodes t q = nodes s q \<and>
     (\<forall>r. suffix q r \<and> r \<noteq> q \<longrightarrow> nodes t r = None) \<and> (\<forall>r. \<not> suffix q r \<longrightarrow> nodes t r = nodes s r \<and> (r \<in> listed t \<longleftrightarrow> r \<in> listed s)) \<and>
     (q \<noteq> p \<longrightarrow> PAGE_IS_FREE s p \<and> PAGE_IS_FREE s ((\<not> hd p) # tl p) \<and> (\<exists>b k. nodes s (b # q) = Some k \<and> refc k = 0)) \<and>
     (\<forall>a m. suffix a p \<and> a \<noteq> p \<and> nodes s a = Some m \<and> refc m \<noteq> 0 \<longrightarrow> suffix a q) \<and> vlist t = vlist s"

lemma mergedD:
  assumes "merged p q s t"
  shows "suffix q p" "nodes t q = nodes s q" "suffix q r \<Longrightarrow> r \<noteq> q \<Longrightarrow> nodes t r = None" "\<not> suffix q r \<Longrightarrow> nodes t r = nodes s r"
    "\<not> suffix q r \<Longrightarrow> r \<in> listed t \<longleftrightarrow> r \<in> listed s" "q \<noteq> p \<Longrightarrow> PAGE_IS_FREE s p" "q \<noteq> p \<Longrightarrow> PAGE_IS_FREE s ((\<not> hd p) # tl p)"
    "q \<noteq> p \<Longrightarrow> \<exists>b k. nodes s (b # q) = Some k \<and> refc k = 0"
    "suffix a p \<Longrightarrow> a \<noteq> p \<Longrightarrow> nodes s a = Some m \<Longrightarrow> refc m \<noteq> 0 \<Longrightarrow> suffix a q" "vlist t = vlist s"
  using assms unfolding merged_def by blast+

lemma suffix_Cons_other: "suffix q p \<Longrightarrow> suffix q (b # p) \<and> b # p \<noteq> q"
  by (auto simp: suffix_def)

lemma merged_self:
  assumes "tree_ok X s" "nodes s (False # p) = None" "nodes s p \<noteq> None"
  shows "merged p p s s"
proof -
  have "nodes s r = None" if "suffix p r" "r \<noteq> p" for r using leaf_subtree [OF assms(1,2) that(1)] that(2) by blast
  then show ?thesis by (simp add: merged_def)
qed

lemma merge_up_ok:
  assumes "tree_ok X s" "lists_ok (insert p X) (insert p X) s" "nodes s p = Some n" "nodes s (False # p) = None" "nodes s (True # p) = None"
    and "merge_up p s = Inr (q, t)"
  shows "tree_ok X t \<and> lists_ok (insert q X) (insert q X) t \<and> merged p q s t \<and> (\<exists>m. nodes s q = Some m \<and> pstate m = pstate n)"
  using assms
proof (induction p arbitrary: s n)
  case Nil
  then show ?case using merged_self [OF Nil.prems(1,4)] by simp
next
  case (Cons b p)
  obtain par where par: "nodes s p = Some par" using tree_okD(3) [OF Cons.prems(1), of b p] Cons.prems(3) by auto
  show ?case
  proof (cases "pstate par = pstate n \<and> PAGE_IS_FREE s (False # p) \<and> PAGE_IS_FREE s (True # p)")
    case False
    then have "q = b # p" "t = s" using Cons.prems(3,6) par by (simp_all split: if_splits)
    then show ?thesis using Cons.prems merged_self [OF Cons.prems(1,4)] by simp
  next
    case True
    define u where "u = (if pstate par = ALLOCATABLE_NODE then list_append (page_class p) p (unsplit p s) else unsplit p s)"
    have go: "merge_up p u = Inr (q, t)" and out: "pstate par = ALLOCATABLE_NODE \<Longrightarrow> p \<notin> listed (unsplit p s)"
      using Cons.prems(3,6) par True
      by (auto simp: u_def unsplit_def listed_def Let_def bind_res_Inr_iff assert_res_def split: if_splits)
    have free: "PAGE_IS_FREE s (d # p)" for d using True by (cases d) simp_all
    have gkids: "nodes s (c # d # p) = None" for c d using free [of d] by (cases c) (auto simp: PAGE_IS_FREE_def split: option.splits)
    have tree: "tree_ok X u" using tree_ok_unsplit [OF Cons.prems(1) gkids] by (simp add: u_def)
    have lists: "lists_ok (insert p X) (insert p X) u"
      using lists_ok_unsplit [OF Cons.prems(2)] lists_ok_append out by (auto simp: u_def)
    have nodes_u: "nodes u = (nodes s)(False # p := None, True # p := None)" by (simp add: u_def)
    have listed_u: "r \<in> listed u \<longleftrightarrow> r \<in> listed s" if "\<And>d. r \<noteq> d # p" "r \<noteq> p" for r using that by (auto simp: u_def)
    have np: "nodes u p = Some par" using par by (simp add: nodes_u)
    note ih = Cons.IH [OF tree lists np _ _ go]
    then have mu: "merged p q u t" and ok: "tree_ok X t" "lists_ok (insert q X) (insert q X) t" by (simp_all add: nodes_u)
    note d = mergedD [OF mu]
    have below: "suffix q (c # p)" "c # p \<noteq> q" for c using suffix_Cons_other [OF d(1)] by blast+
    have same: "nodes u r = nodes s r" if "\<And>c. r \<noteq> c # p" for r using that by (auto simp: nodes_u)
    have q: "nodes u q = nodes s q" using same [of q] below(2) by metis
    have m: "merged (b # p) q s t"
      unfolding merged_def
    proof (intro conjI allI impI; (elim conjE)?)
      show "suffix q (b # p)" by (rule below)
      show "nodes t q = nodes s q" using d(2) q by simp
      show "nodes t r = None" if "suffix q r" "r \<noteq> q" for r using d(3) that by blast
      show "nodes t r = nodes s r" if "\<not> suffix q r" for r using d(4) [OF that] same [of r] below(1) that by metis
      show "r \<in> listed t \<longleftrightarrow> r \<in> listed s" if "\<not> suffix q r" for r
        using d(5) [OF that] listed_u [of r] below(1) that d(1) by metis
      show "PAGE_IS_FREE s (b # p)" "PAGE_IS_FREE s ((\<not> hd (b # p)) # tl (b # p))" using free by simp_all
      show "\<exists>c k. nodes s (c # q) = Some k \<and> refc k = 0"
      proof (cases "q = p")
        case True
        then show ?thesis using free [of b] by (auto simp: PAGE_IS_FREE_def split: option.splits)
      next
        case False
        then obtain c k where "nodes u (c # q) = Some k" "refc k = 0" using d(8) by blast
        then show ?thesis by (auto simp: nodes_u split: if_splits)
      qed
      show "suffix a q" if a: "suffix a (b # p)" "a \<noteq> b # p" "nodes s a = Some k" "refc k \<noteq> 0" for a k
      proof (cases "a = p")
        case True
        have "q = p"
        proof (rule ccontr)
          assume "q \<noteq> p"
          then show False using d(6) np a True par by (auto simp: PAGE_IS_FREE_def)
        qed
        then show ?thesis using True by simp
      next
        case False
        have "suffix a p" using a(1,2) by (simp add: suffix_Cons)
        moreover have "nodes u a = Some k" using same [of a] a(3) suffix_Cons_other [OF calculation] by (metis suffix_order.antisym)
        ultimately show ?thesis using d(9) False a(4) by blast
      qed
      show "vlist t = vlist s" using d(10) by (simp add: u_def)
    qed
    have "\<exists>m. nodes s q = Some m \<and> pstate m = pstate n" using ih True q by (simp add: nodes_u)
    then show ?thesis using ok m by blast
  qed
qed

lemma lists_ok_settle:
  assumes "lists_ok (insert q X) (insert q X) s" "q \<notin> X \<longrightarrow> (free_leaf s q \<longleftrightarrow> b)"
  shows "lists_ok X X (if b then list_append (page_class q) q (list_del q s) else list_del q s)"
proof -
  have sh: "lists_shape s" using assms(1) by (simp add: lists_ok_iff)
  have "lists_shape (if b then list_append (page_class q) q (list_del q s) else list_del q s)"
    using shape_ops(1) [OF sh, of q] shape_ops(4) [of "list_del q s" q] by simp
  then show ?thesis using assms unfolding lists_ok_iff by auto
qed

lemma release_page_ok:
  assumes "tree_ok X s" "lists_ok (insert p X) (insert p X) s" "nodes s p = Some n" "refc n = 0" "nodes s (False # p) = None" "nodes s (True # p) = None"
    and "release_page p s = Inr t"
  shows "tree_ok X t" "lists_ok X X t" "\<exists>q. merged p q s t"
proof -
  obtain q u m where u: "merge_up p s = Inr (q, u)" "nodes u q = Some m"
      "t = (if pstate m = ALLOCATABLE_NODE then list_append (page_class q) q (list_del q u) else list_del q u)"
    using assms(7) by (auto simp: release_page_def bind_res_Inr_iff Let_def split: option.splits)
  have ok: "tree_ok X u" "lists_ok (insert q X) (insert q X) u" "merged p q s u"
    using merge_up_ok [OF assms(1-3,5,6) u(1)] by blast+
  note d = mergedD [OF ok(3)]
  have nt: "nodes t = nodes u" by (simp add: u(3))
  have lt: "r \<in> listed t \<longleftrightarrow> r \<in> listed u" if "r \<noteq> q" for r using that by (simp add: u(3))
  have kids: "nodes u (b # q) = None" for b by (rule d(3)) (auto simp: suffix_def)
  have "free_leaf u q \<longleftrightarrow> pstate m = ALLOCATABLE_NODE" if "q \<notin> X"
  proof -
    have "refc m = 0"
    proof (cases "q = p")
      case True
      then show ?thesis using u(2) d(2) assms(3,4) by simp
    next
      case False
      then obtain b k where "nodes s (b # q) = Some k" "refc k = 0" using d(8) by blast
      then show ?thesis using tree_okD(5) [OF assms(1), of q m b k] u(2) d(2) that by auto
    qed
    then show ?thesis using u(2) kids by (cases m) (auto simp: free_leaf_def)
  qed
  then show "lists_ok X X t" unfolding u(3) using lists_ok_settle [OF ok(2)] by blast
  show "tree_ok X t" using ok(1) by (simp add: u(3))
  have "vlist t = vlist u" by (simp add: u(3))
  then have "merged p q s t" using ok(3) nt lt unfolding merged_def by auto
  then show "\<exists>q. merged p q s t" by blast
qed

text \<open>
  The effect of \<open>page_unref\<close>: either the page loses one reference and nothing outside its subtree changes, or it is
  merged into \<open>q\<close>.
\<close>

definition unreferenced :: "path \<Rightarrow> path \<Rightarrow> phys \<Rightarrow> phys \<Rightarrow> bool" where
  "unreferenced p q s t \<longleftrightarrow> suffix q p \<and> (\<forall>r. \<not> suffix q r \<longrightarrow> nodes t r = nodes s r \<and> (r \<in> listed t \<longleftrightarrow> r \<in> listed s)) \<and>
     (q \<noteq> p \<longrightarrow> nodes t q = nodes s q \<and> (\<forall>b. nodes t (b # q) = None) \<and> PAGE_IS_FREE s ((\<not> hd p) # tl p)) \<and>
     (\<forall>n. q = p \<and> nodes s p = Some n \<longrightarrow> nodes t p = Some (n\<lparr>refc := refc n - 1\<rparr>)) \<and>
     (\<forall>a m. suffix a p \<and> a \<noteq> p \<and> nodes s a = Some m \<and> refc m \<noteq> 0 \<longrightarrow> suffix a q)"

lemma unreferencedD:
  assumes "unreferenced p q s t"
  shows "suffix q p" "\<not> suffix q r \<Longrightarrow> nodes t r = nodes s r" "\<not> suffix q r \<Longrightarrow> r \<in> listed t \<longleftrightarrow> r \<in> listed s"
    "q \<noteq> p \<Longrightarrow> nodes t q = nodes s q" "q \<noteq> p \<Longrightarrow> nodes t (b # q) = None" "q \<noteq> p \<Longrightarrow> PAGE_IS_FREE s ((\<not> hd p) # tl p)"
    "q = p \<Longrightarrow> nodes s p = Some n \<Longrightarrow> nodes t p = Some (n\<lparr>refc := refc n - 1\<rparr>)"
    "suffix a p \<Longrightarrow> a \<noteq> p \<Longrightarrow> nodes s a = Some m \<Longrightarrow> refc m \<noteq> 0 \<Longrightarrow> suffix a q"
  using assms unfolding unreferenced_def by blast+

text \<open>The last part of \<open>page_unref\<close>, for a page that has no children and whose last reference goes.\<close>

lemma drop_last:
  assumes "tree_ok (insert p X) s" "lists_ok (insert p X) (insert p X) s" "nodes s p = Some n" "nodes s (False # p) = None" "nodes s (True # p) = None"
    and "p = [] \<or> tl p \<in> X \<or> (\<exists>m. nodes s (tl p) = Some m \<and> refc m = 0)"
    and "release_page p (set_node p (Some (n\<lparr>refc := 0\<rparr>)) s) = Inr t" "refc n = 1"
  shows "tree_ok X t \<and> lists_ok X X t \<and> (\<exists>q. unreferenced p q s t)"
proof -
  let ?s = "set_node p (Some (n\<lparr>refc := 0\<rparr>)) s"
  have tree: "tree_ok X ?s"
  proof (rule tree_ok_counts [OF assms(1)])
    fix b q k m assume a: "nodes ?s q = Some k" "nodes ?s (b # q) = Some m" "q \<notin> X" "refc k \<noteq> 0"
    have "q \<noteq> p" using a(1,4) by auto
    moreover have "b # q \<noteq> p" using a(1,3,4) assms(6) calculation by auto
    ultimately show "refc m \<noteq> 0" using a tree_okD(5) [OF assms(1), of q k b m] by auto
  qed (use assms(3) in \<open>auto split: if_splits\<close>)
  have lists: "lists_ok (insert p X) (insert p X) ?s"
    using assms(2) free_leaf_other [of _ p s "n\<lparr>refc := 0\<rparr>"] assms(3) shape_ops(3) [of s p] unfolding lists_ok_iff by auto
  have n: "nodes ?s p = Some (n\<lparr>refc := 0\<rparr>)" "refc (n\<lparr>refc := 0\<rparr>) = 0" "nodes ?s (False # p) = None" "nodes ?s (True # p) = None"
    using assms(4,5) by simp_all
  note r = release_page_ok [OF tree lists n assms(7)]
  then obtain q where m: "merged p q ?s t" by blast
  note d = mergedD [OF m]
  have ne: "nodes ?s r = nodes s r" if "r \<noteq> p" for r using that by simp
  have "unreferenced p q s t"
    unfolding unreferenced_def
  proof (intro conjI allI impI; (elim conjE)?)
    show "suffix q p" by (rule d(1))
    show "nodes t r = nodes s r" if "\<not> suffix q r" for r using d(4) [OF that] ne [of r] that d(1) by metis
    show "r \<in> listed t \<longleftrightarrow> r \<in> listed s" if "\<not> suffix q r" for r using d(5) [OF that] by simp
    show "nodes t q = nodes s q" if "q \<noteq> p" using d(2) ne [OF that] by simp
    show "nodes t (b # q) = None" for b by (rule d(3)) (auto simp: suffix_def)
    show "PAGE_IS_FREE s ((\<not> hd p) # tl p)" if "q \<noteq> p"
    proof -
      have "p \<noteq> []" using that d(1) by auto
      then obtain b p' where p: "p = b # p'" by (cases p) auto
      have "(\<not> b) # p' \<noteq> p" "c # (\<not> b) # p' \<noteq> p" for c using p by (auto dest: arg_cong [where f = length])
      then have same: "nodes ?s ((\<not> b) # p') = nodes s ((\<not> b) # p')" "nodes ?s (c # (\<not> b) # p') = nodes s (c # (\<not> b) # p')" for c
        using ne by blast+
      have "PAGE_IS_FREE ?s ((\<not> b) # p')" using d(7) [OF that] p by simp
      then have "PAGE_IS_FREE s ((\<not> b) # p')" unfolding PAGE_IS_FREE_def same .
      then show ?thesis using p by simp
    qed
    show "nodes t p = Some (k\<lparr>refc := refc k - 1\<rparr>)" if "q = p" "nodes s p = Some k" for k using d(2) that assms(3,8) by simp
    show "suffix a q" if "suffix a p" "a \<noteq> p" "nodes s a = Some k" "refc k \<noteq> 0" for a k using d(9) [OF that(1,2)] ne [OF that(2)] that(3,4) by simp
  qed
  then show ?thesis using r by blast
qed

lemma tree_ok_mono: "tree_ok X s \<Longrightarrow> X \<subseteq> Y \<Longrightarrow> tree_ok Y s"
  unfolding tree_ok_def by blast

lemma lists_ok_mono: "lists_ok Z Y s \<Longrightarrow> Z \<subseteq> Z' \<Longrightarrow> Y \<subseteq> Y' \<Longrightarrow> lists_ok Z' Y' s"
  unfolding lists_ok_def by blast

lemma lists_ok_recount:
  assumes "lists_ok X X s" "nodes s p = Some n" "p \<notin> listed s" "\<not> free_leaf (set_node p (Some m) s) p"
  shows "lists_ok X X (set_node p (Some m) s)"
proof -
  have "free_leaf (set_node p (Some m) s) q \<longleftrightarrow> free_leaf s q" if "q \<noteq> p" for q using free_leaf_other [OF that] assms(2) by simp
  then show ?thesis using assms shape_ops(3) [of s p "Some m"] unfolding lists_ok_iff upd_simps by metis
qed

lemma unreferenced_below:
  assumes "unreferenced p q v t" "\<And>r. \<not> (\<exists>b. suffix (b # p) r) \<Longrightarrow> nodes v r = nodes s r \<and> (r \<in> listed v \<longleftrightarrow> r \<in> listed s) \<or> r = p \<and> nodes v p = nodes s p"
  shows "unreferenced p q s t"
proof -
  note d = unreferencedD [OF assms(1)]
  have sub: "suffix q r" if "suffix (b # p) r" for b r using that d(1) by (meson suffix_ConsD suffix_order.order_trans)
  have up: "nodes v a = nodes s a" if "suffix a p" for a
    using assms(2) [of a] that by (metis suffix_ConsD suffix_order.antisym suffix_sibling(2))
  have sib: "nodes v r = nodes s r" if p: "p = b # p'" and r: "suffix ((\<not> b) # p') r" for b p' r
  proof -
    have "\<not> suffix (c # p) r" for c
    proof
      assume "suffix (c # p) r"
      then have "suffix (b # p') r" using p by (meson suffix_ConsD)
      then show False using r by (metis length_Cons order_refl suffix_length_suffix suffix_sibling(1))
    qed
    then show ?thesis using assms(2) [of r] by auto
  qed
  show ?thesis
    unfolding unreferenced_def
  proof (intro conjI allI impI; (elim conjE)?)
    show "suffix q p" by (rule d(1))
    show "nodes t r = nodes s r" "r \<in> listed t \<longleftrightarrow> r \<in> listed s" if "\<not> suffix q r" for r
      using d(2,3) [OF that] assms(2) [of r] sub [of _ r] that d(1) by metis+
    show "nodes t q = nodes s q" if "q \<noteq> p" using d(4) [OF that] up [OF d(1)] by simp
    show "nodes t (b # q) = None" if "q \<noteq> p" for b by (rule d(5) [OF that])
    show "PAGE_IS_FREE s ((\<not> hd p) # tl p)" if "q \<noteq> p"
    proof -
      obtain b p' where p: "p = b # p'" using \<open>q \<noteq> p\<close> d(1) by (cases p) auto
      have same: "nodes v ((\<not> b) # p') = nodes s ((\<not> b) # p')" "nodes v (c # (\<not> b) # p') = nodes s (c # (\<not> b) # p')" for c
        by (rule sib [OF p], simp add: suffix_def)+
      have "PAGE_IS_FREE v ((\<not> b) # p')" using d(6) [OF that] p by simp
      then have "PAGE_IS_FREE s ((\<not> b) # p')" unfolding PAGE_IS_FREE_def same .
      then show ?thesis using p by simp
    qed
    show "nodes t p = Some (n\<lparr>refc := refc n - 1\<rparr>)" if "q = p" "nodes s p = Some n" for n using d(7) [OF that(1)] up [of p] that(2) by simp
    show "suffix a q" if "suffix a p" "a \<noteq> p" "nodes s a = Some m" "refc m \<noteq> 0" for a m
      using d(8) [OF that(1,2)] up [OF that(1)] that(3,4) by simp
  qed
qed

lemma unref_many:
  assumes "tree_ok X s" "lists_ok X X s" "nodes s p = Some n" "2 \<le> refc n" "p \<notin> X"
  defines "t \<equiv> set_node p (Some (n\<lparr>refc := refc n - 1\<rparr>)) s"
  shows "tree_ok X t" "lists_ok X X t" "unreferenced p p s t" "\<not> PAGE_IS_FREE t p"
proof -
  have nf: "\<not> free_leaf t p" "\<not> free_leaf s p" using assms(3,4) by (cases n; auto simp: t_def free_leaf_def)+
  then have "p \<notin> listed s" using lists_okD(1) [OF assms(2)] assms(5) by blast
  then show "lists_ok X X t" using lists_ok_recount [OF assms(2,3)] nf(1) by (simp add: t_def)
  show "tree_ok X t"
    unfolding t_def by (rule tree_ok_counts [OF assms(1)]) (use assms(3,4) tree_okD(5) [OF assms(1)] in \<open>auto split: if_splits\<close>)
  show "unreferenced p p s t" by (auto simp: unreferenced_def t_def assms(3))
  show "\<not> PAGE_IS_FREE t p" using assms(4) by (simp add: t_def PAGE_IS_FREE_def)
qed

text \<open>A split page whose last reference goes, and of whose children at least one is still there afterwards.\<close>

lemma unref_split:
  assumes "tree_ok (insert p X) v" "lists_ok (insert p X) (insert p X) v" "nodes v p = Some n" "nodes v (b # p) \<noteq> None" "p \<notin> listed v"
    and "p = [] \<or> tl p \<in> X \<or> (\<exists>m. nodes v (tl p) = Some m \<and> refc m = 0)" "p \<notin> X"
  defines "t \<equiv> set_node p (Some (n\<lparr>refc := 0\<rparr>)) v"
  shows "tree_ok X t" "lists_ok X X t" "\<not> PAGE_IS_FREE t p"
proof -
  have kids: "nodes v (c # p) \<noteq> None" for c using tree_okD(4) [OF assms(1,4)] .
  then show "\<not> PAGE_IS_FREE t p" using kids [of True] by (simp add: t_def PAGE_IS_FREE_def)
  show "tree_ok X t"
    unfolding t_def
  proof (rule tree_ok_counts [OF assms(1)])
    fix c q k m assume a: "nodes (set_node p (Some (n\<lparr>refc := 0\<rparr>)) v) q = Some k" "nodes (set_node p (Some (n\<lparr>refc := 0\<rparr>)) v) (c # q) = Some m" "q \<notin> X" "refc k \<noteq> 0"
    have "q \<noteq> p" using a(1,4) by auto
    moreover have "c # q \<noteq> p" using a(1,3,4) assms(6) calculation by auto
    ultimately show "refc m \<noteq> 0" using a tree_okD(5) [OF assms(1), of q k c m] by auto
  qed (use assms(3) in \<open>auto split: if_splits\<close>)
  have nf: "\<not> free_leaf t p" using kids [of True] by (simp add: t_def free_leaf_def)
  then have "lists_ok (insert p X) (insert p X) t" using lists_ok_recount [OF assms(2,3,5)] by (simp add: t_def)
  then show "lists_ok X X t" using nf assms(5,7) unfolding lists_ok_iff by (auto simp: t_def)
qed

lemma unref_ok:
  assumes "tree_ok X s" "lists_ok X X s" "nodes s p = Some n" "refc n \<noteq> 0" "\<forall>x\<in>X. length x < length p"
    and "p = [] \<or> tl p \<in> X \<or> (\<exists>m. nodes s (tl p) = Some m \<and> refc m = 0) \<or> 2 \<le> refc n"
    and "page_unref_at k p s = Inr t" "page_class p < k"
  shows "tree_ok X t \<and> lists_ok X X t \<and> (\<exists>q. unreferenced p q s t)"
  using assms
proof (induction k p s arbitrary: X n t rule: page_unref_at.induct)
  case (2 k p s)
  have px: "p \<notin> X" using "2.prems"(5) by blast
  show ?case
  proof (cases "refc n = 1")
    case False
    then have ge: "2 \<le> refc n" using "2.prems"(4) by simp
    note m = unref_many [OF "2.prems"(1-3) ge px]
    have "t = set_node p (Some (n\<lparr>refc := refc n - 1\<rparr>)) s" using "2.prems"(3,4,7) False m(4) by (simp add: assert_res_def)
    then show ?thesis using m by blast
  next
    case True
    have root: "p = [] \<or> tl p \<in> X \<or> (\<exists>m. nodes s (tl p) = Some m \<and> refc m = 0)" using "2.prems"(6) True by auto
    obtain u v where uv: "page_unref_at k (False # p) s = Inr u" "page_unref_at k (True # p) u = Inr v"
      and t: "(if PAGE_IS_FREE (set_node p (Some (n\<lparr>refc := 0\<rparr>)) v) p then release_page p (set_node p (Some (n\<lparr>refc := 0\<rparr>)) v)
               else Inr (set_node p (Some (n\<lparr>refc := 0\<rparr>)) v)) = Inr t"
      using "2.prems"(3,7) True by (auto simp: assert_res_def bind_res_Inr_iff Let_def)
    have tree: "tree_ok (insert p X) s" by (rule tree_ok_mono [OF "2.prems"(1)]) blast
    have lists: "lists_ok (insert p X) (insert p X) s" by (rule lists_ok_mono [OF "2.prems"(2)]) blast+
    have notl: "p \<notin> listed s" using lists_okD(1) [OF "2.prems"(2) _ px] "2.prems"(3) True by (auto simp: free_leaf_def)
    show ?thesis
    proof (cases "nodes s (False # p)")
      case None
      have nt: "nodes s (True # p) = None" using tree_okD(4) [OF tree, of True p False] None by blast
      have "u = s" "v = s" using uv None nt by (cases k; simp)+
      then have "release_page p (set_node p (Some (n\<lparr>refc := 0\<rparr>)) s) = Inr t" using t None nt by (simp add: PAGE_IS_FREE_def)
      then show ?thesis using drop_last [OF tree lists "2.prems"(3) None nt root] True by blast
    next
      case (Some l)
      then obtain r where r: "nodes s (True # p) = Some r" using tree_okD(4) [OF tree, of False p True] by auto
      have refs: "refc l \<noteq> 0" "refc r \<noteq> 0"
        using tree_okD(5) [OF "2.prems"(1,3) Some px] tree_okD(5) [OF "2.prems"(1,3) r px] True by simp_all
      have len: "length p < MAX_CLASS" using tree_okD(1) [OF tree, of "False # p"] Some by simp
      have cls: "page_class (b # p) < k" for b using class_child [OF len, of b] "2.prems"(8) by simp
      have X: "\<forall>x\<in>insert p X. length x < length (b # p)" for b using "2.prems"(5) by auto
      have par: "b # p = [] \<or> tl (b # p) \<in> insert p X \<or> (\<exists>m. nodes s' (tl (b # p)) = Some m \<and> refc m = 0) \<or> 2 \<le> refc r'" for b s' r' by simp
      obtain q1 where u: "tree_ok (insert p X) u" "lists_ok (insert p X) (insert p X) u" "unreferenced (False # p) q1 s u"
        using "2.IH"(1) [OF "2.prems"(3) _ True tree lists Some refs(1) X par uv(1) cls] "2.prems"(3,4) by (auto simp: assert_res_def)
      note d1 = unreferencedD [OF u(3)]
      have q1: "q1 = False # p"
      proof (rule ccontr)
        assume "q1 \<noteq> False # p"
        then show False using d1(6) r refs(2) by (auto simp: PAGE_IS_FREE_def)
      qed
      have nu: "nodes u p = Some n" "nodes u (True # p) = Some r" "p \<notin> listed u"
        using d1(2,3) [unfolded q1, of p] d1(2) [unfolded q1, of "True # p"] suffix_sibling(1) [of False p] r notl "2.prems"(3) by simp_all
      obtain q2 where v: "tree_ok (insert p X) v" "lists_ok (insert p X) (insert p X) v" "unreferenced (True # p) q2 u v"
        using "2.IH"(2) [OF "2.prems"(3) _ True uv(1) u(1,2) nu(2) refs(2) X par uv(2) cls] "2.prems"(3,4) by (auto simp: assert_res_def)
      note d2 = unreferencedD [OF v(3)]
      have q2: "q2 = True # p \<or> q2 = p"
        using d2(1) d2(8) [OF _ _ nu(1)] True by (auto simp: suffix_Cons intro: suffix_order.antisym)
      have out: "nodes v r = nodes s r \<and> (r \<in> listed v \<longleftrightarrow> r \<in> listed s) \<or> r = p \<and> nodes v p = nodes s p" if "\<not> (\<exists>b. suffix (b # p) r)" for r
      proof (cases "r = p")
        case True
        then show ?thesis using q2 d2(2) [of p] d2(4) nu(1) "2.prems"(3) by (cases "q2 = p") auto
      next
        case False
        then have "\<not> suffix p r" using that by (metis append_Cons append_eq_append_conv2 rev_exhaust suffix_def append.assoc append_Nil)
        then show ?thesis using q2 d1(2,3) [unfolded q1, of r] d2(2,3) [of r] that by auto
      qed
      have nv: "nodes v p = Some n" using out [of p] "2.prems"(3) by auto
      have "\<not> (\<exists>b. suffix (b # p) (tl p))" by (auto dest: suffix_length_le)
      then have rootv: "p = [] \<or> tl p \<in> X \<or> (\<exists>m. nodes v (tl p) = Some m \<and> refc m = 0)"
        using root out [of "tl p"] by (cases "tl p = p") (auto simp: nv)
      have "\<exists>q. tree_ok X t \<and> lists_ok X X t \<and> unreferenced p q v t"
      proof (cases "q2 = p")
        case True
        then have kids: "nodes v (False # p) = None" "nodes v (True # p) = None" using d2(5) by auto
        have "release_page p (set_node p (Some (n\<lparr>refc := 0\<rparr>)) v) = Inr t" using t kids by (simp add: PAGE_IS_FREE_def)
        then show ?thesis using drop_last [OF v(1,2) nv kids rootv] \<open>refc n = 1\<close> by blast
      next
        case False
        then have q: "q2 = True # p" using q2 by blast
        have some: "nodes v (True # p) \<noteq> None" using d2(7) [OF q nu(2)] by simp
        have "p \<notin> listed v" using d2(3) [unfolded q, of p] nu(3) by simp
        note sp = unref_split [OF v(1,2) nv some this rootv px]
        have "t = set_node p (Some (n\<lparr>refc := 0\<rparr>)) v" using t sp(3) by simp
        moreover have "unreferenced p p v (set_node p (Some (n\<lparr>refc := 0\<rparr>)) v)" using nv \<open>refc n = 1\<close> by (auto simp: unreferenced_def)
        ultimately show ?thesis using sp by blast
      qed
      then show ?thesis using unreferenced_below [OF _ out] by blast
    qed
  qed
qed simp

section \<open>Attaching memory\<close>

lemma mark_partial_simps [simp]:
  "listed (mark_partial type p s) = listed s" "free_classes (mark_partial type p s) = free_classes s"
  "q \<noteq> p \<Longrightarrow> nodes (mark_partial type p s) q = nodes s q" "nodes (mark_partial type p s) q = None \<longleftrightarrow> nodes s q = None"
  "mark_partial PARTIAL_NODE p s = s"
  by (auto simp: mark_partial_def split: option.splits)

lemma mark_partial_at: "nodes s p = Some n \<Longrightarrow>
    nodes (mark_partial type p s) p = Some (if type \<noteq> PARTIAL_NODE \<and> pstate n \<noteq> type then n\<lparr>pstate := PARTIAL_NODE\<rparr> else n)"
  by (simp add: mark_partial_def)

text \<open>All pages above \<open>p\<close> that are not partial are of the kind being attached.\<close>

definition path_typed :: "PageState \<Rightarrow> path \<Rightarrow> phys \<Rightarrow> bool" where
  "path_typed type p s \<longleftrightarrow> type = PARTIAL_NODE \<or> p = [] \<or> (\<exists>k. nodes s (tl p) = Some k \<and> (pstate k = PARTIAL_NODE \<or> pstate k = type))"

lemma mark_partial_ok:
  assumes "tree_ok {} s" "lists_ok Z Y s" "nodes s (b # p) \<noteq> None" "path_typed type p s"
  shows "tree_ok {} (mark_partial type p s)" "lists_ok Z Y (mark_partial type p s)"
proof -
  note t = tree_okD [OF assms(1)]
  let ?t = "mark_partial type p s"
  obtain n where n: "nodes s p = Some n" using t(3) [OF assms(3)] by auto
  obtain r where r: "nodes s [] = Some r" "pstate r \<noteq> ALLOCATABLE_NODE" using t(2) by blast
  have old: "\<exists>k. nodes s q = Some k \<and> refc k = refc m \<and> (pstate m \<noteq> PARTIAL_NODE \<longrightarrow> pstate m = pstate k) \<and> (q \<noteq> p \<longrightarrow> m = k)"
    if "nodes ?t q = Some m" for q m
    using that n mark_partial_at [OF n, of type] by (cases "q = p") (auto split: if_splits)
  obtain r' where r': "nodes ?t [] = Some r'" using r(1) mark_partial_simps(4) [of type p s "[]"] by fastforce
  show "tree_ok {} ?t"
  proof (rule tree_okI [OF _ r'])
    show "pstate r' \<noteq> ALLOCATABLE_NODE" using old [OF r'] r by auto
    show "length q \<le> MAX_CLASS" if "nodes ?t q \<noteq> None" for q using t(1) that by simp
    show "nodes ?t (c # q) \<noteq> None \<Longrightarrow> nodes ?t q \<noteq> None" for c q using t(3) by simp
    show "nodes ?t (c # q) \<noteq> None \<Longrightarrow> nodes ?t ((\<not> c) # q) \<noteq> None" for c q using t(4) by simp
    show "refc m \<noteq> 0" if "nodes ?t q = Some k" "nodes ?t (c # q) = Some m" "refc k \<noteq> 0" for c q k m
      using old [OF that(1)] old [OF that(2)] t(5) [of q _ c] that(3) by force
    show "pstate m = pstate k" if "nodes ?t q = Some k" "nodes ?t (c # q) = Some m" "pstate k \<noteq> PARTIAL_NODE" for c q k m
    proof -
      obtain k' m' where o: "nodes s q = Some k'" "nodes s (c # q) = Some m'" "pstate k = pstate k'" using old [OF \<open>nodes ?t q = Some k\<close>] old [OF \<open>nodes ?t (c # q) = Some m\<close>] \<open>pstate k \<noteq> PARTIAL_NODE\<close> by auto
      have st: "pstate m' = pstate k'" using t(6) [OF o(1,2)] o(3) that(3) by simp
      show ?thesis
      proof (cases "c # q = p")
        case True
        then have "type = PARTIAL_NODE \<or> pstate k' = type" using assms(4) o(1,3) \<open>pstate k \<noteq> PARTIAL_NODE\<close> by (auto simp: path_typed_def)
        then have "m = m'" using mark_partial_at [of s p m' type] True o(2) st \<open>nodes ?t (c # q) = Some m\<close> by auto
        then show ?thesis using o st by simp
      next
        case False
        then show ?thesis using o st \<open>nodes ?t (c # q) = Some m\<close> by simp
      qed
    qed
  qed
  have "\<not> free_leaf s p" "\<not> free_leaf ?t p" using tree_okD(4) [OF assms(1,3), of True] by (simp_all add: free_leaf_def)
  then have "free_leaf ?t q \<longleftrightarrow> free_leaf s q" for q by (cases "q = p") (auto simp: free_leaf_def)
  then show "lists_ok Z Y ?t" using assms(2) unfolding lists_ok_def by simp
qed

lemma descend_typed:
  assumes "descend ens type k right p s = Inr t"
  shows "\<exists>u. descend ens PARTIAL_NODE k right p s = Inr u \<and> t = mark_partial type p u \<and> nodes u (right # p) \<noteq> None"
proof -
  obtain s1 n s2 s3 where s: "ens ((k + 1) * 2) s = Inr s1" "nodes s1 p = Some n" "alloc_missing ens p False s1 = Inr s2" "alloc_missing ens p True s2 = Inr s3"
    using assms by (auto simp: descend_def bind_res_Inr_iff Let_def split: option.splits)
  define u where "u = (if pstate n = ALLOCATABLE_NODE \<and> PAGE_IS_FREE s1 p then list_append (page_class p - 1) ((\<not> right) # p) (list_del p s3) else s3)"
  have run: "descend ens ty k right p s = (if nodes u (False # p) \<noteq> None \<and> nodes u (True # p) \<noteq> None then Inr (mark_partial ty p u) else Inl AssertFail)" for ty
    unfolding descend_def s(1) by (simp add: s(2-) u_def [symmetric] Let_def assert_res_def)
  then have "nodes u (False # p) \<noteq> None \<and> nodes u (True # p) \<noteq> None" "t = mark_partial type p u" using assms by (simp_all split: if_splits)
  then show ?thesis using run [of PARTIAL_NODE] by (cases right) auto
qed

context descriptor_source
begin

lemma lookup_typed:
  assumes "tree_ok {} s" "lists_ok {} Y s" "nodes s p \<noteq> None" "k \<le> page_class p" "path_typed type p s" "lookup_alloc ens type addr k p s = Inr (q, s')"
  shows "tree_ok {} s' \<and> lists_ok {} (insert q (Y - {p})) s' \<and> nodes s' q \<noteq> None \<and> path_typed type q s' \<and> suffix p q \<and> length q = length p + k"
  using assms
proof (induction k arbitrary: p s Y)
  case 0
  then show ?case by (auto simp: lists_ok_def)
next
  case (Suc k)
  let ?r = "bit addr (page_class p - 1)"
  obtain s1 where s1: "descend ens type (Suc k) ?r p s = Inr s1" "lookup_alloc ens type addr k (?r # p) s1 = Inr (q, s')"
    using Suc.prems(6) by (auto simp: Let_def bind_res_Inr_iff)
  obtain u where u: "descend ens PARTIAL_NODE (Suc k) ?r p s = Inr u" "s1 = mark_partial type p u" "nodes u (?r # p) \<noteq> None"
    using descend_typed [OF s1(1)] by blast
  have len: "length p < MAX_CLASS" using Suc.prems(4) by (simp add: page_class_def)
  note d = descend_ok [OF Suc.prems(1-3) len u(1)]
  have k: "k \<le> page_class (?r # p)" using Suc.prems(4) class_child [OF len, of ?r] by simp
  have up: "path_typed type p u"
  proof (cases "type = PARTIAL_NODE \<or> p = []")
    case False
    then obtain n where n: "nodes s (tl p) = Some n" "pstate n = PARTIAL_NODE \<or> pstate n = type" using Suc.prems(5) by (auto simp: path_typed_def)
    obtain m where "nodes u (tl p) = Some m" using extendsD(2) [OF d(3), of "tl p"] n(1) by auto
    then show ?thesis using extendsD(3) [OF d(3) n(1)] n(2) by (simp add: path_typed_def)
  qed (auto simp: path_typed_def)
  note m = mark_partial_ok [OF d(1,2) u(3) up]
  obtain n where "nodes u p = Some n" using tree_okD(3) [OF d(1) u(3)] by auto
  then have pt: "path_typed type (?r # p) s1" using mark_partial_at [of u p n type] by (auto simp: u(2) path_typed_def)
  have ih: "tree_ok {} s' \<and> lists_ok {} (insert q (insert (?r # p) (Y - {p}) - {?r # p})) s' \<and> nodes s' q \<noteq> None \<and> path_typed type q s' \<and>
    suffix (?r # p) q \<and> length q = length (?r # p) + k"
    by (rule Suc.IH [OF m [folded u(2)] _ k pt s1(2)]) (use u(3) in \<open>simp only: u(2) mark_partial_simps not_False_eq_True\<close>)
  then have "lists_ok {} (insert q (Y - {p})) s'" by (auto simp: lists_ok_def)
  then show ?case using ih by (auto dest: suffix_ConsD)
qed

end

text \<open>Freeing the descriptors of a subtree.\<close>

definition pruned :: "path \<Rightarrow> phys \<Rightarrow> phys \<Rightarrow> bool" where
  "pruned p s t \<longleftrightarrow> (\<forall>q. nodes t q = nodes s q \<and> (q \<in> listed t \<longleftrightarrow> q \<in> listed s) \<or> suffix p q \<and> nodes t q = None \<and> q \<notin> listed t) \<and>
     (lists_shape s \<longrightarrow> lists_shape t)"

lemma prunedD:
  assumes "pruned p s t"
  shows "nodes t q = nodes s q \<and> (q \<in> listed t \<longleftrightarrow> q \<in> listed s) \<or> suffix p q \<and> nodes t q = None \<and> q \<notin> listed t"
    "\<not> suffix p q \<Longrightarrow> nodes t q = nodes s q" "lists_shape s \<Longrightarrow> lists_shape t"
  using assms unfolding pruned_def by blast+

lemma pruned_refl: "pruned p s s"
  by (simp add: pruned_def)

lemma pruned_trans: "pruned p s t \<Longrightarrow> pruned p t u \<Longrightarrow> pruned p s u"
  unfolding pruned_def by (intro conjI allI) metis+

lemma pruned_up: "pruned (b # p) s t \<Longrightarrow> pruned p s t"
  unfolding pruned_def by (metis suffix_ConsD)

lemma pruned_free: "pruned p s (free_descriptor p s)"
proof -
  have "lists_shape (free_descriptor p s)" if "lists_shape s"
    using shape_ops(1) [OF that, of p] shape_ops(3) [of "list_del p s" p None] by (simp add: free_descriptor_def lists_shape_def)
  then show ?thesis by (auto simp: pruned_def)
qed

lemma free_desc_rec_ok: "free_desc_rec k p s = Inr t \<Longrightarrow> pruned p s t"
proof (induction k p s arbitrary: t rule: free_desc_rec.induct)
  case (2 k p s)
  show ?case
  proof (cases "nodes s p")
    case (Some n)
    then obtain u where u: "refc n = 0" "free_desc_rec k (True # p) s = Inr u" "free_desc_rec k (False # p) (free_descriptor p u) = Inr t"
      using "2.prems" by (auto simp: bind_res_Inr_iff assert_res_def split: if_splits)
    have "pruned (True # p) s u" "pruned (False # p) (free_descriptor p u) t"
      using "2.IH"(1) [OF Some _ u(2)] "2.IH"(2) [OF Some _ u(2,3)] u(1) by (simp_all add: assert_res_def)
    then show ?thesis using pruned_trans [OF pruned_up pruned_trans [OF pruned_free pruned_up]] by blast
  qed (use "2.prems" in \<open>simp add: pruned_refl\<close>)
qed (simp add: pruned_refl)

lemma tree_up:
  assumes "tree_ok X s" "suffix p q" "nodes s q \<noteq> None"
  shows "nodes s p \<noteq> None"
  using assms(2,3)
proof (induction q)
  case (Cons b q)
  then show ?case using tree_okD(3) [OF assms(1), of b q] by (cases "p = b # q") (auto simp: suffix_Cons)
qed simp

lemma suffix_one_child: "suffix (b # p) r \<Longrightarrow> suffix (c # p) r \<Longrightarrow> b = c"
  using suffix_length_suffix [of "b # p" r "c # p"] by (auto simp: suffix_Cons dest: suffix_length_le)

lemma suffix_below: "suffix p q \<Longrightarrow> q = p \<or> suffix (True # p) q \<or> suffix (False # p) q"
proof (induction q)
  case (Cons a q)
  then show ?case by (cases a) (auto simp: suffix_Cons)
qed simp

lemma free_desc_rec_all:
  assumes "free_desc_rec k p s = Inr t" "\<And>b q. suffix p q \<Longrightarrow> nodes s (b # q) \<noteq> None \<Longrightarrow> nodes s q \<noteq> None"
    and "\<And>q. nodes s q \<noteq> None \<Longrightarrow> length q \<le> MAX_CLASS" "MAX_CLASS < length p + k" "suffix p q"
  shows "nodes t q = None"
  using assms
proof (induction k p s arbitrary: t q rule: free_desc_rec.induct)
  case (1 p s)
  have "length p \<le> length q" using "1.prems"(5) by (rule suffix_length_le)
  then show ?case using "1.prems"(1,4) "1.prems"(3) [of q] by force
next
  case (2 k p s)
  show ?case
  proof (cases "nodes s p")
    case None
    have "nodes s r = None" if "suffix p r" for r
      using that
    proof (induction r)
      case (Cons a r)
      then show ?case using "2.prems"(2) [of r a] None suffix_Cons [of p a r] by metis
    qed (use None in simp)
    then show ?thesis using "2.prems"(1,5) None by simp
  next
    case (Some n)
    then obtain u where u: "refc n = 0" "free_desc_rec k (True # p) s = Inr u" "free_desc_rec k (False # p) (free_descriptor p u) = Inr t"
      using "2.prems"(1) by (auto simp: bind_res_Inr_iff assert_res_def split: if_splits)
    note pr = prunedD [OF free_desc_rec_ok [OF u(2)]] and pt = prunedD [OF free_desc_rec_ok [OF u(3)]]
    have sub: "nodes u r \<noteq> None \<Longrightarrow> nodes s r \<noteq> None" for r using pr(1) [of r] by auto
    have keep: "nodes t r = None" if "nodes u r = None" for r using pt(1) [of r] that by (auto split: if_splits)
    have left: "nodes (free_descriptor p u) r = nodes s r" if "suffix (False # p) r" for r
    proof -
      have "\<not> suffix (True # p) r" using suffix_one_child [OF that, of True] by auto
      moreover have "r \<noteq> p" using that by auto
      ultimately show ?thesis using pr(2) by simp
    qed
    consider "q = p" | "suffix (True # p) q" | "suffix (False # p) q" using suffix_below [OF "2.prems"(5)] by blast
    then show ?thesis
    proof cases
      case 1
      then show ?thesis using pt(1) [of p] by auto
    next
      case 2
      have "nodes u q = None"
      proof (rule "2.IH"(1) [OF Some _ u(2) _ _ _ 2])
        show "nodes s r \<noteq> None" if "suffix (True # p) r" "nodes s (b # r) \<noteq> None" for b r
          using "2.prems"(2) [of r b] that suffix_ConsD [OF that(1)] by blast
      qed (use u(1) "2.prems"(3,4) in \<open>auto simp: assert_res_def\<close>)
      then show ?thesis by (rule keep)
    next
      case 3
      show ?thesis
      proof (rule "2.IH"(2) [OF Some _ u(2,3) _ _ _ 3])
        show "nodes (free_descriptor p u) r \<noteq> None" if "suffix (False # p) r" "nodes (free_descriptor p u) (b # r) \<noteq> None" for b r
          using left [OF that(1)] left [of "b # r"] that "2.prems"(2) [of r b] suffix_ConsI [OF that(1)] by (metis suffix_ConsD)
        show "length r \<le> MAX_CLASS" if "nodes (free_descriptor p u) r \<noteq> None" for r
          using that "2.prems"(3) sub by (auto split: if_splits)
      qed (use u(1) "2.prems"(4) in \<open>auto simp: assert_res_def\<close>)
    qed
  qed
qed

lemma frees_below:
  assumes "free_desc_rec (page_class p) (False # p) s = Inr u" "free_desc_rec (page_class p) (True # p) u = Inr v"
    and "tree_ok {} s" "nodes s p \<noteq> None"
  shows "pruned p s v" "nodes v p = nodes s p" "suffix p q \<Longrightarrow> q \<noteq> p \<Longrightarrow> nodes v q = None"
proof -
  note t = tree_okD [OF assms(3)]
  note a = free_desc_rec_ok [OF assms(1)] and b = free_desc_rec_ok [OF assms(2)]
  show "pruned p s v" by (rule pruned_trans [OF pruned_up [OF a] pruned_up [OF b]])
  show "nodes v p = nodes s p" using prunedD(2) [OF a, of p] prunedD(2) [OF b, of p] by simp
  have len: "length p \<le> MAX_CLASS" using t(1) assms(4) by blast
  have k: "MAX_CLASS < length (c # p) + page_class p" for c using len by (simp add: page_class_def)
  have sub: "nodes u r \<noteq> None \<Longrightarrow> nodes s r \<noteq> None" for r using prunedD(1) [OF a, of r] by auto
  have left: "nodes u r = None" if "suffix (False # p) r" for r by (rule free_desc_rec_all [OF assms(1) t(3) t(1) k that])
  have right: "nodes v r = None" if "suffix (True # p) r" for r
  proof (rule free_desc_rec_all [OF assms(2) _ _ k that])
    show "nodes u q \<noteq> None" if q: "suffix (True # p) q" "nodes u (c # q) \<noteq> None" for c q
    proof -
      have "\<not> suffix (False # p) q" using suffix_one_child [OF q(1), of False] by auto
      then show ?thesis using t(3) [OF sub [OF q(2)]] prunedD(2) [OF a, of q] by simp
    qed
    show "length q \<le> MAX_CLASS" if "nodes u q \<noteq> None" for q using t(1) sub [OF that] by blast
  qed
  have keep: "nodes v r = None" if "nodes u r = None" for r using prunedD(1) [OF b, of r] that by auto
  show "nodes v q = None" if "suffix p q" "q \<noteq> p"
    using suffix_below [OF that(1)] that(2) left right keep by blast
qed

text \<open>Attaching at \<open>p\<close>: everything below \<open>p\<close> disappears and \<open>p\<close> becomes a page of the kind attached.\<close>

lemma attach_page_ok:
  assumes "tree_ok {} s" "lists_ok {} (insert p {}) s" "nodes s p = Some n" "path_typed type p s" "type \<noteq> PARTIAL_NODE" "p \<noteq> []" "attach_page type p s = Inr t"
  shows "phys_ok t"
proof -
  note tr = tree_okD [OF assms(1)]
  define st where "st = (if pstate n \<noteq> RESERVED_NODE then type else pstate n)"
  obtain u v where uv: "free_desc_rec (page_class p) (False # p) s = Inr u" "free_desc_rec (page_class p) (True # p) u = Inr v" "refc n = 0"
    and t: "t = (if st = ALLOCATABLE_NODE then list_append (page_class p) p (set_node p (Some (n\<lparr>pstate := st\<rparr>)) (list_del p v))
                 else set_node p (Some (n\<lparr>pstate := st\<rparr>)) (list_del p v))"
    using assms(3,7) by (auto simp: attach_page_def st_def bind_res_Inr_iff assert_res_def Let_def split: if_splits)
  have some: "nodes s p \<noteq> None" using assms(3) by simp
  note f = frees_below [OF uv(1,2) assms(1) some]
  note pr = prunedD [OF f(1)]
  have nt: "nodes t = (nodes v)(p := Some (n\<lparr>pstate := st\<rparr>))" by (simp add: t)
  have at: "nodes t q = (if q = p then Some (n\<lparr>pstate := st\<rparr>) else if suffix p q then None else nodes s q)" for q
    using f(3) [of q] pr(2) [of q] by (simp add: nt)
  obtain r where r: "nodes s [] = Some r" "pstate r \<noteq> ALLOCATABLE_NODE" using tr(2) by blast
  have pair: "\<not> suffix p q" "nodes t q = nodes s q" "nodes s (b # q) \<noteq> None" if "nodes t (b # q) \<noteq> None" for b q
  proof -
    show n: "\<not> suffix p q"
    proof
      assume "suffix p q"
      then have "suffix p (b # q)" "b # q \<noteq> p" using suffix_Cons_other [of p q b] by (auto simp: suffix_ConsI)
      then show False using that at [of "b # q"] by simp
    qed
    then show "nodes t q = nodes s q" using at [of q] by auto
    show "nodes s (b # q) \<noteq> None" using that at [of "b # q"] some by (auto split: if_splits)
  qed
  have tree: "tree_ok {} t"
  proof (rule tree_okI)
    show "nodes t [] = Some r" "pstate r \<noteq> ALLOCATABLE_NODE" using r at [of "[]"] assms(6) by auto
    show "nodes t q \<noteq> None \<Longrightarrow> length q \<le> MAX_CLASS" for q using at [of q] tr(1) some by (auto split: if_splits)
    fix b q assume c: "nodes t (b # q) \<noteq> None"
    note p = pair [OF c]
    show "nodes t q \<noteq> None" using p(2) tr(3) [OF p(3)] by simp
    show "nodes t ((\<not> b) # q) \<noteq> None" using at [of "(\<not> b) # q"] tr(4) [OF p(3), of "\<not> b"] p(1) by (simp add: suffix_Cons)
  next
    fix b q k m assume c: "nodes t q = Some k" "nodes t (b # q) = Some m"
    note p = pair [of b q, unfolded c(2), OF option.discI [OF refl]]
    have q: "nodes s q = Some k" using p(2) c(1) by simp
    obtain m' where m': "nodes s (b # q) = Some m'" using p(3) by blast
    have m: "m = (if b # q = p then n\<lparr>pstate := st\<rparr> else m')" using c(2) at [of "b # q"] m' by (auto split: if_splits)
    have n: "b # q = p \<Longrightarrow> m' = n" using m' assms(3) by simp
    show "refc m \<noteq> 0" if "refc k \<noteq> 0" using tr(5) [OF q m' _ that] m n by (auto split: if_splits)
    show "pstate m = pstate k" if k: "pstate k \<noteq> PARTIAL_NODE"
    proof (cases "b # q = p")
      case True
      then have "tl p = q" by auto
      then have "pstate k = type" using assms(4,5,6) q k by (auto simp: path_typed_def)
      then show ?thesis using tr(6) [OF q m' k] m n True by (simp add: st_def)
    qed (use tr(6) [OF q m' k] m in simp)
  qed
  have kids: "nodes t (b # p) = None" for b using at [of "b # p"] by (simp add: suffix_ConsI)
  have leaf: "free_leaf t q \<longleftrightarrow> (if q = p then st = ALLOCATABLE_NODE else \<not> suffix p q \<and> free_leaf s q)" for q
  proof (cases "q = p")
    case True
    then show ?thesis using kids uv(3) by (cases n) (auto simp: free_leaf_def nt)
  next
    case False
    have "nodes t (b # q) = None \<longleftrightarrow> nodes s (b # q) = None" if "\<not> suffix p q" for b
      using at [of "b # q"] that assms(3) by (auto simp: suffix_Cons)
    then show ?thesis using False at [of q] by (auto simp: free_leaf_def)
  qed
  have listed: "q \<in> listed t \<longleftrightarrow> (if q = p then st = ALLOCATABLE_NODE else q \<in> listed v)" for q by (auto simp: t)
  have "q \<in> listed v \<longleftrightarrow> \<not> suffix p q \<and> q \<in> listed s" if "q \<noteq> p" for q
  proof (cases "suffix p q")
    case True
    have "q \<notin> listed v"
    proof
      assume q: "q \<in> listed v"
      then have "q \<in> listed s" "nodes s q = None" using pr(1) [of q] f(3) [OF True that] by auto
      then show False using lists_okD(1) [OF assms(2), of q] by (simp add: free_leaf_def)
    qed
    then show ?thesis using True by simp
  qed (use pr(1) [of q] in blast)
  then have same: "q \<in> listed t \<longleftrightarrow> free_leaf t q" for q
    using listed leaf lists_okD [OF assms(2), of q] by auto
  have "lists_shape v" using assms(2) pr(3) by (simp add: lists_ok_iff)
  then have "lists_shape t"
    using shape_ops(1) [of v p] shape_ops(3) [of "list_del p v" p] shape_ops(4) [of "set_node p (Some (n\<lparr>pstate := st\<rparr>)) (list_del p v)" p] unfolding t
    by (cases "st = ALLOCATABLE_NODE") simp_all
  then show ?thesis using tree same by (simp add: phys_ok_def lists_ok_iff)
qed

lemma phys_okI: "tree_ok {} s \<Longrightarrow> lists_ok {} {} s \<Longrightarrow> phys_ok s"
  by (simp add: phys_ok_def)

lemma phys_okD: "phys_ok s \<Longrightarrow> tree_ok {} s" "phys_ok s \<Longrightarrow> lists_ok {} {} s"
  by (simp_all add: phys_ok_def)

lemma page_lookup_attach:
  assumes "phys_ok s" "page_lookup [] addr class type s = Inr (p, t)" "type \<noteq> PARTIAL_NODE" "class < MAX_CLASS"
  shows "phys_ok t"
proof -
  obtain u where u: "lookup_alloc ensure_free_desc type addr (page_class [] - class) [] s = Inr (p, u)" "attach_page type p u = Inr t"
    using assms(2,3) by (auto simp: page_lookup_def page_lookup_alloc_def bind_res_Inr_iff)
  have root: "nodes s [] \<noteq> None" using tree_okD(2) [OF phys_okD(1) [OF assms(1)]] by auto
  have "tree_ok {} u \<and> lists_ok {} (insert p ({} - {[]})) u \<and> nodes u p \<noteq> None \<and> path_typed type p u \<and> suffix [] p \<and>
      length p = length ([] :: path) + (page_class [] - class)"
    by (rule pool.lookup_typed [OF phys_okD [OF assms(1)] root _ _ u(1)]) (simp_all add: path_typed_def)
  then obtain n where n: "tree_ok {} u" "lists_ok {} (insert p {}) u" "nodes u p = Some n" "path_typed type p u" "p \<noteq> []"
    using assms(4) by (cases p) (auto simp: page_class_def)
  show ?thesis by (rule attach_page_ok [OF n(1-4) assms(3) n(5) u(2)])
qed

lemma grow_class_fits: "2 ^ (c - 1) \<le> room \<Longrightarrow> 2 ^ (grow_class iter room c - 1) \<le> room"
  by (induction iter room c rule: grow_class.induct) (subst grow_class.simps, simp)

lemma attach_region_ok:
  assumes "phys_ok s" "attach_region type fin c iter s = Inr t" "type \<noteq> PARTIAL_NODE" "fin < 2 ^ MAX_CLASS" "c \<le> 1"
  shows "phys_ok t"
  using assms
proof (induction type fin c iter s rule: attach_region.induct)
  case (1 type fin c iter s)
  show ?case
  proof (cases "iter < fin")
    case True
    let ?c = "grow_class iter (fin - iter) c"
    show ?thesis
    proof (cases "?c = 0")
      case False
      then obtain p u where u: "page_lookup [] iter (?c - 1) type s = Inr (p, u)" "attach_region type fin 1 (iter + 2 ^ (?c - 1)) u = Inr t"
        using True "1.prems"(2) by (subst (asm) attach_region.simps) (auto simp: Let_def bind_res_Inr_iff)
      have "2 ^ (c - 1) \<le> fin - iter" using True "1.prems"(5) by simp
      then have "(2::nat) ^ (?c - 1) < 2 ^ MAX_CLASS" using grow_class_fits [of c "fin - iter" iter] "1.prems"(4) by linarith
      then have "?c - 1 < MAX_CLASS" by simp
      then have "phys_ok u" by (rule page_lookup_attach [OF "1.prems"(1) u(1) "1.prems"(3)])
      then show ?thesis using "1.IH" [OF True refl False u(1) refl _ u(2) "1.prems"(3,4)] by simp
    qed (use True "1.prems"(1,2) in \<open>subst (asm) attach_region.simps, simp add: Let_def\<close>)
  qed (use "1.prems"(1,2) in \<open>subst (asm) attach_region.simps, simp\<close>)
qed

lemma init_allocator_ok: "phys_ok (init_allocator kend)"
  by (auto simp: phys_ok_def tree_ok_def lists_ok_def init_allocator_def free_leaf_def listed_def)

section \<open>Addresses\<close>

lemma page_addr_aligned: "length p \<le> MAX_CLASS \<Longrightarrow> 2 ^ page_class p dvd page_addr p"
proof (induction p)
  case (Cons b p)
  then have c: "page_class p = Suc (page_class (b # p))" using class_child [of p b] by simp
  have "2 ^ Suc (page_class (b # p)) dvd page_addr p" using Cons unfolding c by simp
  then have "2 ^ page_class (b # p) dvd page_addr p" by (rule power_le_dvd) simp
  then show ?case by simp
qed simp

text \<open>The turn taken at a page leads to the half that holds the address.\<close>

lemma frames_turn:
  assumes "addr \<in> frames p" "length p < MAX_CLASS"
  shows "addr \<in> frames (bit addr (page_class p - 1) # p)"
proof -
  obtain k where k: "page_class p = Suc k" "\<And>b. page_class (b # p) = k" using class_child [OF assms(2)] by (metis Suc_inject)
  obtain m where m: "page_addr p = 2 ^ Suc k * m" using page_addr_aligned [of p] assms(2) k(1) by (auto elim: dvdE)
  define r where "r = addr - page_addr p"
  have a: "addr = 2 ^ Suc k * m + r" "r < 2 ^ Suc k" using assms(1) m k(1) by (auto simp: frames_def r_def)
  have "addr = 2 ^ k * (2 * m) + r" using a(1) by simp
  then have "addr div 2 ^ k = 2 * m + r div 2 ^ k" by (simp only: div_mult_self4) simp
  then have b: "bit addr k \<longleftrightarrow> odd (r div 2 ^ k)" by (simp add: bit_iff_odd)
  have "r div 2 ^ k < 2" using a(2) by (simp add: less_mult_imp_div_less mult.commute)
  then have "r div 2 ^ k = 0 \<or> r div 2 ^ k = 1" by auto
  then have "bit addr k \<longleftrightarrow> 2 ^ k \<le> r" using b by (metis div_greater_zero_iff even_zero odd_one zero_less_numeral zero_less_power zero_less_one less_irrefl)
  then show ?thesis using a m k by (auto simp: frames_def)
qed

lemma lookup_alloc_holds:
  assumes "lookup_alloc ens type addr k p s = Inr (q, t)" "addr \<in> frames p" "k \<le> page_class p"
  shows "addr \<in> frames q"
  using assms
proof (induction k arbitrary: p s)
  case (Suc k)
  let ?r = "bit addr (page_class p - 1)"
  have len: "length p < MAX_CLASS" using Suc.prems(3) by (simp add: page_class_def)
  obtain u where "lookup_alloc ens type addr k (?r # p) u = Inr (q, t)" using Suc.prems(1) by (auto simp: Let_def bind_res_Inr_iff)
  then show ?case using Suc.IH frames_turn [OF Suc.prems(2) len] Suc.prems(3) class_child [OF len, of ?r] by simp
qed simp

lemma aligned_start:
  assumes "addr \<in> frames p" "2 ^ page_class p dvd addr" "length p \<le> MAX_CLASS"
  shows "page_addr p = addr"
proof -
  obtain m where m: "page_addr p = 2 ^ page_class p * m" using page_addr_aligned [OF assms(3)] by (elim dvdE)
  obtain l where l: "addr = 2 ^ page_class p * l" using assms(2) by (elim dvdE)
  have "m \<le> l" "l < m + 1"
    using assms(1) unfolding frames_def m l by (simp, metis atLeastLessThan_iff mult_Suc_right add.commute nat_mult_less_cancel_disj Suc_eq_plus1)
  then show ?thesis using m l by simp
qed

text \<open>A machine with one region of \<open>2 ^ 47\<close> frames.\<close>

definition example_phys :: phys where
  "example_phys = \<lparr>nodes = [[] \<mapsto> \<lparr>pstate = PARTIAL_NODE, refc = 0\<rparr>, [False] \<mapsto> \<lparr>pstate = ALLOCATABLE_NODE, refc = 0\<rparr>,
     [True] \<mapsto> \<lparr>pstate = PARTIAL_NODE, refc = 0\<rparr>], free_classes = (\<lambda>c. [])(47 := [[False]]), vlist = (\<lambda>p. 0),
     free_desc_count = 254, pools = [], in_kspace = False, kern_end = 0\<rparr>"

lemma grow_class_power: "c \<le> Suc k \<Longrightarrow> grow_class 0 (2 ^ k) c = Suc k"
proof (induction "Suc k - c" arbitrary: c)
  case 0
  then show ?case by (subst grow_class.simps) simp
next
  case (Suc d)
  then show ?case by (subst grow_class.simps) simp
qed

lemma free_desc_rec_none: "nodes s p = None \<Longrightarrow> free_desc_rec k p s = Inr s"
  by (cases k) simp_all

lemma lookup_alloc_one: "lookup_alloc ens type addr 1 p s =
    bind_res (descend ens type 1 (bit addr (page_class p - 1)) p s) (\<lambda>t. Inr (bit addr (page_class p - 1) # p, t))"
  by (cases "descend ens type 1 (bit addr (page_class p - 1)) p s") (simp_all add: Let_def)

lemmas phys_eval = page_class_def MAX_CLASS_def page_lookup_def page_lookup_alloc_def lookup_alloc_one descend_def alloc_missing_def alloc_child_def
  alloc_descriptor_def ensure_free_desc_def set_node_def list_del_def list_append_def mark_partial_def PAGE_IS_FREE_def attach_page_def free_desc_rec_none Let_def

lemma attach_example: "attach_region ALLOCATABLE_NODE (2 ^ 47) 0 0 (init_allocator 0) = Inr example_phys"
proof -
  have g: "grow_class 0 (2 ^ 47 - 0) 0 = 48" using grow_class_power [of 0 47] by simp
  have l: "page_lookup [] 0 47 ALLOCATABLE_NODE (init_allocator 0) = Inr ([False], example_phys)"
    by (simp add: phys_eval init_allocator_def INIT_DESCR_def example_phys_def fun_upd_twist)
  show ?thesis
    by (subst attach_region.simps) (simp add: g [simplified] l [simplified], subst attach_region.simps, simp)
qed

section \<open>Correctness\<close>

lemma refs_down:
  assumes "tree_ok {} s" "suffix q p" "nodes s q = Some n" "refc n \<noteq> 0" "nodes s p = Some m"
  shows "refc m \<noteq> 0"
  using assms(2,5)
proof (induction p arbitrary: m)
  case (Cons b p)
  show ?case
  proof (cases "q = b # p")
    case False
    then have "suffix q p" using Cons.prems(1) by (simp add: suffix_Cons)
    moreover obtain k where k: "nodes s p = Some k" using tree_okD(3) [OF assms(1), of b p] Cons.prems(2) by auto
    ultimately show ?thesis using Cons.IH tree_okD(5) [OF assms(1) k Cons.prems(2)] by simp
  qed (use Cons.prems assms(3,4) in simp)
qed (use assms(3,4) in simp)

lemma free_disjoint:
  assumes "tree_ok {} s" "free_leaf s p" "nodes s q = Some n" "refc n \<noteq> 0"
  shows "frames p \<inter> frames q = {}"
proof (rule ccontr)
  assume "frames p \<inter> frames q \<noteq> {}"
  moreover have "length p \<le> MAX_CLASS" "length q \<le> MAX_CLASS" using tree_okD(1) [OF assms(1)] assms(2,3) by (simp_all add: free_leaf_def)
  ultimately consider "suffix p q" | "suffix q p" using frames_overlap by blast
  then show False
  proof cases
    case 1
    then have "q = p" using leaf_subtree [OF assms(1) _ 1] assms(2,3) by (simp add: free_leaf_def)
    then show ?thesis using assms by (auto simp: free_leaf_def)
  next
    case 2
    then show ?thesis using refs_down [OF assms(1) 2 assms(3,4)] assms(2) by (simp add: free_leaf_def)
  qed
qed

lemma leaves_disjoint:
  assumes "tree_ok {} s" "free_leaf s p" "free_leaf s q" "p \<noteq> q"
  shows "frames p \<inter> frames q = {}"
proof (rule ccontr)
  assume "frames p \<inter> frames q \<noteq> {}"
  moreover have "length p \<le> MAX_CLASS" "length q \<le> MAX_CLASS" using tree_okD(1) [OF assms(1)] assms(2,3) by (simp_all add: free_leaf_def)
  ultimately have "suffix p q \<or> suffix q p" using frames_overlap by blast
  then show False using leaf_subtree [OF assms(1)] assms(2-4) by (auto simp: free_leaf_def)
qed

lemma page_ref_held:
  assumes "tree_ok {} s" "lists_ok {} (insert p Y) s" "nodes s p = Some n"
  shows "tree_ok {} (page_ref p s)" "lists_ok {} Y (page_ref p s)" "nodes (page_ref p s) p = Some (n\<lparr>refc := Suc (refc n)\<rparr>)"
    "\<not> suffix p q \<Longrightarrow> nodes (page_ref p s) q = nodes s q"
proof -
  have r: "referenced p s (page_ref p s) \<and> tree_ok {} (page_ref p s) \<and> lists_ok {} (insert p Y) (page_ref p s) \<and>
      (\<forall>n. nodes s p = Some n \<longrightarrow> nodes (page_ref p s) p = Some (n\<lparr>refc := Suc (refc n)\<rparr>))"
    unfolding page_ref_def by (rule page_ref_at_ok [OF assms(1,2)]) simp_all
  then show "tree_ok {} (page_ref p s)" "nodes (page_ref p s) p = Some (n\<lparr>refc := Suc (refc n)\<rparr>)" using assms(3) by simp_all
  have "\<not> free_leaf (page_ref p s) p" using r assms(3) by (cases n) (auto simp: free_leaf_def)
  then show "lists_ok {} Y (page_ref p s)" using r lists_ok_held by blast
  show "\<not> suffix p q \<Longrightarrow> nodes (page_ref p s) q = nodes s q" using r referencedD(1) by blast
qed

lemma alloc_page_ok:
  assumes "phys_ok s" "alloc_page class bootmem s = Inr (Some p, t)"
  shows "tree_ok {} t" "lists_ok {} {p} t" "free_leaf t p" "extends (listed s) s t" "length p = MAX_CLASS - class" "class \<le> MAX_CLASS" "usable t p"
    "bootmem_flag bootmem s \<Longrightarrow> page_addr p + 2 ^ class < BOOT_MEM_FRAMES"
proof -
  obtain peer where p: "find_page class (bootmem_flag bootmem s) s = Some peer" "usable t p"
      "page_lookup_alloc ensure_free_desc peer (page_addr peer) class PARTIAL_NODE (list_del peer s) = Inr (p, t)"
    using assms(2) by (auto simp: alloc_page_def page_lookup_def bind_res_Inr_iff assert_res_def split: option.splits if_splits)
  note ok = phys_okD [OF assms(1)]
  note f = find_page_listed [OF ok(2) p(1)]
  note l = pool.take_lookup [OF ok f(1,2) p(3)]
  show "tree_ok {} t" "lists_ok {} {p} t" "free_leaf t p" "extends (listed s) s t" "usable t p" using l p(2) by simp_all
  have "page_class peer = MAX_CLASS - length peer" by (simp add: page_class_def)
  moreover have "length peer \<le> MAX_CLASS" using tree_okD(1) [OF ok(1), of peer] lists_okD(1) [OF ok(2) f(1)] by (simp add: free_leaf_def)
  ultimately show len: "length p = MAX_CLASS - class" "class \<le> MAX_CLASS" using l(7) f(2,3) by simp_all
  have al: "page_addr peer mod 2 ^ class = 0" "lookup_alloc ensure_free_desc PARTIAL_NODE (page_addr peer) (page_class peer - class) peer (list_del peer s) = Inr (p, t)"
    using p(3) by (auto simp: page_lookup_alloc_def bind_res_Inr_iff)
  have "page_addr peer \<in> frames p" by (rule lookup_alloc_holds [OF al(2)]) (simp_all add: frames_def)
  then have at: "page_addr p = page_addr peer" using al(1) len by (intro aligned_start) (auto simp: page_class_def)
  show "page_addr p + 2 ^ class < BOOT_MEM_FRAMES" if "bootmem_flag bootmem s"
    using p(1) that at unfolding find_page_def find_Some_iff by auto
qed

lemma not_listed: "phys_ok s \<Longrightarrow> nodes s q = Some n \<Longrightarrow> refc n \<noteq> 0 \<Longrightarrow> q \<notin> listed s"
  using lists_okD(1) [OF phys_okD(2), of s q] by (auto simp: free_leaf_def)

lemma alloc_page_keeps:
  assumes "phys_ok s" "alloc_page class bootmem s = Inr (Some p, t)" "nodes s q = Some n" "refc n \<noteq> 0"
  shows "nodes t q = Some n" "frames p \<inter> frames q = {}"
proof -
  note a = alloc_page_ok [OF assms(1,2)]
  show n: "nodes t q = Some n" using extendsD(1) [OF a(4) assms(3)] not_listed [OF assms(1,3,4)] by blast
  show "frames p \<inter> frames q = {}" by (rule free_disjoint [OF a(1,3) n assms(4)])
qed

lemma alloc_page_fresh:
  assumes "phys_ok s" "alloc_page class bootmem s = Inr (Some p, t)"
  shows "page_class p = class" "phys_ok (page_ref p t)" "nodes (page_ref p t) p = Some \<lparr>pstate = ALLOCATABLE_NODE, refc = 1\<rparr>"
    "nodes s q = Some m \<Longrightarrow> refc m \<noteq> 0 \<Longrightarrow> nodes (page_ref p t) q = Some m" "nodes s q = Some m \<Longrightarrow> refc m \<noteq> 0 \<Longrightarrow> frames p \<inter> frames q = {}"
proof -
  note a = alloc_page_ok [OF assms]
  have n: "nodes t p = Some \<lparr>pstate = ALLOCATABLE_NODE, refc = 0\<rparr>" using a(3) by (simp add: free_leaf_def)
  note r = page_ref_held [OF a(1,2) n]
  show "nodes (page_ref p t) q = Some m" "frames p \<inter> frames q = {}" if q: "nodes s q = Some m" "refc m \<noteq> 0" for q m
  proof -
    note k = alloc_page_keeps [OF assms q]
    have "\<not> suffix p q"
    proof
      assume "suffix p q"
      then have "q = p" using leaf_subtree [OF a(1), of p q] a(3) k(1) by (simp add: free_leaf_def)
      then show False using k(1) n q(2) by auto
    qed
    then show "nodes (page_ref p t) q = Some m" "frames p \<inter> frames q = {}" using k r(4) by simp_all
  qed
  show "page_class p = class" using a(5,6) by (simp add: page_class_def)
  show "phys_ok (page_ref p t)" "nodes (page_ref p t) p = Some \<lparr>pstate = ALLOCATABLE_NODE, refc = 1\<rparr>" using r(1-3) by (simp_all add: phys_ok_def)
qed

text \<open>
  C13: \<^verbatim>\<open>alloc_page\<close> gives out a page of the class asked for, outside the kernel image and, when the boot code asks for it, below the boot memory limit, that shares no
  frame with any page in use; the pages in use keep their counts, and once the caller has referenced the page the allocator is in order again.
\<close>

theorem alloc_page_exclusive:
  assumes "phys_ok s" "alloc_page class bootmem s = Inr (Some p, t)"
  shows "page_class p = class \<and> usable t p \<and> (bootmem \<and> \<not> in_kspace s \<longrightarrow> page_addr p + 2 ^ class < BOOT_MEM_FRAMES) \<and>
    phys_ok (page_ref p t) \<and> nodes (page_ref p t) p = Some \<lparr>pstate = ALLOCATABLE_NODE, refc = 1\<rparr> \<and>
    (\<forall>q n. nodes s q = Some n \<and> refc n \<noteq> 0 \<longrightarrow> nodes (page_ref p t) q = Some n \<and> frames p \<inter> frames q = {})"
  using alloc_page_fresh [OF assms] alloc_page_ok(7,8) [OF assms] by (simp add: bootmem_flag_def)

text \<open>
  It fails only when there is no free page of that class or above, except for those too high in memory when low memory is
  asked for during boot; then nothing is changed.
\<close>

theorem alloc_page_none:
  assumes "phys_ok s" "alloc_page class bootmem s = Inr (None, t)" "free_leaf s p" "class \<le> page_class p"
  shows "t = s \<and> bootmem \<and> \<not> in_kspace s \<and> BOOT_MEM_FRAMES \<le> page_addr p + 2 ^ class"
proof -
  have none: "find_page class (bootmem_flag bootmem s) s = None" "t = s"
    using assms(2) by (auto simp: alloc_page_def bind_res_Inr_iff assert_res_def split: option.splits)
  have "p \<noteq> []" using tree_okD(2) [OF phys_okD(1) [OF assms(1)]] assms(3) by (auto simp: free_leaf_def)
  then have "page_class p < MAX_CLASS" by (cases p) (simp_all add: page_class_def MAX_CLASS_def)
  moreover have "p \<in> set (free_classes s (page_class p))" using lists_okD(2) [OF phys_okD(2) [OF assms(1)] assms(3)] by (simp add: listed_def)
  ultimately have "p \<in> set (concat (map (free_classes s) [class..<MAX_CLASS]))" using assms(4) by auto
  then have "\<not> (\<not> bootmem_flag bootmem s \<or> page_addr p + 2 ^ class < BOOT_MEM_FRAMES)"
    using none(1) unfolding find_page_def find_None_iff by blast
  then show ?thesis using none(2) by (auto simp: bootmem_flag_def)
qed

text \<open>
  The life of the allocator: the boot code attaches the regions of the memory map, of which the largest physical address has less than 60 bits;
  afterwards pages are allocated and referenced at once (\<^verbatim>\<open>alloc_pt\<close>, \<^verbatim>\<open>map_page\<close>), looked up by address and referenced, referenced again and
  released. A page that is released has a reference of its own, beside the one a referenced parent gives it.
\<close>

inductive phys_reach :: "phys \<Rightarrow> bool" where
  boot: "phys_reach (init_allocator kend)"
| attach: "phys_reach s \<Longrightarrow> type \<noteq> PARTIAL_NODE \<Longrightarrow> fin < 2 ^ MAX_CLASS \<Longrightarrow> attach_region type fin 0 start s = Inr t \<Longrightarrow> phys_reach t"
| enter: "phys_reach s \<Longrightarrow> phys_reach (s\<lparr>in_kspace := True\<rparr>)"
| alloc: "phys_reach s \<Longrightarrow> alloc_page class bootmem s = Inr (Some p, t) \<Longrightarrow> phys_reach (page_ref p t)"
| lookup: "phys_reach s \<Longrightarrow> page_lookup [] addr class PARTIAL_NODE s = Inr (p, t) \<Longrightarrow> phys_reach (page_ref p t)"
| ref: "phys_reach s \<Longrightarrow> nodes s p \<noteq> None \<Longrightarrow> phys_reach (page_ref p s)"
| unref: "phys_reach s \<Longrightarrow> nodes s p = Some n \<Longrightarrow> p = [] \<or> 2 \<le> refc n \<or> (\<exists>m. nodes s (tl p) = Some m \<and> refc m = 0) \<Longrightarrow>
    page_unref p s = Inr t \<Longrightarrow> phys_reach t"

lemma page_ref_ok:
  assumes "phys_ok s" "nodes s p \<noteq> None"
  shows "phys_ok (page_ref p s)"
proof -
  obtain n where n: "nodes s p = Some n" using assms(2) by auto
  have "lists_ok {} (insert p {}) s" by (rule lists_ok_mono [OF phys_okD(2) [OF assms(1)]]) auto
  from page_ref_held(1,2) [OF phys_okD(1) [OF assms(1)] this n] show ?thesis by (rule phys_okI)
qed

lemma page_lookup_ok:
  assumes "phys_ok s" "page_lookup [] addr class PARTIAL_NODE s = Inr (p, t)"
  shows "phys_ok (page_ref p t)"
proof -
  have l: "lookup_alloc ensure_free_desc PARTIAL_NODE addr (page_class [] - class) [] s = Inr (p, t)"
    using assms(2) by (auto simp: page_lookup_def page_lookup_alloc_def bind_res_Inr_iff)
  have root: "nodes s [] \<noteq> None" using tree_okD(2) [OF phys_okD(1) [OF assms(1)]] by auto
  have r: "tree_ok {} t \<and> lists_ok {} (insert p ({} - {[]})) t \<and> nodes t p \<noteq> None"
    using pool.lookup_ok [OF phys_okD [OF assms(1)] root _ l] by simp
  then obtain n where "nodes t p = Some n" by auto
  then show ?thesis using r page_ref_held(1,2) [of t p "{}" n] by (simp add: phys_okI)
qed

text \<open>A page looked up by address starts there and has the class asked for.\<close>

lemma page_lookup_at:
  assumes "phys_ok s" "page_lookup [] addr class PARTIAL_NODE s = Inr (p, t)" "addr < 2 ^ MAX_CLASS" "class \<le> MAX_CLASS"
  shows "page_class p = class" "page_addr p = addr"
proof -
  have l: "lookup_alloc ensure_free_desc PARTIAL_NODE addr (MAX_CLASS - class) [] s = Inr (p, t)" "addr mod 2 ^ class = 0"
    using assms(2) by (auto simp: page_lookup_def page_lookup_alloc_def page_class_def bind_res_Inr_iff)
  have root: "nodes s [] \<noteq> None" using tree_okD(2) [OF phys_okD(1) [OF assms(1)]] by auto
  have "length p = length ([] :: path) + (MAX_CLASS - class)"
    using pool.lookup_ok [OF phys_okD [OF assms(1)] root _ l(1)] by (simp add: page_class_def)
  then have len: "length p = MAX_CLASS - class" by simp
  then show c: "page_class p = class" using assms(4) by (simp add: page_class_def)
  have "addr \<in> frames p" by (rule lookup_alloc_holds [OF l(1)]) (use assms(3) in \<open>simp_all add: frames_def page_class_def\<close>)
  then show "page_addr p = addr" using l(2) c len by (intro aligned_start) auto
qed

text \<open>The lookup without allocation finds the existing page of that class, or nothing.\<close>

lemma lookup_walk_at:
  assumes "tree_ok X s" "lookup_walk addr k p s = r" "addr \<in> frames p" "k \<le> page_class p" "nodes s p \<noteq> None"
  shows "case r of Some q \<Rightarrow> addr \<in> frames q \<and> length q = length p + k \<and> nodes s q \<noteq> None
    | None \<Rightarrow> (\<forall>q. length q = length p + k \<and> addr \<in> frames q \<longrightarrow> nodes s q = None)"
  using assms(2-5)
proof (induction k arbitrary: p)
  case (Suc k)
  let ?c = "bit addr (page_class p - 1) # p"
  have len: "length p < MAX_CLASS" using Suc.prems(3) by (simp add: page_class_def)
  have c: "addr \<in> frames ?c" "k \<le> page_class ?c" using frames_turn [OF Suc.prems(2) len] Suc.prems(3) class_child [OF len, of "hd ?c"] by simp_all
  show ?case
  proof (cases "nodes s ?c = None")
    case True
    have "nodes s q = None" if q: "length q = length p + Suc k" "addr \<in> frames q" for q
    proof (rule ccontr)
      assume n: "nodes s q \<noteq> None"
      have "length q \<le> MAX_CLASS" using tree_okD(1) [OF assms(1) n] .
      then have "suffix ?c q \<or> suffix q ?c" using frames_overlap [of ?c q] c(1) q len by auto
      moreover have "q = ?c" if sq: "suffix q ?c"
      proof -
        obtain zs where zs: "?c = zs @ q" using sq unfolding suffix_def by blast
        then have "length ?c = length zs + length q" by (metis length_append)
        then show ?thesis using q(1) zs by simp
      qed
      ultimately have "suffix ?c q" by auto
      then show False using n True tree_up [OF assms(1), of ?c q] by blast
    qed
    then show ?thesis using True Suc.prems(1) by auto
  next
    case False
    have "lookup_walk addr k ?c s = r" using Suc.prems(1) False by (simp only: lookup_walk.simps Let_def if_False)
    from Suc.IH [OF this c False] show ?thesis by (cases r) simp_all
  qed
next
  case 0
  then show ?case by auto
qed

lemma page_unref_ok:
  assumes "phys_ok s" "nodes s p = Some n" "p = [] \<or> 2 \<le> refc n \<or> (\<exists>m. nodes s (tl p) = Some m \<and> refc m = 0)" "page_unref p s = Inr t"
  shows "phys_ok t" "\<exists>q. unreferenced p q s t"
proof -
  have "refc n \<noteq> 0" using assms(2,4) by (auto simp: page_unref_def assert_res_def split: if_splits)
  have r: "tree_ok {} t \<and> lists_ok {} {} t \<and> (\<exists>q. unreferenced p q s t)"
    by (rule unref_ok [OF phys_okD [OF assms(1)] assms(2) \<open>refc n \<noteq> 0\<close> _ _ assms(4) [unfolded page_unref_def]]) (use assms(3) in auto)
  then show "phys_ok t" "\<exists>q. unreferenced p q s t" by (auto simp: phys_ok_def)
qed

lemma phys_reach_ok: "phys_reach s \<Longrightarrow> phys_ok s"
proof (induction rule: phys_reach.induct)
  case (boot kend)
  then show ?case by (rule init_allocator_ok)
next
  case (attach s type fin start t)
  then show ?case using attach_region_ok [of s type fin 0 start t] by simp
next
  case (enter s)
  then show ?case by (simp add: phys_ok_def)
next
  case (alloc s c bootmem p t)
  note a = alloc_page_ok [OF alloc.IH alloc.hyps(2)]
  have "nodes t p = Some \<lparr>pstate = ALLOCATABLE_NODE, refc = 0\<rparr>" using a(3) by (simp add: free_leaf_def)
  then show ?case using page_ref_held(1,2) [OF a(1,2)] by (simp add: phys_okI)
next
  case (lookup s addr c p t)
  then show ?case by (simp add: page_lookup_ok)
next
  case (ref s p)
  then show ?case by (simp add: page_ref_ok)
next
  case (unref s p n t)
  then show ?case by (simp add: page_unref_ok(1))
qed

text \<open>
  C3: At every point of that life the free lists hold exactly the free pages, each list only pages of its class and each page once; a free page
  shares no frame with a page in use and no frame with another free page, and a page inside a page in use is in use.
\<close>

theorem phys_reach_safe:
  assumes "phys_reach s"
  shows "(\<forall>c p. p \<in> set (free_classes s c) \<longleftrightarrow> page_class p = c \<and> free_leaf s p) \<and> (\<forall>c. distinct (free_classes s c)) \<and>
    (\<forall>p q n. free_leaf s p \<and> nodes s q = Some n \<and> refc n \<noteq> 0 \<longrightarrow> frames p \<inter> frames q = {}) \<and>
    (\<forall>p q. free_leaf s p \<and> free_leaf s q \<and> p \<noteq> q \<longrightarrow> frames p \<inter> frames q = {}) \<and>
    (\<forall>p q n m. nodes s q = Some n \<and> refc n \<noteq> 0 \<and> nodes s p = Some m \<and> suffix q p \<longrightarrow> refc m \<noteq> 0)"
proof (intro conjI allI)
  note ok = phys_okD [OF phys_reach_ok [OF assms]]
  show "p \<in> set (free_classes s c) \<longleftrightarrow> page_class p = c \<and> free_leaf s p" for c p
    using lists_ok_shape(2) [OF ok(2), of p c] lists_okD [OF ok(2), of p] by (auto simp: listed_def)
  show "distinct (free_classes s c)" for c by (rule lists_ok_shape(1) [OF ok(2)])
qed (use phys_okD(1) [OF phys_reach_ok [OF assms]] free_disjoint leaves_disjoint refs_down in blast)+

lemma example_reach: "phys_reach example_phys"
  by (rule phys_reach.attach [OF phys_reach.boot _ _ attach_example]) (simp_all add: MAX_CLASS_def)

lemma example_free: "free_leaf example_phys [False]"
  by (simp add: free_leaf_def example_phys_def)

theorem phys_reach_safe_witness: "phys_reach example_phys \<and> [False] \<in> set (free_classes example_phys 47)"
  using example_reach phys_reach_safe [OF example_reach] example_free by (simp add: page_class_def MAX_CLASS_def)

theorem alloc_page_exclusive_witness:
  "\<exists>t. alloc_page 46 False example_phys = Inr (Some [False, False], t) \<and> phys_ok (page_ref [False, False] t)"
proof -
  obtain t where t: "alloc_page 46 False example_phys = Inr (Some [False, False], t)"
    by (simp add: phys_eval alloc_page_def find_page_def bootmem_flag_def usable_def example_phys_def IOPHYSMEM_FRAME_def upt_rec assert_res_def)
  show ?thesis using t alloc_page_exclusive [OF phys_reach_ok [OF example_reach] t] by blast
qed

theorem alloc_page_none_witness:
  "alloc_page 47 True example_phys = Inr (None, example_phys) \<and> \<not> in_kspace example_phys"
proof -
  have a: "alloc_page 47 True example_phys = Inr (None, example_phys)"
    by (simp add: alloc_page_def find_page_def bootmem_flag_def example_phys_def upt_rec MAX_CLASS_def page_class_def BOOT_MEM_FRAMES_def)
  show ?thesis using a alloc_page_none [OF phys_reach_ok [OF example_reach] a example_free] by (simp add: page_class_def MAX_CLASS_def)
qed


text \<open>Merging succeeds when no page above is mapped.\<close>

lemma merge_up_total:
  assumes "tree_ok {} s" "lists_ok {p} {p} s" "nodes s p \<noteq> None" "nodes s (False # p) = None" "nodes s (True # p) = None"
    and "\<And>a. suffix a p \<Longrightarrow> a \<noteq> p \<Longrightarrow> vlist s a = 0"
  shows "\<exists>q t. merge_up p s = Inr (q, t)"
  using assms
proof (induction p arbitrary: s)
  case (Cons b p)
  obtain n where n: "nodes s (b # p) = Some n" using Cons.prems(3) by auto
  obtain par where par: "nodes s p = Some par" using tree_okD(3) [OF Cons.prems(1), of b p] n by auto
  show ?case
  proof (cases "pstate par = pstate n \<and> PAGE_IS_FREE s (False # p) \<and> PAGE_IS_FREE s (True # p)")
    case True
    define u where "u = (if pstate par = ALLOCATABLE_NODE then list_append (page_class p) p (unsplit p s) else unsplit p s)"
    have gkids: "nodes s (c # d # p) = None" for c d using True by (cases c; cases d) (auto simp: PAGE_IS_FREE_def split: option.splits)
    have "\<not> free_leaf s p" using tree_okD(4) [OF Cons.prems(1,3), of False] by (auto simp: free_leaf_def)
    then have out: "p \<notin> listed (unsplit p s)" using lists_okD(1) [OF Cons.prems(2), of p] by auto
    have tree: "tree_ok {} u" using tree_ok_unsplit [OF Cons.prems(1) gkids] by (simp add: u_def)
    have lists: "lists_ok {p} {p} u"
      using lists_ok_unsplit [OF Cons.prems(2)] lists_ok_append [of p "{}"] out by (auto simp: u_def)
    have v: "vlist u a = 0" if "suffix a p" for a using Cons.prems(6) [of a] suffix_Cons_other [OF that, of b] by (auto simp: u_def)
    have "merge_up (b # p) s = merge_up p u"
      using par n True out Cons.prems(6) [of p] by (simp add: suffix_Cons u_def unsplit_def listed_def Let_def assert_res_def)
    moreover have "\<exists>q t. merge_up p u = Inr (q, t)" by (rule Cons.IH [OF tree lists _ _ _ v]) (auto simp: u_def par)
    ultimately show ?thesis by simp
  qed (use par n in auto)
qed simp

lemma merge_up_refs: "merge_up p s = Inr (q, t) \<Longrightarrow> nodes s r = Some n \<Longrightarrow> refc n \<noteq> 0 \<Longrightarrow> nodes t r = Some n"
proof (induction p arbitrary: s)
  case (Cons b p)
  obtain par page where np: "nodes s p = Some par" "nodes s (b # p) = Some page"
    using Cons.prems(1) by (auto split: option.splits)
  show ?case
  proof (cases "pstate par = pstate page \<and> PAGE_IS_FREE s (False # p) \<and> PAGE_IS_FREE s (True # p)")
    case True
    then have ne: "r \<noteq> False # p" "r \<noteq> True # p" using Cons.prems(2,3) by (auto simp: PAGE_IS_FREE_def)
    then show ?thesis using Cons.prems True np
      by (auto simp: Let_def bind_res_Inr_iff assert_res_def split: if_splits intro!: Cons.IH)
  qed (use Cons.prems np in auto)
qed simp

text \<open>
  C26: Releasing the last reference of an unsplit allocatable page that is not part of a mapped larger page succeeds, and its frames can be allocated again as
  part of some free page; no other page in use is affected.
\<close>

theorem page_unref_frees:
  assumes "phys_ok s" "nodes s p = Some \<lparr>pstate = ALLOCATABLE_NODE, refc = 1\<rparr>" "nodes s (False # p) = None" "nodes s (True # p) = None"
    and "\<forall>m. p \<noteq> [] \<and> nodes s (tl p) = Some m \<longrightarrow> refc m = 0" "\<forall>a. suffix a p \<and> a \<noteq> p \<longrightarrow> vlist s a = 0"
  shows "\<exists>t q. page_unref p s = Inr t \<and> phys_ok t \<and> free_leaf t q \<and> frames p \<subseteq> frames q \<and>
    (\<forall>r n. r \<noteq> p \<and> nodes s r = Some n \<and> refc n \<noteq> 0 \<longrightarrow> nodes t r = Some n)"
proof -
  let ?n = "\<lparr>pstate = ALLOCATABLE_NODE, refc = 1\<rparr>"
  let ?s = "set_node p (Some \<lparr>pstate = ALLOCATABLE_NODE, refc = 0\<rparr>) s"
  have tree: "tree_ok {} ?s"
  proof (rule tree_ok_counts [OF phys_okD(1) [OF assms(1)]])
    show "refc m \<noteq> 0" if "nodes ?s q = Some k" "nodes ?s (b # q) = Some m" "refc k \<noteq> 0" for b q k m
      using that assms(2,5) tree_okD(5) [OF phys_okD(1) [OF assms(1)], of q k b m] by (auto split: if_splits)
  qed (use assms(2) in \<open>auto split: if_splits\<close>)
  have ps: "lists_ok {p} {p} ?s"
    using lists_ok_mono [OF phys_okD(2) [OF assms(1)], of "{p}" "{p}"] free_leaf_other [of _ p s] assms(2) shape_ops(3) [of s p]
    unfolding lists_ok_iff by auto
  have kids: "nodes ?s p \<noteq> None" "nodes ?s (False # p) = None" "nodes ?s (True # p) = None" using assms(3,4) by simp_all
  have vl: "vlist ?s a = 0" if "suffix a p" "a \<noteq> p" for a using assms(6) that by simp
  obtain q u where m: "merge_up p ?s = Inr (q, u)" using merge_up_total [OF tree ps kids vl] by blast
  have n: "nodes ?s p = Some \<lparr>pstate = ALLOCATABLE_NODE, refc = 0\<rparr>" by simp
  have mo: "merged p q ?s u" and st: "\<exists>k. nodes ?s q = Some k \<and> pstate k = ALLOCATABLE_NODE"
    using merge_up_ok [OF tree _ n kids(2,3) m] ps by simp_all
  note d = mergedD [OF mo]
  obtain k where k: "nodes u q = Some k" "pstate k = ALLOCATABLE_NODE" using st d(2) by auto
  define t where "t = list_append (page_class q) q (list_del q u)"
  have rel: "release_page p ?s = Inr t" using m k by (simp add: release_page_def t_def)
  have none: "page_unref_at j (b # p) s = Inr s" for j b using assms(3,4) by (cases j; cases b) simp_all
  have "page_unref p s = release_page p ?s"
    using assms(2-4) none by (simp add: page_unref_def assert_res_def PAGE_IS_FREE_def)
  then have run: "page_unref p s = Inr t" using rel by simp
  have own: "p = [] \<or> 2 \<le> refc ?n \<or> (\<exists>m. nodes s (tl p) = Some m \<and> refc m = 0)"
    using assms(5) tree_okD(3) [OF phys_okD(1) [OF assms(1)], of "hd p" "tl p"] assms(2) by (cases p) auto
  have ok: "phys_ok t" by (rule page_unref_ok(1) [OF assms(1,2) own run])
  have "q \<in> listed t" by (simp add: t_def)
  then have free: "free_leaf t q" using lists_okD(1) [OF phys_okD(2) [OF ok]] by simp
  have len: "length p \<le> MAX_CLASS" using tree_okD(1) [OF phys_okD(1) [OF assms(1)], of p] assms(2) by simp
  have "nodes t r = Some m" if r: "r \<noteq> p" "nodes s r = Some m" "refc m \<noteq> 0" for r m
    using merge_up_refs [OF m, of r m] that by (simp add: t_def)
  then show ?thesis using run ok free frames_suffix [OF d(1) len] by blast
qed


text \<open>
  The order of \<^verbatim>\<open>unmap_page_remove\<close> matters: it calls \<^verbatim>\<open>page_unref\<close> while the mapping is still on the list of the page. When the page has been
  split on behalf of another mapping that is gone, the release merges its children and stops at \<^verbatim>\<open>assert(list_empty(par))\<close>.
\<close>

theorem page_unref_mapped_panics:
  assumes "nodes s p = Some \<lparr>pstate = ALLOCATABLE_NODE, refc = 1\<rparr>" "vlist s p \<noteq> 0"
    and "\<forall>b. nodes s (b # p) = Some \<lparr>pstate = ALLOCATABLE_NODE, refc = 1\<rparr> \<and> (\<forall>c. nodes s (c # b # p) = None)" "length p < MAX_CLASS"
  shows "page_unref p s = Inl AssertFail"
proof -
  let ?f = "\<lparr>pstate = ALLOCATABLE_NODE, refc = 0\<rparr>"
  have kid: "nodes s (b # p) = Some \<lparr>pstate = ALLOCATABLE_NODE, refc = 1\<rparr>" "nodes s (c # b # p) = None" for b c using assms(3) by simp_all
  obtain k where k: "page_class p = Suc k" using class_child [OF assms(4)] by blast
  define u where "u = list_append (page_class (False # p)) (False # p) (list_del (False # p) (set_node (False # p) (Some ?f) s))"
  have ne: "c # b # p \<noteq> p" "c # b # p \<noteq> d # p" for b c d using arg_cong [where f = length and x = "c # b # p" and y = p] by auto
  have none: "page_unref_at j (c # b # p) v = Inr v" if "nodes v (c # b # p) = None" for j b c v using that by (cases j) simp_all
  have "page_unref_at (Suc k) (False # p) s = Inr u"
    using assms(1) kid none ne by (simp add: assert_res_def PAGE_IS_FREE_def release_page_def u_def)
  moreover have "page_unref_at (Suc k) (True # p) u = Inl AssertFail"
    using assms(1,2) kid none ne by (simp add: u_def assert_res_def PAGE_IS_FREE_def release_page_def Let_def)
  ultimately show ?thesis using assms(1) by (simp add: page_unref_def k assert_res_def)
qed

lemma example_ref:
  defines "s \<equiv> page_ref [False] example_phys"
  shows "phys_ok s" "nodes s = (nodes example_phys)([False] \<mapsto> \<lparr>pstate = ALLOCATABLE_NODE, refc = 1\<rparr>)" "vlist s = vlist example_phys"
proof -
  show "phys_ok s" unfolding s_def by (rule phys_reach_ok [OF phys_reach.ref [OF example_reach]]) (simp add: example_phys_def)
  have kid: "page_ref_at k (b # p) s = s" if "nodes s (b # p) = None" for k b p s using that by (cases k) simp_all
  show "nodes s = (nodes example_phys)([False] \<mapsto> \<lparr>pstate = ALLOCATABLE_NODE, refc = 1\<rparr>)" "vlist s = vlist example_phys"
    by (simp_all add: s_def page_ref_def Let_def kid example_phys_def)
qed

theorem page_unref_frees_witness:
  "\<exists>t q. page_unref [False] (page_ref [False] example_phys) = Inr t \<and> free_leaf t q \<and> frames [False] \<subseteq> frames q"
  using page_unref_frees [OF example_ref(1), of "[False]"] unfolding example_ref(2,3) by (auto simp: example_phys_def)

end
