(* ===== verification/PageTable.thy ===== *)
theory PageTable
  imports PhysMem MemFlags
begin

unbundle bit_operations_syntax

text \<open>
  Hardware page tables (\<^verbatim>\<open>kern/pmap.c\<close>, \<^verbatim>\<open>lib/uvpt.c\<close>): the state of the virtual memory manager, the routines that fill, split and remove the four levels
  of tables, the walk of the processor and the window through which user programs read their own tables.

  Physical memory is an array of 64-bit words, so that a table is the 512 words of its frame and a pointer to an entry is an index of that array.
  The levels are numbered by the size of what an entry covers: 3 for 512 GiB (\<^verbatim>\<open>pml4\<close>), 2 for 1 GiB, 1 for 2 MiB, 0 for 4 KiB. Virtual
  addresses are counted in frames like physical ones. The address space 0 is \<^verbatim>\<open>kspace\<close>, \<open>i + 1\<close> is that of \<^verbatim>\<open>envs[i]\<close>.
  The constants \<^verbatim>\<open>nx_supported\<close> and \<^verbatim>\<open>has_1gb_pages\<close> are true, the kernel is built without the address sanitizer and tracing is off.
\<close>

section \<open>State\<close>

record vnode =
  vstate :: u32
  vphy :: "path option"

datatype tlb_op = Lcr3 | Invlpg u64

text \<open>
  \<open>vtree\<close> are the trees of mappings, by position like the physical tree; \<open>cr3\<close> the frame of the top table of a space; \<open>live\<close> the spaces of the environments
  that are not free; \<open>tlb\<close> what was flushed, last first; \<open>zero_page\<close> and \<open>one_page\<close> the pages that fill lazily allocated memory; \<open>metaheaptop\<close> the
  first free address of the kernel heap and \<open>prev_mmio\<close> the start of the last device window in it.
\<close>

record vmem =
  pm :: phys
  mem :: "nat \<Rightarrow> u64"
  vtree :: "nat \<Rightarrow> path \<Rightarrow> vnode option"
  cr3 :: "nat \<Rightarrow> nat"
  live :: "nat list"
  current_space :: "nat option"
  max_memory_map_addr :: nat
  tlb :: "tlb_op list"
  zero_page :: path
  one_page :: path
  metaheaptop :: nat
  prev_mmio :: nat

definition PTE_P :: u64 where "PTE_P = 0x001"
definition PTE_W :: u64 where "PTE_W = 0x002"
definition PTE_U :: u64 where "PTE_U = 0x004"
definition PTE_PS :: u64 where "PTE_PS = 0x080"
definition PTE_SHARE :: u64 where "PTE_SHARE = 0x400"
definition PTE_AVAIL :: u64 where "PTE_AVAIL = 0xE00"
definition PTE_NX :: u64 where "PTE_NX = 0x8000000000000000"


definition UVPT_INDEX :: nat where "UVPT_INDEX = 2"
definition NUSERPML4 :: nat where "NUSERPML4 = 1"
definition E_NO_MEM :: int where "E_NO_MEM = 4"

abbreviation present :: "u64 \<Rightarrow> bool" where "present e \<equiv> e AND PTE_P \<noteq> 0"
abbreviation huge :: "u64 \<Rightarrow> bool" where "huge e \<equiv> e AND PTE_PS \<noteq> 0"

definition PTE_ADDR :: "u64 \<Rightarrow> u64" where "PTE_ADDR e = e AND NOT (PTE_NX OR 0xFFF)"

definition pte_frame :: "u64 \<Rightarrow> nat" where "pte_frame e = unat (drop_bit 12 (PTE_ADDR e))"

definition page2pa :: "path \<Rightarrow> u64" where "page2pa p = of_nat (4096 * page_addr p)"

definition PT_INDEX :: "nat \<Rightarrow> nat" where "PT_INDEX v = v mod 512"
definition PD_INDEX :: "nat \<Rightarrow> nat" where "PD_INDEX v = v div 2 ^ 9 mod 512"
definition PDP_INDEX :: "nat \<Rightarrow> nat" where "PDP_INDEX v = v div 2 ^ 18 mod 512"
definition PML4_INDEX :: "nat \<Rightarrow> nat" where "PML4_INDEX v = v div 2 ^ 27 mod 512"

text \<open>\<open>KADDR\<close> gives the index of the first word of a frame.\<close>

definition KADDR :: "nat \<Rightarrow> vmem \<Rightarrow> nat res" where
  "KADDR f s = (if max_memory_map_addr s < 4096 * f then Inl KernPanic else Inr (512 * f))"

definition set_word :: "nat \<Rightarrow> u64 \<Rightarrow> vmem \<Rightarrow> vmem" where
  "set_word w e s = s\<lparr>mem := (mem s)(w := e)\<rparr>"

definition ref_frame :: "nat \<Rightarrow> vmem \<Rightarrow> vmem" where
  "ref_frame f s = (case lookup_walk f MAX_CLASS [] (pm s) of None \<Rightarrow> s | Some p \<Rightarrow> s\<lparr>pm := page_ref p (pm s)\<rparr>)"

definition unref_frame :: "nat \<Rightarrow> vmem \<Rightarrow> vmem res" where
  "unref_frame f s = (case lookup_walk f MAX_CLASS [] (pm s) of None \<Rightarrow> Inr s
     | Some p \<Rightarrow> bind_res (page_unref p (pm s)) (\<lambda>m. Inr (s\<lparr>pm := m\<rparr>)))"

section \<open>Tables\<close>

text \<open>Removal of the entries with the given indices from the table at \<open>pt\<close>, with the tables below.\<close>

fun remove_pt :: "nat \<Rightarrow> nat \<Rightarrow> nat list \<Rightarrow> vmem \<Rightarrow> vmem res" where
  "remove_pt level pt [] s = Inr s"
| "remove_pt level pt (i # is) s =
     (let e = mem s (pt + i) in
      if \<not> present e then remove_pt level pt is s
      else bind_res (assert_res (\<not> huge e \<or> level = 2 \<or> level = 1)) (\<lambda>_.
           bind_res (case level of 0 \<Rightarrow> Inr s | Suc l \<Rightarrow>
             if huge e then Inr s
             else bind_res (KADDR (pte_frame e) s) (\<lambda>pt2.
                  bind_res (remove_pt l pt2 [0..<512] s) (unref_frame (pte_frame e)))) (\<lambda>s.
           remove_pt level pt is (set_word (pt + i) 0 s))))"

definition prot2pte :: "u32 \<Rightarrow> u64 res" where
  "prot2pte flags =
     bind_res (assert_res (flags AND PROT_LAZY = 0 \<or> flags AND PROT_SHARE = 0)) (\<lambda>_.
     Inr (PTE_P OR ucast (flags AND 0xE18) OR
       (if flags AND PROT_W \<noteq> 0 \<and> flags AND PROT_LAZY = 0 then PTE_W else 0) OR
       (if flags AND PROT_X = 0 then PTE_NX else 0) OR
       (if flags AND PROT_SHARE \<noteq> 0 then PTE_SHARE else 0) OR
       (if flags AND PROT_USER \<noteq> 0 then PTE_U else 0)))"

text \<open>
  An empty table for the entry \<open>old\<close>, unless it has one; \<open>put\<close> stores the new entry where \<^verbatim>\<open>dst\<close> points. \<open>False\<close> is \<^verbatim>\<open>-E_NO_MEM\<close>.
\<close>

definition alloc_pt_to :: "u64 \<Rightarrow> (u64 \<Rightarrow> vmem \<Rightarrow> vmem) \<Rightarrow> vmem \<Rightarrow> (bool \<times> vmem) res" where
  "alloc_pt_to old put s =
     (if \<not> present old \<or> huge old
      then bind_res (alloc_page 0 True (pm s)) (\<lambda>(page, m). case page of None \<Rightarrow> Inr (False, s\<lparr>pm := m\<rparr>)
        | Some p \<Rightarrow>
            bind_res (assert_res (case nodes m p of None \<Rightarrow> False | Some n \<Rightarrow> refc n = 0)) (\<lambda>_.
            let s = put (page2pa p OR PTE_U OR PTE_W OR PTE_P) (s\<lparr>pm := page_ref p m\<rparr>) in
            bind_res (KADDR (page_addr p) s) (\<lambda>k.
            Inr (True, s\<lparr>mem := (\<lambda>w. if k \<le> w \<and> w < k + 512 then 0 else mem s w)\<rparr>))))
      else Inr (True, s))"

definition alloc_pt :: "nat \<Rightarrow> vmem \<Rightarrow> (bool \<times> vmem) res" where
  "alloc_pt dst s = alloc_pt_to (mem s dst) (set_word dst) s"

definition propagate_one_pml4 :: "nat \<Rightarrow> nat \<Rightarrow> vmem \<Rightarrow> vmem" where
  "propagate_one_pml4 dst src s =
     (let d = 512 * cr3 s dst; r = 512 * cr3 s src;
          ref = (\<lambda>base i s. if present (mem s (base + i)) \<and> i \<noteq> UVPT_INDEX then ref_frame (pte_frame (mem s (base + i))) s else s);
          s = fold (ref r) [NUSERPML4..<512] s;
          s = fold (ref d) [NUSERPML4..<512] s
      in s\<lparr>mem := (\<lambda>w. if d + NUSERPML4 \<le> w \<and> w < d + 512 \<and> w \<noteq> d + UVPT_INDEX then mem s (r + (w - d)) else mem s w)\<rparr>)"

definition propagate_pml4 :: "nat \<Rightarrow> vmem \<Rightarrow> vmem" where
  "propagate_pml4 spc s =
     (if current_space s = None then s
      else let s = (if spc \<noteq> 0 then propagate_one_pml4 0 spc s else s) in
           fold (\<lambda>i s. propagate_one_pml4 i spc s) (filter (\<lambda>i. i \<noteq> spc) (live s)) s)"

definition step_of :: "nat \<Rightarrow> u64" where "step_of level = push_bit (12 + 9 * level) 1"

text \<open>
  \<^verbatim>\<open>alloc_fill_pt\<close> for a level that has large pages, where it only writes entries, and for the top level, where it calls itself with \<^verbatim>\<open>dst + i\<close> for
  each entry.
\<close>

fun fill_entries :: "nat \<Rightarrow> nat \<Rightarrow> u64 \<Rightarrow> nat list \<Rightarrow> vmem \<Rightarrow> vmem res" where
  "fill_entries level dst base [] s = Inr s"
| "fill_entries level dst base (i # is) s =
     bind_res (assert_res (PTE_ADDR base AND (step_of level - 1) = 0)) (\<lambda>_.
     fill_entries level dst (base + step_of level) is (set_word (dst + i) base s))"

definition fill_leaves :: "nat \<Rightarrow> nat \<Rightarrow> u64 \<Rightarrow> nat list \<Rightarrow> vmem \<Rightarrow> vmem res" where
  "fill_leaves level dst base is s =
     bind_res (assert_res (is \<noteq> [])) (\<lambda>_. fill_entries level dst (if level \<noteq> 0 then base OR PTE_PS else base) is s)"

fun fill_top :: "nat \<Rightarrow> u64 \<Rightarrow> nat list \<Rightarrow> vmem \<Rightarrow> (bool \<times> vmem) res" where
  "fill_top dst base [] s = Inr (True, s)"
| "fill_top dst base (i # is) s =
     bind_res (alloc_pt (dst + i) s) (\<lambda>(ok, s). if \<not> ok then Inr (False, s) else
     bind_res (fill_leaves 2 (dst + i) base [0..<512] s) (fill_top dst (base + step_of 3) is))"

definition alloc_fill_pt :: "nat \<Rightarrow> nat \<Rightarrow> u64 \<Rightarrow> nat list \<Rightarrow> vmem \<Rightarrow> (bool \<times> vmem) res" where
  "alloc_fill_pt level dst base is s =
     (if level = 3 then bind_res (assert_res (is \<noteq> [])) (\<lambda>_. fill_top dst base is s)
      else bind_res (fill_leaves level dst base is s) (\<lambda>s. Inr (True, s)))"

text \<open>The entry at \<open>dst\<close> for a large page becomes a table of the next smaller pages.\<close>

definition split_huge :: "nat \<Rightarrow> nat \<Rightarrow> vmem \<Rightarrow> (bool \<times> vmem) res" where
  "split_huge level dst s =
     (let old = mem s dst in
      bind_res (alloc_pt dst s) (\<lambda>(ok, s). if \<not> ok then Inr (False, s) else
      bind_res (KADDR (pte_frame (mem s dst)) s) (\<lambda>pd. alloc_fill_pt level pd (old AND NOT PTE_PS) [0..<512] s)))"

fun invlpg_range :: "nat \<Rightarrow> u64 \<Rightarrow> tlb_op list" where
  "invlpg_range 0 start = []"
| "invlpg_range (Suc n) start = invlpg_range n (start + 4096) @ [Invlpg start]"

text \<open>Addresses are byte addresses here: the difference is taken in 64 bits. \<open>start\<close> and \<open>fin\<close> are page aligned.\<close>

definition tlb_invalidate_range :: "nat \<Rightarrow> u64 \<Rightarrow> u64 \<Rightarrow> vmem \<Rightarrow> vmem" where
  "tlb_invalidate_range spc start fin s =
     (if current_space s = Some spc \<or> current_space s = None
      then if start - fin > 512 * 0x40000000 then s\<lparr>tlb := Lcr3 # tlb s\<rparr>
           else s\<lparr>tlb := invlpg_range (if start < fin then unat (fin - start) div 4096 else 0) start @ tlb s\<rparr>
      else s)"

definition frame_bytes :: "nat \<Rightarrow> u64" where "frame_bytes f = of_nat (4096 * f)"

text \<open>Indices from that of the first frame to that of the frame behind the range, which may be 0 for 512.\<close>

definition index_range :: "(nat \<Rightarrow> nat) \<Rightarrow> nat \<Rightarrow> nat \<Rightarrow> nat list" where
  "index_range index addr fin = [index addr ..< (if index fin < index addr then 512 else index fin)]"

definition round_frames :: "nat \<Rightarrow> nat \<Rightarrow> nat \<Rightarrow> nat \<times> nat" where
  "round_frames c start fin = (start div 2 ^ c * 2 ^ c, (fin + (2 ^ c - 1)) div 2 ^ c * 2 ^ c)"

text \<open>The part of \<^verbatim>\<open>unmap_page\<close> that concerns the tables.\<close>

definition unmap_tables :: "nat \<Rightarrow> nat \<Rightarrow> nat \<Rightarrow> vmem \<Rightarrow> vmem res" where
  "unmap_tables spc addr class s =
     (let fin = addr + 2 ^ class; pml4 = 512 * cr3 s spc; i4 = PML4_INDEX addr; j4 = PML4_INDEX fin;
          finish = (\<lambda>(a, b) s. Inr (tlb_invalidate_range spc (frame_bytes a) (frame_bytes b) s)) in
      if 27 \<le> class
      then bind_res (remove_pt 3 pml4 [i4..<j4] s) (\<lambda>s.
           finish (addr, fin) (if j4 = 0 \<or> NUSERPML4 \<le> j4 - 1 then propagate_pml4 spc s else s))
      else if \<not> present (mem s (pml4 + i4)) then Inr s
      else bind_res (KADDR (pte_frame (mem s (pml4 + i4))) s) (\<lambda>pdp.
      let is3 = index_range PDP_INDEX addr fin; i3 = PDP_INDEX addr in
      if 18 \<le> class then bind_res (remove_pt 2 pdp is3 s) (finish (addr, fin))
      else if \<not> present (mem s (pdp + i3)) then Inr s
      else bind_res (if huge (mem s (pdp + i3))
                then bind_res (split_huge 1 (pdp + i3) s) (\<lambda>(ok, s). bind_res (assert_res ok) (\<lambda>_. Inr (round_frames 18 addr fin, s)))
                else Inr ((addr, fin), s)) (\<lambda>(inval, s).
      bind_res (KADDR (pte_frame (mem s (pdp + i3))) s) (\<lambda>pd.
      let is2 = index_range PD_INDEX addr fin; i2 = PD_INDEX addr in
      if 9 \<le> class then bind_res (remove_pt 1 pd is2 s) (finish inval)
      else if \<not> present (mem s (pd + i2)) then Inr s
      else bind_res (if huge (mem s (pd + i2))
                then bind_res (split_huge 0 (pd + i2) s) (\<lambda>(ok, s). bind_res (assert_res ok) (\<lambda>_. Inr (round_frames 9 (fst inval) (snd inval), s)))
                else Inr (inval, s)) (\<lambda>(inval, s).
      bind_res (KADDR (pte_frame (mem s (pd + i2))) s) (\<lambda>pt.
      bind_res (remove_pt 0 pt (index_range PT_INDEX addr fin) s) (finish inval)))))))"

text \<open>A table below the entry at \<open>dst\<close>, allocated or split off when there is none; \<open>None\<close> is \<^verbatim>\<open>-E_NO_MEM\<close>.\<close>

definition need_table :: "nat \<Rightarrow> nat \<Rightarrow> vmem \<Rightarrow> (nat option \<times> vmem) res" where
  "need_table level dst s =
     bind_res (if \<not> present (mem s dst)
       then alloc_pt dst s
       else Inr (True, s)) (\<lambda>(ok, s).
     if \<not> ok then Inr (None, s)
     else bind_res (if huge (mem s dst) then split_huge level dst s else Inr (True, s)) (\<lambda>(ok, s).
     if \<not> ok then Inr (None, s)
     else bind_res (KADDR (pte_frame (mem s dst)) s) (\<lambda>t. Inr (Some t, s))))"

text \<open>The part of \<^verbatim>\<open>map_page\<close> that concerns the tables: \<open>class\<close> and \<open>pa\<close> are those of the page.\<close>

definition map_tables :: "nat \<Rightarrow> nat \<Rightarrow> path \<Rightarrow> u32 \<Rightarrow> vmem \<Rightarrow> (int \<times> vmem) res" where
  "map_tables spc addr page flags s =
     bind_res (prot2pte flags) (\<lambda>prot.
     let class = page_class page; fin = addr + 2 ^ class; base = page2pa page OR prot; pml4 = 512 * cr3 s spc;
         i4 = PML4_INDEX addr; j4 = PML4_INDEX fin;
         code = (\<lambda>(ok, s). Inr (if ok then 0 else - E_NO_MEM, s)) in
     if 27 \<le> class
     then bind_res (alloc_fill_pt 3 pml4 base [i4..<j4] s) (\<lambda>(ok, s).
          code (ok, if j4 = 0 \<or> NUSERPML4 \<le> j4 - 1 then propagate_pml4 spc s else s))
     else bind_res (if present (mem s (pml4 + i4)) then Inr (True, s)
       else bind_res (alloc_pt (pml4 + i4) s) (\<lambda>(ok, s). Inr (ok, if ok \<and> NUSERPML4 \<le> i4 then propagate_pml4 spc s else s))) (\<lambda>(ok, s).
     if \<not> ok then code (False, s)
     else bind_res (assert_res (\<not> huge (mem s (pml4 + i4)))) (\<lambda>_.
     bind_res (KADDR (pte_frame (mem s (pml4 + i4))) s) (\<lambda>pdp.
     if 18 \<le> class then bind_res (alloc_fill_pt 2 pdp base (index_range PDP_INDEX addr fin) s) code
     else bind_res (need_table 1 (pdp + PDP_INDEX addr) s) (\<lambda>(t, s). case t of None \<Rightarrow> code (False, s) | Some pd \<Rightarrow>
     if 9 \<le> class then bind_res (alloc_fill_pt 1 pd base (index_range PD_INDEX addr fin) s) code
     else bind_res (need_table 0 (pd + PD_INDEX addr) s) (\<lambda>(t, s). case t of None \<Rightarrow> code (False, s) | Some pt \<Rightarrow>
     bind_res (alloc_fill_pt 0 pt base (index_range PT_INDEX addr fin) s) code))))))"

section \<open>The processor and the user's window\<close>

text \<open>
  The walk of the processor: the entry that ends it, with its level, and the frame it gives for a page address.
\<close>

definition hw_entry :: "(nat \<Rightarrow> u64) \<Rightarrow> nat \<Rightarrow> nat \<Rightarrow> nat \<times> u64" where
  "hw_entry m r v =
     (let e = m (512 * r + PML4_INDEX v) in if \<not> present e then (3, e) else
      let e = m (512 * pte_frame e + PDP_INDEX v) in if \<not> present e \<or> huge e then (2, e) else
      let e = m (512 * pte_frame e + PD_INDEX v) in if \<not> present e \<or> huge e then (1, e) else
      (0, m (512 * pte_frame e + PT_INDEX v)))"

definition hw_frame :: "(nat \<Rightarrow> u64) \<Rightarrow> nat \<Rightarrow> nat \<Rightarrow> nat option" where
  "hw_frame m r v = (case hw_entry m r v of (l, e) \<Rightarrow> if present e then Some (pte_frame e + v mod 2 ^ (9 * l)) else None)"

text \<open>Reading the word with number \<open>n\<close> of the array at the page \<open>base\<close>; \<open>None\<close> is a page fault.\<close>

definition load_word :: "(nat \<Rightarrow> u64) \<Rightarrow> nat \<Rightarrow> nat \<Rightarrow> nat \<Rightarrow> u64 option" where
  "load_word m r base n = map_option (\<lambda>f. m (512 * f + n mod 512)) (hw_frame m r (base + n div 512))"

definition UVPT :: nat where "UVPT = UVPT_INDEX * 2 ^ 27"
definition UVPD :: nat where "UVPD = UVPT + UVPT_INDEX * 2 ^ 18"
definition UVPDP :: nat where "UVPDP = UVPD + UVPT_INDEX * 2 ^ 9"
definition UVPML4 :: nat where "UVPML4 = UVPDP + UVPT_INDEX"

definition get_uvpt_entry :: "(nat \<Rightarrow> u64) \<Rightarrow> nat \<Rightarrow> nat \<Rightarrow> u64 option" where
  "get_uvpt_entry m r v =
     Option.bind (load_word m r UVPML4 (v div 2 ^ 27)) (\<lambda>e. if \<not> present e then Some e else
     Option.bind (load_word m r UVPDP (v div 2 ^ 18)) (\<lambda>e. if \<not> present e \<or> huge e then Some e else
     Option.bind (load_word m r UVPD (v div 2 ^ 9)) (\<lambda>e. if \<not> present e \<or> huge e then Some e else
     load_word m r UVPT v)))"

definition get_prot :: "u64 \<Rightarrow> u32" where
  "get_prot pte = ucast (pte AND PTE_AVAIL AND NOT PTE_SHARE) OR (if present pte then PROT_R else 0) OR
     (if pte AND PTE_W \<noteq> 0 then PROT_W else 0) OR (if pte AND PTE_NX = 0 then PROT_X else 0) OR
     (if pte AND PTE_SHARE \<noteq> 0 then PROT_SHARE else 0)"

lemma pte_addr_low: "PTE_ADDR e AND 0xFFF = 0"
  by (simp add: PTE_ADDR_def PTE_NX_def and.assoc)

section \<open>What the tables leave alone\<close>

text \<open>The routines above change physical pages, memory and the translation cache only.\<close>

definition hw_step :: "vmem \<Rightarrow> vmem \<Rightarrow> bool" where
  "hw_step s t \<longleftrightarrow> (\<exists>m w l. t = s\<lparr>pm := m, mem := w, tlb := l\<rparr>)"

named_theorems hw_intros \<open>operations that change page tables only\<close>

lemma hw_stepI: "t = s\<lparr>pm := m, mem := w, tlb := l\<rparr> \<Longrightarrow> hw_step s t"
  unfolding hw_step_def by blast

lemma hw_step_refl [hw_intros]: "hw_step s s"
  by (rule hw_stepI [where m = "pm s" and w = "mem s" and l = "tlb s"]) simp

lemma hw_step_trans: "hw_step s t \<Longrightarrow> hw_step t u \<Longrightarrow> hw_step s u"
  unfolding hw_step_def by fastforce

lemma hw_stepD:
  assumes "hw_step s t"
  shows "vtree t = vtree s" "cr3 t = cr3 s" "live t = live s" "current_space t = current_space s" "max_memory_map_addr t = max_memory_map_addr s"
    "zero_page t = zero_page s" "one_page t = one_page s" "metaheaptop t = metaheaptop s" "prev_mmio t = prev_mmio s"
  using assms unfolding hw_step_def by auto

lemma hw_step_upd [hw_intros]:
  assumes "hw_step s t"
  shows "hw_step s (t\<lparr>pm := m\<rparr>)" "hw_step s (t\<lparr>mem := w\<rparr>)" "hw_step s (t\<lparr>tlb := l\<rparr>)" "hw_step s (set_word a e t)"
proof -
  obtain m' w' l' where t: "t = s\<lparr>pm := m', mem := w', tlb := l'\<rparr>" using assms unfolding hw_step_def by blast
  show "hw_step s (t\<lparr>pm := m\<rparr>)" by (rule hw_stepI [where m = m and w = w' and l = l']) (simp add: t)
  show "hw_step s (t\<lparr>mem := w\<rparr>)" for w by (rule hw_stepI [where m = m' and w = w and l = l']) (simp add: t)
  then show "hw_step s (set_word a e t)" by (simp add: set_word_def)
  show "hw_step s (t\<lparr>tlb := l\<rparr>)" by (rule hw_stepI [where m = m' and w = w' and l = l]) (simp add: t)
qed

lemma ref_frame_step [hw_intros]: "hw_step s t \<Longrightarrow> hw_step s (ref_frame f t)"
  by (simp add: ref_frame_def hw_intros split: option.splits)

lemma unref_frame_step: "unref_frame f s = Inr t \<Longrightarrow> hw_step s t"
  by (auto simp: unref_frame_def bind_res_Inr_iff intro!: hw_intros split: option.splits)

lemma remove_pt_step: "remove_pt level pt is s = Inr t \<Longrightarrow> hw_step s t"
proof (induction level pt "is" s arbitrary: t rule: remove_pt.induct)
  case (2 level pt i "is" s)
  let ?e = "mem s (pt + i)"
  show ?case
  proof (cases "present ?e")
    case False
    then show ?thesis using 2 by (simp add: Let_def)
  next
    case True
    obtain u where u: "remove_pt level pt is (set_word (pt + i) 0 u) = Inr t"
        "(case level of 0 \<Rightarrow> Inr s | Suc l \<Rightarrow> if huge ?e then Inr s
          else bind_res (KADDR (pte_frame ?e) s) (\<lambda>pt2. bind_res (remove_pt l pt2 [0..<512] s) (unref_frame (pte_frame ?e)))) = Inr u"
        "\<not> huge ?e \<or> level = 2 \<or> level = 1"
      using "2.prems" True by (auto simp: Let_def bind_res_Inr_iff)
    have "hw_step s u"
    proof (cases level)
      case (Suc l)
      show ?thesis
      proof (cases "huge ?e")
        case True
        then show ?thesis using u(2) Suc by (simp add: hw_intros)
      next
        case False
        then obtain pt2 w where w: "KADDR (pte_frame ?e) s = Inr pt2" "remove_pt l pt2 [0..<512] s = Inr w" "unref_frame (pte_frame ?e) w = Inr u"
          using u(2) Suc by (auto simp: bind_res_Inr_iff)
        have "assert_res (\<not> huge ?e \<or> level = 2 \<or> level = 1) = Inr ()" using u(3) by simp
        then have "hw_step s w" using "2.IH"(2) [OF refl _ _ Suc False w(1,2)] True by simp
        then show ?thesis using unref_frame_step [OF w(3)] hw_step_trans by blast
      qed
    qed (use u(2) in \<open>simp add: hw_intros\<close>)
    moreover have "hw_step (set_word (pt + i) 0 u) t" by (rule "2.IH"(3)) (use True u in \<open>simp_all add: assert_res_def\<close>)
    ultimately show ?thesis using hw_step_upd(4) hw_step_trans by blast
  qed
qed (simp add: hw_intros)

lemma alloc_pt_step: "alloc_pt dst s = Inr (ok, t) \<Longrightarrow> hw_step s t"
  by (auto simp: alloc_pt_def alloc_pt_to_def bind_res_Inr_iff Let_def intro!: hw_intros split: if_splits option.splits)

lemma fold_step: "(\<And>x s t. hw_step s t \<Longrightarrow> hw_step s (f x t)) \<Longrightarrow> hw_step s t \<Longrightarrow> hw_step s (fold f xs t)"
  by (induction xs arbitrary: t) simp_all

lemma propagate_step [hw_intros]:
  assumes "hw_step s t"
  shows "hw_step s (propagate_one_pml4 dst src t)" "hw_step s (propagate_pml4 spc t)"
proof -
  have one: "hw_step s (propagate_one_pml4 dst src t)" if "hw_step s t" for dst src s t
    unfolding propagate_one_pml4_def Let_def by (intro hw_step_upd fold_step that) (auto intro: hw_intros)
  show "hw_step s (propagate_one_pml4 dst src t)" by (rule one [OF assms])
  show "hw_step s (propagate_pml4 spc t)"
    unfolding propagate_pml4_def Let_def using assms by (auto intro!: fold_step one)
qed

lemma fill_entries_step: "fill_entries level dst base is s = Inr t \<Longrightarrow> hw_step s t"
proof (induction "is" arbitrary: base s)
  case (Cons i "is")
  then have "hw_step (set_word (dst + i) base s) t" by (auto simp: bind_res_Inr_iff)
  then show ?case using hw_step_trans [OF hw_step_upd(4) [OF hw_step_refl]] by blast
qed (simp add: hw_step_refl)

lemma fill_leaves_step: "fill_leaves level dst base is s = Inr t \<Longrightarrow> hw_step s t"
  by (auto simp: fill_leaves_def bind_res_Inr_iff dest: fill_entries_step)

lemma fill_top_step: "fill_top dst base is s = Inr (ok, t) \<Longrightarrow> hw_step s t"
  by (induction "is" arbitrary: base s)
    (auto simp: bind_res_Inr_iff hw_step_refl split: if_splits dest!: alloc_pt_step fill_leaves_step intro: hw_step_trans)

lemma alloc_fill_pt_step: "alloc_fill_pt level dst base is s = Inr (ok, t) \<Longrightarrow> hw_step s t"
  by (auto simp: alloc_fill_pt_def bind_res_Inr_iff split: if_splits dest: fill_top_step fill_leaves_step)

lemma split_huge_step: "split_huge level dst s = Inr (ok, t) \<Longrightarrow> hw_step s t"
  by (auto simp: split_huge_def Let_def bind_res_Inr_iff split: if_splits dest!: alloc_pt_step alloc_fill_pt_step intro: hw_step_trans)

lemma tlb_only: "\<exists>l. tlb_invalidate_range spc a b s = s\<lparr>tlb := l\<rparr>"
proof (cases "current_space s = Some spc \<or> current_space s = None")
  case False
  then have "tlb_invalidate_range spc a b s = s\<lparr>tlb := tlb s\<rparr>" by (simp only: tlb_invalidate_range_def if_False) simp
  then show ?thesis by blast
next
  case True
  then have "tlb_invalidate_range spc a b s = s\<lparr>tlb := (if a - b > 512 * 0x40000000 then Lcr3 # tlb s
      else invlpg_range (if a < b then unat (b - a) div 4096 else 0) a @ tlb s)\<rparr>" by (simp add: tlb_invalidate_range_def)
  then show ?thesis by blast
qed

lemma tlb_step [hw_intros]: "hw_step s t \<Longrightarrow> hw_step s (tlb_invalidate_range spc a b t)"
  by (simp add: tlb_invalidate_range_def hw_intros)

lemma need_table_step: "need_table level dst s = Inr (x, t) \<Longrightarrow> hw_step s t"
  by (auto simp: need_table_def bind_res_Inr_iff split: if_splits dest!: alloc_pt_step split_huge_step intro: hw_step_trans hw_step_refl)

lemma unmap_tables_step: "unmap_tables spc addr c s = Inr t \<Longrightarrow> hw_step s t"
  by (auto simp: unmap_tables_def Let_def bind_res_Inr_iff split: if_splits prod.splits
      intro!: tlb_step propagate_step hw_step_refl dest!: remove_pt_step split_huge_step intro: hw_step_trans)

text \<open>The same for the result of a computation, for the longest of them.\<close>

definition hw_ok :: "vmem \<Rightarrow> ('a \<times> vmem) res \<Rightarrow> bool" where
  "hw_ok s x \<longleftrightarrow> (\<forall>a t. x = Inr (a, t) \<longrightarrow> hw_step s t)"

lemma hw_ok_bind: "hw_ok s x \<Longrightarrow> (\<And>a u. hw_step s u \<Longrightarrow> hw_ok s (f (a, u))) \<Longrightarrow> hw_ok s (bind_res x f)"
  unfolding hw_ok_def by (auto simp: bind_res_Inr_iff)

lemma hw_ok_pure:
  "(\<And>a. hw_ok s (f a)) \<Longrightarrow> hw_ok s (bind_res (assert_res c) f)" "(\<And>a. hw_ok s (g a)) \<Longrightarrow> hw_ok s (bind_res (KADDR k u) g)"
  "(\<And>a. hw_ok s (h a)) \<Longrightarrow> hw_ok s (bind_res (prot2pte flags) h)"
  unfolding hw_ok_def by (auto simp: bind_res_Inr_iff)

lemma hw_ok_return: "hw_step s t \<Longrightarrow> hw_ok s (Inr (a, t))"
  by (simp add: hw_ok_def)

lemma hw_ok_ops:
  assumes "hw_step s t"
  shows "hw_ok s (alloc_fill_pt level dst base is t)" "hw_ok s (alloc_pt dst t)" "hw_ok s (need_table level dst t)"
  using assms alloc_fill_pt_step alloc_pt_step need_table_step hw_step_trans unfolding hw_ok_def by blast+

lemma map_tables_step:
  assumes "map_tables spc addr page flags s = Inr (r, t)"
  shows "hw_step s t"
proof -
  have code: "hw_ok s ((\<lambda>(ok, s). Inr (if ok then 0 else - E_NO_MEM, s)) (ok, u))" if "hw_step s u" for ok u
    using that by (simp add: hw_ok_def)
  have "hw_ok s (map_tables spc addr page flags s)"
    unfolding map_tables_def Let_def
    by (rule hw_ok_pure, split if_split, intro conjI impI)
      (auto intro!: hw_ok_pure hw_ok_bind hw_ok_return hw_ok_ops propagate_step hw_step_refl code split: option.split)
  then show ?thesis using assms by (simp add: hw_ok_def)
qed

section \<open>Two consequences\<close>

text \<open>
  The range flush always reloads \<^verbatim>\<open>cr3\<close>, because it compares \<^verbatim>\<open>start - end\<close>; and unmapping a whole space, as \<^verbatim>\<open>release_address_space\<close> does, removes no
  table, because the index of its end wraps to 0.
\<close>

lemma tlb_flush_all:
  assumes "current_space s = Some spc" "start < fin" "unat fin - unat start < 2 ^ 63"
  shows "tlb_invalidate_range spc start fin s = s\<lparr>tlb := Lcr3 # tlb s\<rparr>"
proof -
  have "unat (start - fin) = 2 ^ 64 - (unat fin - unat start)" using assms(2) by (simp add: unat_sub_if' word_less_nat_alt)
  then have "512 * 0x40000000 < unat (start - fin)" using assms(3) by simp
  then have "512 * 0x40000000 < start - fin" by (simp add: word_less_nat_alt)
  then show ?thesis using assms(1) by (simp add: tlb_invalidate_range_def)
qed

lemma unmap_all_keeps_tables: "\<exists>l. unmap_tables spc 0 MAX_CLASS s = Inr ((propagate_pml4 spc s)\<lparr>tlb := l\<rparr>)"
proof -
  have "PML4_INDEX 0 = 0" "PML4_INDEX (2 ^ MAX_CLASS) = 0" "27 \<le> MAX_CLASS" by (simp_all add: PML4_INDEX_def MAX_CLASS_def)
  then have "unmap_tables spc 0 MAX_CLASS s = Inr (tlb_invalidate_range spc (frame_bytes 0) (frame_bytes (2 ^ MAX_CLASS)) (propagate_pml4 spc s))"
    by (simp add: unmap_tables_def Let_def)
  then show ?thesis using tlb_only by metis
qed

end
