(* ===== verification/VirtMem.thy ===== *)
theory VirtMem
  imports PageTable
begin

unbundle bit_operations_syntax

text \<open>
  Virtual memory (\<^verbatim>\<open>kern/pmap.c\<close>): the tree of mappings of an address space, mapping and unmapping of pages and regions, lazy copies, and the address
  spaces themselves.

  A node of a tree is named by its position, as a physical page is: a mapping node stands for the virtual range of its position and points to a
  physical page of the same class; an intermediate node has no page. Regions are given in bytes, as in the code, and are natural numbers:
  the system calls check that a user range does not wrap around, and ranges of the kernel do not reach the end of the address space.
\<close>

section \<open>The tree\<close>

definition MAPPING_NODE :: u32 where "MAPPING_NODE = 0x100000"
definition INTERMEDIATE_NODE :: u32 where "INTERMEDIATE_NODE = 0x200000"
definition NODE_TYPE_MASK :: u32 where "NODE_TYPE_MASK = 0xF00000"
definition ALLOC_WEAK :: u32 where "ALLOC_WEAK = 0x20000"
definition ALLOC_BOOTMEM :: u32 where "ALLOC_BOOTMEM = 0x40000"
definition MAX_ALLOCATION_CLASS :: nat where "MAX_ALLOCATION_CLASS = 9"
definition E_FAULT :: int where "E_FAULT = 7"

datatype lookup_mode = LOOKUP_PRESERVE | LOOKUP_ALLOC | LOOKUP_SPLIT

definition set_vnode :: "nat \<Rightarrow> path \<Rightarrow> vnode option \<Rightarrow> vmem \<Rightarrow> vmem" where
  "set_vnode spc p n s = s\<lparr>vtree := (vtree s)(spc := (vtree s spc)(p := n))\<rparr>"

text \<open>
  A mapping is on the list of its page. When the last reference to a page goes, \<^verbatim>\<open>page_unref\<close> takes the page off that list, so that nothing is left to remove from.
\<close>

definition link_mapping :: "path \<Rightarrow> vmem \<Rightarrow> vmem" where
  "link_mapping q s = s\<lparr>pm := (pm s)\<lparr>vlist := (vlist (pm s))(q := Suc (vlist (pm s) q))\<rparr>\<rparr>"

definition unlink_mapping :: "path \<Rightarrow> vmem \<Rightarrow> vmem" where
  "unlink_mapping q s = s\<lparr>pm := (pm s)\<lparr>vlist := (vlist (pm s))(q :=
     (case nodes (pm s) q of None \<Rightarrow> 0 | Some n \<Rightarrow> if refc n = 0 then 0 else vlist (pm s) q - 1))\<rparr>\<rparr>"

definition new_vnode :: "nat \<Rightarrow> path \<Rightarrow> vnode \<Rightarrow> vmem \<Rightarrow> vmem res" where
  "new_vnode spc p n s = bind_res (alloc_descriptor ensure_free_desc (pm s)) (\<lambda>m. Inr (set_vnode spc p (Some n) (s\<lparr>pm := m\<rparr>)))"

definition unref_page :: "path \<Rightarrow> vmem \<Rightarrow> vmem res" where
  "unref_page q s = bind_res (page_unref q (pm s)) (\<lambda>m. Inr (s\<lparr>pm := m\<rparr>))"

definition alloc_virtual_child :: "nat \<Rightarrow> path \<Rightarrow> bool \<Rightarrow> vmem \<Rightarrow> vmem res" where
  "alloc_virtual_child spc p right s = (case vtree s spc p of None \<Rightarrow> Inl NullDeref | Some n \<Rightarrow>
     case vphy n of None \<Rightarrow> Inl AssertFail | Some q \<Rightarrow>
     bind_res (assert_res (nodes (pm s) (False # q) \<noteq> None \<and> nodes (pm s) (True # q) \<noteq> None)) (\<lambda>_.
     bind_res (new_vnode spc (right # p) \<lparr>vstate = vstate n, vphy = Some (right # q)\<rparr> s) (\<lambda>s.
     Inr (link_mapping (right # q) (s\<lparr>pm := page_ref (right # q) (pm s)\<rparr>)))))"

text \<open>The mapping \<open>n\<close> at \<open>p\<close> of the page \<open>q\<close> becomes two mappings of its halves.\<close>

definition split_mapping :: "nat \<Rightarrow> path \<Rightarrow> vnode \<Rightarrow> path \<Rightarrow> vmem \<Rightarrow> vmem res" where
  "split_mapping spc p n q s =
     bind_res (assert_res (page_class p = page_class q \<and> vstate n AND NODE_TYPE_MASK = MAPPING_NODE)) (\<lambda>_.
     bind_res (page_lookup q (page_addr q) (page_class q - 1) PARTIAL_NODE (pm s)) (\<lambda>(_, m).
     bind_res (assert_res (nodes m (False # q) \<noteq> None \<and> nodes m (True # q) \<noteq> None)) (\<lambda>_.
     bind_res (alloc_virtual_child spc p False (s\<lparr>pm := m\<rparr>)) (\<lambda>s.
     bind_res (alloc_virtual_child spc p True s) (\<lambda>s.
     bind_res (unref_page q (unlink_mapping q s)) (\<lambda>s.
     Inr (set_vnode spc p (Some \<lparr>vstate = INTERMEDIATE_NODE, vphy = None\<rparr>) s)))))))"

text \<open>The loop of \<open>page_lookup_virtual\<close> at the node \<open>p\<close>, \<open>k\<close> levels above the class wanted.\<close>

fun lookup_virtual :: "nat \<Rightarrow> lookup_mode \<Rightarrow> nat \<Rightarrow> nat \<Rightarrow> path \<Rightarrow> vmem \<Rightarrow> (path \<times> vmem) res" where
  "lookup_virtual spc mode addr 0 p s = Inr (p, s)"
| "lookup_virtual spc mode addr (Suc k) p s =
     (let next = bit addr (page_class p - 1) # p in
      if vtree s spc next \<noteq> None then lookup_virtual spc mode addr k next s
      else if mode = LOOKUP_PRESERVE then Inr (p, s)
      else case vtree s spc p of None \<Rightarrow> Inl NullDeref | Some n \<Rightarrow>
        if vphy n = None \<and> mode = LOOKUP_SPLIT then Inr (p, s)
        else bind_res (ensure_free_desc ((Suc k + 1) * 2) (pm s)) (\<lambda>m. let s = s\<lparr>pm := m\<rparr> in
          bind_res (case vphy n of Some q \<Rightarrow> split_mapping spc p n q s
            | None \<Rightarrow> bind_res (assert_res (vstate n = INTERMEDIATE_NODE)) (\<lambda>_.
                new_vnode spc next \<lparr>vstate = INTERMEDIATE_NODE, vphy = None\<rparr> s))
          (lookup_virtual spc mode addr k next)))"

definition page_lookup_virtual :: "nat \<Rightarrow> nat \<Rightarrow> nat \<Rightarrow> lookup_mode \<Rightarrow> vmem \<Rightarrow> (path \<times> vmem) res" where
  "page_lookup_virtual spc addr class mode = lookup_virtual spc mode addr (MAX_CLASS - class) []"

definition free_vnode :: "nat \<Rightarrow> path \<Rightarrow> vmem \<Rightarrow> vmem" where
  "free_vnode spc p s = set_vnode spc p None (s\<lparr>pm := (pm s)\<lparr>free_desc_count := free_desc_count (pm s) + 1\<rparr>\<rparr>)"

text \<open>Recursion is bounded by the number of levels below the node.\<close>

fun unmap_remove :: "nat \<Rightarrow> nat \<Rightarrow> path \<Rightarrow> vmem \<Rightarrow> vmem res" where
  "unmap_remove 0 spc p s = Inr s"
| "unmap_remove (Suc k) spc p s = (case vtree s spc p of None \<Rightarrow> Inr s | Some n \<Rightarrow>
     case vphy n of
       Some q \<Rightarrow>
         bind_res (assert_res (vtree s spc (False # p) = None \<and> vtree s spc (True # p) = None)) (\<lambda>_.
         bind_res (assert_res (vstate n AND NODE_TYPE_MASK = MAPPING_NODE)) (\<lambda>_.
         bind_res (unref_page q s) (\<lambda>s. Inr (free_vnode spc p (unlink_mapping q s)))))
     | None \<Rightarrow>
         bind_res (assert_res (vstate n AND NODE_TYPE_MASK = INTERMEDIATE_NODE)) (\<lambda>_.
         bind_res (unmap_remove k spc (False # p) s) (\<lambda>s.
         bind_res (unmap_remove k spc (True # p) s) (\<lambda>s. Inr (free_vnode spc p s)))))"

definition unmap_page_remove :: "nat \<Rightarrow> path \<Rightarrow> vmem \<Rightarrow> vmem res" where
  "unmap_page_remove spc p = unmap_remove (Suc (page_class p)) spc p"

section \<open>Pages\<close>

definition unmap_page :: "nat \<Rightarrow> nat \<Rightarrow> nat \<Rightarrow> vmem \<Rightarrow> vmem res" where
  "unmap_page spc addr class s =
     bind_res (assert_res (addr mod 2 ^ class = 0)) (\<lambda>_.
     bind_res (page_lookup_virtual spc addr class LOOKUP_ALLOC s) (\<lambda>(p, s).
     bind_res (unmap_page_remove spc p s) (\<lambda>s.
     bind_res (if p = [] then new_vnode spc [] \<lparr>vstate = INTERMEDIATE_NODE, vphy = None\<rparr> s else Inr s)
       (unmap_tables spc addr class))))"

definition map_page :: "nat \<Rightarrow> nat \<Rightarrow> path \<Rightarrow> u32 \<Rightarrow> vmem \<Rightarrow> (int \<times> vmem) res" where
  "map_page spc addr page flags s =
     bind_res (assert_res (flags AND PROT_LAZY = 0 \<or> flags AND PROT_SHARE = 0)) (\<lambda>_.
     bind_res (assert_res (addr mod 2 ^ page_class page = 0)) (\<lambda>_.
     bind_res (if flags AND ALLOC_WEAK \<noteq> 0 then Inr s
       else bind_res (unmap_page spc addr (page_class page) (s\<lparr>pm := page_ref page (pm s)\<rparr>)) (\<lambda>s.
            bind_res (page_lookup_virtual spc addr (page_class page) LOOKUP_ALLOC s) (\<lambda>(p, s).
            Inr (link_mapping page (set_vnode spc p
              (Some \<lparr>vstate = (PAGE_PROT flags AND NOT PROT_COMBINE) OR MAPPING_NODE, vphy = Some page\<rparr>) s))))) 
       (map_tables spc addr page flags)))"

section \<open>Regions\<close>

text \<open>
  The loops over a region: first pages of growing class up to \<open>lim\<close>, as the address has set bits, then pages of falling class. \<open>act c off\<close> treats the page
  of class \<open>c\<close> at the offset \<open>off\<close>; a negative result ends the loop.
\<close>

lemma power_room: "off + 2 ^ c \<le> len \<Longrightarrow> off < (len :: nat)"
  using zero_less_power [of "2 :: nat" c] by linarith

function region_up :: "(nat \<Rightarrow> nat \<Rightarrow> 's \<Rightarrow> (int \<times> 's) res) \<Rightarrow> nat \<Rightarrow> nat \<Rightarrow> nat \<Rightarrow> nat \<Rightarrow> nat \<Rightarrow> 's \<Rightarrow> ((int + nat \<times> nat) \<times> 's) res" where
  "region_up act dst len lim c off s =
     (if c < lim \<and> off + 2 ^ c \<le> len
      then if bit (dst + off) c
           then bind_res (act c off s) (\<lambda>(r, s). if r < 0 then Inr (Inl r, s) else region_up act dst len lim (Suc c) (off + 2 ^ c) s)
           else region_up act dst len lim (Suc c) off s
      else Inr (Inr (c, off), s))"
  by pat_completeness auto
termination by (relation "measure (\<lambda>(act, dst, len, lim, c, off, s). lim - c)") auto

declare region_up.simps [simp del]

text \<open>\<open>n\<close> is the class plus one.\<close>

function region_down :: "(nat \<Rightarrow> nat \<Rightarrow> 's \<Rightarrow> (int \<times> 's) res) \<Rightarrow> nat \<Rightarrow> nat \<Rightarrow> nat \<Rightarrow> 's \<Rightarrow> (int \<times> 's) res" where
  "region_down act len 0 off s = Inr (0, s)"
| "region_down act len (Suc c) off s =
     (if off + 2 ^ c \<le> len
      then bind_res (act c off s) (\<lambda>(r, s). if r < 0 then Inr (r, s) else region_down act len (Suc c) (off + 2 ^ c) s)
      else region_down act len c off s)"
  by pat_completeness auto
termination by (relation "measures [\<lambda>(act, len, n, off, s). len - off, \<lambda>(act, len, n, off, s). n]") (auto intro!: diff_less_mono2 dest: power_room)

declare region_down.simps [simp del]

definition map_loop :: "(nat \<Rightarrow> nat \<Rightarrow> 's \<Rightarrow> (int \<times> 's) res) \<Rightarrow> nat \<Rightarrow> nat \<Rightarrow> nat \<Rightarrow> 's \<Rightarrow> (int \<times> 's) res" where
  "map_loop act dst len lim s =
     bind_res (region_up act dst len lim 0 0 s) (\<lambda>(x, s). case x of Inl r \<Rightarrow> Inr (r, s) | Inr (c, off) \<Rightarrow> region_down act len (Suc c) off s)"

text \<open>\<^verbatim>\<open>unmap_region\<close> takes at most one page of each class on the way down.\<close>

fun unmap_down :: "(nat \<Rightarrow> nat \<Rightarrow> 's \<Rightarrow> 's res) \<Rightarrow> nat \<Rightarrow> nat \<Rightarrow> nat \<Rightarrow> 's \<Rightarrow> 's res" where
  "unmap_down act len 0 off s = Inr s"
| "unmap_down act len (Suc c) off s =
     (if off < len
      then if off + 2 ^ c \<le> len then bind_res (act c off s) (unmap_down act len c (off + 2 ^ c)) else unmap_down act len c off s
      else Inr s)"

definition unmap_region :: "nat \<Rightarrow> nat \<Rightarrow> nat \<Rightarrow> vmem \<Rightarrow> vmem res" where
  "unmap_region spc dst sz s =
     (let start = dst div 4096; len = (dst + sz + 4095) div 4096 - start; act = (\<lambda>c off. unmap_page spc (start + off) c) in
      bind_res (region_up (\<lambda>c off s. bind_res (act c off s) (\<lambda>s. Inr (0, s))) start len MAX_CLASS 0 0 s) (\<lambda>(x, s).
      case x of Inl _ \<Rightarrow> Inr s | Inr (c, off) \<Rightarrow> unmap_down act len (Suc c) off s))"

function addr_common_class_from :: "nat \<Rightarrow> nat \<Rightarrow> nat \<Rightarrow> nat" where
  "addr_common_class_from a b c = (if bit a c = bit b c \<and> c < MAX_CLASS then addr_common_class_from a b (Suc c) else c)"
  by pat_completeness auto
termination by (relation "measure (\<lambda>(a, b, c). MAX_CLASS - c)") auto

declare addr_common_class_from.simps [simp del]

text \<open>In bytes; both addresses must be page aligned.\<close>

definition addr_common_class :: "nat \<Rightarrow> nat \<Rightarrow> nat res" where
  "addr_common_class a b =
     bind_res (assert_res (a mod 4096 = 0 \<and> b mod 4096 = 0)) (\<lambda>_. Inr (addr_common_class_from (a div 4096) (b div 4096) 0))"

definition MAX_USER :: nat where "MAX_USER = 0x8000000000"

definition map_physical_region :: "nat \<Rightarrow> nat \<Rightarrow> nat \<Rightarrow> nat \<Rightarrow> u32 \<Rightarrow> vmem \<Rightarrow> (int \<times> vmem) res" where
  "map_physical_region spc dstart pstart sz flags s =
     bind_res (assert_res (MAX_USER < dstart \<or> spc = 0)) (\<lambda>_.
     let start = dstart div 4096; len = (dstart + sz + 4095) div 4096 - start; pstart = pstart div 4096 in
     bind_res (addr_common_class dstart (4096 * pstart)) (\<lambda>lim.
     map_loop (\<lambda>c off s. bind_res (page_lookup [] (pstart + off) c PARTIAL_NODE (pm s)) (\<lambda>(page, m).
       map_page spc (start + off) page flags (s\<lparr>pm := m\<rparr>))) start len lim s))"

function maxref_from :: "nat \<Rightarrow> nat \<Rightarrow> nat \<Rightarrow> nat \<Rightarrow> vmem \<Rightarrow> nat res" where
  "maxref_from spc start fin acc s =
     (if start < fin
      then bind_res (page_lookup_virtual spc start 0 LOOKUP_PRESERVE s) (\<lambda>(p, _).
        case Option.bind (vtree s spc p) vphy of
          Some q \<Rightarrow>
            (case nodes (pm s) q of None \<Rightarrow> Inl NullDeref | Some n \<Rightarrow>
             maxref_from spc (start + 2 ^ page_class q) fin
               (max acc (refc n + (if nodes (pm s) (False # q) \<noteq> None \<or> nodes (pm s) (True # q) \<noteq> None then 1 else 0))) s)
        | None \<Rightarrow> maxref_from spc (start + 1) fin acc s)
      else Inr acc)"
  by pat_completeness auto
termination by (relation "measure (\<lambda>(spc, start, fin, acc, s). fin - start)") (auto intro!: diff_less_mono2)

declare maxref_from.simps [simp del]

definition region_maxref :: "nat \<Rightarrow> nat \<Rightarrow> nat \<Rightarrow> vmem \<Rightarrow> nat res" where
  "region_maxref spc addr sz = maxref_from spc (addr div 4096) ((addr + sz + 4095) div 4096) 0"

section \<open>Allocation and lazy copies\<close>

text \<open>\<open>flags\<close> never has \<^verbatim>\<open>ALLOC_POOL\<close> here.\<close>

fun alloc_composite_page :: "nat \<Rightarrow> nat \<Rightarrow> nat \<Rightarrow> u32 \<Rightarrow> vmem \<Rightarrow> (int \<times> vmem) res" where
  "alloc_composite_page spc addr c flags s =
     bind_res (assert_res (addr mod 2 ^ c = 0)) (\<lambda>_.
     bind_res (alloc_page c (flags AND ALLOC_BOOTMEM \<noteq> 0) (pm s)) (\<lambda>(page, m). let s = s\<lparr>pm := m\<rparr> in case page of
       Some p \<Rightarrow> map_page spc addr p flags s
     | None \<Rightarrow> (case c of 0 \<Rightarrow> Inr (- E_NO_MEM, s) | Suc b \<Rightarrow>
         bind_res (alloc_composite_page spc addr b flags s) (\<lambda>(r, s). if r < 0 then Inr (r, s) else
         bind_res (alloc_composite_page spc (addr + 2 ^ b) b flags s) (\<lambda>(r, s).
         if r < 0 then bind_res (unmap_page spc addr b s) (\<lambda>s. Inr (r, s)) else Inr (r, s))))))"

declare alloc_composite_page.simps [simp del]

text \<open>
  Writing the words with the given numbers to the page \<open>va\<close> of a space, as the processor does it: \<open>val\<close> is what is written. Write protection is off; a
  missing page would fault in the kernel.
\<close>

fun store_words :: "nat \<Rightarrow> nat \<Rightarrow> (nat \<Rightarrow> (nat \<Rightarrow> u64) \<Rightarrow> u64) \<Rightarrow> nat list \<Rightarrow> (nat \<Rightarrow> u64) \<Rightarrow> (nat \<Rightarrow> u64) res" where
  "store_words r va val [] m = Inr m"
| "store_words r va val (i # is) m = (case hw_frame m r (va + i div 512) of None \<Rightarrow> Inl KernPanic
     | Some f \<Rightarrow> store_words r va val is (m(512 * f + i mod 512 := val i m)))"

definition switch_address_space :: "nat \<Rightarrow> vmem \<Rightarrow> vmem" where
  "switch_address_space spc s =
     (if current_space s = Some spc then s
      else s\<lparr>current_space := Some spc, pm := (pm s)\<lparr>in_kspace := True\<rparr>, tlb := Lcr3 # tlb s\<rparr>)"

definition in_space :: "nat \<Rightarrow> (vmem \<Rightarrow> vmem res) \<Rightarrow> vmem \<Rightarrow> vmem res" where
  "in_space spc f s = (case current_space s of None \<Rightarrow> Inl AssertFail | Some old \<Rightarrow>
     bind_res (f (switch_address_space spc s)) (\<lambda>s. Inr (switch_address_space old s)))"

definition memcpy_page :: "nat \<Rightarrow> nat \<Rightarrow> path \<Rightarrow> vmem \<Rightarrow> vmem res" where
  "memcpy_page spc va page = in_space spc (\<lambda>s.
     bind_res (KADDR (page_addr page) s) (\<lambda>k.
     bind_res (store_words (cr3 s spc) va (\<lambda>i m. m (k + i)) [0..<512 * 2 ^ page_class page] (mem s)) (\<lambda>m. Inr (s\<lparr>mem := m\<rparr>))))"

definition fill_pages :: "nat \<Rightarrow> nat \<Rightarrow> nat \<Rightarrow> u64 \<Rightarrow> vmem \<Rightarrow> vmem res" where
  "fill_pages spc va c e = in_space spc (\<lambda>s.
     bind_res (store_words (cr3 s spc) va (\<lambda>i m. e) [0..<512 * 2 ^ c] (mem s)) (\<lambda>m. Inr (s\<lparr>mem := m\<rparr>)))"

definition PAGE_IS_UNIQ :: "phys \<Rightarrow> path \<Rightarrow> bool" where
  "PAGE_IS_UNIQ m q = (case nodes m q of None \<Rightarrow> False
     | Some n \<Rightarrow> refc n = 1 \<and> nodes m (False # q) = None \<and> nodes m (True # q) = None)"

text \<open>\<open>va\<close> is in bytes; \<open>destroy\<close> is \<^verbatim>\<open>env_destroy\<close>, called for the environment of a space that has run out of memory.\<close>

definition force_alloc_in :: "nat \<Rightarrow> nat \<Rightarrow> nat \<Rightarrow> vmem \<Rightarrow> (int \<times> vmem) res" where
  "force_alloc_in spc va maxclass s =
     bind_res (page_lookup_virtual spc va maxclass LOOKUP_SPLIT s) (\<lambda>(_, s).
     bind_res (page_lookup_virtual spc va 0 LOOKUP_PRESERVE s) (\<lambda>(p, s).
     case vtree s spc p of None \<Rightarrow> Inl NullDeref | Some n \<Rightarrow>
     if vstate n AND PROT_LAZY = 0 then Inr (- E_FAULT, s)
     else case vphy n of None \<Rightarrow> Inl NullDeref | Some q \<Rightarrow>
     let va = va div 2 ^ page_class q * 2 ^ page_class q in
     if PAGE_IS_UNIQ (pm s) q then map_page spc va q (vstate n AND NOT PROT_LAZY) s
     else bind_res (alloc_composite_page spc va (page_class q) (vstate n AND PROT_ALL AND NOT PROT_LAZY) (s\<lparr>pm := page_ref q (pm s)\<rparr>)) (\<lambda>(r, s).
          bind_res (if r = 0 then memcpy_page spc va q s else Inr s) (\<lambda>s.
          bind_res (unref_page q s) (\<lambda>s. Inr (r, s))))))"

definition force_alloc_page :: "(nat \<Rightarrow> vmem \<Rightarrow> vmem res) \<Rightarrow> nat \<Rightarrow> nat \<Rightarrow> nat \<Rightarrow> vmem \<Rightarrow> (int \<times> vmem) res" where
  "force_alloc_page destroy spc va maxclass s = (case current_space s of None \<Rightarrow> Inl AssertFail | Some old \<Rightarrow>
     let spc = (if MAX_USER < va then 0 else spc) in
     bind_res (force_alloc_in spc (va div 4096) maxclass (switch_address_space spc s)) (\<lambda>(r, s).
     let s = switch_address_space old s in
     if r = - E_NO_MEM then if spc \<noteq> 0 then bind_res (destroy (spc - 1) s) (\<lambda>s. Inr (r, s)) else Inl KernPanic
     else bind_res (assert_res (r = 0 \<or> r = - E_FAULT)) (\<lambda>_. Inr (r, s))))"

section \<open>Mapping from another space\<close>

text \<open>\<open>dst\<close> and \<open>src\<close> count frames from here on.\<close>

definition combined_flags :: "u32 \<Rightarrow> u32 \<Rightarrow> u32" where
  "combined_flags oldflags flags =
     (if flags AND PROT_COMBINE \<noteq> 0
      then if oldflags AND PROT_SHARE \<noteq> 0 then flags AND oldflags else flags AND (oldflags OR PROT_LAZY)
      else flags)"

definition map_flags :: "u32 \<Rightarrow> u32 \<Rightarrow> u32" where
  "map_flags oldflags flags =
     (if oldflags AND PROT_SHARE \<noteq> 0 \<and> flags AND PROT_LAZY \<noteq> 0 then (flags AND NOT PROT_LAZY) OR PROT_SHARE else flags)"

definition map_referenced :: "nat \<Rightarrow> nat \<Rightarrow> nat \<Rightarrow> nat \<Rightarrow> path \<Rightarrow> u32 \<Rightarrow> u32 \<Rightarrow> vmem \<Rightarrow> (int \<times> vmem) res" where
  "map_referenced dspc dst sspc src phy oldflags flags s =
     (let flags = map_flags oldflags flags; need_remap = (flags AND PROT_LAZY \<noteq> 0 \<and> (sspc \<noteq> dspc \<or> src \<noteq> dst)) in
      bind_res (map_page dspc dst phy flags (s\<lparr>pm := page_ref phy (pm s)\<rparr>)) (\<lambda>(r, s).
      bind_res (if r = 0 \<and> need_remap then map_page sspc src phy (oldflags OR PROT_LAZY) s else Inr (r, s)) (\<lambda>(r, s).
      bind_res (unref_page phy s) (\<lambda>s. Inr (r, s)))))"

definition do_map_page :: "(nat \<Rightarrow> vmem \<Rightarrow> vmem res) \<Rightarrow> nat \<Rightarrow> nat \<Rightarrow> nat \<Rightarrow> nat \<Rightarrow> path \<Rightarrow> u32 \<Rightarrow> u32 \<Rightarrow> vmem \<Rightarrow> (int \<times> vmem) res" where
  "do_map_page destroy dspc dst sspc src phy oldflags flags s =
     (let flags = combined_flags oldflags flags in
      bind_res (assert_res (oldflags AND PROT_LAZY = 0 \<or> oldflags AND PROT_SHARE = 0)) (\<lambda>_.
      bind_res (assert_res (flags AND PROT_LAZY = 0 \<or> flags AND PROT_SHARE = 0)) (\<lambda>_.
      if flags AND PROT_LAZY = 0 \<and> NOT oldflags AND (PROT_R OR PROT_W OR PROT_X) AND flags \<noteq> 0 then Inr (- 3, s)
      else if flags AND PROT_LAZY = 0 \<and> oldflags AND PROT_LAZY \<noteq> 0
      then bind_res (force_alloc_page destroy sspc (4096 * src) MAX_CLASS s) (\<lambda>(r, s).
           if r < 0 \<or> (sspc = dspc \<and> src = dst) then Inr (r, s)
           else bind_res (page_lookup_virtual sspc src (page_class phy) LOOKUP_PRESERVE s) (\<lambda>(p, s).
           bind_res (assert_res (page_class p = page_class phy)) (\<lambda>_.
           case Option.bind (vtree s sspc p) vphy of None \<Rightarrow> Inl AssertFail
           | Some phy \<Rightarrow> map_referenced dspc dst sspc src phy oldflags flags s)))
      else map_referenced dspc dst sspc src phy oldflags flags s)))"

fun do_map_subtree :: "(nat \<Rightarrow> vmem \<Rightarrow> vmem res) \<Rightarrow> nat \<Rightarrow> nat \<Rightarrow> nat \<Rightarrow> nat \<Rightarrow> nat \<Rightarrow> path \<Rightarrow> u32 \<Rightarrow> vmem \<Rightarrow> (int \<times> vmem) res" where
  "do_map_subtree destroy 0 dspc dst sspc src p flags s = Inr (0, s)"
| "do_map_subtree destroy (Suc k) dspc dst sspc src p flags s = (case vtree s sspc p of None \<Rightarrow> Inr (0, s) | Some n \<Rightarrow>
     case vphy n of
       Some q \<Rightarrow> bind_res (assert_res (vstate n AND NODE_TYPE_MASK = MAPPING_NODE)) (\<lambda>_.
         do_map_page destroy dspc dst sspc src q (vstate n AND PROT_ALL) flags s)
     | None \<Rightarrow> bind_res (assert_res (vstate n = INTERMEDIATE_NODE)) (\<lambda>_.
         bind_res (do_map_subtree destroy k dspc dst sspc src (False # p) flags s) (\<lambda>(r, s).
         if r \<noteq> 0 then Inr (r, s)
         else do_map_subtree destroy k dspc (dst + 2 ^ (page_class p - 1)) sspc (src + 2 ^ (page_class p - 1)) (True # p) flags s)))"

fun map_fillers :: "nat \<Rightarrow> nat list \<Rightarrow> path \<Rightarrow> u32 \<Rightarrow> vmem \<Rightarrow> (int \<times> vmem) res" where
  "map_fillers spc [] page flags s = Inr (0, s)"
| "map_fillers spc (a # as) page flags s =
     bind_res (map_page spc a page flags s) (\<lambda>(r, s). if r \<noteq> 0 then Inr (r, s) else map_fillers spc as page flags s)"

definition absdiff :: "nat \<Rightarrow> nat \<Rightarrow> nat" where "absdiff x y = (if y < x then x - y else y - x)"

definition do_map_region_one_page :: "(nat \<Rightarrow> vmem \<Rightarrow> vmem res) \<Rightarrow> nat \<Rightarrow> nat \<Rightarrow> nat option \<Rightarrow> nat \<Rightarrow> nat \<Rightarrow> u32 \<Rightarrow> vmem \<Rightarrow> (int \<times> vmem) res" where
  "do_map_region_one_page destroy dspc dst sspace src c flags s =
     bind_res (assert_res (sspace = Some dspc \<and> src \<noteq> dst \<longrightarrow> 2 ^ c \<le> absdiff dst src)) (\<lambda>_.
     if flags AND (ALLOC_ONE OR ALLOC_ZERO) \<noteq> 0
     then if flags AND PROT_SHARE \<noteq> 0
          then bind_res (alloc_composite_page dspc dst c (flags AND PROT_ALL AND NOT (PROT_LAZY OR PROT_COMBINE)) s) (\<lambda>(r, s).
               if r \<noteq> 0 then Inr (r, s)
               else bind_res (fill_pages dspc dst c (if flags AND ALLOC_ONE \<noteq> 0 then - 1 else 0) s) (\<lambda>s. Inr (0, s)))
          else let cpage = (if flags AND ALLOC_ONE \<noteq> 0 then one_page s else zero_page s); d = min c MAX_ALLOCATION_CLASS in
               bind_res (page_lookup cpage (page_addr cpage) d PARTIAL_NODE (pm s)) (\<lambda>(page, m).
               bind_res (assert_res (page_class page = d)) (\<lambda>_.
               map_fillers dspc (map (\<lambda>i. dst + i * 2 ^ d) [0..<2 ^ (c - d)]) page ((flags AND PROT_ALL AND NOT PROT_COMBINE) OR PROT_LAZY) (s\<lparr>pm := m\<rparr>)))
     else case sspace of None \<Rightarrow> Inl NullDeref | Some sspc \<Rightarrow>
          bind_res (page_lookup_virtual sspc src c LOOKUP_ALLOC s) (\<lambda>(p, s). case vtree s sspc p of None \<Rightarrow> Inl NullDeref | Some n \<Rightarrow>
          case vphy n of
            Some q \<Rightarrow>
              if c < page_class q
              then bind_res (page_lookup q src c PARTIAL_NODE (pm s)) (\<lambda>(page, m).
                   do_map_page destroy dspc dst sspc src page (vstate n AND PROT_ALL) flags (s\<lparr>pm := m\<rparr>))
              else do_map_subtree destroy (Suc (page_class p)) dspc dst sspc src p flags s
          | None \<Rightarrow> do_map_subtree destroy (Suc (page_class p)) dspc dst sspc src p flags s))"

text \<open>In bytes; a null \<^verbatim>\<open>dspace\<close> is not passed by any caller.\<close>

definition map_region :: "(nat \<Rightarrow> vmem \<Rightarrow> vmem res) \<Rightarrow> nat \<Rightarrow> nat \<Rightarrow> nat option \<Rightarrow> nat \<Rightarrow> nat \<Rightarrow> u32 \<Rightarrow> vmem \<Rightarrow> (int \<times> vmem) res" where
  "map_region destroy dspc dst sspace src sz flags s =
     (if src mod 4096 \<noteq> 0 \<or> (sspace = None \<and> flags AND (ALLOC_ZERO OR ALLOC_ONE) = 0) then Inr (- 3, s)
      else if dst mod 4096 \<noteq> 0 then Inr (- 3, s)
      else if sz mod 4096 \<noteq> 0 \<or> sz = 0 then Inr (- 3, s)
      else bind_res (assert_res (sspace \<noteq> Some dspc \<or> dst \<le> src \<or> sz \<le> absdiff src dst)) (\<lambda>_.
           bind_res (addr_common_class src dst) (\<lambda>lim.
           map_loop (\<lambda>c off. do_map_region_one_page destroy dspc (dst div 4096 + off) sspace (src div 4096 + off) c flags)
             (dst div 4096) (sz div 4096) lim s)))"

section \<open>Address spaces\<close>

definition release_address_space :: "nat \<Rightarrow> vmem \<Rightarrow> vmem res" where
  "release_address_space spc s =
     bind_res (foldl (\<lambda>r i. bind_res r (\<lambda>s. let e = mem s (512 * cr3 s 0 + i) in
       if present e \<and> i \<noteq> UVPT_INDEX then unref_frame (pte_frame e) s else Inr s)) (Inr s) [NUSERPML4..<512]) (\<lambda>s.
     bind_res (unmap_page spc 0 MAX_CLASS s) (\<lambda>s.
     bind_res (unref_frame (cr3 s spc) s) (\<lambda>s.
     Inr (s\<lparr>cr3 := (cr3 s)(spc := 0), vtree := (vtree s)(spc := \<lambda>p. None)\<rparr>))))"

definition init_address_space :: "nat \<Rightarrow> vmem \<Rightarrow> (int \<times> vmem) res" where
  "init_address_space spc s =
     bind_res (alloc_pt_to 0 (\<lambda>e s. s\<lparr>cr3 := (cr3 s)(spc := pte_frame e)\<rparr>) (s\<lparr>cr3 := (cr3 s)(spc := 0)\<rparr>)) (\<lambda>(_, s).
     bind_res (KADDR (cr3 s spc) s) (\<lambda>pml4.
     bind_res (new_vnode spc [] \<lparr>vstate = INTERMEDIATE_NODE, vphy = None\<rparr> s) (\<lambda>s.
     Inr (0, propagate_one_pml4 spc 0 (set_word (pml4 + UVPT_INDEX) (frame_bytes (cr3 s spc) OR PTE_P OR PTE_U) s)))))"

definition init_kspace :: "vmem \<Rightarrow> vmem res" where
  "init_kspace s =
     bind_res (alloc_page 0 True (pm s)) (\<lambda>(page, m). case page of None \<Rightarrow> Inl NullDeref | Some p \<Rightarrow>
     let s = s\<lparr>pm := page_ref p m\<rparr> in
     bind_res (KADDR (page_addr p) s) (\<lambda>k.
     let s = s\<lparr>cr3 := (cr3 s)(0 := page_addr p), mem := (\<lambda>w. if k \<le> w \<and> w < k + 512 then 0 else mem s w)\<rparr> in
     new_vnode 0 [] \<lparr>vstate = INTERMEDIATE_NODE, vphy = None\<rparr> (set_word (k + UVPT_INDEX) (page2pa p OR PTE_P OR PTE_U) s)))"

definition KERN_HEAP_END :: nat where "KERN_HEAP_END = 0x8040000000 - 0x200000"

definition round_page :: "nat \<Rightarrow> nat" where "round_page n = (n + 4095) div 4096 * 4096"

definition kzalloc_region :: "(nat \<Rightarrow> vmem \<Rightarrow> vmem res) \<Rightarrow> nat \<Rightarrow> vmem \<Rightarrow> (nat \<times> vmem) res" where
  "kzalloc_region destroy n s =
     bind_res (assert_res (current_space s \<noteq> None)) (\<lambda>_.
     let sz = round_page n; a = metaheaptop s in
     if KERN_HEAP_END < a + sz then Inl KernPanic
     else bind_res (map_region destroy 0 a None 0 sz (PROT_R OR PROT_W OR ALLOC_ZERO) (s\<lparr>metaheaptop := a + sz\<rparr>)) (\<lambda>(r, s).
          if r < 0 then Inl KernPanic else Inr (a, s)))"

definition mmio_map_region :: "nat \<Rightarrow> nat \<Rightarrow> vmem \<Rightarrow> (nat \<times> vmem) res" where
  "mmio_map_region addr sz s =
     bind_res (assert_res (current_space s = Some 0)) (\<lambda>_.
     let start = addr div 4096 * 4096; fin = round_page (addr + sz); a = metaheaptop s in
     bind_res (map_physical_region 0 a start (fin - start) (PROT_R OR PROT_W OR PROT_CD) (s\<lparr>prev_mmio := a, metaheaptop := a + (fin - start)\<rparr>)) (\<lambda>(r, s).
     if r < 0 then Inl KernPanic else Inr (a + addr - start, s)))"

definition mmio_remap_last_region :: "nat \<Rightarrow> nat \<Rightarrow> nat \<Rightarrow> vmem \<Rightarrow> (nat \<times> vmem) res" where
  "mmio_remap_last_region addr oldva sz s =
     (let start = addr div 4096 * 4096; fin = round_page (addr + sz) in
      if prev_mmio s + addr - start \<noteq> oldva \<and> prev_mmio s + fin - start \<noteq> metaheaptop s then Inl KernPanic
      else mmio_map_region addr sz (s\<lparr>metaheaptop := prev_mmio s\<rparr>))"

fun check_virtual_tree :: "nat \<Rightarrow> nat \<Rightarrow> path \<Rightarrow> vmem \<Rightarrow> unit res" where
  "check_virtual_tree 0 spc p s = Inl AssertFail"
| "check_virtual_tree (Suc k) spc p s = (case vtree s spc p of None \<Rightarrow> Inl NullDeref | Some n \<Rightarrow>
     bind_res (if vstate n AND NODE_TYPE_MASK = MAPPING_NODE
       then case vphy n of None \<Rightarrow> Inl AssertFail | Some q \<Rightarrow>
            assert_res ((vstate n AND PROT_LAZY = 0 \<or> vstate n AND PROT_SHARE = 0) \<and>
              vtree s spc (False # p) = None \<and> vtree s spc (True # p) = None \<and> page_class q = k)
       else assert_res (vphy n = None \<and> vstate n = INTERMEDIATE_NODE)) (\<lambda>_.
     bind_res (if vtree s spc (False # p) \<noteq> None then check_virtual_tree k spc (False # p) s else Inr ()) (\<lambda>_.
     if vtree s spc (True # p) \<noteq> None then check_virtual_tree k spc (True # p) s else Inr ())))"

end
