(* ===== verification/AddrSpace.thy ===== *)
theory AddrSpace
  imports VirtMem
begin

unbundle bit_operations_syntax

text \<open>
  What the operations of \<open>VirtMem\<close> do to an address space. The abstraction of a tree is a partial function: \<open>vabs t v\<close> is the
  physical frame behind the virtual frame \<open>v\<close> and the state of its mapping. Looking up and splitting leave it alone, unmapping a page or a region
  removes exactly that range, mapping replaces exactly that range by consecutive frames.
\<close>

section \<open>The abstraction\<close>

type_synonym vtree = "path \<Rightarrow> vnode option"

fun vabs_at :: "nat \<Rightarrow> vtree \<Rightarrow> nat \<Rightarrow> path \<Rightarrow> (nat \<times> u32) option" where
  "vabs_at k t v p = (case t p of None \<Rightarrow> None | Some n \<Rightarrow>
     case vphy n of Some q \<Rightarrow> Some (page_addr q + (v - page_addr p), vstate n)
     | None \<Rightarrow> (case k of 0 \<Rightarrow> None | Suc k \<Rightarrow> vabs_at k t v (bit v (page_class p - 1) # p)))"

declare vabs_at.simps [simp del]

definition vabs :: "vtree \<Rightarrow> nat \<Rightarrow> (nat \<times> u32) option" where
  "vabs t v = (if v < 2 ^ MAX_CLASS then vabs_at MAX_CLASS t v [] else None)"

text \<open>The shape of a tree.\<close>

definition node_ok :: "path \<Rightarrow> vnode \<Rightarrow> bool" where
  "node_ok p n \<longleftrightarrow> length p \<le> MAX_CLASS \<and> (case vphy n of None \<Rightarrow> vstate n = INTERMEDIATE_NODE
     | Some q \<Rightarrow> length q = length p \<and> vstate n AND NODE_TYPE_MASK = MAPPING_NODE \<and> (vstate n AND PROT_LAZY = 0 \<or> vstate n AND PROT_SHARE = 0))"

definition vtree_ok :: "vtree \<Rightarrow> bool" where
  "vtree_ok t \<longleftrightarrow> t [] \<noteq> None \<and> (\<forall>p n. t p = Some n \<longrightarrow> node_ok p n) \<and>
     (\<forall>b p. t (b # p) \<noteq> None \<longrightarrow> (\<exists>n. t p = Some n \<and> vphy n = None))"

lemma vtree_okD:
  assumes "vtree_ok t"
  shows "t [] \<noteq> None" "t p = Some n \<Longrightarrow> node_ok p n" "t (b # p) \<noteq> None \<Longrightarrow> \<exists>n. t p = Some n \<and> vphy n = None"
    "t p = Some n \<Longrightarrow> length p \<le> MAX_CLASS" "t p = Some n \<Longrightarrow> vphy n = Some q \<Longrightarrow> length q = length p"
  using assms by (auto simp: vtree_ok_def node_ok_def split: option.splits)

definition inter :: "vtree \<Rightarrow> path \<Rightarrow> bool" where
  "inter t p \<longleftrightarrow> (\<exists>n. t p = Some n \<and> vphy n = None)"

text \<open>The mapping of a frame, as a relation: the node that covers it.\<close>

definition maps_to :: "vtree \<Rightarrow> nat \<Rightarrow> nat \<Rightarrow> u32 \<Rightarrow> bool" where
  "maps_to t v f st \<longleftrightarrow> (\<exists>p n q. t p = Some n \<and> vphy n = Some q \<and> v \<in> frames p \<and> f = page_addr q + (v - page_addr p) \<and> st = vstate n)"

lemma above_intermediate:
  assumes "vtree_ok t" "t r \<noteq> None" "suffix p r" "p \<noteq> r"
  shows "\<exists>n. t p = Some n \<and> vphy n = None"
  using assms(2-4)
proof (induction r)
  case (Cons b r)
  have "\<exists>n. t r = Some n \<and> vphy n = None" using vtree_okD(3) [OF assms(1) Cons.prems(1)] .
  then show ?case using Cons by (auto simp: suffix_Cons)
qed simp

text \<open>Two mappings do not overlap.\<close>

lemma mapping_unique:
  assumes "vtree_ok t" "t p = Some n" "vphy n = Some q" "t p' = Some n'" "vphy n' = Some q'" "v \<in> frames p" "v \<in> frames p'"
  shows "p = p'"
proof -
  have "suffix p p' \<or> suffix p' p" using frames_overlap [of p p'] assms(6,7) vtree_okD(4) [OF assms(1)] assms(2,4) by auto
  then show ?thesis using above_intermediate [OF assms(1)] assms(2-5) by (metis option.distinct(1) option.inject)
qed

lemma vabs_at_here:
  assumes "\<And>r n q. t r = Some n \<Longrightarrow> vphy n = Some q \<Longrightarrow> v \<in> frames r \<Longrightarrow> r = p" "v \<in> frames p"
    and "k = 0 \<or> (\<nexists>n. t p = Some n \<and> vphy n = None)"
  shows "vabs_at k t v p = Some (f, st) \<longleftrightarrow> maps_to t v f st"
proof -
  have m: "maps_to t v f st \<longleftrightarrow> (\<exists>n q. t p = Some n \<and> vphy n = Some q \<and> f = page_addr q + (v - page_addr p) \<and> st = vstate n)"
    unfolding maps_to_def by (use assms(1,2) in metis)
  note e = vabs_at.simps [of k t v p]
  show ?thesis
  proof (cases "t p")
    case (Some n)
    then show ?thesis using m e assms(3) by (cases "vphy n"; cases k) auto
  qed (use m e in simp)
qed

lemma vabs_at_maps:
  assumes "vtree_ok t" "v \<in> frames p" "length p + k = MAX_CLASS" "\<And>r. r \<noteq> p \<Longrightarrow> suffix r p \<Longrightarrow> \<exists>n. t r = Some n \<and> vphy n = None"
  shows "vabs_at k t v p = Some (f, st) \<longleftrightarrow> maps_to t v f st"
  using assms(2-4)
proof (induction k arbitrary: p)
  case (0 p)
  then have len: "length p = MAX_CLASS" by simp
  show ?case
  proof (rule vabs_at_here)
    fix r n q assume r: "t r = Some n" "vphy n = Some q" "v \<in> frames r"
    have l: "length r \<le> MAX_CLASS" using vtree_okD(4) [OF assms(1) r(1)] .
    have "suffix p r \<or> suffix r p" using frames_overlap [of p r] r 0 len l by auto
    then show "r = p" using 0(3) [of r] r l len by (auto simp: suffix_def)
  qed (use 0 in simp_all)
next
  case (Suc k p)
  let ?c = "bit v (page_class p - 1) # p"
  have len: "length p < MAX_CLASS" using Suc.prems(2) by simp
  have c: "v \<in> frames ?c" using frames_turn [OF Suc.prems(1) len] .
  show ?case
  proof (cases "\<exists>n. t p = Some n \<and> vphy n = None")
    case True
    then have "vabs_at (Suc k) t v p = vabs_at k t v ?c" by (subst vabs_at.simps) auto
    moreover have "\<exists>n. t r = Some n \<and> vphy n = None" if "r \<noteq> ?c" "suffix r ?c" for r
      using that Suc.prems(3) True by (cases "r = p") (auto simp: suffix_Cons)
    ultimately show ?thesis using Suc.IH [OF c] Suc.prems(2) by simp
  next
    case False
    show ?thesis
    proof (rule vabs_at_here)
      fix r n q assume r: "t r = Some n" "vphy n = Some q" "v \<in> frames r"
      have "suffix p r \<or> suffix r p" using frames_overlap [of p r] r Suc.prems(1) len vtree_okD(4) [OF assms(1) r(1)] by auto
      moreover have "p = r" if "suffix p r" using False above_intermediate [OF assms(1), of r p] that r(1) by blast
      ultimately show "r = p" using Suc.prems(3) [of r] r by force
    qed (use Suc.prems False in simp_all)
  qed
qed

lemma frames_root: "frames [] = {0..<2 ^ MAX_CLASS}"
  by (simp add: frames_def page_class_def)

lemma frames_below: "t p = Some n \<Longrightarrow> vtree_ok t \<Longrightarrow> frames p \<subseteq> {0..<2 ^ MAX_CLASS}"
  using frames_suffix [of "[]" p] vtree_okD(4) [of t p n] by (simp add: frames_root)

lemma vabs_maps:
  assumes "vtree_ok t"
  shows "vabs t v = Some (f, st) \<longleftrightarrow> maps_to t v f st"
proof (cases "v < 2 ^ MAX_CLASS")
  case True
  then show ?thesis using vabs_at_maps [OF assms, of v "[]" MAX_CLASS] by (simp add: vabs_def frames_root)
next
  case False
  then show ?thesis using frames_below [OF _ assms] by (fastforce simp: vabs_def maps_to_def)
qed

lemma vabs_eqI:
  assumes "vtree_ok t" "\<And>f st. maps_to t v f st \<longleftrightarrow> x = Some (f, st)"
  shows "vabs t v = x"
proof -
  have "vabs t v = Some y \<longleftrightarrow> x = Some y" for y using vabs_maps [OF assms(1), of v "fst y" "snd y"] assms(2) by simp
  then show ?thesis by (metis option.exhaust)
qed

section \<open>Splitting and lookup\<close>

text \<open>An operation on the tree of one space: everything else but the physical pages stays.\<close>

definition tree_step :: "nat \<Rightarrow> vmem \<Rightarrow> vmem \<Rightarrow> bool" where
  "tree_step spc s t \<longleftrightarrow> (\<exists>m u. t = s\<lparr>pm := m, vtree := (vtree s)(spc := u)\<rparr>)"

lemma tree_stepI: "t = s\<lparr>pm := m, vtree := (vtree s)(spc := u)\<rparr> \<Longrightarrow> tree_step spc s t"
  unfolding tree_step_def by blast

lemma tree_step_pm: "tree_step spc s t \<Longrightarrow> tree_step spc s (t\<lparr>pm := m\<rparr>)"
proof -
  assume "tree_step spc s t"
  then obtain k u where "t = s\<lparr>pm := k, vtree := (vtree s)(spc := u)\<rparr>" unfolding tree_step_def by blast
  then show ?thesis by (intro tree_stepI [where m = m and u = u]) simp
qed

lemma tree_step_refl [simp]: "tree_step spc s s"
  by (rule tree_stepI [where m = "pm s" and u = "vtree s spc"]) simp

lemma tree_step_trans: "tree_step spc s t \<Longrightarrow> tree_step spc t u \<Longrightarrow> tree_step spc s u"
  unfolding tree_step_def by fastforce

lemma tree_step_other: "tree_step spc s t \<Longrightarrow> x \<noteq> spc \<Longrightarrow> vtree t x = vtree s x"
  unfolding tree_step_def by fastforce

lemma tree_step_from_pm: "tree_step spc (s\<lparr>pm := m\<rparr>) t \<Longrightarrow> tree_step spc s t"
  unfolding tree_step_def by fastforce

lemma set_vnode_simps [simp]:
  "pm (set_vnode spc p n s) = pm s" "vtree (set_vnode spc p n s) = (vtree s)(spc := (vtree s spc)(p := n))"
  "mem (set_vnode spc p n s) = mem s" "cr3 (set_vnode spc p n s) = cr3 s"
  by (simp_all add: set_vnode_def)

lemma set_vnode_step [intro]: "tree_step spc s t \<Longrightarrow> tree_step spc s (set_vnode spc p n t)"
  unfolding tree_step_def set_vnode_def by fastforce

lemma link_simps [simp]:
  "vtree (link_mapping q s) = vtree s" "vtree (unlink_mapping q s) = vtree s" "vtree (free_vnode spc p s) = (vtree s)(spc := (vtree s spc)(p := None))"
  by (simp_all add: link_mapping_def unlink_mapping_def free_vnode_def)

lemma link_step [intro]:
  "tree_step spc s t \<Longrightarrow> tree_step spc s (link_mapping q t)" "tree_step spc s t \<Longrightarrow> tree_step spc s (unlink_mapping q t)"
  "tree_step spc s t \<Longrightarrow> tree_step spc s (free_vnode spc p t)"
  by (auto simp: link_mapping_def unlink_mapping_def free_vnode_def intro: tree_step_pm)

lemma new_vnode_tree:
  assumes "new_vnode spc p n s = Inr t"
  shows "vtree t = (vtree s)(spc := (vtree s spc)(p \<mapsto> n))" "tree_step spc s t"
  using assms by (auto simp: new_vnode_def bind_res_Inr_iff intro!: set_vnode_step tree_step_pm)

lemma unref_page_tree:
  assumes "unref_page q s = Inr t"
  shows "vtree t = vtree s" "tree_step spc s t"
  using assms by (auto simp: unref_page_def bind_res_Inr_iff intro: tree_step_pm)

lemma alloc_virtual_child_tree:
  assumes "alloc_virtual_child spc p b s = Inr t" "vtree s spc p = Some n" "vphy n = Some q"
  shows "vtree t = (vtree s)(spc := (vtree s spc)(b # p \<mapsto> \<lparr>vstate = vstate n, vphy = Some (b # q)\<rparr>))" "tree_step spc s t"
proof -
  obtain u where u: "new_vnode spc (b # p) \<lparr>vstate = vstate n, vphy = Some (b # q)\<rparr> s = Inr u"
      "t = link_mapping (b # q) (u\<lparr>pm := page_ref (b # q) (pm u)\<rparr>)"
    using assms by (auto simp: alloc_virtual_child_def bind_res_Inr_iff)
  note n = new_vnode_tree [OF u(1)]
  show "vtree t = (vtree s)(spc := (vtree s spc)(b # p \<mapsto> \<lparr>vstate = vstate n, vphy = Some (b # q)\<rparr>))" using n(1) u(2) by simp
  show "tree_step spc s t" using n(2) u(2) by (auto intro: tree_step_pm)
qed

lemma split_mapping_tree:
  assumes "split_mapping spc p n q s = Inr t" "vtree s spc p = Some n" "vphy n = Some q"
  shows "vtree t spc = (vtree s spc)(False # p \<mapsto> \<lparr>vstate = vstate n, vphy = Some (False # q)\<rparr>,
      True # p \<mapsto> \<lparr>vstate = vstate n, vphy = Some (True # q)\<rparr>, p \<mapsto> \<lparr>vstate = INTERMEDIATE_NODE, vphy = None\<rparr>)"
    and "tree_step spc s t" "page_class p = page_class q" "vstate n AND NODE_TYPE_MASK = MAPPING_NODE"
proof -
  obtain m s1 s2 s3 where s: "alloc_virtual_child spc p False (s\<lparr>pm := m\<rparr>) = Inr s1" "alloc_virtual_child spc p True s1 = Inr s2"
      "unref_page q (unlink_mapping q s2) = Inr s3" "t = set_vnode spc p (Some \<lparr>vstate = INTERMEDIATE_NODE, vphy = None\<rparr>) s3"
      and c: "page_class p = page_class q" "vstate n AND NODE_TYPE_MASK = MAPPING_NODE"
    using assms(1) by (auto simp: split_mapping_def bind_res_Inr_iff)
  show "page_class p = page_class q" "vstate n AND NODE_TYPE_MASK = MAPPING_NODE" by (rule c)+
  have n: "vtree (s\<lparr>pm := m\<rparr>) spc p = Some n" using assms(2) by simp
  note a = alloc_virtual_child_tree [OF s(1) n assms(3)]
  have n1: "vtree s1 spc p = Some n" using a(1) n by simp
  note b = alloc_virtual_child_tree [OF s(2) n1 assms(3)] and d = unref_page_tree [OF s(3)]
  show "vtree t spc = (vtree s spc)(False # p \<mapsto> \<lparr>vstate = vstate n, vphy = Some (False # q)\<rparr>,
      True # p \<mapsto> \<lparr>vstate = vstate n, vphy = Some (True # q)\<rparr>, p \<mapsto> \<lparr>vstate = INTERMEDIATE_NODE, vphy = None\<rparr>)"
    using a(1) b(1) d(1) s(4) by simp
  have "tree_step spc s s2" using tree_step_trans [OF tree_step_from_pm [OF a(2)] b(2)] .
  then have "tree_step spc s s3" using tree_step_trans [OF link_step(2) d(2)] by blast
  then show "tree_step spc s t" using s(4) by auto
qed

text \<open>Replacing a node of a tree by two halves, or adding an intermediate node, keeps the mappings.\<close>

lemma split_maps:
  assumes ok: "vtree_ok t" and n: "t p = Some n" "vphy n = Some q" "length p < MAX_CLASS" "vstate n AND NODE_TYPE_MASK = MAPPING_NODE"
    and u: "u = t(False # p \<mapsto> \<lparr>vstate = vstate n, vphy = Some (False # q)\<rparr>, True # p \<mapsto> \<lparr>vstate = vstate n, vphy = Some (True # q)\<rparr>,
      p \<mapsto> \<lparr>vstate = INTERMEDIATE_NODE, vphy = None\<rparr>)"
  shows "vtree_ok u" "maps_to u v f st = maps_to t v f st"
proof -
  have len: "length q = length p" using vtree_okD(5) [OF ok n(1,2)] .
  have kids: "t (b # p) = None" for b using vtree_okD(3) [OF ok, of b p] n by fastforce
  have up: "u p = Some \<lparr>vstate = INTERMEDIATE_NODE, vphy = None\<rparr>" by (simp add: u)
  have uk: "u (b # p) = Some \<lparr>vstate = vstate n, vphy = Some (b # q)\<rparr>" for b by (cases b) (simp_all add: u)
  have uo: "u r = t r" if "r \<noteq> p" "\<And>b. r \<noteq> b # p" for r using that by (simp add: u)
  show "vtree_ok u"
    unfolding vtree_ok_def
  proof (intro conjI allI impI)
    show "u [] \<noteq> None" using vtree_okD(1) [OF ok] by (simp add: u)
    show "node_ok r k" if "u r = Some k" for r k
      using that vtree_okD(2) [OF ok, of r k] vtree_okD(2) [OF ok n(1)] n(2,3) len
      by (auto simp: u node_ok_def split: if_splits)
    show "\<exists>k. u r = Some k \<and> vphy k = None" if "u (b # r) \<noteq> None" for b r
    proof (cases "r = p")
      case False
      show ?thesis
      proof (cases "\<exists>c. r = c # p")
        case True
        then have "t (b # r) \<noteq> None" using that by (auto simp: u split: if_splits)
        then show ?thesis using vtree_okD(3) [OF ok] kids True by fastforce
      next
        case nk: False
        then show ?thesis using that vtree_okD(3) [OF ok, of b r] uo [of r] False uo [of "b # r"] n
          by (cases "b # r = p") (auto simp: u split: if_splits)
      qed
    qed (simp add: up)
  qed
  have cls: "page_class (b # q) = page_class (b # p)" for b using len by (simp add: page_class_def)
  have half: "page_addr (b # q) + (v - page_addr (b # p)) = page_addr q + (v - page_addr p)" if "v \<in> frames (b # p)" for b
    using that cls [of b] by (auto simp: frames_def)
  have fr: "v \<in> frames p \<longleftrightarrow> v \<in> frames (False # p) \<or> v \<in> frames (True # p)" using frames_child(3) [OF n(3)] by blast
  show "maps_to u v f st = maps_to t v f st"
  proof
    assume "maps_to u v f st"
    then obtain r k q' where r: "u r = Some k" "vphy k = Some q'" "v \<in> frames r" "f = page_addr q' + (v - page_addr r)" "st = vstate k"
      unfolding maps_to_def by blast
    show "maps_to t v f st"
    proof (cases "\<exists>b. r = b # p")
      case True
      then obtain b where b: "r = b # p" by blast
      have "v \<in> frames p" using r(3) fr by (cases b) (simp_all add: b)
      then show ?thesis unfolding maps_to_def using r n(1,2) uk [of b] half [of b] by (fastforce simp: b)
    next
      case False
      then have "t r = Some k" using uo [of r] r(1,2) up by (cases "r = p") auto
      then show ?thesis unfolding maps_to_def using r by blast
    qed
  next
    assume "maps_to t v f st"
    then obtain r k q' where r: "t r = Some k" "vphy k = Some q'" "v \<in> frames r" "f = page_addr q' + (v - page_addr r)" "st = vstate k"
      unfolding maps_to_def by blast
    show "maps_to u v f st"
    proof (cases "r = p")
      case True
      then obtain b where b: "v \<in> frames (b # p)" using r(3) fr by blast
      show ?thesis unfolding maps_to_def using b uk [of b] half [OF b] r n(1,2) True by fastforce
    next
      case False
      then have "u r = Some k" using uo [of r] r(1) kids by fastforce
      then show ?thesis unfolding maps_to_def using r by blast
    qed
  qed
qed

lemma intermediate_maps:
  assumes ok: "vtree_ok t" and n: "t p = Some n" "vphy n = None" "t (b # p) = None" "length p < MAX_CLASS"
    and u: "u = t(b # p \<mapsto> \<lparr>vstate = INTERMEDIATE_NODE, vphy = None\<rparr>)"
  shows "vtree_ok u" "maps_to u v f st = maps_to t v f st"
proof -
  have kids: "t (c # b # p) = None" for c using vtree_okD(3) [OF ok, of c "b # p"] n by fastforce
  show "vtree_ok u"
    unfolding vtree_ok_def
  proof (intro conjI allI impI)
    show "u [] \<noteq> None" using vtree_okD(1) [OF ok] by (simp add: u)
    show "node_ok r k" if "u r = Some k" for r k
      using that vtree_okD(2) [OF ok, of r k] n(4) by (auto simp: u node_ok_def split: if_splits)
    show "\<exists>k. u r = Some k \<and> vphy k = None" if "u (c # r) \<noteq> None" for c r
      using that vtree_okD(3) [OF ok, of c r] n kids by (auto simp: u split: if_splits)
  qed
  show "maps_to u v f st = maps_to t v f st"
    unfolding maps_to_def u using n(3) by (metis fun_upd_other fun_upd_same option.distinct(1) option.inject vnode.select_convs(2))
qed

text \<open>What a lookup does to the tree: same mappings, new nodes no deeper than the class wanted.\<close>

definition looked_up :: "nat \<Rightarrow> nat \<Rightarrow> vmem \<Rightarrow> vmem \<Rightarrow> bool" where
  "looked_up spc d s t \<longleftrightarrow> vtree_ok (vtree t spc) \<and> (\<forall>v f st. maps_to (vtree t spc) v f st = maps_to (vtree s spc) v f st) \<and>
     tree_step spc s t \<and> (\<forall>r. d < length r \<longrightarrow> vtree t spc r = vtree s spc r) \<and> (\<forall>r. vtree s spc r \<noteq> None \<longrightarrow> vtree t spc r \<noteq> None) \<and>
     (\<forall>r. inter (vtree s spc) r \<longrightarrow> inter (vtree t spc) r)"

lemma looked_upD:
  assumes "looked_up spc d s t"
  shows "vtree_ok (vtree t spc)" "maps_to (vtree t spc) v f st = maps_to (vtree s spc) v f st" "tree_step spc s t"
    "d < length r \<Longrightarrow> vtree t spc r = vtree s spc r" "vtree s spc r \<noteq> None \<Longrightarrow> vtree t spc r \<noteq> None"
    "inter (vtree s spc) r \<Longrightarrow> inter (vtree t spc) r"
  using assms by (simp_all add: looked_up_def)

lemma looked_up_trans: "looked_up spc d s t \<Longrightarrow> looked_up spc d t u \<Longrightarrow> looked_up spc d s u"
  unfolding looked_up_def using tree_step_trans by (simp, blast)

lemma looked_up_pm: "looked_up spc d (s\<lparr>pm := m\<rparr>) t \<Longrightarrow> looked_up spc d s t"
  unfolding looked_up_def using tree_step_from_pm by (simp, blast)

lemma vabs_looked_up: "looked_up spc d s t \<Longrightarrow> vtree_ok (vtree s spc) \<Longrightarrow> vabs (vtree t spc) v = vabs (vtree s spc) v"
  by (rule vabs_eqI) (simp_all add: looked_upD vabs_maps)

text \<open>One step below the node \<open>p\<close> where the next node is missing.\<close>

lemma grow_node:
  assumes ok: "vtree_ok (vtree s spc)" and n: "vtree s spc p = Some n" "length p < d" "d \<le> MAX_CLASS" and none: "vtree s spc (b # p) = None"
    and run: "(case vphy n of Some q \<Rightarrow> split_mapping spc p n q s
      | None \<Rightarrow> bind_res (assert_res (vstate n = INTERMEDIATE_NODE)) (\<lambda>_. new_vnode spc (b # p) \<lparr>vstate = INTERMEDIATE_NODE, vphy = None\<rparr> s)) = Inr t"
  shows "looked_up spc d s t" "vtree t spc (b # p) \<noteq> None"
proof -
  have len: "length p < MAX_CLASS" using n by simp
  have deep: "r \<noteq> c # p" "r \<noteq> p" if "d < length r" for r c using that n(2) by auto
  have "looked_up spc d s t \<and> vtree t spc (b # p) \<noteq> None"
  proof (cases "vphy n")
    case (Some q)
    have sp: "split_mapping spc p n q s = Inr t" using run Some by simp
    note e = split_mapping_tree [OF sp n(1) Some]
    note m = split_maps [OF ok n(1) Some len e(4) e(1)]
    have "vtree t spc (b # p) \<noteq> None" using e(1) by (cases b) simp_all
    moreover have "inter (vtree t spc) r" if "inter (vtree s spc) r" for r
    proof (cases "r = p")
      case False
      have "r \<noteq> c # p" for c using that vtree_okD(3) [OF ok, of c p] n(1) Some by (auto simp: inter_def)
      then show ?thesis using that False by (simp add: inter_def e(1))
    qed (simp add: inter_def e(1))
    ultimately show ?thesis using m e(2) deep unfolding looked_up_def e(1) by auto
  next
    case None
    have nv: "new_vnode spc (b # p) \<lparr>vstate = INTERMEDIATE_NODE, vphy = None\<rparr> s = Inr t" using run None by (simp add: bind_res_Inr_iff)
    note e = new_vnode_tree [OF nv]
    have u: "vtree t spc = (vtree s spc)(b # p \<mapsto> \<lparr>vstate = INTERMEDIATE_NODE, vphy = None\<rparr>)" using e(1) by simp
    note m = intermediate_maps [OF ok n(1) None none len u]
    show ?thesis using m e(2) deep unfolding looked_up_def u by (auto simp: inter_def)
  qed
  then show "looked_up spc d s t" "vtree t spc (b # p) \<noteq> None" by blast+
qed

lemma lookup_virtual_ok:
  assumes "lookup_virtual spc mode addr k p s = Inr (q, t)" "vtree_ok (vtree s spc)" "addr \<in> frames p" "length p + k \<le> MAX_CLASS" "vtree s spc p \<noteq> None"
  shows "looked_up spc (length p + k) s t \<and> vtree t spc q \<noteq> None \<and> addr \<in> frames q \<and> length q \<le> length p + k \<and>
    (mode = LOOKUP_ALLOC \<longrightarrow> length q = length p + k) \<and> (mode = LOOKUP_PRESERVE \<longrightarrow> t = s)"
  using assms
proof (induction k arbitrary: p s)
  case (Suc k)
  let ?c = "bit addr (page_class p - 1) # p"
  have len: "length p < MAX_CLASS" using Suc.prems(4) by simp
  have c: "addr \<in> frames ?c" "length ?c + k = length p + Suc k" using frames_turn [OF Suc.prems(3) len] by simp_all
  obtain n where n: "vtree s spc p = Some n" using Suc.prems(5) by blast
  consider (down) "vtree s spc ?c \<noteq> None" "lookup_virtual spc mode addr k ?c s = Inr (q, t)"
    | (stop) "vtree s spc ?c = None" "q = p" "t = s" "mode \<noteq> LOOKUP_ALLOC"
    | (grow) m u where "vtree s spc ?c = None" "mode \<noteq> LOOKUP_PRESERVE" "lookup_virtual spc mode addr k ?c u = Inr (q, t)"
      "(case vphy n of Some q \<Rightarrow> split_mapping spc p n q (s\<lparr>pm := m\<rparr>) | None \<Rightarrow> bind_res (assert_res (vstate n = INTERMEDIATE_NODE)) (\<lambda>_.
          new_vnode spc ?c \<lparr>vstate = INTERMEDIATE_NODE, vphy = None\<rparr> (s\<lparr>pm := m\<rparr>))) = Inr u"
  proof (cases "vtree s spc ?c = None")
    case False
    then show ?thesis using Suc.prems(1) down by simp
  next
    case True
    show ?thesis
    proof (cases "mode = LOOKUP_PRESERVE \<or> vphy n = None \<and> mode = LOOKUP_SPLIT")
      case stops: True
      then show ?thesis using Suc.prems(1) n True by (intro stop) (auto simp: Let_def split: if_splits)
    next
      case go: False
      then have "mode \<noteq> LOOKUP_PRESERVE" "(vphy n = None \<and> mode = LOOKUP_SPLIT) = False" by simp_all
      then show ?thesis using Suc.prems(1) n True
        by (simp only: lookup_virtual.simps Let_def if_False option.simps bind_res_Inr_iff not_True_eq_False simp_thms) (blast intro: grow)
    qed
  qed
  then show ?case
  proof cases
    case down
    then show ?thesis using Suc.IH [of ?c s] Suc.prems c by simp
  next
    case stop
    then show ?thesis using Suc.prems by (auto simp: looked_up_def)
  next
    case (grow m u)
    have g: "looked_up spc (length p + Suc k) (s\<lparr>pm := m\<rparr>) u" "vtree u spc ?c \<noteq> None"
      using grow_node [where d = "length p + Suc k", OF _ _ _ _ _ grow(4)] Suc.prems(2,4) n grow(1) by simp_all
    have "looked_up spc (length ?c + k) u t \<and> vtree t spc q \<noteq> None \<and> addr \<in> frames q \<and> length q \<le> length ?c + k \<and>
        (mode = LOOKUP_ALLOC \<longrightarrow> length q = length ?c + k) \<and> (mode = LOOKUP_PRESERVE \<longrightarrow> t = u)"
      by (rule Suc.IH [OF grow(3) looked_upD(1) [OF g(1)] c(1) _ g(2)]) (use Suc.prems(4) in simp)
    then show ?thesis using looked_up_trans [OF looked_up_pm [OF g(1)]] grow(2) by simp
  qed
qed (auto simp: looked_up_def)

text \<open>The node of a page, and the page that an aligned address and a class determine.\<close>

lemma page_lookup_virtual_ok:
  assumes "page_lookup_virtual spc addr c mode s = Inr (p, t)" "vtree_ok (vtree s spc)" "addr < 2 ^ MAX_CLASS"
  shows "looked_up spc (MAX_CLASS - c) s t" "vtree t spc p \<noteq> None" "addr \<in> frames p" "length p \<le> MAX_CLASS - c"
    "mode = LOOKUP_ALLOC \<Longrightarrow> length p = MAX_CLASS - c" "mode = LOOKUP_PRESERVE \<Longrightarrow> t = s"
  using lookup_virtual_ok [OF assms(1) [unfolded page_lookup_virtual_def] assms(2)] assms(3) vtree_okD(1) [OF assms(2)]
  by (simp_all add: frames_root)

lemma page_frames:
  assumes "addr \<in> frames p" "addr mod 2 ^ c = 0" "length p = MAX_CLASS - c" "c \<le> MAX_CLASS"
  shows "page_addr p = addr" "page_class p = c" "frames p = {addr ..< addr + 2 ^ c}"
proof -
  show c: "page_class p = c" using assms(3,4) by (simp add: page_class_def)
  show a: "page_addr p = addr" by (rule aligned_start [OF assms(1)]) (use c assms(2,3) in auto)
  show "frames p = {addr ..< addr + 2 ^ c}" by (simp add: frames_def c a)
qed

text \<open>An operation on one space with its tables.\<close>

definition space_step :: "nat \<Rightarrow> vmem \<Rightarrow> vmem \<Rightarrow> bool" where
  "space_step spc s t \<longleftrightarrow> (\<exists>m w l u. t = s\<lparr>pm := m, mem := w, tlb := l, vtree := (vtree s)(spc := u)\<rparr>)"

lemma space_stepI: "t = s\<lparr>pm := m, mem := w, tlb := l, vtree := (vtree s)(spc := u)\<rparr> \<Longrightarrow> space_step spc s t"
  unfolding space_step_def by blast

lemma space_step_trans: "space_step spc s t \<Longrightarrow> space_step spc t u \<Longrightarrow> space_step spc s u"
  unfolding space_step_def by fastforce

lemma tree_space_step: "tree_step spc s t \<Longrightarrow> space_step spc s t"
proof -
  assume "tree_step spc s t"
  then obtain m u where "t = s\<lparr>pm := m, vtree := (vtree s)(spc := u)\<rparr>" unfolding tree_step_def by blast
  then show ?thesis by (intro space_stepI [where m = m and w = "mem s" and l = "tlb s" and u = u]) simp
qed

lemma hw_space_step: "hw_step s t \<Longrightarrow> space_step spc s t"
proof -
  assume "hw_step s t"
  then obtain m w l where "t = s\<lparr>pm := m, mem := w, tlb := l\<rparr>" unfolding hw_step_def by blast
  then show ?thesis by (intro space_stepI [where m = m and w = w and l = l and u = "vtree s spc"]) simp
qed

lemma space_step_from_pm: "space_step spc (s\<lparr>pm := m\<rparr>) t \<Longrightarrow> space_step spc s t"
  unfolding space_step_def by fastforce

lemma space_stepD:
  assumes "space_step spc s t"
  shows "x \<noteq> spc \<Longrightarrow> vtree t x = vtree s x" "cr3 t = cr3 s" "zero_page t = zero_page s" "one_page t = one_page s"
    "live t = live s" "current_space t = current_space s" "max_memory_map_addr t = max_memory_map_addr s" "metaheaptop t = metaheaptop s"
  using assms unfolding space_step_def by auto

section \<open>Unmapping a page\<close>

definition vclosed :: "vtree \<Rightarrow> bool" where
  "vclosed t \<longleftrightarrow> (\<forall>b p. t (b # p) \<noteq> None \<longrightarrow> t p \<noteq> None) \<and> (\<forall>p. t p \<noteq> None \<longrightarrow> length p \<le> MAX_CLASS)"

lemma vtree_closed: "vtree_ok t \<Longrightarrow> vclosed t"
  using vtree_okD(3,4) [of t] unfolding vclosed_def by fastforce

lemma vclosed_below: "vclosed t \<Longrightarrow> suffix p r \<Longrightarrow> t r \<noteq> None \<Longrightarrow> t p \<noteq> None"
  by (induction r) (auto simp: vclosed_def suffix_Cons)

definition cut :: "path \<Rightarrow> vtree \<Rightarrow> vtree" where
  "cut p t = (\<lambda>r. if suffix p r then None else t r)"

lemma vclosed_cut: "vclosed t \<Longrightarrow> vclosed (cut p t)"
  unfolding vclosed_def cut_def by (auto simp: suffix_Cons)

lemma unmap_remove_cut:
  assumes "unmap_remove k spc p s = Inr t" "vclosed (vtree s spc)" "page_class p < k"
  shows "vtree t spc = cut p (vtree s spc) \<and> tree_step spc s t"
  using assms
proof (induction k arbitrary: p s t)
  case (Suc k)
  have below: "vtree s spc r = None" if "suffix p r" "vtree s spc p = None" for r
    using vclosed_below [OF Suc.prems(2) that(1)] that(2) by blast
  show ?case
  proof (cases "vtree s spc p")
    case None
    then show ?thesis using Suc.prems(1) below by (auto simp: cut_def)
  next
    case (Some n)
    have len: "length p \<le> MAX_CLASS" using Suc.prems(2) Some unfolding vclosed_def by blast
    show ?thesis
    proof (cases "vphy n")
      case q: (Some q)
      obtain u where u: "unref_page q s = Inr u" "t = free_vnode spc p (unlink_mapping q u)" "vtree s spc (b # p) = None" for b
        using Suc.prems(1) Some q by (auto simp: bind_res_Inr_iff) (metis (full_types))
      have "vtree s spc r = None" if "suffix p r" "r \<noteq> p" for r
        using suffix_below [OF that(1)] that(2) vclosed_below [OF Suc.prems(2)] u(3) by metis
      then have "(vtree s spc)(p := None) = cut p (vtree s spc)" by (auto simp: cut_def fun_eq_iff)
      then show ?thesis using unref_page_tree [OF u(1)] u(2) by (auto simp: u(2))
    next
      case q: None
      obtain u w where w: "unmap_remove k spc (False # p) s = Inr u" "unmap_remove k spc (True # p) u = Inr w" "t = free_vnode spc p w"
        using Suc.prems(1) Some q by (auto simp: bind_res_Inr_iff)
      have sub: "vtree v spc = cut (b # p) (vtree s' spc) \<and> tree_step spc s' v"
        if run: "unmap_remove k spc (b # p) s' = Inr v" and cl: "vclosed (vtree s' spc)" for b v s'
      proof (cases "length p < MAX_CLASS")
        case True
        then show ?thesis using Suc.IH [OF run cl] class_child [of p b] Suc.prems(3) by simp
      next
        case False
        then have none: "vtree s' spc r = None" if "suffix (b # p) r" for r
          using cl that suffix_length_le [OF that] len unfolding vclosed_def by fastforce
        then have "v = s'" using run by (cases k) (simp_all add: Let_def)
        then show ?thesis using none by (auto simp: cut_def fun_eq_iff)
      qed
      have a: "vtree u spc = cut (False # p) (vtree s spc)" "tree_step spc s u" using sub [OF w(1) Suc.prems(2)] by blast+
      have "vclosed (vtree u spc)" using vclosed_cut [OF Suc.prems(2)] a(1) by simp
      then have b: "vtree w spc = cut (True # p) (vtree u spc)" "tree_step spc u w" using sub [OF w(2)] by blast+
      have "(cut (True # p) (cut (False # p) (vtree s spc)))(p := None) = cut p (vtree s spc)"
        using suffix_below [of p] by (fastforce simp: cut_def fun_eq_iff dest: suffix_ConsD)
      then show ?thesis using a b w(3) tree_step_trans [OF a(2) b(2)] by auto
    qed
  qed
qed simp

text \<open>Cutting off a node other than the root, or clearing the root.\<close>

lemma cut_maps:
  assumes ok: "vtree_ok t" and p: "t p \<noteq> None" and u: "u = (if p = [] then (cut [] t)([] \<mapsto> \<lparr>vstate = INTERMEDIATE_NODE, vphy = None\<rparr>) else cut p t)"
  shows "vtree_ok u" "maps_to u v f st \<longleftrightarrow> maps_to t v f st \<and> v \<notin> frames p"
proof -
  show "vtree_ok u"
  proof (cases "p = []")
    case True
    then show ?thesis by (auto simp: u cut_def vtree_ok_def node_ok_def MAX_CLASS_def)
  next
    case False
    have "node_ok r n" if "u r = Some n" for r n using that vtree_okD(2) [OF ok] by (auto simp: u False cut_def split: if_splits)
    moreover have "\<exists>n. u r = Some n \<and> vphy n = None" if "u (b # r) \<noteq> None" for b r
      using that vtree_okD(3) [OF ok, of b r] by (auto simp: u False cut_def suffix_Cons split: if_splits)
    ultimately show ?thesis using vtree_okD(1) [OF ok] False by (auto simp: vtree_ok_def u cut_def)
  qed
  have mp: "maps_to u v f st \<longleftrightarrow> maps_to (cut p t) v f st"
  proof (cases "p = []")
    case True
    then show ?thesis unfolding maps_to_def u by (auto simp: cut_def split: if_splits)
  qed (simp add: u)
  have len: "length p \<le> MAX_CLASS" using p vtree_okD(4) [OF ok] by blast
  have in_p: "suffix p r \<longleftrightarrow> v \<in> frames p" if r: "t r = Some n" "vphy n = Some q" "v \<in> frames r" for r n q
  proof -
    have l: "length r \<le> MAX_CLASS" using vtree_okD(4) [OF ok r(1)] .
    have "suffix p r" if "v \<in> frames p"
    proof -
      have "suffix p r \<or> suffix r p" using frames_overlap [of p r] that r(3) len l by auto
      then show ?thesis using above_intermediate [OF ok p, of r] r by fastforce
    qed
    then show ?thesis using frames_suffix [OF _ l, of p] r(3) by blast
  qed
  show "maps_to u v f st \<longleftrightarrow> maps_to t v f st \<and> v \<notin> frames p"
    unfolding mp using in_p unfolding maps_to_def cut_def by (auto split: if_splits)
qed

lemma unmap_page_maps:
  assumes "unmap_page spc addr c s = Inr t" "vtree_ok (vtree s spc)" "addr < 2 ^ MAX_CLASS" "c \<le> MAX_CLASS"
  shows "vtree_ok (vtree t spc)" "maps_to (vtree t spc) v f st \<longleftrightarrow> maps_to (vtree s spc) v f st \<and> v \<notin> {addr ..< addr + 2 ^ c}"
    "x \<noteq> spc \<Longrightarrow> vtree t x = vtree s x" "space_step spc s t"
    "\<exists>p. addr \<in> frames p \<and> length p = MAX_CLASS - c \<and> (\<forall>r. suffix p r \<and> r \<noteq> p \<longrightarrow> vtree t spc r = None)"
    "inter (vtree s spc) r \<Longrightarrow> length r < MAX_CLASS - c \<Longrightarrow> inter (vtree t spc) r"
proof -
  obtain p s1 s2 s3 where r: "addr mod 2 ^ c = 0" "page_lookup_virtual spc addr c LOOKUP_ALLOC s = Inr (p, s1)" "unmap_page_remove spc p s1 = Inr s2"
      "(if p = [] then new_vnode spc [] \<lparr>vstate = INTERMEDIATE_NODE, vphy = None\<rparr> s2 else Inr s2) = Inr s3" "unmap_tables spc addr c s3 = Inr t"
    using assms(1) by (auto simp: unmap_page_def bind_res_Inr_iff)
  note l = page_lookup_virtual_ok [OF r(2) assms(2,3)] and h = hw_stepD [OF unmap_tables_step [OF r(5)]]
  note ok1 = looked_upD(1) [OF l(1)]
  note fr = page_frames [OF l(3) r(1) l(5) [OF refl] assms(4)]
  have c: "vtree s2 spc = cut p (vtree s1 spc)" "tree_step spc s1 s2"
    using unmap_remove_cut [OF r(3) [unfolded unmap_page_remove_def] vtree_closed [OF ok1]] by simp_all
  have t: "vtree t spc = (if p = [] then (cut [] (vtree s1 spc))([] \<mapsto> \<lparr>vstate = INTERMEDIATE_NODE, vphy = None\<rparr>) else cut p (vtree s1 spc))"
    and st: "tree_step spc s2 s3"
    using r(4) new_vnode_tree [of spc "[]" "\<lparr>vstate = INTERMEDIATE_NODE, vphy = None\<rparr>" s2 s3] c(1) h(1) by (auto split: if_splits)
  note m = cut_maps [OF ok1 l(2) t]
  show "vtree_ok (vtree t spc)" by (rule m(1))
  show "maps_to (vtree t spc) v f st \<longleftrightarrow> maps_to (vtree s spc) v f st \<and> v \<notin> {addr ..< addr + 2 ^ c}"
    using m(2) looked_upD(2) [OF l(1)] fr(3) by simp
  have step: "tree_step spc s s3" using tree_step_trans looked_upD(3) [OF l(1)] c(2) st by blast
  show "space_step spc s t" using tree_space_step [OF step] hw_space_step [OF unmap_tables_step [OF r(5)]] space_step_trans by blast
  then show "vtree t x = vtree s x" if "x \<noteq> spc" using space_stepD(1) that by blast
  show "\<exists>p. addr \<in> frames p \<and> length p = MAX_CLASS - c \<and> (\<forall>r. suffix p r \<and> r \<noteq> p \<longrightarrow> vtree t spc r = None)"
    using l(3) l(5) [OF refl] t by (intro exI [of _ p]) (auto simp: cut_def)
  show "inter (vtree t spc) r" if "inter (vtree s spc) r" "length r < MAX_CLASS - c"
    using looked_upD(6) [OF l(1) that(1)] that(2) l(5) [OF refl] suffix_length_le [of p r] by (auto simp: t inter_def cut_def)
qed

section \<open>Mapping a page\<close>

definition map_state :: "u32 \<Rightarrow> u32" where
  "map_state flags = (PAGE_PROT flags AND NOT PROT_COMBINE) OR MAPPING_NODE"

lemma map_state_type: "map_state flags AND NODE_TYPE_MASK = MAPPING_NODE"
  unfolding map_state_def PAGE_PROT_def MAPPING_NODE_def NODE_TYPE_MASK_def
  by (simp add: bit.conj_disj_distrib2 word_bw_assocs word_bw_lcs and.assoc)

lemma map_state_flags: "map_state flags AND PROT_LAZY = flags AND PROT_LAZY" "map_state flags AND PROT_SHARE = flags AND PROT_SHARE"
  unfolding map_state_def PAGE_PROT_def MAPPING_NODE_def PROT_COMBINE_def PROT_LAZY_def PROT_SHARE_def
  by (simp_all add: bit.conj_disj_distrib2 and.assoc)

text \<open>Turning a node without children and without page into a mapping.\<close>

lemma set_mapping_maps:
  assumes ok: "vtree_ok t" and p: "t p = Some n" "vphy n = None" "\<And>b. t (b # p) = None" "length q = length p"
    and st: "st0 AND NODE_TYPE_MASK = MAPPING_NODE" "st0 AND PROT_LAZY = 0 \<or> st0 AND PROT_SHARE = 0"
    and none: "\<And>f st. v \<in> frames p \<Longrightarrow> \<not> maps_to t v f st" and u: "u = t(p \<mapsto> \<lparr>vstate = st0, vphy = Some q\<rparr>)"
  shows "vtree_ok u" "maps_to u v f st \<longleftrightarrow> (if v \<in> frames p then f = page_addr q + (v - page_addr p) \<and> st = st0 else maps_to t v f st)"
proof -
  show "vtree_ok u"
    unfolding vtree_ok_def
  proof (intro conjI allI impI)
    show "u [] \<noteq> None" using vtree_okD(1) [OF ok] by (simp add: u)
    show "node_ok r k" if "u r = Some k" for r k
      using that vtree_okD(2) [OF ok, of r k] vtree_okD(4) [OF ok p(1)] p(4) st by (auto simp: u node_ok_def split: if_splits)
    show "\<exists>k. u r = Some k \<and> vphy k = None" if "u (b # r) \<noteq> None" for b r
      using that vtree_okD(3) [OF ok, of b r] p by (auto simp: u split: if_splits)
  qed
  show "maps_to u v f st \<longleftrightarrow> (if v \<in> frames p then f = page_addr q + (v - page_addr p) \<and> st = st0 else maps_to t v f st)"
  proof (cases "v \<in> frames p")
    case True
    have "r = p" if "u r = Some k" "vphy k = Some q'" "v \<in> frames r" for r k q'
      using none [OF True] that unfolding u maps_to_def by (metis fun_upd_other)
    moreover have "u p = Some \<lparr>vstate = st0, vphy = Some q\<rparr>" by (simp add: u)
    ultimately have "maps_to u v f st \<longleftrightarrow> f = page_addr q + (v - page_addr p) \<and> st = st0"
      unfolding maps_to_def using True by (metis option.inject vnode.select_convs)
    then show ?thesis using True by simp
  next
    case False
    have "u r = Some k \<longleftrightarrow> t r = Some k" if "v \<in> frames r" for r k using that False by (auto simp: u)
    then have "maps_to u v f st \<longleftrightarrow> maps_to t v f st" unfolding maps_to_def by blast
    then show ?thesis using False by simp
  qed
qed

lemma map_page_maps:
  assumes "map_page spc addr page flags s = Inr (r, t)" "vtree_ok (vtree s spc)" "addr < 2 ^ MAX_CLASS" "length page \<le> MAX_CLASS" "flags AND ALLOC_WEAK = 0"
  shows "vtree_ok (vtree t spc)" "maps_to (vtree t spc) v f st \<longleftrightarrow>
      (if v \<in> {addr ..< addr + 2 ^ page_class page} then f = page_addr page + (v - addr) \<and> st = map_state flags else maps_to (vtree s spc) v f st)"
    "x \<noteq> spc \<Longrightarrow> vtree t x = vtree s x" "space_step spc s t"
    "inter (vtree s spc) q \<Longrightarrow> length q < length page \<Longrightarrow> inter (vtree t spc) q"
proof -
  let ?c = "page_class page"
  obtain s1 p s2 s3 where lz: "flags AND PROT_LAZY = 0 \<or> flags AND PROT_SHARE = 0" and al: "addr mod 2 ^ ?c = 0"
      and un: "unmap_page spc addr ?c (s\<lparr>pm := page_ref page (pm s)\<rparr>) = Inr s1"
      and lo: "page_lookup_virtual spc addr ?c LOOKUP_ALLOC s1 = Inr (p, s2)"
      and s3: "s3 = link_mapping page (set_vnode spc p (Some \<lparr>vstate = map_state flags, vphy = Some page\<rparr>) s2)"
      and hw: "map_tables spc addr page flags s3 = Inr (r, t)"
    using assms(1,5) by (auto simp: map_page_def bind_res_Inr_iff map_state_def)
  have c: "?c \<le> MAX_CLASS" by (simp add: page_class_def)
  have ok: "vtree_ok (vtree (s\<lparr>pm := page_ref page (pm s)\<rparr>) spc)" using assms(2) by simp
  note u = unmap_page_maps [OF un ok assms(3) c]
  note l = page_lookup_virtual_ok [OF lo u(1) assms(3)] and h = hw_stepD [OF map_tables_step [OF hw]]
  have len: "length p = MAX_CLASS - ?c" using l(5) by simp
  note fr = page_frames [OF l(3) al len c]
  have mp: "maps_to (vtree s2 spc) v f st \<longleftrightarrow> maps_to (vtree s spc) v f st \<and> v \<notin> frames p" for v f st
    using looked_upD(2) [OF l(1)] u(2) fr(3) by simp
  obtain p' where p': "addr \<in> frames p'" "length p' = MAX_CLASS - ?c" "\<And>r. suffix p' r \<Longrightarrow> r \<noteq> p' \<Longrightarrow> vtree s1 spc r = None"
    using u(5) by blast
  have "p' = p" using frames_same_length [of p' p] p'(1,2) l(3) len by auto
  then have kids: "vtree s2 spc (b # p) = None" for b
    using p'(3) [of "b # p"] looked_upD(4) [OF l(1), of "b # p"] len by (simp add: suffix_Cons)
  obtain n where n: "vtree s2 spc p = Some n" using l(2) by blast
  have ph: "vphy n = None"
  proof (rule ccontr)
    assume "vphy n \<noteq> None"
    then obtain q where "vphy n = Some q" by blast
    then have "maps_to (vtree s2 spc) addr (page_addr q + (addr - page_addr p)) (vstate n)" unfolding maps_to_def using n l(3) by blast
    then show False using mp l(3) by blast
  qed
  have lp: "length page = length p" using assms(4) len by (simp add: page_class_def)
  have tt: "vtree t spc = (vtree s2 spc)(p \<mapsto> \<lparr>vstate = map_state flags, vphy = Some page\<rparr>)" using h(1) s3 by simp
  have st: "map_state flags AND NODE_TYPE_MASK = MAPPING_NODE" "map_state flags AND PROT_LAZY = 0 \<or> map_state flags AND PROT_SHARE = 0"
    using lz by (simp_all add: map_state_type map_state_flags)
  note m = set_mapping_maps [OF looked_upD(1) [OF l(1)] n ph kids lp st _ tt]
  show "vtree_ok (vtree t spc)" by (rule m(1) [of "2 ^ MAX_CLASS"]) (use mp in blast)
  show "maps_to (vtree t spc) v f st \<longleftrightarrow>
      (if v \<in> {addr ..< addr + 2 ^ ?c} then f = page_addr page + (v - addr) \<and> st = map_state flags else maps_to (vtree s spc) v f st)"
    using m(2) [of v] mp fr by simp
  have "tree_step spc s1 s3" unfolding s3 by (intro link_step set_vnode_step looked_upD(3) [OF l(1)])
  then have "space_step spc s s3" by (rule space_step_trans [OF space_step_from_pm [OF u(4)] tree_space_step])
  then show "space_step spc s t" by (rule space_step_trans [OF _ hw_space_step [OF map_tables_step [OF hw]]])
  then show "vtree t x = vtree s x" if "x \<noteq> spc" using space_stepD(1) that by blast
  show "inter (vtree t spc) q" if q: "inter (vtree s spc) q" "length q < length page"
  proof -
    have "inter (vtree s1 spc) q" by (rule u(6)) (use q lp len in simp_all)
    from looked_upD(6) [OF l(1) this] show ?thesis using q(2) lp by (auto simp: tt inter_def)
  qed
qed

section \<open>The theorems on pages\<close>

text \<open>
  Unmapping a page removes exactly its range from the address space, whatever larger or smaller mappings it cuts, and touches no other
  space; the tree keeps its shape.
\<close>

theorem unmap_page_refines:
  assumes "unmap_page spc addr c s = Inr t" "vtree_ok (vtree s spc)" "addr < 2 ^ MAX_CLASS" "c \<le> MAX_CLASS"
  shows "vabs (vtree t spc) = (\<lambda>v. if addr \<le> v \<and> v < addr + 2 ^ c then None else vabs (vtree s spc) v) \<and>
    vtree_ok (vtree t spc) \<and> (\<forall>x. x \<noteq> spc \<longrightarrow> vtree t x = vtree s x)"
proof -
  note u = unmap_page_maps [OF assms]
  have "vabs (vtree t spc) v = (if addr \<le> v \<and> v < addr + 2 ^ c then None else vabs (vtree s spc) v)" for v
    by (rule vabs_eqI [OF u(1)]) (use u(2) vabs_maps [OF assms(2)] in auto)
  then show ?thesis using u(1,3) by blast
qed

text \<open>
  C2: Mapping a page makes its range of the address space point to the consecutive frames of the page, with the given flags, and changes
  nothing else: no other range, no other space. The tree keeps its shape.
\<close>

theorem map_page_refines:
  assumes "map_page spc addr page flags s = Inr (r, t)" "vtree_ok (vtree s spc)" "addr < 2 ^ MAX_CLASS" "length page \<le> MAX_CLASS" "flags AND ALLOC_WEAK = 0"
  shows "vabs (vtree t spc) = (\<lambda>v. if addr \<le> v \<and> v < addr + 2 ^ page_class page
      then Some (page_addr page + (v - addr), map_state flags) else vabs (vtree s spc) v) \<and>
    vtree_ok (vtree t spc) \<and> (\<forall>x. x \<noteq> spc \<longrightarrow> vtree t x = vtree s x)"
proof -
  note u = map_page_maps [OF assms]
  have "vabs (vtree t spc) v = (if addr \<le> v \<and> v < addr + 2 ^ page_class page
      then Some (page_addr page + (v - addr), map_state flags) else vabs (vtree s spc) v)" for v
    by (rule vabs_eqI [OF u(1)]) (use u(2) vabs_maps [OF assms(2)] in auto)
  then show ?thesis using u(1,3) by blast
qed

section \<open>An example\<close>

text \<open>
  Two spaces with the first page mapped in both, read and write, and the tables on the way to it in place. All physical pages are in use.
\<close>

abbreviation left :: "nat \<Rightarrow> path" where "left n \<equiv> replicate n False"

definition ex_tree :: vtree where
  "ex_tree r = (if r = left MAX_CLASS then Some \<lparr>vstate = 0x100026, vphy = Some (left MAX_CLASS)\<rparr>
     else if length r < MAX_CLASS \<and> r = left (length r) then Some \<lparr>vstate = INTERMEDIATE_NODE, vphy = None\<rparr> else None)"

definition ex_mem :: "nat \<Rightarrow> u64" where
  "ex_mem = (\<lambda>w. 0)(512 := 0x2007, 514 := 0x1005, 1024 := 0x3007, 1536 := 0x4007, 2560 := 0x6007, 3072 := 0x7007, 3584 := 0x8007)"

definition ex_vm :: vmem where
  "ex_vm = \<lparr>pm = \<lparr>nodes = (\<lambda>r. Some \<lparr>pstate = ALLOCATABLE_NODE, refc = 3\<rparr>), free_classes = (\<lambda>c. []), vlist = (\<lambda>p. 2), free_desc_count = 1000, pools = [],
     in_kspace = True, kern_end = 0\<rparr>, mem = ex_mem, vtree = (\<lambda>spc. ex_tree), cr3 = (\<lambda>spc. if spc = 0 then 1 else 5), live = [1], current_space = Some 0,
     max_memory_map_addr = 2 ^ 40, tlb = [], zero_page = left 39, one_page = left 39, metaheaptop = 0, prev_mmio = 0\<rparr>"

lemma ex_tree_dom: "ex_tree r \<noteq> None \<longleftrightarrow> length r \<le> MAX_CLASS \<and> r = left (length r)"
  by (cases "length r = MAX_CLASS") (auto simp: ex_tree_def)

lemma ex_tree_ok: "vtree_ok ex_tree"
  unfolding vtree_ok_def
proof (intro conjI allI impI)
  show "ex_tree [] \<noteq> None" by (simp add: ex_tree_def MAX_CLASS_def)
  show "node_ok p n" if "ex_tree p = Some n" for p n
    using that by (auto simp: ex_tree_def node_ok_def NODE_TYPE_MASK_def MAPPING_NODE_def PROT_LAZY_def PROT_SHARE_def split: if_splits)
  show "\<exists>n. ex_tree p = Some n \<and> vphy n = None" if "ex_tree (b # p) \<noteq> None" for b p
  proof -
    have p: "b # p = left (length (b # p))" "length (b # p) \<le> MAX_CLASS" using that unfolding ex_tree_dom by blast+
    then have "p = left (length p)" "p \<noteq> left MAX_CLASS" by auto
    then show ?thesis using p(2) by (simp add: ex_tree_def)
  qed
qed

lemma lookup_left:
  assumes "\<And>j. i < j \<Longrightarrow> j \<le> i + k \<Longrightarrow> vtree s spc (left j) \<noteq> None"
  shows "lookup_virtual spc mode 0 (k + m) (left i) s = lookup_virtual spc mode 0 m (left (i + k)) s"
  using assms
proof (induction k arbitrary: i)
  case (Suc k)
  have "vtree s spc (False # left i) \<noteq> None" using Suc.prems [of "Suc i"] by simp
  then have "lookup_virtual spc mode 0 (Suc k + m) (left i) s = lookup_virtual spc mode 0 (k + m) (left (Suc i)) s" by simp
  then show ?case using Suc.IH [of "Suc i"] Suc.prems by simp
qed simp

lemma lookup_left_all: "(\<And>j. j \<le> MAX_CLASS \<Longrightarrow> vtree s spc (left j) \<noteq> None) \<Longrightarrow> page_lookup_virtual spc 0 0 mode s = Inr (left MAX_CLASS, s)"
  using lookup_left [of 0 MAX_CLASS s spc mode 0] by (simp add: page_lookup_virtual_def)

lemma ex_tree_left: "j \<le> MAX_CLASS \<Longrightarrow> ex_tree (left j) \<noteq> None"
  by (auto simp: ex_tree_def)


lemma kaddr_ex: "KADDR f s = Inr (512 * f)" if "4096 * f \<le> max_memory_map_addr s"
  using that by (simp add: KADDR_def)

lemma page_unref_many: "nodes m q = Some n \<Longrightarrow> 2 \<le> refc n \<Longrightarrow> page_unref q m = Inr (set_node q (Some (n\<lparr>refc := refc n - 1\<rparr>)) m)"
  by (auto simp: page_unref_def assert_res_def PAGE_IS_FREE_def)

lemma page_ref_used: "nodes m q = Some n \<Longrightarrow> refc n \<noteq> 0 \<Longrightarrow> page_ref q m = set_node q (Some (n\<lparr>refc := refc n + 1\<rparr>)) m"
  by (simp add: page_ref_def Let_def)

definition ex_cut :: vtree where "ex_cut = ex_tree(left MAX_CLASS := None)"

lemma unmap_example:
  assumes "nodes (pm s) (left MAX_CLASS) = Some n" "2 \<le> refc n" "vtree s spc = ex_tree"
  shows "\<exists>m. unmap_page spc 0 0 s = unmap_tables spc 0 0 (s\<lparr>pm := m, vtree := (vtree s)(spc := ex_cut)\<rparr>) \<and>
    free_desc_count m = Suc (free_desc_count (pm s)) \<and> nodes m = (nodes (pm s))(left MAX_CLASS \<mapsto> n\<lparr>refc := refc n - 1\<rparr>)"
proof -
  have "page_lookup_virtual spc 0 0 LOOKUP_ALLOC s = Inr (left MAX_CLASS, s)"
    by (rule lookup_left_all) (use ex_tree_left assms(3) in simp)
  moreover have "ex_tree (b # left MAX_CLASS) = None" for b using ex_tree_dom [of "b # left MAX_CLASS"] by simp
  moreover have "ex_tree (left MAX_CLASS) = Some \<lparr>vstate = 0x100026, vphy = Some (left MAX_CLASS)\<rparr>" "left MAX_CLASS \<noteq> []"
    by (simp_all add: ex_tree_def MAX_CLASS_def)
  ultimately show ?thesis
    using assms by (simp add: unmap_page_def unmap_page_remove_def assert_res_def NODE_TYPE_MASK_def MAPPING_NODE_def unref_page_def page_unref_many free_vnode_def
        set_vnode_def unlink_mapping_def ex_cut_def) (rule exI, rule conjI, rule refl, simp)
qed

lemma ex_frames: "pte_frame 0x2007 = 2" "pte_frame 0x3007 = 3" "pte_frame 0x4007 = 4" "pte_frame 0x6007 = 6" "pte_frame 0x7007 = 7" "pte_frame 0x8007 = 8"
  by (simp_all add: pte_frame_def PTE_ADDR_def PTE_NX_def)

lemma ex_index: "PML4_INDEX 0 = 0" "PDP_INDEX 0 = 0" "PD_INDEX 0 = 0" "PT_INDEX 0 = 0" "PML4_INDEX 1 = 0" "PDP_INDEX 1 = 0" "PD_INDEX 1 = 0" "PT_INDEX 1 = 1"
  "PML4_INDEX (Suc 0) = 0" "PDP_INDEX (Suc 0) = 0" "PD_INDEX (Suc 0) = 0" "PT_INDEX (Suc 0) = 1"
  by (simp_all add: PML4_INDEX_def PDP_INDEX_def PD_INDEX_def PT_INDEX_def)

lemmas ex_tables = ex_frames ex_index index_range_def KADDR_def PTE_P_def PTE_PS_def Let_def assert_res_def

lemma unmap_tables_example:
  assumes "mem s = ex_mem" "max_memory_map_addr s = 2 ^ 40" "cr3 s spc = (if spc = 0 then 1 else 5)"
  shows "\<exists>l. unmap_tables spc 0 0 s = Inr (s\<lparr>tlb := l\<rparr>)"
proof -
  have "unmap_tables spc 0 0 s = Inr (tlb_invalidate_range spc 0 (frame_bytes 1) s)"
    using assms by (auto simp: unmap_tables_def ex_tables ex_mem_def frame_bytes_def split: if_splits)
  then show ?thesis using tlb_only [of spc 0 "frame_bytes 1" s] by auto
qed


lemma left_page: "page_class (left MAX_CLASS) = 0" "page_addr (left n) = 0"
  by (simp_all add: page_class_def, induction n) simp_all

lemma map_tables_example:
  assumes "mem s = ex_mem" "max_memory_map_addr s = 2 ^ 40" "cr3 s spc = (if spc = 0 then 1 else 5)" "flags AND PROT_LAZY = 0 \<or> flags AND PROT_SHARE = 0"
  shows "\<exists>w. map_tables spc 0 (left MAX_CLASS) flags s = Inr (0, s\<lparr>mem := w\<rparr>)"
proof -
  obtain prot where prot: "prot2pte flags = Inr prot" using assms(4) by (simp add: prot2pte_def assert_res_def)
  then show ?thesis
    using assms(1-3) by (simp add: left_page map_tables_def prot ex_tables ex_mem_def need_table_def alloc_fill_pt_def fill_leaves_def step_of_def set_word_def pte_addr_low) blast
qed


lemma lookup_cut:
  assumes "vtree s spc = ex_cut" "100 \<le> free_desc_count (pm s)"
  shows "\<exists>m. page_lookup_virtual spc 0 0 LOOKUP_ALLOC s = Inr (left MAX_CLASS, set_vnode spc (left MAX_CLASS) (Some \<lparr>vstate = INTERMEDIATE_NODE, vphy = None\<rparr>) (s\<lparr>pm := m\<rparr>)) \<and>
    nodes m = nodes (pm s) \<and> free_desc_count m = free_desc_count (pm s) - 1"
proof -
  have M: "MAX_CLASS = 47 + 1" by (simp add: MAX_CLASS_def)
  have ex: "ex_cut (left j) = Some \<lparr>vstate = INTERMEDIATE_NODE, vphy = None\<rparr>" if "j \<le> 47" for j
    using that by (auto simp: ex_cut_def ex_tree_def MAX_CLASS_def)
  have "page_lookup_virtual spc 0 0 LOOKUP_ALLOC s = lookup_virtual spc LOOKUP_ALLOC 0 1 (left 47) s"
    using lookup_left [of 0 47 s spc LOOKUP_ALLOC 1] ex assms(1) by (simp add: page_lookup_virtual_def M)
  moreover have "ex_cut (False # left 47) = None" "False # left 47 = left MAX_CLASS"
    by (simp_all add: ex_cut_def MAX_CLASS_def flip: replicate_Suc)
  ultimately show ?thesis using assms ex [of 47]
    by (intro exI [of _ "(pm s)\<lparr>free_desc_count := free_desc_count (pm s) - 1\<rparr>"])
      (simp add: ensure_free_desc_def new_vnode_def alloc_descriptor_def assert_res_def Let_def)
qed

lemma map_page_example:
  assumes "nodes (pm s) (left MAX_CLASS) = Some n" "2 \<le> refc n" "vtree s spc = ex_tree" "100 \<le> free_desc_count (pm s)"
    and "mem s = ex_mem" "max_memory_map_addr s = 2 ^ 40" "cr3 s spc = (if spc = 0 then 1 else 5)" "flags AND PROT_LAZY = 0 \<or> flags AND PROT_SHARE = 0"
    "flags AND ALLOC_WEAK = 0"
  shows "\<exists>t. map_page spc 0 (left MAX_CLASS) flags s = Inr (0, t) \<and> (\<exists>k. nodes (pm t) (left MAX_CLASS) = Some k \<and> refc k = refc n)"
proof -
  let ?s = "s\<lparr>pm := page_ref (left MAX_CLASS) (pm s)\<rparr>"
  have cls: "page_class (left MAX_CLASS) = 0" by (simp add: page_class_def)
  have r: "nodes (pm ?s) (left MAX_CLASS) = Some (n\<lparr>refc := refc n + 1\<rparr>)" "free_desc_count (pm ?s) = free_desc_count (pm s)"
    using assms(1,2) by (simp_all add: page_ref_used)
  obtain m where m: "unmap_page spc 0 0 ?s = unmap_tables spc 0 0 (?s\<lparr>pm := m, vtree := (vtree ?s)(spc := ex_cut)\<rparr>)"
      "free_desc_count m = Suc (free_desc_count (pm s))" "nodes m (left MAX_CLASS) = Some n"
    using unmap_example [OF r(1), of spc] assms(2,3) r(2) by (cases n) auto
  obtain l where l: "unmap_page spc 0 0 ?s = Inr (?s\<lparr>pm := m, vtree := (vtree ?s)(spc := ex_cut), tlb := l\<rparr>)"
    using unmap_tables_example [of "?s\<lparr>pm := m, vtree := (vtree ?s)(spc := ex_cut)\<rparr>" spc] assms(5-7) m(1) by auto
  let ?u = "?s\<lparr>pm := m, vtree := (vtree ?s)(spc := ex_cut), tlb := l\<rparr>"
  obtain k where k: "page_lookup_virtual spc 0 0 LOOKUP_ALLOC ?u =
      Inr (left MAX_CLASS, set_vnode spc (left MAX_CLASS) (Some \<lparr>vstate = INTERMEDIATE_NODE, vphy = None\<rparr>) (?u\<lparr>pm := k\<rparr>))" "nodes k = nodes m"
    using lookup_cut [of ?u spc] assms(4) m(2) by auto
  define w where "w = link_mapping (left MAX_CLASS) (set_vnode spc (left MAX_CLASS) (Some \<lparr>vstate = map_state flags, vphy = Some (left MAX_CLASS)\<rparr>)
      (set_vnode spc (left MAX_CLASS) (Some \<lparr>vstate = INTERMEDIATE_NODE, vphy = None\<rparr>) (?u\<lparr>pm := k\<rparr>)))"
  have "map_page spc 0 (left MAX_CLASS) flags s = map_tables spc 0 (left MAX_CLASS) flags w"
    using assms(8,9) l k(1) by (simp add: map_page_def cls assert_res_def w_def map_state_def)
  moreover have "mem w = ex_mem" "max_memory_map_addr w = 2 ^ 40" "cr3 w spc = (if spc = 0 then 1 else 5)" "nodes (pm w) (left MAX_CLASS) = Some n"
    using assms(5-7) k(2) m(3) by (simp_all add: w_def link_mapping_def set_vnode_def)
  ultimately show ?thesis using map_tables_example [of w spc flags] assms(8) by fastforce
qed

lemma map_example_vm:
  assumes "flags AND PROT_LAZY = 0 \<or> flags AND PROT_SHARE = 0" "flags AND ALLOC_WEAK = 0"
  shows "\<exists>t. map_page spc 0 (left MAX_CLASS) flags ex_vm = Inr (0, t)"
  using map_page_example [of ex_vm "\<lparr>pstate = ALLOCATABLE_NODE, refc = 3\<rparr>" spc flags] assms by (auto simp: ex_vm_def)

lemma unmap_example_vm: "\<exists>t. unmap_page spc 0 0 ex_vm = Inr t"
proof -
  obtain m where m: "unmap_page spc 0 0 ex_vm = unmap_tables spc 0 0 (ex_vm\<lparr>pm := m, vtree := (vtree ex_vm)(spc := ex_cut)\<rparr>)"
    using unmap_example [of ex_vm "\<lparr>pstate = ALLOCATABLE_NODE, refc = 3\<rparr>" spc] by (auto simp: ex_vm_def)
  then show ?thesis using unmap_tables_example [of "ex_vm\<lparr>pm := m, vtree := (vtree ex_vm)(spc := ex_cut)\<rparr>" spc] by (auto simp: ex_vm_def)
qed

theorem unmap_page_refines_witness: "\<exists>t. unmap_page 0 0 0 ex_vm = Inr t \<and> vabs (vtree t 0) 0 = None \<and> vtree t 1 = ex_tree"
proof -
  obtain t where t: "unmap_page 0 0 0 ex_vm = Inr t" using unmap_example_vm by blast
  have "vtree_ok (vtree ex_vm 0)" using ex_tree_ok by (simp add: ex_vm_def)
  then show ?thesis using unmap_page_refines [OF t] t by (simp add: ex_vm_def)
qed

theorem map_page_refines_witness:
  "\<exists>t. map_page 0 0 (left MAX_CLASS) 0x4 ex_vm = Inr (0, t) \<and> vabs (vtree t 0) 0 = Some (0, 0x100004) \<and> vtree t 1 = ex_tree"
proof -
  obtain t where t: "map_page 0 0 (left MAX_CLASS) 0x4 ex_vm = Inr (0, t)"
    using map_example_vm [of "0x4" 0] by (auto simp: PROT_LAZY_def ALLOC_WEAK_def)
  have "vtree_ok (vtree ex_vm 0)" using ex_tree_ok by (simp add: ex_vm_def)
  moreover have "page_addr (left n) = 0" for n by (induction n) simp_all
  moreover have "map_state 0x4 = 0x100004" by (simp add: map_state_def PAGE_PROT_def PROT_COMBINE_def MAPPING_NODE_def)
  ultimately show ?thesis using map_page_refines [OF t] t by (simp add: ex_vm_def ALLOC_WEAK_def page_class_def)
qed

end
