(* ===== verification/VmRegion.thy ===== *)
theory VmRegion
  imports AddrSpace
begin

unbundle bit_operations_syntax

text \<open>
  Regions of an address space: the loops of \<^verbatim>\<open>unmap_region\<close>, \<^verbatim>\<open>map_physical_region\<close> and \<^verbatim>\<open>map_region\<close> cut a region into aligned pages. One rule
  for the loops gives what each of them does to the abstraction of the space.
\<close>

section \<open>The loops\<close>

text \<open>Alignment grows by the bit that is set, and passes to smaller classes.\<close>

lemma aligned_bit:
  assumes "a mod 2 ^ c = (0 :: nat)"
  shows "if bit a c then (a + 2 ^ c) mod 2 ^ Suc c = 0 else a mod 2 ^ Suc c = 0"
proof -
  obtain k where k: "a = 2 ^ c * k" using assms by (auto elim: dvdE)
  have b: "bit a c \<longleftrightarrow> odd k" by (simp add: k bit_iff_odd)
  show ?thesis
  proof (cases "odd k")
    case True
    then obtain j where "k + 1 = 2 * j" by (metis even_plus_one_iff evenE)
    moreover have "a + 2 ^ c = 2 ^ c * (k + 1)" by (simp add: k)
    ultimately have "a + 2 ^ c = 2 ^ Suc c * j" by (metis mult.assoc mult.commute power_Suc)
    then show ?thesis using True b by simp
  next
    case False
    then obtain j where "k = 2 * j" by (auto elim: evenE)
    then show ?thesis using False b by (simp add: k mult.assoc mult.left_commute)
  qed
qed

lemma aligned_mono: "a mod 2 ^ c = (0 :: nat) \<Longrightarrow> d \<le> c \<Longrightarrow> a mod 2 ^ d = 0"
  by (meson dvd_power_le mod_0_imp_dvd dvd_imp_mod_0 power_le_dvd)

lemma aligned_next: "a mod 2 ^ c = (0 :: nat) \<Longrightarrow> (a + 2 ^ c) mod 2 ^ c = 0"
  by simp

lemma region_up_returns:
  assumes "region_up act dst len lim c off s = Inr (x, t)" "\<And>c off s r t. act c off s = Inr (r, t) \<Longrightarrow> \<not> r < 0"
  shows "\<exists>y. x = Inr y"
  using assms(1)
proof (induction "lim - c" arbitrary: c off s rule: less_induct)
  case less
  note e = region_up.simps [of act dst len lim c off s]
  show ?case
  proof (cases "c < lim \<and> off + 2 ^ c \<le> len")
    case True
    then obtain u o' where "region_up act dst len lim (Suc c) o' u = Inr (x, t)"
      using less.prems e assms(2) by (auto simp: bind_res_Inr_iff split: if_splits)
    then show ?thesis using less.hyps [of "Suc c"] True by auto
  qed (use less.prems e in auto)
qed

locale region_step =
  fixes act :: "nat \<Rightarrow> nat \<Rightarrow> 's \<Rightarrow> (int \<times> 's) res" and dst len lim :: nat and P :: "nat \<Rightarrow> 's \<Rightarrow> bool"
  assumes step: "P off s \<Longrightarrow> off + 2 ^ c \<le> len \<Longrightarrow> (dst + off) mod 2 ^ c = 0 \<Longrightarrow> c \<le> lim \<Longrightarrow> act c off s = Inr (r, t) \<Longrightarrow> \<not> r < 0 \<Longrightarrow> P (off + 2 ^ c) t"
begin

lemma up:
  assumes "region_up act dst len lim c off s = Inr (x, t)" "P off s" "(dst + off) mod 2 ^ c = 0" "off \<le> len" "c \<le> lim"
  shows "case x of Inl r \<Rightarrow> r < 0 | Inr (d, o') \<Rightarrow> P o' t \<and> (dst + o') mod 2 ^ d = 0 \<and> o' \<le> len \<and> d \<le> lim \<and> (d < lim \<longrightarrow> len < o' + 2 ^ d)"
  using assms
proof (induction "lim - c" arbitrary: c off s rule: less_induct)
  case less
  note e = region_up.simps [of act dst len lim c off s]
  show ?case
  proof (cases "c < lim \<and> off + 2 ^ c \<le> len")
    case go: True
    have ih: "case x of Inl r \<Rightarrow> r < 0 | Inr (d, o') \<Rightarrow> P o' t \<and> (dst + o') mod 2 ^ d = 0 \<and> o' \<le> len \<and> d \<le> lim \<and> (d < lim \<longrightarrow> len < o' + 2 ^ d)"
      if "region_up act dst len lim (Suc c) off' u = Inr (x, t)" "P off' u" "(dst + off') mod 2 ^ Suc c = 0" "off' \<le> len" for off' u
      by (rule less.hyps [OF _ that]) (use go in auto)
    show ?thesis
    proof (cases "bit (dst + off) c")
      case True
      obtain r u where u: "act c off s = Inr (r, u)"
          "if r < 0 then x = Inl r \<and> t = u else region_up act dst len lim (Suc c) (off + 2 ^ c) u = Inr (x, t)"
        using less.prems(1) e go True by (auto simp: bind_res_Inr_iff split: if_splits)
      show ?thesis
      proof (cases "r < 0")
        case neg: False
        have "P (off + 2 ^ c) u" by (rule step [OF less.prems(2) _ less.prems(3) _ u(1) neg]) (use go in simp_all)
        then show ?thesis using ih [of "off + 2 ^ c" u] u(2) neg aligned_bit [OF less.prems(3)] True go by (simp add: add.assoc)
      qed (use u(2) in simp)
    next
      case False
      then show ?thesis using ih [of off s] less.prems e go aligned_bit [OF less.prems(3)] by simp
    qed
  next
    case False
    then show ?thesis using less.prems e by auto
  qed
qed

lemma down:
  assumes "region_down act len n off s = Inr (r, t)" "P off s" "(dst + off) mod 2 ^ (n - 1) = 0" "off \<le> len" "n \<le> Suc lim" "n = 0 \<Longrightarrow> off = len"
  shows "r < 0 \<or> r = 0 \<and> P len t"
  using assms
proof (induction n arbitrary: off s)
  case 0
  then show ?case by (simp add: region_down.simps)
next
  case (Suc c)
  note outer = Suc.IH
  show ?case using Suc.prems
  proof (induction "len - off" arbitrary: off s rule: less_induct)
    case less
    show ?case
    proof (cases "off + 2 ^ c \<le> len")
      case True
      obtain q u where u: "act c off s = Inr (q, u)" "if q < 0 then r = q \<and> t = u else region_down act len (Suc c) (off + 2 ^ c) u = Inr (r, t)"
        using less.prems(1) True region_down.simps(2) [of act len c off s] by (auto simp: bind_res_Inr_iff split: if_splits)
      show ?thesis
      proof (cases "q < 0")
        case False
        have "P (off + 2 ^ c) u" by (rule step [OF less.prems(2) True _ _ u(1) False]) (use less.prems in simp_all)
        moreover have "len - (off + 2 ^ c) < len - off" using power_room [OF True] by (simp add: diff_less_mono2)
        moreover have "(dst + (off + 2 ^ c)) mod 2 ^ (Suc c - 1) = 0" using aligned_next [of "dst + off" c] less.prems(3) by (simp add: add.assoc)
        ultimately show ?thesis using less.hyps [of "off + 2 ^ c" u] u(2) False True less.prems(5) by simp
      qed (use u(2) in simp)
    next
      case False
      have "off = len" if "c = 0" using False that less.prems(4) by simp
      moreover have "(dst + off) mod 2 ^ (c - 1) = 0" using aligned_mono [of "dst + off" c "c - 1"] less.prems(3) by simp
      moreover have "region_down act len c off s = Inr (r, t)" using less.prems(1) False region_down.simps(2) [of act len c off s] by simp
      ultimately show ?thesis using outer [of off s] less.prems(2,4,5) by simp
    qed
  qed
qed

lemma loop:
  assumes "map_loop act dst len lim s = Inr (r, t)" "P 0 s"
  shows "r < 0 \<or> r = 0 \<and> P len t"
proof -
  obtain x u where u: "region_up act dst len lim 0 0 s = Inr (x, u)" "(case x of Inl r \<Rightarrow> Inr (r, u) | Inr (c, off) \<Rightarrow> region_down act len (Suc c) off u) = Inr (r, t)"
    using assms(1) by (auto simp: map_loop_def bind_res_Inr_iff)
  have up: "case x of Inl r \<Rightarrow> r < 0 | Inr (d, o') \<Rightarrow> P o' u \<and> (dst + o') mod 2 ^ d = 0 \<and> o' \<le> len \<and> d \<le> lim \<and> (d < lim \<longrightarrow> len < o' + 2 ^ d)"
    by (rule up [OF u(1) assms(2)]) simp_all
  show ?thesis
  proof (cases x)
    case (Inr y)
    then show ?thesis using up u(2) down [of "Suc (fst y)" "snd y" u r t] by (cases y) simp
  qed (use up u(2) in simp)
qed

lemma once:
  assumes "unmap_down act' len n off s = Inr t" "act = (\<lambda>c off s. bind_res (act' c off s) (\<lambda>s. Inr (0, s)))"
    and "P off s" "(dst + off) mod 2 ^ (n - 1) = 0" "off \<le> len" "n \<le> Suc lim" "len < off + 2 ^ n"
  shows "P len t"
  using assms
proof (induction n arbitrary: off s)
  case (Suc c)
  have al: "(dst + off) mod 2 ^ c = 0" "(dst + off) mod 2 ^ (c - 1) = 0" using Suc.prems(4) aligned_mono [of "dst + off" c "c - 1"] by simp_all
  show ?case
  proof (cases "off < len")
    case True
    show ?thesis
    proof (cases "off + 2 ^ c \<le> len")
      case fits: True
      obtain u where u: "act' c off s = Inr u" "unmap_down act' len c (off + 2 ^ c) u = Inr t"
        using Suc.prems(1) True fits by (auto simp: bind_res_Inr_iff)
      have "P (off + 2 ^ c) u" by (rule step [where r = 0, OF Suc.prems(3) fits al(1)]) (use Suc.prems(2,6) u(1) in simp_all)
      moreover have "(dst + (off + 2 ^ c)) mod 2 ^ (c - 1) = 0"
        using aligned_mono [OF aligned_next [OF al(1)], of "c - 1"] by (simp add: add.assoc)
      ultimately show ?thesis using Suc.IH [OF u(2) Suc.prems(2)] fits Suc.prems(6,7) by (simp add: add.assoc)
    next
      case False
      have "unmap_down act' len c off s = Inr t" using Suc.prems(1) True False by simp
      then show ?thesis using Suc.IH [OF _ Suc.prems(2,3) al(2)] Suc.prems(5,6) False by simp
    qed
  qed (use Suc.prems in simp)
next
  case (0 off s)
  have "off = len" using "0.prems"(5,7) by simp
  then show ?case using "0.prems"(1,3) by simp
qed

end

section \<open>Unmapping\<close>

definition unmapped :: "nat \<Rightarrow> nat \<Rightarrow> nat \<Rightarrow> vmem \<Rightarrow> nat \<Rightarrow> vmem \<Rightarrow> bool" where
  "unmapped spc start len s0 off t \<longleftrightarrow> start + len \<le> 2 ^ MAX_CLASS \<and> vtree_ok (vtree t spc) \<and> (\<forall>x. x \<noteq> spc \<longrightarrow> vtree t x = vtree s0 x) \<and>
     (\<forall>v f st. maps_to (vtree t spc) v f st \<longleftrightarrow> maps_to (vtree s0 spc) v f st \<and> v \<notin> {start ..< start + off})"

interpretation unmapping: region_step "\<lambda>c off s. bind_res (unmap_page spc (start + off) c s) (\<lambda>s. Inr (0, s))" start len MAX_CLASS "unmapped spc start len s0"
  for spc start len s0
proof unfold_locales
  fix off s c and r :: int and t
  assume u: "unmapped spc start len s0 off s" and room: "off + 2 ^ c \<le> len" and c: "c \<le> MAX_CLASS"
    and run: "bind_res (unmap_page spc (start + off) c s) (\<lambda>s. Inr (0, s)) = Inr (r, t)"
  have "unmap_page spc (start + off) c s = Inr t" using run by (auto simp: bind_res_Inr_iff)
  from unmap_page_maps [OF this _ _ c] have m: "vtree_ok (vtree t spc)"
      "\<And>v f st. maps_to (vtree t spc) v f st \<longleftrightarrow> maps_to (vtree s spc) v f st \<and> v \<notin> {start + off ..< start + off + 2 ^ c}"
      "\<And>x. x \<noteq> spc \<Longrightarrow> vtree t x = vtree s x"
    using u power_room [OF room] by (auto simp: unmapped_def)
  have "v \<notin> {start ..< start + off} \<and> v \<notin> {start + off ..< start + off + 2 ^ c} \<longleftrightarrow> v \<notin> {start ..< start + (off + 2 ^ c)}" for v by auto
  then show "unmapped spc start len s0 (off + 2 ^ c) t" using u m unfolding unmapped_def by metis
qed

text \<open>
  C11: Unmapping a region removes every page that contains a byte of it, and nothing else, from that space only.
\<close>

theorem unmap_region_refines:
  assumes "unmap_region spc dst sz s = Inr t" "vtree_ok (vtree s spc)" "dst + sz + 4095 < 2 ^ 60"
  shows "vabs (vtree t spc) = (\<lambda>v. if dst div 4096 \<le> v \<and> v < (dst + sz + 4095) div 4096 then None else vabs (vtree s spc) v) \<and>
    vtree_ok (vtree t spc) \<and> (\<forall>x. x \<noteq> spc \<longrightarrow> vtree t x = vtree s x)"
proof -
  define start len where "start = dst div 4096" and "len = (dst + sz + 4095) div 4096 - start"
  have le: "start \<le> (dst + sz + 4095) div 4096" unfolding start_def by (rule div_le_mono) simp
  have "(dst + sz + 4095) div 4096 \<le> 2 ^ 48" using assms(3) by simp
  then have small: "start + len \<le> 2 ^ MAX_CLASS" using le by (simp add: len_def MAX_CLASS_def)
  let ?act = "\<lambda>c off. unmap_page spc (start + off) c"
  obtain x u where u: "region_up (\<lambda>c off s. bind_res (?act c off s) (\<lambda>s. Inr (0, s))) start len MAX_CLASS 0 0 s = Inr (x, u)"
      "(case x of Inl _ \<Rightarrow> Inr u | Inr (c, off) \<Rightarrow> unmap_down ?act len (Suc c) off u) = Inr t"
    using assms(1) unfolding unmap_region_def Let_def start_def [symmetric] len_def [symmetric] by (auto simp: bind_res_Inr_iff)
  have p: "unmapped spc start len s 0 s" using small assms(2) by (simp add: unmapped_def)
  note up = unmapping.up [OF u(1) p]
  obtain c off where y: "x = Inr (c, off)" using region_up_returns [OF u(1)] by (auto simp: bind_res_Inr_iff)
  have q: "unmapped spc start len s off u" "(start + off) mod 2 ^ c = 0" "off \<le> len" "c \<le> MAX_CLASS" "c < MAX_CLASS \<Longrightarrow> len < off + 2 ^ c"
    using up by (simp_all add: y)
  have "0 < (2 :: nat) ^ c" by simp
  moreover have "len < off + 2 ^ c \<or> len \<le> 2 ^ c" using q(4,5) small by (cases "c = MAX_CLASS") auto
  ultimately have "len < off + 2 ^ Suc c" unfolding power_Suc by linarith
  moreover have run: "unmap_down ?act len (Suc c) off u = Inr t" using u(2) by (simp only: y sum.case prod.case)
  ultimately have "unmapped spc start len s len t" by (intro unmapping.once [OF run refl q(1)]) (use q(2-4) in simp_all)
  then have m: "vtree_ok (vtree t spc)" "\<And>x. x \<noteq> spc \<Longrightarrow> vtree t x = vtree s x"
      "\<And>v f st. maps_to (vtree t spc) v f st \<longleftrightarrow> maps_to (vtree s spc) v f st \<and> v \<notin> {start ..< start + len}"
    by (simp_all add: unmapped_def)
  have "vabs (vtree t spc) v = (if start \<le> v \<and> v < (dst + sz + 4095) div 4096 then None else vabs (vtree s spc) v)" for v
    by (rule vabs_eqI [OF m(1)]) (use m(3) vabs_maps [OF assms(2)] le in \<open>auto simp: len_def\<close>)
  then show ?thesis using m unfolding start_def by blast
qed

section \<open>Physical regions\<close>

lemma lookup_alloc_length: "lookup_alloc ens type addr k p s = Inr (q, t) \<Longrightarrow> length q = length p + k"
  by (induction k arbitrary: p s) (auto simp: Let_def bind_res_Inr_iff)

lemma page_lookup_place:
  assumes "page_lookup hint addr c PARTIAL_NODE m = Inr (p, m')" "addr \<in> frames hint" "c \<le> page_class hint" "length hint \<le> MAX_CLASS"
  shows "page_class p = c" "page_addr p = addr" "length p \<le> MAX_CLASS"
proof -
  have l: "lookup_alloc ensure_free_desc PARTIAL_NODE addr (page_class hint - c) hint m = Inr (p, m')" "addr mod 2 ^ c = 0"
    using assms(1) by (auto simp: page_lookup_def page_lookup_alloc_def bind_res_Inr_iff)
  have len: "length p = MAX_CLASS - c" using lookup_alloc_length [OF l(1)] assms(3,4) by (simp add: page_class_def)
  have c: "c \<le> MAX_CLASS" using assms(3) by (simp add: page_class_def)
  have "addr \<in> frames p" by (rule lookup_alloc_holds [OF l(1) assms(2)]) simp
  from page_frames [OF this l(2) len c] show "page_class p = c" "page_addr p = addr" by simp_all
  show "length p \<le> MAX_CLASS" using len by simp
qed

definition mapped_linear :: "nat \<Rightarrow> nat \<Rightarrow> nat \<Rightarrow> nat \<Rightarrow> u32 \<Rightarrow> vmem \<Rightarrow> nat \<Rightarrow> vmem \<Rightarrow> bool" where
  "mapped_linear spc start pstart len flags s0 off t \<longleftrightarrow> start + len \<le> 2 ^ MAX_CLASS \<and> pstart + len \<le> 2 ^ MAX_CLASS \<and> flags AND ALLOC_WEAK = 0 \<and>
     vtree_ok (vtree t spc) \<and> (\<forall>x. x \<noteq> spc \<longrightarrow> vtree t x = vtree s0 x) \<and>
     (\<forall>v f st. maps_to (vtree t spc) v f st \<longleftrightarrow>
        (if v \<in> {start ..< start + off} then f = pstart + (v - start) \<and> st = map_state flags else maps_to (vtree s0 spc) v f st))"

lemma linear_next:
  fixes a off d v :: nat
  assumes "b = (v \<in> {a + off ..< a + off + d})"
  shows "(if b then f = p + off + (v - (a + off)) \<and> X else if v \<in> {a ..< a + off} then f = p + (v - a) \<and> X else Y) \<longleftrightarrow>
    (if v \<in> {a ..< a + (off + d)} then f = p + (v - a) \<and> X else Y)"
  using assms by auto

interpretation linear: region_step "\<lambda>c off s. bind_res (page_lookup [] (pstart + off) c PARTIAL_NODE (pm s)) (\<lambda>(page, m).
    map_page spc (start + off) page flags (s\<lparr>pm := m\<rparr>))" start len lim "mapped_linear spc start pstart len flags s0"
  for spc start pstart flags len lim s0
proof unfold_locales
  fix off s c and r :: int and t
  assume u: "mapped_linear spc start pstart len flags s0 off s" and room: "off + 2 ^ c \<le> len"
    and run: "bind_res (page_lookup [] (pstart + off) c PARTIAL_NODE (pm s)) (\<lambda>(page, m). map_page spc (start + off) page flags (s\<lparr>pm := m\<rparr>)) = Inr (r, t)"
  obtain page m where pg: "page_lookup [] (pstart + off) c PARTIAL_NODE (pm s) = Inr (page, m)" "map_page spc (start + off) page flags (s\<lparr>pm := m\<rparr>) = Inr (r, t)"
    using run by (auto simp: bind_res_Inr_iff)
  have len: "start + len \<le> 2 ^ MAX_CLASS" "pstart + len \<le> 2 ^ MAX_CLASS" using u by (simp_all add: mapped_linear_def)
  have b: "pstart + off < 2 ^ MAX_CLASS" "start + off < 2 ^ MAX_CLASS" "2 ^ c \<le> (2 :: nat) ^ MAX_CLASS"
    using len room power_room [OF room] by linarith+
  have c: "c \<le> MAX_CLASS" using b(3) by simp
  have pl: "page_class page = c" "page_addr page = pstart + off" "length page \<le> MAX_CLASS"
    using page_lookup_place [OF pg(1)] b(1) c by (simp_all add: frames_root page_class_def)
  have ok: "vtree_ok (vtree (s\<lparr>pm := m\<rparr>) spc)" "flags AND ALLOC_WEAK = 0" using u by (simp_all add: mapped_linear_def)
  note mp = map_page_maps [OF pg(2) ok(1) b(2) pl(3) ok(2)]
  have "maps_to (vtree t spc) v f st \<longleftrightarrow>
      (if v \<in> {start ..< start + (off + 2 ^ c)} then f = pstart + (v - start) \<and> st = map_state flags else maps_to (vtree s0 spc) v f st)" for v f st
    using u unfolding mp(2) pl linear_next [OF refl, symmetric] by (simp add: mapped_linear_def)
  then show "mapped_linear spc start pstart len flags s0 (off + 2 ^ c) t" using u mp(1,3) unfolding mapped_linear_def by simp
qed

text \<open>
  Mapping a physical region makes the region of the address space point to the physical one, page by page, with the given flags, and changes no
  other address and no other space.
\<close>

theorem map_physical_region_refines:
  assumes "map_physical_region spc dstart pstart sz flags s = Inr (r, t)" "0 \<le> r" "vtree_ok (vtree s spc)" "flags AND ALLOC_WEAK = 0"
    and "dstart + sz + 4095 < 2 ^ 60" "pstart + sz + 4095 < 2 ^ 60"
  shows "vabs (vtree t spc) = (\<lambda>v. if dstart div 4096 \<le> v \<and> v < (dstart + sz + 4095) div 4096
      then Some (pstart div 4096 + (v - dstart div 4096), map_state flags) else vabs (vtree s spc) v) \<and>
    vtree_ok (vtree t spc) \<and> (\<forall>x. x \<noteq> spc \<longrightarrow> vtree t x = vtree s x)"
proof -
  define start len where "start = dstart div 4096" and "len = (dstart + sz + 4095) div 4096 - start"
  obtain lim where al: "dstart mod 4096 = 0" and lp: "map_loop (\<lambda>c off s. bind_res (page_lookup [] (pstart div 4096 + off) c PARTIAL_NODE (pm s)) (\<lambda>(page, m).
      map_page spc (start + off) page flags (s\<lparr>pm := m\<rparr>))) start len lim s = Inr (r, t)"
    using assms(1) unfolding map_physical_region_def Let_def start_def [symmetric] len_def [symmetric] by (auto simp: bind_res_Inr_iff addr_common_class_def)
  have le: "start \<le> (dstart + sz + 4095) div 4096" unfolding start_def by (rule div_le_mono) simp
  have "(dstart + sz + 4095) div 4096 \<le> 2 ^ 48" using assms(5) by simp
  moreover have "(dstart + sz + 4095) div 4096 = start + (sz + 4095) div 4096" using al unfolding start_def by (metis add.assoc div_plus_div_distrib_dvd_left dvd_eq_mod_eq_0)
  moreover have "pstart div 4096 + (sz + 4095) div 4096 \<le> (pstart + sz + 4095) div 4096"
    using div_add1_eq [of pstart "sz + 4095" 4096] by (simp add: add.assoc)
  ultimately have small: "start + len \<le> 2 ^ MAX_CLASS" "pstart div 4096 + len \<le> 2 ^ MAX_CLASS"
    using le assms(6) by (simp_all add: len_def MAX_CLASS_def)
  have p: "mapped_linear spc start (pstart div 4096) len flags s 0 s" using small assms(3,4) by (simp add: mapped_linear_def)
  have "mapped_linear spc start (pstart div 4096) len flags s len t" using linear.loop [OF lp p] assms(2) by simp
  then have m: "vtree_ok (vtree t spc)" "\<And>x. x \<noteq> spc \<Longrightarrow> vtree t x = vtree s x"
      "\<And>v f st. maps_to (vtree t spc) v f st \<longleftrightarrow>
        (if v \<in> {start ..< start + len} then f = pstart div 4096 + (v - start) \<and> st = map_state flags else maps_to (vtree s spc) v f st)"
    by (simp_all add: mapped_linear_def)
  have "vabs (vtree t spc) v = (if start \<le> v \<and> v < (dstart + sz + 4095) div 4096
      then Some (pstart div 4096 + (v - start), map_state flags) else vabs (vtree s spc) v)" for v
    by (rule vabs_eqI [OF m(1)]) (use m(3) vabs_maps [OF assms(3)] le in \<open>auto simp: len_def\<close>)
  then show ?thesis using m unfolding start_def by blast
qed

section \<open>Examples\<close>

lemma region_up_one: "2 \<le> lim \<Longrightarrow> region_up act 0 (Suc 0) lim 0 0 s = Inr (Inr (Suc 0, 0), s)"
  by (simp add: region_up.simps)

lemma lookup_alloc_used:
  assumes "\<And>r. nodes m r = Some \<lparr>pstate = ALLOCATABLE_NODE, refc = 3\<rparr>" "2 * k + 4 \<le> free_desc_count m"
  shows "lookup_alloc ensure_free_desc PARTIAL_NODE 0 k (left i) m = Inr (left (i + k), m)"
  using assms
proof (induction k arbitrary: i)
  case (Suc k)
  have "descend ensure_free_desc PARTIAL_NODE (Suc k) False (left i) m = Inr m"
    using Suc.prems by (simp add: descend_def ensure_free_desc_def alloc_missing_def mark_partial_def PAGE_IS_FREE_def assert_res_def)
  then show ?case using Suc.IH [of "Suc i"] Suc.prems by (simp flip: replicate_Suc)
qed simp

lemma page_addr_left [simp]: "page_addr (left n) = 0"
  by (induction n) simp_all

lemma ex_lookup: "i \<le> MAX_CLASS \<Longrightarrow> page_lookup (left i) 0 0 PARTIAL_NODE (pm ex_vm) = Inr (left MAX_CLASS, pm ex_vm)"
  using lookup_alloc_used [of "pm ex_vm" "MAX_CLASS - i" i]
  by (simp add: page_lookup_def page_lookup_alloc_def page_class_def assert_res_def ex_vm_def MAX_CLASS_def)

theorem unmap_region_refines_witness: "\<exists>t. unmap_region 1 0 1 ex_vm = Inr t \<and> vabs (vtree t 1) 0 = None \<and> vtree t 0 = ex_tree"
proof -
  obtain u where u: "unmap_page 1 0 0 ex_vm = Inr u" using unmap_example_vm by blast
  have "unmap_region 1 0 1 ex_vm = Inr u"
    using u by (simp add: unmap_region_def Let_def MAX_CLASS_def region_up_one)
  moreover have "vtree_ok (vtree ex_vm 1)" using ex_tree_ok by (simp add: ex_vm_def)
  ultimately show ?thesis using unmap_region_refines [of 1 0 1 ex_vm u] by (simp add: ex_vm_def)
qed

lemma common_class_same: "addr_common_class_from a a c = (if c \<le> MAX_CLASS then MAX_CLASS else c)"
proof (induction "MAX_CLASS - c" arbitrary: c)
  case 0
  then show ?case by (subst addr_common_class_from.simps) auto
next
  case (Suc n)
  then show ?case using Suc.hyps(1) [of "Suc c"] by (subst addr_common_class_from.simps) auto
qed

lemma map_loop_one:
  assumes "act 0 0 s = Inr (0, t)"
  shows "2 \<le> lim \<Longrightarrow> map_loop act 0 (Suc 0) lim s = Inr (0, t)"
  using assms by (simp add: map_loop_def region_up_one region_down.simps)

theorem map_physical_region_refines_witness:
  "\<exists>t. map_physical_region 0 0 0 4096 0x4 ex_vm = Inr (0, t) \<and> vabs (vtree t 0) 0 = Some (0, 0x100004) \<and> vtree t 1 = ex_tree"
proof -
  obtain t where t: "map_page 0 0 (left MAX_CLASS) 0x4 ex_vm = Inr (0, t)"
    using map_example_vm [of "0x4" 0] by (auto simp: PROT_LAZY_def ALLOC_WEAK_def)
  have "map_physical_region 0 0 0 4096 0x4 ex_vm = Inr (0, t)"
    using t ex_lookup [of 0] by (simp add: map_physical_region_def addr_common_class_def common_class_same assert_res_def Let_def MAX_CLASS_def map_loop_one)
  moreover have "vtree_ok (vtree ex_vm 0)" using ex_tree_ok by (simp add: ex_vm_def)
  moreover have "map_state 0x4 = 0x100004" by (simp add: map_state_def PAGE_PROT_def PROT_COMBINE_def MAPPING_NODE_def)
  ultimately show ?thesis using map_physical_region_refines [of 0 0 0 4096 "0x4" ex_vm 0 t] by (simp add: ex_vm_def ALLOC_WEAK_def)
qed

section \<open>References\<close>

text \<open>
  On a region of one page, \<^verbatim>\<open>region_maxref\<close> is the count of references of the physical page that is mapped there, one more if that page is split, and 0 when no
  page is mapped there.
\<close>

lemma region_maxref_page:
  assumes "page_lookup_virtual spc a 0 LOOKUP_PRESERVE s = Inr (p, s')"
  shows "region_maxref spc (4096 * a) 4096 s = (case Option.bind (vtree s spc p) vphy of None \<Rightarrow> Inr 0
    | Some q \<Rightarrow> (case nodes (pm s) q of None \<Rightarrow> Inl NullDeref
       | Some n \<Rightarrow> Inr (refc n + (if nodes (pm s) (False # q) \<noteq> None \<or> nodes (pm s) (True # q) \<noteq> None then 1 else 0))))"
proof -
  have fin: "(4096 * a + 4096 + 4095) div 4096 = a + 1" by simp
  have stop: "maxref_from spc (a + k) (Suc a) acc s = Inr acc" if "0 < k" for k acc
    using that by (subst maxref_from.simps) simp
  have "maxref_from spc a (a + 1) 0 s = (case Option.bind (vtree s spc p) vphy of None \<Rightarrow> Inr 0
    | Some q \<Rightarrow> (case nodes (pm s) q of None \<Rightarrow> Inl NullDeref
       | Some n \<Rightarrow> Inr (refc n + (if nodes (pm s) (False # q) \<noteq> None \<or> nodes (pm s) (True # q) \<noteq> None then 1 else 0))))"
    by (subst maxref_from.simps) (simp add: assms stop [of "2 ^ _"] stop [of 1, simplified] split: option.split)
  then show ?thesis by (simp add: region_maxref_def)
qed

end
