(* ===== verification/VmShare.thy ===== *)
theory VmShare
  imports VmRegion
begin

unbundle bit_operations_syntax

text \<open>
  \<^verbatim>\<open>map_region\<close>: fresh memory that is filled lazily, and memory that two address spaces share. Kernel heap and device windows are built on it.
\<close>

section \<open>Lazily filled memory\<close>

lemma map_tables_code: "map_tables spc addr page flags s = Inr (r, t) \<Longrightarrow> r = 0 \<or> r = - E_NO_MEM"
  by (auto simp: map_tables_def Let_def bind_res_Inr_iff split: if_splits prod.splits option.splits)

lemma map_page_code: "map_page spc addr page flags s = Inr (r, t) \<Longrightarrow> r = 0 \<or> r = - E_NO_MEM"
  unfolding map_page_def by (auto simp: bind_res_Inr_iff split: if_splits dest: map_tables_code)

lemma map_page_vabs:
  assumes "map_page spc addr page flags s = Inr (r, t)" "vtree_ok (vtree s spc)" "addr < 2 ^ MAX_CLASS" "length page \<le> MAX_CLASS" "flags AND ALLOC_WEAK = 0"
  shows "vabs (vtree t spc) v = (if v \<in> {addr ..< addr + 2 ^ page_class page} then Some (page_addr page + (v - addr), map_state flags) else vabs (vtree s spc) v)"
  by (rule vabs_eqI [OF map_page_maps(1) [OF assms]]) (use map_page_maps(2) [OF assms] vabs_maps [OF assms(2)] in auto)

lemma space_step_refl [simp]: "space_step spc s s"
  by (rule tree_space_step) simp

text \<open>Every frame of the range \<open>R\<close> is backed by a frame of \<open>page\<close>, in the given state; the rest is as before.\<close>

definition backed :: "nat set \<Rightarrow> path \<Rightarrow> u32 \<Rightarrow> vtree \<Rightarrow> vtree \<Rightarrow> bool" where
  "backed R page st a b \<longleftrightarrow> (\<forall>v\<in>R. \<exists>f\<in>frames page. vabs b v = Some (f, st)) \<and> (\<forall>v. v \<notin> R \<longrightarrow> vabs b v = vabs a v)"

lemma backed_union: "backed R page st a b \<Longrightarrow> backed S page st b d \<Longrightarrow> backed (R \<union> S) page st a d"
  unfolding backed_def by (metis Un_iff)

lemma backed_mono: "backed R page st a b \<Longrightarrow> frames page \<subseteq> frames page' \<Longrightarrow> backed R page' st a b"
  unfolding backed_def by blast

lemma map_page_backed:
  assumes "map_page spc addr page flags s = Inr (r, t)" "vtree_ok (vtree s spc)" "addr < 2 ^ MAX_CLASS" "length page \<le> MAX_CLASS" "flags AND ALLOC_WEAK = 0"
  shows "backed {addr ..< addr + 2 ^ page_class page} page (map_state flags) (vtree s spc) (vtree t spc)"
  using map_page_vabs [OF assms] by (auto simp: backed_def frames_def)

lemma map_fillers_backed:
  assumes "map_fillers spc as page flags s = Inr (r, t)" "\<not> r < 0" "vtree_ok (vtree s spc)" "\<forall>a\<in>set as. a < 2 ^ MAX_CLASS" "length page \<le> MAX_CLASS"
    and "flags AND ALLOC_WEAK = 0"
  shows "r = 0 \<and> vtree_ok (vtree t spc) \<and> space_step spc s t \<and>
    backed (\<Union>a\<in>set as. {a ..< a + 2 ^ page_class page}) page (map_state flags) (vtree s spc) (vtree t spc)"
  using assms
proof (induction "as" arbitrary: s)
  case Nil
  then show ?case by (simp add: backed_def)
next
  case (Cons a "as")
  obtain q u where u: "map_page spc a page flags s = Inr (q, u)" "if q \<noteq> 0 then r = q \<and> t = u else map_fillers spc as page flags u = Inr (r, t)"
    using Cons.prems(1) by (auto simp: bind_res_Inr_iff split: if_splits)
  have q: "q = 0" using map_page_code [OF u(1)] u(2) Cons.prems(2) by (auto simp: E_NO_MEM_def split: if_splits)
  have a: "a < 2 ^ MAX_CLASS" using Cons.prems(4) by simp
  note m = map_page_maps [OF u(1) Cons.prems(3) a Cons.prems(5,6)] and b = map_page_backed [OF u(1) Cons.prems(3) a Cons.prems(5,6)]
  have "map_fillers spc as page flags u = Inr (r, t)" using u(2) q by simp
  note ih = Cons.IH [OF this Cons.prems(2) m(1) _ Cons.prems(5,6)]
  show ?case using ih Cons.prems(4) backed_union [OF b] space_step_trans [OF m(4)] by simp
qed

lemma filler_range:
  fixes dst c d :: nat
  assumes "d \<le> c"
  shows "(\<Union>a\<in>set (map (\<lambda>i. dst + i * 2 ^ d) [0..<2 ^ (c - d)]). {a ..< a + 2 ^ d}) = {dst ..< dst + 2 ^ c}"
proof -
  have n: "(2 :: nat) ^ (c - d) * 2 ^ d = 2 ^ c" using assms by (simp flip: power_add)
  have "v \<in> (\<Union>i\<in>{0..<2 ^ (c - d)}. {dst + i * 2 ^ d ..< dst + i * 2 ^ d + 2 ^ d}) \<longleftrightarrow> v \<in> {dst ..< dst + 2 ^ c}" for v
  proof
    assume "v \<in> (\<Union>i\<in>{0..<2 ^ (c - d)}. {dst + i * 2 ^ d ..< dst + i * 2 ^ d + 2 ^ d})"
    then obtain i where i: "i < 2 ^ (c - d)" "dst + i * 2 ^ d \<le> v" "v < dst + i * 2 ^ d + 2 ^ d" by auto
    have "Suc i * 2 ^ d \<le> 2 ^ (c - d) * 2 ^ d" using i(1) by (intro mult_right_mono) simp_all
    then have "Suc i * 2 ^ d \<le> 2 ^ c" unfolding n .
    then show "v \<in> {dst ..< dst + 2 ^ c}" using i(2,3) by simp
  next
    assume v: "v \<in> {dst ..< dst + 2 ^ c}"
    define i where "i = (v - dst) div 2 ^ d"
    have "v - dst < 2 ^ (c - d) * 2 ^ d" using v unfolding n by auto
    then have "i < 2 ^ (c - d)" unfolding i_def by (simp add: less_mult_imp_div_less)
    moreover have "i * 2 ^ d \<le> v - dst" "v - dst < i * 2 ^ d + 2 ^ d"
      unfolding i_def by (simp, metis add.commute dividend_less_div_times zero_less_numeral zero_less_power)
    then have "v \<in> {dst + i * 2 ^ d ..< dst + i * 2 ^ d + 2 ^ d}" using v by auto
    ultimately show "v \<in> (\<Union>i\<in>{0..<2 ^ (c - d)}. {dst + i * 2 ^ d ..< dst + i * 2 ^ d + 2 ^ d})" by auto
  qed
  then have "(\<Union>i\<in>{0..<2 ^ (c - d)}. {dst + i * 2 ^ d ..< dst + i * 2 ^ d + 2 ^ d}) = {dst ..< dst + 2 ^ c}" by blast
  then show ?thesis by simp
qed

definition filler :: "u32 \<Rightarrow> vmem \<Rightarrow> path" where
  "filler flags s = (if flags AND ALLOC_ONE \<noteq> 0 then one_page s else zero_page s)"

definition lazy_state :: "u32 \<Rightarrow> u32" where
  "lazy_state flags = map_state ((flags AND PROT_ALL AND NOT PROT_COMBINE) OR PROT_LAZY)"

lemma one_page_filled:
  assumes "do_map_region_one_page destroy spc dst sspace src c flags s = Inr (r, t)" "\<not> r < 0"
    and "flags AND (ALLOC_ONE OR ALLOC_ZERO) \<noteq> 0" "flags AND PROT_SHARE = 0" "vtree_ok (vtree s spc)" "dst + 2 ^ c \<le> 2 ^ MAX_CLASS"
    and "page_class (filler flags s) = MAX_ALLOCATION_CLASS"
  shows "r = 0 \<and> vtree_ok (vtree t spc) \<and> space_step spc s t \<and> backed {dst ..< dst + 2 ^ c} (filler flags s) (lazy_state flags) (vtree s spc) (vtree t spc)"
proof -
  let ?d = "min c MAX_ALLOCATION_CLASS" and ?fl = "(flags AND PROT_ALL AND NOT PROT_COMBINE) OR PROT_LAZY"
  obtain page m where pg: "page_lookup (filler flags s) (page_addr (filler flags s)) ?d PARTIAL_NODE (pm s) = Inr (page, m)"
      and run: "map_fillers spc (map (\<lambda>i. dst + i * 2 ^ ?d) [0..<2 ^ (c - ?d)]) page ?fl (s\<lparr>pm := m\<rparr>) = Inr (r, t)"
    using assms(1,3,4) by (auto simp: do_map_region_one_page_def filler_def Let_def bind_res_Inr_iff)
  have len: "length (filler flags s) \<le> MAX_CLASS" using assms(7) by (simp add: page_class_def MAX_ALLOCATION_CLASS_def)
  have start: "page_addr (filler flags s) \<in> frames (filler flags s)" by (simp add: frames_def)
  have pl: "page_class page = ?d" "page_addr page = page_addr (filler flags s)" "length page \<le> MAX_CLASS"
    using page_lookup_place [OF pg start _ len] assms(7) by simp_all
  have weak: "?fl AND ALLOC_WEAK = 0"
    unfolding PROT_ALL_def PROT_LAZY_def ALLOC_WEAK_def by (simp add: bit.conj_disj_distrib2 and.assoc and.left_commute)
  have range: "(\<Union>a\<in>set (map (\<lambda>i. dst + i * 2 ^ ?d) [0..<2 ^ (c - ?d)]). {a ..< a + 2 ^ page_class page}) = {dst ..< dst + 2 ^ c}"
    using filler_range [of ?d c dst] pl(1) by simp
  have "\<forall>a\<in>set (map (\<lambda>i. dst + i * 2 ^ ?d) [0..<2 ^ (c - ?d)]). a < 2 ^ MAX_CLASS"
  proof
    fix a assume "a \<in> set (map (\<lambda>i. dst + i * 2 ^ ?d) [0..<2 ^ (c - ?d)])"
    then have "a \<in> (\<Union>a\<in>set (map (\<lambda>i. dst + i * 2 ^ ?d) [0..<2 ^ (c - ?d)]). {a ..< a + 2 ^ page_class page})" by (rule UN_I) simp
    then show "a < 2 ^ MAX_CLASS" using assms(6) unfolding range by auto
  qed
  then have f: "r = 0 \<and> vtree_ok (vtree t spc) \<and> space_step spc (s\<lparr>pm := m\<rparr>) t \<and> backed {dst ..< dst + 2 ^ c} page (map_state ?fl) (vtree (s\<lparr>pm := m\<rparr>) spc) (vtree t spc)"
    using map_fillers_backed [OF run assms(2) _ _ pl(3) weak] assms(5) unfolding range by simp
  have "(2 :: nat) ^ ?d \<le> 2 ^ MAX_ALLOCATION_CLASS" by (intro power_increasing) simp_all
  then have "frames page \<subseteq> frames (filler flags s)" using pl(1,2) assms(7) by (auto simp: frames_def)
  then have "backed {dst ..< dst + 2 ^ c} (filler flags s) (lazy_state flags) (vtree s spc) (vtree t spc)"
    using f backed_mono unfolding lazy_state_def by (simp, blast)
  then show ?thesis using f space_step_from_pm by blast
qed

definition filled :: "nat \<Rightarrow> nat \<Rightarrow> nat \<Rightarrow> u32 \<Rightarrow> vmem \<Rightarrow> nat \<Rightarrow> vmem \<Rightarrow> bool" where
  "filled spc start len flags s0 off t \<longleftrightarrow> start + len \<le> 2 ^ MAX_CLASS \<and> flags AND (ALLOC_ONE OR ALLOC_ZERO) \<noteq> 0 \<and> flags AND PROT_SHARE = 0 \<and>
     page_class (filler flags s0) = MAX_ALLOCATION_CLASS \<and> vtree_ok (vtree t spc) \<and> space_step spc s0 t \<and>
     backed {start ..< start + off} (filler flags s0) (lazy_state flags) (vtree s0 spc) (vtree t spc)"

interpretation filling: region_step "\<lambda>c off. do_map_region_one_page destroy spc (start + off) sspace (src + off) c flags" start len lim
    "filled spc start len flags s0"
  for destroy spc start sspace src flags len lim s0
proof unfold_locales
  fix off s c and r :: int and t
  assume u: "filled spc start len flags s0 off s" and room: "off + 2 ^ c \<le> len" and r: "\<not> r < 0"
    and run: "do_map_region_one_page destroy spc (start + off) sspace (src + off) c flags s = Inr (r, t)"
  have same: "filler flags s = filler flags s0" using u space_stepD(3,4) [of spc s0 s] by (simp add: filled_def filler_def)
  have "start + off + 2 ^ c \<le> 2 ^ MAX_CLASS" using u room by (simp add: filled_def)
  then have o: "vtree_ok (vtree t spc)" "space_step spc s t"
      "backed {start + off ..< start + off + 2 ^ c} (filler flags s0) (lazy_state flags) (vtree s spc) (vtree t spc)"
    using one_page_filled [OF run r] u same by (simp_all add: filled_def)
  have "{start ..< start + off} \<union> {start + off ..< start + off + 2 ^ c} = {start ..< start + (off + 2 ^ c)}" by auto
  then have "backed {start ..< start + (off + 2 ^ c)} (filler flags s0) (lazy_state flags) (vtree s0 spc) (vtree t spc)"
    using backed_union [OF _ o(3)] u unfolding filled_def by metis
  then show "filled spc start len flags s0 (off + 2 ^ c) t" using u o space_step_trans unfolding filled_def by blast
qed

text \<open>
  C22: A region allocated with \<^verbatim>\<open>ALLOC_ZERO\<close> or \<^verbatim>\<open>ALLOC_ONE\<close> and not shared takes no memory: each of its pages is backed by the filler page, to be copied on the
  first write. The rest of the space and the other spaces keep their mappings.
\<close>

theorem map_region_lazy:
  assumes "map_region destroy spc dst sspace src sz flags s = Inr (r, t)" "0 \<le> r" "flags AND (ALLOC_ONE OR ALLOC_ZERO) \<noteq> 0" "flags AND PROT_SHARE = 0"
    and "vtree_ok (vtree s spc)" "dst + sz \<le> 2 ^ 60" "page_class (filler flags s) = MAX_ALLOCATION_CLASS"
  shows "(\<forall>v\<in>{dst div 4096 ..< dst div 4096 + sz div 4096}. \<exists>f\<in>frames (filler flags s). vabs (vtree t spc) v = Some (f, lazy_state flags)) \<and>
    (\<forall>v. v \<notin> {dst div 4096 ..< dst div 4096 + sz div 4096} \<longrightarrow> vabs (vtree t spc) v = vabs (vtree s spc) v) \<and>
    vtree_ok (vtree t spc) \<and> (\<forall>x. x \<noteq> spc \<longrightarrow> vtree t x = vtree s x)"
proof -
  obtain lim where lp: "map_loop (\<lambda>c off. do_map_region_one_page destroy spc (dst div 4096 + off) sspace (src div 4096 + off) c flags)
      (dst div 4096) (sz div 4096) lim s = Inr (r, t)" and al: "dst mod 4096 = 0" "sz mod 4096 = 0"
    using assms(1,2) by (auto simp: map_region_def bind_res_Inr_iff split: if_splits)
  have "dst div 4096 + sz div 4096 = (dst + sz) div 4096" using al by (metis div_plus_div_distrib_dvd_left dvd_eq_mod_eq_0)
  then have "dst div 4096 + sz div 4096 \<le> 2 ^ MAX_CLASS" using assms(6) by (simp add: MAX_CLASS_def)
  then have "filled spc (dst div 4096) (sz div 4096) flags s 0 s" using assms by (simp add: filled_def backed_def)
  from filling.loop [OF lp this] have "filled spc (dst div 4096) (sz div 4096) flags s (sz div 4096) t" using assms(2) by simp
  then show ?thesis using space_stepD(1) unfolding filled_def backed_def by blast
qed

section \<open>Shared memory\<close>

text \<open>The state of the new mapping, and of the old one after it: a lazy copy makes both lazy.\<close>

definition new_state :: "u32 \<Rightarrow> u32 \<Rightarrow> u32" where
  "new_state flags st = map_state (map_flags (st AND PROT_ALL) (combined_flags (st AND PROT_ALL) flags))"

definition old_state :: "u32 \<Rightarrow> u32 \<Rightarrow> u32" where
  "old_state flags st = (if map_flags (st AND PROT_ALL) (combined_flags (st AND PROT_ALL) flags) AND PROT_LAZY \<noteq> 0
     then map_state ((st AND PROT_ALL) OR PROT_LAZY) else st)"

text \<open>A mapping that has to be copied first: it is lazy and the new one is not.\<close>

definition copy_first :: "u32 \<Rightarrow> u32 \<Rightarrow> bool" where
  "copy_first flags st \<longleftrightarrow> combined_flags (st AND PROT_ALL) flags AND PROT_LAZY = 0 \<and> st AND PROT_LAZY \<noteq> 0"

type_synonym space = "nat \<Rightarrow> (nat \<times> u32) option"

definition share :: "nat \<Rightarrow> nat \<Rightarrow> nat \<Rightarrow> u32 \<Rightarrow> space \<Rightarrow> space \<Rightarrow> space" where
  "share dst src n flags a b = (\<lambda>v. if dst \<le> v \<and> v < dst + n
     then case a (src + (v - dst)) of None \<Rightarrow> b v | Some (f, st) \<Rightarrow> Some (f, new_state flags st) else b v)"

definition mark :: "nat \<Rightarrow> nat \<Rightarrow> u32 \<Rightarrow> space \<Rightarrow> space" where
  "mark src n flags a = (\<lambda>v. if src \<le> v \<and> v < src + n then map_option (\<lambda>(f, st). (f, old_state flags st)) (a v) else a v)"

definition shared :: "nat \<Rightarrow> nat \<Rightarrow> nat \<Rightarrow> nat \<Rightarrow> nat \<Rightarrow> u32 \<Rightarrow> vmem \<Rightarrow> vmem \<Rightarrow> bool" where
  "shared dspc dst sspc src n flags s t \<longleftrightarrow> vtree_ok (vtree t dspc) \<and> vtree_ok (vtree t sspc) \<and>
     vabs (vtree t dspc) = share dst src n flags (vabs (vtree s sspc)) (vabs (vtree s dspc)) \<and>
     vabs (vtree t sspc) = mark src n flags (vabs (vtree s sspc)) \<and> (\<forall>x. x \<noteq> dspc \<and> x \<noteq> sspc \<longrightarrow> vtree t x = vtree s x)"

definition keeps_inter :: "nat \<Rightarrow> nat \<Rightarrow> vmem \<Rightarrow> vmem \<Rightarrow> bool" where
  "keeps_inter spc d s t \<longleftrightarrow> (\<forall>q. inter (vtree s spc) q \<and> length q < d \<longrightarrow> inter (vtree t spc) q)"

lemma mark_outside: "v \<notin> {src ..< src + n} \<Longrightarrow> mark src n flags a v = a v"
  by (auto simp: mark_def)

lemma share_next: "share (dst + m) (src + m) n flags (mark src m flags a) (share dst src m flags a b) = share dst src (m + n) flags a b"
proof
  fix v
  show "share (dst + m) (src + m) n flags (mark src m flags a) (share dst src m flags a b) v = share dst src (m + n) flags a b v"
  proof (cases "dst + m \<le> v")
    case True
    then obtain j where v: "v = dst + m + j" using le_Suc_ex by blast
    have "mark src m flags a (src + (m + j)) = a (src + (m + j))" by (rule mark_outside) simp
    then show ?thesis unfolding v share_def by (simp add: add.assoc)
  qed (auto simp: share_def)
qed

lemma mark_next: "mark (src + m) n flags (mark src m flags a) = mark src (m + n) flags a"
  by (auto simp: mark_def fun_eq_iff)

lemma share_0: "share dst src 0 flags a b = b" "mark src 0 flags a = a"
  by (auto simp: share_def mark_def fun_eq_iff)

lemma shared_refl: "vtree_ok (vtree s dspc) \<Longrightarrow> vtree_ok (vtree s sspc) \<Longrightarrow> shared dspc dst sspc src 0 flags s s"
  by (simp add: shared_def share_0)

lemma shared_next:
  assumes "shared dspc dst sspc src m flags s t" "shared dspc (dst + m) sspc (src + m) n flags t u"
  shows "shared dspc dst sspc src (m + n) flags s u"
  using assms unfolding shared_def by (simp add: share_next mark_next)

lemma weak_flags:
  assumes "flags AND ALLOC_WEAK = 0"
  shows "map_flags (st AND PROT_ALL) (combined_flags (st AND PROT_ALL) flags) AND ALLOC_WEAK = 0" "((st AND PROT_ALL) OR PROT_LAZY) AND ALLOC_WEAK = 0"
proof -
  have k: "(flags' AND y) AND ALLOC_WEAK = 0" if "flags' AND ALLOC_WEAK = 0" for flags' y
  proof -
    have "(flags' AND y) AND ALLOC_WEAK = y AND (flags' AND ALLOC_WEAK)" by (simp only: and.assoc and.commute and.left_commute)
    then show ?thesis using that by simp
  qed
  have "combined_flags (st AND PROT_ALL) flags AND ALLOC_WEAK = 0" using k [OF assms] assms by (simp add: combined_flags_def)
  note c = this k [OF this]
  have s: "PROT_SHARE AND ALLOC_WEAK = 0" "PROT_LAZY AND ALLOC_WEAK = 0" "PROT_ALL AND ALLOC_WEAK = 0"
    by (simp_all add: PROT_SHARE_def PROT_LAZY_def PROT_ALL_def ALLOC_WEAK_def)
  show "map_flags (st AND PROT_ALL) (combined_flags (st AND PROT_ALL) flags) AND ALLOC_WEAK = 0"
    using c s by (simp add: map_flags_def bit.conj_disj_distrib2)
  show "((st AND PROT_ALL) OR PROT_LAZY) AND ALLOC_WEAK = 0" using s by (simp add: bit.conj_disj_distrib2 and.assoc)
qed

lemma prot_all_lazy: "(st AND PROT_ALL) AND PROT_LAZY = st AND PROT_LAZY"
  by (simp add: PROT_ALL_def PROT_LAZY_def and.assoc)

text \<open>One page, mapped in the source at \<open>src\<close> with the state \<open>st\<close>.\<close>

lemma map_referenced_shared:
  assumes run: "map_referenced dspc dst sspc src phy (st AND PROT_ALL) (combined_flags (st AND PROT_ALL) flags) s = Inr (r, t)" and r: "\<not> r < 0"
    and ok: "vtree_ok (vtree s dspc)" "vtree_ok (vtree s sspc)" "dspc \<noteq> sspc" "dst < 2 ^ MAX_CLASS" "src < 2 ^ MAX_CLASS" "length phy \<le> MAX_CLASS"
      "flags AND ALLOC_WEAK = 0"
    and here: "\<And>v. v \<in> {src ..< src + 2 ^ page_class phy} \<Longrightarrow> vabs (vtree s sspc) v = Some (page_addr phy + (v - src), st)"
  shows "r = 0 \<and> shared dspc dst sspc src (2 ^ page_class phy) flags s t \<and> keeps_inter sspc (length phy) s t"
proof -
  let ?n = "2 ^ page_class phy :: nat" and ?fl = "map_flags (st AND PROT_ALL) (combined_flags (st AND PROT_ALL) flags)" and ?old = "(st AND PROT_ALL) OR PROT_LAZY"
  obtain q s1 s2 where d: "map_page dspc dst phy ?fl (s\<lparr>pm := page_ref phy (pm s)\<rparr>) = Inr (q, s1)"
      and e: "(if q = 0 \<and> ?fl AND PROT_LAZY \<noteq> 0 then map_page sspc src phy ?old s1 else Inr (q, s1)) = Inr (r, s2)" and f: "unref_page phy s2 = Inr t"
    using run ok(3) [symmetric] unfolding map_referenced_def Let_def by (auto simp: bind_res_Inr_iff)
  note w = weak_flags [OF ok(7), of st]
  have ok': "vtree_ok (vtree (s\<lparr>pm := page_ref phy (pm s)\<rparr>) dspc)" using ok(1) by simp
  note md = map_page_maps [OF d ok' ok(4,6) w(1)] and vd = map_page_vabs [OF d ok' ok(4,6) w(1)]
  have q: "q = 0" using e r map_page_code [OF d] by (auto simp: E_NO_MEM_def split: if_splits)
  have t: "vtree t = vtree s2" using unref_page_tree(1) [OF f] .
  have s1: "vtree s1 sspc = vtree s sspc" using md(3) [of sspc] ok(3) by simp
  have s2: "r = 0 \<and> vtree_ok (vtree s2 sspc) \<and> vabs (vtree s2 sspc) = mark src ?n flags (vabs (vtree s sspc)) \<and> (\<forall>x. x \<noteq> sspc \<longrightarrow> vtree s2 x = vtree s1 x) \<and>
      keeps_inter sspc (length phy) s s2"
  proof (cases "?fl AND PROT_LAZY = 0")
    case True
    then have "s2 = s1" "r = 0" using e q by simp_all
    moreover have "old_state flags st = st" using True by (simp add: old_state_def)
    then have "mark src ?n flags (vabs (vtree s sspc)) = vabs (vtree s sspc)" using here by (auto simp: mark_def fun_eq_iff)
    ultimately show ?thesis using s1 ok(2) by (simp add: keeps_inter_def)
  next
    case False
    then have m: "map_page sspc src phy ?old s1 = Inr (r, s2)" using e q by simp
    have ok1: "vtree_ok (vtree s1 sspc)" using s1 ok(2) by simp
    note ms = map_page_maps [OF m ok1 ok(5,6) w(2)] and vs = map_page_vabs [OF m ok1 ok(5,6) w(2)]
    have "old_state flags st = map_state ?old" using False by (simp add: old_state_def)
    then have "vabs (vtree s2 sspc) = mark src ?n flags (vabs (vtree s sspc))" using here vs unfolding s1 by (auto simp: mark_def fun_eq_iff)
    moreover have "r = 0" using map_page_code [OF m] r by (auto simp: E_NO_MEM_def)
    moreover have "keeps_inter sspc (length phy) s s2" using ms(5) unfolding s1 keeps_inter_def by blast
    ultimately show ?thesis using ms(1,3) by simp
  qed
  have "src + (v - dst) \<in> {src ..< src + ?n}" if "v \<in> {dst ..< dst + ?n}" for v using that by auto
  then have "vabs (vtree s1 dspc) = share dst src ?n flags (vabs (vtree s sspc)) (vabs (vtree s dspc))"
    using vd here by (auto simp: share_def new_state_def fun_eq_iff)
  then show ?thesis using s2 t md(1,3) ok(3) unfolding shared_def keeps_inter_def by simp
qed

lemma do_map_page_shared:
  assumes run: "do_map_page destroy dspc dst sspc src phy (st AND PROT_ALL) flags s = Inr (r, t)" and r: "\<not> r < 0" and nc: "\<not> copy_first flags st"
    and ok: "vtree_ok (vtree s dspc)" "vtree_ok (vtree s sspc)" "dspc \<noteq> sspc" "dst < 2 ^ MAX_CLASS" "src < 2 ^ MAX_CLASS" "length phy \<le> MAX_CLASS"
      "flags AND ALLOC_WEAK = 0"
    and here: "\<And>v. v \<in> {src ..< src + 2 ^ page_class phy} \<Longrightarrow> vabs (vtree s sspc) v = Some (page_addr phy + (v - src), st)"
  shows "r = 0 \<and> shared dspc dst sspc src (2 ^ page_class phy) flags s t \<and> keeps_inter sspc (length phy) s t"
proof -
  have "map_referenced dspc dst sspc src phy (st AND PROT_ALL) (combined_flags (st AND PROT_ALL) flags) s = Inr (r, t)"
    using run r nc unfolding do_map_page_def copy_first_def prot_all_lazy Let_def by (auto simp: bind_res_Inr_iff split: if_splits)
  from map_referenced_shared [OF this r ok here] show ?thesis by simp
qed

lemma shared_none:
  assumes "vtree_ok (vtree s dspc)" "vtree_ok (vtree s sspc)" "\<And>v. v \<in> {src ..< src + n} \<Longrightarrow> vabs (vtree s sspc) v = None"
  shows "shared dspc dst sspc src n flags s s"
proof -
  have "src + (v - dst) \<in> {src ..< src + n}" if "v \<in> {dst ..< dst + n}" for v using that by auto
  then have "share dst src n flags (vabs (vtree s sspc)) b = b" for b using assms(3) by (auto simp: share_def fun_eq_iff)
  moreover have "mark src n flags (vabs (vtree s sspc)) = vabs (vtree s sspc)" using assms(3) by (auto simp: mark_def fun_eq_iff)
  ultimately show ?thesis using assms(1,2) by (simp add: shared_def)
qed

text \<open>Below a node that does not exist nothing is mapped.\<close>

lemma vabs_no_node:
  assumes "vtree_ok t" "t p = None" "p = [] \<or> inter t (tl p)" "v \<in> frames p" "length p \<le> MAX_CLASS"
  shows "vabs t v = None"
proof (rule vabs_eqI [OF assms(1)])
  have "False" if r: "t r = Some n" "vphy n = Some q" "v \<in> frames r" for r n q
  proof -
    have "suffix p r \<or> suffix r p" using frames_overlap [of p r] assms(4,5) r vtree_okD(4) [OF assms(1) r(1)] by auto
    moreover have "\<not> suffix p r" using vclosed_below [OF vtree_closed [OF assms(1)], of p r] r(1) assms(2) by auto
    ultimately obtain b p' where p: "p = b # p'" "suffix r p'" using r(1) assms(2) by (cases p) (auto simp: suffix_Cons)
    obtain m where m: "t p' = Some m" "vphy m = None" using assms(3) p(1) by (auto simp: inter_def)
    then show False using above_intermediate [OF assms(1), of p' r] p(2) r by (cases "r = p'") auto
  qed
  then show "maps_to t v f st \<longleftrightarrow> None = Some (f, st)" for f st unfolding maps_to_def by blast
qed

lemma vabs_bottom:
  assumes "vtree_ok t" "t p = Some n" "vphy n = None" "v \<in> frames p" "length p = MAX_CLASS"
  shows "vabs t v = None"
proof (rule vabs_eqI [OF assms(1)])
  have "False" if r: "t r = Some m" "vphy m = Some q" "v \<in> frames r" for r m q
  proof -
    have l: "length r \<le> MAX_CLASS" using vtree_okD(4) [OF assms(1) r(1)] .
    have "suffix p r \<or> suffix r p" using frames_overlap [of p r] assms(4,5) r l by auto
    then have "suffix r p" using l assms(5) by (auto simp: suffix_def)
    then show False using above_intermediate [OF assms(1), of p r] r assms(2,3) by (cases "r = p") auto
  qed
  then show "maps_to t v f st \<longleftrightarrow> None = Some (f, st)" for f st unfolding maps_to_def by blast
qed

lemma vabs_mapping:
  assumes "vtree_ok t" "t p = Some n" "vphy n = Some q" "v \<in> frames p"
  shows "vabs t v = Some (page_addr q + (v - page_addr p), vstate n)"
  using vabs_maps [OF assms(1)] assms(2-4) unfolding maps_to_def by blast

lemma frames_eq: "frames p = {page_addr p ..< page_addr p + 2 ^ page_class p}"
  by (simp add: frames_def)

lemma do_map_subtree_shared:
  assumes "do_map_subtree destroy k dspc dst sspc (page_addr p) p flags s = Inr (r, t)" "\<not> r < 0" "page_class p < k" "length p \<le> MAX_CLASS"
    and "vtree_ok (vtree s dspc)" "vtree_ok (vtree s sspc)" "dspc \<noteq> sspc" "dst + 2 ^ page_class p \<le> 2 ^ MAX_CLASS" "flags AND ALLOC_WEAK = 0"
    and "p = [] \<or> inter (vtree s sspc) (tl p)" "\<And>v f st. v \<in> frames p \<Longrightarrow> vabs (vtree s sspc) v = Some (f, st) \<Longrightarrow> \<not> copy_first flags st"
  shows "r = 0 \<and> shared dspc dst sspc (page_addr p) (2 ^ page_class p) flags s t \<and> keeps_inter sspc (length p) s t"
  using assms(1-6,8,10,11)
proof (induction k arbitrary: p dst s r t)
  case (Suc k)
  have pos: "0 < (2 :: nat) ^ page_class p" by simp
  show ?case
  proof (cases "vtree s sspc p")
    case None
    then have "r = 0" "t = s" using Suc.prems(1) by simp_all
    moreover have "vabs (vtree s sspc) v = None" if "v \<in> {page_addr p ..< page_addr p + 2 ^ page_class p}" for v
      using vabs_no_node [OF Suc.prems(6) None Suc.prems(8) _ Suc.prems(4)] that by (simp add: frames_eq)
    ultimately show ?thesis using shared_none [OF Suc.prems(5,6)] by (simp add: keeps_inter_def)
  next
    case (Some n)
    show ?thesis
    proof (cases "vphy n")
      case q: (Some q)
      have len: "length q = length p" using vtree_okD(5) [OF Suc.prems(6) Some q] .
      then have cls: "page_class q = page_class p" by (simp add: page_class_def)
      have run: "do_map_page destroy dspc dst sspc (page_addr p) q (vstate n AND PROT_ALL) flags s = Inr (r, t)"
        using Suc.prems(1) Some q by (auto simp: bind_res_Inr_iff)
      note here = vabs_mapping [OF Suc.prems(6) Some q]
      have nc: "\<not> copy_first flags (vstate n)" using Suc.prems(9) [of "page_addr p"] here by (simp add: frames_eq)
      have src: "page_addr p < 2 ^ MAX_CLASS" using subsetD [OF frames_below [OF Some Suc.prems(6)], of "page_addr p"] pos by (simp add: frames_eq)
      have dst: "dst < 2 ^ MAX_CLASS" using Suc.prems(7) pos by linarith
      have lq: "length q \<le> MAX_CLASS" using len Suc.prems(4) by simp
      have "r = 0 \<and> shared dspc dst sspc (page_addr p) (2 ^ page_class q) flags s t \<and> keeps_inter sspc (length q) s t"
        by (rule do_map_page_shared [OF run Suc.prems(2) nc Suc.prems(5,6) assms(7) dst src lq assms(9)]) (use here cls in \<open>simp add: frames_eq\<close>)
      then show ?thesis using cls len by simp
    next
      case q: None
      let ?h = "2 ^ (page_class p - 1) :: nat"
      obtain a u where u: "do_map_subtree destroy k dspc dst sspc (page_addr p) (False # p) flags s = Inr (a, u)"
          "if a \<noteq> 0 then r = a \<and> t = u else do_map_subtree destroy k dspc (dst + ?h) sspc (page_addr p + ?h) (True # p) flags u = Inr (r, t)"
        using Suc.prems(1) Some q by (auto simp: bind_res_Inr_iff split: if_splits)
      show ?thesis
      proof (cases "length p < MAX_CLASS")
        case True
        have c: "page_class p = Suc (page_class (b # p))" "page_class (b # p) < k" "length (b # p) \<le> MAX_CLASS" "?h = 2 ^ page_class (b # p)" for b
          using class_child [OF True, of b] Suc.prems(3) True by simp_all
        have hh: "(2 :: nat) ^ page_class p = ?h + ?h" using c(1) [of True] by simp
        have a: "page_addr (False # p) = page_addr p" "page_addr (True # p) = page_addr p + ?h" using c(4) by simp_all
        have sub: "frames (b # p) \<subseteq> frames p" for b using frames_child(1) [OF True] .
        have ip: "inter (vtree s sspc) p" using Some q by (simp add: inter_def)
        have na: "\<not> a < 0" using u(2) Suc.prems(2) by (auto split: if_splits)
        have L: "a = 0 \<and> shared dspc dst sspc (page_addr (False # p)) (2 ^ page_class (False # p)) flags s u \<and> keeps_inter sspc (length (False # p)) s u"
        proof (rule Suc.IH)
          show "do_map_subtree destroy k dspc dst sspc (page_addr (False # p)) (False # p) flags s = Inr (a, u)" using u(1) a(1) by simp
          show "\<not> copy_first flags st" if "v \<in> frames (False # p)" "vabs (vtree s sspc) v = Some (f, st)" for v f st
            using Suc.prems(9) that sub by blast
        qed (use na c(2,3) [of False] Suc.prems(5-7) hh c(4) [of False] ip in simp_all)
        then have L: "a = 0" "shared dspc dst sspc (page_addr p) ?h flags s u" "keeps_inter sspc (Suc (length p)) s u" using a(1) c(4) [of False] by simp_all
        have iu: "inter (vtree u sspc) p" using L(3) ip by (simp add: keeps_inter_def)
        have vu: "vabs (vtree u sspc) v = vabs (vtree s sspc) v" if "v \<in> frames (True # p)" for v
          using L(2) that a(2) unfolding shared_def frames_eq by (auto intro!: mark_outside)
        have R: "r = 0 \<and> shared dspc (dst + ?h) sspc (page_addr (True # p)) (2 ^ page_class (True # p)) flags u t \<and> keeps_inter sspc (length (True # p)) u t"
        proof (rule Suc.IH)
          show "do_map_subtree destroy k dspc (dst + ?h) sspc (page_addr (True # p)) (True # p) flags u = Inr (r, t)" using u(2) L(1) a(2) by simp
          show "\<not> copy_first flags st" if "v \<in> frames (True # p)" "vabs (vtree u sspc) v = Some (f, st)" for v f st
            using Suc.prems(9) that vu sub [of True] by fastforce
          show "vtree_ok (vtree u dspc)" "vtree_ok (vtree u sspc)" using L(2) by (simp_all add: shared_def)
          show "dst + ?h + 2 ^ page_class (True # p) \<le> 2 ^ MAX_CLASS" using Suc.prems(7) hh c(4) [of True] by simp
        qed (use Suc.prems(2) c(2,3) [of True] iu in simp_all)
        then have "shared dspc (dst + ?h) sspc (page_addr p + ?h) ?h flags u t" using a(2) c(4) [of True] by simp
        from shared_next [OF L(2) this] show ?thesis using R L(3) unfolding hh keeps_inter_def by simp
      next
        case False
        then have l: "length p = MAX_CLASS" using Suc.prems(4) by simp
        have none: "do_map_subtree destroy k dspc d sspc e (b # p) flags s = Inr (0, s)" for d e b
          using vtree_okD(4) [OF Suc.prems(6), of "b # p"] l by (cases k; cases "vtree s sspc (b # p)") auto
        then have "r = 0" "t = s" using u by auto
        moreover have "vabs (vtree s sspc) v = None" if "v \<in> {page_addr p ..< page_addr p + 2 ^ page_class p}" for v
          using vabs_bottom [OF Suc.prems(6) Some q _ l] that by (simp add: frames_eq)
        ultimately show ?thesis using shared_none [OF Suc.prems(5,6)] by (simp add: keeps_inter_def)
      qed
    qed
  qed
qed simp

lemma one_page_shared:
  assumes "do_map_region_one_page destroy dspc dst (Some sspc) src c flags s = Inr (r, t)" "\<not> r < 0" "flags AND (ALLOC_ONE OR ALLOC_ZERO) = 0"
    and "vtree_ok (vtree s dspc)" "vtree_ok (vtree s sspc)" "dspc \<noteq> sspc" "dst + 2 ^ c \<le> 2 ^ MAX_CLASS" "src + 2 ^ c \<le> 2 ^ MAX_CLASS" "src mod 2 ^ c = 0"
      "flags AND ALLOC_WEAK = 0"
    and "\<And>v f st. v \<in> {src ..< src + 2 ^ c} \<Longrightarrow> vabs (vtree s sspc) v = Some (f, st) \<Longrightarrow> \<not> copy_first flags st"
  shows "shared dspc dst sspc src (2 ^ c) flags s t"
proof -
  let ?k = "\<lambda>(p, u). case vtree u sspc p of None \<Rightarrow> Inl NullDeref | Some n \<Rightarrow> (case vphy n of
      Some q \<Rightarrow> if c < page_class q
        then bind_res (page_lookup q src c PARTIAL_NODE (pm u)) (\<lambda>(page, m). do_map_page destroy dspc dst sspc src page (vstate n AND PROT_ALL) flags (u\<lparr>pm := m\<rparr>))
        else do_map_subtree destroy (Suc (page_class p)) dspc dst sspc src p flags u
      | None \<Rightarrow> do_map_subtree destroy (Suc (page_class p)) dspc dst sspc src p flags u)"
  have "bind_res (page_lookup_virtual sspc src c LOOKUP_ALLOC s) ?k = Inr (r, t)"
    using assms(1,3) unfolding do_map_region_one_page_def by (simp add: bind_res_Inr_iff)
  then obtain x where x: "page_lookup_virtual sspc src c LOOKUP_ALLOC s = Inr x" "?k x = Inr (r, t)" unfolding bind_res_Inr_iff by blast
  obtain p u n where u: "page_lookup_virtual sspc src c LOOKUP_ALLOC s = Inr (p, u)" "vtree u sspc p = Some n"
    and b: "(case vphy n of Some q \<Rightarrow> if c < page_class q
        then bind_res (page_lookup q src c PARTIAL_NODE (pm u)) (\<lambda>(page, m). do_map_page destroy dspc dst sspc src page (vstate n AND PROT_ALL) flags (u\<lparr>pm := m\<rparr>))
        else do_map_subtree destroy (Suc (page_class p)) dspc dst sspc src p flags u
      | None \<Rightarrow> do_map_subtree destroy (Suc (page_class p)) dspc dst sspc src p flags u) = Inr (r, t)"
    using x by (cases x; cases "vtree (snd x) sspc (fst x)") simp_all
  have "(2 :: nat) ^ c \<le> 2 ^ MAX_CLASS" using assms(8) by linarith
  then have c: "c \<le> MAX_CLASS" by simp
  have src: "src < 2 ^ MAX_CLASS" using power_room [OF assms(8)] .
  note l = page_lookup_virtual_ok [OF u(1) assms(5) src]
  note fr = page_frames [OF l(3) assms(9) l(5) [OF refl] c]
  note ok = looked_upD(1) [OF l(1)]
  have "page_class q = page_class p" if "vphy n = Some q" for q using vtree_okD(5) [OF ok u(2) that] by (simp add: page_class_def)
  then have sub: "do_map_subtree destroy (Suc (page_class p)) dspc dst sspc (page_addr p) p flags u = Inr (r, t)"
    using b fr(1,2) by (cases "vphy n") auto
  have va: "vabs (vtree u sspc) = vabs (vtree s sspc)" using vabs_looked_up [OF l(1) assms(5)] by auto
  have vo: "vtree u x = vtree s x" if "x \<noteq> sspc" for x using tree_step_other [OF looked_upD(3) [OF l(1)] that] .
  have "r = 0 \<and> shared dspc dst sspc (page_addr p) (2 ^ page_class p) flags u t \<and> keeps_inter sspc (length p) u t"
  proof (rule do_map_subtree_shared [OF sub assms(2) _ _ _ ok assms(6) _ assms(10)])
    show "p = [] \<or> inter (vtree u sspc) (tl p)" using vtree_okD(3) [OF ok, of "hd p" "tl p"] u(2) by (cases p) (simp_all add: inter_def)
    show "\<not> copy_first flags st" if "v \<in> frames p" "vabs (vtree u sspc) v = Some (f, st)" for v f st
      using assms(11) that fr(3) va by simp
  qed (use assms(4,6,7) vo [of dspc] l(5) fr(2) in simp_all)
  then show ?thesis using fr(1,2) va vo assms(6) by (simp add: shared_def)
qed

text \<open>The common class: below it the addresses have the same bits, so one is aligned when the other is.\<close>

lemma common_class_bits: "(\<And>i. i < c \<Longrightarrow> bit a i = bit b i) \<Longrightarrow> i < addr_common_class_from a b c \<Longrightarrow> bit a i = bit b i"
proof (induction a b c rule: addr_common_class_from.induct)
  case (1 a b c)
  show ?case
  proof (cases "bit a c = bit b c \<and> c < MAX_CLASS")
    case True
    have "bit a j = bit b j" if "j < Suc c" for j using "1.prems"(1) True that by (cases "j = c") simp_all
    moreover have "i < addr_common_class_from a b (Suc c)" using "1.prems"(2) True by (subst (asm) addr_common_class_from.simps) simp
    ultimately show ?thesis using "1.IH" [OF True] by blast
  next
    case False
    then have "addr_common_class_from a b c = c" by (subst addr_common_class_from.simps) auto
    then show ?thesis using "1.prems" by simp
  qed
qed

lemma common_class_mod:
  assumes "lim = addr_common_class_from a b 0" "c \<le> lim"
  shows "(a + off) mod 2 ^ c = (b + off) mod (2 :: nat) ^ c"
proof -
  have "take_bit c a = take_bit c b" using common_class_bits [of 0 a b] assms by (intro bit_eqI) (auto simp: bit_take_bit_iff)
  then have "a mod 2 ^ c = b mod 2 ^ c" by (simp add: take_bit_eq_mod)
  then show ?thesis by (metis mod_add_left_eq)
qed

definition sharing :: "nat \<Rightarrow> nat \<Rightarrow> nat \<Rightarrow> nat \<Rightarrow> nat \<Rightarrow> nat \<Rightarrow> u32 \<Rightarrow> vmem \<Rightarrow> nat \<Rightarrow> vmem \<Rightarrow> bool" where
  "sharing dspc dst sspc src len lim flags s0 off t \<longleftrightarrow> dst + len \<le> 2 ^ MAX_CLASS \<and> src + len \<le> 2 ^ MAX_CLASS \<and> dspc \<noteq> sspc \<and>
     flags AND (ALLOC_ONE OR ALLOC_ZERO) = 0 \<and> flags AND ALLOC_WEAK = 0 \<and> lim \<le> addr_common_class_from src dst 0 \<and>
     (\<forall>v\<in>{src ..< src + len}. \<forall>f st. vabs (vtree s0 sspc) v = Some (f, st) \<longrightarrow> \<not> copy_first flags st) \<and> shared dspc dst sspc src off flags s0 t"

interpretation region_sharing: region_step "\<lambda>c off. do_map_region_one_page destroy dspc (dst + off) (Some sspc) (src + off) c flags" dst len lim
    "sharing dspc dst sspc src len lim flags s0"
  for destroy dspc dst sspc src flags len lim s0
proof unfold_locales
  fix off s c and r :: int and t
  assume u: "sharing dspc dst sspc src len lim flags s0 off s" and room: "off + 2 ^ c \<le> len" and r: "\<not> r < 0" and al: "(dst + off) mod 2 ^ c = 0" and c: "c \<le> lim"
    and run: "do_map_region_one_page destroy dspc (dst + off) (Some sspc) (src + off) c flags s = Inr (r, t)"
  have sh: "shared dspc dst sspc src off flags s0 s" using u by (simp add: sharing_def)
  have "c \<le> addr_common_class_from src dst 0" using u c by (simp add: sharing_def)
  then have "(src + off) mod 2 ^ c = 0" using common_class_mod [OF refl] al by simp
  moreover have "\<not> copy_first flags st" if v: "v \<in> {src + off ..< src + off + 2 ^ c}" "vabs (vtree s sspc) v = Some (f, st)" for v f st
  proof -
    have "vabs (vtree s sspc) v = vabs (vtree s0 sspc) v" using sh v(1) unfolding shared_def by (auto intro!: mark_outside)
    moreover have "v \<in> {src ..< src + len}" using v(1) room by auto
    ultimately show ?thesis using u v(2) unfolding sharing_def by metis
  qed
  ultimately have "shared dspc (dst + off) sspc (src + off) (2 ^ c) flags s t"
    by (intro one_page_shared [OF run r]) (use u room sh in \<open>auto simp: sharing_def shared_def\<close>)
  from shared_next [OF sh this] show "sharing dspc dst sspc src len lim flags s0 (off + 2 ^ c) t" using u by (simp add: sharing_def)
qed

lemma map_region_shared:
  assumes "map_region destroy dspc dst (Some sspc) src sz flags s = Inr (r, t)" "0 \<le> r" "flags AND (ALLOC_ONE OR ALLOC_ZERO) = 0" "flags AND ALLOC_WEAK = 0"
    and "vtree_ok (vtree s dspc)" "vtree_ok (vtree s sspc)" "dspc \<noteq> sspc" "dst + sz \<le> 2 ^ 60" "src + sz \<le> 2 ^ 60"
    and "\<forall>v f st. src div 4096 \<le> v \<and> v < (src + sz) div 4096 \<and> vabs (vtree s sspc) v = Some (f, st) \<longrightarrow> \<not> copy_first flags st"
  shows "shared dspc (dst div 4096) sspc (src div 4096) (sz div 4096) flags s t"
proof -
  obtain lim where lp: "map_loop (\<lambda>c off. do_map_region_one_page destroy dspc (dst div 4096 + off) (Some sspc) (src div 4096 + off) c flags)
      (dst div 4096) (sz div 4096) lim s = Inr (r, t)" and al: "dst mod 4096 = 0" "src mod 4096 = 0" "sz mod 4096 = 0"
      and lim: "lim = addr_common_class_from (src div 4096) (dst div 4096) 0"
    using assms(1,2) by (auto simp: map_region_def addr_common_class_def bind_res_Inr_iff split: if_splits)
  have sum: "a div 4096 + sz div 4096 = (a + sz) div 4096" for a using al(3) by (metis div_plus_div_distrib_dvd_right dvd_eq_mod_eq_0)
  have "sharing dspc (dst div 4096) sspc (src div 4096) (sz div 4096) lim flags s 0 s"
    using assms(3-10) lim shared_refl [OF assms(5,6)] sum by (auto simp: sharing_def MAX_CLASS_def)
  from region_sharing.loop [OF lp this] have "sharing dspc (dst div 4096) sspc (src div 4096) (sz div 4096) lim flags s (sz div 4096) t"
    using assms(2) by simp
  then show ?thesis by (simp add: sharing_def)
qed

text \<open>
  C7: After a region has been mapped from one space into another, both see the same frames: the destination has the frames of the source with the
  combined flags wherever the source has any and is unchanged elsewhere; the source keeps its frames, and its mappings become lazy where the new ones are. Mappings that
  must be copied first are excluded.
\<close>

theorem map_region_shares:
  assumes "map_region destroy dspc dst (Some sspc) src sz flags s = Inr (r, t)" "0 \<le> r" "flags AND (ALLOC_ONE OR ALLOC_ZERO) = 0" "flags AND ALLOC_WEAK = 0"
    and "vtree_ok (vtree s dspc)" "vtree_ok (vtree s sspc)" "dspc \<noteq> sspc" "dst + sz \<le> 2 ^ 60" "src + sz \<le> 2 ^ 60"
    and "\<forall>v f st. src div 4096 \<le> v \<and> v < (src + sz) div 4096 \<and> vabs (vtree s sspc) v = Some (f, st) \<longrightarrow> \<not> copy_first flags st"
  shows "vabs (vtree t dspc) = share (dst div 4096) (src div 4096) (sz div 4096) flags (vabs (vtree s sspc)) (vabs (vtree s dspc)) \<and>
    vabs (vtree t sspc) = mark (src div 4096) (sz div 4096) flags (vabs (vtree s sspc)) \<and>
    vtree_ok (vtree t dspc) \<and> vtree_ok (vtree t sspc) \<and> (\<forall>x. x \<noteq> dspc \<and> x \<noteq> sspc \<longrightarrow> vtree t x = vtree s x)"
  using map_region_shared [OF assms] by (simp add: shared_def)

section \<open>Examples\<close>

lemma ex_vm_ok: "vtree_ok (vtree ex_vm x)"
  using ex_tree_ok by (simp add: ex_vm_def)

theorem map_region_lazy_witness:
  "\<exists>t f. map_region (\<lambda>e s. Inr s) 0 0 None 0 4096 (PROT_R OR ALLOC_ZERO) ex_vm = Inr (0, t) \<and> vabs (vtree t 0) 0 = Some (f, 0x100084) \<and>
    f \<in> frames (zero_page ex_vm)"
proof -
  let ?fl = "PROT_R OR ALLOC_ZERO" and ?lz = "((PROT_R OR ALLOC_ZERO) AND PROT_ALL AND NOT PROT_COMBINE) OR PROT_LAZY"
  note fl = PROT_R_def ALLOC_ZERO_def ALLOC_ONE_def PROT_ALL_def PROT_COMBINE_def PROT_LAZY_def PROT_SHARE_def ALLOC_WEAK_def
  have lz: "?lz = 0x84" by (simp add: fl)
  obtain t where t: "map_page 0 0 (left MAX_CLASS) 0x84 ex_vm = Inr (0, t)" using map_example_vm [of "0x84" 0] by (auto simp: fl)
  have z: "zero_page ex_vm = left 39" by (simp add: ex_vm_def)
  have "do_map_region_one_page (\<lambda>e s. Inr s) 0 0 None 0 0 ?fl ex_vm = Inr (0, t)"
    using t ex_lookup [of 39] unfolding do_map_region_one_page_def lz z Let_def
    by (simp add: fl z MAX_CLASS_def MAX_ALLOCATION_CLASS_def page_class_def assert_res_def)
  then have run: "map_region (\<lambda>e s. Inr s) 0 0 None 0 4096 ?fl ex_vm = Inr (0, t)"
    by (simp add: map_region_def addr_common_class_def common_class_same assert_res_def map_loop_one MAX_CLASS_def fl)
  have "\<exists>f\<in>frames (zero_page ex_vm). vabs (vtree t 0) 0 = Some (f, lazy_state ?fl)"
    using map_region_lazy [OF run _ _ _ ex_vm_ok] by (simp add: fl z filler_def page_class_def MAX_CLASS_def MAX_ALLOCATION_CLASS_def)
  moreover have "lazy_state ?fl = 0x100084" unfolding lazy_state_def lz by (simp add: map_state_def PAGE_PROT_def PROT_COMBINE_def MAPPING_NODE_def)
  ultimately show ?thesis using run by auto
qed

lemma share_example:
  assumes "dspc \<noteq> sspc" "s = ex_vm\<lparr>current_space := cs, tlb := l\<rparr>"
  shows "\<exists>t. map_region destroy dspc 0 (Some sspc) 0 4096 0x24 s = Inr (0, t)"
proof -
  note fl = PROT_R_def PROT_W_def PROT_X_def ALLOC_ZERO_def ALLOC_ONE_def PROT_ALL_def PROT_COMBINE_def PROT_LAZY_def PROT_SHARE_def ALLOC_WEAK_def
    combined_flags_def map_flags_def
  let ?s = "s\<lparr>pm := page_ref (left MAX_CLASS) (pm s)\<rparr>"
  have "nodes (pm ?s) (left MAX_CLASS) = Some \<lparr>pstate = ALLOCATABLE_NODE, refc = 4\<rparr>" "100 \<le> free_desc_count (pm ?s)" by (simp_all add: page_ref_used ex_vm_def assms(2))
  then obtain u k where u: "map_page dspc 0 (left MAX_CLASS) 0x24 ?s = Inr (0, u)" "nodes (pm u) (left MAX_CLASS) = Some k" "refc k = 4"
    using map_page_example [of ?s "\<lparr>pstate = ALLOCATABLE_NODE, refc = 4\<rparr>" dspc "0x24"] by (auto simp: ex_vm_def fl assms(2))
  define t where "t = u\<lparr>pm := set_node (left MAX_CLASS) (Some (k\<lparr>refc := refc k - 1\<rparr>)) (pm u)\<rparr>"
  have node: "vtree s sspc (left MAX_CLASS) = Some \<lparr>vstate = 0x100026, vphy = Some (left MAX_CLASS)\<rparr>" by (simp add: ex_vm_def ex_tree_def assms(2))
  have "map_referenced dspc 0 sspc 0 (left MAX_CLASS) 0x26 0x24 s = Inr (0, t)"
    using u by (simp add: map_referenced_def Let_def fl unref_page_def page_unref_many t_def)
  then have "do_map_page destroy dspc 0 sspc 0 (left MAX_CLASS) 0x26 0x24 s = Inr (0, t)"
    by (simp add: do_map_page_def Let_def fl assert_res_def)
  then have "do_map_subtree destroy (Suc 0) dspc 0 sspc 0 (left MAX_CLASS) 0x24 s = Inr (0, t)"
    using node by (simp add: fl NODE_TYPE_MASK_def MAPPING_NODE_def assert_res_def)
  moreover have "page_lookup_virtual sspc 0 0 LOOKUP_ALLOC s = Inr (left MAX_CLASS, s)"
    by (rule lookup_left_all) (use ex_tree_left in \<open>simp add: ex_vm_def assms(2)\<close>)
  ultimately have "do_map_region_one_page destroy dspc 0 (Some sspc) 0 0 0x24 s = Inr (0, t)"
    using node by (simp add: do_map_region_one_page_def assert_res_def fl page_class_def)
  then have "map_region destroy dspc 0 (Some sspc) 0 4096 0x24 s = Inr (0, t)"
    using assms(1) by (simp add: map_region_def addr_common_class_def common_class_same assert_res_def map_loop_one MAX_CLASS_def fl)
  then show ?thesis by blast
qed

lemma ex_flags: "\<not> copy_first 0x24 0x100026" "new_state 0x24 0x100026 = 0x100024" "old_state 0x24 0x100026 = 0x100026"
  by (simp_all add: copy_first_def new_state_def old_state_def map_state_def PAGE_PROT_def MAPPING_NODE_def PROT_ALL_def PROT_COMBINE_def PROT_LAZY_def PROT_SHARE_def
      combined_flags_def map_flags_def)

lemma ex_vabs: "vabs (vtree ex_vm spc) 0 = Some (0, 0x100026)"
proof -
  have "vtree ex_vm spc (left MAX_CLASS) = Some \<lparr>vstate = 0x100026, vphy = Some (left MAX_CLASS)\<rparr>" by (simp add: ex_vm_def ex_tree_def)
  from vabs_mapping [OF ex_vm_ok this, of "left MAX_CLASS" 0] show ?thesis by (simp add: frames_eq page_class_def)
qed

theorem map_region_shares_witness:
  "\<exists>t. map_region (\<lambda>e s. Inr s) 0 0 (Some 1) 0 4096 0x24 ex_vm = Inr (0, t) \<and> vabs (vtree t 0) 0 = Some (0, 0x100024) \<and> vabs (vtree t 1) 0 = Some (0, 0x100026)"
proof -
  obtain t where run: "map_region (\<lambda>e s. Inr s) 0 0 (Some 1) 0 4096 0x24 ex_vm = Inr (0, t)" using share_example [of 0 1 ex_vm "tlb ex_vm" "current_space ex_vm"] by auto
  have one: "v = 0" if "v < Suc 0" for v :: nat using that by simp
  have "vabs (vtree t 0) = share 0 0 1 0x24 (vabs (vtree ex_vm 1)) (vabs (vtree ex_vm 0)) \<and> vabs (vtree t 1) = mark 0 1 0x24 (vabs (vtree ex_vm 1))"
    using map_region_shares [OF run _ _ _ ex_vm_ok ex_vm_ok] ex_vabs [of 1] ex_flags(1) by (simp add: ALLOC_ONE_def ALLOC_ZERO_def ALLOC_WEAK_def)
  then show ?thesis using run ex_vabs ex_flags by (simp add: share_def mark_def)
qed

end
