(* ===== verification/KernVm.thy ===== *)
theory KernVm
  imports Trap VmShare
begin

unbundle bit_operations_syntax

text \<open>
  The kernel with its memory manager: the system calls and traps take the manager as an argument; here it is the model of \<^verbatim>\<open>kern/pmap.c\<close>. The memory state of the
  kernel is \<open>Inr\<close> of the manager's state, and \<open>Inl\<close> when the manager has stopped the kernel; from then on no operation does anything. The devices and what the
  processor reads and writes at user addresses are those of \<open>dev\<close>; \<open>destroy\<close> is what the end of an environment that runs out of memory does to the manager.
\<close>

definition of_res :: "(vmem \<Rightarrow> (int \<times> vmem) res) \<Rightarrow> vmem res \<Rightarrow> int \<times> vmem res" where
  "of_res f m = (case bind_res m f of Inl e \<Rightarrow> (0, Inl e) | Inr (r, t) \<Rightarrow> (r, Inr t))"

lemma of_res_Inr: "f s = Inr (r, t) \<Longrightarrow> of_res f (Inr s) = (r, Inr t)"
  by (simp add: of_res_def)

text \<open>Space 0 is the kernel's, space \<open>i + 1\<close> that of environment \<open>i\<close>.\<close>

definition space_of :: "nat option \<Rightarrow> nat" where
  "space_of spc = (case spc of None \<Rightarrow> 0 | Some i \<Rightarrow> Suc i)"

definition manager :: "(nat \<Rightarrow> vmem \<Rightarrow> vmem res) \<Rightarrow> vmem res vm \<Rightarrow> vmem res vm" where
  "manager destroy dev = dev\<lparr>
     vm_init := \<lambda>m i. of_res (init_address_space (Suc i)) m,
     vm_release := \<lambda>m i. bind_res m (release_address_space (Suc i)),
     vm_current := \<lambda>m. (case m of Inl e \<Rightarrow> None | Inr s \<Rightarrow> map_option (\<lambda>spc. if spc = 0 then None else Some (spc - 1)) (current_space s)),
     vm_switch := \<lambda>m spc. bind_res m (\<lambda>s. Inr (switch_address_space (space_of spc) s)),
     vm_map := \<lambda>m i va src srcva len perm. of_res (map_region destroy (Suc i) (unat va) (map_option Suc src) (unat srcva) (unat len) perm) m,
     vm_unmap := \<lambda>m i va len. bind_res m (unmap_region (Suc i) (unat va) (unat len)),
     vm_maxref := \<lambda>m i va len. (case bind_res m (region_maxref (Suc i) (unat va) (unat len)) of Inl e \<Rightarrow> 0 | Inr n \<Rightarrow> int n),
     vm_page := \<lambda>m i va. (case bind_res m (page_lookup_virtual (Suc i) (unat va div 4096) 0 LOOKUP_PRESERVE) of Inl e \<Rightarrow> None
       | Inr (p, s) \<Rightarrow> (case vtree s (Suc i) p of None \<Rightarrow> None | Some n \<Rightarrow> if vphy n = None then None else Some (vstate n))),
     vm_force := \<lambda>m spc va. of_res (force_alloc_page (\<lambda>i. Inr) (space_of spc) (unat va) MAX_ALLOCATION_CLASS) m\<rparr>"

lemma switch_address_space_space: "current_space (switch_address_space spc s) = Some spc" "vtree (switch_address_space spc s) = vtree s"
  by (simp_all add: switch_address_space_def)

text \<open>An environment that is entered runs in its own address space, and freeing the space in use goes back to the kernel's first.\<close>

lemma env_enter_space:
  assumes "env_enter (manager destroy dev) i s = (r, s')" "mm s = Inr m"
  shows "vm_current (manager destroy dev) (mm s') = Some (curenv s')"
  using assms by (auto simp: env_enter_def manager_def space_of_def switch_address_space_space)

lemma env_free_space:
  assumes "mm s = Inr m" "current_space m = Some (Suc i)"
  shows "mm (env_free (manager destroy dev) i s) = release_address_space (Suc i) (switch_address_space 0 m)"
  using assms by (simp add: env_free_def manager_def space_of_def)

section \<open>Sending a page\<close>

text \<open>
  C10: a page sent in a message is shared. The receiver \<open>c\<close> has blocked, asking for a page at \<open>dstva\<close>, and the environment \<open>d\<close> that runs next sends its page at
  \<open>srcva\<close>: when the memory manager has room, the send succeeds, the receiver finds at \<open>dstva\<close> the very frame the sender has at \<open>srcva\<close>, with the permissions sent,
  and its other addresses and all other environments' spaces are as before. The page must be mapped already and must not wait for its first write.
  One page is mapped whatever sizes the two sides gave; the comment on \<^verbatim>\<open>sys_ipc_try_send\<close> has the region be as long as the smaller of them.
\<close>

theorem ipc_page_shared:
  assumes "user_runs s" "curenv s = Some c" "sys_ipc_recv (manager destroy dev) dstva maxsize s = Inr (Run, s1)" "curenv s1 = Some d"
    and "dstva < MAX_USER_ADDRESS" "srcva < MAX_USER_ADDRESS" "PAGE_OFFSET srcva = 0" "mm s1 = Inr m"
    and "map_region destroy (Suc c) (unat dstva) (Some (Suc d)) (unat srcva) 4096 (perm OR PROT_USER) m = Inr (r, m2)" "0 \<le> r"
    and "perm AND (ALLOC_ONE OR ALLOC_ZERO) = 0" "perm AND ALLOC_WEAK = 0" "c \<noteq> d" "vtree_ok (vtree m (Suc c))" "vtree_ok (vtree m (Suc d))"
    and "vabs (vtree m (Suc d)) (unat srcva div 4096) = Some (f, st)" "\<not> copy_first (perm OR PROT_USER) st"
  shows "\<exists>s2. sys_ipc_try_send (manager destroy dev) (env_id (envs s ! c)) val srcva len perm s1 = Inr (Return 0, s2) \<and> mm s2 = Inr m2 \<and>
    env_ipc_value (envs s2 ! c) = val \<and> status_of s2 c = ENV_RUNNABLE \<and>
    vabs (vtree m2 (Suc c)) = (vabs (vtree m (Suc c)))(unat dstva div 4096 := Some (f, new_state (perm OR PROT_USER) st)) \<and>
    (\<forall>x. x \<noteq> Suc c \<and> x \<noteq> Suc d \<longrightarrow> vtree m2 x = vtree m x)"
proof -
  let ?p = "perm OR PROT_USER"
  have fl: "?p AND (ALLOC_ONE OR ALLOC_ZERO) = 0" "?p AND ALLOC_WEAK = 0"
    using assms(11,12) by (simp_all add: bit.conj_disj_distrib2 PROT_USER_def ALLOC_ONE_def ALLOC_ZERO_def ALLOC_WEAK_def)
  have user: "unat a + 4096 \<le> 2 ^ 60" if "a < MAX_USER_ADDRESS" for a
    using that by (simp add: MAX_USER_ADDRESS_def word_less_nat_alt)
  have al: "unat srcva mod 4096 = 0" using assms(9,10) by (auto simp: map_region_def split: if_splits)
  then have one: "v = unat srcva div 4096" if "unat srcva div 4096 \<le> v" "v < (unat srcva + 4096) div 4096" for v using that by simp
  have nc: "\<forall>v g st'. unat srcva div 4096 \<le> v \<and> v < (unat srcva + 4096) div 4096 \<and> vabs (vtree m (Suc d)) v = Some (g, st') \<longrightarrow> \<not> copy_first ?p st'"
    using one assms(16,17) by (metis option.inject prod.inject)
  have sh: "shared (Suc c) (unat dstva div 4096) (Suc d) (unat srcva div 4096) (4096 div 4096) ?p m m2"
    by (rule map_region_shared [OF assms(9,10) fl assms(14,15) _ user [OF assms(5)] user [OF assms(6)] nc]) (use assms(13) in simp)
  have vm: "vm_map (manager destroy dev) (mm s1) c dstva (Some d) srcva PAGE_SIZE ?p = (r, Inr m2)"
    using assms(8,9) by (simp add: manager_def of_res_Inr PAGE_SIZE_def)
  have pre: "dstva < MAX_USER_ADDRESS \<or> MAX_USER_ADDRESS \<le> srcva" "0 \<le> fst (vm_map (manager destroy dev) (mm s1) c dstva (Some d) srcva PAGE_SIZE ?p)"
    using assms(5,10) vm by simp_all
  obtain s2 where s2: "sys_ipc_try_send (manager destroy dev) (env_id (envs s ! c)) val srcva len perm s1 = Inr (Return 0, s2)"
      "env_ipc_value (envs s2 ! c) = val" "status_of s2 c = ENV_RUNNABLE" "mm s2 = Inr m2"
    using ipc_delivery [OF assms(1-4) pre(1) assms(7) pre(2), of val len 0 0 0 0] assms(6) vm by auto
  have "vabs (vtree m2 (Suc c)) = (vabs (vtree m (Suc c)))(unat dstva div 4096 := Some (f, new_state ?p st))"
    using sh assms(16) by (auto simp: shared_def share_def fun_eq_iff)
  then show ?thesis using s2 sh by (auto simp: shared_def)
qed

text \<open>Two environments, the first of them running, over the example of the memory manager.\<close>

definition dev0 :: "vmem res vm" where
  "dev0 = \<lparr>vm_init = \<lambda>m i. (0, m), vm_release = \<lambda>m i. m, vm_current = \<lambda>m. Some None, vm_switch = \<lambda>m spc. m, vm_map = \<lambda>m i va src srcva len perm. (0, m), vm_unmap = \<lambda>m i va len. m,
     vm_maxref = \<lambda>m i va len. 0, vm_page = \<lambda>m i va. None, vm_force = \<lambda>m spc va. (0, m), vm_bytes = \<lambda>m i va. [], vm_trapframe = \<lambda>m i va. None,
     vm_put_utf = \<lambda>m i va u. m, k_getc = \<lambda>m. (0, m), k_gettime = \<lambda>m. 0, k_intr = \<lambda>n m. m, k_monitor = \<lambda>m. m, k_tf_addr = \<lambda>i. 0\<rparr>"

definition boot_vm :: "vmem res kern" where
  "boot_vm = \<lparr>console = [], envs = envs boot2, curenv = Some 0, env_free_list = Some 2, in_page_fault = False, mm = Inr ex_vm\<rparr>"

lemma boot_vm_runs: "user_runs boot_vm"
proof -
  have "curenv boot2 = Some 0" "env_free_list boot2 = Some 2" by (simp_all add: boot2_eq)
  then show ?thesis using boot2_runs by (simp add: user_runs_def kern_ok_def free_ok_def boot_vm_def)
qed

lemma boot_vm_switch: "switch_address_space 2 ex_vm = ex_vm\<lparr>current_space := Some 2, tlb := [Lcr3]\<rparr>"
  by (simp add: switch_address_space_def ex_vm_def)

theorem ipc_page_shared_witness:
  "\<exists>s1 s2 m2. sys_ipc_recv (manager (\<lambda>i. Inr) dev0) 0 4096 boot_vm = Inr (Run, s1) \<and>
     sys_ipc_try_send (manager (\<lambda>i. Inr) dev0) 4096 7 0 4096 4 s1 = Inr (Return 0, s2) \<and> mm s2 = Inr m2 \<and> vabs (vtree m2 1) 0 = Some (0, 0x100024)"
proof -
  let ?v = "manager (\<lambda>i. Inr) dev0" and ?m = "switch_address_space 2 ex_vm"
  have "vm_switch ?v (mm boot_vm) (Some 1) = Inr ?m" by (simp add: manager_def boot_vm_def space_of_def numeral_2_eq_2)
  moreover have "envs boot_vm = envs boot2" "curenv boot_vm = Some 0" by (simp_all add: boot_vm_def)
  ultimately obtain s1 where s1: "sys_ipc_recv ?v 0 4096 boot_vm = Inr (Run, s1)" "curenv s1 = Some 1" "mm s1 = Inr ?m"
    using boot_recv [of boot_vm 0 4096 ?v] by (auto simp: PAGE_OFFSET_def)
  obtain m2 where m2: "map_region (\<lambda>i. Inr) (Suc 0) 0 (Some (Suc 1)) 0 4096 0x24 ?m = Inr (0, m2)"
    using share_example [OF _ boot_vm_switch, of "Suc 0" "Suc 1"] by auto
  have v: "vtree ?m = vtree ex_vm" by (rule switch_address_space_space)
  have p: "(4 :: u32) OR PROT_USER = 0x24" by (simp add: PROT_USER_def)
  have b: "curenv boot_vm = Some 0" "env_id (envs boot_vm ! 0) = 4096"
    by (simp_all add: boot_vm_def boot2_eq boot0_def env_init_def NENV_def boot_env_def)
  have "\<exists>s2. sys_ipc_try_send ?v 4096 7 0 4096 4 s1 = Inr (Return 0, s2) \<and> mm s2 = Inr m2 \<and> env_ipc_value (envs s2 ! 0) = 7 \<and> status_of s2 0 = ENV_RUNNABLE \<and>
      vabs (vtree m2 (Suc 0)) = (vabs (vtree ex_vm (Suc 0)))(0 := Some (0, 0x100024)) \<and> (\<forall>x. x \<noteq> Suc 0 \<and> x \<noteq> Suc 1 \<longrightarrow> vtree m2 x = vtree ex_vm x)"
    using ipc_page_shared [OF boot_vm_runs b(1) s1(1,2) _ _ _ s1(3), of 0 4 0 m2 0 "0x100026" 7 4096] m2 ex_vm_ok ex_vabs [of "Suc 1"] ex_flags b(2)
    by (simp add: p v MAX_USER_ADDRESS_def PAGE_OFFSET_def ALLOC_ONE_def ALLOC_ZERO_def ALLOC_WEAK_def)
  then show ?thesis using s1 by auto
qed

end
