(* ===== verification/PageWalk.thy ===== *)
theory PageWalk
  imports AddrSpace
begin

unbundle bit_operations_syntax

text \<open>
  Correctness of the page tables: what the processor finds after the kernel has changed them. The tables of a space form a tree; \<open>tabs\<close> is the set of
  frames a subtree uses and \<open>sep\<close> says that no frame is used twice. The theorems are about the part of a space that belongs to the user, below the first 512 GiB.
\<close>

section \<open>Entries\<close>

text \<open>The bits of an entry that are not part of the address.\<close>

definition low_flags :: "u64 \<Rightarrow> bool" where "low_flags fl \<longleftrightarrow> PTE_ADDR fl = 0"

lemma addr_mask: "NOT (PTE_NX OR 0xFFF) = (push_bit 12 (mask 51) :: u64)"
  by (simp add: PTE_NX_def mask_eq_exp_minus_1 push_bit_eq_mult)

lemma frame_bytes_push: "frame_bytes f = push_bit 12 (of_nat f)"
  by (simp add: frame_bytes_def push_bit_eq_mult mult.commute)

lemma PTE_ADDR_or: "PTE_ADDR (a OR b) = PTE_ADDR a OR PTE_ADDR b"
  unfolding PTE_ADDR_def by (rule bit.conj_disj_distrib2)

lemma PTE_ADDR_frame:
  assumes "f < 2 ^ 51"
  shows "PTE_ADDR (frame_bytes f) = frame_bytes f"
proof -
  have "take_bit 51 (of_nat f :: u64) = of_nat f" using assms by (simp add: take_bit_of_nat take_bit_nat_eq_self)
  moreover have "PTE_ADDR (frame_bytes f) = push_bit 12 (take_bit 51 (of_nat f))"
    unfolding PTE_ADDR_def addr_mask frame_bytes_push by (rule bit_word_eqI) (auto simp: bit_simps)
  ultimately show ?thesis by (simp add: frame_bytes_push)
qed

lemma unat_frame_bytes: "f < 2 ^ 51 \<Longrightarrow> unat (frame_bytes f) = 4096 * f"
  unfolding frame_bytes_def by (subst unat_of_nat) simp

lemma pte_frame_div: "pte_frame e = unat (PTE_ADDR e) div 4096"
  by (simp add: pte_frame_def drop_bit_eq_div unat_div_distrib)

lemma pte_frame_make: "f < 2 ^ 51 \<Longrightarrow> low_flags fl \<Longrightarrow> pte_frame (frame_bytes f OR fl) = f"
  by (simp add: pte_frame_div PTE_ADDR_or PTE_ADDR_frame low_flags_def unat_frame_bytes)

lemma pte_frame_less: "pte_frame e < 2 ^ 51"
proof -
  have "drop_bit 12 (PTE_ADDR e) = take_bit 51 (drop_bit 12 e)"
    unfolding PTE_ADDR_def addr_mask by (rule bit_word_eqI) (auto simp: bit_simps)
  then have "pte_frame e = take_bit 51 (unat (drop_bit 12 e))" by (simp only: pte_frame_def unsigned_take_bit_eq)
  then show ?thesis by (simp only: take_bit_nat_less_exp)
qed

lemma frame_low:
  assumes "f < 2 ^ 51" "low_flags fl"
  shows "frame_bytes f AND fl = 0"
proof -
  have "frame_bytes f AND fl = frame_bytes f AND PTE_ADDR fl"
    using PTE_ADDR_frame [OF assms(1)] unfolding PTE_ADDR_def by (metis and.assoc and.commute)
  then show ?thesis using assms(2) by (simp add: low_flags_def)
qed

lemma frame_flags_disjoint: "f < 2 ^ 51 \<Longrightarrow> low_flags fl \<Longrightarrow> frame_bytes f OR fl = frame_bytes f + fl"
  by (simp add: disjunctive_add_eq_or frame_low)

lemma frame_bytes_add: "frame_bytes (f + g) = frame_bytes f + frame_bytes g"
  by (simp add: frame_bytes_def distrib_left)

lemma entry_add:
  assumes "f + g < 2 ^ 51" "low_flags fl"
  shows "(frame_bytes f OR fl) + frame_bytes g = frame_bytes (f + g) OR fl"
  using frame_flags_disjoint [of f fl] frame_flags_disjoint [OF assms] assms by (simp add: frame_bytes_add)

text \<open>Any entry is an address and flags.\<close>

lemma entry_split: "e = frame_bytes (pte_frame e) OR (e AND (PTE_NX OR 0xFFF))" "low_flags (e AND (PTE_NX OR 0xFFF))"
proof -
  have "frame_bytes (pte_frame e) = PTE_ADDR e"
  proof -
    have "frame_bytes (pte_frame e) = push_bit 12 (drop_bit 12 (PTE_ADDR e))" by (simp add: frame_bytes_push pte_frame_def)
    also have "\<dots> = PTE_ADDR e" unfolding PTE_ADDR_def addr_mask by (rule bit_word_eqI) (auto simp: bit_simps)
    finally show ?thesis .
  qed
  moreover have "e = (e AND NOT m) OR (e AND m)" "(e AND m) AND NOT m = 0" for m :: u64
    by (rule bit_word_eqI, auto simp: bit_simps)+
  ultimately show "e = frame_bytes (pte_frame e) OR (e AND (PTE_NX OR 0xFFF))" "low_flags (e AND (PTE_NX OR 0xFFF))"
    unfolding low_flags_def PTE_ADDR_def by metis+
qed

lemma frame_no_flags: "frame_bytes f AND PTE_P = 0" "frame_bytes f AND PTE_PS = 0" "frame_bytes f AND PTE_W = 0" "frame_bytes f AND PTE_U = 0"
proof -
  have "frame_bytes f AND mask 12 = 0" unfolding frame_bytes_push by (rule bit_word_eqI) (auto simp: bit_simps)
  then have "frame_bytes f AND 0xFFF = 0" by (simp add: mask_eq_exp_minus_1)
  then have k: "frame_bytes f AND (0xFFF AND m) = 0" for m by (simp flip: and.assoc)
  show "frame_bytes f AND PTE_P = 0" using k [of 1] by (simp add: PTE_P_def)
  show "frame_bytes f AND PTE_PS = 0" using k [of "0x80"] by (simp add: PTE_PS_def)
  show "frame_bytes f AND PTE_W = 0" using k [of 2] by (simp add: PTE_W_def)
  show "frame_bytes f AND PTE_U = 0" using k [of 4] by (simp add: PTE_U_def)
qed

section \<open>The tree of tables\<close>

definition idx :: "nat \<Rightarrow> nat \<Rightarrow> nat" where "idx l v = v div 2 ^ (9 * l) mod 512"

lemma idx_index: "PT_INDEX v = idx 0 v" "PD_INDEX v = idx 1 v" "PDP_INDEX v = idx 2 v" "PML4_INDEX v = idx 3 v"
  by (simp_all add: idx_def PT_INDEX_def PD_INDEX_def PDP_INDEX_def PML4_INDEX_def)

lemma idx_less [simp]: "idx l v < 512"
  by (simp add: idx_def)

abbreviation points :: "u64 \<Rightarrow> bool" where "points e \<equiv> present e \<and> \<not> huge e"

text \<open>The walk from a table of level \<open>l\<close> in frame \<open>f\<close>.\<close>

fun hw_walk :: "(nat \<Rightarrow> u64) \<Rightarrow> nat \<Rightarrow> nat \<Rightarrow> nat \<Rightarrow> nat \<times> u64" where
  "hw_walk m 0 f v = (0, m (512 * f + idx 0 v))"
| "hw_walk m (Suc l) f v = (let e = m (512 * f + idx (Suc l) v) in if points e then hw_walk m l (pte_frame e) v else (Suc l, e))"

fun tabs :: "(nat \<Rightarrow> u64) \<Rightarrow> nat \<Rightarrow> nat \<Rightarrow> nat set" where
  "tabs m 0 f = {f}"
| "tabs m (Suc l) f = insert f (\<Union>i\<in>{i. i < 512 \<and> points (m (512 * f + i))}. tabs m l (pte_frame (m (512 * f + i))))"

text \<open>A large page ends below the largest address an entry can hold.\<close>

definition big_ok :: "nat \<Rightarrow> u64 \<Rightarrow> bool" where
  "big_ok l e \<longleftrightarrow> (present e \<and> huge e \<longrightarrow> pte_frame e + 2 ^ (9 * l) \<le> 2 ^ 51)"

fun sep :: "(nat \<Rightarrow> u64) \<Rightarrow> nat \<Rightarrow> nat \<Rightarrow> bool" where
  "sep m 0 f \<longleftrightarrow> True"
| "sep m (Suc l) f \<longleftrightarrow>
     (\<forall>i<512. points (m (512 * f + i)) \<longrightarrow> sep m l (pte_frame (m (512 * f + i))) \<and> f \<notin> tabs m l (pte_frame (m (512 * f + i)))) \<and>
     (\<forall>i<512. \<forall>j<512. i \<noteq> j \<and> points (m (512 * f + i)) \<and> points (m (512 * f + j)) \<longrightarrow>
        tabs m l (pte_frame (m (512 * f + i))) \<inter> tabs m l (pte_frame (m (512 * f + j))) = {}) \<and>
     (\<forall>i<512. big_ok (Suc l) (m (512 * f + i)))"

lemma tabs_self [simp]: "f \<in> tabs m l f"
  by (cases l) simp_all

lemma tabs_child: "i < 512 \<Longrightarrow> points (m (512 * f + i)) \<Longrightarrow> tabs m l (pte_frame (m (512 * f + i))) \<subseteq> tabs m (Suc l) f"
  by auto

text \<open>Memory that differs only in the frames \<open>F\<close>.\<close>

definition differs :: "nat set \<Rightarrow> (nat \<Rightarrow> u64) \<Rightarrow> (nat \<Rightarrow> u64) \<Rightarrow> bool" where
  "differs F m m' \<longleftrightarrow> (\<forall>w. w div 512 \<notin> F \<longrightarrow> m' w = m w)"

lemma differs_at: "differs F m m' \<Longrightarrow> f \<notin> F \<Longrightarrow> i < 512 \<Longrightarrow> m' (512 * f + i) = m (512 * f + i)"
  by (simp add: differs_def)

lemma differs_tabs:
  assumes "differs F m m'" "F \<inter> tabs m l f = {}"
  shows "tabs m' l f = tabs m l f" "sep m' l f = sep m l f" "hw_walk m' l f v = hw_walk m l f v"
proof -
  have "tabs m' l f = tabs m l f \<and> sep m' l f = sep m l f \<and> hw_walk m' l f v = hw_walk m l f v"
    using assms(2)
  proof (induction l arbitrary: f)
    case 0
    then show ?case using differs_at [OF assms(1)] by simp
  next
    case (Suc l)
    have same: "m' (512 * f + i) = m (512 * f + i)" if "i < 512" for i using differs_at [OF assms(1) _ that] Suc.prems by auto
    have ih: "tabs m' l (pte_frame (m (512 * f + i))) = tabs m l (pte_frame (m (512 * f + i))) \<and>
        sep m' l (pte_frame (m (512 * f + i))) = sep m l (pte_frame (m (512 * f + i))) \<and>
        hw_walk m' l (pte_frame (m (512 * f + i))) v = hw_walk m l (pte_frame (m (512 * f + i))) v"
      if "i < 512" "points (m (512 * f + i))" for i
      by (rule Suc.IH) (use Suc.prems tabs_child [of i m f l] that in blast)
    have "tabs m' (Suc l) f = tabs m (Suc l) f" using same ih by auto
    moreover have "sep m' (Suc l) f = sep m (Suc l) f" using same ih by (auto simp: conj_commute)
    moreover have "hw_walk m' (Suc l) f v = hw_walk m (Suc l) f v" using same [of "idx (Suc l) v"] ih [of "idx (Suc l) v"] by (simp add: Let_def)
    ultimately show ?case by blast
  qed
  then show "tabs m' l f = tabs m l f" "sep m' l f = sep m l f" "hw_walk m' l f v = hw_walk m l f v" by blast+
qed

text \<open>The frames of a table other than those below entry \<open>i\<close>.\<close>

definition others :: "(nat \<Rightarrow> u64) \<Rightarrow> nat \<Rightarrow> nat \<Rightarrow> nat \<Rightarrow> nat set" where
  "others m l f i = insert f (\<Union>j\<in>{j. j < 512 \<and> j \<noteq> i \<and> points (m (512 * f + j))}. tabs m l (pte_frame (m (512 * f + j))))"

lemma others_sub: "others m l f i \<subseteq> tabs m (Suc l) f"
  by (auto simp: others_def)

lemma others_disjoint: "sep m (Suc l) f \<Longrightarrow> i < 512 \<Longrightarrow> points (m (512 * f + i)) \<Longrightarrow> tabs m l (pte_frame (m (512 * f + i))) \<inter> others m l f i = {}"
  by (auto simp: others_def)

text \<open>Changing what entry \<open>i\<close> of a table points to, or what is below it.\<close>

lemma update_entry:
  assumes sep: "sep m (Suc l) f" and i: "i < 512" and d: "differs F m m'" and F: "F \<inter> (others m l f i - {f}) = {}"
    and same: "\<And>j. j < 512 \<Longrightarrow> j \<noteq> i \<Longrightarrow> m' (512 * f + j) = m (512 * f + j)"
    and big: "big_ok (Suc l) (m' (512 * f + i))"
    and new: "points (m' (512 * f + i)) \<Longrightarrow> sep m' l (pte_frame (m' (512 * f + i))) \<and> tabs m' l (pte_frame (m' (512 * f + i))) \<subseteq> C \<and> C \<inter> others m l f i = {}"
  shows "sep m' (Suc l) f" "tabs m' (Suc l) f \<subseteq> others m l f i \<union> C"
    "hw_walk m' (Suc l) f v = (if idx (Suc l) v = i
      then if points (m' (512 * f + i)) then hw_walk m' l (pte_frame (m' (512 * f + i))) v else (Suc l, m' (512 * f + i))
      else hw_walk m (Suc l) f v)"
proof -
  have child: "F \<inter> tabs m l (pte_frame (m (512 * f + j))) = {}" if "j < 512" "j \<noteq> i" "points (m (512 * f + j))" for j
  proof -
    have "f \<notin> tabs m l (pte_frame (m (512 * f + j)))" using sep that by simp
    moreover have "tabs m l (pte_frame (m (512 * f + j))) \<subseteq> others m l f i" using that by (auto simp: others_def)
    ultimately show ?thesis using F by blast
  qed
  note old = differs_tabs [OF d child]
  have t: "tabs m' l (pte_frame (m' (512 * f + j))) = tabs m l (pte_frame (m (512 * f + j)))" "sep m' l (pte_frame (m' (512 * f + j)))"
      "tabs m l (pte_frame (m (512 * f + j))) \<subseteq> others m l f i" "f \<notin> tabs m l (pte_frame (m (512 * f + j)))"
    if "j < 512" "j \<noteq> i" "points (m (512 * f + j))" for j
    using old [OF that] same [OF that(1,2)] sep that by (auto simp: others_def)
  have f: "f \<in> others m l f i" by (simp add: others_def)
  show "sep m' (Suc l) f"
    unfolding sep.simps
  proof (intro conjI allI impI)
    fix j assume j: "j < 512" "points (m' (512 * f + j))"
    have "sep m' l (pte_frame (m' (512 * f + j))) \<and> f \<notin> tabs m' l (pte_frame (m' (512 * f + j)))"
    proof (cases "j = i")
      case True
      then show ?thesis using j(2) new f by blast
    next
      case False
      then have e: "m' (512 * f + j) = m (512 * f + j)" using same j(1) by blast
      then show ?thesis using t(1,2,4) [of j] j False by simp
    qed
    then show "sep m' l (pte_frame (m' (512 * f + j)))" "f \<notin> tabs m' l (pte_frame (m' (512 * f + j)))" by blast+
  next
    fix j k assume j: "j < 512" and k: "k < 512" and p: "j \<noteq> k \<and> points (m' (512 * f + j)) \<and> points (m' (512 * f + k))"
    show "tabs m' l (pte_frame (m' (512 * f + j))) \<inter> tabs m' l (pte_frame (m' (512 * f + k))) = {}"
    proof (cases "j = i \<or> k = i")
      case True
      have sub: "tabs m' l (pte_frame (m' (512 * f + n))) \<subseteq> others m l f i" if "n < 512" "n \<noteq> i" "points (m' (512 * f + n))" for n
        using t(1,3) [of n] same [of n] that by simp
      have "tabs m' l (pte_frame (m' (512 * f + i))) \<subseteq> C \<and> C \<inter> others m l f i = {}" using new True p by blast
      then show ?thesis using True sub [of j] sub [of k] j k p by blast
    next
      case False
      then have e: "m' (512 * f + j) = m (512 * f + j)" "m' (512 * f + k) = m (512 * f + k)" using same j k by auto
      then show ?thesis using t(1) [of j] t(1) [of k] sep j k p False unfolding sep.simps by metis
    qed
  next
    fix j :: nat assume "j < 512"
    then show "big_ok (Suc l) (m' (512 * f + j))" using big same [of j] sep by (cases "j = i") auto
  qed
  show "tabs m' (Suc l) f \<subseteq> others m l f i \<union> C"
  proof
    fix g assume "g \<in> tabs m' (Suc l) f"
    then consider "g = f" | j where "j < 512" "points (m' (512 * f + j))" "g \<in> tabs m' l (pte_frame (m' (512 * f + j)))" by auto
    then show "g \<in> others m l f i \<union> C"
    proof cases
      case (2 j)
      then show ?thesis using new t [of j] same [of j] by (cases "j = i") auto
    qed (simp add: f)
  qed
  show "hw_walk m' (Suc l) f v = (if idx (Suc l) v = i
      then if points (m' (512 * f + i)) then hw_walk m' l (pte_frame (m' (512 * f + i))) v else (Suc l, m' (512 * f + i))
      else hw_walk m (Suc l) f v)"
    using same [of "idx (Suc l) v"] old(3) [of "idx (Suc l) v" v] by (auto simp: Let_def)
qed

lemmas table_simps = hw_walk.simps(2) tabs.simps(2) sep.simps(2)

declare table_simps [simp del]

section \<open>A new table\<close>

definition in_use :: "phys \<Rightarrow> nat \<Rightarrow> bool" where
  "in_use m g \<longleftrightarrow> (\<exists>q n. nodes m q = Some n \<and> refc n \<noteq> 0 \<and> g \<in> frames q)"

definition new_entry :: "nat \<Rightarrow> u64" where
  "new_entry f = frame_bytes f OR (PTE_U OR PTE_W OR PTE_P)"

lemma new_entry_points: "f < 2 ^ 51 \<Longrightarrow> points (new_entry f) \<and> pte_frame (new_entry f) = f"
proof -
  assume f: "f < 2 ^ 51"
  have "low_flags (PTE_U OR PTE_W OR PTE_P)" by (simp add: low_flags_def PTE_ADDR_def PTE_U_def PTE_W_def PTE_P_def PTE_NX_def)
  then have "pte_frame (new_entry f) = f" using pte_frame_make [OF f] by (simp add: new_entry_def)
  moreover have "points (new_entry f)"
    unfolding new_entry_def bit.conj_disj_distrib2 frame_no_flags by (simp add: PTE_U_def PTE_W_def PTE_P_def PTE_PS_def)
  ultimately show ?thesis by blast
qed

lemma alloc_pt_fresh:
  assumes "phys_ok (pm s)" "alloc_pt dst s = Inr (True, t)" "\<not> points (mem s dst)"
  obtains f where "\<not> in_use (pm s) f" "in_use (pm t) f" "phys_ok (pm t)" "\<And>g. in_use (pm s) g \<Longrightarrow> in_use (pm t) g" "f < 2 ^ 48"
    "mem t = (\<lambda>w. if w div 512 = f then 0 else if w = dst then new_entry f else mem s w)"
proof -
  have "bind_res (alloc_page 0 True (pm s)) (\<lambda>(page, m). case page of None \<Rightarrow> Inr (False, s\<lparr>pm := m\<rparr>)
        | Some p \<Rightarrow>
            bind_res (assert_res (case nodes m p of None \<Rightarrow> False | Some n \<Rightarrow> refc n = 0)) (\<lambda>_.
            let s = set_word dst (page2pa p OR PTE_U OR PTE_W OR PTE_P) (s\<lparr>pm := page_ref p m\<rparr>) in
            bind_res (KADDR (page_addr p) s) (\<lambda>k.
            Inr (True, s\<lparr>mem := (\<lambda>w. if k \<le> w \<and> w < k + 512 then 0 else mem s w)\<rparr>)))) = Inr (True, t)"
    using assms(2,3) unfolding alloc_pt_def alloc_pt_to_def by simp
  then obtain page m where "alloc_page 0 True (pm s) = Inr (page, m)" "(case page of None \<Rightarrow> Inr (False, s\<lparr>pm := m\<rparr>)
        | Some p \<Rightarrow>
            bind_res (assert_res (case nodes m p of None \<Rightarrow> False | Some n \<Rightarrow> refc n = 0)) (\<lambda>_.
            let s = set_word dst (page2pa p OR PTE_U OR PTE_W OR PTE_P) (s\<lparr>pm := page_ref p m\<rparr>) in
            bind_res (KADDR (page_addr p) s) (\<lambda>k.
            Inr (True, s\<lparr>mem := (\<lambda>w. if k \<le> w \<and> w < k + 512 then 0 else mem s w)\<rparr>)))) = Inr (True, t)"
    by (auto simp: bind_res_Inr_iff)
  then obtain p m where a: "alloc_page 0 True (pm s) = Inr (Some p, m)" and t: "pm t = page_ref p m"
      and mm: "mem t = (\<lambda>w. if 512 * page_addr p \<le> w \<and> w < 512 * page_addr p + 512 then 0 else if w = dst then page2pa p OR PTE_U OR PTE_W OR PTE_P else mem s w)"
    by (cases page) (auto simp: bind_res_Inr_iff Let_def set_word_def KADDR_def fun_eq_iff split: if_splits)
  note fr = alloc_page_fresh [OF assms(1) a]
  have len: "length p = MAX_CLASS" using alloc_page_ok(5) [OF assms(1) a] by simp
  have one: "frames p = {page_addr p}" using fr(1) by (simp add: frames_def)
  show thesis
  proof (rule that [of "page_addr p"])
    show "\<not> in_use (pm s) (page_addr p)" using fr(5) one unfolding in_use_def by blast
    show "in_use (pm t) (page_addr p)" unfolding in_use_def using fr(3) one t by force
    show "phys_ok (pm t)" using fr(2) t by simp
    show "in_use (pm t) g" if "in_use (pm s) g" for g using that fr(4) t unfolding in_use_def by metis
    have "frames p \<subseteq> frames []" by (rule frames_suffix) (simp_all add: len)
    then have "page_addr p \<in> frames []" using one by blast
    then show "page_addr p < 2 ^ 48" by (simp add: frames_def page_class_def MAX_CLASS_def)
    have "512 * page_addr p \<le> w \<and> w < 512 * page_addr p + 512 \<longleftrightarrow> w div 512 = page_addr p" for w by auto
    then show "mem t = (\<lambda>w. if w div 512 = page_addr p then 0 else if w = dst then new_entry (page_addr p) else mem s w)"
      using mm unfolding new_entry_def page2pa_def frame_bytes_def by simp
  qed
qed

lemma zero_table: "(\<And>i. i < 512 \<Longrightarrow> m (512 * f + i) = 0) \<Longrightarrow> tabs m l f = {f} \<and> sep m l f"
  by (cases l) (auto simp: big_ok_def table_simps)

section \<open>Filling entries\<close>

lemma step_frames: "step_of l = frame_bytes (2 ^ (9 * l))"
  by (simp add: step_of_def frame_bytes_def push_bit_eq_mult power_add)

lemma fill_entries_mem:
  assumes "fill_entries l dst (frame_bytes b OR fl) [i0..<i1] s = Inr t" "l \<le> 2" "low_flags fl" "b + (i1 - i0) * 2 ^ (9 * l) \<le> 2 ^ 51"
  shows "pm t = pm s" "mem t w = (if dst + i0 \<le> w \<and> w < dst + i1 then frame_bytes (b + (w - dst - i0) * 2 ^ (9 * l)) OR fl else mem s w)"
proof -
  have "pm t = pm s \<and> mem t w = (if dst + i0 \<le> w \<and> w < dst + i1 then frame_bytes (b + (w - dst - i0) * 2 ^ (9 * l)) OR fl else mem s w)"
    using assms(1,4)
  proof (induction "i1 - i0" arbitrary: i0 b s)
    case 0
    then show ?case by auto
  next
    case (Suc n)
    have i: "i0 < i1" "i1 - Suc i0 = n" using Suc.hyps(2) by simp_all
    let ?st = "2 ^ (9 * l) :: nat"
    have room: "b + ?st + n * ?st \<le> 2 ^ 51" using Suc.prems(2) Suc.hyps(2) [symmetric] by simp
    have "(0 :: nat) < ?st" by simp
    show ?case
    proof (cases "n = 0")
      case True
      then have "[i0..<i1] = [i0]" using i by (simp add: upt_conv_Cons)
      then show ?thesis using Suc.prems(1) True i by (auto simp: bind_res_Inr_iff set_word_def)
    next
      case False
      have lt: "b + ?st < 2 ^ 51" using room False by (metis add_gr_0 le_add1 less_add_same_cancel1 linorder_not_le mult_pos_pos neq0_conv order_less_le_trans zero_less_numeral zero_less_power)
      have "fill_entries l dst (frame_bytes (b + ?st) OR fl) [Suc i0..<i1] (set_word (dst + i0) (frame_bytes b OR fl) s) = Inr t"
        using Suc.prems(1) i(1) entry_add [OF lt assms(3)] assms(2) by (simp add: upt_conv_Cons bind_res_Inr_iff step_frames)
      from Suc.hyps(1) [OF i(2) [symmetric] this] have ih: "pm t = pm s" "mem t w = (if dst + Suc i0 \<le> w \<and> w < dst + i1
          then frame_bytes (b + ?st + (w - dst - Suc i0) * ?st) OR fl else mem (set_word (dst + i0) (frame_bytes b OR fl) s) w)"
        using room i(2) by (simp_all add: set_word_def)
      have "b + ?st + (w - dst - Suc i0) * ?st = b + (w - dst - i0) * ?st" if "dst + Suc i0 \<le> w"
      proof -
        have "w - dst - i0 = Suc (w - dst - Suc i0)" using that by simp
        then show ?thesis by simp
      qed
      then show ?thesis using ih i(1) by (auto simp: set_word_def add.assoc)
    qed
  qed
  then show "pm t = pm s" "mem t w = (if dst + i0 \<le> w \<and> w < dst + i1 then frame_bytes (b + (w - dst - i0) * 2 ^ (9 * l)) OR fl else mem s w)" by blast+
qed

section \<open>Translation\<close>

definition PERM :: u64 where "PERM = PTE_NX OR 0xF7F"

text \<open>The frame and the permissions the processor finds below a table; the flags of the tables above do not restrict them.\<close>

definition leaf :: "nat \<Rightarrow> nat \<times> u64 \<Rightarrow> (nat \<times> u64) option" where
  "leaf v x = (case x of (k, e) \<Rightarrow> if present e then Some (pte_frame e + v mod 2 ^ (9 * k), e AND PERM) else None)"

definition trans :: "(nat \<Rightarrow> u64) \<Rightarrow> nat \<Rightarrow> nat \<Rightarrow> nat \<Rightarrow> (nat \<times> u64) option" where
  "trans m l f v = leaf v (hw_walk m l f v)"

definition tree_inv :: "vmem \<Rightarrow> nat \<Rightarrow> nat \<Rightarrow> bool" where
  "tree_inv s l f \<longleftrightarrow> phys_ok (pm s) \<and> sep (mem s) l f \<and> (\<forall>g\<in>tabs (mem s) l f. in_use (pm s) g)"

text \<open>From one state to a later one: frames in use stay so and keep their words, except for \<open>X\<close>.\<close>

definition later :: "nat set \<Rightarrow> vmem \<Rightarrow> vmem \<Rightarrow> bool" where
  "later X s t \<longleftrightarrow> phys_ok (pm t) \<and> (\<forall>g. in_use (pm s) g \<longrightarrow> in_use (pm t) g) \<and> (\<forall>w. in_use (pm s) (w div 512) \<and> w \<notin> X \<longrightarrow> mem t w = mem s w)"

lemma later_trans: "later X s t \<Longrightarrow> later Y t u \<Longrightarrow> later (X \<union> Y) s u"
  unfolding later_def by auto

lemma word_frame [simp]: "i < 512 \<Longrightarrow> (512 * f + i) div 512 = (f :: nat)"
  by simp

text \<open>Entry \<open>i\<close> of a table is replaced by a pointer to a fresh table without further tables.\<close>

lemma new_table_ok:
  assumes inv: "tree_inv s (Suc l) f" and i: "i < 512" and la: "later {512 * f + i} s t" and c: "\<not> in_use (pm s) c" "in_use (pm t) c" "c < 2 ^ 51"
    and e: "mem t (512 * f + i) = new_entry c" and sub: "tabs (mem t) l c = {c}" "sep (mem t) l c"
  shows "tree_inv t (Suc l) f" "tabs (mem t) (Suc l) f \<subseteq> insert c (tabs (mem s) (Suc l) f)"
    "hw_walk (mem t) (Suc l) f v = (if idx (Suc l) v = i then hw_walk (mem t) l c v else hw_walk (mem s) (Suc l) f v)"
proof -
  let ?F = "insert f {g. \<not> in_use (pm s) g}"
  have use: "in_use (pm s) g" if "g \<in> tabs (mem s) (Suc l) f" for g using inv that unfolding tree_inv_def by blast
  have fu: "in_use (pm s) f" using use by simp
  have d: "differs ?F (mem s) (mem t)" unfolding differs_def using la i by (auto simp: later_def)
  have oth: "in_use (pm s) g" if "g \<in> others (mem s) l f i" for g using use others_sub that by blast
  have F: "?F \<inter> (others (mem s) l f i - {f}) = {}" using oth by blast
  have same: "mem t (512 * f + j) = mem s (512 * f + j)" if "j < 512" "j \<noteq> i" for j using la fu that by (simp add: later_def)
  have p: "points (mem t (512 * f + i))" "pte_frame (mem t (512 * f + i)) = c" using new_entry_points [OF c(3)] e by simp_all
  have new: "sep (mem t) l (pte_frame (mem t (512 * f + i))) \<and> tabs (mem t) l (pte_frame (mem t (512 * f + i))) \<subseteq> {c} \<and> {c} \<inter> others (mem s) l f i = {}"
    using sub p(2) oth c(1) by auto
  have big: "big_ok (Suc l) (mem t (512 * f + i))" using p(1) by (simp add: big_ok_def)
  have sp: "sep (mem s) (Suc l) f" using inv by (simp add: tree_inv_def)
  note u = update_entry [OF sp i d F same big new]
  show tb: "tabs (mem t) (Suc l) f \<subseteq> insert c (tabs (mem s) (Suc l) f)" using u(2) others_sub by fastforce
  show "tree_inv t (Suc l) f"
    unfolding tree_inv_def
  proof (intro conjI ballI)
    fix g assume "g \<in> tabs (mem t) (Suc l) f"
    then have "g = c \<or> in_use (pm s) g" using tb use by blast
    then show "in_use (pm t) g" using c(2) la by (auto simp: later_def)
  qed (use la u(1) in \<open>simp_all add: later_def\<close>)
  show "hw_walk (mem t) (Suc l) f v = (if idx (Suc l) v = i then hw_walk (mem t) l c v else hw_walk (mem s) (Suc l) f v)"
    using u(3) [of v] p by simp
qed

lemma mod_split: "v mod 2 ^ (9 * Suc l) = idx l v * 2 ^ (9 * l) + v mod 2 ^ (9 * l)"
proof -
  have "(2 :: nat) ^ (9 * Suc l) = 2 ^ (9 * l) * 512" by (simp add: power_add)
  then show ?thesis using mod_mult2_eq [of v "2 ^ (9 * l)" 512] by (simp add: idx_def mult.commute)
qed

text \<open>A leaf entry of a table of level \<open>l\<close>.\<close>

lemma walk_leaf: "l = 0 \<or> \<not> points (m (512 * f + idx l v)) \<Longrightarrow> hw_walk m l f v = (l, m (512 * f + idx l v))"
  by (cases l) (auto simp: Let_def table_simps)

lemma leaf_table: "l = 0 \<or> (\<forall>i<512. \<not> points (m (512 * f + i)) \<and> big_ok l (m (512 * f + i))) \<Longrightarrow> tabs m l f = {f} \<and> sep m l f"
  by (cases l) (auto simp: table_simps)

definition table_at :: "nat \<Rightarrow> nat \<Rightarrow> nat \<Rightarrow> nat \<Rightarrow> vmem \<Rightarrow> vmem \<Rightarrow> bool" where
  "table_at l f i c s t \<longleftrightarrow> points (mem t (512 * f + i)) \<and> pte_frame (mem t (512 * f + i)) = c \<and> tree_inv t (Suc l) f \<and> later {512 * f + i} s t \<and>
     tabs (mem t) (Suc l) f \<subseteq> tabs (mem s) (Suc l) f \<union> {g. \<not> in_use (pm s) g} \<and> (\<forall>v. trans (mem t) (Suc l) f v = trans (mem s) (Suc l) f v)"

lemma alloc_later:
  assumes "phys_ok (pm s)" "in_use (pm s) (dst div 512)" "\<not> points (mem s dst)" "alloc_pt dst s = Inr (True, t)"
  obtains c where "\<not> in_use (pm s) c" "in_use (pm t) c" "c < 2 ^ 48" "later {dst} s t" "mem t dst = new_entry c" "\<And>i. i < 512 \<Longrightarrow> mem t (512 * c + i) = 0"
proof -
  obtain c where c: "\<not> in_use (pm s) c" "in_use (pm t) c" "phys_ok (pm t)" "\<And>g. in_use (pm s) g \<Longrightarrow> in_use (pm t) g" "c < 2 ^ 48"
      "mem t = (\<lambda>w. if w div 512 = c then 0 else if w = dst then new_entry c else mem s w)"
    using alloc_pt_fresh [OF assms(1,4,3)] by blast
  have "dst div 512 \<noteq> c" using assms(2) c(1) by blast
  moreover have "later {dst} s t" using c by (auto simp: later_def)
  ultimately show thesis using that [of c] c by simp
qed

lemma alloc_table_ok:
  assumes inv: "tree_inv s (Suc l) f" and i: "i < 512" and np: "\<not> present (mem s (512 * f + i))" and run: "alloc_pt (512 * f + i) s = Inr (True, t)"
  shows "\<exists>c. table_at l f i c s t"
proof -
  have fu: "in_use (pm s) ((512 * f + i) div 512)" using inv i by (simp add: tree_inv_def)
  have ok: "phys_ok (pm s)" using inv by (simp add: tree_inv_def)
  obtain c where c: "\<not> in_use (pm s) c" "in_use (pm t) c" "c < 2 ^ 48" "later {512 * f + i} s t" "mem t (512 * f + i) = new_entry c"
      "\<And>i. i < 512 \<Longrightarrow> mem t (512 * c + i) = 0"
    using alloc_later [OF ok fu _ run] np by blast
  have c51: "c < 2 ^ 51" using c(3) by simp
  have z: "tabs (mem t) l c = {c}" "sep (mem t) l c" using zero_table [of "mem t" c l] c(6) by blast+
  note n = new_table_ok [OF inv i c(4,1,2) c51 c(5) z]
  have "hw_walk (mem t) l c v = (l, 0)" for v using walk_leaf [of l "mem t" c v] c(6) by simp
  moreover have "\<not> points (mem s (512 * f + i))" using np by simp
  ultimately have "trans (mem t) (Suc l) f v = trans (mem s) (Suc l) f v" for v
    using n(3) [of v] walk_leaf [of "Suc l" "mem s" f v] np by (auto simp: trans_def leaf_def)
  then show ?thesis using n(1,2) c new_entry_points [OF c51] unfolding table_at_def by (intro exI [of _ c]) auto
qed

text \<open>The parts of an entry that a split keeps.\<close>

lemma split_base:
  defines "fl \<equiv> \<lambda>e. (e AND (PTE_NX OR 0xFFF)) AND NOT PTE_PS"
  shows "e AND NOT PTE_PS = frame_bytes (pte_frame e) OR fl e" "low_flags (fl e)" "low_flags (fl e OR PTE_PS)" "fl e AND PTE_P = e AND PTE_P"
    "fl e AND PERM = e AND PERM"
proof -
  have k: "PTE_P AND PTE_PS = 0" "PTE_PS AND PERM = 0" "low_flags PTE_PS" "(PTE_NX OR 0xFFF) AND NOT PTE_PS AND PTE_P = PTE_P" "(PTE_NX OR 0xFFF) AND NOT PTE_PS AND PERM = PERM"
    by (simp_all add: PTE_P_def PTE_PS_def PERM_def PTE_NX_def low_flags_def PTE_ADDR_def)
  have "e AND NOT PTE_PS = (frame_bytes (pte_frame e) AND NOT PTE_PS) OR fl e"
    unfolding fl_def by (subst entry_split(1)) (rule bit.conj_disj_distrib2)
  moreover have "frame_bytes (pte_frame e) AND NOT PTE_PS = frame_bytes (pte_frame e)"
    using frame_no_flags(2) [of "pte_frame e"] by (metis (no_types) bit.conj_disj_distrib bit.conj_one_right bit.disj_cancel_right or.left_neutral)
  ultimately show "e AND NOT PTE_PS = frame_bytes (pte_frame e) OR fl e" by simp
  have "low_flags (x AND y)" if "low_flags x" for x y
  proof -
    have "PTE_ADDR (x AND y) = PTE_ADDR x AND y" unfolding PTE_ADDR_def by (simp only: and.assoc and.commute and.left_commute)
    then show ?thesis using that by (simp add: low_flags_def)
  qed
  then show l: "low_flags (fl e)" unfolding fl_def using entry_split(2) by blast
  show "low_flags (fl e OR PTE_PS)" using l k(3) by (simp add: low_flags_def PTE_ADDR_or)
  show "fl e AND PTE_P = e AND PTE_P" "fl e AND PERM = e AND PERM" unfolding fl_def using k(4,5) by (simp_all only: and.assoc)
qed

lemma PERM_low: "low_flags PERM" "PTE_PS AND PERM = 0" "PTE_PS AND PTE_P = 0" "low_flags PTE_P" "low_flags PTE_PS"
  by (simp_all add: low_flags_def PTE_ADDR_def PERM_def PTE_NX_def PTE_PS_def PTE_P_def)

text \<open>The flags of an entry that is made of a frame and flags.\<close>

lemma entry_flags:
  assumes "f < 2 ^ 51"
  shows "(frame_bytes f OR fl) AND PTE_P = fl AND PTE_P" "(frame_bytes f OR fl) AND PTE_PS = fl AND PTE_PS" "(frame_bytes f OR fl) AND PERM = fl AND PERM"
  using frame_low [OF assms] PERM_low by (simp_all add: bit.conj_disj_distrib2)

lemma split_table_ok:
  assumes inv: "tree_inv s (Suc l) f" and i: "i < 512" and l: "l \<le> 1" and e: "present (mem s (512 * f + i))" "huge (mem s (512 * f + i))"
    and run: "split_huge l (512 * f + i) s = Inr (True, t)"
  shows "\<exists>c. table_at l f i c s t"
proof -
  let ?e = "mem s (512 * f + i)"
  define fl where "fl = (if l = 0 then (?e AND (PTE_NX OR 0xFFF)) AND NOT PTE_PS else ((?e AND (PTE_NX OR 0xFFF)) AND NOT PTE_PS) OR PTE_PS)"
  note sb = split_base [of ?e]
  have fu: "in_use (pm s) ((512 * f + i) div 512)" and ok: "phys_ok (pm s)" using inv i by (simp_all add: tree_inv_def)
  obtain u where u: "alloc_pt (512 * f + i) s = Inr (True, u)"
      and fill: "bind_res (KADDR (pte_frame (mem u (512 * f + i))) u) (\<lambda>pd. alloc_fill_pt l pd (?e AND NOT PTE_PS) [0..<512] u) = Inr (True, t)"
    using run by (auto simp: split_huge_def Let_def bind_res_Inr_iff split: if_splits)
  obtain c where c: "\<not> in_use (pm s) c" "in_use (pm u) c" "c < 2 ^ 48" "later {512 * f + i} s u" "mem u (512 * f + i) = new_entry c"
      "\<And>i. i < 512 \<Longrightarrow> mem u (512 * c + i) = 0"
    using alloc_later [OF ok fu _ u] e by blast
  have c51: "c < 2 ^ 51" using c(3) by simp
  have "?e AND NOT PTE_PS = frame_bytes (pte_frame ?e) OR ((?e AND (PTE_NX OR 0xFFF)) AND NOT PTE_PS)" by (rule sb(1))
  then have base: "(if l \<noteq> 0 then (?e AND NOT PTE_PS) OR PTE_PS else ?e AND NOT PTE_PS) = frame_bytes (pte_frame ?e) OR fl"
    unfolding fl_def by (simp add: or.assoc)
  have fe: "fill_entries l (512 * c) (frame_bytes (pte_frame ?e) OR fl) [0..<512] u = Inr t"
    using fill l c(5) new_entry_points [OF c51] base unfolding alloc_fill_pt_def fill_leaves_def
    by (auto simp: bind_res_Inr_iff KADDR_def split: if_splits)
  have low: "low_flags fl" using sb(2,3) by (simp add: fl_def)
  have "big_ok (Suc l) ?e" using inv i by (simp add: tree_inv_def table_simps)
  then have room: "pte_frame ?e + 512 * 2 ^ (9 * l) \<le> 2 ^ 51" using e by (simp add: big_ok_def power_add)
  note fm = fill_entries_mem [OF fe _ low]
  have pm: "pm t = pm u" and mt: "mem t w = (if w div 512 = c then frame_bytes (pte_frame ?e + (w - 512 * c) * 2 ^ (9 * l)) OR fl else mem u w)" for w
    using fm(1) fm(2) [of w] l room by (auto simp: mult.commute)
  have fc: "f \<noteq> c" using fu i c(1) by auto
  have la: "later {512 * f + i} s t" using c(1,4) pm mt by (auto simp: later_def)
  have ne: "mem t (512 * f + i) = new_entry c" using mt i fc c(5) by simp
  have en: "mem t (512 * c + j) = frame_bytes (pte_frame ?e + j * 2 ^ (9 * l)) OR fl" if "j < 512" for j using mt that by simp
  have lt: "pte_frame ?e + j * 2 ^ (9 * l) + 2 ^ (9 * l) \<le> 2 ^ 51" if "j < 512" for j
  proof -
    have "Suc j * 2 ^ (9 * l) \<le> 512 * 2 ^ (9 * l)" using that by (intro mult_right_mono) simp_all
    then show ?thesis using room unfolding mult_Suc by linarith
  qed
  have pos: "(0 :: nat) < 2 ^ (9 * l)" by simp
  have pf: "pte_frame (mem t (512 * c + j)) = pte_frame ?e + j * 2 ^ (9 * l)" if "j < 512" for j
    using pte_frame_make [OF _ low] lt [OF that] pos en [OF that] by (metis less_add_same_cancel1 order_less_le_trans)
  have fp: "fl AND PTE_P = ?e AND PTE_P" "fl AND PERM = ?e AND PERM"
    using sb(4,5) PERM_low(2,3) unfolding fl_def by (simp_all add: bit.conj_disj_distrib2)
  have ps: "fl AND PTE_PS \<noteq> 0" if "l \<noteq> 0" using that unfolding fl_def by (simp add: bit.conj_disj_distrib2) (simp add: PTE_PS_def)
  have fr: "pte_frame ?e + j * 2 ^ (9 * l) < 2 ^ 51" if "j < 512" for j using lt [OF that] pos by linarith
  have ef: "present (mem t (512 * c + j))" "l \<noteq> 0 \<Longrightarrow> huge (mem t (512 * c + j))" "mem t (512 * c + j) AND PERM = ?e AND PERM" if "j < 512" for j
    using entry_flags [OF fr [OF that]] en [OF that] fp ps e(1) by simp_all
  have lf: "l = 0 \<or> (\<forall>j<512. \<not> points (mem t (512 * c + j)) \<and> big_ok l (mem t (512 * c + j)))"
    using ef(2) pf lt by (auto simp: big_ok_def)
  have cu: "in_use (pm t) c" using c(2) pm by simp
  note n = new_table_ok [OF inv i la c(1) cu c51 ne]
  have z: "tabs (mem t) l c = {c}" "sep (mem t) l c" using leaf_table [OF lf] by blast+
  have w: "hw_walk (mem t) l c v = (l, mem t (512 * c + idx l v))" for v by (rule walk_leaf) (use lf idx_less [of l v] in blast)
  have ws: "hw_walk (mem s) (Suc l) f v = (Suc l, ?e)" if "idx (Suc l) v = i" for v
    using walk_leaf [of "Suc l" "mem s" f v] that e(2) by simp
  have "trans (mem t) (Suc l) f v = trans (mem s) (Suc l) f v" for v
  proof (cases "idx (Suc l) v = i")
    case True
    have "pte_frame (mem t (512 * c + idx l v)) + v mod 2 ^ (9 * l) = pte_frame ?e + v mod 2 ^ (9 * Suc l)"
      using pf [of "idx l v"] mod_split [of v l] by simp
    then show ?thesis using n(3) [OF z, of v] True w [of v] ws [OF True] ef(1,3) [of "idx l v"] e(1) by (simp add: trans_def leaf_def)
  qed (simp add: trans_def n(3) [OF z])
  then show ?thesis using n(1,2) [OF z] la c(1) ne new_entry_points [OF c51] unfolding table_at_def by (intro exI [of _ c]) auto
qed

lemma need_table_ok:
  assumes inv: "tree_inv s (Suc l) f" and i: "i < 512" and l: "l \<le> 1" and run: "need_table l (512 * f + i) s = Inr (Some d, t)"
  shows "\<exists>c. d = 512 * c \<and> table_at l f i c s t"
proof -
  let ?e = "mem s (512 * f + i)"
  have refl: "table_at l f i (pte_frame ?e) s s" if "points ?e" using that inv by (simp add: table_at_def later_def tree_inv_def)
  have "\<exists>c. table_at l f i c s t \<and> KADDR (pte_frame (mem t (512 * f + i))) t = Inr d"
  proof (cases "present ?e")
    case False
    obtain u ok where u: "alloc_pt (512 * f + i) s = Inr (True, u)"
        "(if huge (mem u (512 * f + i)) then split_huge l (512 * f + i) u else Inr (True, u)) = Inr (ok, t)" "ok"
        "KADDR (pte_frame (mem t (512 * f + i))) t = Inr d"
      using run False by (auto simp: need_table_def bind_res_Inr_iff split: if_splits)
    obtain c where c: "table_at l f i c s u" using alloc_table_ok [OF inv i False u(1)] by blast
    then have "t = u" using u(2) by (simp add: table_at_def)
    then show ?thesis using c u(4) by blast
  next
    case True
    obtain ok where u: "(if huge ?e then split_huge l (512 * f + i) s else Inr (True, s)) = Inr (ok, t)" "ok"
        "KADDR (pte_frame (mem t (512 * f + i))) t = Inr d"
      using run True by (auto simp: need_table_def bind_res_Inr_iff split: if_splits)
    show ?thesis
    proof (cases "huge ?e")
      case h: True
      then show ?thesis using split_table_ok [OF inv i l True h] u by auto
    next
      case h: False
      then show ?thesis using refl True u by auto
    qed
  qed
  then show ?thesis by (auto simp: table_at_def KADDR_def split: if_splits)
qed

section \<open>Leaf entries\<close>

lemma leaves_update:
  assumes sep: "sep m (Suc l) f" and d: "differs {f} m m'"
    and e: "\<And>j. j < 512 \<Longrightarrow> m' (512 * f + j) = m (512 * f + j) \<or> \<not> points (m' (512 * f + j)) \<and> big_ok (Suc l) (m' (512 * f + j))"
  shows "sep m' (Suc l) f" "tabs m' (Suc l) f \<subseteq> tabs m (Suc l) f"
    "m' (512 * f + idx (Suc l) v) = m (512 * f + idx (Suc l) v) \<Longrightarrow> hw_walk m' (Suc l) f v = hw_walk m (Suc l) f v"
proof -
  have out: "f \<notin> tabs m l (pte_frame (m (512 * f + j)))" if "j < 512" "points (m (512 * f + j))" for j
    using sep that by (simp add: table_simps)
  have old: "tabs m' l (pte_frame (m (512 * f + j))) = tabs m l (pte_frame (m (512 * f + j)))" "sep m' l (pte_frame (m (512 * f + j)))"
      "hw_walk m' l (pte_frame (m (512 * f + j))) v = hw_walk m l (pte_frame (m (512 * f + j))) v"
    if "j < 512" "points (m (512 * f + j))" for j v
    using differs_tabs [OF d, of l "pte_frame (m (512 * f + j))"] out [OF that] sep that by (simp_all add: table_simps)
  have keep: "m' (512 * f + j) = m (512 * f + j)" if "j < 512" "points (m' (512 * f + j))" for j using e that by blast
  show "sep m' (Suc l) f"
    unfolding table_simps
  proof (intro conjI allI impI)
    fix j assume j: "j < 512" "points (m' (512 * f + j))"
    show "sep m' l (pte_frame (m' (512 * f + j)))" "f \<notin> tabs m' l (pte_frame (m' (512 * f + j)))"
      using old [OF j(1)] out [OF j(1)] keep [OF j] j(2) by simp_all
  next
    fix j k assume j: "j < 512" and k: "k < 512" and p: "j \<noteq> k \<and> points (m' (512 * f + j)) \<and> points (m' (512 * f + k))"
    have "m' (512 * f + j) = m (512 * f + j)" "m' (512 * f + k) = m (512 * f + k)" using keep j k p by blast+
    then show "tabs m' l (pte_frame (m' (512 * f + j))) \<inter> tabs m' l (pte_frame (m' (512 * f + k))) = {}"
      using old(1) [OF j] old(1) [OF k] sep j k p unfolding table_simps by metis
  next
    fix j :: nat assume j: "j < 512"
    have "big_ok (Suc l) (m (512 * f + j))" using sep j by (simp add: table_simps)
    then show "big_ok (Suc l) (m' (512 * f + j))" using e [OF j] by auto
  qed
  show "tabs m' (Suc l) f \<subseteq> tabs m (Suc l) f"
    using keep old(1) unfolding table_simps by (smt (verit, best) UN_iff insert_iff mem_Collect_eq subsetI)
  show "hw_walk m' (Suc l) f v = hw_walk m (Suc l) f v" if "m' (512 * f + idx (Suc l) v) = m (512 * f + idx (Suc l) v)"
    using that old(3) [of "idx (Suc l) v" v] by (simp add: table_simps Let_def)
qed

lemma fill_table_ok:
  assumes inv: "tree_inv s l f" and l: "l \<le> 2" and i: "i0 \<le> i1" "i1 \<le> 512" and fl: "low_flags fl" "fl AND PTE_P \<noteq> 0"
    and room: "b + (i1 - i0) * 2 ^ (9 * l) \<le> 2 ^ 51" and run: "alloc_fill_pt l (512 * f) (frame_bytes b OR fl) [i0..<i1] s = Inr (ok, t)"
  shows "ok" "tree_inv t l f" "later ((\<lambda>i. 512 * f + i) ` {i0..<i1}) s t" "tabs (mem t) l f \<subseteq> tabs (mem s) l f"
    "trans (mem t) l f v = (if i0 \<le> idx l v \<and> idx l v < i1 then Some (b + (idx l v - i0) * 2 ^ (9 * l) + v mod 2 ^ (9 * l), fl AND PERM) else trans (mem s) l f v)"
proof -
  define gl where "gl = (if l \<noteq> 0 then fl OR PTE_PS else fl)"
  have low: "low_flags gl" using fl(1) PERM_low(5) by (simp add: gl_def low_flags_def PTE_ADDR_or)
  have "(if l \<noteq> 0 then (frame_bytes b OR fl) OR PTE_PS else frame_bytes b OR fl) = frame_bytes b OR gl" by (simp add: gl_def or.assoc)
  then have fe: "ok \<and> fill_entries l (512 * f) (frame_bytes b OR gl) [i0..<i1] s = Inr t"
    using run l unfolding alloc_fill_pt_def fill_leaves_def by (auto simp: bind_res_Inr_iff split: if_splits)
  then show "ok" by blast
  have fm: "pm t = pm s" "mem t w = (if 512 * f + i0 \<le> w \<and> w < 512 * f + i1 then frame_bytes (b + (w - 512 * f - i0) * 2 ^ (9 * l)) OR gl else mem s w)" for w
    using fill_entries_mem [of l "512 * f" b gl i0 i1 s t] fe l low room by blast+
  have pos: "(0 :: nat) < 2 ^ (9 * l)" by simp
  have lt: "b + (j - i0) * 2 ^ (9 * l) + 2 ^ (9 * l) \<le> 2 ^ 51" if "i0 \<le> j" "j < i1" for j
  proof -
    have "Suc (j - i0) * 2 ^ (9 * l) \<le> (i1 - i0) * 2 ^ (9 * l)" using that by (intro mult_right_mono) auto
    then show ?thesis using room unfolding mult_Suc by linarith
  qed
  have fr: "b + (j - i0) * 2 ^ (9 * l) < 2 ^ 51" if "i0 \<le> j" "j < i1" for j using lt [OF that] pos by linarith
  have en: "mem t (512 * f + j) = (if i0 \<le> j \<and> j < i1 then frame_bytes (b + (j - i0) * 2 ^ (9 * l)) OR gl else mem s (512 * f + j))" for j
    using fm(2) [of "512 * f + j"] by auto
  have gf: "gl AND PTE_P = fl AND PTE_P" "gl AND PERM = fl AND PERM" "l \<noteq> 0 \<Longrightarrow> gl AND PTE_PS \<noteq> 0"
    using PERM_low(2,3) unfolding gl_def by (simp_all add: bit.conj_disj_distrib2) (simp add: PTE_PS_def)
  have new: "present (mem t (512 * f + j))" "l \<noteq> 0 \<Longrightarrow> huge (mem t (512 * f + j))" "mem t (512 * f + j) AND PERM = fl AND PERM"
      "pte_frame (mem t (512 * f + j)) = b + (j - i0) * 2 ^ (9 * l)" if "i0 \<le> j" "j < i1" for j
    using entry_flags [OF fr [OF that], of gl] en [of j] that gf fl(2) pte_frame_make [OF fr [OF that] low] by simp_all
  have d: "differs {f} (mem s) (mem t)" unfolding differs_def using fm(2) i by auto
  show "later ((\<lambda>i. 512 * f + i) ` {i0..<i1}) s t"
    unfolding later_def
  proof (intro conjI allI impI)
    fix w assume w: "in_use (pm s) (w div 512) \<and> w \<notin> (\<lambda>i. 512 * f + i) ` {i0..<i1}"
    have "\<not> (512 * f + i0 \<le> w \<and> w < 512 * f + i1)"
    proof
      assume r: "512 * f + i0 \<le> w \<and> w < 512 * f + i1"
      then have "w = 512 * f + (w - 512 * f)" "w - 512 * f \<in> {i0..<i1}" by auto
      then show False using w by blast
    qed
    then show "mem t w = mem s w" using fm(2) by auto
  qed (use inv fm(1) in \<open>simp_all add: tree_inv_def\<close>)
  have "sep (mem t) l f \<and> tabs (mem t) l f \<subseteq> tabs (mem s) l f \<and>
    trans (mem t) l f v = (if i0 \<le> idx l v \<and> idx l v < i1 then Some (b + (idx l v - i0) * 2 ^ (9 * l) + v mod 2 ^ (9 * l), fl AND PERM) else trans (mem s) l f v)"
  proof (cases l)
    case 0
    then show ?thesis using new [of "idx 0 v"] en [of "idx 0 v"] by (auto simp: trans_def leaf_def)
  next
    case (Suc k)
    have sp: "sep (mem s) (Suc k) f" using inv Suc by (simp add: tree_inv_def)
    have "mem t (512 * f + j) = mem s (512 * f + j) \<or> \<not> points (mem t (512 * f + j)) \<and> big_ok (Suc k) (mem t (512 * f + j))" for j
      using new [of j] en [of j] lt [of j] Suc by (cases "i0 \<le> j \<and> j < i1") (auto simp: big_ok_def)
    note u = leaves_update [OF sp d this]
    show ?thesis
    proof (cases "i0 \<le> idx l v \<and> idx l v < i1")
      case True
      then have "hw_walk (mem t) l f v = (l, mem t (512 * f + idx l v))" using walk_leaf new(2) Suc by blast
      then show ?thesis using u(1,2) True Suc new [of "idx l v"] by (simp add: trans_def leaf_def)
    next
      case False
      then have "mem t (512 * f + idx (Suc k) v) = mem s (512 * f + idx (Suc k) v)" using en Suc by auto
      then show ?thesis using u False Suc by (auto simp: trans_def)
    qed
  qed
  then show "tabs (mem t) l f \<subseteq> tabs (mem s) l f" "tree_inv t l f"
    "trans (mem t) l f v = (if i0 \<le> idx l v \<and> idx l v < i1 then Some (b + (idx l v - i0) * 2 ^ (9 * l) + v mod 2 ^ (9 * l), fl AND PERM) else trans (mem s) l f v)"
    using inv fm(1) unfolding tree_inv_def by auto
qed

text \<open>A change below entry \<open>i\<close> of a table.\<close>

lemma lift_ok:
  assumes inv: "tree_inv s (Suc l) f" and i: "i < 512" and e: "points (mem s (512 * f + i))" "pte_frame (mem s (512 * f + i)) = c"
    and la: "later X s t" and X: "\<And>w. w \<in> X \<Longrightarrow> w div 512 \<in> tabs (mem s) l c" and sub: "tree_inv t l c"
    and tb: "tabs (mem t) l c \<subseteq> tabs (mem s) l c \<union> {g. \<not> in_use (pm s) g}"
  shows "tree_inv t (Suc l) f" "tabs (mem t) (Suc l) f \<subseteq> tabs (mem s) (Suc l) f \<union> {g. \<not> in_use (pm s) g}"
    "trans (mem t) (Suc l) f v = (if idx (Suc l) v = i then trans (mem t) l c v else trans (mem s) (Suc l) f v)"
proof -
  let ?N = "{g. \<not> in_use (pm s) g}" and ?F = "tabs (mem s) l c \<union> {g. \<not> in_use (pm s) g}"
  have sp: "sep (mem s) (Suc l) f" using inv by (simp add: tree_inv_def)
  have use: "in_use (pm s) g" if "g \<in> tabs (mem s) (Suc l) f" for g using inv that unfolding tree_inv_def by blast
  have oth: "in_use (pm s) g" if "g \<in> others (mem s) l f i" for g using use others_sub that by blast
  have dis: "tabs (mem s) l c \<inter> others (mem s) l f i = {}" using others_disjoint [OF sp i e(1)] e(2) by simp
  have fo: "f \<in> others (mem s) l f i" by (simp add: others_def)
  have fn: "f \<notin> tabs (mem s) l c" using dis fo by blast
  have d: "differs ?F (mem s) (mem t)" unfolding differs_def using la X by (auto simp: later_def)
  have F: "?F \<inter> (others (mem s) l f i - {f}) = {}" using dis oth by blast
  have fX: "512 * f + j \<notin> X" if "j < 512" for j using X [of "512 * f + j"] fn that by auto
  have all: "mem t (512 * f + j) = mem s (512 * f + j)" if "j < 512" for j using la fX [OF that] use [of f] that by (simp add: later_def)
  have big: "big_ok (Suc l) (mem t (512 * f + i))" using sp i all [OF i] by (simp add: table_simps)
  have new: "sep (mem t) l (pte_frame (mem t (512 * f + i))) \<and> tabs (mem t) l (pte_frame (mem t (512 * f + i))) \<subseteq> ?F \<and> ?F \<inter> others (mem s) l f i = {}"
    using sub tb all [OF i] e(2) dis oth by (auto simp: tree_inv_def)
  note u = update_entry [OF sp i d F all big new]
  have "tabs (mem s) l c \<subseteq> tabs (mem s) (Suc l) f" using e i by (auto simp: table_simps)
  show "tabs (mem t) (Suc l) f \<subseteq> tabs (mem s) (Suc l) f \<union> ?N" using u(2) others_sub \<open>tabs (mem s) l c \<subseteq> _\<close> by blast
  show "trans (mem t) (Suc l) f v = (if idx (Suc l) v = i then trans (mem t) l c v else trans (mem s) (Suc l) f v)"
    using u(3) [of v] e all [OF i] by (auto simp: trans_def)
  have "in_use (pm t) g" if gt: "g \<in> tabs (mem t) (Suc l) f" for g
  proof -
    consider "g = f" | j where "j < 512" "points (mem t (512 * f + j))" "g \<in> tabs (mem t) l (pte_frame (mem t (512 * f + j)))"
      using gt by (auto simp: table_simps)
    then show ?thesis
    proof cases
      case 1
      then show ?thesis using use [of f] la by (simp add: later_def)
    next
      case (2 j)
      show ?thesis
      proof (cases "j = i")
        case True
        then show ?thesis using 2 sub all [OF i] e(2) by (simp add: tree_inv_def)
      next
        case False
        have ch: "tabs (mem s) l (pte_frame (mem s (512 * f + j))) \<subseteq> others (mem s) l f i" using 2 False all by (auto simp: others_def)
        then have "?F \<inter> tabs (mem s) l (pte_frame (mem s (512 * f + j))) = {}" using dis oth by blast
        then have "g \<in> tabs (mem s) l (pte_frame (mem s (512 * f + j)))" using differs_tabs(1) [OF d] 2 all by simp
        then show ?thesis using ch oth la by (auto simp: later_def)
      qed
    qed
  qed
  then show "tree_inv t (Suc l) f" using u(1) la by (simp add: tree_inv_def later_def)
qed

section \<open>Ranges\<close>

text \<open>
  What a routine that maps a range has done to the tables below \<open>f\<close>: the addresses from \<open>a\<close> on lead to the frames from \<open>b\<close> on, all others are as before.
  Addresses are taken relative to what the table covers.
\<close>

definition filled :: "nat \<Rightarrow> nat \<Rightarrow> nat \<Rightarrow> nat \<Rightarrow> nat \<Rightarrow> u64 \<Rightarrow> vmem \<Rightarrow> vmem \<Rightarrow> bool" where
  "filled l f a n b fl s t \<longleftrightarrow> tree_inv t l f \<and> later {w. w div 512 \<in> tabs (mem s) l f} s t \<and>
     tabs (mem t) l f \<subseteq> tabs (mem s) l f \<union> {g. \<not> in_use (pm s) g} \<and>
     (\<forall>v. trans (mem t) l f v = (let x = v mod 2 ^ (9 * Suc l) in if a \<le> x \<and> x < a + n then Some (b + (x - a), fl) else trans (mem s) l f v))"

lemma later_mono: "later X s t \<Longrightarrow> (\<And>w. w \<in> X \<Longrightarrow> in_use (pm s) (w div 512) \<Longrightarrow> w \<in> Y) \<Longrightarrow> later Y s t"
  unfolding later_def by blast

text \<open>The indices of an aligned range.\<close>

lemma index_range_aligned:
  assumes "9 * l \<le> c" "c < 9 * Suc l" "2 ^ c dvd addr"
  shows "index_range (idx l) addr (addr + 2 ^ c) = [idx l addr ..< idx l addr + 2 ^ (c - 9 * l)]" "idx l addr + 2 ^ (c - 9 * l) \<le> 512"
    "idx l addr * 2 ^ (9 * l) = addr mod 2 ^ (9 * Suc l)"
proof -
  let ?d = "2 ^ (c - 9 * l) :: nat" and ?p = "2 ^ (9 * l) :: nat"
  have c: "2 ^ c = ?d * ?p" using assms(1) by (simp flip: power_add)
  have "?p dvd addr" using assms(3) c dvd_mult_right by metis
  then show "idx l addr * ?p = addr mod 2 ^ (9 * Suc l)" using mod_split [of addr l] by simp
  obtain k where k: "addr = k * ?d * ?p" using assms(3) c by (metis dvd_def mult.assoc mult.commute)
  have q: "addr div ?p = k * ?d" "(addr + 2 ^ c) div ?p = k * ?d + ?d" using k by (simp_all add: c flip: distrib_right)
  define m where "m = (2 :: nat) ^ (9 * Suc l - c)"
  have m: "512 = m * ?d"
  proof -
    have "m * ?d = 2 ^ (9 * Suc l - c + (c - 9 * l))" by (simp add: m_def power_add)
    also have "\<dots> = 2 ^ 9" by (rule arg_cong [where f = "\<lambda>x. 2 ^ x"]) (use assms in simp)
    finally show ?thesis by simp
  qed
  have i: "idx l addr = (k mod m) * ?d" unfolding idx_def q(1) m by (simp only: mult_mod_left)
  have m2: "2 \<le> m" using assms(2) by (cases "9 * Suc l - c") (simp_all add: m_def)
  have km: "k mod m < m" using m2 by simp
  have "Suc (k mod m) * ?d \<le> m * ?d" using km by (intro mult_right_mono) simp_all
  then show le: "idx l addr + ?d \<le> 512" unfolding i m [symmetric] mult_Suc by simp
  have fin: "idx l (addr + 2 ^ c) = (idx l addr + ?d) mod 512" unfolding idx_def q by (simp add: mod_add_left_eq)
  have "idx l addr + ?d = 512 \<Longrightarrow> idx l addr \<noteq> 0" using m m2 by (cases "idx l addr = 0") auto
  then show "index_range (idx l) addr (addr + 2 ^ c) = [idx l addr ..< idx l addr + ?d]"
    using le fin by (cases "idx l addr + ?d = 512") (simp_all add: index_range_def)
qed

lemma digit_less:
  assumes "y < (p :: nat)"
  shows "i * p \<le> x * p + y \<longleftrightarrow> i \<le> x" "x * p + y < i * p + d * p \<longleftrightarrow> x < i + d"
proof -
  have "i * p \<le> x * p + y \<longleftrightarrow> i \<le> (x * p + y) div p" using assms by (intro less_eq_div_iff_mult_less_eq [symmetric]) simp
  moreover have "x * p + y < (i + d) * p \<longleftrightarrow> (x * p + y) div p < i + d" using assms by (intro div_less_iff_less_mult [symmetric]) simp
  ultimately show "i * p \<le> x * p + y \<longleftrightarrow> i \<le> x" "x * p + y < i * p + d * p \<longleftrightarrow> x < i + d" using assms by (simp_all add: distrib_right)
qed

lemma fill_filled:
  assumes inv: "tree_inv s l f" and l: "l \<le> 2" and c: "9 * l \<le> c" "c < 9 * Suc l" "2 ^ c dvd addr" and fl: "low_flags fl" "fl AND PTE_P \<noteq> 0"
    and room: "b + 2 ^ c \<le> 2 ^ 51" and run: "alloc_fill_pt l (512 * f) (frame_bytes b OR fl) (index_range (idx l) addr (addr + 2 ^ c)) s = Inr (ok, t)"
  shows "ok" "filled l f (addr mod 2 ^ (9 * Suc l)) (2 ^ c) b (fl AND PERM) s t"
proof -
  note ix = index_range_aligned [OF c]
  let ?i = "idx l addr" and ?d = "2 ^ (c - 9 * l) :: nat" and ?p = "2 ^ (9 * l) :: nat"
  have dp: "?d * ?p = 2 ^ c" using c(1) by (simp flip: power_add)
  have r: "alloc_fill_pt l (512 * f) (frame_bytes b OR fl) [?i ..< ?i + ?d] s = Inr (ok, t)" using run ix(1) by simp
  have rm: "b + (?i + ?d - ?i) * ?p \<le> 2 ^ 51" using room dp by simp
  note ok = fill_table_ok [OF inv l le_add1 ix(2) fl rm r]
  show "ok" by (rule ok(1))
  have X: "later {w. w div 512 \<in> tabs (mem s) l f} s t"
  proof (rule later_mono [OF ok(3)])
    fix w assume "w \<in> (\<lambda>i. 512 * f + i) ` {?i ..< ?i + ?d}"
    then obtain j where "w = 512 * f + j" "j < ?i + ?d" by fastforce
    then have "w = 512 * f + j" "j < 512" using ix(2) by linarith+
    then show "w \<in> {w. w div 512 \<in> tabs (mem s) l f}" by simp
  qed
  have "trans (mem t) l f v = (let x = v mod 2 ^ (9 * Suc l); a = addr mod 2 ^ (9 * Suc l) in
      if a \<le> x \<and> x < a + 2 ^ c then Some (b + (x - a), fl AND PERM) else trans (mem s) l f v)" for v
  proof -
    have off: "v mod 2 ^ (9 * Suc l) = idx l v * ?p + v mod ?p" "v mod ?p < ?p" by (rule mod_split) simp
    have in1: "?i * ?p \<le> idx l v * ?p + v mod ?p \<longleftrightarrow> ?i \<le> idx l v" and in2: "idx l v * ?p + v mod ?p < ?i * ?p + ?d * ?p \<longleftrightarrow> idx l v < ?i + ?d"
      using off(2) digit_less [of "v mod ?p" ?p] by simp_all
    have df: "(idx l v - ?i) * ?p + v mod ?p = idx l v * ?p + v mod ?p - ?i * ?p" if "?i \<le> idx l v"
      using that by (simp add: diff_mult_distrib)
    show ?thesis unfolding Let_def ix(3) [symmetric] off(1) in1 dp [symmetric] in2 using ok(5) [of v] df by (simp add: add.assoc)
  qed
  then show "filled l f (addr mod 2 ^ (9 * Suc l)) (2 ^ c) b (fl AND PERM) s t"
    using ok(2,4) X unfolding filled_def Let_def by blast
qed

lemma filled_up:
  assumes inv: "tree_inv s (Suc l) f" and i: "i < 512" and tab: "table_at l f i c s u" and fd: "filled l c a n b fl u t" and a: "a + n \<le> 2 ^ (9 * Suc l)"
  shows "filled (Suc l) f (i * 2 ^ (9 * Suc l) + a) n b fl s t"
proof -
  have u: "points (mem u (512 * f + i))" "pte_frame (mem u (512 * f + i)) = c" "tree_inv u (Suc l) f" "later {512 * f + i} s u"
      "tabs (mem u) (Suc l) f \<subseteq> tabs (mem s) (Suc l) f \<union> {g. \<not> in_use (pm s) g}" "\<And>v. trans (mem u) (Suc l) f v = trans (mem s) (Suc l) f v"
    using tab unfolding table_at_def by blast+
  have t: "tree_inv t l c" "later {w. w div 512 \<in> tabs (mem u) l c} u t" "tabs (mem t) l c \<subseteq> tabs (mem u) l c \<union> {g. \<not> in_use (pm u) g}"
    using fd unfolding filled_def by blast+
  note li = lift_ok [OF u(3) i u(1,2) t(2) _ t(1,3)]
  have cu: "tabs (mem u) l c \<subseteq> tabs (mem u) (Suc l) f" using u(1,2) i by (auto simp: table_simps)
  have mono: "in_use (pm u) g" if "in_use (pm s) g" for g using that u(4) by (simp add: later_def)
  have la: "later {w. w div 512 \<in> tabs (mem s) (Suc l) f} s t"
    by (rule later_mono [OF later_trans [OF u(4) t(2)]]) (use cu u(5) i in auto)
  have tb: "tabs (mem t) (Suc l) f \<subseteq> tabs (mem s) (Suc l) f \<union> {g. \<not> in_use (pm s) g}" using li(2) u(5) mono by blast
  have "trans (mem t) (Suc l) f v = (let x = v mod 2 ^ (9 * Suc (Suc l)) in
      if i * 2 ^ (9 * Suc l) + a \<le> x \<and> x < i * 2 ^ (9 * Suc l) + a + n then Some (b + (x - (i * 2 ^ (9 * Suc l) + a)), fl) else trans (mem s) (Suc l) f v)" for v
  proof -
    let ?p = "2 ^ (9 * Suc l) :: nat"
    let ?o = "v mod ?p"
    have off: "v mod 2 ^ (9 * Suc (Suc l)) = idx (Suc l) v * ?p + ?o" "?o < ?p" by (rule mod_split) simp
    have tr: "trans (mem t) (Suc l) f v = (if idx (Suc l) v = i then trans (mem t) l c v else trans (mem s) (Suc l) f v)" using li(3) [of v] u(6) by simp
    have old: "trans (mem u) l c v = trans (mem s) (Suc l) f v" if "idx (Suc l) v = i"
    proof -
      have "trans (mem u) (Suc l) f v = trans (mem u) l c v" using that u(1,2) by (simp add: trans_def table_simps)
      then show ?thesis using u(6) by simp
    qed
    have sub: "trans (mem t) l c v = (if a \<le> ?o \<and> ?o < a + n then Some (b + (?o - a), fl) else trans (mem u) l c v)"
      using fd unfolding filled_def Let_def by blast
    show ?thesis
    proof (cases "idx (Suc l) v = i")
      case True
      show ?thesis unfolding tr sub Let_def off(1) True using old [OF True] by auto
    next
      case False
      have "\<not> (i * ?p + a \<le> idx (Suc l) v * ?p + ?o \<and> idx (Suc l) v * ?p + ?o < i * ?p + a + n)"
      proof (cases "idx (Suc l) v < i")
        case True
        then have "Suc (idx (Suc l) v) * ?p \<le> i * ?p" by (intro mult_right_mono) simp_all
        then have "idx (Suc l) v * ?p + ?o < i * ?p" using off(2) unfolding mult_Suc by linarith
        then show ?thesis by linarith
      next
        case F: False
        then have "Suc i * ?p \<le> idx (Suc l) v * ?p" using False by (intro mult_right_mono) simp_all
        then show ?thesis using a unfolding mult_Suc by linarith
      qed
      then show ?thesis using tr False by (simp only: off(1) Let_def if_False)
    qed
  qed
  then show ?thesis using li(1) la tb unfolding filled_def by blast
qed

lemma tree_inv_child:
  assumes "tree_inv s (Suc l) f" "i < 512" "points (mem s (512 * f + i))"
  shows "tree_inv s l (pte_frame (mem s (512 * f + i)))"
  using assms tabs_child [of i "mem s" f l] unfolding tree_inv_def table_simps by blast

lemma aligned_end:
  assumes "2 ^ c dvd (addr :: nat)" "c \<le> k"
  shows "addr mod 2 ^ k + 2 ^ c \<le> 2 ^ k"
proof -
  have "(2 :: nat) ^ c dvd 2 ^ k" using assms(2) by (rule le_imp_power_dvd)
  then obtain m x where mx: "2 ^ k = 2 ^ c * (m :: nat)" "addr mod 2 ^ k = 2 ^ c * x" using assms(1) by (meson dvd_def dvd_mod)
  have "2 ^ c * x < 2 ^ c * m" using mx by (metis mod_less_divisor zero_less_numeral zero_less_power)
  then have "Suc x \<le> m" by simp
  then have "2 ^ c * Suc x \<le> 2 ^ c * m" by (intro mult_left_mono) simp_all
  then have "2 ^ c * x + 2 ^ c \<le> 2 ^ c * m" by simp
  then show ?thesis using mx by (metis (no_types))
qed

lemma table_fill:
  assumes inv: "tree_inv s (Suc l) f" and l: "l \<le> 1" and nt: "need_table l (512 * f + idx (Suc l) addr) s = Inr (Some d, u)"
    and fd: "\<And>g. d = 512 * g \<Longrightarrow> tree_inv u l g \<Longrightarrow> filled l g (addr mod 2 ^ (9 * Suc l)) (2 ^ c) b fl u t" and c: "2 ^ c dvd addr" "c \<le> 9 * Suc l"
  shows "filled (Suc l) f (addr mod 2 ^ (9 * Suc (Suc l))) (2 ^ c) b fl s t"
proof -
  obtain g where g: "d = 512 * g" "table_at l f (idx (Suc l) addr) g s u" using need_table_ok [OF inv idx_less l nt] by blast
  have "tree_inv u l g" using tree_inv_child [of u l f "idx (Suc l) addr"] g(2) by (auto simp: table_at_def)
  note fd = fd [OF g(1) this]
  show ?thesis using filled_up [OF inv idx_less g(2) fd aligned_end [OF c]] mod_split [of addr "Suc l"] by simp
qed

section \<open>The user's part of a space\<close>

definition hw_lookup :: "(nat \<Rightarrow> u64) \<Rightarrow> nat \<Rightarrow> nat \<Rightarrow> (nat \<times> u64) option" where
  "hw_lookup m r v = (case hw_entry m r v of (k, e) \<Rightarrow> if present e then Some (pte_frame e + v mod 2 ^ (9 * k), e AND PERM) else None)"

definition user_inv :: "vmem \<Rightarrow> nat \<Rightarrow> bool" where
  "user_inv s r \<longleftrightarrow> phys_ok (pm s) \<and> in_use (pm s) r \<and> (let e = mem s (512 * r) in present e \<longrightarrow>
     \<not> huge e \<and> tree_inv s 2 (pte_frame e) \<and> r \<notin> tabs (mem s) 2 (pte_frame e))"

lemma hw_lookup_user:
  assumes "v < 2 ^ 27"
  shows "hw_lookup m r v = (if present (m (512 * r)) then trans m 2 (pte_frame (m (512 * r))) v else None)"
proof -
  have "PML4_INDEX v = 0" using assms by (simp add: PML4_INDEX_def)
  moreover have "hw_walk m 2 f v = (let e = m (512 * f + PDP_INDEX v) in if \<not> present e \<or> huge e then (2, e) else
      let e = m (512 * pte_frame e + PD_INDEX v) in if \<not> present e \<or> huge e then (1, e) else (0, m (512 * pte_frame e + PT_INDEX v)))" for f
    unfolding numeral_2_eq_2 idx_index One_nat_def table_simps Let_def by auto
  ultimately show ?thesis by (auto simp: hw_lookup_def hw_entry_def trans_def leaf_def Let_def)
qed

lemma root_table_ok:
  assumes inv: "user_inv s r" and run: "present (mem s (512 * r)) \<and> u = s \<or> \<not> present (mem s (512 * r)) \<and> alloc_pt (512 * r) s = Inr (True, u)"
  obtains c where "points (mem u (512 * r))" "pte_frame (mem u (512 * r)) = c" "tree_inv u 2 c" "r \<notin> tabs (mem u) 2 c" "in_use (pm u) r"
    "\<And>v. v < 2 ^ 27 \<Longrightarrow> trans (mem u) 2 c v = hw_lookup (mem s) r v" "\<And>i. 0 < i \<Longrightarrow> i < 512 \<Longrightarrow> mem u (512 * r + i) = mem s (512 * r + i)"
proof (cases "present (mem s (512 * r))")
  case True
  then show thesis using that inv run hw_lookup_user unfolding user_inv_def Let_def by auto
next
  case False
  have a: "alloc_pt (512 * r) s = Inr (True, u)" using run False by blast
  have s: "phys_ok (pm s)" "in_use (pm s) r" using inv by (simp_all add: user_inv_def)
  have r: "in_use (pm s) (512 * r div 512)" using s(2) by simp
  obtain c where c: "\<not> in_use (pm s) c" "in_use (pm u) c" "c < 2 ^ 48" "later {512 * r} s u" "mem u (512 * r) = new_entry c"
      "\<And>i. i < 512 \<Longrightarrow> mem u (512 * c + i) = 0"
    using alloc_later [OF s(1) r _ a] False by blast
  have c51: "c < 2 ^ 51" using c(3) by simp
  have z: "tabs (mem u) 2 c = {c}" "sep (mem u) 2 c" using zero_table [of "mem u" c 2] c(6) by blast+
  have u: "phys_ok (pm u)" "in_use (pm u) r" using c(4) s(2) by (simp_all add: later_def)
  have "hw_walk (mem u) 2 c v = (2, 0)" for v using walk_leaf [of 2 "mem u" c v] c(6) by simp
  then have "trans (mem u) 2 c v = None" for v by (simp add: trans_def leaf_def)
  moreover have "r \<noteq> c" using s(2) c(1) by blast
  moreover have "mem u (512 * r + i) = mem s (512 * r + i)" if "0 < i" "i < 512" for i using c(4) s(2) that by (simp add: later_def)
  ultimately show thesis using that [of c] c(2,5) z u new_entry_points [OF c51] False hw_lookup_user [of _ "mem s" r] by (simp add: tree_inv_def)
qed

text \<open>A range below the table of entry 0.\<close>

lemma user_filled:
  assumes r: "points (mem u (512 * r))" "pte_frame (mem u (512 * r)) = c" "r \<notin> tabs (mem u) 2 c" "in_use (pm u) r" and fd: "filled 2 c a n b fl u t"
  shows "user_inv t r" "v < 2 ^ 27 \<Longrightarrow> hw_lookup (mem t) r v = (if a \<le> v \<and> v < a + n then Some (b + (v - a), fl) else trans (mem u) 2 c v)"
    "i < 512 \<Longrightarrow> mem t (512 * r + i) = mem u (512 * r + i)"
proof -
  have t: "tree_inv t 2 c" "later {w. w div 512 \<in> tabs (mem u) 2 c} u t" "tabs (mem t) 2 c \<subseteq> tabs (mem u) 2 c \<union> {g. \<not> in_use (pm u) g}"
    using fd unfolding filled_def by blast+
  show same: "mem t (512 * r + i) = mem u (512 * r + i)" if "i < 512" for i using t(2) r(3,4) that by (simp add: later_def)
  have e: "mem t (512 * r) = mem u (512 * r)" using same [of 0] by simp
  have "in_use (pm t) r" using t(2) r(4) by (simp add: later_def)
  then show "user_inv t r" using t(1,3) r e by (auto simp: user_inv_def Let_def tree_inv_def)
  show "hw_lookup (mem t) r v = (if a \<le> v \<and> v < a + n then Some (b + (v - a), fl) else trans (mem u) 2 c v)" if "v < 2 ^ 27"
  proof -
    have "trans (mem t) 2 c v = (let x = v mod 2 ^ (9 * Suc 2) in if a \<le> x \<and> x < a + n then Some (b + (x - a), fl) else trans (mem u) 2 c v)"
      using fd unfolding filled_def by blast
    then show ?thesis using hw_lookup_user [OF that] that e r(1,2) by simp
  qed
qed

lemma prot2pte_flags:
  assumes "prot2pte flags = Inr prot"
  shows "low_flags prot" "prot AND PTE_P \<noteq> 0" "prot AND PERM = prot"
proof -
  have m: "PERM = push_bit 63 1 OR (mask 12 AND NOT (push_bit 7 1))" by (simp add: PERM_def PTE_NX_def mask_eq_exp_minus_1)
  define w x y z where d: "w = (if flags AND PROT_W \<noteq> 0 \<and> flags AND PROT_LAZY = 0 then PTE_W else 0)" "x = (if flags AND PROT_X = 0 then PTE_NX else 0)"
    "y = (if flags AND PROT_SHARE \<noteq> 0 then PTE_SHARE else 0)" "z = (if flags AND PROT_USER \<noteq> 0 then PTE_U else 0)"
  have p: "prot = PTE_P OR ucast (flags AND 0xE18) OR w OR x OR y OR z" "w = PTE_W \<or> w = 0" "x = PTE_NX \<or> x = 0" "y = PTE_SHARE \<or> y = 0" "z = PTE_U \<or> z = 0"
    using assms unfolding prot2pte_def d by (auto simp: bind_res_Inr_iff or.assoc)
  have u: "ucast (flags AND 0xE18) = (ucast flags AND 0xE18 :: u64)"
    by (rule bit_word_eqI) (auto simp: bit_simps dest: bit_imp_le_length)
  have k: "w AND PERM = w" "x AND PERM = x" "y AND PERM = y" "z AND PERM = z" "PTE_P AND PERM = PTE_P" "(ucast flags AND 0xE18) AND PERM = (ucast flags AND 0xE18 :: u64)"
    using p(2-5) by (auto simp: PTE_W_def PTE_NX_def PTE_SHARE_def PTE_U_def PTE_P_def PERM_def and.assoc)
  then show P: "prot AND PERM = prot" unfolding p(1) u by (simp only: bit.conj_disj_distrib2)
  have "PTE_ADDR (prot AND PERM) = prot AND PTE_ADDR PERM" unfolding PTE_ADDR_def by (simp only: and.assoc)
  then show "low_flags prot" using PERM_low(1) P by (simp add: low_flags_def)
  have "bit (prot AND PTE_P) 0" unfolding p(1) by (simp add: bit_simps PTE_P_def)
  then show "prot AND PTE_P \<noteq> 0" by (metis bit_0_eq bot_apply bot_bool_def)
qed

lemma path_end: "length p \<le> MAX_CLASS \<Longrightarrow> page_addr p + 2 ^ page_class p \<le> 2 ^ 51"
proof -
  assume "length p \<le> MAX_CLASS"
  then have "frames p \<subseteq> frames []" by (intro frames_suffix) simp_all
  moreover have "page_addr p + (2 ^ page_class p - 1) \<in> frames p" using zero_less_power [of "2 :: nat" "page_class p"] unfolding frames_def atLeastLessThan_iff by linarith
  ultimately have "page_addr p + (2 ^ page_class p - 1) < 2 ^ 48" by (auto simp: frames_def page_class_def MAX_CLASS_def)
  moreover have "(2 :: nat) ^ 48 \<le> 2 ^ 51" by (rule power_increasing) simp_all
  ultimately show ?thesis by linarith
qed

text \<open>The tables below that of entry 0, for the three sizes of pages.\<close>

lemma map_below:
  assumes inv: "tree_inv u 2 c" and k: "k \<le> 26" "2 ^ k dvd addr" and fl: "low_flags fl" "fl AND PTE_P \<noteq> 0" and room: "b + 2 ^ k \<le> 2 ^ 51"
    and run: "(if 18 \<le> k then bind_res (alloc_fill_pt 2 (512 * c) (frame_bytes b OR fl) (index_range PDP_INDEX addr (addr + 2 ^ k)) u) code
     else bind_res (need_table 1 (512 * c + PDP_INDEX addr) u) (\<lambda>(t, s). case t of None \<Rightarrow> code (False, s) | Some pd \<Rightarrow>
     if 9 \<le> k then bind_res (alloc_fill_pt 1 pd (frame_bytes b OR fl) (index_range PD_INDEX addr (addr + 2 ^ k)) s) code
     else bind_res (need_table 0 (pd + PD_INDEX addr) s) (\<lambda>(t, s). case t of None \<Rightarrow> code (False, s) | Some pt \<Rightarrow>
     bind_res (alloc_fill_pt 0 pt (frame_bytes b OR fl) (index_range PT_INDEX addr (addr + 2 ^ k)) s) code))) = Inr (0, t)"
    and code: "code = (\<lambda>(ok, s). Inr (if ok then 0 else - E_NO_MEM, s))"
  shows "filled 2 c (addr mod 2 ^ 27) (2 ^ k) b (fl AND PERM) u t"
proof -
  have ix: "PT_INDEX = idx 0" "PD_INDEX = idx 1" "PDP_INDEX = idx 2" using idx_index by (auto simp: fun_eq_iff)
  have c0: "code (ok, s) = Inr (0, t) \<Longrightarrow> s = t" "code (False, s) \<noteq> Inr (0, t)" for s ok by (auto simp: code E_NO_MEM_def split: if_splits)
  note fillf = fill_filled [OF _ _ _ _ k(2) fl room]
  consider "18 \<le> k" | "9 \<le> k" "k < 18" | "k < 9" by linarith
  then show ?thesis
  proof cases
    case 1
    then obtain ok where "alloc_fill_pt 2 (512 * c) (frame_bytes b OR fl) (index_range (idx 2) addr (addr + 2 ^ k)) u = Inr (ok, t)"
      using run c0(2) unfolding ix by (auto simp: bind_res_Inr_iff dest!: c0(1))
    from fillf(2) [OF inv _ _ _ this] show ?thesis using 1 k(1) by simp
  next
    case 2
    then obtain d u1 ok where "need_table 1 (512 * c + idx 2 addr) u = Inr (Some d, u1)"
        "alloc_fill_pt 1 d (frame_bytes b OR fl) (index_range (idx 1) addr (addr + 2 ^ k)) u1 = Inr (ok, t)"
      using run c0(2) unfolding ix by (auto simp: bind_res_Inr_iff split: option.splits dest!: c0(1))
    note n = this
    have "filled 1 g (addr mod 2 ^ (9 * Suc 1)) (2 ^ k) b (fl AND PERM) u1 t" if "d = 512 * g" "tree_inv u1 1 g" for g
      using fillf(2) [OF that(2) _ _ _ n(2) [unfolded that(1)]] 2 by simp
    then show ?thesis using table_fill [of u 1 c addr d u1 k b "fl AND PERM" t] inv n(1) k(2) 2 by (simp add: numeral_2_eq_2)
  next
    case 3
    then obtain d u1 e u2 ok where "need_table 1 (512 * c + idx 2 addr) u = Inr (Some d, u1)" "need_table 0 (d + idx 1 addr) u1 = Inr (Some e, u2)"
        "alloc_fill_pt 0 e (frame_bytes b OR fl) (index_range (idx 0) addr (addr + 2 ^ k)) u2 = Inr (ok, t)"
      using run c0(2) unfolding ix by (auto simp: bind_res_Inr_iff split: option.splits dest!: c0(1))
    note n = this
    have f0: "filled 0 g (addr mod 2 ^ (9 * Suc 0)) (2 ^ k) b (fl AND PERM) u2 t" if "e = 512 * g" "tree_inv u2 0 g" for g
      using fillf(2) [OF that(2) _ _ _ n(3) [unfolded that(1)]] 3 by simp
    have "filled 1 g (addr mod 2 ^ (9 * Suc 1)) (2 ^ k) b (fl AND PERM) u1 t" if "d = 512 * g" "tree_inv u1 1 g" for g
      using table_fill [of u1 0 g addr e u2 k b "fl AND PERM" t] that n(2) f0 k(2) 3 by simp
    then show ?thesis using table_fill [of u 1 c addr d u1 k b "fl AND PERM" t] inv n(1) k(2) 3 by (simp add: numeral_2_eq_2)
  qed
qed

lemma map_tables_user:
  assumes inv: "user_inv s (cr3 s spc)" and prot: "prot2pte flags = Inr prot" and page: "length page \<le> MAX_CLASS" "page_class page \<le> 26"
    and addr: "2 ^ page_class page dvd addr" "addr + 2 ^ page_class page \<le> 2 ^ 27" and run: "map_tables spc addr page flags s = Inr (0, t)"
  shows "cr3 t = cr3 s" "user_inv t (cr3 s spc)" "v < 2 ^ 27 \<Longrightarrow> hw_lookup (mem t) (cr3 s spc) v =
    (if addr \<le> v \<and> v < addr + 2 ^ page_class page then Some (page_addr page + (v - addr), prot) else hw_lookup (mem s) (cr3 s spc) v)"
    "0 < i \<Longrightarrow> i < 512 \<Longrightarrow> mem t (512 * cr3 s spc + i) = mem s (512 * cr3 s spc + i)"
proof -
  let ?r = "cr3 s spc" and ?k = "page_class page" and ?code = "\<lambda>(ok, s). Inr (if ok then 0 else - E_NO_MEM, s :: vmem)"
  note fl = prot2pte_flags [OF prot]
  have lt: "addr < 2 ^ 27" using addr(2) by (metis le_add1 less_add_same_cancel1 order_less_le_trans zero_less_numeral zero_less_power)
  then have i4: "PML4_INDEX addr = 0" by (simp add: PML4_INDEX_def)
  have base: "page2pa page OR prot = frame_bytes (page_addr page) OR prot" by (simp add: page2pa_def frame_bytes_def)
  have big: "\<not> 27 \<le> ?k" using page(2) by simp
  define rest where "rest = (\<lambda>pdp u.
     if 18 \<le> ?k then bind_res (alloc_fill_pt 2 pdp (frame_bytes (page_addr page) OR prot) (index_range PDP_INDEX addr (addr + 2 ^ ?k)) u) ?code
     else bind_res (need_table 1 (pdp + PDP_INDEX addr) u) (\<lambda>(t, s). case t of None \<Rightarrow> ?code (False, s) | Some pd \<Rightarrow>
     if 9 \<le> ?k then bind_res (alloc_fill_pt 1 pd (frame_bytes (page_addr page) OR prot) (index_range PD_INDEX addr (addr + 2 ^ ?k)) s) ?code
     else bind_res (need_table 0 (pd + PD_INDEX addr) s) (\<lambda>(t, s). case t of None \<Rightarrow> ?code (False, s) | Some pt \<Rightarrow>
     bind_res (alloc_fill_pt 0 pt (frame_bytes (page_addr page) OR prot) (index_range PT_INDEX addr (addr + 2 ^ ?k)) s) ?code)))"
  have "bind_res (if present (mem s (512 * ?r)) then Inr (True, s)
      else bind_res (alloc_pt (512 * ?r) s) (\<lambda>(ok, s). Inr (ok, if ok \<and> NUSERPML4 \<le> 0 then propagate_pml4 spc s else s))) (\<lambda>(ok, s).
     if \<not> ok then ?code (False, s)
     else bind_res (assert_res (\<not> huge (mem s (512 * ?r)))) (\<lambda>_. bind_res (KADDR (pte_frame (mem s (512 * ?r))) s) (\<lambda>pdp. rest pdp s))) = Inr (0, t)"
    using run unfolding map_tables_def prot Let_def base i4 rest_def by (simp only: bind_res_simps base big if_False add_0_right)
  then obtain u where u: "present (mem s (512 * ?r)) \<and> u = s \<or> \<not> present (mem s (512 * ?r)) \<and> alloc_pt (512 * ?r) s = Inr (True, u)"
      and rs: "bind_res (KADDR (pte_frame (mem u (512 * ?r))) u) (\<lambda>pdp. rest pdp u) = Inr (0, t)"
    by (auto simp: bind_res_Inr_iff NUSERPML4_def E_NO_MEM_def split: if_splits)
  obtain c where c: "points (mem u (512 * ?r))" "pte_frame (mem u (512 * ?r)) = c" "tree_inv u 2 c" "?r \<notin> tabs (mem u) 2 c" "in_use (pm u) ?r"
      "\<And>v. v < 2 ^ 27 \<Longrightarrow> trans (mem u) 2 c v = hw_lookup (mem s) ?r v" "\<And>i. 0 < i \<Longrightarrow> i < 512 \<Longrightarrow> mem u (512 * ?r + i) = mem s (512 * ?r + i)"
    using root_table_ok [OF inv u] by blast
  obtain p where p: "KADDR c u = Inr p" using rs c(2) by (auto simp: bind_res_Inr_iff)
  then have "p = 512 * c" by (simp add: KADDR_def split: if_splits)
  then have "filled 2 c (addr mod 2 ^ 27) (2 ^ ?k) (page_addr page) (prot AND PERM) u t"
    using rs c(2) p by (intro map_below [OF c(3) page(2) addr(1) fl(1,2) path_end [OF page(1)] _ refl]) (simp add: rest_def)
  then have fd: "filled 2 c addr (2 ^ ?k) (page_addr page) prot u t" using lt fl(3) by simp
  show "cr3 t = cr3 s" by (rule hw_stepD(2) [OF map_tables_step [OF run]])
  note f = user_filled [OF c(1,2,4,5) fd]
  show "user_inv t ?r" by (rule f(1))
  show "hw_lookup (mem t) ?r v = (if addr \<le> v \<and> v < addr + 2 ^ ?k then Some (page_addr page + (v - addr), prot) else hw_lookup (mem s) ?r v)" if "v < 2 ^ 27"
    using f(2) [OF that] c(6) [OF that] by simp
  show "mem t (512 * ?r + i) = mem s (512 * ?r + i)" if "0 < i" "i < 512" using f(3) c(7) that by simp
qed

text \<open>
  C4: mapping a page of at most 256 GiB below the first 512 GiB of a space: when \<^verbatim>\<open>map_page\<close> has changed the tables without running out of memory, the processor
  finds the frames of the page with the permissions of the mapping at the addresses of the range, and what it found before at every other user address, even when
  a larger page had to be split to make room. The other entries of the top table, which
  belong to the kernel and to the window, stay. The tables keep their shape: they are separate frames in use and none is part of two subtrees.
\<close>

theorem map_tables_translates:
  assumes "user_inv s (cr3 s spc)" "prot2pte flags = Inr prot" "length page \<le> MAX_CLASS" "page_class page \<le> 26"
    "2 ^ page_class page dvd addr" "addr + 2 ^ page_class page \<le> 2 ^ 27" "map_tables spc addr page flags s = Inr (0, t)"
  shows "user_inv t (cr3 t spc) \<and> (\<forall>i. 0 < i \<and> i < 512 \<longrightarrow> mem t (512 * cr3 t spc + i) = mem s (512 * cr3 s spc + i)) \<and>
    (\<forall>v < 2 ^ 27. hw_lookup (mem t) (cr3 t spc) v =
      (if addr \<le> v \<and> v < addr + 2 ^ page_class page then Some (page_addr page + (v - addr), prot) else hw_lookup (mem s) (cr3 s spc) v))"
  using map_tables_user [OF assms] by auto

section \<open>An example\<close>

definition ex_walk :: vmem where "ex_walk = ex_vm\<lparr>pm := page_ref [False] example_phys\<rparr>"

lemma ex_walk_fields: "cr3 ex_walk 0 = 1" "mem ex_walk = ex_mem" "max_memory_map_addr ex_walk = 2 ^ 40"
  by (simp_all add: ex_walk_def ex_vm_def)

lemma ex_walk_use: "phys_ok (pm ex_walk)" "g < 2 ^ 47 \<Longrightarrow> in_use (pm ex_walk) g"
proof -
  show "phys_ok (pm ex_walk)" by (simp add: ex_walk_def example_ref)
  have "nodes (pm ex_walk) [False] = Some \<lparr>pstate = ALLOCATABLE_NODE, refc = 1\<rparr>" by (simp add: ex_walk_def example_ref)
  then show "in_use (pm ex_walk) g" if "g < 2 ^ 47" using that unfolding in_use_def frames_def
    by (intro exI [of _ "[False]"] exI [of _ "\<lparr>pstate = ALLOCATABLE_NODE, refc = 1\<rparr>"]) (simp add: page_class_def MAX_CLASS_def)
qed

lemma single_table:
  assumes "\<And>i. i < 512 \<Longrightarrow> m (512 * f + i) = (if i = 0 then e else 0)" "points e" "sep m l (pte_frame e)" "f \<notin> tabs m l (pte_frame e)"
  shows "tabs m (Suc l) f = insert f (tabs m l (pte_frame e))" "sep m (Suc l) f"
proof -
  have z: "m (512 * f) = e" using assms(1) [of 0] by simp
  have "{i. i < 512 \<and> points (m (512 * f + i))} = {0}" using assms(1,2) z by (auto split: if_splits)
  then show "tabs m (Suc l) f = insert f (tabs m l (pte_frame e))" using z by (simp add: table_simps)
  show "sep m (Suc l) f" using assms unfolding table_simps by (auto simp: big_ok_def split: if_splits)
qed

lemma ex_walk_inv: "user_inv ex_walk 1"
proof -
  have m: "mem ex_walk = ex_mem" by (simp add: ex_walk_def ex_vm_def)
  have e: "ex_mem (1024 + i) = (if i = 0 then 0x3007 else 0)" "ex_mem (1536 + i) = (if i = 0 then 0x4007 else 0)" "ex_mem 512 = 0x2007" if "i < 512" for i
    using that by (simp_all add: ex_mem_def)
  have b: "points 0x2007" "points 0x3007" "points 0x4007" "\<not> present (0 :: u64)" "0x3007 AND PTE_PS = 0" "0x4007 AND PTE_PS = 0" by (simp_all add: PTE_P_def PTE_PS_def)
  have t1: "tabs ex_mem (Suc 0) 3 = {3, 4}" "sep ex_mem (Suc 0) 3"
    using single_table [of ex_mem 3 "0x4007" 0] e(2) b by (simp_all add: ex_frames insert_commute)
  have t2: "tabs ex_mem 2 2 = {2, 3, 4}" "sep ex_mem 2 2"
    using single_table [of ex_mem 2 "0x3007" "Suc 0"] e(1) b t1 by (simp_all add: ex_frames insert_commute flip: numeral_2_eq_2)
  have "in_use (pm ex_walk) g" if "g < 5" for g using that by (intro ex_walk_use(2)) simp
  then show ?thesis using ex_walk_use(1) t2 e(3) [of 0] b(1) by (simp add: user_inv_def tree_inv_def Let_def m ex_frames)
qed

theorem map_tables_translates_witness:
  "\<exists>t. map_tables 0 0 (left MAX_CLASS) 0x4 ex_walk = Inr (0, t) \<and> user_inv t 1 \<and> hw_lookup (mem t) 1 0 = Some (0, PTE_NX OR PTE_P) \<and> hw_lookup (mem t) 1 1 = None"
proof -
  note c = ex_walk_fields
  obtain t where t: "map_tables 0 0 (left MAX_CLASS) 0x4 ex_walk = Inr (0, t)"
    using map_tables_example [of ex_walk 0 "0x4"] c by (auto simp: PROT_LAZY_def)
  have p: "prot2pte 0x4 = Inr (PTE_NX OR PTE_P)"
    by (simp add: prot2pte_def PROT_LAZY_def PROT_W_def PROT_X_def PROT_SHARE_def PROT_USER_def PTE_NX_def PTE_P_def assert_res_def)
  have cr: "cr3 t 0 = 1" using hw_stepD(2) [OF map_tables_step [OF t]] c by simp
  have "hw_lookup ex_mem 1 1 = None" by (simp add: hw_lookup_def hw_entry_def ex_tables ex_mem_def)
  then show ?thesis using map_tables_translates [OF _ p _ _ _ _ t] ex_walk_inv t cr c by (simp add: left_page)
qed

end
