(* ===== verification/Uvpt.thy ===== *)
theory Uvpt
  imports PageWalk
begin

unbundle bit_operations_syntax

text \<open>
  The page tables as a user program sees them (\<^verbatim>\<open>lib/uvpt.c\<close>): entry \<open>UVPT_INDEX\<close> of the top table points back to it, so the tables appear as arrays in memory and
  \<^verbatim>\<open>get_uvpt_entry\<close> finds with ordinary loads what the processor finds in its walk.
\<close>

definition window :: "(nat \<Rightarrow> u64) \<Rightarrow> nat \<Rightarrow> bool" where
  "window m r \<longleftrightarrow> (let e = m (512 * r + UVPT_INDEX) in points e \<and> pte_frame e = r)"

section \<open>Indices\<close>

lemma idx_high: "x < 2 ^ (9 * k) \<Longrightarrow> idx (k + j) (a * 2 ^ (9 * k) + x) = idx j a"
  by (simp add: idx_def power_add div_mult2_eq)

lemma idx_low:
  assumes "l < k"
  shows "idx l (a * 2 ^ (9 * k) + x) = idx l x"
proof -
  obtain n where n: "k = Suc l + n" using assms less_imp_add_positive by (metis Suc_leI le_iff_add)
  have e: "a * 2 ^ (9 * k) + x = (a * 2 ^ (9 * n) * 512) * 2 ^ (9 * l) + x" by (simp add: n power_add)
  show ?thesis unfolding idx_def e by simp
qed

lemma idx_div: "idx l (v div 2 ^ (9 * k)) = idx (k + l) v"
  by (simp add: idx_def power_add div_mult2_eq)

text \<open>A page address with given indices.\<close>

definition page_at :: "nat \<Rightarrow> nat \<Rightarrow> nat \<Rightarrow> nat \<Rightarrow> nat" where
  "page_at a b c d = a * 2 ^ (9 * 3) + (b * 2 ^ (9 * 2) + (c * 2 ^ (9 * 1) + d))"

lemma page_at_index:
  assumes "a < 512" "b < 512" "c < 512" "d < 512"
  shows "PML4_INDEX (page_at a b c d) = a" "PDP_INDEX (page_at a b c d) = b" "PD_INDEX (page_at a b c d) = c" "PT_INDEX (page_at a b c d) = d"
proof -
  have lt: "c * 2 ^ (9 * 1) + d < 2 ^ (9 * 2)" "b * 2 ^ (9 * 2) + (c * 2 ^ (9 * 1) + d) < 2 ^ (9 * 3)" using assms by simp_all
  have z: "idx 0 x = x" if "x < 512" for x using that by (simp add: idx_def)
  show "PML4_INDEX (page_at a b c d) = a" unfolding idx_index page_at_def using idx_high [OF lt(2), of 0 a] z [OF assms(1)] by simp
  show "PDP_INDEX (page_at a b c d) = b"
    unfolding idx_index page_at_def using idx_low [of 2 3 a] idx_high [OF lt(1), of 0 b] z [OF assms(2)] by simp
  show "PD_INDEX (page_at a b c d) = c"
    unfolding idx_index page_at_def using idx_low [of 1 3 a] idx_low [of 1 2 b] idx_high [of d 1 0 c] z [OF assms(3)] assms(4) by simp
  show "PT_INDEX (page_at a b c d) = d"
    unfolding idx_index page_at_def using idx_low [of 0 3 a] idx_low [of 0 2 b] idx_low [of 0 1 c] z [OF assms(4)] by simp
qed

lemma digits:
  assumes "v < 2 ^ 36"
  shows "v div 2 ^ 27 = idx 3 v" "v div 2 ^ 18 = idx 3 v * 2 ^ 9 + idx 2 v" "v div 2 ^ 9 = idx 3 v * 2 ^ 18 + (idx 2 v * 2 ^ 9 + idx 1 v)"
proof -
  have top: "v div 2 ^ (9 * 3) = idx 3 v" using assms by (simp add: idx_def div_less_iff_less_mult)
  have down: "v div 2 ^ (9 * k) = v div 2 ^ (9 * Suc k) * 512 + idx k v" for k
  proof -
    have "v div 2 ^ (9 * Suc k) = v div 2 ^ (9 * k) div 512" by (simp add: power_add mult.commute flip: div_mult2_eq)
    then show ?thesis using div_mult_mod_eq [of "v div 2 ^ (9 * k)" 512] by (simp add: idx_def)
  qed
  show "v div 2 ^ 27 = idx 3 v" using top by simp
  show two: "v div 2 ^ 18 = idx 3 v * 2 ^ 9 + idx 2 v" using down [of 2] top by simp
  show "v div 2 ^ 9 = idx 3 v * 2 ^ 18 + (idx 2 v * 2 ^ 9 + idx 1 v)" using down [of 1] two by simp
qed

text \<open>The walk for a page of the window.\<close>

lemma window_walk:
  assumes "window m r" "PML4_INDEX p = UVPT_INDEX"
  shows "hw_frame m r p = (let e = m (512 * r + PDP_INDEX p) in if \<not> present e \<or> huge e then if present e then Some (pte_frame e + p mod 2 ^ 18) else None else
     let e = m (512 * pte_frame e + PD_INDEX p) in if \<not> present e \<or> huge e then if present e then Some (pte_frame e + p mod 2 ^ 9) else None else
     let e = m (512 * pte_frame e + PT_INDEX p) in if present e then Some (pte_frame e) else None)"
  using assms by (simp add: hw_frame_def hw_entry_def window_def Let_def)

lemma load_window:
  assumes w: "window m r" and v: "v < 2 ^ 36" and h: "\<not> huge (m (512 * r + PML4_INDEX v))"
  shows "load_word m r UVPML4 (v div 2 ^ 27) = Some (m (512 * r + PML4_INDEX v))"
    "e4 = m (512 * r + PML4_INDEX v) \<Longrightarrow> present e4 \<Longrightarrow> load_word m r UVPDP (v div 2 ^ 18) = Some (m (512 * pte_frame e4 + PDP_INDEX v))"
    "e4 = m (512 * r + PML4_INDEX v) \<Longrightarrow> present e4 \<Longrightarrow> e3 = m (512 * pte_frame e4 + PDP_INDEX v) \<Longrightarrow> points e3 \<Longrightarrow>
      load_word m r UVPD (v div 2 ^ 9) = Some (m (512 * pte_frame e3 + PD_INDEX v))"
    "e4 = m (512 * r + PML4_INDEX v) \<Longrightarrow> present e4 \<Longrightarrow> e3 = m (512 * pte_frame e4 + PDP_INDEX v) \<Longrightarrow> points e3 \<Longrightarrow>
      e2 = m (512 * pte_frame e3 + PD_INDEX v) \<Longrightarrow> points e2 \<Longrightarrow> load_word m r UVPT v = Some (m (512 * pte_frame e2 + PT_INDEX v))"
proof -
  have r: "present (m (512 * r + 2))" "m (512 * r + 2) AND PTE_PS = 0" "pte_frame (m (512 * r + 2)) = r"
    using w by (simp_all add: window_def Let_def UVPT_INDEX_def)
  note u = UVPT_def UVPD_def UVPDP_def UVPML4_def UVPT_INDEX_def
  have pages: "UVPML4 + v div 2 ^ 27 div 512 = page_at 2 2 2 2" "UVPDP + v div 2 ^ 18 div 512 = page_at 2 2 2 (idx 3 v)"
    "UVPD + v div 2 ^ 9 div 512 = page_at 2 2 (idx 3 v) (idx 2 v)" "UVPT + v div 512 = page_at 2 (idx 3 v) (idx 2 v) (idx 1 v)"
    using digits [OF v] by (simp_all add: u page_at_def)
  have words: "v div 2 ^ 27 mod 512 = PML4_INDEX v" "v div 2 ^ 18 mod 512 = PDP_INDEX v" "v div 2 ^ 9 mod 512 = PD_INDEX v" "v mod 512 = PT_INDEX v"
    by (simp_all add: PML4_INDEX_def PDP_INDEX_def PD_INDEX_def PT_INDEX_def)
  have walk: "hw_frame m r (page_at 2 b c d) = (let e = m (512 * r + b) in if \<not> present e \<or> huge e then if present e then Some (pte_frame e + page_at 2 b c d mod 2 ^ 18) else None else
     let e = m (512 * pte_frame e + c) in if \<not> present e \<or> huge e then if present e then Some (pte_frame e + page_at 2 b c d mod 2 ^ 9) else None else
     let e = m (512 * pte_frame e + d) in if present e then Some (pte_frame e) else None)" if "b < 512" "c < 512" "d < 512" for b c d
  proof -
    have p: "PML4_INDEX (page_at 2 b c d) = UVPT_INDEX" "PDP_INDEX (page_at 2 b c d) = b" "PD_INDEX (page_at 2 b c d) = c" "PT_INDEX (page_at 2 b c d) = d"
      using page_at_index [of 2 b c d] that by (simp_all add: UVPT_INDEX_def)
    show ?thesis using window_walk [OF w p(1)] unfolding p(2-4) .
  qed
  show "load_word m r UVPML4 (v div 2 ^ 27) = Some (m (512 * r + PML4_INDEX v))"
    unfolding load_word_def pages words by (simp add: walk r Let_def del: add_2_eq_Suc add_2_eq_Suc')
  show "load_word m r UVPDP (v div 2 ^ 18) = Some (m (512 * pte_frame e4 + PDP_INDEX v))" if "e4 = m (512 * r + PML4_INDEX v)" "present e4"
    unfolding load_word_def pages words using that by (simp add: walk r idx_index Let_def del: add_2_eq_Suc add_2_eq_Suc')
  show "load_word m r UVPD (v div 2 ^ 9) = Some (m (512 * pte_frame e3 + PD_INDEX v))"
    if "e4 = m (512 * r + PML4_INDEX v)" "present e4" "e3 = m (512 * pte_frame e4 + PDP_INDEX v)" "points e3"
    unfolding load_word_def pages words using that h by (simp add: walk r idx_index Let_def del: add_2_eq_Suc add_2_eq_Suc')
  show "load_word m r UVPT v = Some (m (512 * pte_frame e2 + PT_INDEX v))"
    if "e4 = m (512 * r + PML4_INDEX v)" "present e4" "e3 = m (512 * pte_frame e4 + PDP_INDEX v)" "points e3" "e2 = m (512 * pte_frame e3 + PD_INDEX v)" "points e2"
    unfolding load_word_def pages words using that h by (simp add: walk r idx_index Let_def del: add_2_eq_Suc add_2_eq_Suc')
qed

lemma uvpt_entry_walk:
  assumes "window m r" "v < 2 ^ 36" "\<not> huge (m (512 * r + PML4_INDEX v))"
  shows "get_uvpt_entry m r v = Some (snd (hw_entry m r v))"
  using load_window(1) [OF assms] load_window(2) [OF assms refl] load_window(3,4) [OF assms refl _ refl] unfolding get_uvpt_entry_def hw_entry_def by (simp add: Let_def)

section \<open>Protection\<close>

text \<open>Only the permissions of an entry count.\<close>

lemma get_prot_perm: "get_prot (e AND PERM) = get_prot e"
proof -
  have "PERM AND PTE_AVAIL AND NOT PTE_SHARE = PTE_AVAIL AND NOT PTE_SHARE" "PERM AND PTE_P = PTE_P" "PERM AND PTE_W = PTE_W" "PERM AND PTE_NX = PTE_NX" "PERM AND PTE_SHARE = PTE_SHARE"
    by (simp_all add: PERM_def PTE_AVAIL_def PTE_SHARE_def PTE_P_def PTE_W_def PTE_NX_def)
  then show ?thesis unfolding get_prot_def by (simp only: and.assoc)
qed

text \<open>The protection that user code reads for a mapping with the flags \<open>flags\<close>.\<close>

definition seen_prot :: "u32 \<Rightarrow> u32" where
  "seen_prot flags = (flags AND (PROT_X OR PROT_SHARE OR 0xA00)) OR PROT_R OR (if flags AND PROT_LAZY = 0 then flags AND PROT_W else 0)"

lemma and_bit:
  fixes x :: u32
  shows "x AND 2 ^ k = 0 \<or> x AND 2 ^ k = 2 ^ k"
proof -
  have "x AND push_bit k 1 = (if bit x k then push_bit k 1 else 0)" by (rule bit_word_eqI) (auto simp: bit_simps)
  then show ?thesis by (simp add: push_bit_eq_mult split: if_splits)
qed

lemma get_prot_pte:
  assumes "prot2pte flags = Inr e" "flags AND 0x400 = 0"
  shows "get_prot e = seen_prot flags"
proof -
  define w x y z where d: "w = (if flags AND PROT_W \<noteq> 0 \<and> flags AND PROT_LAZY = 0 then PTE_W else 0)" "x = (if flags AND PROT_X = 0 then PTE_NX else 0)"
    "y = (if flags AND PROT_SHARE \<noteq> 0 then PTE_SHARE else 0)" "z = (if flags AND PROT_USER \<noteq> 0 then PTE_U else 0)"
  have u: "ucast (flags AND 0xE18) = (ucast (flags AND 0xA18) :: u64)"
  proof -
    have "flags AND 0xE18 = (flags AND 0x400) OR (flags AND 0xA18)" by (simp flip: bit.conj_disj_distrib)
    then show ?thesis using assms(2) by simp
  qed
  have e: "e = PTE_P OR ucast (flags AND 0xA18) OR w OR x OR y OR z"
    using assms(1) unfolding prot2pte_def d by (auto simp: bind_res_Inr_iff or.assoc u)
  have um: "ucast (flags AND 0xA18) AND (ucast k :: u64) = ucast (flags AND (0xA18 AND k))" for k :: u32
    by (rule bit_word_eqI) (auto simp: bit_simps dest: bit_imp_le_length)
  have uk: "ucast (flags AND 0xA18) AND PTE_P = 0" "ucast (flags AND 0xA18) AND PTE_W = 0" "ucast (flags AND 0xA18) AND PTE_SHARE = 0"
    "ucast (flags AND 0xA18) AND (0xA00 :: u64) = ucast (flags AND 0xA00)"
    using um [of 1] um [of 2] um [of "0x400"] um [of "0xA00"] by (simp_all add: PTE_P_def PTE_W_def PTE_SHARE_def)
  have un: "ucast (flags AND 0xA18) AND PTE_NX = 0"
  proof -
    have nx: "PTE_NX = push_bit 63 1" by (simp add: PTE_NX_def)
    have "bit PTE_NX n \<longleftrightarrow> n = 63" for n unfolding nx bit_push_bit_iff by (auto simp: bit_1_iff)
    then show ?thesis by (intro bit_word_eqI) (auto simp: bit_simps dest: bit_imp_le_length)
  qed
  have k: "e AND PTE_P \<noteq> 0" "e AND PTE_W = w" "e AND PTE_NX = x" "e AND PTE_SHARE = y" "e AND PTE_AVAIL AND NOT PTE_SHARE = ucast (flags AND 0xA00)"
  proof -
    show "e AND PTE_P \<noteq> 0" using prot2pte_flags(2) [OF assms(1)] .
    show "e AND PTE_W = w" "e AND PTE_NX = x" "e AND PTE_SHARE = y"
      unfolding e bit.conj_disj_distrib2 uk un d by (simp_all add: PTE_P_def PTE_W_def PTE_NX_def PTE_SHARE_def PTE_U_def)
    have "PTE_AVAIL AND NOT PTE_SHARE = 0xA00" by (simp add: PTE_AVAIL_def PTE_SHARE_def)
    then show "e AND PTE_AVAIL AND NOT PTE_SHARE = ucast (flags AND 0xA00)"
      unfolding e and.assoc bit.conj_disj_distrib2 using uk(4) by (simp add: d PTE_P_def PTE_W_def PTE_NX_def PTE_SHARE_def PTE_U_def)
  qed
  have bk: "ucast (ucast (flags AND 0xA00) :: u64) = flags AND 0xA00" by (rule bit_word_eqI) (auto simp: bit_simps)
  have bits: "(if w \<noteq> 0 then PROT_W else 0) = (if flags AND PROT_LAZY = 0 then flags AND PROT_W else 0)" "(if x = 0 then PROT_X else 0) = flags AND PROT_X"
      "(if y \<noteq> 0 then PROT_SHARE else 0) = flags AND PROT_SHARE"
    unfolding d using and_bit [of flags 0] and_bit [of flags 1] and_bit [of flags 6]
    by (auto simp: PROT_W_def PROT_X_def PROT_SHARE_def PTE_W_def PTE_NX_def PTE_SHARE_def)
  have "get_prot e = (flags AND 0xA00) OR PROT_R OR (if flags AND PROT_LAZY = 0 then flags AND PROT_W else 0) OR (flags AND PROT_X) OR (flags AND PROT_SHARE)"
    unfolding get_prot_def k(2-5) bk bits using k(1) by simp
  then show ?thesis unfolding seen_prot_def bit.conj_disj_distrib by (simp only: or.assoc or.commute or.left_commute)
qed

text \<open>
  C39: \<^verbatim>\<open>get_uvpt_entry\<close> agrees with the processor: for every address below \<open>2 ^ 48\<close> bytes the loads through the window succeed and give the entry that ends
  the hardware walk, as long as the top table has no large pages. This includes the addresses of the window itself.
\<close>

theorem get_uvpt_entry_walk:
  assumes "window m r" "v < 2 ^ 36" "\<not> huge (m (512 * r + PML4_INDEX v))"
  shows "get_uvpt_entry m r v = Some (snd (hw_entry m r v))"
  by (rule uvpt_entry_walk [OF assms])

lemma ex_window: "window ex_mem 1"
proof -
  have "pte_frame 0x1005 = 1" by (simp add: pte_frame_def PTE_ADDR_def PTE_NX_def)
  then show ?thesis by (simp add: window_def UVPT_INDEX_def ex_mem_def Let_def PTE_P_def PTE_PS_def)
qed

theorem get_uvpt_entry_walk_witness: "get_uvpt_entry ex_mem 1 0x5000000 = Some 0"
proof -
  have "PML4_INDEX 0x5000000 = 0" "PDP_INDEX 0x5000000 = 320" by (simp_all add: PML4_INDEX_def PDP_INDEX_def)
  then show ?thesis
    using get_uvpt_entry_walk [of ex_mem 1 "0x5000000"] ex_window by (simp add: hw_entry_def Let_def ex_mem_def ex_frames PTE_P_def PTE_PS_def)
qed

text \<open>
  C23: what a user program reads back of a mapping: after the kernel has mapped a page with the flags \<open>flags\<close> below the first 512 GiB, \<^verbatim>\<open>get_prot\<close> gives, for every
  address of the range, these flags as far as a program can see them: readable, executable and shared as asked for, the bits for applications, and writable
  only when the page is not copied on the first write.
\<close>

theorem mapped_protection_seen:
  assumes "user_inv s (cr3 s spc)" "window (mem s) (cr3 s spc)" "prot2pte flags = Inr prot" "flags AND 0x400 = 0" "length page \<le> MAX_CLASS" "page_class page \<le> 26"
    "2 ^ page_class page dvd addr" "addr + 2 ^ page_class page \<le> 2 ^ 27" "map_tables spc addr page flags s = Inr (0, t)" "addr \<le> v" "v < addr + 2 ^ page_class page"
  shows "map_option get_prot (get_uvpt_entry (mem t) (cr3 t spc) v) = Some (seen_prot flags)"
proof -
  let ?r = "cr3 s spc"
  note mt = map_tables_user [OF assms(1,3,5-9)]
  have v: "v < 2 ^ 27" using assms(8,11) by linarith
  have p4: "PML4_INDEX v = 0" using v by (simp add: PML4_INDEX_def)
  have look: "hw_lookup (mem t) ?r v = Some (page_addr page + (v - addr), prot)" using mt(3) [OF v] assms(10,11) by simp
  then have pr: "present (mem t (512 * ?r))" using hw_lookup_user [OF v] by (metis option.distinct(1))
  have w: "window (mem t) ?r" using assms(2) mt(4) [of UVPT_INDEX] by (simp add: window_def UVPT_INDEX_def)
  have nh: "\<not> huge (mem t (512 * ?r + PML4_INDEX v))" using mt(2) pr p4 by (simp add: user_inv_def Let_def)
  have v36: "v < 2 ^ 36" using v by (rule order_less_le_trans) (simp add: power_increasing)
  have "snd (hw_entry (mem t) ?r v) AND PERM = prot" using look unfolding hw_lookup_def by (auto split: prod.splits if_splits)
  then have "get_prot (snd (hw_entry (mem t) ?r v)) = get_prot prot" using get_prot_perm by metis
  then show ?thesis using uvpt_entry_walk [OF w v36 nh] get_prot_pte [OF assms(3,4)] mt(1) by simp
qed

theorem mapped_protection_seen_witness:
  "\<exists>t. map_tables 0 0 (left MAX_CLASS) 0x204 ex_walk = Inr (0, t) \<and> map_option get_prot (get_uvpt_entry (mem t) 1 0) = Some 0x204"
proof -
  obtain t where t: "map_tables 0 0 (left MAX_CLASS) 0x204 ex_walk = Inr (0, t)"
    using map_tables_example [of ex_walk 0 "0x204"] ex_walk_fields by (auto simp: PROT_LAZY_def)
  obtain prot where p: "prot2pte 0x204 = Inr prot" by (simp add: prot2pte_def PROT_LAZY_def assert_res_def)
  have "cr3 t 0 = 1" using hw_stepD(2) [OF map_tables_step [OF t]] ex_walk_fields by simp
  moreover have "seen_prot 0x204 = 0x204" by (simp add: seen_prot_def PROT_X_def PROT_SHARE_def PROT_R_def PROT_LAZY_def PROT_W_def)
  ultimately show ?thesis
    using mapped_protection_seen [OF _ _ p _ _ _ _ _ t, of 0] ex_walk_inv ex_window ex_walk_fields t by (simp add: left_page)
qed

end
