(* ===== verification/VmCheck.thy ===== *)
theory VmCheck
  imports AddrSpace
begin

unbundle bit_operations_syntax

text \<open>
  The run-time check of the trees of mappings: \<^verbatim>\<open>check_virtual_tree\<close> accepts exactly the trees of the right shape, and no sequence of the operations on pages
  makes it fail.
\<close>

section \<open>What the check accepts\<close>

text \<open>What it asks of one node.\<close>

definition node_checked :: "vtree \<Rightarrow> path \<Rightarrow> vnode \<Rightarrow> bool" where
  "node_checked t p n \<longleftrightarrow> node_ok p n \<and> (vphy n \<noteq> None \<longrightarrow> t (False # p) = None \<and> t (True # p) = None)"

text \<open>The tree as a structure of pointers: every node hangs from another, and pages have a class.\<close>

definition linked :: "vtree \<Rightarrow> bool" where
  "linked t \<longleftrightarrow> t [] \<noteq> None \<and> (\<forall>b p. t (b # p) \<noteq> None \<longrightarrow> t p \<noteq> None) \<and>
     (\<forall>p n q. t p = Some n \<longrightarrow> vphy n = Some q \<longrightarrow> length q \<le> MAX_CLASS)"

lemma linked_below:
  assumes "linked t" "t p = None" "suffix p q"
  shows "t q = None"
  using assms(3,2)
proof (induction q)
  case (Cons b q)
  show ?case
  proof (cases "p = b # q")
    case False
    then have "t q = None" using Cons by (auto simp: suffix_Cons)
    then show ?thesis using assms(1) unfolding linked_def by blast
  qed (use Cons.prems in simp)
qed simp

lemma suffix_cases: "suffix p q \<longleftrightarrow> q = p \<or> suffix (False # p) q \<or> suffix (True # p) q"
proof
  assume "suffix p q"
  then obtain zs where q: "q = zs @ p" unfolding suffix_def by blast
  show "q = p \<or> suffix (False # p) q \<or> suffix (True # p) q"
  proof (cases zs rule: rev_cases)
    case (snoc ys b)
    then have "suffix (b # p) q" using q by (simp add: suffix_def)
    then show ?thesis by (cases b) simp_all
  qed (simp add: q)
qed (auto simp: suffix_ConsD)

lemma check_node:
  assumes "linked t" "length p + k = MAX_CLASS" "t p = Some n"
  shows "(if vstate n AND NODE_TYPE_MASK = MAPPING_NODE
       then case vphy n of None \<Rightarrow> Inl AssertFail | Some q \<Rightarrow>
            assert_res ((vstate n AND PROT_LAZY = 0 \<or> vstate n AND PROT_SHARE = 0) \<and> t (False # p) = None \<and> t (True # p) = None \<and> page_class q = k)
       else assert_res (vphy n = None \<and> vstate n = INTERMEDIATE_NODE)) = Inr () \<longleftrightarrow> node_checked t p n"
proof -
  have "INTERMEDIATE_NODE AND NODE_TYPE_MASK \<noteq> MAPPING_NODE" by (simp add: INTERMEDIATE_NODE_def NODE_TYPE_MASK_def MAPPING_NODE_def)
  moreover have "page_class q = k \<longleftrightarrow> length q = length p" if "vphy n = Some q" for q
  proof -
    have "length q \<le> MAX_CLASS" using assms(1,3) that unfolding linked_def by blast
    then show ?thesis using assms(2) by (auto simp: page_class_def)
  qed
  ultimately show ?thesis using assms(2) by (auto simp: node_checked_def node_ok_def split: option.splits)
qed

lemma check_below:
  assumes "linked (vtree s spc)" "length p + k = MAX_CLASS" "vtree s spc p = Some n"
  shows "check_virtual_tree (Suc k) spc p s = Inr () \<longleftrightarrow>
    (\<forall>q n. suffix p q \<longrightarrow> vtree s spc q = Some n \<longrightarrow> node_checked (vtree s spc) q n)"
  using assms(2,3)
proof (induction k arbitrary: p n)
  case (0 p n)
  let ?t = "vtree s spc"
  have "\<not> node_checked ?t (b # p) m" for b m using 0 by (simp add: node_checked_def node_ok_def)
  then have child: "?t (b # p) = None \<longleftrightarrow> (\<forall>q m. suffix (b # p) q \<longrightarrow> ?t q = Some m \<longrightarrow> node_checked ?t q m)" for b
    using linked_below [OF assms(1), of "b # p"] by (cases "?t (b # p)") auto
  show ?case
    using check_node [OF assms(1) 0] 0(2) child [of False] child [of True]
    by (simp add: suffix_cases [of p] bind_res_Inr_iff) blast
next
  case (Suc k p n)
  let ?t = "vtree s spc"
  have child: "(?t (b # p) \<noteq> None \<longrightarrow> check_virtual_tree (Suc k) spc (b # p) s = Inr ()) \<longleftrightarrow>
      (\<forall>q m. suffix (b # p) q \<longrightarrow> ?t q = Some m \<longrightarrow> node_checked ?t q m)" for b
    using Suc.IH [of "b # p"] Suc.prems(1) linked_below [OF assms(1), of "b # p"] by (cases "?t (b # p)") auto
  have step: "check_virtual_tree (Suc (Suc k)) spc p s = Inr () \<longleftrightarrow> node_checked ?t p n \<and>
      (?t (False # p) \<noteq> None \<longrightarrow> check_virtual_tree (Suc k) spc (False # p) s = Inr ()) \<and>
      (?t (True # p) \<noteq> None \<longrightarrow> check_virtual_tree (Suc k) spc (True # p) s = Inr ())"
    unfolding check_virtual_tree.simps(2) [of "Suc k"]
    using check_node [OF assms(1) Suc.prems] Suc.prems(2) by (simp add: bind_res_Inr_iff del: check_virtual_tree.simps)
  show ?case unfolding step child suffix_cases [of p] using Suc.prems(2) by auto
qed

lemma check_iff:
  assumes "linked (vtree s spc)"
  shows "check_virtual_tree (Suc MAX_CLASS) spc [] s = Inr () \<longleftrightarrow> vtree_ok (vtree s spc)"
proof -
  let ?t = "vtree s spc"
  obtain n where n: "?t [] = Some n" using assms unfolding linked_def by blast
  have "(\<forall>q n. ?t q = Some n \<longrightarrow> node_checked ?t q n) \<longleftrightarrow> vtree_ok ?t"
  proof
    assume l: "\<forall>q n. ?t q = Some n \<longrightarrow> node_checked ?t q n"
    have "\<exists>m. ?t p = Some m \<and> vphy m = None" if c: "?t (b # p) \<noteq> None" for b p
    proof -
      obtain m where m: "?t p = Some m" using assms c unfolding linked_def by blast
      then have "node_checked ?t p m" using l by blast
      then have "vphy m = None" using c by (cases b) (auto simp: node_checked_def)
      then show ?thesis using m by blast
    qed
    then show "vtree_ok ?t" using l n unfolding vtree_ok_def node_checked_def by auto
  next
    assume ok: "vtree_ok ?t"
    have "?t (b # q) = None" if "?t q = Some m" "vphy m \<noteq> None" for b q m using vtree_okD(3) [OF ok, of b q] that by fastforce
    then show "\<forall>q n. ?t q = Some n \<longrightarrow> node_checked ?t q n" using vtree_okD(2) [OF ok] by (auto simp: node_checked_def)
  qed
  then show ?thesis using check_below [OF assms, of "[]" MAX_CLASS n] n by simp
qed

lemma ok_linked: "vtree_ok t \<Longrightarrow> linked t"
  unfolding vtree_ok_def linked_def node_ok_def by (fastforce split: option.splits)

text \<open>
  C40: \<^verbatim>\<open>check_virtual_tree\<close> is exact: on any tree of linked nodes it succeeds if and only if the tree has the shape that the memory manager relies on, with
  mappings only at the leaves, of the class of their page, never both lazy and shared.
\<close>

theorem check_virtual_tree_exact:
  assumes "linked (vtree s spc)"
  shows "check_virtual_tree (Suc MAX_CLASS) spc [] s = Inr () \<longleftrightarrow> vtree_ok (vtree s spc)"
  by (rule check_iff [OF assms])

theorem check_virtual_tree_exact_witness: "check_virtual_tree (Suc MAX_CLASS) 0 [] ex_vm = Inr ()"
  using check_virtual_tree_exact [of ex_vm 0] ok_linked [OF ex_tree_ok] ex_tree_ok by (simp add: ex_vm_def)

section \<open>Sequences of operations\<close>

text \<open>
  The operations that change trees, from a state \<open>s\<close> on: making and releasing address spaces, mapping and unmapping. A space is made only where there is
  none, and the others are called for spaces there are, that is which have a root.
\<close>

inductive vm_run :: "vmem \<Rightarrow> vmem \<Rightarrow> bool" for s where
  start: "vm_run s s"
| kspace_step: "vm_run s t \<Longrightarrow> init_kspace t = Inr u \<Longrightarrow> vtree t 0 [] = None \<Longrightarrow> vm_run s u"
| init_step: "vm_run s t \<Longrightarrow> init_address_space spc t = Inr (r, u) \<Longrightarrow> vtree t spc [] = None \<Longrightarrow> vm_run s u"
| release_step: "vm_run s t \<Longrightarrow> release_address_space spc t = Inr u \<Longrightarrow> vtree t spc [] \<noteq> None \<Longrightarrow> vm_run s u"
| map_step: "vm_run s t \<Longrightarrow> map_page spc addr page flags t = Inr (r, u) \<Longrightarrow> vtree t spc [] \<noteq> None \<Longrightarrow> addr < 2 ^ MAX_CLASS \<Longrightarrow>
    length page \<le> MAX_CLASS \<Longrightarrow> flags AND ALLOC_WEAK = 0 \<Longrightarrow> vm_run s u"
| unmap_step: "vm_run s t \<Longrightarrow> unmap_page spc addr c t = Inr u \<Longrightarrow> vtree t spc [] \<noteq> None \<Longrightarrow> addr < 2 ^ MAX_CLASS \<Longrightarrow> c \<le> MAX_CLASS \<Longrightarrow>
    vm_run s u"

text \<open>No space, or a tree of the right shape.\<close>

definition tree_or_none :: "vtree \<Rightarrow> bool" where
  "tree_or_none t \<longleftrightarrow> t = (\<lambda>p. None) \<or> vtree_ok t"

lemma tree_or_none_root: "tree_or_none t \<Longrightarrow> t [] \<noteq> None \<Longrightarrow> vtree_ok t"
  by (auto simp: tree_or_none_def)

lemma tree_or_none_no_root: "tree_or_none t \<Longrightarrow> t [] = None \<Longrightarrow> t = (\<lambda>p. None)"
  by (auto simp: tree_or_none_def vtree_ok_def)

text \<open>A space as it is made: the root alone.\<close>

definition fresh_tree :: vtree where
  "fresh_tree = [[] \<mapsto> \<lparr>vstate = INTERMEDIATE_NODE, vphy = None\<rparr>]"

lemma fresh_tree_ok: "vtree_ok fresh_tree"
  by (auto simp: fresh_tree_def vtree_ok_def node_ok_def)

lemma new_root_tree:
  assumes "new_vnode spc [] \<lparr>vstate = INTERMEDIATE_NODE, vphy = None\<rparr> s = Inr t" "vtree s spc = (\<lambda>p. None)"
  shows "vtree t = (vtree s)(spc := fresh_tree)"
  using assms by (auto simp: new_vnode_def bind_res_Inr_iff set_vnode_def fresh_tree_def)

lemma alloc_pt_to_tree:
  assumes "alloc_pt_to old put s = Inr (b, t)" "\<And>e s. vtree (put e s) = vtree s"
  shows "vtree t = vtree s"
proof (cases "\<not> present old \<or> huge old")
  case True
  then obtain page m where a: "alloc_page 0 True (pm s) = Inr (page, m)"
    using assms(1) by (auto simp: alloc_pt_to_def bind_res_Inr_iff)
  then show ?thesis using assms True by (cases page) (auto simp: alloc_pt_to_def bind_res_Inr_iff Let_def)
qed (use assms in \<open>simp add: alloc_pt_to_def\<close>)

lemma init_kspace_tree:
  assumes "init_kspace s = Inr t" "vtree s 0 = (\<lambda>p. None)"
  shows "vtree t = (vtree s)(0 := fresh_tree)"
proof -
  obtain p m k w where "new_vnode 0 [] \<lparr>vstate = INTERMEDIATE_NODE, vphy = None\<rparr>
      (set_word (k + UVPT_INDEX) (page2pa p OR PTE_P OR PTE_U) (s\<lparr>pm := page_ref p m, cr3 := (cr3 s)(0 := page_addr p), mem := w\<rparr>)) = Inr t"
    using assms(1) by (auto simp: init_kspace_def bind_res_Inr_iff Let_def split: option.splits)
  from new_root_tree [OF this] show ?thesis using assms(2) by (simp add: set_word_def)
qed

lemma init_address_space_tree:
  assumes "init_address_space spc s = Inr (r, t)" "vtree s spc = (\<lambda>p. None)"
  shows "vtree t = (vtree s)(spc := fresh_tree)"
proof -
  obtain b u k w where u: "alloc_pt_to 0 (\<lambda>e s. s\<lparr>cr3 := (cr3 s)(spc := pte_frame e)\<rparr>) (s\<lparr>cr3 := (cr3 s)(spc := 0)\<rparr>) = Inr (b, u)"
      "new_vnode spc [] \<lparr>vstate = INTERMEDIATE_NODE, vphy = None\<rparr> u = Inr w"
      "t = propagate_one_pml4 spc 0 (set_word (k + UVPT_INDEX) (frame_bytes (cr3 w spc) OR PTE_P OR PTE_U) w)"
    using assms(1) by (auto simp: init_address_space_def bind_res_Inr_iff split: prod.splits)
  have "vtree u = vtree s" using alloc_pt_to_tree [OF u(1)] by simp
  moreover have "vtree t = vtree w" unfolding u(3) by (intro hw_stepD(1) hw_intros)
  ultimately show ?thesis using new_root_tree [OF u(2)] assms(2) by simp
qed

lemma release_address_space_tree:
  assumes "release_address_space spc s = Inr t" "vtree_ok (vtree s spc)"
  shows "vtree t = (vtree s)(spc := \<lambda>p. None)"
proof -
  define unref_top :: "vmem res \<Rightarrow> nat \<Rightarrow> vmem res" where "unref_top = (\<lambda>r i. bind_res r (\<lambda>s. let e = mem s (512 * cr3 s 0 + i) in
       if present e \<and> i \<noteq> UVPT_INDEX then unref_frame (pte_frame e) s else Inr s))"
  have top: "hw_step s u" if "foldl unref_top (Inr s) is = Inr u" for "is" u using that
  proof (induction "is" arbitrary: u rule: rev_induct)
    case (snoc i xs)
    then obtain v where v: "foldl unref_top (Inr s) xs = Inr v" "unref_top (Inr v) i = Inr u"
      by (cases "foldl unref_top (Inr s) xs") (auto simp: unref_top_def)
    then have "hw_step v u" by (auto simp: unref_top_def Let_def split: if_splits intro: unref_frame_step hw_intros)
    then show ?case using snoc.IH [OF v(1)] hw_step_trans by blast
  qed (simp add: hw_intros)
  obtain u v w where u: "foldl unref_top (Inr s) [NUSERPML4..<512] = Inr u" "unmap_page spc 0 MAX_CLASS u = Inr v" "unref_frame (cr3 v spc) v = Inr w"
      "t = w\<lparr>cr3 := (cr3 w)(spc := 0), vtree := (vtree w)(spc := \<lambda>p. None)\<rparr>"
    using assms(1) unfolding release_address_space_def unref_top_def [symmetric] by (auto simp: bind_res_Inr_iff)
  have s: "vtree u = vtree s" "vtree w = vtree v" using hw_stepD(1) [OF top [OF u(1)]] hw_stepD(1) [OF unref_frame_step [OF u(3)]] by simp_all
  have "vtree v x = vtree u x" if "x \<noteq> spc" for x
    using unmap_page_maps(3) [OF u(2)] assms(2) that by (simp add: s)
  then show ?thesis by (auto simp: u(4) s fun_eq_iff)
qed

lemma vm_run_trees: "vm_run s t \<Longrightarrow> (\<And>x. vtree s x = (\<lambda>p. None)) \<Longrightarrow> tree_or_none (vtree t x)"
proof (induction arbitrary: x rule: vm_run.induct)
  case start
  then show ?case by (simp add: tree_or_none_def)
next
  case (kspace_step t u)
  note ih = kspace_step.IH [OF kspace_step.prems]
  show ?case using init_kspace_tree [OF kspace_step.hyps(2) tree_or_none_no_root [OF ih kspace_step.hyps(3)]] ih fresh_tree_ok by (simp add: tree_or_none_def)
next
  case (init_step t spc r u)
  note ih = init_step.IH [OF init_step.prems]
  show ?case using init_address_space_tree [OF init_step.hyps(2) tree_or_none_no_root [OF ih init_step.hyps(3)]] ih fresh_tree_ok by (simp add: tree_or_none_def)
next
  case (release_step t spc u)
  note ih = release_step.IH [OF release_step.prems]
  show ?case using release_address_space_tree [OF release_step.hyps(2) tree_or_none_root [OF ih release_step.hyps(3)]] ih by (simp add: tree_or_none_def)
next
  case (map_step t spc addr page flags r u)
  note ih = map_step.IH [OF map_step.prems]
  note m = map_page_maps [OF map_step.hyps(2) tree_or_none_root [OF ih map_step.hyps(3)] map_step.hyps(4-6)]
  show ?case using m(1,3) ih by (cases "x = spc") (simp_all add: tree_or_none_def)
next
  case (unmap_step t spc addr c u)
  note ih = unmap_step.IH [OF unmap_step.prems]
  note m = unmap_page_maps [OF unmap_step.hyps(2) tree_or_none_root [OF ih unmap_step.hyps(3)] unmap_step.hyps(4,5)]
  show ?case using m(1,3) ih by (cases "x = spc") (simp_all add: tree_or_none_def)
qed

text \<open>
  C12: the trees stay well formed. From the start of the machine, when no address space has a tree, through any sequence of makings and releases of address
  spaces, mappings and unmappings, failures for lack of memory included: every space then either has no tree at all or passes the run-time check.
\<close>

theorem vm_run_checked:
  assumes "\<forall>x. vtree s x = (\<lambda>p. None)" "vm_run s t"
  shows "vtree t x = (\<lambda>p. None) \<or> check_virtual_tree (Suc MAX_CLASS) x [] t = Inr ()"
proof -
  have "tree_or_none (vtree t x)" using vm_run_trees [OF assms(2)] assms(1) by blast
  then show ?thesis using check_iff [of t x] ok_linked unfolding tree_or_none_def by blast
qed

text \<open>The start of a machine with two free frames.\<close>

definition vm_off :: vmem where
  "vm_off = \<lparr>pm = \<lparr>nodes = (\<lambda>p. if p = left MAX_CLASS \<or> p = True # left 47 then Some \<lparr>pstate = ALLOCATABLE_NODE, refc = 0\<rparr>
       else if p = left (length p) \<and> length p < MAX_CLASS then Some \<lparr>pstate = PARTIAL_NODE, refc = 0\<rparr> else None), free_classes = (\<lambda>c. if c = 0 then [left MAX_CLASS, True # left 47] else []),
     vlist = (\<lambda>p. 0), free_desc_count = 1000, pools = [], in_kspace = False, kern_end = 0\<rparr>, mem = (\<lambda>w. 0), vtree = (\<lambda>spc p. None), cr3 = (\<lambda>spc. 0), live = [],
     current_space = None, max_memory_map_addr = 2 ^ 40, tlb = [], zero_page = [], one_page = [], metaheaptop = 0, prev_mmio = 0\<rparr>"

lemma vm_off_alloc: "\<exists>m. alloc_page 0 True (pm vm_off) = Inr (Some (left MAX_CLASS), m) \<and> free_desc_count m = 1000"
proof -
  have "concat (map (free_classes (pm vm_off)) [0..<MAX_CLASS]) = [left MAX_CLASS, True # left 47]"
    by (simp add: vm_off_def MAX_CLASS_def upt_rec)
  then show ?thesis
    by (simp add: alloc_page_def find_page_def left_page BOOT_MEM_FRAMES_def page_lookup_def page_lookup_alloc_def list_del_def usable_def assert_res_def)
      (simp add: vm_off_def)
qed

theorem vm_run_checked_witness:
  "\<exists>t. init_kspace vm_off = Inr t \<and> check_virtual_tree (Suc MAX_CLASS) 0 [] t = Inr ()"
proof -
  obtain m where m: "alloc_page 0 True (pm vm_off) = Inr (Some (left MAX_CLASS), m)" "free_desc_count m = 1000" using vm_off_alloc by blast
  have "free_desc_count (page_ref (left MAX_CLASS) m) = 1000" using m(2)
    by (simp add: page_ref_def left_page Let_def list_del_def set_node_def split: option.splits)
  then obtain t where t: "init_kspace vm_off = Inr t"
    by (simp add: init_kspace_def m KADDR_def left_page set_word_def new_vnode_def alloc_descriptor_def ensure_free_desc_def assert_res_def)
  have z: "\<forall>x. vtree vm_off x = (\<lambda>p. None)" by (simp add: vm_off_def)
  then have "vm_run vm_off t" by (intro vm_run.kspace_step [OF vm_run.start t]) simp
  from vm_run_checked [OF z this, of 0] have "vtree t 0 = (\<lambda>p. None) \<or> check_virtual_tree (Suc MAX_CLASS) 0 [] t = Inr ()" .
  moreover have "vtree t 0 [] \<noteq> None" using init_kspace_tree [OF t] z by (simp add: fresh_tree_def)
  ultimately show ?thesis using t by auto
qed

end
