(* ===== verification/Spec2Isabelle.thy ===== *)
theory Spec2Isabelle
  imports NetRecv FileLib Pipe KernVm Uvpt VmCheck
begin

text \<open>
  Verification of the JOS kernel with its network stack, file server and user library.

  \<^bold>\<open>The program.\<close> A 64 bit teaching kernel. A frame that arrives at the network card is taken from the
  receive ring of the driver, dispatched by its Ethernet type to ARP or IP, by its IP protocol to ICMP, UDP or TCP, and a TCP
  segment with the push flag is handed to an HTTP server, whose answer goes down the same layers to the transmit ring. Beside
  it the kernel keeps a table of environments, a round robin scheduler, system calls with message passing, an allocator of
  physical pages and address spaces with four levels of page tables. The file system runs as a user environment on a block cache that faults pages in from the drive; other
  environments reach it by messages through a library of file descriptors, of which pipes are another kind.

  \<^bold>\<open>Theories.\<close>

  \<^item> \<open>Prelude\<close>: words, results with faults (null dereference, access out of bounds, failed assertion, panic), byte arrays,
    the console. Every stop of the code is a value \<open>Inl\<close>; error codes are ordinary results.
  \<^item> \<open>Inet\<close> (\<^verbatim>\<open>kern/inet.h\<close>): byte order macros and the layout of fields.
  \<^item> \<open>E1000\<close> (\<^verbatim>\<open>kern/e1000.c\<close>): the descriptor rings as the driver and the card see them. The rings implement queues of frames; steps of driver and
    card in any order keep them so.
  \<^item> \<open>ArpTable\<close>, \<open>Arp\<close> (\<^verbatim>\<open>kern/arp.c\<close>): the cache as a map of addresses, requests and replies.
  \<^item> \<open>Ethernet\<close>, \<open>Ip\<close>, \<open>Icmp\<close>, \<open>Udp\<close> (the files of the same names): headers as bytes, sending through all layers, the
    one's complement checksum against a reference.
  \<^item> \<open>Tcp\<close>, \<open>Http\<close> (\<^verbatim>\<open>kern/tcp.c\<close>, \<^verbatim>\<open>kern/http.c\<close>): the state machine of a channel, a whole session, and in each state which segments change nothing; the
    request parser against a reference decision.
  \<^item> \<open>NetRecv\<close> (\<^verbatim>\<open>ip_recv\<close>, \<^verbatim>\<open>eth_recv\<close>, \<^verbatim>\<open>mon_eth_recv\<close>): the receive path and the invariant of all states it reaches.
  \<^item> \<open>CString\<close> (\<^verbatim>\<open>lib/string.c\<close>): strings and memory, with the assembly variants of \<^verbatim>\<open>memset\<close> and \<^verbatim>\<open>memmove\<close>.
  \<^item> \<open>PrintFmt\<close>, \<open>VPrintf\<close> (\<^verbatim>\<open>lib/printfmt.c\<close>): numbers and the format interpreter.
  \<^item> \<open>Bcache\<close>, \<open>Fs\<close>, \<open>FsFile\<close> (\<^verbatim>\<open>fs/bc.c\<close>, \<^verbatim>\<open>fs/ide.c\<close>, \<^verbatim>\<open>fs/fs.c\<close>): the memory of the server with its disk map, every operation of the file
    system, and the correctness of reading, writing and block allocation.
  \<^item> \<open>Serv\<close> (\<^verbatim>\<open>fs/serv.c\<close>): open files, request handlers, one turn of the server.
  \<^item> \<open>FileLib\<close> (\<^verbatim>\<open>lib/fd.c\<close>, \<^verbatim>\<open>lib/file.c\<close>): descriptors and the client side; the round trip of a program's data through library, server,
    file system and cache.
  \<^item> \<open>Env\<close> (\<^verbatim>\<open>kern/env.c\<close>, \<^verbatim>\<open>kern/sched.c\<close>): environments and scheduler, with bounded waiting.
  \<^item> \<open>Syscall\<close> (\<^verbatim>\<open>kern/syscall.c\<close>, \<^verbatim>\<open>user_mem_check\<close> of \<^verbatim>\<open>kern/pmap.c\<close>): every system call and the dispatcher; delivery of
    messages, and what a call may change of environments that are none of the caller's.
  \<^item> \<open>Trap\<close> (\<^verbatim>\<open>kern/trap.c\<close>): traps, page faults, and the invariant of all states of the kernel.
  \<^item> \<open>Pipe\<close> (\<^verbatim>\<open>lib/pipe.c\<close>): the ring buffer under every interleaving of reader and writer, and the detection of end of file under \<^verbatim>\<open>close\<close>,
    \<^verbatim>\<open>dup\<close>, \<^verbatim>\<open>fork\<close> and \<^verbatim>\<open>spawn\<close> from the reference counts of the shared pages.
  \<^item> \<open>PhysMem\<close> (the first half of \<^verbatim>\<open>kern/pmap.c\<close>): the tree of physical pages, the free lists, reference counts, splitting and merging.
  \<^item> \<open>MemFlags\<close>, \<open>PageTable\<close>, \<open>VirtMem\<close> (the second half of \<^verbatim>\<open>kern/pmap.c\<close>): flags; the state of the memory manager, the routines on page tables and the walk
    of the processor; the trees of mappings and every operation on address spaces.
  \<^item> \<open>AddrSpace\<close>, \<open>VmRegion\<close>, \<open>VmShare\<close>, \<open>VmCheck\<close>: an address space as a function from pages to frames and flags. Mapping and unmapping of pages and regions,
    lazy allocation and sharing between spaces act on that function as specified; the trees are well formed from the making of a space to its release.
  \<^item> \<open>PageWalk\<close>, \<open>Uvpt\<close> (\<^verbatim>\<open>lib/uvpt.c\<close>): the tables as the processor reads them. After a mapping it finds exactly the new frames, large pages having been split; a
    program sees the same entries and protections through its window.
  \<^item> \<open>KernVm\<close>: the kernel with this memory manager in place of the parameter; an environment that is entered runs in its own address space, and a page sent in a message is shared.

  \<^bold>\<open>State.\<close> The network layers share one record that grows from layer to layer (console, card, ARP cache, packet id, channels), so
  an operation of a lower layer acts on the state of a higher one. The file system has its own memory, that of the server environment.
  The kernel proper is a record of environments with the state of the memory manager as a type parameter, which \<open>KernVm\<close> fills in. The memory manager keeps
  physical memory as an array of 64-bit words, the physical pages of \<open>PhysMem\<close>, and one tree of mappings and one top table for each space.

  \<^bold>\<open>Interfaces.\<close> What one part relies on in another is a locale, interpreted on the model of the provider: \<open>tx_queue\<close> and \<open>rx_queue\<close> in \<open>E1000\<close>
  (the rings as the layers above use them), \<open>mac_cache\<close> in \<open>ArpTable\<close> (lookup after updates), \<open>backed_store\<close> in \<open>Bcache\<close> (what is in memory and what is on the
  drive), \<open>descriptor_source\<close> in \<open>PhysMem\<close> (the allocation of page descriptors that the lookup of pages uses and that itself allocates a page), \<open>region_step\<close>
  in \<open>VmRegion\<close> (what one page of a region does, from which the loops over sizes follow; it is interpreted for unmapping, for device memory, for lazy allocation and
  for sharing).

  \<^bold>\<open>Parameters.\<close> Contents of uninitialised stack memory (\<open>junk\<close>), results of the firmware and of the memory manager for system
  calls, the reading of the clock and of the disk status, the operations of devices other than files in \<open>FileLib\<close>,
  the destruction of an environment when the memory manager finds no memory for it (\<open>destroy\<close>).

  \<^bold>\<open>Bounds and fuel.\<close> Loops are recursive functions with a termination proof, or recursion over a list of indices. The recursions of
  \<open>PhysMem\<close> into the tree carry the number of levels below the page, which the depth bound of the invariant makes enough: \<open>page_unref\<close> and \<open>page_ref\<close>
  start with the class of the page plus one. Where a loop of the code need not end, as in the check of a user memory range, the theorem says when it does.
  Virtual and physical addresses of the memory manager are numbers of frames below \<open>2 ^ 48\<close>, which is the root of its trees. The theorems on the tables are about the
  first 512 GiB, which belong to user programs; \<open>PageWalk\<close> does not cover mappings of 512 GiB and more, which the code gets wrong.
  The properties of pipes hold up to the first \<open>2 ^ 31\<close> bytes; what happens when the positions wrap is a separate theorem.

  \<^bold>\<open>What the theorems show.\<close> Invariants of every reachable state (network, kernel, physical pages, rings, trees of mappings); refinement of abstract
  queues, maps, streams and address spaces; translation by the page tables; round trips of files, numbers and messages; equivalence of optimised routines with reference definitions; isolation of
  files, of environments and of physical pages; liveness of the scheduler and of the release of pages; the answers of the protocols on every branch. A group of
  theorems documents defects of the code, each with the input that shows it.

  \<^bold>\<open>Not modelled.\<close> The detection of memory and the first mappings at boot, the shadow memory of the sanitizer, the console and PCI
  drivers, clocks and interrupt controller (device registers), the loading of programs (\<^verbatim>\<open>load_icode\<close>, \<^verbatim>\<open>spawn\<close>), debug information, the boot
  loader, the sanitizer runtimes, host tools and the test programs under \<^verbatim>\<open>user/\<close>.
\<close>

end
